(* ===== verification/Prelude.thy ===== *)
theory Prelude
  imports
    Main
    "HOL-Library.Word"
    "HOL-Library.Multiset"
    "HOL-Library.List_Lexorder"
    "HOL-Library.Char_ord"
begin

text \<open>
  Shared vocabulary of the development: the machine integers of the C++ code, errors as
  values, the sequencing of computations that may throw, and generic lemmas on lists and
  machine words that several components use.

  A C++ function that may throw is a function into \<open>'a result\<close>; \<open>Inl e\<close> is the
  exception \<open>e\<close>.  The exception classes are those of \<open>src/netspeak/error.hpp\<close> and
  \<open>src/netspeak/util/exception.hpp\<close>; the payload is the message.
\<close>

named_theorems word_bound \<open>bounds that turn machine arithmetic into natural numbers\<close>
named_theorems lang_simps \<open>equations of the phrase languages\<close>

type_synonym u8 = "8 word"
type_synonym u16 = "16 word"
type_synonym u32 = "32 word"
type_synonym u64 = "64 word"

datatype net_error =
    InvalidQuery string
  | LogicError string
  | RuntimeError string
  | InvalidArgument string

type_synonym 'a result = "net_error + 'a"

section \<open>Sequencing computations that may throw\<close>

definition rbind :: "'a result \<Rightarrow> ('a \<Rightarrow> 'b result) \<Rightarrow> 'b result" where
  "rbind r f = (case r of Inl e \<Rightarrow> Inl e | Inr x \<Rightarrow> f x)"

lemma rbind_simps [simp]:
  "rbind (Inl e) f = Inl e"
  "rbind (Inr x) f = f x"
  by (simp_all add: rbind_def)

lemma rbind_eq_Inr [simp]: "rbind r f = Inr y \<longleftrightarrow> (\<exists>x. r = Inr x \<and> f x = Inr y)"
  by (cases r) auto

lemma rbind_eq_Inl: "rbind r f = Inl e \<longleftrightarrow> r = Inl e \<or> (\<exists>x. r = Inr x \<and> f x = Inl e)"
  by (cases r) auto

lemma rbind_cong [fundef_cong]:
  "r = r' \<Longrightarrow> (\<And>x. r' = Inr x \<Longrightarrow> f x = f' x) \<Longrightarrow> rbind r f = rbind r' f'"
  by (cases r') auto

fun mapR :: "('a \<Rightarrow> 'b result) \<Rightarrow> 'a list \<Rightarrow> 'b list result" where
  "mapR f [] = Inr []"
| "mapR f (x # xs) = rbind (f x) (\<lambda>y. rbind (mapR f xs) (\<lambda>ys. Inr (y # ys)))"

lemma mapR_eq_Inr: "mapR f xs = Inr ys \<longleftrightarrow> list_all2 (\<lambda>x y. f x = Inr y) xs ys"
  by (induction xs arbitrary: ys) (auto simp: list_all2_Cons1)

lemma mapR_cong [fundef_cong]:
  "xs = xs' \<Longrightarrow> (\<And>x. x \<in> set xs' \<Longrightarrow> f x = g x) \<Longrightarrow> mapR f xs = mapR g xs'"
  by (induction xs arbitrary: xs') auto

section \<open>The largest machine integers\<close>

abbreviation UINT32_MAX :: u32 where "UINT32_MAX \<equiv> - 1"
abbreviation UINT64_MAX :: u64 where "UINT64_MAX \<equiv> - 1"

lemma unat_UINT32_MAX [simp]: "unat UINT32_MAX = 2 ^ 32 - 1"
  by (simp add: unsigned_minus_1_eq_mask mask_eq_exp_minus_1)

lemma unat_UINT64_MAX [simp]: "unat UINT64_MAX = 2 ^ 64 - 1"
  by (simp add: unsigned_minus_1_eq_mask mask_eq_exp_minus_1)

lemma word_le_minus_one [simp]: "(w :: 'a::len word) \<le> - 1"
  by simp

lemma minus_one_word_le [simp]: "- 1 \<le> (w :: 'a::len word) \<longleftrightarrow> w = - 1"
  by (metis antisym order_refl word_le_minus_one)

lemma unat_u32_less [simp]: "unat (w :: u32) < 2 ^ 32"
  using unsigned_less [of w] by simp

lemma unat_u64_less [simp]: "unat (w :: u64) < 2 ^ 64"
  using unsigned_less [of w] by simp

lemma unat_of_nat_u32 [word_bound]: "n < 2 ^ 32 \<Longrightarrow> unat (of_nat n :: u32) = n"
  by (simp add: unat_of_nat take_bit_nat_eq_self)

lemma unat_of_nat_u64 [word_bound]: "n < 2 ^ 64 \<Longrightarrow> unat (of_nat n :: u64) = n"
  by (simp add: unat_of_nat take_bit_nat_eq_self)

lemma of_nat_u32_eq_MAX [word_bound]:
  assumes "n < 2 ^ 32 - 1"
  shows "(of_nat n :: u32) \<noteq> UINT32_MAX"
proof
  assume "(of_nat n :: u32) = UINT32_MAX"
  then have "unat (of_nat n :: u32) = 2 ^ 32 - 1"
    by (simp only: unat_UINT32_MAX)
  moreover have "unat (of_nat n :: u32) = n"
    by (rule unat_of_nat_u32) (use assms in simp)
  ultimately show False
    using assms by simp
qed

lemma of_nat_u32_eq_0 [word_bound]: "n < 2 ^ 32 \<Longrightarrow> (of_nat n :: u32) = 0 \<longleftrightarrow> n = 0"
  by (simp only: word_unat_eq_iff unat_of_nat_u32 unat_0)

lemma of_nat_u32_less [word_bound]:
  "m < 2 ^ 32 \<Longrightarrow> n < 2 ^ 32 \<Longrightarrow> (of_nat m :: u32) < of_nat n \<longleftrightarrow> m < n"
  by (simp add: word_less_nat_alt unat_of_nat_u32)

lemma of_nat_u32_le [word_bound]:
  "m < 2 ^ 32 \<Longrightarrow> n < 2 ^ 32 \<Longrightarrow> (of_nat m :: u32) \<le> of_nat n \<longleftrightarrow> m \<le> n"
  by (simp add: word_le_nat_alt unat_of_nat_u32)

section \<open>Lists updated by index\<close>

text \<open>\<open>std::vector::erase\<close> at one position.\<close>

definition erase_at :: "nat \<Rightarrow> 'a list \<Rightarrow> 'a list" where
  "erase_at i xs = take i xs @ drop (Suc i) xs"

lemma length_erase_at: "i < length xs \<Longrightarrow> length (erase_at i xs) = length xs - 1"
  by (simp add: erase_at_def)

lemma set_erase_at_subset: "set (erase_at i xs) \<subseteq> set xs"
  by (auto simp: erase_at_def dest: in_set_takeD in_set_dropD)

text \<open>The elements of a list whose index satisfies a predicate, counting from \<open>k\<close>.\<close>

fun keep_from :: "(nat \<Rightarrow> bool) \<Rightarrow> nat \<Rightarrow> 'a list \<Rightarrow> 'a list" where
  "keep_from p k [] = []"
| "keep_from p k (x # xs) = (if p k then x # keep_from p (Suc k) xs else keep_from p (Suc k) xs)"

lemma keep_from_cong:
  "(\<And>i. k \<le> i \<Longrightarrow> i < k + length xs \<Longrightarrow> p i = q i) \<Longrightarrow> keep_from p k xs = keep_from q k xs"
  by (induction xs arbitrary: k) auto

lemma keep_from_True [simp]: "keep_from (\<lambda>_. True) k xs = xs"
  by (induction xs arbitrary: k) auto

lemma keep_from_all: "(\<And>i. k \<le> i \<Longrightarrow> i < k + length xs \<Longrightarrow> p i) \<Longrightarrow> keep_from p k xs = xs"
  using keep_from_cong [of k xs p "\<lambda>_. True"] by simp

lemma keep_from_append:
  "keep_from p k (xs @ ys) = keep_from p k xs @ keep_from p (k + length xs) ys"
  by (induction xs arbitrary: k) auto

lemma keep_from_erase_at:
  assumes "j < length xs" and "\<And>i. k + j \<le> i \<Longrightarrow> p i"
  shows "keep_from p k (erase_at j xs) = keep_from (\<lambda>i. i \<noteq> k + j \<and> p i) k xs"
proof -
  have split: "xs = take j xs @ xs ! j # drop (Suc j) xs"
    using assms(1) by (simp add: id_take_nth_drop)
  have l: "length (take j xs) = j" using assms(1) by simp
  have a: "keep_from p k (take j xs) = keep_from (\<lambda>i. i \<noteq> k + j \<and> p i) k (take j xs)"
    by (rule keep_from_cong) (use l in auto)
  have b: "keep_from p (k + j) (drop (Suc j) xs) = drop (Suc j) xs"
    by (rule keep_from_all) (use assms(2) in auto)
  have c: "keep_from (\<lambda>i. i \<noteq> k + j \<and> p i) (Suc (k + j)) (drop (Suc j) xs) = drop (Suc j) xs"
    by (rule keep_from_all) (use assms(2) in auto)
  have "keep_from (\<lambda>i. i \<noteq> k + j \<and> p i) k xs
      = keep_from (\<lambda>i. i \<noteq> k + j \<and> p i) k (take j xs) @ drop (Suc j) xs"
    using arg_cong [OF split, of "keep_from (\<lambda>i. i \<noteq> k + j \<and> p i) k"]
    by (simp only: keep_from_append l keep_from.simps c) simp
  then show ?thesis
    by (simp only: erase_at_def keep_from_append l a b)
qed

lemma set_keep_from: "set (keep_from p k xs) \<subseteq> set xs"
  by (induction xs arbitrary: k) auto

section \<open>Sums and maxima over lists\<close>

lemma sum_list_le_member: "x \<in> set xs \<Longrightarrow> (f x :: nat) \<le> sum_list (map f xs)"
  by (induction xs) auto

lemma sum_list_concat_map: "sum_list (concat xss) = sum_list (map sum_list xss)"
  by (induction xss) auto

lemma Max_insert0_ge: "x \<in> set xs \<Longrightarrow> (f x :: nat) \<le> Max (insert 0 (f ` set xs))"
  by (intro Max_ge) auto

fun max_list0 :: "nat list \<Rightarrow> nat" where
  "max_list0 [] = 0"
| "max_list0 (x # xs) = max x (max_list0 xs)"

lemma max_list0_ge: "x \<in> set xs \<Longrightarrow> x \<le> max_list0 xs"
  by (induction xs) auto

lemma max_list0_le: "(\<And>x. x \<in> set xs \<Longrightarrow> x \<le> b) \<Longrightarrow> max_list0 xs \<le> b"
  by (induction xs) auto

lemma max_list0_append [simp]: "max_list0 (xs @ ys) = max (max_list0 xs) (max_list0 ys)"
  by (induction xs) auto

end
