(* ===== verification/Length_Range.thy ===== *)
theory Length_Range
  imports Prelude
begin

text \<open>
  \<open>src/netspeak/model/LengthRange.{hpp,cpp}\<close>: intervals of phrase lengths on
  \<open>uint32_t\<close>.  A minimum of \<open>UINT32_MAX\<close> marks the empty range and a maximum of
  \<open>UINT32_MAX\<close> an unbounded one, so both operators have a case analysis on the sentinels.
  \<open>lr_set\<close> is the set of lengths a range stands for; \<open>&=\<close> is the sumset and \<open>|=\<close> the
  convex hull of the union.
\<close>

record length_range =
  lr_min :: u32
  lr_max :: u32

text \<open>The three constructors.\<close>

definition lr_none :: length_range where
  "lr_none = \<lparr>lr_min = UINT32_MAX, lr_max = 0\<rparr>"

definition lr_from :: "u32 \<Rightarrow> length_range" where
  "lr_from mn = \<lparr>lr_min = mn, lr_max = UINT32_MAX\<rparr>"

definition lr_between :: "u32 \<Rightarrow> u32 \<Rightarrow> length_range" where
  "lr_between mn mx = \<lparr>lr_min = mn, lr_max = mx\<rparr>"

definition lr_empty :: "length_range \<Rightarrow> bool" where
  "lr_empty r \<longleftrightarrow> lr_min r = UINT32_MAX"

definition lr_unbounded :: "length_range \<Rightarrow> bool" where
  "lr_unbounded r \<longleftrightarrow> lr_min r \<noteq> UINT32_MAX \<and> lr_max r = UINT32_MAX"

definition lr_accepts :: "length_range \<Rightarrow> u32 \<Rightarrow> bool" where
  "lr_accepts r n \<longleftrightarrow> \<not> lr_empty r \<and> lr_min r \<le> n \<and> n \<le> lr_max r"

text \<open>\<open>operator&=\<close>: concatenation.\<close>

definition lr_concat_assign :: "length_range \<Rightarrow> length_range \<Rightarrow> length_range" where
  "lr_concat_assign lhs rhs =
    (if lr_empty lhs then lhs
     else if lr_empty rhs then lhs\<lparr>lr_min := UINT32_MAX\<rparr>
     else if lr_max lhs = UINT32_MAX then lhs\<lparr>lr_min := lr_min lhs + lr_min rhs\<rparr>
     else if lr_max rhs = UINT32_MAX
       then lhs\<lparr>lr_min := lr_min lhs + lr_min rhs, lr_max := UINT32_MAX\<rparr>
     else lhs\<lparr>lr_min := lr_min lhs + lr_min rhs, lr_max := lr_max lhs + lr_max rhs\<rparr>)"

text \<open>\<open>operator|=\<close>: union.\<close>

definition lr_union_assign :: "length_range \<Rightarrow> length_range \<Rightarrow> length_range" where
  "lr_union_assign lhs rhs =
    (if lr_empty rhs then lhs
     else if lr_empty lhs then rhs
     else
       (let lhs1 = (if lr_min rhs < lr_min lhs then lhs\<lparr>lr_min := lr_min rhs\<rparr> else lhs)
        in if lr_max rhs > lr_max lhs1 then lhs1\<lparr>lr_max := lr_max rhs\<rparr> else lhs1))"

text \<open>
  The binary operators copy their left operand; both then call \<open>|=\<close>.
\<close>

definition lr_concat :: "length_range \<Rightarrow> length_range \<Rightarrow> length_range" where
  "lr_concat lhs rhs = (let copy = lhs in lr_union_assign copy rhs)"

definition lr_union :: "length_range \<Rightarrow> length_range \<Rightarrow> length_range" where
  "lr_union lhs rhs = (let copy = lhs in lr_union_assign copy rhs)"

section \<open>The lengths a range stands for\<close>

definition lr_set :: "length_range \<Rightarrow> nat set" where
  "lr_set r =
    (if lr_empty r then {}
     else if lr_max r = UINT32_MAX then {unat (lr_min r)..}
     else {unat (lr_min r)..unat (lr_max r)})"

definition lr_wf :: "length_range \<Rightarrow> bool" where
  "lr_wf r \<longleftrightarrow> lr_empty r \<or> lr_min r \<le> lr_max r"

lemma lr_simps [simp]:
  "lr_set lr_none = {}"
  "lr_wf lr_none"
  "lr_empty lr_none"
  "n \<noteq> UINT32_MAX \<Longrightarrow> lr_set (lr_from n) = {unat n..}"
  "lr_wf (lr_from n)"
  "m \<noteq> UINT32_MAX \<Longrightarrow> n \<noteq> UINT32_MAX \<Longrightarrow> lr_set (lr_between m n) = {unat m..unat n}"
  "m \<le> n \<Longrightarrow> lr_wf (lr_between m n)"
  by (auto simp: lr_set_def lr_none_def lr_empty_def lr_from_def lr_wf_def lr_between_def)

lemma lr_fields [simp]:
  "lr_min (lr_between m n) = m" "lr_max (lr_between m n) = n"
  "lr_min (lr_from m) = m" "lr_max (lr_from m) = UINT32_MAX"
  "lr_empty (lr_between m n) \<longleftrightarrow> m = UINT32_MAX" "lr_empty (lr_from m) \<longleftrightarrow> m = UINT32_MAX"
  by (simp_all add: lr_between_def lr_from_def lr_empty_def)

lemma lr_set_ray: "\<not> lr_empty r \<Longrightarrow> lr_max r = UINT32_MAX \<Longrightarrow> lr_set r = {unat (lr_min r)..}"
  by (simp add: lr_set_def)

lemma lr_set_empty_iff: "lr_wf r \<Longrightarrow> lr_set r = {} \<longleftrightarrow> lr_empty r"
  by (auto simp: lr_set_def lr_wf_def word_le_nat_alt)

lemma lr_accepts_iff: "lr_accepts r n \<longleftrightarrow> unat n \<in> lr_set r"
proof -
  have "unat n \<le> unat UINT32_MAX" by (simp only: word_le_nat_alt [symmetric] word_le_minus_one)
  then show ?thesis
    by (auto simp: lr_accepts_def lr_set_def word_le_nat_alt)
qed

lemma lr_min_set: "lr_wf r \<Longrightarrow> \<not> lr_empty r \<Longrightarrow> unat (lr_min r) \<in> lr_set r"
  by (auto simp: lr_set_def lr_wf_def word_le_nat_alt)

lemma lr_set_min_le: "n \<in> lr_set r \<Longrightarrow> unat (lr_min r) \<le> n"
  by (auto simp: lr_set_def split: if_splits)

lemma lr_set_max_ge: "n \<in> lr_set r \<Longrightarrow> lr_max r \<noteq> UINT32_MAX \<Longrightarrow> n \<le> unat (lr_max r)"
  by (auto simp: lr_set_def split: if_splits)

text \<open>The sums both operators of a concatenation may form stay below the sentinel.\<close>

definition lr_sum_fits :: "length_range \<Rightarrow> length_range \<Rightarrow> bool" where
  "lr_sum_fits a b \<longleftrightarrow>
    unat (lr_min a) + unat (lr_min b) < 2 ^ 32 - 1
    \<and> (lr_max a \<noteq> UINT32_MAX \<and> lr_max b \<noteq> UINT32_MAX \<longrightarrow>
        unat (lr_max a) + unat (lr_max b) < 2 ^ 32 - 1)"

lemma unat_add_u32: "unat a + unat b < 2 ^ 32 \<Longrightarrow> unat (a + b :: u32) = unat a + unat b"
  using unat_add_lem [of a b] by simp

lemma add_u32_not_MAX:
  assumes "unat a + unat b < 2 ^ 32 - 1"
  shows "a + b \<noteq> UINT32_MAX"
proof -
  have "unat (a + b) = unat a + unat b" by (rule unat_add_u32) (use assms in simp)
  then show ?thesis using assms unat_UINT32_MAX by (metis less_irrefl)
qed

lemma add_u32_fits:
  assumes "unat a + unat b < 2 ^ 32 - 1"
  shows "unat (a + b :: u32) = unat a + unat b" and "a + b \<noteq> UINT32_MAX"
  using assms add_u32_not_MAX unat_add_u32 [of a b] by simp_all

lemma interval_sumset:
  fixes a b c d :: nat
  assumes "a \<le> b" "c \<le> d"
  shows "{i + j | i j. i \<in> {a..b} \<and> j \<in> {c..d}} = {a + c..b + d}"
proof (intro set_eqI iffI)
  fix n assume n: "n \<in> {a + c..b + d}"
  show "n \<in> {i + j | i j. i \<in> {a..b} \<and> j \<in> {c..d}}"
  proof (cases "n \<le> b + c")
    case True
    then have "n = (n - c) + c" "n - c \<in> {a..b}" "c \<in> {c..d}" using n assms by auto
    then show ?thesis by blast
  next
    case False
    then have "n = b + (n - b)" "b \<in> {a..b}" "n - b \<in> {c..d}" using n assms by auto
    then show ?thesis by blast
  qed
qed auto

lemma ray_sumset:
  fixes a c :: nat
  assumes "S \<noteq> {}" "\<And>i. i \<in> S \<Longrightarrow> a \<le> i" "a \<in> S"
  shows "{i + j | i j. i \<in> S \<and> j \<in> {c..}} = {a + c..}"
proof (intro set_eqI iffI)
  fix n assume "n \<in> {a + c..}"
  then have "n = a + (n - a)" "n - a \<in> {c..}" by auto
  then show "n \<in> {i + j | i j. i \<in> S \<and> j \<in> {c..}}" using assms(3) by blast
qed (use assms(2) in force)

lemma sumset_commute:
  "{i + j | i j. i \<in> A \<and> j \<in> B} = {i + j | i j. i \<in> B \<and> j \<in> (A :: nat set)}"
  by (auto simp: add.commute intro: exI [of _ "_ :: nat"]) (metis add.commute)+

lemma lr_concat_assign_set:
  assumes "lr_wf a" "lr_wf b" "lr_empty a \<or> lr_empty b \<or> lr_sum_fits a b"
  shows "lr_set (lr_concat_assign a b) = {i + j | i j. i \<in> lr_set a \<and> j \<in> lr_set b}"
proof (cases "lr_empty a \<or> lr_empty b")
  case True
  then show ?thesis
    by (auto simp: lr_concat_assign_def lr_set_def lr_empty_def)
next
  case False
  then have ne: "\<not> lr_empty a" "\<not> lr_empty b" by auto
  then have fits: "lr_sum_fits a b" using assms by blast
  then have mn: "unat (lr_min a + lr_min b) = unat (lr_min a) + unat (lr_min b)"
      "lr_min a + lr_min b \<noteq> UINT32_MAX"
    using add_u32_fits by (auto simp: lr_sum_fits_def)
  have wf: "lr_min a \<le> lr_max a" "lr_min b \<le> lr_max b"
    using assms ne by (auto simp: lr_wf_def)
  consider (u1) "lr_max a = UINT32_MAX" | (u2) "lr_max a \<noteq> UINT32_MAX" "lr_max b = UINT32_MAX"
    | (bb) "lr_max a \<noteq> UINT32_MAX" "lr_max b \<noteq> UINT32_MAX" by blast
  then show ?thesis
  proof cases
    case u1
    have r: "lr_concat_assign a b = a\<lparr>lr_min := lr_min a + lr_min b\<rparr>"
      using ne u1 by (simp add: lr_concat_assign_def)
    have "{i + j | i j. i \<in> lr_set b \<and> j \<in> lr_set a} = {unat (lr_min b) + unat (lr_min a)..}"
      using ray_sumset [of "lr_set b" "unat (lr_min b)" "unat (lr_min a)"]
        lr_min_set [OF assms(2) ne(2)] lr_set_min_le lr_set_ray [OF ne(1) u1] by auto
    then have "{i + j | i j. i \<in> lr_set a \<and> j \<in> lr_set b} = {unat (lr_min b) + unat (lr_min a)..}"
      by (subst sumset_commute)
    moreover have "lr_set (lr_concat_assign a b) = {unat (lr_min a + lr_min b)..}"
      unfolding r by (rule lr_set_ray [THEN trans]) (use mn u1 in \<open>auto simp: lr_empty_def\<close>)
    ultimately show ?thesis by (simp only: mn add.commute)
  next
    case u2
    have r: "lr_concat_assign a b = a\<lparr>lr_min := lr_min a + lr_min b, lr_max := UINT32_MAX\<rparr>"
      using ne u2 by (simp add: lr_concat_assign_def)
    have "{i + j | i j. i \<in> lr_set a \<and> j \<in> lr_set b} = {unat (lr_min a) + unat (lr_min b)..}"
      using ray_sumset [of "lr_set a" "unat (lr_min a)" "unat (lr_min b)"]
        lr_min_set [OF assms(1) ne(1)] lr_set_min_le lr_set_ray [OF ne(2) u2(2)] by auto
    moreover have "lr_set (lr_concat_assign a b) = {unat (lr_min a + lr_min b)..}"
      unfolding r by (rule lr_set_ray [THEN trans]) (use mn in \<open>auto simp: lr_empty_def\<close>)
    ultimately show ?thesis by (simp only: mn)
  next
    case bb
    then have mx: "unat (lr_max a + lr_max b) = unat (lr_max a) + unat (lr_max b)"
        "lr_max a + lr_max b \<noteq> UINT32_MAX"
      using fits bb add_u32_fits [of "lr_max a" "lr_max b"] by (auto simp: lr_sum_fits_def)
    have "lr_set (lr_concat_assign a b)
        = {unat (lr_min a) + unat (lr_min b)..unat (lr_max a) + unat (lr_max b)}"
      using ne mn mx bb by (simp add: lr_concat_assign_def lr_set_def lr_empty_def)
    then show ?thesis
      using interval_sumset [of "unat (lr_min a)" "unat (lr_max a)" "unat (lr_min b)" "unat (lr_max b)"]
        wf ne bb by (simp add: lr_set_def [of a] lr_set_def [of b] word_le_nat_alt)
  qed
qed

lemma lr_concat_assign_wf:
  assumes "lr_wf a" "lr_wf b" "lr_empty a \<or> lr_empty b \<or> lr_sum_fits a b"
  shows "lr_wf (lr_concat_assign a b)"
proof (cases "lr_empty a \<or> lr_empty b")
  case True
  then show ?thesis by (auto simp: lr_concat_assign_def lr_wf_def lr_empty_def)
next
  case False
  then have "lr_sum_fits a b" using assms by blast
  then show ?thesis
    using False assms add_u32_fits [of "lr_max a" "lr_max b"] add_u32_fits [of "lr_min a" "lr_min b"]
    by (auto simp: lr_concat_assign_def lr_wf_def lr_sum_fits_def lr_empty_def word_le_nat_alt)
qed

text \<open>The union operator takes the smallest interval around both ranges.\<close>

lemma lr_union_assign_wf: "lr_wf a \<Longrightarrow> lr_wf b \<Longrightarrow> lr_wf (lr_union_assign a b)"
  by (auto simp: lr_union_assign_def lr_wf_def lr_empty_def Let_def)

lemma unat_u32_MAX_iff: "unat (w :: u32) = unat UINT32_MAX \<longleftrightarrow> w = UINT32_MAX"
  by (simp only: word_unat_eq_iff)

lemma lr_set_below:
  "lr_wf r \<Longrightarrow> \<not> lr_empty r \<Longrightarrow> (\<exists>i \<in> lr_set r. i \<le> n) \<longleftrightarrow> unat (lr_min r) \<le> n"
  using lr_min_set lr_set_min_le order.trans by blast

lemma lr_set_above:
  assumes "lr_wf r" "\<not> lr_empty r"
  shows "(\<exists>j \<in> lr_set r. n \<le> j) \<longleftrightarrow> lr_max r = UINT32_MAX \<or> n \<le> unat (lr_max r)"
proof (cases "lr_max r = UINT32_MAX")
  case True
  then have "max n (unat (lr_min r)) \<in> lr_set r" using lr_set_ray [OF assms(2)] by simp
  then show ?thesis using True by (metis max.cobounded1)
next
  case False
  then have "unat (lr_max r) \<in> lr_set r"
    using assms by (auto simp: lr_set_def lr_wf_def word_le_nat_alt)
  then show ?thesis using False lr_set_max_ge [of _ r] order.trans by blast
qed

lemma lr_mem_iff:
  "n \<in> lr_set r \<longleftrightarrow> \<not> lr_empty r \<and> unat (lr_min r) \<le> n
     \<and> (lr_max r = UINT32_MAX \<or> n \<le> unat (lr_max r))"
  by (auto simp: lr_set_def)

lemma unat_u32_le_MAX: "unat (w :: u32) \<le> 4294967295"
  using unat_u32_less [of w] by simp

lemma lr_union_assign_set:
  assumes "lr_wf a" "lr_wf b"
  shows "lr_set (lr_union_assign a b)
    = {n. \<exists>i \<in> lr_set a \<union> lr_set b. \<exists>j \<in> lr_set a \<union> lr_set b. i \<le> n \<and> n \<le> j}"
proof (cases "lr_empty a \<or> lr_empty b")
  case True
  have convex: "{n. \<exists>i \<in> lr_set r. \<exists>j \<in> lr_set r. i \<le> n \<and> n \<le> j} = lr_set r" for r
    by (fastforce simp: lr_mem_iff)
  from True show ?thesis
    using convex by (auto simp: lr_union_assign_def lr_set_def [of a] lr_set_def [of b])
next
  case False
  define r where "r = lr_union_assign a b"
  have mn: "lr_min r = min (lr_min a) (lr_min b)" and mx: "lr_max r = max (lr_max a) (lr_max b)"
    using False by (auto simp: r_def lr_union_assign_def Let_def)
  have ne: "\<not> lr_empty r"
    using False mn by (auto simp: lr_empty_def min_def)
  have "n \<in> lr_set r \<longleftrightarrow>
      (\<exists>i \<in> lr_set a \<union> lr_set b. i \<le> n) \<and> (\<exists>j \<in> lr_set a \<union> lr_set b. n \<le> j)" for n
    using ne False
    by (simp add: bex_Un lr_set_below lr_set_above assms lr_mem_iff [of n r] mn mx max_def min_def
        word_le_nat_alt unat_u32_MAX_iff [symmetric]) (use unat_u32_le_MAX [of "lr_max a"] unat_u32_le_MAX [of "lr_max b"] in linarith)
  then show ?thesis unfolding r_def by blast
qed

lemma lr_union_assign_upper:
  assumes "lr_wf a" "lr_wf b"
  shows "lr_set a \<union> lr_set b \<subseteq> lr_set (lr_union_assign a b)"
  unfolding lr_union_assign_set [OF assms] by auto

section \<open>Properties\<close>

text \<open>
  \<open>operator&=\<close> on length ranges computes the set of sums of lengths and \<open>operator|=\<close> the
  smallest interval around both ranges, sentinels included, when the sums of the bounds stay
  below \<open>UINT32_MAX\<close>.
\<close>

theorem length_range_operators:
  assumes "lr_wf a" and "lr_wf b" and "lr_empty a \<or> lr_empty b \<or> lr_sum_fits a b"
  shows "lr_set (lr_concat_assign a b) = {i + j | i j. i \<in> lr_set a \<and> j \<in> lr_set b}
    \<and> lr_set (lr_union_assign a b)
      = {n. \<exists>i \<in> lr_set a \<union> lr_set b. \<exists>j \<in> lr_set a \<union> lr_set b. i \<le> n \<and> n \<le> j}"
  using lr_concat_assign_set [OF assms] lr_union_assign_set [OF assms(1,2)] by blast

theorem length_range_operators_witness:
  "lr_set (lr_concat_assign (lr_between 1 2) (lr_from 3))
    = {i + j | i j. i \<in> lr_set (lr_between 1 2) \<and> j \<in> lr_set (lr_from 3)}"
  by (rule length_range_operators [THEN conjunct1]) (simp_all add: lr_sum_fits_def)

text \<open>
  The binary \<open>operator&\<close> is not the concatenation: it calls \<open>|=\<close> and therefore equals
  \<open>operator|\<close>; on the ranges of two single words it accepts length one, the concatenation
  does not.
\<close>

theorem binary_concat_is_union:
  "lr_concat a b = lr_union a b
    \<and> lr_accepts (lr_concat (lr_between 1 1) (lr_between 1 1)) 1
    \<and> \<not> lr_accepts (lr_concat_assign (lr_between 1 1) (lr_between 1 1)) 1"
proof (intro conjI)
  show "lr_concat a b = lr_union a b" by (simp add: lr_concat_def lr_union_def)
  show "lr_accepts (lr_concat (lr_between 1 1) (lr_between 1 1)) 1" by code_simp
  show "\<not> lr_accepts (lr_concat_assign (lr_between 1 1) (lr_between 1 1)) 1" by code_simp
qed

end
