(* ===== verification/Query_Model.thy ===== *)
theory Query_Model
  imports Length_Range
begin

text \<open>
  The three query representations of \<open>src/netspeak/model\<close>: the literal parse tree
  (\<open>Query.{hpp,cpp}\<close>), the simplified tree (\<open>SimpleQuery.{hpp,cpp}\<close>) and the flat
  normalized query (\<open>NormQuery.{hpp,cpp}\<close>), with their length ranges, child lists,
  comparison and printing, and the set of phrases each one accepts.

  A unit class with a tag field is a datatype with one constructor per tag.  A \<open>Source\<close> is
  a pointer into the parse tree; it is modelled by the position of the unit, the list of
  child indices that leads to it from the root, so two sources are the same pointer iff the
  positions are equal.  The parent pointer is the position without its last index.
\<close>

type_synonym phrase_words = "string list"
type_synonym src = "nat list"

section \<open>\<open>Query::Unit\<close>\<close>

datatype qunit =
    QWord string
  | QQMark string
  | QStar string
  | QPlus string
  | QRegex string
  | QDictSet string
  | QOrderSet "qunit list"
  | QOptionSet "qunit list"
  | QAlternation "qunit list"
  | QConcat "qunit list"

fun q_text :: "qunit \<Rightarrow> string" where
  "q_text (QWord t) = t"
| "q_text (QQMark t) = t"
| "q_text (QStar t) = t"
| "q_text (QPlus t) = t"
| "q_text (QRegex t) = t"
| "q_text (QDictSet t) = t"
| "q_text _ = ''''"

fun q_children :: "qunit \<Rightarrow> qunit list" where
  "q_children (QOrderSet cs) = cs"
| "q_children (QOptionSet cs) = cs"
| "q_children (QAlternation cs) = cs"
| "q_children (QConcat cs) = cs"
| "q_children _ = []"

fun q_is_terminal :: "qunit \<Rightarrow> bool" where
  "q_is_terminal (QOrderSet _) = False"
| "q_is_terminal (QOptionSet _) = False"
| "q_is_terminal (QAlternation _) = False"
| "q_is_terminal (QConcat _) = False"
| "q_is_terminal _ = True"

text \<open>
  \<open>add_child\<close>: the second argument tells whether the added unit already has a parent.
\<close>

definition q_add_child :: "qunit \<Rightarrow> bool \<Rightarrow> qunit \<Rightarrow> qunit result" where
  "q_add_child u has_parent c =
    (if q_is_terminal u then Inl (LogicError ''A non-terminal cannot have children.'')
     else if has_parent then Inl (LogicError ''The unit is already has a parent.'')
     else Inr (case u of
         QOrderSet cs \<Rightarrow> QOrderSet (cs @ [c])
       | QOptionSet cs \<Rightarrow> QOptionSet (cs @ [c])
       | QAlternation cs \<Rightarrow> QAlternation (cs @ [c])
       | QConcat cs \<Rightarrow> QConcat (cs @ [c])
       | _ \<Rightarrow> u))"

text \<open>The unit a source position points to.\<close>

fun q_at :: "qunit \<Rightarrow> src \<Rightarrow> qunit option" where
  "q_at u [] = Some u"
| "q_at u (i # p) =
    (if i < length (q_children u) then q_at (q_children u ! i) p else None)"

text \<open>
  The loops of \<open>length_range\<close>: the union of the ranges of the children, and their
  concatenation, which returns as soon as it is empty.
\<close>

fun union_ranges :: "length_range \<Rightarrow> length_range list \<Rightarrow> length_range" where
  "union_ranges acc [] = acc"
| "union_ranges acc (r # rs) = union_ranges (lr_union_assign acc r) rs"

fun concat_ranges :: "length_range \<Rightarrow> length_range list \<Rightarrow> length_range" where
  "concat_ranges acc [] = acc"
| "concat_ranges acc (r # rs) =
    (let acc' = lr_concat_assign acc r
     in if lr_empty acc' then acc' else concat_ranges acc' rs)"

fun q_length_range :: "qunit \<Rightarrow> length_range" where
  "q_length_range (QWord _) = lr_between 1 1"
| "q_length_range (QQMark _) = lr_between 1 1"
| "q_length_range (QRegex _) = lr_between 1 1"
| "q_length_range (QStar _) = lr_from 0"
| "q_length_range (QPlus _) = lr_from 1"
| "q_length_range (QDictSet _) = lr_from 1"
| "q_length_range (QOptionSet cs) = union_ranges (lr_between 0 0) (map q_length_range cs)"
| "q_length_range (QAlternation cs) = union_ranges lr_none (map q_length_range cs)"
| "q_length_range (QOrderSet cs) = concat_ranges (lr_between 0 0) (map q_length_range cs)"
| "q_length_range (QConcat cs) = concat_ranges (lr_between 0 0) (map q_length_range cs)"

section \<open>\<open>SimpleQuery::Unit\<close>\<close>

datatype simple_unit =
    SWord string src
  | SQMark src
  | SStar src
  | SRegex string src
  | SConcat src "simple_unit list"
  | SAlt src "simple_unit list"

fun s_source :: "simple_unit \<Rightarrow> src" where
  "s_source (SWord _ s) = s"
| "s_source (SQMark s) = s"
| "s_source (SStar s) = s"
| "s_source (SRegex _ s) = s"
| "s_source (SConcat s _) = s"
| "s_source (SAlt s _) = s"

fun s_text :: "simple_unit \<Rightarrow> string" where
  "s_text (SWord t _) = t"
| "s_text (SQMark _) = ''?''"
| "s_text (SStar _) = ''*''"
| "s_text (SRegex t _) = t"
| "s_text (SConcat _ _) = ''''"
| "s_text (SAlt _ _) = ''''"

fun s_children :: "simple_unit \<Rightarrow> simple_unit list" where
  "s_children (SConcat _ cs) = cs"
| "s_children (SAlt _ cs) = cs"
| "s_children _ = []"

fun s_is_terminal :: "simple_unit \<Rightarrow> bool" where
  "s_is_terminal (SConcat _ _) = False"
| "s_is_terminal (SAlt _ _) = False"
| "s_is_terminal _ = True"

definition s_is_alt :: "simple_unit \<Rightarrow> bool" where
  "s_is_alt u = (case u of SAlt _ _ \<Rightarrow> True | _ \<Rightarrow> False)"

definition s_is_concat :: "simple_unit \<Rightarrow> bool" where
  "s_is_concat u = (case u of SConcat _ _ \<Rightarrow> True | _ \<Rightarrow> False)"

definition s_is_star :: "simple_unit \<Rightarrow> bool" where
  "s_is_star u = (case u of SStar _ \<Rightarrow> True | _ \<Rightarrow> False)"

definition s_is_qmark :: "simple_unit \<Rightarrow> bool" where
  "s_is_qmark u = (case u of SQMark _ \<Rightarrow> True | _ \<Rightarrow> False)"

lemma s_is_simps [simp]:
  "s_is_alt (SAlt s cs)" "\<not> s_is_alt (SConcat s cs)" "\<not> s_is_alt (SWord t s)"
  "\<not> s_is_alt (SQMark s)" "\<not> s_is_alt (SStar s)" "\<not> s_is_alt (SRegex t s)"
  "s_is_concat (SConcat s cs)" "\<not> s_is_concat (SAlt s cs)" "\<not> s_is_concat (SWord t s)"
  "\<not> s_is_concat (SQMark s)" "\<not> s_is_concat (SStar s)" "\<not> s_is_concat (SRegex t s)"
  "s_is_star (SStar s)" "\<not> s_is_star (SConcat s cs)" "\<not> s_is_star (SAlt s cs)"
  "\<not> s_is_star (SWord t s)" "\<not> s_is_star (SQMark s)" "\<not> s_is_star (SRegex t s)"
  "s_is_qmark (SQMark s)" "\<not> s_is_qmark (SConcat s cs)" "\<not> s_is_qmark (SAlt s cs)"
  "\<not> s_is_qmark (SWord t s)" "\<not> s_is_qmark (SStar s)" "\<not> s_is_qmark (SRegex t s)"
  by (simp_all add: s_is_alt_def s_is_concat_def s_is_star_def s_is_qmark_def)

fun s_set_children :: "simple_unit \<Rightarrow> simple_unit list \<Rightarrow> simple_unit" where
  "s_set_children (SConcat s _) cs = SConcat s cs"
| "s_set_children (SAlt s _) cs = SAlt s cs"
| "s_set_children u _ = u"

definition s_add_child :: "simple_unit \<Rightarrow> simple_unit \<Rightarrow> simple_unit result" where
  "s_add_child u c =
    (if s_is_terminal u then Inl (LogicError ''A non-terminal cannot have children.'')
     else Inr (s_set_children u (s_children u @ [c])))"

text \<open>\<open>pop_back\<close> and \<open>remove_child\<close> return the removed child and the changed unit.\<close>

definition s_pop_back :: "simple_unit \<Rightarrow> (simple_unit \<times> simple_unit) result" where
  "s_pop_back u =
    (if s_children u = [] then Inl (LogicError ''Cannot pop back of a unit without children.'')
     else Inr (last (s_children u), s_set_children u (butlast (s_children u))))"

definition s_remove_child :: "simple_unit \<Rightarrow> nat \<Rightarrow> (simple_unit \<times> simple_unit) result" where
  "s_remove_child u index =
    (if index \<ge> length (s_children u) then Inl (LogicError ''Index out of range.'')
     else Inr (s_children u ! index, s_set_children u (erase_at index (s_children u))))"

definition s_drain_children :: "simple_unit \<Rightarrow> simple_unit list \<times> simple_unit" where
  "s_drain_children u = (s_children u, s_set_children u [])"

fun s_length_range :: "simple_unit \<Rightarrow> length_range" where
  "s_length_range (SStar _) = lr_from 0"
| "s_length_range (SWord _ _) = lr_between 1 1"
| "s_length_range (SQMark _) = lr_between 1 1"
| "s_length_range (SRegex _ _) = lr_between 1 1"
| "s_length_range (SAlt _ cs) = union_ranges lr_none (map s_length_range cs)"
| "s_length_range (SConcat _ cs) = concat_ranges (lr_between 0 0) (map s_length_range cs)"

text \<open>The two loops of \<open>min_length\<close>, with their early returns.\<close>

fun min_alt_loop :: "u32 \<Rightarrow> u32 list \<Rightarrow> u32" where
  "min_alt_loop mn [] = mn"
| "min_alt_loop mn (c_min # cs) =
    (if c_min < mn then (if c_min = 0 then 0 else min_alt_loop c_min cs)
     else min_alt_loop mn cs)"

fun min_concat_loop :: "u32 \<Rightarrow> u32 list \<Rightarrow> u32" where
  "min_concat_loop mn [] = mn"
| "min_concat_loop mn (c_min # cs) =
    (if c_min = UINT32_MAX then UINT32_MAX else min_concat_loop (mn + c_min) cs)"

fun s_min_length :: "simple_unit \<Rightarrow> u32" where
  "s_min_length (SStar _) = 0"
| "s_min_length (SWord _ _) = 1"
| "s_min_length (SQMark _) = 1"
| "s_min_length (SRegex _ _) = 1"
| "s_min_length (SAlt _ cs) = min_alt_loop UINT32_MAX (map s_min_length cs)"
| "s_min_length (SConcat _ cs) = min_concat_loop 0 (map s_min_length cs)"

text \<open>\<open>operator==\<close> compares tags, then the texts of terminals or the children; sources are ignored.\<close>

fun s_equal :: "simple_unit \<Rightarrow> simple_unit \<Rightarrow> bool" where
  "s_equal (SWord t _) (SWord t' _) = (t = t')"
| "s_equal (SQMark _) (SQMark _) = True"
| "s_equal (SStar _) (SStar _) = True"
| "s_equal (SRegex t _) (SRegex t' _) = (t = t')"
| "s_equal (SConcat _ cs) (SConcat _ ds) = list_all2 s_equal cs ds"
| "s_equal (SAlt _ cs) (SAlt _ ds) = list_all2 s_equal cs ds"
| "s_equal _ _ = False"

text \<open>\<open>has_wildcards\<close> with the test on \<open>is_terminal\<close> as the code has it.\<close>

fun s_contains_wildcards :: "simple_unit \<Rightarrow> bool" where
  "s_contains_wildcards (SWord _ _) = False"
| "s_contains_wildcards (SQMark _) = False"
| "s_contains_wildcards (SStar _) = False"
| "s_contains_wildcards (SRegex _ _) = False"
| "s_contains_wildcards (SConcat s cs) = (s_is_qmark (SConcat s cs) \<or> s_is_star (SConcat s cs))"
| "s_contains_wildcards (SAlt s cs) = (s_is_qmark (SAlt s cs) \<or> s_is_star (SAlt s cs))"

section \<open>\<open>NormQuery\<close>\<close>

datatype norm_unit =
    NWord string src
  | NQMark src

type_synonym norm_query = "norm_unit list"

fun n_is_qmark :: "norm_unit \<Rightarrow> bool" where
  "n_is_qmark (NQMark _) = True"
| "n_is_qmark (NWord _ _) = False"

fun n_source :: "norm_unit \<Rightarrow> src" where
  "n_source (NWord _ s) = s"
| "n_source (NQMark s) = s"

fun n_text :: "norm_unit \<Rightarrow> string" where
  "n_text (NWord t _) = t"
| "n_text (NQMark _) = ''?''"

fun n_unit_equal :: "norm_unit \<Rightarrow> norm_unit \<Rightarrow> bool" where
  "n_unit_equal (NWord t _) (NWord t' _) = (t = t')"
| "n_unit_equal (NQMark _) (NQMark _) = True"
| "n_unit_equal _ _ = False"

definition n_equal :: "norm_query \<Rightarrow> norm_query \<Rightarrow> bool" where
  "n_equal lhs rhs = (length lhs = length rhs \<and>
     list_all (\<lambda>i. n_unit_equal (lhs ! i) (rhs ! i)) [0..<length lhs])"

fun n_has_qmarks :: "norm_query \<Rightarrow> bool" where
  "n_has_qmarks [] = False"
| "n_has_qmarks (u # us) = (if n_is_qmark u then True else n_has_qmarks us)"

fun n_has_words :: "norm_query \<Rightarrow> bool" where
  "n_has_words [] = False"
| "n_has_words (u # us) = (if \<not> n_is_qmark u then True else n_has_words us)"

fun n_count_qmarks :: "norm_query \<Rightarrow> nat" where
  "n_count_qmarks [] = 0"
| "n_count_qmarks (u # us) = (if n_is_qmark u then 1 else 0) + n_count_qmarks us"

fun n_count_words :: "norm_query \<Rightarrow> nat" where
  "n_count_words [] = 0"
| "n_count_words (u # us) = (if \<not> n_is_qmark u then 1 else 0) + n_count_words us"

end
