(* ===== verification/Languages.thy ===== *)
theory Languages
  imports Prelude
begin

text \<open>
  Sets of lists and their concatenation: the semantic domain of the queries over phrases
  (\<open>Query_Language\<close>) and of the regex queries over the characters of a word
  (\<open>Regex_Query\<close>).
\<close>

section \<open>Concatenation\<close>

definition conc :: "'a list set \<Rightarrow> 'a list set \<Rightarrow> 'a list set" where
  "conc A B = {p @ q | p q. p \<in> A \<and> q \<in> B}"

fun concs :: "'a list set list \<Rightarrow> 'a list set" where
  "concs [] = {[]}"
| "concs (A # As) = conc A (concs As)"

lemma concI [intro]: "p \<in> A \<Longrightarrow> q \<in> B \<Longrightarrow> p @ q \<in> conc A B"
  by (auto simp: conc_def)

lemma concE [elim]:
  assumes "r \<in> conc A B"
  obtains p q where "r = p @ q" "p \<in> A" "q \<in> B"
  using assms by (auto simp: conc_def)

lemma conc_assoc: "conc (conc A B) C = conc A (conc B C)"
  by (auto simp: conc_def) (metis append.assoc)+

lemma conc_simps [simp, lang_simps]:
  "conc {} B = {}" "conc A {} = {}" "conc {[]} B = B" "conc A {[]} = A"
  by (auto simp: conc_def)

lemma conc_Un: "conc (A \<union> B) C = conc A C \<union> conc B C" "conc A (B \<union> C) = conc A B \<union> conc A C"
  by (auto simp: conc_def)

lemma conc_UN: "conc (\<Union>i \<in> I. F i) B = (\<Union>i \<in> I. conc (F i) B)"
    "conc A (\<Union>i \<in> I. F i) = (\<Union>i \<in> I. conc A (F i))"
  by (auto simp: conc_def)

lemma conc_mono: "A \<subseteq> A' \<Longrightarrow> B \<subseteq> B' \<Longrightarrow> conc A B \<subseteq> conc A' B'"
  by (auto simp: conc_def)

lemma concs_append [simp, lang_simps]: "concs (As @ Bs) = conc (concs As) (concs Bs)"
  by (induction As) (auto simp: conc_assoc)

lemma concs_singleton [simp]: "concs [A] = A"
  by simp

lemma concs_empty: "{} \<in> set As \<Longrightarrow> concs As = {}"
  by (induction As) auto

lemma Nil_concs: "(\<forall>A \<in> set As. [] \<in> A) \<Longrightarrow> [] \<in> concs As"
  by (induction As) (auto simp: conc_def)

text \<open>Two languages that agree on the members of length at most \<open>k\<close>.\<close>

definition eq_upto :: "nat \<Rightarrow> 'a list set \<Rightarrow> 'a list set \<Rightarrow> bool" where
  "eq_upto k A B \<longleftrightarrow> (\<forall>p. length p \<le> k \<longrightarrow> (p \<in> A \<longleftrightarrow> p \<in> B))"

lemma eq_upto_refl [simp, intro]: "eq_upto k A A"
  by (simp add: eq_upto_def)

lemma eq_upto_sym: "eq_upto k A B \<Longrightarrow> eq_upto k B A"
  by (simp add: eq_upto_def)

lemma eq_upto_trans: "eq_upto k A B \<Longrightarrow> eq_upto k B C \<Longrightarrow> eq_upto k A C"
  by (simp add: eq_upto_def)

lemma eq_upto_Un: "eq_upto k A A' \<Longrightarrow> eq_upto k B B' \<Longrightarrow> eq_upto k (A \<union> B) (A' \<union> B')"
  by (simp add: eq_upto_def)

lemma eq_upto_insert: "eq_upto k A B \<Longrightarrow> eq_upto k (insert p A) (insert p B)"
  by (simp add: eq_upto_def)

lemma eq_upto_UN: "(\<And>i. i \<in> I \<Longrightarrow> eq_upto k (F i) (G i)) \<Longrightarrow> eq_upto k (\<Union>i \<in> I. F i) (\<Union>i \<in> I. G i)"
  by (auto simp: eq_upto_def)

lemma eq_upto_conc: "eq_upto k A A' \<Longrightarrow> eq_upto k B B' \<Longrightarrow> eq_upto k (conc A B) (conc A' B')"
  unfolding eq_upto_def conc_def by (auto 0 4)

lemma eq_upto_concs:
  "list_all2 (eq_upto k) As Bs \<Longrightarrow> eq_upto k (concs As) (concs Bs)"
  by (induction rule: list_all2_induct) (auto intro: eq_upto_conc)

lemma conc_UNIV_Nil: "[] \<in> A \<Longrightarrow> conc UNIV A = UNIV"
  using concI [of _ UNIV "[]" A] by auto

lemma conc_UNIV_single: "conc UNIV {p. length p = 1} = conc {p. length p = 1} (UNIV :: 'a list set)"
proof -
  have "conc UNIV {p. length p = 1} = {p :: 'a list. p \<noteq> []}"
  proof (intro set_eqI iffI)
    fix p :: "'a list" assume "p \<in> {p. p \<noteq> []}"
    then have "p = butlast p @ [last p]" by simp
    then show "p \<in> conc UNIV {p. length p = 1}"
      using concI [of "butlast p" UNIV "[last p]" "{p. length p = 1}"] by simp
  qed auto
  moreover have "conc {p. length p = 1} UNIV = {p :: 'a list. p \<noteq> []}"
  proof (intro set_eqI iffI)
    fix p :: "'a list" assume "p \<in> {p. p \<noteq> []}"
    then have "p = [hd p] @ tl p" by simp
    then show "p \<in> conc {p. length p = 1} UNIV"
      using concI [of "[hd p]" "{p. length p = 1}" "tl p" UNIV] by simp
  qed auto
  ultimately show ?thesis by simp
qed

end
