(* ===== verification/Query_Language.thy ===== *)
theory Query_Language
  imports Query_Model Languages
begin

text \<open>
  The specification the normalization pipeline is measured against: the set of phrases
  (lists of words) that each query representation accepts.  A regex word stands for the
  words of a given set \<open>R text\<close>; what that set is, is decided by the regex index.

  The second half relates the computed length ranges and minimum lengths to these sets.
  Sums of lengths are computed on \<open>uint32_t\<close> by the code; \<open>q_width\<close> and \<open>s_width\<close> bound
  every number such a computation meets, so a width below \<open>2 ^ 32 - 1\<close> excludes both a
  wrap-around and a collision with the sentinel \<open>UINT32_MAX\<close>.
\<close>

type_synonym lang = "phrase_words set"

section \<open>What a query accepts\<close>

fun s_lang :: "(string \<Rightarrow> string set) \<Rightarrow> simple_unit \<Rightarrow> lang" where
  "s_lang R (SWord t _) = {[t]}"
| "s_lang R (SQMark _) = {p. length p = 1}"
| "s_lang R (SStar _) = UNIV"
| "s_lang R (SRegex t _) = {[w] | w. w \<in> R t}"
| "s_lang R (SConcat _ cs) = concs (map (s_lang R) cs)"
| "s_lang R (SAlt _ cs) = \<Union> (set (map (s_lang R) cs))"

fun n_unit_matches :: "norm_unit \<Rightarrow> string \<Rightarrow> bool" where
  "n_unit_matches (NWord t _) w = (t = w)"
| "n_unit_matches (NQMark _) w = True"

definition n_matches :: "norm_query \<Rightarrow> phrase_words \<Rightarrow> bool" where
  "n_matches nq p = list_all2 n_unit_matches nq p"

definition n_lang :: "norm_query \<Rightarrow> lang" where
  "n_lang nq = {p. n_matches nq p}"

lemma n_lang_length: "p \<in> n_lang nq \<Longrightarrow> length p = length nq"
  by (auto simp: n_lang_def n_matches_def dest: list_all2_lengthD)

text \<open>
  The interpretation of a parse tree depends on the options of the normalizer: whether words
  are lower-cased (\<open>to_lower\<close> is ICU's conversion), the dictionary, whether regexes are
  allowed, and the function that splits a synonym at spaces (\<open>boost::split\<close>).
\<close>

record simp_env =
  se_max_length :: u32
  se_max_norm_queries :: u64
  se_dictionary :: "(string \<times> string) list option"
  se_allow_regex :: bool
  se_lower_case :: bool
  se_to_lower :: "string \<Rightarrow> string"
  se_split :: "string \<Rightarrow> string list"

definition get_text :: "simp_env \<Rightarrow> string \<Rightarrow> string" where
  "get_text e text = (if \<not> se_lower_case e then text else se_to_lower e text)"

text \<open>\<open>dictionary->equal_range(text)\<close>, without the text itself; no dictionary, no synonym.\<close>

definition equal_range :: "(string \<times> string) list \<Rightarrow> string \<Rightarrow> string list" where
  "equal_range d text = map snd (filter (\<lambda>p. fst p = text) d)"

definition synonyms :: "simp_env \<Rightarrow> string \<Rightarrow> string list" where
  "synonyms e text = (case se_dictionary e of
      None \<Rightarrow> []
    | Some d \<Rightarrow> filter (\<lambda>syn. syn \<noteq> text) (equal_range d text))"

definition regex_words :: "simp_env \<Rightarrow> (string \<Rightarrow> string set) \<Rightarrow> string \<Rightarrow> string set" where
  "regex_words e R text = (if se_allow_regex e then R (get_text e text) else {})"

fun q_lang :: "simp_env \<Rightarrow> (string \<Rightarrow> string set) \<Rightarrow> qunit \<Rightarrow> lang" where
  "q_lang e R (QWord t) = {[get_text e t]}"
| "q_lang e R (QQMark _) = {p. length p = 1}"
| "q_lang e R (QStar _) = UNIV"
| "q_lang e R (QPlus _) = {p. p \<noteq> []}"
| "q_lang e R (QRegex t) = {[w] | w. w \<in> regex_words e R t}"
| "q_lang e R (QDictSet t) =
    insert [get_text e t] (set (map (se_split e) (synonyms e (get_text e t))))"
| "q_lang e R (QOptionSet cs) =
    (if length cs \<le> 1 then {[]} else {}) \<union> \<Union> (set (map (q_lang e R) cs))"
| "q_lang e R (QOrderSet cs) = \<Union> {concs Ls | Ls. mset Ls = mset (map (q_lang e R) cs)}"
| "q_lang e R (QAlternation cs) = \<Union> (set (map (q_lang e R) cs))"
| "q_lang e R (QConcat cs) = concs (map (q_lang e R) cs)"

section \<open>Bounds on the sums of lengths\<close>

fun s_width :: "simple_unit \<Rightarrow> nat" where
  "s_width (SConcat _ cs) = sum_list (map s_width cs)"
| "s_width (SAlt _ cs) = max_list0 (map s_width cs)"
| "s_width _ = 1"

fun q_width :: "simp_env \<Rightarrow> qunit \<Rightarrow> nat" where
  "q_width e (QOrderSet cs) = sum_list (map (q_width e) cs)"
| "q_width e (QConcat cs) = sum_list (map (q_width e) cs)"
| "q_width e (QOptionSet cs) = max_list0 (map (q_width e) cs)"
| "q_width e (QAlternation cs) = max_list0 (map (q_width e) cs)"
| "q_width e (QPlus _) = 2"
| "q_width e (QDictSet t) =
    max 1 (max_list0 (map (\<lambda>syn. length (se_split e syn)) (synonyms e (get_text e t))))"
| "q_width e _ = 1"

section \<open>The length ranges are sound\<close>

definition range_ok :: "lang \<Rightarrow> nat \<Rightarrow> length_range \<Rightarrow> bool" where
  "range_ok L w r \<longleftrightarrow> lr_wf r \<and> length ` L \<subseteq> lr_set r
    \<and> (\<not> lr_empty r \<longrightarrow> unat (lr_min r) \<le> w \<and> (lr_max r \<noteq> UINT32_MAX \<longrightarrow> unat (lr_max r) \<le> w))"

lemma range_okI:
  "lr_wf r \<Longrightarrow> length ` L \<subseteq> lr_set r \<Longrightarrow>
    (\<not> lr_empty r \<Longrightarrow> unat (lr_min r) \<le> w \<and> (lr_max r \<noteq> UINT32_MAX \<longrightarrow> unat (lr_max r) \<le> w))
    \<Longrightarrow> range_ok L w r"
  by (simp add: range_ok_def)

lemma range_ok_weaken: "range_ok L w r \<Longrightarrow> M \<subseteq> L \<Longrightarrow> w \<le> v \<Longrightarrow> range_ok M v r"
  by (fastforce simp: range_ok_def)

lemma range_ok_empty: "range_ok L w r \<Longrightarrow> lr_empty r \<Longrightarrow> L = {}"
  by (auto simp: range_ok_def lr_set_def)

lemma range_ok_length: "range_ok L w r \<Longrightarrow> p \<in> L \<Longrightarrow> length p \<in> lr_set r"
  by (auto simp: range_ok_def)

lemma range_ok_none [simp]: "range_ok {} w lr_none"
  by (simp add: range_ok_def)

lemma range_ok_empty_lang: "lr_empty r \<Longrightarrow> range_ok {} w r"
  by (simp add: range_ok_def lr_wf_def)

lemma range_ok_one [simp]: "(\<And>p. p \<in> L \<Longrightarrow> length p = Suc 0) \<Longrightarrow> Suc 0 \<le> w \<Longrightarrow> range_ok L w (lr_between 1 1)"
  by (intro range_okI) auto

lemma range_ok_zero [simp]: "range_ok {[]} w (lr_between 0 0)"
  by (intro range_okI) auto

lemma range_ok_from [simp]:
  "n \<noteq> UINT32_MAX \<Longrightarrow> (\<And>p. p \<in> L \<Longrightarrow> unat n \<le> length p) \<Longrightarrow> unat n \<le> w \<Longrightarrow> range_ok L w (lr_from n)"
  by (intro range_okI) auto

lemma range_ok_union:
  assumes "range_ok A v a" "range_ok B w b"
  shows "range_ok (A \<union> B) (max v w) (lr_union_assign a b)"
proof (rule range_okI)
  show "lr_wf (lr_union_assign a b)"
    using assms by (auto simp: range_ok_def intro: lr_union_assign_wf)
  show "length ` (A \<union> B) \<subseteq> lr_set (lr_union_assign a b)"
    using assms lr_union_assign_upper [of a b] by (auto simp: range_ok_def)
  show "unat (lr_min (lr_union_assign a b)) \<le> max v w \<and>
      (lr_max (lr_union_assign a b) \<noteq> UINT32_MAX \<longrightarrow> unat (lr_max (lr_union_assign a b)) \<le> max v w)"
    if "\<not> lr_empty (lr_union_assign a b)"
    using assms that
    by (auto simp: range_ok_def lr_union_assign_def Let_def word_less_nat_alt le_max_iff_disj)
qed

lemma lr_concat_assign_fields:
  assumes "\<not> lr_empty a" "\<not> lr_empty b"
  shows "lr_min (lr_concat_assign a b) = lr_min a + lr_min b"
    and "lr_max (lr_concat_assign a b) =
      (if lr_max a = UINT32_MAX \<or> lr_max b = UINT32_MAX then UINT32_MAX else lr_max a + lr_max b)"
  using assms by (simp_all add: lr_concat_assign_def)

lemma range_ok_concat:
  assumes "range_ok A v a" "range_ok B w b" "v + w < 2 ^ 32 - 1"
  shows "range_ok (conc A B) (v + w) (lr_concat_assign a b)"
proof (cases "lr_empty a \<or> lr_empty b")
  case True
  then have "conc A B = {}" using assms range_ok_empty by fastforce
  moreover have "lr_empty (lr_concat_assign a b)"
    using True by (auto simp: lr_concat_assign_def lr_empty_def)
  ultimately show ?thesis by (simp add: range_ok_empty_lang)
next
  case False
  then have fits: "lr_sum_fits a b"
    using assms by (auto simp: range_ok_def lr_sum_fits_def)
  show ?thesis
  proof (rule range_okI)
    show "lr_wf (lr_concat_assign a b)"
      using assms fits by (auto simp: range_ok_def intro: lr_concat_assign_wf)
    have "lr_set (lr_concat_assign a b) = {i + j | i j. i \<in> lr_set a \<and> j \<in> lr_set b}"
      using assms fits by (intro lr_concat_assign_set) (simp_all add: range_ok_def)
    moreover have "length ` conc A B \<subseteq> {i + j | i j. i \<in> lr_set a \<and> j \<in> lr_set b}"
      using range_ok_length [OF assms(1)] range_ok_length [OF assms(2)]
      by (force simp only: conc_def length_append mem_Collect_eq image_iff subset_iff)
    ultimately show "length ` conc A B \<subseteq> lr_set (lr_concat_assign a b)"
      by simp
    show "unat (lr_min (lr_concat_assign a b)) \<le> v + w \<and>
      (lr_max (lr_concat_assign a b) \<noteq> UINT32_MAX \<longrightarrow> unat (lr_max (lr_concat_assign a b)) \<le> v + w)"
    proof -
      have b: "unat (lr_min a) \<le> v" "unat (lr_min b) \<le> w"
        "lr_max a \<noteq> UINT32_MAX \<Longrightarrow> unat (lr_max a) \<le> v"
        "lr_max b \<noteq> UINT32_MAX \<Longrightarrow> unat (lr_max b) \<le> w"
        using assms(1,2) False by (simp_all add: range_ok_def)
      have "unat (lr_min a + lr_min b) = unat (lr_min a) + unat (lr_min b)"
        by (rule add_u32_fits) (use b assms(3) in linarith)
      moreover have "unat (lr_max a + lr_max b) = unat (lr_max a) + unat (lr_max b)"
        if "lr_max a \<noteq> UINT32_MAX" "lr_max b \<noteq> UINT32_MAX"
        by (rule add_u32_fits) (use b that assms(3) in linarith)
      ultimately show ?thesis
        using b False by (auto simp: lr_concat_assign_fields)
    qed
  qed
qed

lemma range_ok_union_ranges:
  assumes "\<And>c. c \<in> set cs \<Longrightarrow> range_ok (L c) (W c) (f c)" "range_ok A w acc"
  shows "range_ok (A \<union> \<Union> (set (map L cs))) (max w (max_list0 (map W cs)))
     (union_ranges acc (map f cs))"
  using assms
proof (induction cs arbitrary: A w acc)
  case Nil
  then show ?case by simp
next
  case (Cons c cs)
  have "range_ok (A \<union> L c) (max w (W c)) (lr_union_assign acc (f c))"
    using Cons.prems by (intro range_ok_union) auto
  from Cons.IH [OF _ this] Cons.prems show ?case
    by (simp add: Un_assoc max.assoc)
qed

lemma range_ok_concat_ranges:
  assumes "\<And>c. c \<in> set cs \<Longrightarrow> range_ok (L c) (W c) (f c)" "range_ok A w acc"
    and "w + sum_list (map W cs) < 2 ^ 32 - 1"
  shows "range_ok (conc A (concs (map L cs))) (w + sum_list (map W cs))
     (concat_ranges acc (map f cs))"
  using assms
proof (induction cs arbitrary: A w acc)
  case Nil
  then show ?case by simp
next
  case (Cons c cs)
  have step: "range_ok (conc A (L c)) (w + W c) (lr_concat_assign acc (f c))"
    using Cons.prems by (intro range_ok_concat) auto
  show ?case
  proof (cases "lr_empty (lr_concat_assign acc (f c))")
    case True
    then have "conc A (L c) = {}" using range_ok_empty step by blast
    then have "conc A (conc (L c) X) = {}" for X by (metis conc_assoc conc_simps(1))
    then show ?thesis using True by (simp add: Let_def range_ok_empty_lang)
  next
    case False
    then show ?thesis
      using Cons.IH [OF _ step] Cons.prems by (simp add: Let_def conc_assoc add.assoc)
  qed
qed

lemma width_sum_member: "c \<in> set cs \<Longrightarrow> sum_list (map W cs) < b \<Longrightarrow> W c < (b :: nat)"
  using sum_list_le_member [of c cs W] by simp

lemma width_max_member: "c \<in> set cs \<Longrightarrow> max_list0 (map W cs) < b \<Longrightarrow> W c < b"
  using max_list0_ge [of "W c" "map W cs"] by simp

lemma s_length_range_ok:
  "s_width u < 2 ^ 32 - 1 \<Longrightarrow> range_ok (s_lang R u) (s_width u) (s_length_range u)"
proof (induction u)
  case (SConcat s cs)
  then have "\<And>c. c \<in> set cs \<Longrightarrow> range_ok (s_lang R c) (s_width c) (s_length_range c)"
    using width_sum_member [of _ cs s_width] by simp
  from range_ok_concat_ranges [OF this range_ok_zero [of 0]] SConcat.prems
  show ?case by simp
next
  case (SAlt s cs)
  then have "\<And>c. c \<in> set cs \<Longrightarrow> range_ok (s_lang R c) (s_width c) (s_length_range c)"
    using width_max_member [of _ cs s_width] by simp
  from range_ok_union_ranges [OF this range_ok_none [of 0]] show ?case by simp
qed (auto intro!: range_ok_one range_ok_from)

section \<open>The length range of a parse tree\<close>

lemma concs_iff: "p \<in> concs As \<longleftrightarrow> (\<exists>ps. list_all2 (\<in>) ps As \<and> p = concat ps)"
proof (induction As arbitrary: p)
  case Nil
  then show ?case by simp
next
  case (Cons A As)
  show ?case
  proof
    assume "p \<in> concs (A # As)"
    then obtain q r where "p = q @ r" "q \<in> A" "r \<in> concs As" by auto
    then show "\<exists>ps. list_all2 (\<in>) ps (A # As) \<and> p = concat ps"
      using Cons.IH [of r] by (metis concat.simps(2) list_all2_Cons)
  next
    assume "\<exists>ps. list_all2 (\<in>) ps (A # As) \<and> p = concat ps"
    then obtain q qs where "q \<in> A" "list_all2 (\<in>) qs As" "p = q @ concat qs"
      by (auto simp: list_all2_Cons2)
    moreover from this have "concat qs \<in> concs As" using Cons.IH by blast
    ultimately show "p \<in> concs (A # As)" by auto
  qed
qed

lemma length_concat_mset: "mset ps = mset qs \<Longrightarrow> length (concat ps) = length (concat qs)"
proof -
  assume "mset ps = mset qs"
  then have "sum_mset (mset (map length ps)) = sum_mset (mset (map length qs))"
    by simp
  then show ?thesis unfolding length_concat by (simp only: sum_mset_sum_list)
qed

lemma concs_perm_length:
  assumes "mset As = mset Bs" "p \<in> concs As"
  obtains q where "q \<in> concs Bs" "length q = length p"
proof -
  obtain ps where ps: "list_all2 (\<in>) ps As" "p = concat ps"
    using assms(2) concs_iff by blast
  have "list_all2 (\<lambda>A p. p \<in> A) As ps" using ps(1) by (simp add: list_all2_conv_all_nth)
  from list_all2_reorder_left_invariance [OF this assms(1) [symmetric]]
  obtain qs where "list_all2 (\<lambda>A p. p \<in> A) Bs qs" "mset qs = mset ps" by blast
  then have "concat qs \<in> concs Bs" "length (concat qs) = length p"
    using concs_iff [of "concat qs" Bs] length_concat_mset ps(2)
    by (auto simp: list_all2_conv_all_nth)
  then show ?thesis using that by blast
qed

lemma range_ok_same_lengths:
  "range_ok L w r \<Longrightarrow> (\<And>p. p \<in> M \<Longrightarrow> \<exists>q \<in> L. length q = length p) \<Longrightarrow> range_ok M w r"
  unfolding range_ok_def by (metis (no_types, lifting) image_subset_iff)

lemma q_length_range_ok:
  assumes "q_width e u < 2 ^ 32 - 1" and "\<And>s. se_split e s \<noteq> []"
  shows "range_ok (q_lang e R u) (q_width e u) (q_length_range u)"
  using assms(1)
proof (induction u)
  case (QOrderSet cs)
  then have "\<And>c. c \<in> set cs \<Longrightarrow> range_ok (q_lang e R c) (q_width e c) (q_length_range c)"
    using width_sum_member [of _ cs "q_width e"] by simp
  from range_ok_concat_ranges [OF this range_ok_zero [of 0]] QOrderSet.prems
  have "range_ok (concs (map (q_lang e R) cs)) (q_width e (QOrderSet cs)) (q_length_range (QOrderSet cs))"
    by simp
  then show ?case
    by (rule range_ok_same_lengths) (auto simp: mset_map [symmetric] simp del: mset_map
        elim: concs_perm_length)
next
  case (QConcat cs)
  then have "\<And>c. c \<in> set cs \<Longrightarrow> range_ok (q_lang e R c) (q_width e c) (q_length_range c)"
    using width_sum_member [of _ cs "q_width e"] by simp
  from range_ok_concat_ranges [OF this range_ok_zero [of 0]] QConcat.prems
  show ?case by simp
next
  case (QAlternation cs)
  then have "\<And>c. c \<in> set cs \<Longrightarrow> range_ok (q_lang e R c) (q_width e c) (q_length_range c)"
    using width_max_member [of _ cs "q_width e"] by simp
  from range_ok_union_ranges [OF this range_ok_none [of 0]] show ?case by simp
next
  case (QOptionSet cs)
  then have "\<And>c. c \<in> set cs \<Longrightarrow> range_ok (q_lang e R c) (q_width e c) (q_length_range c)"
    using width_max_member [of _ cs "q_width e"] by simp
  from range_ok_union_ranges [OF this range_ok_zero [of 0]]
  have "range_ok ({[]} \<union> \<Union> (set (map (q_lang e R) cs))) (q_width e (QOptionSet cs))
     (q_length_range (QOptionSet cs))" by simp
  then show ?case by (rule range_ok_weaken) auto
next
  case (QDictSet t)
  have "Suc 0 \<le> length (se_split e s)" for s
    using assms(2) [of s] by (cases "se_split e s") auto
  then show ?case by (auto intro!: range_ok_from)
qed (auto intro!: range_ok_one range_ok_from simp: Suc_le_eq)

section \<open>The minimum length of a simple query\<close>

lemma lr_min_union: "lr_min (lr_union_assign a b) = min (lr_min a) (lr_min b)"
  by (auto simp: lr_union_assign_def Let_def lr_empty_def min_def)

lemma min_alt_loop_zero: "min_alt_loop 0 ms = 0"
  by (induction ms) auto

lemma min_alt_loop_Cons: "min_alt_loop mn (c # ms) = min_alt_loop (min mn c) ms"
  by (auto simp: min_def min_alt_loop_zero word_gt_0)

lemma min_alt_loop_range: "min_alt_loop (lr_min acc) (map lr_min rs) = lr_min (union_ranges acc rs)"
proof (induction rs arbitrary: acc)
  case (Cons r rs)
  show ?case
    using Cons.IH [of "lr_union_assign acc r"]
    by (simp only: list.map min_alt_loop_Cons lr_min_union union_ranges.simps)
qed simp

lemma min_concat_loop_range:
  assumes "\<And>c. c \<in> set cs \<Longrightarrow> range_ok (L c) (W c) (f c)" "range_ok A w acc"
    and "w + sum_list (map W cs) < 2 ^ 32 - 1" "\<not> lr_empty acc"
  shows "min_concat_loop (lr_min acc) (map (\<lambda>c. lr_min (f c)) cs)
    = lr_min (concat_ranges acc (map f cs))"
  using assms
proof (induction cs arbitrary: A w acc)
  case Nil
  then show ?case by simp
next
  case (Cons c cs)
  have step: "range_ok (conc A (L c)) (w + W c) (lr_concat_assign acc (f c))"
    using Cons.prems by (intro range_ok_concat) auto
  show ?case
  proof (cases "lr_empty (f c)")
    case True
    then show ?thesis using Cons.prems(4)
      by (simp add: lr_concat_assign_def Let_def) (simp add: lr_empty_def)
  next
    case False
    note flds = lr_concat_assign_fields(1) [OF Cons.prems(4) False]
    have "unat (lr_min acc) \<le> w" "unat (lr_min (f c)) \<le> W c"
      using Cons.prems False by (auto simp: range_ok_def)
    then have "lr_min acc + lr_min (f c) \<noteq> UINT32_MAX"
      using Cons.prems(3) by (intro add_u32_not_MAX) simp
    then have "\<not> lr_empty (lr_concat_assign acc (f c))" by (simp add: lr_empty_def flds)
    then show ?thesis
      using Cons.IH [OF _ step] Cons.prems False flds by (simp add: Let_def lr_empty_def)
  qed
qed

text \<open>\<open>min_length\<close> is what its comment says, an optimized \<open>length_range().min\<close>.\<close>

lemma s_min_length_eq:
  "s_width u < 2 ^ 32 - 1 \<Longrightarrow> s_min_length u = lr_min (s_length_range u)"
proof (induction u)
  case (SConcat s cs)
  have w: "s_width c < 2 ^ 32 - 1" if "c \<in> set cs" for c
    using width_sum_member [OF that, of s_width] SConcat.prems by simp
  then have "map s_min_length cs = map (\<lambda>c. lr_min (s_length_range c)) cs"
    using SConcat.IH by simp
  moreover have ok: "range_ok (s_lang (\<lambda>_. {}) c) (s_width c) (s_length_range c)"
    if "c \<in> set cs" for c
    by (rule s_length_range_ok) (use w that in simp)
  have "min_concat_loop (lr_min (lr_between 0 0)) (map (\<lambda>c. lr_min (s_length_range c)) cs)
      = lr_min (concat_ranges (lr_between 0 0) (map s_length_range cs))"
    by (rule min_concat_loop_range [OF ok range_ok_zero [of 0]]) (use SConcat.prems in simp_all)
  ultimately show ?case
    by (simp only: s_min_length.simps s_length_range.simps lr_fields)
next
  case (SAlt s cs)
  have w: "s_width c < 2 ^ 32 - 1" if "c \<in> set cs" for c
    using width_max_member [OF that, of s_width] SAlt.prems by simp
  then have "map s_min_length cs = map lr_min (map s_length_range cs)"
    using SAlt.IH by simp
  then show ?case using min_alt_loop_range [of lr_none "map s_length_range cs"]
    by (simp only: s_min_length.simps s_length_range.simps) (simp add: lr_none_def)
qed auto

lemma min_alt_loop_0: "min_alt_loop mn ms = 0 \<Longrightarrow> mn = 0 \<or> 0 \<in> set ms"
  by (induction mn ms rule: min_alt_loop.induct) (auto split: if_splits)

lemma min_concat_loop_0:
  assumes "\<And>c. c \<in> set cs \<Longrightarrow> f c = UINT32_MAX \<or> unat (f c) \<le> W c"
    and "unat mn \<le> w" "w + sum_list (map W cs) < 2 ^ 32 - 1"
    and "min_concat_loop mn (map f cs) = 0"
  shows "mn = 0 \<and> (\<forall>c \<in> set cs. f c = 0)"
  using assms
proof (induction cs arbitrary: mn w)
  case Nil
  then show ?case by simp
next
  case (Cons c cs)
  have nm: "f c \<noteq> UINT32_MAX"
    using Cons.prems(4) by (auto split: if_splits)
  then have b: "unat (f c) \<le> W c" using Cons.prems(1) by auto
  have a: "unat (mn + f c) = unat mn + unat (f c)"
    by (rule add_u32_fits) (use b Cons.prems(2,3) in simp)
  have "mn + f c = 0 \<and> (\<forall>c \<in> set cs. f c = 0)"
    by (rule Cons.IH [of _ "w + W c"]) (use Cons.prems nm a b in auto)
  moreover from this have "unat mn + unat (f c) = 0" using a by simp
  ultimately show ?case by (simp add: unat_eq_zero)
qed

lemma s_min_length_bound:
  assumes "s_width u < 2 ^ 32 - 1"
  shows "s_min_length u = UINT32_MAX \<or> unat (s_min_length u) \<le> s_width u"
  using s_length_range_ok [OF assms, of "\<lambda>_. {}"] s_min_length_eq [OF assms]
  by (auto simp: range_ok_def lr_empty_def)

lemma s_min_length_0_lang:
  "s_width u < 2 ^ 32 - 1 \<Longrightarrow> s_min_length u = 0 \<Longrightarrow> [] \<in> s_lang R u"
proof (induction u)
  case (SConcat s cs)
  have w: "s_width c < 2 ^ 32 - 1" if "c \<in> set cs" for c
    using width_sum_member [OF that, of s_width] SConcat.prems by simp
  have "\<forall>c \<in> set cs. s_min_length c = 0"
    by (rule min_concat_loop_0 [THEN conjunct2, of cs s_min_length s_width 0 0])
      (use s_min_length_bound [OF w] SConcat.prems in simp_all)
  then have "\<forall>c \<in> set cs. [] \<in> s_lang R c" using SConcat.IH w by blast
  then show ?case by (simp add: Nil_concs)
next
  case (SAlt s cs)
  then obtain c where "c \<in> set cs" "s_min_length c = 0"
    using min_alt_loop_0 [of UINT32_MAX "map s_min_length cs"] by auto
  then show ?case using SAlt width_max_member [of c cs s_width] by auto
qed auto

lemma s_range_empty_lang: "s_width u < 2 ^ 32 - 1 \<Longrightarrow> lr_empty (s_length_range u) \<Longrightarrow> s_lang R u = {}"
  using s_length_range_ok range_ok_empty by blast

lemma s_range_zero_lang:
  assumes "s_width u < 2 ^ 32 - 1" "\<not> lr_empty (s_length_range u)" "lr_max (s_length_range u) = 0"
  shows "s_lang R u = {[]}"
proof -
  note ok = s_length_range_ok [OF assms(1), of R]
  have "lr_min (s_length_range u) = 0"
    using ok assms(2,3) by (auto simp: range_ok_def lr_wf_def)
  then have "[] \<in> s_lang R u"
    using s_min_length_0_lang s_min_length_eq assms(1) by metis
  moreover have "length p = 0" if "p \<in> s_lang R u" for p
    using range_ok_length [OF ok that] assms(3) by (auto simp: lr_set_def split: if_splits)
  ultimately show ?thesis by auto
qed

lemma s_range_min_length:
  assumes "s_width u < 2 ^ 32 - 1" "p \<in> s_lang R u"
  shows "unat (lr_min (s_length_range u)) \<le> length p"
  using range_ok_length [OF s_length_range_ok [OF assms(1)] assms(2)] lr_set_min_le by blast

section \<open>Properties\<close>

text \<open>
  \<open>Query::Unit::length_range\<close> is sound: the length of every phrase the parse tree accepts
  lies in the computed range, for trees whose widths stay below \<open>UINT32_MAX\<close>; so the early
  return of \<open>normalize\<close> on ranges outside the options loses nothing.
\<close>

theorem query_length_range_sound:
  assumes "q_width e u < 2 ^ 32 - 1" and "\<And>s. se_split e s \<noteq> []" and "p \<in> q_lang e R u"
  shows "length p \<in> lr_set (q_length_range u) \<and> \<not> lr_empty (q_length_range u)"
  using range_ok_length [OF q_length_range_ok [OF assms(1,2)] assms(3)] by (auto simp: lr_set_def)

theorem query_length_range_sound_witness:
  "length [''a'', ''b''] \<in> lr_set (q_length_range (QOrderSet [QWord ''b'', QWord ''a'']))"
proof -
  let ?e = "\<lparr>se_max_length = 5, se_max_norm_queries = 10, se_dictionary = None,
    se_allow_regex = False, se_lower_case = False, se_to_lower = id, se_split = (\<lambda>s. [s])\<rparr>"
  let ?u = "QOrderSet [QWord ''b'', QWord ''a'']"
  have "concs [{[''a'']}, {[''b'']}] = {[''a'', ''b'']}" by (auto simp: conc_def)
  moreover have "mset [{[''a'']}, {[''b'']}] = mset (map (q_lang ?e (\<lambda>_. {})) [QWord ''b'', QWord ''a''])"
    by (simp add: get_text_def)
  ultimately have "[''a'', ''b''] \<in> q_lang ?e (\<lambda>_. {}) ?u"
    unfolding q_lang.simps by blast
  then show ?thesis
    using query_length_range_sound [of ?e ?u "[''a'', ''b'']" "\<lambda>_. {}"] by simp
qed

text \<open>
  \<open>SimpleQuery::Unit::min_length\<close>, with its early returns, is the minimum of
  \<open>length_range()\<close>; it is a lower bound on the accepted lengths, and a minimum of zero means
  that the empty phrase is accepted.
\<close>

theorem min_length_correct:
  assumes "s_width u < 2 ^ 32 - 1"
  shows "s_min_length u = lr_min (s_length_range u)
    \<and> (\<forall>p \<in> s_lang R u. unat (s_min_length u) \<le> length p)
    \<and> (s_min_length u = 0 \<longrightarrow> [] \<in> s_lang R u)"
  using s_min_length_eq [OF assms] s_range_min_length [OF assms] s_min_length_0_lang [OF assms] by auto

theorem min_length_correct_witness:
  "s_min_length (SAlt [] [SWord ''a'' [0], SConcat [] []])
    = lr_min (s_length_range (SAlt [] [SWord ''a'' [0], SConcat [] []]))"
  by (rule min_length_correct [THEN conjunct1]) simp

end
