(* ===== verification/Std_Algorithms.thy ===== *)
theory Std_Algorithms
  imports Prelude
begin

text \<open>
  The algorithms of the C++ standard library the program iterates with, as executable
  functions: \<open>std::next_permutation\<close> and the do/while loop around it, and the small
  arithmetic templates of \<open>src/netspeak/util/Math.hpp\<close>.

  Lists are compared lexicographically (\<open>HOL-Library.List_Lexorder\<close>), which is the order
  \<open>std::next_permutation\<close> walks through.  The main facts are \<open>next_perm_least\<close> (the result
  is the next permutation, none is skipped) and \<open>perms_from_all\<close> (the loop that starts from
  the sorted sequence visits every permutation exactly once, in increasing order).
\<close>

section \<open>The next permutation\<close>

text \<open>
  \<open>exch x ys\<close>, on an ascending \<open>ys\<close>, swaps \<open>x\<close> with the first element greater than \<open>x\<close>: the
  new head and the remaining, still ascending, elements.
\<close>

fun exch :: "'a::linorder \<Rightarrow> 'a list \<Rightarrow> 'a \<times> 'a list" where
  "exch x [] = (x, [])"
| "exch x (y # ys) =
    (if x < y then (y, x # ys) else (let (z, zs) = exch x ys in (z, y # zs)))"

text \<open>
  \<open>std::next_permutation\<close>: if a proper suffix can be advanced, advance it; otherwise the
  suffix is descending, and the head is swapped with the smallest greater element of the
  reversed suffix.  When the whole sequence is descending it is reversed and the result is
  \<open>False\<close>.
\<close>

fun next_perm :: "'a::linorder list \<Rightarrow> bool \<times> 'a list" where
  "next_perm [] = (False, [])"
| "next_perm (x # xs) =
    (let (b, ys) = next_perm xs in
     if b then (True, x # ys)
     else if ys \<noteq> [] \<and> x < last ys then (True, (let (z, zs) = exch x ys in z # zs))
     else (False, ys @ [x]))"

abbreviation descending :: "'a::linorder list \<Rightarrow> bool" where
  "descending \<equiv> sorted_wrt (\<ge>)"

lemma sorted_le_perm:
  assumes "sorted xs" and "mset ys = mset xs"
  shows "xs \<le> (ys :: 'a::linorder list)"
  using assms
proof (induction xs arbitrary: ys)
  case Nil
  then show ?case by simp
next
  case (Cons x xs)
  from Cons.prems(2) obtain y ys' where ys: "ys = y # ys'"
    by (cases ys) auto
  have "y \<in> set (x # xs)"
    using Cons.prems(2) ys by (metis list.set_intros(1) set_mset_mset)
  then have "x \<le> y" using Cons.prems(1) by auto
  moreover have "xs \<le> ys'" if "x = y"
    using Cons ys that by auto
  ultimately show ?case
    unfolding ys by (cases "x = y") auto
qed

lemma descending_ge_perm:
  assumes "descending xs" and "mset ys = mset xs"
  shows "(ys :: 'a::linorder list) \<le> xs"
  using assms
proof (induction xs arbitrary: ys)
  case Nil
  then show ?case by simp
next
  case (Cons x xs)
  from Cons.prems(2) obtain y ys' where ys: "ys = y # ys'"
    by (cases ys) auto
  have "y \<in> set (x # xs)"
    using Cons.prems(2) ys by (metis list.set_intros(1) set_mset_mset)
  then have "y \<le> x" using Cons.prems(1) by auto
  moreover have "ys' \<le> xs" if "x = y"
    using Cons ys that by auto
  ultimately show ?case
    unfolding ys by (cases "x = y") auto
qed

lemma exch_mset: "exch x ys = (z, zs) \<Longrightarrow> mset (z # zs) = mset (x # ys)"
  by (induction x ys arbitrary: z zs rule: exch.induct) (auto split: if_splits prod.splits)

lemma exch_sorted:
  "sorted ys \<Longrightarrow> exch x ys = (z, zs) \<Longrightarrow> \<exists>y \<in> set ys. x < y \<Longrightarrow>
     x < z \<and> z \<in> set ys \<and> (\<forall>y \<in> set ys. x < y \<longrightarrow> z \<le> y) \<and> sorted zs"
proof (induction x ys arbitrary: z zs rule: exch.induct)
  case (1 x)
  then show ?case by simp
next
  case (2 x y ys)
  show ?case
  proof (cases "x < y")
    case True
    then show ?thesis using "2.prems" by fastforce
  next
    case False
    obtain z' zs' where e: "exch x ys = (z', zs')" by force
    have ih: "x < z' \<and> z' \<in> set ys \<and> (\<forall>y \<in> set ys. x < y \<longrightarrow> z' \<le> y) \<and> sorted zs'"
      using "2.IH" [OF False _ e] "2.prems" False by auto
    have "set zs' \<subseteq> insert x (set ys)"
      using exch_mset [OF e] by (metis list.set_intros(2) mset_eq_setD list.simps(15) subsetI)
    then have "\<forall>w \<in> set zs'. y \<le> w"
      using "2.prems"(1) False by auto
    then show ?thesis
      using ih "2.prems" False e by auto
  qed
qed

lemma next_perm_False:
  "next_perm xs = (False, ys) \<Longrightarrow> descending xs \<and> ys = rev xs"
proof (induction xs arbitrary: ys)
  case Nil
  then show ?case by simp
next
  case (Cons x xs)
  obtain b ys' where n: "next_perm xs = (b, ys')" by force
  have b: "\<not> b" and l: "\<not> (ys' \<noteq> [] \<and> x < last ys')" and ys: "ys = ys' @ [x]"
    using Cons.prems n by (auto split: if_splits prod.splits)
  have d: "descending xs" "ys' = rev xs" using Cons.IH n b by auto
  have "y \<le> x" if "y \<in> set xs" for y
  proof -
    have "y \<le> hd xs" using that d(1) by (cases xs) auto
    then show ?thesis using l d(2) that by (cases xs) (auto simp: last_rev)
  qed
  then show ?case using d ys by auto
qed

lemma next_perm_descending:
  "descending xs \<Longrightarrow> next_perm xs = (False, rev xs)"
proof (induction xs)
  case Nil
  then show ?case by simp
next
  case (Cons x xs)
  then have "\<not> (rev xs \<noteq> [] \<and> x < last (rev xs))"
    by (cases xs) (auto simp: last_rev)
  then show ?case using Cons by auto
qed

lemma next_perm_mset: "next_perm xs = (b, ys) \<Longrightarrow> mset ys = mset xs"
proof (induction xs arbitrary: b ys)
  case Nil
  then show ?case by simp
next
  case (Cons x xs)
  obtain b' ys' where n: "next_perm xs = (b', ys')" by force
  obtain z zs where e: "exch x ys' = (z, zs)" by force
  show ?case
    using Cons.prems Cons.IH [OF n] exch_mset [OF e] n e by (auto split: if_splits)
qed

lemma next_perm_least:
  assumes "next_perm xs = (True, ys)"
  shows "xs < ys \<and> (\<forall>zs. mset zs = mset xs \<and> xs < zs \<longrightarrow> ys \<le> zs)"
  using assms
proof (induction xs arbitrary: ys)
  case Nil
  then show ?case by simp
next
  case (Cons x xs)
  obtain b ys' where n: "next_perm xs = (b, ys')" by force
  show ?case
  proof (cases b)
    case True
    then have ys: "ys = x # ys'" using Cons.prems n by simp
    have ih: "xs < ys'" "\<And>zs. mset zs = mset xs \<Longrightarrow> xs < zs \<Longrightarrow> ys' \<le> zs"
      using Cons.IH n True by auto
    have "ys \<le> zs" if "mset zs = mset (x # xs)" "x # xs < zs" for zs
      using that ys ih(2) by (cases zs) auto
    then show ?thesis using ih ys by auto
  next
    case False
    then have d: "descending xs" "ys' = rev xs" using next_perm_False n by auto
    obtain z zs where e: "exch x ys' = (z, zs)" by force
    have ne: "ys' \<noteq> []" "x < last ys'" and ys: "ys = z # zs"
      using Cons.prems n False e by (auto split: if_splits)
    have sd: "sorted ys'" using d by (simp add: sorted_wrt_rev)
    have ex: "\<exists>y \<in> set ys'. x < y" using ne by (metis last_in_set)
    have z: "x < z" "z \<in> set xs" "\<And>y. y \<in> set xs \<Longrightarrow> x < y \<Longrightarrow> z \<le> y" "sorted zs"
      using exch_sorted [OF sd e ex] d(2) by auto
    have "ys \<le> ws" if m: "mset ws = mset (x # xs)" and l: "x # xs < ws" for ws
    proof -
      obtain w ws' where ws: "ws = w # ws'" using m by (cases ws) auto
      have w: "w \<in> insert x (set xs)"
        using m ws by (metis list.set_intros(1) list.simps(15) mset_eq_setD)
      show ?thesis
      proof (cases "w = x")
        case True
        then have "ws' \<le> xs" "xs < ws'"
          using descending_ge_perm [OF d(1), of ws'] m l ws by auto
        then show ?thesis by simp
      next
        case False
        then have "x < w" "z \<le> w" using l ws w z(3) by auto
        moreover have "zs \<le> ws'" if "w = z"
        proof (rule sorted_le_perm [OF z(4)])
          show "mset ws' = mset zs"
            using exch_mset [OF e] d(2) m ws that by (metis mset.simps(2) mset_rev add_left_imp_eq add_mset_add_mset_same_iff)
        qed
        ultimately show ?thesis using ys ws by (cases "w = z") auto
      qed
    qed
    then show ?thesis using z(1) ys by auto
  qed
qed

section \<open>The loop over all permutations\<close>

text \<open>
  \<open>do { use(s); } while (std::next_permutation(s.begin(), s.end()));\<close> as the list of the
  sequences the body sees.
\<close>

lemma finite_perms: "finite {ys. mset ys = mset xs}"
proof (rule finite_subset)
  show "{ys. mset ys = mset xs} \<subseteq> {ys. set ys \<subseteq> set xs \<and> length ys = length xs}"
    using mset_eq_setD mset_eq_length by fastforce
qed (simp add: finite_lists_length_eq)

function perms_from :: "'a::linorder list \<Rightarrow> 'a list list" where
  "perms_from xs =
    xs # (let (b, ys) = next_perm xs in if b then perms_from ys else [])"
  by auto
termination
proof (relation "measure (\<lambda>xs. card {ys. mset ys = mset xs \<and> xs < ys})")
  fix xs x b and ys :: "'a list"
  assume "x = next_perm xs" "(b, ys) = x" "b"
  then have n: "next_perm xs = (True, ys)" by simp
  have "{zs. mset zs = mset ys \<and> ys < zs} \<subset> {zs. mset zs = mset xs \<and> xs < zs}"
    using next_perm_mset [OF n] next_perm_least [OF n] by auto
  then show "(ys, xs) \<in> measure (\<lambda>xs. card {ys. mset ys = mset xs \<and> xs < ys})"
    using finite_subset [OF _ finite_perms [of xs]] by (auto intro!: psubset_card_mono)
qed auto

declare perms_from.simps [simp del]

lemma perms_from_facts:
  "set (perms_from xs) = {ys. mset ys = mset xs \<and> xs \<le> ys}
    \<and> sorted_wrt (<) (perms_from xs)"
proof (induction xs rule: perms_from.induct)
  case (1 xs)
  obtain b ys where n: "next_perm xs = (b, ys)" by force
  show ?case
  proof (cases b)
    case True
    then have n': "next_perm xs = (True, ys)" using n by simp
    note np = next_perm_mset [OF n'] next_perm_least [OF n']
    have ih: "set (perms_from ys) = {zs. mset zs = mset ys \<and> ys \<le> zs}"
      "sorted_wrt (<) (perms_from ys)"
      using 1 n True by auto
    have "perms_from xs = xs # perms_from ys"
      using n True by (simp add: perms_from.simps [of xs])
    then show ?thesis using ih np by (auto simp: order.order_iff_strict)
  next
    case False
    then have d: "descending xs" using next_perm_False n by auto
    have "perms_from xs = [xs]" using n False by (simp add: perms_from.simps [of xs])
    moreover have "{ys. mset ys = mset xs \<and> xs \<le> ys} = {xs}"
      using descending_ge_perm [OF d] by (auto intro: antisym)
    ultimately show ?thesis by simp
  qed
qed

lemma perms_from_all:
  assumes "sorted xs"
  shows "set (perms_from xs) = {ys. mset ys = mset xs}"
    and "distinct (perms_from xs)"
    and "sorted_wrt (<) (perms_from xs)"
proof -
  show "set (perms_from xs) = {ys. mset ys = mset xs}"
    using perms_from_facts [of xs] sorted_le_perm [OF assms] by auto
  show s: "sorted_wrt (<) (perms_from xs)" using perms_from_facts by blast
  then show "distinct (perms_from xs)"
    by (simp add: strict_sorted_iff)
qed

lemma perms_from_length: "ys \<in> set (perms_from xs) \<Longrightarrow> length ys = length xs"
  using perms_from_facts [of xs] mset_eq_length by auto

section \<open>\<open>util::binomial\<close> and \<open>util::factorial\<close> on \<open>size_t\<close>\<close>

lemma unat_pred_less: "k \<noteq> 0 \<Longrightarrow> unat (k - 1 :: 'a::len word) < unat k"
  by (simp add: measure_unat)

text \<open>The template recurses on both arguments; the arithmetic wraps modulo \<open>2 ^ 64\<close>.\<close>

function binomial_u64 :: "u64 \<Rightarrow> u64 \<Rightarrow> u64" where
  "binomial_u64 n k = (if k = 0 then 1 else n * binomial_u64 (n - 1) (k - 1) div k)"
  by auto
termination
  by (relation "measure (\<lambda>(n, k). unat k)") (auto intro: unat_pred_less)

declare binomial_u64.simps [simp del]

function factorial_loop :: "u64 \<Rightarrow> u64 \<Rightarrow> u64" where
  "factorial_loop n acc = (if n > 1 then factorial_loop (n - 1) (acc * n) else acc)"
  by auto
termination
  by (relation "measure (\<lambda>(n, acc). unat n)") (auto intro: unat_pred_less)

declare factorial_loop.simps [simp del]

definition factorial :: "u64 \<Rightarrow> u64" where
  "factorial n = factorial_loop n 1"

text \<open>Inside the range of \<open>size_t\<close> both templates compute the mathematical functions.\<close>

lemma unat_pred: "k \<noteq> 0 \<Longrightarrow> unat (k - 1 :: 'a::len word) = unat k - 1"
  by (rule unat_minus_one)

lemma unat_mult_u64: "unat a * unat b < 2 ^ 64 \<Longrightarrow> unat (a * b :: u64) = unat a * unat b"
  using unat_mult_lem [of a b] by simp

lemma binomial_u64_correct:
  assumes "unat k \<le> unat n" and "unat k * (unat n choose unat k) < 2 ^ 64"
  shows "unat (binomial_u64 n k) = unat n choose unat k"
  using assms
proof (induction n k rule: binomial_u64.induct)
  case (1 n k)
  show ?case
  proof (cases "k = 0")
    case True
    then show ?thesis by (simp add: binomial_u64.simps [of n 0])
  next
    case False
    then have "unat k \<noteq> 0" "unat n \<noteq> 0" "n \<noteq> 0"
      using "1.prems"(1) by (auto simp: unat_eq_zero)
    then obtain k' n' where kn: "unat k = Suc k'" "unat n = Suc n'"
      by (metis not0_implies_Suc)
    have p: "unat (k - 1) = k'" "unat (n - 1) = n'"
      using False \<open>n \<noteq> 0\<close> kn unat_pred [of k] unat_pred [of n] by simp_all
    have absorb: "unat n * (n' choose k') = unat k * (unat n choose unat k)"
      using Suc_times_binomial_eq [of n' k'] kn by (simp add: mult.commute)
    have "n' choose k' \<le> unat n choose unat k" using kn by simp
    then have "k' * (n' choose k') \<le> unat k * (unat n choose unat k)"
      using kn by (intro mult_le_mono) auto
    then have ih: "unat (binomial_u64 (n - 1) (k - 1)) = n' choose k'"
      using "1.IH" [OF False] "1.prems" kn p by simp
    then have "unat (n * binomial_u64 (n - 1) (k - 1)) = unat k * (unat n choose unat k)"
      using unat_mult_u64 [of n "binomial_u64 (n - 1) (k - 1)"] "1.prems"(2) absorb by simp
    then show ?thesis
      using False \<open>unat k \<noteq> 0\<close> by (simp add: binomial_u64.simps [of n k] unat_div)
  qed
qed

lemma factorial_loop_correct:
  "unat acc * fact (unat n) < 2 ^ 64 \<Longrightarrow> unat (factorial_loop n acc) = unat acc * fact (unat n)"
proof (induction n acc rule: factorial_loop.induct)
  case (1 n acc)
  show ?case
  proof (cases "n > 1")
    case True
    then have n0: "n \<noteq> 0" "unat n \<noteq> 0" by (auto simp: unat_eq_zero)
    have f: "fact (unat n) = unat n * fact (unat n - 1)"
      using n0 fact_reduce [of "unat n"] by simp
    have "unat acc * unat n \<le> unat acc * fact (unat n)"
      unfolding f by simp
    also note "1.prems"
    finally have m: "unat (acc * n) = unat acc * unat n"
      by (rule unat_mult_u64)
    have "unat (factorial_loop (n - 1) (acc * n)) = unat (acc * n) * fact (unat (n - 1))"
      using "1.IH" [OF True] "1.prems" m f unat_pred [OF n0(1)] by (simp add: mult.assoc)
    then show ?thesis
      using True m f unat_pred [OF n0(1)] by (simp add: factorial_loop.simps [of n] mult.assoc)
  next
    case False
    then have "unat n \<le> 1" by (simp add: word_less_nat_alt)
    then have "unat n = 0 \<or> unat n = 1" by linarith
    then show ?thesis using False by (auto simp: factorial_loop.simps [of n])
  qed
qed

lemma factorial_correct:
  assumes "unat n \<le> 20"
  shows "unat (factorial n) = fact (unat n)"
proof -
  have "fact (unat n) \<le> (fact 20 :: nat)" using assms by (rule fact_mono_nat)
  also have "(fact 20 :: nat) < 2 ^ 64" by (simp add: fact_numeral)
  finally show ?thesis
    using factorial_loop_correct [of 1 n] by (simp add: factorial_def)
qed

section \<open>Properties\<close>

text \<open>
  C26. \<open>std::next_permutation\<close> as used by the order sets and the chain cutter: it returns
  \<open>True\<close> with the least permutation above its argument, or \<open>False\<close> on the greatest one, so
  the do/while loop from a sorted start visits every permutation once, in ascending order.
\<close>

theorem next_permutation_loop:
  "(case next_perm xs of
      (True, ys) \<Rightarrow> mset ys = mset xs \<and> xs < ys \<and> (\<forall>zs. mset zs = mset xs \<and> xs < zs \<longrightarrow> ys \<le> zs)
    | (False, ys) \<Rightarrow> ys = rev xs \<and> (\<forall>zs. mset zs = mset xs \<longrightarrow> zs \<le> xs))
   \<and> set (perms_from (sort xs)) = {ys. mset ys = mset xs}
   \<and> sorted_wrt (<) (perms_from (sort xs))"
proof -
  have loop: "set (perms_from (sort xs)) = {ys. mset ys = mset xs}"
      "sorted_wrt (<) (perms_from (sort xs))"
    using perms_from_all [of "sort xs"] by simp_all
  show ?thesis
  proof (cases "next_perm xs")
    case (Pair b ys)
    show ?thesis
      using Pair loop next_perm_mset [OF Pair] next_perm_least [of xs ys] next_perm_False [of xs ys]
        descending_ge_perm [of xs]
      by (cases b) auto
  qed
qed

theorem next_permutation_loop_witness:
  "next_perm [0, 1, 1 :: nat] = (True, [1, 0, 1])
    \<and> set (perms_from (sort [1, 0, 1 :: nat])) = {ys. mset ys = mset [1, 0, 1 :: nat]}"
  using next_permutation_loop [of "[1, 0, 1 :: nat]"] by simp

end
