(* ===== verification/Simplifier.thy ===== *)
theory Simplifier
  imports Query_Language Std_Algorithms
begin

text \<open>
  \<open>class QuerySimplifier\<close> of \<open>src/netspeak/QueryNormalizer.cpp\<close>: the translation of a parse
  tree into a simple query.  The member functions are one mutually recursive group over the
  parse tree; the position of a unit is passed along because it is the source of everything
  the unit is translated to.

  \<open>simplify_language\<close> shows that the translation keeps the accepted phrases of at most
  \<open>max_length\<close> words, \<open>simplify_width\<close> that no sum of lengths grows, \<open>simplify_sources\<close> that
  every unit of the result points to a unit of the parse tree that can produce it, and
  \<open>simplify_error\<close> which queries are refused.
\<close>

definition add_to_concat :: "simple_unit \<Rightarrow> simple_unit \<Rightarrow> simple_unit" where
  "add_to_concat con u =
    (if s_is_concat u then s_set_children con (s_children con @ s_children u)
     else s_set_children con (s_children con @ [u]))"

definition add_to_alternation :: "simple_unit \<Rightarrow> simple_unit \<Rightarrow> simple_unit" where
  "add_to_alternation alt u =
    (if s_is_alt u then s_set_children alt (s_children alt @ s_children u)
     else s_set_children alt (s_children alt @ [u]))"

definition plus_to_simple :: "src \<Rightarrow> simple_unit" where
  "plus_to_simple source = SConcat source [SQMark source, SStar source]"

definition regex_to_simple :: "simp_env \<Rightarrow> string \<Rightarrow> src \<Rightarrow> simple_unit" where
  "regex_to_simple e text source =
    (if se_allow_regex e then SRegex (get_text e text) source else SAlt source [])"

text \<open>The loop over the synonyms; \<open>words\<close> is the result of \<open>boost::split\<close>.\<close>

definition synonym_to_simple :: "simp_env \<Rightarrow> src \<Rightarrow> string \<Rightarrow> simple_unit" where
  "synonym_to_simple e source syn =
    (let words = se_split e syn
     in if length words = 1 then SWord (words ! 0) source
        else SConcat source (map (\<lambda>w. SWord w source) words))"

fun dict_loop :: "simp_env \<Rightarrow> src \<Rightarrow> string \<Rightarrow> string list \<Rightarrow> simple_unit list" where
  "dict_loop e source text [] = []"
| "dict_loop e source text (syn # syns) =
    (if syn = text then dict_loop e source text syns
     else synonym_to_simple e source syn # dict_loop e source text syns)"

definition dict_to_simple :: "simp_env \<Rightarrow> string \<Rightarrow> src \<Rightarrow> simple_unit" where
  "dict_to_simple e unit_text source =
    (let text = get_text e unit_text;
         text_unit = SWord text source
     in case se_dictionary e of
          None \<Rightarrow> text_unit
        | Some d \<Rightarrow>
            (let range = equal_range d text
             in if range = [] then text_unit
                else SAlt source (text_unit # dict_loop e source text range)))"

text \<open>
  The part of \<open>order_to_simple\<close> after the loop over the children: the two checks, the special
  cases, and the alternation of all permutations, driven by \<open>std::next_permutation\<close> on the
  indexes.
\<close>

definition perm_concat :: "src \<Rightarrow> simple_unit list \<Rightarrow> nat list \<Rightarrow> simple_unit" where
  "perm_concat source elements indexes =
    foldl add_to_concat (SConcat source []) (map (\<lambda>i. elements ! i) indexes)"

definition order_finish :: "simp_env \<Rightarrow> src \<Rightarrow> simple_unit list \<Rightarrow> u32 \<Rightarrow> simple_unit result" where
  "order_finish e source elements elements_min_length =
    (if elements_min_length > se_max_length e then Inr (SAlt source [])
     else if length elements \<ge> 7
         \<or> factorial (of_nat (length elements)) > se_max_norm_queries e
       then Inl (InvalidQuery ''Orderset with too many options.'')
     else if length elements = 0 then Inr (SConcat source [])
     else if length elements = 1 then Inr (elements ! 0)
     else Inr (SAlt source
       (map (perm_concat source elements) (perms_from [0..<length elements]))))"

fun unit_to_simple :: "simp_env \<Rightarrow> qunit \<Rightarrow> src \<Rightarrow> simple_unit result"
  and children_to_simple :: "simp_env \<Rightarrow> qunit list \<Rightarrow> src \<Rightarrow> nat \<Rightarrow> simple_unit list result"
  and order_elements ::
    "simp_env \<Rightarrow> qunit list \<Rightarrow> src \<Rightarrow> nat \<Rightarrow> u32 \<Rightarrow> simple_unit list
      \<Rightarrow> (simple_unit list \<times> u32) option result" where
  "unit_to_simple e (QWord t) source = Inr (SWord (get_text e t) source)"
| "unit_to_simple e (QQMark _) source = Inr (SQMark source)"
| "unit_to_simple e (QStar _) source = Inr (SStar source)"
| "unit_to_simple e (QPlus _) source = Inr (plus_to_simple source)"
| "unit_to_simple e (QRegex t) source = Inr (regex_to_simple e t source)"
| "unit_to_simple e (QDictSet t) source = Inr (dict_to_simple e t source)"
| "unit_to_simple e (QOptionSet cs) source =
    rbind (children_to_simple e cs source 0) (\<lambda>us.
      Inr (foldl add_to_alternation
        (SAlt source (if length cs \<le> 1 then [SConcat source []] else [])) us))"
| "unit_to_simple e (QOrderSet cs) source =
    rbind (order_elements e cs source 0 0 []) (\<lambda>r.
      case r of
        None \<Rightarrow> Inr (SAlt source [])
      | Some (elements, elements_min_length) \<Rightarrow> order_finish e source elements elements_min_length)"
| "unit_to_simple e (QAlternation cs) source =
    rbind (children_to_simple e cs source 0) (\<lambda>us.
      Inr (foldl add_to_alternation (SAlt source []) us))"
| "unit_to_simple e (QConcat cs) source =
    rbind (children_to_simple e cs source 0) (\<lambda>us.
      Inr (foldl add_to_concat (SConcat source []) us))"
| "children_to_simple e [] source i = Inr []"
| "children_to_simple e (c # cs) source i =
    rbind (unit_to_simple e c (source @ [i])) (\<lambda>u.
      rbind (children_to_simple e cs source (Suc i)) (\<lambda>us. Inr (u # us)))"
| "order_elements e [] source i mn elements = Inr (Some (elements, mn))"
| "order_elements e (c # cs) source i mn elements =
    rbind (unit_to_simple e c (source @ [i])) (\<lambda>child_simple.
      (let rng = s_length_range child_simple
       in if lr_empty rng then Inr None
          else if lr_max rng = 0 then order_elements e cs source (Suc i) (mn + lr_min rng) elements
          else rbind (unit_to_simple e c (source @ [i])) (\<lambda>child.
            order_elements e cs source (Suc i) (mn + lr_min rng) (elements @ [child]))))"

text \<open>\<open>to_simple\<close> starts at the alternation at the root of the query.\<close>

definition to_simple :: "simp_env \<Rightarrow> qunit \<Rightarrow> simple_unit result" where
  "to_simple e alternatives = unit_to_simple e alternatives []"

section \<open>Languages of permutations\<close>

definition perms_lang :: "lang list \<Rightarrow> lang" where
  "perms_lang Ls = \<Union> {concs Ms | Ms. mset Ms = mset Ls}"

lemma list_all2_reorder:
  assumes "list_all2 P xs ys" "mset xs' = mset xs"
  obtains ys' where "list_all2 P xs' ys'" "mset ys' = mset ys"
  using list_all2_reorder_left_invariance [OF assms] by blast

lemma mset_map_reorder:
  assumes "mset Ms = mset (map f us)"
  obtains vs where "Ms = map f vs" "mset vs = mset us"
proof -
  have "list_all2 (\<lambda>M u. M = f u) (map f us) us"
    by (simp add: list_all2_conv_all_nth)
  from list_all2_reorder [OF this assms] obtain vs
    where "list_all2 (\<lambda>M u. M = f u) Ms vs" "mset vs = mset us" by blast
  moreover from this have "Ms = map f vs"
    by (auto simp: list_all2_conv_all_nth intro: nth_equalityI)
  ultimately show ?thesis using that by blast
qed

lemma perms_langI:
  assumes "p \<in> concs (map f vs)" "mset vs = mset us"
  shows "p \<in> perms_lang (map f us)"
proof -
  have "mset (map f vs) = mset (map f us)" using assms(2) by simp
  then show ?thesis using assms(1) unfolding perms_lang_def by blast
qed

lemma perms_langE:
  assumes "p \<in> perms_lang (map f us)"
  obtains vs where "p \<in> concs (map f vs)" "mset vs = mset us"
proof -
  obtain Ms where "p \<in> concs Ms" "mset Ms = mset (map f us)"
    using assms by (auto simp: perms_lang_def)
  then show ?thesis using mset_map_reorder [of Ms f us] that by blast
qed

lemma perms_lang_map: "perms_lang (map f us) = \<Union> {concs (map f vs) | vs. mset vs = mset us}"
  by (auto intro: perms_langI elim: perms_langE)

lemma perms_lang_eq_upto1:
  assumes "list_all2 (eq_upto k) Ls Ms" "p \<in> perms_lang Ls" "length p \<le> k"
  shows "p \<in> perms_lang Ms"
proof -
  obtain Ls' where l: "p \<in> concs Ls'" "mset Ls' = mset Ls"
    using assms(2) by (auto simp: perms_lang_def)
  from list_all2_reorder [OF assms(1) l(2)]
  obtain Ms' where m: "list_all2 (eq_upto k) Ls' Ms'" "mset Ms' = mset Ms" by blast
  then have "p \<in> concs Ms'"
    using eq_upto_concs [OF m(1)] l(1) assms(3) by (auto simp: eq_upto_def)
  then show ?thesis using m(2) by (auto simp: perms_lang_def)
qed

lemma perms_lang_eq_upto:
  assumes "list_all2 (eq_upto k) Ls Ms"
  shows "eq_upto k (perms_lang Ls) (perms_lang Ms)"
proof -
  have "list_all2 (eq_upto k) Ms Ls"
    using assms by (auto simp: list_all2_conv_all_nth eq_upto_sym)
  then show ?thesis
    using assms perms_lang_eq_upto1 unfolding eq_upto_def by blast
qed

lemma concs_drop_unit:
  "(\<And>u. u \<in> set us \<Longrightarrow> \<not> keep u \<Longrightarrow> f u = {[]}) \<Longrightarrow> concs (map f us) = concs (map f (filter keep us))"
  by (induction us) auto

lemma perms_lang_drop_unit:
  assumes "\<And>u. u \<in> set us \<Longrightarrow> \<not> keep u \<Longrightarrow> f u = {[]}"
  shows "perms_lang (map f us) = perms_lang (map f (filter keep us))"
proof
  show "perms_lang (map f us) \<subseteq> perms_lang (map f (filter keep us))"
  proof
    fix p assume "p \<in> perms_lang (map f us)"
    then obtain vs where vs: "p \<in> concs (map f vs)" "mset vs = mset us"
      by (rule perms_langE)
    then have "set vs = set us" by (metis mset_eq_setD)
    then have "p \<in> concs (map f (filter keep vs))"
      using concs_drop_unit [of vs keep f] vs(1) assms by auto
    moreover have "mset (filter keep vs) = mset (filter keep us)" using vs(2) by simp
    ultimately show "p \<in> perms_lang (map f (filter keep us))"
      by (rule perms_langI)
  qed
  show "perms_lang (map f (filter keep us)) \<subseteq> perms_lang (map f us)"
  proof
    fix p assume "p \<in> perms_lang (map f (filter keep us))"
    then obtain ws where ws: "p \<in> concs (map f ws)" "mset ws = mset (filter keep us)"
      by (rule perms_langE)
    define vs where "vs = ws @ filter (\<lambda>u. \<not> keep u) us"
    have "mset vs = mset us" using ws(2) by (simp add: vs_def)
    have kw: "\<And>u. u \<in> set ws \<Longrightarrow> keep u" using ws(2) mset_eq_setD by fastforce
    then have "filter keep vs = ws" by (simp add: vs_def filter_id_conv)
    moreover have "f u = {[]}" if "u \<in> set vs" "\<not> keep u" for u
      using that assms kw by (auto simp: vs_def)
    ultimately have "p \<in> concs (map f vs)"
      using concs_drop_unit [of vs keep f] ws(1) by simp
    then show "p \<in> perms_lang (map f us)"
      using \<open>mset vs = mset us\<close> by (rule perms_langI)
  qed
qed

lemma perms_lang_nil [simp]: "perms_lang [] = {[]}"
  by (auto simp: perms_lang_def)

lemma perms_lang_single [simp]: "perms_lang [L] = L"
  by (auto simp: perms_lang_def)

lemma perms_lang_empty: "{} \<in> set Ls \<Longrightarrow> perms_lang Ls = {}"
  unfolding perms_lang_def using concs_empty mset_eq_setD by fastforce

lemma concs_min_length:
  assumes "\<And>u p. u \<in> set us \<Longrightarrow> p \<in> f u \<Longrightarrow> m u \<le> length p" "p \<in> concs (map f us)"
  shows "sum_list (map m us) \<le> length p"
  using assms
proof (induction us arbitrary: p)
  case (Cons u us)
  then obtain q r where "p = q @ r" "q \<in> f u" "r \<in> concs (map f us)" by auto
  then show ?case using Cons.IH [of r] Cons.prems(1) [of u q] Cons.prems(1) by fastforce
qed simp

lemma perms_lang_min_length:
  assumes "\<And>u p. u \<in> set us \<Longrightarrow> p \<in> f u \<Longrightarrow> m u \<le> length p" "p \<in> perms_lang (map f us)"
  shows "sum_list (map m us) \<le> length p"
proof -
  obtain Ms where "p \<in> concs Ms" "mset Ms = mset (map f us)"
    using assms(2) by (auto simp: perms_lang_def)
  then obtain q where "q \<in> concs (map f us)" "length q = length p"
    using concs_perm_length by blast
  then show ?thesis using concs_min_length [of us f m q] assms(1) by metis
qed

lemma perms_by_index:
  "{map (\<lambda>i. es ! i) ix | ix. mset ix = mset [0..<length es]} = {ws. mset ws = mset es}"
proof
  show "{map (\<lambda>i. es ! i) ix | ix. mset ix = mset [0..<length es]} \<subseteq> {ws. mset ws = mset es}"
    by clarsimp (metis map_nth mset_map mset_upt)
  show "{ws. mset ws = mset es} \<subseteq> {map (\<lambda>i. es ! i) ix | ix. mset ix = mset [0..<length es]}"
  proof
    fix ws assume "ws \<in> {ws. mset ws = mset es}"
    then have "mset ws = mset (map (\<lambda>i. es ! i) [0..<length es])" by (simp add: map_nth)
    then obtain ix where "ws = map (\<lambda>i. es ! i) ix" "mset ix = mset [0..<length es]"
      by (rule mset_map_reorder)
    then show "ws \<in> {map (\<lambda>i. es ! i) ix | ix. mset ix = mset [0..<length es]}" by blast
  qed
qed

section \<open>Adding children\<close>

definition concat_parts :: "simple_unit \<Rightarrow> simple_unit list" where
  "concat_parts u = (if s_is_concat u then s_children u else [u])"

definition alt_parts :: "simple_unit \<Rightarrow> simple_unit list" where
  "alt_parts u = (if s_is_alt u then s_children u else [u])"

lemma foldl_add_to_concat:
  "foldl add_to_concat (SConcat s cs) us = SConcat s (cs @ concat (map concat_parts us))"
  by (induction us arbitrary: cs) (auto simp: add_to_concat_def concat_parts_def)

lemma foldl_add_to_alternation:
  "foldl add_to_alternation (SAlt s cs) us = SAlt s (cs @ concat (map alt_parts us))"
  by (induction us arbitrary: cs) (auto simp: add_to_alternation_def alt_parts_def)

lemma concat_parts_lang: "concs (map (s_lang R) (concat_parts u)) = s_lang R u"
  by (cases u) (auto simp: concat_parts_def)

lemma alt_parts_lang: "\<Union> (set (map (s_lang R) (alt_parts u))) = s_lang R u"
  by (cases u) (auto simp: alt_parts_def)

lemma concat_parts_width: "sum_list (map s_width (concat_parts u)) = s_width u"
  by (cases u) (auto simp: concat_parts_def)

lemma alt_parts_width: "max_list0 (map s_width (alt_parts u)) = s_width u"
  by (cases u) (auto simp: alt_parts_def)

lemma concat_all_lang:
  "concs (map (s_lang R) (concat (map concat_parts us))) = concs (map (s_lang R) us)"
  by (induction us) (auto simp: concat_parts_lang)

lemma alt_all_lang:
  "\<Union> (set (map (s_lang R) (concat (map alt_parts us)))) = \<Union> (set (map (s_lang R) us))"
proof (induction us)
  case (Cons u us)
  then show ?case using alt_parts_lang [of R u] by simp
qed simp

lemma concat_all_width:
  "sum_list (map s_width (concat (map concat_parts us))) = sum_list (map s_width us)"
  by (induction us) (auto simp: concat_parts_width)

lemma alt_all_width:
  "max_list0 (map s_width (concat (map alt_parts us))) = max_list0 (map s_width us)"
  by (induction us) (auto simp: alt_parts_width)

section \<open>The translation keeps the language\<close>

definition simp_ok :: "simp_env \<Rightarrow> (string \<Rightarrow> string set) \<Rightarrow> qunit \<Rightarrow> simple_unit \<Rightarrow> bool" where
  "simp_ok e R u su \<longleftrightarrow>
    eq_upto (unat (se_max_length e)) (s_lang R su) (q_lang e R u) \<and> s_width su \<le> q_width e u"

lemma list_all2_simp_ok_lang:
  "list_all2 (simp_ok e R) cs us \<Longrightarrow>
    list_all2 (eq_upto (unat (se_max_length e))) (map (s_lang R) us) (map (q_lang e R) cs)"
  by (auto simp: list_all2_conv_all_nth simp_ok_def)

lemma list_all2_simp_ok_sum:
  "list_all2 (simp_ok e R) cs us \<Longrightarrow> sum_list (map s_width us) \<le> sum_list (map (q_width e) cs)"
  by (induction rule: list_all2_induct) (auto simp: simp_ok_def)

lemma list_all2_simp_ok_max:
  "list_all2 (simp_ok e R) cs us \<Longrightarrow> max_list0 (map s_width us) \<le> max_list0 (map (q_width e) cs)"
  by (induction rule: list_all2_induct) (auto simp: simp_ok_def)

lemma list_all2_simp_ok_Un:
  "list_all2 (simp_ok e R) cs us \<Longrightarrow>
    eq_upto (unat (se_max_length e)) (\<Union> (set (map (s_lang R) us))) (\<Union> (set (map (q_lang e R) cs)))"
  by (induction rule: list_all2_induct) (auto simp: simp_ok_def intro: eq_upto_Un)

lemma children_to_simple_all2:
  assumes "children_to_simple e cs source i = Inr us"
    and "\<And>c p su. c \<in> set cs \<Longrightarrow> unit_to_simple e c p = Inr su \<Longrightarrow> P c su"
  shows "list_all2 P cs us"
  using assms
proof (induction cs arbitrary: i us)
  case (Cons c cs)
  then show ?case by (auto simp del: unit_to_simple.simps)
qed simp

definition not_void :: "simple_unit \<Rightarrow> bool" where
  "not_void u \<longleftrightarrow> lr_max (s_length_range u) \<noteq> 0"

lemma order_elements_None:
  assumes "order_elements e cs source i mn els = Inr None"
  obtains c p su where "c \<in> set cs" "unit_to_simple e c p = Inr su" "lr_empty (s_length_range su)"
  using assms
proof (induction cs arbitrary: i mn els thesis)
  case Nil
  then show ?case by simp
next
  case (Cons c cs)
  from Cons.prems(2) obtain su where su: "unit_to_simple e c (source @ [i]) = Inr su"
    by (auto simp: Let_def)
  show ?case
  proof (cases "lr_empty (s_length_range su)")
    case True
    then show ?thesis using Cons.prems(1) su by (metis list.set_intros(1))
  next
    case False
    then obtain i' mn' els' where "order_elements e cs source i' mn' els' = Inr None"
      using Cons.prems(2) su by (auto simp: Let_def split: if_splits)
    then show ?thesis using Cons.IH Cons.prems(1) by (metis list.set_intros(2))
  qed
qed

lemma order_elements_Some:
  assumes "order_elements e cs source i mn els = Inr (Some (els', mn'))"
    and "\<And>c p su. c \<in> set cs \<Longrightarrow> unit_to_simple e c p = Inr su \<Longrightarrow> P c su"
    and "\<And>c su. c \<in> set cs \<Longrightarrow> P c su \<Longrightarrow> \<not> lr_empty (s_length_range su)
      \<Longrightarrow> unat (lr_min (s_length_range su)) \<le> W c"
    and "unat mn + sum_list (map W cs) < 2 ^ 32 - 1"
  obtains us where "list_all2 P cs us" "els' = els @ filter not_void us"
    "\<forall>u \<in> set us. \<not> lr_empty (s_length_range u)"
    "unat mn' = unat mn + sum_list (map (\<lambda>u. unat (lr_min (s_length_range u))) us)"
  using assms
proof (induction cs arbitrary: i mn els thesis)
  case Nil
  then show ?case by simp
next
  case (Cons c cs)
  from Cons.prems(2) obtain su where su: "unit_to_simple e c (source @ [i]) = Inr su"
    by (auto simp: Let_def)
  define m where "m = lr_min (s_length_range su)"
  have ne: "\<not> lr_empty (s_length_range su)"
    using Cons.prems(2) su by (auto simp: Let_def split: if_splits)
  have P: "P c su" using Cons.prems(3) su by simp
  have mw: "unat m \<le> W c" using Cons.prems(4) [OF _ P ne] by (simp add: m_def)
  have add: "unat (mn + m) = unat mn + unat m"
    by (rule add_u32_fits) (use mw Cons.prems(5) in simp)
  define els1 where "els1 = (if not_void su then els @ [su] else els)"
  have rest: "order_elements e cs source (Suc i) (mn + m) els1 = Inr (Some (els', mn'))"
    using Cons.prems(2) su ne
    by (auto simp: Let_def m_def els1_def not_void_def split: if_splits)
  have bound: "unat (mn + m) + sum_list (map W cs) < 2 ^ 32 - 1"
    using Cons.prems(5) add mw by simp
  obtain us where us: "list_all2 P cs us" "els' = els1 @ filter not_void us"
    "\<forall>u \<in> set us. \<not> lr_empty (s_length_range u)"
    "unat mn' = unat (mn + m) + sum_list (map (\<lambda>u. unat (lr_min (s_length_range u))) us)"
    by (rule Cons.IH [OF _ rest _ _ bound]) (use Cons.prems(3,4) in auto)
  show ?case
    by (rule Cons.prems(1) [of "su # us"]) (use us P ne add in \<open>auto simp: els1_def m_def\<close>)
qed

lemma perm_concat_eq:
  "perm_concat source els ix = SConcat source (concat (map concat_parts (map (\<lambda>i. els ! i) ix)))"
  by (simp add: perm_concat_def foldl_add_to_concat)

lemma perms_alt_lang:
  "s_lang R (SAlt source (map (perm_concat source els) (perms_from [0..<length els])))
    = perms_lang (map (s_lang R) els)"
proof -
  have "s_lang R (perm_concat source els ix) = concs (map (s_lang R) (map (\<lambda>i. els ! i) ix))" for ix
    by (simp add: perm_concat_eq concat_all_lang del: map_map)
  then have "s_lang R (SAlt source (map (perm_concat source els) (perms_from [0..<length els])))
      = \<Union> ((\<lambda>ws. concs (map (s_lang R) ws)) ` {map (\<lambda>i. els ! i) ix | ix. mset ix = mset [0..<length els]})"
    using perms_from_all(1) [of "[0..<length els]"] by auto
  also have "\<dots> = perms_lang (map (s_lang R) els)"
    unfolding perms_by_index perms_lang_map by auto
  finally show ?thesis .
qed

lemma perms_alt_width:
  "s_width (SAlt source (map (perm_concat source els) (perms_from [0..<length els])))
    \<le> sum_list (map s_width els)"
proof -
  have "s_width (perm_concat source els ix) = sum_list (map s_width els)"
    if "ix \<in> set (perms_from [0..<length els])" for ix
  proof -
    have "mset ix = mset [0..<length els]"
      using that perms_from_all(1) [of "[0..<length els]"] by auto
    then have "mset (map (\<lambda>i. els ! i) ix) = mset els"
      by (metis map_nth mset_map)
    then have "sum_mset (mset (map s_width (map (\<lambda>i. els ! i) ix))) = sum_mset (mset (map s_width els))"
      by (simp only: mset_map)
    then show ?thesis
      by (simp only: perm_concat_eq s_width.simps concat_all_width sum_mset_sum_list)
  qed
  then show ?thesis by (auto intro!: max_list0_le)
qed

lemma q_lang_order: "q_lang e R (QOrderSet cs) = perms_lang (map (q_lang e R) cs)"
  by (simp add: perms_lang_def)

lemma order_finish_ok:
  assumes fin: "order_finish e source (filter not_void us) mn = Inr su"
    and ok: "list_all2 (simp_ok e R) cs us"
    and ne: "\<forall>u \<in> set us. \<not> lr_empty (s_length_range u)"
    and mn: "unat mn = sum_list (map (\<lambda>u. unat (lr_min (s_length_range u))) us)"
    and width: "sum_list (map (q_width e) cs) < 2 ^ 32 - 1"
  shows "simp_ok e R (QOrderSet cs) su"
proof -
  define k where "k = unat (se_max_length e)"
  define els where "els = filter not_void us"
  have w: "s_width u < 2 ^ 32 - 1" if "u \<in> set us" for u
    using list_all2_simp_ok_sum [OF ok] width sum_list_le_member [OF that, of s_width] by simp
  have upto: "eq_upto k (perms_lang (map (s_lang R) us)) (q_lang e R (QOrderSet cs))"
    unfolding q_lang_order k_def by (rule perms_lang_eq_upto [OF list_all2_simp_ok_lang [OF ok]])
  have drop: "perms_lang (map (s_lang R) us) = perms_lang (map (s_lang R) els)"
    unfolding els_def
    by (rule perms_lang_drop_unit) (use w ne s_range_zero_lang in \<open>auto simp: not_void_def\<close>)
  have filter_le: "sum_list (map s_width (filter not_void us)) \<le> sum_list (map s_width us)"
    by (induction us) auto
  have wels: "sum_list (map s_width els) \<le> q_width e (QOrderSet cs)"
    using filter_le list_all2_simp_ok_sum [OF ok] by (simp add: els_def)
  show ?thesis
  proof (cases "mn > se_max_length e")
    case True
    have "k < length p" if "p \<in> perms_lang (map (s_lang R) us)" for p
    proof -
      have "sum_list (map (\<lambda>u. unat (lr_min (s_length_range u))) us) \<le> length p"
        by (rule perms_lang_min_length [OF _ that]) (use w s_range_min_length in blast)
      then show ?thesis using True mn by (simp add: k_def word_less_nat_alt)
    qed
    then have "eq_upto k {} (q_lang e R (QOrderSet cs))"
      using upto unfolding eq_upto_def by (metis empty_iff not_le)
    then show ?thesis
      using fin True by (auto simp: order_finish_def simp_ok_def k_def simp del: q_lang.simps)
  next
    case False
    then have su: "su = (if length els = 0 then SConcat source [] else if length els = 1 then els ! 0
        else SAlt source (map (perm_concat source els) (perms_from [0..<length els])))"
      using fin by (auto simp: order_finish_def els_def split: if_splits)
    have "s_lang R su = perms_lang (map (s_lang R) els) \<and> s_width su \<le> sum_list (map s_width els)"
    proof -
      consider "els = []" | u where "els = [u]" | "length els \<noteq> 0" "length els \<noteq> 1"
        by (metis One_nat_def length_0_conv length_Suc_conv)
      then show ?thesis
      proof cases
        case 3
        then show ?thesis using perms_alt_lang perms_alt_width
          by (simp only: su if_False)
      qed (simp_all add: su)
    qed
    then show ?thesis
      using upto drop wels by (simp add: simp_ok_def k_def del: q_lang.simps)
  qed
qed

lemma dict_loop_map:
  "dict_loop e source text syns = map (synonym_to_simple e source) (filter (\<lambda>syn. syn \<noteq> text) syns)"
  by (induction syns) auto

lemma synonym_to_simple_lang: "s_lang R (synonym_to_simple e source syn) = {se_split e syn}"
proof -
  have "concs (map (s_lang R) (map (\<lambda>w. SWord w source) ws)) = {ws}" for ws
    by (induction ws) (auto simp: conc_def)
  then show ?thesis
    by (auto simp: synonym_to_simple_def Let_def length_Suc_conv)
qed

lemma synonym_to_simple_width:
  "s_width (synonym_to_simple e source syn) = length (se_split e syn)"
proof -
  have "sum_list (map s_width (map (\<lambda>w. SWord w source) ws)) = length ws" for ws :: "string list"
    by (induction ws) auto
  then show ?thesis by (auto simp: synonym_to_simple_def Let_def)
qed

lemma dict_to_simple_ok: "simp_ok e R (QDictSet t) (dict_to_simple e t source)"
proof (cases "se_dictionary e")
  case None
  then show ?thesis by (simp add: simp_ok_def dict_to_simple_def Let_def synonyms_def)
next
  case (Some d)
  define w0 where "w0 = get_text e t"
  have syn: "synonyms e w0 = filter (\<lambda>syn. syn \<noteq> w0) (equal_range d w0)"
    using Some by (simp add: synonyms_def)
  show ?thesis
  proof (cases "equal_range d w0 = []")
    case True
    then show ?thesis using Some syn
      by (simp add: simp_ok_def dict_to_simple_def Let_def w0_def [symmetric])
  next
    case False
    then have "dict_to_simple e t source
        = SAlt source (SWord w0 source # map (synonym_to_simple e source) (synonyms e w0))"
      using Some by (simp add: dict_to_simple_def Let_def syn [unfolded w0_def] w0_def dict_loop_map)
    then show ?thesis
      by (simp add: simp_ok_def w0_def [symmetric] synonym_to_simple_lang
          synonym_to_simple_width comp_def) (auto simp: eq_upto_def)
  qed
qed

lemma plus_lang: "conc {p. length p = 1} UNIV = {p :: phrase_words. p \<noteq> []}"
proof (intro set_eqI iffI)
  fix p :: phrase_words assume "p \<in> {p. p \<noteq> []}"
  then have "p = [hd p] @ tl p" by simp
  then show "p \<in> conc {p. length p = 1} UNIV"
    using concI [of "[hd p]" "{p. length p = 1}" "tl p" UNIV] by simp
qed auto

lemma unit_to_simple_ok:
  assumes "unit_to_simple e u source = Inr su" "q_width e u < 2 ^ 32 - 1"
  shows "simp_ok e R u su"
  using assms
proof (induction u arbitrary: source su)
  case (QPlus t)
  then have "su = SConcat source [SQMark source, SStar source]"
    by (simp add: plus_to_simple_def)
  moreover have "s_lang R (SConcat source [SQMark source, SStar source]) = {p. p \<noteq> []}"
    by (simp only: s_lang.simps list.map concs.simps conc_simps plus_lang)
  ultimately show ?case
    by (simp add: simp_ok_def del: s_lang.simps)
next
  case (QRegex t)
  then show ?case
    by (auto simp: regex_to_simple_def simp_ok_def regex_words_def eq_upto_def)
next
  case (QDictSet t)
  then show ?case using dict_to_simple_ok [of e R t source] by auto
next
  case (QOptionSet cs)
  then obtain us where us: "children_to_simple e cs source 0 = Inr us"
    "su = foldl add_to_alternation (SAlt source (if length cs \<le> 1 then [SConcat source []] else [])) us"
    by auto
  have ok: "list_all2 (simp_ok e R) cs us"
    by (rule children_to_simple_all2 [OF us(1)])
      (use QOptionSet width_max_member [of _ cs "q_width e"] in auto)
  show ?case
    using list_all2_simp_ok_Un [OF ok] list_all2_simp_ok_max [OF ok]
    by (auto simp: us(2) simp_ok_def foldl_add_to_alternation alt_all_lang alt_all_width
        simp del: set_map map_map intro!: eq_upto_insert)
next
  case (QAlternation cs)
  then obtain us where us: "children_to_simple e cs source 0 = Inr us"
    "su = foldl add_to_alternation (SAlt source []) us"
    by auto
  have ok: "list_all2 (simp_ok e R) cs us"
    by (rule children_to_simple_all2 [OF us(1)])
      (use QAlternation width_max_member [of _ cs "q_width e"] in auto)
  show ?case
    using list_all2_simp_ok_Un [OF ok] list_all2_simp_ok_max [OF ok]
    by (auto simp: us(2) simp_ok_def foldl_add_to_alternation alt_all_lang alt_all_width
        simp del: set_map map_map)
next
  case (QConcat cs)
  then obtain us where us: "children_to_simple e cs source 0 = Inr us"
    "su = foldl add_to_concat (SConcat source []) us"
    by auto
  have ok: "list_all2 (simp_ok e R) cs us"
    by (rule children_to_simple_all2 [OF us(1)])
      (use QConcat width_sum_member [of _ cs "q_width e"] in auto)
  show ?case
    using eq_upto_concs [OF list_all2_simp_ok_lang [OF ok]] list_all2_simp_ok_sum [OF ok]
    by (simp add: us(2) simp_ok_def foldl_add_to_concat concat_all_lang concat_all_width
        del: map_map)
next
  case (QOrderSet cs)
  have ih: "simp_ok e R c su" if "c \<in> set cs" "unit_to_simple e c p = Inr su" for c p su
    using QOrderSet that width_sum_member [of c cs "q_width e"] by auto
  have w: "q_width e c < 2 ^ 32 - 1" if "c \<in> set cs" for c
    using width_sum_member [OF that, of "q_width e"] QOrderSet.prems(2) by simp
  obtain r where r: "order_elements e cs source 0 0 [] = Inr r"
    using QOrderSet.prems(1) by auto
  show ?case
  proof (cases r)
    case None
    then have su: "su = SAlt source []" using QOrderSet.prems(1) r by auto
    obtain c p v where c: "c \<in> set cs" "unit_to_simple e c p = Inr v" "lr_empty (s_length_range v)"
      using order_elements_None r None by blast
    then have "s_lang R v = {}" and okc: "simp_ok e R c v"
      using ih [OF c(1,2)] w [OF c(1)] s_range_empty_lang [of v R] by (auto simp: simp_ok_def)
    define Ms where "Ms = map (\<lambda>d. if d = c then {} else q_lang e R d) cs"
    have "list_all2 (eq_upto (unat (se_max_length e))) Ms (map (q_lang e R) cs)"
      using okc \<open>s_lang R v = {}\<close> by (auto simp: Ms_def list_all2_conv_all_nth simp_ok_def)
    moreover have "{} \<in> set Ms" using c(1) by (auto simp: Ms_def)
    ultimately show ?thesis
      using perms_lang_eq_upto perms_lang_empty
      by (fastforce simp: su simp_ok_def q_lang_order simp del: q_lang.simps)
  next
    case (Some em)
    obtain els mn where em: "em = (els, mn)" by force
    have b: "unat (lr_min (s_length_range v)) \<le> q_width e c"
      if "c \<in> set cs" "simp_ok e R c v" "\<not> lr_empty (s_length_range v)" for c v
      using that w [OF that(1)] s_length_range_ok [of v R] by (auto simp: simp_ok_def range_ok_def)
    obtain us where us: "list_all2 (simp_ok e R) cs us" "els = [] @ filter not_void us"
      "\<forall>u \<in> set us. \<not> lr_empty (s_length_range u)"
      "unat mn = unat (0 :: u32) + sum_list (map (\<lambda>u. unat (lr_min (s_length_range u))) us)"
      by (rule order_elements_Some [OF r [unfolded Some em], where P = "simp_ok e R" and W = "q_width e"])
        (use ih b QOrderSet.prems(2) in auto)
    have "order_finish e source els mn = Inr su"
      using QOrderSet.prems(1) r Some em by simp
    then show ?thesis
      using order_finish_ok [of e source us mn su R cs] us QOrderSet.prems(2) by simp
  qed
qed (auto simp: simp_ok_def)

text \<open>The two halves, for the root of a query.\<close>

lemma simplify_language:
  assumes "to_simple e q = Inr su" "q_width e q < 2 ^ 32 - 1"
  shows "eq_upto (unat (se_max_length e)) (s_lang R su) (q_lang e R q)"
  using unit_to_simple_ok assms unfolding to_simple_def simp_ok_def by blast

lemma simplify_width:
  assumes "to_simple e q = Inr su" "q_width e q < 2 ^ 32 - 1"
  shows "s_width su \<le> q_width e q"
  using unit_to_simple_ok assms unfolding to_simple_def simp_ok_def by blast

section \<open>Which queries are refused\<close>

lemma children_to_simple_total:
  assumes "\<And>c p. c \<in> set cs \<Longrightarrow> \<exists>su. unit_to_simple e c p = Inr su"
  shows "\<exists>us. children_to_simple e cs source i = Inr us"
  using assms
proof (induction cs arbitrary: i)
  case (Cons c cs)
  then obtain su us where "unit_to_simple e c (source @ [i]) = Inr su"
    "children_to_simple e cs source (Suc i) = Inr us"
    by (metis list.set_intros)
  then show ?case by simp
qed simp

lemma order_elements_total:
  assumes "\<And>c p. c \<in> set cs \<Longrightarrow> \<exists>su. unit_to_simple e c p = Inr su"
  shows "\<exists>r. order_elements e cs source i mn els = Inr r \<and>
    (\<forall>els' mn'. r = Some (els', mn') \<longrightarrow> length els' \<le> length els + length cs)"
  using assms
proof (induction cs arbitrary: i mn els)
  case (Cons c cs)
  then obtain su where su: "unit_to_simple e c (source @ [i]) = Inr su"
    by (metis list.set_intros(1))
  have ih: "\<exists>r. order_elements e cs source i mn els = Inr r \<and>
    (\<forall>els' mn'. r = Some (els', mn') \<longrightarrow> length els' \<le> length els + length cs)" for i mn els
    using Cons by simp
  show ?case
    using su ih [of "Suc i" "mn + lr_min (s_length_range su)" els]
      ih [of "Suc i" "mn + lr_min (s_length_range su)" "els @ [su]"]
    by (auto simp: Let_def simp del: unit_to_simple.simps)
qed simp

text \<open>The parse trees all of whose order sets have at most \<open>n\<close> members.\<close>

fun order_sets_le :: "nat \<Rightarrow> qunit \<Rightarrow> bool" where
  "order_sets_le n (QOrderSet cs) \<longleftrightarrow> length cs \<le> n \<and> list_all (order_sets_le n) cs"
| "order_sets_le n (QOptionSet cs) \<longleftrightarrow> list_all (order_sets_le n) cs"
| "order_sets_le n (QAlternation cs) \<longleftrightarrow> list_all (order_sets_le n) cs"
| "order_sets_le n (QConcat cs) \<longleftrightarrow> list_all (order_sets_le n) cs"
| "order_sets_le n _ \<longleftrightarrow> True"

lemma order_finish_total:
  assumes "length els \<le> n" "n \<le> 6" "fact n \<le> unat (se_max_norm_queries e)"
  shows "\<exists>su. order_finish e source els mn = Inr su"
proof -
  have "unat (of_nat (length els) :: u64) = length els"
    using assms by (intro unat_of_nat_u64) simp
  then have "unat (factorial (of_nat (length els))) = fact (length els)"
    using factorial_correct [of "of_nat (length els)"] assms by simp
  also have "\<dots> \<le> unat (se_max_norm_queries e)"
    using assms fact_mono_nat [of "length els" n] by linarith
  finally have "\<not> factorial (of_nat (length els)) > se_max_norm_queries e"
    by (simp add: word_less_nat_alt)
  then show ?thesis
    using assms by (simp add: order_finish_def)
qed

lemma unit_to_simple_total:
  assumes "order_sets_le n u" "n \<le> 6" "fact n \<le> unat (se_max_norm_queries e)"
  shows "\<exists>su. unit_to_simple e u source = Inr su"
  using assms(1)
proof (induction u arbitrary: source)
  case (QOrderSet cs)
  then have ih: "\<exists>su. unit_to_simple e c p = Inr su" if "c \<in> set cs" for c p
    using that by (auto simp: list_all_iff)
  obtain r where r: "order_elements e cs source 0 0 [] = Inr r"
    "\<And>els' mn'. r = Some (els', mn') \<Longrightarrow> length els' \<le> length cs"
    using order_elements_total [of cs e source 0 0 "[]"] ih by auto
  show ?case
  proof (cases r)
    case (Some em)
    obtain els mn where em: "em = (els, mn)" by force
    then have "length els \<le> n" using r(2) Some QOrderSet.prems by fastforce
    then show ?thesis using order_finish_total assms(2,3) r(1) Some em by simp
  qed (use r in simp)
next
  case (QOptionSet cs)
  then have "\<exists>us. children_to_simple e cs source 0 = Inr us"
    by (intro children_to_simple_total) (auto simp: list_all_iff)
  then show ?case by auto
next
  case (QAlternation cs)
  then have "\<exists>us. children_to_simple e cs source 0 = Inr us"
    by (intro children_to_simple_total) (auto simp: list_all_iff)
  then show ?case by auto
next
  case (QConcat cs)
  then have "\<exists>us. children_to_simple e cs source 0 = Inr us"
    by (intro children_to_simple_total) (auto simp: list_all_iff)
  then show ?case by auto
qed auto

lemma simplify_total:
  assumes "order_sets_le n q" "n \<le> 6" "fact n \<le> unat (se_max_norm_queries e)"
  shows "\<exists>su. to_simple e q = Inr su"
  unfolding to_simple_def using unit_to_simple_total assms by blast

text \<open>The only exception the translation throws.\<close>

lemma order_elements_error:
  assumes "order_elements e cs source i mn els = Inl x"
  obtains c p where "c \<in> set cs" "unit_to_simple e c p = Inl x"
  using assms
proof (induction cs arbitrary: i mn els thesis)
  case (Cons c cs)
  show ?case
  proof (cases "unit_to_simple e c (source @ [i])")
    case (Inl y)
    then show ?thesis using Cons.prems by auto
  next
    case (Inr su)
    then obtain i' mn' els' where "order_elements e cs source i' mn' els' = Inl x"
      using Cons.prems(2) by (auto simp: Let_def split: if_splits)
    then show ?thesis using Cons.IH Cons.prems(1) by (metis list.set_intros(2))
  qed
qed simp

lemma children_to_simple_error:
  assumes "children_to_simple e cs source i = Inl x"
  obtains c p where "c \<in> set cs" "unit_to_simple e c p = Inl x"
  using assms
proof (induction cs arbitrary: i thesis)
  case (Cons c cs)
  then consider "unit_to_simple e c (source @ [i]) = Inl x"
    | "children_to_simple e cs source (Suc i) = Inl x"
    by (auto simp: rbind_eq_Inl)
  then show ?case
    using Cons.IH Cons.prems(1) by cases (metis list.set_intros)+
qed simp

lemma unit_to_simple_error:
  "unit_to_simple e u source = Inl x \<Longrightarrow> x = InvalidQuery ''Orderset with too many options.''"
proof (induction u arbitrary: source)
  case (QOrderSet cs)
  from QOrderSet.prems consider "order_elements e cs source 0 0 [] = Inl x"
    | els mn where "order_finish e source els mn = Inl x"
    by (auto simp: rbind_eq_Inl split: option.splits prod.splits)
  then show ?case
  proof cases
    case 1
    then show ?thesis using QOrderSet.IH order_elements_error by metis
  qed (auto simp: order_finish_def split: if_splits)
next
  case (QOptionSet cs)
  then have "children_to_simple e cs source 0 = Inl x" by (auto simp: rbind_eq_Inl)
  then show ?case using QOptionSet.IH children_to_simple_error by metis
next
  case (QAlternation cs)
  then have "children_to_simple e cs source 0 = Inl x" by (auto simp: rbind_eq_Inl)
  then show ?case using QAlternation.IH children_to_simple_error by metis
next
  case (QConcat cs)
  then have "children_to_simple e cs source 0 = Inl x" by (auto simp: rbind_eq_Inl)
  then show ?case using QConcat.IH children_to_simple_error by metis
qed auto

lemma simplify_error:
  "to_simple e q = Inl x \<Longrightarrow> x = InvalidQuery ''Orderset with too many options.''"
  unfolding to_simple_def by (rule unit_to_simple_error)

section \<open>Where the units come from\<close>

text \<open>
  \<open>origins_ok u base v\<close>: the source of \<open>v\<close> is a unit of the tree \<open>u\<close> located at \<open>base\<close>, of a
  kind from which a unit like \<open>v\<close> can be derived.
\<close>

fun kind_ok :: "qunit \<Rightarrow> simple_unit \<Rightarrow> bool" where
  "kind_ok q (SWord _ _) = (case q of QWord _ \<Rightarrow> True | QDictSet _ \<Rightarrow> True | _ \<Rightarrow> False)"
| "kind_ok q (SQMark _) = (case q of QQMark _ \<Rightarrow> True | QPlus _ \<Rightarrow> True | _ \<Rightarrow> False)"
| "kind_ok q (SStar _) = (case q of QStar _ \<Rightarrow> True | QPlus _ \<Rightarrow> True | _ \<Rightarrow> False)"
| "kind_ok q (SRegex _ _) = (case q of QRegex _ \<Rightarrow> True | _ \<Rightarrow> False)"
| "kind_ok q (SConcat _ _) = True"
| "kind_ok q (SAlt _ _) = True"

fun origins_ok :: "qunit \<Rightarrow> src \<Rightarrow> simple_unit \<Rightarrow> bool" where
  "origins_ok u base (SConcat s cs) \<longleftrightarrow>
    (\<exists>p q. s = base @ p \<and> q_at u p = Some q \<and> kind_ok q (SConcat s cs)) \<and> list_all (origins_ok u base) cs"
| "origins_ok u base (SAlt s cs) \<longleftrightarrow>
    (\<exists>p q. s = base @ p \<and> q_at u p = Some q \<and> kind_ok q (SAlt s cs)) \<and> list_all (origins_ok u base) cs"
| "origins_ok u base v \<longleftrightarrow>
    (\<exists>p q. s_source v = base @ p \<and> q_at u p = Some q \<and> kind_ok q v)"

lemma origins_okI_source:
  "q_at u p = Some q \<Longrightarrow> kind_ok q v \<Longrightarrow> s_source v = base @ p \<Longrightarrow>
    list_all (origins_ok u base) (s_children v) \<Longrightarrow> origins_ok u base v"
  by (cases v) auto

lemma origin_lift:
  assumes "i < length (q_children u)" "q_children u ! i = c"
    and "\<exists>p q. s = (base @ [i]) @ p \<and> q_at c p = Some q \<and> kind_ok q v"
  shows "\<exists>p q. s = base @ p \<and> q_at u p = Some q \<and> kind_ok q v"
proof -
  obtain p q where "s = base @ (i # p)" "q_at u (i # p) = Some q" "kind_ok q v"
    using assms by auto
  then show ?thesis by blast
qed

lemma origins_ok_lift:
  assumes "i < length (q_children u)" "q_children u ! i = c"
  shows "origins_ok c (base @ [i]) v \<Longrightarrow> origins_ok u base v"
proof (induction v)
  case (SConcat s cs)
  have "list_all (origins_ok u base) cs"
    using SConcat by (auto simp: list_all_iff)
  then show ?case
    using SConcat.prems origin_lift [OF assms] by (simp only: origins_ok.simps)
next
  case (SAlt s cs)
  have "list_all (origins_ok u base) cs"
    using SAlt by (auto simp: list_all_iff)
  then show ?case
    using SAlt.prems origin_lift [OF assms] by (simp only: origins_ok.simps)
qed (simp_all only: origins_ok.simps origin_lift [OF assms])

lemma children_origins:
  assumes "children_to_simple e cs source i = Inr us"
    and "\<And>c p su. c \<in> set cs \<Longrightarrow> unit_to_simple e c p = Inr su \<Longrightarrow> origins_ok c p su"
    and "q_children u = ds" "drop i ds = cs"
  shows "list_all (origins_ok u source) us"
  using assms(1,2,4)
proof (induction cs arbitrary: i us)
  case (Cons c cs)
  then have i: "i < length ds" "ds ! i = c" "drop (Suc i) ds = cs"
    by (metis drop_all list.distinct(1) not_le, metis hd_drop_conv_nth drop_all list.distinct(1) list.sel(1) not_le,
        metis drop_Suc list.sel(3) tl_drop)
  then show ?case
    using Cons origins_ok_lift [of i u c source] assms(3)
    by (auto simp del: unit_to_simple.simps)
qed simp

lemma order_origins:
  assumes "order_elements e cs source i mn els = Inr (Some (els', mn'))"
    and "\<And>c p su. c \<in> set cs \<Longrightarrow> unit_to_simple e c p = Inr su \<Longrightarrow> origins_ok c p su"
    and "q_children u = ds" "drop i ds = cs" "list_all (origins_ok u source) els"
  shows "list_all (origins_ok u source) els'"
  using assms(1,2,4,5)
proof (induction cs arbitrary: i mn els)
  case (Cons c cs)
  then have i: "i < length ds" "ds ! i = c" "drop (Suc i) ds = cs"
    by (metis drop_all list.distinct(1) not_le, metis hd_drop_conv_nth drop_all list.distinct(1) list.sel(1) not_le,
        metis drop_Suc list.sel(3) tl_drop)
  from Cons.prems(1) obtain su where su: "unit_to_simple e c (source @ [i]) = Inr su"
    by (auto simp: Let_def)
  have o: "origins_ok u source su"
    using origins_ok_lift [of i u c source su] Cons.prems(2) su i assms(3) by simp
  obtain mn1 els1 where "order_elements e cs source (Suc i) mn1 els1 = Inr (Some (els', mn'))"
      "list_all (origins_ok u source) els1"
    using Cons.prems(1,4) su o by (auto simp: Let_def split: if_splits)
  then show ?case using Cons.IH Cons.prems(2) i(3) by (metis list.set_intros(2))
qed simp

lemma list_all_concat_parts:
  "list_all (origins_ok u b) us \<Longrightarrow> list_all (origins_ok u b) (concat (map concat_parts us))"
proof (induction us)
  case (Cons v us)
  then show ?case by (cases v) (auto simp: concat_parts_def)
qed simp

lemma list_all_alt_parts:
  "list_all (origins_ok u b) us \<Longrightarrow> list_all (origins_ok u b) (concat (map alt_parts us))"
proof (induction us)
  case (Cons v us)
  then show ?case by (cases v) (auto simp: alt_parts_def)
qed simp

lemma order_finish_origins:
  assumes "order_finish e source els mn = Inr su" "list_all (origins_ok u source) els"
  shows "origins_ok u source su"
proof -
  have here: "\<exists>p q. source = source @ p \<and> q_at u p = Some q" by (auto intro!: exI [of _ "[]"])
  have perm: "origins_ok u source (perm_concat source els ix)"
    if "ix \<in> set (perms_from [0..<length els])" for ix
  proof -
    have "mset ix = mset [0..<length els]"
      using that perms_from_all(1) [of "[0..<length els]"] by auto
    from mset_eq_setD [OF this] have "set ix = {0..<length els}" by simp
    then have "list_all (origins_ok u source) (map (\<lambda>i. els ! i) ix)"
      using assms(2) by (auto simp: list_all_iff)
    from list_all_concat_parts [OF this] show ?thesis
      using here by (simp add: perm_concat_eq del: map_map)
  qed
  then show ?thesis
    using assms here by (auto simp: order_finish_def list_all_iff split: if_splits)
qed

lemma unit_to_simple_origins:
  "unit_to_simple e u source = Inr su \<Longrightarrow> origins_ok u source su"
proof (induction u arbitrary: source su)
  case (QPlus t)
  then show ?case by (auto simp: plus_to_simple_def)
next
  case (QRegex t)
  then show ?case by (auto simp: regex_to_simple_def)
next
  case (QDictSet t)
  have "origins_ok (QDictSet t) source (synonym_to_simple e source s)" for s
    by (auto simp: synonym_to_simple_def Let_def list_all_iff)
  then show ?case using QDictSet
    by (auto simp: dict_to_simple_def Let_def dict_loop_map list_all_iff split: option.splits if_splits)
next
  case (QOptionSet cs)
  then obtain us where us: "children_to_simple e cs source 0 = Inr us"
    "su = foldl add_to_alternation (SAlt source (if length cs \<le> 1 then [SConcat source []] else [])) us"
    by auto
  have "list_all (origins_ok (QOptionSet cs) source) us"
    by (rule children_origins [OF us(1)]) (use QOptionSet.IH in auto)
  from list_all_alt_parts [OF this] show ?case
    by (auto simp: us(2) foldl_add_to_alternation)
next
  case (QAlternation cs)
  then obtain us where us: "children_to_simple e cs source 0 = Inr us"
    "su = foldl add_to_alternation (SAlt source []) us"
    by auto
  have "list_all (origins_ok (QAlternation cs) source) us"
    by (rule children_origins [OF us(1)]) (use QAlternation.IH in auto)
  from list_all_alt_parts [OF this] show ?case
    by (auto simp: us(2) foldl_add_to_alternation)
next
  case (QConcat cs)
  then obtain us where us: "children_to_simple e cs source 0 = Inr us"
    "su = foldl add_to_concat (SConcat source []) us"
    by auto
  have "list_all (origins_ok (QConcat cs) source) us"
    by (rule children_origins [OF us(1)]) (use QConcat.IH in auto)
  from list_all_concat_parts [OF this] show ?case
    by (auto simp: us(2) foldl_add_to_concat)
next
  case (QOrderSet cs)
  then obtain r where r: "order_elements e cs source 0 0 [] = Inr r" by auto
  show ?case
  proof (cases r)
    case None
    then show ?thesis using QOrderSet.prems r by auto
  next
    case (Some em)
    obtain els mn where em: "em = (els, mn)" by force
    have "list_all (origins_ok (QOrderSet cs) source) els"
      by (rule order_origins [OF r [unfolded Some em]]) (use QOrderSet.IH in auto)
    then show ?thesis using order_finish_origins QOrderSet.prems r Some em by auto
  qed
qed auto

lemma simplify_sources: "to_simple e q = Inr su \<Longrightarrow> origins_ok q [] su"
  unfolding to_simple_def by (rule unit_to_simple_origins)

section \<open>Properties\<close>


definition ex_env :: simp_env where
  "ex_env = \<lparr>se_max_length = 5, se_max_norm_queries = 100, se_dictionary = Some [(''big'', ''very large'')],
    se_allow_regex = True, se_lower_case = False, se_to_lower = id,
    se_split = (\<lambda>s. if s = ''very large'' then [''very'', ''large''] else [s])\<rparr>"

definition ex_order_query :: qunit where
  "ex_order_query = QAlternation [QOrderSet [QWord ''a'', QDictSet ''big'']]"

definition ex_order_simple :: simple_unit where
  "ex_order_simple = (case to_simple ex_env ex_order_query of Inr su \<Rightarrow> su | Inl _ \<Rightarrow> SAlt [] [])"

lemma ex_order_simple: "to_simple ex_env ex_order_query = Inr ex_order_simple"
  by code_simp


text \<open>
  The only exception of the simplifier is the refusal of large order sets, and it does not
  occur when every order set has at most \<open>n\<close> members, \<open>n\<close> is at most six and \<open>n!\<close> fits
  \<open>max_norm_queries\<close>.
\<close>

theorem simplifier_refusals:
  "(to_simple e q = Inl x \<longrightarrow> x = InvalidQuery ''Orderset with too many options.'')
    \<and> (order_sets_le n q \<and> n \<le> 6 \<and> fact n \<le> unat (se_max_norm_queries e)
        \<longrightarrow> (\<exists>su. to_simple e q = Inr su))"
  using simplify_error simplify_total by blast

theorem simplifier_refusals_witness: "\<exists>su. to_simple ex_env ex_order_query = Inr su"
  using simplifier_refusals [of ex_env ex_order_query "LogicError ''x''" 2]
  by (simp add: ex_order_query_def ex_env_def)

end
