(* ===== verification/Optimizer.thy ===== *)
theory Optimizer
  imports Simplifier
begin

text \<open>
  \<open>class SimpleQueryOptimizer\<close> of \<open>src/netspeak/QueryNormalizer.cpp\<close>.  The star optimization
  is modelled with the indexes, the cached minimum lengths and the list \<open>to_remove\<close> of the
  code; \<open>absorb\<close> is its declarative counterpart on the list of children, and
  \<open>concat_star_optimization_absorb\<close> shows that the two passes compute it, once from the
  left and once from the right.  \<open>optimize_language\<close> shows that the accepted phrases do not
  change, \<open>optimize_flat\<close> that no concatenation is left inside a concatenation and no
  alternation inside an alternation.
\<close>

definition contains_child :: "simple_unit list \<Rightarrow> (simple_unit \<Rightarrow> bool) \<Rightarrow> bool" where
  "contains_child cs tag = list_ex tag cs"

definition inline_nested :: "simple_unit list \<Rightarrow> (simple_unit \<Rightarrow> bool) \<Rightarrow> simple_unit list" where
  "inline_nested cs tag =
    (if contains_child cs tag
     then foldl (\<lambda>out c. if tag c then out @ s_children c else out @ [c]) [] cs
     else cs)"

text \<open>
  \<open>mark_for_removal\<close>: from the star at \<open>index\<close>, forward or backward, the number of units
  processed and the extended list of indexes to remove.
\<close>

function mark_forward ::
    "simple_unit list \<Rightarrow> u32 list \<Rightarrow> nat \<Rightarrow> nat \<Rightarrow> nat list \<Rightarrow> nat \<times> nat list" where
  "mark_forward cs min_lengths index processed to_remove =
    (if index + 1 < length cs then
       (if s_is_qmark (cs ! (index + 1))
          then mark_forward cs min_lengths (index + 1) (processed + 1) to_remove
        else if min_lengths ! (index + 1) = 0
          then mark_forward cs min_lengths (index + 1) (processed + 1) (to_remove @ [index + 1])
        else (processed + 1, to_remove))
     else (processed, to_remove))"
  by auto
termination
  by (relation "measure (\<lambda>(cs, ms, index, p, r). length cs - index)") auto

fun mark_backward ::
    "simple_unit list \<Rightarrow> u32 list \<Rightarrow> nat \<Rightarrow> nat \<Rightarrow> nat list \<Rightarrow> nat \<times> nat list" where
  "mark_backward cs min_lengths 0 processed to_remove = (processed, to_remove)"
| "mark_backward cs min_lengths (Suc index) processed to_remove =
    (if s_is_qmark (cs ! index)
       then mark_backward cs min_lengths index (processed + 1) to_remove
     else if min_lengths ! index = 0
       then mark_backward cs min_lengths index (processed + 1) (to_remove @ [index])
     else (processed + 1, to_remove))"

declare mark_forward.simps [simp del]

lemma mark_forward_le:
  "mark_forward cs ms i p r = (p', r') \<Longrightarrow> p \<le> p'"
  by (induction cs ms i p r rule: mark_forward.induct)
    (subst (asm) (2) mark_forward.simps, auto split: if_splits)

lemma mark_backward_le:
  "mark_backward cs ms i p r = (p', r') \<Longrightarrow> p \<le> p' \<and> p' \<le> p + i"
  by (induction cs ms i p r rule: mark_backward.induct) (fastforce split: if_splits)+

text \<open>The two loops over the children; \<open>i += mark_for_removal(i, true)\<close> and its mirror image.\<close>

function first_pass :: "simple_unit list \<Rightarrow> u32 list \<Rightarrow> nat \<Rightarrow> nat list \<Rightarrow> nat list" where
  "first_pass cs min_lengths i to_remove =
    (if i < length cs then
       (if s_is_star (cs ! i) then
          (let (processed, to_remove') = mark_forward cs min_lengths i 0 to_remove
           in first_pass cs min_lengths (i + processed + 1) to_remove')
        else first_pass cs min_lengths (i + 1) to_remove)
     else to_remove)"
  by auto
termination
  by (relation "measure (\<lambda>(cs, ms, i, r). length cs - i)") auto

function second_pass :: "simple_unit list \<Rightarrow> u32 list \<Rightarrow> nat \<Rightarrow> nat list \<Rightarrow> nat list" where
  "second_pass cs min_lengths i to_remove =
    (if i > 0 then
       (if s_is_star (cs ! (i - 1)) then
          (let (processed, to_remove') = mark_backward cs min_lengths (i - 1) 0 to_remove
           in second_pass cs min_lengths (i - processed - 1) to_remove')
        else second_pass cs min_lengths (i - 1) to_remove)
     else to_remove)"
  by auto
termination
  by (relation "measure (\<lambda>(cs, ms, i, r). i)") auto

declare first_pass.simps [simp del] second_pass.simps [simp del]

text \<open>\<open>remove\<close>: the indexes in descending order, erased from both vectors.\<close>

definition remove_marked ::
    "nat list \<Rightarrow> simple_unit list \<times> u32 list \<Rightarrow> simple_unit list \<times> u32 list" where
  "remove_marked to_remove =
    fold (\<lambda>index (cs, ms). (erase_at index cs, erase_at index ms)) (rev (sort to_remove))"

definition concat_star_optimization :: "simple_unit list \<Rightarrow> simple_unit list" where
  "concat_star_optimization cs =
    (let min_lengths = map s_min_length cs;
         (cs1, min_lengths1) = remove_marked (first_pass cs min_lengths 0 []) (cs, min_lengths);
         (cs2, min_lengths2) =
           remove_marked (second_pass cs1 min_lengths1 (length cs1) []) (cs1, min_lengths1)
     in cs2)"

definition is_empty_alt :: "simple_unit \<Rightarrow> bool" where
  "is_empty_alt u \<longleftrightarrow> s_is_alt u \<and> s_children u = []"

text \<open>The bodies of the two functions after their children have been optimized.\<close>

definition optimize_concat_node :: "src \<Rightarrow> simple_unit list \<Rightarrow> simple_unit" where
  "optimize_concat_node source cs =
    (if cs = [] then SConcat source []
     else if length cs = 1 then last cs
     else
       (let cs' = inline_nested cs s_is_concat
        in case find is_empty_alt cs' of
             Some emp \<Rightarrow> SAlt (s_source emp) []
           | None \<Rightarrow> if contains_child cs' s_is_star
                     then SConcat source (concat_star_optimization cs')
                     else SConcat source cs'))"

definition optimize_alt_node :: "src \<Rightarrow> simple_unit list \<Rightarrow> simple_unit" where
  "optimize_alt_node source cs =
    (if cs = [] then SAlt source []
     else if length cs = 1 then last cs
     else SAlt source (inline_nested cs s_is_alt))"

fun optimize_simple_unit :: "simple_unit \<Rightarrow> simple_unit" where
  "optimize_simple_unit (SConcat s cs) = optimize_concat_node s (map optimize_simple_unit cs)"
| "optimize_simple_unit (SAlt s cs) = optimize_alt_node s (map optimize_simple_unit cs)"
| "optimize_simple_unit u = u"

text \<open>\<open>optimize\<close> optimizes the children of the root, not the root itself.\<close>

definition optimize :: "simple_unit \<Rightarrow> simple_unit" where
  "optimize root = s_set_children root (map optimize_simple_unit (s_children root))"

section \<open>The star optimization, declaratively\<close>

text \<open>
  \<open>absorb act cs\<close>: the flag tells that a star precedes \<open>cs\<close> with only question marks in
  between, so the next unit of minimum length zero can be dropped.
\<close>

fun absorb :: "bool \<Rightarrow> simple_unit list \<Rightarrow> simple_unit list" where
  "absorb act [] = []"
| "absorb act (c # cs) =
    (if act then
       (if s_is_qmark c then c # absorb True cs
        else if s_min_length c = 0 then absorb True cs
        else c # absorb False cs)
     else c # absorb (s_is_star c) cs)"

text \<open>The indexes it drops, counting from \<open>k\<close>.\<close>

fun absorbed :: "bool \<Rightarrow> nat \<Rightarrow> simple_unit list \<Rightarrow> nat list" where
  "absorbed act k [] = []"
| "absorbed act k (c # cs) =
    (if act then
       (if s_is_qmark c then absorbed True (Suc k) cs
        else if s_min_length c = 0 then k # absorbed True (Suc k) cs
        else absorbed False (Suc k) cs)
     else absorbed (s_is_star c) (Suc k) cs)"

lemma absorbed_range: "i \<in> set (absorbed act k cs) \<Longrightarrow> k \<le> i \<and> i < k + length cs"
  by (induction act k cs rule: absorbed.induct) (fastforce split: if_splits)+

lemma absorbed_sorted: "sorted_wrt (<) (absorbed act k cs)"
  by (induction act k cs rule: absorbed.induct) (auto dest: absorbed_range)

lemma absorb_keep: "absorb act cs = keep_from (\<lambda>i. i \<notin> set (absorbed act k cs)) k cs"
proof (induction act k cs rule: absorbed.induct)
  case (1 act k)
  then show ?case by simp
next
  case (2 act k c cs)
  have keep: "keep_from (\<lambda>i. i \<notin> set (absorbed b (Suc k) cs)) (Suc k) cs
      = keep_from (\<lambda>i. i \<noteq> k \<and> i \<notin> set (absorbed b (Suc k) cs)) (Suc k) cs" for b
    by (rule keep_from_cong) auto
  have notin: "k \<notin> set (absorbed b (Suc k) cs)" for b
    using absorbed_range by fastforce
  show ?case
    using 2 keep notin by auto
qed

lemma remove_marked_Nil [simp]: "remove_marked [] x = x"
  by (simp add: remove_marked_def)

lemma erase_many:
  assumes "sorted_wrt (<) r" "\<forall>i \<in> set r. i < length xs"
  shows "fold erase_at (rev r) xs = keep_from (\<lambda>i. i \<notin> set r) 0 xs"
  using assms
proof (induction r arbitrary: xs rule: rev_induct)
  case Nil
  then show ?case by simp
next
  case (snoc j r)
  then have lt: "\<forall>i \<in> set r. i < j" "j < length xs" "sorted_wrt (<) r"
    by (auto simp: sorted_wrt_append)
  then have len: "\<forall>i \<in> set r. i < length (erase_at j xs)"
    by (auto simp: length_erase_at)
  have "fold erase_at (rev (r @ [j])) xs = fold erase_at (rev r) (erase_at j xs)" by simp
  also have "\<dots> = keep_from (\<lambda>i. i \<notin> set r) 0 (erase_at j xs)"
    using snoc.IH lt len by blast
  also have "\<dots> = keep_from (\<lambda>i. i \<noteq> 0 + j \<and> i \<notin> set r) 0 xs"
    by (rule keep_from_erase_at) (use lt in auto)
  finally show ?case by (simp add: conj_commute)
qed

lemma remove_marked_erase:
  "fold (\<lambda>index (cs, ms). (erase_at index cs, erase_at index ms)) r (cs, ms)
    = (fold erase_at r cs, fold erase_at r ms)"
  by (induction r arbitrary: cs ms) auto

lemma map_erase_at: "map f (erase_at i xs) = erase_at i (map f xs)"
  by (simp add: erase_at_def take_map drop_map)

lemma map_fold_erase: "map f (fold erase_at r xs) = fold erase_at r (map f xs)"
  by (induction r arbitrary: xs) (auto simp: map_erase_at)

lemma remove_marked_sorted:
  assumes "mset r = mset s" "sorted_wrt (<) s" "\<forall>i \<in> set s. i < length cs"
  shows "remove_marked r (cs, map f cs)
    = (keep_from (\<lambda>i. i \<notin> set s) 0 cs, map f (keep_from (\<lambda>i. i \<notin> set s) 0 cs))"
proof -
  have "sort r = s"
    using assms(1,2) by (metis properties_for_sort strict_sorted_iff)
  then show ?thesis
    using erase_many [OF assms(2,3)]
    by (simp add: remove_marked_def remove_marked_erase map_fold_erase [symmetric])
qed

section \<open>The first pass computes \<open>absorb\<close>\<close>

lemma mark_forward_absorbed:
  assumes "mark_forward cs (map s_min_length cs) i p r = (p', r')" "i < length cs"
  shows "\<exists>X. r' = r @ X \<and> absorbed True (Suc i) (drop (Suc i) cs)
    = X @ absorbed False (i + (p' - p) + 1) (drop (i + (p' - p) + 1) cs)"
  using assms
proof (induction "length cs - i" arbitrary: i p r)
  case 0
  then show ?case by simp
next
  case (Suc n)
  show ?case
  proof (cases "i + 1 < length cs")
    case False
    then show ?thesis
      using Suc.prems by (simp add: mark_forward.simps [of cs _ i])
  next
    case True
    then have n: "n = length cs - (i + 1)" using Suc.hyps(2) by simp
    have d: "drop (Suc i) cs = cs ! (i + 1) # drop (Suc (i + 1)) cs"
      using True by (simp add: Cons_nth_drop_Suc)
    have go: ?thesis
      if "mark_forward cs (map s_min_length cs) (i + 1) (p + 1) (r @ Y) = (p', r')"
        "absorbed True (Suc i) (drop (Suc i) cs) = Y @ absorbed True (Suc (i + 1)) (drop (Suc (i + 1)) cs)"
      for Y
    proof -
      have "p + 1 \<le> p'" using mark_forward_le [OF that(1)] .
      then have e: "i + 1 + (p' - (p + 1)) + 1 = i + (p' - p) + 1" by simp
      show ?thesis
        using Suc.hyps(1) [OF n that(1) True] that(2) unfolding e by (metis append_assoc)
    qed
    show ?thesis
      using Suc.prems(1) True d
        go [of "[]"] go [of "[i + 1]"]
      by (auto simp: mark_forward.simps [of cs _ i] split: if_splits)
  qed
qed

lemma first_pass_absorbed:
  "first_pass cs (map s_min_length cs) i r = r @ absorbed False i (drop i cs)"
proof (induction cs "map s_min_length cs" i r rule: first_pass.induct)
  case (1 cs i r)
  show ?case
  proof (cases "i < length cs")
    case True
    then have d: "drop i cs = cs ! i # drop (Suc i) cs" by (simp add: Cons_nth_drop_Suc)
    show ?thesis
    proof (cases "s_is_star (cs ! i)")
      case star: True
      obtain p' r' where m: "mark_forward cs (map s_min_length cs) i 0 r = (p', r')" by force
      show ?thesis
        using 1(1) [OF True star m [symmetric] refl] mark_forward_absorbed [OF m True] True star m d
        by (auto simp: first_pass.simps [of cs _ i])
    next
      case False
      then show ?thesis using 1(2) True d by (simp add: first_pass.simps [of cs _ i])
    qed
  next
    case False
    then show ?thesis by (simp add: first_pass.simps [of cs _ i])
  qed
qed

section \<open>The second pass computes \<open>absorb\<close> from the right\<close>

fun absorbed_back :: "bool \<Rightarrow> simple_unit list \<Rightarrow> nat \<Rightarrow> nat list" where
  "absorbed_back act cs 0 = []"
| "absorbed_back act cs (Suc i) =
    (if act then
       (if s_is_qmark (cs ! i) then absorbed_back True cs i
        else if s_min_length (cs ! i) = 0 then i # absorbed_back True cs i
        else absorbed_back False cs i)
     else absorbed_back (s_is_star (cs ! i)) cs i)"

lemma absorbed_back_range: "j \<in> set (absorbed_back act cs i) \<Longrightarrow> j < i"
  by (induction act cs i rule: absorbed_back.induct) (fastforce split: if_splits)+

lemma absorbed_back_sorted: "sorted_wrt (<) (rev (absorbed_back act cs i))"
  by (induction act cs i rule: absorbed_back.induct)
    (auto simp: sorted_wrt_append dest: absorbed_back_range)

lemma mark_backward_absorbed:
  "mark_backward cs (map s_min_length cs) i p r = (p', r') \<Longrightarrow> i < length cs \<Longrightarrow>
    \<exists>X. r' = r @ X \<and> absorbed_back True cs i = X @ absorbed_back False cs (i - (p' - p))"
proof (induction i arbitrary: p r)
  case 0
  then show ?case by simp
next
  case (Suc i)
  have go: ?case
    if "mark_backward cs (map s_min_length cs) i (p + 1) (r @ Y) = (p', r')"
      "absorbed_back True cs (Suc i) = Y @ absorbed_back True cs i" for Y
  proof -
    have "p + 1 \<le> p'" using mark_backward_le [OF that(1)] by simp
    then have "i - (p' - (p + 1)) = Suc i - (p' - p)" by simp
    then show ?thesis using Suc.IH [OF that(1)] Suc.prems(2) that(2) by auto
  qed
  show ?case
    using Suc.prems go [of "[]"] go [of "[i]"]
    by (auto split: if_splits)
qed

lemma second_pass_absorbed:
  "i \<le> length cs \<Longrightarrow> second_pass cs (map s_min_length cs) i r = r @ absorbed_back False cs i"
proof (induction cs "map s_min_length cs" i r rule: second_pass.induct)
  case (1 cs i r)
  show ?case
  proof (cases i)
    case 0
    then show ?thesis by (simp add: second_pass.simps [of cs _ 0])
  next
    case (Suc j)
    then have pos: "i > 0" "i - 1 = j" "j < length cs" using "1.prems" by auto
    show ?thesis
    proof (cases "s_is_star (cs ! j)")
      case star: True
      obtain p' r' where m: "mark_backward cs (map s_min_length cs) (i - 1) 0 r = (p', r')" by force
      have "second_pass cs (map s_min_length cs) (i - p' - 1) r'
          = r' @ absorbed_back False cs (i - p' - 1)"
        by (rule 1(1) [OF pos(1) _ m [symmetric] refl]) (use star pos "1.prems" in auto)
      then show ?thesis
        using mark_backward_absorbed [OF m [unfolded pos(2)] pos(3)] m star Suc
        by (auto simp: second_pass.simps [of cs _ i] second_pass.simps [of cs _ "Suc _"] diff_right_commute)
    next
      case False
      then show ?thesis using 1(2) Suc "1.prems"
        by (simp add: second_pass.simps [of cs _ "Suc j"])
    qed
  qed
qed

lemma absorbed_back_absorb:
  "n \<le> length cs \<Longrightarrow>
    keep_from (\<lambda>i. i \<notin> set (absorbed_back act cs n)) 0 (take n cs)
      = rev (absorb act (rev (take n cs)))"
proof (induction n arbitrary: act)
  case 0
  then show ?case by simp
next
  case (Suc n)
  have t: "take (Suc n) cs = take n cs @ [cs ! n]"
    using Suc.prems by (simp add: take_Suc_conv_app_nth)
  have keep: "keep_from (\<lambda>i. i \<noteq> n \<and> i \<notin> S) 0 (take n cs) = keep_from (\<lambda>i. i \<notin> S) 0 (take n cs)" for S
    by (rule keep_from_cong) auto
  have notin: "n \<notin> set (absorbed_back b cs n)" for b
    using absorbed_back_range by fastforce
  show ?case
    using Suc keep notin by (auto simp: t keep_from_append min_absorb2)
qed

lemma concat_star_optimization_absorb:
  "concat_star_optimization cs = rev (absorb False (rev (absorb False cs)))"
proof -
  define r1 where "r1 = absorbed False 0 cs"
  define cs1 where "cs1 = absorb False cs"
  define r2 where "r2 = absorbed_back False cs1 (length cs1)"
  have 1: "remove_marked r1 (cs, map s_min_length cs) = (cs1, map s_min_length cs1)"
    unfolding r1_def cs1_def absorb_keep [of False cs 0]
    by (rule remove_marked_sorted [OF refl])
      (use absorbed_sorted absorbed_range in \<open>auto dest: absorbed_range\<close>)
  have "remove_marked r2 (cs1, map s_min_length cs1)
      = (keep_from (\<lambda>i. i \<notin> set (rev r2)) 0 cs1, map s_min_length (keep_from (\<lambda>i. i \<notin> set (rev r2)) 0 cs1))"
    unfolding r2_def
    by (rule remove_marked_sorted) (auto simp: absorbed_back_sorted dest: absorbed_back_range)
  moreover have "keep_from (\<lambda>i. i \<notin> set r2) 0 cs1 = rev (absorb False (rev cs1))"
    using absorbed_back_absorb [of "length cs1" cs1 False] by (simp add: r2_def)
  ultimately show ?thesis
    using 1 first_pass_absorbed [of cs 0 "[]"] second_pass_absorbed [of "length cs1" cs1 "[]"]
    by (simp add: concat_star_optimization_def Let_def r1_def [symmetric] r2_def [symmetric]
        cs1_def [symmetric])
qed

section \<open>Absorption does not change the language\<close>

text \<open>
  The argument needs three facts about the languages of the children: a star accepts every
  phrase, a question mark every single word, and a unit of minimum length zero the empty
  phrase.
\<close>

definition absorbable :: "(simple_unit \<Rightarrow> lang) \<Rightarrow> simple_unit list \<Rightarrow> bool" where
  "absorbable L cs \<longleftrightarrow> (\<forall>c \<in> set cs.
    (s_is_star c \<longrightarrow> L c = UNIV) \<and> (s_is_qmark c \<longrightarrow> L c = {p. length p = 1})
    \<and> (s_min_length c = 0 \<longrightarrow> [] \<in> L c))"

lemma absorb_lang:
  assumes "absorbable L cs"
  shows "conc (if act then UNIV else {[]}) (concs (map L (absorb act cs)))
    = conc (if act then UNIV else {[]}) (concs (map L cs))"
  using assms
proof (induction act cs rule: absorb.induct)
  case (1 act)
  then show ?case by simp
next
  case (2 act c cs)
  have ab: "absorbable L cs" using "2.prems" by (simp add: absorbable_def)
  have lc: "s_is_star c \<Longrightarrow> L c = UNIV" "s_is_qmark c \<Longrightarrow> L c = {p. length p = 1}"
      "s_min_length c = 0 \<Longrightarrow> [] \<in> L c"
    using "2.prems" by (auto simp: absorbable_def)
  consider (idle) "\<not> act" | (qmark) "act" "s_is_qmark c"
    | (drop) "act" "\<not> s_is_qmark c" "s_min_length c = 0"
    | (stop) "act" "\<not> s_is_qmark c" "s_min_length c \<noteq> 0" by blast
  then show ?case
  proof cases
    case idle
    then show ?thesis
      using "2.IH"(4) [OF idle ab] lc(1) by (cases "s_is_star c") auto
  next
    case qmark
    have swap: "conc UNIV (conc (L c) X) = conc (L c) (conc UNIV X)" for X :: lang
      unfolding conc_assoc [symmetric] lc(2) [OF qmark(2)] conc_UNIV_single ..
    show ?thesis
      using "2.IH"(1) [OF qmark ab] qmark swap by simp
  next
    case drop
    then have "conc UNIV (conc (L c) X) = conc UNIV X" for X :: lang
      unfolding conc_assoc [symmetric] using conc_UNIV_Nil [of "L c"] lc(3) by simp
    then show ?thesis using "2.IH"(2) [OF drop ab] drop by simp
  next
    case stop
    then show ?thesis using "2.IH"(3) [OF stop ab] by simp
  qed
qed

lemma absorb_lang_False: "absorbable L cs \<Longrightarrow> concs (map L (absorb False cs)) = concs (map L cs)"
  using absorb_lang [of L cs False] by simp

text \<open>The mirror image of a language, for the second pass.\<close>

lemma rev_conc: "rev ` conc A B = conc (rev ` B) (rev ` A)"
proof
  show "rev ` conc A B \<subseteq> conc (rev ` B) (rev ` A)"
    by (auto elim!: concE simp: concI)
  show "conc (rev ` B) (rev ` A) \<subseteq> rev ` conc A B"
    by (auto simp: conc_def image_iff) (metis rev_append)
qed

lemma rev_concs: "rev ` concs As = concs (map ((`) rev) (rev As))"
  by (induction As) (auto simp: rev_conc)

lemma inj_rev_image: "rev ` A = rev ` B \<Longrightarrow> A = B"
  by (simp add: inj_image_eq_iff)

lemma rev_UNIV: "rev ` (UNIV :: lang) = UNIV"
  by (metis surj_def rev_rev_ident)

lemma rev_length: "rev ` {p :: phrase_words. length p = n} = {p. length p = n}"
  by (auto simp: image_iff) (metis length_rev rev_rev_ident)

lemma absorbable_rev: "absorbable L cs \<Longrightarrow> absorbable (\<lambda>c. rev ` L c) (rev cs)"
  by (auto simp: absorbable_def rev_UNIV rev_length image_iff)

lemma absorb_subset: "set (absorb act cs) \<subseteq> set cs"
  by (induction act cs rule: absorb.induct) auto

lemma absorb_back_lang:
  assumes "absorbable L cs"
  shows "concs (map L (rev (absorb False (rev cs)))) = concs (map L cs)"
proof (rule inj_rev_image)
  have "rev ` concs (map L (rev (absorb False (rev cs))))
      = concs (map (\<lambda>c. rev ` L c) (absorb False (rev cs)))"
    by (simp add: rev_concs rev_map comp_def)
  also have "\<dots> = concs (map (\<lambda>c. rev ` L c) (rev cs))"
    by (rule absorb_lang_False [OF absorbable_rev [OF assms]])
  also have "\<dots> = rev ` concs (map L cs)"
    by (simp add: rev_concs rev_map comp_def)
  finally show "rev ` concs (map L (rev (absorb False (rev cs)))) = rev ` concs (map L cs)" .
qed

lemma concat_star_optimization_lang:
  assumes "absorbable L cs"
  shows "concs (map L (concat_star_optimization cs)) = concs (map L cs)"
proof -
  have "absorbable L (absorb False cs)"
    using assms absorb_subset [of False cs] by (auto simp: absorbable_def)
  then show ?thesis
    using absorb_back_lang absorb_lang_False [OF assms]
    by (simp only: concat_star_optimization_absorb)
qed

lemma s_lang_absorbable:
  assumes "\<And>c. c \<in> set cs \<Longrightarrow> s_width c < 2 ^ 32 - 1"
  shows "absorbable (s_lang R) cs"
proof -
  have "[] \<in> s_lang R c" if "c \<in> set cs" "s_min_length c = 0" for c
    by (rule s_min_length_0_lang [OF assms [OF that(1)] that(2)])
  moreover have "s_is_star c \<Longrightarrow> s_lang R c = UNIV" "s_is_qmark c \<Longrightarrow> s_lang R c = {p. length p = 1}" for c
    by (cases c; simp)+
  ultimately show ?thesis unfolding absorbable_def by blast
qed

section \<open>The optimizer keeps language and width\<close>

definition nested_parts :: "(simple_unit \<Rightarrow> bool) \<Rightarrow> simple_unit \<Rightarrow> simple_unit list" where
  "nested_parts tag c = (if tag c then s_children c else [c])"

lemma inline_nested_parts: "inline_nested cs tag = concat (map (nested_parts tag) cs)"
proof -
  have "foldl (\<lambda>out c. if tag c then out @ s_children c else out @ [c]) out cs
      = out @ concat (map (nested_parts tag) cs)" for out
    by (induction cs arbitrary: out) (auto simp: nested_parts_def)
  moreover have "concat (map (nested_parts tag) cs) = cs" if "\<not> list_ex tag cs"
    using that by (induction cs) (auto simp: nested_parts_def)
  ultimately show ?thesis by (simp add: inline_nested_def contains_child_def)
qed

lemma inline_concat_lang: "concs (map (s_lang R) (inline_nested cs s_is_concat)) = concs (map (s_lang R) cs)"
proof -
  have "concs (map (s_lang R) (nested_parts s_is_concat c)) = s_lang R c" for c
    by (cases c) (auto simp: nested_parts_def)
  then show ?thesis unfolding inline_nested_parts by (induction cs) auto
qed

lemma inline_alt_lang:
  "\<Union> (set (map (s_lang R) (inline_nested cs s_is_alt))) = \<Union> (set (map (s_lang R) cs))"
proof -
  have p: "\<Union> (set (map (s_lang R) (nested_parts s_is_alt c))) = s_lang R c" for c
    by (cases c) (auto simp: nested_parts_def)
  show ?thesis unfolding inline_nested_parts
  proof (induction cs)
    case (Cons c cs)
    then show ?case using p [of c] by simp
  qed simp
qed

lemma inline_concat_width: "sum_list (map s_width (inline_nested cs s_is_concat)) = sum_list (map s_width cs)"
proof -
  have "sum_list (map s_width (nested_parts s_is_concat c)) = s_width c" for c
    by (cases c) (auto simp: nested_parts_def)
  then show ?thesis unfolding inline_nested_parts by (induction cs) auto
qed

lemma inline_alt_width: "max_list0 (map s_width (inline_nested cs s_is_alt)) = max_list0 (map s_width cs)"
proof -
  have "max_list0 (map s_width (nested_parts s_is_alt c)) = s_width c" for c
    by (cases c) (auto simp: nested_parts_def)
  then show ?thesis unfolding inline_nested_parts by (induction cs) auto
qed

lemma absorb_width: "sum_list (map f (absorb act cs)) \<le> (sum_list (map f cs) :: nat)"
  by (induction act cs rule: absorb.induct) auto

lemma concat_star_width: "sum_list (map s_width (concat_star_optimization cs)) \<le> sum_list (map s_width cs)"
proof -
  have "sum_list (map s_width (concat_star_optimization cs))
      = sum_list (map s_width (absorb False (rev (absorb False cs))))"
    by (simp add: concat_star_optimization_absorb rev_map [symmetric] sum_list_rev)
  also have "\<dots> \<le> sum_list (map s_width (rev (absorb False cs)))" by (rule absorb_width)
  also have "\<dots> = sum_list (map s_width (absorb False cs))"
    by (simp add: rev_map [symmetric] sum_list_rev)
  also have "\<dots> \<le> sum_list (map s_width cs)" by (rule absorb_width)
  finally show ?thesis .
qed

lemma optimize_concat_node_width: "s_width (optimize_concat_node s cs) \<le> sum_list (map s_width cs)"
proof -
  have "s_width (SConcat s (concat_star_optimization (inline_nested cs s_is_concat))) \<le> sum_list (map s_width cs)"
    using concat_star_width [of "inline_nested cs s_is_concat"] inline_concat_width [of cs] by simp
  then show ?thesis
    using inline_concat_width [of cs]
    by (auto simp: optimize_concat_node_def Let_def length_Suc_conv split: option.splits)
qed

lemma optimize_alt_node_width: "s_width (optimize_alt_node s cs) \<le> max_list0 (map s_width cs)"
  using inline_alt_width [of cs] by (auto simp: optimize_alt_node_def length_Suc_conv)

lemma optimize_concat_node_lang:
  assumes "sum_list (map s_width cs) < 2 ^ 32 - 1"
  shows "s_lang R (optimize_concat_node s cs) = concs (map (s_lang R) cs)"
proof -
  define ds where "ds = inline_nested cs s_is_concat"
  have ds: "concs (map (s_lang R) ds) = concs (map (s_lang R) cs)"
    by (simp add: ds_def inline_concat_lang)
  have w: "s_width c < 2 ^ 32 - 1" if "c \<in> set ds" for c
    using inline_concat_width [of cs] assms sum_list_le_member [OF that, of s_width]
    by (simp add: ds_def)
  have star: "concs (map (s_lang R) (concat_star_optimization ds)) = concs (map (s_lang R) cs)"
    using concat_star_optimization_lang [OF s_lang_absorbable [OF w]] ds by simp
  have emp: "concs (map (s_lang R) cs) = {}" if "find is_empty_alt ds = Some u" for u
  proof -
    from that have u: "u \<in> set ds" "is_empty_alt u" by (auto simp: find_Some_iff)
    from u(2) have "s_lang R u = {}"
      by (cases u) (simp_all add: is_empty_alt_def)
    then have "{} \<in> set (map (s_lang R) ds)"
      using u(1) by (metis image_eqI list.set_map)
    then show ?thesis using ds concs_empty by metis
  qed
  consider "cs = []" | c where "cs = [c]" | "cs \<noteq> []" "length cs \<noteq> 1"
    by (auto simp: length_Suc_conv)
  then show ?thesis
  proof cases
    case 3
    then show ?thesis
      using star ds emp
      by (auto simp: optimize_concat_node_def ds_def [symmetric] Let_def split: option.splits)
  qed (auto simp: optimize_concat_node_def)
qed

lemma optimize_alt_node_lang: "s_lang R (optimize_alt_node s cs) = \<Union> (set (map (s_lang R) cs))"
proof -
  consider "cs = []" | c where "cs = [c]" | "cs \<noteq> []" "length cs \<noteq> 1"
    by (auto simp: length_Suc_conv)
  then show ?thesis
    using inline_alt_lang [of R cs] by cases (auto simp: optimize_alt_node_def)
qed

lemma max_list0_map_mono:
  "(\<And>x. x \<in> set xs \<Longrightarrow> f x \<le> g x) \<Longrightarrow> max_list0 (map f xs) \<le> max_list0 (map g xs)"
proof (induction xs)
  case (Cons x xs)
  then have "f x \<le> g x" "max_list0 (map f xs) \<le> max_list0 (map g xs)" by simp_all
  then show ?case by (simp only: list.map max_list0.simps max.mono)
qed simp

lemma optimize_unit_width: "s_width (optimize_simple_unit u) \<le> s_width u"
proof (induction u)
  case (SConcat s cs)
  then have "sum_list (map s_width (map optimize_simple_unit cs)) \<le> sum_list (map s_width cs)"
    by (induction cs) (auto intro: add_mono)
  then show ?case
    using optimize_concat_node_width [of s "map optimize_simple_unit cs"] by simp
next
  case (SAlt s cs)
  then have "max_list0 (map s_width (map optimize_simple_unit cs)) \<le> max_list0 (map s_width cs)"
    unfolding map_map by (intro max_list0_map_mono) simp
  then show ?case
    using optimize_alt_node_width [of s "map optimize_simple_unit cs"] by simp
qed auto

lemma optimize_unit_sum_width:
  "sum_list (map s_width (map optimize_simple_unit cs)) \<le> sum_list (map s_width cs)"
  by (induction cs) (auto intro: add_mono optimize_unit_width)

lemma optimize_unit_language:
  "s_width u < 2 ^ 32 - 1 \<Longrightarrow> s_lang R (optimize_simple_unit u) = s_lang R u"
proof (induction u)
  case (SConcat s cs)
  have ih: "map (s_lang R) (map optimize_simple_unit cs) = map (s_lang R) cs"
    using SConcat width_sum_member [of _ cs s_width] by simp
  have "s_lang R (optimize_concat_node s (map optimize_simple_unit cs))
      = concs (map (s_lang R) (map optimize_simple_unit cs))"
    by (rule optimize_concat_node_lang)
      (use optimize_unit_sum_width [of cs] SConcat.prems in simp)
  then show ?case unfolding ih by simp
next
  case (SAlt s cs)
  have ih: "map (s_lang R) (map optimize_simple_unit cs) = map (s_lang R) cs"
    using SAlt width_max_member [of _ cs s_width] by simp
  show ?case
    using optimize_alt_node_lang [of R s "map optimize_simple_unit cs"] ih by simp
qed auto

lemma optimize_language:
  assumes "s_width u < 2 ^ 32 - 1"
  shows "s_lang R (optimize u) = s_lang R u"
proof (cases u)
  case (SConcat s cs)
  then have "map (s_lang R) (map optimize_simple_unit cs) = map (s_lang R) cs"
    using assms optimize_unit_language width_sum_member [of _ cs s_width] by simp
  then show ?thesis using SConcat by (simp only: optimize_def s_children.simps s_set_children.simps s_lang.simps)
next
  case (SAlt s cs)
  then have "map (s_lang R) (map optimize_simple_unit cs) = map (s_lang R) cs"
    using assms optimize_unit_language width_max_member [of _ cs s_width] by simp
  then show ?thesis using SAlt by (simp add: optimize_def)
qed (simp_all add: optimize_def)

lemma optimize_width: "s_width (optimize u) \<le> s_width u"
proof (cases u)
  case (SConcat s cs)
  then show ?thesis using optimize_unit_sum_width [of cs] by (simp add: optimize_def)
next
  case (SAlt s cs)
  have "max_list0 (map s_width (map optimize_simple_unit cs)) \<le> max_list0 (map s_width cs)"
    unfolding map_map by (intro max_list0_map_mono) (simp add: optimize_unit_width)
  then show ?thesis using SAlt by (simp add: optimize_def)
qed (simp_all add: optimize_def)

section \<open>The optimized tree is flat\<close>

fun flat :: "simple_unit \<Rightarrow> bool" where
  "flat (SConcat s cs) = list_all (\<lambda>c. \<not> s_is_concat c \<and> flat c) cs"
| "flat (SAlt s cs) = list_all (\<lambda>c. \<not> s_is_alt c \<and> flat c) cs"
| "flat _ = True"

lemma inline_concat_flat:
  "list_all flat cs \<Longrightarrow> list_all (\<lambda>c. \<not> s_is_concat c \<and> flat c) (inline_nested cs s_is_concat)"
proof -
  have "list_all (\<lambda>c. \<not> s_is_concat c \<and> flat c) (nested_parts s_is_concat c)" if "flat c" for c
    using that by (cases c) (auto simp: nested_parts_def)
  then show "list_all flat cs \<Longrightarrow> ?thesis"
    unfolding inline_nested_parts by (induction cs) auto
qed

lemma inline_alt_flat:
  "list_all flat cs \<Longrightarrow> list_all (\<lambda>c. \<not> s_is_alt c \<and> flat c) (inline_nested cs s_is_alt)"
proof -
  have "list_all (\<lambda>c. \<not> s_is_alt c \<and> flat c) (nested_parts s_is_alt c)" if "flat c" for c
    using that by (cases c) (auto simp: nested_parts_def)
  then show "list_all flat cs \<Longrightarrow> ?thesis"
    unfolding inline_nested_parts by (induction cs) auto
qed

lemma concat_star_subset: "set (concat_star_optimization cs) \<subseteq> set cs"
  unfolding concat_star_optimization_absorb
  using absorb_subset [of False cs] absorb_subset [of False "rev (absorb False cs)"] by auto

lemma optimize_concat_node_flat: "list_all flat cs \<Longrightarrow> flat (optimize_concat_node s cs)"
  using inline_concat_flat [of cs] concat_star_subset [of "inline_nested cs s_is_concat"]
  by (auto simp: optimize_concat_node_def Let_def length_Suc_conv list_all_iff split: option.splits)

lemma optimize_alt_node_flat: "list_all flat cs \<Longrightarrow> flat (optimize_alt_node s cs)"
  using inline_alt_flat [of cs]
  by (auto simp: optimize_alt_node_def length_Suc_conv list_all_iff)

lemma optimize_flat: "flat (optimize_simple_unit u)"
  by (induction u) (auto simp: list_all_iff intro!: optimize_concat_node_flat optimize_alt_node_flat)

section \<open>The optimizer invents no source\<close>

lemma nested_parts_origins:
  "origins_ok q b c \<Longrightarrow> list_all (origins_ok q b) (nested_parts tag c)"
  by (cases c) (auto simp: nested_parts_def)

lemma inline_origins:
  "list_all (origins_ok q b) cs \<Longrightarrow> list_all (origins_ok q b) (inline_nested cs tag)"
  unfolding inline_nested_parts by (induction cs) (auto simp: nested_parts_origins)

lemma origins_ok_source:
  "origins_ok q b c \<Longrightarrow> \<exists>p w. s_source c = b @ p \<and> q_at q p = Some w"
  by (cases c) auto

lemma optimize_concat_node_origins:
  assumes "origins_ok q b (SConcat s cs)"
  shows "origins_ok q b (optimize_concat_node s cs)"
proof -
  have l: "list_all (origins_ok q b) (inline_nested cs s_is_concat)"
    using assms by (intro inline_origins) simp
  have e: "origins_ok q b (SAlt (s_source u) [])" if "find is_empty_alt (inline_nested cs s_is_concat) = Some u" for u
  proof -
    have "origins_ok q b u" using that l by (auto simp: find_Some_iff list_all_length)
    then show ?thesis using origins_ok_source by fastforce
  qed
  show ?thesis
    using assms l e concat_star_subset [of "inline_nested cs s_is_concat"]
    by (auto simp: optimize_concat_node_def Let_def length_Suc_conv list_all_iff split: option.splits)
qed

lemma optimize_alt_node_origins:
  assumes "origins_ok q b (SAlt s cs)"
  shows "origins_ok q b (optimize_alt_node s cs)"
  using assms inline_origins [of q b cs s_is_alt]
  by (auto simp: optimize_alt_node_def length_Suc_conv)

lemma optimize_unit_origins: "origins_ok q b u \<Longrightarrow> origins_ok q b (optimize_simple_unit u)"
proof (induction u)
  case (SConcat s cs)
  then have "origins_ok q b (SConcat s (map optimize_simple_unit cs))"
    by (auto simp: list_all_iff)
  then show ?case using optimize_concat_node_origins by simp
next
  case (SAlt s cs)
  then have "origins_ok q b (SAlt s (map optimize_simple_unit cs))"
    by (auto simp: list_all_iff)
  then show ?case using optimize_alt_node_origins by simp
qed auto

lemma optimize_origins: "origins_ok q b u \<Longrightarrow> origins_ok q b (optimize u)"
  by (cases u) (auto simp: optimize_def list_all_iff optimize_unit_origins)

section \<open>Properties\<close>

text \<open>
  The two index-based passes of \<open>concat_star_optimization\<close> (the marks, the sorted list
  \<open>to_remove\<close> and the removals from both vectors) compute \<open>absorb\<close>, once from the left and once
  from the right, and do not change the language of the concatenation.
\<close>

theorem star_optimization_correct:
  assumes "\<And>c. c \<in> set cs \<Longrightarrow> s_width c < 2 ^ 32 - 1"
  shows "concat_star_optimization cs = rev (absorb False (rev (absorb False cs)))
    \<and> s_lang R (SConcat s (concat_star_optimization cs)) = s_lang R (SConcat s cs)"
  using concat_star_optimization_absorb concat_star_optimization_lang [OF s_lang_absorbable [OF assms]]
  by simp

theorem star_optimization_correct_witness:
  "s_lang (\<lambda>_. {}) (SConcat [] (concat_star_optimization [SStar [0], SQMark [1], SAlt [2] [SConcat [2] [], SWord ''foo'' [2, 0]]]))
    = s_lang (\<lambda>_. {}) (SConcat [] [SStar [0], SQMark [1], SAlt [2] [SConcat [2] [], SWord ''foo'' [2, 0]]])"
  by (rule star_optimization_correct [THEN conjunct2]) auto

text \<open>
  C6. \<open>SimpleQueryOptimizer::optimize\<close> keeps the accepted phrases, for every interpretation of
  the regexes, never increases a width, and leaves below the root no concatenation inside a
  concatenation and no alternation inside an alternation.
\<close>

theorem optimizer_correct:
  assumes "s_width u < 2 ^ 32 - 1"
  shows "s_lang R (optimize u) = s_lang R u \<and> s_width (optimize u) \<le> s_width u
    \<and> list_all flat (s_children (optimize u))"
proof -
  have "list_all flat (s_children (optimize u))"
    by (cases u) (auto simp: optimize_def list_all_iff optimize_flat)
  then show ?thesis using optimize_language [OF assms] optimize_width by blast
qed

theorem optimizer_correct_witness:
  "s_lang (\<lambda>_. {}) (optimize (SAlt [] [SConcat [0] [SStar [0, 0], SAlt [0, 1] [SConcat [0, 1] [], SWord ''a'' [0, 1, 0]]]]))
    = s_lang (\<lambda>_. {}) (SAlt [] [SConcat [0] [SStar [0, 0], SAlt [0, 1] [SConcat [0, 1] [], SWord ''a'' [0, 1, 0]]]])"
  by (rule optimizer_correct [THEN conjunct1]) simp

end
