(* ===== verification/Star_Queries.thy ===== *)
theory Star_Queries
  imports Query_Language
begin

text \<open>
  \<open>class StarQuery\<close> and \<open>class StarQueryConverter\<close> of \<open>src/netspeak/QueryNormalizer.cpp\<close>: a
  simple query without regexes is multiplied out into a list of star queries, sequences of
  words, question marks and stars.  Star queries whose minimum length exceeds \<open>max_length\<close>
  are dropped on the way.

  \<open>to_star_queries_language\<close> shows that the list accepts the phrases of the simple query up to
  \<open>max_length\<close> words, and \<open>to_star_queries_total\<close> that the conversion throws exactly when a
  regex is left.
\<close>

datatype star_unit =
    UWord string src
  | UQMark src
  | UStar src

fun u_is_star :: "star_unit \<Rightarrow> bool" where
  "u_is_star (UStar _) = True"
| "u_is_star (UWord _ _) = False"
| "u_is_star (UQMark _) = False"

fun u_source :: "star_unit \<Rightarrow> src" where
  "u_source (UWord _ s) = s"
| "u_source (UQMark s) = s"
| "u_source (UStar s) = s"

record star_query =
  sq_units :: "star_unit list"
  sq_min_length :: u32

definition empty_star_query :: star_query where
  "empty_star_query = \<lparr>sq_units = [], sq_min_length = 0\<rparr>"

fun sq_max_loop :: "u32 \<Rightarrow> star_unit list \<Rightarrow> u32" where
  "sq_max_loop mx [] = mx"
| "sq_max_loop mx (u # us) = (if u_is_star u then UINT32_MAX else sq_max_loop (mx + 1) us)"

definition sq_max_length :: "star_query \<Rightarrow> u32" where
  "sq_max_length q = sq_max_loop 0 (sq_units q)"

definition sq_push_back :: "star_unit \<Rightarrow> star_query \<Rightarrow> star_query" where
  "sq_push_back u q =
    (let q' = (if \<not> u_is_star u then q\<lparr>sq_min_length := sq_min_length q + 1\<rparr> else q)
     in q'\<lparr>sq_units := sq_units q' @ [u]\<rparr>)"

definition sq_append :: "star_query \<Rightarrow> star_query \<Rightarrow> star_query" where
  "sq_append q r =
    \<lparr>sq_units = sq_units q @ sq_units r, sq_min_length = sq_min_length q + sq_min_length r\<rparr>"

text \<open>
  The product of two lists of star queries, without the combinations that are too long.
\<close>

definition sq_product :: "u32 \<Rightarrow> star_query list \<Rightarrow> star_query list \<Rightarrow> star_query list" where
  "sq_product max_length befores afters =
    concat (map (\<lambda>bef. concat (map (\<lambda>after.
      if sq_min_length bef + sq_min_length after > max_length then []
      else [sq_append (sq_append empty_star_query bef) after]) afters)) befores)"

text \<open>
  The member functions \<open>concat\<close> and \<open>alternation\<close>; the two list functions are their loops over
  the children.
\<close>

function (sequential) sq_concat :: "u32 \<Rightarrow> star_query list \<Rightarrow> simple_unit \<Rightarrow> star_query list result"
  and sq_concat_children ::
    "u32 \<Rightarrow> star_query list \<Rightarrow> simple_unit list \<Rightarrow> star_query list result"
  and sq_alternation :: "u32 \<Rightarrow> star_query list \<Rightarrow> simple_unit \<Rightarrow> star_query list result"
  and sq_alternation_children ::
    "u32 \<Rightarrow> star_query list \<Rightarrow> simple_unit list \<Rightarrow> star_query list result" where
  "sq_concat k queries (SWord t s) = Inr (map (sq_push_back (UWord t s)) queries)"
| "sq_concat k queries (SQMark s) = Inr (map (sq_push_back (UQMark s)) queries)"
| "sq_concat k queries (SStar s) = Inr (map (sq_push_back (UStar s)) queries)"
| "sq_concat k queries (SRegex t s) =
    Inl (LogicError ''Regexes should have already been handled.'')"
| "sq_concat k queries (SAlt s cs) =
    rbind (sq_alternation k [] (SAlt s cs)) (\<lambda>alt.
      Inr (if alt = [] then []
           else if length alt = 1 then map (\<lambda>q. sq_append q (alt ! 0)) queries
           else sq_product k queries alt))"
| "sq_concat k queries (SConcat s cs) = sq_concat_children k queries cs"
| "sq_concat_children k queries [] = Inr queries"
| "sq_concat_children k queries (c # cs) =
    rbind (sq_concat k queries c) (\<lambda>queries'. sq_concat_children k queries' cs)"
| "sq_alternation k queries (SWord t s) =
    Inr (queries @ [sq_push_back (UWord t s) empty_star_query])"
| "sq_alternation k queries (SQMark s) =
    Inr (queries @ [sq_push_back (UQMark s) empty_star_query])"
| "sq_alternation k queries (SStar s) =
    Inr (queries @ [sq_push_back (UStar s) empty_star_query])"
| "sq_alternation k queries (SRegex t s) =
    Inl (LogicError ''Regexes should have already been handled.'')"
| "sq_alternation k queries (SAlt s cs) = sq_alternation_children k queries cs"
| "sq_alternation k queries (SConcat s cs) =
    rbind (sq_concat k [empty_star_query] (SConcat s cs)) (\<lambda>con.
      Inr (queries @ filter (\<lambda>q. sq_min_length q \<le> k) con))"
| "sq_alternation_children k queries [] = Inr queries"
| "sq_alternation_children k queries (c # cs) =
    rbind (sq_alternation k queries c) (\<lambda>queries'. sq_alternation_children k queries' cs)"
  by pat_completeness auto
termination
  by (relation "measure (\<lambda>x. case x of
        Inl (Inl (k, q, u)) \<Rightarrow> 2 * size u + (if s_is_alt u then 1 else 0)
      | Inl (Inr (k, q, cs)) \<Rightarrow> 2 * size_list size cs
      | Inr (Inl (k, q, u)) \<Rightarrow> 2 * size u + (if s_is_concat u then 1 else 0)
      | Inr (Inr (k, q, cs)) \<Rightarrow> 2 * size_list size cs)") auto

definition to_star_queries :: "u32 \<Rightarrow> simple_unit \<Rightarrow> star_query list result" where
  "to_star_queries max_length root = sq_alternation max_length [] root"

section \<open>What a star query accepts\<close>

fun u_lang :: "star_unit \<Rightarrow> lang" where
  "u_lang (UWord t _) = {[t]}"
| "u_lang (UQMark _) = {p. length p = 1}"
| "u_lang (UStar _) = UNIV"

definition sq_lang :: "star_query \<Rightarrow> lang" where
  "sq_lang q = concs (map u_lang (sq_units q))"

definition sqs_lang :: "star_query list \<Rightarrow> lang" where
  "sqs_lang qs = \<Union> (set (map sq_lang qs))"

text \<open>The number of units that are not stars, and the invariant of the cached minimum length.\<close>

definition sq_fixed :: "star_query \<Rightarrow> nat" where
  "sq_fixed q = length (filter (\<lambda>u. \<not> u_is_star u) (sq_units q))"

definition sq_ok :: "nat \<Rightarrow> star_query \<Rightarrow> bool" where
  "sq_ok w q \<longleftrightarrow> unat (sq_min_length q) = sq_fixed q \<and> sq_fixed q \<le> w"

lemma sqs_lang_simps [simp]:
  "sqs_lang [] = {}" "sqs_lang (q # qs) = sq_lang q \<union> sqs_lang qs"
  "sqs_lang (qs @ rs) = sqs_lang qs \<union> sqs_lang rs"
  by (auto simp: sqs_lang_def)

lemma sq_lang_append [simp]: "sq_lang (sq_append q r) = conc (sq_lang q) (sq_lang r)"
  by (simp add: sq_lang_def sq_append_def)

lemma sq_lang_push [simp]: "sq_lang (sq_push_back u q) = conc (sq_lang q) (u_lang u)"
  by (simp add: sq_lang_def sq_push_back_def Let_def)

lemma sq_lang_empty [simp]: "sq_lang empty_star_query = {[]}"
  by (simp add: sq_lang_def empty_star_query_def)

lemma sq_fixed_simps [simp]:
  "sq_fixed empty_star_query = 0"
  "sq_fixed (sq_append q r) = sq_fixed q + sq_fixed r"
  "sq_fixed (sq_push_back u q) = sq_fixed q + (if u_is_star u then 0 else 1)"
  by (simp_all add: sq_fixed_def empty_star_query_def sq_append_def sq_push_back_def Let_def)

lemma sq_ok_empty [simp]: "sq_ok w empty_star_query"
  by (simp add: sq_ok_def) (simp add: empty_star_query_def)

lemma sq_ok_mono: "sq_ok v q \<Longrightarrow> v \<le> w \<Longrightarrow> sq_ok w q"
  by (simp add: sq_ok_def)

lemma sq_ok_append:
  assumes "sq_ok v q" "sq_ok w r" "v + w < 2 ^ 32 - 1"
  shows "sq_ok (v + w) (sq_append q r)"
proof -
  have "unat (sq_min_length q + sq_min_length r) = unat (sq_min_length q) + unat (sq_min_length r)"
    by (rule add_u32_fits) (use assms in \<open>simp add: sq_ok_def\<close>)
  then show ?thesis using assms by (simp add: sq_ok_def) (simp add: sq_append_def)
qed

lemma sq_ok_push:
  assumes "sq_ok v q" "v + 1 < 2 ^ 32 - 1"
  shows "sq_ok (v + 1) (sq_push_back u q)"
proof -
  have "unat (sq_min_length q + 1) = unat (sq_min_length q) + unat (1 :: u32)"
    by (rule add_u32_fits) (use assms in \<open>simp add: sq_ok_def\<close>)
  then show ?thesis using assms
    by (auto simp: sq_ok_def) (auto simp: sq_push_back_def Let_def)
qed

lemma u_lang_length: "p \<in> u_lang u \<Longrightarrow> (if u_is_star u then 0 else 1) \<le> length p"
  by (cases u) auto

lemma sq_lang_length: "p \<in> sq_lang q \<Longrightarrow> sq_fixed q \<le> length p"
proof -
  have "p \<in> concs (map u_lang us) \<Longrightarrow> length (filter (\<lambda>u. \<not> u_is_star u) us) \<le> length p" for us
  proof (induction us arbitrary: p)
    case (Cons u us)
    then obtain q r where "p = q @ r" "q \<in> u_lang u" "r \<in> concs (map u_lang us)" by auto
    then show ?case using Cons.IH [of r] u_lang_length [of q u] by (auto split: if_splits)
  qed simp
  then show "p \<in> sq_lang q \<Longrightarrow> ?thesis" by (simp add: sq_lang_def sq_fixed_def)
qed

lemma sqs_lang_map_push: "sqs_lang (map (sq_push_back u) qs) = conc (sqs_lang qs) (u_lang u)"
  by (induction qs) (auto simp: conc_Un)

lemma sqs_lang_map_append: "sqs_lang (map (\<lambda>q. sq_append q r) qs) = conc (sqs_lang qs) (sq_lang r)"
  by (induction qs) (auto simp: conc_Un)

lemma sqs_lang_filter:
  assumes "\<forall>q \<in> set qs. sq_ok w q"
  shows "eq_upto (unat k) (sqs_lang (filter (\<lambda>q. sq_min_length q \<le> k) qs)) (sqs_lang qs)"
  using assms
proof (induction qs)
  case (Cons q qs)
  have "sq_min_length q \<le> k" if "p \<in> sq_lang q" "length p \<le> unat k" for p
    using sq_lang_length [OF that(1)] that(2) Cons.prems by (simp add: sq_ok_def word_le_nat_alt)
  then show ?case using Cons by (auto simp: eq_upto_def)
qed simp

lemma sq_product_row:
  assumes "sq_ok v b" "\<forall>q \<in> set afters. sq_ok w q" "v + w < 2 ^ 32 - 1"
  shows "eq_upto (unat k)
    (sqs_lang (concat (map (\<lambda>after. if sq_min_length b + sq_min_length after > k then []
      else [sq_append (sq_append empty_star_query b) after]) afters)))
    (conc (sq_lang b) (sqs_lang afters))"
  using assms(2)
proof (induction afters)
  case (Cons a as)
  have ih: "eq_upto (unat k)
    (sqs_lang (concat (map (\<lambda>after. if sq_min_length b + sq_min_length after > k then []
      else [sq_append (sq_append empty_star_query b) after]) as)))
    (conc (sq_lang b) (sqs_lang as))"
    using Cons by simp
  show ?case
  proof (cases "sq_min_length b + sq_min_length a > k")
    case True
    have ok: "sq_ok (v + w) (sq_append b a)"
      using Cons.prems assms by (intro sq_ok_append) auto
    have "unat k < length p" if "p \<in> sq_lang (sq_append b a)" for p
    proof -
      have "unat k < unat (sq_min_length (sq_append b a))"
        using True by (simp add: sq_append_def word_less_nat_alt)
      then show ?thesis using ok sq_lang_length [OF that] by (simp add: sq_ok_def)
    qed
    then have "eq_upto (unat k) {} (conc (sq_lang b) (sq_lang a))"
      by (force simp: eq_upto_def)
    from eq_upto_Un [OF this ih] True show ?thesis by (simp add: conc_Un)
  next
    case False
    from eq_upto_Un [OF eq_upto_refl ih] False show ?thesis by (simp add: conc_Un)
  qed
qed simp

lemma sq_product_lang:
  assumes "\<forall>q \<in> set befores. sq_ok v q" "\<forall>q \<in> set afters. sq_ok w q" "v + w < 2 ^ 32 - 1"
  shows "eq_upto (unat k) (sqs_lang (sq_product k befores afters))
    (conc (sqs_lang befores) (sqs_lang afters))"
  using assms(1)
proof (induction befores)
  case Nil
  then show ?case by (simp add: sq_product_def)
next
  case (Cons b bs)
  have "eq_upto (unat k) (sqs_lang (sq_product k bs afters)) (conc (sqs_lang bs) (sqs_lang afters))"
    using Cons by simp
  from eq_upto_Un [OF sq_product_row [OF _ assms(2,3)] this] Cons.prems
  show ?case by (simp add: sq_product_def conc_Un)
qed

lemma sq_product_ok:
  assumes "\<forall>q \<in> set befores. sq_ok v q" "\<forall>q \<in> set afters. sq_ok w q" "v + w < 2 ^ 32 - 1"
  shows "\<forall>q \<in> set (sq_product k befores afters). sq_ok (v + w) q"
proof -
  have "sq_ok (v + w) (sq_append (sq_append empty_star_query b) a)"
    if "b \<in> set befores" "a \<in> set afters" for a b
    using sq_ok_append [OF _ _ assms(3)] sq_ok_append [of 0 empty_star_query v b] assms that by auto
  then show ?thesis by (auto simp: sq_product_def split: if_splits)
qed

section \<open>The conversion keeps the language\<close>

text \<open>The two specifications, for a fixed bound on the width.\<close>

definition concat_spec :: "u32 \<Rightarrow> simple_unit \<Rightarrow> bool" where
  "concat_spec k u \<longleftrightarrow> (\<forall>qs qs' v. sq_concat k qs u = Inr qs' \<longrightarrow> (\<forall>q \<in> set qs. sq_ok v q) \<longrightarrow>
    v + s_width u < 2 ^ 32 - 1 \<longrightarrow>
    eq_upto (unat k) (sqs_lang qs') (conc (sqs_lang qs) (s_lang (\<lambda>_. {}) u))
    \<and> (\<forall>q \<in> set qs'. sq_ok (v + s_width u) q))"

definition alternation_spec :: "u32 \<Rightarrow> simple_unit \<Rightarrow> bool" where
  "alternation_spec k u \<longleftrightarrow> (\<forall>qs qs' v. sq_alternation k qs u = Inr qs' \<longrightarrow> (\<forall>q \<in> set qs. sq_ok v q) \<longrightarrow>
    s_width u < 2 ^ 32 - 1 \<longrightarrow>
    eq_upto (unat k) (sqs_lang qs') (sqs_lang qs \<union> s_lang (\<lambda>_. {}) u)
    \<and> (\<forall>q \<in> set qs'. sq_ok (max v (s_width u)) q))"

lemma sq_concat_children_spec:
  assumes "sq_concat_children k qs cs = Inr qs'" "\<And>c. c \<in> set cs \<Longrightarrow> concat_spec k c"
    and "\<forall>q \<in> set qs. sq_ok v q" "v + sum_list (map s_width cs) < 2 ^ 32 - 1"
  shows "eq_upto (unat k) (sqs_lang qs') (conc (sqs_lang qs) (concs (map (s_lang (\<lambda>_. {})) cs)))
    \<and> (\<forall>q \<in> set qs'. sq_ok (v + sum_list (map s_width cs)) q)"
  using assms
proof (induction cs arbitrary: qs v)
  case (Cons c cs)
  obtain qs1 where qs1: "sq_concat k qs c = Inr qs1" "sq_concat_children k qs1 cs = Inr qs'"
    using Cons.prems(1) by auto
  have step: "eq_upto (unat k) (sqs_lang qs1) (conc (sqs_lang qs) (s_lang (\<lambda>_. {}) c))"
      "\<forall>q \<in> set qs1. sq_ok (v + s_width c) q"
    using Cons.prems(2) [of c] qs1(1) Cons.prems(3,4) unfolding concat_spec_def by auto
  from Cons.IH [OF qs1(2) _ step(2)] Cons.prems
  have rest: "eq_upto (unat k) (sqs_lang qs') (conc (sqs_lang qs1) (concs (map (s_lang (\<lambda>_. {})) cs)))"
      "\<forall>q \<in> set qs'. sq_ok (v + s_width c + sum_list (map s_width cs)) q"
    by auto
  show ?case
    using eq_upto_trans [OF rest(1) eq_upto_conc [OF step(1) eq_upto_refl]] rest(2)
    by (simp add: conc_assoc add.assoc)
qed simp

lemma sq_alternation_children_spec:
  assumes "sq_alternation_children k qs cs = Inr qs'" "\<And>c. c \<in> set cs \<Longrightarrow> alternation_spec k c"
    and "\<forall>q \<in> set qs. sq_ok v q" "max_list0 (map s_width cs) < 2 ^ 32 - 1"
  shows "eq_upto (unat k) (sqs_lang qs') (sqs_lang qs \<union> \<Union> (set (map (s_lang (\<lambda>_. {})) cs)))
    \<and> (\<forall>q \<in> set qs'. sq_ok (max v (max_list0 (map s_width cs))) q)"
  using assms
proof (induction cs arbitrary: qs v)
  case (Cons c cs)
  obtain qs1 where qs1: "sq_alternation k qs c = Inr qs1" "sq_alternation_children k qs1 cs = Inr qs'"
    using Cons.prems(1) by auto
  have step: "eq_upto (unat k) (sqs_lang qs1) (sqs_lang qs \<union> s_lang (\<lambda>_. {}) c)"
      "\<forall>q \<in> set qs1. sq_ok (max v (s_width c)) q"
    using Cons.prems(2) [of c] qs1(1) Cons.prems(3,4) unfolding alternation_spec_def by auto
  from Cons.IH [OF qs1(2) _ step(2)] Cons.prems
  have rest: "eq_upto (unat k) (sqs_lang qs') (sqs_lang qs1 \<union> \<Union> (set (map (s_lang (\<lambda>_. {})) cs)))"
      "\<forall>q \<in> set qs'. sq_ok (max (max v (s_width c)) (max_list0 (map s_width cs))) q"
    by auto
  show ?case
    using eq_upto_trans [OF rest(1) eq_upto_Un [OF step(1) eq_upto_refl]] rest(2)
    by (simp add: Un_assoc max.assoc)
qed simp

lemma push_spec:
  assumes "\<forall>q \<in> set qs. sq_ok v q" "v + 1 < 2 ^ 32 - 1"
  shows "\<forall>q \<in> set (map (sq_push_back u) qs). sq_ok (v + 1) q"
  using assms sq_ok_push by auto

lemma conversion_specs: "concat_spec k u \<and> alternation_spec k u"
proof (induction u)
  case (SWord t s)
  then show ?case
    using push_spec [where u = "UWord t s"] sq_ok_push [of 0 empty_star_query "UWord t s"]
    by (auto simp: concat_spec_def alternation_spec_def sqs_lang_map_push intro: sq_ok_mono)
next
  case (SQMark s)
  then show ?case
    using push_spec [where u = "UQMark s"] sq_ok_push [of 0 empty_star_query "UQMark s"]
    by (auto simp: concat_spec_def alternation_spec_def sqs_lang_map_push intro: sq_ok_mono)
next
  case (SStar s)
  then show ?case
    using push_spec [where u = "UStar s"] sq_ok_push [of 0 empty_star_query "UStar s"]
    by (auto simp: concat_spec_def alternation_spec_def sqs_lang_map_push intro: sq_ok_mono)
next
  case (SRegex t s)
  then show ?case by (simp add: concat_spec_def alternation_spec_def)
next
  case (SConcat s cs)
  have con: "concat_spec k (SConcat s cs)"
    using SConcat sq_concat_children_spec [of k _ cs] by (auto simp: concat_spec_def)
  have "alternation_spec k (SConcat s cs)"
    unfolding alternation_spec_def
  proof (intro allI impI)
    fix qs qs' v
    assume a: "sq_alternation k qs (SConcat s cs) = Inr qs'" "\<forall>q \<in> set qs. sq_ok v q"
      "s_width (SConcat s cs) < 2 ^ 32 - 1"
    then obtain qc where qc: "sq_concat k [empty_star_query] (SConcat s cs) = Inr qc"
      "qs' = qs @ filter (\<lambda>q. sq_min_length q \<le> k) qc"
      by (auto simp del: sq_concat.simps)
    have r: "eq_upto (unat k) (sqs_lang qc) (s_lang (\<lambda>_. {}) (SConcat s cs))"
      "\<forall>q \<in> set qc. sq_ok (s_width (SConcat s cs)) q"
      using con [unfolded concat_spec_def, rule_format, OF qc(1), of 0] a(3) by auto
    show "eq_upto (unat k) (sqs_lang qs') (sqs_lang qs \<union> s_lang (\<lambda>_. {}) (SConcat s cs))
      \<and> (\<forall>q \<in> set qs'. sq_ok (max v (s_width (SConcat s cs))) q)"
      using eq_upto_Un [OF eq_upto_refl eq_upto_trans [OF sqs_lang_filter [OF r(2)] r(1)]] a(2) r(2) qc(2)
      by (auto intro: sq_ok_mono simp del: s_lang.simps s_width.simps)
  qed
  with con show ?case by blast
next
  case (SAlt s cs)
  have alt: "alternation_spec k (SAlt s cs)"
    using SAlt sq_alternation_children_spec [of k _ cs] by (auto simp: alternation_spec_def)
  have "concat_spec k (SAlt s cs)"
    unfolding concat_spec_def
  proof (intro allI impI)
    fix qs qs' v
    assume a: "sq_concat k qs (SAlt s cs) = Inr qs'" "\<forall>q \<in> set qs. sq_ok v q"
      "v + s_width (SAlt s cs) < 2 ^ 32 - 1"
    define w where "w = s_width (SAlt s cs)"
    obtain qa where qa: "sq_alternation k [] (SAlt s cs) = Inr qa"
      "qs' = (if qa = [] then [] else if length qa = 1 then map (\<lambda>q. sq_append q (qa ! 0)) qs
        else sq_product k qs qa)"
      using a(1) by (auto simp del: sq_alternation.simps)
    have r: "eq_upto (unat k) (sqs_lang qa) (s_lang (\<lambda>_. {}) (SAlt s cs))" "\<forall>q \<in> set qa. sq_ok w q"
      using alt [unfolded alternation_spec_def, rule_format, OF qa(1), of 0] a(3)
      by (auto simp: w_def)
    have vw: "v + w < 2 ^ 32 - 1" using a(3) by (simp add: w_def)
    have p: "eq_upto (unat k) (sqs_lang qs') (conc (sqs_lang qs) (sqs_lang qa)) \<and> (\<forall>q \<in> set qs'. sq_ok (v + w) q)"
    proof -
      consider "qa = []" | q where "qa = [q]" | "qa \<noteq> []" "length qa \<noteq> 1"
        by (auto simp: length_Suc_conv)
      then show ?thesis
      proof cases
        case 2
        then show ?thesis using qa(2) r(2) a(2) sq_ok_append [OF _ _ vw]
          by (auto simp: sqs_lang_map_append)
      next
        case 3
        then show ?thesis
          using qa(2) sq_product_lang [OF a(2) r(2) vw] sq_product_ok [OF a(2) r(2) vw] by simp
      qed (simp add: qa(2))
    qed
    then show "eq_upto (unat k) (sqs_lang qs') (conc (sqs_lang qs) (s_lang (\<lambda>_. {}) (SAlt s cs)))
      \<and> (\<forall>q \<in> set qs'. sq_ok (v + s_width (SAlt s cs)) q)"
      using eq_upto_trans [OF conjunct1 [OF p] eq_upto_conc [OF eq_upto_refl r(1)]] by (simp add: w_def)
  qed
  with alt show ?case by blast
qed

lemma to_star_queries_language:
  assumes "to_star_queries k u = Inr qs" "s_width u < 2 ^ 32 - 1"
  shows "eq_upto (unat k) (sqs_lang qs) (s_lang (\<lambda>_. {}) u)"
    and "\<forall>q \<in> set qs. sq_ok (s_width u) q"
proof -
  have spec: "alternation_spec k u" using conversion_specs by blast
  from spec [unfolded alternation_spec_def, rule_format, of "[]" qs 0] assms
  show "eq_upto (unat k) (sqs_lang qs) (s_lang (\<lambda>_. {}) u)" "\<forall>q \<in> set qs. sq_ok (s_width u) q"
    by (simp_all add: to_star_queries_def)
qed

section \<open>When the conversion throws\<close>

fun has_regex :: "simple_unit \<Rightarrow> bool" where
  "has_regex (SRegex _ _) = True"
| "has_regex (SConcat _ cs) = list_ex has_regex cs"
| "has_regex (SAlt _ cs) = list_ex has_regex cs"
| "has_regex _ = False"

lemma sq_concat_children_Inr:
  "(\<And>c qs. c \<in> set cs \<Longrightarrow> (\<exists>qs'. sq_concat k qs c = Inr qs') \<longleftrightarrow> \<not> has_regex c) \<Longrightarrow>
    (\<exists>qs'. sq_concat_children k qs cs = Inr qs') \<longleftrightarrow> \<not> list_ex has_regex cs"
  by (induction cs arbitrary: qs) (auto, metis+)

lemma sq_alternation_children_Inr:
  "(\<And>c qs. c \<in> set cs \<Longrightarrow> (\<exists>qs'. sq_alternation k qs c = Inr qs') \<longleftrightarrow> \<not> has_regex c) \<Longrightarrow>
    (\<exists>qs'. sq_alternation_children k qs cs = Inr qs') \<longleftrightarrow> \<not> list_ex has_regex cs"
  by (induction cs arbitrary: qs) (auto, metis+)

lemma conversion_Inr:
  "((\<exists>qs'. sq_concat k qs u = Inr qs') \<longleftrightarrow> \<not> has_regex u)
    \<and> ((\<exists>qs'. sq_alternation k qs u = Inr qs') \<longleftrightarrow> \<not> has_regex u)"
proof (induction u arbitrary: qs)
  case (SConcat s cs)
  then have "(\<exists>qs'. sq_concat_children k qs cs = Inr qs') \<longleftrightarrow> \<not> list_ex has_regex cs" for qs
    by (intro sq_concat_children_Inr) blast
  then show ?case by simp
next
  case (SAlt s cs)
  then have "(\<exists>qs'. sq_alternation_children k qs cs = Inr qs') \<longleftrightarrow> \<not> list_ex has_regex cs" for qs
    by (intro sq_alternation_children_Inr) blast
  then show ?case by simp
qed auto

lemma to_star_queries_total: "(\<exists>qs. to_star_queries k u = Inr qs) \<longleftrightarrow> \<not> has_regex u"
  using conversion_Inr by (simp add: to_star_queries_def)

lemma no_regex_lang: "\<not> has_regex u \<Longrightarrow> s_lang R u = s_lang R' u"
proof (induction u)
  case (SConcat s cs)
  then have "map (s_lang R) cs = map (s_lang R') cs" by (auto simp: list_ex_iff)
  then show ?case by (simp only: s_lang.simps)
next
  case (SAlt s cs)
  then have "map (s_lang R) cs = map (s_lang R') cs" by (auto simp: list_ex_iff)
  then show ?case by (simp only: s_lang.simps)
qed auto

section \<open>Properties\<close>

text \<open>
  C9. \<open>StarQueryConverter::to_star_queries\<close> throws exactly when a regex is left in the tree;
  otherwise the star queries accept the phrases of the simple query, up to \<open>max_length\<close> words,
  and each caches its minimum length correctly.
\<close>

theorem star_queries_correct:
  assumes "s_width u < 2 ^ 32 - 1"
  shows "(case to_star_queries k u of
      Inl _ \<Rightarrow> has_regex u
    | Inr qs \<Rightarrow> \<not> has_regex u \<and> eq_upto (unat k) (sqs_lang qs) (s_lang R u)
        \<and> (\<forall>q \<in> set qs. unat (sq_min_length q) = sq_fixed q))"
proof (cases "to_star_queries k u")
  case (Inl e)
  then have "\<nexists>qs. to_star_queries k u = Inr qs" by simp
  then show ?thesis using Inl to_star_queries_total [of k u] by simp
next
  case (Inr qs)
  then have nr: "\<not> has_regex u" using to_star_queries_total [of k u] by blast
  then show ?thesis
    using Inr to_star_queries_language [OF Inr assms] no_regex_lang [OF nr, of "\<lambda>_. {}" R]
    by (simp add: sq_ok_def)
qed

definition ex_simple :: simple_unit where
  "ex_simple = SConcat [] [SWord ''a'' [0], SAlt [] [SStar [1], SWord ''b'' [2]]]"

theorem star_queries_correct_witness:
  "eq_upto 5 (sqs_lang (projr (to_star_queries 5 ex_simple))) (s_lang (\<lambda>_. {}) ex_simple)"
proof -
  have w: "s_width ex_simple < 2 ^ 32 - 1" by (simp add: ex_simple_def)
  have "\<not> has_regex ex_simple" by (simp add: ex_simple_def)
  then show ?thesis
    using star_queries_correct [OF w, of 5 "\<lambda>_. {}"] by (auto split: sum.splits)
qed

end
