(* ===== verification/Chain_Cutter.thy ===== *)
theory Chain_Cutter
  imports Std_Algorithms
begin

text \<open>
  \<open>src/netspeak/util/ChainCutter.hpp\<close>: the iterator over all ways to cut a chain of
  \<open>length\<close> units with \<open>cuts\<close> cuts.  The state is a sequence of zeros (units) and ones
  (cuts), advanced with \<open>std::next_permutation\<close>; \<open>set_output\<close> reads the segment lengths off
  it.  The loop over the cutter yields every composition of the length into \<open>cuts + 1\<close>
  segments exactly once (\<open>chain_segments_set\<close>, \<open>chain_segments_distinct\<close>).
\<close>

record chain_cutter =
  cc_cuts :: nat
  cc_length :: nat
  cc_state :: "nat list"
  cc_output :: "nat list"

text \<open>The loop of \<open>set_output\<close>: the index and the acc it carries, and the output vector.\<close>

fun set_output_loop :: "nat list \<Rightarrow> nat \<Rightarrow> nat \<Rightarrow> nat list \<Rightarrow> nat list" where
  "set_output_loop [] i acc out = out[i := acc]"
| "set_output_loop (s # ss) i acc out =
    (if s = 0 then set_output_loop ss i (acc + 1) out
     else set_output_loop ss (i + 1) 0 (out[i := acc]))"

definition set_output :: "chain_cutter \<Rightarrow> chain_cutter" where
  "set_output c = c\<lparr>cc_output := set_output_loop (cc_state c) 0 0 (cc_output c)\<rparr>"

definition new_cutter :: "nat \<Rightarrow> nat \<Rightarrow> chain_cutter" where
  "new_cutter cuts len = set_output
    \<lparr>cc_cuts = cuts, cc_length = len,
     cc_state = replicate len 0 @ replicate cuts 1,
     cc_output = replicate (cuts + 1) 0\<rparr>"

definition cutter_next :: "chain_cutter \<Rightarrow> bool \<times> chain_cutter" where
  "cutter_next c = (let (n, st) = next_perm (cc_state c) in (n, set_output (c\<lparr>cc_state := st\<rparr>)))"

definition cutter_size :: "chain_cutter \<Rightarrow> u64" where
  "cutter_size c = binomial_u64 (of_nat (cc_cuts c) + of_nat (cc_length c))
     (of_nat (min (cc_cuts c) (cc_length c)))"

text \<open>
  \<open>do { ... cutter.segments() ... } while (cutter.next());\<close>: the segment vectors the body
  of the loop sees.
\<close>

lemma next_perm_step:
  assumes "next_perm xs = (True, ys)"
  shows "{zs. mset zs = mset ys \<and> ys < zs} \<subset> {zs. mset zs = mset xs \<and> xs < zs}"
  using next_perm_mset [OF assms] next_perm_least [OF assms] by auto

lemma cc_state_set_output [simp]: "cc_state (set_output c) = cc_state c"
  by (simp add: set_output_def)

function cutter_loop :: "chain_cutter \<Rightarrow> nat list list" where
  "cutter_loop c =
    cc_output c # (let (n, c') = cutter_next c in if n then cutter_loop c' else [])"
  by auto
termination
proof (relation "measure (\<lambda>c. card {ys. mset ys = mset (cc_state c) \<and> cc_state c < ys})")
  fix c x n c'
  assume "x = cutter_next c" "(n, c') = x" "n"
  then have "next_perm (cc_state c) = (True, cc_state c')"
    by (auto simp: cutter_next_def split: prod.splits)
  from next_perm_step [OF this]
  show "(c', c) \<in> measure (\<lambda>c. card {ys. mset ys = mset (cc_state c) \<and> cc_state c < ys})"
    using finite_subset [OF _ finite_perms [of "cc_state c"]] by (auto intro!: psubset_card_mono)
qed auto

declare cutter_loop.simps [simp del]

definition chain_segments :: "nat \<Rightarrow> nat \<Rightarrow> nat list list" where
  "chain_segments cuts len = cutter_loop (new_cutter cuts len)"

section \<open>The output of a state\<close>

text \<open>The segment lengths as a function of the state alone.\<close>

fun segs :: "nat list \<Rightarrow> nat \<Rightarrow> nat list" where
  "segs [] acc = [acc]"
| "segs (s # ss) acc = (if s = 0 then segs ss (acc + 1) else acc # segs ss 0)"

definition ones :: "nat list \<Rightarrow> nat" where
  "ones st = length (filter (\<lambda>s. s \<noteq> 0) st)"

lemma ones_simps [simp]:
  "ones [] = 0" "ones (s # ss) = (if s = 0 then ones ss else Suc (ones ss))"
  by (simp_all add: ones_def)

lemma length_segs: "length (segs st acc) = ones st + 1"
  by (induction st acc rule: segs.induct) auto

lemma set_output_loop_segs:
  "length out = i + ones st + 1 \<Longrightarrow> set_output_loop st i acc out = take i out @ segs st acc"
proof (induction st i acc out rule: set_output_loop.induct)
  case (1 i acc out)
  then show ?case by (cases out rule: rev_cases) auto
next
  case (2 s ss i acc out)
  then show ?case by (auto simp: take_Suc_conv_app_nth)
qed

lemma ones_mset: "mset st = mset st' \<Longrightarrow> ones st = ones st'"
  unfolding ones_def by (metis mset_filter mset_eq_length)

lemma zeros_mset:
  assumes "mset st = mset st'"
  shows "length (filter (\<lambda>s. s = 0) st) = length (filter (\<lambda>s. s = 0) st')"
  using assms by (metis mset_filter mset_eq_length)

lemma cutter_loop_perms:
  "length (cc_output c) = ones (cc_state c) + 1 \<Longrightarrow> cc_output c = segs (cc_state c) 0 \<Longrightarrow>
     cutter_loop c = map (\<lambda>st. segs st 0) (perms_from (cc_state c))"
proof (induction c rule: cutter_loop.induct)
  case (1 c)
  obtain n st where np: "next_perm (cc_state c) = (n, st)" by force
  then have len: "length (cc_output c) = ones st + 1"
    using "1.prems" ones_mset next_perm_mset by metis
  define c' where "c' = set_output (c\<lparr>cc_state := st\<rparr>)"
  have nx: "cutter_next c = (n, c')"
    by (simp add: cutter_next_def np c'_def)
  have out: "cc_state c' = st" "cc_output c' = segs st 0"
    using len set_output_loop_segs [of "cc_output c" 0 st 0]
    by (auto simp: c'_def set_output_def)
  have "cutter_loop c' = map (\<lambda>st. segs st 0) (perms_from st)" if n
    using "1.IH" [OF nx [symmetric] refl that] out length_segs by simp
  then show ?case
    using "1.prems" np nx
    by (simp add: cutter_loop.simps [of c] perms_from.simps [of "cc_state c"])
qed

section \<open>Compositions and sequences of zeros and ones\<close>

text \<open>The inverse of \<open>segs\<close>: units separated by cuts.\<close>

fun unsegs :: "nat list \<Rightarrow> nat list" where
  "unsegs [] = []"
| "unsegs [n] = replicate n 0"
| "unsegs (n # m # ns) = replicate n 0 @ 1 # unsegs (m # ns)"

lemma segs_replicate: "segs (replicate n 0 @ st) acc = segs st (acc + n)"
  by (induction n arbitrary: acc) auto

lemma segs_unsegs: "ns \<noteq> [] \<Longrightarrow> segs (unsegs ns) 0 = ns"
  by (induction ns rule: unsegs.induct)
    (use segs_replicate [of _ "[]"] in \<open>auto simp: segs_replicate\<close>)

lemma segs_nonempty [simp]: "segs st acc \<noteq> []"
  by (induction st acc rule: segs.induct) auto

lemma unsegs_segs:
  "set st \<subseteq> {0, 1} \<Longrightarrow> unsegs (segs st acc) = replicate acc 0 @ st"
proof (induction st acc rule: segs.induct)
  case (1 acc)
  then show ?case by simp
next
  case (2 s ss acc)
  then show ?case
    by (cases "segs ss 0") (auto simp: replicate_append_same)
qed

lemma sum_segs: "sum_list (segs st acc) = acc + length (filter (\<lambda>s. s = 0) st)"
  by (induction st acc rule: segs.induct) auto

lemma mset_unsegs:
  "ns \<noteq> [] \<Longrightarrow> mset (unsegs ns) = replicate_mset (sum_list ns) 0 + replicate_mset (length ns - 1) 1"
  by (induction ns rule: unsegs.induct) (auto simp: multiset_eq_iff)

lemma perms_of_state:
  "mset st = mset (replicate len 0 @ replicate cuts (1 :: nat)) \<Longrightarrow>
     set st \<subseteq> {0, 1} \<and> ones st = cuts \<and> length (filter (\<lambda>s. s = 0) st) = len"
proof -
  assume m: "mset st = mset (replicate len 0 @ replicate cuts (1 :: nat))"
  have "set st \<subseteq> {0, 1}"
    using mset_eq_setD [OF m] by auto
  moreover have "ones st = cuts"
    using ones_mset [OF m] by (simp add: ones_def)
  moreover have "length (filter (\<lambda>s. s = 0) st) = len"
    using zeros_mset [OF m] by simp
  ultimately show ?thesis by blast
qed

lemma sorted_init: "sorted (replicate len 0 @ replicate cuts (1 :: nat))"
  by (auto simp: sorted_append)

lemma chain_segments_perms:
  "chain_segments cuts len
    = map (\<lambda>st. segs st 0) (perms_from (replicate len 0 @ replicate cuts 1))"
proof -
  define st where "st = replicate len 0 @ replicate cuts (1 :: nat)"
  have "ones st = cuts" by (simp add: st_def ones_def)
  then have "set_output_loop st 0 0 (replicate (cuts + 1) 0) = segs st 0"
    using set_output_loop_segs [of "replicate (cuts + 1) 0" 0 st 0] by simp
  then have "cc_state (new_cutter cuts len) = st" "cc_output (new_cutter cuts len) = segs st 0"
    by (simp_all add: new_cutter_def set_output_def st_def)
  then show ?thesis
    using cutter_loop_perms [of "new_cutter cuts len"] length_segs [of st 0]
    by (simp add: chain_segments_def st_def)
qed

lemma chain_segments_set:
  "set (chain_segments cuts len) = {ns. length ns = cuts + 1 \<and> sum_list ns = len}"
proof (intro set_eqI iffI)
  fix ns assume "ns \<in> set (chain_segments cuts len)"
  then obtain st where "ns = segs st 0" "mset st = mset (replicate len 0 @ replicate cuts 1)"
    using perms_from_all(1) [OF sorted_init [of len cuts]] by (auto simp: chain_segments_perms)
  then show "ns \<in> {ns. length ns = cuts + 1 \<and> sum_list ns = len}"
    using perms_of_state [of st len cuts] by (simp add: length_segs sum_segs)
next
  fix ns :: "nat list" assume ns: "ns \<in> {ns. length ns = cuts + 1 \<and> sum_list ns = len}"
  then have "ns \<noteq> []" by auto
  then have "mset (unsegs ns) = mset (replicate len 0 @ replicate cuts 1)" "segs (unsegs ns) 0 = ns"
    using ns mset_unsegs segs_unsegs by (auto simp: mset_replicate)
  then show "ns \<in> set (chain_segments cuts len)"
    using perms_from_all(1) [OF sorted_init [of len cuts]]
    by (auto simp: chain_segments_perms image_iff intro!: exI [of _ "unsegs ns"])
qed

lemma chain_segments_distinct: "distinct (chain_segments cuts len)"
proof -
  define init where "init = replicate len 0 @ replicate cuts (1 :: nat)"
  have st: "unsegs (segs st 0) = st" if "st \<in> set (perms_from init)" for st
  proof -
    have "mset st = mset init"
      using that perms_from_all(1) [of init] sorted_init [of len cuts] unfolding init_def by auto
    then have "set st \<subseteq> {0, 1}" unfolding init_def using perms_of_state by blast
    then show ?thesis using unsegs_segs [of st 0] by simp
  qed
  then have "inj_on (\<lambda>st. segs st 0) (set (perms_from init))"
    by (rule inj_on_inverseI)
  moreover have "distinct (perms_from init)"
    unfolding init_def by (rule perms_from_all(2) [OF sorted_init])
  ultimately show ?thesis
    unfolding chain_segments_perms init_def [symmetric] by (simp add: distinct_map)
qed

lemma chain_segments_size:
  assumes "(min cuts len) * ((cuts + len) choose (min cuts len)) < 2 ^ 64" "cuts + len < 2 ^ 64"
  shows "unat (cutter_size (new_cutter cuts len)) = (cuts + len) choose cuts"
proof -
  have m: "min cuts len < 2 ^ 64" using assms(2) by simp
  have s: "unat (of_nat (min cuts len) :: u64) = min cuts len"
    "unat (of_nat cuts + of_nat len :: u64) = cuts + len"
    using unat_of_nat_u64 [OF m] unat_of_nat_u64 [OF assms(2)] by simp_all
  have "cc_cuts (new_cutter cuts len) = cuts" "cc_length (new_cutter cuts len) = len"
    by (simp_all add: new_cutter_def set_output_def)
  then have "unat (cutter_size (new_cutter cuts len)) = (cuts + len) choose (min cuts len)"
    using binomial_u64_correct
      [of "of_nat (min cuts len)" "of_nat cuts + of_nat len"] s assms(1)
    by (simp add: cutter_size_def)
  then show ?thesis
    by (cases "cuts \<le> len") (simp_all add: min_def binomial_symmetric [of cuts "cuts + len", simplified])
qed

text \<open>So \<open>size()\<close> announces exactly the number of iterations of the loop.\<close>

lemma card_compositions:
  "card {ns :: nat list. length ns = cuts + 1 \<and> sum_list ns = len} = (cuts + len) choose cuts"
  using card_length_sum_list [of "cuts + 1" len] binomial_symmetric [of cuts "cuts + len"]
  by (simp add: add.commute)

lemma length_chain_segments: "length (chain_segments cuts len) = (cuts + len) choose cuts"
  using distinct_card [OF chain_segments_distinct [of cuts len]] chain_segments_set [of cuts len]
    card_compositions by simp

section \<open>Properties\<close>

text \<open>
  C25. The loop over a \<open>ChainCutter\<close> enumerates every way to write \<open>length\<close> as a sum of
  \<open>cuts + 1\<close> segments, each exactly once, and their number is the binomial coefficient that
  \<open>size()\<close> computes.
\<close>

theorem chain_cutter_enumerates:
  "set (chain_segments cuts len) = {ns. length ns = cuts + 1 \<and> sum_list ns = len}
    \<and> distinct (chain_segments cuts len)
    \<and> length (chain_segments cuts len) = (cuts + len) choose cuts"
  using chain_segments_set chain_segments_distinct length_chain_segments by blast

text \<open>
  \<open>ChainCutter::size()\<close> is the number of iterations of the loop, as long as the products
  inside \<open>util::binomial\<close> fit into 64 bits.
\<close>

theorem chain_cutter_size:
  assumes "min cuts len * ((cuts + len) choose (min cuts len)) < 2 ^ 64" and "cuts + len < 2 ^ 64"
  shows "unat (cutter_size (new_cutter cuts len)) = length (chain_segments cuts len)"
  using chain_segments_size [OF assms] by (simp only: length_chain_segments)

theorem chain_cutter_size_witness:
  "unat (cutter_size (new_cutter 2 4)) = length (chain_segments 2 4)"
proof (rule chain_cutter_size)
  have "6 choose 2 = (15 :: nat)" by code_simp
  then show "min 2 4 * ((2 + 4) choose (min 2 4)) < (2 :: nat) ^ 64" by simp
qed simp

end
