(* ===== verification/Norm_Queries.thy ===== *)
theory Norm_Queries
  imports Star_Queries Chain_Cutter
begin

text \<open>
  \<open>class SimpleQueryNormalizer\<close> of \<open>src/netspeak/QueryNormalizer.cpp\<close> and the options of
  \<open>QueryNormalizer.hpp\<close>: every star query is expanded into norm queries, its stars replaced
  by question marks in every way that keeps the length within \<open>max_length\<close>; the ways are
  enumerated by the chain cutter.

  \<open>norm_loop_language\<close> states exactly which phrases the produced norm queries accept, and
  \<open>norm_loop_error\<close> when the conversion is refused.
\<close>

record norm_options =
  no_max_norm_queries :: u64
  no_min_length :: u32
  no_max_length :: u32
  no_max_regex_matches :: u64
  no_max_regex_time :: int

fun add_simple :: "star_unit list \<Rightarrow> norm_query result" where
  "add_simple [] = Inr []"
| "add_simple (UWord t s # us) = rbind (add_simple us) (\<lambda>nq. Inr (NWord t s # nq))"
| "add_simple (UQMark s # us) = rbind (add_simple us) (\<lambda>nq. Inr (NQMark s # nq))"
| "add_simple (UStar s # us) = Inl (LogicError ''Star is not valid here.'')"

text \<open>The body of the loop over the cuts: \<open>star_i\<close> indexes the segments.\<close>

fun expand_units :: "star_unit list \<Rightarrow> nat \<Rightarrow> nat list \<Rightarrow> norm_query" where
  "expand_units [] star_i segments = []"
| "expand_units (UWord t s # us) star_i segments = NWord t s # expand_units us star_i segments"
| "expand_units (UQMark s # us) star_i segments = NQMark s # expand_units us star_i segments"
| "expand_units (UStar s # us) star_i segments =
    replicate (segments ! star_i) (NQMark s) @ expand_units us (star_i + 1) segments"

definition star_count :: "star_unit list \<Rightarrow> nat" where
  "star_count us = length (filter u_is_star us)"

definition add_with_stars :: "norm_options \<Rightarrow> norm_query list \<Rightarrow> star_query \<Rightarrow> norm_query list" where
  "add_with_stars opts norm_queries q =
    (let available = unat (no_max_length opts - sq_min_length q);
         expansions = map (expand_units (sq_units q) 0)
           (chain_segments (star_count (sq_units q)) available)
     in norm_queries @ filter (\<lambda>nq. length nq \<ge> unat (no_min_length opts)) expansions)"

fun norm_loop :: "norm_options \<Rightarrow> norm_query list \<Rightarrow> star_query list \<Rightarrow> norm_query list result" where
  "norm_loop opts norm_queries [] = Inr norm_queries"
| "norm_loop opts norm_queries (q # qs) =
    rbind
      (let mn = sq_min_length q; mx = sq_max_length q
       in if mn \<le> no_max_length opts \<and> mn \<ge> no_min_length opts then
            (if mn = mx then rbind (add_simple (sq_units q)) (\<lambda>nq. Inr (norm_queries @ [nq]))
             else Inr (add_with_stars opts norm_queries q))
          else Inr norm_queries)
      (\<lambda>norm_queries'.
        if length norm_queries' > unat (no_max_norm_queries opts)
          then Inl (InvalidQuery ''Too many norm queries'')
        else norm_loop opts norm_queries' qs)"

definition to_norm_queries :: "norm_options \<Rightarrow> norm_query list \<Rightarrow> simple_unit \<Rightarrow> norm_query list result" where
  "to_norm_queries opts norm_queries root =
    rbind (to_star_queries (no_max_length opts) root) (norm_loop opts norm_queries)"

section \<open>Expanding the stars\<close>

text \<open>The expansion with the segments consumed one by one instead of indexed.\<close>

fun expand :: "star_unit list \<Rightarrow> nat list \<Rightarrow> norm_query" where
  "expand [] ns = []"
| "expand (UWord t s # us) ns = NWord t s # expand us ns"
| "expand (UQMark s # us) ns = NQMark s # expand us ns"
| "expand (UStar s # us) [] = expand us []"
| "expand (UStar s # us) (n # ns) = replicate n (NQMark s) @ expand us ns"

lemma star_count_simps [simp]:
  "star_count [] = 0" "star_count (u # us) = (if u_is_star u then Suc (star_count us) else star_count us)"
  by (simp_all add: star_count_def)

lemma expand_units_expand:
  "star_i + star_count us \<le> length ns \<Longrightarrow> expand_units us star_i ns = expand us (drop star_i ns)"
proof (induction us star_i ns rule: expand_units.induct)
  case (4 s us star_i ns)
  then have "drop star_i ns = ns ! star_i # drop (Suc star_i) ns"
    by (simp add: Cons_nth_drop_Suc)
  then show ?case using 4 by simp
qed auto

definition fixed_count :: "star_unit list \<Rightarrow> nat" where
  "fixed_count us = length (filter (\<lambda>u. \<not> u_is_star u) us)"

lemma fixed_count_simps [simp]:
  "fixed_count [] = 0" "fixed_count (u # us) = (if u_is_star u then fixed_count us else Suc (fixed_count us))"
  by (simp_all add: fixed_count_def)

lemma length_expand:
  "star_count us \<le> length ns \<Longrightarrow>
    length (expand us ns) = fixed_count us + sum_list (take (star_count us) ns)"
  by (induction us ns rule: expand.induct) auto

lemma n_lang_Nil [simp]: "n_lang [] = {[]}"
  by (auto simp: n_lang_def n_matches_def)

lemma n_lang_Cons: "n_lang (u # us) = conc {[w] | w. n_unit_matches u w} (n_lang us)"
  by (auto simp: n_lang_def n_matches_def conc_def list_all2_Cons1) (metis append_Cons append_Nil)

lemma n_lang_append: "n_lang (us @ vs) = conc (n_lang us) (n_lang vs)"
  by (induction us) (auto simp: n_lang_Cons conc_assoc)

lemma n_lang_qmarks: "n_lang (replicate n (NQMark s)) = {p. length p = n}"
  by (auto simp: n_lang_def n_matches_def list_all2_conv_all_nth)

lemma n_lang_qmark: "n_lang (NQMark s # us) = conc {p. length p = 1} (n_lang us)"
proof -
  have "{[w] | w. n_unit_matches (NQMark s) w} = {p. length p = 1}"
    by (auto simp: length_Suc_conv)
  then show ?thesis by (simp add: n_lang_Cons)
qed

lemma n_lang_word: "n_lang (NWord t s # us) = conc {[t]} (n_lang us)"
proof -
  have "{[w] | w. n_unit_matches (NWord t s) w} = {[t]}" by auto
  then show ?thesis by (simp add: n_lang_Cons)
qed

lemma expand_take: "star_count us \<le> length ns \<Longrightarrow> expand us ns = expand us (take (star_count us) ns)"
  by (induction us ns rule: expand.induct) auto

lemma expand_lang:
  "concs (map u_lang us) = \<Union> {n_lang (expand us ns) | ns. length ns = star_count us}"
proof (induction us)
  case Nil
  then show ?case by auto
next
  case (Cons u us)
  have collect: "\<Union> {conc A (n_lang (expand us ns)) | ns. length ns = star_count us}
      = conc A (concs (map u_lang us))" for A
    unfolding Cons.IH by (auto simp: conc_def)
  show ?case
  proof (cases u)
    case (UWord t s)
    then show ?thesis using collect [of "{[t]}"] by (simp add: n_lang_word)
  next
    case (UQMark s)
    then show ?thesis using collect [of "{p. length p = 1}"] by (simp add: n_lang_qmark)
  next
    case (UStar s)
    have "\<Union> {n_lang (expand (u # us) ns) | ns. length ns = star_count (u # us)}
        = \<Union> {conc {p. length p = n} (n_lang (expand us ns)) | n ns. length ns = star_count us}"
      using UStar by (fastforce simp: length_Suc_conv n_lang_append n_lang_qmarks)
    also have "\<dots> = conc UNIV (concs (map u_lang us))"
      unfolding Cons.IH by (auto simp: conc_def)
    finally show ?thesis using UStar by simp
  qed
qed

lemma sum_list_take_le: "sum_list (take n ns) \<le> (sum_list ns :: nat)"
  by (metis append_take_drop_id le_add1 sum_list_append)

section \<open>The norm queries of one star query\<close>

lemma add_simple_expand:
  "add_simple us = (if star_count us = 0 then Inr (expand us [])
     else Inl (LogicError ''Star is not valid here.''))"
  by (induction us rule: add_simple.induct) auto

lemma sq_max_loop_star: "star_count us \<noteq> 0 \<Longrightarrow> sq_max_loop mx us = UINT32_MAX"
  by (induction us arbitrary: mx) auto

lemma sq_max_loop_fixed: "star_count us = 0 \<Longrightarrow> sq_max_loop mx us = mx + of_nat (fixed_count us)"
  by (induction us arbitrary: mx) (auto simp: add.assoc)

lemma sq_fixed_count: "sq_fixed q = fixed_count (sq_units q)"
  by (simp add: sq_fixed_def fixed_count_def)

lemma sq_min_max:
  assumes "sq_ok w q" "w < 2 ^ 32 - 1"
  shows "sq_min_length q = sq_max_length q \<longleftrightarrow> star_count (sq_units q) = 0"
proof (cases "star_count (sq_units q) = 0")
  case True
  have f: "fixed_count (sq_units q) < 2 ^ 32" using assms by (simp add: sq_ok_def sq_fixed_count)
  have "unat (sq_min_length q) = unat (of_nat (fixed_count (sq_units q)) :: u32)"
    using assms unat_of_nat_u32 [OF f] by (simp add: sq_ok_def sq_fixed_count)
  then have "sq_min_length q = of_nat (fixed_count (sq_units q))" by (simp only: word_unat_eq_iff)
  then show ?thesis using True by (simp add: sq_max_length_def sq_max_loop_fixed)
next
  case False
  have "unat (sq_min_length q) < 2 ^ 32 - 1" using assms by (simp add: sq_ok_def)
  then have "sq_min_length q \<noteq> UINT32_MAX" using unat_UINT32_MAX by (metis less_irrefl)
  then show ?thesis using False by (simp add: sq_max_length_def sq_max_loop_star)
qed

text \<open>The norm queries a star query contributes.\<close>

definition sq_norms :: "norm_options \<Rightarrow> star_query \<Rightarrow> norm_query list" where
  "sq_norms opts q =
    (if sq_min_length q \<le> no_max_length opts \<and> no_min_length opts \<le> sq_min_length q then
       (if star_count (sq_units q) = 0 then [expand (sq_units q) []] else add_with_stars opts [] q)
     else [])"

lemma add_with_stars_append:
  "add_with_stars opts nqs q = nqs @ add_with_stars opts [] q"
  by (simp add: add_with_stars_def Let_def)

lemma norm_loop_step:
  assumes "sq_ok w q" "w < 2 ^ 32 - 1"
  shows "norm_loop opts nqs (q # qs) =
    (if length (nqs @ sq_norms opts q) > unat (no_max_norm_queries opts)
     then Inl (InvalidQuery ''Too many norm queries'')
     else norm_loop opts (nqs @ sq_norms opts q) qs)"
  using sq_min_max [OF assms] add_with_stars_append [of opts nqs q]
  by (simp add: sq_norms_def Let_def add_simple_expand)

lemma norm_loop_eq:
  assumes "\<forall>q \<in> set qs. sq_ok w q" "w < 2 ^ 32 - 1"
  shows "norm_loop opts nqs qs =
    (if qs \<noteq> [] \<and> length (nqs @ concat (map (sq_norms opts) qs)) > unat (no_max_norm_queries opts)
     then Inl (InvalidQuery ''Too many norm queries'')
     else Inr (nqs @ concat (map (sq_norms opts) qs)))"
  using assms(1)
proof (induction qs arbitrary: nqs)
  case (Cons q qs)
  have "norm_loop opts nqs (q # qs) =
    (if length (nqs @ sq_norms opts q) > unat (no_max_norm_queries opts)
     then Inl (InvalidQuery ''Too many norm queries'')
     else norm_loop opts (nqs @ sq_norms opts q) qs)"
    by (rule norm_loop_step [OF _ assms(2)]) (use Cons.prems in simp)
  then show ?case using Cons.IH [of "nqs @ sq_norms opts q"] Cons.prems by auto
qed simp

lemma expansions_lang:
  assumes "fixed_count us \<le> k"
  shows "\<Union> {n_lang (expand_units us 0 ns) | ns. ns \<in> set (chain_segments (star_count us) (k - fixed_count us))}
    = {p \<in> concs (map u_lang us). length p \<le> k}"
proof (intro set_eqI iffI)
  fix p assume "p \<in> \<Union> {n_lang (expand_units us 0 ns) | ns.
      ns \<in> set (chain_segments (star_count us) (k - fixed_count us))}"
  then obtain ns where ns: "length ns = star_count us + 1" "sum_list ns = k - fixed_count us"
    "p \<in> n_lang (expand_units us 0 ns)"
    by (auto simp: chain_segments_set)
  have e: "expand_units us 0 ns = expand us (take (star_count us) ns)"
    using ns(1) expand_units_expand [of 0 us ns] by (simp add: expand_take [symmetric])
  have "sum_list (take (star_count us) ns) \<le> sum_list ns"
    by (rule sum_list_take_le)
  then have "length p \<le> k"
    using n_lang_length [OF ns(3)] e length_expand [of us "take (star_count us) ns"] ns(1,2) assms by simp
  moreover have "length (take (star_count us) ns) = star_count us" using ns(1) by simp
  then have "p \<in> concs (map u_lang us)"
    using ns(3) unfolding expand_lang e by blast
  ultimately show "p \<in> {p \<in> concs (map u_lang us). length p \<le> k}" by simp
next
  fix p assume "p \<in> {p \<in> concs (map u_lang us). length p \<le> k}"
  then obtain ns where ns: "length ns = star_count us" "p \<in> n_lang (expand us ns)" "length p \<le> k"
    unfolding expand_lang by auto
  define ms where "ms = ns @ [k - fixed_count us - sum_list ns]"
  have "length p = fixed_count us + sum_list ns"
    using n_lang_length [OF ns(2)] length_expand [of us ns] ns(1) by simp
  then have "ms \<in> set (chain_segments (star_count us) (k - fixed_count us))"
    using ns(1,3) by (simp add: chain_segments_set ms_def)
  moreover have "expand_units us 0 ms = expand us ns"
  proof -
    have "expand_units us 0 ms = expand us ms"
      using expand_units_expand [of 0 us ms] ns(1) by (simp add: ms_def)
    also have "\<dots> = expand us (take (star_count us) ms)"
      by (rule expand_take) (simp add: ms_def ns(1))
    also have "take (star_count us) ms = ns" by (simp add: ms_def ns(1))
    finally show ?thesis .
  qed
  ultimately have "n_lang (expand us ns) \<in> {n_lang (expand_units us 0 ns) | ns.
      ns \<in> set (chain_segments (star_count us) (k - fixed_count us))}"
    by (intro CollectI exI [of _ ms] conjI) simp_all
  then show "p \<in> \<Union> {n_lang (expand_units us 0 ns) | ns.
      ns \<in> set (chain_segments (star_count us) (k - fixed_count us))}"
    using ns(2) by (rule UnionI)
qed

lemma expansion_length:
  assumes "ns \<in> set (chain_segments (star_count us) (k - fixed_count us))" "fixed_count us \<le> k"
  shows "fixed_count us \<le> length (expand_units us 0 ns) \<and> length (expand_units us 0 ns) \<le> k"
proof -
  have ns: "length ns = star_count us + 1" "sum_list ns = k - fixed_count us"
    using assms by (auto simp: chain_segments_set)
  have "sum_list (take (star_count us) ns) \<le> sum_list ns"
    by (rule sum_list_take_le)
  then show ?thesis
    using ns expand_units_expand [of 0 us ns] length_expand [of us ns] assms(2) by simp
qed

text \<open>
  Exactly the phrases of at most \<open>max_length\<close> words; but only of the star queries whose own
  minimum length reaches \<open>min_length\<close>.
\<close>

lemma sq_norms_facts:
  assumes "sq_ok w q"
  shows "\<Union> (set (map n_lang (sq_norms opts q)))
      = (if no_min_length opts \<le> sq_min_length q
         then {p \<in> sq_lang q. length p \<le> unat (no_max_length opts)} else {})"
    and "\<forall>nq \<in> set (sq_norms opts q).
      unat (no_min_length opts) \<le> length nq \<and> length nq \<le> unat (no_max_length opts)"
proof -
  define us where "us = sq_units q"
  define k where "k = unat (no_max_length opts)"
  have f: "unat (sq_min_length q) = fixed_count us"
    using assms by (simp add: sq_ok_def sq_fixed_count us_def)
  have lang: "sq_lang q = concs (map u_lang us)" by (simp add: sq_lang_def us_def)
  have le: "sq_min_length q \<le> no_max_length opts \<longleftrightarrow> fixed_count us \<le> k"
    by (simp add: word_le_nat_alt f k_def)
  have avail: "unat (no_max_length opts - sq_min_length q) = k - fixed_count us" if "fixed_count us \<le> k"
    using that le f by (simp add: unat_sub k_def)
  have short: "fixed_count us \<le> length p" if "p \<in> sq_lang q" for p
    using sq_lang_length [OF that] by (simp add: sq_fixed_count us_def)
  have mn: "no_min_length opts \<le> sq_min_length q \<longleftrightarrow> unat (no_min_length opts) \<le> fixed_count us"
    by (simp add: word_le_nat_alt f)
  have stars: "set (add_with_stars opts [] q)
      = expand_units us 0 ` set (chain_segments (star_count us) (k - fixed_count us))"
    if "fixed_count us \<le> k" "no_min_length opts \<le> sq_min_length q"
    using that avail expansion_length [of _ us k] mn order.trans
    by (fastforce simp: add_with_stars_def us_def [symmetric])
  have simple: "n_lang (expand us []) = concs (map u_lang us)" if "star_count us = 0"
    using expand_lang [of us] that by simp
  have slen: "length (expand us []) = fixed_count us" if "star_count us = 0"
    using length_expand [of us "[]"] that by simp
  show "\<Union> (set (map n_lang (sq_norms opts q)))
      = (if no_min_length opts \<le> sq_min_length q
         then {p \<in> sq_lang q. length p \<le> unat (no_max_length opts)} else {})"
  proof (cases "fixed_count us \<le> k \<and> no_min_length opts \<le> sq_min_length q")
    case True
    then have b: "fixed_count us \<le> k" "no_min_length opts \<le> sq_min_length q" by auto
    show ?thesis
    proof (cases "star_count us = 0")
      case z: True
      have "length p \<le> k" if "p \<in> n_lang (expand us [])" for p
        using n_lang_length [OF that] slen [OF z] b(1) by simp
      then show ?thesis
        using b le z lang simple [OF z] by (auto simp: sq_norms_def us_def [symmetric] k_def)
    next
      case False
      have "\<Union> (set (map n_lang (sq_norms opts q)))
          = \<Union> {n_lang (expand_units us 0 ns) | ns. ns \<in> set (chain_segments (star_count us) (k - fixed_count us))}"
        using b le False stars [OF b] by (auto simp: sq_norms_def us_def [symmetric])
      then show ?thesis using b expansions_lang [OF b(1)] lang by (simp add: k_def)
    qed
  next
    case False
    have "sq_norms opts q = []" using False le by (auto simp: sq_norms_def)
    moreover have "{p \<in> sq_lang q. length p \<le> k} = {}" if "\<not> fixed_count us \<le> k"
      using short that by fastforce
    ultimately show ?thesis using False by (auto simp: k_def)
  qed
  show "\<forall>nq \<in> set (sq_norms opts q).
      unat (no_min_length opts) \<le> length nq \<and> length nq \<le> unat (no_max_length opts)"
  proof
    fix nq assume nq: "nq \<in> set (sq_norms opts q)"
    then have b: "fixed_count us \<le> k" "no_min_length opts \<le> sq_min_length q"
      using le by (auto simp: sq_norms_def split: if_splits)
    have "fixed_count us \<le> length nq \<and> length nq \<le> k"
    proof (cases "star_count us = 0")
      case True
      then have "nq = expand us []"
        using nq by (simp add: sq_norms_def us_def [symmetric] split: if_splits)
      then show ?thesis using slen [OF True] b(1) by simp
    next
      case False
      then have "nq \<in> set (add_with_stars opts [] q)"
        using nq by (simp add: sq_norms_def us_def [symmetric] split: if_splits)
      then show ?thesis using stars [OF b] expansion_length [OF _ b(1)] by auto
    qed
    then show "unat (no_min_length opts) \<le> length nq \<and> length nq \<le> unat (no_max_length opts)"
      using b(2) mn by (simp add: k_def)
  qed
qed

section \<open>All norm queries\<close>

lemma norm_loop_language:
  assumes "norm_loop opts [] qs = Inr nqs" "\<forall>q \<in> set qs. sq_ok w q" "w < 2 ^ 32 - 1"
  shows "\<Union> (set (map n_lang nqs)) = \<Union> {{p \<in> sq_lang q. length p \<le> unat (no_max_length opts)} | q.
      q \<in> set qs \<and> no_min_length opts \<le> sq_min_length q}"
    and "\<forall>nq \<in> set nqs.
      unat (no_min_length opts) \<le> length nq \<and> length nq \<le> unat (no_max_length opts)"
    and "qs \<noteq> [] \<Longrightarrow> length nqs \<le> unat (no_max_norm_queries opts)"
proof -
  have nqs: "nqs = concat (map (sq_norms opts) qs)"
    "qs \<noteq> [] \<Longrightarrow> length nqs \<le> unat (no_max_norm_queries opts)"
    using norm_loop_eq [OF assms(2,3), of opts "[]"] assms(1) by (auto split: if_splits)
  have "\<Union> (set (map n_lang nqs)) = \<Union> ((\<lambda>q. \<Union> (set (map n_lang (sq_norms opts q)))) ` set qs)"
    unfolding nqs(1) by auto
  also have "\<dots> = \<Union> ((\<lambda>q. if no_min_length opts \<le> sq_min_length q
         then {p \<in> sq_lang q. length p \<le> unat (no_max_length opts)} else {}) ` set qs)"
    using sq_norms_facts(1) [of w _ opts] assms(2) by (intro arg_cong [where f = Union] image_cong) auto
  also have "\<dots> = \<Union> {{p \<in> sq_lang q. length p \<le> unat (no_max_length opts)} | q.
      q \<in> set qs \<and> no_min_length opts \<le> sq_min_length q}"
    by auto
  finally show "\<Union> (set (map n_lang nqs)) = \<Union> {{p \<in> sq_lang q. length p \<le> unat (no_max_length opts)} | q.
      q \<in> set qs \<and> no_min_length opts \<le> sq_min_length q}" .
  show "\<forall>nq \<in> set nqs.
      unat (no_min_length opts) \<le> length nq \<and> length nq \<le> unat (no_max_length opts)"
    using sq_norms_facts(2) [of w _ opts] assms(2) unfolding nqs(1) by auto
  show "qs \<noteq> [] \<Longrightarrow> length nqs \<le> unat (no_max_norm_queries opts)" by (rule nqs(2))
qed

section \<open>Sources of the units\<close>

text \<open>
  Every unit of a norm query points to a unit of the parse tree that a word or question mark
  can come from: what \<open>to_tag\<close> of the service relies on.
\<close>

fun n_origin_ok :: "qunit \<Rightarrow> norm_unit \<Rightarrow> bool" where
  "n_origin_ok q (NWord t s) = (case q_at q s of
      Some (QWord _) \<Rightarrow> True | Some (QDictSet _) \<Rightarrow> True | Some (QRegex _) \<Rightarrow> True | _ \<Rightarrow> False)"
| "n_origin_ok q (NQMark s) = (case q_at q s of
      Some (QQMark _) \<Rightarrow> True | Some (QStar _) \<Rightarrow> True | Some (QPlus _) \<Rightarrow> True | _ \<Rightarrow> False)"

fun u_origin_ok :: "qunit \<Rightarrow> star_unit \<Rightarrow> bool" where
  "u_origin_ok q (UWord t s) = (case q_at q s of
      Some (QWord _) \<Rightarrow> True | Some (QDictSet _) \<Rightarrow> True | Some (QRegex _) \<Rightarrow> True | _ \<Rightarrow> False)"
| "u_origin_ok q (UQMark s) = (case q_at q s of
      Some (QQMark _) \<Rightarrow> True | Some (QStar _) \<Rightarrow> True | Some (QPlus _) \<Rightarrow> True | _ \<Rightarrow> False)"
| "u_origin_ok q (UStar s) = (case q_at q s of
      Some (QQMark _) \<Rightarrow> True | Some (QStar _) \<Rightarrow> True | Some (QPlus _) \<Rightarrow> True | _ \<Rightarrow> False)"

fun t_origin_ok :: "qunit \<Rightarrow> simple_unit \<Rightarrow> bool" where
  "t_origin_ok q (SWord t s) = u_origin_ok q (UWord t s)"
| "t_origin_ok q (SQMark s) = u_origin_ok q (UQMark s)"
| "t_origin_ok q (SStar s) = u_origin_ok q (UStar s)"
| "t_origin_ok q (SRegex t s) = (case q_at q s of Some (QRegex _) \<Rightarrow> True | _ \<Rightarrow> False)"
| "t_origin_ok q (SConcat s cs) = list_all (t_origin_ok q) cs"
| "t_origin_ok q (SAlt s cs) = list_all (t_origin_ok q) cs"

definition sq_origins_ok :: "qunit \<Rightarrow> star_query list \<Rightarrow> bool" where
  "sq_origins_ok q qs \<longleftrightarrow> (\<forall>sq \<in> set qs. \<forall>u \<in> set (sq_units sq). u_origin_ok q u)"

lemma sq_units_simps [simp]:
  "sq_units empty_star_query = []"
  "sq_units (sq_push_back u q) = sq_units q @ [u]"
  "sq_units (sq_append q r) = sq_units q @ sq_units r"
  by (simp_all add: empty_star_query_def sq_push_back_def sq_append_def Let_def)

lemma sq_product_origins:
  "sq_origins_ok q qs \<Longrightarrow> sq_origins_ok q rs \<Longrightarrow> sq_origins_ok q (sq_product k qs rs)"
  unfolding sq_origins_ok_def sq_product_def by (auto split: if_splits)

lemma conversion_origins:
  "sq_concat k qs u = Inr qs1 \<Longrightarrow> t_origin_ok q u \<Longrightarrow> sq_origins_ok q qs \<Longrightarrow> sq_origins_ok q qs1"
  "sq_concat_children k qs cs = Inr qs2 \<Longrightarrow> list_all (t_origin_ok q) cs \<Longrightarrow> sq_origins_ok q qs \<Longrightarrow>
    sq_origins_ok q qs2"
  "sq_alternation k qs u = Inr qs3 \<Longrightarrow> t_origin_ok q u \<Longrightarrow> sq_origins_ok q qs \<Longrightarrow> sq_origins_ok q qs3"
  "sq_alternation_children k qs cs = Inr qs4 \<Longrightarrow> list_all (t_origin_ok q) cs \<Longrightarrow> sq_origins_ok q qs \<Longrightarrow>
    sq_origins_ok q qs4"
proof (induction k qs u and k qs cs and k qs u and k qs cs arbitrary: qs1 and qs2 and qs3 and qs4
    rule: sq_concat_sq_concat_children_sq_alternation_sq_alternation_children.induct)
  case (5 k queries s cs)
  then obtain alt where a: "sq_alternation k [] (SAlt s cs) = Inr alt"
    "qs1 = (if alt = [] then [] else if length alt = 1 then map (\<lambda>q. sq_append q (alt ! 0)) queries
       else sq_product k queries alt)" by auto
  have alt: "sq_origins_ok q alt"
    by (rule "5.IH" [OF a(1)]) (use 5 in \<open>auto simp: sq_origins_ok_def\<close>)
  then show ?case
    using a(2) "5.prems"(3) sq_product_origins [OF "5.prems"(3) alt]
    by (auto simp: length_Suc_conv) (auto simp: sq_origins_ok_def)
next
  case (14 k queries s cs)
  then obtain con where c: "sq_concat k [empty_star_query] (SConcat s cs) = Inr con"
    "qs3 = queries @ filter (\<lambda>q. sq_min_length q \<le> k) con" by auto
  have "sq_origins_ok q con"
    by (rule "14.IH" [OF c(1)]) (use 14 in \<open>auto simp: sq_origins_ok_def\<close>)
  then show ?case using c(2) "14.prems"(3) by (auto simp: sq_origins_ok_def)
qed (fastforce simp: sq_origins_ok_def)+

lemma expand_origins:
  "\<forall>u \<in> set us. u_origin_ok q u \<Longrightarrow> \<forall>u \<in> set (expand us ns). n_origin_ok q u"
  by (induction us ns rule: expand.induct) auto

lemma expand_units_origins:
  "\<forall>u \<in> set us. u_origin_ok q u \<Longrightarrow> \<forall>u \<in> set (expand_units us i ns). n_origin_ok q u"
  by (induction us i ns rule: expand_units.induct) auto

lemma sq_norms_origins:
  assumes "\<forall>u \<in> set (sq_units sq). u_origin_ok q u" "nq \<in> set (sq_norms opts sq)"
  shows "\<forall>u \<in> set nq. n_origin_ok q u"
  using assms expand_origins [OF assms(1), of "[]"] expand_units_origins [OF assms(1)]
  by (auto simp: sq_norms_def add_with_stars_def Let_def split: if_splits)

section \<open>Properties\<close>

text \<open>
  C10. \<open>SimpleQueryNormalizer::to_norm_queries\<close> on a tree without regexes either throws "Too many
  norm queries" or returns norm queries whose lengths are within the options and which accept
  exactly the phrases of at most \<open>max_length\<close> words of those star queries whose own minimum
  length is at least \<open>min_length\<close>.
\<close>

theorem norm_queries_exact:
  assumes "to_star_queries (no_max_length opts) u = Inr qs" and "s_width u < 2 ^ 32 - 1"
  shows "(case to_norm_queries opts [] u of
      Inl e \<Rightarrow> e = InvalidQuery ''Too many norm queries''
    | Inr nqs \<Rightarrow>
        \<Union> (set (map n_lang nqs)) = \<Union> {{p \<in> sq_lang q. length p \<le> unat (no_max_length opts)} | q.
          q \<in> set qs \<and> no_min_length opts \<le> sq_min_length q}
        \<and> (\<forall>nq \<in> set nqs. unat (no_min_length opts) \<le> length nq \<and> length nq \<le> unat (no_max_length opts))
        \<and> length nqs \<le> unat (no_max_norm_queries opts))"
proof -
  have ok: "\<forall>q \<in> set qs. sq_ok (s_width u) q" by (rule to_star_queries_language(2) [OF assms])
  have run: "to_norm_queries opts [] u = norm_loop opts [] qs"
    using assms(1) by (simp add: to_norm_queries_def)
  show ?thesis
  proof (cases "norm_loop opts [] qs")
    case (Inl e)
    then show ?thesis using norm_loop_eq [OF ok assms(2), of opts "[]"] run by (auto split: if_splits)
  next
    case (Inr nqs)
    have "length nqs \<le> unat (no_max_norm_queries opts)"
      using norm_loop_language(3) [OF Inr ok assms(2)] Inr by (cases qs) auto
    then show ?thesis using norm_loop_language(1,2) [OF Inr ok assms(2)] Inr run by simp
  qed
qed

definition ex_star_tree :: simple_unit where
  "ex_star_tree = SAlt [] [SConcat [0] [SWord ''foo'' [0, 0], SStar [0, 1], SWord ''bar'' [0, 2]]]"

definition ex_star_opts :: norm_options where
  "ex_star_opts = \<lparr>no_max_norm_queries = 10, no_min_length = 1, no_max_length = 4,
    no_max_regex_matches = 0, no_max_regex_time = 0\<rparr>"

definition ex_star_queries :: "star_query list" where
  "ex_star_queries = [\<lparr>sq_units = [UWord ''foo'' [0, 0], UStar [0, 1], UWord ''bar'' [0, 2]],
    sq_min_length = 2\<rparr>]"

definition ex_star_norms :: "norm_query list" where
  "ex_star_norms = [[NWord ''foo'' [0, 0], NQMark [0, 1], NQMark [0, 1], NWord ''bar'' [0, 2]],
    [NWord ''foo'' [0, 0], NQMark [0, 1], NWord ''bar'' [0, 2]],
    [NWord ''foo'' [0, 0], NWord ''bar'' [0, 2]]]"

theorem norm_queries_exact_witness:
  "\<Union> (set (map n_lang ex_star_norms))
    = \<Union> {{p \<in> sq_lang q. length p \<le> unat (no_max_length ex_star_opts)} | q.
        q \<in> set ex_star_queries \<and> no_min_length ex_star_opts \<le> sq_min_length q}"
proof -
  have 1: "to_star_queries (no_max_length ex_star_opts) ex_star_tree = Inr ex_star_queries"
    by code_simp
  have 2: "s_width ex_star_tree < 2 ^ 32 - 1" by (simp add: ex_star_tree_def)
  have 3: "to_norm_queries ex_star_opts [] ex_star_tree = Inr ex_star_norms" by code_simp
  show ?thesis using norm_queries_exact [OF 1 2] 3 by simp
qed

end
