(* ===== verification/Norm_Estimate.thy ===== *)
theory Norm_Estimate
  imports Norm_Queries
begin

text \<open>
  \<open>struct MinLengthMargin\<close>, \<open>struct NormQueryCounter\<close> and \<open>binary_search\<close> of
  \<open>src/netspeak/QueryNormalizer.cpp\<close>: the estimate of the number of norm queries as a
  function of the number of words each regex is replaced with, on saturating 64 bit
  arithmetic, and the search for the largest number of words within the budget.

  \<open>safe_add\<close> saturates exactly; \<open>safe_mult\<close> detects only some wrap-arounds
  (\<open>safe_mult_undetected\<close>).  \<open>estimate_exact_or_max\<close> relates the estimate to its value in
  unbounded arithmetic.
\<close>

record margin =
  mg_before :: u32
  mg_after :: u32

definition mg_total :: "margin \<Rightarrow> u32" where
  "mg_total m = mg_before m + mg_after m"

definition mg_add :: "margin \<Rightarrow> margin \<Rightarrow> margin" where
  "mg_add lhs rhs = \<lparr>mg_before = mg_before lhs + mg_before rhs, mg_after = mg_after lhs + mg_after rhs\<rparr>"

section \<open>\<open>UnitResult\<close>\<close>

datatype unit_result =
    Constant u64
  | Func "u64 \<Rightarrow> u64"

fun ur_eval :: "unit_result \<Rightarrow> u64 \<Rightarrow> u64" where
  "ur_eval (Constant c) _ = c"
| "ur_eval (Func f) m = f m"

definition safe_add :: "u64 \<Rightarrow> u64 \<Rightarrow> u64" where
  "safe_add a b = (let s = a + b in if s < a then UINT64_MAX else s)"

definition safe_mult :: "u64 \<Rightarrow> u64 \<Rightarrow> u64" where
  "safe_mult a b = (let p = a * b in if p < a \<or> p < b then UINT64_MAX else p)"

fun ur_add :: "unit_result \<Rightarrow> unit_result \<Rightarrow> unit_result" where
  "ur_add (Constant a) (Constant b) =
    (if a = UINT64_MAX then Constant UINT64_MAX
     else if b = UINT64_MAX then Constant UINT64_MAX
     else Constant (safe_add a b))"
| "ur_add (Constant a) (Func g) =
    (if a = UINT64_MAX then Constant UINT64_MAX else Func (\<lambda>input. safe_add a (g input)))"
| "ur_add (Func f) (Constant b) =
    (if b = UINT64_MAX then Constant UINT64_MAX else Func (\<lambda>input. safe_add b (f input)))"
| "ur_add (Func f) (Func g) = Func (\<lambda>input. safe_add (f input) (g input))"

fun ur_mult :: "unit_result \<Rightarrow> unit_result \<Rightarrow> unit_result" where
  "ur_mult (Constant a) (Constant b) =
    (if a = 0 then Constant 0
     else if b = 0 then Constant 0
     else if a = UINT64_MAX then Constant UINT64_MAX
     else if b = UINT64_MAX then Constant UINT64_MAX
     else Constant (safe_mult a b))"
| "ur_mult (Constant a) (Func g) =
    (if a = 0 then Constant 0
     else if a = UINT64_MAX then Constant UINT64_MAX
     else Func (\<lambda>input. safe_mult a (g input)))"
| "ur_mult (Func f) (Constant b) =
    (if b = 0 then Constant 0
     else if b = UINT64_MAX then Constant UINT64_MAX
     else Func (\<lambda>input. safe_mult b (f input)))"
| "ur_mult (Func f) (Func g) = Func (\<lambda>input. safe_mult (f input) (g input))"

section \<open>\<open>estimate_impl\<close>\<close>

text \<open>The first loop over the children of a concatenation, with its early return.\<close>

fun concat_min_lengths :: "simple_unit list \<Rightarrow> u32 \<Rightarrow> u32 list \<Rightarrow> (u32 \<times> u32 list) option" where
  "concat_min_lengths [] uint_min_length min_lengths = Some (uint_min_length, min_lengths)"
| "concat_min_lengths (c # cs) uint_min_length min_lengths =
    (let min_len = s_min_length c
     in if min_len = UINT32_MAX then None
        else concat_min_lengths cs (uint_min_length + min_len) (min_lengths @ [min_len]))"

fun estimate_impl :: "u32 \<Rightarrow> simple_unit \<Rightarrow> margin \<Rightarrow> unit_result"
  and estimate_alternation :: "u32 \<Rightarrow> simple_unit list \<Rightarrow> margin \<Rightarrow> unit_result \<Rightarrow> unit_result"
  and estimate_concat ::
    "u32 \<Rightarrow> simple_unit list \<Rightarrow> u32 list \<Rightarrow> margin \<Rightarrow> u32 \<Rightarrow> u32 \<Rightarrow> unit_result \<Rightarrow> unit_result" where
  "estimate_impl max_length (SWord _ _) margin = Constant 1"
| "estimate_impl max_length (SQMark _) margin = Constant 1"
| "estimate_impl max_length (SStar _) margin =
    Constant (1 + ucast (max 0 (max_length - mg_total margin)))"
| "estimate_impl max_length (SRegex _ _) margin = Func (\<lambda>input. input)"
| "estimate_impl max_length (SAlt _ cs) margin =
    estimate_alternation max_length cs margin (Constant 0)"
| "estimate_impl max_length (SConcat _ cs) margin =
    (case concat_min_lengths cs 0 [] of
       None \<Rightarrow> Constant 0
     | Some (uint_min_length, min_lengths) \<Rightarrow>
         estimate_concat max_length cs min_lengths margin uint_min_length 0 (Constant 1))"
| "estimate_alternation max_length [] margin acc = acc"
| "estimate_alternation max_length (c # cs) margin acc =
    estimate_alternation max_length cs margin (ur_add acc (estimate_impl max_length c margin))"
| "estimate_concat max_length [] min_lengths margin uint_min_length min_before acc = acc"
| "estimate_concat max_length (c # cs) min_lengths margin uint_min_length min_before acc =
    (let child_min = hd min_lengths;
         min_after = uint_min_length - min_before - child_min;
         c_num = estimate_impl max_length c
           (mg_add margin \<lparr>mg_before = min_before, mg_after = min_after\<rparr>)
     in if c_num = Constant UINT64_MAX then Constant UINT64_MAX
        else if c_num = Constant 0 then Constant 0
        else estimate_concat max_length cs (tl min_lengths) margin uint_min_length
               (min_before + child_min) (ur_mult acc c_num))"

definition estimate :: "u32 \<Rightarrow> simple_unit \<Rightarrow> u64 \<Rightarrow> u64" where
  "estimate max_length root =
    ur_eval (estimate_impl max_length root \<lparr>mg_before = 0, mg_after = 0\<rparr>)"

section \<open>\<open>binary_search\<close>\<close>

text \<open>
  The comparer returns the sign of \<open>estimate - budget\<close>; the loop ends because the interval
  shrinks, whatever the comparer does.
\<close>

function bsearch :: "u64 \<Rightarrow> u64 \<Rightarrow> (u64 \<Rightarrow> int) \<Rightarrow> u64" where
  "bsearch mn mx comparer =
    (if mn < mx then
       (let m = mn + drop_bit 1 (mx - mn) + 1;
            cmp = comparer m
        in if cmp = 0 then m
           else if cmp < 0 then bsearch m mx comparer
           else bsearch mn (m - 1) comparer)
     else mn)"
  by auto

lemma bsearch_mid:
  assumes "mn < mx"
  shows "unat (mn + drop_bit 1 (mx - mn) + 1 :: u64) = unat mn + (unat mx - unat mn) div 2 + 1"
    and "unat mn + (unat mx - unat mn) div 2 + 1 \<le> unat mx"
proof -
  have lt: "unat mn < unat mx" using assms by (simp add: word_less_nat_alt)
  then show le: "unat mn + (unat mx - unat mn) div 2 + 1 \<le> unat mx" by linarith
  have mx: "unat mx < 2 ^ 64" by (rule unat_u64_less)
  have d: "unat (drop_bit 1 (mx - mn)) = (unat mx - unat mn) div 2"
    using assms by (simp add: drop_bit_eq_div unat_div unat_sub word_le_nat_alt word_less_nat_alt)
  have "unat (mn + drop_bit 1 (mx - mn)) = unat mn + (unat mx - unat mn) div 2"
    using d le mx unat_add_lem [of mn "drop_bit 1 (mx - mn)"] by simp
  then show "unat (mn + drop_bit 1 (mx - mn) + 1) = unat mn + (unat mx - unat mn) div 2 + 1"
    using le mx unat_add_lem [of "mn + drop_bit 1 (mx - mn)" 1] by simp
qed

termination bsearch
proof (relation "measure (\<lambda>(mn, mx, comparer). unat mx - unat mn)", goal_cases)
  case (2 mn mx comparer m cmp)
  then show ?case using bsearch_mid [of mn mx] by simp
next
  case (3 mn mx comparer m cmp)
  then have "unat m = unat mn + (unat mx - unat mn) div 2 + 1" "m \<noteq> 0"
    using bsearch_mid [of mn mx] by (auto simp: unat_eq_zero)
  then have "unat (m - 1) = unat mn + (unat mx - unat mn) div 2"
    using unat_pred [of m] by simp
  then show ?case using 3 bsearch_mid(2) [of mn mx] by (simp add: word_less_nat_alt)
qed simp

declare bsearch.simps [simp del]

lemma bsearch_step:
  "mn < mx \<Longrightarrow> m = mn + drop_bit 1 (mx - mn) + 1 \<Longrightarrow>
    bsearch mn mx cmp = (if cmp m = 0 then m else if cmp m < 0 then bsearch m mx cmp
      else bsearch mn (m - 1) cmp)"
  by (simp only: bsearch.simps [of mn mx] Let_def if_True)

lemma bsearch_stop: "\<not> mn < mx \<Longrightarrow> bsearch mn mx cmp = mn"
  by (simp only: bsearch.simps [of mn mx] if_False)

lemma bsearch_facts:
  assumes "mn \<le> mx"
  shows "mn \<le> bsearch mn mx cmp \<and> bsearch mn mx cmp \<le> mx
    \<and> (bsearch mn mx cmp = mn \<or> cmp (bsearch mn mx cmp) \<le> 0)"
  using assms
proof (induction mn mx cmp rule: bsearch.induct)
  case (1 mn mx cmp)
  define m where "m = mn + drop_bit 1 (mx - mn) + 1"
  show ?case
  proof (cases "mn < mx")
    case False
    then show ?thesis using "1.prems"
      by (simp add: bsearch_stop)
  next
    case True
    then have um: "unat m = unat mn + (unat mx - unat mn) div 2 + 1" "unat m \<le> unat mx"
      unfolding m_def using bsearch_mid [of mn mx] by auto
    then have um1: "unat (m - 1) = unat mn + (unat mx - unat mn) div 2"
      using unat_pred [of m] by (metis add_diff_cancel_right' add_is_0 one_neq_zero unat_0)
    have b: "mn \<le> m" "m \<le> mx" "mn \<le> m - 1" "m - 1 \<le> mx"
      using um um1 by (auto simp: word_le_nat_alt)
    consider "cmp m = 0" | "cmp m < 0" | "cmp m > 0" by linarith
    then show ?thesis
    proof cases
      case 1
      then show ?thesis using True b by (simp add: bsearch_step [OF _ m_def])
    next
      case 2
      have "m \<le> bsearch m mx cmp \<and> bsearch m mx cmp \<le> mx
          \<and> (bsearch m mx cmp = m \<or> cmp (bsearch m mx cmp) \<le> 0)"
        by (rule "1.IH"(1) [OF True m_def refl]) (use 2 b in auto)
      then show ?thesis using 2 True b
        by (auto simp: bsearch_step [OF _ m_def])
    next
      case 3
      have "mn \<le> bsearch mn (m - 1) cmp \<and> bsearch mn (m - 1) cmp \<le> m - 1
          \<and> (bsearch mn (m - 1) cmp = mn \<or> cmp (bsearch mn (m - 1) cmp) \<le> 0)"
        by (rule "1.IH"(2) [OF True m_def refl]) (use 3 b in auto)
      then show ?thesis using 3 True b
        by (auto simp: bsearch_step [OF _ m_def])
    qed
  qed
qed

lemma bsearch_maximal:
  assumes "\<And>a b. a \<le> b \<Longrightarrow> cmp a \<le> cmp b"
    and "mn \<le> mx" "bsearch mn mx cmp < x" "x \<le> mx"
  shows "cmp (bsearch mn mx cmp) = 0 \<or> cmp x > 0"
  using assms
proof (induction mn mx cmp rule: bsearch.induct)
  case (1 mn mx cmp)
  define m where "m = mn + drop_bit 1 (mx - mn) + 1"
  show ?case
  proof (cases "mn < mx")
    case False
    then show ?thesis using "1.prems"
      by (simp add: bsearch_stop)
  next
    case True
    then have um: "unat m = unat mn + (unat mx - unat mn) div 2 + 1" "unat m \<le> unat mx"
      unfolding m_def using bsearch_mid [of mn mx] by auto
    then have um1: "unat (m - 1) = unat mn + (unat mx - unat mn) div 2"
      using unat_pred [of m] by (metis add_diff_cancel_right' add_is_0 one_neq_zero unat_0)
    have b: "m \<le> mx" "mn \<le> m - 1" "x \<le> m - 1 \<or> m \<le> x"
      using um um1 by (auto simp: word_le_nat_alt)
    consider "cmp m = 0" | "cmp m < 0" | "cmp m > 0" by linarith
    then show ?thesis
    proof cases
      case 1
      then show ?thesis using True by (simp add: bsearch_step [OF _ m_def])
    next
      case 2
      then have r: "bsearch mn mx cmp = bsearch m mx cmp"
        using True by (simp add: bsearch_step [OF _ m_def])
      show ?thesis unfolding r
        by (rule "1.IH"(1) [OF True m_def refl]) (use 2 b "1.prems" r in auto)
    next
      case 3
      then have r: "bsearch mn mx cmp = bsearch mn (m - 1) cmp"
        using True by (simp add: bsearch_step [OF _ m_def])
      show ?thesis
      proof (cases "x \<le> m - 1")
        case xm: True
        show ?thesis unfolding r
          by (rule "1.IH"(2) [OF True m_def refl]) (use 3 b "1.prems" r xm in auto)
      next
        case False
        then have "cmp m \<le> cmp x" using b(3) "1.prems"(1) by blast
        then show ?thesis using 3 by simp
      qed
    qed
  qed
qed

section \<open>The saturating arithmetic\<close>

lemma unat_add_u64: "unat a + unat b < 2 ^ 64 \<Longrightarrow> unat (a + b :: u64) = unat a + unat b"
  using unat_add_lem [of a b] by simp

text \<open>\<open>safe_add\<close> is the sum, cut off at \<open>UINT64_MAX\<close>.\<close>

lemma safe_add_saturates: "unat (safe_add a b) = min (unat a + unat b) (2 ^ 64 - 1)"
proof (cases "unat a + unat b < 2 ^ 64")
  case True
  then have s: "unat (a + b) = unat a + unat b" by (rule unat_add_u64)
  then have "\<not> a + b < a" by (simp add: word_less_nat_alt)
  then show ?thesis using s True by (simp add: safe_add_def Let_def)
next
  case False
  have "unat (a + b) = (unat a + unat b) mod 2 ^ 64"
    by (simp add: unat_word_ariths)
  also have "\<dots> = unat a + unat b - 2 ^ 64"
    using False unat_u64_less [of a] unat_u64_less [of b] by (simp add: mod_if)
  finally have "a + b < a"
    using unat_u64_less [of b] False by (simp add: word_less_nat_alt)
  then show ?thesis using False by (simp add: safe_add_def Let_def)
qed

text \<open>\<open>safe_mult\<close> is exact below \<open>2 ^ 64\<close>, for factors other than zero.\<close>

lemma safe_mult_exact:
  assumes "unat a * unat b < 2 ^ 64" "a \<noteq> 0" "b \<noteq> 0"
  shows "unat (safe_mult a b) = unat a * unat b"
proof -
  have p: "unat (a * b) = unat a * unat b" using assms(1) by (rule unat_mult_u64)
  have "0 < unat a" "0 < unat b" using assms by (auto simp: unat_gt_0)
  then have "unat a \<le> unat a * unat b" "unat b \<le> unat a * unat b" by simp_all
  then have "\<not> a * b < a" "\<not> a * b < b" by (simp_all only: word_less_nat_alt p not_less)
  then show ?thesis using p by (simp add: safe_mult_def Let_def)
qed

lemma minus_one_mult_word: "(- 1 :: u64) * b = - b"
  by simp

lemma safe_mult_MAX: "b \<noteq> 0 \<Longrightarrow> safe_mult UINT64_MAX b = UINT64_MAX"
    "b \<noteq> 0 \<Longrightarrow> safe_mult b UINT64_MAX = UINT64_MAX"
proof -
  assume b: "b \<noteq> 0"
  show "safe_mult UINT64_MAX b = UINT64_MAX"
  proof (cases "- b = UINT64_MAX")
    case True
    then show ?thesis by (simp add: safe_mult_def Let_def)
  next
    case False
    then have "- b < UINT64_MAX" by (simp add: word_neq_0_conv less_le)
    then show ?thesis by (simp add: safe_mult_def Let_def)
  qed
  then show "safe_mult b UINT64_MAX = UINT64_MAX"
    by (auto simp: safe_mult_def Let_def mult.commute)
qed

lemma safe_mult_nonzero: "a \<noteq> 0 \<Longrightarrow> b \<noteq> 0 \<Longrightarrow> safe_mult a b \<noteq> 0"
  by (auto simp: safe_mult_def Let_def word_gt_0)

text \<open>The check on the product misses wrap-arounds: here the true product is above \<open>2 ^ 64\<close>.\<close>

lemma safe_mult_undetected: "safe_mult (2 ^ 32 + 1) (2 ^ 32 + 1) = 2 ^ 33 + 1"
  by (simp add: safe_mult_def Let_def)

section \<open>The estimate in unbounded arithmetic\<close>

text \<open>
  The value of the estimate without saturation, wrap-around or early return; the argument of
  a star is the one the code computes on \<open>uint32_t\<close>.
\<close>

fun est_nat :: "u32 \<Rightarrow> nat \<Rightarrow> simple_unit \<Rightarrow> margin \<Rightarrow> nat"
  and est_nat_concat :: "u32 \<Rightarrow> nat \<Rightarrow> simple_unit list \<Rightarrow> margin \<Rightarrow> u32 \<Rightarrow> u32 \<Rightarrow> nat" where
  "est_nat k m (SWord _ _) mg = 1"
| "est_nat k m (SQMark _) mg = 1"
| "est_nat k m (SStar _) mg = 1 + unat (k - mg_total mg)"
| "est_nat k m (SRegex _ _) mg = m"
| "est_nat k m (SAlt _ cs) mg = sum_list (map (\<lambda>c. est_nat k m c mg) cs)"
| "est_nat k m (SConcat _ cs) mg =
    (if list_ex (\<lambda>c. s_min_length c = UINT32_MAX) cs then 0
     else est_nat_concat k m cs mg (sum_list (map s_min_length cs)) 0)"
| "est_nat_concat k m [] mg tot bef = 1"
| "est_nat_concat k m (c # cs) mg tot bef =
    est_nat k m c (mg_add mg \<lparr>mg_before = bef, mg_after = tot - bef - s_min_length c\<rparr>)
    * est_nat_concat k m cs mg tot (bef + s_min_length c)"

text \<open>The result at \<open>m\<close> words per regex is exact or saturated, and zero only as a constant.\<close>

definition ur_ok :: "u64 \<Rightarrow> nat \<Rightarrow> unit_result \<Rightarrow> bool" where
  "ur_ok m v r \<longleftrightarrow> (unat (ur_eval r m) = v \<or> ur_eval r m = UINT64_MAX)
    \<and> (v = 0 \<longrightarrow> r = Constant 0 \<or> r = Constant UINT64_MAX)
    \<and> (v \<noteq> 0 \<longrightarrow> ur_eval r m \<noteq> 0)"

lemma ur_ok_constant: "unat c = v \<Longrightarrow> ur_ok m v (Constant c)"
  by (auto simp: ur_ok_def unat_eq_zero)

lemma ur_okE_zero: "ur_ok m 0 r \<Longrightarrow> r = Constant 0 \<or> r = Constant UINT64_MAX"
  by (auto simp: ur_ok_def)

lemma ur_ok_func: "ur_ok m v (Func f) \<Longrightarrow> v \<noteq> 0 \<and> f m \<noteq> 0 \<and> (unat (f m) = v \<or> f m = UINT64_MAX)"
  by (auto simp: ur_ok_def)

lemma safe_add_ok:
  assumes "unat a = v \<or> a = UINT64_MAX" "unat b = w \<or> b = UINT64_MAX" "v + w < 2 ^ 64"
  shows "unat (safe_add a b) = v + w \<or> safe_add a b = UINT64_MAX"
proof -
  have mx: "x = UINT64_MAX" if "unat x = 2 ^ 64 - 1" for x :: u64
    using that unat_UINT64_MAX by (metis word_unat_eq_iff)
  show ?thesis
  proof (cases "unat a = v \<and> unat b = w")
    case True
    then show ?thesis using safe_add_saturates [of a b] assms(3) by simp
  next
    case False
    then have "unat a = 2 ^ 64 - 1 \<or> unat b = 2 ^ 64 - 1" using assms(1,2) unat_UINT64_MAX by auto
    then have "unat (safe_add a b) = 2 ^ 64 - 1" using safe_add_saturates [of a b] by auto
    then show ?thesis using mx by blast
  qed
qed

lemma safe_add_zero: "safe_add a b = 0 \<Longrightarrow> a = 0 \<and> b = 0"
  using safe_add_saturates [of a b] by (auto simp: unat_eq_zero [symmetric])

lemma safe_add_0 [simp]: "safe_add 0 b = b" "safe_add b 0 = b"
  by (simp_all add: safe_add_def Let_def)

lemma safe_add_MAX [simp]: "safe_add UINT64_MAX b = UINT64_MAX" "safe_add b UINT64_MAX = UINT64_MAX"
proof -
  have mx: "x = UINT64_MAX" if "unat x = 2 ^ 64 - 1" for x :: u64
    using that unat_UINT64_MAX by (metis word_unat_eq_iff)
  show "safe_add UINT64_MAX b = UINT64_MAX"
    by (rule mx) (simp add: safe_add_saturates)
  show "safe_add b UINT64_MAX = UINT64_MAX"
    by (rule mx) (simp add: safe_add_saturates)
qed

lemma safe_add_commute: "safe_add a b = safe_add b a"
proof -
  have "unat (safe_add a b) = unat (safe_add b a)"
    by (simp only: safe_add_saturates add.commute)
  then show ?thesis by (simp only: word_unat_eq_iff)
qed

lemma ur_add_ok:
  assumes "ur_ok m v r" "ur_ok m w s" "v + w < 2 ^ 64"
  shows "ur_ok m (v + w) (ur_add r s)"
proof -
  have sum: "unat (safe_add (ur_eval r m) (ur_eval s m)) = v + w
      \<or> safe_add (ur_eval r m) (ur_eval s m) = UINT64_MAX"
    using assms by (intro safe_add_ok) (auto simp: ur_ok_def)
  have nz: "safe_add (ur_eval r m) (ur_eval s m) \<noteq> 0" if "v + w \<noteq> 0"
  proof
    assume "safe_add (ur_eval r m) (ur_eval s m) = 0"
    then have "ur_eval r m = 0" "ur_eval s m = 0" using safe_add_zero by blast+
    then have "v = 0" "w = 0" using assms(1,2) unfolding ur_ok_def by blast+
    then show False using that by simp
  qed
  have ev: "ur_eval (ur_add r s) m = safe_add (ur_eval r m) (ur_eval s m)"
    by (cases r; cases s) (auto simp: safe_add_commute)
  have z: "ur_add r s = Constant 0 \<or> ur_add r s = Constant UINT64_MAX" if "v + w = 0"
    using ur_okE_zero [of m r] ur_okE_zero [of m s] assms that by auto
  show ?thesis unfolding ur_ok_def ev using sum nz z by blast
qed

lemma safe_mult_ok:
  assumes "unat a = v \<or> a = UINT64_MAX" "unat b = w \<or> b = UINT64_MAX" "v * w < 2 ^ 64" "a \<noteq> 0" "b \<noteq> 0"
  shows "unat (safe_mult a b) = v * w \<or> safe_mult a b = UINT64_MAX"
  using assms safe_mult_exact [of a b] safe_mult_MAX by auto

text \<open>The product of two results that are not constantly zero.\<close>

lemma ur_mult_ok:
  assumes "ur_ok m v r" "ur_ok m w s" "v \<noteq> 0" "w \<noteq> 0" "v * w < 2 ^ 64"
  shows "ur_ok m (v * w) (ur_mult r s)"
proof -
  have nz: "ur_eval r m \<noteq> 0" "ur_eval s m \<noteq> 0" using assms by (auto simp: ur_ok_def)
  have p: "unat (safe_mult (ur_eval r m) (ur_eval s m)) = v * w
      \<or> safe_mult (ur_eval r m) (ur_eval s m) = UINT64_MAX"
    using assms nz by (intro safe_mult_ok) (auto simp: ur_ok_def)
  have pnz: "safe_mult (ur_eval r m) (ur_eval s m) \<noteq> 0" by (rule safe_mult_nonzero [OF nz])
  have comm: "safe_mult x y = safe_mult y x" for x y
    by (simp add: safe_mult_def Let_def mult.commute disj_commute)
  show ?thesis
    using nz p pnz assms(3,4) comm
    by (cases r; cases s) (auto simp: ur_ok_def)
qed

lemma concat_min_lengths_eq:
  "concat_min_lengths cs tot ms =
    (if list_ex (\<lambda>c. s_min_length c = UINT32_MAX) cs then None
     else Some (tot + sum_list (map s_min_length cs), ms @ map s_min_length cs))"
  by (induction cs arbitrary: tot ms) (auto simp: Let_def add.assoc)

lemma max_0_u32 [simp]: "max (0 :: u32) w = w"
  by (simp add: max_def)

lemma star_estimate: "unat (1 + ucast (w :: u32) :: u64) = 1 + unat w"
proof -
  have "unat (ucast w :: u64) = unat w" 
    using unat_u32_less [of w] by (simp add: unsigned_ucast_eq take_bit_nat_eq_self)
  moreover have "unat (1 :: u64) + unat (ucast w :: u64) < 2 ^ 64"
    using calculation unat_u32_less [of w] by simp
  ultimately show ?thesis using unat_add_u64 [of 1 "ucast w"] by simp
qed

text \<open>The main statement, for units, alternation loops and concatenation loops.\<close>

definition est_spec :: "u32 \<Rightarrow> u64 \<Rightarrow> simple_unit \<Rightarrow> bool" where
  "est_spec k m u \<longleftrightarrow> (\<forall>mg. est_nat k (unat m) u mg < 2 ^ 64 \<longrightarrow>
    ur_ok m (est_nat k (unat m) u mg) (estimate_impl k u mg))"

lemma est_specD:
  "est_spec k m u \<Longrightarrow> est_nat k (unat m) u mg < 2 ^ 64 \<Longrightarrow>
    ur_ok m (est_nat k (unat m) u mg) (estimate_impl k u mg)"
  unfolding est_spec_def by blast

lemma estimate_alternation_ok:
  assumes "\<And>c. c \<in> set cs \<Longrightarrow> est_spec k m c" "ur_ok m v r"
    and "v + sum_list (map (\<lambda>c. est_nat k (unat m) c mg) cs) < 2 ^ 64"
  shows "ur_ok m (v + sum_list (map (\<lambda>c. est_nat k (unat m) c mg) cs)) (estimate_alternation k cs mg r)"
  using assms
proof (induction cs arbitrary: v r)
  case (Cons c cs)
  have "ur_ok m (v + est_nat k (unat m) c mg) (ur_add r (estimate_impl k c mg))"
    using Cons.prems by (intro ur_add_ok) (auto simp: est_spec_def)
  from Cons.IH [OF _ this] Cons.prems show ?case by (simp add: add.assoc)
qed simp

lemma estimate_concat_zero:
  assumes "\<And>c. c \<in> set cs \<Longrightarrow> est_spec k m c"
    and "est_nat_concat k (unat m) cs mg tot bef = 0"
  shows "estimate_concat k cs (map s_min_length cs) mg tot bef r \<in> {Constant 0, Constant UINT64_MAX}"
  using assms
proof (induction cs arbitrary: bef r)
  case (Cons c cs)
  define mg' where "mg' = mg_add mg \<lparr>mg_before = bef, mg_after = tot - bef - s_min_length c\<rparr>"
  show ?case
  proof (cases "est_nat k (unat m) c mg' = 0")
    case True
    then have "ur_ok m 0 (estimate_impl k c mg')"
      using est_specD [OF Cons.prems(1), of c mg'] by simp
    then show ?thesis using ur_okE_zero by (auto simp: Let_def mg'_def [symmetric])
  next
    case False
    then have "est_nat_concat k (unat m) cs mg tot (bef + s_min_length c) = 0"
      using Cons.prems(2) by (simp add: mg'_def)
    then show ?thesis using Cons.IH Cons.prems(1) by (auto simp: Let_def)
  qed
qed simp

lemma estimate_concat_ok:
  assumes "\<And>c. c \<in> set cs \<Longrightarrow> est_spec k m c" "ur_ok m v r" "v \<noteq> 0"
    and "est_nat_concat k (unat m) cs mg tot bef \<noteq> 0"
    and "v * est_nat_concat k (unat m) cs mg tot bef < 2 ^ 64"
  shows "ur_ok m (v * est_nat_concat k (unat m) cs mg tot bef)
    (estimate_concat k cs (map s_min_length cs) mg tot bef r)"
  using assms
proof (induction cs arbitrary: bef v r)
  case (Cons c cs)
  define mg' where "mg' = mg_add mg \<lparr>mg_before = bef, mg_after = tot - bef - s_min_length c\<rparr>"
  define x where "x = est_nat k (unat m) c mg'"
  define y where "y = est_nat_concat k (unat m) cs mg tot (bef + s_min_length c)"
  have xy: "x \<noteq> 0" "y \<noteq> 0" "v * (x * y) < 2 ^ 64"
    using Cons.prems(4,5) by (auto simp: x_def y_def mg'_def)
  have le: "x \<le> v * (x * y)" "v * x \<le> v * (x * y)"
    using xy Cons.prems(3) by (simp_all add: Suc_le_eq)
  have cx: "ur_ok m x (estimate_impl k c mg')"
    using est_specD [OF Cons.prems(1), of c mg'] order.strict_trans1 [OF le(1) xy(3)]
    by (simp add: x_def)
  have mult: "ur_ok m (v * x) (ur_mult r (estimate_impl k c mg'))"
    using Cons.prems(2,3) order.strict_trans1 [OF le(2) xy(3)] xy(1) cx by (intro ur_mult_ok)
  have rest: "ur_ok m (v * x * y) (estimate_concat k cs (map s_min_length cs) mg tot
      (bef + s_min_length c) (ur_mult r (estimate_impl k c mg')))"
    unfolding y_def using Cons.prems xy by (intro Cons.IH mult) (auto simp: y_def mult.assoc)
  have "estimate_impl k c mg' \<noteq> Constant 0" using cx xy(1) by (auto simp: ur_ok_def)
  moreover have "ur_ok m (v * x * y) (Constant UINT64_MAX)"
    using xy Cons.prems(3) by (simp add: ur_ok_def)
  ultimately show ?case
    using rest by (auto simp: Let_def mg'_def [symmetric] x_def [symmetric] y_def [symmetric] mult.assoc)
qed simp

lemma estimate_spec:
  assumes "m \<noteq> 0"
  shows "est_spec k m u"
proof (induction u)
  case (SStar s)
  have "unat (1 + ucast (k - mg_total mg) :: u64) = 1 + unat (k - mg_total mg)" for mg
    by (rule star_estimate)
  then show ?case by (auto simp: est_spec_def intro!: ur_ok_constant)
next
  case (SRegex t s)
  then show ?case using assms by (simp add: est_spec_def ur_ok_def unat_eq_zero)
next
  case (SAlt s cs)
  then show ?case
    using estimate_alternation_ok [of cs k m 0 "Constant 0"]
    by (auto simp: est_spec_def ur_ok_constant)
next
  case (SConcat s cs)
  show ?case unfolding est_spec_def
  proof (intro allI impI)
    fix mg assume lt: "est_nat k (unat m) (SConcat s cs) mg < 2 ^ 64"
    define y where "y = est_nat_concat k (unat m) cs mg (sum_list (map s_min_length cs)) 0"
    show "ur_ok m (est_nat k (unat m) (SConcat s cs) mg) (estimate_impl k (SConcat s cs) mg)"
    proof (cases "list_ex (\<lambda>c. s_min_length c = UINT32_MAX) cs")
      case True
      then show ?thesis by (simp add: concat_min_lengths_eq ur_ok_constant)
    next
      case False
      show ?thesis
      proof (cases "y = 0")
        case True
        then have "estimate_concat k cs (map s_min_length cs) mg (sum_list (map s_min_length cs)) 0 (Constant 1)
            \<in> {Constant 0, Constant UINT64_MAX}"
          by (intro estimate_concat_zero) (use SConcat y_def in auto)
        then show ?thesis using False True
          by (auto simp: concat_min_lengths_eq ur_ok_def y_def [symmetric])
      next
        case ny: False
        have "ur_ok m (1 * y) (estimate_concat k cs (map s_min_length cs) mg (sum_list (map s_min_length cs)) 0 (Constant 1))"
          unfolding y_def
          by (rule estimate_concat_ok) (use SConcat lt False ny y_def in \<open>auto intro: ur_ok_constant\<close>)
        then show ?thesis using False by (simp add: concat_min_lengths_eq y_def)
      qed
    qed
  qed
qed (auto simp: est_spec_def ur_ok_constant)

lemma estimate_exact_or_max:
  assumes "m \<noteq> 0" "est_nat k (unat m) u \<lparr>mg_before = 0, mg_after = 0\<rparr> < 2 ^ 64"
  shows "unat (estimate k u m) = est_nat k (unat m) u \<lparr>mg_before = 0, mg_after = 0\<rparr>
    \<or> estimate k u m = UINT64_MAX"
  using estimate_spec [OF assms(1), of k u] assms(2)
  by (auto simp: est_spec_def ur_ok_def estimate_def)

section \<open>Properties\<close>

text \<open>
  \<open>binary_search\<close> always ends inside its interval; the value it returns satisfies the
  comparer (or is the lower end), and for a monotone comparer it is an exact hit or the
  largest value that satisfies it.
\<close>

theorem binary_search_best:
  assumes "mn \<le> mx" and "\<And>a b. a \<le> b \<Longrightarrow> cmp a \<le> cmp b"
  shows "mn \<le> bsearch mn mx cmp \<and> bsearch mn mx cmp \<le> mx
    \<and> (bsearch mn mx cmp = mn \<or> cmp (bsearch mn mx cmp) \<le> 0)
    \<and> (cmp (bsearch mn mx cmp) = 0 \<or> (\<forall>x. bsearch mn mx cmp < x \<and> x \<le> mx \<longrightarrow> cmp x > 0))"
proof -
  have "cmp (bsearch mn mx cmp) = 0 \<or> cmp x > 0" if "bsearch mn mx cmp < x" "x \<le> mx" for x
    by (rule bsearch_maximal [OF assms(2,1) that])
  then show ?thesis using bsearch_facts [OF assms(1), of cmp] by blast
qed

theorem binary_search_best_witness:
  "bsearch 0 10 (\<lambda>m. int (unat m) - 7) = 7 \<and> bsearch 0 10 (\<lambda>m. int (unat m) - 7) \<le> 10"
proof -
  have m: "\<And>a b :: u64. a \<le> b \<Longrightarrow> int (unat a) - 7 \<le> int (unat b) - 7"
    by (simp add: word_le_nat_alt [symmetric] word_le_def [symmetric] flip: uint_nat)
  have "(0 :: u64) \<le> 10" by simp
  then have "bsearch 0 10 (\<lambda>m. int (unat m) - 7) \<le> 10"
    using binary_search_best [where cmp = "\<lambda>m. int (unat m) - 7", OF _ m] by blast
  moreover have "bsearch 0 10 (\<lambda>m. int (unat m) - 7) = 7" by code_simp
  ultimately show ?thesis by blast
qed

text \<open>
  The saturating arithmetic of the estimate: \<open>safe_add\<close> is the sum cut off at
  \<open>UINT64_MAX\<close>; \<open>safe_mult\<close> is exact for positive factors whose product fits, but its overflow
  check is incomplete: two regexes replaced by \<open>2^32 + 1\<close> words each are estimated to give
  \<open>2^33 + 1\<close> norm queries, far below the product, so an estimate is not always an upper bound.
\<close>

theorem saturating_arithmetic:
  "unat (safe_add a b) = min (unat a + unat b) (2 ^ 64 - 1)
    \<and> (unat a * unat b < 2 ^ 64 \<and> a \<noteq> 0 \<and> b \<noteq> 0 \<longrightarrow> unat (safe_mult a b) = unat a * unat b)
    \<and> estimate 5 (SConcat [] [SRegex r [0], SRegex r [1]]) (2 ^ 32 + 1) = 2 ^ 33 + 1"
proof -
  have "estimate 5 (SConcat [] [SRegex r [0], SRegex r [1]]) (2 ^ 32 + 1)
      = safe_mult (safe_mult 1 (2 ^ 32 + 1)) (2 ^ 32 + 1)"
    by (simp add: estimate_def)
  also have "\<dots> = 2 ^ 33 + 1"
    by (simp add: safe_mult_def Let_def)
  finally show ?thesis
    using safe_add_saturates [of a b] safe_mult_exact [of a b] by blast
qed

theorem saturating_arithmetic_witness: "unat (safe_mult 6 7) = 42"
  using saturating_arithmetic [of 6 7 "''x''"] by simp



end
