(* ===== verification/Norm_Count.thy ===== *)
theory Norm_Count
  imports Norm_Estimate
begin

text \<open>
  Why the estimate of \<open>NormQueryCounter\<close> is an upper bound.  \<open>derivations\<close> multiplies a simple
  query out without dropping anything, with every regex replaced by a given list of words and
  every star carrying the weight the estimate gives it.  The sum over the derivations of the
  product of the weights is bounded by the estimate (\<open>derivations_estimate\<close>), and the number of
  norm queries by that sum (\<open>norm_query_count\<close>).
\<close>

section \<open>Replacing the regexes\<close>

fun replace_regexes :: "(string \<Rightarrow> string list) \<Rightarrow> simple_unit \<Rightarrow> simple_unit" where
  "replace_regexes M (SRegex t s) = SAlt s (map (\<lambda>w. SWord w s) (M t))"
| "replace_regexes M (SConcat s cs) = SConcat s (map (replace_regexes M) cs)"
| "replace_regexes M (SAlt s cs) = SAlt s (map (replace_regexes M) cs)"
| "replace_regexes M u = u"

lemma replace_regexes_lang:
  "s_lang (\<lambda>t. set (M t)) (replace_regexes M u) = s_lang (\<lambda>t. set (M t)) u"
proof (induction u)
  case (SConcat s cs)
  then have "map (s_lang (\<lambda>t. set (M t))) (map (replace_regexes M) cs) = map (s_lang (\<lambda>t. set (M t))) cs"
    by simp
  then show ?case by (simp only: replace_regexes.simps s_lang.simps)
next
  case (SAlt s cs)
  then have "map (s_lang (\<lambda>t. set (M t))) (map (replace_regexes M) cs) = map (s_lang (\<lambda>t. set (M t))) cs"
    by simp
  then show ?case by (simp only: replace_regexes.simps s_lang.simps)
qed auto

lemma replace_regexes_width: "s_width (replace_regexes M u) \<le> s_width u"
proof (induction u)
  case (SRegex t s)
  then show ?case by (auto intro!: max_list0_le)
next
  case (SConcat s cs)
  then have "sum_list (map s_width (map (replace_regexes M) cs)) \<le> sum_list (map s_width cs)"
    by (induction cs) (auto intro: add_mono)
  then show ?case by simp
next
  case (SAlt s cs)
  have "max_list0 (map (s_width \<circ> replace_regexes M) cs) \<le> max_list0 (map s_width cs)"
  proof (rule max_list0_le)
    fix x assume "x \<in> set (map (s_width \<circ> replace_regexes M) cs)"
    then obtain c where "c \<in> set cs" "x = s_width (replace_regexes M c)" by auto
    then show "x \<le> max_list0 (map s_width cs)"
      using SAlt max_list0_ge [of "s_width c" "map s_width cs"] by fastforce
  qed
  then show ?case by simp
qed auto

lemma replace_regexes_none: "\<not> has_regex (replace_regexes M u)"
  by (induction u) (auto simp: list_ex_iff)

lemma replace_regexes_id: "\<not> has_regex u \<Longrightarrow> replace_regexes M u = u"
  by (induction u) (auto simp: list_ex_iff map_idI)

section \<open>Derivations\<close>

text \<open>All concatenations of one member of each list.\<close>

fun prods :: "'a list list list \<Rightarrow> 'a list list" where
  "prods [] = [[]]"
| "prods (D # Ds) = concat (map (\<lambda>d. map (\<lambda>e. d @ e) (prods Ds)) D)"

fun derivations0 :: "(string \<Rightarrow> string list) \<Rightarrow> simple_unit \<Rightarrow> star_unit list list" where
  "derivations0 M (SWord t s) = [[UWord t s]]"
| "derivations0 M (SQMark s) = [[UQMark s]]"
| "derivations0 M (SStar s) = [[UStar s]]"
| "derivations0 M (SRegex t s) = map (\<lambda>w. [UWord w s]) (M t)"
| "derivations0 M (SAlt s cs) = concat (map (derivations0 M) cs)"
| "derivations0 M (SConcat s cs) = prods (map (derivations0 M) cs)"

fun derivations ::
    "(string \<Rightarrow> string list) \<Rightarrow> nat \<Rightarrow> nat \<Rightarrow> simple_unit \<Rightarrow> (star_unit \<times> nat) list list" where
  "derivations M k t (SWord x s) = [[(UWord x s, 0)]]"
| "derivations M k t (SQMark s) = [[(UQMark s, 0)]]"
| "derivations M k t (SStar s) = [[(UStar s, Suc (k - t))]]"
| "derivations M k t (SRegex x s) = map (\<lambda>w. [(UWord w s, 0)]) (M x)"
| "derivations M k t (SAlt s cs) = concat (map (derivations M k t) cs)"
| "derivations M k t (SConcat s cs) =
    prods (map (\<lambda>c. derivations M k
      (t + (sum_list (map (\<lambda>c. unat (s_min_length c)) cs) - unat (s_min_length c))) c) cs)"

lemma map_prods: "map (map f) (prods Ds) = prods (map (map (map f)) Ds)"
proof (induction Ds)
  case (Cons D Ds)
  show ?case by (simp add: Cons.IH [symmetric] map_concat comp_def)
qed simp

lemma derivations_erase: "map (map fst) (derivations M k t u) = derivations0 M u"
proof (induction u arbitrary: t)
  case (SConcat s cs)
  show ?case unfolding derivations.simps derivations0.simps map_prods
    by (rule arg_cong [of _ _ prods]) (use SConcat in simp)
next
  case (SAlt s cs)
  then show ?case by (simp add: map_concat comp_def cong: map_cong)
qed auto

section \<open>The conversion produces only derivations\<close>

text \<open>Stated with an arbitrary measure \<open>f\<close> of sequences of units.\<close>

definition sum_units :: "(star_unit list \<Rightarrow> nat) \<Rightarrow> star_query list \<Rightarrow> nat" where
  "sum_units f qs = sum_list (map (\<lambda>q. f (sq_units q)) qs)"

lemma sum_units_simps [simp]:
  "sum_units f [] = 0" "sum_units f (q # qs) = f (sq_units q) + sum_units f qs"
  "sum_units f (qs @ rs) = sum_units f qs + sum_units f rs"
  by (simp_all add: sum_units_def)

lemma sum_units_mono: "(\<And>x. f x \<le> g x) \<Longrightarrow> sum_units f qs \<le> sum_units g qs"
  by (simp add: sum_units_def sum_list_mono)

lemma sum_units_filter: "sum_units f (filter P qs) \<le> sum_units f qs"
  by (induction qs) auto

lemma sum_list_prods_Cons:
  "sum_list (map f (prods (D # Ds))) = sum_list (map (\<lambda>d. sum_list (map (\<lambda>e. f (d @ e)) (prods Ds))) D)"
  by (simp add: map_concat comp_def sum_list_concat_map)

lemma sum_units_product:
  "sum_units f (sq_product k qs rs) \<le> sum_units (\<lambda>x. sum_units (\<lambda>y. f (x @ y)) rs) qs"
proof -
  have row: "sum_units f (concat (map (\<lambda>after. if sq_min_length b + sq_min_length after > k then []
      else [sq_append (sq_append empty_star_query b) after]) rs)) \<le> sum_units (\<lambda>y. f (sq_units b @ y)) rs" for b
    by (induction rs) auto
  show ?thesis unfolding sq_product_def
    by (induction qs) (auto intro!: add_mono row)
qed

abbreviation sum_d :: "(star_unit list \<Rightarrow> nat) \<Rightarrow> star_unit list list \<Rightarrow> nat" where
  "sum_d f ds \<equiv> sum_list (map f ds)"

definition count_concat_spec :: "(string \<Rightarrow> string list) \<Rightarrow> u32 \<Rightarrow> simple_unit \<Rightarrow> bool" where
  "count_concat_spec M k u \<longleftrightarrow> (\<forall>qs qs' f. sq_concat k qs (replace_regexes M u) = Inr qs' \<longrightarrow>
    sum_units f qs' \<le> sum_units (\<lambda>x. sum_d (\<lambda>d. f (x @ d)) (derivations0 M u)) qs)"

definition count_alternation_spec :: "(string \<Rightarrow> string list) \<Rightarrow> u32 \<Rightarrow> simple_unit \<Rightarrow> bool" where
  "count_alternation_spec M k u \<longleftrightarrow> (\<forall>qs qs' f. sq_alternation k qs (replace_regexes M u) = Inr qs' \<longrightarrow>
    sum_units f qs' \<le> sum_units f qs + sum_d f (derivations0 M u))"

lemma count_concat_children:
  assumes "sq_concat_children k qs (map (replace_regexes M) cs) = Inr qs'"
    and "\<And>c. c \<in> set cs \<Longrightarrow> count_concat_spec M k c"
  shows "sum_units f qs' \<le> sum_units (\<lambda>x. sum_d (\<lambda>d. f (x @ d)) (prods (map (derivations0 M) cs))) qs"
  using assms
proof (induction cs arbitrary: qs)
  case (Cons c cs)
  obtain qs1 where qs1: "sq_concat k qs (replace_regexes M c) = Inr qs1"
    "sq_concat_children k qs1 (map (replace_regexes M) cs) = Inr qs'"
    using Cons.prems(1) by auto
  define g where "g = (\<lambda>x. sum_d (\<lambda>d. f (x @ d)) (prods (map (derivations0 M) cs)))"
  have "sum_units f qs' \<le> sum_units g qs1"
    using Cons.IH [OF qs1(2)] Cons.prems(2) by (simp add: g_def)
  also have "\<dots> \<le> sum_units (\<lambda>x. sum_d (\<lambda>d. g (x @ d)) (derivations0 M c)) qs"
    using Cons.prems(2) [of c] qs1(1) by (simp add: count_concat_spec_def)
  also have "\<dots> = sum_units (\<lambda>x. sum_d (\<lambda>d. f (x @ d)) (prods (map (derivations0 M) (c # cs)))) qs"
    unfolding g_def list.map sum_list_prods_Cons by simp
  finally show ?case .
qed simp

lemma count_alternation_children:
  assumes "sq_alternation_children k qs (map (replace_regexes M) cs) = Inr qs'"
    and "\<And>c. c \<in> set cs \<Longrightarrow> count_alternation_spec M k c"
  shows "sum_units f qs' \<le> sum_units f qs + sum_d f (concat (map (derivations0 M) cs))"
  using assms
proof (induction cs arbitrary: qs)
  case (Cons c cs)
  obtain qs1 where qs1: "sq_alternation k qs (replace_regexes M c) = Inr qs1"
    "sq_alternation_children k qs1 (map (replace_regexes M) cs) = Inr qs'"
    using Cons.prems(1) by auto
  have "sum_units f qs' \<le> sum_units f qs1 + sum_d f (concat (map (derivations0 M) cs))"
    using Cons.IH [OF qs1(2)] Cons.prems(2) by simp
  moreover have "sum_units f qs1 \<le> sum_units f qs + sum_d f (derivations0 M c)"
    using Cons.prems(2) [of c] qs1(1) by (simp add: count_alternation_spec_def)
  ultimately show ?case by simp
qed simp

lemma sum_units_map_push: "sum_units f (map (sq_push_back u) qs) = sum_units (\<lambda>x. f (x @ [u])) qs"
  by (simp add: sum_units_def comp_def)

lemma sum_units_map_append:
  "sum_units f (map (\<lambda>q. sq_append q r) qs) = sum_units (\<lambda>x. f (x @ sq_units r)) qs"
  by (simp add: sum_units_def comp_def)

lemma count_alternation_words:
  "sq_alternation_children k qs (map (\<lambda>w. SWord w s) ws) = Inr qs' \<Longrightarrow>
    sum_units f qs' = sum_units f qs + sum_d f (map (\<lambda>w. [UWord w s]) ws)"
  by (induction ws arbitrary: qs) auto

lemma count_concat_of_alternation:
  assumes alt: "\<And>qs' f. sq_alternation k [] (SAlt s cs) = Inr qs' \<Longrightarrow> sum_units f qs' \<le> sum_d f ds"
    and con: "sq_concat k qs (SAlt s cs) = Inr qs'"
  shows "sum_units f qs' \<le> sum_units (\<lambda>x. sum_d (\<lambda>d. f (x @ d)) ds) qs"
proof -
  obtain qa where qa: "sq_alternation k [] (SAlt s cs) = Inr qa"
    "qs' = (if qa = [] then [] else if length qa = 1 then map (\<lambda>q. sq_append q (qa ! 0)) qs
      else sq_product k qs qa)"
    using con by (auto simp del: sq_alternation.simps)
  have "sum_units f qs' \<le> sum_units (\<lambda>x. sum_units (\<lambda>y. f (x @ y)) qa) qs"
    using qa(2) sum_units_product [of f k qs qa]
    by (auto simp: length_Suc_conv sum_units_map_append)
  also have "\<dots> \<le> sum_units (\<lambda>x. sum_d (\<lambda>d. f (x @ d)) ds) qs"
    by (rule sum_units_mono) (rule alt [OF qa(1)])
  finally show ?thesis .
qed

lemma count_specs: "count_concat_spec M k u \<and> count_alternation_spec M k u"
proof (induction u)
  case (SRegex t s)
  have alt: "sum_units f qs' = sum_units f qs + sum_d f (derivations0 M (SRegex t s))"
    if "sq_alternation k qs (SAlt s (map (\<lambda>w. SWord w s) (M t))) = Inr qs'" for qs qs' f
    using that count_alternation_words [of k qs s "M t" qs' f] by simp
  have "sum_units f qs' \<le> sum_units (\<lambda>x. sum_d (\<lambda>d. f (x @ d)) (derivations0 M (SRegex t s))) qs"
    if "sq_concat k qs (SAlt s (map (\<lambda>w. SWord w s) (M t))) = Inr qs'" for qs qs' f
    by (rule count_concat_of_alternation [OF _ that]) (use alt [of "[]"] in simp)
  then show ?case
    using alt unfolding count_concat_spec_def count_alternation_spec_def replace_regexes.simps by simp
next
  case (SConcat s cs)
  have con: "sum_units f qs' \<le> sum_units (\<lambda>x. sum_d (\<lambda>d. f (x @ d)) (derivations0 M (SConcat s cs))) qs"
    if "sq_concat k qs (replace_regexes M (SConcat s cs)) = Inr qs'" for qs qs' f
    using that SConcat count_concat_children [of k qs M cs qs' f] by simp
  have "sum_units f qs' \<le> sum_units f qs + sum_d f (derivations0 M (SConcat s cs))"
    if a: "sq_alternation k qs (replace_regexes M (SConcat s cs)) = Inr qs'" for qs qs' f
  proof -
    obtain qc where qc: "sq_concat k [empty_star_query] (replace_regexes M (SConcat s cs)) = Inr qc"
      "qs' = qs @ filter (\<lambda>q. sq_min_length q \<le> k) qc"
      using a by (auto simp del: sq_concat.simps)
    have "sum_units f (filter (\<lambda>q. sq_min_length q \<le> k) qc) \<le> sum_units f qc"
      by (rule sum_units_filter)
    also have "\<dots> \<le> sum_d f (derivations0 M (SConcat s cs))"
      using con [OF qc(1), of f] by simp
    finally show ?thesis by (simp add: qc(2))
  qed
  then show ?case using con unfolding count_concat_spec_def count_alternation_spec_def by blast
next
  case (SAlt s cs)
  have alt: "sum_units f qs' \<le> sum_units f qs + sum_d f (derivations0 M (SAlt s cs))"
    if "sq_alternation k qs (replace_regexes M (SAlt s cs)) = Inr qs'" for qs qs' f
    using that SAlt count_alternation_children [of k qs M cs qs' f] by simp
  have "sum_units f qs' \<le> sum_units (\<lambda>x. sum_d (\<lambda>d. f (x @ d)) (derivations0 M (SAlt s cs))) qs"
    if "sq_concat k qs (replace_regexes M (SAlt s cs)) = Inr qs'" for qs qs' f
    by (rule count_concat_of_alternation [OF _ that [unfolded replace_regexes.simps]])
      (use alt [of "[]"] in simp)
  then show ?case using alt unfolding count_concat_spec_def count_alternation_spec_def by blast
qed (simp_all add: count_concat_spec_def count_alternation_spec_def sum_units_map_push)

lemma to_star_queries_count:
  assumes "to_star_queries k (replace_regexes M u) = Inr qs"
  shows "sum_units f qs \<le> sum_d f (derivations0 M u)"
  using count_specs [of M k u] assms
  unfolding count_alternation_spec_def to_star_queries_def by fastforce

section \<open>Lengths and weights of a derivation\<close>

definition weight :: "(star_unit \<times> nat) list \<Rightarrow> nat" where
  "weight d = prod_list (map (\<lambda>(u, w). if u_is_star u then w else 1) d)"

definition d_fixed :: "(star_unit \<times> nat) list \<Rightarrow> nat" where
  "d_fixed d = fixed_count (map fst d)"

lemma weight_simps [simp]:
  "weight [] = 1" "weight (d @ e) = weight d * weight e"
  "weight ((u, w) # d) = (if u_is_star u then w * weight d else weight d)"
  by (simp_all add: weight_def)

lemma d_fixed_simps [simp]: "d_fixed [] = 0" "d_fixed (d @ e) = d_fixed d + d_fixed e"
    "d_fixed ((u, w) # d) = (if u_is_star u then d_fixed d else Suc (d_fixed d))"
  by (simp_all add: d_fixed_def fixed_count_def)

lemma min_alt_loop_le: "min_alt_loop mn ms \<le> mn \<and> (\<forall>m \<in> set ms. min_alt_loop mn ms \<le> m)"
proof (induction ms arbitrary: mn)
  case (Cons m ms)
  from Cons.IH [of "min mn m"] show ?case
    unfolding min_alt_loop_Cons by simp
qed simp

lemma min_concat_loop_sum:
  assumes "\<And>c. c \<in> set cs \<Longrightarrow> f c \<noteq> UINT32_MAX \<and> unat (f c) \<le> W c"
    and "unat mn + sum_list (map W cs) < 2 ^ 32 - 1"
  shows "unat (min_concat_loop mn (map f cs)) = unat mn + sum_list (map (\<lambda>c. unat (f c)) cs)"
  using assms
proof (induction cs arbitrary: mn)
  case (Cons c cs)
  have b: "f c \<noteq> UINT32_MAX" "unat (f c) \<le> W c" using Cons.prems(1) by auto
  have a: "unat (mn + f c) = unat mn + unat (f c)"
    by (rule add_u32_fits) (use b Cons.prems(2) in simp)
  have "unat (min_concat_loop (mn + f c) (map f cs)) = unat (mn + f c) + sum_list (map (\<lambda>c. unat (f c)) cs)"
    by (rule Cons.IH) (use Cons.prems(1) in simp, use Cons.prems(2) b(2) a in simp)
  then show ?case using a b by simp
qed simp

lemma min_concat_loop_MAX: "c \<in> set cs \<Longrightarrow> f c = UINT32_MAX \<Longrightarrow> min_concat_loop mn (map f cs) = UINT32_MAX"
  by (induction cs arbitrary: mn) auto

lemma mem_prods: "d \<in> set (prods Ds) \<longleftrightarrow> (\<exists>ds. list_all2 (\<lambda>e D. e \<in> set D) ds Ds \<and> d = concat ds)"
proof (induction Ds arbitrary: d)
  case (Cons D Ds)
  show ?case
  proof
    assume "d \<in> set (prods (D # Ds))"
    then obtain e e' where "e \<in> set D" "e' \<in> set (prods Ds)" "d = e @ e'" by auto
    moreover from this obtain ds where "list_all2 (\<lambda>e D. e \<in> set D) ds Ds" "e' = concat ds"
      using Cons.IH by blast
    ultimately show "\<exists>ds. list_all2 (\<lambda>e D. e \<in> set D) ds (D # Ds) \<and> d = concat ds"
      by (intro exI [of _ "e # ds"]) simp
  next
    assume "\<exists>ds. list_all2 (\<lambda>e D. e \<in> set D) ds (D # Ds) \<and> d = concat ds"
    then obtain e ds where "e \<in> set D" "list_all2 (\<lambda>e D. e \<in> set D) ds Ds" "d = e @ concat ds"
      by (auto simp: list_all2_Cons2)
    moreover from this have "concat ds \<in> set (prods Ds)" using Cons.IH by blast
    ultimately show "d \<in> set (prods (D # Ds))" by auto
  qed
qed simp

text \<open>A derivation has at least the minimum length of its unit.\<close>

lemma derivation_min_length:
  "d \<in> set (derivations M k t u) \<Longrightarrow> s_width u < 2 ^ 32 - 1 \<Longrightarrow>
    s_min_length u \<noteq> UINT32_MAX \<and> unat (s_min_length u) \<le> d_fixed d"
proof (induction u arbitrary: d t)
  case (SAlt s cs)
  then obtain c where c: "c \<in> set cs" "d \<in> set (derivations M k t c)" by auto
  have ih: "s_min_length c \<noteq> UINT32_MAX \<and> unat (s_min_length c) \<le> d_fixed d"
    using SAlt.IH [OF c] SAlt.prems(2) width_max_member [OF c(1), of s_width] by simp
  have "s_min_length (SAlt s cs) \<le> s_min_length c"
    using min_alt_loop_le [of UINT32_MAX "map s_min_length cs"] c(1) by simp
  moreover from this ih have "s_min_length (SAlt s cs) \<noteq> UINT32_MAX"
    using minus_one_word_le [of "s_min_length c"] by (metis (no_types))
  ultimately show ?case using ih by (simp only: word_le_nat_alt) simp
next
  case (SConcat s cs)
  define tt where "tt c = t + (sum_list (map (\<lambda>c. unat (s_min_length c)) cs) - unat (s_min_length c))" for c
  obtain ds where ds: "list_all2 (\<lambda>e D. e \<in> set D) ds (map (\<lambda>c. derivations M k (tt c) c) cs)"
    "d = concat ds"
    using SConcat.prems(1) by (auto simp: mem_prods tt_def)
  have w: "s_width c < 2 ^ 32 - 1" if "c \<in> set cs" for c
    using width_sum_member [OF that, of s_width] SConcat.prems(2) by simp
  have ih: "s_min_length c \<noteq> UINT32_MAX \<and> unat (s_min_length c) \<le> d_fixed e"
    if "c \<in> set cs" "e \<in> set (derivations M k (tt c) c)" for c e
    by (rule SConcat.IH [OF that w [OF that(1)]])
  have all: "list_all2 (\<lambda>e c. s_min_length c \<noteq> UINT32_MAX \<and> unat (s_min_length c) \<le> d_fixed e) ds cs"
    using ds(1) ih by (auto simp: list_all2_conv_all_nth)
  then have nm: "s_min_length c \<noteq> UINT32_MAX" if "c \<in> set cs" for c
    using that by (fastforce simp: list_all2_conv_all_nth in_set_conv_nth)
  have sum: "sum_list (map (\<lambda>c. unat (s_min_length c)) cs) \<le> d_fixed (concat ds)"
    using all by (induction rule: list_all2_induct) auto
  have b: "unat (s_min_length c) \<le> s_width c" if "c \<in> set cs" for c
    using s_min_length_bound [OF w [OF that]] nm [OF that] by blast
  have eq: "unat (s_min_length (SConcat s cs)) = sum_list (map (\<lambda>c. unat (s_min_length c)) cs)"
    using min_concat_loop_sum [of cs s_min_length s_width 0] nm b SConcat.prems(2) by simp
  have "sum_list (map (\<lambda>c. unat (s_min_length c)) cs) \<le> sum_list (map s_width cs)"
    by (rule sum_list_mono) (rule b)
  then have "unat (s_min_length (SConcat s cs)) < 2 ^ 32 - 1" using eq SConcat.prems(2) by simp
  then have "s_min_length (SConcat s cs) \<noteq> UINT32_MAX" using unat_UINT32_MAX by (metis less_irrefl)
  then show ?case using sum eq ds(2) by simp
qed auto

text \<open>The weight of a star is at least the room that the rest of the derivation leaves.\<close>

lemma sum_list_fixed_split:
  assumes "list_all2 (\<lambda>e c. m c \<le> d_fixed e) ds cs" "i < length ds"
  shows "sum_list (map m cs) - m (cs ! i) + d_fixed (ds ! i) \<le> d_fixed (concat ds)"
proof -
  have "sum_list (map m cs) - m (cs ! i) + d_fixed (ds ! i) \<le> d_fixed (concat ds)
      \<and> sum_list (map m cs) \<le> d_fixed (concat ds) \<and> m (cs ! i) \<le> sum_list (map m cs)"
    using assms
  proof (induction arbitrary: i rule: list_all2_induct)
    case (Cons e ds c cs)
    have s: "sum_list (map m cs) \<le> d_fixed (concat ds)"
      using Cons.hyps(2) by (induction rule: list_all2_induct) auto
    show ?case
    proof (cases i)
      case 0
      then show ?thesis using Cons.hyps(1) s by simp
    next
      case (Suc j)
      then show ?thesis using Cons.IH [of j] Cons.prems Cons.hyps(1) by auto
    qed
  qed simp
  then show ?thesis by blast
qed

lemma derivation_weight:
  "d \<in> set (derivations M k t u) \<Longrightarrow> s_width u < 2 ^ 32 - 1 \<Longrightarrow> (x, w) \<in> set d \<Longrightarrow> u_is_star x \<Longrightarrow>
    Suc (k - (t + d_fixed d)) \<le> w"
proof (induction u arbitrary: d t)
  case (SAlt s cs)
  then show ?case using width_max_member [of _ cs s_width] by auto
next
  case (SConcat s cs)
  define m where "m = (\<lambda>c. unat (s_min_length c))"
  define tt where "tt c = t + (sum_list (map m cs) - m c)" for c
  obtain ds where ds: "list_all2 (\<lambda>e D. e \<in> set D) ds (map (\<lambda>c. derivations M k (tt c) c) cs)"
    "d = concat ds"
    using SConcat.prems(1) by (auto simp: mem_prods tt_def m_def)
  have wd: "s_width c < 2 ^ 32 - 1" if "c \<in> set cs" for c
    using width_sum_member [OF that, of s_width] SConcat.prems(2) by simp
  have all: "list_all2 (\<lambda>e c. m c \<le> d_fixed e) ds cs"
    using ds(1) derivation_min_length wd by (auto simp: list_all2_conv_all_nth m_def)
  obtain e where "e \<in> set ds" "(x, w) \<in> set e" using SConcat.prems(3) ds(2) by auto
  then obtain i where i: "i < length ds" "(x, w) \<in> set (ds ! i)"
    by (metis in_set_conv_nth)
  then have ci: "cs ! i \<in> set cs" "ds ! i \<in> set (derivations M k (tt (cs ! i)) (cs ! i))"
    using ds(1) by (auto simp: list_all2_conv_all_nth)
  have "Suc (k - (tt (cs ! i) + d_fixed (ds ! i))) \<le> w"
    using SConcat.IH [OF ci] wd [OF ci(1)] i(2) SConcat.prems(4) by blast
  moreover have "tt (cs ! i) + d_fixed (ds ! i) \<le> t + d_fixed d"
    using sum_list_fixed_split [OF all i(1)] by (simp add: tt_def ds(2))
  ultimately show ?case by linarith
qed auto

section \<open>The sum of the weights is bounded by the estimate\<close>

lemma sum_prods: "sum_list (map weight (prods Ds)) = prod_list (map (\<lambda>D. sum_list (map weight D)) Ds)"
proof (induction Ds)
  case (Cons D Ds)
  have "sum_list (map weight (prods (D # Ds))) = sum_list (map (\<lambda>d. weight d * sum_list (map weight (prods Ds))) D)"
    by (simp add: map_concat comp_def sum_list_concat_map sum_list_const_mult)
  then show ?case using Cons.IH by (simp add: sum_list_mult_const)
qed simp

lemma concat_margin:
  assumes "unat (mg_total mg) = t" "t + S < 2 ^ 32" "unat tot = S" "mc \<le> tot"
  shows "unat (mg_total (mg_add mg \<lparr>mg_before = bef, mg_after = tot - bef - mc\<rparr>)) = t + (S - unat mc)"
proof -
  have "mg_total (mg_add mg \<lparr>mg_before = bef, mg_after = tot - bef - mc\<rparr>) = mg_total mg + (tot - mc)"
    by (simp add: mg_total_def mg_add_def)
  moreover have "unat (tot - mc) = S - unat mc" using assms(3,4) by (simp add: unat_sub)
  moreover have "unat (mg_total mg + (tot - mc)) = unat (mg_total mg) + unat (tot - mc)"
    by (rule unat_add_u32) (use assms calculation in simp)
  ultimately show ?thesis using assms(1) by simp
qed

lemma derivations_estimate:
  assumes "\<And>s. length (M s) \<le> m"
  shows "s_width u + t < 2 ^ 32 - 1 \<Longrightarrow> unat (mg_total mg) = t \<Longrightarrow>
    sum_list (map weight (derivations M (unat k) t u)) \<le> est_nat k m u mg"
proof (induction u arbitrary: t mg)
  case (SStar s)
  have "unat k - t \<le> unat (k - mg_total mg)"
  proof (cases "mg_total mg \<le> k")
    case True
    then show ?thesis using SStar by (simp add: unat_sub)
  next
    case False
    then show ?thesis using SStar by (simp add: word_le_nat_alt)
  qed
  then show ?case by simp
next
  case (SRegex x s)
  then show ?case using assms by (simp add: comp_def sum_list_triv)
next
  case (SAlt s cs)
  have "sum_list (map weight (derivations M (unat k) t c)) \<le> est_nat k m c mg" if "c \<in> set cs" for c
    using SAlt that max_list0_ge [of "s_width c" "map s_width cs"] by simp
  then show ?case
    by (simp add: map_concat comp_def sum_list_concat_map) (rule sum_list_mono)
next
  case (SConcat s cs)
  define mc where "mc = (\<lambda>c. unat (s_min_length c))"
  define S where "S = sum_list (map mc cs)"
  have wd: "s_width c < 2 ^ 32 - 1" if "c \<in> set cs" for c
    using width_sum_member [OF that, of s_width] SConcat.prems(1) by simp
  show ?case
  proof (cases "list_ex (\<lambda>c. s_min_length c = UINT32_MAX) cs")
    case True
    then obtain c where c: "c \<in> set cs" "s_min_length c = UINT32_MAX" by (auto simp: list_ex_iff)
    then have dn: "derivations M (unat k) t' c = []" for t'
      using derivation_min_length [of _ M "unat k" t' c] wd [OF c(1)]
      by (cases "derivations M (unat k) t' c") auto
    have "0 \<in> set (map (\<lambda>D. sum_list (map weight D)) (map (\<lambda>c. derivations M (unat k) (t + (S - mc c)) c) cs))"
      using c(1) dn by (auto simp: image_iff intro!: bexI [of _ c])
    then have "sum_list (map weight (derivations M (unat k) t (SConcat s cs))) = 0"
      by (simp add: sum_prods S_def mc_def prod_list_zero_iff image_iff comp_def)
    then show ?thesis by (simp only: zero_le)
  next
    case False
    then have nm: "s_min_length c \<noteq> UINT32_MAX" if "c \<in> set cs" for c
      using that by (auto simp: list_ex_iff)
    have b: "mc c \<le> s_width c" if "c \<in> set cs" for c
      using s_min_length_bound [OF wd [OF that]] nm [OF that] by (simp add: mc_def)
    then have SW: "S \<le> sum_list (map s_width cs)" unfolding S_def by (rule sum_list_mono)
    have tot: "unat (sum_list (map s_min_length cs)) = S"
    proof -
      have "unat (sum_list (map s_min_length xs)) = sum_list (map mc xs)"
        if "sum_list (map mc xs) < 2 ^ 32" for xs
        using that
      proof (induction xs)
        case (Cons y ys)
        then show ?case using unat_add_u32 [of "s_min_length y" "sum_list (map s_min_length ys)"]
          by (simp add: mc_def)
      qed simp
      then show ?thesis using SW SConcat.prems(1) by (simp add: S_def)
    qed
    have part: "S - mc c + s_width c \<le> sum_list (map s_width cs)" if "c \<in> set cs" for c
    proof -
      have gen: "sum_list (map mc xs) - mc c + s_width c \<le> sum_list (map s_width xs) \<and> mc c \<le> sum_list (map mc xs)"
        if "c \<in> set xs" "set xs \<subseteq> set cs" for xs
        using that
      proof (induction xs)
        case (Cons y ys)
        have le: "sum_list (map mc ys) \<le> sum_list (map s_width ys)"
          using Cons.prems(2) b by (intro sum_list_mono) auto
        show ?case
        proof (cases "c \<in> set ys")
          case True
          then show ?thesis using Cons b [of y] by auto
        next
          case False
          then show ?thesis using Cons.prems le by auto
        qed
      qed simp
      show ?thesis using gen [OF that subset_refl] unfolding S_def by blast
    qed
    have child: "sum_list (map weight (derivations M (unat k) (t + (S - mc c)) c))
        \<le> est_nat k m c (mg_add mg \<lparr>mg_before = bef,
            mg_after = sum_list (map s_min_length cs) - bef - s_min_length c\<rparr>)"
      if c: "c \<in> set cs" for c bef
    proof (rule SConcat.IH [OF c])
      show "s_width c + (t + (S - mc c)) < 2 ^ 32 - 1"
        using part [OF c] SConcat.prems(1) by simp
      have "mc c \<le> S" using sum_list_le_member [OF c, of mc] by (simp add: S_def)
      then show "unat (mg_total (mg_add mg \<lparr>mg_before = bef,
            mg_after = sum_list (map s_min_length cs) - bef - s_min_length c\<rparr>)) = t + (S - mc c)"
        unfolding mc_def
        by (intro concat_margin [OF SConcat.prems(2) _ tot])
          (use SW SConcat.prems(1) tot in \<open>auto simp: word_le_nat_alt mc_def\<close>)
    qed
    have "prod_list (map (\<lambda>c. sum_list (map weight (derivations M (unat k) (t + (S - mc c)) c))) xs)
        \<le> est_nat_concat k m xs mg (sum_list (map s_min_length cs)) bef"
      if "set xs \<subseteq> set cs" for xs bef
      using that
    proof (induction xs arbitrary: bef)
      case (Cons y ys)
      then show ?case using child [of y bef] by (auto intro!: mult_le_mono)
    qed simp
    from this [OF subset_refl, of 0] show ?thesis
      using False by (simp add: sum_prods S_def mc_def comp_def)
  qed
qed auto

section \<open>The number of norm queries\<close>

lemma binomial_le_power: "(s + a) choose s \<le> (1 + a) ^ s"
proof (induction s)
  case (Suc s)
  have "Suc s * ((Suc s + a) choose Suc s) = (Suc s + a) * ((s + a) choose s)"
    using Suc_times_binomial_eq [of "s + a" s] by (simp add: mult.commute)
  also have "\<dots> \<le> (Suc s * (1 + a)) * ((s + a) choose s)"
    by (intro mult_le_mono1) simp
  also have "\<dots> \<le> (Suc s * (1 + a)) * (1 + a) ^ s"
    by (rule mult_le_mono2 [OF Suc.IH])
  finally have "Suc s * ((Suc s + a) choose Suc s) \<le> Suc s * (1 + a) ^ Suc s"
    by (simp only: power_Suc mult.assoc)
  then show ?case by (simp only: mult_le_cancel1)
qed simp

definition norm_bound :: "nat \<Rightarrow> star_unit list \<Rightarrow> nat" where
  "norm_bound k us = (if fixed_count us \<le> k then (1 + (k - fixed_count us)) ^ star_count us else 0)"

lemma sq_norms_length:
  assumes "sq_ok w q"
  shows "length (sq_norms opts q) \<le> norm_bound (unat (no_max_length opts)) (sq_units q)"
proof -
  define us where "us = sq_units q"
  define k where "k = unat (no_max_length opts)"
  have f: "unat (sq_min_length q) = fixed_count us"
    using assms by (simp add: sq_ok_def sq_fixed_count us_def)
  have le: "sq_min_length q \<le> no_max_length opts \<longleftrightarrow> fixed_count us \<le> k"
    by (simp add: word_le_nat_alt f k_def)
  have avail: "unat (no_max_length opts - sq_min_length q) = k - fixed_count us" if "fixed_count us \<le> k"
    using that le f by (simp add: unat_sub k_def)
  have "length (add_with_stars opts [] q) \<le> (1 + (k - fixed_count us)) ^ star_count us"
    if "fixed_count us \<le> k"
  proof -
    have "length (add_with_stars opts [] q) \<le> length (chain_segments (star_count us) (k - fixed_count us))"
      using avail [OF that]
      by (simp add: add_with_stars_def Let_def us_def [symmetric] order.trans [OF length_filter_le])
    also have "\<dots> \<le> (1 + (k - fixed_count us)) ^ star_count us"
      using binomial_le_power by (simp only: length_chain_segments)
    finally show ?thesis .
  qed
  then show ?thesis
    using le by (simp add: sq_norms_def norm_bound_def us_def [symmetric] k_def [symmetric])
qed

lemma norm_bound_weight:
  assumes "d \<in> set (derivations M k 0 u)" "s_width u < 2 ^ 32 - 1"
  shows "norm_bound k (map fst d) \<le> weight d"
proof -
  define a where "a = 1 + (k - d_fixed d)"
  have "\<forall>(x, w) \<in> set d. u_is_star x \<longrightarrow> a \<le> w"
    using derivation_weight [OF assms] by (auto simp: a_def)
  then have "a ^ star_count (map fst d) \<le> weight d"
    by (induction d) (auto intro: mult_le_mono)
  then show ?thesis by (simp add: norm_bound_def a_def d_fixed_def)
qed

lemma norm_query_count:
  assumes "to_star_queries (no_max_length opts) (replace_regexes M u) = Inr qs"
    and "\<And>s. length (M s) \<le> m" and "s_width u < 2 ^ 32 - 1"
  shows "length (concat (map (sq_norms opts) qs))
    \<le> est_nat (no_max_length opts) m u \<lparr>mg_before = 0, mg_after = 0\<rparr>"
proof -
  define k where "k = unat (no_max_length opts)"
  have w: "s_width (replace_regexes M u) < 2 ^ 32 - 1"
    using replace_regexes_width [of M u] assms(3) by simp
  have "length (concat (map (sq_norms opts) qs)) \<le> sum_units (norm_bound k) qs"
    unfolding length_concat sum_units_def map_map
    by (rule sum_list_mono)
      (use to_star_queries_language(2) [OF assms(1) w] sq_norms_length k_def in auto)
  also have "\<dots> \<le> sum_d (norm_bound k) (derivations0 M u)"
    by (rule to_star_queries_count [OF assms(1)])
  also have "\<dots> = sum_list (map (\<lambda>d. norm_bound k (map fst d)) (derivations M k 0 u))"
    by (simp add: derivations_erase [symmetric, of M u k 0] comp_def)
  also have "\<dots> \<le> sum_list (map weight (derivations M k 0 u))"
    by (rule sum_list_mono) (rule norm_bound_weight [OF _ assms(3)])
  also have "\<dots> \<le> est_nat (no_max_length opts) m u \<lparr>mg_before = 0, mg_after = 0\<rparr>"
    unfolding k_def by (rule derivations_estimate [OF assms(2)]) (use assms(3) in \<open>auto simp: mg_total_def\<close>)
  finally show ?thesis .
qed

end
