(* ===== verification/Normalizer.thy ===== *)
theory Normalizer
  imports Optimizer Norm_Count
begin

text \<open>
  \<open>find_regexes\<close>, \<open>normalize_regexes\<close> and \<open>QueryNormalizer::normalize\<close> of
  \<open>src/netspeak/QueryNormalizer.cpp\<close>: the whole pipeline from a parse tree to norm queries.

  The regex index is a function from the text of a regex, the maximum number of matches and
  the time budget to the matching words (\<open>parse_netspeak_regex_query\<close> and
  \<open>RegexIndex::match_query\<close> are modelled in \<open>Regex_Query\<close>); the clock is not modelled, so the
  function is deterministic.  \<open>normalize_sound\<close> and \<open>normalize_complete\<close> compare the norm
  queries with the language of the parse tree.
\<close>

record normalizer =
  nz_regex_index :: "(string \<Rightarrow> u64 \<Rightarrow> int \<Rightarrow> string list) option"
  nz_dictionary :: "(string \<times> string) list option"
  nz_lower_case :: bool
  nz_to_lower :: "string \<Rightarrow> string"
  nz_split :: "string \<Rightarrow> string list"

fun find_regexes :: "simple_unit \<Rightarrow> string list" where
  "find_regexes (SRegex t _) = [t]"
| "find_regexes (SAlt _ cs) = concat (map find_regexes cs)"
| "find_regexes (SConcat _ cs) = concat (map find_regexes cs)"
| "find_regexes _ = []"

definition comparer :: "norm_options \<Rightarrow> (u64 \<Rightarrow> u64) \<Rightarrow> u64 \<Rightarrow> int" where
  "comparer opts estimator m =
    (let e = estimator m
     in if e = no_max_norm_queries opts then 0
        else if e < no_max_norm_queries opts then - 1 else 1)"

definition best_max_matches :: "norm_options \<Rightarrow> simple_unit \<Rightarrow> u64" where
  "best_max_matches opts simple =
    (let cmp = comparer opts (estimate (no_max_length opts) simple)
     in if cmp (no_max_regex_matches opts) \<le> 0 then no_max_regex_matches opts
        else bsearch 0 (no_max_regex_matches opts) cmp)"

text \<open>The words a regex is replaced with; without an index no regex unit exists.\<close>

definition regex_matches :: "normalizer \<Rightarrow> norm_options \<Rightarrow> simple_unit \<Rightarrow> string \<Rightarrow> string list" where
  "regex_matches nz opts simple t = (case nz_regex_index nz of
      None \<Rightarrow> []
    | Some match_query \<Rightarrow> match_query t (best_max_matches opts simple) (no_max_regex_time opts))"

definition normalize_regexes :: "normalizer \<Rightarrow> norm_options \<Rightarrow> simple_unit \<Rightarrow> simple_unit result" where
  "normalize_regexes nz opts simple =
    (if find_regexes simple = [] then Inr simple
     else if best_max_matches opts simple = 0 then Inl (InvalidQuery ''Query too complex'')
     else Inr (replace_regexes (regex_matches nz opts simple) simple))"

definition allow_regex :: "normalizer \<Rightarrow> norm_options \<Rightarrow> bool" where
  "allow_regex nz opts \<longleftrightarrow> nz_regex_index nz \<noteq> None \<and> no_max_regex_matches opts > 0
    \<and> no_max_regex_time opts > 0"

definition nz_env :: "normalizer \<Rightarrow> norm_options \<Rightarrow> simp_env" where
  "nz_env nz opts = \<lparr>se_max_length = no_max_length opts,
    se_max_norm_queries = no_max_norm_queries opts,
    se_dictionary = nz_dictionary nz, se_allow_regex = allow_regex nz opts,
    se_lower_case = nz_lower_case nz, se_to_lower = nz_to_lower nz, se_split = nz_split nz\<rparr>"

definition normalize ::
    "normalizer \<Rightarrow> qunit \<Rightarrow> norm_options \<Rightarrow> norm_query list \<Rightarrow> norm_query list result" where
  "normalize nz query opts norm_queries =
    (let query_length_range = q_length_range query
     in if lr_empty query_length_range
         \<or> lr_max query_length_range < no_min_length opts
         \<or> lr_min query_length_range > no_max_length opts
        then Inr norm_queries
        else
          rbind (to_simple (nz_env nz opts) query) (\<lambda>simple.
            rbind (normalize_regexes nz opts (optimize simple)) (\<lambda>simple'.
              to_norm_queries opts norm_queries simple')))"

section \<open>Regexes\<close>

lemma find_regexes_iff: "find_regexes u = [] \<longleftrightarrow> \<not> has_regex u"
  by (induction u) (auto simp: list_ex_iff)

lemma best_max_matches_fits:
  assumes "best_max_matches opts simple \<noteq> 0"
  shows "estimate (no_max_length opts) simple (best_max_matches opts simple) \<le> no_max_norm_queries opts"
proof -
  define cmp where "cmp = comparer opts (estimate (no_max_length opts) simple)"
  define best where "best = best_max_matches opts simple"
  have "cmp best \<le> 0"
  proof (cases "cmp (no_max_regex_matches opts) \<le> 0")
    case True
    then show ?thesis by (simp add: best_def best_max_matches_def cmp_def)
  next
    case False
    then have "best = bsearch 0 (no_max_regex_matches opts) cmp"
      by (simp add: best_def best_max_matches_def cmp_def Let_def)
    then show ?thesis
      using bsearch_facts [of 0 "no_max_regex_matches opts" cmp] assms by (simp add: best_def)
  qed
  then show ?thesis
    unfolding cmp_def comparer_def Let_def best_def by (auto split: if_splits)
qed

lemma normalize_regexes_replace:
  assumes "normalize_regexes nz opts simple = Inr s'"
  shows "s' = replace_regexes (regex_matches nz opts simple) simple"
  using assms replace_regexes_id [of simple] find_regexes_iff [of simple]
  by (auto simp: normalize_regexes_def split: if_splits)

text \<open>
  When the regexes are replaced, the number of norm queries stays within the budget: the
  estimate is a true upper bound as long as its exact value fits into 64 bits.
\<close>

lemma regex_budget:
  assumes "normalize_regexes nz opts simple = Inr s'" "has_regex simple" "s_width simple < 2 ^ 32 - 1"
    and "\<And>f t m time. nz_regex_index nz = Some f \<Longrightarrow> length (f t m time) \<le> unat m"
    and "est_nat (no_max_length opts) (unat (best_max_matches opts simple)) simple
      \<lparr>mg_before = 0, mg_after = 0\<rparr> < 2 ^ 64"
  shows "\<exists>nqs. to_norm_queries opts [] s' = Inr nqs \<and> length nqs \<le> unat (no_max_norm_queries opts)"
proof -
  define M where "M = regex_matches nz opts simple"
  define best where "best = best_max_matches opts simple"
  have s': "s' = replace_regexes M simple" "best \<noteq> 0"
    using assms(1,2) find_regexes_iff [of simple] normalize_regexes_replace [OF assms(1)]
    by (auto simp: normalize_regexes_def M_def best_def split: if_splits)
  have len: "length (M t) \<le> unat best" for t
    using assms(4) by (auto simp: M_def best_def regex_matches_def split: option.splits)
  obtain qs where qs: "to_star_queries (no_max_length opts) s' = Inr qs"
    using to_star_queries_total [of "no_max_length opts" s'] replace_regexes_none [of M simple] s'(1) by auto
  have w: "s_width s' < 2 ^ 32 - 1"
    using replace_regexes_width [of M simple] assms(3) s'(1) by simp
  have ok: "\<forall>q \<in> set qs. sq_ok (s_width s') q" by (rule to_star_queries_language(2) [OF qs w])
  have "length (concat (map (sq_norms opts) qs))
      \<le> est_nat (no_max_length opts) (unat best) simple \<lparr>mg_before = 0, mg_after = 0\<rparr>"
    by (rule norm_query_count [OF qs [unfolded s'(1)] len assms(3)])
  also have "\<dots> \<le> unat (estimate (no_max_length opts) simple best)"
    using estimate_exact_or_max [OF s'(2) assms(5) [folded best_def]] assms(5) [folded best_def] by auto
  also have "\<dots> \<le> unat (no_max_norm_queries opts)"
    using best_max_matches_fits s'(2) by (simp add: best_def word_le_nat_alt)
  finally show ?thesis
    using norm_loop_eq [OF ok w, of opts "[]"] qs by (simp add: to_norm_queries_def)
qed

section \<open>Soundness and completeness of the pipeline\<close>

text \<open>The phrases a successful normalization stands for.\<close>

definition pipeline :: "normalizer \<Rightarrow> qunit \<Rightarrow> norm_options \<Rightarrow> simple_unit \<Rightarrow> star_query list \<Rightarrow> bool" where
  "pipeline nz query opts s qs \<longleftrightarrow>
    (\<exists>simple s'. to_simple (nz_env nz opts) query = Inr simple \<and> s = optimize simple
      \<and> normalize_regexes nz opts s = Inr s'
      \<and> to_star_queries (no_max_length opts) s' = Inr qs)"

definition query_regex_words :: "normalizer \<Rightarrow> norm_options \<Rightarrow> qunit \<Rightarrow> string \<Rightarrow> string set" where
  "query_regex_words nz opts query t = (case to_simple (nz_env nz opts) query of
      Inl _ \<Rightarrow> {}
    | Inr simple \<Rightarrow> set (regex_matches nz opts (optimize simple) t))"

lemma pipeline_facts:
  assumes "pipeline nz query opts s qs" "q_width (nz_env nz opts) query < 2 ^ 32 - 1"
  shows "eq_upto (unat (no_max_length opts)) (sqs_lang qs)
      (q_lang (nz_env nz opts) (query_regex_words nz opts query) query)"
    and "\<exists>w < 2 ^ 32 - 1. \<forall>q \<in> set qs. sq_ok w q"
proof -
  define k where "k = unat (no_max_length opts)"
  define e where "e = nz_env nz opts"
  define M where "M = regex_matches nz opts s"
  define R where "R = query_regex_words nz opts query"
  obtain simple s' where p: "to_simple e query = Inr simple" "s = optimize simple"
    "normalize_regexes nz opts s = Inr s'" "to_star_queries (no_max_length opts) s' = Inr qs"
    using assms(1) by (auto simp: pipeline_def e_def)
  have R: "R = (\<lambda>t. set (M t))"
    using p(1,2) by (auto simp: R_def M_def query_regex_words_def e_def)
  have qw: "q_width e query < 2 ^ 32 - 1" using assms(2) by (simp add: e_def)
  have ws: "s_width simple < 2 ^ 32 - 1" using simplify_width [OF p(1) qw] qw by simp
  have wo: "s_width s < 2 ^ 32 - 1" using optimize_width [of simple] ws p(2) by simp
  have s': "s' = replace_regexes M s" using normalize_regexes_replace [OF p(3)] by (simp add: M_def)
  have wr: "s_width s' < 2 ^ 32 - 1" using replace_regexes_width [of M s] wo s' by simp
  have nr: "\<not> has_regex s'" using replace_regexes_none s' by simp
  have k: "k = unat (se_max_length e)" by (simp add: k_def e_def nz_env_def)
  have 1: "eq_upto k (sqs_lang qs) (s_lang (\<lambda>_. {}) s')"
    unfolding k_def by (rule to_star_queries_language(1) [OF p(4) wr])
  have "s_lang (\<lambda>_. {}) s' = s_lang R s'" by (rule no_regex_lang [OF nr])
  also have "\<dots> = s_lang R s" unfolding s' R by (rule replace_regexes_lang)
  also have "\<dots> = s_lang R simple" unfolding p(2) by (rule optimize_language [OF ws])
  finally have "eq_upto k (sqs_lang qs) (s_lang R simple)" using 1 by simp
  from eq_upto_trans [OF this simplify_language [OF p(1) qw, folded k]]
  show "eq_upto (unat (no_max_length opts)) (sqs_lang qs)
      (q_lang (nz_env nz opts) (query_regex_words nz opts query) query)"
    by (simp add: k_def e_def R_def)
  show "\<exists>w < 2 ^ 32 - 1. \<forall>q \<in> set qs. sq_ok w q"
    using to_star_queries_language(2) [OF p(4) wr] wr by blast
qed

lemma normalize_cases:
  assumes "normalize nz query opts nqs0 = Inr nqs"
  obtains (out) "nqs = nqs0" "lr_empty (q_length_range query)
      \<or> lr_max (q_length_range query) < no_min_length opts
      \<or> lr_min (q_length_range query) > no_max_length opts"
  | (run) s qs where "pipeline nz query opts s qs" "norm_loop opts nqs0 qs = Inr nqs"
  using assms
  by (auto simp: normalize_def Let_def to_norm_queries_def pipeline_def split: if_splits)

lemma out_of_range:
  assumes "lr_empty (q_length_range query)
      \<or> lr_max (q_length_range query) < no_min_length opts
      \<or> lr_min (q_length_range query) > no_max_length opts"
    and "q_width e query < 2 ^ 32 - 1" "\<And>s. se_split e s \<noteq> []" "p \<in> q_lang e R query"
  shows "length p < unat (no_min_length opts) \<or> unat (no_max_length opts) < length p"
proof -
  have l: "length p \<in> lr_set (q_length_range query)"
    by (rule range_ok_length [OF q_length_range_ok [OF assms(2,3)] assms(4)])
  consider "lr_empty (q_length_range query)"
    | (a) "lr_max (q_length_range query) < no_min_length opts"
    | (b) "lr_min (q_length_range query) > no_max_length opts"
    using assms(1) by blast
  then show ?thesis
  proof cases
    case a
    then have "lr_max (q_length_range query) \<noteq> UINT32_MAX" by (auto simp: not_less)
    then show ?thesis using lr_set_max_ge [OF l] a by (simp add: word_less_nat_alt)
  next
    case b
    then show ?thesis using lr_set_min_le [OF l] by (simp add: word_less_nat_alt)
  qed (use l in \<open>simp add: lr_set_def\<close>)
qed

text \<open>Soundness: what a norm query accepts, the query accepts, and the lengths are in range.\<close>

lemma normalize_sound:
  assumes "normalize nz query opts [] = Inr nqs" "q_width (nz_env nz opts) query < 2 ^ 32 - 1"
    and "nq \<in> set nqs" "n_matches nq p"
  shows "p \<in> q_lang (nz_env nz opts) (query_regex_words nz opts query) query"
    and "unat (no_min_length opts) \<le> length p \<and> length p \<le> unat (no_max_length opts)"
proof -
  from assms(1) obtain s qs where pl: "pipeline nz query opts s qs" "norm_loop opts [] qs = Inr nqs"
    using assms(3) by (cases rule: normalize_cases) auto
  note pf = pipeline_facts [OF pl(1) assms(2)]
  then obtain w where w: "w < 2 ^ 32 - 1" "\<forall>q \<in> set qs. sq_ok w q" by blast
  note nl = norm_loop_language [OF pl(2) w(2,1)]
  have "p \<in> n_lang nq" using assms(4) by (simp add: n_lang_def)
  then have "p \<in> \<Union> (set (map n_lang nqs))" using assms(3) by auto
  then have p: "p \<in> sqs_lang qs" "length p \<le> unat (no_max_length opts)"
    unfolding nl(1) by (auto simp: sqs_lang_def)
  then show "p \<in> q_lang (nz_env nz opts) (query_regex_words nz opts query) query"
    using pf(1) by (auto simp: eq_upto_def)
  show "unat (no_min_length opts) \<le> length p \<and> length p \<le> unat (no_max_length opts)"
    using nl(2) assms(3) n_lang_length [OF \<open>p \<in> n_lang nq\<close>] by auto
qed

text \<open>A star query accepts a phrase of its minimum length.\<close>

lemma sq_lang_shortest: "\<exists>p \<in> sq_lang q. length p = sq_fixed q"
proof -
  have "\<exists>p \<in> concs (map u_lang us). length p = length (filter (\<lambda>u. \<not> u_is_star u) us)" for us
  proof (induction us)
    case (Cons u us)
    then obtain p where p: "p \<in> concs (map u_lang us)" "length p = length (filter (\<lambda>u. \<not> u_is_star u) us)"
      by blast
    have "\<exists>q \<in> u_lang u. length q = (if u_is_star u then 0 else 1)"
      by (cases u) (auto intro: exI [of _ "[[]]"] exI [of _ "[]"])
    then obtain q where "q \<in> u_lang u" "length q = (if u_is_star u then 0 else 1)" by blast
    then show ?case using p by (intro bexI [of _ "q @ p"]) auto
  qed simp
  then show ?thesis by (simp add: sq_lang_def sq_fixed_def)
qed

text \<open>
  Completeness, for the phrases of at most \<open>max_length\<close> words, when the query accepts no
  phrase shorter than \<open>min_length\<close>.
\<close>

lemma normalize_complete:
  assumes "normalize nz query opts [] = Inr nqs" "q_width (nz_env nz opts) query < 2 ^ 32 - 1"
    and "\<And>s. nz_split nz s \<noteq> []"
    and "\<forall>p \<in> q_lang (nz_env nz opts) (query_regex_words nz opts query) query.
      unat (no_min_length opts) \<le> length p"
    and "p \<in> q_lang (nz_env nz opts) (query_regex_words nz opts query) query"
    and "length p \<le> unat (no_max_length opts)"
  shows "\<exists>nq \<in> set nqs. n_matches nq p"
  using assms(1)
proof (cases rule: normalize_cases)
  case out
  have "se_split (nz_env nz opts) s \<noteq> []" for s using assms(3) by (simp add: nz_env_def)
  then show ?thesis
    using out_of_range [OF out(2) assms(2) _ assms(5)] assms(4,5,6) by fastforce
next
  case (run s qs)
  note pf = pipeline_facts [OF run(1) assms(2)]
  then obtain w where w: "w < 2 ^ 32 - 1" "\<forall>q \<in> set qs. sq_ok w q" by blast
  note nl = norm_loop_language [OF run(2) w(2,1)]
  have "p \<in> sqs_lang qs" using pf(1) assms(5,6) by (auto simp: eq_upto_def)
  then obtain q where q: "q \<in> set qs" "p \<in> sq_lang q" by (auto simp: sqs_lang_def)
  have ok: "unat (sq_min_length q) = sq_fixed q" using w(2) q(1) by (auto simp: sq_ok_def)
  obtain p' where p': "p' \<in> sq_lang q" "length p' = sq_fixed q" using sq_lang_shortest by blast
  have "length p' \<le> unat (no_max_length opts)"
    using sq_lang_length [OF q(2)] p'(2) assms(6) by simp
  moreover have "p' \<in> sqs_lang qs" using p'(1) q(1) by (auto simp: sqs_lang_def)
  ultimately have "p' \<in> q_lang (nz_env nz opts) (query_regex_words nz opts query) query"
    using pf(1) by (auto simp: eq_upto_def)
  from bspec [OF assms(4) this] have "no_min_length opts \<le> sq_min_length q"
    using p'(2) ok by (simp add: word_le_nat_alt)
  then have "p \<in> \<Union> (set (map n_lang nqs))"
    unfolding nl(1) using q assms(6) by blast
  then show ?thesis by (auto simp: n_lang_def)
qed

section \<open>Errors\<close>

text \<open>The two logic errors of the last stage cannot occur.\<close>

lemma to_norm_queries_error:
  assumes "to_norm_queries opts nqs s = Inl x" "\<not> has_regex s" "s_width s < 2 ^ 32 - 1"
  shows "x = InvalidQuery ''Too many norm queries''"
proof -
  obtain qs where qs: "to_star_queries (no_max_length opts) s = Inr qs"
    using to_star_queries_total assms(2) by blast
  have "\<forall>q \<in> set qs. sq_ok (s_width s) q" by (rule to_star_queries_language(2) [OF qs assms(3)])
  from norm_loop_eq [OF this assms(3), of opts nqs] show ?thesis
    using assms(1) qs by (auto simp: to_norm_queries_def split: if_splits)
qed

lemma normalize_error:
  assumes "normalize nz query opts nqs0 = Inl x" "q_width (nz_env nz opts) query < 2 ^ 32 - 1"
  shows "x \<in> {InvalidQuery ''Orderset with too many options.'', InvalidQuery ''Query too complex'',
    InvalidQuery ''Too many norm queries''}"
proof -
  define e where "e = nz_env nz opts"
  consider "to_simple e query = Inl x"
    | simple where "to_simple e query = Inr simple" "normalize_regexes nz opts (optimize simple) = Inl x"
    | simple s' where "to_simple e query = Inr simple" "normalize_regexes nz opts (optimize simple) = Inr s'"
      "to_norm_queries opts nqs0 s' = Inl x"
    using assms(1) by (auto simp: normalize_def Let_def rbind_eq_Inl e_def split: if_splits)
  then show ?thesis
  proof cases
    case 1
    then show ?thesis using simplify_error by blast
  next
    case 2
    then show ?thesis by (auto simp: normalize_regexes_def split: if_splits)
  next
    case 3
    have s': "s' = replace_regexes (regex_matches nz opts (optimize simple)) (optimize simple)"
      by (rule normalize_regexes_replace [OF 3(2)])
    have "s_width simple < 2 ^ 32 - 1"
      using simplify_width [OF 3(1)] assms(2) by (simp add: e_def)
    then have "s_width s' < 2 ^ 32 - 1"
      using optimize_width [of simple] replace_regexes_width [of _ "optimize simple"] s'
      by (metis order.strict_trans1)
    then show ?thesis using to_norm_queries_error 3(3) replace_regexes_none s' by blast
  qed
qed

section \<open>Sources\<close>

lemma kind_ok_iff:
  "kind_ok q (SWord t s) \<longleftrightarrow> (\<exists>x. q = QWord x \<or> q = QDictSet x)"
  "kind_ok q (SQMark s) \<longleftrightarrow> (\<exists>x. q = QQMark x \<or> q = QPlus x)"
  "kind_ok q (SStar s) \<longleftrightarrow> (\<exists>x. q = QStar x \<or> q = QPlus x)"
  "kind_ok q (SRegex t s) \<longleftrightarrow> (\<exists>x. q = QRegex x)"
  by (cases q; simp)+

lemma kind_origin: "origins_ok q [] u \<Longrightarrow> t_origin_ok q u"
proof (induction u)
  case (SConcat s cs)
  then show ?case by (simp add: list_all_iff)
next
  case (SAlt s cs)
  then show ?case by (simp add: list_all_iff)
qed (auto simp: kind_ok_iff simp del: kind_ok.simps)

lemma replace_regexes_origins: "t_origin_ok q u \<Longrightarrow> t_origin_ok q (replace_regexes M u)"
  by (induction u) (auto simp: list_all_iff split: option.splits qunit.splits)

lemma normalize_sources:
  assumes "normalize nz query opts [] = Inr nqs" "q_width (nz_env nz opts) query < 2 ^ 32 - 1"
    and "nq \<in> set nqs" "u \<in> set nq"
  shows "n_origin_ok query u"
proof -
  from assms(1) obtain s qs where pl: "pipeline nz query opts s qs" "norm_loop opts [] qs = Inr nqs"
    using assms(3) by (cases rule: normalize_cases) auto
  obtain w where w: "w < 2 ^ 32 - 1" "\<forall>q \<in> set qs. sq_ok w q"
    using pipeline_facts(2) [OF pl(1) assms(2)] by blast
  have nqs: "nqs = concat (map (sq_norms opts) qs)"
    using norm_loop_eq [OF w(2,1), of opts "[]"] pl(2) by (auto split: if_splits)
  obtain simple s' where p: "to_simple (nz_env nz opts) query = Inr simple" "s = optimize simple"
    "normalize_regexes nz opts s = Inr s'" "to_star_queries (no_max_length opts) s' = Inr qs"
    using pl(1) by (auto simp: pipeline_def)
  have "t_origin_ok query s'"
    unfolding normalize_regexes_replace [OF p(3)] p(2)
    by (intro replace_regexes_origins kind_origin optimize_origins simplify_sources [OF p(1)])
  then have "sq_origins_ok query qs"
    using conversion_origins(3) [OF p(4) [unfolded to_star_queries_def]] by (simp add: sq_origins_ok_def)
  moreover obtain q where "q \<in> set qs" "nq \<in> set (sq_norms opts q)" using assms(3) nqs by auto
  ultimately show ?thesis
    using sq_norms_origins assms(4) unfolding sq_origins_ok_def by blast
qed

end
