(* ===== verification/Retrieval.thy ===== *)
theory Retrieval
  imports Query_Language
begin

text \<open>
  The interface between \<open>QueryProcessor\<close> and its retrieval strategy
  (\<open>src/netspeak/RetrievalStrategy.hpp\<close>): index entries, the statistics a step reports, the
  metadata of the words of a query, and the contract the two operations keep.

  An index entry is a \<open>value::pair\<close> of the frequency and the local id of a phrase.
\<close>

type_synonym entry = "u32 \<times> u32"

abbreviation e_freq :: "entry \<Rightarrow> u32" where "e_freq \<equiv> fst"
abbreviation e_id :: "entry \<Rightarrow> u32" where "e_id \<equiv> snd"

record stats_type =
  st_eval_count :: u32
  st_min_frequency :: u64
  st_max_frequency :: u64
  st_unknown_word :: string

definition no_stats :: stats_type where
  "no_stats = \<lparr>st_eval_count = 0, st_min_frequency = 0, st_max_frequency = 0, st_unknown_word = []\<rparr>"

record unit_metadata =
  um_position :: nat
  um_frequency :: u64
  um_pruning :: u32

record search_options =
  so_max_phrase_count :: u32
  so_max_phrase_frequency :: u64
  so_phrase_length_min :: u32
  so_phrase_length_max :: u32
  so_pruning_high :: u32
  so_pruning_low :: u32

section \<open>Posting lists\<close>

definition freq_le :: "u64 \<Rightarrow> entry \<Rightarrow> bool" where
  "freq_le mf e \<longleftrightarrow> ucast (e_freq e) \<le> mf"

text \<open>A posting list: descending frequencies, every id once.\<close>

definition posting_list :: "entry list \<Rightarrow> bool" where
  "posting_list L \<longleftrightarrow> sorted_wrt (\<lambda>a b. e_freq b \<le> e_freq a) L \<and> distinct (map e_id L)"

definition ids :: "entry list \<Rightarrow> u32 set" where
  "ids L = e_id ` set L"

lemma posting_list_filter: "posting_list L \<Longrightarrow> posting_list (filter P L)"
  by (auto simp: posting_list_def sorted_wrt_filter distinct_map inj_on_def)

lemma posting_list_hd: "posting_list L \<Longrightarrow> e \<in> set L \<Longrightarrow> e_freq e \<le> e_freq (hd L)"
  by (cases L) (auto simp: posting_list_def)

lemma posting_list_take: "posting_list L \<Longrightarrow> posting_list (take k L)"
  unfolding posting_list_def take_map [symmetric]
  by (simp add: sorted_wrt_take distinct_take)

lemma ucast_u32_u64_le: "(ucast (a :: u32) :: u64) \<le> ucast b \<longleftrightarrow> a \<le> b"
  by (simp add: word_le_nat_alt unsigned_ucast_eq take_bit_nat_eq_self
      order_less_trans [OF unat_u32_less])

lemma freq_le_mono: "freq_le mf b \<Longrightarrow> e_freq a \<le> e_freq b \<Longrightarrow> freq_le mf a"
  unfolding freq_le_def by (meson order_trans ucast_u32_u64_le)

section \<open>The contract\<close>

text \<open>
  \<open>lookup s q m\<close> is the posting list of the word that \<open>m\<close> describes, \<open>limit s q\<close> the frequency
  that bounds the first step.  A strategy is ready for a word if its posting lists are well
  formed and not pruned.  The first step copies the entries that are frequent enough from the
  posting list of the word, the later steps those that the previous steps found as well.
\<close>

locale retrieval_strategy =
  fixes init_set :: "'s \<Rightarrow> unit_metadata \<Rightarrow> norm_query \<Rightarrow> u64 \<Rightarrow> u64 \<Rightarrow> stats_type \<times> entry list"
    and meet_set :: "'s \<Rightarrow> u32 set \<Rightarrow> unit_metadata \<Rightarrow> norm_query \<Rightarrow> u64 \<Rightarrow> u64 \<Rightarrow> stats_type \<times> entry list"
    and lookup :: "'s \<Rightarrow> norm_query \<Rightarrow> unit_metadata \<Rightarrow> entry list option"
    and limit :: "'s \<Rightarrow> norm_query \<Rightarrow> u64"
    and ready :: "'s \<Rightarrow> norm_query \<Rightarrow> unit_metadata \<Rightarrow> bool"
  assumes init_unknown: "lookup s q m = None \<Longrightarrow>
      init_set s m q mf cnt = (no_stats\<lparr>st_unknown_word := n_text (q ! um_position m)\<rparr>, [])"
    and meet_unknown: "lookup s q m = None \<Longrightarrow>
      meet_set s src m q mf cnt = (no_stats\<lparr>st_unknown_word := n_text (q ! um_position m)\<rparr>, [])"
    and ready_posting: "ready s q m \<Longrightarrow> lookup s q m = Some L \<Longrightarrow> posting_list L"
    and init_known: "ready s q m \<Longrightarrow> lookup s q m = Some L \<Longrightarrow> init_set s m q mf cnt = (st, out) \<Longrightarrow>
      out = take (unat cnt) (filter (freq_le (min mf (limit s q))) L)
      \<and> st_unknown_word st = [] \<and> (out \<noteq> [] \<longrightarrow> st_max_frequency st = ucast (e_freq (hd out)))"
    and meet_known: "ready s q m \<Longrightarrow> lookup s q m = Some L \<Longrightarrow>
      \<forall>a \<in> set L. e_id a \<in> src \<longrightarrow> freq_le mf a \<Longrightarrow> meet_set s src m q mf cnt = (st, out) \<Longrightarrow>
      out = take (unat cnt) (filter (\<lambda>e. e_id e \<in> src) L)
      \<and> st_unknown_word st = [] \<and> (out \<noteq> [] \<longrightarrow> st_max_frequency st = ucast (e_freq (hd out)))"

end
