(* ===== verification/Query_Processor.thy ===== *)
theory Query_Processor
  imports Retrieval
begin

text \<open>
  \<open>QueryProcessor\<close> of \<open>src/netspeak/QueryProcessor.hpp\<close>: it reads the posting list of the
  rarest word of a query and intersects it with the others.  The class is a template over the
  retrieval strategy; its operations are the arguments \<open>init_set\<close> and \<open>meet_set\<close>.

  The intersection sets hash and compare entries by their id, so they are sets of ids.
\<close>

section \<open>The loop over the words\<close>

definition add_unknown :: "stats_type \<Rightarrow> string list \<Rightarrow> string list" where
  "add_unknown stats unknown =
    (if st_unknown_word stats \<noteq> [] then unknown @ [st_unknown_word stats] else unknown)"

fun process_loop ::
    "(unit_metadata \<Rightarrow> u64 \<Rightarrow> u64 \<Rightarrow> stats_type \<times> entry list) \<Rightarrow>
     (u32 set \<Rightarrow> unit_metadata \<Rightarrow> u64 \<Rightarrow> u64 \<Rightarrow> stats_type \<times> entry list) \<Rightarrow> u32 \<Rightarrow>
     bool \<Rightarrow> unit_metadata list \<Rightarrow> u32 set \<Rightarrow> u64 \<Rightarrow> string list \<Rightarrow> string list \<times> entry list" where
  "process_loop init_fn meet_fn max_count first [] src cur_max unknown = (unknown, [])"
| "process_loop init_fn meet_fn max_count first (m # ms) src cur_max unknown =
    (if first then
       (if ms = [] then
          (let (stats, out) = init_fn m cur_max (ucast max_count)
           in (add_unknown stats unknown, out))
        else
          (let (stats, out) = init_fn m cur_max UINT64_MAX; src' = ids out
           in if src' = {} then (add_unknown stats unknown, [])
              else process_loop init_fn meet_fn max_count False ms src' (st_max_frequency stats)
                (add_unknown stats unknown)))
     else if ms = [] then
       (let (stats, out) = meet_fn src m cur_max (ucast max_count)
        in (add_unknown stats unknown, out))
     else
       (let (stats, out) = meet_fn src m cur_max UINT64_MAX; src' = ids out
        in if src' = {} then (add_unknown stats unknown, [])
           else process_loop init_fn meet_fn max_count False ms src' (st_max_frequency stats)
             (add_unknown stats unknown)))"

text \<open>The references of the result: the id and the frequency of every entry.\<close>

record raw_ref =
  ref_id :: u32
  ref_freq :: u32

record raw_ref_result =
  rr_refs :: "raw_ref list"
  rr_unknown_words :: "string list"

definition to_ref :: "entry \<Rightarrow> raw_ref" where
  "to_ref e = \<lparr>ref_id = e_id e, ref_freq = e_freq e\<rparr>"

definition process_query ::
    "(search_options \<Rightarrow> norm_query \<Rightarrow> unit_metadata list) \<Rightarrow>
     (unit_metadata \<Rightarrow> norm_query \<Rightarrow> u64 \<Rightarrow> u64 \<Rightarrow> stats_type \<times> entry list) \<Rightarrow>
     (u32 set \<Rightarrow> unit_metadata \<Rightarrow> norm_query \<Rightarrow> u64 \<Rightarrow> u64 \<Rightarrow> stats_type \<times> entry list) \<Rightarrow>
     search_options \<Rightarrow> norm_query \<Rightarrow> raw_ref_result" where
  "process_query metadata init_set meet_set options query =
    (let ms = sort_key um_frequency (metadata options query);
         (unknown, entries) = process_loop (\<lambda>m. init_set m query) (\<lambda>src m. meet_set src m query)
           (so_max_phrase_count options) True ms {} (so_max_phrase_frequency options) []
     in \<lparr>rr_refs = map to_ref entries, rr_unknown_words = unknown\<rparr>)"

section \<open>What the loop computes\<close>

text \<open>The ids that every posting list of the given words has.\<close>

definition common_ids :: "(unit_metadata \<Rightarrow> entry list option) \<Rightarrow> unit_metadata set \<Rightarrow> u32 set" where
  "common_ids look M = {i. \<forall>m \<in> M. \<exists>L. look m = Some L \<and> i \<in> ids L}"

text \<open>An id has the same frequency in every list.\<close>

definition agreeing :: "(unit_metadata \<Rightarrow> entry list option) \<Rightarrow> unit_metadata set \<Rightarrow> bool" where
  "agreeing look M \<longleftrightarrow> (\<forall>m \<in> M. \<forall>m' \<in> M. \<forall>L L'. look m = Some L \<longrightarrow> look m' = Some L' \<longrightarrow>
    (\<forall>e \<in> set L. \<forall>e' \<in> set L'. e_id e = e_id e' \<longrightarrow> e_freq e = e_freq e'))"

lemma agreeingD:
  "agreeing look M \<Longrightarrow> m \<in> M \<Longrightarrow> m' \<in> M \<Longrightarrow> look m = Some L \<Longrightarrow> look m' = Some L' \<Longrightarrow>
    e \<in> set L \<Longrightarrow> e' \<in> set L' \<Longrightarrow> e_id e = e_id e' \<Longrightarrow> e_freq e = e_freq e'"
  unfolding agreeing_def by blast

lemma agreeing_mono: "agreeing look A \<Longrightarrow> B \<subseteq> A \<Longrightarrow> agreeing look B"
  unfolding agreeing_def by blast

lemma common_ids_insert: "common_ids look (insert m M) = {i \<in> common_ids look M. \<exists>L. look m = Some L \<and> i \<in> ids L}"
  by (auto simp: common_ids_def)

lemma ids_filter: "ids (filter (\<lambda>e. e_id e \<in> A) L) = ids L \<inter> A"
  by (auto simp: ids_def)

definition bounded_ids :: "u64 \<Rightarrow> (unit_metadata \<Rightarrow> entry list option) \<Rightarrow> unit_metadata set \<Rightarrow> u32 set" where
  "bounded_ids mf look M = {i \<in> common_ids look M.
    \<forall>m \<in> M. \<forall>L. look m = Some L \<longrightarrow> (\<forall>e \<in> set L. e_id e = i \<longrightarrow> freq_le mf e)}"

lemma bounded_ids_antimono: "B \<subseteq> A \<Longrightarrow> bounded_ids mf look A \<subseteq> bounded_ids mf look B"
  unfolding bounded_ids_def common_ids_def by blast

lemma bounded_ids_insert:
  assumes "agreeing look (insert m M)" "look m = Some L" "M \<noteq> {}" "\<forall>x \<in> M. look x \<noteq> None"
  shows "bounded_ids mf look (insert m M) = bounded_ids mf look M \<inter> ids L"
proof -
  have "freq_le mf e" if i: "e_id e \<in> bounded_ids mf look M" "e \<in> set L" for e
  proof -
    obtain m' where m': "m' \<in> M" using assms(3) by blast
    then obtain L' e' where L': "look m' = Some L'" "e' \<in> set L'" "e_id e' = e_id e"
      using i(1) by (auto simp: bounded_ids_def common_ids_def ids_def)
    have "freq_le mf e'" using i(1) m' L' by (auto simp: bounded_ids_def)
    moreover have "e_freq e = e_freq e'"
      using agreeingD [OF assms(1), of m m'] m' assms(2) L' i(2) by auto
    ultimately show ?thesis by (simp add: freq_le_def)
  qed
  then show ?thesis
    using assms(2) by (auto simp: bounded_ids_def common_ids_insert ids_def)
qed

lemma bounded_ids_single:
  assumes "look m = Some L" "distinct (map e_id L)" "e \<in> set L"
  shows "e_id e \<in> bounded_ids mf look {m} \<longleftrightarrow> freq_le mf e"
  using assms by (auto simp: bounded_ids_def common_ids_def ids_def distinct_map dest: inj_onD)

lemma posting_list_length: "posting_list L \<Longrightarrow> length L \<le> 2 ^ 32"
proof -
  assume p: "posting_list L"
  then have "length L = card (set (map e_id L))"
    unfolding posting_list_def by (metis distinct_card length_map)
  also have "\<dots> \<le> card (UNIV :: u32 set)" by (rule card_mono) simp_all
  finally show ?thesis by (simp add: card_word)
qed

text \<open>Whatever the strategy does, a word without a posting list leaves no entries.\<close>

context retrieval_strategy
begin

lemma meet_loop_unknown:
  assumes "m \<in> set ms" "lookup s q m = None"
  shows "snd (process_loop init_fn (\<lambda>src m. meet_set s src m q) mc False ms src cur unk) = []"
  using assms
proof (induction ms arbitrary: src cur unk)
  case (Cons x ms)
  show ?case
    using Cons meet_unknown [of s q m src]
    by (cases "x = m") (auto simp: Let_def ids_def split: prod.splits)
qed simp

lemma process_loop_unknown:
  assumes "m \<in> set ms" "lookup s q m = None"
  shows "snd (process_loop (\<lambda>m. init_set s m q) (\<lambda>src m. meet_set s src m q) mc True ms {} cur unk) = []"
proof (cases ms)
  case (Cons x xs)
  then show ?thesis
    using assms init_unknown [of s q m] meet_loop_unknown [of m xs s q]
    by (cases "x = m") (auto simp: Let_def ids_def split: prod.splits)
qed simp

lemma hd_frequency:
  assumes "posting_list L" "e \<in> set L"
  shows "freq_le (ucast (e_freq (hd L))) e"
  using posting_list_hd [OF assms] by (simp add: freq_le_def ucast_u32_u64_le)

text \<open>The entries of the next intersection bound the frequencies that the steps after it see.\<close>

lemma next_bound:
  assumes "agreeing look A" "m \<in> A" "look m = Some L" "posting_list L" "out = filter P L"
    "i \<in> ids out" "m' \<in> A" "look m' = Some L'" "e \<in> set L'" "e_id e = i"
  shows "freq_le (ucast (e_freq (hd out))) e"
proof -
  obtain e' where e': "e' \<in> set out" "e_id e' = i" using assms(6) by (auto simp: ids_def)
  then have "e_freq e = e_freq e'"
    using agreeingD [OF assms(1,7,2,8,3), of e e'] assms(5,9,10) by simp
  moreover have "freq_le (ucast (e_freq (hd out))) e'"
    using hd_frequency [of out e'] posting_list_filter [OF assms(4), of P] e'(1) assms(5) by simp
  ultimately show ?thesis by (simp add: freq_le_def)
qed

lemma meet_loop:
  assumes "agreeing (lookup s q) (M \<union> set ms)" "M \<noteq> {}" "ms \<noteq> []"
    "\<forall>m \<in> M \<union> set ms. lookup s q m \<noteq> None" "\<forall>m \<in> set ms. ready s q m"
    "src = bounded_ids mf (lookup s q) M"
    "\<And>m L e. m \<in> M \<union> set ms \<Longrightarrow> lookup s q m = Some L \<Longrightarrow> e \<in> set L \<Longrightarrow> e_id e \<in> src \<Longrightarrow> freq_le cur e"
    "lookup s q (last ms) = Some L"
  shows "process_loop init_fn (\<lambda>src m. meet_set s src m q) mc False ms src cur unk
    = (unk, take (unat mc) (filter (\<lambda>e. e_id e \<in> bounded_ids mf (lookup s q) (M \<union> set ms)) L))"
  using assms
proof (induction ms arbitrary: M src cur)
  case (Cons m ms)
  obtain Lm where Lm: "lookup s q m = Some Lm" using Cons.prems(4) by auto
  have r: "ready s q m" using Cons.prems(5) by simp
  have pl: "posting_list Lm" by (rule ready_posting [OF r Lm])
  have seen: "\<forall>a \<in> set Lm. e_id a \<in> src \<longrightarrow> freq_le cur a"
    using Cons.prems(7) [OF _ Lm] by simp
  note meet = meet_known [OF r Lm seen]
  have b: "bounded_ids mf (lookup s q) (insert m M) = src \<inter> ids Lm"
  proof -
    have "agreeing (lookup s q) (insert m M)" by (rule agreeing_mono [OF Cons.prems(1)]) auto
    moreover have "\<forall>x \<in> M. lookup s q x \<noteq> None" using Cons.prems(4) by simp
    ultimately show ?thesis using bounded_ids_insert [where look = "lookup s q", OF _ Lm Cons.prems(2)] Cons.prems(6) by simp
  qed
  show ?case
  proof (cases "ms = []")
    case True
    obtain st out where m: "meet_set s src m q cur (ucast mc) = (st, out)" by (cases "meet_set s src m q cur (ucast mc)")
    have "unat (ucast mc :: u64) = unat mc"
      by (simp add: unsigned_ucast_eq take_bit_nat_eq_self order_less_trans [OF unat_u32_less])
    moreover have "filter (\<lambda>e. e_id e \<in> src) Lm = filter (\<lambda>e. e_id e \<in> src \<inter> ids Lm) Lm"
      by (rule filter_cong) (auto simp: ids_def)
    ultimately show ?thesis
      using True meet [OF m] m Cons.prems(8) Lm b by (simp add: add_unknown_def)
  next
    case False
    obtain st out where m: "meet_set s src m q cur UINT64_MAX = (st, out)" by (cases "meet_set s src m q cur UINT64_MAX")
    have "length Lm \<le> unat UINT64_MAX" using posting_list_length [OF pl] by simp
    then have out: "out = filter (\<lambda>e. e_id e \<in> src) Lm" "st_unknown_word st = []"
        "out \<noteq> [] \<longrightarrow> st_max_frequency st = ucast (e_freq (hd out))"
      using meet [OF m] length_filter_le [of "\<lambda>e. e_id e \<in> src" Lm] by (simp_all del: unat_UINT64_MAX)
    have src': "ids out = bounded_ids mf (lookup s q) (insert m M)"
      using b by (auto simp: out(1) ids_filter)
    have union: "M \<union> set (m # ms) = insert m M \<union> set ms" by auto
    have "lookup s q (last ms) = Some L" using Cons.prems(8) False by simp
    show ?thesis
    proof (cases "ids out = {}")
      case True
      have "bounded_ids mf (lookup s q) (M \<union> set (m # ms)) \<subseteq> bounded_ids mf (lookup s q) (insert m M)"
        unfolding union by (rule bounded_ids_antimono) auto
      then have "bounded_ids mf (lookup s q) (M \<union> set (m # ms)) = {}" using True src' by auto
      then show ?thesis using True False m out(2) by (simp add: Let_def add_unknown_def)
    next
      case ne: False
      then have mx: "st_max_frequency st = ucast (e_freq (hd out))" using out(3) by (auto simp: ids_def)
      have "process_loop init_fn (\<lambda>src m. meet_set s src m q) mc False ms (ids out) (st_max_frequency st) unk
          = (unk, take (unat mc) (filter (\<lambda>e. e_id e \<in> bounded_ids mf (lookup s q) (insert m M \<union> set ms)) L))"
      proof (rule Cons.IH)
        show "agreeing (lookup s q) (insert m M \<union> set ms)" using Cons.prems(1) by simp
        show "\<And>m' L' e. m' \<in> insert m M \<union> set ms \<Longrightarrow> lookup s q m' = Some L' \<Longrightarrow> e \<in> set L' \<Longrightarrow>
            e_id e \<in> ids out \<Longrightarrow> freq_le (st_max_frequency st) e"
          unfolding mx using Cons.prems(1) by (intro next_bound [where look = "lookup s q", OF _ _ Lm pl out(1)]) auto
      qed (use Cons.prems False src' \<open>lookup s q (last ms) = Some L\<close> in auto)
      then show ?thesis using ne False m out(2) by (simp add: Let_def add_unknown_def)
    qed
  qed
qed simp

lemma process_loop_known:
  assumes "agreeing (lookup s q) (set ms)" "ms \<noteq> []" "\<forall>m \<in> set ms. lookup s q m \<noteq> None"
    "\<forall>m \<in> set ms. ready s q m" "lookup s q (last ms) = Some L" "mf = min mf0 (limit s q)"
  shows "process_loop (\<lambda>m. init_set s m q) (\<lambda>src m. meet_set s src m q) mc True ms {} mf0 unk
    = (unk, take (unat mc) (filter (\<lambda>e. e_id e \<in> bounded_ids mf (lookup s q) (set ms)) L))"
proof (cases ms)
  case (Cons m xs)
  obtain Lm where Lm: "lookup s q m = Some Lm" using assms(3) Cons by auto
  have r: "ready s q m" using assms(4) Cons by simp
  have pl: "posting_list Lm" by (rule ready_posting [OF r Lm])
  note init = init_known [OF r Lm]
  have single: "filter (freq_le mf) Lm = filter (\<lambda>e. e_id e \<in> bounded_ids mf (lookup s q) {m}) Lm"
    using bounded_ids_single [where look = "lookup s q", OF Lm] pl by (auto simp: posting_list_def intro: filter_cong)
  show ?thesis
  proof (cases "xs = []")
    case True
    obtain st out where i: "init_set s m q mf0 (ucast mc) = (st, out)" by (cases "init_set s m q mf0 (ucast mc)")
    have "unat (ucast mc :: u64) = unat mc"
      by (simp add: unsigned_ucast_eq take_bit_nat_eq_self order_less_trans [OF unat_u32_less])
    then show ?thesis
      using True Cons init [OF i] i assms(5,6) Lm single by (simp add: add_unknown_def)
  next
    case False
    obtain st out where i: "init_set s m q mf0 UINT64_MAX = (st, out)" by (cases "init_set s m q mf0 UINT64_MAX")
    have "length Lm \<le> unat UINT64_MAX" using posting_list_length [OF pl] by simp
    then have out: "out = filter (freq_le mf) Lm" "st_unknown_word st = []"
        "out \<noteq> [] \<longrightarrow> st_max_frequency st = ucast (e_freq (hd out))"
      using init [OF i] order_trans [OF length_filter_le [of "freq_le (min mf0 (limit s q))" Lm]] assms(6) by (simp_all del: unat_UINT64_MAX)
    have src': "ids out = bounded_ids mf (lookup s q) {m}"
      unfolding out(1) single ids_filter using Lm by (auto simp: bounded_ids_def common_ids_def)
    show ?thesis
    proof (cases "ids out = {}")
      case True
      have "bounded_ids mf (lookup s q) (set ms) \<subseteq> bounded_ids mf (lookup s q) {m}"
        using Cons by (intro bounded_ids_antimono) simp
      then have "bounded_ids mf (lookup s q) (set ms) = {}" using True src' by auto
      then show ?thesis using True False Cons i out(2) by (simp add: Let_def add_unknown_def)
    next
      case ne: False
      then have mx: "st_max_frequency st = ucast (e_freq (hd out))" using out(3) by (auto simp: ids_def)
      have "process_loop (\<lambda>m. init_set s m q) (\<lambda>src m. meet_set s src m q) mc False xs (ids out)
            (st_max_frequency st) unk
          = (unk, take (unat mc) (filter (\<lambda>e. e_id e \<in> bounded_ids mf (lookup s q) ({m} \<union> set xs)) L))"
      proof (rule meet_loop)
        show "\<And>m' L' e. m' \<in> {m} \<union> set xs \<Longrightarrow> lookup s q m' = Some L' \<Longrightarrow> e \<in> set L' \<Longrightarrow>
            e_id e \<in> ids out \<Longrightarrow> freq_le (st_max_frequency st) e"
          unfolding mx using assms(1) Cons by (intro next_bound [where look = "lookup s q", OF _ _ Lm pl out(1)]) auto
      qed (use assms Cons False src' in auto)
      then show ?thesis using ne False Cons i out(2) by (simp add: Let_def add_unknown_def)
    qed
  qed
qed (use assms in simp)

end

text \<open>The number of phrases only cuts the result: with an unknown word the steps do not depend on it.\<close>

context retrieval_strategy
begin

lemma meet_loop_counts:
  assumes "m \<in> set ms" "lookup s q m = None"
  shows "fst (process_loop init_fn (\<lambda>src m. meet_set s src m q) mc False ms src cur unk)
    = fst (process_loop init_fn (\<lambda>src m. meet_set s src m q) mc' False ms src cur unk)"
  using assms
proof (induction ms arbitrary: src cur unk)
  case (Cons x ms)
  show ?case
  proof (cases "x = m")
    case True
    then show ?thesis using meet_unknown [OF Cons.prems(2)] by (simp add: ids_def)
  next
    case False
    then show ?thesis using Cons by (auto simp: Let_def split: prod.splits)
  qed
qed simp

lemma process_loop_counts:
  assumes "m \<in> set ms" "lookup s q m = None"
  shows "fst (process_loop (\<lambda>m. init_set s m q) (\<lambda>src m. meet_set s src m q) mc True ms {} cur unk)
    = fst (process_loop (\<lambda>m. init_set s m q) (\<lambda>src m. meet_set s src m q) mc' True ms {} cur unk)"
proof (cases ms)
  case (Cons x xs)
  show ?thesis
  proof (cases "x = m")
    case True
    then show ?thesis using Cons init_unknown [OF assms(2)] by (simp add: ids_def)
  next
    case False
    then have "m \<in> set xs" using assms(1) Cons by simp
    then show ?thesis using Cons meet_loop_counts [OF _ assms(2), of xs] by (auto simp: Let_def split: prod.splits)
  qed
qed simp

end

end
