(* ===== verification/Phrases.thy ===== *)
theory Phrases
  imports Query_Processor Texts
begin

text \<open>
  Phrases and results: \<open>src/netspeak/model/Phrase.{hpp,cpp}\<close>, \<open>Words.{hpp,cpp}\<close>,
  \<open>RawRefResult.{hpp,cpp}\<close>, \<open>RawPhraseResult.hpp\<close>, \<open>RawResult.{hpp,cpp}\<close>,
  \<open>SearchResult.hpp\<close> and the vector helpers of \<open>src/netspeak/util/Vec.hpp\<close>.
\<close>

unbundle bit_operations_syntax

section \<open>Phrase ids\<close>

datatype phrase_id = PhraseId (pid_length: u32) (pid_local: u32)

text \<open>The conversion to \<open>uint64_t\<close>.\<close>

definition pid_to_u64 :: "phrase_id \<Rightarrow> u64" where
  "pid_to_u64 p = push_bit 32 (ucast (pid_length p)) OR ucast (pid_local p)"

instantiation phrase_id :: linorder
begin

definition less_phrase_id :: "phrase_id \<Rightarrow> phrase_id \<Rightarrow> bool" where
  "less_phrase_id a b =
    (if pid_length a \<noteq> pid_length b then pid_length a < pid_length b else pid_local a < pid_local b)"

definition less_eq_phrase_id :: "phrase_id \<Rightarrow> phrase_id \<Rightarrow> bool" where
  "less_eq_phrase_id a b = (a < b \<or> a = b)"

instance
proof
  fix a b c :: phrase_id
  show "(a < b) = (a \<le> b \<and> \<not> b \<le> a)"
    by (auto simp: less_phrase_id_def less_eq_phrase_id_def split: if_splits)
  show "a \<le> a" by (simp add: less_eq_phrase_id_def)
  show "a \<le> b \<Longrightarrow> b \<le> c \<Longrightarrow> a \<le> c"
    by (auto simp: less_phrase_id_def less_eq_phrase_id_def split: if_splits)
  show "a \<le> b \<Longrightarrow> b \<le> a \<Longrightarrow> a = b"
    by (auto simp: less_phrase_id_def less_eq_phrase_id_def split: if_splits)
  show "a \<le> b \<or> b \<le> a"
    by (cases a; cases b) (auto simp: less_phrase_id_def less_eq_phrase_id_def)
qed

end

section \<open>Phrases\<close>

record phrase =
  ph_id :: phrase_id
  ph_freq :: u64
  ph_words :: "string list"

definition phrase_equal :: "phrase \<Rightarrow> phrase \<Rightarrow> bool" where
  "phrase_equal a b \<longleftrightarrow> ph_id a = ph_id b"

definition phrase_less :: "phrase \<Rightarrow> phrase \<Rightarrow> bool" where
  "phrase_less a b = (if ph_freq a \<noteq> ph_freq b then ph_freq a > ph_freq b else ph_id a < ph_id b)"

fun show_words_rest :: "string list \<Rightarrow> string" where
  "show_words_rest [] = []"
| "show_words_rest (w # ws) = '' '' @ [CHR 0x22] @ w @ [CHR 0x22] @ show_words_rest ws"

definition show_words :: "string list \<Rightarrow> string" where
  "show_words ws = (case ws of
      [] \<Rightarrow> ''<empty>''
    | w # rest \<Rightarrow> [CHR 0x22] @ w @ [CHR 0x22] @ show_words_rest rest)"

definition show_phrase_id :: "phrase_id \<Rightarrow> string" where
  "show_phrase_id p = ''Id('' @ show_nat (unat (pid_length p)) @ '', '' @ show_nat (unat (pid_local p)) @ '')''"

definition show_phrase :: "phrase \<Rightarrow> string" where
  "show_phrase p = ''Phrase{ id: '' @ show_phrase_id (ph_id p) @ '', freq: '' @ show_nat (unat (ph_freq p))
    @ '', words: ('' @ show_words (ph_words p) @ '') }''"

text \<open>\<open>Words::is_subsequence_of\<close>: the loop over the positions of the other words.\<close>

fun is_subsequence_of :: "string list \<Rightarrow> string list \<Rightarrow> bool" where
  "is_subsequence_of ws [] = False"
| "is_subsequence_of ws (v # vs) =
    (if length ws > length (v # vs) then False
     else if ws = take (length ws) (v # vs) then True
     else is_subsequence_of ws vs)"

section \<open>Vectors\<close>

text \<open>
  The loop of \<open>vec_sorted_filter_dups\<close> moves the first of each run of equal elements to the
  front; \<open>write_i\<close> is the position of the last one.  The final \<open>erase\<close> removes the single
  element behind it; \<open>None\<close> is the undefined \<open>erase\<close> at the end of the vector.
\<close>

fun filter_dups_loop :: "'a list \<Rightarrow> nat \<Rightarrow> nat list \<Rightarrow> 'a list \<times> nat" where
  "filter_dups_loop xs write_i [] = (xs, write_i)"
| "filter_dups_loop xs write_i (read_i # is) =
    (if xs ! read_i \<noteq> xs ! write_i
     then filter_dups_loop (xs[write_i + 1 := xs ! read_i]) (write_i + 1) is
     else filter_dups_loop xs write_i is)"

definition vec_sorted_filter_dups :: "'a list \<Rightarrow> 'a list option" where
  "vec_sorted_filter_dups xs =
    (if length xs < 2 then Some xs
     else
       (let (xs, write_i) = filter_dups_loop xs 0 [1..<length xs]
        in if write_i + 1 < length xs then Some (erase_at (write_i + 1) xs) else None))"

text \<open>\<open>std::set_union\<close> and the insertion into a \<open>std::set\<close> with the order \<open>lt\<close>.\<close>

fun set_union :: "('a \<Rightarrow> 'a \<Rightarrow> bool) \<Rightarrow> 'a list \<Rightarrow> 'a list \<Rightarrow> 'a list" where
  "set_union lt [] ys = ys"
| "set_union lt (x # xs) [] = x # xs"
| "set_union lt (x # xs) (y # ys) =
    (if lt y x then y # set_union lt (x # xs) ys
     else x # set_union lt xs (if lt x y then y # ys else ys))"

fun set_insert :: "('a \<Rightarrow> 'a \<Rightarrow> bool) \<Rightarrow> 'a \<Rightarrow> 'a list \<Rightarrow> 'a list" where
  "set_insert lt x [] = [x]"
| "set_insert lt x (y # ys) =
    (if lt x y then x # y # ys else if lt y x then y # set_insert lt x ys else y # ys)"

section \<open>Results\<close>

definition ref_equal :: "raw_ref \<Rightarrow> raw_ref \<Rightarrow> bool" where
  "ref_equal a b \<longleftrightarrow> ref_id a = ref_id b"

text \<open>The order of references looks at the frequency only.\<close>

definition ref_less :: "raw_ref \<Rightarrow> raw_ref \<Rightarrow> bool" where
  "ref_less a b \<longleftrightarrow> ref_freq a > ref_freq b"

definition disjoint_with :: "raw_ref_result \<Rightarrow> raw_ref_result \<Rightarrow> bool" where
  "disjoint_with this other =
    (if rr_refs this = [] \<or> rr_refs other = [] then True
     else if ref_less (hd (rr_refs this)) (hd (rr_refs other))
     then ref_less (last (rr_refs this)) (hd (rr_refs other))
     else ref_less (last (rr_refs other)) (hd (rr_refs this)))"

definition merge_refs :: "raw_ref_result \<Rightarrow> raw_ref_result \<Rightarrow> raw_ref_result option" where
  "merge_refs this other =
    map_option (\<lambda>unknown. \<lparr>rr_refs = set_union ref_less (rr_refs this) (rr_refs other), rr_unknown_words = unknown\<rparr>)
      (vec_sorted_filter_dups (sort (rr_unknown_words this @ rr_unknown_words other)))"

record raw_phrase_result =
  rp_phrases :: "phrase list"
  rp_unknown_words :: "string list"

record raw_result =
  raw_phrases :: "(norm_query \<times> raw_phrase_result) list"
  raw_refs :: "(norm_query \<times> raw_ref_result) list"
  raw_unknown_words :: "string list"

definition empty_result :: raw_result where
  "empty_result = \<lparr>raw_phrases = [], raw_refs = [], raw_unknown_words = []\<rparr>"

text \<open>\<open>unknown_words_\<close> is a \<open>std::set<std::string>\<close>: a sorted list without duplicates.\<close>

definition insert_unknown :: "string list \<Rightarrow> string list \<Rightarrow> string list" where
  "insert_unknown words unknown = foldl (\<lambda>s w. set_insert (<) w s) unknown words"

definition add_phrase_item :: "raw_result \<Rightarrow> norm_query \<Rightarrow> raw_phrase_result \<Rightarrow> raw_result" where
  "add_phrase_item r query result =
    (let r = r\<lparr>raw_unknown_words := insert_unknown (rp_unknown_words result) (raw_unknown_words r)\<rparr>
     in if rp_phrases result \<noteq> [] then r\<lparr>raw_phrases := raw_phrases r @ [(query, result)]\<rparr> else r)"

definition add_ref_item :: "raw_result \<Rightarrow> norm_query \<Rightarrow> raw_ref_result \<Rightarrow> raw_result" where
  "add_ref_item r query result =
    (let r = r\<lparr>raw_unknown_words := insert_unknown (rr_unknown_words result) (raw_unknown_words r)\<rparr>
     in if rr_refs result \<noteq> [] then r\<lparr>raw_refs := raw_refs r @ [(query, result)]\<rparr> else r)"

section \<open>Sets in an order\<close>

text \<open>A strict weak order, as the standard library requires it.\<close>

locale weak_order =
  fixes lt :: "'a \<Rightarrow> 'a \<Rightarrow> bool"
  assumes less_irrefl: "\<not> lt x x"
    and less_trans: "lt x y \<Longrightarrow> lt y z \<Longrightarrow> lt x z"
    and less_cases: "lt x y \<Longrightarrow> lt x z \<or> lt z y"
begin

definition equivalent :: "'a \<Rightarrow> 'a \<Rightarrow> bool" where
  "equivalent x y \<longleftrightarrow> \<not> lt x y \<and> \<not> lt y x"

definition ordered :: "'a list \<Rightarrow> bool" where
  "ordered xs \<longleftrightarrow> sorted_wrt lt xs"

lemma set_insert_subset: "set (set_insert lt x xs) \<subseteq> insert x (set xs)"
  by (induction xs) auto

lemma set_insert_superset: "set xs \<subseteq> set (set_insert lt x xs)"
  by (induction xs) auto

lemma set_insert_ordered: "ordered xs \<Longrightarrow> ordered (set_insert lt x xs)"
proof (induction xs)
  case (Cons y ys)
  then show ?case
    using set_insert_subset [of x ys] less_trans by (fastforce simp: ordered_def)
qed (simp add: ordered_def)

lemma set_insert_mem: "ordered xs \<Longrightarrow> \<exists>y \<in> set (set_insert lt x xs). equivalent x y"
  by (induction xs) (auto simp: ordered_def equivalent_def less_irrefl)

lemma set_insert_all:
  "ordered s \<Longrightarrow> ordered (foldl (\<lambda>s x. set_insert lt x s) s xs)
    \<and> set (foldl (\<lambda>s x. set_insert lt x s) s xs) \<subseteq> set s \<union> set xs
    \<and> set s \<subseteq> set (foldl (\<lambda>s x. set_insert lt x s) s xs)
    \<and> (\<forall>x \<in> set xs. \<exists>y \<in> set (foldl (\<lambda>s x. set_insert lt x s) s xs). equivalent x y)"
proof (induction xs arbitrary: s)
  case Nil
  then show ?case by simp
next
  case (Cons x xs)
  note IH = Cons.IH [OF set_insert_ordered [OF Cons.prems], of x]
  show ?case
    using IH set_insert_subset [of x s] set_insert_superset [of s x] set_insert_mem [OF Cons.prems, of x]
    by simp blast
qed

end

lemma phrase_order: "weak_order phrase_less"
  by unfold_locales (auto simp: phrase_less_def split: if_splits)

interpretation phrases: weak_order phrase_less
  by (rule phrase_order)

interpretation strings: weak_order "(<) :: string \<Rightarrow> string \<Rightarrow> bool"
  by unfold_locales auto

interpretation refs: weak_order ref_less
  by unfold_locales (auto simp: ref_less_def)

section \<open>The order of the ids\<close>

lemma pid_to_u64_unat: "unat (pid_to_u64 p) = unat (pid_length p) * 2 ^ 32 + unat (pid_local p)"
proof -
  have l: "unat (pid_local p) < 2 ^ 32" "unat (pid_length p) < 2 ^ 32" by (rule unat_u32_less)+
  have "unat (pid_to_u64 p) = or (push_bit 32 (unat (pid_length p))) (unat (pid_local p))"
    unfolding pid_to_u64_def unsigned_or_eq unsigned_push_bit_eq unsigned_ucast_eq
    using l by (simp add: take_bit_nat_eq_self push_bit_eq_mult)
  also have "\<dots> = push_bit 32 (unat (pid_length p)) + unat (pid_local p)"
  proof (rule disjunctive_add [symmetric])
    fix n
    have "take_bit 32 (unat (pid_local p)) = unat (pid_local p)" using l by (simp add: take_bit_nat_eq_self)
    then have "bit (unat (pid_local p)) n \<Longrightarrow> n < 32" by (metis bit_take_bit_iff)
    then show "\<not> bit (push_bit 32 (unat (pid_length p))) n \<or> \<not> bit (unat (pid_local p)) n"
      by (auto simp: bit_push_bit_iff)
  qed
  finally show ?thesis by (simp add: push_bit_eq_mult)
qed

lemma pid_less_iff: "a < b \<longleftrightarrow> pid_to_u64 a < pid_to_u64 b"
proof -
  have l: "unat (pid_local p) < 2 ^ 32" for p by (rule unat_u32_less)
  have lt: "a < b \<longleftrightarrow> unat (pid_length a) * 2 ^ 32 + unat (pid_local a) < unat (pid_length b) * 2 ^ 32 + unat (pid_local b)" for a b
  proof (cases "unat (pid_length a)" "unat (pid_length b)" rule: linorder_cases)
    case less
    then have "unat (pid_length a) * 2 ^ 32 + 2 ^ 32 \<le> unat (pid_length b) * 2 ^ 32" by simp
    then show ?thesis using less l [of a] by (auto simp: less_phrase_id_def word_less_nat_alt word_unat_eq_iff)
  next
    case equal
    then show ?thesis by (simp add: less_phrase_id_def word_less_nat_alt word_unat_eq_iff)
  next
    case greater
    then have "unat (pid_length b) * 2 ^ 32 + 2 ^ 32 \<le> unat (pid_length a) * 2 ^ 32" by simp
    then show ?thesis using greater l [of b] by (auto simp: less_phrase_id_def word_less_nat_alt word_unat_eq_iff)
  qed
  show ?thesis
    by (simp only: lt word_less_nat_alt pid_to_u64_unat)
qed

lemma pid_less_u64: "a < b \<Longrightarrow> pid_to_u64 a < pid_to_u64 b"
  by (simp only: pid_less_iff)

text \<open>
  The order of phrase ids is the order of their 64-bit values, as the comment in
  \<open>operator<\<close> says, and different ids have different values; the value is
  \<open>length * 2 ^ 32 + local\<close>.
\<close>

theorem phrase_id_order:
  "(a < b \<longleftrightarrow> pid_to_u64 a < pid_to_u64 b) \<and> (a = b \<longleftrightarrow> pid_to_u64 a = pid_to_u64 b)
    \<and> unat (pid_to_u64 a) = unat (pid_length a) * 2 ^ 32 + unat (pid_local a)"
  using pid_less_iff [of a b] pid_less_iff [of b a] pid_to_u64_unat [of a]
  by (metis less_irrefl linorder_neqE)

section \<open>What the helpers lose\<close>

text \<open>
  \<open>std::set_union\<close> takes references of equal frequency for equal, so merging loses phrases.
  Three equal unknown words leave one too many, and for two or more words without duplicates the
  element behind the last one is erased, which is undefined.
\<close>

lemma merge_loses_refs:
  "set_union ref_less [\<lparr>ref_id = 1, ref_freq = 7\<rparr>] [\<lparr>ref_id = 2, ref_freq = 7\<rparr>] = [\<lparr>ref_id = 1, ref_freq = 7\<rparr>]"
  by (simp add: ref_less_def)

lemma filter_dups_leaves_duplicates:
  "vec_sorted_filter_dups [''a'', ''a'', ''a''] = Some [''a'', ''a'']"
  by code_simp

lemma filter_dups_erases_end: "vec_sorted_filter_dups [''a'', ''b''] = None"
  by code_simp

lemma is_subsequence_of_iff:
  "vs \<noteq> [] \<Longrightarrow> is_subsequence_of ws vs \<longleftrightarrow> (\<exists>xs ys. vs = xs @ ws @ ys)"
proof (induction ws vs rule: is_subsequence_of.induct)
  case (2 ws v vs)
  have step: "(\<exists>xs ys. v # vs = xs @ ws @ ys) \<longleftrightarrow> (\<exists>ys. v # vs = ws @ ys) \<or> (\<exists>xs ys. vs = xs @ ws @ ys)"
  proof
    assume "\<exists>xs ys. v # vs = xs @ ws @ ys"
    then obtain xs ys where "v # vs = xs @ ws @ ys" by blast
    then show "(\<exists>ys. v # vs = ws @ ys) \<or> (\<exists>xs ys. vs = xs @ ws @ ys)" by (cases xs) auto
  next
    assume "(\<exists>ys. v # vs = ws @ ys) \<or> (\<exists>xs ys. vs = xs @ ws @ ys)"
    then show "\<exists>xs ys. v # vs = xs @ ws @ ys" by (metis append_Cons append_Nil)
  qed
  have pre: "(\<exists>ys. v # vs = ws @ ys) \<longleftrightarrow> length ws \<le> length (v # vs) \<and> ws = take (length ws) (v # vs)"
  proof
    assume "length ws \<le> length (v # vs) \<and> ws = take (length ws) (v # vs)"
    then show "\<exists>ys. v # vs = ws @ ys" by (metis append_take_drop_id)
  next
    assume "\<exists>ys. v # vs = ws @ ys"
    then obtain ys where "v # vs = ws @ ys" by blast
    then show "length ws \<le> length (v # vs) \<and> ws = take (length ws) (v # vs)" by (simp only:) simp
  qed
  have long: "\<not> (\<exists>xs ys. vs = xs @ ws @ ys)" if "length ws > length (v # vs)" using that by auto
  show ?case
  proof (cases "vs = [] \<or> length ws > length (v # vs) \<or> ws = take (length ws) (v # vs)")
    case True
    then show ?thesis using pre long step by auto
  next
    case False
    then show ?thesis using 2 pre step by simp
  qed
qed simp

end
