(* ===== verification/Std_Heaps.thy ===== *)
theory Std_Heaps
  imports Prelude
begin

text \<open>
  The heap algorithms of the standard library that the cache uses: \<open>push_heap\<close>, \<open>pop_heap\<close> and
  \<open>make_heap\<close>, for the comparison \<open>greater\<close> on priorities, so that the element with the least
  priority is at the front.  The contract is the locale \<open>heap_algorithms\<close>; the binary heap
  below fulfils it.
\<close>

section \<open>The contract\<close>

record heap_ops =
  ho_push :: "(string \<Rightarrow> u32) \<Rightarrow> string list \<Rightarrow> string list"
  ho_pop :: "(string \<Rightarrow> u32) \<Rightarrow> string list \<Rightarrow> string list"
  ho_make :: "(string \<Rightarrow> u32) \<Rightarrow> string list \<Rightarrow> string list"

locale heap_algorithms =
  fixes H :: heap_ops
    and heap :: "(string \<Rightarrow> u32) \<Rightarrow> string list \<Rightarrow> bool"
  assumes heap_Nil: "heap p []"
    and heap_cong: "(\<And>x. x \<in> set xs \<Longrightarrow> p x = q x) \<Longrightarrow> heap p xs \<Longrightarrow> heap q xs"
    and heap_least: "heap p (x # xs) \<Longrightarrow> y \<in> set xs \<Longrightarrow> p x \<le> p y"
    and push_mset: "heap p xs \<Longrightarrow> mset (ho_push H p (xs @ [x])) = mset (xs @ [x])"
    and push_heap: "heap p xs \<Longrightarrow> heap p (ho_push H p (xs @ [x]))"
    and pop_spec: "heap p (x # xs) \<Longrightarrow> \<exists>ys. ho_pop H p (x # xs) = ys @ [x] \<and> mset ys = mset xs \<and> heap p ys"
    and make_mset: "mset (ho_make H p xs) = mset xs"
    and make_heap: "heap p (ho_make H p xs)"

section \<open>Binary heaps in a vector\<close>

definition exchange :: "'a list \<Rightarrow> nat \<Rightarrow> nat \<Rightarrow> 'a list" where
  "exchange xs i j = xs[i := xs ! j, j := xs ! i]"

definition parent :: "nat \<Rightarrow> nat" where
  "parent i = (i - 1) div 2"

lemma parent_less [termination_simp]: "0 < k \<Longrightarrow> parent k < k"
  by (simp add: parent_def)

fun sift_up :: "('a \<Rightarrow> u32) \<Rightarrow> 'a list \<Rightarrow> nat \<Rightarrow> 'a list" where
  "sift_up p xs i =
    (if i = 0 then xs
     else if p (xs ! i) < p (xs ! parent i) then sift_up p (exchange xs i (parent i)) (parent i)
     else xs)"

declare sift_up.simps [simp del]

definition push_heap :: "('a \<Rightarrow> u32) \<Rightarrow> 'a list \<Rightarrow> 'a list" where
  "push_heap p xs = sift_up p xs (length xs - 1)"

definition least_child :: "('a \<Rightarrow> u32) \<Rightarrow> 'a list \<Rightarrow> nat \<Rightarrow> nat" where
  "least_child p xs i =
    (if 2 * i + 2 < length xs \<and> p (xs ! (2 * i + 2)) < p (xs ! (2 * i + 1)) then 2 * i + 2 else 2 * i + 1)"

lemma least_child_bounds: "i < least_child p xs i" "least_child p xs i \<le> 2 * i + 2"
  by (simp_all add: least_child_def)

function sift_down :: "('a \<Rightarrow> u32) \<Rightarrow> 'a list \<Rightarrow> nat \<Rightarrow> 'a list" where
  "sift_down p xs i =
    (if length xs \<le> 2 * i + 1 then xs
     else
       (let m = least_child p xs i
        in if p (xs ! m) < p (xs ! i) then sift_down p (exchange xs i m) m else xs))"
  by pat_completeness auto
termination
  by (relation "measure (\<lambda>(p, xs, i). length xs - i)")
    (auto simp: exchange_def intro!: diff_less_mono2 least_child_bounds)

declare sift_down.simps [simp del]

definition pop_heap :: "('a \<Rightarrow> u32) \<Rightarrow> 'a list \<Rightarrow> 'a list" where
  "pop_heap p xs =
    (if length xs \<le> 1 then xs else sift_down p ((butlast xs)[0 := last xs]) 0 @ [hd xs])"

definition make_heap :: "('a \<Rightarrow> u32) \<Rightarrow> 'a list \<Rightarrow> 'a list" where
  "make_heap p xs = foldl (\<lambda>h x. push_heap p (h @ [x])) [] xs"

definition std_heaps :: heap_ops where
  "std_heaps = \<lparr>ho_push = push_heap, ho_pop = pop_heap, ho_make = make_heap\<rparr>"

section \<open>The heap order\<close>

definition is_heap :: "('a \<Rightarrow> u32) \<Rightarrow> 'a list \<Rightarrow> bool" where
  "is_heap p xs \<longleftrightarrow> (\<forall>k. 0 < k \<and> k < length xs \<longrightarrow> p (xs ! parent k) \<le> p (xs ! k))"

lemma parent_iff: "0 < k \<Longrightarrow> parent k = i \<longleftrightarrow> k = 2 * i + 1 \<or> k = 2 * i + 2"
  by (auto simp: parent_def)

lemma length_exchange [simp]: "length (exchange xs i j) = length xs"
  by (simp add: exchange_def)

lemma mset_exchange: "i < length xs \<Longrightarrow> j < length xs \<Longrightarrow> mset (exchange xs i j) = mset xs"
  by (simp add: exchange_def mset_swap)

lemma nth_exchange:
  "i < length xs \<Longrightarrow> j < length xs \<Longrightarrow> k < length xs \<Longrightarrow>
    exchange xs i j ! k = (if k = i then xs ! j else if k = j then xs ! i else xs ! k)"
  by (auto simp: exchange_def nth_list_update)

lemma heap_front:
  assumes "is_heap p xs" "k < length xs"
  shows "p (xs ! 0) \<le> p (xs ! k)"
  using assms(2)
proof (induction k rule: less_induct)
  case (less k)
  show ?case
  proof (cases "k = 0")
    case False
    then have "p (xs ! 0) \<le> p (xs ! parent k)" using less parent_less [of k] by simp
    also have "\<dots> \<le> p (xs ! k)" using assms(1) less.prems False by (simp add: is_heap_def)
    finally show ?thesis .
  qed simp
qed

text \<open>Everything is in order except perhaps that \<open>i\<close> is less than its parent.\<close>

definition heap_but_up :: "('a \<Rightarrow> u32) \<Rightarrow> 'a list \<Rightarrow> nat \<Rightarrow> bool" where
  "heap_but_up p xs i \<longleftrightarrow> i < length xs \<and> (\<forall>k. 0 < k \<and> k < length xs \<longrightarrow>
    (k \<noteq> i \<longrightarrow> p (xs ! parent k) \<le> p (xs ! k))
    \<and> (parent k = i \<longrightarrow> 0 < i \<longrightarrow> p (xs ! parent i) \<le> p (xs ! k)))"

lemma sift_up_heap:
  assumes "heap_but_up p xs i"
  shows "is_heap p (sift_up p xs i) \<and> mset (sift_up p xs i) = mset xs"
  using assms
proof (induction p xs i rule: sift_up.induct)
  case (1 p xs i)
  have i: "i < length xs" using "1.prems" by (simp add: heap_but_up_def)
  show ?case
  proof (cases "0 < i \<and> p (xs ! i) < p (xs ! parent i)")
    case False
    then have "sift_up p xs i = xs" by (auto simp: sift_up.simps [of p xs i])
    moreover have "is_heap p xs"
      unfolding is_heap_def using "1.prems" False by (auto simp: heap_but_up_def not_less)
    ultimately show ?thesis by simp
  next
    case True
    define j where "j = parent i"
    define ys where "ys = exchange xs i j"
    have j: "j < i" "j < length xs" using True i parent_less [of i] by (simp_all add: j_def)
    have nth: "k < length xs \<Longrightarrow> ys ! k = (if k = i then xs ! j else if k = j then xs ! i else xs ! k)" for k
      using nth_exchange [OF i j(2)] by (simp add: ys_def)
    have "heap_but_up p ys j"
      unfolding heap_but_up_def
    proof (intro conjI allI impI)
      show "j < length ys" using j by (simp add: ys_def)
      fix k assume k: "0 < k \<and> k < length ys"
      then have kl: "k < length xs" "parent k < length xs" using parent_less [of k] by (auto simp: ys_def)
      have h: "k \<noteq> i \<longrightarrow> p (xs ! parent k) \<le> p (xs ! k)"
          "parent k = i \<longrightarrow> p (xs ! parent i) \<le> p (xs ! k)"
        using "1.prems" k kl True by (auto simp: heap_but_up_def)
      have lt: "p (xs ! i) < p (xs ! j)" using True by (simp add: j_def)
      show "p (ys ! parent k) \<le> p (ys ! k)" if kj: "k \<noteq> j"
      proof (cases "k = i")
        case True
        then have "parent k = j" by (simp add: j_def)
        then have "ys ! parent k = xs ! i" "ys ! k = xs ! j"
          using nth [OF kl(1)] nth [OF kl(2)] True j(1) by auto
        then show ?thesis using lt by (simp add: less_imp_le)
      next
        case ki: False
        have yk: "ys ! k = xs ! k" using nth [OF kl(1)] ki kj by simp
        have le: "p (xs ! parent k) \<le> p (xs ! k)" using h(1) ki by simp
        consider "parent k = i" | "parent k \<noteq> i" "parent k = j" | "parent k \<noteq> i" "parent k \<noteq> j" by blast
        then show ?thesis
        proof cases
          case 1
          then have "ys ! parent k = xs ! j" using nth [OF kl(2)] by simp
          then show ?thesis using h(2) 1 yk by (simp add: j_def)
        next
          case 2
          then have "ys ! parent k = xs ! i" using nth [OF kl(2)] by simp
          then show ?thesis using lt le 2(2) yk by (metis less_imp_le order_trans)
        next
          case 3
          then have "ys ! parent k = xs ! parent k" using nth [OF kl(2)] by simp
          then show ?thesis using le yk by simp
        qed
      qed
      assume pk: "parent k = j" and "0 < j"
      have pj: "p (xs ! parent j) \<le> p (xs ! j)"
        using "1.prems" j \<open>0 < j\<close> by (auto simp: heap_but_up_def)
      have "parent j < j" using parent_less [OF \<open>0 < j\<close>] .
      then have "ys ! parent j = xs ! parent j" using nth [of "parent j"] j by simp
      moreover have "p (xs ! parent j) \<le> p (ys ! k)"
        using pj h(1) pk kl nth [of k] parent_less [of k] k by (auto intro: order_trans)
      ultimately show "p (ys ! parent j) \<le> p (ys ! k)" by simp
    qed
    moreover have "sift_up p xs i = sift_up p ys j"
      using True by (simp add: sift_up.simps [of p xs i] ys_def j_def)
    moreover have "mset ys = mset xs" using mset_exchange i j(2) by (simp add: ys_def)
    ultimately show ?thesis using "1.IH" True by (simp add: ys_def j_def)
  qed
qed

lemma push_heap_spec:
  assumes "is_heap p xs"
  shows "is_heap p (push_heap p (xs @ [x]))" "mset (push_heap p (xs @ [x])) = mset (xs @ [x])"
proof -
  have "heap_but_up p (xs @ [x]) (length xs)"
    unfolding heap_but_up_def
  proof (intro conjI allI impI)
    fix k assume k: "0 < k \<and> k < length (xs @ [x])"
    then have "parent k < k" using parent_less by blast
    show "k \<noteq> length xs \<Longrightarrow> p ((xs @ [x]) ! parent k) \<le> p ((xs @ [x]) ! k)"
      using k assms \<open>parent k < k\<close> by (auto simp: is_heap_def nth_append)
    show "parent k = length xs \<Longrightarrow> p ((xs @ [x]) ! parent (length xs)) \<le> p ((xs @ [x]) ! k)"
      using k \<open>parent k < k\<close> by simp
  qed simp
  from sift_up_heap [OF this]
  show "is_heap p (push_heap p (xs @ [x]))" "mset (push_heap p (xs @ [x])) = mset (xs @ [x])"
    by (simp_all add: push_heap_def)
qed

text \<open>Everything is in order except perhaps that \<open>i\<close> is greater than a child.\<close>

definition heap_but_down :: "('a \<Rightarrow> u32) \<Rightarrow> 'a list \<Rightarrow> nat \<Rightarrow> bool" where
  "heap_but_down p xs i \<longleftrightarrow> i < length xs \<and> (\<forall>k. 0 < k \<and> k < length xs \<longrightarrow>
    (parent k \<noteq> i \<longrightarrow> p (xs ! parent k) \<le> p (xs ! k))
    \<and> (parent k = i \<longrightarrow> 0 < i \<longrightarrow> p (xs ! parent i) \<le> p (xs ! k)))"

lemma sift_down_heap:
  assumes "heap_but_down p xs i"
  shows "is_heap p (sift_down p xs i) \<and> mset (sift_down p xs i) = mset xs"
  using assms
proof (induction p xs i rule: sift_down.induct)
  case (1 p xs i)
  have i: "i < length xs" using "1.prems" by (simp add: heap_but_down_def)
  have h: "parent k \<noteq> i \<longrightarrow> p (xs ! parent k) \<le> p (xs ! k)"
      "parent k = i \<longrightarrow> 0 < i \<longrightarrow> p (xs ! parent i) \<le> p (xs ! k)" if "0 < k" "k < length xs" for k
    using "1.prems" that by (auto simp: heap_but_down_def)
  show ?case
  proof (cases "length xs \<le> 2 * i + 1")
    case True
    then have "sift_down p xs i = xs" by (simp add: sift_down.simps [of p xs i])
    moreover have "is_heap p xs"
      unfolding is_heap_def using h(1) True by (auto simp: parent_iff)
    ultimately show ?thesis by simp
  next
    case False
    define m where "m = least_child p xs i"
    have m: "m = 2 * i + 1 \<or> m = 2 * i + 2" "m < length xs" "i < m"
      using False by (auto simp: m_def least_child_def)
    then have pm: "parent m = i" by (auto simp: parent_def)
    have least: "p (xs ! m) \<le> p (xs ! k)" if "0 < k" "k < length xs" "parent k = i" for k
      using that by (auto simp: m_def least_child_def parent_iff not_less less_imp_le)
    show ?thesis
    proof (cases "p (xs ! m) < p (xs ! i)")
      case no: False
      then have "sift_down p xs i = xs" using False by (simp add: sift_down.simps [of p xs i] m_def Let_def)
      moreover have "is_heap p xs"
        unfolding is_heap_def
      proof (intro allI impI)
        fix k assume k: "0 < k \<and> k < length xs"
        show "p (xs ! parent k) \<le> p (xs ! k)"
          using h(1) [of k] least [of k] no k by (cases "parent k = i") auto
      qed
      ultimately show ?thesis by simp
    next
      case yes: True
      define ys where "ys = exchange xs i m"
      have nth: "k < length xs \<Longrightarrow> ys ! k = (if k = i then xs ! m else if k = m then xs ! i else xs ! k)" for k
        using nth_exchange [OF i m(2)] by (simp add: ys_def)
      have "heap_but_down p ys m"
        unfolding heap_but_down_def
      proof (intro conjI allI impI)
        show "m < length ys" using m by (simp add: ys_def)
        fix k assume k: "0 < k \<and> k < length ys"
        then have kl: "0 < k" "k < length xs" "parent k < length xs" "parent k < k"
          using parent_less [of k] by (auto simp: ys_def)
        show "parent k \<noteq> m \<Longrightarrow> p (ys ! parent k) \<le> p (ys ! k)"
        proof -
          assume "parent k \<noteq> m"
          show ?thesis
          proof (cases "parent k = i")
            case True
            then have "ys ! parent k = xs ! m" using nth [OF kl(3)] by simp
            moreover have "k \<noteq> i" using True kl(4) by simp
            ultimately show ?thesis
              using least [OF kl(1,2) True] nth [OF kl(2)] yes by (auto intro: less_imp_le)
          next
            case other: False
            have "ys ! parent k = xs ! parent k" using nth [OF kl(3)] other \<open>parent k \<noteq> m\<close> by simp
            moreover have "k \<noteq> m" using other pm by auto
            moreover have "p (xs ! parent k) \<le> p (xs ! m)" if "k = i"
              using h(2) [of m] m pm that kl(1) by simp
            ultimately show ?thesis using h(1) [OF kl(1,2)] other nth [OF kl(2)] by auto
          qed
        qed
        assume "parent k = m" "0 < m"
        then have "k \<noteq> i" "k \<noteq> m" using kl m by auto
        then have "ys ! k = xs ! k" "ys ! parent m = xs ! m" using nth kl i pm by auto
        then show "p (ys ! parent m) \<le> p (ys ! k)"
          using h(1) [OF kl(1,2)] \<open>parent k = m\<close> m(3) by auto
      qed
      moreover have "sift_down p xs i = sift_down p ys m"
        using yes False by (simp add: sift_down.simps [of p xs i] ys_def m_def Let_def)
      moreover have "mset ys = mset xs" using mset_exchange i m(2) by (simp add: ys_def)
      ultimately show ?thesis using "1.IH" False yes by (simp add: ys_def m_def)
    qed
  qed
qed

lemma pop_heap_spec:
  assumes "is_heap p (x # xs)"
  shows "\<exists>ys. pop_heap p (x # xs) = ys @ [x] \<and> mset ys = mset xs \<and> is_heap p ys"
proof (cases xs rule: rev_cases)
  case Nil
  then show ?thesis by (intro exI [of _ "[]"]) (simp add: pop_heap_def is_heap_def)
next
  case (snoc zs z)
  define front where "front = (x # zs)[0 := z]"
  have f: "front = z # zs" by (simp add: front_def)
  have "heap_but_down p (z # zs) 0"
    unfolding heap_but_down_def
  proof (intro conjI allI impI)
    fix k assume k: "0 < k \<and> k < length (z # zs)" and pk: "parent k \<noteq> 0"
    have "parent k < k" using k parent_less by blast
    moreover have "p ((x # xs) ! parent k) \<le> p ((x # xs) ! k)"
      using assms k snoc by (simp add: is_heap_def)
    ultimately show "p ((z # zs) ! parent k) \<le> p ((z # zs) ! k)"
      using k pk snoc by (auto simp: nth_Cons nth_append split: nat.splits)
  qed simp_all
  from sift_down_heap [OF this]
  have s: "is_heap p (sift_down p (z # zs) 0)" "mset (sift_down p (z # zs) 0) = mset xs"
    using snoc by simp_all
  have "pop_heap p (x # xs) = sift_down p (z # zs) 0 @ [x]"
    using snoc by (simp add: pop_heap_def)
  then show ?thesis using s by blast
qed

lemma make_heap_spec: "is_heap p (make_heap p xs) \<and> mset (make_heap p xs) = mset xs"
proof -
  have "is_heap p h \<Longrightarrow> is_heap p (foldl (\<lambda>h x. push_heap p (h @ [x])) h xs)
      \<and> mset (foldl (\<lambda>h x. push_heap p (h @ [x])) h xs) = mset h + mset xs" for h
  proof (induction xs arbitrary: h)
    case (Cons x xs)
    then show ?case using push_heap_spec [of p h x] by simp
  qed simp
  from this [of "[]"] show ?thesis by (simp add: make_heap_def is_heap_def)
qed

interpretation std: heap_algorithms std_heaps is_heap
proof (unfold_locales, goal_cases)
  case (1 p)
  then show ?case by (simp add: is_heap_def)
next
  case (2 xs p q)
  show ?case
    unfolding is_heap_def
  proof (intro allI impI)
    fix k assume k: "0 < k \<and> k < length xs"
    then have "xs ! parent k \<in> set xs" "xs ! k \<in> set xs" using parent_less [of k] by auto
    then show "q (xs ! parent k) \<le> q (xs ! k)" using 2 k by (auto simp: is_heap_def)
  qed
next
  case (3 p x xs y)
  then obtain k where "k < length xs" "y = xs ! k" by (auto simp: in_set_conv_nth)
  then show ?case using heap_front [OF 3(1), of "Suc k"] by simp
qed (simp_all add: std_heaps_def push_heap_spec pop_heap_spec make_heap_spec)

end
