(* ===== verification/Cache.thy ===== *)
theory Cache
  imports Main
begin

text \<open>
  The interface of the result cache that \<open>Netspeak\<close> uses (\<open>find\<close>, \<open>insert\<close> and \<open>update\<close> of
  \<open>src/netspeak/util/LfuCache.hpp\<close>): what is found was put there before.  A cache may forget
  entries whenever something is put, so the laws bound its content from above.
\<close>

locale result_cache =
  fixes find_in :: "'c \<Rightarrow> string \<Rightarrow> 'v option \<times> 'c"
    and insert_in :: "'c \<Rightarrow> string \<Rightarrow> 'v \<Rightarrow> 'c \<times> bool"
    and update_in :: "'c \<Rightarrow> string \<Rightarrow> 'v \<Rightarrow> 'c \<times> bool"
    and content_of :: "'c \<Rightarrow> string \<Rightarrow> 'v option"
    and valid :: "'c \<Rightarrow> bool"
  assumes find_value: "valid c \<Longrightarrow> fst (find_in c k) = content_of c k"
    and find_content: "valid c \<Longrightarrow> content_of (snd (find_in c k)) = content_of c"
    and find_valid: "valid c \<Longrightarrow> valid (snd (find_in c k))"
    and insert_content: "valid c \<Longrightarrow> content_of (fst (insert_in c k v)) \<subseteq>\<^sub>m
      (if content_of c k = None then (content_of c)(k \<mapsto> v) else content_of c)"
    and insert_valid: "valid c \<Longrightarrow> valid (fst (insert_in c k v))"
    and update_content: "valid c \<Longrightarrow> content_of (fst (update_in c k v)) \<subseteq>\<^sub>m (content_of c)(k \<mapsto> v)
      \<or> content_of (fst (update_in c k v)) = content_of c"
    and update_valid: "valid c \<Longrightarrow> valid (fst (update_in c k v))"
begin

text \<open>A property of all entries is kept by every operation that puts only such entries.\<close>

definition entries_ok :: "(string \<Rightarrow> 'v \<Rightarrow> bool) \<Rightarrow> 'c \<Rightarrow> bool" where
  "entries_ok P c \<longleftrightarrow> valid c \<and> (\<forall>k v. content_of c k = Some v \<longrightarrow> P k v)"

lemma entries_find:
  "entries_ok P c \<Longrightarrow> find_in c k = (r, c') \<Longrightarrow> entries_ok P c' \<and> (\<forall>v. r = Some v \<longrightarrow> P k v)"
  using find_value [of c k] find_content [of c k] find_valid [of c k] by (auto simp: entries_ok_def)

lemma entries_put:
  assumes "entries_ok P c" "P k v"
  shows "entries_ok P (fst (insert_in c k v))" "entries_ok P (fst (update_in c k v))"
proof -
  have c: "valid c" "\<forall>k v. content_of c k = Some v \<longrightarrow> P k v" using assms(1) by (auto simp: entries_ok_def)
  have le: "\<forall>k v. m k = Some v \<longrightarrow> P k v" if "m \<subseteq>\<^sub>m m'" "\<forall>k v. m' k = Some v \<longrightarrow> P k v" for m m'
    using that by (metis map_le_def domI)
  have new: "\<forall>k' v'. ((content_of c)(k \<mapsto> v)) k' = Some v' \<longrightarrow> P k' v'"
    using c(2) assms(2) by simp
  show "entries_ok P (fst (insert_in c k v))"
  proof (cases "content_of c k")
    case None
    then have "content_of (fst (insert_in c k v)) \<subseteq>\<^sub>m (content_of c)(k \<mapsto> v)"
      using insert_content [OF c(1), of k v] by simp
    from le [OF this new] show ?thesis using insert_valid [OF c(1)] unfolding entries_ok_def by blast
  next
    case (Some x)
    then have "content_of (fst (insert_in c k v)) \<subseteq>\<^sub>m content_of c"
      using insert_content [OF c(1), of k v] by simp
    from le [OF this c(2)] show ?thesis using insert_valid [OF c(1)] unfolding entries_ok_def by blast
  qed
  have "\<forall>k' v'. content_of (fst (update_in c k v)) k' = Some v' \<longrightarrow> P k' v'"
    using update_content [OF c(1), of k v]
  proof
    assume "content_of (fst (update_in c k v)) \<subseteq>\<^sub>m (content_of c)(k \<mapsto> v)"
    from le [OF this new] show ?thesis .
  qed (use c(2) in simp)
  then show "entries_ok P (fst (update_in c k v))" using update_valid [OF c(1)] unfolding entries_ok_def by blast
qed

end

end
