(* ===== verification/Lfu_Cache.thy ===== *)
theory Lfu_Cache
  imports Std_Heaps Cache
begin

text \<open>
  \<open>util::LfuCache\<close> of \<open>src/netspeak/util/LfuCache.hpp\<close>.

  \<open>policy_\<close> is a heap of pointers to (key, priority) pairs and \<open>storage_\<close> maps every key to its
  value and to the same pair.  Every key has one pair, so a pointer is represented by the key
  and the priority is kept with the value; a change through one pointer is seen through the
  other.  The capacity is what was reserved for the vector.
\<close>

record 'v lfu_cache =
  lc_policy :: "string list"
  lc_storage :: "string \<Rightarrow> ('v \<times> u32) option"
  lc_capacity :: nat
  lc_acc_count :: u64
  lc_hit_count :: u64

section \<open>Operations\<close>

definition new_cache :: "nat \<Rightarrow> 'v lfu_cache" where
  "new_cache capacity = \<lparr>lc_policy = [], lc_storage = Map.empty, lc_capacity = capacity,
    lc_acc_count = 0, lc_hit_count = 0\<rparr>"

definition lc_priority :: "'v lfu_cache \<Rightarrow> string \<Rightarrow> u32" where
  "lc_priority c key = (case lc_storage c key of None \<Rightarrow> 0 | Some (value, priority) \<Rightarrow> priority)"

definition lc_size :: "'v lfu_cache \<Rightarrow> nat" where
  "lc_size c = length (lc_policy c)"

definition remove_top :: "heap_ops \<Rightarrow> 'v lfu_cache \<Rightarrow> 'v lfu_cache" where
  "remove_top H c =
    (if lc_policy c = [] then c
     else
       (let policy = ho_pop H (lc_priority c) (lc_policy c)
        in c\<lparr>lc_storage := (lc_storage c)(last policy := None), lc_policy := butlast policy\<rparr>))"

text \<open>
  \<open>insert_\<close>: the new entry is in the storage, still without a pair, while the policy makes
  room.
\<close>

definition lc_do_insert :: "heap_ops \<Rightarrow> 'v lfu_cache \<Rightarrow> string \<Rightarrow> 'v \<Rightarrow> 'v lfu_cache \<times> bool" where
  "lc_do_insert H c key value =
    (case lc_storage c key of
       Some _ \<Rightarrow> (c, False)
     | None \<Rightarrow>
         (let c1 = c\<lparr>lc_storage := (lc_storage c)(key \<mapsto> (value, 0))\<rparr>;
              c2 = (if lc_size c1 = lc_capacity c1 then remove_top H c1 else c1);
              c3 = c2\<lparr>lc_storage := (lc_storage c2)(key \<mapsto> (value, 1)), lc_policy := lc_policy c2 @ [key]\<rparr>
          in (c3\<lparr>lc_policy := ho_push H (lc_priority c3) (lc_policy c3)\<rparr>, True)))"

definition lc_insert :: "heap_ops \<Rightarrow> 'v lfu_cache \<Rightarrow> string \<Rightarrow> 'v \<Rightarrow> 'v lfu_cache \<times> bool" where
  "lc_insert H c key value = (if lc_capacity c = 0 then (c, False) else lc_do_insert H c key value)"

definition set_entry :: "heap_ops \<Rightarrow> 'v lfu_cache \<Rightarrow> string \<Rightarrow> 'v \<times> u32 \<Rightarrow> 'v lfu_cache" where
  "set_entry H c key entry =
    (let c1 = c\<lparr>lc_storage := (lc_storage c)(key \<mapsto> entry)\<rparr>
     in c1\<lparr>lc_policy := ho_make H (lc_priority c1) (lc_policy c1)\<rparr>)"

definition lc_update :: "heap_ops \<Rightarrow> 'v lfu_cache \<Rightarrow> string \<Rightarrow> 'v \<Rightarrow> 'v lfu_cache \<times> bool" where
  "lc_update H c key value =
    (if lc_capacity c = 0 then (c, False)
     else
       (let (c1, inserted) = lc_do_insert H c key value
        in (if inserted then c1 else set_entry H c1 key (value, 1), True)))"

definition lc_find :: "heap_ops \<Rightarrow> 'v lfu_cache \<Rightarrow> string \<Rightarrow> 'v option \<times> 'v lfu_cache" where
  "lc_find H c key =
    (let (value, c1) = (case lc_storage c key of
         None \<Rightarrow> (None, c)
       | Some (v, priority) \<Rightarrow>
           (let c1 = set_entry H c key (v, priority + 1)
            in (Some v, c1\<lparr>lc_hit_count := lc_hit_count c1 + 1\<rparr>)))
     in (value, c1\<lparr>lc_acc_count := lc_acc_count c1 + 1\<rparr>))"

definition lc_erase :: "heap_ops \<Rightarrow> 'v lfu_cache \<Rightarrow> string \<Rightarrow> 'v lfu_cache" where
  "lc_erase H c key =
    (case lc_storage c key of
       None \<Rightarrow> c
     | Some (v, priority) \<Rightarrow> remove_top H (set_entry H c key (v, 0)))"

definition lc_reserve :: "'v lfu_cache \<Rightarrow> nat \<Rightarrow> 'v lfu_cache" where
  "lc_reserve c capacity = (if capacity > lc_capacity c then c\<lparr>lc_capacity := capacity\<rparr> else c)"

definition lc_clear :: "'v lfu_cache \<Rightarrow> 'v lfu_cache" where
  "lc_clear c = c\<lparr>lc_storage := Map.empty, lc_policy := []\<rparr>"

section \<open>Runs of the cache\<close>

datatype 'v cache_op =
    CInsert string 'v
  | CUpdate string 'v
  | CFind string
  | CErase string
  | CReserve nat
  | CClear

fun cache_step :: "heap_ops \<Rightarrow> 'v cache_op \<Rightarrow> 'v lfu_cache \<Rightarrow> 'v lfu_cache" where
  "cache_step H (CInsert key value) c = fst (lc_insert H c key value)"
| "cache_step H (CUpdate key value) c = fst (lc_update H c key value)"
| "cache_step H (CFind key) c = snd (lc_find H c key)"
| "cache_step H (CErase key) c = lc_erase H c key"
| "cache_step H (CReserve capacity) c = lc_reserve c capacity"
| "cache_step H CClear c = lc_clear c"

inductive cache_reachable :: "heap_ops \<Rightarrow> 'v lfu_cache \<Rightarrow> bool" for H :: heap_ops where
  reach_new: "cache_reachable H (new_cache capacity)"
| reach_step: "cache_reachable H c \<Longrightarrow> cache_reachable H (cache_step H op c)"

section \<open>The invariant\<close>

definition lfu_inv :: "((string \<Rightarrow> u32) \<Rightarrow> string list \<Rightarrow> bool) \<Rightarrow> 'v lfu_cache \<Rightarrow> bool" where
  "lfu_inv heap c \<longleftrightarrow> distinct (lc_policy c) \<and> set (lc_policy c) = dom (lc_storage c)
    \<and> lc_size c \<le> lc_capacity c \<and> heap (lc_priority c) (lc_policy c)"

definition content :: "'v lfu_cache \<Rightarrow> string \<Rightarrow> 'v option" where
  "content c = map_option fst \<circ> lc_storage c"

lemma lc_priority_simps [simp]:
  "lc_priority (c\<lparr>lc_hit_count := n\<rparr>) = lc_priority c"
  "lc_priority (c\<lparr>lc_acc_count := n\<rparr>) = lc_priority c"
  "lc_priority (c\<lparr>lc_capacity := k\<rparr>) = lc_priority c"
  "lc_priority (c\<lparr>lc_policy := xs\<rparr>) = lc_priority c"
  by (simp_all add: lc_priority_def fun_eq_iff)

context heap_algorithms
begin

lemma remove_top_spec:
  assumes "heap (lc_priority c) (lc_policy c)" "lc_policy c = x # xs" "distinct (x # xs)"
  shows "\<exists>ys. remove_top H c = c\<lparr>lc_storage := (lc_storage c)(x := None), lc_policy := ys\<rparr>
    \<and> mset ys = mset xs \<and> heap (lc_priority (remove_top H c)) ys
    \<and> (\<forall>y \<in> set xs. lc_priority c x \<le> lc_priority c y)"
proof -
  obtain ys where ys: "ho_pop H (lc_priority c) (x # xs) = ys @ [x]" "mset ys = mset xs"
      "heap (lc_priority c) ys"
    using pop_spec assms(1,2) by metis
  have r: "remove_top H c = c\<lparr>lc_storage := (lc_storage c)(x := None), lc_policy := ys\<rparr>"
    using ys(1) assms(2) by (simp add: remove_top_def Let_def)
  have "x \<notin> set ys" using ys(2) assms(3) by (metis distinct.simps(2) set_mset_mset)
  then have "lc_priority c y = lc_priority (remove_top H c) y" if "y \<in> set ys" for y
    using that by (auto simp: r lc_priority_def)
  then have "heap (lc_priority (remove_top H c)) ys" using heap_cong ys(3) by metis
  then show ?thesis using r ys(2) heap_least assms(1,2) by metis
qed

lemma lfu_inv_set_entry:
  assumes "lfu_inv heap c" "key \<in> dom (lc_storage c)"
  shows "lfu_inv heap (set_entry H c key e)"
    and "lc_storage (set_entry H c key e) = (lc_storage c)(key \<mapsto> e)"
    and "lc_capacity (set_entry H c key e) = lc_capacity c"
proof -
  define c1 where "c1 = c\<lparr>lc_storage := (lc_storage c)(key \<mapsto> e)\<rparr>"
  define pol where "pol = ho_make H (lc_priority c1) (lc_policy c)"
  have s: "set_entry H c key e = c1\<lparr>lc_policy := pol\<rparr>"
    by (simp add: set_entry_def c1_def pol_def Let_def)
  have m: "mset pol = mset (lc_policy c)" by (simp add: pol_def make_mset)
  have p: "lc_priority (c1\<lparr>lc_policy := pol\<rparr>) = lc_priority c1" by (simp add: lc_priority_def fun_eq_iff)
  have "heap (lc_priority c1) pol" by (simp add: pol_def make_heap)
  moreover have "distinct pol" "set pol = set (lc_policy c)" "length pol = length (lc_policy c)"
    using assms(1) m mset_eq_imp_distinct_iff [OF m] mset_eq_setD [OF m] mset_eq_length [OF m]
    by (auto simp: lfu_inv_def)
  ultimately show "lfu_inv heap (set_entry H c key e)"
    using assms p by (auto simp: s lfu_inv_def c1_def lc_size_def)
  show "lc_storage (set_entry H c key e) = (lc_storage c)(key \<mapsto> e)"
    "lc_capacity (set_entry H c key e) = lc_capacity c"
    by (simp_all add: s c1_def)
qed

text \<open>An insertion evicts an entry of least priority when the cache is full.\<close>

lemma lc_insert_new:
  assumes "lfu_inv heap c" "0 < lc_capacity c" "lc_storage c key = None"
  shows "\<exists>c' St. lc_do_insert H c key value = (c', True) \<and> lfu_inv heap c'
    \<and> lc_storage c' = St(key \<mapsto> (value, 1)) \<and> lc_capacity c' = lc_capacity c
    \<and> (if lc_size c < lc_capacity c then St = lc_storage c
       else \<exists>x. x \<in> dom (lc_storage c) \<and> St = (lc_storage c)(x := None)
         \<and> (\<forall>y \<in> dom (lc_storage c). lc_priority c x \<le> lc_priority c y))"
proof -
  have inv: "distinct (lc_policy c)" "set (lc_policy c) = dom (lc_storage c)" "lc_size c \<le> lc_capacity c"
      "heap (lc_priority c) (lc_policy c)"
    using assms(1) by (auto simp: lfu_inv_def)
  have k: "key \<notin> set (lc_policy c)" using inv(2) assms(3) by auto
  define c1 where "c1 = c\<lparr>lc_storage := (lc_storage c)(key \<mapsto> (value, 0))\<rparr>"
  have c1: "lc_policy c1 = lc_policy c" "lc_capacity c1 = lc_capacity c" "lc_size c1 = lc_size c"
    by (simp_all add: c1_def lc_size_def)
  have p1: "lc_priority c1 y = lc_priority c y" if "y \<in> set (lc_policy c)" for y
    using that k by (auto simp: c1_def lc_priority_def)
  have h1: "heap (lc_priority c1) (lc_policy c1)"
    unfolding c1 by (rule heap_cong [OF _ inv(4)]) (simp add: p1)
  define c2 where "c2 = (if lc_size c1 = lc_capacity c1 then remove_top H c1 else c1)"
  have c2: "\<exists>St. heap (lc_priority c2) (lc_policy c2) \<and> distinct (lc_policy c2) \<and> key \<notin> set (lc_policy c2)
      \<and> lc_storage c2 = St(key \<mapsto> (value, 0)) \<and> set (lc_policy c2) = dom St \<and> lc_capacity c2 = lc_capacity c
      \<and> lc_size c2 < lc_capacity c
      \<and> (if lc_size c < lc_capacity c then St = lc_storage c
         else \<exists>x. x \<in> dom (lc_storage c) \<and> St = (lc_storage c)(x := None)
           \<and> (\<forall>y \<in> dom (lc_storage c). lc_priority c x \<le> lc_priority c y))"
  proof (cases "lc_size c < lc_capacity c")
    case True
    then have "c2 = c1" using c1 by (simp add: c2_def)
    then show ?thesis
      using True h1 c1 inv k by (intro exI [of _ "lc_storage c"]) (auto simp: c1_def)
  next
    case False
    then have eq: "lc_size c = lc_capacity c" using inv(3) by simp
    then obtain x xs where px: "lc_policy c = x # xs" using assms(2) by (cases "lc_policy c") (auto simp: lc_size_def)
    have c2r: "c2 = remove_top H c1" using eq c1 by (simp add: c2_def)
    obtain ys where ys: "remove_top H c1 = c1\<lparr>lc_storage := (lc_storage c1)(x := None), lc_policy := ys\<rparr>"
        "mset ys = mset xs" "heap (lc_priority (remove_top H c1)) ys"
        "\<forall>y \<in> set xs. lc_priority c1 x \<le> lc_priority c1 y"
      using remove_top_spec [OF h1, of x xs] px c1(1) inv(1) by auto
    have "x \<noteq> key" using k px by auto
    have set_ys: "set ys = set xs" "length ys = length xs" "distinct ys"
      using mset_eq_setD [OF ys(2)] mset_eq_length [OF ys(2)] mset_eq_imp_distinct_iff [OF ys(2)] inv(1) px
      by auto
    have least: "\<forall>y \<in> dom (lc_storage c). lc_priority c x \<le> lc_priority c y"
    proof
      fix y assume y: "y \<in> dom (lc_storage c)"
      then have "y \<in> set (x # xs)" using inv(2) px by simp
      then show "lc_priority c x \<le> lc_priority c y"
        using ys(4) p1 [of x] p1 [of y] px by auto
    qed
    show ?thesis
    proof (intro exI [of _ "(lc_storage c)(x := None)"] conjI)
      show "heap (lc_priority c2) (lc_policy c2)" using ys(1,3) by (simp add: c2r)
      show "distinct (lc_policy c2)" "key \<notin> set (lc_policy c2)"
        using set_ys k px by (auto simp: c2r ys(1))
      show "lc_storage c2 = (lc_storage c)(x := None, key \<mapsto> (value, 0))"
        using \<open>x \<noteq> key\<close> unfolding c2r ys(1) by (auto simp: c1_def)
      show "set (lc_policy c2) = dom ((lc_storage c)(x := None))"
        using set_ys inv(1,2) px by (auto simp: c2r ys(1))
      show "lc_capacity c2 = lc_capacity c" unfolding c2r ys(1) by (simp add: c1_def)
      show "lc_size c2 < lc_capacity c" using set_ys eq px by (simp add: c2r ys(1) lc_size_def)
      show "if lc_size c < lc_capacity c then (lc_storage c)(x := None) = lc_storage c
        else \<exists>x'. x' \<in> dom (lc_storage c) \<and> (lc_storage c)(x := None) = (lc_storage c)(x' := None)
          \<and> (\<forall>y \<in> dom (lc_storage c). lc_priority c x' \<le> lc_priority c y)"
        using False least inv(2) px by (auto intro!: exI [of _ x])
    qed
  qed
  then obtain St where St: "heap (lc_priority c2) (lc_policy c2)" "distinct (lc_policy c2)"
      "key \<notin> set (lc_policy c2)" "lc_storage c2 = St(key \<mapsto> (value, 0))" "set (lc_policy c2) = dom St"
      "lc_capacity c2 = lc_capacity c" "lc_size c2 < lc_capacity c"
      "if lc_size c < lc_capacity c then St = lc_storage c
         else \<exists>x. x \<in> dom (lc_storage c) \<and> St = (lc_storage c)(x := None)
           \<and> (\<forall>y \<in> dom (lc_storage c). lc_priority c x \<le> lc_priority c y)"
    by auto
  define c3 where "c3 = c2\<lparr>lc_storage := (lc_storage c2)(key \<mapsto> (value, 1)), lc_policy := lc_policy c2 @ [key]\<rparr>"
  define c' where "c' = c3\<lparr>lc_policy := ho_push H (lc_priority c3) (lc_policy c3)\<rparr>"
  have run: "lc_do_insert H c key value = (c', True)"
    using assms(3) by (simp add: lc_do_insert_def c1_def c2_def c3_def c'_def Let_def)
  have p3: "lc_priority c3 y = lc_priority c2 y" if "y \<in> set (lc_policy c2)" for y
    using that St(3) by (auto simp: c3_def lc_priority_def)
  have h2: "heap (lc_priority c3) (lc_policy c2)" by (rule heap_cong [OF _ St(1)]) (simp add: p3)
  have m: "mset (lc_policy c') = mset (lc_policy c2 @ [key])"
    using push_mset [OF h2, of key] by (simp add: c'_def c3_def)
  have h3: "heap (lc_priority c3) (lc_policy c')"
    using push_heap [OF h2, of key] by (simp add: c'_def c3_def)
  have "lc_priority c' = lc_priority c3" by (simp add: c'_def lc_priority_def fun_eq_iff)
  moreover have "distinct (lc_policy c')" "set (lc_policy c') = insert key (dom St)"
      "lc_size c' \<le> lc_capacity c"
    using mset_eq_imp_distinct_iff [OF m] mset_eq_setD [OF m] mset_eq_length [OF m] St(2,3,5,7)
    by (auto simp: lc_size_def)
  ultimately have "lfu_inv heap c'"
    using h3 St(4,6) by (simp add: lfu_inv_def c'_def c3_def lc_size_def)
  moreover have "lc_storage c' = St(key \<mapsto> (value, 1))" "lc_capacity c' = lc_capacity c"
    using St(4,6) by (simp_all add: c'_def c3_def)
  ultimately show ?thesis using run St(8) by blast
qed

lemma lc_insert_old: "lc_storage c key = Some e \<Longrightarrow> lc_do_insert H c key val = (c, False)"
  by (simp add: lc_do_insert_def)

lemma lfu_inv_insert: "lfu_inv heap c \<Longrightarrow> lfu_inv heap (fst (lc_insert H c key val))"
  using lc_insert_new [of c key val] lc_insert_old [of c key]
  by (cases "lc_storage c key") (auto simp: lc_insert_def)

lemma lfu_inv_update: "lfu_inv heap c \<Longrightarrow> lfu_inv heap (fst (lc_update H c key val))"
proof (cases "lc_capacity c = 0 \<or> lc_storage c key = None")
  case True
  assume "lfu_inv heap c"
  then show ?thesis using True lc_insert_new [of c key val] by (auto simp: lc_update_def Let_def)
next
  case False
  assume "lfu_inv heap c"
  then show ?thesis
    using False lc_insert_old [of c key] by (auto simp: lc_update_def Let_def domI intro!: lfu_inv_set_entry(1))
qed

lemma lfu_inv_counts:
  "lfu_inv heap (c\<lparr>lc_hit_count := n\<rparr>) = lfu_inv heap c"
  "lfu_inv heap (c\<lparr>lc_acc_count := n\<rparr>) = lfu_inv heap c"
  by (simp_all add: lfu_inv_def lc_size_def)

lemma lfu_inv_find: "lfu_inv heap c \<Longrightarrow> lfu_inv heap (snd (lc_find H c key))"
  using lfu_inv_set_entry(1) [of c key]
  by (auto simp: lc_find_def Let_def lfu_inv_counts split: option.splits)

lemma lfu_inv_remove_top:
  assumes "lfu_inv heap c"
  shows "lfu_inv heap (remove_top H c)"
proof (cases "lc_policy c")
  case (Cons x xs)
  have inv: "distinct (x # xs)" "set (x # xs) = dom (lc_storage c)" "lc_size c \<le> lc_capacity c"
      "heap (lc_priority c) (lc_policy c)"
    using assms Cons by (auto simp: lfu_inv_def)
  obtain ys where ys: "remove_top H c = c\<lparr>lc_storage := (lc_storage c)(x := None), lc_policy := ys\<rparr>"
      "mset ys = mset xs" "heap (lc_priority (remove_top H c)) ys"
    using remove_top_spec [OF inv(4) Cons inv(1)] by auto
  have "distinct ys" "set ys = set xs" "length ys = length xs"
    using mset_eq_setD [OF ys(2)] mset_eq_length [OF ys(2)] mset_eq_imp_distinct_iff [OF ys(2)] inv(1) by auto
  then show ?thesis
    using ys(1,3) inv Cons by (auto simp: lfu_inv_def lc_size_def)
qed (use assms in \<open>simp add: remove_top_def\<close>)

lemma lfu_inv_erase: "lfu_inv heap c \<Longrightarrow> lfu_inv heap (lc_erase H c key)"
  by (auto simp: lc_erase_def domI split: option.splits intro!: lfu_inv_remove_top lfu_inv_set_entry(1))

lemma lfu_inv_step: "lfu_inv heap c \<Longrightarrow> lfu_inv heap (cache_step H op c)"
proof (cases op)
  case CClear
  assume "lfu_inv heap c"
  then show ?thesis using CClear heap_Nil by (simp add: lc_clear_def lfu_inv_def lc_size_def)
next
  case (CReserve n)
  assume "lfu_inv heap c"
  then show ?thesis
    using CReserve by (simp add: lc_reserve_def lfu_inv_def lc_size_def)
qed (simp_all add: lfu_inv_insert lfu_inv_update lfu_inv_find lfu_inv_erase)

lemma lfu_inv_new: "lfu_inv heap (new_cache n)"
  using heap_Nil by (simp add: lfu_inv_def new_cache_def lc_size_def)

lemma reachable_inv: "cache_reachable H c \<Longrightarrow> lfu_inv heap c"
  by (induction rule: cache_reachable.induct) (simp_all add: lfu_inv_new lfu_inv_step)

text \<open>What the operations do to the content.\<close>

lemma content_find:
  assumes "lfu_inv heap c"
  shows "fst (lc_find H c key) = content c key" "content (snd (lc_find H c key)) = content c"
  using lfu_inv_set_entry(2) [OF assms domI, of key]
  by (auto simp: lc_find_def Let_def content_def fun_eq_iff split: option.splits)

lemma content_insert:
  assumes "lfu_inv heap c"
  shows "content (fst (lc_insert H c key val)) \<subseteq>\<^sub>m
    (if content c key = None then (content c)(key \<mapsto> val) else content c)"
proof (cases "lc_capacity c = 0 \<or> lc_storage c key \<noteq> None")
  case True
  then show ?thesis
    using lc_insert_old [of c key] by (auto simp: lc_insert_def content_def map_le_def)
next
  case False
  then obtain c' St where "lc_do_insert H c key val = (c', True)" "lc_storage c' = St(key \<mapsto> (val, 1))"
      "St = lc_storage c \<or> (\<exists>x. St = (lc_storage c)(x := None))"
    using lc_insert_new [OF assms, of key val] by (metis (no_types, lifting) neq0_conv)
  then show ?thesis
    using False by (auto simp: lc_insert_def content_def map_le_def split: if_splits)
qed

lemma content_update:
  assumes "lfu_inv heap c"
  shows "content (fst (lc_update H c key val)) \<subseteq>\<^sub>m (if lc_capacity c = 0 then content c else (content c)(key \<mapsto> val))"
proof (cases "lc_capacity c = 0")
  case False
  show ?thesis
  proof (cases "lc_storage c key")
    case None
    then have "lc_update H c key val = lc_insert H c key val"
      using False lc_insert_new [OF assms, of key val] by (auto simp: lc_update_def lc_insert_def)
    moreover have "content c key = None" using None by (simp add: content_def)
    ultimately show ?thesis using content_insert [OF assms, of key val] False by simp
  next
    case (Some e)
    then have "lc_update H c key val = (set_entry H c key (val, 1), True)"
      using False lc_insert_old [OF Some, of val] by (simp add: lc_update_def)
    then show ?thesis
      using False Some lfu_inv_set_entry(2) [OF assms domI, of key e]
      by (auto simp: content_def map_le_def)
  qed
qed (simp add: lc_update_def)

end

interpretation lfu: result_cache
  "lc_find std_heaps" "lc_insert std_heaps" "lc_update std_heaps" content "lfu_inv is_heap"
proof (unfold_locales, goal_cases)
  case (1 c k)
  then show ?case by (rule std.content_find(1))
next
  case (2 c k)
  then show ?case by (rule std.content_find(2))
next
  case (3 c k)
  then show ?case by (rule std.lfu_inv_find)
next
  case (4 c k v)
  then show ?case by (rule std.content_insert)
next
  case (5 c k v)
  then show ?case by (rule std.lfu_inv_insert)
next
  case (6 c k v)
  then show ?case
    using std.content_update [of c k v] by (cases "lc_capacity c = 0") (simp_all add: lc_update_def)
next
  case (7 c k v)
  then show ?case by (rule std.lfu_inv_update)
qed

section \<open>Properties\<close>

text \<open>
  C32. The invariant of the cache: in every state that the operations reach, the policy lists the
  keys of the storage, each once, ordered as a heap by their priorities, and there are never more
  entries than the capacity.
\<close>

theorem cache_invariant:
  assumes "cache_reachable std_heaps c"
  shows "distinct (lc_policy c) \<and> set (lc_policy c) = dom (lc_storage c) \<and> lc_size c \<le> lc_capacity c
    \<and> is_heap (lc_priority c) (lc_policy c)"
  using std.reachable_inv [OF assms] by (simp add: lfu_inv_def)

theorem cache_invariant_witness:
  "is_heap (lc_priority (cache_step std_heaps (CFind ''a'') (cache_step std_heaps (CInsert ''a'' (1 :: nat)) (new_cache 2))))
    (lc_policy (cache_step std_heaps (CFind ''a'') (cache_step std_heaps (CInsert ''a'' (1 :: nat)) (new_cache 2))))"
  using cache_invariant [OF reach_step [OF reach_step [OF reach_new]]] by blast

text \<open>
  Least frequently used: inserting a new key into a reachable cache succeeds, stores the
  value with priority 1 and keeps every other entry, except that a full cache loses exactly one
  entry, and that one has the least priority.
\<close>

theorem lfu_eviction:
  assumes "cache_reachable std_heaps c" and "0 < lc_capacity c" and "lc_storage c key = None"
  shows "\<exists>c' St. lc_insert std_heaps c key val = (c', True) \<and> lc_storage c' = St(key \<mapsto> (val, 1))
    \<and> (if lc_size c < lc_capacity c then St = lc_storage c
       else \<exists>x \<in> dom (lc_storage c). St = (lc_storage c)(x := None)
         \<and> (\<forall>y \<in> dom (lc_storage c). lc_priority c x \<le> lc_priority c y))"
proof -
  obtain c' St where "lc_do_insert std_heaps c key val = (c', True)" "lc_storage c' = St(key \<mapsto> (val, 1))"
      "if lc_size c < lc_capacity c then St = lc_storage c
       else \<exists>x. x \<in> dom (lc_storage c) \<and> St = (lc_storage c)(x := None)
         \<and> (\<forall>y \<in> dom (lc_storage c). lc_priority c x \<le> lc_priority c y)"
    using std.lc_insert_new [OF std.reachable_inv [OF assms(1)] assms(2,3), of val] by blast
  moreover have "lc_insert std_heaps c key val = lc_do_insert std_heaps c key val"
    using assms(2) by (simp add: lc_insert_def)
  ultimately show ?thesis by (metis (no_types, lifting))
qed

definition ex_cache :: "nat lfu_cache" where
  "ex_cache = cache_step std_heaps (CFind ''a'')
    (cache_step std_heaps (CInsert ''b'' 2) (cache_step std_heaps (CInsert ''a'' 1) (new_cache 2)))"

theorem lfu_eviction_witness:
  "\<exists>c' St. lc_insert std_heaps ex_cache ''c'' 3 = (c', True) \<and> lc_storage c' = St(''c'' \<mapsto> (3, 1))
    \<and> (if lc_size ex_cache < lc_capacity ex_cache then St = lc_storage ex_cache
       else \<exists>x \<in> dom (lc_storage ex_cache). St = (lc_storage ex_cache)(x := None)
         \<and> (\<forall>y \<in> dom (lc_storage ex_cache). lc_priority ex_cache x \<le> lc_priority ex_cache y))"
proof (rule lfu_eviction)
  show "cache_reachable std_heaps ex_cache"
    unfolding ex_cache_def by (intro reach_step reach_new)
  show "0 < lc_capacity ex_cache" by code_simp
  show "lc_storage ex_cache ''c'' = None" by code_simp
qed

end
