(* ===== verification/Inverted_Index.thy ===== *)
theory Inverted_Index
  imports Prelude
begin

text \<open>
  The inverted index of \<open>src/netspeak/invertedindex\<close> as its clients see it: a table of posting
  lists by key, the part of a posting list that \<open>PostlistReader::read\<close> selects, and
  \<open>Searcher::search_postlist\<close>.  A \<open>Postlist\<close> is the list of the values its \<open>next\<close> still
  has to return.
\<close>

type_synonym 'v inverted_index = "string \<Rightarrow> 'v list option"

text \<open>The clamping of \<open>index_begin\<close> and \<open>value_count\<close> to the number of values in the head.\<close>

definition read_postlist :: "'v list \<Rightarrow> u32 \<Rightarrow> u32 \<Rightarrow> 'v list" where
  "read_postlist values index_begin value_count =
    (let head_value_count = of_nat (length values);
         index_begin = min index_begin head_value_count;
         value_count = min value_count (head_value_count - index_begin)
     in take (unat value_count) (drop (unat index_begin) values))"

definition search_postlist :: "'v inverted_index \<Rightarrow> string \<Rightarrow> u32 \<Rightarrow> u32 \<Rightarrow> 'v list option" where
  "search_postlist index key begin len = map_option (\<lambda>values. read_postlist values begin len) (index key)"

lemma read_postlist_eq:
  assumes "length values < 2 ^ 32"
  shows "read_postlist values begin len = take (unat len) (drop (unat begin) values)"
proof -
  have l: "unat (of_nat (length values) :: u32) = length values" by (rule unat_of_nat_u32 [OF assms])
  have b: "unat (min begin (of_nat (length values))) = min (unat begin) (length values)"
    using l by (simp add: min_def word_le_nat_alt)
  have s: "unat (of_nat (length values) - min begin (of_nat (length values)) :: u32)
      = length values - min (unat begin) (length values)"
    using b l by (simp add: unat_sub word_le_nat_alt)
  have "unat (min len (of_nat (length values) - min begin (of_nat (length values))))
      = min (unat len) (length values - min (unat begin) (length values))"
    using s by (simp add: min_def word_le_nat_alt)
  then show ?thesis using b by (cases "unat begin \<le> length values") (auto simp: read_postlist_def Let_def min_def)
qed

lemma search_postlist_None [simp]: "search_postlist index key begin len = None \<longleftrightarrow> index key = None"
  by (simp add: search_postlist_def)

end
