(* ===== verification/Retrieval_Strategy3.thy ===== *)
theory Retrieval_Strategy3
  imports Query_Processor Inverted_Index Texts
begin

text \<open>
  \<open>RetrievalStrategy<RetrievalStrategy3Tag>\<close> of \<open>src/netspeak/RetrievalStrategy3.hpp\<close>: posting
  lists are looked up under keys that encode the length of the phrase and the position of the
  word, entered at an offset that the postlist index gives for a frequency, and read up to the
  pruning limit.  The phrase dictionary is a map from phrases to frequencies and ids.
\<close>

record strategy3 =
  rs_dictionary :: "string \<Rightarrow> (u64 \<times> u32) option"
  rs_postlist_index :: "(u32 \<times> u32) inverted_index"
  rs_phrase_index :: "entry inverted_index"

section \<open>Metadata and keys\<close>

fun initialize_query_loop :: "strategy3 \<Rightarrow> search_options \<Rightarrow> norm_query \<Rightarrow> nat \<Rightarrow> unit_metadata list" where
  "initialize_query_loop s options [] i = []"
| "initialize_query_loop s options (NQMark _ # us) i = initialize_query_loop s options us (i + 1)"
| "initialize_query_loop s options (NWord text' _ # us) i =
    (let frequency = (case rs_dictionary s text' of Some (freq, phrase_id) \<Rightarrow> freq | None \<Rightarrow> 0)
     in \<lparr>um_position = i, um_frequency = frequency,
         um_pruning = (if frequency > 1000000000 then so_pruning_high options else so_pruning_low options)\<rparr>
       # initialize_query_loop s options us (i + 1))"

definition initialize_query :: "strategy3 \<Rightarrow> search_options \<Rightarrow> norm_query \<Rightarrow> unit_metadata list" where
  "initialize_query s options query = initialize_query_loop s options query 0"

definition make_key :: "norm_query \<Rightarrow> unit_metadata \<Rightarrow> string" where
  "make_key query meta =
    show_nat (length query) @ '':'' @ show_nat (um_position meta) @ ''_'' @ n_text (query ! um_position meta)"

section \<open>The frequency that bounds the first list\<close>

text \<open>The loop of \<open>extract_longest_substrings\<close> with \<open>max_word_count\<close>, \<open>substrings\<close> and \<open>word_buffer\<close>.\<close>

fun substrings_loop :: "norm_unit list \<Rightarrow> nat \<Rightarrow> string list \<Rightarrow> string list \<Rightarrow> string list" where
  "substrings_loop [] max_word_count substrings word_buffer =
    (if length word_buffer \<ge> max_word_count
     then (if length word_buffer > max_word_count then [] else substrings) @ [join_with '' '' word_buffer]
     else substrings)"
| "substrings_loop (NWord text' _ # us) max_word_count substrings word_buffer =
    substrings_loop us max_word_count substrings (if text' \<noteq> [] then word_buffer @ [text'] else word_buffer)"
| "substrings_loop (NQMark _ # us) max_word_count substrings word_buffer =
    (if length word_buffer \<ge> max_word_count
     then (let substring = join_with '' '' word_buffer
           in if length word_buffer > max_word_count
              then substrings_loop us (length word_buffer) [substring] []
              else substrings_loop us max_word_count (substrings @ [substring]) [])
     else substrings_loop us max_word_count substrings [])"

definition extract_longest_substrings :: "norm_query \<Rightarrow> string list" where
  "extract_longest_substrings query = substrings_loop query 1 [] []"

fun min_frequency_loop :: "strategy3 \<Rightarrow> u64 \<Rightarrow> string list \<Rightarrow> u64" where
  "min_frequency_loop s min_frequency [] = min_frequency"
| "min_frequency_loop s min_frequency (substring # ss) =
    min_frequency_loop s
      (case rs_dictionary s substring of Some (freq, phrase_id) \<Rightarrow> min min_frequency freq | None \<Rightarrow> min_frequency) ss"

definition compute_jumpin_frequency :: "strategy3 \<Rightarrow> norm_query \<Rightarrow> u64" where
  "compute_jumpin_frequency s query = min_frequency_loop s UINT64_MAX (extract_longest_substrings query)"

section \<open>Search\<close>

fun index_begin_loop :: "(u32 \<times> u32) list \<Rightarrow> u32 \<times> u32 \<Rightarrow> u64 \<Rightarrow> u64" where
  "index_begin_loop [] prev max_freq = 0"
| "index_begin_loop (cur # meta_postlist) prev max_freq =
    (if ucast (snd cur) = max_freq then ucast (fst cur)
     else if ucast (snd cur) < max_freq then ucast (fst prev)
     else index_begin_loop meta_postlist cur max_freq)"

definition search_list :: "strategy3 \<Rightarrow> string \<Rightarrow> u64 \<Rightarrow> u32 \<Rightarrow> entry list option" where
  "search_list s key max_freq pruning =
    (let idx_begin = (case search_postlist (rs_postlist_index s) key 0 UINT32_MAX of
         None \<Rightarrow> 0
       | Some meta_postlist \<Rightarrow> index_begin_loop meta_postlist (0, 0) max_freq)
     in search_postlist (rs_phrase_index s) key (ucast idx_begin) pruning)"

text \<open>
  The two loops over a posting list.  Each reads an entry before it looks at the number of
  phrases that may still be added; \<open>ok\<close> is the test of the loop.  The first stops after the
  first entry that is added.
\<close>

fun first_loop ::
    "(entry \<Rightarrow> bool) \<Rightarrow> u64 \<Rightarrow> entry list \<Rightarrow> entry \<Rightarrow> stats_type \<Rightarrow> u64 \<times> entry list \<times> entry \<times> stats_type \<times> entry list" where
  "first_loop ok max_count [] cur stats = (max_count, [], cur, stats, [])"
| "first_loop ok max_count (e # es) cur stats =
    (if max_count = 0 then (max_count, es, e, stats, [])
     else
       (let stats = stats\<lparr>st_eval_count := st_eval_count stats + 1\<rparr>
        in if ok e then (max_count - 1, es, e, stats\<lparr>st_max_frequency := ucast (e_freq e)\<rparr>, [e])
           else first_loop ok max_count es e stats))"

fun copy_loop :: "(entry \<Rightarrow> bool) \<Rightarrow> u64 \<Rightarrow> entry list \<Rightarrow> entry \<Rightarrow> stats_type \<Rightarrow> entry \<times> stats_type \<times> entry list" where
  "copy_loop ok max_count [] cur stats = (cur, stats, [])"
| "copy_loop ok max_count (e # es) cur stats =
    (if max_count = 0 then (e, stats, [])
     else
       (let stats = stats\<lparr>st_eval_count := st_eval_count stats + 1\<rparr>
        in if ok e then
             (let (cur, stats, out) = copy_loop ok (max_count - 1) es e stats in (cur, stats, e # out))
           else copy_loop ok max_count es e stats))"

definition initialize_result_set ::
    "strategy3 \<Rightarrow> unit_metadata \<Rightarrow> norm_query \<Rightarrow> u64 \<Rightarrow> u64 \<Rightarrow> stats_type \<times> entry list" where
  "initialize_result_set s meta query max_freq max_count =
    (let max_freq = min max_freq (compute_jumpin_frequency s query)
     in case search_list s (make_key query meta) max_freq (um_pruning meta) of
          None \<Rightarrow> (no_stats\<lparr>st_unknown_word := n_text (query ! um_position meta)\<rparr>, [])
        | Some postlist \<Rightarrow>
            (let (max_count, postlist, cur, stats, out1) = first_loop (freq_le max_freq) max_count postlist (0, 0) no_stats;
                 (cur, stats, out2) = copy_loop (\<lambda>e. True) max_count postlist cur stats
             in (stats\<lparr>st_min_frequency := ucast (e_freq cur)\<rparr>, out1 @ out2)))"

definition intersect_result_set ::
    "strategy3 \<Rightarrow> u32 set \<Rightarrow> unit_metadata \<Rightarrow> norm_query \<Rightarrow> u64 \<Rightarrow> u64 \<Rightarrow> stats_type \<times> entry list" where
  "intersect_result_set s input meta query max_freq max_count =
    (case search_list s (make_key query meta) max_freq (um_pruning meta) of
       None \<Rightarrow> (no_stats\<lparr>st_unknown_word := n_text (query ! um_position meta)\<rparr>, [])
     | Some postlist \<Rightarrow>
         (let (max_count, postlist, cur, stats, out1) =
                first_loop (\<lambda>e. freq_le max_freq e \<and> e_id e \<in> input) max_count postlist (0, 0) no_stats;
              (cur, stats, out2) = copy_loop (\<lambda>e. e_id e \<in> input) max_count postlist cur stats
          in (stats\<lparr>st_min_frequency := ucast (e_freq cur)\<rparr>, out1 @ out2)))"

text \<open>\<open>QueryProcessor::process\<close> with this strategy.\<close>

definition process :: "strategy3 \<Rightarrow> search_options \<Rightarrow> norm_query \<Rightarrow> raw_ref_result" where
  "process s options query =
    process_query (initialize_query s) (initialize_result_set s) (intersect_result_set s) options query"

section \<open>The loops\<close>

lemma copy_loop_spec:
  assumes "copy_loop ok mc es cur stats = (cur', stats', out)"
  shows "out = take (unat mc) (filter ok es) \<and> st_unknown_word stats' = st_unknown_word stats
    \<and> st_max_frequency stats' = st_max_frequency stats"
  using assms
proof (induction es arbitrary: mc cur stats out)
  case (Cons e es)
  show ?case
  proof (cases "mc = 0")
    case False
    then have u: "unat mc = Suc (unat (mc - 1))" by (simp add: unat_minus_one unat_gt_0)
    show ?thesis
      using Cons False u by (cases "ok e") (fastforce simp: Let_def split: prod.splits)+
  qed (use Cons.prems in simp)
qed simp

lemma first_loop_spec:
  assumes "first_loop ok mc es cur stats = (mc', es', cur', stats', out)"
  shows "st_unknown_word stats' = st_unknown_word stats"
    and "if mc = 0 \<or> \<not> (\<exists>e \<in> set es. ok e) then out = [] \<and> (mc' = 0 \<or> es' = [])
      else \<exists>xs e. es = xs @ e # es' \<and> (\<forall>x \<in> set xs. \<not> ok x) \<and> ok e \<and> out = [e] \<and> mc' = mc - 1
        \<and> st_max_frequency stats' = ucast (e_freq e)"
proof -
  show "st_unknown_word stats' = st_unknown_word stats"
    using assms
    by (induction es arbitrary: cur stats) (auto simp: Let_def split: if_splits)
  show "if mc = 0 \<or> \<not> (\<exists>e \<in> set es. ok e) then out = [] \<and> (mc' = 0 \<or> es' = [])
      else \<exists>xs e. es = xs @ e # es' \<and> (\<forall>x \<in> set xs. \<not> ok x) \<and> ok e \<and> out = [e] \<and> mc' = mc - 1
        \<and> st_max_frequency stats' = ucast (e_freq e)"
    using assms
  proof (induction es arbitrary: cur stats)
    case (Cons x es)
    show ?case
    proof (cases "mc = 0 \<or> ok x")
      case True
      then have "mc \<noteq> 0 \<Longrightarrow> es = es' \<and> out = [x] \<and> mc' = mc - 1 \<and> st_max_frequency stats' = ucast (e_freq x)"
        using Cons.prems by (auto simp: Let_def)
      moreover have "mc = 0 \<Longrightarrow> out = [] \<and> mc' = 0" using Cons.prems by auto
      ultimately show ?thesis using True by (cases "mc = 0") (auto intro!: exI [of _ "[]"] exI [of _ x])
    next
      case False
      then have "first_loop ok mc es x (stats\<lparr>st_eval_count := st_eval_count stats + 1\<rparr>)
          = (mc', es', cur', stats', out)"
        using Cons.prems by (simp add: Let_def)
      note IH = Cons.IH [OF this]
      show ?thesis
      proof (cases "\<exists>e \<in> set es. ok e")
        case True
        then obtain xs e where "es = xs @ e # es'" "\<forall>x \<in> set xs. \<not> ok x" "ok e" "out = [e]" "mc' = mc - 1"
            "st_max_frequency stats' = ucast (e_freq e)"
          using IH False by auto
        then have "x # es = (x # xs) @ e # es' \<and> (\<forall>y \<in> set (x # xs). \<not> ok y) \<and> ok e \<and> out = [e]
            \<and> mc' = mc - 1 \<and> st_max_frequency stats' = ucast (e_freq e)"
          using False by simp
        then have "\<exists>xs e. x # es = xs @ e # es' \<and> (\<forall>y \<in> set xs. \<not> ok y) \<and> ok e \<and> out = [e]
            \<and> mc' = mc - 1 \<and> st_max_frequency stats' = ucast (e_freq e)" by blast
        moreover have "\<not> (mc = 0 \<or> \<not> (\<exists>e \<in> set (x # es). ok e))" using False True by simp
        ultimately show ?thesis by (simp only: if_False)
      qed (use IH False in auto)
    qed
  qed simp
qed

lemma two_loops:
  assumes "first_loop ok1 mc es cur stats = (mc', es', cur', stats', out1)"
    "copy_loop ok2 mc' es' cur' stats' = (cur'', stats'', out2)"
    "sorted_wrt (\<lambda>a b. ok1 a \<longrightarrow> (ok2 b \<longleftrightarrow> ok1 b)) es"
  shows "out1 @ out2 = take (unat mc) (filter ok1 es) \<and> st_unknown_word stats'' = st_unknown_word stats
    \<and> (out1 @ out2 \<noteq> [] \<longrightarrow> st_max_frequency stats'' = ucast (e_freq (hd (out1 @ out2))))"
proof -
  note c = copy_loop_spec [OF assms(2)] and f = first_loop_spec [OF assms(1)]
  show ?thesis
  proof (cases "mc = 0 \<or> \<not> (\<exists>e \<in> set es. ok1 e)")
    case True
    then have "out1 = []" "mc' = 0 \<or> es' = []" using f(2) by auto
    then have "out1 @ out2 = []" using c by auto
    then show ?thesis using True c f(1) by auto
  next
    case False
    then obtain xs e where e: "es = xs @ e # es'" "\<forall>x \<in> set xs. \<not> ok1 x" "ok1 e" "out1 = [e]" "mc' = mc - 1"
        "st_max_frequency stats' = ucast (e_freq e)"
      using f(2) by auto
    have "filter ok2 es' = filter ok1 es'"
      using assms(3) e(1,3) by (auto simp: sorted_wrt_append intro: filter_cong)
    moreover have "unat mc = Suc (unat mc')" using False e(5) by (simp add: unat_minus_one unat_gt_0)
    moreover have "filter ok1 es = e # filter ok1 es'" using e(1-3) by simp
    ultimately show ?thesis using c f(1) e(4,6) by simp
  qed
qed

section \<open>Where a posting list is entered\<close>

text \<open>
  A postlist index describes a posting list: offsets into it with the frequency found there,
  each the first position with that frequency; entries that are zero do no harm.
\<close>

definition indexes :: "(u32 \<times> u32) list \<Rightarrow> entry list \<Rightarrow> bool" where
  "indexes I L \<longleftrightarrow> (\<forall>(i, f) \<in> set I. (i, f) = (0, 0) \<or> unat i < length L \<and> e_freq (L ! unat i) = f
    \<and> (\<forall>j < unat i. e_freq (L ! j) \<noteq> f))"

lemma posting_list_nth: "posting_list L \<Longrightarrow> i \<le> j \<Longrightarrow> j < length L \<Longrightarrow> e_freq (L ! j) \<le> e_freq (L ! i)"
  by (cases "i = j") (auto simp: posting_list_def sorted_wrt_iff_nth_less)

lemma index_begin_spec:
  assumes "indexes I L" "posting_list L"
    "fst prev = 0 \<or> unat (fst prev) \<le> length L \<and> (\<forall>j < unat (fst prev). \<not> freq_le mf (L ! j))"
    "b = unat (ucast (index_begin_loop I prev mf) :: u32)"
  shows "b \<le> length L \<and> (\<forall>j < b. \<not> freq_le mf (L ! j))"
  using assms
proof (induction I arbitrary: prev)
  case (Cons c I)
  obtain i f where c: "c = (i, f)" by (cases c)
  have u: "ucast (ucast w :: u64) = (w :: u32)" for w by (rule bit_word_eqI) (simp add: bit_simps)
  show ?case
  proof (cases "c = (0, 0)")
    case True
    then show ?thesis using Cons.prems(3,4) by (auto simp: word_neq_0_conv u)
  next
    case False
    have i: "unat i < length L" "e_freq (L ! unat i) = f" "\<forall>j < unat i. e_freq (L ! j) \<noteq> f"
      using Cons.prems(1) c False by (auto simp: indexes_def)
    have ge: "f < e_freq (L ! j)" if "j < unat i" for j
      using posting_list_nth [OF Cons.prems(2), of j "unat i"] that i by (metis less_imp_le order_le_imp_less_or_eq)
    consider "ucast f = mf" | "ucast f \<noteq> mf" "ucast f < mf" | "mf < ucast f" by (metis linorder_neqE)
    then show ?thesis
    proof cases
      case 1
      have "\<not> freq_le mf (L ! j)" if "j < unat i" for j
        using ge [OF that] 1 by (auto simp: freq_le_def ucast_u32_u64_le)
      then show ?thesis using Cons.prems(4) c 1 i(1) by (simp add: u)
    next
      case 2
      then show ?thesis using Cons.prems(3,4) c by (auto simp: u)
    next
      case 3
      have "\<not> freq_le mf (L ! j)" if "j < unat i" for j
        using ge [OF that] 3 ucast_u32_u64_le [of "e_freq (L ! j)" f] by (auto simp: freq_le_def)
      then have "fst c = 0 \<or> unat (fst c) \<le> length L \<and> (\<forall>j < unat (fst c). \<not> freq_le mf (L ! j))"
        using i(1) c by simp
      moreover have "indexes I L" using Cons.prems(1) by (simp add: indexes_def)
      moreover have "index_begin_loop (c # I) prev mf = index_begin_loop I c mf" using 3 c by auto
      ultimately show ?thesis using Cons.IH [of c] Cons.prems(2,4) by simp
    qed
  qed
qed (auto simp: indexes_def)

definition ready_for :: "strategy3 \<Rightarrow> norm_query \<Rightarrow> unit_metadata \<Rightarrow> bool" where
  "ready_for s q m \<longleftrightarrow> (\<forall>L. rs_phrase_index s (make_key q m) = Some L \<longrightarrow>
    posting_list L \<and> length L \<le> unat (um_pruning m)
    \<and> (\<forall>I. rs_postlist_index s (make_key q m) = Some I \<longrightarrow> indexes I L \<and> length I < 2 ^ 32))"

definition posting_of :: "strategy3 \<Rightarrow> norm_query \<Rightarrow> unit_metadata \<Rightarrow> entry list option" where
  "posting_of s q m = rs_phrase_index s (make_key q m)"

lemma read_all: "length I < 2 ^ 32 \<Longrightarrow> read_postlist I 0 UINT32_MAX = I"
  by (simp add: read_postlist_eq)

lemma search_list_None: "posting_of s q m = None \<Longrightarrow> search_list s (make_key q m) mf pr = None"
  by (simp add: search_list_def posting_of_def Let_def)

text \<open>Nothing frequent enough is lost.\<close>

lemma search_list_Some:
  assumes "ready_for s q m" "posting_of s q m = Some L"
  shows "\<exists>L'. search_list s (make_key q m) mf (um_pruning m) = Some L' \<and> posting_list L'
    \<and> (\<exists>b \<le> length L. L' = drop b L \<and> (\<forall>j < b. \<not> freq_le mf (L ! j)))"
proof -
  have L: "posting_list L" "length L \<le> unat (um_pruning m)"
      "\<forall>I. rs_postlist_index s (make_key q m) = Some I \<longrightarrow> indexes I L \<and> length I < 2 ^ 32"
    using assms by (auto simp: ready_for_def posting_of_def)
  define ib where "ib = (case search_postlist (rs_postlist_index s) (make_key q m) 0 UINT32_MAX of
         None \<Rightarrow> 0 | Some meta_postlist \<Rightarrow> index_begin_loop meta_postlist (0, 0) mf)"
  define b where "b = unat (ucast ib :: u32)"
  have b: "b \<le> length L \<and> (\<forall>j < b. \<not> freq_le mf (L ! j))"
  proof (cases "rs_postlist_index s (make_key q m)")
    case None
    then show ?thesis by (simp add: b_def ib_def search_postlist_def)
  next
    case (Some I)
    then have "ib = index_begin_loop I (0, 0) mf"
      using L(3) by (simp add: ib_def search_postlist_def read_all)
    then show ?thesis using index_begin_spec [of I L "(0, 0)" mf b] L Some by (simp add: b_def)
  qed
  have "length L < 2 ^ 32" using L(2) unat_u32_less [of "um_pruning m"] by linarith
  then have "read_postlist L (ucast ib) (um_pruning m) = drop b L"
    using L(2) by (simp add: read_postlist_eq b_def)
  then have s: "search_list s (make_key q m) mf (um_pruning m) = Some (drop b L)"
    using assms(2) by (simp add: search_list_def posting_of_def search_postlist_def Let_def ib_def)
  have "posting_list (drop b L)"
    using L(1) by (simp add: posting_list_def sorted_wrt_drop drop_map [symmetric] distinct_drop)
  then show ?thesis using s b by blast
qed

lemma filter_drop:
  assumes "\<forall>j < b. \<not> P (L ! j)" "b \<le> length L"
  shows "filter P (drop b L) = filter P L"
proof -
  have "filter P (take b L) = []" using assms by (auto simp: filter_empty_conv in_set_conv_nth)
  then show ?thesis by (metis append_take_drop_id filter_append append_Nil)
qed

lemma later_entries:
  assumes "posting_list L"
  shows "sorted_wrt (\<lambda>a b. freq_le mf a \<longrightarrow> freq_le mf b) L"
  using assms freq_le_mono by (auto simp: posting_list_def elim!: sorted_wrt_mono_rel [rotated])

interpretation strategy3: retrieval_strategy
  initialize_result_set intersect_result_set posting_of compute_jumpin_frequency ready_for
proof (unfold_locales, goal_cases)
  case (1 s q m mf cnt)
  then show ?case by (simp add: initialize_result_set_def search_list_None Let_def)
next
  case (2 s q m src mf cnt)
  then show ?case by (simp add: intersect_result_set_def search_list_None)
next
  case (3 s q m L)
  then show ?case by (simp add: ready_for_def posting_of_def)
next
  case (4 s q m L mf cnt st out)
  define mf' where "mf' = min mf (compute_jumpin_frequency s q)"
  obtain L' b where L': "search_list s (make_key q m) mf' (um_pruning m) = Some L'" "posting_list L'"
      "b \<le> length L" "L' = drop b L" "\<forall>j < b. \<not> freq_le mf' (L ! j)"
    using search_list_Some [OF 4(1,2)] by blast
  obtain mc es cur st1 out1 where f: "first_loop (freq_le mf') cnt L' (0, 0) no_stats = (mc, es, cur, st1, out1)"
    by (metis prod_cases5)
  obtain cur2 st2 out2 where c: "copy_loop (\<lambda>e. True) mc es cur st1 = (cur2, st2, out2)"
    by (metis prod_cases3)
  have "sorted_wrt (\<lambda>a b. freq_le mf' a \<longrightarrow> (True \<longleftrightarrow> freq_le mf' b)) L'"
    using later_entries [OF L'(2)] by simp
  note t = two_loops [OF f c this]
  have o: "out = out1 @ out2" "st_unknown_word st = st_unknown_word st2" "st_max_frequency st = st_max_frequency st2"
    using 4(3) L'(1) f c by (auto simp: initialize_result_set_def mf'_def Let_def)
  have "filter (freq_le mf') L' = filter (freq_le mf') L"
    unfolding L'(4) by (rule filter_drop [OF L'(5,3)])
  moreover have "st_unknown_word no_stats = []" by (simp add: no_stats_def)
  ultimately show ?case using t unfolding o mf'_def [symmetric] by metis
next
  case (5 s q m L src mf cnt st out)
  obtain L' b where L': "search_list s (make_key q m) mf (um_pruning m) = Some L'" "posting_list L'"
      "b \<le> length L" "L' = drop b L" "\<forall>j < b. \<not> freq_le mf (L ! j)"
    using search_list_Some [OF 5(1,2)] by blast
  let ?ok = "\<lambda>e. freq_le mf e \<and> e_id e \<in> src"
  obtain mc es cur st1 out1 where f: "first_loop ?ok cnt L' (0, 0) no_stats = (mc, es, cur, st1, out1)"
    by (cases "first_loop ?ok cnt L' (0, 0) no_stats")
  obtain cur2 st2 out2 where c: "copy_loop (\<lambda>e. e_id e \<in> src) mc es cur st1 = (cur2, st2, out2)"
    by (cases "copy_loop (\<lambda>e. e_id e \<in> src) mc es cur st1")
  have "sorted_wrt (\<lambda>a b. ?ok a \<longrightarrow> (e_id b \<in> src \<longleftrightarrow> ?ok b)) L'"
    by (rule sorted_wrt_mono_rel [OF _ later_entries [OF L'(2), of mf]]) blast
  note t = two_loops [OF f c this]
  have o: "out = out1 @ out2" "st_unknown_word st = st_unknown_word st2" "st_max_frequency st = st_max_frequency st2"
    using 5(4) L'(1) f c by (auto simp: intersect_result_set_def)
  have "filter ?ok L' = filter ?ok L"
    unfolding L'(4) by (rule filter_drop [OF _ L'(3)]) (use L'(5) in blast)
  also have "\<dots> = filter (\<lambda>e. e_id e \<in> src) L"
    by (rule filter_cong) (use 5(3) in auto)
  finally have same: "filter ?ok L' = filter (\<lambda>e. e_id e \<in> src) L" .
  have u: "st_unknown_word no_stats = []" by (simp add: no_stats_def)
  show ?case unfolding o by (rule t [unfolded same u])
qed

end
