(* ===== verification/Corpus_Search.thy ===== *)
theory Corpus_Search
  imports Retrieval_Strategy3
begin

text \<open>
  What a search over the phrase index means for the phrases of the corpus: the query processor
  with \<open>RetrievalStrategy3\<close> finds the most frequent phrases that a norm query accepts.
\<close>

record corpus_phrase =
  cp_words :: phrase_words
  cp_freq :: u32
  cp_id :: u32

text \<open>The phrases of a corpus, with ids that are unique among the phrases of one length.\<close>

definition corpus_ok :: "corpus_phrase set \<Rightarrow> bool" where
  "corpus_ok C \<longleftrightarrow> (\<forall>p \<in> C. \<forall>p' \<in> C.
    length (cp_words p) = length (cp_words p') \<longrightarrow> cp_id p = cp_id p' \<longrightarrow> p = p')"

definition entry_of :: "corpus_phrase \<Rightarrow> entry" where
  "entry_of p = (cp_freq p, cp_id p)"

text \<open>The phrase index has, under every key of the query, the phrases with that word there.\<close>

definition with_word :: "corpus_phrase set \<Rightarrow> norm_query \<Rightarrow> nat \<Rightarrow> corpus_phrase set" where
  "with_word C q i = {p \<in> C. length (cp_words p) = length q \<and> cp_words p ! i = n_text (q ! i)}"

definition represents :: "strategy3 \<Rightarrow> corpus_phrase set \<Rightarrow> norm_query \<Rightarrow> bool" where
  "represents s C q \<longleftrightarrow> (\<forall>m. um_position m < length q \<longrightarrow> \<not> n_is_qmark (q ! um_position m) \<longrightarrow>
    set (case posting_of s q m of None \<Rightarrow> [] | Some L \<Rightarrow> L) = entry_of ` with_word C q (um_position m))"

text \<open>A phrase is not more frequent than the parts of it that the dictionary knows.\<close>

definition ngram_monotone :: "strategy3 \<Rightarrow> corpus_phrase set \<Rightarrow> bool" where
  "ngram_monotone s C \<longleftrightarrow> (\<forall>ws f i. rs_dictionary s (join_with '' '' ws) = Some (f, i) \<longrightarrow>
    (\<forall>p \<in> C. (\<exists>xs ys. cp_words p = xs @ ws @ ys) \<longrightarrow> ucast (cp_freq p) \<le> f))"

definition query_words_ok :: "norm_query \<Rightarrow> bool" where
  "query_words_ok q \<longleftrightarrow> (\<forall>u \<in> set q. n_is_qmark u \<or> n_text u \<noteq> [])"

section \<open>The words of a query\<close>

lemma initialize_query_positions:
  "um_position ` set (initialize_query s options q) = {i. i < length q \<and> \<not> n_is_qmark (q ! i)}"
proof -
  have "um_position ` set (initialize_query_loop s options us n)
      = {n + i | i. i < length us \<and> \<not> n_is_qmark (us ! i)}" for us n
  proof (induction us arbitrary: n)
    case (Cons u us)
    have "{n + i | i. i < length (u # us) \<and> \<not> n_is_qmark ((u # us) ! i)}
        = (if n_is_qmark u then {} else {n}) \<union> {Suc n + i | i. i < length us \<and> \<not> n_is_qmark (us ! i)}"
      by (auto simp: less_Suc_eq_0_disj)
    moreover have "um_position ` set (initialize_query_loop s options (u # us) n)
        = (if n_is_qmark u then {} else {n}) \<union> um_position ` set (initialize_query_loop s options us (Suc n))"
      by (cases u) (simp_all add: Let_def)
    ultimately show ?case using Cons by simp
  qed simp
  from this [of q 0] show ?thesis by (simp add: initialize_query_def)
qed

lemma n_lang_iff:
  "p \<in> n_lang q \<longleftrightarrow> length p = length q \<and> (\<forall>i < length q. \<not> n_is_qmark (q ! i) \<longrightarrow> p ! i = n_text (q ! i))"
proof -
  have "n_unit_matches u w \<longleftrightarrow> n_is_qmark u \<or> w = n_text u" for u w by (cases u) auto
  then show ?thesis by (auto simp: n_lang_def n_matches_def list_all2_conv_all_nth)
qed

section \<open>The longest substrings\<close>

text \<open>The maximal runs of words between the question marks.\<close>

fun word_runs :: "norm_unit list \<Rightarrow> string list \<Rightarrow> string list list" where
  "word_runs [] buf = (if buf = [] then [] else [buf])"
| "word_runs (NWord t _ # us) buf = word_runs us (if t \<noteq> [] then buf @ [t] else buf)"
| "word_runs (NQMark _ # us) buf = (if buf = [] then [] else [buf]) @ word_runs us []"

lemma substrings_loop_runs:
  assumes "1 \<le> k"
  shows "substrings_loop us k subs buf =
    (let m = max_list0 (map length (word_runs us buf))
     in (if k < m then [] else subs) @ map (join_with '' '') (filter (\<lambda>r. length r = max k m) (word_runs us buf)))"
  using assms
proof (induction us k subs buf rule: substrings_loop.induct)
  case (1 k subs buf)
  then show ?case by (auto simp: Let_def max_def)
next
  case (3 u us k subs buf)
  define m where "m = max_list0 (map length (word_runs us []))"
  have empty: "filter (\<lambda>r. length r = max k m') (word_runs us []) = []" if "m < k" "m' \<le> k" for m'
  proof -
    have "length r \<le> m" if "r \<in> set (word_runs us [])" for r
      unfolding m_def using that by (intro max_list0_ge) simp
    then show ?thesis using that by (fastforce simp: filter_empty_conv max_def)
  qed
  consider "length buf < k" | "length buf = k" | "k < length buf" by linarith
  then show ?case
  proof cases
    case 1
    then show ?thesis using 3 by (auto simp: Let_def max_def)
  next
    case 2
    then have "buf \<noteq> []" using 3(4) by auto
    then show ?thesis using 3(2) [OF _ refl] 2 3(4) by (auto simp: Let_def max_def)
  next
    case 3
    then have "buf \<noteq> []" by auto
    then show ?thesis using "3.IH"(1) [OF _ refl] 3 "3.prems" by (auto simp: Let_def max_def)
  qed
qed (simp add: Let_def)

lemma extract_longest_substrings_runs:
  "extract_longest_substrings q =
    map (join_with '' '') (filter (\<lambda>r. length r = max_list0 (map length (word_runs q []))) (word_runs q []))"
proof (cases "word_runs q []")
  case (Cons r rs)
  have "[] \<notin> set (word_runs us buf)" for us buf by (induction us buf rule: word_runs.induct) auto
  then have "1 \<le> length r" using Cons by (metis One_nat_def Suc_leI length_greater_0_conv list.set_intros(1))
  then have "1 \<le> max_list0 (map length (word_runs q []))" using Cons by simp
  then show ?thesis
    using substrings_loop_runs [of 1 q "[]" "[]"]
    by (simp add: extract_longest_substrings_def Let_def max_def)
qed (use substrings_loop_runs [of 1 q "[]" "[]"] in \<open>simp add: extract_longest_substrings_def\<close>)

lemma word_runs_part:
  assumes "query_words_ok us" "p \<in> n_lang us" "r \<in> set (word_runs us buf)"
  shows "\<exists>xs ys. buf @ p = xs @ r @ ys"
  using assms
proof (induction us buf arbitrary: p rule: word_runs.induct)
  case (1 buf)
  then show ?case by (auto simp: n_lang_iff split: if_splits intro!: exI [of _ "[]"])
next
  case (2 t u us buf)
  then obtain p' where p': "p = t # p'" "p' \<in> n_lang us"
    by (auto simp: n_lang_def n_matches_def list_all2_Cons1)
  have "t \<noteq> []" "query_words_ok us" using 2(2) by (simp_all add: query_words_ok_def)
  then show ?case using 2(1) [OF _ p'(2)] 2(4) p'(1) by simp
next
  case (3 u us buf)
  then obtain w p' where p': "p = w # p'" "p' \<in> n_lang us"
    by (auto simp: n_lang_def n_matches_def list_all2_Cons1)
  show ?case
  proof (cases "r \<in> set (word_runs us [])")
    case True
    have "query_words_ok us" using 3(2) by (simp add: query_words_ok_def)
    then obtain xs ys where "p' = xs @ r @ ys" using 3(1) [OF _ p'(2) True] by auto
    then have "buf @ p = (buf @ w # xs) @ r @ ys" using p'(1) by simp
    then show ?thesis by blast
  next
    case False
    then have "r = buf" using 3(4) by (auto split: if_splits)
    then show ?thesis by (metis append_Nil)
  qed
qed

lemma min_frequency_loop_ge:
  assumes "b \<le> mn" "\<And>x f i. x \<in> set ss \<Longrightarrow> rs_dictionary s x = Some (f, i) \<Longrightarrow> b \<le> f"
  shows "b \<le> min_frequency_loop s mn ss"
  using assms
proof (induction ss arbitrary: mn)
  case (Cons x ss)
  have "b \<le> (case rs_dictionary s x of Some (f, i) \<Rightarrow> min mn f | None \<Rightarrow> mn)"
    using Cons.prems by (auto split: option.splits prod.splits)
  then have "b \<le> min_frequency_loop s (case rs_dictionary s x of Some (f, i) \<Rightarrow> min mn f | None \<Rightarrow> mn) ss"
    by (rule Cons.IH) (use Cons.prems(2) in auto)
  then show ?case by simp
qed simp

lemma jumpin_frequency_ge:
  assumes "ngram_monotone s C" "query_words_ok q" "p \<in> C" "cp_words p \<in> n_lang q"
  shows "ucast (cp_freq p) \<le> compute_jumpin_frequency s q"
  unfolding compute_jumpin_frequency_def
proof (rule min_frequency_loop_ge)
  fix x f i assume x: "x \<in> set (extract_longest_substrings q)" "rs_dictionary s x = Some (f, i)"
  then obtain r where r: "r \<in> set (word_runs q [])" "x = join_with '' '' r"
    by (auto simp: extract_longest_substrings_runs)
  have "\<exists>xs ys. cp_words p = xs @ r @ ys" using word_runs_part [OF assms(2,4) r(1)] by simp
  then show "ucast (cp_freq p) \<le> f" using assms(1,3) x(2) r(2) unfolding ngram_monotone_def by blast
qed simp

section \<open>What the processor finds\<close>

definition accepted :: "corpus_phrase set \<Rightarrow> search_options \<Rightarrow> norm_query \<Rightarrow> corpus_phrase set" where
  "accepted C options q =
    {p \<in> C. cp_words p \<in> n_lang q \<and> ucast (cp_freq p) \<le> so_max_phrase_frequency options}"

definition search_ready :: "strategy3 \<Rightarrow> corpus_phrase set \<Rightarrow> search_options \<Rightarrow> norm_query \<Rightarrow> bool" where
  "search_ready s C options q \<longleftrightarrow> corpus_ok C \<and> represents s C q \<and> ngram_monotone s C
    \<and> query_words_ok q \<and> n_has_words q \<and> (\<forall>m \<in> set (initialize_query s options q). ready_for s q m)"

lemma n_has_words_iff: "n_has_words q \<longleftrightarrow> (\<exists>u \<in> set q. \<not> n_is_qmark u)"
  by (induction q) auto

lemma metadata_nonempty: "n_has_words q \<Longrightarrow> initialize_query s options q \<noteq> []"
  using initialize_query_positions [of s options q] by (fastforce simp: n_has_words_iff in_set_conv_nth)

lemma posting_entries:
  assumes "represents s C q" "m \<in> set (initialize_query s options q)" "posting_of s q m = Some L"
  shows "set L = entry_of ` with_word C q (um_position m)"
  using assms initialize_query_positions [of s options q] by (fastforce simp: represents_def)

lemma with_word_id:
  assumes "corpus_ok C" "p \<in> with_word C q i" "p' \<in> with_word C q j" "cp_id p = cp_id p'"
  shows "p = p'"
  using assms by (auto simp: corpus_ok_def with_word_def)

lemma accepted_with_word:
  "p \<in> accepted C options q \<Longrightarrow> m \<in> set (initialize_query s options q) \<Longrightarrow> p \<in> with_word C q (um_position m)"
  using initialize_query_positions [of s options q] by (auto simp: accepted_def with_word_def n_lang_iff)

lemma all_words_accepted:
  assumes "n_has_words q" "\<forall>m \<in> set (initialize_query s options q). p \<in> with_word C q (um_position m)"
    "ucast (cp_freq p) \<le> so_max_phrase_frequency options"
  shows "p \<in> accepted C options q"
proof -
  obtain m where m: "m \<in> set (initialize_query s options q)"
    using metadata_nonempty [OF assms(1), of s options] by (meson list.set_sel(1))
  have "cp_words p ! i = n_text (q ! i)" if "i < length q" "\<not> n_is_qmark (q ! i)" for i
  proof -
    have "i \<in> um_position ` set (initialize_query s options q)"
      unfolding initialize_query_positions using that by simp
    then show ?thesis using assms(2) by (auto simp: with_word_def)
  qed
  then show ?thesis using assms(2,3) m by (auto simp: accepted_def with_word_def n_lang_iff)
qed

lemma agreeing_postings:
  assumes "corpus_ok C" "represents s C q"
  shows "agreeing (posting_of s q) (set (initialize_query s options q))"
  unfolding agreeing_def
proof (intro ballI allI impI)
  fix m m' L L' e e'
  assume m: "m \<in> set (initialize_query s options q)" "m' \<in> set (initialize_query s options q)"
    "posting_of s q m = Some L" "posting_of s q m' = Some L'" "e \<in> set L" "e' \<in> set L'" "e_id e = e_id e'"
  obtain p p' where p: "p \<in> with_word C q (um_position m)" "e = entry_of p"
      "p' \<in> with_word C q (um_position m')" "e' = entry_of p'"
    using posting_entries [OF assms(2) m(1,3)] posting_entries [OF assms(2) m(2,4)] m(5,6) by auto
  then have "p = p'" using with_word_id [OF assms(1)] m(7) by (auto simp: entry_of_def)
  then show "e_freq e = e_freq e'" using p by simp
qed

text \<open>Searches for different numbers of phrases find prefixes of one list.\<close>

lemma initialize_query_options:
  assumes "so_pruning_high o' = so_pruning_high options" "so_pruning_low o' = so_pruning_low options"
  shows "initialize_query s o' q = initialize_query s options q"
proof -
  have "initialize_query_loop s o' q i = initialize_query_loop s options q i" for i
  proof (induction q arbitrary: i)
    case (Cons u us)
    then show ?case using assms by (cases u) (simp_all add: Let_def)
  qed simp
  then show ?thesis by (simp add: initialize_query_def)
qed

lemma initialize_query_count: "initialize_query s (options\<lparr>so_max_phrase_count := k\<rparr>) q = initialize_query s options q"
  by (rule initialize_query_options) simp_all

lemma search_ready_options:
  "so_pruning_high o' = so_pruning_high options \<Longrightarrow> so_pruning_low o' = so_pruning_low options \<Longrightarrow>
    search_ready s C o' q \<longleftrightarrow> search_ready s C options q"
  by (simp add: search_ready_def initialize_query_options [of o' options])

lemma process_unknown:
  assumes "m \<in> set (initialize_query s options q)" "posting_of s q m = None"
  shows "rr_refs (process s options q) = []"
  using strategy3.process_loop_unknown [of m "sort_key um_frequency (initialize_query s options q)" s q] assms
  by (auto simp: process_def process_query_def Let_def split: prod.splits dest!: arg_cong [of _ _ snd])

lemma process_known:
  assumes "search_ready s C options q" "\<forall>m \<in> set (initialize_query s options q). posting_of s q m \<noteq> None"
  shows "\<exists>F. posting_list F \<and> set F = entry_of ` accepted C options q
    \<and> (\<forall>k. process s (options\<lparr>so_max_phrase_count := k\<rparr>) q =
      \<lparr>rr_refs = map to_ref (take (unat k) F), rr_unknown_words = []\<rparr>)"
proof -
  define ms where "ms = sort_key um_frequency (initialize_query s options q)"
  define mf where "mf = min (so_max_phrase_frequency options) (compute_jumpin_frequency s q)"
  have sr: "corpus_ok C" "represents s C q" "ngram_monotone s C" "query_words_ok q" "n_has_words q"
      "\<forall>m \<in> set (initialize_query s options q). ready_for s q m"
    using assms(1) by (auto simp: search_ready_def)
  have ms: "set ms = set (initialize_query s options q)" by (simp add: ms_def)
  have ne: "ms \<noteq> []" using metadata_nonempty [OF sr(5), of s options] ms by (metis set_empty)
  obtain L where L: "posting_of s q (last ms) = Some L" using assms(2) ms ne by (metis last_in_set not_None_eq)
  have lm: "last ms \<in> set (initialize_query s options q)" using ms ne last_in_set by metis
  define B where "B = bounded_ids mf (posting_of s q) (set ms)"
  define F where "F = filter (\<lambda>e. e_id e \<in> B) L"
  have run: "process_loop (\<lambda>m. initialize_result_set s m q) (\<lambda>src m. intersect_result_set s src m q)
      k True ms {} (so_max_phrase_frequency options) [] = ([], take (unat k) F)" for k
    unfolding F_def B_def
    by (rule strategy3.process_loop_known [OF _ ne _ _ L])
      (use agreeing_postings [OF sr(1,2)] assms(2) sr(6) ms mf_def in simp_all)
  have pl: "posting_list L" using sr(6) lm L by (auto simp: ready_for_def posting_of_def)
  have "set F = entry_of ` accepted C options q"
  proof (intro equalityI subsetI)
    fix e assume "e \<in> set F"
    then have e: "e \<in> set L" "e_id e \<in> B" by (auto simp: F_def)
    then obtain p where p: "p \<in> with_word C q (um_position (last ms))" "e = entry_of p"
      using posting_entries [OF sr(2) lm L] by auto
    have "p \<in> with_word C q (um_position m)" if m: "m \<in> set (initialize_query s options q)" for m
    proof -
      obtain L' e' where "posting_of s q m = Some L'" "e' \<in> set L'" "e_id e' = e_id e"
        using e(2) m ms by (auto simp: B_def bounded_ids_def common_ids_def ids_def)
      then obtain p' where "p' \<in> with_word C q (um_position m)" "cp_id p' = cp_id p"
        using posting_entries [OF sr(2) m] p(2) by (auto simp: entry_of_def)
      then show ?thesis using with_word_id [OF sr(1) _ p(1)] by metis
    qed
    moreover have "freq_le mf e" using e L last_in_set [OF ne] unfolding B_def bounded_ids_def by blast
    then have "ucast (cp_freq p) \<le> so_max_phrase_frequency options"
      using p(2) by (simp add: freq_le_def entry_of_def mf_def)
    ultimately have "p \<in> accepted C options q" using all_words_accepted [OF sr(5)] by blast
    then show "e \<in> entry_of ` accepted C options q" using p(2) by simp
  next
    fix e assume "e \<in> entry_of ` accepted C options q"
    then obtain p where p: "p \<in> accepted C options q" "e = entry_of p" by auto
    have w: "p \<in> with_word C q (um_position m)" if "m \<in> set ms" for m
      using accepted_with_word [OF p(1)] that ms by simp
    have pc: "p \<in> C" "cp_words p \<in> n_lang q" "ucast (cp_freq p) \<le> so_max_phrase_frequency options"
      using p(1) by (auto simp: accepted_def)
    have f: "freq_le mf e"
      using pc(3) jumpin_frequency_ge [OF sr(3,4) pc(1,2)] p(2) by (simp add: freq_le_def entry_of_def mf_def)
    have "e_id e \<in> B"
      unfolding B_def bounded_ids_def common_ids_def
    proof (intro CollectI conjI ballI allI impI)
      fix m assume m: "m \<in> set ms"
      then obtain L' where L': "posting_of s q m = Some L'" using assms(2) ms by auto
      moreover have "e \<in> set L'" using posting_entries [OF sr(2) _ L'] w [OF m] m ms p(2) by auto
      ultimately show "\<exists>L. posting_of s q m = Some L \<and> e_id e \<in> ids L" by (auto simp: ids_def)
    next
      fix m L' e' assume m: "m \<in> set ms" "posting_of s q m = Some L'" "e' \<in> set L'" "e_id e' = e_id e"
      then obtain p' where "p' \<in> with_word C q (um_position m)" "e' = entry_of p'"
        using posting_entries [OF sr(2) _ m(2)] ms by auto
      moreover from this have "p' = p" using with_word_id [OF sr(1) _ w [OF m(1)]] m(4) p(2) by (simp add: entry_of_def)
      ultimately show "freq_le mf e'" using f p(2) by simp
    qed
    moreover have "e \<in> set L" using posting_entries [OF sr(2) lm L] w [of "last ms"] p(2) ne by simp
    ultimately show "e \<in> set F" by (simp add: F_def)
  qed
  moreover have "process s (options\<lparr>so_max_phrase_count := k\<rparr>) q =
      \<lparr>rr_refs = map to_ref (take (unat k) F), rr_unknown_words = []\<rparr>" for k
    using run [of k] by (simp add: process_def process_query_def ms_def initialize_query_count)
  moreover have "posting_list F" unfolding F_def by (rule posting_list_filter [OF pl])
  ultimately show ?thesis by blast
qed

text \<open>A word without a posting list accepts nothing.\<close>

lemma unknown_accepted:
  assumes "search_ready s C options q" "m \<in> set (initialize_query s options q)" "posting_of s q m = None"
  shows "accepted C options q = {}"
proof -
  have "represents s C q" using assms(1) by (simp add: search_ready_def)
  then have "with_word C q (um_position m) = {}"
    using assms(2,3) initialize_query_positions [of s options q] by (fastforce simp: represents_def)
  then show ?thesis using accepted_with_word [OF _ assms(2)] by blast
qed

lemma process_counts:
  assumes "n_has_words q \<longrightarrow> search_ready s C options q"
  shows "\<exists>F unk. (\<forall>k. process s (options\<lparr>so_max_phrase_count := k\<rparr>) q
      = \<lparr>rr_refs = map to_ref (take (unat k) F), rr_unknown_words = unk\<rparr>)
    \<and> posting_list F \<and> (F \<noteq> [] \<longrightarrow> unk = [])
    \<and> set F \<subseteq> entry_of ` accepted C options q \<and> (n_has_words q \<longrightarrow> set F = entry_of ` accepted C options q)"
proof (cases "n_has_words q")
  case False
  then have "initialize_query s options q = []"
    using initialize_query_positions [of s options q]
    by (metis (no_types, lifting) Collect_empty_eq image_is_empty n_has_words_iff nth_mem set_empty)
  then show ?thesis
    using False by (intro exI [of _ "[]"]) (simp add: process_def process_query_def initialize_query_count posting_list_def)
next
  case True
  then have sr: "search_ready s C options q" using assms by simp
  show ?thesis
  proof (cases "\<forall>m \<in> set (initialize_query s options q). posting_of s q m \<noteq> None")
    case False
    then obtain m where m: "m \<in> set (initialize_query s options q)" "posting_of s q m = None" by blast
    define u where "u = rr_unknown_words (process s options q)"
    have "process s (options\<lparr>so_max_phrase_count := k\<rparr>) q
        = \<lparr>rr_refs = [], rr_unknown_words = u\<rparr>" for k
    proof -
      have "rr_refs (process s (options\<lparr>so_max_phrase_count := k\<rparr>) q) = []"
        by (rule process_unknown [OF _ m(2)]) (simp add: initialize_query_count m(1))
      moreover have "rr_unknown_words (process s (options\<lparr>so_max_phrase_count := k\<rparr>) q) = u"
        unfolding u_def using strategy3.process_loop_counts [of m "sort_key um_frequency (initialize_query s options q)" s q k]
          m by (simp add: process_def process_query_def initialize_query_count Let_def split_beta)
      ultimately show ?thesis by (metis raw_ref_result.surjective old.unit.exhaust)
    qed
    moreover have "accepted C options q = {}" by (rule unknown_accepted [OF sr m])
    ultimately show ?thesis by (intro exI [of _ "[]"] exI [of _ u]) (simp add: posting_list_def)
  next
    case True
    have "\<exists>F. posting_list F \<and> set F = entry_of ` accepted C options q
        \<and> (\<forall>k. process s (options\<lparr>so_max_phrase_count := k\<rparr>) q
          = \<lparr>rr_refs = map to_ref (take (unat k) F), rr_unknown_words = []\<rparr>)"
      by (rule process_known [OF sr True])
    then show ?thesis by auto
  qed
qed

definition ref_of :: "corpus_phrase \<Rightarrow> raw_ref" where
  "ref_of p = to_ref (entry_of p)"

lemma ref_of_simps [simp]: "ref_id (ref_of p) = cp_id p" "ref_freq (ref_of p) = cp_freq p"
  by (simp_all add: ref_of_def to_ref_def entry_of_def)

lemma process_finds:
  assumes "search_ready s C options q"
  shows "sorted_wrt (\<lambda>a b. ref_freq b \<le> ref_freq a) (rr_refs (process s options q))
    \<and> distinct (rr_refs (process s options q))
    \<and> set (rr_refs (process s options q)) \<subseteq> ref_of ` accepted C options q
    \<and> length (rr_refs (process s options q))
        = min (unat (so_max_phrase_count options)) (card (accepted C options q))
    \<and> (\<forall>p \<in> accepted C options q. \<forall>r \<in> set (rr_refs (process s options q)).
        ref_of p \<notin> set (rr_refs (process s options q)) \<longrightarrow> cp_freq p \<le> ref_freq r)"
proof (cases "\<forall>m \<in> set (initialize_query s options q). posting_of s q m \<noteq> None")
  case False
  then obtain m where m: "m \<in> set (initialize_query s options q)" "posting_of s q m = None" by blast
  have "accepted C options q = {}" by (rule unknown_accepted [OF assms m])
  then show ?thesis using process_unknown [OF m] by simp
next
  case True
  define k where "k = unat (so_max_phrase_count options)"
  obtain F where F: "posting_list F" "set F = entry_of ` accepted C options q"
      "\<forall>k. process s (options\<lparr>so_max_phrase_count := k\<rparr>) q
        = \<lparr>rr_refs = map to_ref (take (unat k) F), rr_unknown_words = []\<rparr>"
    using process_known [OF assms True] by blast
  have F3: "rr_refs (process s options q) = map to_ref (take k F)"
    using F(3) [THEN spec, of "so_max_phrase_count options"] by (simp add: k_def)
  have inj: "inj_on entry_of (accepted C options q)"
    using assms by (auto simp: inj_on_def search_ready_def corpus_ok_def accepted_def entry_of_def dest!: n_lang_length)
  have tinj: "inj to_ref" by (auto simp: inj_def to_ref_def)
  have "distinct F" using F(1) by (auto simp: posting_list_def distinct_map)
  then have len: "length F = card (accepted C options q)"
    using distinct_card [of F] F(2) card_image [OF inj] by simp
  have pl: "posting_list (take k F)" by (rule posting_list_take [OF F(1)])
  have d: "distinct (take k F)" using \<open>distinct F\<close> by simp
  have rest: "cp_freq p \<le> ref_freq r"
    if p: "p \<in> accepted C options q" "r \<in> set (map to_ref (take k F))" "ref_of p \<notin> set (map to_ref (take k F))" for p r
  proof -
    obtain e where e: "e \<in> set (take k F)" "r = to_ref e" using p(2) by auto
    have "entry_of p \<in> set F" unfolding F(2) using p(1) by (rule imageI)
    moreover have "entry_of p \<notin> set (take k F)" using p(3) by (auto simp: ref_of_def)
    ultimately have "entry_of p \<in> set (drop k F)" by (metis append_take_drop_id Un_iff set_append)
    moreover have "sorted_wrt (\<lambda>a b. e_freq b \<le> e_freq a) (take k F @ drop k F)"
      using F(1) by (simp add: posting_list_def)
    then have "\<forall>a \<in> set (take k F). \<forall>b \<in> set (drop k F). e_freq b \<le> e_freq a"
      unfolding sorted_wrt_append by blast
    ultimately have "e_freq (entry_of p) \<le> e_freq e" using e(1) by blast
    then show ?thesis using e(2) by (simp add: entry_of_def to_ref_def)
  qed
  have "sorted_wrt (\<lambda>a b. ref_freq b \<le> ref_freq a) (map to_ref (take k F))"
    using pl by (simp add: sorted_wrt_map posting_list_def to_ref_def)
  moreover have "distinct (map to_ref (take k F))"
    using d inj_on_subset [OF tinj subset_UNIV] by (simp only: distinct_map)
  moreover have "set (map to_ref (take k F)) \<subseteq> ref_of ` accepted C options q"
  proof -
    have "to_ref ` set (take k F) \<subseteq> to_ref ` entry_of ` accepted C options q"
      unfolding F(2) [symmetric] by (rule image_mono [OF set_take_subset])
    then show ?thesis by (simp add: ref_of_def image_image)
  qed
  moreover have "length (map to_ref (take k F)) = min k (card (accepted C options q))" by (simp add: len)
  ultimately show ?thesis using rest unfolding F3 k_def by blast
qed

text \<open>
  C31. Search over the index: for an index that represents a corpus, the references of a result
  are the phrases of the corpus that the norm query accepts and that are not too frequent - the
  most frequent ones, each once, by descending frequency, as many as there are up to
  \<open>max_phrase_count\<close>.
\<close>

theorem process_finds_most_frequent:
  assumes "search_ready s C options q"
  shows "sorted_wrt (\<lambda>a b. ref_freq b \<le> ref_freq a) (rr_refs (process s options q))
    \<and> distinct (rr_refs (process s options q))
    \<and> set (rr_refs (process s options q)) \<subseteq> ref_of ` accepted C options q
    \<and> length (rr_refs (process s options q))
        = min (unat (so_max_phrase_count options)) (card (accepted C options q))
    \<and> (\<forall>p \<in> accepted C options q. \<forall>r \<in> set (rr_refs (process s options q)).
        ref_of p \<notin> set (rr_refs (process s options q)) \<longrightarrow> cp_freq p \<le> ref_freq r)"
  using assms by (rule process_finds)

text \<open>An index for the phrases \<open>the big cat\<close>, \<open>the old cat\<close>, \<open>a big cat\<close>, \<open>the big dog\<close>.\<close>

definition ex_corpus :: "corpus_phrase set" where
  "ex_corpus = set [\<lparr>cp_words = [''the'', ''big'', ''cat''], cp_freq = 10, cp_id = 0\<rparr>,
    \<lparr>cp_words = [''the'', ''old'', ''cat''], cp_freq = 20, cp_id = 1\<rparr>,
    \<lparr>cp_words = [''a'', ''big'', ''cat''], cp_freq = 30, cp_id = 2\<rparr>,
    \<lparr>cp_words = [''the'', ''big'', ''dog''], cp_freq = 40, cp_id = 3\<rparr>]"

definition ex_strategy :: strategy3 where
  "ex_strategy = \<lparr>rs_dictionary = [''the'' \<mapsto> (50, 0)], rs_postlist_index = [''3:0_the'' \<mapsto> [(0, 40)]],
    rs_phrase_index = [''3:0_the'' \<mapsto> [(40, 3), (20, 1), (10, 0)], ''3:2_cat'' \<mapsto> [(30, 2), (20, 1), (10, 0)]]\<rparr>"

definition ex_search_options :: search_options where
  "ex_search_options = \<lparr>so_max_phrase_count = 5, so_max_phrase_frequency = 100, so_phrase_length_min = 1,
    so_phrase_length_max = 5, so_pruning_high = 160000, so_pruning_low = 130000\<rparr>"

definition ex_norm_query :: norm_query where
  "ex_norm_query = [NWord ''the'' [0], NQMark [1], NWord ''cat'' [2]]"

lemma ex_search_ready: "search_ready ex_strategy ex_corpus ex_search_options ex_norm_query"
proof -
  have digits: "show_nat (Suc (Suc (Suc 0))) = ''3''" "show_nat 0 = ''0''" "show_nat 2 = ''2''" by code_simp+
  have key: "make_key ex_norm_query m = ''3:0_the''" if "um_position m = 0" for m
    using that by (simp add: make_key_def ex_norm_query_def digits)
  have key2: "make_key ex_norm_query m = ''3:2_cat''" if "um_position m = 2" for m
    using that by (simp add: make_key_def ex_norm_query_def digits)
  have w0: "with_word ex_corpus ex_norm_query 0 = {p \<in> ex_corpus. cp_id p \<noteq> 2}"
    by (auto simp: with_word_def ex_corpus_def ex_norm_query_def)
  have w2: "with_word ex_corpus ex_norm_query 2 = {p \<in> ex_corpus. cp_id p \<noteq> 3}"
    by (auto simp: with_word_def ex_corpus_def ex_norm_query_def)
  have e0: "entry_of ` {p \<in> ex_corpus. cp_id p \<noteq> 2} = set [(40, 3), (20, 1), (10, 0)]"
    unfolding ex_corpus_def set_filter [symmetric] by (auto simp: entry_of_def)
  have e2: "entry_of ` {p \<in> ex_corpus. cp_id p \<noteq> 3} = set [(30, 2), (20, 1), (10, 0)]"
    unfolding ex_corpus_def set_filter [symmetric] by (auto simp: entry_of_def)
  have "represents ex_strategy ex_corpus ex_norm_query"
    unfolding represents_def
  proof (intro allI impI)
    fix m :: unit_metadata assume "um_position m < length ex_norm_query" "\<not> n_is_qmark (ex_norm_query ! um_position m)"
    then have "um_position m = 0 \<or> um_position m = 2"
      by (auto simp: ex_norm_query_def less_Suc_eq numeral_2_eq_2)
    then show "set (case posting_of ex_strategy ex_norm_query m of None \<Rightarrow> [] | Some L \<Rightarrow> L)
        = entry_of ` with_word ex_corpus ex_norm_query (um_position m)"
    proof
      assume "um_position m = 0"
      then show ?thesis using key [of m] e0 w0 by (simp add: posting_of_def ex_strategy_def)
    next
      assume "um_position m = 2"
      then show ?thesis using key2 [of m] e2 w2 by (simp add: posting_of_def ex_strategy_def)
    qed
  qed
  moreover have "corpus_ok ex_corpus" by (auto simp: corpus_ok_def ex_corpus_def)
  moreover have "ngram_monotone ex_strategy ex_corpus"
  proof -
    have "ucast (cp_freq p) \<le> (50 :: u64)" if "p \<in> ex_corpus" for p
      using that by (auto simp: ex_corpus_def)
    then show ?thesis by (auto simp: ngram_monotone_def ex_strategy_def split: if_splits)
  qed
  moreover have "query_words_ok ex_norm_query" "n_has_words ex_norm_query"
    by (simp_all add: query_words_ok_def ex_norm_query_def)
  moreover have "ready_for ex_strategy ex_norm_query m"
    if "m \<in> set (initialize_query ex_strategy ex_search_options ex_norm_query)" for m
  proof -
    have "m = \<lparr>um_position = 0, um_frequency = 50, um_pruning = 130000\<rparr>
        \<or> m = \<lparr>um_position = 2, um_frequency = 0, um_pruning = 130000\<rparr>"
      using that by (auto simp: initialize_query_def ex_norm_query_def ex_strategy_def ex_search_options_def)
    then show ?thesis
      using key [of m] key2 [of m]
      by (auto simp: ready_for_def ex_strategy_def posting_list_def indexes_def)
  qed
  ultimately show ?thesis by (simp add: search_ready_def)
qed

theorem process_finds_most_frequent_witness:
  "set (rr_refs (process ex_strategy ex_search_options ex_norm_query))
      \<subseteq> ref_of ` accepted ex_corpus ex_search_options ex_norm_query
    \<and> length (rr_refs (process ex_strategy ex_search_options ex_norm_query))
        = min 5 (card (accepted ex_corpus ex_search_options ex_norm_query))"
  using process_finds_most_frequent [OF ex_search_ready] by (simp add: ex_search_options_def)

text \<open>
  The lost entries: when an entry of the postlist index has exactly the frequency that is
  searched for, reading starts at its offset, although the entries before it may have the same
  frequency.  The index entry (2, 5) describes the list, and the entry with id 2 is lost.
\<close>

theorem index_hit_loses_entries:
  "let L = [(9, 1), (5, 2), (5, 3)];
       s = ex_strategy\<lparr>rs_phrase_index := (\<lambda>key. Some L), rs_postlist_index := (\<lambda>key. Some [(2, 5)])\<rparr>
   in e_freq (L ! 2) = 5 \<and> search_list s key 5 130000 = Some [(5, 3)]
     \<and> filter (freq_le 5) L = [(5, 2), (5, 3)]"
  by (simp add: search_list_def search_postlist_def read_postlist_def freq_le_def min_def)

end
