(* ===== verification/Wildcard_Cache.thy ===== *)
theory Wildcard_Cache
  imports Phrases Lfu_Cache Corpus_Search
begin

text \<open>
  The result cache of \<open>src/netspeak/Netspeak.cpp\<close>: keys of norm queries, pruning, and
  \<open>process_wildcard_query_\<close>, which answers a query with question marks from the cache or from the
  query processor.  The operations of the cache and the processor are arguments of the model; in
  the program they are \<open>LfuCache\<close> and the processor over \<open>RetrievalStrategy3\<close>.
\<close>

section \<open>Keys\<close>

definition unit_key :: "norm_unit \<Rightarrow> string" where
  "unit_key u = (case u of NWord t _ \<Rightarrow> t | NQMark _ \<Rightarrow> ''?'')"

fun key_loop :: "norm_query \<Rightarrow> string" where
  "key_loop [] = []"
| "key_loop (u # us) = '' '' @ unit_key u @ key_loop us"

definition norm_query_to_key :: "norm_query \<Rightarrow> string" where
  "norm_query_to_key query = (case query of [] \<Rightarrow> [] | u # us \<Rightarrow> unit_key u @ key_loop us)"

section \<open>Pruning\<close>

definition options_equal :: "search_options \<Rightarrow> search_options \<Rightarrow> bool" where
  "options_equal lhs rhs \<longleftrightarrow> so_max_phrase_count lhs = so_max_phrase_count rhs
    \<and> so_max_phrase_frequency lhs = so_max_phrase_frequency rhs
    \<and> so_phrase_length_min lhs = so_phrase_length_min rhs
    \<and> so_phrase_length_max lhs = so_phrase_length_max rhs
    \<and> so_pruning_high lhs = so_pruning_high rhs \<and> so_pruning_low lhs = so_pruning_low rhs"

definition is_prunable_from :: "search_options \<Rightarrow> search_options \<Rightarrow> bool" where
  "is_prunable_from superset options \<longleftrightarrow>
    so_max_phrase_frequency superset = so_max_phrase_frequency options
    \<and> so_max_phrase_count superset \<ge> so_max_phrase_count options
    \<and> so_phrase_length_min superset \<le> so_phrase_length_min options
    \<and> so_phrase_length_max superset \<ge> so_phrase_length_max options
    \<and> so_pruning_low superset \<ge> so_pruning_low options
    \<and> so_pruning_high superset \<ge> so_pruning_high options"

fun prune_loop :: "search_options \<Rightarrow> raw_ref list \<Rightarrow> raw_ref list \<Rightarrow> raw_ref list" where
  "prune_loop options [] pruned = pruned"
| "prune_loop options (r # rs) pruned =
    (if ucast (ref_freq r) \<le> so_max_phrase_frequency options
     then (let pruned = pruned @ [r]
           in if length pruned \<ge> unat (so_max_phrase_count options) then pruned
              else prune_loop options rs pruned)
     else prune_loop options rs pruned)"

definition prune :: "raw_ref_result \<Rightarrow> search_options \<Rightarrow> raw_ref_result" where
  "prune result options =
    \<lparr>rr_refs = (if so_max_phrase_count options > 0 then prune_loop options (rr_refs result) [] else []),
     rr_unknown_words = rr_unknown_words result\<rparr>"

section \<open>Wildcard queries\<close>

record cache_item =
  ci_options :: search_options
  ci_result :: raw_ref_result

definition process_wildcard ::
    "('c \<Rightarrow> string \<Rightarrow> cache_item option \<times> 'c) \<Rightarrow> ('c \<Rightarrow> string \<Rightarrow> cache_item \<Rightarrow> 'c \<times> bool) \<Rightarrow>
     ('c \<Rightarrow> string \<Rightarrow> cache_item \<Rightarrow> 'c \<times> bool) \<Rightarrow> (search_options \<Rightarrow> norm_query \<Rightarrow> raw_ref_result) \<Rightarrow>
     search_options \<Rightarrow> norm_query \<Rightarrow> 'c \<Rightarrow> (raw_ref_result \<times> 'c) option" where
  "process_wildcard find_fn insert_fn update_fn processor options query c =
    (let query_key = norm_query_to_key query;
         (cached_result, c) = find_fn c query_key
     in case cached_result of
          None \<Rightarrow>
            (let final_result = processor options query
             in Some (final_result, fst (insert_fn c query_key \<lparr>ci_options = options, ci_result = final_result\<rparr>)))
        | Some item \<Rightarrow>
            if options_equal (ci_options item) options then Some (ci_result item, c)
            else if is_prunable_from (ci_options item) options then Some (prune (ci_result item) options, c)
            else
              (let final_result = processor options query
               in if \<not> disjoint_with final_result (ci_result item)
                  then map_option (\<lambda>merged.
                         (final_result, fst (update_fn c query_key \<lparr>ci_options = options, ci_result = merged\<rparr>)))
                       (merge_refs final_result (ci_result item))
                  else Some (final_result,
                         fst (insert_fn c query_key \<lparr>ci_options = options, ci_result = final_result\<rparr>))))"

definition process_wildcard_query ::
    "strategy3 \<Rightarrow> search_options \<Rightarrow> norm_query \<Rightarrow> cache_item lfu_cache \<Rightarrow> (raw_ref_result \<times> cache_item lfu_cache) option" where
  "process_wildcard_query s =
    process_wildcard (lc_find std_heaps) (lc_insert std_heaps) (lc_update std_heaps) (process s)"

section \<open>Keys identify queries\<close>

text \<open>The words for which the comment of \<open>norm_query_to_key\<close> holds.\<close>

definition key_safe :: "norm_query \<Rightarrow> bool" where
  "key_safe q \<longleftrightarrow> (\<forall>u \<in> set q. n_is_qmark u \<or> (n_text u \<noteq> [] \<and> n_text u \<noteq> ''?'' \<and> CHR '' '' \<notin> set (n_text u)))"

lemma key_safe_Cons: "key_safe (u # us) \<longleftrightarrow> key_safe us
    \<and> (n_is_qmark u \<or> (n_text u \<noteq> [] \<and> n_text u \<noteq> ''?'' \<and> CHR '' '' \<notin> set (n_text u)))"
  by (auto simp: key_safe_def)

lemma unit_key_no_space: "key_safe (u # us) \<Longrightarrow> CHR '' '' \<notin> set (unit_key u) \<and> unit_key u \<noteq> []"
  by (cases u) (auto simp: key_safe_def unit_key_def)

lemma unit_key_inj: "key_safe (u # us) \<Longrightarrow> key_safe (v # vs) \<Longrightarrow> unit_key u = unit_key v \<longleftrightarrow> n_unit_equal u v"
  by (cases u; cases v) (auto simp: key_safe_def unit_key_def)

lemma split_at_char:
  "c \<notin> set a \<Longrightarrow> c \<notin> set b \<Longrightarrow> x = [] \<or> hd x = c \<Longrightarrow> y = [] \<or> hd y = c \<Longrightarrow> a @ x = b @ y \<Longrightarrow> a = b \<and> x = y"
proof (induction a arbitrary: b)
  case Nil
  then show ?case by (cases b) auto
next
  case (Cons z a)
  then show ?case by (cases b) auto
qed

lemma key_loop_head: "key_loop us = [] \<or> hd (key_loop us) = CHR '' ''"
  by (cases us) auto

lemma key_step:
  assumes "key_safe (u # us)" "key_safe (v # vs)"
  shows "unit_key u @ key_loop us = unit_key v @ key_loop vs \<longleftrightarrow> n_unit_equal u v \<and> key_loop us = key_loop vs"
proof
  assume "unit_key u @ key_loop us = unit_key v @ key_loop vs"
  then have "unit_key u = unit_key v \<and> key_loop us = key_loop vs"
    using unit_key_no_space [OF assms(1)] unit_key_no_space [OF assms(2)]
    by (intro split_at_char [OF _ _ key_loop_head key_loop_head]) simp_all
  then show "n_unit_equal u v \<and> key_loop us = key_loop vs" using unit_key_inj [OF assms] by simp
next
  assume "n_unit_equal u v \<and> key_loop us = key_loop vs"
  then show "unit_key u @ key_loop us = unit_key v @ key_loop vs" using unit_key_inj [OF assms] by simp
qed

lemma n_equal_iff: "n_equal q q' \<longleftrightarrow> list_all2 n_unit_equal q q'"
  unfolding n_equal_def list_all2_conv_all_nth list_all_iff set_upt by auto

lemma n_equal_Cons: "n_equal (u # us) (v # vs) \<longleftrightarrow> n_unit_equal u v \<and> n_equal us vs"
  by (simp add: n_equal_iff)

lemma n_equal_Nil: "n_equal [] vs \<longleftrightarrow> vs = []" "n_equal us [] \<longleftrightarrow> us = []"
  by (simp_all add: n_equal_iff)

lemma key_loop_eq: "key_safe us \<Longrightarrow> key_safe vs \<Longrightarrow> key_loop us = key_loop vs \<longleftrightarrow> n_equal us vs"
proof (induction us arbitrary: vs)
  case Nil
  then show ?case by (cases vs) (auto simp: n_equal_Nil)
next
  case (Cons u us)
  show ?case
  proof (cases vs)
    case Nil
    then show ?thesis by (simp add: n_equal_Nil)
  next
    case (Cons v ws)
    then show ?thesis
      using Cons.IH [of ws] key_step [of u us v ws] Cons.prems by (simp add: n_equal_Cons key_safe_Cons)
  qed
qed

lemma key_unique:
  assumes "key_safe q" "key_safe q'"
  shows "norm_query_to_key q = norm_query_to_key q' \<longleftrightarrow> n_equal q q'"
proof (cases q; cases q')
  fix u us v vs assume q: "q = u # us" "q' = v # vs"
  then show ?thesis
    using key_step [of u us v vs] key_loop_eq [of us vs] assms
    by (simp add: norm_query_to_key_def n_equal_Cons key_safe_Cons)
qed (use assms unit_key_no_space in \<open>auto simp: norm_query_to_key_def n_equal_Nil\<close>)

section \<open>The processor looks at texts only\<close>

lemma n_unit_equal_iff: "n_unit_equal u v \<longleftrightarrow> n_is_qmark u = n_is_qmark v \<and> n_text u = n_text v \<or> n_is_qmark u \<and> n_is_qmark v"
  by (cases u; cases v) auto

lemma n_unit_equal_text: "n_unit_equal u v \<Longrightarrow> n_text u = n_text v \<and> n_is_qmark u = n_is_qmark v"
  by (cases u; cases v) auto

lemma n_equal_induct [consumes 1, case_names Nil Cons]:
  assumes "n_equal q q'" "P [] []"
    "\<And>u us v vs. n_unit_equal u v \<Longrightarrow> n_equal us vs \<Longrightarrow> P us vs \<Longrightarrow> P (u # us) (v # vs)"
  shows "P q q'"
  using assms(1)
proof (induction q arbitrary: q')
  case Nil
  then show ?case using assms(2) by (simp add: n_equal_Nil)
next
  case (Cons u us)
  then show ?case using assms(3) by (cases q') (auto simp: n_equal_Nil n_equal_Cons)
qed

lemma n_equal_nth: "n_equal q q' \<Longrightarrow> i < length q \<Longrightarrow> n_text (q ! i) = n_text (q' ! i)"
  using n_unit_equal_text by (auto simp: n_equal_def list_all_iff)

lemma n_equal_length: "n_equal q q' \<Longrightarrow> length q = length q'"
  by (simp add: n_equal_def)

lemma initialize_query_equal: "n_equal q q' \<Longrightarrow> initialize_query s options q = initialize_query s options q'"
proof -
  have "initialize_query_loop s options q i = initialize_query_loop s options q' i" if "n_equal q q'" for i
    using that
  proof (induction arbitrary: i rule: n_equal_induct)
    case (Cons u us v vs)
    then show ?case by (cases u; cases v) (auto simp: Let_def)
  qed simp
  then show "n_equal q q' \<Longrightarrow> initialize_query s options q = initialize_query s options q'"
    by (simp add: initialize_query_def)
qed

lemma substrings_loop_equal:
  "n_equal q q' \<Longrightarrow> substrings_loop q n subs buf = substrings_loop q' n subs buf"
proof (induction arbitrary: n subs buf rule: n_equal_induct)
  case (Cons u us v vs)
  then show ?case by (cases u; cases v) (auto simp: Let_def)
qed simp

lemma jumpin_equal: "n_equal q q' \<Longrightarrow> compute_jumpin_frequency s q = compute_jumpin_frequency s q'"
  by (simp add: compute_jumpin_frequency_def extract_longest_substrings_def substrings_loop_equal)

lemma result_sets_equal:
  assumes "n_equal q q'" "um_position m < length q"
  shows "initialize_result_set s m q = initialize_result_set s m q'"
    and "intersect_result_set s src m q = intersect_result_set s src m q'"
proof -
  have key: "make_key q m = make_key q' m" and text_eq: "n_text (q ! um_position m) = n_text (q' ! um_position m)"
    using n_equal_nth [OF assms] n_equal_length [OF assms(1)] by (simp_all add: make_key_def)
  show "initialize_result_set s m q = initialize_result_set s m q'"
    by (intro ext) (simp only: initialize_result_set_def jumpin_equal [OF assms(1)] key text_eq)
  show "intersect_result_set s src m q = intersect_result_set s src m q'"
    by (intro ext) (simp only: intersect_result_set_def key text_eq)
qed

lemma process_loop_cong:
  assumes "\<And>m. m \<in> set ms \<Longrightarrow> f m = f' m" "\<And>m src. m \<in> set ms \<Longrightarrow> g src m = g' src m"
  shows "process_loop f g mc first ms src cur unknown = process_loop f' g' mc first ms src cur unknown"
  using assms
proof (induction ms arbitrary: first src cur unknown)
  case (Cons m ms)
  have "process_loop f g mc b ms s c u = process_loop f' g' mc b ms s c u" for b s c u
    using Cons by simp
  then show ?case using Cons.prems by (simp add: Let_def split: prod.splits)
qed simp

lemma process_equal:
  assumes "n_equal q q'"
  shows "process s options q = process s options q'"
proof -
  have pos: "um_position m < length q" if "m \<in> set (initialize_query s options q)" for m
    using that initialize_query_positions [of s options q] by blast
  show ?thesis
    unfolding process_def process_query_def initialize_query_equal [OF assms, symmetric] Let_def
    by (subst process_loop_cong [where f' = "\<lambda>m. initialize_result_set s m q'"
          and g' = "\<lambda>src m. intersect_result_set s src m q'"])
      (use result_sets_equal [OF assms] pos in auto)
qed

lemma options_equal_iff: "options_equal a b \<longleftrightarrow> a = b"
  by (cases a; cases b) (simp add: options_equal_def)

lemma prune_loop_filter:
  assumes "length acc < unat (so_max_phrase_count options)"
  shows "prune_loop options rs acc
    = acc @ take (unat (so_max_phrase_count options) - length acc)
        (filter (\<lambda>r. ucast (ref_freq r) \<le> so_max_phrase_frequency options) rs)"
  using assms
proof (induction rs arbitrary: acc)
  case (Cons r rs)
  let ?n = "unat (so_max_phrase_count options)"
  show ?case
  proof (cases "ucast (ref_freq r) \<le> so_max_phrase_frequency options")
    case True
    show ?thesis
    proof (cases "Suc (length acc) < ?n")
      case less: True
      then have "?n - length acc = Suc (?n - Suc (length acc))" by simp
      then show ?thesis using True less Cons.IH [of "acc @ [r]"] by (simp add: Let_def)
    next
      case False
      then have "?n - length acc = 1" using Cons.prems by simp
      then show ?thesis using True False by (simp add: Let_def)
    qed
  next
    case False
    then show ?thesis using Cons by simp
  qed
qed simp

lemma prune_eq:
  "prune result options =
    \<lparr>rr_refs = take (unat (so_max_phrase_count options))
        (filter (\<lambda>r. ucast (ref_freq r) \<le> so_max_phrase_frequency options) (rr_refs result)),
     rr_unknown_words = rr_unknown_words result\<rparr>"
proof (cases "so_max_phrase_count options > 0")
  case True
  then show ?thesis by (simp add: prune_def prune_loop_filter unat_gt_0)
next
  case False
  then have "unat (so_max_phrase_count options) = 0" by (simp add: word_gt_0)
  then show ?thesis using False by (simp add: prune_def)
qed

section \<open>Serving from the cache\<close>

text \<open>What is served and what is kept, for any property of the entries that the new ones have.\<close>

locale item_cache = result_cache find_in insert_in update_in content_of valid
  for find_in :: "'c \<Rightarrow> string \<Rightarrow> cache_item option \<times> 'c"
    and insert_in update_in :: "'c \<Rightarrow> string \<Rightarrow> cache_item \<Rightarrow> 'c \<times> bool"
    and content_of :: "'c \<Rightarrow> string \<Rightarrow> cache_item option"
    and valid :: "'c \<Rightarrow> bool"
begin

lemma process_wildcard_entries:
  assumes "entries_ok P c"
    and "P (norm_query_to_key q) \<lparr>ci_options = options, ci_result = processor options q\<rparr>"
    and "\<And>item merged. P (norm_query_to_key q) item \<Longrightarrow> ci_options item \<noteq> options \<Longrightarrow>
      \<not> is_prunable_from (ci_options item) options \<Longrightarrow> \<not> disjoint_with (processor options q) (ci_result item) \<Longrightarrow>
      merge_refs (processor options q) (ci_result item) = Some merged \<Longrightarrow>
      P (norm_query_to_key q) \<lparr>ci_options = options, ci_result = merged\<rparr>"
    and "process_wildcard find_in insert_in update_in processor options q c = Some (r, c')"
  shows "entries_ok P c' \<and> (r = processor options q
    \<or> (\<exists>item. P (norm_query_to_key q) item
        \<and> (ci_options item = options \<and> r = ci_result item
          \<or> is_prunable_from (ci_options item) options \<and> r = prune (ci_result item) options)))"
proof -
  obtain cached c1 where f: "find_in c (norm_query_to_key q) = (cached, c1)"
    by (cases "find_in c (norm_query_to_key q)")
  note e = entries_find [OF assms(1) f]
  note put = entries_put [of P c1 "norm_query_to_key q"]
  show ?thesis
  proof (cases cached)
    case None
    then show ?thesis using assms(2,4) e put by (auto simp: process_wildcard_def f Let_def)
  next
    case (Some item)
    then have P: "P (norm_query_to_key q) item" using e by simp
    consider "ci_options item = options" | "ci_options item \<noteq> options" "is_prunable_from (ci_options item) options"
      | (new) "ci_options item \<noteq> options" "\<not> is_prunable_from (ci_options item) options" by blast
    then show ?thesis
    proof cases
      case new
      then show ?thesis
        using assms(2,4) e put Some assms(3) [OF P new]
        by (auto simp: process_wildcard_def f options_equal_iff Let_def split: if_splits)
    qed (use assms(4) e P Some in \<open>auto simp: process_wildcard_def f options_equal_iff Let_def\<close>)
  qed
qed

end

interpretation items: item_cache
  "lc_find std_heaps" "lc_insert std_heaps" "lc_update std_heaps" content "lfu_inv is_heap"
  by unfold_locales

section \<open>Requests for different numbers of phrases\<close>

fun serve_all :: "strategy3 \<Rightarrow> (search_options \<times> norm_query) list \<Rightarrow> cache_item lfu_cache \<Rightarrow>
    (raw_ref_result list \<times> cache_item lfu_cache) option" where
  "serve_all s [] c = Some ([], c)"
| "serve_all s ((options, q) # requests) c =
    (case process_wildcard_query s options q c of
       None \<Rightarrow> None
     | Some (r, c) \<Rightarrow> map_option (\<lambda>(rs, c). (r # rs, c)) (serve_all s requests c))"

definition query_ready :: "strategy3 \<Rightarrow> corpus_phrase set \<Rightarrow> search_options \<Rightarrow> norm_query \<Rightarrow> bool" where
  "query_ready s C options q \<longleftrightarrow> key_safe q \<and> (n_has_words q \<longrightarrow> search_ready s C options q)"

definition same_but_count :: "search_options \<Rightarrow> search_options \<Rightarrow> bool" where
  "same_but_count options o' \<longleftrightarrow> (\<exists>k. o' = options\<lparr>so_max_phrase_count := k\<rparr>)"

text \<open>The entries of the cache: the result of the processor for their key and options.\<close>

definition fresh_entry :: "strategy3 \<Rightarrow> corpus_phrase set \<Rightarrow> search_options \<Rightarrow> string \<Rightarrow> cache_item \<Rightarrow> bool" where
  "fresh_entry s C options key item \<longleftrightarrow> same_but_count options (ci_options item)
    \<and> (\<forall>q. query_ready s C options q \<longrightarrow> norm_query_to_key q = key \<longrightarrow> ci_result item = process s (ci_options item) q)"

lemma set_union_prefix:
  assumes "sorted_wrt (\<lambda>a b. e_freq b \<le> e_freq a) F" "m \<le> n"
  shows "set_union ref_less (map to_ref (take n F)) (map to_ref (take m F)) = map to_ref (take n F)"
  using assms
proof (induction F arbitrary: m n)
  case (Cons e F)
  have irr: "\<not> ref_less r r" for r by (simp add: ref_less_def)
  show ?case
  proof (cases m)
    case 0
    then show ?thesis by (cases n) simp_all
  next
    case (Suc m')
    then obtain n' where "n = Suc n'" using Cons.prems(2) by (cases n) auto
    then show ?thesis using Suc Cons irr by simp
  qed
qed simp

lemma process_fresh:
  assumes "query_ready s C options q"
  shows "\<exists>F unk. (\<forall>k. process s (options\<lparr>so_max_phrase_count := k\<rparr>) q
      = \<lparr>rr_refs = map to_ref (take (unat k) F), rr_unknown_words = unk\<rparr>)
    \<and> sorted_wrt (\<lambda>a b. e_freq b \<le> e_freq a) F \<and> (F \<noteq> [] \<longrightarrow> unk = [])
    \<and> (\<forall>e \<in> set F. ucast (e_freq e) \<le> so_max_phrase_frequency options)"
proof -
  obtain F unk where "\<forall>k. process s (options\<lparr>so_max_phrase_count := k\<rparr>) q
      = \<lparr>rr_refs = map to_ref (take (unat k) F), rr_unknown_words = unk\<rparr>"
    "sorted_wrt (\<lambda>a b. e_freq b \<le> e_freq a) F" "F \<noteq> [] \<longrightarrow> unk = []" "set F \<subseteq> entry_of ` accepted C options q"
    using process_counts [of q s C options] assms unfolding query_ready_def posting_list_def by blast
  moreover from this(4) have "\<forall>e \<in> set F. ucast (e_freq e) \<le> so_max_phrase_frequency options"
    by (auto simp: accepted_def entry_of_def)
  ultimately show ?thesis by blast
qed

text \<open>A pruned result is the result of a search with the smaller number.\<close>

lemma prune_fresh:
  assumes "query_ready s C options q" "n \<le> m"
  shows "prune (process s (options\<lparr>so_max_phrase_count := m\<rparr>) q) (options\<lparr>so_max_phrase_count := n\<rparr>)
    = process s (options\<lparr>so_max_phrase_count := n\<rparr>) q"
proof -
  obtain F unk where F: "\<forall>k. process s (options\<lparr>so_max_phrase_count := k\<rparr>) q
      = \<lparr>rr_refs = map to_ref (take (unat k) F), rr_unknown_words = unk\<rparr>"
    "\<forall>e \<in> set F. ucast (e_freq e) \<le> so_max_phrase_frequency options"
    using process_fresh [OF assms(1)] by blast
  have "filter (\<lambda>r. ucast (ref_freq r) \<le> so_max_phrase_frequency options) (map to_ref (take (unat m) F))
      = map to_ref (take (unat m) F)"
    using F(2) by (auto simp: filter_id_conv to_ref_def dest!: in_set_takeD)
  moreover have "unat n \<le> unat m" using assms(2) by (simp add: word_le_nat_alt)
  ultimately show ?thesis by (simp add: prune_eq F(1) take_map min_absorb1)
qed

lemma merge_fresh:
  assumes "query_ready s C options q" "m \<le> n"
    "\<not> disjoint_with (process s (options\<lparr>so_max_phrase_count := n\<rparr>) q) (process s (options\<lparr>so_max_phrase_count := m\<rparr>) q)"
  shows "merge_refs (process s (options\<lparr>so_max_phrase_count := n\<rparr>) q) (process s (options\<lparr>so_max_phrase_count := m\<rparr>) q)
    = Some (process s (options\<lparr>so_max_phrase_count := n\<rparr>) q)"
proof -
  obtain F unk where F: "\<forall>k. process s (options\<lparr>so_max_phrase_count := k\<rparr>) q
      = \<lparr>rr_refs = map to_ref (take (unat k) F), rr_unknown_words = unk\<rparr>"
    "sorted_wrt (\<lambda>a b. e_freq b \<le> e_freq a) F" "F \<noteq> [] \<longrightarrow> unk = []"
    using process_fresh [OF assms(1)] by blast
  have "F \<noteq> []" using assms(3) by (auto simp: F(1) disjoint_with_def)
  moreover have "unat m \<le> unat n" using assms(2) by (simp add: word_le_nat_alt)
  ultimately show ?thesis
    using set_union_prefix [OF F(2)] F(3) by (simp add: F(1) merge_refs_def vec_sorted_filter_dups_def)
qed

lemma fresh_entry_process:
  assumes "query_ready s C options q"
  shows "fresh_entry s C options (norm_query_to_key q)
    \<lparr>ci_options = options\<lparr>so_max_phrase_count := k\<rparr>, ci_result = process s (options\<lparr>so_max_phrase_count := k\<rparr>) q\<rparr>"
proof -
  have "process s (options\<lparr>so_max_phrase_count := k\<rparr>) q = process s (options\<lparr>so_max_phrase_count := k\<rparr>) q'"
    if "query_ready s C options q'" "norm_query_to_key q' = norm_query_to_key q" for q'
    using that assms key_unique [of q q'] by (intro process_equal) (simp add: query_ready_def)
  then show ?thesis by (auto simp: fresh_entry_def same_but_count_def)
qed

lemma serve_one:
  assumes "lfu.entries_ok (fresh_entry s C options) c" "query_ready s C options q"
  shows "\<exists>c'. process_wildcard_query s (options\<lparr>so_max_phrase_count := n\<rparr>) q c
      = Some (process s (options\<lparr>so_max_phrase_count := n\<rparr>) q, c')
    \<and> lfu.entries_ok (fresh_entry s C options) c'"
proof -
  let ?o = "options\<lparr>so_max_phrase_count := n\<rparr>"
  let ?key = "norm_query_to_key q"
  have entry: "\<exists>m. ci_options item = options\<lparr>so_max_phrase_count := m\<rparr>
      \<and> ci_result item = process s (options\<lparr>so_max_phrase_count := m\<rparr>) q"
    if "fresh_entry s C options ?key item" for item
    using that assms(2) by (auto simp: fresh_entry_def same_but_count_def)
  have merged: "merge_refs (process s ?o q) (ci_result item) = Some (process s ?o q)"
    if item: "fresh_entry s C options ?key item" "\<not> is_prunable_from (ci_options item) ?o"
      "\<not> disjoint_with (process s ?o q) (ci_result item)" for item
  proof -
    obtain m where m: "ci_options item = options\<lparr>so_max_phrase_count := m\<rparr>"
        "ci_result item = process s (options\<lparr>so_max_phrase_count := m\<rparr>) q"
      using entry [OF item(1)] by blast
    then have "m \<le> n" using item(2) by (auto simp: is_prunable_from_def)
    then show ?thesis using merge_fresh [OF assms(2)] item(3) m by simp
  qed
  obtain cached c1 where f: "lc_find std_heaps c ?key = (cached, c1)" by (cases "lc_find std_heaps c ?key")
  have P: "fresh_entry s C options ?key item" if "cached = Some item" for item
    using lfu.entries_find [OF assms(1) f] that by simp
  have "\<exists>r c'. process_wildcard_query s ?o q c = Some (r, c')"
  proof (cases cached)
    case (Some item)
    then show ?thesis
      using merged [OF P [OF Some]] by (auto simp: process_wildcard_query_def process_wildcard_def f Let_def)
  qed (simp add: process_wildcard_query_def process_wildcard_def f Let_def)
  then obtain r c' where run: "process_wildcard_query s ?o q c = Some (r, c')" by blast
  have inv: "lfu.entries_ok (fresh_entry s C options) c' \<and> (r = process s ?o q
    \<or> (\<exists>item. fresh_entry s C options ?key item
        \<and> (ci_options item = ?o \<and> r = ci_result item
          \<or> is_prunable_from (ci_options item) ?o \<and> r = prune (ci_result item) ?o)))"
  proof (rule items.process_wildcard_entries [OF assms(1) _ _ run [unfolded process_wildcard_query_def]])
    show "fresh_entry s C options ?key \<lparr>ci_options = ?o, ci_result = process s ?o q\<rparr>"
      by (rule fresh_entry_process [OF assms(2)])
    then show "\<And>item m. fresh_entry s C options ?key item \<Longrightarrow> ci_options item \<noteq> ?o \<Longrightarrow>
      \<not> is_prunable_from (ci_options item) ?o \<Longrightarrow> \<not> disjoint_with (process s ?o q) (ci_result item) \<Longrightarrow>
      merge_refs (process s ?o q) (ci_result item) = Some m \<Longrightarrow>
      fresh_entry s C options ?key \<lparr>ci_options = ?o, ci_result = m\<rparr>"
      using merged by simp
  qed
  have served: "r = process s ?o q" if item: "fresh_entry s C options ?key item"
      "ci_options item = ?o \<and> r = ci_result item
        \<or> is_prunable_from (ci_options item) ?o \<and> r = prune (ci_result item) ?o" for item
  proof -
    obtain m where m: "ci_options item = options\<lparr>so_max_phrase_count := m\<rparr>"
        "ci_result item = process s (options\<lparr>so_max_phrase_count := m\<rparr>) q"
      using entry [OF item(1)] by blast
    from item(2) show ?thesis
    proof
      assume "is_prunable_from (ci_options item) ?o \<and> r = prune (ci_result item) ?o"
      then show ?thesis using prune_fresh [OF assms(2), of n m] m by (simp add: is_prunable_from_def)
    qed (use m in auto)
  qed
  have "r = process s ?o q" using inv served by auto
  then show ?thesis using run inv by auto
qed

section \<open>Properties\<close>

text \<open>
  Keys identify queries: two norm queries whose words are not empty, hold no space and are
  not a question mark have the same cache key exactly if they are equal.
\<close>

theorem norm_query_key_unique:
  assumes "key_safe q" and "key_safe q'"
  shows "norm_query_to_key q = norm_query_to_key q' \<longleftrightarrow> n_equal q q'"
  by (rule key_unique [OF assms])

theorem norm_query_key_unique_witness:
  "norm_query_to_key [NWord ''the'' [0], NQMark [1]] = norm_query_to_key [NWord ''the'' [2], NQMark [3]]"
  using norm_query_key_unique [of "[NWord ''the'' [0], NQMark [1]]" "[NWord ''the'' [2], NQMark [3]]"]
  by (simp add: key_safe_def n_equal_iff)

text \<open>A word that is a question mark is taken for the wildcard.\<close>

lemma key_collision:
  "norm_query_to_key [NWord ''?'' [0], NQMark [1]] = norm_query_to_key [NQMark [0], NQMark [1]]
    \<and> \<not> n_equal [NWord ''?'' [0], NQMark [1]] [NQMark [0], NQMark [1]]"
  by (simp add: norm_query_to_key_def unit_key_def n_equal_iff)

text \<open>
  C7. The cache is transparent to requests that differ only in the number of phrases: however the
  requests are ordered and whatever the capacity is, every wildcard query gets exactly the result
  the processor would compute for it, be it found, pruned, merged or evicted.
\<close>

theorem cache_transparent:
  assumes "\<forall>(options', q) \<in> set requests. same_but_count options options' \<and> query_ready s C options q"
  shows "\<exists>c. serve_all s requests (new_cache capacity)
    = Some (map (\<lambda>(options', q). process s options' q) requests, c)"
proof -
  have "\<exists>c'. serve_all s requests c = Some (map (\<lambda>(options', q). process s options' q) requests, c')"
    if "lfu.entries_ok (fresh_entry s C options) c" for c
    using assms that
  proof (induction requests arbitrary: c)
    case (Cons x requests)
    obtain n q where x: "x = (options\<lparr>so_max_phrase_count := n\<rparr>, q)"
      using Cons.prems(1) by (cases x) (auto simp: same_but_count_def)
    have "query_ready s C options q" using Cons.prems(1) x by auto
    from serve_one [OF Cons.prems(2) this, of n] obtain c1 where c1:
      "process_wildcard_query s (options\<lparr>so_max_phrase_count := n\<rparr>) q c
        = Some (process s (options\<lparr>so_max_phrase_count := n\<rparr>) q, c1)"
      "lfu.entries_ok (fresh_entry s C options) c1" by blast
    then show ?case using Cons.IH [OF _ c1(2)] Cons.prems(1) by (auto simp: x)
  qed simp
  moreover have "lfu.entries_ok (fresh_entry s C options) (new_cache capacity)"
    using std.lfu_inv_new by (simp add: lfu.entries_ok_def content_def new_cache_def)
  ultimately show ?thesis by blast
qed

theorem cache_transparent_witness:
  "\<exists>c. serve_all ex_strategy [(ex_search_options\<lparr>so_max_phrase_count := 2\<rparr>, ex_norm_query),
      (ex_search_options\<lparr>so_max_phrase_count := 1\<rparr>, ex_norm_query)] (new_cache 10)
    = Some ([process ex_strategy (ex_search_options\<lparr>so_max_phrase_count := 2\<rparr>) ex_norm_query,
        process ex_strategy (ex_search_options\<lparr>so_max_phrase_count := 1\<rparr>) ex_norm_query], c)"
proof -
  have "key_safe ex_norm_query" by (simp add: key_safe_def ex_norm_query_def)
  then have "query_ready ex_strategy ex_corpus ex_search_options ex_norm_query"
    by (simp add: query_ready_def ex_search_ready)
  then show ?thesis
    using cache_transparent [of "[(ex_search_options\<lparr>so_max_phrase_count := 2\<rparr>, ex_norm_query),
      (ex_search_options\<lparr>so_max_phrase_count := 1\<rparr>, ex_norm_query)]" ex_search_options ex_strategy ex_corpus 10]
    by (auto simp: same_but_count_def)
qed


end
