(* ===== verification/String_Id_Map.thy ===== *)
theory String_Id_Map
  imports Prelude
begin

text \<open>
  \<open>util::StringIdMap<WordId>\<close> of \<open>src/netspeak/util/StringIdMap.hpp\<close>: words and ids in one
  array of characters, found by binary search over the sorted words and through an array indexed
  by the ids.  An iterator is the entry it points to, \<open>None\<close> is \<open>end()\<close>.
\<close>

section \<open>The builder\<close>

text \<open>An entry: the offset of the word in the character data and the id.\<close>

type_synonym id_entry = "u32 \<times> u32"

record id_builder =
  ib_char_data :: string
  ib_id_data :: "id_entry list"

definition nul :: char where
  "nul = CHR 0x00"

definition new_id_builder :: id_builder where
  "new_id_builder = \<lparr>ib_char_data = [], ib_id_data = []\<rparr>"

definition ib_append :: "id_builder \<Rightarrow> string \<Rightarrow> u32 \<Rightarrow> id_builder" where
  "ib_append b word i =
    b\<lparr>ib_id_data := ib_id_data b @ [(of_nat (length (ib_char_data b)), i)],
      ib_char_data := ib_char_data b @ word @ [nul]\<rparr>"

section \<open>The map\<close>

record string_id_map =
  im_char_data :: string
  im_sorted_words :: "id_entry list"
  im_id_map :: "nat list"

definition get_c_str :: "string \<Rightarrow> id_entry \<Rightarrow> string" where
  "get_c_str char_data e = takeWhile (\<lambda>c. c \<noteq> nul) (drop (unat (fst e)) char_data)"

text \<open>\<open>strcmp\<close> compares characters as unsigned numbers.\<close>

definition str_less_than :: "string \<Rightarrow> string \<Rightarrow> bool" where
  "str_less_than a b \<longleftrightarrow> a < b"

definition create_sorted_words :: "string \<Rightarrow> id_entry list \<Rightarrow> id_entry list" where
  "create_sorted_words char_data id_data = sort_key (get_c_str char_data) id_data"

fun id_map_loop :: "nat \<Rightarrow> id_entry list \<Rightarrow> nat \<Rightarrow> nat list \<Rightarrow> nat list" where
  "id_map_loop len [] i id_map = id_map"
| "id_map_loop len ((offset, word_id) # rest) i id_map =
    (let index = unat word_id
     in id_map_loop len rest (i + 1)
          (if index < length id_map then id_map[index := i]
           else id_map @ replicate (index - length id_map) len @ [i]))"

definition create_id_map :: "id_entry list \<Rightarrow> nat list" where
  "create_id_map sorted_words = id_map_loop (length sorted_words) sorted_words 0 []"

definition new_string_id_map :: "id_builder \<Rightarrow> string_id_map" where
  "new_string_id_map b =
    (let sorted_words = create_sorted_words (ib_char_data b) (ib_id_data b)
     in \<lparr>im_char_data = ib_char_data b, im_sorted_words = sorted_words, im_id_map = create_id_map sorted_words\<rparr>)"

definition im_at :: "string_id_map \<Rightarrow> nat \<Rightarrow> id_entry option" where
  "im_at m i = (if i < length (im_sorted_words m) then Some (im_sorted_words m ! i) else None)"

definition find_for_id :: "string_id_map \<Rightarrow> u32 \<Rightarrow> id_entry option" where
  "find_for_id m word_id =
    (let index = unat word_id
     in if index < length (im_id_map m) then im_at m (im_id_map m ! index) else None)"

text \<open>\<open>std::lower_bound\<close>.\<close>

function lower_bound :: "('a \<Rightarrow> bool) \<Rightarrow> 'a list \<Rightarrow> nat \<Rightarrow> nat \<Rightarrow> nat" where
  "lower_bound before_value xs first cnt =
    (if cnt = 0 then first
     else
       (let step = cnt div 2; it = first + step
        in if before_value (xs ! it) then lower_bound before_value xs (it + 1) (cnt - (step + 1))
           else lower_bound before_value xs first step))"
  by pat_completeness auto
termination
  by (relation "measure (\<lambda>(f, xs, first, cnt). cnt)") auto

declare lower_bound.simps [simp del]

definition find_for_word :: "string_id_map \<Rightarrow> string \<Rightarrow> id_entry option" where
  "find_for_word m word =
    (let it = lower_bound (\<lambda>e. str_less_than (get_c_str (im_char_data m) e) word)
          (im_sorted_words m) 0 (length (im_sorted_words m))
     in case im_at m it of
          None \<Rightarrow> None
        | Some e \<Rightarrow> if str_less_than word (get_c_str (im_char_data m) e) then None else Some e)"

text \<open>The overload for strings passes the characters up to the first terminator.\<close>

definition find_for_string :: "string_id_map \<Rightarrow> string \<Rightarrow> id_entry option" where
  "find_for_string m str = find_for_word m (takeWhile (\<lambda>c. c \<noteq> nul) str)"

definition word_of :: "string_id_map \<Rightarrow> id_entry \<Rightarrow> string" where
  "word_of m e = get_c_str (im_char_data m) e"

section \<open>Lookups\<close>

lemma lower_bound_spec:
  assumes "first + cnt \<le> length xs" "\<And>i j. i \<le> j \<Longrightarrow> j < length xs \<Longrightarrow> b (xs ! j) \<Longrightarrow> b (xs ! i)"
    "\<forall>i < first. b (xs ! i)" "\<forall>i. first + cnt \<le> i \<and> i < length xs \<longrightarrow> \<not> b (xs ! i)"
  shows "lower_bound b xs first cnt \<le> length xs \<and> (\<forall>i < lower_bound b xs first cnt. b (xs ! i))
    \<and> (\<forall>i. lower_bound b xs first cnt \<le> i \<and> i < length xs \<longrightarrow> \<not> b (xs ! i))"
  using assms
proof (induction b xs first cnt rule: lower_bound.induct)
  case (1 b xs first cnt)
  define it where "it = first + cnt div 2"
  show ?case
  proof (cases "cnt = 0")
    case False
    then have it: "it < first + cnt" "it < length xs" using "1.prems"(1) by (auto simp: it_def)
    show ?thesis
    proof (cases "b (xs ! it)")
      case True
      have eq: "lower_bound b xs first cnt = lower_bound b xs (it + 1) (cnt - (cnt div 2 + 1))"
        using False True by (subst lower_bound.simps) (simp add: it_def Let_def)
      have le: "b (xs ! i)" if "i < it + 1" for i
        using "1.prems"(2) [of i it] True it(2) that by simp
      have sum_eq: "it + 1 + (cnt - (cnt div 2 + 1)) = first + cnt" using False by (simp add: it_def)
      show ?thesis
        unfolding eq
      proof (rule "1.IH"(1) [OF False refl it_def])
        show "b (xs ! it)" by (rule True)
        show "it + 1 + (cnt - (cnt div 2 + 1)) \<le> length xs" using "1.prems"(1) sum_eq by simp
        show "\<forall>i < it + 1. b (xs ! i)" using le by blast
        show "\<forall>i. it + 1 + (cnt - (cnt div 2 + 1)) \<le> i \<and> i < length xs \<longrightarrow> \<not> b (xs ! i)"
          unfolding sum_eq by (rule "1.prems"(4))
      qed (rule "1.prems"(2))
    next
      case no: False
      have eq: "lower_bound b xs first cnt = lower_bound b xs first (cnt div 2)"
        using False no by (subst lower_bound.simps) (simp add: it_def Let_def)
      show ?thesis
        unfolding eq
      proof (rule "1.IH"(2) [OF False refl it_def])
        show "\<not> b (xs ! it)" by (rule no)
        show "first + cnt div 2 \<le> length xs" using it by (simp add: it_def)
        show "\<forall>i. first + cnt div 2 \<le> i \<and> i < length xs \<longrightarrow> \<not> b (xs ! i)"
          using "1.prems"(2) no unfolding it_def by blast
      qed (rule "1.prems"(2), assumption+, rule "1.prems"(3))
    qed
  qed (use "1.prems" lower_bound.simps [of b xs first cnt] in auto)
qed

text \<open>The words of the array between the terminators.\<close>

definition id_words_ok :: "(string \<times> u32) list \<Rightarrow> bool" where
  "id_words_ok ws \<longleftrightarrow> distinct (map fst ws) \<and> distinct (map snd ws)
    \<and> (\<forall>w \<in> set ws. nul \<notin> set (fst w)) \<and> sum_list (map (\<lambda>w. length (fst w) + 1) ws) < 2 ^ 32"

definition builder_of :: "(string \<times> u32) list \<Rightarrow> id_builder" where
  "builder_of ws = foldl (\<lambda>b (w, i). ib_append b w i) new_id_builder ws"

definition map_of_words :: "(string \<times> u32) list \<Rightarrow> string_id_map" where
  "map_of_words ws = new_string_id_map (builder_of ws)"

lemma takeWhile_word: "nul \<notin> set w \<Longrightarrow> takeWhile (\<lambda>c. c \<noteq> nul) (w @ nul # r) = w"
  by (induction w) auto

lemma builder_entries:
  assumes "id_words_ok ws"
  shows "map (\<lambda>e. (get_c_str (ib_char_data (builder_of ws)) e, snd e)) (ib_id_data (builder_of ws)) = ws"
proof -
  have "length (ib_char_data (builder_of xs)) = sum_list (map (\<lambda>w. length (fst w) + 1) xs)
      \<and> (\<forall>e \<in> set (ib_id_data (builder_of xs)). unat (fst e) < length (ib_char_data (builder_of xs)))
      \<and> (\<forall>r. map (\<lambda>e. (get_c_str (ib_char_data (builder_of xs) @ r) e, snd e)) (ib_id_data (builder_of xs)) = xs)"
    if "\<forall>w \<in> set xs. nul \<notin> set (fst w)" "sum_list (map (\<lambda>w. length (fst w) + 1) xs) < 2 ^ 32" for xs
    using that
  proof (induction xs rule: rev_induct)
    case Nil
    then show ?case by (simp add: builder_of_def new_id_builder_def)
  next
    case (snoc x xs)
    obtain w i where x: "x = (w, i)" by (cases x)
    define d where "d = ib_char_data (builder_of xs)"
    define es where "es = ib_id_data (builder_of xs)"
    have "\<forall>w \<in> set xs. nul \<notin> set (fst w)" "sum_list (map (\<lambda>w. length (fst w) + 1) xs) < 2 ^ 32"
      using snoc.prems by auto
    from snoc.IH [OF this]
    have IH: "length d = sum_list (map (\<lambda>w. length (fst w) + 1) xs)" "\<forall>e \<in> set es. unat (fst e) < length d"
        "\<And>r. map (\<lambda>e. (get_c_str (d @ r) e, snd e)) es = xs"
      unfolding d_def es_def by blast+
    have b: "ib_char_data (builder_of (xs @ [x])) = d @ w @ [nul]"
        "ib_id_data (builder_of (xs @ [x])) = es @ [(of_nat (length d), i)]"
      by (simp_all add: builder_of_def ib_append_def x d_def es_def)
    have "length d < 2 ^ 32" using IH(1) snoc.prems(2) by simp
    then have off: "unat (of_nat (length d) :: u32) = length d" by (rule unat_of_nat_u32)
    have "get_c_str (d @ w @ nul # r) (of_nat (length d), i) = w" for r
      using off takeWhile_word [of w r] snoc.prems(1) x by (simp add: get_c_str_def)
    moreover have "\<forall>e \<in> set (es @ [(of_nat (length d), i)]). unat (fst e) < length (d @ w @ [nul])"
      using IH(2) off by (auto intro: trans_less_add1)
    moreover have "length (d @ w @ [nul]) = sum_list (map (\<lambda>w. length (fst w) + 1) (xs @ [x]))"
      using IH(1) x by simp
    moreover have "map (\<lambda>e. (get_c_str ((d @ w @ [nul]) @ r) e, snd e)) es = xs" for r
      using IH(3) [of "w @ nul # r"] by simp
    ultimately show ?case
      unfolding b by (simp add: x)
  qed
  from this [of ws] show ?thesis using assms by (auto simp: id_words_ok_def dest: spec [of _ "[]"])
qed

lemma find_for_word_spec:
  assumes "sorted (map key xs)" "distinct (map key xs)" "key = get_c_str (im_char_data m)" "im_sorted_words m = xs"
  shows "find_for_word m w = find (\<lambda>e. key e = w) xs"
proof -
  define it where "it = lower_bound (\<lambda>e. key e < w) xs 0 (length xs)"
  have mono: "key (xs ! i) < w" if "i \<le> j" "j < length xs" "key (xs ! j) < w" for i j
    using sorted_nth_mono [OF assms(1), of i j] that by simp
  have "it \<le> length xs \<and> (\<forall>i < it. key (xs ! i) < w) \<and> (\<forall>i. it \<le> i \<and> i < length xs \<longrightarrow> \<not> key (xs ! i) < w)"
    unfolding it_def by (rule lower_bound_spec) (auto dest: mono)
  then have it: "it \<le> length xs" "\<forall>i < it. key (xs ! i) < w" "\<forall>i. it \<le> i \<and> i < length xs \<longrightarrow> \<not> key (xs ! i) < w"
    by blast+
  have "lower_bound (\<lambda>e. str_less_than (get_c_str (im_char_data m) e) w) (im_sorted_words m) 0 (length (im_sorted_words m)) = it"
    by (simp only: it_def str_less_than_def assms(3,4))
  then have f: "find_for_word m w = (if it < length xs \<and> \<not> w < key (xs ! it) then Some (xs ! it) else None)"
    by (simp add: find_for_word_def im_at_def str_less_than_def assms(3,4) Let_def)
  show ?thesis
  proof (cases "find (\<lambda>e. key e = w) xs")
    case None
    then have "\<forall>e \<in> set xs. key e \<noteq> w" unfolding find_None_iff by blast
    moreover have "key (xs ! it) > w" if "it < length xs" "key (xs ! it) \<noteq> w"
      using it(3) that by (meson linorder_neqE order_refl)
    ultimately show ?thesis using None f by auto
  next
    case (Some e)
    then obtain j where j: "j < length xs" "key (xs ! j) = w" "e = xs ! j"
      by (auto simp: find_Some_iff)
    have "\<not> j < it" using it(2) j(2) by auto
    moreover have "\<not> it < j"
    proof
      assume a: "it < j"
      then have "\<not> key (xs ! it) < w" "key (xs ! it) \<le> key (xs ! j)"
        using it(3) j(1) sorted_nth_mono [OF assms(1), of it j] by auto
      then have "map key xs ! it = map key xs ! j" using j a by simp
      then show False using a j(1) nth_eq_iff_index_eq [OF assms(2), of it j] by simp
    qed
    ultimately have "it = j" by simp
    then show ?thesis using Some f j by simp
  qed
qed

text \<open>The array of the ids, after the entries \<open>ys\<close>.\<close>

definition id_map_ok :: "nat \<Rightarrow> id_entry list \<Rightarrow> nat list \<Rightarrow> bool" where
  "id_map_ok len ys mp \<longleftrightarrow> (\<forall>j < length ys. unat (snd (ys ! j)) < length mp \<and> mp ! unat (snd (ys ! j)) = j)
    \<and> (\<forall>k < length mp. mp ! k = len \<or> (mp ! k < length ys \<and> unat (snd (ys ! (mp ! k))) = k))"

lemma id_map_step:
  assumes "id_map_ok len ys mp" "snd e \<notin> snd ` set ys"
  shows "id_map_ok len (ys @ [e])
    (if unat (snd e) < length mp then mp[unat (snd e) := length ys]
     else mp @ replicate (unat (snd e) - length mp) len @ [length ys])" (is "id_map_ok len _ ?mp")
proof -
  let ?x = "unat (snd e)"
  have ne: "unat (snd (ys ! j)) \<noteq> ?x" if "j < length ys" for j
    using assms(2) that nth_mem [OF that] by (metis imageI word_unat_eq_iff)
  have old: "?x < length mp \<Longrightarrow> mp ! ?x = len"
    using assms(1) ne by (auto simp: id_map_ok_def)
  have "unat (snd ((ys @ [e]) ! j)) < length ?mp \<and> ?mp ! unat (snd ((ys @ [e]) ! j)) = j"
    if "j < length (ys @ [e])" for j
    using that assms(1) ne [of j]
    by (auto simp: id_map_ok_def nth_append less_Suc_eq nth_list_update trans_less_add1)
  moreover have "?mp ! k = len \<or> (?mp ! k < length (ys @ [e]) \<and> unat (snd ((ys @ [e]) ! (?mp ! k))) = k)"
    if "k < length ?mp" for k
  proof (cases "k < length mp")
    case True
    then have "mp ! k = len \<or> (mp ! k < length ys \<and> unat (snd (ys ! (mp ! k))) = k)"
      using assms(1) by (simp add: id_map_ok_def)
    then show ?thesis using True by (auto simp: nth_append nth_list_update)
  next
    case False
    then show ?thesis using that by (auto simp: nth_append split: if_splits)
  qed
  ultimately show ?thesis unfolding id_map_ok_def by blast
qed

lemma id_map_loop_ok:
  assumes "id_map_ok len ys mp" "distinct (map snd (ys @ rest))" "i = length ys"
  shows "id_map_ok len (ys @ rest) (id_map_loop len rest i mp)"
  using assms
proof (induction rest arbitrary: ys i mp)
  case (Cons e rest)
  obtain off wid where e: "e = (off, wid)" by (cases e)
  have "snd e \<notin> snd ` set ys" using Cons.prems(2) by auto
  from id_map_step [OF Cons.prems(1) this]
  have "id_map_ok len ((ys @ [e]) @ rest) (id_map_loop len rest (i + 1)
      (if unat wid < length mp then mp[unat wid := i] else mp @ replicate (unat wid - length mp) len @ [i]))"
    using Cons.prems by (intro Cons.IH) (auto simp: e)
  then show ?case by (simp add: e Let_def)
qed simp

lemma find_for_id_spec:
  assumes "im_id_map m = create_id_map xs" "im_sorted_words m = xs" "distinct (map snd xs)"
  shows "find_for_id m i = find (\<lambda>e. snd e = i) xs"
proof -
  have ok: "id_map_ok (length xs) xs (create_id_map xs)"
    using id_map_loop_ok [of "length xs" "[]" "[]" xs 0] assms(3)
    by (simp add: create_id_map_def id_map_ok_def)
  show ?thesis
  proof (cases "find (\<lambda>e. snd e = i) xs")
    case None
    then have no: "\<forall>e \<in> set xs. snd e \<noteq> i" unfolding find_None_iff by blast
    have "create_id_map xs ! unat i \<ge> length xs" if "unat i < length (create_id_map xs)"
      using ok that no nth_mem word_unat_eq_iff unfolding id_map_ok_def by (metis order_refl)
    then show ?thesis using None assms(1,2) by (auto simp: find_for_id_def im_at_def Let_def)
  next
    case (Some e)
    then obtain j where "j < length xs" "snd (xs ! j) = i" "e = xs ! j" by (auto simp: find_Some_iff)
    then show ?thesis using Some ok assms(1,2) by (auto simp: find_for_id_def im_at_def Let_def id_map_ok_def)
  qed
qed

lemma find_iff_unique:
  "distinct (map f xs) \<Longrightarrow> find (\<lambda>e. f e = v) xs = Some e \<longleftrightarrow> e \<in> set xs \<and> f e = v"
  by (induction xs) (auto simp: rev_image_eqI)

lemma sorted_entries:
  assumes "id_words_ok ws" and "d = ib_char_data (builder_of ws)"
    and "xs = sort_key (get_c_str d) (ib_id_data (builder_of ws))"
  shows "im_char_data (map_of_words ws) = d" "im_sorted_words (map_of_words ws) = xs"
    "im_id_map (map_of_words ws) = create_id_map xs"
    "set ws = (\<lambda>e. (get_c_str d e, snd e)) ` set xs"
    "distinct (map (get_c_str d) xs)" "distinct (map snd xs)" "sorted (map (get_c_str d) xs)"
proof -
  show "im_char_data (map_of_words ws) = d" "im_sorted_words (map_of_words ws) = xs"
      "im_id_map (map_of_words ws) = create_id_map xs"
    by (simp_all add: map_of_words_def new_string_id_map_def create_sorted_words_def Let_def assms(2,3))
  have ms: "mset (map (\<lambda>e. (get_c_str d e, snd e)) xs) = mset ws"
    unfolding assms(3) using arg_cong [OF builder_entries [OF assms(1)], of mset]
    by (simp only: mset_map mset_sort assms(2))
  show "set ws = (\<lambda>e. (get_c_str d e, snd e)) ` set xs"
    using mset_eq_setD [OF ms] by simp
  have "mset (map (get_c_str d) xs) = mset (map fst ws)" "mset (map snd xs) = mset (map snd ws)"
    using arg_cong [OF ms, of "image_mset fst"] arg_cong [OF ms, of "image_mset snd"]
    by (simp_all add: image_mset.compositionality comp_def)
  from this [THEN mset_eq_imp_distinct_iff]
  show "distinct (map (get_c_str d) xs)" "distinct (map snd xs)"
    using assms(1) unfolding id_words_ok_def by blast+
  show "sorted (map (get_c_str d) xs)" by (simp add: assms(3))
qed

lemma find_for_id_word:
  assumes "id_words_ok ws"
  shows "(\<exists>e. find_for_id (map_of_words ws) i = Some e \<and> word_of (map_of_words ws) e = w \<and> snd e = i) \<longleftrightarrow> (w, i) \<in> set ws"
  unfolding find_for_id_spec [OF sorted_entries(3,2,6) [OF assms refl refl]]
    find_iff_unique [OF sorted_entries(6) [OF assms refl refl]] sorted_entries(4) [OF assms refl refl]
  by (force simp: word_of_def sorted_entries(1) [OF assms refl refl] image_iff)

lemma find_for_word_id:
  assumes "id_words_ok ws"
  shows "(\<exists>e. find_for_word (map_of_words ws) w = Some e \<and> word_of (map_of_words ws) e = w \<and> snd e = i) \<longleftrightarrow> (w, i) \<in> set ws"
    and "find_for_word (map_of_words ws) w = Some e \<Longrightarrow> word_of (map_of_words ws) e = w"
proof -
  note f = find_for_word_spec [OF sorted_entries(7,5) [OF assms refl refl] _ sorted_entries(2) [OF assms refl refl], of w]
  show "(\<exists>e. find_for_word (map_of_words ws) w = Some e \<and> word_of (map_of_words ws) e = w \<and> snd e = i) \<longleftrightarrow> (w, i) \<in> set ws"
    unfolding f [unfolded sorted_entries(1) [OF assms refl refl], OF refl]
      find_iff_unique [OF sorted_entries(5) [OF assms refl refl]] sorted_entries(4) [OF assms refl refl]
    by (force simp: word_of_def sorted_entries(1) [OF assms refl refl] image_iff)
  show "find_for_word (map_of_words ws) w = Some e \<Longrightarrow> word_of (map_of_words ws) e = w"
    unfolding f [unfolded sorted_entries(1) [OF assms refl refl], OF refl]
      find_iff_unique [OF sorted_entries(5) [OF assms refl refl]]
    by (simp add: word_of_def sorted_entries(1) [OF assms refl refl])
qed

lemma find_for_id_eq: "id_words_ok ws \<Longrightarrow> find_for_id (map_of_words ws) i = Some e \<Longrightarrow> snd e = i"
  unfolding find_for_id_spec [OF sorted_entries(3,2,6) [OF _ refl refl]] by (auto simp: find_Some_iff)

lemma find_for_word_contains:
  assumes "id_words_ok ws"
  shows "find_for_word (map_of_words ws) w = None \<longleftrightarrow> w \<notin> fst ` set ws"
proof (cases "find_for_word (map_of_words ws) w")
  case None
  then show ?thesis using find_for_word_id(1) [OF assms, of w] by auto
next
  case (Some e)
  then show ?thesis
    using find_for_word_id [OF assms, of w] by (metis fst_conv image_eqI option.distinct(1))
qed

section \<open>Properties\<close>

text \<open>
  Lookups by word and by id are inverse to each other: in the map built from words with
  distinct texts and ids, every word is found under its text and under its id, both times as the
  entry with that text and id, and nothing else is found.  The words hold no terminator and their
  characters fit into the 32-bit offsets.
\<close>

theorem string_id_map_roundtrip:
  assumes "id_words_ok ws"
  shows "((\<exists>e. find_for_word (map_of_words ws) w = Some e \<and> word_of (map_of_words ws) e = w \<and> snd e = i) \<longleftrightarrow> (w, i) \<in> set ws)
    \<and> ((\<exists>e. find_for_id (map_of_words ws) i = Some e \<and> word_of (map_of_words ws) e = w \<and> snd e = i) \<longleftrightarrow> (w, i) \<in> set ws)
    \<and> (find_for_word (map_of_words ws) w = None \<longleftrightarrow> w \<notin> fst ` set ws)
    \<and> (find_for_id (map_of_words ws) i = None \<longleftrightarrow> i \<notin> snd ` set ws)"
  using find_for_word_id(1) [OF assms, of w i] find_for_id_word [OF assms, of i w]
    find_for_word_contains [OF assms, of w]
proof (intro conjI)
  show "find_for_id (map_of_words ws) i = None \<longleftrightarrow> i \<notin> snd ` set ws"
  proof (cases "find_for_id (map_of_words ws) i")
    case None
    then show ?thesis using find_for_id_word [OF assms, of i] by auto
  next
    case (Some e)
    then have "(word_of (map_of_words ws) e, i) \<in> set ws"
      using find_for_id_word [OF assms, of i] find_for_id_eq [OF assms] by blast
    then have "i \<in> snd ` set ws" by (metis image_eqI snd_conv)
    then show ?thesis using Some by simp
  qed
qed

theorem string_id_map_roundtrip_witness:
  "\<exists>e. find_for_word (map_of_words [(''b'', 0), (''a'', 2)]) ''b'' = Some e
    \<and> word_of (map_of_words [(''b'', 0), (''a'', 2)]) e = ''b'' \<and> snd e = 0"
  using string_id_map_roundtrip [of "[(''b'', 0), (''a'', 2)]" "''b''" 0, THEN conjunct1]
  by (simp add: id_words_ok_def nul_def)

end
