(* ===== verification/Phrase_Corpus.thy ===== *)
theory Phrase_Corpus
  imports Phrases String_Id_Map
begin

text \<open>
  The phrase corpus: \<open>PhraseCorpus\<close> of \<open>src/netspeak/PhraseCorpus.{hpp,cpp}\<close> reads what
  \<open>BuildPhraseCorpus\<close> of \<open>src/netspeak/indexing.cpp\<close> writes.

  Files are lists of bytes; \<open>memcpy\<close> and \<open>write\<close> use the bytes of a number in the order of the
  machine, little-endian here.  The asynchronous reads are modelled by their result: the bytes of
  the file from the offset on, as many as were asked for if the file has them.  \<open>None\<close> is
  undefined behaviour (the iterator \<open>end()\<close> is dereferenced), \<open>boost::lexical_cast\<close> is a
  parameter.
\<close>

section \<open>Numbers in files\<close>

fun le_bytes :: "nat \<Rightarrow> nat \<Rightarrow> u8 list" where
  "le_bytes 0 k = []"
| "le_bytes (Suc n) k = of_nat k # le_bytes n (k div 256)"

fun le_value :: "u8 list \<Rightarrow> nat" where
  "le_value [] = 0"
| "le_value (b # bs) = unat b + 256 * le_value bs"

lemma length_le_bytes [simp]: "length (le_bytes n k) = n"
  by (induction n k rule: le_bytes.induct) auto

lemma le_value_bytes: "k < 256 ^ n \<Longrightarrow> le_value (le_bytes n k) = k"
proof (induction n k rule: le_bytes.induct)
  case (2 n k)
  then have "k div 256 < 256 ^ n" by (simp add: less_mult_imp_div_less mult.commute)
  then show ?case using 2 by (simp add: unsigned_of_nat take_bit_eq_mod)
qed simp

lemma le_value_u32 [simp]: "of_nat (le_value (le_bytes 4 (unat (w :: u32)))) = w"
  using le_value_bytes [of "unat w" 4] unat_u32_less [of w] by simp

lemma le_value_u64 [simp]: "of_nat (le_value (le_bytes 8 (unat (w :: u64)))) = w"
  using le_value_bytes [of "unat w" 8] unat_u64_less [of w] by simp

section \<open>The corpus\<close>

record phrase_corpus =
  pc_id_map :: string_id_map
  pc_files :: "u32 \<Rightarrow> u8 list option"
  pc_max_length :: u32

definition entry_size :: "u32 \<Rightarrow> nat" where
  "entry_size len = 8 + 4 * unat len"

definition count_phrases :: "phrase_corpus \<Rightarrow> u32 \<Rightarrow> u32" where
  "count_phrases pc phrase_len = (case pc_files pc phrase_len of
      None \<Rightarrow> 0
    | Some content \<Rightarrow> of_nat (length content div entry_size phrase_len))"

definition contains_word :: "phrase_corpus \<Rightarrow> string \<Rightarrow> bool" where
  "contains_word pc word \<longleftrightarrow> find_for_string (pc_id_map pc) word \<noteq> None"

definition contains_id :: "phrase_corpus \<Rightarrow> u32 \<Rightarrow> bool" where
  "contains_id pc i \<longleftrightarrow> find_for_id (pc_id_map pc) i \<noteq> None"

fun decode_words :: "string_id_map \<Rightarrow> nat \<Rightarrow> u8 list \<Rightarrow> string list option" where
  "decode_words m 0 buffer = Some []"
| "decode_words m (Suc n) buffer =
    (case find_for_id m (of_nat (le_value (take 4 buffer))) of
       None \<Rightarrow> None
     | Some e \<Rightarrow> map_option ((#) (word_of m e)) (decode_words m n (drop 4 buffer)))"

definition decode :: "phrase_corpus \<Rightarrow> u8 list \<Rightarrow> phrase_id \<Rightarrow> phrase option" where
  "decode pc buffer i =
    (let freq = of_nat (le_value (take 8 buffer))
     in map_option (\<lambda>ws. \<lparr>ph_id = i, ph_freq = freq, ph_words = ws\<rparr>)
          (decode_words (pc_id_map pc) (unat (pid_length i)) (drop 8 buffer)))"

text \<open>The loop that prepares the reads: which bytes each of them gets.\<close>

fun prepare_reads :: "phrase_corpus \<Rightarrow> phrase_id list \<Rightarrow> u8 list list result" where
  "prepare_reads pc [] = Inr []"
| "prepare_reads pc (i # is) =
    (let size = entry_size (pid_length i)
     in case pc_files pc (pid_length i) of
          None \<Rightarrow> Inl (RuntimeError ''read_phrases'')
        | Some content \<Rightarrow>
            rbind (prepare_reads pc is) (\<lambda>bs. Inr (take size (drop (unat (pid_local i) * size) content) # bs)))"

fun decode_loop :: "phrase_corpus \<Rightarrow> (phrase_id \<times> u8 list) list \<Rightarrow> phrase list result option" where
  "decode_loop pc [] = Some (Inr [])"
| "decode_loop pc ((i, buffer) # rest) =
    (if length buffer \<noteq> entry_size (pid_length i)
     then Some (Inl (RuntimeError ''read_phrases : aio_read64 failed''))
     else case decode pc buffer i of
        None \<Rightarrow> None
      | Some p \<Rightarrow> map_option (\<lambda>r. rbind r (\<lambda>ps. Inr (p # ps))) (decode_loop pc rest))"

definition read_phrases :: "phrase_corpus \<Rightarrow> phrase_id list \<Rightarrow> phrase list result option" where
  "read_phrases pc phrase_ids =
    (case prepare_reads pc phrase_ids of
       Inl e \<Rightarrow> Some (Inl e)
     | Inr buffers \<Rightarrow> decode_loop pc (zip phrase_ids buffers))"

section \<open>Opening\<close>

text \<open>\<open>rfind('.')\<close>: the text behind the last dot.\<close>

definition behind_last_dot :: "string \<Rightarrow> string option" where
  "behind_last_dot s =
    (if CHR ''.'' \<in> set s then Some (rev (takeWhile (\<lambda>c. c \<noteq> CHR ''.'') (rev s))) else None)"

definition parse_phrase_filename :: "(string \<Rightarrow> u32 result) \<Rightarrow> string \<Rightarrow> u32 option result" where
  "parse_phrase_filename lexical_cast name =
    (if take 7 name = ''phrases''
     then (case behind_last_dot name of
             None \<Rightarrow> Inr None
           | Some n \<Rightarrow> rbind (lexical_cast n) (\<lambda>k. Inr (Some k)))
     else Inr None)"

text \<open>The files of the directory, in the order of the directory iterator.\<close>

fun open_files_loop :: "(string \<Rightarrow> u32 result) \<Rightarrow> (string \<times> u8 list) list \<Rightarrow> (u32 \<Rightarrow> u8 list option) \<Rightarrow> u32 \<Rightarrow>
    ((u32 \<Rightarrow> u8 list option) \<times> u32) result" where
  "open_files_loop lexical_cast [] fds mx = Inr (fds, mx)"
| "open_files_loop lexical_cast ((filename, content) # files) fds mx =
    rbind (parse_phrase_filename lexical_cast filename) (\<lambda>phrase_len.
      case phrase_len of
        None \<Rightarrow> open_files_loop lexical_cast files fds mx
      | Some n \<Rightarrow> open_files_loop lexical_cast files (if fds n = None then fds(n \<mapsto> content) else fds) (max mx n))"

text \<open>\<open>init_vocabulary_\<close> appends the pairs that are read from the vocabulary file.\<close>

definition init_vocabulary :: "(string \<times> u32) list \<Rightarrow> string_id_map" where
  "init_vocabulary vocab = new_string_id_map (builder_of vocab)"

definition open_corpus :: "(string \<Rightarrow> u32 result) \<Rightarrow> (string \<times> u32) list \<Rightarrow> (string \<times> u8 list) list \<Rightarrow> phrase_corpus result" where
  "open_corpus lexical_cast vocab files =
    rbind (open_files_loop lexical_cast files Map.empty 0) (\<lambda>(fds, mx).
      Inr \<lparr>pc_id_map = init_vocabulary vocab, pc_files = fds, pc_max_length = mx\<rparr>)"

section \<open>Building\<close>

record parser_item =
  pi_id :: u32
  pi_freq :: u64
  pi_words :: "string list"

text \<open>
  The maps of \<open>BuildPhraseCorpus\<close>: the ids of the words, the next id of every phrase length and
  the binary files.
\<close>

record corpus_builder =
  cb_unigram_to_id :: "(string \<times> u32) list"
  cb_len_to_id :: "nat \<Rightarrow> u32 option"
  cb_bin :: "nat \<Rightarrow> u8 list option"

definition new_corpus_builder :: corpus_builder where
  "new_corpus_builder = \<lparr>cb_unigram_to_id = [], cb_len_to_id = Map.empty, cb_bin = Map.empty\<rparr>"

definition add_unigram :: "(string \<times> u32) list \<Rightarrow> string \<Rightarrow> (string \<times> u32) list" where
  "add_unigram voc word = (if map_of voc word = None then voc @ [(word, of_nat (length voc))] else voc)"

text \<open>\<open>unigram_to_id[word]\<close> inserts 0 for an unknown word; all words are known here.\<close>

definition unigram_id :: "(string \<times> u32) list \<Rightarrow> string \<Rightarrow> u32" where
  "unigram_id voc word = (case map_of voc word of None \<Rightarrow> 0 | Some i \<Rightarrow> i)"

definition phrase_bytes :: "(string \<times> u32) list \<Rightarrow> u64 \<Rightarrow> string list \<Rightarrow> u8 list" where
  "phrase_bytes voc freq ws = le_bytes 8 (unat freq) @ concat (map (\<lambda>w. le_bytes 4 (unat (unigram_id voc w))) ws)"

definition add_phrase :: "corpus_builder \<Rightarrow> parser_item \<Rightarrow> corpus_builder \<times> parser_item" where
  "add_phrase cb item =
    (let len = length (pi_words item);
         voc = foldl add_unigram (cb_unigram_to_id cb) (pi_words item);
         new = cb_len_to_id cb len = None;
         bin = (if new then (cb_bin cb)(len \<mapsto> []) else cb_bin cb);
         i = (case cb_len_to_id cb len of None \<Rightarrow> 0 | Some i \<Rightarrow> i)
     in (\<lparr>cb_unigram_to_id = voc, cb_len_to_id = (cb_len_to_id cb)(len \<mapsto> i + 1),
          cb_bin = bin(len \<mapsto> the (bin len) @ phrase_bytes voc (pi_freq item) (pi_words item))\<rparr>,
         item\<lparr>pi_id := i\<rparr>))"

text \<open>The loop also gives the items with their ids, as they are written to the text files.\<close>

fun build_loop :: "corpus_builder \<Rightarrow> parser_item list \<Rightarrow> corpus_builder \<times> parser_item list" where
  "build_loop cb [] = (cb, [])"
| "build_loop cb (item # items) =
    (let (cb, item) = add_phrase cb item; (cb, out) = build_loop cb items in (cb, item # out))"

definition build_corpus :: "parser_item list \<Rightarrow> corpus_builder \<times> parser_item list" where
  "build_corpus items = build_loop new_corpus_builder items"

definition record_count :: "corpus_builder \<Rightarrow> nat list \<Rightarrow> u64" where
  "record_count cb lens = foldl (\<lambda>n len. n + of_nat len * ucast (the (cb_len_to_id cb len))) 0 lens"

text \<open>The files of \<open>bin/\<close> for the phrase lengths \<open>lens\<close>.\<close>

definition bin_files :: "corpus_builder \<Rightarrow> nat list \<Rightarrow> (string \<times> u8 list) list" where
  "bin_files cb lens = map (\<lambda>len. (''phrases'' @ ''.'' @ show_nat len, the (cb_bin cb len))) lens"

section \<open>What the builder writes\<close>

definition item_bytes :: "(string \<times> u32) list \<Rightarrow> parser_item \<Rightarrow> u8 list" where
  "item_bytes voc item = phrase_bytes voc (pi_freq item) (pi_words item)"

definition of_length :: "nat \<Rightarrow> parser_item list \<Rightarrow> parser_item list" where
  "of_length len items = filter (\<lambda>y. length (pi_words y) = len) items"

definition vocabulary_ok :: "(string \<times> u32) list \<Rightarrow> bool" where
  "vocabulary_ok voc \<longleftrightarrow> distinct (map fst voc) \<and> map snd voc = map of_nat [0..<length voc]"

definition built :: "corpus_builder \<Rightarrow> parser_item list \<Rightarrow> bool" where
  "built cb items \<longleftrightarrow> vocabulary_ok (cb_unigram_to_id cb)
    \<and> (\<forall>it \<in> set items. set (pi_words it) \<subseteq> fst ` set (cb_unigram_to_id cb))
    \<and> (\<forall>len. cb_len_to_id cb len = (if of_length len items = [] then None else Some (of_nat (length (of_length len items))))
      \<and> cb_bin cb len = (if of_length len items = [] then None
          else Some (concat (map (item_bytes (cb_unigram_to_id cb)) (of_length len items))))
      \<and> map pi_id (of_length len items) = map of_nat [0..<length (of_length len items)])"

lemma add_unigram_ok:
  assumes "vocabulary_ok voc"
  shows "vocabulary_ok (foldl add_unigram voc ws)"
    and "fst ` set (foldl add_unigram voc ws) = fst ` set voc \<union> set ws"
    and "w \<in> fst ` set voc \<Longrightarrow> map_of (foldl add_unigram voc ws) w = map_of voc w"
proof -
  have one: "vocabulary_ok (add_unigram voc x) \<and> fst ` set (add_unigram voc x) = insert x (fst ` set voc)
      \<and> (w \<in> fst ` set voc \<longrightarrow> map_of (add_unigram voc x) w = map_of voc w)"
    if "vocabulary_ok voc" for voc :: "(string \<times> u32) list" and x
  proof (cases "map_of voc x")
    case None
    then have "x \<notin> fst ` set voc" by (simp add: map_of_eq_None_iff)
    then show ?thesis using that None by (auto simp: add_unigram_def vocabulary_ok_def map_add_def split: option.splits)
  next
    case (Some i)
    then have "x \<in> fst ` set voc" by (metis map_of_eq_None_iff option.distinct(1))
    then show ?thesis using that Some by (auto simp: add_unigram_def)
  qed
  have "vocabulary_ok (foldl add_unigram voc ws) \<and> fst ` set (foldl add_unigram voc ws) = fst ` set voc \<union> set ws
      \<and> (w \<in> fst ` set voc \<longrightarrow> map_of (foldl add_unigram voc ws) w = map_of voc w)"
    using assms
  proof (induction ws arbitrary: voc)
    case (Cons x ws)
    have IH: "vocabulary_ok (foldl add_unigram (add_unigram voc x) ws)
        \<and> fst ` set (foldl add_unigram (add_unigram voc x) ws) = fst ` set (add_unigram voc x) \<union> set ws
        \<and> (w \<in> fst ` set (add_unigram voc x) \<longrightarrow> map_of (foldl add_unigram (add_unigram voc x) ws) w = map_of (add_unigram voc x) w)"
      using Cons.IH one [OF Cons.prems] by blast
    show ?case using IH one [OF Cons.prems, of x] by simp
  qed simp
  then show "vocabulary_ok (foldl add_unigram voc ws)"
    "fst ` set (foldl add_unigram voc ws) = fst ` set voc \<union> set ws"
    "w \<in> fst ` set voc \<Longrightarrow> map_of (foldl add_unigram voc ws) w = map_of voc w" by blast+
qed

lemma item_bytes_stable:
  assumes "vocabulary_ok voc" "set (pi_words it) \<subseteq> fst ` set voc"
  shows "item_bytes (foldl add_unigram voc ws) it = item_bytes voc it"
proof -
  have "unigram_id (foldl add_unigram voc ws) w = unigram_id voc w" if "w \<in> set (pi_words it)" for w
    unfolding unigram_id_def using add_unigram_ok(3) [OF assms(1), of w ws] assms(2) that by (simp add: subset_iff)
  then show ?thesis
    by (auto simp: item_bytes_def phrase_bytes_def intro!: arg_cong [where f = concat] map_cong)
qed

lemma built_add:
  assumes "built cb items" "add_phrase cb item = (cb', item')"
  shows "built cb' (items @ [item'])"
proof -
  let ?voc = "cb_unigram_to_id cb" let ?len = "length (pi_words item)"
  define voc' where "voc' = foldl add_unigram ?voc (pi_words item)"
  have ok: "vocabulary_ok ?voc" "\<forall>it \<in> set items. set (pi_words it) \<subseteq> fst ` set ?voc"
    using assms(1) by (simp_all add: built_def)
  note v = add_unigram_ok [where ws = "pi_words item", OF ok(1), folded voc'_def]
  have old: "item_bytes voc' it = item_bytes ?voc it" if "it \<in> set items" for it
    unfolding voc'_def using that ok by (intro item_bytes_stable) auto
  have L: "cb_len_to_id cb len = (if of_length len items = [] then None else Some (of_nat (length (of_length len items))))"
    "cb_bin cb len = (if of_length len items = [] then None else Some (concat (map (item_bytes ?voc) (of_length len items))))"
    "map pi_id (of_length len items) = map of_nat [0..<length (of_length len items)]" for len
    using assms(1) by (auto simp: built_def)
  have i: "pi_id item' = of_nat (length (of_length ?len items))" "pi_words item' = pi_words item" "pi_freq item' = pi_freq item"
    using assms(2) L(1) [of ?len] by (auto simp: add_phrase_def Let_def)
  have mp: "map (item_bytes voc') (of_length len items) = map (item_bytes ?voc) (of_length len items)" for len
    using old by (auto simp: of_length_def)
  have cb': "cb_unigram_to_id cb' = voc'"
    "cb_len_to_id cb' = (cb_len_to_id cb)(?len \<mapsto> of_nat (length (of_length ?len items)) + 1)"
    "cb_bin cb' = (cb_bin cb)(?len \<mapsto> concat (map (item_bytes ?voc) (of_length ?len items)) @ item_bytes voc' item')"
    using assms(2) L(1,2) [of ?len] i
    by (auto simp: add_phrase_def Let_def voc'_def item_bytes_def split: if_splits)
  have "set (pi_words it) \<subseteq> fst ` set voc'" if "it \<in> set (items @ [item'])" for it
    using that ok(2) v(2) i(2) by auto
  moreover have "cb_len_to_id cb' len = (if of_length len (items @ [item']) = [] then None
        else Some (of_nat (length (of_length len (items @ [item'])))))
      \<and> cb_bin cb' len = (if of_length len (items @ [item']) = [] then None
          else Some (concat (map (item_bytes voc') (of_length len (items @ [item'])))))
      \<and> map pi_id (of_length len (items @ [item'])) = map of_nat [0..<length (of_length len (items @ [item']))]" for len
  proof (cases "len = ?len")
    case True
    then have o: "of_length len (items @ [item']) = of_length ?len items @ [item']" using i(2) by (simp add: of_length_def)
    show ?thesis unfolding o cb' map_append mp using True i(1) L(3) [of ?len] by simp
  next
    case False
    then have o: "of_length len (items @ [item']) = of_length len items" using i(2) by (simp add: of_length_def)
    show ?thesis unfolding o cb' mp using False L [of len] by simp
  qed
  ultimately show ?thesis using v(1) unfolding built_def cb'(1) by blast
qed

lemma build_loop_built:
  "built cb items \<Longrightarrow> build_loop cb new = (cb', out) \<Longrightarrow> built cb' (items @ out)"
proof (induction cb new arbitrary: items cb' out rule: build_loop.induct)
  case (2 cb item new)
  obtain cb1 item' where a: "add_phrase cb item = (cb1, item')" by (cases "add_phrase cb item")
  obtain cb2 out2 where l: "build_loop cb1 new = (cb2, out2)" by (cases "build_loop cb1 new")
  show ?case
    using 2(1) [OF a [symmetric] refl built_add [OF 2(2) a] l] 2(3) a l by simp
qed simp

lemma build_corpus_built: "build_corpus items = (cb, out) \<Longrightarrow> built cb out"
  using build_loop_built [of new_corpus_builder "[]" items cb out]
  by (simp add: build_corpus_def built_def new_corpus_builder_def vocabulary_ok_def of_length_def)

section \<open>What the corpus reads\<close>

definition phrase_of_item :: "parser_item \<Rightarrow> phrase" where
  "phrase_of_item it = \<lparr>ph_id = PhraseId (of_nat (length (pi_words it))) (pi_id it), ph_freq = pi_freq it,
    ph_words = pi_words it\<rparr>"

lemma take_drop_blocks:
  "(\<And>b. b \<in> set bs \<Longrightarrow> length b = k) \<Longrightarrow> i < length bs \<Longrightarrow> take k (drop (i * k) (concat bs)) = bs ! i"
proof (induction bs arbitrary: i)
  case (Cons b bs)
  then show ?case by (cases i) (auto simp: add.commute)
qed simp

lemma length_item_bytes: "length (item_bytes voc it) = 8 + 4 * length (pi_words it)"
  by (simp add: item_bytes_def phrase_bytes_def length_concat comp_def sum_list_triv)

lemma decode_words_bytes:
  assumes "\<And>w. w \<in> set ws \<Longrightarrow> \<exists>e. find_for_id m (unigram_id voc w) = Some e \<and> word_of m e = w"
  shows "decode_words m (length ws) (concat (map (\<lambda>w. le_bytes 4 (unat (unigram_id voc w))) ws)) = Some ws"
  using assms
proof (induction ws)
  case (Cons w ws)
  then obtain e where "find_for_id m (unigram_id voc w) = Some e" "word_of m e = w"
    using Cons.prems [of w] by (meson list.set_intros(1))
  then show ?case using Cons by simp
qed simp

lemma decode_item_bytes:
  assumes "\<And>w. w \<in> set (pi_words it) \<Longrightarrow> \<exists>e. find_for_id (pc_id_map pc) (unigram_id voc w) = Some e \<and> word_of (pc_id_map pc) e = w"
    and "length (pi_words it) < 2 ^ 32"
  shows "decode pc (item_bytes voc it) (ph_id (phrase_of_item it)) = Some (phrase_of_item it)"
  using decode_words_bytes [OF assms(1)] assms(2)
  by (simp add: decode_def phrase_of_item_def item_bytes_def phrase_bytes_def unat_of_nat_u32)

lemma vocabulary_lookup:
  assumes "vocabulary_ok voc" "w \<in> fst ` set voc"
  shows "(w, unigram_id voc w) \<in> set voc"
proof -
  obtain i where "map_of voc w = Some i" using assms(2) by (metis map_of_eq_None_iff not_None_eq)
  then show ?thesis by (simp add: unigram_id_def map_of_SomeD)
qed

lemma distinct_of_nat:
  assumes "n \<le> 2 ^ 32"
  shows "distinct (map (of_nat :: nat \<Rightarrow> u32) [0..<n])"
proof -
  have "i = j" if "i < n" "j < n" "(of_nat i :: u32) = of_nat j" for i j
  proof -
    have "i < 2 ^ 32" "j < 2 ^ 32" using that(1,2) assms by linarith+
    then show "i = j" using that(3) by (metis unat_of_nat_u32)
  qed
  then show ?thesis by (auto simp: distinct_map inj_on_def)
qed

lemma vocabulary_distinct_ids: "vocabulary_ok voc \<Longrightarrow> length voc \<le> 2 ^ 32 \<Longrightarrow> distinct (map snd voc)"
  using distinct_of_nat by (simp add: vocabulary_ok_def)

lemma open_files_loop_spec:
  assumes "\<And>f c. (f, c) \<in> set files \<Longrightarrow> parse_phrase_filename cast f = Inr None
    \<or> (\<exists>n. parse_phrase_filename cast f = Inr (Some n) \<and> n \<in> N \<and> c = content n)"
    "\<forall>n. fds n = (if n \<in> M then Some (content n) else None)"
  shows "\<exists>fds' mx' M'. open_files_loop cast files fds mx = Inr (fds', mx')
    \<and> M' = M \<union> {n. \<exists>(f, c) \<in> set files. parse_phrase_filename cast f = Inr (Some n)}
    \<and> (\<forall>n. fds' n = (if n \<in> M' then Some (content n) else None))
    \<and> mx' \<in> insert mx M' \<and> mx \<le> mx' \<and> (\<forall>n \<in> M' - M. n \<le> mx')"
  using assms
proof (induction files arbitrary: fds mx M)
  case (Cons x files)
  obtain f c where x: "x = (f, c)" by (cases x)
  have files: "\<And>f c. (f, c) \<in> set files \<Longrightarrow> parse_phrase_filename cast f = Inr None
    \<or> (\<exists>n. parse_phrase_filename cast f = Inr (Some n) \<and> n \<in> N \<and> c = content n)"
    using Cons.prems(1) by simp
  consider "parse_phrase_filename cast f = Inr None"
    | n where "parse_phrase_filename cast f = Inr (Some n)" "c = content n"
    using Cons.prems(1) x by auto
  then show ?case
  proof cases
    case 1
    then show ?thesis using Cons.IH [OF files Cons.prems(2), of mx] by (auto simp: x)
  next
    case 2
    have "\<forall>k. (if fds n = None then fds(n \<mapsto> c) else fds) k = (if k \<in> insert n M then Some (content k) else None)"
      using Cons.prems(2) 2(2) by auto
    from Cons.IH [OF files this, of "max mx n"]
    obtain fds' mx' where IH: "open_files_loop cast files (if fds n = None then fds(n \<mapsto> c) else fds) (max mx n) = Inr (fds', mx')"
      "\<forall>k. fds' k = (if k \<in> insert n M \<union> {n. \<exists>(f, c) \<in> set files. parse_phrase_filename cast f = Inr (Some n)} then Some (content k) else None)"
      "mx' \<in> insert (max mx n) (insert n M \<union> {n. \<exists>(f, c) \<in> set files. parse_phrase_filename cast f = Inr (Some n)})"
      "max mx n \<le> mx'"
      "\<forall>k \<in> (insert n M \<union> {n. \<exists>(f, c) \<in> set files. parse_phrase_filename cast f = Inr (Some n)}) - insert n M. k \<le> mx'"
      by blast
    have M': "M \<union> {n. \<exists>(f, c) \<in> set (x # files). parse_phrase_filename cast f = Inr (Some n)}
        = insert n M \<union> {n. \<exists>(f, c) \<in> set files. parse_phrase_filename cast f = Inr (Some n)}"
      using 2(1) by (auto simp: x)
    have "mx \<le> mx'" "n \<le> mx'" using IH(4) by (simp_all add: max_def split: if_splits)
    moreover have "mx' \<in> insert mx (insert n M \<union> {n. \<exists>(f, c) \<in> set files. parse_phrase_filename cast f = Inr (Some n)})"
      using IH(3) by (auto simp: max_def split: if_splits)
    ultimately show ?thesis
      unfolding M' using IH(1,2,5) 2(1) by (auto simp: x)
  qed
qed simp

lemma parse_phrase_filename_show:
  assumes "cast (show_nat n) = Inr k"
  shows "parse_phrase_filename cast (''phrases'' @ ''.'' @ show_nat n) = Inr (Some k)"
proof -
  have "digit c \<Longrightarrow> c \<noteq> CHR ''.''" for c by (auto simp: digit_def)
  then have "\<forall>c \<in> set (rev (show_nat n)). c \<noteq> CHR ''.''" using show_nat_digits [of n] by (auto simp: list_all_iff)
  then have "takeWhile (\<lambda>c. c \<noteq> CHR ''.'') (rev (show_nat n) @ CHR ''.'' # r) = rev (show_nat n)" for r
    by (subst takeWhile_append2) auto
  then show ?thesis using assms by (simp add: parse_phrase_filename_def behind_last_dot_def)
qed

text \<open>The files that \<open>BuildPhraseCorpus\<close> leaves, read back in any order.\<close>

definition written :: "corpus_builder \<Rightarrow> (string \<times> u32) list \<Rightarrow> (string \<times> u8 list) list \<Rightarrow> bool" where
  "written cb vocab files \<longleftrightarrow> mset vocab = mset (cb_unigram_to_id cb)
    \<and> (\<exists>lens v. set lens = dom (cb_len_to_id cb) \<and> set files = set (bin_files cb lens) \<union> {(''vocab'', v)})"

definition casts_numbers :: "(string \<Rightarrow> u32 result) \<Rightarrow> bool" where
  "casts_numbers cast \<longleftrightarrow> (\<forall>n < 2 ^ 32. cast (show_nat n) = Inr (of_nat n))"

definition vocabulary_fits :: "(string \<times> u32) list \<Rightarrow> bool" where
  "vocabulary_fits voc \<longleftrightarrow> (\<forall>w \<in> set voc. nul \<notin> set (fst w)) \<and> sum_list (map (\<lambda>w. length (fst w) + 1) voc) < 2 ^ 32"

lemma built_lookup:
  assumes "built cb out" "vocabulary_fits (cb_unigram_to_id cb)" "mset vocab = mset (cb_unigram_to_id cb)"
    "it \<in> set out" "w \<in> set (pi_words it)"
  shows "\<exists>e. find_for_id (init_vocabulary vocab) (unigram_id (cb_unigram_to_id cb) w) = Some e
    \<and> word_of (init_vocabulary vocab) e = w"
proof -
  let ?voc = "cb_unigram_to_id cb"
  have ok: "vocabulary_ok ?voc" "w \<in> fst ` set ?voc" using assms(1,4,5) by (auto simp: built_def)
  have len: "length vs \<le> sum_list (map (\<lambda>w. length (fst w) + 1) vs)" for vs :: "(string \<times> u32) list"
    by (induction vs) auto
  have fits: "\<forall>w \<in> set ?voc. nul \<notin> set (fst w)" "sum_list (map (\<lambda>w. length (fst w) + 1) ?voc) < 2 ^ 32"
    using assms(2) unfolding vocabulary_fits_def by blast+
  have "length ?voc \<le> 2 ^ 32" using len [of ?voc] fits(2) by linarith
  then have d: "distinct (map fst ?voc)" "distinct (map snd ?voc)"
    using vocabulary_distinct_ids [OF ok(1)] ok(1) by (simp_all add: vocabulary_ok_def)
  have "distinct (map fst vocab)" "distinct (map snd vocab)"
  proof -
    have "mset (map fst vocab) = mset (map fst ?voc)" "mset (map snd vocab) = mset (map snd ?voc)"
      using assms(3) by simp_all
    from this [THEN mset_eq_imp_distinct_iff] show "distinct (map fst vocab)" "distinct (map snd vocab)"
      using d by blast+
  qed
  moreover have "sum_list (map (\<lambda>w. length (fst w) + 1) vocab) = sum_list (map (\<lambda>w. length (fst w) + 1) ?voc)"
    using arg_cong [OF assms(3), of "\<lambda>M. sum_mset (image_mset (\<lambda>w. length (fst w) + 1) M)"]
    unfolding mset_map [symmetric] sum_mset_sum_list .
  moreover have "set vocab = set ?voc" by (rule mset_eq_setD [OF assms(3)])
  ultimately have "id_words_ok vocab" unfolding id_words_ok_def using fits by simp
  moreover have "(w, unigram_id ?voc w) \<in> set vocab"
    using vocabulary_lookup [OF ok] \<open>set vocab = set ?voc\<close> by simp
  ultimately show ?thesis
    using find_for_id_word [of vocab "unigram_id ?voc w" w] by (auto simp: map_of_words_def init_vocabulary_def)
qed

lemma built_length:
  assumes "built cb out" "length out \<le> 2 ^ 32" "it \<in> set out"
  shows "unat (pi_id it) < length (of_length (length (pi_words it)) out)
    \<and> of_length (length (pi_words it)) out ! unat (pi_id it) = it"
proof -
  let ?ys = "of_length (length (pi_words it)) out"
  have "it \<in> set ?ys" using assms(3) by (simp add: of_length_def)
  then obtain k where k: "k < length ?ys" "?ys ! k = it" by (metis in_set_conv_nth)
  have "length ?ys \<le> 2 ^ 32" using assms(2) length_filter_le [of _ out] unfolding of_length_def by (rule order_trans [rotated])
  moreover have "map pi_id ?ys ! k = of_nat k" using assms(1) k(1) by (simp add: built_def)
  ultimately have "unat (pi_id it) = k" using k unat_of_nat_u32 [of k] by simp
  then show ?thesis using k by simp
qed

lemma built_read:
  assumes "built cb out" "length out \<le> 2 ^ 32" "vocabulary_fits (cb_unigram_to_id cb)"
    "mset vocab = mset (cb_unigram_to_id cb)" "pc_id_map pc = init_vocabulary vocab"
    "\<And>it. it \<in> set out \<Longrightarrow> length (pi_words it) < 2 ^ 32
      \<and> pc_files pc (of_nat (length (pi_words it))) = cb_bin cb (length (pi_words it))"
    "set ps \<subseteq> set out"
  shows "read_phrases pc (map (ph_id \<circ> phrase_of_item) ps) = Some (Inr (map phrase_of_item ps))"
proof -
  let ?voc = "cb_unigram_to_id cb"
  have size: "entry_size (pid_length (ph_id (phrase_of_item it))) = 8 + 4 * length (pi_words it)" if "it \<in> set out" for it
    using assms(6) [OF that] by (simp add: entry_size_def phrase_of_item_def unat_of_nat_u32)
  have prep: "prepare_reads pc (map (ph_id \<circ> phrase_of_item) ps) = Inr (map (item_bytes ?voc) ps)"
    using assms(7)
  proof (induction ps)
    case (Cons it ps)
    let ?ys = "of_length (length (pi_words it)) out"
    have it: "it \<in> set out" using Cons.prems by simp
    have "?ys \<noteq> []" using it by (auto simp: of_length_def filter_empty_conv)
    then have "pc_files pc (of_nat (length (pi_words it))) = Some (concat (map (item_bytes ?voc) ?ys))"
      using assms(1) assms(6) [OF it] by (simp add: built_def)
    moreover have "take (8 + 4 * length (pi_words it)) (drop (unat (pi_id it) * (8 + 4 * length (pi_words it)))
        (concat (map (item_bytes ?voc) ?ys))) = item_bytes ?voc it"
    proof -
      have "length b = 8 + 4 * length (pi_words it)" if "b \<in> set (map (item_bytes ?voc) ?ys)" for b
        using that by (auto simp: length_item_bytes of_length_def)
      then show ?thesis
        using take_drop_blocks [of "map (item_bytes ?voc) ?ys" "8 + 4 * length (pi_words it)" "unat (pi_id it)"]
          built_length [OF assms(1,2) it] by simp
    qed
    moreover have "ph_id (phrase_of_item it) = PhraseId (of_nat (length (pi_words it))) (pi_id it)"
      by (simp add: phrase_of_item_def)
    ultimately show ?case using Cons size [OF it] by (simp add: Let_def)
  qed simp
  have "decode_loop pc (zip (map (ph_id \<circ> phrase_of_item) ps) (map (item_bytes ?voc) ps)) = Some (Inr (map phrase_of_item ps))"
    using assms(7)
  proof (induction ps)
    case (Cons it ps)
    have it: "it \<in> set out" using Cons.prems by simp
    have "decode pc (item_bytes ?voc it) (ph_id (phrase_of_item it)) = Some (phrase_of_item it)"
      by (rule decode_item_bytes) (use built_lookup [OF assms(1,3,4) it] assms(5,6) it in auto)
    then show ?case using Cons size [OF it] by (simp add: length_item_bytes)
  qed simp
  then show ?thesis using prep by (simp add: read_phrases_def)
qed

lemma corpus_read_back:
  assumes "build_corpus items = (cb, out)" and "written cb vocab files" and "casts_numbers cast"
    and "length out \<le> 2 ^ 32" and "\<And>it. it \<in> set out \<Longrightarrow> length (pi_words it) < 2 ^ 32"
    and "vocabulary_fits (cb_unigram_to_id cb)"
  shows "\<exists>pc. open_corpus cast vocab files = Inr pc
    \<and> (\<forall>ps. set ps \<subseteq> set out \<longrightarrow> read_phrases pc (map (ph_id \<circ> phrase_of_item) ps) = Some (Inr (map phrase_of_item ps)))
    \<and> (\<forall>it \<in> set out. of_nat (length (pi_words it)) \<le> pc_max_length pc)"
proof -
  have b: "built cb out" by (rule build_corpus_built [OF assms(1)])
  obtain lens v where w: "mset vocab = mset (cb_unigram_to_id cb)" "set lens = dom (cb_len_to_id cb)"
      "set files = set (bin_files cb lens) \<union> {(''vocab'', v)}"
    using assms(2) by (auto simp: written_def)
  have lens: "len \<in> set lens \<longleftrightarrow> (\<exists>it \<in> set out. length (pi_words it) = len)" for len
    using b w(2) by (auto simp: built_def of_length_def filter_empty_conv dom_def)
  then have small: "len < 2 ^ 32" if "len \<in> set lens" for len using that assms(5) by auto
  define F where "F n = the (cb_bin cb (unat n))" for n :: u32
  have parse: "parse_phrase_filename cast (''phrases'' @ ''.'' @ show_nat len) = Inr (Some (of_nat len))" if "len \<in> set lens" for len
    using assms(3) small [OF that] by (intro parse_phrase_filename_show) (simp add: casts_numbers_def)
  have vocab: "parse_phrase_filename cast ''vocab'' = Inr None" by (simp add: parse_phrase_filename_def)
  have mem: "(f, c) \<in> set files \<longleftrightarrow> (f = ''vocab'' \<and> c = v)
      \<or> (\<exists>len \<in> set lens. f = ''phrases'' @ ''.'' @ show_nat len \<and> c = the (cb_bin cb len))" for f c
    unfolding w(3) by (auto simp: bin_files_def)
  have "\<exists>fds' mx' M'. open_files_loop cast files Map.empty 0 = Inr (fds', mx')
    \<and> M' = {} \<union> {n. \<exists>(f, c) \<in> set files. parse_phrase_filename cast f = Inr (Some n)}
    \<and> (\<forall>n. fds' n = (if n \<in> M' then Some (F n) else None))
    \<and> mx' \<in> insert 0 M' \<and> 0 \<le> mx' \<and> (\<forall>n \<in> M' - {}. n \<le> mx')"
  proof (rule open_files_loop_spec [where N = UNIV])
    fix f c assume "(f, c) \<in> set files"
    then show "parse_phrase_filename cast f = Inr None
        \<or> (\<exists>n. parse_phrase_filename cast f = Inr (Some n) \<and> n \<in> UNIV \<and> c = F n)"
      unfolding mem using vocab parse small by (auto simp: F_def unat_of_nat_u32)
  qed simp
  then obtain fds mx where o: "open_files_loop cast files Map.empty 0 = Inr (fds, mx)"
    "\<And>n. n \<in> {n. \<exists>(f, c) \<in> set files. parse_phrase_filename cast f = Inr (Some n)} \<Longrightarrow> fds n = Some (F n) \<and> n \<le> mx"
    by auto
  have len: "fds (of_nat len) = Some (the (cb_bin cb len)) \<and> of_nat len \<le> mx" if "len \<in> set lens" for len
  proof -
    have "(''phrases'' @ ''.'' @ show_nat len, the (cb_bin cb len)) \<in> set files" using that unfolding mem by blast
    then have "(of_nat len :: u32) \<in> {n. \<exists>(f, c) \<in> set files. parse_phrase_filename cast f = Inr (Some n)}"
      using parse [OF that] by auto
    from o(2) [OF this] show ?thesis using small [OF that] by (simp add: F_def unat_of_nat_u32)
  qed
  define pc where "pc = \<lparr>pc_id_map = init_vocabulary vocab, pc_files = fds, pc_max_length = mx\<rparr>"
  have "open_corpus cast vocab files = Inr pc" using o(1) by (simp add: open_corpus_def pc_def)
  moreover have files: "length (pi_words it) < 2 ^ 32 \<and> pc_files pc (of_nat (length (pi_words it))) = cb_bin cb (length (pi_words it))"
    if "it \<in> set out" for it
  proof -
    have "length (pi_words it) \<in> set lens" using lens that by blast
    moreover have "cb_bin cb (length (pi_words it)) \<noteq> None"
      using b that by (auto simp: built_def of_length_def filter_empty_conv)
    ultimately show ?thesis using len assms(5) [OF that] by (auto simp: pc_def)
  qed
  moreover have "read_phrases pc (map (ph_id \<circ> phrase_of_item) ps) = Some (Inr (map phrase_of_item ps))" if "set ps \<subseteq> set out" for ps
    by (rule built_read [OF b assms(4,6) w(1) _ files that]) (simp add: pc_def)
  moreover have "of_nat (length (pi_words it)) \<le> pc_max_length pc" if "it \<in> set out" for it
    using len lens that by (auto simp: pc_def)
  ultimately show ?thesis by blast
qed

section \<open>Properties\<close>

text \<open>
  C17. The phrase corpus is read back as it was built: \<open>PhraseCorpus\<close> opens the files that
  \<open>BuildPhraseCorpus\<close> writes, in whatever order the vocabulary and the directory are listed, and
  for any phrases of the input \<open>read_phrases\<close> of their ids returns exactly their words and
  frequencies.  The number of phrases, their lengths and the vocabulary fit into 32 bits.
\<close>

theorem corpus_roundtrip:
  assumes "build_corpus items = (cb, out)" and "written cb vocab files" and "casts_numbers cast"
    and "length out \<le> 2 ^ 32" and "\<And>it. it \<in> set out \<Longrightarrow> length (pi_words it) < 2 ^ 32"
    and "vocabulary_fits (cb_unigram_to_id cb)"
  shows "\<exists>pc. open_corpus cast vocab files = Inr pc
    \<and> (\<forall>ps. set ps \<subseteq> set out \<longrightarrow> read_phrases pc (map (ph_id \<circ> phrase_of_item) ps) = Some (Inr (map phrase_of_item ps)))
    \<and> (\<forall>it \<in> set out. of_nat (length (pi_words it)) \<le> pc_max_length pc)"
  by (rule corpus_read_back [OF assms])

definition ex_items :: "parser_item list" where
  "ex_items = [\<lparr>pi_id = 0, pi_freq = 5, pi_words = [''b'', ''a'']\<rparr>, \<lparr>pi_id = 0, pi_freq = 7, pi_words = [''a'']\<rparr>]"

definition ex_files :: "(string \<times> u8 list) list" where
  "ex_files = [(''phrases.1'', [7, 0, 0, 0, 0, 0, 0, 0, 1, 0, 0, 0]), (''vocab'', []),
    (''phrases.2'', [5, 0, 0, 0, 0, 0, 0, 0, 0, 0, 0, 0, 1, 0, 0, 0])]"

lemma ex_build:
  "cb_unigram_to_id (fst (build_corpus ex_items)) = [(''b'', 0), (''a'', 1)]"
  "snd (build_corpus ex_items) = ex_items"
  "cb_bin (fst (build_corpus ex_items)) (Suc 0) = Some [7, 0, 0, 0, 0, 0, 0, 0, 1, 0, 0, 0]"
  "cb_bin (fst (build_corpus ex_items)) 2 = Some [5, 0, 0, 0, 0, 0, 0, 0, 0, 0, 0, 0, 1, 0, 0, 0]"
  by code_simp+

lemma ex_lengths: "dom (cb_len_to_id (fst (build_corpus ex_items))) = {1, 2}"
  by (auto simp: build_corpus_def new_corpus_builder_def ex_items_def add_phrase_def Let_def dom_def split: if_splits)

lemma ex_show: "show_nat (Suc 0) = ''1''" "show_nat 2 = ''2''"
  by code_simp+

theorem corpus_roundtrip_witness:
  "\<exists>pc. open_corpus (\<lambda>s. Inr (of_nat (read_nat s))) [(''a'', 1), (''b'', 0)] ex_files = Inr pc
    \<and> read_phrases pc [PhraseId 2 0] = Some (Inr [\<lparr>ph_id = PhraseId 2 0, ph_freq = 5, ph_words = [''b'', ''a'']\<rparr>])"
proof -
  let ?cb = "fst (build_corpus ex_items)"
  have "bin_files ?cb [1, 2] = [ex_files ! 0, ex_files ! 2]"
    by (simp add: bin_files_def ex_build ex_show ex_files_def)
  moreover have "set ex_files = set [ex_files ! 0, ex_files ! 2] \<union> {(''vocab'', [])}"
    by (auto simp: ex_files_def)
  ultimately have "set ex_files = set (bin_files ?cb [1, 2]) \<union> {(''vocab'', [])}" by (simp only:)
  moreover have "set [1, 2] = dom (cb_len_to_id ?cb)" by (simp add: ex_lengths)
  moreover have "mset [(''a'', 1), (''b'', 0)] = mset (cb_unigram_to_id ?cb)" by (simp add: ex_build)
  ultimately have "written ?cb [(''a'', 1), (''b'', 0)] ex_files" unfolding written_def by blast
  moreover have "build_corpus ex_items = (?cb, ex_items)" using ex_build(2) by (metis prod.collapse)
  moreover have "casts_numbers (\<lambda>s. Inr (of_nat (read_nat s)))" by (simp add: casts_numbers_def read_show_nat)
  moreover have "vocabulary_fits (cb_unigram_to_id ?cb)" by (simp add: ex_build vocabulary_fits_def nul_def)
  moreover have "length (pi_words it) < 2 ^ 32" if "it \<in> set ex_items" for it
    using that by (auto simp: ex_items_def)
  moreover have "length ex_items \<le> 2 ^ 32" by (simp add: ex_items_def)
  ultimately obtain pc where pc: "open_corpus (\<lambda>s. Inr (of_nat (read_nat s))) [(''a'', 1), (''b'', 0)] ex_files = Inr pc"
    "\<forall>ps. set ps \<subseteq> set ex_items \<longrightarrow> read_phrases pc (map (ph_id \<circ> phrase_of_item) ps) = Some (Inr (map phrase_of_item ps))"
    using corpus_roundtrip by blast
  have "set [hd ex_items] \<subseteq> set ex_items" by (simp add: ex_items_def)
  with pc(2) have "read_phrases pc (map (ph_id \<circ> phrase_of_item) [hd ex_items]) = Some (Inr (map phrase_of_item [hd ex_items]))"
    by blast
  then show ?thesis using pc(1) by (simp add: ex_items_def phrase_of_item_def)
qed

end
