(* ===== verification/Search.thy ===== *)
theory Search
  imports Normalizer Wildcard_Cache Phrase_Corpus
begin

text \<open>
  \<open>Netspeak::search\<close> of \<open>src/netspeak/Netspeak.cpp\<close>: the options of a request, the norm queries
  with and without question marks, the merging of the results and the response.

  The parser is a parameter.  A step yields \<open>None\<close> where the code has undefined behaviour, and
  the errors that the code throws are \<open>Inl\<close>; the cache is the state that a search changes.
\<close>

section \<open>Requests and responses\<close>

record search_request =
  sr_query :: string
  sr_max_phrases :: u32
  sr_frequency_max :: u64
  sr_words_min :: u32
  sr_words_max :: u32

datatype word_tag =
    WordTag
  | WordForQmark
  | WordForStar
  | WordInDictset
  | WordInOrderset
  | WordInOptionset
  | WordForPlus
  | WordForRegex

datatype error_kind = UnknownKind | InternalError | InvalidQueryKind | InvalidCorpusKind

record response_phrase =
  rp_id :: u64
  rp_frequency :: u64
  rp_words :: "(string \<times> word_tag) list"

datatype search_response =
    SearchResponse (response_unknown: "string list") (response_phrases: "response_phrase list")
  | ErrorResponse error_kind string

section \<open>The state\<close>

record search_config =
  cfg_max_norm_queries :: u64
  cfg_regex_max_matches :: u64
  cfg_regex_max_time :: int

record netspeak =
  ns_normalizer :: normalizer
  ns_config :: search_config
  ns_dictionary :: "string \<Rightarrow> (u64 \<times> u32) option"
  ns_strategy :: strategy3
  ns_corpus :: phrase_corpus
  ns_cache :: "cache_item lfu_cache"

section \<open>Tags\<close>

fun unit_tag :: "qunit \<Rightarrow> word_tag option" where
  "unit_tag (QQMark _) = Some WordForQmark"
| "unit_tag (QStar _) = Some WordForStar"
| "unit_tag (QPlus _) = Some WordForPlus"
| "unit_tag (QRegex _) = Some WordForRegex"
| "unit_tag (QDictSet _) = Some WordInDictset"
| "unit_tag (QOptionSet _) = Some WordInOptionset"
| "unit_tag (QOrderSet _) = Some WordInOrderset"
| "unit_tag _ = None"

text \<open>The loop over the parents of a unit; the path of the parent lacks the last index.\<close>

function tag_loop :: "qunit \<Rightarrow> src \<Rightarrow> word_tag" where
  "tag_loop q p =
    (case q_at q p of
       None \<Rightarrow> WordTag
     | Some u \<Rightarrow>
         (case unit_tag u of
            Some t \<Rightarrow> t
          | None \<Rightarrow> if p = [] then WordTag else tag_loop q (butlast p)))"
  by pat_completeness auto
termination
  by (relation "measure (\<lambda>(q, p). length p)") auto

declare tag_loop.simps [simp del]

definition to_tag :: "qunit \<Rightarrow> norm_unit \<Rightarrow> word_tag" where
  "to_tag q u = tag_loop q (n_source u)"

section \<open>Results\<close>

record result_item =
  it_query :: norm_query
  it_phrase :: phrase

definition item_less :: "result_item \<Rightarrow> result_item \<Rightarrow> bool" where
  "item_less a b = phrase_less (it_phrase a) (it_phrase b)"

record search_result =
  res_phrases :: "result_item list"
  res_unknown_words :: "string list"

definition set_response_phrase :: "qunit \<Rightarrow> result_item \<Rightarrow> response_phrase" where
  "set_response_phrase q item =
    (let ws = ph_words (it_phrase item)
     in \<lparr>rp_id = pid_to_u64 (ph_id (it_phrase item)), rp_frequency = ph_freq (it_phrase item),
         rp_words = map (\<lambda>i. (ws ! i, to_tag q (it_query item ! i))) [0..<length ws]\<rparr>)"

section \<open>Options\<close>

definition to_options :: "netspeak \<Rightarrow> search_request \<Rightarrow> norm_options \<times> search_options" where
  "to_options ns request =
    (let min_len = max 1 (sr_words_min request);
         max_len = pc_max_length (ns_corpus ns);
         max_len = (if sr_words_max request \<noteq> 0 \<and> sr_words_max request < max_len
                    then sr_words_max request else max_len);
         max_freq = (if sr_frequency_max request \<noteq> 0 then sr_frequency_max request else UINT64_MAX)
     in (\<lparr>no_max_norm_queries = cfg_max_norm_queries (ns_config ns), no_min_length = min_len,
          no_max_length = max_len, no_max_regex_matches = cfg_regex_max_matches (ns_config ns),
          no_max_regex_time = cfg_regex_max_time (ns_config ns)\<rparr>,
         \<lparr>so_max_phrase_count = sr_max_phrases request, so_max_phrase_frequency = max_freq,
          so_phrase_length_min = min_len, so_phrase_length_max = max_len,
          so_pruning_high = 160000, so_pruning_low = 130000\<rparr>))"

section \<open>Merging\<close>

record merge_ref =
  mr_query :: norm_query
  mr_id :: phrase_id
  mr_freq :: u32

definition merge_ref_less :: "merge_ref \<Rightarrow> merge_ref \<Rightarrow> bool" where
  "merge_ref_less a b = (if mr_freq a \<noteq> mr_freq b then mr_freq a > mr_freq b else mr_id a < mr_id b)"

fun merge_refs_loop :: "norm_query \<Rightarrow> raw_ref list \<Rightarrow> merge_ref list \<Rightarrow> merge_ref list" where
  "merge_refs_loop query [] s = s"
| "merge_refs_loop query (r # rs) s =
    merge_refs_loop query rs (set_insert merge_ref_less
      \<lparr>mr_query = query, mr_id = PhraseId (of_nat (length query)) (ref_id r), mr_freq = ref_freq r\<rparr> s)"

definition merge_phrase_refs :: "(norm_query \<times> raw_ref_result) list \<Rightarrow> merge_ref list" where
  "merge_phrase_refs raw_references = foldl (\<lambda>s (query, result). merge_refs_loop query (rr_refs result) s) [] raw_references"

definition merge_raw_result :: "phrase_corpus \<Rightarrow> search_options \<Rightarrow> raw_result \<Rightarrow> search_result result option" where
  "merge_raw_result pc options raw =
    (let k = unat (so_max_phrase_count options)
     in if k = 0 then Some (Inr \<lparr>res_phrases = [], res_unknown_words = raw_unknown_words raw\<rparr>)
        else
          (let top_k_refs = take k (merge_phrase_refs (raw_refs raw))
           in map_option (\<lambda>r. rbind r (\<lambda>ref_phrases.
                (let final = foldl (\<lambda>s item. set_insert item_less item s) []
                       (map (\<lambda>(ref, p). \<lparr>it_query = mr_query ref, it_phrase = p\<rparr>) (zip top_k_refs ref_phrases));
                     final = foldl (\<lambda>s (query, result).
                         foldl (\<lambda>s p. set_insert item_less \<lparr>it_query = query, it_phrase = p\<rparr> s) s (rp_phrases result))
                       final (raw_phrases raw)
                 in Inr \<lparr>res_phrases = take k final, res_unknown_words = raw_unknown_words raw\<rparr>)))
              (read_phrases pc (map mr_id top_k_refs))))"

section \<open>The norm queries\<close>

definition process_non_wildcard_query :: "netspeak \<Rightarrow> search_options \<Rightarrow> norm_query \<Rightarrow> raw_phrase_result" where
  "process_non_wildcard_query ns options query =
    (case (if so_max_phrase_count options > 0 then ns_dictionary ns (norm_query_to_key query) else None) of
       Some (freq, local_id) \<Rightarrow>
         (if freq \<le> so_max_phrase_frequency options
          then \<lparr>rp_phrases = [\<lparr>ph_id = PhraseId (of_nat (length query)) local_id, ph_freq = freq,
                  ph_words = map n_text query\<rparr>], rp_unknown_words = []\<rparr>
          else \<lparr>rp_phrases = [], rp_unknown_words = []\<rparr>)
     | None \<Rightarrow> \<lparr>rp_phrases = [],
         rp_unknown_words = filter (\<lambda>w. \<not> contains_word (ns_corpus ns) w) (map n_text query)\<rparr>)"

fun search_raw_loop :: "netspeak \<Rightarrow> search_options \<Rightarrow> norm_query list \<Rightarrow> raw_result \<Rightarrow> (raw_result \<times> netspeak) option" where
  "search_raw_loop ns options [] raw = Some (raw, ns)"
| "search_raw_loop ns options (query # queries) raw =
    (if n_has_qmarks query then
       (case process_wildcard_query (ns_strategy ns) options query (ns_cache ns) of
          None \<Rightarrow> None
        | Some (result, c) \<Rightarrow> search_raw_loop (ns\<lparr>ns_cache := c\<rparr>) options queries (add_ref_item raw query result))
     else search_raw_loop ns options queries
       (add_phrase_item raw query (process_non_wildcard_query ns options query)))"

definition search_raw :: "netspeak \<Rightarrow> norm_options \<Rightarrow> search_options \<Rightarrow> qunit \<Rightarrow> (raw_result result \<times> netspeak) option" where
  "search_raw ns n_options options query =
    (case normalize (ns_normalizer ns) query n_options [] of
       Inl e \<Rightarrow> Some (Inl e, ns)
     | Inr norm_queries \<Rightarrow>
         map_option (\<lambda>(raw, ns). (Inr raw, ns)) (search_raw_loop ns options norm_queries empty_result))"

section \<open>Search\<close>

text \<open>The handlers: \<open>invalid_query_error\<close>, then \<open>std::logic_error\<close>, then \<open>std::exception\<close>.\<close>

fun error_response :: "net_error \<Rightarrow> search_response" where
  "error_response (InvalidQuery what) = ErrorResponse InvalidQueryKind what"
| "error_response (LogicError what) = ErrorResponse InternalError what"
| "error_response (InvalidArgument what) = ErrorResponse InternalError what"
| "error_response (RuntimeError what) = ErrorResponse UnknownKind what"

definition response_of :: "netspeak \<Rightarrow> qunit \<Rightarrow> search_result \<Rightarrow> search_response" where
  "response_of ns query result =
    SearchResponse (filter (\<lambda>w. \<not> contains_word (ns_corpus ns) w) (res_unknown_words result))
      (map (set_response_phrase query) (res_phrases result))"

definition search :: "(string \<Rightarrow> qunit result) \<Rightarrow> netspeak \<Rightarrow> search_request \<Rightarrow> (search_response \<times> netspeak) option" where
  "search parse_query ns request =
    (case parse_query (sr_query request) of
       Inl e \<Rightarrow> Some (error_response e, ns)
     | Inr query \<Rightarrow>
         (let (n_options, s_options) = to_options ns request
          in case search_raw ns n_options s_options query of
               None \<Rightarrow> None
             | Some (Inl e, ns) \<Rightarrow> Some (error_response e, ns)
             | Some (Inr raw, ns) \<Rightarrow>
                 map_option (\<lambda>r. (case r of Inl e \<Rightarrow> error_response e | Inr result \<Rightarrow> response_of ns query result, ns))
                   (merge_raw_result (ns_corpus ns) s_options raw)))"

section \<open>What the parts find\<close>

definition matching :: "corpus_phrase set \<Rightarrow> norm_query \<Rightarrow> corpus_phrase set" where
  "matching C q = {p \<in> C. cp_words p \<in> n_lang q}"

lemma n_equal_lang: "n_equal q q' \<Longrightarrow> n_lang q = n_lang q'"
proof -
  assume e: "n_equal q q'"
  have q: "n_text (q ! i) = n_text (q' ! i) \<and> n_is_qmark (q ! i) = n_is_qmark (q' ! i)" if "i < length q" for i
    using e that n_unit_equal_text [of "q ! i" "q' ! i"] by (simp add: n_equal_iff list_all2_conv_all_nth)
  show "n_lang q = n_lang q'"
    using n_equal_length [OF e] q unfolding set_eq_iff n_lang_iff by simp
qed

text \<open>The cached references under a key are phrases that its queries match.\<close>

definition sound_entry :: "corpus_phrase set \<Rightarrow> string \<Rightarrow> cache_item \<Rightarrow> bool" where
  "sound_entry C key item \<longleftrightarrow>
    (\<forall>q. key_safe q \<longrightarrow> norm_query_to_key q = key \<longrightarrow> set (rr_refs (ci_result item)) \<subseteq> ref_of ` matching C q)"

lemma process_refs_sound:
  assumes "query_ready s C options q"
  shows "set (rr_refs (process s options q)) \<subseteq> ref_of ` matching C q"
proof -
  obtain F unk where F: "\<forall>k. process s (options\<lparr>so_max_phrase_count := k\<rparr>) q
      = \<lparr>rr_refs = map to_ref (take (unat k) F), rr_unknown_words = unk\<rparr>" "set F \<subseteq> entry_of ` accepted C options q"
    using process_counts [of q s C options] assms unfolding query_ready_def by blast
  have "rr_refs (process s options q) = map to_ref (take (unat (so_max_phrase_count options)) F)"
    using F(1) [THEN spec, of "so_max_phrase_count options"] by simp
  then show ?thesis
    using F(2) set_take_subset [of _ F] by (fastforce simp: matching_def accepted_def ref_of_def)
qed

lemma set_union_subset: "set (set_union lt xs ys) \<subseteq> set xs \<union> set ys"
  by (induction lt xs ys rule: set_union.induct) auto

lemma merge_refs_subset:
  "merge_refs a b = Some m \<Longrightarrow> set (rr_refs m) \<subseteq> set (rr_refs a) \<union> set (rr_refs b)"
  using set_union_subset [of ref_less "rr_refs a" "rr_refs b"] by (auto simp: merge_refs_def)

lemma prune_subset: "set (rr_refs (prune r options)) \<subseteq> set (rr_refs r)"
  unfolding prune_eq by (auto dest!: in_set_takeD)

lemma wildcard_sound:
  assumes "lfu.entries_ok (sound_entry C) c" "query_ready s C options q"
    "process_wildcard_query s options q c = Some (r, c')"
  shows "lfu.entries_ok (sound_entry C) c' \<and> set (rr_refs r) \<subseteq> ref_of ` matching C q"
proof -
  have safe: "key_safe q" using assms(2) by (simp add: query_ready_def)
  have new: "sound_entry C (norm_query_to_key q) \<lparr>ci_options = o', ci_result = res\<rparr>"
    if "set (rr_refs res) \<subseteq> ref_of ` matching C q" for o' res
    using that key_unique [OF _ safe] n_equal_lang by (auto simp: sound_entry_def matching_def)
  have old: "set (rr_refs (ci_result item)) \<subseteq> ref_of ` matching C q"
    if "sound_entry C (norm_query_to_key q) item" for item
    using that safe by (simp add: sound_entry_def)
  note p = process_refs_sound [OF assms(2)]
  have "lfu.entries_ok (sound_entry C) c' \<and> (r = process s options q
    \<or> (\<exists>item. sound_entry C (norm_query_to_key q) item
        \<and> (ci_options item = options \<and> r = ci_result item
          \<or> is_prunable_from (ci_options item) options \<and> r = prune (ci_result item) options)))"
    by (rule items.process_wildcard_entries [OF assms(1) new [OF p] _ assms(3) [unfolded process_wildcard_query_def]])
      (intro new, use merge_refs_subset old p in blast)
  then show ?thesis using p old prune_subset by blast
qed

text \<open>The raw result of a search over the norm queries in \<open>Q\<close>.\<close>

definition raw_sound :: "corpus_phrase set \<Rightarrow> norm_query set \<Rightarrow> raw_result \<Rightarrow> bool" where
  "raw_sound C Q raw \<longleftrightarrow>
    (\<forall>(q, res) \<in> set (raw_refs raw). q \<in> Q \<and> set (rr_refs res) \<subseteq> ref_of ` matching C q)
    \<and> (\<forall>(q, res) \<in> set (raw_phrases raw). q \<in> Q \<and> (\<forall>p \<in> set (rp_phrases res). ph_words p \<in> n_lang q))"

lemma no_qmarks_lang: "\<not> n_has_qmarks q \<Longrightarrow> map n_text q \<in> n_lang q"
  by (induction q) (auto simp: n_lang_iff less_Suc_eq_0_disj)

lemma non_wildcard_sound:
  "\<not> n_has_qmarks q \<Longrightarrow> p \<in> set (rp_phrases (process_non_wildcard_query ns options q)) \<Longrightarrow> ph_words p \<in> n_lang q"
  using no_qmarks_lang [of q] by (auto simp: process_non_wildcard_query_def split: option.splits if_splits)

lemma search_raw_loop_sound:
  assumes "lfu.entries_ok (sound_entry C) (ns_cache ns)"
    "\<forall>q \<in> set qs. n_has_qmarks q \<longrightarrow> query_ready (ns_strategy ns) C options q"
    "raw_sound C Q raw" "set qs \<subseteq> Q" "search_raw_loop ns options qs raw = Some (raw', ns')"
  shows "raw_sound C Q raw' \<and> lfu.entries_ok (sound_entry C) (ns_cache ns') \<and> (\<exists>c. ns' = ns\<lparr>ns_cache := c\<rparr>)"
  using assms
proof (induction qs arbitrary: ns raw)
  case Nil
  then show ?case by (auto intro: exI [of _ "ns_cache ns"])
next
  case (Cons q qs)
  show ?case
  proof (cases "n_has_qmarks q")
    case True
    then obtain r c where w: "process_wildcard_query (ns_strategy ns) options q (ns_cache ns) = Some (r, c)"
        "search_raw_loop (ns\<lparr>ns_cache := c\<rparr>) options qs (add_ref_item raw q r) = Some (raw', ns')"
      using Cons.prems(5) by (auto split: option.splits)
    have s: "lfu.entries_ok (sound_entry C) c" "set (rr_refs r) \<subseteq> ref_of ` matching C q"
      using wildcard_sound [OF Cons.prems(1) _ w(1)] Cons.prems(2) True by simp_all
    have "raw_sound C Q (add_ref_item raw q r)"
      using Cons.prems(3,4) s(2) by (auto simp: raw_sound_def add_ref_item_def Let_def)
    from Cons.IH [OF _ _ this _ w(2)] show ?thesis using Cons.prems(2,4) s(1) by auto
  next
    case False
    let ?r = "process_non_wildcard_query ns options q"
    have "raw_sound C Q (add_phrase_item raw q ?r)"
      using Cons.prems(3,4) non_wildcard_sound [OF False]
      by (auto simp: raw_sound_def add_phrase_item_def Let_def)
    from Cons.IH [OF Cons.prems(1) _ this] show ?thesis using Cons.prems(2,4,5) False by simp
  qed
qed

section \<open>What merging keeps\<close>

definition corpus_id :: "corpus_phrase \<Rightarrow> phrase_id" where
  "corpus_id p = PhraseId (of_nat (length (cp_words p))) (cp_id p)"

text \<open>The phrase corpus has the phrases of \<open>C\<close>; \<open>full\<close> are their exact frequencies.\<close>

definition corpus_reads :: "phrase_corpus \<Rightarrow> corpus_phrase set \<Rightarrow> (corpus_phrase \<Rightarrow> u64) \<Rightarrow> bool" where
  "corpus_reads pc C full \<longleftrightarrow> (\<forall>ps. set ps \<subseteq> C \<longrightarrow> read_phrases pc (map corpus_id ps)
    = Some (Inr (map (\<lambda>p. \<lparr>ph_id = corpus_id p, ph_freq = full p, ph_words = cp_words p\<rparr>) ps)))"

definition merge_ref_sound :: "corpus_phrase set \<Rightarrow> norm_query set \<Rightarrow> merge_ref \<Rightarrow> bool" where
  "merge_ref_sound C Q r \<longleftrightarrow> mr_query r \<in> Q \<and> (\<exists>p \<in> matching C (mr_query r). mr_id r = corpus_id p)"

lemma set_insert_all_mem:
  "(\<forall>x \<in> set s. P x) \<Longrightarrow> P y \<Longrightarrow> \<forall>x \<in> set (set_insert lt y s). P x"
  by (induction s) auto

lemma merge_refs_loop_sound:
  "(\<forall>x \<in> set s. merge_ref_sound C Q x) \<Longrightarrow> q \<in> Q \<Longrightarrow> set rs \<subseteq> ref_of ` matching C q \<Longrightarrow>
    \<forall>x \<in> set (merge_refs_loop q rs s). merge_ref_sound C Q x"
proof (induction rs arbitrary: s)
  case (Cons r rs)
  then obtain p where p: "p \<in> matching C q" "r = ref_of p" by auto
  have "length (cp_words p) = length q" using p(1) by (auto simp: matching_def n_lang_iff)
  then have "merge_ref_sound C Q \<lparr>mr_query = q, mr_id = PhraseId (of_nat (length q)) (ref_id r), mr_freq = ref_freq r\<rparr>"
    using p Cons.prems(2) by (auto simp: merge_ref_sound_def corpus_id_def intro!: bexI [OF _ p(1)])
  from Cons.IH [OF set_insert_all_mem [OF Cons.prems(1) this] Cons.prems(2)]
  show ?case using Cons.prems(3) by simp
qed simp

lemma merge_phrase_refs_sound:
  assumes "\<forall>(q, res) \<in> set rs. q \<in> Q \<and> set (rr_refs res) \<subseteq> ref_of ` matching C q"
  shows "\<forall>x \<in> set (merge_phrase_refs rs). merge_ref_sound C Q x"
proof -
  have "\<forall>x \<in> set (foldl (\<lambda>s (query, result). merge_refs_loop query (rr_refs result) s) s rs). merge_ref_sound C Q x"
    if "\<forall>x \<in> set s. merge_ref_sound C Q x" for s
    using assms that
  proof (induction rs arbitrary: s)
    case (Cons x rs)
    obtain q res where x: "x = (q, res)" by (cases x)
    have "\<forall>x \<in> set (merge_refs_loop q (rr_refs res) s). merge_ref_sound C Q x"
      by (rule merge_refs_loop_sound [OF Cons.prems(2)]) (use Cons.prems(1) x in auto)
    from Cons.IH [OF _ this] show ?case using Cons.prems(1) by (simp add: x)
  qed simp
  from this [of "[]"] show ?thesis by (simp add: merge_phrase_refs_def)
qed

lemma read_merged:
  assumes "corpus_reads pc C full" "\<forall>x \<in> set rs. merge_ref_sound C Q x"
    "read_phrases pc (map mr_id rs) = Some (Inr phrases)"
  shows "length phrases = length rs"
    "(x, p) \<in> set (zip rs phrases) \<Longrightarrow> mr_query x \<in> Q \<and> ph_words p \<in> n_lang (mr_query x)"
proof -
  have "\<exists>ps. set ps \<subseteq> C \<and> map mr_id rs = map corpus_id ps \<and> list_all2 (\<lambda>r p. mr_query r \<in> Q \<and> cp_words p \<in> n_lang (mr_query r)) rs ps"
    using assms(2)
  proof (induction rs)
    case (Cons r rs)
    then obtain ps where ps: "set ps \<subseteq> C" "map mr_id rs = map corpus_id ps"
        "list_all2 (\<lambda>r p. mr_query r \<in> Q \<and> cp_words p \<in> n_lang (mr_query r)) rs ps" by auto
    obtain p where "p \<in> C" "cp_words p \<in> n_lang (mr_query r)" "mr_id r = corpus_id p" "mr_query r \<in> Q"
      using Cons.prems by (auto simp: merge_ref_sound_def matching_def)
    then show ?case using ps by (intro exI [of _ "p # ps"]) simp
  qed simp
  then obtain ps where ps: "set ps \<subseteq> C" "map mr_id rs = map corpus_id ps"
      "list_all2 (\<lambda>r p. mr_query r \<in> Q \<and> cp_words p \<in> n_lang (mr_query r)) rs ps" by blast
  then have phr: "phrases = map (\<lambda>p. \<lparr>ph_id = corpus_id p, ph_freq = full p, ph_words = cp_words p\<rparr>) ps"
    using assms(1,3) by (simp add: corpus_reads_def)
  show "length phrases = length rs" using ps(3) by (simp add: phr list_all2_lengthD)
  show "(x, p) \<in> set (zip rs phrases) \<Longrightarrow> mr_query x \<in> Q \<and> ph_words p \<in> n_lang (mr_query x)"
    using ps(3) by (auto simp: phr zip_map2 list_all2_iff)
qed

definition item_sound :: "norm_query set \<Rightarrow> result_item \<Rightarrow> bool" where
  "item_sound Q it \<longleftrightarrow> it_query it \<in> Q \<and> ph_words (it_phrase it) \<in> n_lang (it_query it)"

interpretation result_items: weak_order item_less
proof unfold_locales
  fix x y z
  show "\<not> item_less x x" by (simp add: item_less_def phrases.less_irrefl)
  show "item_less x y \<Longrightarrow> item_less y z \<Longrightarrow> item_less x z"
    unfolding item_less_def by (rule phrases.less_trans)
  show "item_less x y \<Longrightarrow> item_less x z \<or> item_less z y"
    unfolding item_less_def by (rule phrases.less_cases)
qed

lemma foldl_set_insert_item:
  assumes "\<forall>x \<in> set s. item_sound Q x" "\<forall>x \<in> set xs. item_sound Q x" "result_items.ordered s"
  shows "(\<forall>x \<in> set (foldl (\<lambda>s item. set_insert item_less item s) s xs). item_sound Q x)
    \<and> result_items.ordered (foldl (\<lambda>s item. set_insert item_less item s) s xs)"
  using result_items.set_insert_all [OF assms(3), of xs] assms(1,2) by blast

lemma add_phrases_sound:
  assumes "\<forall>x \<in> set s. item_sound Q x" "result_items.ordered s"
    "\<forall>(q, res) \<in> set ps. q \<in> Q \<and> (\<forall>p \<in> set (rp_phrases res). ph_words p \<in> n_lang q)"
  shows "(\<forall>x \<in> set (foldl (\<lambda>s (query, result).
        foldl (\<lambda>s p. set_insert item_less \<lparr>it_query = query, it_phrase = p\<rparr> s) s (rp_phrases result)) s ps). item_sound Q x)
    \<and> result_items.ordered (foldl (\<lambda>s (query, result).
        foldl (\<lambda>s p. set_insert item_less \<lparr>it_query = query, it_phrase = p\<rparr> s) s (rp_phrases result)) s ps)"
  using assms
proof (induction ps arbitrary: s)
  case (Cons x ps)
  obtain q res where x: "x = (q, res)" by (cases x)
  define s' where "s' = foldl (\<lambda>s p. set_insert item_less \<lparr>it_query = q, it_phrase = p\<rparr> s) s (rp_phrases res)"
  have s': "s' = foldl (\<lambda>s item. set_insert item_less item s) s (map (\<lambda>p. \<lparr>it_query = q, it_phrase = p\<rparr>) (rp_phrases res))"
    by (simp add: s'_def foldl_map)
  have "(\<forall>x \<in> set s'. item_sound Q x) \<and> result_items.ordered s'"
    unfolding s' using Cons.prems x by (intro foldl_set_insert_item) (auto simp: item_sound_def)
  then show ?case using Cons.IH [of s'] Cons.prems(3) by (simp add: x s'_def)
qed simp

lemma merge_raw_result_sound:
  assumes "corpus_reads pc C full" "raw_sound C Q raw" "merge_raw_result pc options raw = Some (Inr res)"
  shows "\<forall>it \<in> set (res_phrases res). item_sound Q it" "result_items.ordered (res_phrases res)"
    "length (res_phrases res) \<le> unat (so_max_phrase_count options)"
proof -
  define k where "k = unat (so_max_phrase_count options)"
  define top where "top = take k (merge_phrase_refs (raw_refs raw))"
  have all: "(\<forall>it \<in> set (res_phrases res). item_sound Q it) \<and> result_items.ordered (res_phrases res)
      \<and> length (res_phrases res) \<le> k"
  proof (cases "k = 0")
    case True
    then show ?thesis using assms(3) by (auto simp: merge_raw_result_def k_def result_items.ordered_def)
  next
    case False
    then obtain phrases where read: "read_phrases pc (map mr_id top) = Some (Inr phrases)"
      using assms(3) by (auto simp: merge_raw_result_def Let_def k_def top_def)
    have top: "\<forall>x \<in> set top. merge_ref_sound C Q x"
      using merge_phrase_refs_sound [of "raw_refs raw" Q C] assms(2)
      by (auto simp: top_def raw_sound_def dest!: in_set_takeD)
    define s1 where "s1 = foldl (\<lambda>s item. set_insert item_less item s) []
      (map (\<lambda>(ref, p). \<lparr>it_query = mr_query ref, it_phrase = p\<rparr>) (zip top phrases))"
    have s1: "(\<forall>x \<in> set s1. item_sound Q x) \<and> result_items.ordered s1"
      unfolding s1_def using read_merged(2) [OF assms(1) top read]
      by (intro foldl_set_insert_item) (auto simp: item_sound_def result_items.ordered_def)
    define s2 where "s2 = foldl (\<lambda>s (query, result).
        foldl (\<lambda>s p. set_insert item_less \<lparr>it_query = query, it_phrase = p\<rparr> s) s (rp_phrases result)) s1 (raw_phrases raw)"
    have s2: "(\<forall>x \<in> set s2. item_sound Q x) \<and> result_items.ordered s2"
      unfolding s2_def using s1 assms(2) by (intro add_phrases_sound) (auto simp: raw_sound_def)
    have "res_phrases res = take k s2"
      using assms(3) False read by (auto simp: merge_raw_result_def Let_def k_def top_def s1_def s2_def)
    then show ?thesis using s2 by (auto simp: result_items.ordered_def sorted_wrt_take dest!: in_set_takeD)
  qed
  then show "\<forall>it \<in> set (res_phrases res). item_sound Q it" "result_items.ordered (res_phrases res)"
    "length (res_phrases res) \<le> unat (so_max_phrase_count options)" by (simp_all add: k_def)
qed

section \<open>The whole search\<close>

definition netspeak_ok :: "netspeak \<Rightarrow> corpus_phrase set \<Rightarrow> (corpus_phrase \<Rightarrow> u64) \<Rightarrow> bool" where
  "netspeak_ok ns C full \<longleftrightarrow> corpus_reads (ns_corpus ns) C full
    \<and> lfu.entries_ok (sound_entry C) (ns_cache ns)"

text \<open>The norm queries of a request can be answered from the index.\<close>

definition request_ready :: "netspeak \<Rightarrow> corpus_phrase set \<Rightarrow> search_request \<Rightarrow> qunit \<Rightarrow> bool" where
  "request_ready ns C request query \<longleftrightarrow>
    (let (n_options, s_options) = to_options ns request
     in q_width (nz_env (ns_normalizer ns) n_options) query < 2 ^ 32 - 1
      \<and> (\<forall>nqs. normalize (ns_normalizer ns) query n_options [] = Inr nqs
          \<longrightarrow> (\<forall>q \<in> set nqs. n_has_qmarks q \<longrightarrow> query_ready (ns_strategy ns) C s_options q)))"

definition response_less :: "response_phrase \<Rightarrow> response_phrase \<Rightarrow> bool" where
  "response_less a b \<longleftrightarrow> rp_frequency a > rp_frequency b
    \<or> rp_frequency a = rp_frequency b \<and> rp_id a < rp_id b"

lemma search_raw_sound:
  assumes "netspeak_ok ns C full" "request_ready ns C request query" "to_options ns request = (n_options, s_options)"
    "search_raw ns n_options s_options query = Some (r, ns')"
  shows "netspeak_ok ns' C full \<and> ns_corpus ns' = ns_corpus ns
    \<and> (case r of
        Inl e \<Rightarrow> normalize (ns_normalizer ns) query n_options [] = Inl e
      | Inr raw \<Rightarrow> \<exists>nqs. normalize (ns_normalizer ns) query n_options [] = Inr nqs \<and> raw_sound C (set nqs) raw)"
proof (cases "normalize (ns_normalizer ns) query n_options []")
  case (Inl e)
  then show ?thesis using assms(1,4) by (auto simp: search_raw_def)
next
  case (Inr nqs)
  then obtain raw where raw: "search_raw_loop ns s_options nqs empty_result = Some (raw, ns')" "r = Inr raw"
    using assms(4) by (auto simp: search_raw_def)
  have "raw_sound C (set nqs) raw \<and> lfu.entries_ok (sound_entry C) (ns_cache ns') \<and> (\<exists>c. ns' = ns\<lparr>ns_cache := c\<rparr>)"
  proof (rule search_raw_loop_sound [OF _ _ _ _ raw(1)])
    show "raw_sound C (set nqs) empty_result" by (simp add: raw_sound_def empty_result_def)
  qed (use assms(1,2,3) Inr in \<open>auto simp: netspeak_ok_def request_ready_def\<close>)
  then show ?thesis using raw(2) Inr assms(1) by (auto simp: netspeak_ok_def)
qed

lemma search_cases:
  assumes "parse (sr_query request) = Inr query" "to_options ns request = (n_options, s_options)"
    "search parse ns request = Some (response, ns')"
  obtains (thrown) e where "search_raw ns n_options s_options query = Some (Inl e, ns')" "response = error_response e"
    | (unread) raw e where "search_raw ns n_options s_options query = Some (Inr raw, ns')"
      "merge_raw_result (ns_corpus ns') s_options raw = Some (Inl e)" "response = error_response e"
    | (found) raw res where "search_raw ns n_options s_options query = Some (Inr raw, ns')"
      "merge_raw_result (ns_corpus ns') s_options raw = Some (Inr res)" "response = response_of ns' query res"
proof -
  obtain x where x: "search_raw ns n_options s_options query = Some x"
    using assms by (cases "search_raw ns n_options s_options query") (auto simp: search_def)
  obtain r ns1 where r: "x = (r, ns1)" by (cases x)
  show ?thesis
  proof (cases r)
    case (Inl e)
    then show ?thesis using thrown [of e] x r assms by (simp add: search_def)
  next
    case (Inr raw)
    then obtain m where m: "merge_raw_result (ns_corpus ns1) s_options raw = Some m" "ns1 = ns'"
        "response = (case m of Inl e \<Rightarrow> error_response e | Inr result \<Rightarrow> response_of ns1 query result)"
      using x r assms by (auto simp: search_def)
    then show ?thesis using unread [of raw] found [of raw] x r Inr by (cases m) simp_all
  qed
qed

lemma response_less_item:
  "item_less a b \<Longrightarrow> response_less (set_response_phrase q a) (set_response_phrase q b)"
proof -
  assume "item_less a b"
  moreover have "pid_to_u64 x < pid_to_u64 y" if "x < y" for x y
    using that by (rule pid_less_u64)
  ultimately show ?thesis
    by (auto simp: item_less_def phrase_less_def response_less_def set_response_phrase_def Let_def split: if_splits)
qed

lemma response_words: "map fst (rp_words (set_response_phrase q it)) = ph_words (it_phrase it)"
  by (simp add: set_response_phrase_def Let_def comp_def map_nth)

lemma search_result_sound:
  assumes "netspeak_ok ns C full" "request_ready ns C request query" "parse (sr_query request) = Inr query"
    "to_options ns request = (n_options, s_options)"
    "search parse ns request = Some (SearchResponse unknown phrases, ns')"
  shows "sorted_wrt response_less phrases" "length phrases \<le> unat (sr_max_phrases request)"
    "\<And>p. p \<in> set phrases \<Longrightarrow> map fst (rp_words p) \<in> q_lang (nz_env (ns_normalizer ns) n_options)
        (query_regex_words (ns_normalizer ns) n_options query) query
      \<and> unat (no_min_length n_options) \<le> length (rp_words p) \<and> length (rp_words p) \<le> unat (no_max_length n_options)"
    "netspeak_ok ns' C full"
proof -
  have err: "error_response e \<noteq> SearchResponse u ps" for e u ps by (cases e) simp_all
  obtain raw res where run: "search_raw ns n_options s_options query = Some (Inr raw, ns')"
      "merge_raw_result (ns_corpus ns') s_options raw = Some (Inr res)"
      "SearchResponse unknown phrases = response_of ns' query res"
    using err by (cases rule: search_cases [OF assms(3-5)]) metis+
  obtain nqs where nqs: "normalize (ns_normalizer ns) query n_options [] = Inr nqs" "raw_sound C (set nqs) raw"
      "netspeak_ok ns' C full"
    using search_raw_sound [OF assms(1,2,4) run(1)] by auto
  note m = merge_raw_result_sound [OF _ nqs(2) run(2)]
  have res: "\<forall>it \<in> set (res_phrases res). item_sound (set nqs) it" "result_items.ordered (res_phrases res)"
    "length (res_phrases res) \<le> unat (so_max_phrase_count s_options)"
    using m [of full] nqs(3) by (simp_all add: netspeak_ok_def)
  have phrases: "phrases = map (set_response_phrase query) (res_phrases res)"
    using run(3) by (simp add: response_of_def)
  show "sorted_wrt response_less phrases"
    using res(2) unfolding phrases result_items.ordered_def sorted_wrt_map
    by (rule sorted_wrt_mono_rel [rotated]) (rule response_less_item)
  have "so_max_phrase_count s_options = sr_max_phrases request"
    using assms(4) by (auto simp: to_options_def Let_def)
  then show "length phrases \<le> unat (sr_max_phrases request)" using res(3) by (simp add: phrases)
  show "netspeak_ok ns' C full" by (rule nqs(3))
  fix p assume "p \<in> set phrases"
  then obtain it where it: "it \<in> set (res_phrases res)" "p = set_response_phrase query it" by (auto simp: phrases)
  have w: "map fst (rp_words p) = ph_words (it_phrase it)" by (simp add: it(2) response_words)
  then have l: "length (rp_words p) = length (ph_words (it_phrase it))" by (metis length_map)
  have "it_query it \<in> set nqs" "n_matches (it_query it) (ph_words (it_phrase it))"
    using res(1) it(1) by (auto simp: item_sound_def n_lang_def)
  moreover have "q_width (nz_env (ns_normalizer ns) n_options) query < 2 ^ 32 - 1"
    using assms(2,4) by (simp add: request_ready_def)
  ultimately show "map fst (rp_words p) \<in> q_lang (nz_env (ns_normalizer ns) n_options)
        (query_regex_words (ns_normalizer ns) n_options query) query
      \<and> unat (no_min_length n_options) \<le> length (rp_words p) \<and> length (rp_words p) \<le> unat (no_max_length n_options)"
    using normalize_sound [OF nqs(1)] unfolding w l by blast
qed

lemma search_error_kinds:
  assumes "parse (sr_query request) = Inr query" "to_options ns request = (n_options, s_options)"
    "q_width (nz_env (ns_normalizer ns) n_options) query < 2 ^ 32 - 1"
    "search parse ns request = Some (ErrorResponse kind what, ns')"
  shows "kind = InvalidQueryKind \<and> normalize (ns_normalizer ns) query n_options [] = Inl (InvalidQuery what)
    \<or> kind = UnknownKind \<and> what \<in> {''read_phrases'', ''read_phrases : aio_read64 failed''}"
proof -
  have prep: "prepare_reads pc is = Inl e \<Longrightarrow> e = RuntimeError ''read_phrases''" for pc "is" e
    by (induction "is") (auto simp: Let_def rbind_eq_Inl split: option.splits)
  have dec: "decode_loop pc xs = Some (Inl e) \<Longrightarrow> e = RuntimeError ''read_phrases : aio_read64 failed''" for pc xs e
    by (induction pc xs rule: decode_loop.induct) (auto simp: rbind_eq_Inl split: if_splits option.splits)
  have read: "e \<in> {RuntimeError ''read_phrases'', RuntimeError ''read_phrases : aio_read64 failed''}"
    if "read_phrases pc is = Some (Inl e)" for pc "is" e
    using that prep dec by (auto simp: read_phrases_def split: sum.splits)
  have merge: "e \<in> {RuntimeError ''read_phrases'', RuntimeError ''read_phrases : aio_read64 failed''}"
    if "merge_raw_result pc o' raw = Some (Inl e)" for pc o' raw e
    using that read by (auto simp: merge_raw_result_def Let_def rbind_eq_Inl split: if_splits)
  show ?thesis
    using assms(1,2,4)
  proof (cases rule: search_cases)
    case (thrown e)
    then have "normalize (ns_normalizer ns) query n_options [] = Inl e"
      by (auto simp: search_raw_def split: sum.splits)
    then show ?thesis using thrown(2) normalize_error [OF _ assms(3), of "[]" e] by auto
  next
    case (unread raw e)
    then show ?thesis using merge [OF unread(2)] by auto
  next
    case (found raw res)
    then show ?thesis by (simp add: response_of_def)
  qed
qed

text \<open>A corpus that was built from phrases reads them.\<close>

definition item_of :: "(corpus_phrase \<Rightarrow> u64) \<Rightarrow> corpus_phrase \<Rightarrow> parser_item" where
  "item_of full p = \<lparr>pi_id = cp_id p, pi_freq = full p, pi_words = cp_words p\<rparr>"

lemma corpus_reads_built:
  assumes "\<And>ps. set ps \<subseteq> set out \<Longrightarrow>
      read_phrases pc (map (ph_id \<circ> phrase_of_item) ps) = Some (Inr (map phrase_of_item ps))"
    and "item_of full ` C \<subseteq> set out"
  shows "corpus_reads pc C full"
  unfolding corpus_reads_def
proof (intro allI impI)
  fix ps assume "set ps \<subseteq> C"
  then have "set (map (item_of full) ps) \<subseteq> set out" using assms(2) by auto
  from assms(1) [OF this] show "read_phrases pc (map corpus_id ps)
      = Some (Inr (map (\<lambda>p. \<lparr>ph_id = corpus_id p, ph_freq = full p, ph_words = cp_words p\<rparr>) ps))"
    by (simp add: comp_def phrase_of_item_def item_of_def corpus_id_def [abs_def])
qed

section \<open>A concrete instance\<close>

definition ex_corpus_items :: "parser_item list" where
  "ex_corpus_items = [\<lparr>pi_id = 0, pi_freq = 10, pi_words = [''the'', ''big'', ''cat'']\<rparr>,
    \<lparr>pi_id = 1, pi_freq = 20, pi_words = [''the'', ''old'', ''cat'']\<rparr>,
    \<lparr>pi_id = 2, pi_freq = 30, pi_words = [''a'', ''big'', ''cat'']\<rparr>,
    \<lparr>pi_id = 3, pi_freq = 40, pi_words = [''the'', ''big'', ''dog'']\<rparr>]"

definition ex_vocab :: "(string \<times> u32) list" where
  "ex_vocab = [(''the'', 0), (''big'', 1), (''cat'', 2), (''old'', 3), (''a'', 4), (''dog'', 5)]"

definition ex_bin :: "u8 list" where
  "ex_bin = concat (map (\<lambda>it. phrase_bytes ex_vocab (pi_freq it) (pi_words it)) ex_corpus_items)"

definition ex_phrase_corpus :: phrase_corpus where
  "ex_phrase_corpus = \<lparr>pc_id_map = init_vocabulary ex_vocab, pc_files = [3 \<mapsto> ex_bin], pc_max_length = 3\<rparr>"

definition ex_netspeak :: netspeak where
  "ex_netspeak = \<lparr>ns_normalizer = \<lparr>nz_regex_index = None, nz_dictionary = None, nz_lower_case = False,
      nz_to_lower = (\<lambda>s. s), nz_split = (\<lambda>s. [s])\<rparr>,
    ns_config = \<lparr>cfg_max_norm_queries = 1000, cfg_regex_max_matches = 100, cfg_regex_max_time = 20\<rparr>,
    ns_dictionary = Map.empty, ns_strategy = ex_strategy, ns_corpus = ex_phrase_corpus,
    ns_cache = new_cache 100\<rparr>"

definition ex_parse :: "string \<Rightarrow> qunit result" where
  "ex_parse s = (if s = ''the ? cat'' then Inr (QConcat [QWord ''the'', QQMark ''?'', QWord ''cat''])
    else Inl (InvalidQuery ''Invalid query''))"

definition ex_request :: search_request where
  "ex_request = \<lparr>sr_query = ''the ? cat'', sr_max_phrases = 10, sr_frequency_max = 0, sr_words_min = 0, sr_words_max = 0\<rparr>"

lemma ex_built:
  "cb_unigram_to_id (fst (build_corpus ex_corpus_items)) = ex_vocab"
  "snd (build_corpus ex_corpus_items) = ex_corpus_items"
  "cb_bin (fst (build_corpus ex_corpus_items)) 3 = Some ex_bin"
  by code_simp+

lemma ex_corpus_reads: "corpus_reads ex_phrase_corpus ex_corpus (\<lambda>p. ucast (cp_freq p))"
proof (rule corpus_reads_built [where out = ex_corpus_items])
  let ?cb = "fst (build_corpus ex_corpus_items)"
  have b: "built ?cb ex_corpus_items"
    by (rule build_corpus_built [of ex_corpus_items]) (simp add: prod_eq_iff ex_built(2))
  fix ps assume ps: "set ps \<subseteq> set ex_corpus_items"
  show "read_phrases ex_phrase_corpus (map (ph_id \<circ> phrase_of_item) ps) = Some (Inr (map phrase_of_item ps))"
  proof (rule built_read [OF b _ _ _ _ _ ps])
    show "length ex_corpus_items \<le> 2 ^ 32" by (simp add: ex_corpus_items_def)
    show "vocabulary_fits (cb_unigram_to_id ?cb)" unfolding ex_built by (simp add: ex_vocab_def vocabulary_fits_def nul_def)
    show "mset ex_vocab = mset (cb_unigram_to_id ?cb)" by (simp add: ex_built)
    show "pc_id_map ex_phrase_corpus = init_vocabulary ex_vocab" by (simp add: ex_phrase_corpus_def)
  next
    fix it assume "it \<in> set ex_corpus_items"
    then have "length (pi_words it) = 3" by (auto simp: ex_corpus_items_def)
    then show "length (pi_words it) < 2 ^ 32
        \<and> pc_files ex_phrase_corpus (of_nat (length (pi_words it))) = cb_bin ?cb (length (pi_words it))"
      using ex_built(3) by (simp add: ex_phrase_corpus_def)
  qed
next
  show "item_of (\<lambda>p. ucast (cp_freq p)) ` ex_corpus \<subseteq> set ex_corpus_items"
    by (auto simp: ex_corpus_def ex_corpus_items_def item_of_def)
qed

lemma ex_search: "map_option fst (search ex_parse ex_netspeak ex_request) = Some (SearchResponse []
    [\<lparr>rp_id = 12884901889, rp_frequency = 20, rp_words = [(''the'', WordTag), (''old'', WordForQmark), (''cat'', WordTag)]\<rparr>,
     \<lparr>rp_id = 12884901888, rp_frequency = 10, rp_words = [(''the'', WordTag), (''big'', WordForQmark), (''cat'', WordTag)]\<rparr>])"
  by code_simp

lemma ex_norm: "normalize (ns_normalizer ex_netspeak) (QConcat [QWord ''the'', QQMark ''?'', QWord ''cat'']) (fst (to_options ex_netspeak ex_request)) [] = Inr [ex_norm_query]"
  by code_simp

lemma ex_netspeak_ok: "netspeak_ok ex_netspeak ex_corpus (\<lambda>p. ucast (cp_freq p))"
  using ex_corpus_reads std.lfu_inv_new
  by (simp add: netspeak_ok_def ex_netspeak_def lfu.entries_ok_def content_def new_cache_def)

lemma ex_request_ready:
  "request_ready ex_netspeak ex_corpus ex_request (QConcat [QWord ''the'', QQMark ''?'', QWord ''cat''])"
proof -
  obtain n_options s_options where o: "to_options ex_netspeak ex_request = (n_options, s_options)"
    by (cases "to_options ex_netspeak ex_request")
  then have "so_pruning_high s_options = so_pruning_high ex_search_options"
      "so_pruning_low s_options = so_pruning_low ex_search_options"
    by (auto simp: to_options_def Let_def ex_search_options_def)
  then have "query_ready ex_strategy ex_corpus s_options ex_norm_query"
    using ex_search_ready search_ready_options [of s_options ex_search_options]
    by (simp add: query_ready_def key_safe_def ex_norm_query_def)
  then show ?thesis
    using ex_norm o by (simp add: request_ready_def) (simp add: ex_netspeak_def)
qed

section \<open>Properties\<close>

text \<open>
  C3. Soundness of \<open>Netspeak::search\<close>: a response has at most \<open>max_phrases\<close> phrases, in strictly
  descending order of frequency and, for equal frequencies, ascending order of id; the words of
  every phrase are a phrase that the parsed query accepts, with a length within the constraints.
  Whatever the cache holds from earlier searches, of whatever options, the state stays sound, so
  this is so for every later search.
\<close>

theorem search_soundness:
  assumes "netspeak_ok ns C full" and "parse (sr_query request) = Inr query"
    and "request_ready ns C request query" and "to_options ns request = (n_options, s_options)"
    and "search parse ns request = Some (SearchResponse unknown phrases, ns')"
  shows "sorted_wrt response_less phrases \<and> length phrases \<le> unat (sr_max_phrases request)
    \<and> (\<forall>p \<in> set phrases. map fst (rp_words p) \<in> q_lang (nz_env (ns_normalizer ns) n_options)
          (query_regex_words (ns_normalizer ns) n_options query) query
        \<and> unat (no_min_length n_options) \<le> length (rp_words p) \<and> length (rp_words p) \<le> unat (no_max_length n_options))
    \<and> netspeak_ok ns' C full"
  using search_result_sound [OF assms(1,3,2,4,5)] by blast

theorem search_soundness_witness:
  "[''the'', ''old'', ''cat''] \<in> q_lang (nz_env (ns_normalizer ex_netspeak) (fst (to_options ex_netspeak ex_request)))
    (query_regex_words (ns_normalizer ex_netspeak) (fst (to_options ex_netspeak ex_request))
      (QConcat [QWord ''the'', QQMark ''?'', QWord ''cat'']))
    (QConcat [QWord ''the'', QQMark ''?'', QWord ''cat''])"
proof -
  obtain ns' where s: "search ex_parse ex_netspeak ex_request = Some (SearchResponse []
    [\<lparr>rp_id = 12884901889, rp_frequency = 20, rp_words = [(''the'', WordTag), (''old'', WordForQmark), (''cat'', WordTag)]\<rparr>,
     \<lparr>rp_id = 12884901888, rp_frequency = 10, rp_words = [(''the'', WordTag), (''big'', WordForQmark), (''cat'', WordTag)]\<rparr>], ns')"
    using ex_search by auto
  have "ex_parse (sr_query ex_request) = Inr (QConcat [QWord ''the'', QQMark ''?'', QWord ''cat''])"
    by (simp add: ex_parse_def ex_request_def)
  note sound = search_soundness [where parse = ex_parse, OF ex_netspeak_ok this ex_request_ready prod.collapse [symmetric] s]
  from sound [THEN conjunct2, THEN conjunct2, THEN conjunct1, THEN bspec, OF list.set_intros(1), THEN conjunct1]
  show ?thesis by simp
qed


definition ex_no_files :: netspeak where
  "ex_no_files = ex_netspeak\<lparr>ns_corpus := ex_phrase_corpus\<lparr>pc_files := Map.empty\<rparr>\<rparr>"

lemma ex_search_error: "map_option fst (search ex_parse ex_no_files ex_request) = Some (ErrorResponse UnknownKind ''read_phrases'')"
  by code_simp


end
