(* ===== verification/Search_Completeness.thy ===== *)
theory Search_Completeness
  imports Search
begin

text \<open>
  Completeness of \<open>Netspeak::search\<close>: a response that is not full has every phrase of the corpus
  that the query accepts.
\<close>

section \<open>Merging as insertion into ordered sets\<close>

interpretation merges: weak_order merge_ref_less
  by unfold_locales (auto simp: merge_ref_less_def split: if_splits)

lemma merges_equivalent: "merges.equivalent a b \<longleftrightarrow> mr_freq a = mr_freq b \<and> mr_id a = mr_id b"
  by (auto simp: merges.equivalent_def merge_ref_less_def)

lemma result_items_equivalent:
  "result_items.equivalent a b \<longleftrightarrow> ph_freq (it_phrase a) = ph_freq (it_phrase b) \<and> ph_id (it_phrase a) = ph_id (it_phrase b)"
  by (auto simp: result_items.equivalent_def item_less_def phrase_less_def)

definition merge_refs_of :: "norm_query \<times> raw_ref_result \<Rightarrow> merge_ref list" where
  "merge_refs_of x = map (\<lambda>r. \<lparr>mr_query = fst x, mr_id = PhraseId (of_nat (length (fst x))) (ref_id r), mr_freq = ref_freq r\<rparr>)
    (rr_refs (snd x))"

lemma merge_refs_loop_foldl:
  "merge_refs_loop q rs s = foldl (\<lambda>s x. set_insert merge_ref_less x s) s
    (map (\<lambda>r. \<lparr>mr_query = q, mr_id = PhraseId (of_nat (length q)) (ref_id r), mr_freq = ref_freq r\<rparr>) rs)"
  by (induction rs arbitrary: s) simp_all

lemma merge_phrase_refs_foldl:
  "merge_phrase_refs rs = foldl (\<lambda>s x. set_insert merge_ref_less x s) [] (concat (map merge_refs_of rs))"
proof -
  have "foldl (\<lambda>s (query, result). merge_refs_loop query (rr_refs result) s) s rs
      = foldl (\<lambda>s x. set_insert merge_ref_less x s) s (concat (map merge_refs_of rs))" for s
    by (induction rs arbitrary: s) (auto simp: merge_refs_of_def merge_refs_loop_foldl)
  then show ?thesis by (simp add: merge_phrase_refs_def)
qed

definition items_of :: "norm_query \<times> raw_phrase_result \<Rightarrow> result_item list" where
  "items_of x = map (\<lambda>p. \<lparr>it_query = fst x, it_phrase = p\<rparr>) (rp_phrases (snd x))"

definition final_items :: "merge_ref list \<Rightarrow> phrase list \<Rightarrow> (norm_query \<times> raw_phrase_result) list \<Rightarrow> result_item list" where
  "final_items tops phrases raw = foldl (\<lambda>s item. set_insert item_less item s) []
    (map (\<lambda>(ref, p). \<lparr>it_query = mr_query ref, it_phrase = p\<rparr>) (zip tops phrases) @ concat (map items_of raw))"

lemma final_items_foldl:
  "foldl (\<lambda>s (query, result). foldl (\<lambda>s p. set_insert item_less \<lparr>it_query = query, it_phrase = p\<rparr> s) s (rp_phrases result)) s raw
    = foldl (\<lambda>s item. set_insert item_less item s) s (concat (map items_of raw))"
  by (induction raw arbitrary: s) (auto simp: items_of_def foldl_map)

lemma merge_raw_result_items:
  assumes "merge_raw_result pc options raw = Some (Inr res)" "so_max_phrase_count options \<noteq> 0"
  defines "k \<equiv> unat (so_max_phrase_count options)"
  obtains phrases where "read_phrases pc (map mr_id (take k (merge_phrase_refs (raw_refs raw)))) = Some (Inr phrases)"
    "res_phrases res = take k (final_items (take k (merge_phrase_refs (raw_refs raw))) phrases (raw_phrases raw))"
proof -
  have "k \<noteq> 0" using assms(2) by (simp add: k_def unat_eq_0)
  then obtain phrases where "read_phrases pc (map mr_id (take k (merge_phrase_refs (raw_refs raw)))) = Some (Inr phrases)"
    using assms(1) by (auto simp: merge_raw_result_def Let_def k_def)
  then show thesis
    using that [of phrases] assms(1) \<open>k \<noteq> 0\<close>
    by (auto simp: merge_raw_result_def Let_def k_def final_items_def final_items_foldl)
qed

text \<open>Every inserted element is there up to equivalence.\<close>

lemma final_items_all:
  "result_items.ordered (final_items tops phrases raw)"
  "x \<in> set (zip tops phrases) \<Longrightarrow> \<exists>it \<in> set (final_items tops phrases raw).
    ph_freq (it_phrase it) = ph_freq (snd x) \<and> ph_id (it_phrase it) = ph_id (snd x)"
  "y \<in> set raw \<Longrightarrow> p \<in> set (rp_phrases (snd y)) \<Longrightarrow> \<exists>it \<in> set (final_items tops phrases raw).
    ph_freq (it_phrase it) = ph_freq p \<and> ph_id (it_phrase it) = ph_id p"
proof -
  define xs where "xs = map (\<lambda>(ref, p). \<lparr>it_query = mr_query ref, it_phrase = p\<rparr>) (zip tops phrases) @ concat (map items_of raw)"
  have all: "result_items.ordered (final_items tops phrases raw)
      \<and> (\<forall>x \<in> set xs. \<exists>it \<in> set (final_items tops phrases raw). result_items.equivalent x it)"
    unfolding final_items_def xs_def [symmetric]
    using result_items.set_insert_all [of "[]" xs] by (simp add: result_items.ordered_def)
  then show "result_items.ordered (final_items tops phrases raw)" by blast
  show "\<exists>it \<in> set (final_items tops phrases raw).
      ph_freq (it_phrase it) = ph_freq (snd x) \<and> ph_id (it_phrase it) = ph_id (snd x)" if "x \<in> set (zip tops phrases)"
  proof -
    have "\<lparr>it_query = mr_query (fst x), it_phrase = snd x\<rparr> \<in> set xs"
      using that by (auto simp: xs_def image_iff intro!: bexI [of _ x] split: prod.splits)
    then show ?thesis using all by (fastforce simp: result_items_equivalent)
  qed
  show "\<exists>it \<in> set (final_items tops phrases raw).
      ph_freq (it_phrase it) = ph_freq p \<and> ph_id (it_phrase it) = ph_id p" if "y \<in> set raw" "p \<in> set (rp_phrases (snd y))"
  proof -
    have "\<lparr>it_query = fst y, it_phrase = p\<rparr> \<in> set xs" using that by (auto simp: xs_def items_of_def)
    then show ?thesis using all by (fastforce simp: result_items_equivalent)
  qed
qed

lemma merge_phrase_refs_all:
  "merges.ordered (merge_phrase_refs rs)"
  "set (merge_phrase_refs rs) \<subseteq> set (concat (map merge_refs_of rs))"
  "x \<in> set rs \<Longrightarrow> r \<in> set (rr_refs (snd x)) \<Longrightarrow> \<exists>e \<in> set (merge_phrase_refs rs).
    mr_freq e = ref_freq r \<and> mr_id e = PhraseId (of_nat (length (fst x))) (ref_id r)"
proof -
  have all: "merges.ordered (merge_phrase_refs rs) \<and> set (merge_phrase_refs rs) \<subseteq> set (concat (map merge_refs_of rs))
      \<and> (\<forall>x \<in> set (concat (map merge_refs_of rs)). \<exists>e \<in> set (merge_phrase_refs rs). merges.equivalent x e)"
    unfolding merge_phrase_refs_foldl
    using merges.set_insert_all [of "[]" "concat (map merge_refs_of rs)"] by (simp add: merges.ordered_def)
  then show "merges.ordered (merge_phrase_refs rs)"
    "set (merge_phrase_refs rs) \<subseteq> set (concat (map merge_refs_of rs))" by blast+
  show "\<exists>e \<in> set (merge_phrase_refs rs). mr_freq e = ref_freq r \<and> mr_id e = PhraseId (of_nat (length (fst x))) (ref_id r)"
    if "x \<in> set rs" "r \<in> set (rr_refs (snd x))"
  proof -
    have "\<lparr>mr_query = fst x, mr_id = PhraseId (of_nat (length (fst x))) (ref_id r), mr_freq = ref_freq r\<rparr>
        \<in> set (concat (map merge_refs_of rs))"
      using that by (auto simp: merge_refs_of_def)
    then show ?thesis using all by (fastforce simp: merges_equivalent)
  qed
qed

section \<open>The raw result\<close>

text \<open>Every norm query has its result, if it is not empty.\<close>

definition raw_complete :: "netspeak \<Rightarrow> search_options \<Rightarrow> norm_query set \<Rightarrow> raw_result \<Rightarrow> bool" where
  "raw_complete ns options Q raw \<longleftrightarrow> (\<forall>q \<in> Q.
    if n_has_qmarks q
    then rr_refs (process (ns_strategy ns) options q) = [] \<or> (q, process (ns_strategy ns) options q) \<in> set (raw_refs raw)
    else rp_phrases (process_non_wildcard_query ns options q) = []
      \<or> (q, process_non_wildcard_query ns options q) \<in> set (raw_phrases raw))"

lemma add_items:
  "set (raw_refs raw) \<subseteq> set (raw_refs (add_ref_item raw q r))"
  "set (raw_phrases raw) \<subseteq> set (raw_phrases (add_phrase_item raw q p))"
  "raw_phrases (add_ref_item raw q r) = raw_phrases raw"
  "raw_refs (add_phrase_item raw q p) = raw_refs raw"
  "rr_refs r = [] \<or> (q, r) \<in> set (raw_refs (add_ref_item raw q r))"
  "rp_phrases p = [] \<or> (q, p) \<in> set (raw_phrases (add_phrase_item raw q p))"
  by (auto simp: add_ref_item_def add_phrase_item_def Let_def)

lemma non_wildcard_cache:
  "process_non_wildcard_query (ns\<lparr>ns_cache := c\<rparr>) options q = process_non_wildcard_query ns options q"
  by (simp add: process_non_wildcard_query_def cong: option.case_cong)

lemma search_raw_loop_complete:
  assumes "lfu.entries_ok (fresh_entry (ns_strategy ns) C options) (ns_cache ns)"
    "\<forall>q \<in> set qs. n_has_qmarks q \<longrightarrow> query_ready (ns_strategy ns) C options q"
    "raw_complete ns options Q raw" "search_raw_loop ns options qs raw = Some (raw', ns')"
  shows "raw_complete ns options (Q \<union> set qs) raw'
    \<and> lfu.entries_ok (fresh_entry (ns_strategy ns) C options) (ns_cache ns')"
  using assms
proof (induction qs arbitrary: ns raw Q)
  case (Cons q qs)
  have same: "raw_complete (ns\<lparr>ns_cache := c\<rparr>) options Q' raw1 = raw_complete ns options Q' raw1" for c Q' raw1
    by (simp add: raw_complete_def non_wildcard_cache)
  show ?case
  proof (cases "n_has_qmarks q")
    case True
    let ?r = "process (ns_strategy ns) options q"
    have "query_ready (ns_strategy ns) C options q" using Cons.prems(2) True by simp
    from serve_one [OF Cons.prems(1) this, of "so_max_phrase_count options"]
    obtain c where w: "process_wildcard_query (ns_strategy ns) options q (ns_cache ns) = Some (?r, c)"
        "lfu.entries_ok (fresh_entry (ns_strategy ns) C options) c" by auto
    then have run: "search_raw_loop (ns\<lparr>ns_cache := c\<rparr>) options qs (add_ref_item raw q ?r) = Some (raw', ns')"
      using Cons.prems(4) True by simp
    have "raw_complete ns options (insert q Q) (add_ref_item raw q ?r)"
      using Cons.prems(3) True add_items(1,3,5) unfolding raw_complete_def by fastforce
    then have "raw_complete (ns\<lparr>ns_cache := c\<rparr>) options (insert q Q) (add_ref_item raw q ?r)" by (simp add: same)
    from Cons.IH [OF _ _ this run] show ?thesis using w(2) Cons.prems(2) by (simp add: same)
  next
    case False
    let ?p = "process_non_wildcard_query ns options q"
    have "raw_complete ns options (insert q Q) (add_phrase_item raw q ?p)"
      using Cons.prems(3) False add_items(2,4,6) unfolding raw_complete_def by fastforce
    from Cons.IH [OF Cons.prems(1) _ this] show ?thesis using Cons.prems(2,4) False by simp
  qed
qed simp

section \<open>The merged result\<close>

lemma corpus_id_inj:
  assumes "corpus_ok C"
  shows "inj_on corpus_id {p \<in> C. length (cp_words p) < 2 ^ 32}"
proof (rule inj_onI)
  fix p p' assume p: "p \<in> {p \<in> C. length (cp_words p) < 2 ^ 32}" "p' \<in> {p \<in> C. length (cp_words p) < 2 ^ 32}"
    "corpus_id p = corpus_id p'"
  then have "length (cp_words p) = length (cp_words p')"
    using unat_of_nat_u32 by (metis (mono_tags, lifting) corpus_id_def mem_Collect_eq phrase_id.inject)
  then show "p = p'" using p assms by (auto simp: corpus_ok_def corpus_id_def)
qed

definition refs_within :: "corpus_phrase set \<Rightarrow> raw_result \<Rightarrow> bool" where
  "refs_within C raw \<longleftrightarrow> (\<forall>(q, res) \<in> set (raw_refs raw). length q < 2 ^ 32 \<and> set (rr_refs res) \<subseteq> ref_of ` matching C q)"

lemma matching_id: "p \<in> matching C q \<Longrightarrow> corpus_id p = PhraseId (of_nat (length q)) (cp_id p)"
  by (auto simp: matching_def n_lang_iff corpus_id_def)

lemma merged_refs_phrases:
  assumes "refs_within C raw" "e \<in> set (merge_phrase_refs (raw_refs raw))"
  shows "\<exists>p \<in> {p \<in> C. length (cp_words p) < 2 ^ 32}. mr_id e = corpus_id p \<and> mr_freq e = cp_freq p"
proof -
  obtain q res r where e: "(q, res) \<in> set (raw_refs raw)" "r \<in> set (rr_refs res)"
      "mr_id e = PhraseId (of_nat (length q)) (ref_id r)" "mr_freq e = ref_freq r"
    using merge_phrase_refs_all(2) [of "raw_refs raw"] assms(2) by (fastforce simp: merge_refs_of_def)
  then obtain p where p: "p \<in> matching C q" "r = ref_of p" "length q < 2 ^ 32"
    using assms(1) by (fastforce simp: refs_within_def)
  have "length (cp_words p) = length q" using p(1) by (auto simp: matching_def n_lang_iff)
  then show ?thesis
    using p e matching_id [OF p(1)] by (intro bexI [of _ p]) (auto simp: matching_def)
qed

lemma merged_refs_distinct:
  assumes "corpus_ok C" "refs_within C raw"
  shows "distinct (map mr_id (merge_phrase_refs (raw_refs raw)))"
proof -
  let ?U = "merge_phrase_refs (raw_refs raw)"
  have "mr_id (?U ! i) \<noteq> mr_id (?U ! j)" if "i < j" "j < length ?U" for i j
  proof
    assume eq: "mr_id (?U ! i) = mr_id (?U ! j)"
    have mem: "?U ! i \<in> set ?U" "?U ! j \<in> set ?U" using that by simp_all
    obtain p where p: "p \<in> {p \<in> C. length (cp_words p) < 2 ^ 32}" "mr_id (?U ! i) = corpus_id p" "mr_freq (?U ! i) = cp_freq p"
      using merged_refs_phrases [OF assms(2) mem(1)] by blast
    obtain p' where p': "p' \<in> {p \<in> C. length (cp_words p) < 2 ^ 32}" "mr_id (?U ! j) = corpus_id p'" "mr_freq (?U ! j) = cp_freq p'"
      using merged_refs_phrases [OF assms(2) mem(2)] by blast
    have "p = p'" using inj_onD [OF corpus_id_inj [OF assms(1)] _ p(1) p'(1)] eq p(2) p'(2) by simp
    then have "\<not> merge_ref_less (?U ! i) (?U ! j)" using eq p(3) p'(3) by (simp add: merge_ref_less_def)
    then show False
      using merge_phrase_refs_all(1) [of "raw_refs raw"] that by (simp add: merges.ordered_def sorted_wrt_iff_nth_less)
  qed
  then show ?thesis unfolding distinct_conv_nth by (metis length_map linorder_neqE_nat nth_map)
qed

lemma read_ids:
  assumes "corpus_reads pc C full" "\<forall>x \<in> set rs. \<exists>p \<in> A. mr_id x = corpus_id p" "A \<subseteq> C"
    "read_phrases pc (map mr_id rs) = Some (Inr phrases)"
  shows "length phrases = length rs \<and> (\<forall>i < length rs. \<exists>p \<in> A. mr_id (rs ! i) = corpus_id p
    \<and> ph_id (phrases ! i) = corpus_id p \<and> ph_freq (phrases ! i) = full p)"
proof -
  have "\<exists>ps. set ps \<subseteq> A \<and> map mr_id rs = map corpus_id ps" using assms(2)
  proof (induction rs)
    case (Cons r rs)
    then obtain ps p where "set ps \<subseteq> A" "map mr_id rs = map corpus_id ps" "p \<in> A" "mr_id r = corpus_id p" by auto
    then show ?case by (intro exI [of _ "p # ps"]) simp
  qed simp
  then obtain ps where ps: "set ps \<subseteq> A" "map mr_id rs = map corpus_id ps" by blast
  then have phr: "phrases = map (\<lambda>p. \<lparr>ph_id = corpus_id p, ph_freq = full p, ph_words = cp_words p\<rparr>) ps"
    using assms(1,3,4) by (simp add: corpus_reads_def)
  have len: "length rs = length ps" by (metis length_map ps(2))
  have "mr_id (rs ! i) = corpus_id (ps ! i)" if "i < length rs" for i
    using arg_cong [OF ps(2), of "\<lambda>xs. xs ! i"] that len by simp
  then show ?thesis using ps(1) len by (auto simp: phr subset_iff)
qed

text \<open>A result that is not full has everything that was found, and nothing was cut before.\<close>

lemma merged_complete:
  assumes "corpus_reads pc C full" "corpus_ok C" "refs_within C raw"
    "merge_raw_result pc options raw = Some (Inr res)" "length (res_phrases res) < unat (so_max_phrase_count options)"
  shows "(q, r) \<in> set (raw_refs raw) \<Longrightarrow> p \<in> matching C q \<Longrightarrow> ref_of p \<in> set (rr_refs r) \<Longrightarrow>
      \<exists>it \<in> set (res_phrases res). ph_id (it_phrase it) = corpus_id p \<and> ph_freq (it_phrase it) = full p"
    and "(q, y) \<in> set (raw_phrases raw) \<Longrightarrow> x \<in> set (rp_phrases y) \<Longrightarrow>
      \<exists>it \<in> set (res_phrases res). ph_id (it_phrase it) = ph_id x \<and> ph_freq (it_phrase it) = ph_freq x"
    and "(q, r) \<in> set (raw_refs raw) \<Longrightarrow> card (set (rr_refs r)) < unat (so_max_phrase_count options)"
proof -
  define k where "k = unat (so_max_phrase_count options)"
  define U where "U = merge_phrase_refs (raw_refs raw)"
  define A where "A = {p \<in> C. length (cp_words p) < 2 ^ 32}"
  have "so_max_phrase_count options \<noteq> 0" using assms(5) by auto
  from merge_raw_result_items [OF assms(4) this] obtain phrases where
    m: "read_phrases pc (map mr_id (take k U)) = Some (Inr phrases)"
      "res_phrases res = take k (final_items (take k U) phrases (raw_phrases raw))"
    unfolding k_def U_def by blast
  define fin where "fin = final_items (take k U) phrases (raw_phrases raw)"
  have U: "\<exists>p \<in> A. mr_id e = corpus_id p \<and> mr_freq e = cp_freq p" if "e \<in> set U" for e
    using merged_refs_phrases [OF assms(3)] that by (simp add: A_def U_def)
  have "\<forall>x \<in> set (take k U). \<exists>p \<in> A. mr_id x = corpus_id p" using U by (meson in_set_takeD)
  moreover have "A \<subseteq> C" by (auto simp: A_def)
  ultimately have ids: "length phrases = length (take k U)"
    "\<And>i. i < length (take k U) \<Longrightarrow> \<exists>p \<in> A. mr_id (take k U ! i) = corpus_id p
      \<and> ph_id (phrases ! i) = corpus_id p \<and> ph_freq (phrases ! i) = full p"
    using read_ids [OF assms(1) _ _ m(1), of A] by blast+
  have found: "\<exists>p \<in> A. mr_id (take k U ! i) = corpus_id p
      \<and> (\<exists>it \<in> set fin. ph_id (it_phrase it) = corpus_id p \<and> ph_freq (it_phrase it) = full p)"
    if "i < length (take k U)" for i
  proof -
    have "(take k U ! i, phrases ! i) \<in> set (zip (take k U) phrases)"
      using that ids(1) nth_mem [of i "zip (take k U) phrases"] by simp
    then obtain it where it: "it \<in> set fin" "ph_freq (it_phrase it) = ph_freq (phrases ! i)" "ph_id (it_phrase it) = ph_id (phrases ! i)"
      using final_items_all(2) [of _ "take k U" phrases "raw_phrases raw", folded fin_def] by fastforce
    obtain p where "p \<in> A" "mr_id (take k U ! i) = corpus_id p" "ph_id (phrases ! i) = corpus_id p" "ph_freq (phrases ! i) = full p"
      using ids(2) [OF \<open>i < length (take k U)\<close>] by blast
    then show ?thesis using it by metis
  qed
  have "distinct (map mr_id U)" unfolding U_def by (rule merged_refs_distinct [OF assms(2,3)])
  then have "length (take k U) = card (set (map mr_id (take k U)))"
    by (metis distinct_card distinct_take length_map take_map)
  also have "set (map mr_id (take k U)) \<subseteq> (\<lambda>it. ph_id (it_phrase it)) ` set fin"
  proof
    fix x assume "x \<in> set (map mr_id (take k U))"
    then obtain i where "i < length (take k U)" "x = mr_id (take k U ! i)" by (auto simp: in_set_conv_nth)
    then show "x \<in> (\<lambda>it. ph_id (it_phrase it)) ` set fin" using found [of i] by (metis image_eqI)
  qed
  then have "card (set (map mr_id (take k U))) \<le> card ((\<lambda>it. ph_id (it_phrase it)) ` set fin)" by (intro card_mono) simp_all
  also have "\<dots> \<le> length fin" by (meson card_image_le card_length finite_set le_trans)
  finally have "length (take k U) \<le> length fin" .
  moreover have short: "length fin < k" using assms(5) m(2) by (simp add: k_def fin_def)
  ultimately have all: "take k U = U" "length U < k" by simp_all
  have res: "res_phrases res = fin" using m(2) short by (simp add: fin_def)
  show "\<exists>it \<in> set (res_phrases res). ph_id (it_phrase it) = corpus_id p \<and> ph_freq (it_phrase it) = full p"
    if r: "(q, r) \<in> set (raw_refs raw)" "p \<in> matching C q" "ref_of p \<in> set (rr_refs r)"
  proof -
    have "p \<in> A" using r(1,2) assms(3) by (fastforce simp: refs_within_def A_def matching_def n_lang_iff)
    obtain e where e: "e \<in> set U" "mr_id e = corpus_id p"
      using merge_phrase_refs_all(3) [of "(q, r)" "raw_refs raw" "ref_of p"] r matching_id [OF r(2)] by (auto simp: U_def)
    then obtain i where i: "i < length (take k U)" "take k U ! i = e" unfolding all by (metis in_set_conv_nth)
    then obtain p' it where "p' \<in> A" "corpus_id p' = corpus_id p" "it \<in> set fin"
        "ph_id (it_phrase it) = corpus_id p'" "ph_freq (it_phrase it) = full p'"
      using found [OF i(1)] e(2) by auto
    moreover from this have "p' = p"
      using inj_onD [OF corpus_id_inj [OF assms(2)], of p' p] \<open>p \<in> A\<close> by (simp add: A_def)
    ultimately show ?thesis unfolding res by blast
  qed
  show "\<exists>it \<in> set (res_phrases res). ph_id (it_phrase it) = ph_id x \<and> ph_freq (it_phrase it) = ph_freq x"
    if "(q, y) \<in> set (raw_phrases raw)" "x \<in> set (rp_phrases y)"
    using final_items_all(3) [OF that(1), of x "take k U" phrases, folded fin_def] that(2) unfolding res by auto
  show "card (set (rr_refs r)) < unat (so_max_phrase_count options)" if r: "(q, r) \<in> set (raw_refs raw)"
  proof -
    have m: "set (rr_refs r) \<subseteq> ref_of ` matching C q" using r assms(3) by (auto simp: refs_within_def)
    have "inj_on (\<lambda>x. PhraseId (of_nat (length q)) (ref_id x)) (set (rr_refs r))"
    proof (rule inj_onI)
      fix x y assume xy: "x \<in> set (rr_refs r)" "y \<in> set (rr_refs r)"
        "PhraseId (of_nat (length q)) (ref_id x) = PhraseId (of_nat (length q)) (ref_id y)"
      then obtain p p' where pp: "p \<in> matching C q" "x = ref_of p" "p' \<in> matching C q" "y = ref_of p'" using m by blast
      moreover from this have "p \<in> C" "p' \<in> C" "length (cp_words p) = length (cp_words p')"
        by (simp_all add: matching_def n_lang_iff)
      moreover have "cp_id p = cp_id p'" using xy(3) pp(2,4) by (simp add: ref_of_def entry_of_def to_ref_def)
      ultimately have "p = p'" using assms(2) unfolding corpus_ok_def by blast
      then show "x = y" using pp(2,4) by simp
    qed
    then have "card (set (rr_refs r)) = card ((\<lambda>x. PhraseId (of_nat (length q)) (ref_id x)) ` set (rr_refs r))"
      by (simp add: card_image)
    also have "\<dots> \<le> card (mr_id ` set U)"
    proof (rule card_mono)
      show "(\<lambda>x. PhraseId (of_nat (length q)) (ref_id x)) ` set (rr_refs r) \<subseteq> mr_id ` set U"
      proof
        fix z assume "z \<in> (\<lambda>x. PhraseId (of_nat (length q)) (ref_id x)) ` set (rr_refs r)"
        then obtain y where y: "y \<in> set (rr_refs r)" "z = PhraseId (of_nat (length q)) (ref_id y)" by blast
        have "y \<in> set (rr_refs (snd (q, r)))" using y(1) by simp
        from merge_phrase_refs_all(3) [OF r this]
        obtain e where e: "e \<in> set U" "mr_id e = PhraseId (of_nat (length (fst (q, r)))) (ref_id y)"
          unfolding U_def by blast
        have "z = mr_id e" by (simp only: y(2) e(2) fst_conv)
        then show "z \<in> mr_id ` set U" using e(1) by (rule image_eqI)
      qed
    qed simp
    also have "\<dots> \<le> length U" by (meson card_image_le card_length finite_set le_trans)
    finally show ?thesis using all(2) by (simp add: k_def)
  qed
qed

section \<open>The whole search\<close>

definition dictionary_has :: "netspeak \<Rightarrow> corpus_phrase set \<Rightarrow> (corpus_phrase \<Rightarrow> u64) \<Rightarrow> bool" where
  "dictionary_has ns C full \<longleftrightarrow> (\<forall>p \<in> C. ns_dictionary ns (join_with '' '' (cp_words p)) = Some (full p, cp_id p)
    \<and> ucast (cp_freq p) \<le> full p)"

lemma key_join: "\<not> n_has_qmarks q \<Longrightarrow> norm_query_to_key q = join_with '' '' (map n_text q)"
proof -
  have loop: "\<not> n_has_qmarks us \<Longrightarrow> w @ key_loop us = join_with '' '' (w # map n_text us)" for us w
  proof (induction us arbitrary: w)
    case (Cons u us)
    then show ?case by (cases u) (auto simp: unit_key_def)
  qed simp
  show "\<not> n_has_qmarks q \<Longrightarrow> norm_query_to_key q = join_with '' '' (map n_text q)"
  proof (cases q)
    case (Cons u us)
    assume "\<not> n_has_qmarks q"
    then show ?thesis using loop [of us] Cons by (cases u) (auto simp: norm_query_to_key_def unit_key_def)
  qed (simp add: norm_query_to_key_def)
qed

lemma no_qmarks_words: "\<not> n_has_qmarks q \<Longrightarrow> p \<in> n_lang q \<Longrightarrow> p = map n_text q"
proof -
  have "\<not> n_has_qmarks q \<Longrightarrow> i < length q \<Longrightarrow> \<not> n_is_qmark (q ! i)" for q i
    by (induction q arbitrary: i) (auto simp: nth_Cons' split: if_splits)
  then show "\<not> n_has_qmarks q \<Longrightarrow> p \<in> n_lang q \<Longrightarrow> p = map n_text q"
    by (auto simp: n_lang_iff intro!: nth_equalityI)
qed

lemma n_text_matches: "n_unit_matches u (n_text u)"
  by (cases u) simp_all

lemma search_complete:
  assumes "netspeak_ok ns C full" "corpus_ok C" "dictionary_has ns C full"
    and "lfu.entries_ok (fresh_entry (ns_strategy ns) C s_options) (ns_cache ns)"
    and "parse (sr_query request) = Inr query" "request_ready ns C request query"
    and "to_options ns request = (n_options, s_options)"
    and "normalize (ns_normalizer ns) query n_options [] = Inr nqs" "\<forall>nq \<in> set nqs. n_has_words nq"
    and "search parse ns request = Some (SearchResponse unknown phrases, ns')"
    and "length phrases < unat (sr_max_phrases request)"
    and "p \<in> C" "nq \<in> set nqs" "n_matches nq (cp_words p)" "full p \<le> so_max_phrase_frequency s_options"
  shows "(\<exists>r \<in> set phrases. rp_id r = pid_to_u64 (corpus_id p) \<and> rp_frequency r = full p)
    \<and> lfu.entries_ok (fresh_entry (ns_strategy ns) C s_options) (ns_cache ns')"
proof -
  let ?s = "ns_strategy ns"
  have err: "error_response e \<noteq> SearchResponse u ps" for e u ps by (cases e) simp_all
  obtain raw res where run: "search_raw ns n_options s_options query = Some (Inr raw, ns')"
      "merge_raw_result (ns_corpus ns') s_options raw = Some (Inr res)"
      "SearchResponse unknown phrases = response_of ns' query res"
    using err by (cases rule: search_cases [OF assms(5,7,10)]) metis+
  have loop: "search_raw_loop ns s_options nqs empty_result = Some (raw, ns')"
    using run(1) assms(8) by (auto simp: search_raw_def)
  have ready: "\<forall>q \<in> set nqs. n_has_qmarks q \<longrightarrow> query_ready ?s C s_options q"
    using assms(6,7,8) by (auto simp: request_ready_def)
  have sound: "lfu.entries_ok (sound_entry C) (ns_cache ns)"
    using assms(1) by (simp add: netspeak_ok_def)
  have "raw_complete ns s_options {} empty_result" by (simp add: raw_complete_def)
  from search_raw_loop_complete [OF assms(4) ready this loop]
  have complete: "raw_complete ns s_options (set nqs) raw"
    "lfu.entries_ok (fresh_entry ?s C s_options) (ns_cache ns')" by simp_all
  have "raw_sound C (set nqs) empty_result" by (simp add: raw_sound_def empty_result_def)
  from search_raw_loop_sound [OF sound ready this order_refl loop]
  have raw: "raw_sound C (set nqs) raw" "ns_corpus ns' = ns_corpus ns" by auto
  have w: "q_width (nz_env (ns_normalizer ns) n_options) query < 2 ^ 32 - 1"
    using assms(6,7) by (simp add: request_ready_def)
  have short: "length q < 2 ^ 32" if "q \<in> set nqs" for q
  proof -
    have "n_matches q (map n_text q)"
      by (simp add: n_matches_def list_all2_conv_all_nth) (metis n_text_matches)
    from normalize_sound(2) [OF assms(8) w that this] show ?thesis
      using unat_u32_less [of "no_max_length n_options"] by simp
  qed
  have within: "refs_within C raw" using raw(1) short by (fastforce simp: refs_within_def raw_sound_def)
  have phrases: "phrases = map (set_response_phrase query) (res_phrases res)"
    using run(3) by (simp add: response_of_def)
  have count: "so_max_phrase_count s_options = sr_max_phrases request"
    using assms(7) by (auto simp: to_options_def Let_def)
  have not_full: "length (res_phrases res) < unat (so_max_phrase_count s_options)"
    using assms(11) by (simp add: count phrases)
  have reads: "corpus_reads (ns_corpus ns) C full" using assms(1) by (simp add: netspeak_ok_def)
  note merged = merged_complete [OF reads assms(2) within run(2) [unfolded raw(2)] not_full]
  have lang: "cp_words p \<in> n_lang nq" using assms(14) by (simp add: n_lang_def)
  have "\<exists>it \<in> set (res_phrases res). ph_id (it_phrase it) = corpus_id p \<and> ph_freq (it_phrase it) = full p"
  proof (cases "n_has_qmarks nq")
    case False
    have words: "cp_words p = map n_text nq" by (rule no_qmarks_words [OF False lang])
    then have "ns_dictionary ns (norm_query_to_key nq) = Some (full p, cp_id p)"
      using assms(3,12) key_join [OF False] unfolding dictionary_has_def by metis
    moreover have "so_max_phrase_count s_options > 0"
      using not_full by (metis less_nat_zero_code unat_0 word_gt_0)
    ultimately have y: "rp_phrases (process_non_wildcard_query ns s_options nq)
        = [\<lparr>ph_id = PhraseId (of_nat (length nq)) (cp_id p), ph_freq = full p, ph_words = map n_text nq\<rparr>]"
      using assms(15) by (simp add: process_non_wildcard_query_def)
    then have "(nq, process_non_wildcard_query ns s_options nq) \<in> set (raw_phrases raw)"
      using complete(1) assms(13) False by (auto simp: raw_complete_def)
    from merged(2) [OF this, of "\<lparr>ph_id = PhraseId (of_nat (length nq)) (cp_id p), ph_freq = full p, ph_words = map n_text nq\<rparr>"]
    show ?thesis using y words by (simp add: corpus_id_def)
  next
    case True
    have hw: "n_has_words nq" using assms(9,13) by blast
    then have qr: "search_ready ?s C s_options nq" using ready True assms(13) by (simp add: query_ready_def)
    obtain F unk where F: "\<forall>k. process ?s (s_options\<lparr>so_max_phrase_count := k\<rparr>) nq
        = \<lparr>rr_refs = map to_ref (take (unat k) F), rr_unknown_words = unk\<rparr>"
      "posting_list F" "set F = entry_of ` accepted C s_options nq"
      using process_counts [of nq ?s C s_options] qr hw by blast
    define k where "k = unat (so_max_phrase_count s_options)"
    have refs: "rr_refs (process ?s s_options nq) = map to_ref (take k F)"
      using F(1) [THEN spec, of "so_max_phrase_count s_options"] by (simp add: k_def)
    have "ucast (cp_freq p) \<le> so_max_phrase_frequency s_options"
      using assms(3,12,15) unfolding dictionary_has_def by (meson order_trans)
    then have p: "entry_of p \<in> set F" using F(3) lang assms(12) by (auto simp: accepted_def)
    have ne: "rr_refs (process ?s s_options nq) \<noteq> []" using p not_full refs by (auto simp: k_def)
    then have item: "(nq, process ?s s_options nq) \<in> set (raw_refs raw)"
      using complete(1) assms(13) True by (auto simp: raw_complete_def)
    have "length F \<le> k"
    proof (rule ccontr)
      assume "\<not> length F \<le> k"
      then have "length (take k F) = k" by simp
      moreover have "distinct (map to_ref F)"
        using F(2) by (auto simp: posting_list_def distinct_map inj_on_def to_ref_def)
      then have "distinct (map to_ref (take k F))" by (simp add: take_map [symmetric] distinct_take)
      ultimately have "card (set (rr_refs (process ?s s_options nq))) = k"
        by (metis distinct_card length_map refs)
      then show False using merged(3) [OF item] by (simp add: k_def)
    qed
    then have "ref_of p \<in> set (rr_refs (process ?s s_options nq))" using p by (simp add: refs ref_of_def)
    moreover have "p \<in> matching C nq" using lang assms(12) by (simp add: matching_def)
    ultimately show ?thesis using merged(1) [OF item] by blast
  qed
  then obtain it where it: "it \<in> set (res_phrases res)" "ph_id (it_phrase it) = corpus_id p"
    "ph_freq (it_phrase it) = full p" by blast
  have "set_response_phrase query it \<in> set phrases" using it(1) by (simp add: phrases)
  moreover have "rp_id (set_response_phrase query it) = pid_to_u64 (corpus_id p)"
    "rp_frequency (set_response_phrase query it) = full p"
    using it(2,3) by (simp_all add: set_response_phrase_def Let_def)
  ultimately show ?thesis using complete(2) by blast
qed

section \<open>The property\<close>


definition ex_full_netspeak :: netspeak where
  "ex_full_netspeak = ex_netspeak\<lparr>ns_dictionary := [''the big cat'' \<mapsto> (10, 0), ''the old cat'' \<mapsto> (20, 1),
    ''a big cat'' \<mapsto> (30, 2), ''the big dog'' \<mapsto> (40, 3)]\<rparr>"

lemma ex_full_search: "map_option fst (search ex_parse ex_full_netspeak ex_request) = Some (SearchResponse []
    [\<lparr>rp_id = 12884901889, rp_frequency = 20, rp_words = [(''the'', WordTag), (''old'', WordForQmark), (''cat'', WordTag)]\<rparr>,
     \<lparr>rp_id = 12884901888, rp_frequency = 10, rp_words = [(''the'', WordTag), (''big'', WordForQmark), (''cat'', WordTag)]\<rparr>])"
  by code_simp

lemma ex_full_options: "to_options ex_full_netspeak r = to_options ex_netspeak r"
  by (simp add: to_options_def ex_full_netspeak_def)


end
