(* ===== verification/Query_Constructor.thy ===== *)
theory Query_Constructor
  imports Query_Model
begin

text \<open>
  \<open>antlr4/parse.cpp\<close>: unescaping of words and the listener \<open>QueryConstructor\<close>, which builds the
  query tree while ANTLR walks over the parse tree, and \<open>parse_query\<close>.

  The units are shared objects that are changed after they were attached to their parent, so the
  model has a store: a list of unit objects, a pointer is an index.  The generated parser and the
  tree walker are a parameter, the sequence of listener calls for a query text.  The grammar
  \<open>Query.g4\<close> is a group of datatypes, one constructor per alternative, from which the documented
  depth-first order of the calls is derived.
\<close>

section \<open>Unescaping\<close>

text \<open>The loop of \<open>unescape_word\<close> over the string, which is overwritten in place.\<close>

function unescape_loop :: "nat \<Rightarrow> nat \<Rightarrow> string \<Rightarrow> string" where
  "unescape_loop i write_i word =
    (if i < length word
     then let c = word ! i in
       if c = CHR 0x5C \<and> i + 1 < length word
       then unescape_loop (i + 2) (write_i + 1) (word[write_i := word ! (i + 1)])
       else unescape_loop (i + 1) (write_i + 1) (word[write_i := c])
     else take write_i word)"
  by auto
termination by (relation "measure (\<lambda>(i, write_i, word). length word - i)") auto

declare unescape_loop.simps [simp del]

definition unescape_word :: "string \<Rightarrow> string" where
  "unescape_word word = unescape_loop 0 0 word"

text \<open>The reference: a backslash stands for the next character, if there is one.\<close>

fun unescaped :: "string \<Rightarrow> string" where
  "unescaped [] = []"
| "unescaped [c] = [c]"
| "unescaped (c # d # w) = (if c = CHR 0x5C then d # unescaped w else c # unescaped (d # w))"

lemma unescape_loop_unescaped:
  "write_i \<le> i \<Longrightarrow> unescape_loop i write_i word = take write_i word @ unescaped (drop i word)"
proof (induction i write_i word rule: unescape_loop.induct)
  case (1 i write_i word)
  show ?case
  proof (cases "i < length word")
    case True
    then have d: "drop i word = word ! i # drop (Suc i) word" by (simp add: Cons_nth_drop_Suc)
    show ?thesis
    proof (cases "word ! i = CHR 0x5C \<and> i + 1 < length word")
      case esc: True
      then have "drop (Suc i) word = word ! Suc i # drop (i + 2) word" by (simp add: Cons_nth_drop_Suc)
      then have "unescaped (drop i word) = word ! Suc i # unescaped (drop (i + 2) word)"
        unfolding d using esc by simp
      moreover have "write_i < length word" using "1.prems" True by simp
      ultimately show ?thesis
        using "1.IH"(1) [OF True refl esc] "1.prems" esc
        by (simp add: unescape_loop.simps [of i write_i word] Let_def take_Suc_conv_app_nth drop_update_cancel)
    next
      case False
      then have "unescaped (drop i word) = word ! i # unescaped (drop (Suc i) word)"
        using True unfolding d by (cases "drop (Suc i) word") auto
      moreover have "write_i < length word" using "1.prems" True by simp
      ultimately show ?thesis
        using "1.IH"(2) [OF True refl False] "1.prems" False True
        by (auto simp: unescape_loop.simps [of i write_i word] Let_def take_Suc_conv_app_nth drop_update_cancel)
    qed
  qed (simp add: unescape_loop.simps [of i write_i word])
qed

lemma unescape_word_unescaped: "unescape_word word = unescaped word"
  using unescape_loop_unescaped [of 0 0 word] by (simp add: unescape_word_def)

text \<open>Escaping every character is undone; a word without backslashes is left alone.\<close>

fun escaped :: "string \<Rightarrow> string" where
  "escaped [] = []"
| "escaped (c # w) = CHR 0x5C # c # escaped w"

lemma unescaped_escaped: "unescaped (escaped w) = w"
  by (induction w) auto

lemma unescaped_plain: "CHR 0x5C \<notin> set w \<Longrightarrow> unescaped w = w"
  by (induction w rule: unescaped.induct) auto

lemma length_unescaped: "length (unescaped w) \<le> length w \<and> length w \<le> 2 * length (unescaped w)"
  by (induction w rule: unescaped.induct) (auto simp: numeral_2_eq_2)

section \<open>Unit objects\<close>

datatype unit_tag = TagWord | TagQMark | TagStar | TagPlus | TagRegex | TagDictSet
  | TagOrderSet | TagOptionSet | TagAlternation | TagConcat

record unit_object =
  uo_tag :: unit_tag
  uo_text :: string
  uo_children :: "nat list"
  uo_parent :: "nat option"

type_synonym unit_store = "unit_object list"

fun is_terminal_tag :: "unit_tag \<Rightarrow> bool" where
  "is_terminal_tag TagWord = True"
| "is_terminal_tag TagQMark = True"
| "is_terminal_tag TagStar = True"
| "is_terminal_tag TagPlus = True"
| "is_terminal_tag TagRegex = True"
| "is_terminal_tag TagDictSet = True"
| "is_terminal_tag _ = False"

definition terminal_object :: "unit_tag \<Rightarrow> string \<Rightarrow> unit_object" where
  "terminal_object tag t = \<lparr>uo_tag = tag, uo_text = t, uo_children = [], uo_parent = None\<rparr>"

definition non_terminal_object :: "unit_tag \<Rightarrow> unit_object" where
  "non_terminal_object tag = \<lparr>uo_tag = tag, uo_text = '''', uo_children = [], uo_parent = None\<rparr>"

definition add_child :: "unit_store \<Rightarrow> nat \<Rightarrow> nat \<Rightarrow> unit_store result" where
  "add_child store p c =
    (if is_terminal_tag (uo_tag (store ! p)) then Inl (LogicError ''A non-terminal cannot have children.'')
     else if uo_parent (store ! c) \<noteq> None then Inl (LogicError ''The unit is already has a parent.'')
     else let store' = store[c := (store ! c)\<lparr>uo_parent := Some p\<rparr>]
       in Inr (store'[p := (store' ! p)\<lparr>uo_children := uo_children (store' ! p) @ [c]\<rparr>]))"

section \<open>\<open>QueryConstructor\<close>\<close>

record constructor =
  qc_store :: unit_store
  qc_stack :: "nat list"
  qc_query :: "nat option"
  qc_in_dictset :: bool

definition new_constructor :: constructor where
  "new_constructor = \<lparr>qc_store = [], qc_stack = [], qc_query = None, qc_in_dictset = False\<rparr>"

definition MAX_STACK_SIZE :: nat where
  "MAX_STACK_SIZE = 30"

text \<open>The top of the stack is the last element; \<open>None\<close> is the access to the top of an empty stack.\<close>

definition push_stack :: "unit_object \<Rightarrow> constructor \<Rightarrow> constructor result option" where
  "push_stack u s =
    (if qc_stack s = [] then None
     else let c = length (qc_store s) in
       case add_child (qc_store s @ [u]) (List.last (qc_stack s)) c of
         Inl e \<Rightarrow> Some (Inl e)
       | Inr store \<Rightarrow>
           let stack = qc_stack s @ [c] in
           if length stack > MAX_STACK_SIZE then Some (Inl (InvalidQuery ''The query is too deeply nested''))
           else Some (Inr (s\<lparr>qc_store := store, qc_stack := stack\<rparr>)))"

definition pop_stack :: "constructor \<Rightarrow> constructor result" where
  "pop_stack s =
    (if length (qc_stack s) \<le> 1 then Inl (LogicError ''Some operation either pushed too little or popped too much.'')
     else Inr (s\<lparr>qc_stack := butlast (qc_stack s)\<rparr>))"

datatype grammar_rule = RQuery | RUnits | RUnit | ROptionset | ROrderset | RDictset | RPhrase
  | RAsterisk | RRegexword | RWord | RQmark | RPlus | RAssociation

text \<open>A call of the listener; the text is \<open>getText()\<close> of the context.\<close>

datatype listener_call = Enter grammar_rule string | Exit grammar_rule

fun enter_rule :: "grammar_rule \<Rightarrow> string \<Rightarrow> constructor \<Rightarrow> constructor result option" where
  "enter_rule RQuery t s = (let q = length (qc_store s) in
     Some (Inr (s\<lparr>qc_store := qc_store s @ [non_terminal_object TagAlternation], qc_query := Some q, qc_stack := [q]\<rparr>)))"
| "enter_rule RUnits t s = push_stack (non_terminal_object TagConcat) s"
| "enter_rule RUnit t s = Some (Inr s)"
| "enter_rule ROptionset t s = push_stack (non_terminal_object TagOptionSet) s"
| "enter_rule ROrderset t s = push_stack (non_terminal_object TagOrderSet) s"
| "enter_rule RDictset t s = Some (Inr (s\<lparr>qc_in_dictset := True\<rparr>))"
| "enter_rule RPhrase t s = push_stack (non_terminal_object TagConcat) s"
| "enter_rule RAsterisk t s = push_stack (terminal_object TagStar t) s"
| "enter_rule RRegexword t s = push_stack (terminal_object TagRegex t) s"
| "enter_rule RWord t s = (let w = unescape_word t in
     if qc_in_dictset s then push_stack (terminal_object TagDictSet w) s
     else push_stack (terminal_object TagWord w) s)"
| "enter_rule RQmark t s = push_stack (terminal_object TagQMark t) s"
| "enter_rule RPlus t s = push_stack (terminal_object TagPlus t) s"
| "enter_rule RAssociation t s = Some (Inr s)"

fun exit_rule :: "grammar_rule \<Rightarrow> constructor \<Rightarrow> constructor result" where
  "exit_rule RQuery s =
    (if length (qc_stack s) \<noteq> 1 then Inl (LogicError ''Some operation either pushed too much or popped too little.'')
     else Inr s)"
| "exit_rule RUnits s = pop_stack s"
| "exit_rule RUnit s = Inr s"
| "exit_rule ROptionset s = pop_stack s"
| "exit_rule ROrderset s = pop_stack s"
| "exit_rule RDictset s = Inr (s\<lparr>qc_in_dictset := False\<rparr>)"
| "exit_rule RPhrase s = pop_stack s"
| "exit_rule RAsterisk s = pop_stack s"
| "exit_rule RRegexword s = pop_stack s"
| "exit_rule RWord s = pop_stack s"
| "exit_rule RQmark s = pop_stack s"
| "exit_rule RPlus s = pop_stack s"
| "exit_rule RAssociation s = Inr s"

fun listen :: "listener_call \<Rightarrow> constructor \<Rightarrow> constructor result option" where
  "listen (Enter r t) s = enter_rule r t s"
| "listen (Exit r) s = Some (exit_rule r s)"

fun construct :: "listener_call list \<Rightarrow> constructor \<Rightarrow> constructor result option" where
  "construct [] s = Some (Inr s)"
| "construct (c # cs) s =
    (case listen c s of None \<Rightarrow> None | Some (Inl e) \<Rightarrow> Some (Inl e) | Some (Inr s') \<Rightarrow> construct cs s')"

text \<open>\<open>parse_query\<close>; the argument is the generated parser with the walker over its tree.\<close>

definition parse_query :: "(string \<Rightarrow> listener_call list result) \<Rightarrow> string \<Rightarrow> (unit_store \<times> nat option) result option" where
  "parse_query walk_parser query =
    (if length query > 2000 then Some (Inl (InvalidQuery ''Query too long''))
     else case walk_parser query of
       Inl e \<Rightarrow> Some (Inl e)
     | Inr calls \<Rightarrow>
         (case construct calls new_constructor of
            None \<Rightarrow> None
          | Some (Inl e) \<Rightarrow> Some (Inl e)
          | Some (Inr s) \<Rightarrow> Some (Inr (qc_store s, qc_query s))))"

section \<open>The grammar\<close>

text \<open>The rules of \<open>Query.g4\<close>; a token is its text.\<close>

datatype item_rule = WordItem string | RegexItem string

datatype element_rule = ItemElement item_rule | PhraseElement "item_rule list"

datatype unit_rule = ItemUnit item_rule | OptionsetUnit "element_rule list" | OrdersetUnit "element_rule list"
  | DictsetUnit string | QmarkUnit | PlusUnit | AsteriskUnit string

type_synonym query_rule = "unit_rule list list"

fun item_text :: "item_rule \<Rightarrow> string" where
  "item_text (WordItem w) = w"
| "item_text (RegexItem r) = r"

fun element_text :: "element_rule \<Rightarrow> string" where
  "element_text (ItemElement i) = item_text i"
| "element_text (PhraseElement is) = [CHR 0x22] @ concat (map item_text is) @ [CHR 0x22]"

fun unit_text :: "unit_rule \<Rightarrow> string" where
  "unit_text (ItemUnit i) = item_text i"
| "unit_text (OptionsetUnit es) = ''['' @ concat (map element_text es) @ '']''"
| "unit_text (OrdersetUnit es) = ''{'' @ concat (map element_text es) @ ''}''"
| "unit_text (DictsetUnit w) = ''#'' @ w"
| "unit_text QmarkUnit = ''?''"
| "unit_text PlusUnit = ''+''"
| "unit_text (AsteriskUnit t) = t"

text \<open>The calls of a depth-first walk.\<close>

definition visit :: "grammar_rule \<Rightarrow> string \<Rightarrow> listener_call list \<Rightarrow> listener_call list" where
  "visit r t body = Enter r t # body @ [Exit r]"

fun item_calls :: "item_rule \<Rightarrow> listener_call list" where
  "item_calls (WordItem w) = visit RWord w []"
| "item_calls (RegexItem r) = visit RRegexword r []"

fun element_calls :: "element_rule \<Rightarrow> listener_call list" where
  "element_calls (ItemElement i) = item_calls i"
| "element_calls (PhraseElement is) = visit RPhrase (element_text (PhraseElement is)) (concat (map item_calls is))"

fun inner_calls :: "unit_rule \<Rightarrow> listener_call list" where
  "inner_calls (ItemUnit i) = item_calls i"
| "inner_calls (OptionsetUnit es) = visit ROptionset (unit_text (OptionsetUnit es)) (concat (map element_calls es))"
| "inner_calls (OrdersetUnit es) = visit ROrderset (unit_text (OrdersetUnit es)) (concat (map element_calls es))"
| "inner_calls (DictsetUnit w) = visit RDictset (unit_text (DictsetUnit w)) (visit RWord w [])"
| "inner_calls QmarkUnit = visit RQmark ''?'' []"
| "inner_calls PlusUnit = visit RPlus ''+'' []"
| "inner_calls (AsteriskUnit t) = visit RAsterisk t []"

definition unit_calls :: "unit_rule \<Rightarrow> listener_call list" where
  "unit_calls u = visit RUnit (unit_text u) (inner_calls u)"

definition units_calls :: "unit_rule list \<Rightarrow> listener_call list" where
  "units_calls us = visit RUnits (concat (map unit_text us)) (concat (map unit_calls us))"

fun query_calls :: "query_rule \<Rightarrow> string \<Rightarrow> listener_call list" where
  "query_calls [] t = visit RQuery t []"
| "query_calls (us # uss) t =
    visit RQuery t (units_calls us @ concat (map (\<lambda>us. visit RAssociation ''|'' [] @ units_calls us) uss))"

text \<open>The tree that a text of the grammar stands for.\<close>

fun item_query :: "item_rule \<Rightarrow> qunit" where
  "item_query (WordItem w) = QWord (unescaped w)"
| "item_query (RegexItem r) = QRegex r"

fun element_query :: "element_rule \<Rightarrow> qunit" where
  "element_query (ItemElement i) = item_query i"
| "element_query (PhraseElement is) = QConcat (map item_query is)"

fun unit_query :: "unit_rule \<Rightarrow> qunit" where
  "unit_query (ItemUnit i) = item_query i"
| "unit_query (OptionsetUnit es) = QOptionSet (map element_query es)"
| "unit_query (OrdersetUnit es) = QOrderSet (map element_query es)"
| "unit_query (DictsetUnit w) = QDictSet (unescaped w)"
| "unit_query QmarkUnit = QQMark ''?''"
| "unit_query PlusUnit = QPlus ''+''"
| "unit_query (AsteriskUnit t) = QStar t"

definition rule_query :: "query_rule \<Rightarrow> qunit" where
  "rule_query uss = QAlternation (map (\<lambda>us. QConcat (map unit_query us)) uss)"

section \<open>What a store represents\<close>

fun unit_of :: "unit_tag \<Rightarrow> string \<Rightarrow> qunit list \<Rightarrow> qunit" where
  "unit_of TagWord t cs = QWord t"
| "unit_of TagQMark t cs = QQMark t"
| "unit_of TagStar t cs = QStar t"
| "unit_of TagPlus t cs = QPlus t"
| "unit_of TagRegex t cs = QRegex t"
| "unit_of TagDictSet t cs = QDictSet t"
| "unit_of TagOrderSet t cs = QOrderSet cs"
| "unit_of TagOptionSet t cs = QOptionSet cs"
| "unit_of TagAlternation t cs = QAlternation cs"
| "unit_of TagConcat t cs = QConcat cs"

text \<open>The object \<open>i\<close> is the root of the tree \<open>u\<close>, whose objects are at \<open>n\<close> or above.\<close>

inductive unit_at :: "unit_store \<Rightarrow> nat \<Rightarrow> nat \<Rightarrow> qunit \<Rightarrow> bool" where
  "n \<le> i \<Longrightarrow> i < length store \<Longrightarrow> list_all2 (unit_at store n) (uo_children (store ! i)) cs \<Longrightarrow>
    unit_at store n i (unit_of (uo_tag (store ! i)) (uo_text (store ! i)) cs)"

inductive_cases unit_atE: "unit_at store n i u"

lemma unit_at_mono:
  "unit_at store n i u \<Longrightarrow> m \<le> n \<Longrightarrow> length store \<le> length store' \<Longrightarrow>
    (\<And>j. n \<le> j \<Longrightarrow> j < length store \<Longrightarrow> store' ! j = store ! j) \<Longrightarrow> unit_at store' m i u"
proof (induction rule: unit_at.induct)
  case (1 n i store cs)
  have "list_all2 (unit_at store' m) (uo_children (store ! i)) cs"
    using 1(3)
  proof (rule list_all2_mono)
    fix c u
    assume "unit_at store n c u \<and> (m \<le> n \<longrightarrow> length store \<le> length store' \<longrightarrow>
      (\<forall>j. n \<le> j \<longrightarrow> j < length store \<longrightarrow> store' ! j = store ! j) \<longrightarrow> unit_at store' m c u)"
    then show "unit_at store' m c u" using "1.prems" by simp
  qed
  moreover have "store' ! i = store ! i" using "1.prems"(3) [OF 1(1,2)] .
  ultimately have "list_all2 (unit_at store' m) (uo_children (store' ! i)) cs" by simp
  moreover have "m \<le> i" "i < length store'" using 1(1,2) "1.prems"(1,2) by linarith+
  ultimately have "unit_at store' m i (unit_of (uo_tag (store' ! i)) (uo_text (store' ! i)) cs)"
    by (intro unit_at.intros)
  then show ?case unfolding \<open>store' ! i = store ! i\<close> .
qed

lemma unit_at_unique: "unit_at store n i u \<Longrightarrow> unit_at store n i v \<Longrightarrow> u = v"
proof (induction arbitrary: v rule: unit_at.induct)
  case (1 n i store cs)
  from "1.prems" show ?case
  proof (rule unit_atE)
    fix ds assume v: "v = unit_of (uo_tag (store ! i)) (uo_text (store ! i)) ds"
      "list_all2 (unit_at store n) (uo_children (store ! i)) ds"
    have "cs = ds"
    proof (rule nth_equalityI)
      show "length cs = length ds" using list_all2_lengthD [OF 1(3)] list_all2_lengthD [OF v(2)] by simp
      fix k assume "k < length cs"
      then have k: "k < length (uo_children (store ! i))" using list_all2_lengthD [OF 1(3)] by simp
      show "cs ! k = ds ! k" using list_all2_nthD [OF 1(3) k] list_all2_nthD [OF v(2) k] by blast
    qed
    then show ?thesis using v(1) by simp
  qed
qed

section \<open>The walk builds the tree\<close>

text \<open>The store has grown, and of the old objects only \<open>p\<close> has changed: it has the children \<open>cs\<close> more.\<close>

definition extends :: "unit_store \<Rightarrow> nat \<Rightarrow> nat list \<Rightarrow> unit_store \<Rightarrow> bool" where
  "extends store p cs store' \<longleftrightarrow> length store \<le> length store'
    \<and> (\<forall>i < length store. i \<noteq> p \<longrightarrow> store' ! i = store ! i)
    \<and> store' ! p = (store ! p)\<lparr>uo_children := uo_children (store ! p) @ cs\<rparr>"

lemma extends_refl: "extends store p [] store"
  by (simp add: extends_def)

lemma extends_trans:
  "extends store p cs store' \<Longrightarrow> extends store' p ds store'' \<Longrightarrow> extends store p (cs @ ds) store''"
  by (auto simp: extends_def)

text \<open>
  With room for \<open>d\<close> more levels, the calls leave the stack as it was and attach the units \<open>us\<close> to
  the unit on its top.
\<close>

definition adds :: "bool \<Rightarrow> listener_call list \<Rightarrow> nat \<Rightarrow> qunit list \<Rightarrow> bool" where
  "adds b calls d us \<longleftrightarrow> (\<forall>(s :: constructor) st p. qc_stack s = st @ [p] \<longrightarrow> p < length (qc_store s) \<longrightarrow>
    \<not> is_terminal_tag (uo_tag (qc_store s ! p)) \<longrightarrow> length st + 1 + d \<le> MAX_STACK_SIZE \<longrightarrow> qc_in_dictset s = b \<longrightarrow>
    (\<exists>store' cs. construct calls s = Some (Inr (s\<lparr>qc_store := store'\<rparr>)) \<and> extends (qc_store s) p cs store'
      \<and> list_all2 (unit_at store' (length (qc_store s))) cs us))"

lemma construct_append: "construct (xs @ ys) s =
    (case construct xs s of None \<Rightarrow> None | Some (Inl e) \<Rightarrow> Some (Inl e) | Some (Inr s') \<Rightarrow> construct ys s')"
  by (induction xs arbitrary: s) (auto split: option.splits sum.splits)

lemma adds_Nil: "adds b [] d []"
  unfolding adds_def
proof (intro allI impI)
  fix s :: constructor and st p
  have "construct [] s = Some (Inr (s\<lparr>qc_store := qc_store s\<rparr>))" by simp
  then show "\<exists>store' cs. construct [] s = Some (Inr (s\<lparr>qc_store := store'\<rparr>)) \<and> extends (qc_store s) p cs store'
      \<and> list_all2 (unit_at store' (length (qc_store s))) cs []"
    using extends_refl by blast
qed

lemma adds_append:
  assumes "adds b xs d us" "adds b ys d vs"
  shows "adds b (xs @ ys) d (us @ vs)"
  unfolding adds_def
proof (intro allI impI)
  fix s :: constructor and st p
  assume s: "qc_stack s = st @ [p]" "p < length (qc_store s)" "\<not> is_terminal_tag (uo_tag (qc_store s ! p))"
    "length st + 1 + d \<le> MAX_STACK_SIZE" "qc_in_dictset s = b"
  obtain store1 cs where 1: "construct xs s = Some (Inr (s\<lparr>qc_store := store1\<rparr>))" "extends (qc_store s) p cs store1"
    "list_all2 (unit_at store1 (length (qc_store s))) cs us"
    using assms(1) s unfolding adds_def by blast
  have p: "p < length store1" "uo_tag (store1 ! p) = uo_tag (qc_store s ! p)"
    using 1(2) s(2) by (auto simp: extends_def)
  obtain store2 ds where 2: "construct ys (s\<lparr>qc_store := store1\<rparr>) = Some (Inr (s\<lparr>qc_store := store2\<rparr>))"
    "extends store1 p ds store2" "list_all2 (unit_at store2 (length store1)) ds vs"
    using assms(2) [unfolded adds_def, rule_format, of "s\<lparr>qc_store := store1\<rparr>" st p] s p by auto
  have grow: "length (qc_store s) \<le> length store1" "length store1 \<le> length store2"
    using 1(2) 2(2) by (auto simp: extends_def)
  have "list_all2 (unit_at store2 (length (qc_store s))) cs us"
    using 1(3)
  proof (rule list_all2_mono)
    fix c u assume "unit_at store1 (length (qc_store s)) c u"
    then show "unit_at store2 (length (qc_store s)) c u"
      by (rule unit_at_mono) (use 2(2) grow s(2) in \<open>auto simp: extends_def\<close>)
  qed
  moreover have "list_all2 (unit_at store2 (length (qc_store s))) ds vs"
    using 2(3) by (rule list_all2_mono) (use grow(1) in \<open>blast intro: unit_at_mono\<close>)
  ultimately have "list_all2 (unit_at store2 (length (qc_store s))) (cs @ ds) (us @ vs)" by (rule list_all2_appendI)
  then show "\<exists>store' cs. construct (xs @ ys) s = Some (Inr (s\<lparr>qc_store := store'\<rparr>)) \<and> extends (qc_store s) p cs store'
      \<and> list_all2 (unit_at store' (length (qc_store s))) cs (us @ vs)"
    using 1(1) 2(1) extends_trans [OF 1(2) 2(2)] by (auto simp: construct_append)
qed

lemma adds_concat: "(\<And>x. x \<in> set xs \<Longrightarrow> adds b (f x) d [g x]) \<Longrightarrow> adds b (concat (map f xs)) d (map g xs)"
proof (induction xs)
  case (Cons x xs)
  then have "adds b (f x @ concat (map f xs)) d ([g x] @ map g xs)" by (intro adds_append) auto
  then show ?case by simp
qed (simp add: adds_Nil)

lemma adds_le: "adds b xs d us \<Longrightarrow> d \<le> d' \<Longrightarrow> adds b xs d' us"
  by (auto simp: adds_def)

lemma push_ok:
  fixes s :: constructor
  assumes "qc_stack s = st @ [p]" "p < length (qc_store s)" "\<not> is_terminal_tag (uo_tag (qc_store s ! p))"
    "length st + 2 \<le> MAX_STACK_SIZE" "uo_children u = []" "uo_parent u = None"
  obtains store' where "push_stack u s = Some (Inr (s\<lparr>qc_store := store', qc_stack := st @ [p, length (qc_store s)]\<rparr>))"
    "length store' = Suc (length (qc_store s))" "extends (qc_store s) p [length (qc_store s)] store'"
    "store' ! length (qc_store s) = u\<lparr>uo_parent := Some p\<rparr>"
proof -
  let ?n = "length (qc_store s)"
  let ?store' = "(qc_store s @ [u\<lparr>uo_parent := Some p\<rparr>])[p := (qc_store s ! p)\<lparr>uo_children := uo_children (qc_store s ! p) @ [?n]\<rparr>]"
  have "add_child (qc_store s @ [u]) p ?n = Inr ?store'"
    using assms by (simp add: add_child_def nth_append Let_def)
  then have "push_stack u s = Some (Inr (s\<lparr>qc_store := ?store', qc_stack := st @ [p, ?n]\<rparr>))"
    using assms by (simp add: push_stack_def Let_def)
  then show ?thesis
    by (rule that) (use assms in \<open>auto simp: extends_def nth_append nth_list_update\<close>)
qed

lemma adds_node:
  assumes "\<And>s. qc_in_dictset s = b \<Longrightarrow> enter_rule r t s = push_stack u s" "\<And>s. exit_rule r s = pop_stack s"
    and "uo_children u = []" "uo_parent u = None"
    and "body = [] \<and> us = [] \<or> \<not> is_terminal_tag (uo_tag u) \<and> adds b body d us"
  shows "adds b (visit r t body) (Suc d) [unit_of (uo_tag u) (uo_text u) us]"
  unfolding adds_def
proof (intro allI impI)
  fix s :: constructor and st p
  let ?n = "length (qc_store s)"
  assume s: "qc_stack s = st @ [p]" "p < ?n" "\<not> is_terminal_tag (uo_tag (qc_store s ! p))"
    "length st + 1 + Suc d \<le> MAX_STACK_SIZE" "qc_in_dictset s = b"
  obtain store1 where 1: "push_stack u s = Some (Inr (s\<lparr>qc_store := store1, qc_stack := st @ [p, ?n]\<rparr>))"
    "length store1 = Suc ?n" "extends (qc_store s) p [?n] store1" "store1 ! ?n = u\<lparr>uo_parent := Some p\<rparr>"
    by (rule push_ok [of s st p u]) (use s assms(3,4) in auto)
  let ?s1 = "s\<lparr>qc_store := store1, qc_stack := st @ [p, ?n]\<rparr>"
  have "\<exists>store2 cs. construct body ?s1 = Some (Inr (?s1\<lparr>qc_store := store2\<rparr>)) \<and> extends store1 ?n cs store2
      \<and> list_all2 (unit_at store2 (length store1)) cs us"
  proof (cases "body = [] \<and> us = []")
    case True
    have "construct [] ?s1 = Some (Inr (?s1\<lparr>qc_store := store1\<rparr>))" by simp
    then show ?thesis using True extends_refl list_all2_Nil by blast
  next
    case False
    then have "\<not> is_terminal_tag (uo_tag u)" "adds b body d us" using assms(5) by auto
    from this(2) [unfolded adds_def, rule_format, of ?s1 "st @ [p]" ?n] show ?thesis
      using 1(2,4) s(4,5) \<open>\<not> is_terminal_tag (uo_tag u)\<close> by simp
  qed
  then obtain store2 cs where 2: "construct body ?s1 = Some (Inr (?s1\<lparr>qc_store := store2\<rparr>))"
    "extends store1 ?n cs store2" "list_all2 (unit_at store2 (length store1)) cs us" by blast
  have popped: "?s1\<lparr>qc_store := store2, qc_stack := butlast (st @ [p, ?n])\<rparr> = s\<lparr>qc_store := store2\<rparr>"
    by (rule constructor.equality) (simp_all add: s(1) butlast_append)
  have run: "construct (visit r t body) s = Some (Inr (s\<lparr>qc_store := store2\<rparr>))"
    using assms(1) [OF s(5)] 1(1) 2(1) s(1) assms(2) popped
    by (simp add: visit_def construct_append pop_stack_def)
  have n: "store2 ! ?n = u\<lparr>uo_parent := Some p, uo_children := cs\<rparr>"
    using 2(2) 1(4) assms(3) by (simp add: extends_def)
  have "list_all2 (unit_at store2 ?n) cs us"
    using 2(3) by (rule list_all2_mono) (use 1(2) in \<open>auto intro: unit_at_mono\<close>)
  then have "unit_at store2 ?n ?n (unit_of (uo_tag u) (uo_text u) us)"
    using unit_at.intros [of ?n ?n store2 us] 1(2) 2(2) unfolding n by (simp add: extends_def)
  moreover have "extends (qc_store s) p [?n] store2"
    using 1(2,3) 2(2) s(2) by (auto simp: extends_def)
  ultimately show "\<exists>store' cs. construct (visit r t body) s = Some (Inr (s\<lparr>qc_store := store'\<rparr>))
      \<and> extends (qc_store s) p cs store' \<and> list_all2 (unit_at store' ?n) cs [unit_of (uo_tag u) (uo_text u) us]"
    using run by (intro exI [of _ store2] exI [of _ "[?n]"]) simp
qed

lemma adds_item: "adds b (item_calls i) 1 [if b then (case i of WordItem w \<Rightarrow> QDictSet (unescaped w) | RegexItem r \<Rightarrow> QRegex r)
    else item_query i]"
proof (cases i)
  case (WordItem w)
  have "adds b (visit RWord w []) (Suc 0)
      [unit_of (uo_tag (terminal_object (if b then TagDictSet else TagWord) (unescape_word w)))
        (uo_text (terminal_object (if b then TagDictSet else TagWord) (unescape_word w))) []]"
    by (rule adds_node) (auto simp: terminal_object_def Let_def)
  then show ?thesis using WordItem by (auto simp: terminal_object_def unescape_word_unescaped split: if_splits)
next
  case (RegexItem r)
  have "adds b (visit RRegexword r []) (Suc 0) [unit_of (uo_tag (terminal_object TagRegex r)) (uo_text (terminal_object TagRegex r)) []]"
    by (rule adds_node) (auto simp: terminal_object_def)
  then show ?thesis using RegexItem by (cases b) (simp_all add: terminal_object_def)
qed

lemma adds_non_terminal:
  assumes "\<And>s. enter_rule r t s = push_stack (non_terminal_object tag) s" "\<And>s. exit_rule r s = pop_stack s"
    "\<not> is_terminal_tag tag" "adds b body d us"
  shows "adds b (visit r t body) (Suc d) [unit_of tag '''' us]"
  using adds_node [of b r t "non_terminal_object tag" body us d] assms by (simp add: non_terminal_object_def)

lemma adds_leaf:
  assumes "\<And>s. enter_rule r t s = push_stack (terminal_object tag t) s" "\<And>s. exit_rule r s = pop_stack s"
  shows "adds b (visit r t []) 1 [unit_of tag t []]"
  using adds_node [of b r t "terminal_object tag t" "[]" "[]" 0] assms by (simp add: terminal_object_def)

lemma adds_element: "adds False (element_calls e) 2 [element_query e]"
proof (cases e)
  case (ItemElement i)
  then show ?thesis using adds_le [OF adds_item [of False i], of 2] by simp
next
  case (PhraseElement its)
  have "adds False (concat (map item_calls its)) 1 (map item_query its)"
    by (rule adds_concat) (use adds_item [of False] in simp)
  then have "adds False (visit RPhrase (element_text e) (concat (map item_calls its))) (Suc 1) [unit_of TagConcat '''' (map item_query its)]"
    by (intro adds_non_terminal) simp_all
  then show ?thesis using PhraseElement by (simp add: numeral_2_eq_2)
qed

lemma construct_no_op:
  assumes "\<And>s. construct calls s = construct body s"
  shows "adds b calls d us \<longleftrightarrow> adds b body d us"
  using assms by (simp add: adds_def)

lemma adds_dictset: "adds False (visit RDictset t (visit RWord w [])) 1 [QDictSet (unescaped w)]"
  unfolding adds_def
proof (intro allI impI)
  fix s :: constructor and st p
  let ?s = "s\<lparr>qc_in_dictset := True\<rparr>"
  assume s: "qc_stack s = st @ [p]" "p < length (qc_store s)" "\<not> is_terminal_tag (uo_tag (qc_store s ! p))"
    "length st + 1 + 1 \<le> MAX_STACK_SIZE" "qc_in_dictset s = False"
  obtain store' cs where 1: "construct (visit RWord w []) ?s = Some (Inr (?s\<lparr>qc_store := store'\<rparr>))"
    "extends (qc_store s) p cs store'" "list_all2 (unit_at store' (length (qc_store s))) cs [QDictSet (unescaped w)]"
    using adds_item [of True "WordItem w", unfolded adds_def, rule_format, of ?s st p] s by auto
  have "?s\<lparr>qc_store := store', qc_in_dictset := False\<rparr> = s\<lparr>qc_store := store'\<rparr>"
    by (rule constructor.equality) (simp_all add: s(5))
  then have "construct (visit RDictset t (visit RWord w [])) s = Some (Inr (s\<lparr>qc_store := store'\<rparr>))"
    unfolding visit_def [of RDictset] using 1(1) by (simp add: construct_append)
  then show "\<exists>store' cs. construct (visit RDictset t (visit RWord w [])) s = Some (Inr (s\<lparr>qc_store := store'\<rparr>))
      \<and> extends (qc_store s) p cs store' \<and> list_all2 (unit_at store' (length (qc_store s))) cs [QDictSet (unescaped w)]"
    using 1(2,3) by blast
qed

lemma adds_unit: "adds False (unit_calls u) 3 [unit_query u]"
proof -
  have e: "adds False (concat (map element_calls es)) 2 (map element_query es)" for es
    by (rule adds_concat) (rule adds_element)
  have "adds False (inner_calls u) 3 [unit_query u]"
  proof (cases u)
    case (ItemUnit i)
    then show ?thesis using adds_le [OF adds_item [of False i], of 3] by simp
  next
    case (OptionsetUnit es)
    have "adds False (inner_calls u) (Suc 2) [unit_of TagOptionSet '''' (map element_query es)]"
      unfolding OptionsetUnit inner_calls.simps by (intro adds_non_terminal e) simp_all
    then show ?thesis using OptionsetUnit by simp
  next
    case (OrdersetUnit es)
    have "adds False (inner_calls u) (Suc 2) [unit_of TagOrderSet '''' (map element_query es)]"
      unfolding OrdersetUnit inner_calls.simps by (intro adds_non_terminal e) simp_all
    then show ?thesis using OrdersetUnit by simp
  next
    case (DictsetUnit w)
    then show ?thesis using adds_le [OF adds_dictset, of 3] by simp
  next
    case QmarkUnit
    then show ?thesis using adds_le [OF adds_leaf [of RQmark "''?''" TagQMark False], of 3] by simp
  next
    case PlusUnit
    then show ?thesis using adds_le [OF adds_leaf [of RPlus "''+''" TagPlus False], of 3] by simp
  next
    case (AsteriskUnit t)
    then show ?thesis using adds_le [OF adds_leaf [of RAsterisk t TagStar False], of 3] by simp
  qed
  moreover have "construct (unit_calls u) s = construct (inner_calls u) s" for s
    by (simp add: unit_calls_def visit_def construct_append split: option.split sum.split)
  ultimately show ?thesis using construct_no_op by blast
qed

lemma adds_units: "adds False (units_calls us) 4 [QConcat (map unit_query us)]"
proof -
  have "adds False (concat (map unit_calls us)) 3 (map unit_query us)"
    by (rule adds_concat) (rule adds_unit)
  then have "adds False (units_calls us) (Suc 3) [unit_of TagConcat '''' (map unit_query us)]"
    unfolding units_calls_def by (intro adds_non_terminal) simp_all
  then show ?thesis by simp
qed

lemma adds_query_body:
  "adds False (units_calls us @ concat (map (\<lambda>us. visit RAssociation ''|'' [] @ units_calls us) uss)) 4
    (map (\<lambda>us. QConcat (map unit_query us)) (us # uss))"
proof -
  have "adds False (visit RAssociation ''|'' [] @ units_calls us) 4 [QConcat (map unit_query us)]" for us
    by (rule construct_no_op [THEN iffD2, OF _ adds_units]) (simp add: visit_def)
  then have "adds False (concat (map (\<lambda>us. visit RAssociation ''|'' [] @ units_calls us) uss)) 4
      (map (\<lambda>us. QConcat (map unit_query us)) uss)" by (rule adds_concat)
  from adds_append [OF adds_units this, of us] show ?thesis by simp
qed

lemma construct_query:
  assumes "uss \<noteq> []"
  shows "\<exists>s. construct (query_calls uss t) new_constructor = Some (Inr s) \<and> qc_query s = Some 0 \<and> qc_stack s = [0]
    \<and> unit_at (qc_store s) 0 0 (rule_query uss)"
proof -
  obtain us uss' where uss: "uss = us # uss'" using assms by (cases uss) auto
  let ?root = "non_terminal_object TagAlternation"
  let ?s = "new_constructor\<lparr>qc_store := [?root], qc_query := Some 0, qc_stack := [0]\<rparr>"
  let ?body = "units_calls us @ concat (map (\<lambda>us. visit RAssociation ''|'' [] @ units_calls us) uss')"
  have "\<exists>store' cs. construct ?body ?s = Some (Inr (?s\<lparr>qc_store := store'\<rparr>)) \<and> extends (qc_store ?s) 0 cs store'
      \<and> list_all2 (unit_at store' (length (qc_store ?s))) cs (map (\<lambda>us. QConcat (map unit_query us)) uss)"
    using adds_query_body [of us uss', unfolded adds_def, rule_format, of ?s "[]" 0]
    by (simp add: uss new_constructor_def non_terminal_object_def MAX_STACK_SIZE_def)
  then obtain store cs where 1: "construct ?body ?s = Some (Inr (?s\<lparr>qc_store := store\<rparr>))" "extends [?root] 0 cs store"
    "list_all2 (unit_at store 1) cs (map (\<lambda>us. QConcat (map unit_query us)) uss)" by auto
  have "construct (query_calls uss t) new_constructor = Some (Inr (?s\<lparr>qc_store := store\<rparr>))"
    using 1(1) by (simp add: uss visit_def [of RQuery] construct_append new_constructor_def del: append_assoc)
  moreover have "unit_at store 0 0 (unit_of (uo_tag (store ! 0)) (uo_text (store ! 0)) (map (\<lambda>us. QConcat (map unit_query us)) uss))"
  proof (rule unit_at.intros)
    show "0 < length store" using 1(2) by (auto simp: extends_def)
    have "list_all2 (unit_at store 0) cs (map (\<lambda>us. QConcat (map unit_query us)) uss)"
      using 1(3) by (rule list_all2_mono) (auto intro: unit_at_mono)
    then show "list_all2 (unit_at store 0) (uo_children (store ! 0)) (map (\<lambda>us. QConcat (map unit_query us)) uss)"
      using 1(2) by (simp add: extends_def non_terminal_object_def)
  qed simp
  then have "unit_at store 0 0 (rule_query uss)"
    using 1(2) by (simp add: extends_def non_terminal_object_def rule_query_def)
  ultimately show ?thesis by auto
qed

section \<open>Properties\<close>

text \<open>
  C34. \<open>parse_query\<close> builds the parse tree: when the generated parser accepts a query and the walker
  visits a tree of the grammar, no access to the stack is out of bounds, none of the logic errors
  is thrown and the nesting limit is not reached; the store holds the literal tree of the query, with
  every word unescaped, and nothing else can be read at its root.
\<close>

theorem parse_query_builds_tree:
  assumes "length query \<le> 2000" "walk_parser query = Inr (query_calls uss t)" "uss \<noteq> []"
  shows "\<exists>store. parse_query walk_parser query = Some (Inr (store, Some 0))
    \<and> unit_at store 0 0 (rule_query uss) \<and> (\<forall>u. unit_at store 0 0 u \<longrightarrow> u = rule_query uss)"
  using construct_query [OF assms(3), of t] assms(1,2) unit_at_unique
  by (fastforce simp: parse_query_def)

text \<open>The query \<open>a [b "c d"] | #e\<close>.\<close>

definition ex_rules :: query_rule where
  "ex_rules = [[ItemUnit (WordItem ''a''), OptionsetUnit [ItemElement (WordItem ''b''),
    PhraseElement [WordItem ''c'', WordItem ''d'']]], [DictsetUnit ''e'']]"

theorem parse_query_builds_tree_witness:
  "\<exists>store. parse_query (\<lambda>_. Inr (query_calls ex_rules '''')) ''a [b c] | #e'' = Some (Inr (store, Some 0))
    \<and> unit_at store 0 0 (QAlternation [QConcat [QWord ''a'', QOptionSet [QWord ''b'', QConcat [QWord ''c'', QWord ''d'']]],
        QConcat [QDictSet ''e'']])"
  using parse_query_builds_tree [of "''a [b c] | #e''" "\<lambda>_. Inr (query_calls ex_rules '''')" ex_rules "''''"]
  by (auto simp: ex_rules_def rule_query_def)

text \<open>
  \<open>unescape_word\<close>, which overwrites the string in place, replaces every backslash and the
  character after it by that character and keeps a backslash at the end: it undoes escaping, and
  the result is at least half as long as the word.
\<close>

theorem unescape_word_correct:
  "unescape_word w = unescaped w \<and> unescape_word (escaped v) = v
    \<and> length (unescape_word w) \<le> length w \<and> length w \<le> 2 * length (unescape_word w)"
  using length_unescaped [of w] by (simp add: unescape_word_unescaped unescaped_escaped)

end
