(* ===== verification/Services.thy ===== *)
theory Services
  imports Search
begin

text \<open>
  The gRPC services of \<open>service/\<close>: their common contract as the locale \<open>corpus_service\<close>,
  \<open>UniqueMap\<close>, which forwards a request to the Netspeak instance of its corpus, and
  \<open>LoadBalanceProxy\<close>, which forwards it to one of several servers.  Protobuf messages are records;
  a status that is not OK has a code, a message and details.  The metadata of a server context is a
  map.  A remote server is a service that is called through its stub; a stub is its number.
\<close>

record corpus =
  co_key :: string
  co_language :: string
  co_name :: string

type_synonym metadata = "string \<Rightarrow> string option"

record service_request =
  sq_corpus :: string
  sq_search :: search_request
  sq_metadata :: metadata

datatype grpc_status = StatusOk | StatusError int string string

type_synonym search_answer = "grpc_status \<times> search_response"
type_synonym corpora_answer = "grpc_status \<times> corpus list"

definition unknown_corpus_answer :: search_answer where
  "unknown_corpus_answer = (StatusOk, ErrorResponse InvalidCorpusKind ''Unknown corpus'')"

section \<open>The contract of a service\<close>

text \<open>
  A service has a fixed list of corpora; a search in an unknown corpus is answered by an error
  response and changes nothing, and a search in a known one never gets that error.
\<close>

locale corpus_service =
  fixes search_call :: "'s \<Rightarrow> service_request \<Rightarrow> (search_answer \<times> 's) option"
    and corpora_call :: "'s \<Rightarrow> metadata \<Rightarrow> corpora_answer \<times> 's"
    and corpora :: "'s \<Rightarrow> corpus list"
    and service_ok :: "'s \<Rightarrow> bool"
  assumes search_keeps: "service_ok s \<Longrightarrow> search_call s rq = Some (a, s') \<Longrightarrow> service_ok s' \<and> corpora s' = corpora s"
    and unknown_corpus: "service_ok s \<Longrightarrow> sq_corpus rq \<notin> co_key ` set (corpora s) \<Longrightarrow>
      map_option fst (search_call s rq) = Some unknown_corpus_answer"
    and known_corpus: "service_ok s \<Longrightarrow> sq_corpus rq \<in> co_key ` set (corpora s) \<Longrightarrow>
      search_call s rq = Some ((st, r), s') \<Longrightarrow> r \<noteq> ErrorResponse InvalidCorpusKind m"
    and corpora_listed: "service_ok s \<Longrightarrow> corpora_call s md = (b, s') \<Longrightarrow>
      b = (StatusOk, corpora s) \<and> service_ok s' \<and> corpora s' = corpora s"

text \<open>Requests one after the other; \<open>None\<close> as soon as one is undefined.\<close>

fun serve :: "('s \<Rightarrow> service_request \<Rightarrow> (search_answer \<times> 's) option) \<Rightarrow> 's \<Rightarrow> service_request list
    \<Rightarrow> (search_answer list \<times> 's) option" where
  "serve call s [] = Some ([], s)"
| "serve call s (rq # rqs) =
    (case call s rq of
       None \<Rightarrow> None
     | Some (a, s') \<Rightarrow> (case serve call s' rqs of None \<Rightarrow> None | Some (as, s'') \<Rightarrow> Some (a # as, s'')))"

context corpus_service begin

lemma serve_keeps:
  "service_ok s \<Longrightarrow> serve search_call s rqs = Some (as, s') \<Longrightarrow>
    service_ok s' \<and> corpora s' = corpora s \<and> length as = length rqs"
proof (induction rqs arbitrary: s as)
  case (Cons rq rqs)
  then obtain a s1 bs where s1: "search_call s rq = Some (a, s1)" "serve search_call s1 rqs = Some (bs, s')" "as = a # bs"
    by (auto split: option.splits)
  then show ?case using search_keeps [OF Cons.prems(1) s1(1)] Cons.IH [of s1 bs] by auto
qed simp

text \<open>In a run, exactly the requests for corpora that are not listed get the unknown-corpus error.\<close>

lemma serve_unknown:
  "service_ok s \<Longrightarrow> serve search_call s rqs = Some (as, s') \<Longrightarrow> i < length rqs \<Longrightarrow>
    (\<exists>m. snd (as ! i) = ErrorResponse InvalidCorpusKind m) \<longleftrightarrow> sq_corpus (rqs ! i) \<notin> co_key ` set (corpora s)"
proof (induction rqs arbitrary: s as i)
  case (Cons rq rqs)
  then obtain a s1 bs where s1: "search_call s rq = Some (a, s1)" "serve search_call s1 rqs = Some (bs, s')" "as = a # bs"
    by (auto split: option.splits)
  show ?case
  proof (cases i)
    case 0
    show ?thesis
    proof (cases "sq_corpus rq \<in> co_key ` set (corpora s)")
      case True
      then show ?thesis using known_corpus [OF Cons.prems(1) True, of "fst a" "snd a" s1] s1 0 by auto
    next
      case False
      then show ?thesis using unknown_corpus [OF Cons.prems(1) False] s1 0 by (auto simp: unknown_corpus_answer_def)
    qed
  next
    case (Suc j)
    then show ?thesis
      using search_keeps [OF Cons.prems(1) s1(1)] Cons.IH [of s1 bs j] Cons.prems(3) s1 by auto
  qed
qed simp

end

section \<open>\<open>UniqueMap\<close>\<close>

record unique_map =
  um_instances :: "string \<Rightarrow> netspeak option"
  um_corpora :: "corpus list"

fun unique_map_loop :: "(netspeak \<times> corpus) list \<Rightarrow> unique_map \<Rightarrow> unique_map result" where
  "unique_map_loop [] m = Inr m"
| "unique_map_loop ((ns, c) # es) m =
    (if um_instances m (co_key c) \<noteq> None then Inl (LogicError (''Duplicate corpus key '' @ co_key c))
     else unique_map_loop es (m\<lparr>um_instances := (um_instances m)(co_key c \<mapsto> ns), um_corpora := um_corpora m @ [c]\<rparr>))"

text \<open>\<open>None\<close> is a null pointer to the entries.\<close>

definition new_unique_map :: "(netspeak \<times> corpus) list option \<Rightarrow> unique_map result" where
  "new_unique_map entries_ptr =
    (case entries_ptr of
       None \<Rightarrow> Inl (LogicError ''The pointer of UniqueMap entries is null.'')
     | Some entries \<Rightarrow> unique_map_loop entries \<lparr>um_instances = Map.empty, um_corpora = []\<rparr>)"

definition unique_map_search :: "(string \<Rightarrow> qunit result) \<Rightarrow> unique_map \<Rightarrow> service_request
    \<Rightarrow> (search_answer \<times> unique_map) option" where
  "unique_map_search parse m rq =
    (case um_instances m (sq_corpus rq) of
       None \<Rightarrow> Some (unknown_corpus_answer, m)
     | Some ns \<Rightarrow>
         map_option (\<lambda>(r, ns'). ((StatusOk, r), m\<lparr>um_instances := (um_instances m)(sq_corpus rq \<mapsto> ns')\<rparr>))
           (search parse ns (sq_search rq)))"

definition unique_map_corpora :: "unique_map \<Rightarrow> metadata \<Rightarrow> corpora_answer \<times> unique_map" where
  "unique_map_corpora m md = ((StatusOk, um_corpora m), m)"

definition unique_map_ok :: "unique_map \<Rightarrow> bool" where
  "unique_map_ok m \<longleftrightarrow> dom (um_instances m) = co_key ` set (um_corpora m) \<and> distinct (map co_key (um_corpora m))"

lemma unique_map_loop_ok:
  "unique_map_ok m \<Longrightarrow> unique_map_loop es m = Inr m' \<Longrightarrow>
    unique_map_ok m' \<and> um_corpora m' = um_corpora m @ map snd es"
proof (induction es m rule: unique_map_loop.induct)
  case (2 ns c es m)
  then have "co_key c \<notin> dom (um_instances m)" "unique_map_loop es
      (m\<lparr>um_instances := (um_instances m)(co_key c \<mapsto> ns), um_corpora := um_corpora m @ [c]\<rparr>) = Inr m'"
    by (auto split: if_splits)
  then show ?case using 2(1) "2.prems"(1) by (auto simp: unique_map_ok_def)
qed simp

lemma unique_map_loop_error:
  "unique_map_ok m \<Longrightarrow> unique_map_loop es m = Inl e \<Longrightarrow>
    \<not> distinct (map co_key (um_corpora m @ map snd es)) \<and> (\<exists>k. e = LogicError (''Duplicate corpus key '' @ k))"
proof (induction es m rule: unique_map_loop.induct)
  case (2 ns c es m)
  let ?m = "m\<lparr>um_instances := (um_instances m)(co_key c \<mapsto> ns), um_corpora := um_corpora m @ [c]\<rparr>"
  show ?case
  proof (cases "um_instances m (co_key c) = None")
    case True
    then have "unique_map_ok ?m" using "2.prems"(1) by (auto simp: unique_map_ok_def)
    then show ?thesis using 2(1) True "2.prems"(2) by simp
  next
    case False
    then have "co_key c \<in> co_key ` set (um_corpora m)" using "2.prems"(1) by (auto simp: unique_map_ok_def)
    then show ?thesis using "2.prems"(2) False by auto
  qed
qed simp

lemma search_not_invalid_corpus:
  assumes "search parse ns rq = Some (r, ns')"
  shows "r \<noteq> ErrorResponse InvalidCorpusKind m"
proof -
  have e: "error_response e \<noteq> ErrorResponse InvalidCorpusKind m" for e by (cases e) simp_all
  show ?thesis
  proof (cases "parse (sr_query rq)")
    case (Inl x)
    then show ?thesis using assms e by (auto simp: search_def)
  next
    case (Inr query)
    obtain n_options s_options where "to_options ns rq = (n_options, s_options)" by (cases "to_options ns rq")
    from Inr this assms show ?thesis
      by (cases rule: search_cases) (use e in \<open>simp_all add: response_of_def\<close>)
  qed
qed

lemma unique_map_ok_update:
  assumes "unique_map_ok m" "um_instances m k = Some x"
  shows "unique_map_ok (m\<lparr>um_instances := (um_instances m)(k \<mapsto> y)\<rparr>)"
proof -
  have "k \<in> dom (um_instances m)" using assms(2) by blast
  then have "dom ((um_instances m)(k \<mapsto> y)) = dom (um_instances m)" by (simp add: insert_absorb)
  then show ?thesis using assms(1) unfolding unique_map_ok_def by (simp del: dom_fun_upd)
qed

interpretation um: corpus_service "unique_map_search parse" unique_map_corpora um_corpora unique_map_ok
  for parse
proof
  fix s rq a s' st r m md
  assume ok: "unique_map_ok s"
  show "unique_map_ok s' \<and> um_corpora s' = um_corpora s" if "unique_map_search parse s rq = Some (a, s')"
    using that ok by (auto simp: unique_map_search_def intro: unique_map_ok_update split: option.splits)
  show "map_option fst (unique_map_search parse s rq) = Some unknown_corpus_answer"
    if "sq_corpus rq \<notin> co_key ` set (um_corpora s)"
  proof -
    have "um_instances s (sq_corpus rq) = None" using that ok by (auto simp: unique_map_ok_def)
    then show ?thesis by (simp add: unique_map_search_def)
  qed
  show "r \<noteq> ErrorResponse InvalidCorpusKind m"
    if "sq_corpus rq \<in> co_key ` set (um_corpora s)" "unique_map_search parse s rq = Some ((st, r), s')"
  proof -
    have "sq_corpus rq \<in> dom (um_instances s)" using that(1) ok by (simp add: unique_map_ok_def)
    then show ?thesis
      using that(2) by (auto simp: unique_map_search_def dest: search_not_invalid_corpus)
  qed
  show "a' = (StatusOk, um_corpora s) \<and> unique_map_ok s' \<and> um_corpora s' = um_corpora s"
    if "unique_map_corpora s md = (a', s')" for a'
    using that ok by (auto simp: unique_map_corpora_def)
qed

section \<open>\<open>LoadBalanceProxy\<close>\<close>

definition are_compatible :: "corpus \<Rightarrow> corpus \<Rightarrow> bool" where
  "are_compatible a b =
    (if co_key a \<noteq> co_key b then True else co_language a = co_language b \<and> co_name a = co_name b)"

definition show_corpus :: "corpus \<Rightarrow> string" where
  "show_corpus c = co_name c @ '' (key='' @ [CHR 0x22] @ co_key c @ [CHR 0x22] @ '' lang='' @ co_language c @ '')''"

definition check_compatible :: "corpus \<Rightarrow> corpus \<Rightarrow> unit result" where
  "check_compatible a b =
    (if \<not> are_compatible a b
     then Inl (LogicError (''The corpora '' @ show_corpus a @ '' and '' @ show_corpus b
       @ '' have the same key but are incompatible.''))
     else Inr ())"

record load_balance_proxy =
  lb_services :: "string \<Rightarrow> nat list option"
  lb_corpora :: "corpus list"

definition add_stub :: "string \<Rightarrow> nat \<Rightarrow> load_balance_proxy \<Rightarrow> load_balance_proxy" where
  "add_stub key stub p = p\<lparr>lb_services := (case lb_services p key of
      None \<Rightarrow> (lb_services p)(key \<mapsto> [stub])
    | Some list \<Rightarrow> (lb_services p)(key \<mapsto> list @ [stub]))\<rparr>"

text \<open>The loop of \<open>initialize_from_stubs\<close>; the map is its local \<open>corpora_map\<close>.\<close>

fun stubs_loop :: "(corpus \<times> nat) list \<Rightarrow> (string \<Rightarrow> corpus option) \<Rightarrow> load_balance_proxy \<Rightarrow> load_balance_proxy result" where
  "stubs_loop [] corpora_map p = Inr p"
| "stubs_loop ((corpus, stub) # stubs) corpora_map p =
    (let key = co_key corpus in
     rbind (case corpora_map key of
         None \<Rightarrow> Inr (p\<lparr>lb_corpora := lb_corpora p @ [corpus]\<rparr>, corpora_map(key \<mapsto> corpus))
       | Some c \<Rightarrow> rbind (check_compatible c corpus) (\<lambda>_. Inr (p, corpora_map)))
     (\<lambda>(p, corpora_map).
       stubs_loop stubs corpora_map (add_stub key stub p)))"

definition new_load_balance_proxy :: "(corpus \<times> nat) list \<Rightarrow> load_balance_proxy result" where
  "new_load_balance_proxy stubs = stubs_loop stubs Map.empty \<lparr>lb_services = Map.empty, lb_corpora = []\<rparr>"

text \<open>\<open>bit_mix\<close>: sixteen rounds of xorshift and a multiplication.\<close>

definition xorshift :: "u64 \<Rightarrow> u64" where
  "xorshift x =
    (let x = xor x (drop_bit 12 x); x = xor x (push_bit 25 x)
     in xor x (drop_bit 27 x))"

definition bit_mix :: "u64 \<Rightarrow> u64" where
  "bit_mix x = (xorshift ^^ 16) x * 0x2545F4914F6CDD1D"

text \<open>The stub that a request is sent to; \<open>hash\<close> is \<open>std::hash\<close>.\<close>

definition choose_service :: "(string \<Rightarrow> u64) \<Rightarrow> nat list \<Rightarrow> service_request \<Rightarrow> nat" where
  "choose_service hash services rq =
    (if length services = 1 then services ! 0
     else services ! (unat (bit_mix (hash (sr_query (sq_search rq)))) mod length services))"

definition proxy_search :: "(nat \<Rightarrow> 'w \<Rightarrow> service_request \<Rightarrow> (search_answer \<times> 'w) option) \<Rightarrow> (string \<Rightarrow> u64)
    \<Rightarrow> load_balance_proxy \<times> 'w \<Rightarrow> service_request \<Rightarrow> (search_answer \<times> load_balance_proxy \<times> 'w) option" where
  "proxy_search stub_call hash s rq =
    (case lb_services (fst s) (sq_corpus rq) of
       None \<Rightarrow> Some (unknown_corpus_answer, s)
     | Some services \<Rightarrow>
         map_option (\<lambda>(a, w). (a, fst s, w))
           (stub_call (choose_service hash services rq) (snd s) (rq\<lparr>sq_metadata := Map.empty\<rparr>)))"

definition proxy_corpora :: "load_balance_proxy \<times> 'w \<Rightarrow> metadata \<Rightarrow> corpora_answer \<times> load_balance_proxy \<times> 'w" where
  "proxy_corpora s md = ((StatusOk, lb_corpora (fst s)), s)"

section \<open>Mixing is a bijection\<close>

lemma xor_drop_bit_inj:
  assumes "0 < k" "xor x (drop_bit k x) = xor y (drop_bit k y)"
  shows "x = (y :: u64)"
proof (rule bit_word_eqI)
  fix n
  have all: "bit x m = bit y m" if "64 - m \<le> d" for d m
    using that
  proof (induction d arbitrary: m)
    case 0
    then have "64 \<le> m" by simp
    then show ?case by (auto dest: bit_imp_le_length)
  next
    case (Suc d)
    have "bit x (k + m) = bit y (k + m)" using Suc assms(1) by simp
    moreover have "bit (xor x (drop_bit k x)) m = bit (xor y (drop_bit k y)) m" using assms(2) by simp
    ultimately show ?case by (auto simp: bit_xor_iff bit_drop_bit_eq)
  qed
  show "bit x n = bit y n" by (rule all [of n "64 - n"]) simp
qed

lemma xor_push_bit_inj:
  assumes "0 < k" "xor x (push_bit k x) = xor y (push_bit k y)"
  shows "x = (y :: u64)"
proof (rule bit_word_eqI)
  fix n :: nat
  assume "n < LENGTH(64)"
  then show "bit x n = bit y n"
  proof (induction n rule: less_induct)
    case (less n)
    have "bit (xor x (push_bit k x)) n = bit (xor y (push_bit k y)) n" using assms(2) by simp
    moreover have "k \<le> n \<Longrightarrow> bit x (n - k) = bit y (n - k)" using less assms(1) by simp
    ultimately show ?case using less.prems by (auto simp: bit_xor_iff bit_push_bit_iff)
  qed
qed

lemma xorshift_inj: "xorshift x = xorshift y \<Longrightarrow> x = y"
  unfolding xorshift_def Let_def
  by (rule xor_drop_bit_inj [of 12], simp, rule xor_push_bit_inj [of 25], simp, rule xor_drop_bit_inj [of 27]) simp_all

lemma xorshift_pow_inj: "(xorshift ^^ n) x = (xorshift ^^ n) y \<Longrightarrow> x = y"
  by (induction n) (auto dest: xorshift_inj)

lemma bit_mix_inj: "bit_mix x = bit_mix y \<Longrightarrow> x = y"
proof -
  have inv: "(0x2545F4914F6CDD1D :: u64) * 0x59071D96D81ECD35 = 1" by simp
  assume "bit_mix x = bit_mix y"
  then have "bit_mix x * 0x59071D96D81ECD35 = bit_mix y * 0x59071D96D81ECD35" by simp
  then have "(xorshift ^^ 16) x = (xorshift ^^ 16) y"
    unfolding bit_mix_def mult.assoc inv by simp
  then show "x = y" by (rule xorshift_pow_inj)
qed

section \<open>The proxy keeps the contract\<close>

text \<open>The stubs of a key, in the order of the list.\<close>

definition stubs_of :: "(corpus \<times> nat) list \<Rightarrow> string \<Rightarrow> nat list" where
  "stubs_of stubs key = map snd (filter (\<lambda>(c, _). co_key c = key) stubs)"

definition more_stubs :: "nat list option \<Rightarrow> nat list \<Rightarrow> nat list option" where
  "more_stubs found new = (case found of None \<Rightarrow> if new = [] then None else Some new | Some old \<Rightarrow> Some (old @ new))"

lemma add_stub_simps [simp]:
  "lb_corpora (add_stub key stub p) = lb_corpora p"
  "lb_services (add_stub key stub p) = (lb_services p)(key := more_stubs (lb_services p key) [stub])"
  by (simp_all add: add_stub_def more_stubs_def split: option.split)

text \<open>One step of the loop.\<close>

lemma stubs_loop_new:
  "m (co_key c) = None \<Longrightarrow> stubs_loop ((c, stub) # stubs) m p
    = stubs_loop stubs (m(co_key c \<mapsto> c)) (add_stub (co_key c) stub (p\<lparr>lb_corpora := lb_corpora p @ [c]\<rparr>))"
  by (simp add: Let_def)

lemma stubs_loop_old:
  "m (co_key c) = Some d \<Longrightarrow> stubs_loop ((c, stub) # stubs) m p
    = rbind (check_compatible d c) (\<lambda>_. stubs_loop stubs m (add_stub (co_key c) stub p))"
  by (cases "check_compatible d c") (simp_all add: Let_def)

lemma stubs_of_Cons: "stubs_of ((c, stub) # stubs) key = (if co_key c = key then stub # stubs_of stubs key else stubs_of stubs key)"
  by (simp add: stubs_of_def)

lemma more_stubs_more: "more_stubs (more_stubs found xs) ys = more_stubs found (xs @ ys)"
  by (simp add: more_stubs_def split: option.split)

lemma more_stubs_Nil [simp]: "more_stubs found [] = found"
  by (simp add: more_stubs_def split: option.split)

lemma stubs_loop_services:
  "stubs_loop stubs m p = Inr p' \<Longrightarrow> lb_services p' key = more_stubs (lb_services p key) (stubs_of stubs key)"
proof (induction stubs arbitrary: m p)
  case (Cons x stubs)
  obtain c stub where x: "x = (c, stub)" by (cases x)
  obtain m' q where q: "stubs_loop stubs m' (add_stub (co_key c) stub q) = Inr p'" "lb_services q = lb_services p"
  proof (cases "m (co_key c)")
    case None
    then show ?thesis using that Cons.prems unfolding x stubs_loop_new [of m, OF None] by fastforce
  next
    case (Some d)
    then show ?thesis using that Cons.prems unfolding x stubs_loop_old [of m, OF Some] by auto
  qed
  show ?case
    using Cons.IH [OF q(1)] by (simp add: q(2) x stubs_of_Cons more_stubs_more)
qed (simp add: stubs_of_def)

lemma stubs_loop_corpora:
  "stubs_loop stubs m p = Inr p' \<Longrightarrow> dom m = co_key ` set (lb_corpora p) \<Longrightarrow> distinct (map co_key (lb_corpora p)) \<Longrightarrow>
    co_key ` set (lb_corpora p') = dom m \<union> co_key ` fst ` set stubs \<and> distinct (map co_key (lb_corpora p'))"
proof (induction stubs arbitrary: m p)
  case (Cons x stubs)
  obtain c stub where x: "x = (c, stub)" by (cases x)
  show ?case
  proof (cases "m (co_key c)")
    case None
    let ?q = "add_stub (co_key c) stub (p\<lparr>lb_corpora := lb_corpora p @ [c]\<rparr>)"
    have "co_key c \<notin> co_key ` set (lb_corpora p)" using Cons.prems(2) None by blast
    then have "distinct (map co_key (lb_corpora ?q))" using Cons.prems(3) by simp
    moreover have "dom (m(co_key c \<mapsto> c)) = co_key ` set (lb_corpora ?q)" using Cons.prems(2) by simp
    moreover have "stubs_loop stubs (m(co_key c \<mapsto> c)) ?q = Inr p'"
      using Cons.prems(1) unfolding x stubs_loop_new [of m, OF None] .
    ultimately have "co_key ` set (lb_corpora p') = dom (m(co_key c \<mapsto> c)) \<union> co_key ` fst ` set stubs
        \<and> distinct (map co_key (lb_corpora p'))" by (intro Cons.IH)
    then show ?thesis by (simp add: x)
  next
    case (Some d)
    have "co_key ` set (lb_corpora p') = dom m \<union> co_key ` fst ` set stubs \<and> distinct (map co_key (lb_corpora p'))"
      using Cons.prems Some by (intro Cons.IH [of m "add_stub (co_key c) stub p"]) (auto simp: x stubs_loop_old simp del: stubs_loop.simps)
    then show ?thesis using Some by (auto simp: x)
  qed
qed simp

definition compatible_with :: "(string \<Rightarrow> corpus option) \<Rightarrow> corpus list \<Rightarrow> bool" where
  "compatible_with m cs \<longleftrightarrow> (\<forall>c \<in> set cs. \<forall>d. m (co_key c) = Some d \<longrightarrow> are_compatible d c)
    \<and> (\<forall>c \<in> set cs. \<forall>d \<in> set cs. are_compatible c d)"

definition co_info :: "corpus \<Rightarrow> string \<times> string" where
  "co_info c = (co_language c, co_name c)"

lemma are_compatible_iff: "are_compatible a b \<longleftrightarrow> (co_key a = co_key b \<longrightarrow> co_info a = co_info b)"
  by (simp add: are_compatible_def co_info_def)

lemma compatible_with_new:
  assumes "m (co_key c) = None"
  shows "compatible_with m (c # cs) \<longleftrightarrow> compatible_with (m(co_key c \<mapsto> c)) cs"
proof
  assume l: "compatible_with m (c # cs)"
  show "compatible_with (m(co_key c \<mapsto> c)) cs"
    unfolding compatible_with_def
  proof (intro conjI ballI allI impI)
    fix e d assume e: "e \<in> set cs" "(m(co_key c \<mapsto> c)) (co_key e) = Some d"
    show "are_compatible d e"
    proof (cases "co_key e = co_key c")
      case True
      then show ?thesis using l e by (simp add: compatible_with_def)
    next
      case False
      then show ?thesis using l e by (simp add: compatible_with_def)
    qed
  qed (use l in \<open>simp add: compatible_with_def\<close>)
next
  assume r: "compatible_with (m(co_key c \<mapsto> c)) cs"
  have c: "are_compatible c e \<and> are_compatible e c" if "e \<in> set cs" for e
  proof (cases "co_key e = co_key c")
    case True
    have "\<forall>d. (m(co_key c \<mapsto> c)) (co_key e) = Some d \<longrightarrow> are_compatible d e"
      using r that unfolding compatible_with_def by blast
    then have "are_compatible c e" using True by simp
    then show ?thesis using True by (simp add: are_compatible_iff)
  qed (simp add: are_compatible_iff)
  show "compatible_with m (c # cs)"
    unfolding compatible_with_def
  proof (intro conjI ballI allI impI)
    fix e d assume e: "e \<in> set (c # cs)" "m (co_key e) = Some d"
    then have "co_key e \<noteq> co_key c" using assms by auto
    then show "are_compatible d e" using r e by (auto simp: compatible_with_def)
  next
    fix d e assume "d \<in> set (c # cs)" "e \<in> set (c # cs)"
    then have "(d = c \<or> d \<in> set cs) \<and> (e = c \<or> e \<in> set cs)" by simp
    moreover have "\<forall>a \<in> set cs. \<forall>b \<in> set cs. are_compatible a b" using r by (simp add: compatible_with_def)
    moreover have "are_compatible c c" by (simp add: are_compatible_iff)
    ultimately show "are_compatible d e" using c by blast
  qed
qed

lemma compatible_with_old:
  assumes "m (co_key c) = Some d" "co_key d = co_key c"
  shows "compatible_with m (c # cs) \<longleftrightarrow> are_compatible d c \<and> compatible_with m cs"
proof
  assume r: "are_compatible d c \<and> compatible_with m cs"
  have c: "are_compatible c e \<and> are_compatible e c" if "e \<in> set cs" for e
  proof (cases "co_key e = co_key c")
    case True
    have "\<forall>d'. m (co_key e) = Some d' \<longrightarrow> are_compatible d' e"
      using r that unfolding compatible_with_def by blast
    then have "are_compatible d e" using True assms(1) by simp
    then show ?thesis using True r assms(2) by (simp add: are_compatible_iff)
  qed (simp add: are_compatible_iff)
  show "compatible_with m (c # cs)"
    unfolding compatible_with_def
  proof (intro conjI ballI allI impI)
    fix e d' assume "e \<in> set (c # cs)" "m (co_key e) = Some d'"
    then show "are_compatible d' e" using r assms(1) by (auto simp: compatible_with_def)
  next
    fix d e assume "d \<in> set (c # cs)" "e \<in> set (c # cs)"
    then have "(d = c \<or> d \<in> set cs) \<and> (e = c \<or> e \<in> set cs)" by simp
    moreover have "\<forall>a \<in> set cs. \<forall>b \<in> set cs. are_compatible a b" using r by (simp add: compatible_with_def)
    moreover have "are_compatible c c" by (simp add: are_compatible_iff)
    ultimately show "are_compatible d e" using c by blast
  qed
qed (use assms in \<open>simp add: compatible_with_def\<close>)

lemma stubs_loop_succeeds:
  "(\<And>k d. m k = Some d \<Longrightarrow> co_key d = k) \<Longrightarrow>
    (\<exists>p'. stubs_loop stubs m p = Inr p') \<longleftrightarrow> compatible_with m (map fst stubs)"
proof (induction stubs arbitrary: m p)
  case (Cons x stubs)
  obtain c stub where x: "x = (c, stub)" by (cases x)
  show ?case
  proof (cases "m (co_key c)")
    case None
    have "(\<exists>p'. stubs_loop stubs (m(co_key c \<mapsto> c)) q = Inr p') \<longleftrightarrow> compatible_with (m(co_key c \<mapsto> c)) (map fst stubs)" for q
      by (rule Cons.IH) (use Cons.prems in \<open>auto split: if_splits\<close>)
    then show ?thesis using compatible_with_new [of m c, OF None] None by (simp add: x stubs_loop_new del: stubs_loop.simps)
  next
    case (Some d)
    have "(\<exists>p'. stubs_loop stubs m q = Inr p') \<longleftrightarrow> compatible_with m (map fst stubs)" for q
      by (rule Cons.IH) (use Cons.prems in blast)
    then show ?thesis
      using compatible_with_old [of m c, OF Some] Cons.prems [OF Some] Some
      by (simp add: x stubs_loop_old check_compatible_def del: stubs_loop.simps)
  qed
qed (simp add: compatible_with_def)

text \<open>Servers behind the proxy: each is a \<open>UniqueMap\<close>, and the stubs of a key are servers of that corpus.\<close>

definition server_call :: "(string \<Rightarrow> qunit result) \<Rightarrow> nat \<Rightarrow> unique_map list \<Rightarrow> service_request
    \<Rightarrow> (search_answer \<times> unique_map list) option" where
  "server_call parse i servers rq =
    map_option (\<lambda>(a, m). (a, servers[i := m])) (unique_map_search parse (servers ! i) rq)"

definition proxy_ok :: "load_balance_proxy \<times> unique_map list \<Rightarrow> bool" where
  "proxy_ok s \<longleftrightarrow> dom (lb_services (fst s)) = co_key ` set (lb_corpora (fst s)) \<and> (\<forall>m \<in> set (snd s). unique_map_ok m)
    \<and> (\<forall>key services. lb_services (fst s) key = Some services \<longrightarrow>
        services \<noteq> [] \<and> (\<forall>i \<in> set services. i < length (snd s) \<and> key \<in> co_key ` set (um_corpora (snd s ! i))))"

lemma choose_service_in: "services \<noteq> [] \<Longrightarrow> choose_service hash services rq \<in> set services"
  by (auto simp: choose_service_def intro: nth_mem)

lemma server_call_keeps:
  assumes "\<forall>m \<in> set servers. unique_map_ok m" "i < length servers" "server_call parse i servers rq = Some (a, servers')"
  shows "(\<forall>m \<in> set servers'. unique_map_ok m) \<and> length servers' = length servers
    \<and> (\<forall>j < length servers. um_corpora (servers' ! j) = um_corpora (servers ! j))"
proof -
  obtain m where m: "unique_map_search parse (servers ! i) rq = Some (a, m)" "servers' = servers[i := m]"
    using assms(3) by (auto simp: server_call_def)
  have "unique_map_ok (servers ! i)" using assms(1,2) by simp
  from um.search_keeps [OF this m(1)] show ?thesis
    using assms(1,2) m(2) by (auto simp: nth_list_update dest!: set_update_subset_insert [THEN subsetD])
qed

lemma proxy_forwards:
  assumes "proxy_ok s" "lb_services (fst s) (sq_corpus rq) = Some services"
    and "proxy_search (server_call parse) hash s rq = Some (a, s')"
  obtains i m where "unique_map_search parse (snd s ! i) (rq\<lparr>sq_metadata := Map.empty\<rparr>) = Some (a, m)"
    "i < length (snd s)" "sq_corpus rq \<in> co_key ` set (um_corpora (snd s ! i))" "s' = (fst s, (snd s)[i := m])"
proof -
  let ?i = "choose_service hash services rq"
  have "services \<noteq> []" and in_range: "\<forall>i \<in> set services. i < length (snd s) \<and> sq_corpus rq \<in> co_key ` set (um_corpora (snd s ! i))"
    using assms(1,2) by (auto simp: proxy_ok_def)
  then have i: "?i < length (snd s)" "sq_corpus rq \<in> co_key ` set (um_corpora (snd s ! ?i))"
    using choose_service_in by blast+
  from assms(2,3) obtain m where "unique_map_search parse (snd s ! ?i) (rq\<lparr>sq_metadata := Map.empty\<rparr>) = Some (a, m)"
    "s' = (fst s, (snd s)[?i := m])" by (auto simp: proxy_search_def server_call_def)
  with i show ?thesis by (intro that)
qed

interpretation lb: corpus_service "proxy_search (server_call parse) hash" proxy_corpora "\<lambda>s. lb_corpora (fst s)" proxy_ok
  for parse hash
proof
  fix s rq a s' st r m md b
  assume ok: "proxy_ok s"
  show "proxy_ok s' \<and> lb_corpora (fst s') = lb_corpora (fst s)" if run: "proxy_search (server_call parse) hash s rq = Some (a, s')"
  proof (cases "lb_services (fst s) (sq_corpus rq)")
    case None
    then show ?thesis using run ok by (simp add: proxy_search_def)
  next
    case (Some services)
    then obtain i m where i: "unique_map_search parse (snd s ! i) (rq\<lparr>sq_metadata := Map.empty\<rparr>) = Some (a, m)"
      "i < length (snd s)" "s' = (fst s, (snd s)[i := m])" using proxy_forwards [OF ok Some run] by metis
    have "server_call parse i (snd s) (rq\<lparr>sq_metadata := Map.empty\<rparr>) = Some (a, (snd s)[i := m])"
      using i(1) by (simp add: server_call_def)
    moreover have "\<forall>m \<in> set (snd s). unique_map_ok m" using ok by (simp add: proxy_ok_def)
    ultimately have k: "\<forall>m \<in> set ((snd s)[i := m]). unique_map_ok m"
      "\<forall>j < length (snd s). um_corpora ((snd s)[i := m] ! j) = um_corpora (snd s ! j)"
      using server_call_keeps [of "snd s" i] i(2) by blast+
    have "j < length (snd s) \<and> key \<in> co_key ` set (um_corpora ((snd s)[i := m] ! j))"
      if "lb_services (fst s) key = Some sv" "j \<in> set sv" for key sv j
    proof -
      have "j < length (snd s)" "key \<in> co_key ` set (um_corpora (snd s ! j))"
        using ok that unfolding proxy_ok_def by blast+
      then show ?thesis using k(2) by simp
    qed
    then show ?thesis using ok k(1) unfolding i(3) proxy_ok_def by simp
  qed
  show "map_option fst (proxy_search (server_call parse) hash s rq) = Some unknown_corpus_answer"
    if "sq_corpus rq \<notin> co_key ` set (lb_corpora (fst s))"
  proof -
    have "sq_corpus rq \<notin> dom (lb_services (fst s))" using ok that by (simp add: proxy_ok_def)
    then show ?thesis by (simp add: proxy_search_def domIff)
  qed
  show "r \<noteq> ErrorResponse InvalidCorpusKind m"
    if c: "sq_corpus rq \<in> co_key ` set (lb_corpora (fst s))" "proxy_search (server_call parse) hash s rq = Some ((st, r), s')"
  proof -
    have "sq_corpus rq \<in> dom (lb_services (fst s))" using ok c(1) by (simp add: proxy_ok_def)
    then obtain services where k: "lb_services (fst s) (sq_corpus rq) = Some services" by blast
    obtain i m' where i: "unique_map_search parse (snd s ! i) (rq\<lparr>sq_metadata := Map.empty\<rparr>) = Some ((st, r), m')"
      "i < length (snd s)" "sq_corpus rq \<in> co_key ` set (um_corpora (snd s ! i))"
      by (rule proxy_forwards [OF ok k c(2)])
    have "unique_map_ok (snd s ! i)" using ok i(2) by (simp add: proxy_ok_def)
    from um.known_corpus [OF this _ i(1)] i(3) show ?thesis by simp
  qed
  show "b = (StatusOk, lb_corpora (fst s)) \<and> proxy_ok s' \<and> lb_corpora (fst s') = lb_corpora (fst s)"
    if "proxy_corpora s md = (b, s')"
    using that ok by (auto simp: proxy_corpora_def)
qed

section \<open>Properties\<close>

text \<open>
  \<open>LoadBalanceProxy\<close> is built exactly if corpora with the same key have the same language and
  name; then every key has the stubs that were given for it, in order, and every key is listed once.
\<close>

theorem proxy_construction:
  "((\<exists>p. new_load_balance_proxy stubs = Inr p) \<longleftrightarrow> (\<forall>c \<in> fst ` set stubs. \<forall>d \<in> fst ` set stubs. are_compatible c d))
    \<and> (\<forall>p. new_load_balance_proxy stubs = Inr p \<longrightarrow>
      (\<forall>key. lb_services p key = (if stubs_of stubs key = [] then None else Some (stubs_of stubs key)))
      \<and> co_key ` set (lb_corpora p) = co_key ` fst ` set stubs \<and> distinct (map co_key (lb_corpora p)))"
  using stubs_loop_succeeds [of Map.empty stubs "\<lparr>lb_services = Map.empty, lb_corpora = []\<rparr>"]
    stubs_loop_services [of stubs Map.empty "\<lparr>lb_services = Map.empty, lb_corpora = []\<rparr>"]
    stubs_loop_corpora [of stubs Map.empty "\<lparr>lb_services = Map.empty, lb_corpora = []\<rparr>"]
  by (auto simp: new_load_balance_proxy_def compatible_with_def more_stubs_def)

definition ex_stubs :: "(corpus \<times> nat) list" where
  "ex_stubs = [(\<lparr>co_key = ''en'', co_language = ''en'', co_name = ''web''\<rparr>, 0),
    (\<lparr>co_key = ''de'', co_language = ''de'', co_name = ''web''\<rparr>, 0),
    (\<lparr>co_key = ''en'', co_language = ''en'', co_name = ''web''\<rparr>, 1)]"

theorem proxy_construction_witness:
  "\<exists>p. new_load_balance_proxy ex_stubs = Inr p \<and> lb_services p ''en'' = Some [0, 1] \<and> lb_services p ''fr'' = None"
  using proxy_construction [of ex_stubs] by (auto simp: ex_stubs_def are_compatible_def stubs_of_def)

text \<open>
  The proxy picks one of the servers of the corpus, the same one for the same query text as
  long as the servers are the same, and the mixing of the hash loses nothing: \<open>bit_mix\<close> is a
  bijection, so queries with different hashes keep different mixed hashes.
\<close>

theorem bit_mix_bijective:
  "bij bit_mix \<and> (services \<noteq> [] \<longrightarrow> choose_service hash services rq \<in> set services)
    \<and> (sr_query (sq_search rq) = sr_query (sq_search rq') \<longrightarrow> choose_service hash services rq = choose_service hash services rq')"
proof -
  have "inj bit_mix" using bit_mix_inj by (auto intro: injI)
  then have "bij bit_mix" by (simp add: bij_def finite_UNIV_inj_surj)
  then show ?thesis using choose_service_in by (simp add: choose_service_def)
qed

theorem bit_mix_bijective_witness:
  "choose_service (\<lambda>_. 5) [3, 4] \<lparr>sq_corpus = ''en'', sq_search = ex_request, sq_metadata = Map.empty\<rparr> \<in> {3, 4}"
  using bit_mix_bijective [of "[3, 4]" "\<lambda>_. 5" "\<lparr>sq_corpus = ''en'', sq_search = ex_request, sq_metadata = Map.empty\<rparr>"] by simp


definition ex_servers :: "load_balance_proxy \<times> unique_map list" where
  "ex_servers = (\<lparr>lb_services = [''en'' \<mapsto> [0]], lb_corpora = [\<lparr>co_key = ''en'', co_language = ''en'', co_name = ''web''\<rparr>]\<rparr>,
    [\<lparr>um_instances = [''en'' \<mapsto> ex_netspeak], um_corpora = [\<lparr>co_key = ''en'', co_language = ''en'', co_name = ''web''\<rparr>]\<rparr>])"


lemma new_unique_map_ok:
  "new_unique_map (Some entries) = Inr m \<Longrightarrow> unique_map_ok m \<and> um_corpora m = map snd entries"
  using unique_map_loop_ok [of "\<lparr>um_instances = Map.empty, um_corpora = []\<rparr>" entries m]
  by (auto simp: new_unique_map_def unique_map_ok_def)

lemma new_unique_map_error:
  "new_unique_map (Some entries) = Inl e \<Longrightarrow> \<not> distinct (map (co_key \<circ> snd) entries)"
  using unique_map_loop_error [of "\<lparr>um_instances = Map.empty, um_corpora = []\<rparr>" entries e]
  by (simp add: new_unique_map_def unique_map_ok_def comp_def)

end
