(* ===== verification/Json_Writer.thy ===== *)
theory Json_Writer
  imports Texts
begin

text \<open>
  \<open>util/JsonWriter.hpp\<close>: escaping of strings and the writer, whose methods are sequenced by the
  types they return.  The class templates \<open>Value<S, R>\<close>, \<open>ObjectStart<S, R>\<close> and so on are a datatype
  of writer types, and a method is a step from a writer of one type to a writer of another; a method
  that the type does not have is \<open>None\<close>, a compile error.  The output is the text written so far.
\<close>

section \<open>Strings\<close>

definition to_hex_digit :: "nat \<Rightarrow> char" where
  "to_hex_digit v = (if v < 10 then char_of (48 + v) else char_of (97 - 10 + v))"

definition print_json_char :: "char \<Rightarrow> string" where
  "print_json_char c =
    (if c = CHR 0x0D then [CHR 0x5C, CHR ''r'']
     else if c = CHR 0x0A then [CHR 0x5C, CHR ''n'']
     else if c = CHR 0x09 then [CHR 0x5C, CHR ''t'']
     else if c = CHR 0x5C then [CHR 0x5C, CHR 0x5C]
     else if c = CHR 0x22 then [CHR 0x5C, CHR 0x22]
     else if (of_char c :: nat) < 32
       then [CHR 0x5C] @ ''u00'' @ [to_hex_digit (of_char c div 16), to_hex_digit (of_char c mod 16)]
     else [c])"

definition print_json_string :: "string \<Rightarrow> string" where
  "print_json_string str = [CHR 0x22] @ concat (map print_json_char str) @ [CHR 0x22]"

text \<open>
  The reference: the characters of a JSON string up to the closing quote, as the standard has them
  (control characters must be escaped), and the rest of the text.
\<close>

definition hex_value :: "char \<Rightarrow> nat option" where
  "hex_value c = (let n = of_char c :: nat in
    if 48 \<le> n \<and> n < 58 then Some (n - 48)
    else if 97 \<le> n \<and> n < 103 then Some (n - 87)
    else if 65 \<le> n \<and> n < 71 then Some (n - 55) else None)"

definition simple_escape :: "char \<Rightarrow> char option" where
  "simple_escape c =
    (if c = CHR ''n'' then Some (CHR 0x0A) else if c = CHR ''r'' then Some (CHR 0x0D)
     else if c = CHR ''t'' then Some (CHR 0x09) else if c = CHR ''b'' then Some (CHR 0x08)
     else if c = CHR ''f'' then Some (CHR 0x0C)
     else if c \<in> {CHR 0x5C, CHR 0x22, CHR ''/''} then Some c else None)"

fun read_json_chars :: "string \<Rightarrow> (string \<times> string) option" where
  "read_json_chars [] = None"
| "read_json_chars (c # cs) =
    (if c = CHR 0x22 then Some ([], cs)
     else if (of_char c :: nat) < 32 then None
     else if c = CHR 0x5C then
       (case cs of
          [] \<Rightarrow> None
        | e # r \<Rightarrow>
            if e = CHR ''u'' then
              (case r of
                 h1 # h2 # h3 # h4 # r' \<Rightarrow>
                   (case (hex_value h1, hex_value h2, hex_value h3, hex_value h4) of
                      (Some a, Some b, Some c, Some d) \<Rightarrow>
                        if ((a * 16 + b) * 16 + c) * 16 + d < 128
                        then map_option (apfst (Cons (char_of (((a * 16 + b) * 16 + c) * 16 + d)))) (read_json_chars r')
                        else None
                    | _ \<Rightarrow> None)
               | _ \<Rightarrow> None)
            else (case simple_escape e of None \<Rightarrow> None | Some d \<Rightarrow> map_option (apfst (Cons d)) (read_json_chars r)))
     else map_option (apfst (Cons c)) (read_json_chars cs))"

lemma hex_value_digit: "v < 16 \<Longrightarrow> hex_value (to_hex_digit v) = Some v"
  by (auto simp: hex_value_def to_hex_digit_def Let_def)

lemma read_print_json_char: "read_json_chars (print_json_char c @ rest) = map_option (apfst (Cons c)) (read_json_chars rest)"
proof -
  have "(of_char c :: nat) < 256" by simp
  consider "c \<in> {CHR 0x0D, CHR 0x0A, CHR 0x09, CHR 0x5C, CHR 0x22}"
    | "c \<notin> {CHR 0x0D, CHR 0x0A, CHR 0x09, CHR 0x5C, CHR 0x22}" "(of_char c :: nat) < 32"
    | "c \<notin> {CHR 0x0D, CHR 0x0A, CHR 0x09, CHR 0x5C, CHR 0x22}" "\<not> (of_char c :: nat) < 32" by blast
  then show ?thesis
  proof cases
    case 1
    then show ?thesis by (auto simp: print_json_char_def simple_escape_def)
  next
    case 2
    let ?n = "of_char c :: nat"
    have n: "?n div 16 < 16" "?n mod 16 < 16" "16 * (?n div 16) + ?n mod 16 = ?n" using 2 by auto
    have z: "hex_value CHR ''0'' = Some 0" by (simp add: hex_value_def)
    have "print_json_char c = [CHR 0x5C, CHR ''u'', CHR ''0'', CHR ''0'', to_hex_digit (?n div 16), to_hex_digit (?n mod 16)]"
      using 2 by (simp add: print_json_char_def)
    then show ?thesis using 2 n by (simp add: z hex_value_digit mult.commute)
  next
    case 3
    then show ?thesis by (simp add: print_json_char_def)
  qed
qed

lemma read_print_json_string: "read_json_chars (concat (map print_json_char str) @ [CHR 0x22] @ rest) = Some (str, rest)"
  by (induction str) (simp_all add: read_print_json_char del: read_json_chars.simps(2), simp)

section \<open>The writer\<close>

datatype writer_type = Done | Value writer_type | ObjectStart writer_type | ObjectContinue writer_type
  | ArrayStart writer_type | ArrayContinue writer_type

datatype writer_call = NullCall | BooleanCall bool | NumberCall int | StringCall string | RawJsonCall string
  | ObjectCall | ArrayCall | PropCall string | EndObjectCall | ValueCall | EndArrayCall

definition show_int :: "int \<Rightarrow> string" where
  "show_int n = (if n < 0 then ''-'' @ show_nat (nat (- n)) else show_nat (nat n))"

fun write_call :: "writer_call \<Rightarrow> writer_type \<times> string \<Rightarrow> (writer_type \<times> string) option" where
  "write_call NullCall (Value r, out) = Some (r, out @ ''null'')"
| "write_call (BooleanCall b) (Value r, out) = Some (r, out @ (if b then ''true'' else ''false''))"
| "write_call (NumberCall n) (Value r, out) = Some (r, out @ show_int n)"
| "write_call (StringCall s) (Value r, out) = Some (r, out @ print_json_string s)"
| "write_call (RawJsonCall json) (Value r, out) = Some (r, out @ json)"
| "write_call ObjectCall (Value r, out) = Some (ObjectStart r, out)"
| "write_call ArrayCall (Value r, out) = Some (ArrayStart r, out)"
| "write_call (PropCall key) (ObjectContinue r, out) =
    Some (Value (ObjectContinue r), out @ '','' @ print_json_string key @ '':'')"
| "write_call EndObjectCall (ObjectContinue r, out) = Some (r, out @ ''}'')"
| "write_call (PropCall key) (ObjectStart r, out) =
    Some (Value (ObjectContinue r), out @ ''{'' @ print_json_string key @ '':'')"
| "write_call EndObjectCall (ObjectStart r, out) = Some (r, out @ ''{'' @ ''}'')"
| "write_call ValueCall (ArrayContinue r, out) = Some (Value (ArrayContinue r), out @ '','')"
| "write_call EndArrayCall (ArrayContinue r, out) = Some (r, out @ '']'')"
| "write_call ValueCall (ArrayStart r, out) = Some (Value (ArrayContinue r), out @ ''['')"
| "write_call EndArrayCall (ArrayStart r, out) = Some (r, out @ ''['' @ '']'')"
| "write_call _ _ = None"

fun write_calls :: "writer_call list \<Rightarrow> writer_type \<times> string \<Rightarrow> (writer_type \<times> string) option" where
  "write_calls [] w = Some w"
| "write_calls (c # cs) w = (case write_call c w of None \<Rightarrow> None | Some w' \<Rightarrow> write_calls cs w')"

definition create_writer :: "writer_type \<times> string" where
  "create_writer = (Value Done, '''')"

section \<open>JSON values\<close>

datatype json = JNull | JBoolean bool | JNumber int | JString string | JRaw string
  | JObject "(string \<times> json) list" | JArray "json list"

text \<open>The reference: the text of a value, and the calls that write it.\<close>

fun show_json :: "json \<Rightarrow> string" where
  "show_json JNull = ''null''"
| "show_json (JBoolean b) = (if b then ''true'' else ''false'')"
| "show_json (JNumber n) = show_int n"
| "show_json (JString s) = print_json_string s"
| "show_json (JRaw t) = t"
| "show_json (JObject ms) = ''{'' @ join_with '','' (map (\<lambda>(k, v). print_json_string k @ '':'' @ show_json v) ms) @ ''}''"
| "show_json (JArray vs) = ''['' @ join_with '','' (map show_json vs) @ '']''"

fun json_calls :: "json \<Rightarrow> writer_call list" where
  "json_calls JNull = [NullCall]"
| "json_calls (JBoolean b) = [BooleanCall b]"
| "json_calls (JNumber n) = [NumberCall n]"
| "json_calls (JString s) = [StringCall s]"
| "json_calls (JRaw t) = [RawJsonCall t]"
| "json_calls (JObject ms) = ObjectCall # concat (map (\<lambda>(k, v). PropCall k # json_calls v) ms) @ [EndObjectCall]"
| "json_calls (JArray vs) = ArrayCall # concat (map (\<lambda>v. ValueCall # json_calls v) vs) @ [EndArrayCall]"

lemma write_calls_append: "write_calls (xs @ ys) w = Option.bind (write_calls xs w) (write_calls ys)"
  by (induction xs arbitrary: w) (auto split: option.split)

section \<open>A value is written by its calls\<close>

definition member_text :: "string \<times> json \<Rightarrow> string" where
  "member_text m = print_json_string (fst m) @ '':'' @ show_json (snd m)"

definition member_calls :: "string \<times> json \<Rightarrow> writer_call list" where
  "member_calls m = PropCall (fst m) # json_calls (snd m)"

definition element_calls :: "json \<Rightarrow> writer_call list" where
  "element_calls v = ValueCall # json_calls v"

lemma show_json_object: "show_json (JObject ms) = ''{'' @ join_with '','' (map member_text ms) @ ''}''"
  and show_json_array: "show_json (JArray vs) = ''['' @ join_with '','' (map show_json vs) @ '']''"
  and json_calls_object: "json_calls (JObject ms) = ObjectCall # concat (map member_calls ms) @ [EndObjectCall]"
  and json_calls_array: "json_calls (JArray vs) = ArrayCall # concat (map element_calls vs) @ [EndArrayCall]"
  by (simp_all add: member_text_def [abs_def] member_calls_def [abs_def] element_calls_def [abs_def] case_prod_unfold)

lemma join_with_Cons: "join_with sep (x # xs) = x @ concat (map (\<lambda>y. sep @ y) xs)"
  by (induction xs arbitrary: x) auto

lemma write_members:
  assumes "\<And>m r out. m \<in> set ms \<Longrightarrow> write_calls (json_calls (snd m)) (Value r, out) = Some (r, out @ show_json (snd m))"
  shows "write_calls (concat (map member_calls ms)) (ObjectContinue r, out)
    = Some (ObjectContinue r, out @ concat (map (\<lambda>m. '','' @ member_text m) ms))"
  using assms
  by (induction ms arbitrary: out) (simp_all add: member_calls_def member_text_def write_calls_append)

lemma write_elements:
  assumes "\<And>v r out. v \<in> set vs \<Longrightarrow> write_calls (json_calls v) (Value r, out) = Some (r, out @ show_json v)"
  shows "write_calls (concat (map element_calls vs)) (ArrayContinue r, out)
    = Some (ArrayContinue r, out @ concat (map (\<lambda>v. '','' @ show_json v) vs))"
  using assms
  by (induction vs arbitrary: out) (simp_all add: element_calls_def write_calls_append)

lemma write_json: "write_calls (json_calls v) (Value r, out) = Some (r, out @ show_json v)"
proof (induction v arbitrary: r out)
  case (JObject ms)
  have IH: "write_calls (json_calls (snd m)) (Value r, out) = Some (r, out @ show_json (snd m))" if "m \<in> set ms" for m r out
    using JObject [of m "snd m"] that by (cases m) auto
  show ?case
  proof (cases ms)
    case Nil
    then show ?thesis by (simp add: json_calls_object show_json_object)
  next
    case (Cons m ms')
    then have "write_calls (concat (map member_calls ms')) (ObjectContinue r, out @ ''{'' @ member_text m)
        = Some (ObjectContinue r, out @ ''{'' @ member_text m @ concat (map (\<lambda>m. '','' @ member_text m) ms'))"
      using write_members [of ms' r "out @ ''{'' @ member_text m"] IH by simp
    then show ?thesis
      using Cons IH [of m "ObjectContinue r" "out @ ''{'' @ print_json_string (fst m) @ '':''"]
      unfolding json_calls_object show_json_object
      by (simp add: member_calls_def member_text_def write_calls_append join_with_Cons comp_def)
  qed
next
  case (JArray vs)
  show ?case
  proof (cases vs)
    case Nil
    then show ?thesis by (simp add: json_calls_array show_json_array)
  next
    case (Cons v vs')
    then have "write_calls (concat (map element_calls vs')) (ArrayContinue r, out @ ''['' @ show_json v)
        = Some (ArrayContinue r, out @ ''['' @ show_json v @ concat (map (\<lambda>v. '','' @ show_json v) vs'))"
      using write_elements [of vs' r "out @ ''['' @ show_json v"] JArray by simp
    then show ?thesis
      using Cons JArray [of v "ArrayContinue r" "out @ ''[''"]
      unfolding json_calls_array show_json_array
      by (simp add: element_calls_def write_calls_append join_with_Cons comp_def)
  qed
qed simp_all

section \<open>Whatever type-checks writes a value\<close>

text \<open>
  A complete sequence of calls from a writer of type \<open>Value r\<close> starts with the calls of a value; one
  from an object or array that has begun starts with the remaining members and the end.
\<close>

definition begins_value :: "writer_call list \<Rightarrow> bool" where
  "begins_value cs \<longleftrightarrow> (\<forall>r out out'. write_calls cs (Value r, out) = Some (Done, out') \<longrightarrow>
    (\<exists>v rest. cs = json_calls v @ rest))"

definition ends_object :: "writer_call list \<Rightarrow> bool" where
  "ends_object cs \<longleftrightarrow> (\<forall>r out out'. write_calls cs (ObjectContinue r, out) = Some (Done, out') \<longrightarrow>
    (\<exists>ms rest. cs = concat (map member_calls ms) @ EndObjectCall # rest))"

definition ends_array :: "writer_call list \<Rightarrow> bool" where
  "ends_array cs \<longleftrightarrow> (\<forall>r out out'. write_calls cs (ArrayContinue r, out) = Some (Done, out') \<longrightarrow>
    (\<exists>vs rest. cs = concat (map element_calls vs) @ EndArrayCall # rest))"

lemma after_value:
  "write_calls (json_calls v @ rest) (Value r, out) = Some (Done, out') \<Longrightarrow>
    write_calls rest (r, out @ show_json v) = Some (Done, out')"
  by (simp add: write_calls_append write_json)

lemma json_calls_nonempty: "json_calls v \<noteq> []"
  by (cases v) auto

lemma next_member:
  assumes "begins_value cs" "\<And>rest. length rest < length cs \<Longrightarrow> ends_object rest"
    "write_calls cs (Value (ObjectContinue r), out) = Some (Done, out')"
  shows "\<exists>v ms rest. cs = json_calls v @ concat (map member_calls ms) @ EndObjectCall # rest"
proof -
  obtain v rest where v: "cs = json_calls v @ rest" using assms(1,3) unfolding begins_value_def by blast
  then have "write_calls rest (ObjectContinue r, out @ show_json v) = Some (Done, out')"
    using assms(3) after_value by blast
  moreover have "ends_object rest" using assms(2) v json_calls_nonempty [of v] by simp
  ultimately show ?thesis unfolding ends_object_def v by blast
qed

lemma next_element:
  assumes "begins_value cs" "\<And>rest. length rest < length cs \<Longrightarrow> ends_array rest"
    "write_calls cs (Value (ArrayContinue r), out) = Some (Done, out')"
  shows "\<exists>v vs rest. cs = json_calls v @ concat (map element_calls vs) @ EndArrayCall # rest"
proof -
  obtain v rest where v: "cs = json_calls v @ rest" using assms(1,3) unfolding begins_value_def by blast
  then have "write_calls rest (ArrayContinue r, out @ show_json v) = Some (Done, out')"
    using assms(3) after_value by blast
  moreover have "ends_array rest" using assms(2) v json_calls_nonempty [of v] by simp
  ultimately show ?thesis unfolding ends_array_def v by blast
qed

lemma object_end:
  assumes "write_calls cs (t, out) = Some (Done, out')" "t \<in> {ObjectStart r, ObjectContinue r}"
    and "\<And>rest. length rest < length cs \<Longrightarrow> begins_value rest \<and> ends_object rest"
  shows "\<exists>ms rest. cs = concat (map member_calls ms) @ EndObjectCall # rest"
proof (cases cs)
  case Nil
  then show ?thesis using assms(1,2) by auto
next
  case (Cons c cs')
  show ?thesis
  proof (cases c)
    case (PropCall k)
    then obtain o1 where "write_calls cs' (Value (ObjectContinue r), o1) = Some (Done, out')"
      using assms(1,2) Cons by auto
    then obtain v ms rest where "cs' = json_calls v @ concat (map member_calls ms) @ EndObjectCall # rest"
      using next_member [of cs'] assms(3) Cons by fastforce
    then have "cs = concat (map member_calls ((k, v) # ms)) @ EndObjectCall # rest"
      using Cons PropCall by (simp add: member_calls_def)
    then show ?thesis by blast
  next
    case EndObjectCall
    then have "cs = concat (map member_calls []) @ EndObjectCall # cs'" using Cons by simp
    then show ?thesis by blast
  qed (use assms(1,2) Cons in auto)
qed

lemma array_end:
  assumes "write_calls cs (t, out) = Some (Done, out')" "t \<in> {ArrayStart r, ArrayContinue r}"
    and "\<And>rest. length rest < length cs \<Longrightarrow> begins_value rest \<and> ends_array rest"
  shows "\<exists>vs rest. cs = concat (map element_calls vs) @ EndArrayCall # rest"
proof (cases cs)
  case Nil
  then show ?thesis using assms(1,2) by auto
next
  case (Cons c cs')
  show ?thesis
  proof (cases c)
    case ValueCall
    then obtain o1 where "write_calls cs' (Value (ArrayContinue r), o1) = Some (Done, out')"
      using assms(1,2) Cons by auto
    then obtain v vs rest where "cs' = json_calls v @ concat (map element_calls vs) @ EndArrayCall # rest"
      using next_element [of cs'] assms(3) Cons by fastforce
    then have "cs = concat (map element_calls (v # vs)) @ EndArrayCall # rest"
      using Cons ValueCall by (simp add: element_calls_def)
    then show ?thesis by blast
  next
    case EndArrayCall
    then have "cs = concat (map element_calls []) @ EndArrayCall # cs'" using Cons by simp
    then show ?thesis by blast
  qed (use assms(1,2) Cons in auto)
qed

lemma value_start:
  assumes "write_calls (c # cs) (Value r, out) = Some (Done, out')"
    and IH: "\<And>rest. length rest < length (c # cs) \<Longrightarrow> begins_value rest \<and> ends_object rest \<and> ends_array rest"
  shows "\<exists>v rest. c # cs = json_calls v @ rest"
proof (cases c)
  case NullCall
  then show ?thesis by (intro exI [of _ JNull] exI [of _ cs]) simp
next
  case (BooleanCall b)
  then show ?thesis by (intro exI [of _ "JBoolean b"] exI [of _ cs]) simp
next
  case (NumberCall n)
  then show ?thesis by (intro exI [of _ "JNumber n"] exI [of _ cs]) simp
next
  case (StringCall s)
  then show ?thesis by (intro exI [of _ "JString s"] exI [of _ cs]) simp
next
  case (RawJsonCall t)
  then show ?thesis by (intro exI [of _ "JRaw t"] exI [of _ cs]) simp
next
  case ObjectCall
  then have "write_calls cs (ObjectStart r, out) = Some (Done, out')" using assms(1) by simp
  then obtain ms rest where "cs = concat (map member_calls ms) @ EndObjectCall # rest"
    using object_end [of cs "ObjectStart r"] IH by fastforce
  then have "c # cs = json_calls (JObject ms) @ rest" unfolding json_calls_object using ObjectCall by simp
  then show ?thesis by blast
next
  case ArrayCall
  then have "write_calls cs (ArrayStart r, out) = Some (Done, out')" using assms(1) by simp
  then obtain vs rest where "cs = concat (map element_calls vs) @ EndArrayCall # rest"
    using array_end [of cs "ArrayStart r"] IH by fastforce
  then have "c # cs = json_calls (JArray vs) @ rest" unfolding json_calls_array using ArrayCall by simp
  then show ?thesis by blast
qed (use assms(1) in auto)

lemma calls_decompose: "begins_value cs \<and> ends_object cs \<and> ends_array cs"
proof (induction cs rule: length_induct)
  case (1 cs)
  have "\<exists>ms rest. cs = concat (map member_calls ms) @ EndObjectCall # rest"
    if "write_calls cs (ObjectContinue r, out) = Some (Done, out')" for r out out'
    using object_end [OF that, of r] 1 by blast
  moreover have "\<exists>vs rest. cs = concat (map element_calls vs) @ EndArrayCall # rest"
    if "write_calls cs (ArrayContinue r, out) = Some (Done, out')" for r out out'
    using array_end [OF that, of r] 1 by blast
  moreover have "\<exists>v rest. cs = json_calls v @ rest" if "write_calls cs (Value r, out) = Some (Done, out')" for r out out'
  proof (cases cs)
    case (Cons c cs')
    then show ?thesis using value_start [of c cs' r out out'] that 1 by simp
  qed (use that in simp)
  ultimately show ?case unfolding begins_value_def ends_object_def ends_array_def by blast
qed

lemma done_stuck: "write_calls cs (Done, out) = Some w \<Longrightarrow> cs = [] \<and> w = (Done, out)"
proof (cases cs)
  case (Cons c cs')
  assume "write_calls cs (Done, out) = Some w"
  then show ?thesis using Cons by (cases c) auto
qed simp

section \<open>Properties\<close>


text \<open>
  \<open>print_json_string\<close>: a reader of JSON strings reads every byte string back, whatever follows,
  and what is printed has no control characters.
\<close>

theorem json_string_roundtrip:
  "print_json_string str = CHR 0x22 # body \<Longrightarrow> read_json_chars (body @ rest) = Some (str, rest)
    \<and> (\<forall>c \<in> set body. 32 \<le> (of_char c :: nat))"
proof -
  have "32 \<le> (of_char d :: nat)" if "d \<in> set (print_json_char c)" for c d
  proof -
    have "v < 16 \<Longrightarrow> 32 \<le> (of_char (to_hex_digit v) :: nat)" for v by (auto simp: to_hex_digit_def)
    then show ?thesis using that by (auto simp: print_json_char_def split: if_splits)
  qed
  moreover assume "print_json_string str = CHR 0x22 # body"
  ultimately show ?thesis using read_print_json_string [of str rest] by (auto simp: print_json_string_def)
qed

theorem json_string_roundtrip_witness:
  "read_json_chars (tl (print_json_string [CHR ''a'', CHR 0x22, CHR 0x01]) @ '': 1'') = Some ([CHR ''a'', CHR 0x22, CHR 0x01], '': 1'')"
  using json_string_roundtrip [of "[CHR ''a'', CHR 0x22, CHR 0x01]" "tl (print_json_string [CHR ''a'', CHR 0x22, CHR 0x01])"]
  by (simp add: print_json_string_def)

end
