(* ===== verification/Request_Logger.thy ===== *)
theory Request_Logger
  imports Services Json_Writer
begin

text \<open>
  \<open>service/tracking.cpp\<close> and \<open>service/RequestLogger\<close>: a service that logs every request and every
  error as a line of JSON and otherwise behaves like the service it wraps.  The clock and the
  conversion of protobuf messages to JSON are parameters; the log files are the lists of their lines.
\<close>

section \<open>Tracking ids\<close>

definition lower_hex :: "char \<Rightarrow> bool" where
  "lower_hex c \<longleftrightarrow> (let n = of_char c :: nat in 48 \<le> n \<and> n \<le> 57 \<or> 97 \<le> n \<and> n \<le> 102)"

definition upper_hex :: "char \<Rightarrow> bool" where
  "upper_hex c \<longleftrightarrow> (let n = of_char c :: nat in 65 \<le> n \<and> n \<le> 70)"

definition is_valid_tracking_id :: "string \<Rightarrow> bool" where
  "is_valid_tracking_id id' \<longleftrightarrow> (if length id' \<noteq> 32 then False else list_all (\<lambda>c. lower_hex c \<or> upper_hex c) id')"

definition tracking_key :: string where
  "tracking_key = ''netspeak-tracking-id''"

text \<open>The context of a client is its metadata.\<close>

definition set_tracking_id :: "metadata \<Rightarrow> string \<Rightarrow> metadata" where
  "set_tracking_id context id' = (if is_valid_tracking_id id' then context(tracking_key \<mapsto> id') else context)"

fun tracking_loop :: "string \<Rightarrow> string \<Rightarrow> string" where
  "tracking_loop tracking_id [] = tracking_id"
| "tracking_loop tracking_id (c # cs) =
    (if lower_hex c then tracking_loop (tracking_id @ [c]) cs
     else if upper_hex c then tracking_loop (tracking_id @ [char_of (97 + of_char c - 65 :: nat)]) cs
     else '''')"

definition get_tracking_id :: "metadata \<Rightarrow> string" where
  "get_tracking_id context =
    (case context tracking_key of
       None \<Rightarrow> ''''
     | Some id_raw \<Rightarrow> if length id_raw = 32 then tracking_loop '''' id_raw else '''')"

definition lower_hex_char :: "char \<Rightarrow> char" where
  "lower_hex_char c = (if upper_hex c then char_of (of_char c + 32 :: nat) else c)"

lemma tracking_loop_lower:
  "tracking_loop t cs = (if list_all (\<lambda>c. lower_hex c \<or> upper_hex c) cs then t @ map lower_hex_char cs else '''')"
proof (induction cs arbitrary: t)
  case (Cons c cs)
  show ?case
  proof (cases "lower_hex c")
    case True
    then have "\<not> upper_hex c" by (auto simp: lower_hex_def upper_hex_def Let_def)
    then show ?thesis using True Cons by (simp add: lower_hex_char_def)
  next
    case False
    have "upper_hex c \<Longrightarrow> char_of (97 + of_char c - 65 :: nat) = lower_hex_char c"
      by (simp add: lower_hex_char_def add.commute)
    then show ?thesis using False Cons by simp
  qed
qed simp

lemma lower_hex_lower: "lower_hex c \<or> upper_hex c \<Longrightarrow> lower_hex (lower_hex_char c) \<and> (lower_hex c \<longrightarrow> lower_hex_char c = c)"
  by (auto simp: lower_hex_char_def lower_hex_def upper_hex_def Let_def)

section \<open>The log lines\<close>

text \<open>\<open>MessageToJsonString\<close> of the three kinds of messages.\<close>

record message_json =
  search_request_json :: "service_request \<Rightarrow> string"
  corpora_request_json :: string
  search_response_json :: "search_response \<Rightarrow> string"

definition log_boilerplate :: "string \<Rightarrow> u64 \<Rightarrow> string \<Rightarrow> string \<Rightarrow> writer_call list" where
  "log_boilerplate timestamp req_id user message =
    [ObjectCall, PropCall ''timestamp'', StringCall timestamp, PropCall ''req_id'', NumberCall (uint req_id),
     PropCall ''user'', StringCall user, PropCall ''message'', RawJsonCall message]"

fun log_error_status :: "grpc_status \<Rightarrow> writer_call list" where
  "log_error_status StatusOk = []"
| "log_error_status (StatusError code message details) =
    [PropCall ''status'', ObjectCall, PropCall ''code'', NumberCall code, PropCall ''message'', StringCall message,
     PropCall ''details'', StringCall details, EndObjectCall]"

definition written :: "writer_call list \<Rightarrow> string" where
  "written calls = (case write_calls calls create_writer of Some (Done, out) \<Rightarrow> out | _ \<Rightarrow> '''')"

record 's request_logger =
  rl_service :: 's
  rl_req_counter :: u64
  rl_clock :: nat
  rl_search_req :: "string list"
  rl_search_error :: "string list"
  rl_corpora_req :: "string list"
  rl_corpora_error :: "string list"

definition new_request_logger :: "'s \<Rightarrow> 's request_logger" where
  "new_request_logger s = \<lparr>rl_service = s, rl_req_counter = 0, rl_clock = 0, rl_search_req = [], rl_search_error = [],
    rl_corpora_req = [], rl_corpora_error = []\<rparr>"

definition has_error :: "search_response \<Rightarrow> bool" where
  "has_error r \<longleftrightarrow> (case r of ErrorResponse _ _ \<Rightarrow> True | _ \<Rightarrow> False)"

definition logger_search :: "(nat \<Rightarrow> string) \<Rightarrow> message_json \<Rightarrow> ('s \<Rightarrow> service_request \<Rightarrow> (search_answer \<times> 's) option)
    \<Rightarrow> 's request_logger \<Rightarrow> service_request \<Rightarrow> (search_answer \<times> 's request_logger) option" where
  "logger_search time js search_call l rq =
    (let user = get_tracking_id (sq_metadata rq);
         req_id = rl_req_counter l;
         line = written (log_boilerplate (time (rl_clock l)) req_id user (search_request_json js rq) @ [EndObjectCall]);
         l = l\<lparr>rl_req_counter := req_id + 1, rl_clock := Suc (rl_clock l), rl_search_req := rl_search_req l @ [line]\<rparr>
     in case search_call (rl_service l) rq of
          None \<Rightarrow> None
        | Some ((status, response), s) \<Rightarrow>
            let l = l\<lparr>rl_service := s\<rparr> in
            Some ((status, response),
              if status \<noteq> StatusOk \<or> has_error response
              then l\<lparr>rl_clock := Suc (rl_clock l), rl_search_error := rl_search_error l @
                [written (log_boilerplate (time (rl_clock l)) req_id user (search_request_json js rq)
                  @ (if status \<noteq> StatusOk then log_error_status status else [])
                  @ (if has_error response then [PropCall ''error_message'', RawJsonCall (search_response_json js response)] else [])
                  @ [EndObjectCall])]\<rparr>
              else l))"

definition logger_corpora :: "(nat \<Rightarrow> string) \<Rightarrow> message_json \<Rightarrow> ('s \<Rightarrow> metadata \<Rightarrow> corpora_answer \<times> 's)
    \<Rightarrow> 's request_logger \<Rightarrow> metadata \<Rightarrow> corpora_answer \<times> 's request_logger" where
  "logger_corpora time js corpora_call l md =
    (let user = get_tracking_id md;
         req_id = rl_req_counter l;
         line = written (log_boilerplate (time (rl_clock l)) req_id user (corpora_request_json js) @ [EndObjectCall]);
         l = l\<lparr>rl_req_counter := req_id + 1, rl_clock := Suc (rl_clock l), rl_corpora_req := rl_corpora_req l @ [line]\<rparr>;
         ((status, cs), s) = corpora_call (rl_service l) md;
         l = l\<lparr>rl_service := s\<rparr>
     in ((status, cs),
       if status \<noteq> StatusOk
       then l\<lparr>rl_clock := Suc (rl_clock l), rl_corpora_error := rl_corpora_error l @
         [written (log_boilerplate (time (rl_clock l)) req_id user (corpora_request_json js) @ log_error_status status @ [EndObjectCall])]\<rparr>
       else l))"

text \<open>The reference: the values that the lines are the texts of.\<close>

definition log_members :: "string \<Rightarrow> u64 \<Rightarrow> string \<Rightarrow> string \<Rightarrow> (string \<times> json) list" where
  "log_members timestamp req_id user message =
    [(''timestamp'', JString timestamp), (''req_id'', JNumber (uint req_id)), (''user'', JString user), (''message'', JRaw message)]"

fun status_members :: "grpc_status \<Rightarrow> (string \<times> json) list" where
  "status_members StatusOk = []"
| "status_members (StatusError code message details) =
    [(''status'', JObject [(''code'', JNumber code), (''message'', JString message), (''details'', JString details)])]"

definition error_members :: "message_json \<Rightarrow> search_response \<Rightarrow> (string \<times> json) list" where
  "error_members js response = (if has_error response then [(''error_message'', JRaw (search_response_json js response))] else [])"

lemma written_json: "written (json_calls v) = show_json v"
  by (simp add: written_def create_writer_def write_json)

lemma log_calls:
  "log_boilerplate timestamp req_id user message @ log_error_status status
    @ concat (map member_calls rest) @ [EndObjectCall]
    = json_calls (JObject (log_members timestamp req_id user message @ status_members status @ rest))"
  unfolding json_calls_object
  by (cases status) (simp_all add: log_boilerplate_def log_members_def member_calls_def)

lemma log_line:
  "written (log_boilerplate timestamp req_id user message @ log_error_status status
      @ concat (map member_calls rest) @ [EndObjectCall])
    = show_json (JObject (log_members timestamp req_id user message @ status_members status @ rest))"
  unfolding log_calls written_json ..

lemma search_line:
  "written (log_boilerplate timestamp req_id user message @ [EndObjectCall])
    = show_json (JObject (log_members timestamp req_id user message))"
  using log_line [of timestamp req_id user message StatusOk "[]"] by simp

lemma corpora_error_line:
  "written (log_boilerplate timestamp req_id user message @ log_error_status status @ [EndObjectCall])
    = show_json (JObject (log_members timestamp req_id user message @ status_members status))"
  using log_line [of timestamp req_id user message status "[]"] by simp

lemma search_error_line:
  "written (log_boilerplate timestamp req_id user message
      @ (if status \<noteq> StatusOk then log_error_status status else [])
      @ (if has_error response then [PropCall ''error_message'', RawJsonCall (search_response_json js response)] else [])
      @ [EndObjectCall])
    = show_json (JObject (log_members timestamp req_id user message @ status_members status @ error_members js response))"
proof -
  have "(if status \<noteq> StatusOk then log_error_status status else []) = log_error_status status" by (cases status) simp_all
  moreover have "(if has_error response then [PropCall ''error_message'', RawJsonCall (search_response_json js response)] else [])
      = concat (map member_calls (error_members js response))"
    by (simp add: error_members_def member_calls_def)
  ultimately show ?thesis
    using log_line [of timestamp req_id user message status "error_members js response"] by simp
qed

section \<open>The logger keeps the contract of the service\<close>

locale logged_service = inner: corpus_service search_call corpora_call corpora service_ok
  for search_call :: "'s \<Rightarrow> service_request \<Rightarrow> (search_answer \<times> 's) option"
    and corpora_call :: "'s \<Rightarrow> metadata \<Rightarrow> corpora_answer \<times> 's"
    and corpora :: "'s \<Rightarrow> corpus list" and service_ok :: "'s \<Rightarrow> bool" +
  fixes time :: "nat \<Rightarrow> string" and js :: message_json

context logged_service begin

lemma logger_search_forwards:
  "map_option (\<lambda>(a, l). (a, rl_service l)) (logger_search time js search_call l rq) = search_call (rl_service l) rq"
  by (auto simp: logger_search_def Let_def split: option.split prod.split)

lemma logger_search_Some:
  "logger_search time js search_call l rq = Some (a, l') \<Longrightarrow> search_call (rl_service l) rq = Some (a, rl_service l')"
  by (metis (no_types, lifting) case_prod_conv logger_search_forwards option.simps(9))

lemma logger_corpora_forwards:
  "logger_corpora time js corpora_call l md = (a, l') \<Longrightarrow> corpora_call (rl_service l) md = (a, rl_service l')"
  by (auto simp: logger_corpora_def Let_def split: prod.splits if_splits)

end

sublocale logged_service \<subseteq> outer: corpus_service "logger_search time js search_call" "logger_corpora time js corpora_call"
  "\<lambda>l. corpora (rl_service l)" "\<lambda>l. service_ok (rl_service l)"
proof
  fix l :: "'s request_logger" and rq a l' st r m md b
  assume ok: "service_ok (rl_service l)"
  show "service_ok (rl_service l') \<and> corpora (rl_service l') = corpora (rl_service l)"
    if "logger_search time js search_call l rq = Some (a, l')"
    using inner.search_keeps [OF ok logger_search_Some [OF that]] .
  show "map_option fst (logger_search time js search_call l rq) = Some unknown_corpus_answer"
    if "sq_corpus rq \<notin> co_key ` set (corpora (rl_service l))"
  proof -
    have "map_option fst (logger_search time js search_call l rq)
        = map_option fst (map_option (\<lambda>(a, l). (a, rl_service l)) (logger_search time js search_call l rq))"
      by (simp add: option.map_comp comp_def case_prod_unfold)
    then show ?thesis using inner.unknown_corpus [OF ok that] unfolding logger_search_forwards by simp
  qed
  show "r \<noteq> ErrorResponse InvalidCorpusKind m"
    if "sq_corpus rq \<in> co_key ` set (corpora (rl_service l))" "logger_search time js search_call l rq = Some ((st, r), l')"
    using inner.known_corpus [OF ok that(1) logger_search_Some [OF that(2)]] .
  show "b = (StatusOk, corpora (rl_service l)) \<and> service_ok (rl_service l') \<and> corpora (rl_service l') = corpora (rl_service l)"
    if "logger_corpora time js corpora_call l md = (b, l')"
    using inner.corpora_listed [OF ok logger_corpora_forwards [OF that]] .
qed

interpretation lum: logged_service "unique_map_search parse" unique_map_corpora um_corpora unique_map_ok time js
  for parse time js ..

interpretation llb: logged_service "proxy_search (server_call parse) hash" proxy_corpora "\<lambda>s. lb_corpora (fst s)" proxy_ok time js
  for parse hash time js ..

text \<open>The lines of a run: one per request, with consecutive numbers.\<close>

definition request_line :: "message_json \<Rightarrow> string \<Rightarrow> u64 \<Rightarrow> service_request \<Rightarrow> string" where
  "request_line js timestamp req_id rq =
    show_json (JObject (log_members timestamp req_id (get_tracking_id (sq_metadata rq)) (search_request_json js rq)))"

definition error_line :: "message_json \<Rightarrow> string \<Rightarrow> u64 \<Rightarrow> service_request \<Rightarrow> search_answer \<Rightarrow> string" where
  "error_line js timestamp req_id rq a =
    show_json (JObject (log_members timestamp req_id (get_tracking_id (sq_metadata rq)) (search_request_json js rq)
      @ status_members (fst a) @ error_members js (snd a)))"

definition failed :: "search_answer \<Rightarrow> bool" where
  "failed a \<longleftrightarrow> fst a \<noteq> StatusOk \<or> has_error (snd a)"

lemma logger_search_step:
  assumes "logger_search time js search_call l rq = Some (a, l')"
  shows "search_call (rl_service l) rq = Some (a, rl_service l')"
    and "rl_req_counter l' = rl_req_counter l + 1"
    and "rl_search_req l' = rl_search_req l @ [request_line js (time (rl_clock l)) (rl_req_counter l) rq]"
    and "rl_search_error l' = rl_search_error l
      @ (if failed a then [error_line js (time (Suc (rl_clock l))) (rl_req_counter l) rq a] else [])"
proof -
  obtain status response s where c: "search_call (rl_service l) rq = Some ((status, response), s)"
    using assms by (auto simp: logger_search_def Let_def split: option.splits prod.splits)
  have a: "a = (status, response)" using assms c by (auto simp: logger_search_def Let_def)
  then show "search_call (rl_service l) rq = Some (a, rl_service l')"
    using assms c by (auto simp: logger_search_def Let_def)
  show "rl_req_counter l' = rl_req_counter l + 1"
    "rl_search_req l' = rl_search_req l @ [request_line js (time (rl_clock l)) (rl_req_counter l) rq]"
    using assms c by (auto simp: logger_search_def Let_def request_line_def search_line)
  show "rl_search_error l' = rl_search_error l
      @ (if failed a then [error_line js (time (Suc (rl_clock l))) (rl_req_counter l) rq a] else [])"
  proof (cases "failed a")
    case True
    then have "status \<noteq> StatusOk \<or> has_error response" using a by (simp add: failed_def)
    then show ?thesis using assms c True a unfolding logger_search_def Let_def search_error_line error_line_def by auto
  next
    case False
    then have "status = StatusOk \<and> \<not> has_error response" using a by (simp add: failed_def)
    then show ?thesis using assms c False by (auto simp: logger_search_def Let_def)
  qed
qed

lemma logger_run:
  "serve (logger_search time js call) l rqs = Some (as, l') \<Longrightarrow>
    serve call (rl_service l) rqs = Some (as, rl_service l')
    \<and> rl_req_counter l' = rl_req_counter l + of_nat (length rqs)
    \<and> (\<exists>ts. length ts = length rqs \<and> rl_search_req l' = rl_search_req l
        @ map (\<lambda>i. request_line js (ts ! i) (rl_req_counter l + of_nat i) (rqs ! i)) [0..<length rqs])
    \<and> length (rl_search_error l') = length (rl_search_error l) + length (filter failed as)"
proof (induction rqs arbitrary: l as)
  case (Cons rq rqs)
  then obtain a l1 bs where s1: "logger_search time js call l rq = Some (a, l1)"
    "serve (logger_search time js call) l1 rqs = Some (bs, l')" "as = a # bs"
    by (auto split: option.splits)
  note step = logger_search_step [OF s1(1)]
  from Cons.IH [OF s1(2)] obtain ts where IH: "serve call (rl_service l1) rqs = Some (bs, rl_service l')"
    "rl_req_counter l' = rl_req_counter l1 + of_nat (length rqs)" "length ts = length rqs"
    "rl_search_req l' = rl_search_req l1 @ map (\<lambda>i. request_line js (ts ! i) (rl_req_counter l1 + of_nat i) (rqs ! i)) [0..<length rqs]"
    "length (rl_search_error l') = length (rl_search_error l1) + length (filter failed bs)" by blast
  have "rl_search_req l' = rl_search_req l
      @ map (\<lambda>i. request_line js ((time (rl_clock l) # ts) ! i) (rl_req_counter l + of_nat i) ((rq # rqs) ! i)) [0..<length (rq # rqs)]"
    unfolding IH(4) step(2,3) by (simp add: upt_conv_Cons map_Suc_upt [symmetric] add.assoc del: upt_Suc)
  moreover have "length (time (rl_clock l) # ts) = length (rq # rqs)" using IH(3) by simp
  ultimately have "\<exists>ts. length ts = length (rq # rqs) \<and> rl_search_req l' = rl_search_req l
      @ map (\<lambda>i. request_line js (ts ! i) (rl_req_counter l + of_nat i) ((rq # rqs) ! i)) [0..<length (rq # rqs)]" by blast
  moreover have "serve call (rl_service l) (rq # rqs) = Some (as, rl_service l')"
    using step(1) IH(1) s1(3) by simp
  ultimately show ?case using step(2,4) IH(2,5) s1(3) by (simp add: algebra_simps)
qed simp

lemma logger_search_defined: "call (rl_service l) rq = Some (a, s) \<Longrightarrow> \<exists>l'. logger_search time js call l rq = Some (a, l') \<and> rl_service l' = s"
  by (cases a) (auto simp: logger_search_def Let_def)

lemma logger_run_defined:
  "serve call (rl_service l) rqs = Some (as, s) \<Longrightarrow> \<exists>l'. serve (logger_search time js call) l rqs = Some (as, l')"
proof (induction rqs arbitrary: l as)
  case (Cons rq rqs)
  then obtain a s1 bs where s1: "call (rl_service l) rq = Some (a, s1)" "serve call s1 rqs = Some (bs, s)" "as = a # bs"
    by (auto split: option.splits)
  obtain l1 where l1: "logger_search time js call l rq = Some (a, l1)" "rl_service l1 = s1"
    using logger_search_defined [of call l rq a s1 time js] s1(1) by blast
  obtain l' where "serve (logger_search time js call) l1 rqs = Some (bs, l')"
    using Cons.IH [of l1 bs] s1(2) l1(2) by blast
  then show ?case using l1(1) s1(3) by simp
qed simp

section \<open>Properties\<close>


definition ex_js :: message_json where
  "ex_js = \<lparr>search_request_json = (\<lambda>rq. ''{}''), corpora_request_json = ''{}'', search_response_json = (\<lambda>r. ''{}'')\<rparr>"


text \<open>
  Tracking ids: a valid id that a client has set is read by the server in lower case; what the
  server reads is always empty or 32 lower-case hexadecimal digits.
\<close>

theorem tracking_id_roundtrip:
  "(is_valid_tracking_id i \<longrightarrow> get_tracking_id (set_tracking_id context i) = map lower_hex_char i)
    \<and> (get_tracking_id context = '''' \<or> length (get_tracking_id context) = 32 \<and> list_all lower_hex (get_tracking_id context))"
  using lower_hex_lower
  by (auto simp: is_valid_tracking_id_def get_tracking_id_def set_tracking_id_def tracking_loop_lower list_all_iff split: option.split)

theorem tracking_id_roundtrip_witness:
  "get_tracking_id (set_tracking_id Map.empty (replicate 32 CHR ''A'')) = replicate 32 CHR ''a''"
proof -
  have "upper_hex CHR ''A''" "lower_hex_char CHR ''A'' = CHR ''a''" by code_simp+
  then show ?thesis
    using tracking_id_roundtrip [THEN conjunct1, rule_format, of "replicate 32 CHR ''A''" Map.empty]
    by (simp add: is_valid_tracking_id_def list_all_iff)
qed

end
