(* ===== verification/Properties_Format.thy ===== *)
theory Properties_Format
  imports Texts
begin

text \<open>
  \<open>util/PropertiesFormat\<close>: reading and writing of \<open>.properties\<close> files.  An input stream is the number
  of characters that have been read and the characters that are left; \<open>in.good()\<close> after a \<open>peek\<close> is
  that some are left.  A position in a message is -1 after the end of the file, as \<open>tellg()\<close> has it.
  A \<open>char\<close> is signed.
\<close>

type_synonym stream = "nat \<times> string"

definition is_space :: "char \<Rightarrow> bool" where
  "is_space c \<longleftrightarrow> c = CHR '' '' \<or> c = CHR 0x09"

definition is_line_break :: "char \<Rightarrow> bool" where
  "is_line_break c \<longleftrightarrow> c = CHR 0x0D \<or> c = CHR 0x0A"

definition is_delimiter :: "char \<Rightarrow> bool" where
  "is_delimiter c \<longleftrightarrow> c = CHR ''='' \<or> c = CHR '':''"

definition signed_char :: "char \<Rightarrow> int" where
  "signed_char c = (let n = int (of_char c) in if n < 128 then n else n - 256)"

section \<open>Reading\<close>

fun consume_spaces :: "nat \<Rightarrow> string \<Rightarrow> stream" where
  "consume_spaces p [] = (p, [])"
| "consume_spaces p (c # cs) = (if is_space c then consume_spaces (Suc p) cs else (p, c # cs))"

fun consume_comment :: "nat \<Rightarrow> string \<Rightarrow> stream" where
  "consume_comment p [] = (p, [])"
| "consume_comment p (c # cs) = (if is_line_break c then (Suc p, cs) else consume_comment (Suc p) cs)"

lemma consume_spaces_length: "length (snd (consume_spaces p cs)) \<le> length cs"
  by (induction p cs rule: consume_spaces.induct) auto

lemma consume_comment_length: "length (snd (consume_comment p cs)) \<le> length cs"
  by (induction p cs rule: consume_comment.induct) auto

lemma consume_comment_shorter: "consume_comment p cs = (q, r) \<Longrightarrow> length r < Suc (length cs)"
  using consume_comment_length [of p cs] by simp

function consume_before_key :: "nat \<Rightarrow> string \<Rightarrow> stream" where
  "consume_before_key p [] = (p, [])"
| "consume_before_key p (c # cs) =
    (if is_space c \<or> is_line_break c then consume_before_key (Suc p) cs
     else if c = CHR ''#'' \<or> c = CHR ''!'' then
       (let (q, r) = consume_comment (Suc p) cs in consume_before_key q r)
     else (p, c # cs))"
  by pat_completeness auto
termination
  by (relation "measure (\<lambda>(p, cs). length cs)") (auto split: prod.splits intro: consume_comment_shorter)

definition position :: "nat \<Rightarrow> string" where
  "position p = '' at '' @ show_nat p"

definition consume_delimiter :: "nat \<Rightarrow> string \<Rightarrow> stream result" where
  "consume_delimiter p r =
    (case r of
       [] \<Rightarrow> Inl (RuntimeError ''Unexpected EOF after key at -1'')
     | c # cs \<Rightarrow>
         if is_delimiter c then Inr (consume_spaces (Suc p) cs)
         else if is_space c then
           (let (q, r) = consume_spaces (Suc p) cs in
            case r of
              [] \<Rightarrow> Inr (q, r)
            | d # ds \<Rightarrow> if is_delimiter d then Inr (consume_spaces (Suc q) ds) else Inr (q, r))
         else Inl (RuntimeError (''Unexpected character after key'' @ position (Suc p))))"

definition hex_digit :: "char \<Rightarrow> u16 option" where
  "hex_digit c = (let n = of_char c :: nat in
    if 48 \<le> n \<and> n \<le> 57 then Some (of_nat (n - 48))
    else if 65 \<le> n \<and> n \<le> 70 then Some (10 + of_nat (n - 65))
    else if 97 \<le> n \<and> n \<le> 102 then Some (10 + of_nat (n - 97))
    else None)"

text \<open>The loop over the four digits; the first argument is the number of digits left.\<close>

fun unicode_loop :: "nat \<Rightarrow> u16 \<Rightarrow> nat \<Rightarrow> string \<Rightarrow> (stream \<times> u16) result" where
  "unicode_loop 0 escaped p r = Inr ((p, r), escaped)"
| "unicode_loop (Suc n) escaped p [] = Inl (RuntimeError ''Unexpected EOF during Unicode escape at -1'')"
| "unicode_loop (Suc n) escaped p (c # cs) =
    (case hex_digit c of
       None \<Rightarrow> Inl (RuntimeError (''Unexpected character during Unicode escape'' @ position (Suc p)))
     | Some d \<Rightarrow> unicode_loop n (or (push_bit 4 escaped) d) (Suc p) cs)"

text \<open>\<open>read_escaped\<close>: the stream after the escape and the characters it stands for.\<close>

definition read_escaped :: "nat \<Rightarrow> string \<Rightarrow> (stream \<times> string) result" where
  "read_escaped p r =
    (case r of
       [] \<Rightarrow> Inl (RuntimeError ''Unexpected EOF during escape at -1'')
     | c # cs \<Rightarrow>
         if c = CHR ''u'' then
           rbind (unicode_loop 4 0 (Suc p) cs) (\<lambda>((q, r), escaped).
             if escaped \<ge> 128 then Inl (RuntimeError (''Right now, only ASCII characters can be escape'' @ position q))
             else Inr ((q, r), [char_of (unat escaped)]))
         else if c = CHR 0x0A then Inr (consume_spaces (Suc p) cs, [])
         else if c = CHR 0x0D then
           (case cs of
              [] \<Rightarrow> Inr (consume_spaces (Suc p) cs, [])
            | d # ds \<Rightarrow> if d = CHR 0x0A then Inr (consume_spaces (Suc (Suc p)) ds, []) else Inr (consume_spaces (Suc p) cs, []))
         else Inr ((Suc p, cs), [c]))"

lemma unicode_loop_length: "unicode_loop n e p r = Inr (s, x) \<Longrightarrow> length (snd s) \<le> length r"
  by (induction n e p r rule: unicode_loop.induct) (auto split: option.splits)

lemma read_escaped_length: "read_escaped p r = Inr (s, x) \<Longrightarrow> length (snd s) < length r"
proof -
  assume e: "read_escaped p r = Inr (s, x)"
  then obtain c cs where r: "r = c # cs" by (auto simp: read_escaped_def split: list.splits)
  consider "c = CHR ''u''" | "c \<noteq> CHR ''u''" by blast
  then show ?thesis
  proof cases
    case 1
    then obtain q r' escaped where "unicode_loop 4 0 (Suc p) cs = Inr ((q, r'), escaped)" "s = (q, r')"
      using e r by (auto simp: read_escaped_def split: if_splits)
    from unicode_loop_length [OF this(1)] this(2) show ?thesis using r by simp
  next
    case 2
    have "length (snd s) \<le> length cs"
      using e r 2 consume_spaces_length [of "Suc p" cs] consume_spaces_length [of "Suc (Suc p)" "tl cs"]
      by (auto simp: read_escaped_def split: if_splits list.splits)
    then show ?thesis using r by simp
  qed
qed

function read_key :: "string \<Rightarrow> nat \<Rightarrow> string \<Rightarrow> (stream \<times> string) result" where
  "read_key key p [] = Inl (RuntimeError ''Unexpected EOF after key at -1'')"
| "read_key key p (c # cs) =
    (if c = CHR 0x5C then
       (case read_escaped (Suc p) cs of Inl e \<Rightarrow> Inl e | Inr ((q, r), x) \<Rightarrow> read_key (key @ x) q r)
     else if is_line_break c then Inl (RuntimeError (''Unexpected line break after key'' @ position p))
     else if is_delimiter c \<or> is_space c then Inr ((p, c # cs), key)
     else read_key (key @ [c]) (Suc p) cs)"
  by pat_completeness auto
termination
  by (relation "measure (\<lambda>(key, p, cs). length cs)") (auto dest: read_escaped_length)

function read_value :: "string \<Rightarrow> nat \<Rightarrow> string \<Rightarrow> (stream \<times> string) result" where
  "read_value v p [] = Inr ((p, []), v)"
| "read_value v p (c # cs) =
    (if is_line_break c then Inr ((p, c # cs), v)
     else if c = CHR 0x5C then
       (case read_escaped (Suc p) cs of Inl e \<Rightarrow> Inl e | Inr ((q, r), x) \<Rightarrow> read_value (v @ x) q r)
     else read_value (v @ [c]) (Suc p) cs)"
  by pat_completeness auto
termination
  by (relation "measure (\<lambda>(key, p, cs). length cs)") (auto dest: read_escaped_length)

lemma consume_before_key_length: "length (snd (consume_before_key p cs)) \<le> length cs"
proof (induction p cs rule: consume_before_key.induct)
  case (2 p c cs)
  obtain q r where c: "consume_comment (Suc p) cs = (q, r)" by (cases "consume_comment (Suc p) cs")
  consider "is_space c \<or> is_line_break c" | "\<not> (is_space c \<or> is_line_break c)" "c = CHR ''#'' \<or> c = CHR ''!''"
    | "\<not> (is_space c \<or> is_line_break c)" "\<not> (c = CHR ''#'' \<or> c = CHR ''!'')" by blast
  then show ?case
  proof cases
    case 1
    then show ?thesis using "2.IH"(1) by simp
  next
    case 2
    then have "length (snd (consume_before_key q r)) \<le> length r" using "2.IH"(2) [OF 2 refl c [symmetric]] by simp
    moreover have "length r < Suc (length cs)" by (rule consume_comment_shorter [OF c])
    ultimately show ?thesis using 2 c by simp
  qed simp
qed simp

lemma read_key_length: "read_key key p r = Inr (s, k) \<Longrightarrow> length (snd s) \<le> length r"
proof (induction key p r rule: read_key.induct)
  case (2 key p c cs)
  show ?case
  proof (cases "read_escaped (Suc p) cs")
    case (Inl e)
    then show ?thesis using 2 by (auto split: if_splits)
  next
    case (Inr y)
    obtain q r x where y: "y = ((q, r), x)" by (cases y) auto
    have "length r < length cs" using read_escaped_length [of "Suc p" cs "(q, r)" x] Inr y by simp
    then show ?thesis using 2 Inr y by (fastforce split: if_splits)
  qed
qed simp

lemma read_value_length: "read_value v p r = Inr (s, k) \<Longrightarrow> length (snd s) \<le> length r"
proof (induction v p r rule: read_value.induct)
  case (2 v p c cs)
  show ?case
  proof (cases "read_escaped (Suc p) cs")
    case (Inl e)
    then show ?thesis using 2 by (auto split: if_splits)
  next
    case (Inr y)
    obtain q r x where y: "y = ((q, r), x)" by (cases y) auto
    have "length r < length cs" using read_escaped_length [of "Suc p" cs "(q, r)" x] Inr y by simp
    then show ?thesis using 2 Inr y by (fastforce split: if_splits)
  qed
qed auto

lemma consume_delimiter_length: "consume_delimiter p r = Inr s \<Longrightarrow> length (snd s) < length r"
proof -
  assume e: "consume_delimiter p r = Inr s"
  then obtain c cs where r: "r = c # cs" by (auto simp: consume_delimiter_def split: list.splits)
  obtain q u where u: "consume_spaces (Suc p) cs = (q, u)" by (cases "consume_spaces (Suc p) cs")
  have 1: "length (snd (consume_spaces (Suc p) cs)) < Suc (length cs)"
    using consume_spaces_length [of "Suc p" cs] by simp
  have 2: "length (snd (consume_spaces (Suc q) ds)) < Suc (length cs)" if "u = d # ds" for d ds
    using consume_spaces_length [of "Suc q" ds] 1 u that by simp
  from e have "s = consume_spaces (Suc p) cs \<or> (\<exists>d ds. u = d # ds \<and> s = consume_spaces (Suc q) ds) \<or> s = (q, u)"
    using u by (simp add: consume_delimiter_def r split: if_splits list.splits)
  then show ?thesis using 1 2 u r by auto
qed

text \<open>\<open>read_properties\<close>: the pairs in the order in which they are given to the inserter.\<close>

function read_properties :: "nat \<Rightarrow> string \<Rightarrow> (string \<times> string) list result" where
  "read_properties p r =
    (let (p, r) = consume_before_key p r in
     if r = [] then Inr []
     else case read_key [] p r of
       Inl e \<Rightarrow> Inl e
     | Inr ((p1, r1), key) \<Rightarrow>
         (case consume_delimiter p1 r1 of
            Inl e \<Rightarrow> Inl e
          | Inr (p2, r2) \<Rightarrow>
              (case read_value [] p2 r2 of
                 Inl e \<Rightarrow> Inl e
               | Inr ((p3, r3), v) \<Rightarrow> rbind (read_properties p3 r3) (\<lambda>ps. Inr ((key, v) # ps)))))"
  by pat_completeness auto
termination
proof (relation "measure (\<lambda>(p, cs). length cs)")
  fix p r x p' r' b k p1 r1 key c p2 r2 d w p3 r3 v
  show "((p3, r3), p, r) \<in> measure (\<lambda>(p, cs). length cs)"
    if "x = consume_before_key p r" "(p', r') = x" "read_key [] p' r' = Inr b" "(k, key) = b" "(p1, r1) = k"
      "consume_delimiter p1 r1 = Inr c" "(p2, r2) = c" "read_value [] p2 r2 = Inr d" "(w, v) = d" "(p3, r3) = w"
    for p r x p' r' b k p1 r1 key c p2 r2 d w p3 r3 v
  proof -
    have "length r' \<le> length r" using consume_before_key_length [of p r] that(1,2) by (metis snd_conv)
    moreover have "length r1 \<le> length r'" using read_key_length [of "[]" p' r' k key] that by force
    moreover have "length r2 < length r1" using consume_delimiter_length [of p1 r1 c] that by force
    moreover have "length r3 \<le> length r2" using read_value_length [of "[]" p2 r2 w v] that by force
    ultimately show ?thesis by simp
  qed
qed simp

declare read_properties.simps [simp del]

section \<open>Writing\<close>

definition write_hex_digit :: "int \<Rightarrow> string" where
  "write_hex_digit c = (if c < 10 then [char_of (nat (48 + c))] else [char_of (nat (65 - 10 + c))])"

definition write_unicode_char :: "char \<Rightarrow> string result" where
  "write_unicode_char c =
    (let n = signed_char c in
     if n < 0 then Inl (LogicError ''Right now, only ASCII characters can be escape.'')
     else Inr ([CHR 0x5C, CHR ''u'', CHR ''0'', CHR ''0''] @ write_hex_digit (n div 16) @ write_hex_digit (n mod 16)))"

definition write_key_char :: "char \<Rightarrow> string result" where
  "write_key_char c =
    (if c \<in> {CHR 0x5C, CHR ''='', CHR '':'', CHR ''#'', CHR ''!'', CHR '' ''} then Inr [CHR 0x5C, c]
     else if signed_char c < 32 then write_unicode_char c
     else Inr [c])"

definition write_value_char :: "char \<Rightarrow> string result" where
  "write_value_char c =
    (if c = CHR 0x5C then Inr [CHR 0x5C, c]
     else if signed_char c < 32 then write_unicode_char c
     else Inr [c])"

definition write_key :: "string \<Rightarrow> string result" where
  "write_key key = rbind (mapR write_key_char key) (\<lambda>ts. Inr (concat ts))"

definition write_value :: "string \<Rightarrow> string result" where
  "write_value v =
    (case v of
       [] \<Rightarrow> Inr []
     | c # cs \<Rightarrow>
         if c = CHR '' '' then rbind (mapR write_value_char cs) (\<lambda>ts. Inr ([CHR 0x5C, CHR '' ''] @ concat ts))
         else rbind (mapR write_value_char v) (\<lambda>ts. Inr (concat ts)))"

fun write_properties :: "(string \<times> string) list \<Rightarrow> string result" where
  "write_properties [] = Inr []"
| "write_properties ((key, v) # ps) =
    rbind (write_key key) (\<lambda>k. rbind (write_value v) (\<lambda>w. rbind (write_properties ps) (\<lambda>rest.
      Inr (k @ ''='' @ w @ [CHR 0x0A] @ rest))))"

section \<open>What is written is read back\<close>

definition ascii :: "char \<Rightarrow> bool" where
  "ascii c \<longleftrightarrow> (of_char c :: nat) < 128"

lemma of_char_less_256: "int (of_char c) < 256"
proof -
  have "of_char c < (256 :: nat)" by simp
  then show ?thesis by linarith
qed

lemma or_16:
  assumes "b < 16"
  shows "or 16 (of_nat b) = (of_nat (16 + b) :: u16)"
proof -
  have "and 16 (of_nat b :: u16) = 0"
  proof (rule bit_word_eqI)
    fix n
    assume "n < LENGTH(16)"
    have "\<not> bit b 4" using assms by (simp add: bit_iff_odd)
    moreover have "bit (16 :: u16) n \<longleftrightarrow> n = 4" using bit_exp_iff [of 4 n, where ?'a = u16] \<open>n < LENGTH(16)\<close> by auto
    ultimately show "bit (and 16 (of_nat b :: u16)) n \<longleftrightarrow> bit (0 :: u16) n" by (auto simp: bit_and_iff bit_of_nat_iff)
  qed
  then have "or 16 (of_nat b) = (16 + of_nat b :: u16)" by (rule disjunctive_add_eq_or [symmetric])
  then show ?thesis by simp
qed

lemma hex_digit_written:
  assumes "n < 16"
  shows "\<exists>a. write_hex_digit (int n) = [a] \<and> hex_digit a = Some (of_nat n)"
proof (cases "n < 10")
  case True
  then show ?thesis by (simp add: write_hex_digit_def hex_digit_def nat_add_distrib)
next
  case False
  then have "nat (55 + int n) = 55 + n" "10 + of_nat (n - 10) = (of_nat n :: u16)" by simp_all
  then show ?thesis using assms False by (simp add: write_hex_digit_def hex_digit_def Let_def)
qed

lemma unicode_loop_00:
  assumes "hex_digit a = Some x" "hex_digit b = Some y"
  shows "unicode_loop 4 0 q (CHR ''0'' # CHR ''0'' # a # b # rest) = Inr ((q + 4, rest), or (push_bit 4 x) y)"
proof -
  have z: "hex_digit CHR ''0'' = Some 0" by (simp add: hex_digit_def)
  have "unicode_loop (Suc (Suc (Suc (Suc 0)))) 0 q (CHR ''0'' # CHR ''0'' # a # b # rest)
      = Inr ((Suc (Suc (Suc (Suc q))), rest), or (push_bit 4 x) y)"
    using assms z by simp
  moreover have "4 = Suc (Suc (Suc (Suc 0)))" "Suc (Suc (Suc (Suc q))) = q + 4" by simp_all
  ultimately show ?thesis by metis
qed

lemma read_unicode:
  assumes "signed_char c < 32" "0 \<le> signed_char c" "write_unicode_char c = Inr t"
  obtains t' where "t = CHR 0x5C # t'" "\<forall>p rest. \<exists>q. read_escaped p (t' @ rest) = Inr ((q, rest), [c])"
proof -
  let ?n = "of_char c :: nat"
  have s: "signed_char c = (if int ?n < 128 then int ?n else int ?n - 256)" unfolding signed_char_def Let_def by (rule refl)
  have "int ?n < 128"
  proof (rule ccontr)
    assume "\<not> int ?n < 128"
    then have "signed_char c = int ?n - 256" using s by (simp only: if_False)
    then show False using assms(2) of_char_less_256 [of c] by linarith
  qed
  then have "signed_char c = int ?n" using s by (simp only: if_True)
  then have n: "signed_char c = int ?n" "?n < 32" using assms(1) by simp_all
  have n16: "?n div 16 < 16" using n(2) by linarith
  obtain a where a: "write_hex_digit (int (?n div 16)) = [a]" "hex_digit a = Some (of_nat (?n div 16))"
    using hex_digit_written [OF n16] by blast
  obtain b where b: "write_hex_digit (int (?n mod 16)) = [b]" "hex_digit b = Some (of_nat (?n mod 16))"
    using hex_digit_written [of "?n mod 16"] by auto
  have v: "or (push_bit 4 (of_nat (?n div 16))) (of_nat (?n mod 16)) = (of_nat ?n :: u16)"
  proof (cases "?n < 16")
    case False
    then have d1: "?n div 16 = 1" using n(2) by linarith
    then have d: "?n div 16 = 1" "16 + ?n mod 16 = ?n" using div_mult_mod_eq [of ?n 16] by linarith+
    have "?n mod 16 < 16" by simp
    from or_16 [OF this] have "or 16 (of_nat (?n mod 16)) = (of_nat ?n :: u16)" by (simp only: d(2))
    then show ?thesis using d(1) by simp
  qed simp
  have t: "t = CHR 0x5C # [CHR ''u'', CHR ''0'', CHR ''0'', a, b]"
    using assms(3) n a(1) b(1) by (simp add: write_unicode_char_def Let_def zdiv_int zmod_int)
  have u: "unat (of_nat ?n :: u16) = ?n" using n(2) by (simp add: unat_of_nat take_bit_nat_eq_self)
  then have w: "\<not> (128 :: u16) \<le> of_nat ?n" using n(2) by (simp add: word_le_nat_alt)
  have "unicode_loop 4 0 q ([CHR ''0'', CHR ''0'', a, b] @ rest) = Inr ((q + 4, rest), of_nat ?n)" for q rest
    using unicode_loop_00 [OF a(2) b(2)] v by simp
  then have "read_escaped p ([CHR ''u'', CHR ''0'', CHR ''0'', a, b] @ rest) = Inr ((Suc p + 4, rest), [c])" for p rest
    using u w by (simp add: read_escaped_def)
  then show ?thesis using that [OF t] by blast
qed

lemma control_chars: "\<not> signed_char c < 32 \<Longrightarrow> c \<noteq> CHR 0x09 \<and> c \<noteq> CHR 0x0A \<and> c \<noteq> CHR 0x0D"
  by (rule ccontr) (auto simp: signed_char_def)

lemma write_key_char_read:
  assumes "write_key_char c = Inr t"
  shows "\<exists>q. read_key key p (t @ rest) = read_key (key @ [c]) q rest" "t \<noteq> []" "\<not> is_space (hd t)" "\<not> is_line_break (hd t)"
    "hd t \<notin> {CHR ''#'', CHR ''!''}"
proof -
  consider (escaped) "c \<in> {CHR 0x5C, CHR ''='', CHR '':'', CHR ''#'', CHR ''!'', CHR '' ''}"
    | (control) "c \<notin> {CHR 0x5C, CHR ''='', CHR '':'', CHR ''#'', CHR ''!'', CHR '' ''}" "signed_char c < 32"
    | (plain) "c \<notin> {CHR 0x5C, CHR ''='', CHR '':'', CHR ''#'', CHR ''!'', CHR '' ''}" "\<not> signed_char c < 32" by blast
  then have "(\<exists>q. read_key key p (t @ rest) = read_key (key @ [c]) q rest) \<and> t \<noteq> [] \<and> \<not> is_space (hd t)
      \<and> \<not> is_line_break (hd t) \<and> hd t \<notin> {CHR ''#'', CHR ''!''}"
  proof cases
    case escaped
    then have "t = [CHR 0x5C, c]" using assms by (auto simp: write_key_char_def)
    then show ?thesis using escaped by (auto simp: read_escaped_def is_space_def is_line_break_def)
  next
    case control
    then have w: "write_unicode_char c = Inr t" using assms by (simp add: write_key_char_def)
    then have "0 \<le> signed_char c" by (auto simp: write_unicode_char_def Let_def split: if_splits)
    from control(2) this w obtain t' where t: "t = CHR 0x5C # t'" "\<forall>p rest. \<exists>q. read_escaped p (t' @ rest) = Inr ((q, rest), [c])"
      by (rule read_unicode)
    obtain q where "read_escaped (Suc p) (t' @ rest) = Inr ((q, rest), [c])" using t(2) by blast
    then have "read_key key p (t @ rest) = read_key (key @ [c]) q rest" by (simp add: t(1))
    then show ?thesis by (auto simp: t(1) is_space_def is_line_break_def)
  next
    case plain
    then have "t = [c]" using assms by (simp add: write_key_char_def)
    moreover have "\<not> is_space c" "\<not> is_line_break c" "\<not> is_delimiter c"
      using plain(1) control_chars [OF plain(2)] by (simp_all add: is_space_def is_line_break_def is_delimiter_def)
    ultimately have "read_key key p (t @ rest) = read_key (key @ [c]) (Suc p) rest" using plain(1) by simp
    moreover have "c \<noteq> CHR ''#''" "c \<noteq> CHR ''!''" using plain(1) by blast+
    ultimately show ?thesis using \<open>t = [c]\<close> \<open>\<not> is_space c\<close> \<open>\<not> is_line_break c\<close>
      by (intro conjI exI) (assumption | simp)+
  qed
  then show "\<exists>q. read_key key p (t @ rest) = read_key (key @ [c]) q rest" "t \<noteq> []" "\<not> is_space (hd t)" "\<not> is_line_break (hd t)"
    "hd t \<notin> {CHR ''#'', CHR ''!''}" by blast+
qed

lemma write_value_char_read:
  assumes "write_value_char c = Inr t"
  shows "\<exists>q. read_value v p (t @ rest) = read_value (v @ [c]) q rest" "t \<noteq> []" "c \<noteq> CHR '' '' \<Longrightarrow> \<not> is_space (hd t)"
proof -
  consider (escaped) "c = CHR 0x5C" | (control) "c \<noteq> CHR 0x5C" "signed_char c < 32" | (plain) "c \<noteq> CHR 0x5C" "\<not> signed_char c < 32"
    by blast
  then have "(\<exists>q. read_value v p (t @ rest) = read_value (v @ [c]) q rest) \<and> t \<noteq> [] \<and> (c \<noteq> CHR '' '' \<longrightarrow> \<not> is_space (hd t))"
  proof cases
    case escaped
    then have "t = [CHR 0x5C, c]" using assms by (auto simp: write_value_char_def)
    then show ?thesis using escaped by (auto simp: read_escaped_def is_space_def is_line_break_def)
  next
    case control
    then have w: "write_unicode_char c = Inr t" using assms by (simp add: write_value_char_def)
    then have "0 \<le> signed_char c" by (auto simp: write_unicode_char_def Let_def split: if_splits)
    from control(2) this w obtain t' where t: "t = CHR 0x5C # t'" "\<forall>p rest. \<exists>q. read_escaped p (t' @ rest) = Inr ((q, rest), [c])"
      by (rule read_unicode)
    obtain q where "read_escaped (Suc p) (t' @ rest) = Inr ((q, rest), [c])" using t(2) by blast
    then have "read_value v p (t @ rest) = read_value (v @ [c]) q rest" by (simp add: t(1) is_line_break_def)
    then show ?thesis by (auto simp: t(1) is_space_def)
  next
    case plain
    then have "t = [c]" using assms by (simp add: write_value_char_def)
    moreover have "\<not> is_line_break c" "c \<noteq> CHR '' '' \<longrightarrow> \<not> is_space c"
      using control_chars [OF plain(2)] by (simp_all add: is_space_def is_line_break_def)
    ultimately have "read_value v p (t @ rest) = read_value (v @ [c]) (Suc p) rest" using plain(1) by simp
    then show ?thesis using \<open>t = [c]\<close> \<open>c \<noteq> CHR '' '' \<longrightarrow> \<not> is_space c\<close> by auto
  qed
  then show "\<exists>q. read_value v p (t @ rest) = read_value (v @ [c]) q rest" "t \<noteq> []" "c \<noteq> CHR '' '' \<Longrightarrow> \<not> is_space (hd t)" by blast+
qed

lemma write_key_read:
  assumes "mapR write_key_char key = Inr ts" "r \<noteq> []" "is_delimiter (hd r)"
  shows "\<exists>q. read_key k p (concat ts @ r) = Inr ((q, r), k @ key)"
  using assms(1)
proof (induction key arbitrary: ts k p)
  case Nil
  obtain d ds where "r = d # ds" using assms(2) by (cases r) auto
  then show ?case using Nil assms(3) by (auto simp: is_delimiter_def is_line_break_def)
next
  case (Cons c key)
  then obtain t us where t: "write_key_char c = Inr t" "mapR write_key_char key = Inr us" "ts = t # us" by auto
  obtain q where "read_key k p (t @ concat us @ r) = read_key (k @ [c]) q (concat us @ r)"
    using write_key_char_read(1) [OF t(1)] by blast
  moreover obtain q' where "read_key (k @ [c]) q (concat us @ r) = Inr ((q', r), (k @ [c]) @ key)"
    using Cons.IH [OF t(2)] by blast
  ultimately show ?case using t(3) by simp
qed

lemma write_value_read:
  assumes "mapR write_value_char v = Inr ts" "r \<noteq> []" "is_line_break (hd r)"
  shows "\<exists>q. read_value w p (concat ts @ r) = Inr ((q, r), w @ v)"
  using assms(1)
proof (induction v arbitrary: ts w p)
  case Nil
  obtain d ds where "r = d # ds" using assms(2) by (cases r) auto
  then show ?case using Nil assms(3) by auto
next
  case (Cons c v)
  then obtain t us where t: "write_value_char c = Inr t" "mapR write_value_char v = Inr us" "ts = t # us" by auto
  obtain q where "read_value w p (t @ concat us @ r) = read_value (w @ [c]) q (concat us @ r)"
    using write_value_char_read(1) [OF t(1)] by blast
  moreover obtain q' where "read_value (w @ [c]) q (concat us @ r) = Inr ((q', r), (w @ [c]) @ v)"
    using Cons.IH [OF t(2)] by blast
  ultimately show ?case using t(3) by simp
qed

lemma consume_spaces_none: "r = [] \<or> \<not> is_space (hd r) \<Longrightarrow> consume_spaces p r = (p, r)"
  by (cases r) auto

lemma written_value_read:
  assumes "write_value v = Inr t"
  shows "\<exists>q. consume_delimiter p (CHR ''='' # t @ CHR 0x0A # rest) = Inr (Suc p, t @ CHR 0x0A # rest)
    \<and> read_value [] (Suc p) (t @ CHR 0x0A # rest) = Inr ((q, CHR 0x0A # rest), v)"
proof -
  let ?r = "CHR 0x0A # rest"
  have r: "?r \<noteq> []" "is_line_break (hd ?r)" "\<not> is_space (hd ?r)" by (simp_all add: is_line_break_def is_space_def)
  have d: "consume_delimiter p (CHR ''='' # u) = Inr (Suc p, u)" if "u = [] \<or> \<not> is_space (hd u)" for u
    using consume_spaces_none [OF that] by (simp add: consume_delimiter_def is_delimiter_def)
  consider "v = []" | cs where "v = CHR '' '' # cs" | c cs where "v = c # cs" "c \<noteq> CHR '' ''" by (cases v) auto
  then show ?thesis
  proof cases
    case 1
    then have "t = []" using assms by (simp add: write_value_def)
    then show ?thesis using 1 d [of ?r] r by simp
  next
    case 2
    then obtain ts where t: "mapR write_value_char cs = Inr ts" "t = [CHR 0x5C, CHR '' ''] @ concat ts"
      using assms by (auto simp: write_value_def)
    obtain q where q: "read_value '' '' (Suc (Suc (Suc p))) (concat ts @ ?r) = Inr ((q, ?r), '' '' @ cs)"
      using write_value_read [OF t(1) r(1,2)] by blast
    have "read_value [] (Suc p) (t @ ?r) = read_value '' '' (Suc (Suc (Suc p))) (concat ts @ ?r)"
      by (simp add: t(2) read_escaped_def is_line_break_def)
    moreover have "\<not> is_space (hd (t @ ?r))" by (simp add: t(2) is_space_def)
    ultimately show ?thesis using d [of "t @ ?r"] q 2 by simp
  next
    case 3
    then obtain x us where t: "write_value_char c = Inr x" "mapR write_value_char (c # cs) = Inr (x # us)" "t = x @ concat us"
      using assms by (auto simp: write_value_def)
    note x = write_value_char_read(2,3) [OF t(1)]
    then have "\<not> is_space (hd (t @ ?r))" using 3(2) t(3) by simp
    moreover obtain q where "read_value [] (Suc p) (concat (x # us) @ ?r) = Inr ((q, ?r), [] @ (c # cs))"
      using write_value_read [OF t(2) r(1,2)] by blast
    ultimately show ?thesis using d [of "t @ ?r"] 3(1) t(3) by simp
  qed
qed

lemma consume_before_written:
  assumes "write_key key = Inr t"
  shows "consume_before_key p (t @ CHR ''='' # rest) = (p, t @ CHR ''='' # rest)"
proof (cases key)
  case Nil
  then show ?thesis using assms by (simp add: write_key_def is_space_def is_line_break_def)
next
  case (Cons c cs)
  then obtain x us where x: "write_key_char c = Inr x" "t = x @ concat us" using assms by (auto simp: write_key_def)
  obtain a as where a: "x = a # as" using write_key_char_read(2) [OF x(1)] by (cases x) auto
  then show ?thesis using write_key_char_read(3-5) [OF x(1)] x(2) by simp
qed

lemma read_line_break: "read_properties p (CHR 0x0A # r) = read_properties (Suc p) r"
  using read_properties.simps [of p "CHR 0x0A # r"] read_properties.simps [of "Suc p" r]
  by (simp add: is_space_def is_line_break_def)

lemma read_written_properties:
  assumes "write_properties ps = Inr t"
  shows "read_properties p t = Inr ps"
  using assms
proof (induction ps arbitrary: p t)
  case Nil
  then show ?case by (simp add: read_properties.simps)
next
  case (Cons kv ps)
  obtain key v where kv: "kv = (key, v)" by (cases kv)
  then obtain k w rest where t: "write_key key = Inr k" "write_value v = Inr w" "write_properties ps = Inr rest"
      "t = k @ ''='' @ w @ [CHR 0x0A] @ rest"
    using Cons.prems by auto
  obtain ts where ts: "mapR write_key_char key = Inr ts" "k = concat ts" using t(1) by (auto simp: write_key_def)
  let ?r = "CHR ''='' # w @ CHR 0x0A # rest"
  obtain q where q: "read_key [] p (k @ ?r) = Inr ((q, ?r), key)"
    using write_key_read [OF ts(1), of ?r "[]" p] ts(2) by (auto simp: is_delimiter_def)
  obtain q' where q': "consume_delimiter q ?r = Inr (Suc q, w @ CHR 0x0A # rest)"
      "read_value [] (Suc q) (w @ CHR 0x0A # rest) = Inr ((q', CHR 0x0A # rest), v)"
    using written_value_read [OF t(2)] by blast
  have "read_properties q' (CHR 0x0A # rest) = Inr ps" using Cons.IH [OF t(3)] by (simp add: read_line_break)
  then show ?case
    using consume_before_written [OF t(1), of p "w @ CHR 0x0A # rest"] q q'
    by (simp add: read_properties.simps [of p "k @ ?r"] t(4) kv)
qed

text \<open>
  C40. Properties that are written are read back: whenever \<open>write_properties\<close> does not throw, reading
  its output gives the same keys and values in the same order, whatever spaces, delimiters, comment
  signs, backslashes, line breaks and control characters they hold.
\<close>

theorem properties_roundtrip:
  assumes "write_properties ps = Inr t"
  shows "read_properties p t = Inr ps"
  using assms by (rule read_written_properties)

theorem properties_roundtrip_witness:
  "write_properties [(''a b'', '' c=''), ([], [CHR 0x0A])] = Inr (
     ''a'' @ [CHR 0x5C] @ '' b='' @ [CHR 0x5C] @ '' c='' @ [CHR 0x0A] @ ''='' @ [CHR 0x5C] @ ''u000A'' @ [CHR 0x0A])
   \<and> read_properties 0 (
     ''a'' @ [CHR 0x5C] @ '' b='' @ [CHR 0x5C] @ '' c='' @ [CHR 0x0A] @ ''='' @ [CHR 0x5C] @ ''u000A'' @ [CHR 0x0A])
   = Inr [(''a b'', '' c=''), ([], [CHR 0x0A])]"
proof -
  have "write_properties [(''a b'', '' c=''), ([], [CHR 0x0A])] = Inr (
     ''a'' @ [CHR 0x5C] @ '' b='' @ [CHR 0x5C] @ '' c='' @ [CHR 0x0A] @ ''='' @ [CHR 0x5C] @ ''u000A'' @ [CHR 0x0A])"
    by code_simp
  from this properties_roundtrip [OF this] show ?thesis by (rule conjI)
qed

section \<open>Which properties can be written\<close>

lemma mapR_is_Inr: "(\<exists>ys. mapR f xs = Inr ys) \<longleftrightarrow> list_all (\<lambda>x. \<exists>y. f x = Inr y) xs"
  by (induction xs) auto

lemma ascii_signed: "ascii c \<longleftrightarrow> 0 \<le> signed_char c"
proof -
  have s: "signed_char c = (if int (of_char c) < 128 then int (of_char c) else int (of_char c) - 256)"
    unfolding signed_char_def Let_def by (rule refl)
  show ?thesis
  proof (cases "int (of_char c) < 128")
    case True
    then show ?thesis using s by (simp add: ascii_def)
  next
    case False
    then have "signed_char c = int (of_char c) - 256" using s by (simp only: if_False)
    then have "signed_char c < 0" using of_char_less_256 [of c] by linarith
    then show ?thesis using False by (simp add: ascii_def)
  qed
qed

lemma write_unicode_char_ascii: "(\<exists>t. write_unicode_char c = Inr t) \<longleftrightarrow> ascii c"
  by (simp add: write_unicode_char_def Let_def ascii_signed not_less)

lemma write_key_char_ascii: "(\<exists>t. write_key_char c = Inr t) \<longleftrightarrow> ascii c"
proof (cases "c \<in> {CHR 0x5C, CHR ''='', CHR '':'', CHR ''#'', CHR ''!'', CHR '' ''}")
  case True
  then show ?thesis by (auto simp: write_key_char_def ascii_def)
next
  case False
  then have "write_key_char c = (if signed_char c < 32 then write_unicode_char c else Inr [c])"
    unfolding write_key_char_def by (simp only: if_False)
  then show ?thesis using write_unicode_char_ascii [of c] by (simp add: ascii_signed)
qed

lemma write_value_char_ascii: "(\<exists>t. write_value_char c = Inr t) \<longleftrightarrow> ascii c"
proof (cases "c = CHR 0x5C")
  case True
  then show ?thesis by (simp add: write_value_char_def ascii_def)
next
  case False
  then have "write_value_char c = (if signed_char c < 32 then write_unicode_char c else Inr [c])"
    unfolding write_value_char_def by (simp only: if_False)
  then show ?thesis using write_unicode_char_ascii [of c] by (simp add: ascii_signed)
qed

lemma write_key_ascii: "(\<exists>t. write_key key = Inr t) \<longleftrightarrow> list_all ascii key"
  using mapR_is_Inr [of write_key_char key] by (simp add: write_key_def write_key_char_ascii)

lemma write_value_ascii: "(\<exists>t. write_value v = Inr t) \<longleftrightarrow> list_all ascii v"
proof (cases v)
  case (Cons c cs)
  have "ascii CHR '' ''" by (simp add: ascii_def)
  then show ?thesis
    using Cons mapR_is_Inr [of write_value_char cs] mapR_is_Inr [of write_value_char v]
    by (simp add: write_value_def write_value_char_ascii)
qed (simp add: write_value_def)

abbreviation only_ascii :: net_error where
  "only_ascii \<equiv> LogicError ''Right now, only ASCII characters can be escape.''"

lemma mapR_eq_Inl: "mapR f xs = Inl e \<Longrightarrow> \<exists>x. f x = Inl e"
  by (induction xs) (auto simp: rbind_eq_Inl)

lemma write_unicode_char_error: "write_unicode_char c = Inl e \<Longrightarrow> e = only_ascii"
  by (auto simp: write_unicode_char_def Let_def split: if_splits)

lemma write_key_error: "write_key key = Inl e \<Longrightarrow> e = only_ascii"
  by (auto simp: write_key_def rbind_eq_Inl write_key_char_def dest!: mapR_eq_Inl split: if_splits
      intro: write_unicode_char_error)

lemma write_value_error: "write_value v = Inl e \<Longrightarrow> e = only_ascii"
  by (auto simp: write_value_def rbind_eq_Inl write_value_char_def dest!: mapR_eq_Inl split: if_splits list.splits
      intro: write_unicode_char_error)

lemma write_key_cases:
  "write_key key = (if list_all ascii key then Inr (projr (write_key key)) else Inl only_ascii)"
  using write_key_ascii [of key] write_key_error [of key] by (cases "write_key key") auto

lemma write_value_cases:
  "write_value v = (if list_all ascii v then Inr (projr (write_value v)) else Inl only_ascii)"
  using write_value_ascii [of v] write_value_error [of v] by (cases "write_value v") auto

text \<open>
  Properties can be written exactly when every character of every key and value is ASCII: an
  octet of 128 or more is a negative \<open>char\<close>, counts as a control character, and \<open>write_unicode_char\<close>
  throws its logic error.  No other error is possible.
\<close>

theorem properties_written_iff_ascii:
  "write_properties ps =
     (if list_all (\<lambda>(k, v). list_all ascii k \<and> list_all ascii v) ps
      then Inr (concat (map (\<lambda>(k, v). projr (write_key k) @ ''='' @ projr (write_value v) @ [CHR 0x0A]) ps))
      else Inl (LogicError ''Right now, only ASCII characters can be escape.''))"
proof (induction ps)
  case (Cons kv ps)
  obtain key v where kv: "kv = (key, v)" by (cases kv)
  show ?case
  proof (cases "list_all ascii key \<and> list_all ascii v")
    case True
    then have "write_key key = Inr (projr (write_key key))" "write_value v = Inr (projr (write_value v))"
      using write_key_cases [of key] write_value_cases [of v] by (simp_all only: if_True)
    then obtain k w where "write_key key = Inr k" "write_value v = Inr w" by blast
    then show ?thesis using True Cons.IH by (simp add: kv)
  next
    case False
    then have "write_key key = Inl only_ascii \<or> (\<exists>k. write_key key = Inr k) \<and> write_value v = Inl only_ascii"
      using write_key_cases [of key] write_value_cases [of v] by (metis (full_types))
    then show ?thesis using False by (auto simp: kv)
  qed
qed simp

end
