(* ===== verification/Configuration.thy ===== *)
theory Configuration
  imports Properties_Format
begin

text \<open>
  \<open>util/Config\<close> and \<open>Configuration\<close>: a config is a \<open>std::map\<close>, an association list sorted by key; a
  configuration is a config, the configuration it extends and the directory that paths are relative
  to.  The file system and the path operations of boost are the record \<open>files\<close>: the contents of a
  file that can be opened, \<open>bfs::absolute\<close>, \<open>bfs::weakly_canonical\<close> and \<open>parent_path\<close>.  A file that
  extends a file that extends it would be opened forever, so opening carries fuel, the number of
  files that are open at the same time; \<open>None\<close> is that it did not suffice.
\<close>

section \<open>Maps of strings\<close>

type_synonym config_map = "(string \<times> string) list"

text \<open>\<open>insert\<close>, which keeps the value of a key that is there, and \<open>operator[]\<close> with an assignment.\<close>

fun map_insert :: "string \<Rightarrow> string \<Rightarrow> config_map \<Rightarrow> config_map" where
  "map_insert k v [] = [(k, v)]"
| "map_insert k v ((k', v') # m) =
    (if k < k' then (k, v) # (k', v') # m else if k = k' then (k', v') # m else (k', v') # map_insert k v m)"

fun map_assign :: "string \<Rightarrow> string \<Rightarrow> config_map \<Rightarrow> config_map" where
  "map_assign k v [] = [(k, v)]"
| "map_assign k v ((k', v') # m) =
    (if k < k' then (k, v) # (k', v') # m else if k = k' then (k, v) # m else (k', v') # map_assign k v m)"

definition map_ok :: "config_map \<Rightarrow> bool" where
  "map_ok m \<longleftrightarrow> sorted_wrt (<) (map fst m)"

lemma map_of_assign [simp]: "map_of (map_assign k v m) = (map_of m)(k \<mapsto> v)"
  by (induction m) auto

lemma map_ok_Nil [simp]: "map_ok []"
  by (simp add: map_ok_def)

lemma map_ok_Cons: "map_ok ((k, v) # m) \<longleftrightarrow> (\<forall>k' \<in> fst ` set m. k < k') \<and> map_ok m"
  by (auto simp: map_ok_def)

lemma map_assign_keys: "fst ` set (map_assign k v m) = insert k (fst ` set m)"
proof (induction m)
  case (Cons kv m)
  then show ?case by (cases kv) (simp add: insert_commute)
qed simp

lemma map_insert_keys: "fst ` set (map_insert k v m) = insert k (fst ` set m)"
proof (induction m)
  case (Cons kv m)
  then show ?case by (cases kv) (simp add: insert_commute)
qed simp

lemma map_ok_assign [simp]: "map_ok m \<Longrightarrow> map_ok (map_assign k v m)"
proof (induction m)
  case (Cons kv m)
  then show ?case by (cases kv) (auto simp: map_ok_Cons map_assign_keys)
qed (simp add: map_ok_Cons)

lemma map_ok_insert [simp]: "map_ok m \<Longrightarrow> map_ok (map_insert k v m)"
proof (induction m)
  case (Cons kv m)
  then show ?case by (cases kv) (auto simp: map_ok_Cons map_insert_keys)
qed (simp add: map_ok_Cons)

lemma map_of_insert: "map_ok m \<Longrightarrow> map_of (map_insert k v m) k' =
    (if k' = k \<and> map_of m k = None then Some v else map_of m k')"
proof (induction m)
  case (Cons kv m)
  obtain a b where kv: "kv = (a, b)" by (cases kv)
  have "map_of m k = None" if "k < a" using Cons.prems that by (force simp: kv map_ok_Cons map_of_eq_None_iff)
  then show ?case using Cons by (auto simp: kv map_ok_Cons)
qed simp

section \<open>Configs\<close>

record config =
  cfg_data :: config_map
  cfg_file :: string

record files =
  read_file :: "string \<Rightarrow> string option"
  absolute :: "string \<Rightarrow> string \<Rightarrow> string"
  canonical :: "string \<Rightarrow> string"
  parent_path :: "string \<Rightarrow> string"

definition merge_properties :: "string \<Rightarrow> config_map \<Rightarrow> config_map result" where
  "merge_properties s m =
    rbind (read_properties 0 s) (\<lambda>ps. Inr (fold (\<lambda>(k, v). map_insert k v) ps m))"

definition merge_configs :: "config_map \<Rightarrow> config_map \<Rightarrow> config_map" where
  "merge_configs other m = fold (\<lambda>(k, v). map_assign k v) other m"

definition config_list :: "(string \<times> string) list \<Rightarrow> config" where
  "config_list kvs = \<lparr>cfg_data = fold (\<lambda>(k, v). map_insert k v) kvs [], cfg_file = []\<rparr>"

definition open_config :: "files \<Rightarrow> string \<Rightarrow> config result" where
  "open_config fs file_name =
    (case read_file fs file_name of
       None \<Rightarrow> Inl (RuntimeError (''Could not open '' @ file_name))
     | Some s \<Rightarrow> rbind (merge_properties s []) (\<lambda>m. Inr \<lparr>cfg_data = m, cfg_file = file_name\<rparr>))"

definition config_contains :: "config \<Rightarrow> string \<Rightarrow> bool" where
  "config_contains c key \<longleftrightarrow> map_of (cfg_data c) key \<noteq> None"

definition config_get :: "config \<Rightarrow> string \<Rightarrow> string result" where
  "config_get c key =
    (case map_of (cfg_data c) key of
       Some v \<Rightarrow> Inr v
     | None \<Rightarrow>
         if cfg_file c = [] then Inl (RuntimeError (''Incomplete config. '' @ [CHR 0x22] @ key @ [CHR 0x22] @ '' is missing.''))
         else Inl (RuntimeError (''Incomplete config. '' @ [CHR 0x22] @ key @ [CHR 0x22] @ '' is missing in ''
                @ [CHR 0x22] @ cfg_file c @ [CHR 0x22] @ ''.'')))"

definition config_get_default :: "config \<Rightarrow> string \<Rightarrow> string \<Rightarrow> string" where
  "config_get_default c key d = (case map_of (cfg_data c) key of Some v \<Rightarrow> v | None \<Rightarrow> d)"

definition config_print :: "config \<Rightarrow> string result" where
  "config_print c = write_properties (cfg_data c)"

section \<open>Configurations\<close>

definition PATH_TO_HOME :: string where "PATH_TO_HOME = ''path.to.home''"
definition PATH_TO_PHRASE_INDEX :: string where "PATH_TO_PHRASE_INDEX = ''path.to.phrase-index''"
definition PATH_TO_PHRASE_CORPUS :: string where "PATH_TO_PHRASE_CORPUS = ''path.to.phrase-corpus''"
definition PATH_TO_PHRASE_DICTIONARY :: string where "PATH_TO_PHRASE_DICTIONARY = ''path.to.phrase-dictionary''"
definition PATH_TO_POSTLIST_INDEX :: string where "PATH_TO_POSTLIST_INDEX = ''path.to.postlist-index''"
definition PATH_TO_HASH_DICTIONARY :: string where "PATH_TO_HASH_DICTIONARY = ''path.to.hash-dictionary''"
definition PATH_TO_REGEX_VOCABULARY :: string where "PATH_TO_REGEX_VOCABULARY = ''path.to.regex-vocabulary''"
definition EXTENDS :: string where "EXTENDS = ''extends''"

lemmas path_keys = PATH_TO_HOME_def PATH_TO_PHRASE_INDEX_def PATH_TO_PHRASE_CORPUS_def
  PATH_TO_PHRASE_DICTIONARY_def PATH_TO_POSTLIST_INDEX_def PATH_TO_HASH_DICTIONARY_def
  PATH_TO_REGEX_VOCABULARY_def EXTENDS_def

definition PATHS :: "string list" where
  "PATHS = [PATH_TO_HOME, PATH_TO_PHRASE_INDEX, PATH_TO_PHRASE_CORPUS, PATH_TO_PHRASE_DICTIONARY,
    PATH_TO_POSTLIST_INDEX, PATH_TO_HASH_DICTIONARY, PATH_TO_REGEX_VOCABULARY]"

text \<open>The keys that \<open>desugar_home\<close> sets, with the directory names.\<close>

definition home_defaults :: "(string \<times> string) list" where
  "home_defaults = [(PATH_TO_PHRASE_CORPUS, ''phrase-corpus''), (PATH_TO_PHRASE_DICTIONARY, ''phrase-dictionary''),
    (PATH_TO_PHRASE_INDEX, ''phrase-index''), (PATH_TO_POSTLIST_INDEX, ''postlist-index''),
    (PATH_TO_HASH_DICTIONARY, ''hash-dictionary''), (PATH_TO_REGEX_VOCABULARY, ''regex-vocabulary'')]"

datatype configuration = Configuration config "configuration option" string

definition set_default :: "files \<Rightarrow> string \<Rightarrow> string \<times> string \<Rightarrow> config_map \<Rightarrow> config_map" where
  "set_default fs home_path kd m =
    (if map_of m (fst kd) = None then map_assign (fst kd) (canonical fs (absolute fs (snd kd) home_path)) m else m)"

definition desugar_home :: "files \<Rightarrow> string \<Rightarrow> config_map \<Rightarrow> config_map" where
  "desugar_home fs base_dir m =
    (case map_of m PATH_TO_HOME of
       None \<Rightarrow> m
     | Some home_path \<Rightarrow>
         if home_path = [] then m
         else fold (set_default fs (if base_dir = [] then home_path else absolute fs home_path base_dir)) home_defaults m)"

text \<open>The constructors; \<open>open_file\<close> is the constructor that opens the configuration that is extended.\<close>

definition load_extends ::
  "files \<Rightarrow> (string \<Rightarrow> configuration result option) \<Rightarrow> config \<Rightarrow> string \<Rightarrow> configuration option result option" where
  "load_extends fs open_file c base_dir =
    (case map_of (cfg_data c) EXTENDS of
       None \<Rightarrow> Some (Inr None)
     | Some extends_path \<Rightarrow>
         if extends_path = [] then Some (Inr None)
         else map_option (\<lambda>r. rbind r (\<lambda>x. Inr (Some x)))
                (open_file (if base_dir = [] then extends_path else absolute fs extends_path base_dir)))"

definition construct ::
  "files \<Rightarrow> (string \<Rightarrow> configuration result option) \<Rightarrow> config \<Rightarrow> string \<Rightarrow> configuration result option" where
  "construct fs open_file c base_dir =
    map_option (\<lambda>r. rbind r (\<lambda>x. Inr (Configuration (c\<lparr>cfg_data := desugar_home fs base_dir (cfg_data c)\<rparr>) x base_dir)))
      (load_extends fs open_file c base_dir)"

primrec open_configuration :: "nat \<Rightarrow> files \<Rightarrow> string \<Rightarrow> configuration result option" where
  "open_configuration 0 fs file_name = None"
| "open_configuration (Suc n) fs file_name =
    (case open_config fs file_name of
       Inl e \<Rightarrow> Some (Inl e)
     | Inr c \<Rightarrow> construct fs (open_configuration n fs) c (parent_path fs file_name))"

definition new_configuration :: "nat \<Rightarrow> files \<Rightarrow> config \<Rightarrow> configuration result option" where
  "new_configuration n fs c = construct fs (open_configuration n fs) c []"

fun get_optional :: "configuration \<Rightarrow> string \<Rightarrow> string option" where
  "get_optional (Configuration c ext base_dir) key =
    (case map_of (cfg_data c) key of
       Some v \<Rightarrow> Some v
     | None \<Rightarrow> (case ext of Some e \<Rightarrow> get_optional e key | None \<Rightarrow> None))"

definition get_required :: "configuration \<Rightarrow> string \<Rightarrow> string result" where
  "get_required c key =
    (case get_optional c key of
       Some v \<Rightarrow> Inr v
     | None \<Rightarrow> Inl (RuntimeError (''The required key '' @ key @ '' is missing.'')))"

definition get_default :: "configuration \<Rightarrow> string \<Rightarrow> string \<Rightarrow> string" where
  "get_default c key default_value = (case get_optional c key of Some v \<Rightarrow> v | None \<Rightarrow> default_value)"

definition relative_to :: "files \<Rightarrow> string \<Rightarrow> string \<Rightarrow> string" where
  "relative_to fs path to = (if to = [] then canonical fs path else canonical fs (absolute fs path to))"

fun base_dir_of :: "configuration \<Rightarrow> string" where
  "base_dir_of (Configuration c ext base_dir) = base_dir"

definition get_required_path :: "files \<Rightarrow> configuration \<Rightarrow> string \<Rightarrow> string result" where
  "get_required_path fs c key = rbind (get_required c key) (\<lambda>v. Inr (relative_to fs v (base_dir_of c)))"

definition get_optional_path :: "files \<Rightarrow> configuration \<Rightarrow> string \<Rightarrow> string option" where
  "get_optional_path fs c key = map_option (\<lambda>v. relative_to fs v (base_dir_of c)) (get_optional c key)"

definition get_path :: "files \<Rightarrow> configuration \<Rightarrow> string \<Rightarrow> string \<Rightarrow> string" where
  "get_path fs c key default_value = relative_to fs (get_default c key default_value) (base_dir_of c)"

definition parse_bool :: "string \<Rightarrow> string \<Rightarrow> bool result" where
  "parse_bool key v =
    (if v = ''false'' then Inr False
     else if v = ''true'' then Inr True
     else Inl (RuntimeError (''Invalid boolean value for '' @ [CHR 0x27] @ key @ [CHR 0x27]
            @ ''. Expected '' @ [CHR 0x27] @ ''true'' @ [CHR 0x27] @ '' or '' @ [CHR 0x27] @ ''false'' @ [CHR 0x27]
            @ '' but found '' @ [CHR 0x27] @ v @ [CHR 0x27] @ ''.'')))"

definition get_required_bool :: "configuration \<Rightarrow> string \<Rightarrow> bool result" where
  "get_required_bool c key = rbind (get_required c key) (parse_bool key)"

definition get_optional_bool :: "configuration \<Rightarrow> string \<Rightarrow> bool option result" where
  "get_optional_bool c key =
    (case get_optional c key of None \<Rightarrow> Inr None | Some v \<Rightarrow> rbind (parse_bool key v) (\<lambda>b. Inr (Some b)))"

definition get_bool :: "configuration \<Rightarrow> string \<Rightarrow> bool \<Rightarrow> bool result" where
  "get_bool c key default_value =
    rbind (get_optional_bool c key) (\<lambda>b. Inr (case b of Some x \<Rightarrow> x | None \<Rightarrow> default_value))"

fun config_keys :: "configuration \<Rightarrow> string list" where
  "config_keys (Configuration c ext base_dir) =
    removeAll EXTENDS (fold List.insert (map fst (cfg_data c)) (case ext of Some e \<Rightarrow> config_keys e | None \<Rightarrow> []))"

definition full_loop :: "files \<Rightarrow> configuration \<Rightarrow> string \<Rightarrow> config_map \<Rightarrow> config_map result" where
  "full_loop fs c key m =
    rbind (if key \<in> set PATHS then get_required_path fs c key else get_required c key) (\<lambda>v. Inr (map_assign key v m))"

definition full_config :: "files \<Rightarrow> configuration \<Rightarrow> config result" where
  "full_config fs c =
    rbind (fold (\<lambda>key r. rbind r (full_loop fs c key)) (config_keys c) (Inr []))
      (\<lambda>m. Inr \<lparr>cfg_data = m, cfg_file = []\<rparr>)"

definition extend :: "nat \<Rightarrow> files \<Rightarrow> configuration \<Rightarrow> configuration \<Rightarrow> configuration result option" where
  "extend n fs this base =
    (case rbind (full_config fs base) (\<lambda>config. rbind (full_config fs this) (\<lambda>this_config.
            Inr (config\<lparr>cfg_data := merge_configs (cfg_data this_config) (cfg_data config)\<rparr>))) of
       Inl e \<Rightarrow> Some (Inl e)
     | Inr config \<Rightarrow> new_configuration n fs config)"

section \<open>What a configuration holds\<close>

lemma map_of_insert_all:
  "map_ok m \<Longrightarrow> map_ok (fold (\<lambda>(k, v). map_insert k v) kvs m)
    \<and> map_of (fold (\<lambda>(k, v). map_insert k v) kvs m) = map_of kvs ++ map_of m"
proof (induction kvs arbitrary: m)
  case (Cons kv kvs)
  obtain k v where kv: "kv = (k, v)" by (cases kv)
  have "map_of (map_insert k v m) = [k \<mapsto> v] ++ map_of m"
    using map_of_insert [OF Cons.prems, of k v] by (auto simp: map_add_def split: option.splits)
  then show ?case using Cons.IH [of "map_insert k v m"] Cons.prems
    by (auto simp: kv map_add_def fun_eq_iff split: option.splits)
qed simp

lemma merge_configs_lookup: "map_of (merge_configs other m) k =
    (case map_of (rev other) k of Some v \<Rightarrow> Some v | None \<Rightarrow> map_of m k)"
proof (induction other arbitrary: m)
  case (Cons kv other)
  obtain a b where kv: "kv = (a, b)" by (cases kv)
  have "merge_configs (kv # other) m = merge_configs other (map_assign a b m)" by (simp add: merge_configs_def kv)
  then show ?case using Cons.IH [of "map_assign a b m"] by (simp add: kv map_add_def split: option.splits)
qed (simp add: merge_configs_def)

lemma merge_configs_ok: "map_ok m \<Longrightarrow> map_ok (merge_configs other m)"
  by (induction other arbitrary: m) (auto simp: merge_configs_def)

lemma map_of_rev_ok: "map_ok m \<Longrightarrow> map_of (rev m) = map_of m"
proof -
  assume "map_ok m"
  then have "distinct (map fst m)" unfolding map_ok_def using strict_sorted_iff by blast
  then show ?thesis by (metis map_of_inject_set set_rev distinct_rev rev_map)
qed

lemma fold_insert_set: "set (fold List.insert xs ys) = set xs \<union> set ys"
  by (induction xs arbitrary: ys) auto

lemma config_keys_set: "set (config_keys c) = {k. get_optional c k \<noteq> None} - {EXTENDS}"
proof (induction c)
  case (Configuration c ext base_dir)
  have d: "set (map fst (cfg_data c)) = dom (map_of (cfg_data c))" by (simp add: dom_map_of_conv_image_fst)
  then show ?case using Configuration by (cases ext) (auto simp: fold_insert_set d simp del: set_map split: option.splits)
qed

text \<open>The value that \<open>full_config\<close> gives a key that is set.\<close>

definition full_value :: "files \<Rightarrow> configuration \<Rightarrow> string \<Rightarrow> string option" where
  "full_value fs c key =
    (if key = EXTENDS then None
     else if key \<in> set PATHS then get_optional_path fs c key
     else get_optional c key)"

lemma full_loop_ok:
  assumes "set keys \<subseteq> {k. get_optional c k \<noteq> None} - {EXTENDS}" "map_ok m"
  shows "\<exists>m'. fold (\<lambda>key r. rbind r (full_loop fs c key)) keys (Inr m) = Inr m' \<and> map_ok m'
    \<and> map_of m' = (\<lambda>k. if k \<in> set keys then full_value fs c k else map_of m k)"
  using assms
proof (induction keys arbitrary: m)
  case (Cons key keys)
  then obtain v where v: "get_optional c key = Some v" "key \<noteq> EXTENDS" by auto
  define w where "w = (if key \<in> set PATHS then relative_to fs v (base_dir_of c) else v)"
  have "full_loop fs c key m = Inr (map_assign key w m)" "full_value fs c key = Some w"
    using v by (simp_all add: full_loop_def w_def full_value_def get_optional_path_def get_required_path_def get_required_def)
  then show ?case using Cons.IH [of "map_assign key w m"] Cons.prems by (auto simp: fun_eq_iff)
qed simp

lemma full_config_eq: "\<exists>m. full_config fs c = Inr \<lparr>cfg_data = m, cfg_file = []\<rparr> \<and> map_ok m \<and> map_of m = full_value fs c"
proof -
  obtain m where m: "fold (\<lambda>key r. rbind r (full_loop fs c key)) (config_keys c) (Inr []) = Inr m" "map_ok m"
      "map_of m = (\<lambda>k. if k \<in> set (config_keys c) then full_value fs c k else map_of [] k)"
    using full_loop_ok [of "config_keys c" c "[]" fs] config_keys_set [of c] by auto
  have "map_of m = full_value fs c"
    unfolding m(3) config_keys_set by (auto simp: fun_eq_iff full_value_def get_optional_path_def)
  then show ?thesis using m(1,2) by (simp add: full_config_def)
qed

text \<open>
  \<open>full_config\<close> never throws, whatever is missing, and flattens the chain: a key is set in it
  exactly when it is set in the configuration or in one it extends, \<open>extends\<close> itself excepted; its
  value is that of the nearest configuration in the chain; and a path is made absolute with the
  directory of the first configuration, also when the value comes from a file in another directory.
\<close>

theorem full_config_flattens:
  "\<exists>m. full_config fs c = Inr \<lparr>cfg_data = m, cfg_file = []\<rparr> \<and> map_ok m \<and> map_of m =
     (\<lambda>key. if key = EXTENDS then None
       else if key \<in> set PATHS then map_option (\<lambda>v. relative_to fs v (base_dir_of c)) (get_optional c key)
       else get_optional c key)"
  using full_config_eq [of fs c] unfolding full_value_def get_optional_path_def .

section \<open>Opening a configuration\<close>

text \<open>The path of the file that a config extends, and the value that \<open>desugar_home\<close> gives a key.\<close>

definition extends_path :: "files \<Rightarrow> (string \<Rightarrow> string option) \<Rightarrow> string \<Rightarrow> string option" where
  "extends_path fs look base_dir =
    (case look EXTENDS of
       None \<Rightarrow> None
     | Some p \<Rightarrow> if p = [] then None else Some (if base_dir = [] then p else absolute fs p base_dir))"

definition home_value :: "files \<Rightarrow> (string \<Rightarrow> string option) \<Rightarrow> string \<Rightarrow> string \<Rightarrow> string option" where
  "home_value fs look base_dir key =
    (case look PATH_TO_HOME of
       None \<Rightarrow> None
     | Some h \<Rightarrow>
         if h = [] then None
         else map_option (\<lambda>d. canonical fs (absolute fs d (if base_dir = [] then h else absolute fs h base_dir)))
                (map_of home_defaults key))"

lemma set_default_all: "map_of (fold (set_default fs h) kds m) key =
    (case map_of m key of Some v \<Rightarrow> Some v | None \<Rightarrow> map_option (\<lambda>d. canonical fs (absolute fs d h)) (map_of kds key))"
proof (induction kds arbitrary: m)
  case (Cons kd kds)
  then show ?case by (cases kd) (auto simp: set_default_def split: option.splits)
qed (simp split: option.splits)

lemma desugar_home_lookup: "map_of (desugar_home fs base_dir m) key =
    (case map_of m key of Some v \<Rightarrow> Some v | None \<Rightarrow> home_value fs (map_of m) base_dir key)"
  by (simp add: desugar_home_def home_value_def set_default_all split: option.splits)

lemma set_default_ok: "map_ok m \<Longrightarrow> map_ok (fold (set_default fs h) kds m)"
  by (induction kds arbitrary: m) (auto simp: set_default_def)

lemma desugar_home_ok: "map_ok m \<Longrightarrow> map_ok (desugar_home fs base_dir m)"
  by (auto simp: desugar_home_def set_default_ok split: option.splits)

lemma load_extends_eq: "load_extends fs open_file c base_dir =
    (case extends_path fs (map_of (cfg_data c)) base_dir of
       None \<Rightarrow> Some (Inr None)
     | Some p \<Rightarrow> map_option (\<lambda>r. rbind r (\<lambda>x. Inr (Some x))) (open_file p))"
  by (simp add: load_extends_def extends_path_def split: option.splits)

lemma open_config_lookup:
  assumes "open_config fs f = Inr c"
  shows "\<exists>s ps. read_file fs f = Some s \<and> read_properties 0 s = Inr ps \<and> map_of (cfg_data c) = map_of ps \<and> map_ok (cfg_data c)"
proof -
  obtain s ps where s: "read_file fs f = Some s" "read_properties 0 s = Inr ps"
      "cfg_data c = fold (\<lambda>(k, v). map_insert k v) ps []"
    using assms by (auto simp: open_config_def merge_properties_def split: option.splits)
  then show ?thesis using map_of_insert_all [of "[]" ps] by simp
qed


definition ex_files :: files where
  "ex_files = \<lparr>
     read_file = (\<lambda>f.
       if f = ''d/a'' then Some (''extends=b'' @ [CHR 0x0A] @ ''k=1'' @ [CHR 0x0A] @ ''k=2'')
       else if f = ''d/b'' then Some (''path.to.home=h'' @ [CHR 0x0A] @ ''k=3'' @ [CHR 0x0A] @ ''x=4'')
       else if f = ''d/self'' then Some ''extends=self''
       else None),
     absolute = (\<lambda>p d. d @ ''/'' @ p), canonical = (\<lambda>p. p), parent_path = (\<lambda>p. ''d'')\<rparr>"

definition ex_conf :: configuration where
  "ex_conf = Configuration \<lparr>cfg_data = [(''extends'', ''b''), (''k'', ''1'')], cfg_file = ''d/a''\<rparr>
    (Some (Configuration \<lparr>cfg_data = [(''k'', ''3''), (''path.to.hash-dictionary'', ''d/h/hash-dictionary''),
        (''path.to.home'', ''h''), (''path.to.phrase-corpus'', ''d/h/phrase-corpus''),
        (''path.to.phrase-dictionary'', ''d/h/phrase-dictionary''), (''path.to.phrase-index'', ''d/h/phrase-index''),
        (''path.to.postlist-index'', ''d/h/postlist-index''), (''path.to.regex-vocabulary'', ''d/h/regex-vocabulary''),
        (''x'', ''4'')], cfg_file = ''d/b''\<rparr> None ''d'')) ''d''"


section \<open>Whether a configuration opens\<close>

text \<open>The file that a file extends, and whether the chain of extended files has more than \<open>n\<close> files.\<close>

definition extended_file :: "files \<Rightarrow> string \<Rightarrow> string option" where
  "extended_file fs f =
    (case open_config fs f of
       Inl e \<Rightarrow> None
     | Inr c \<Rightarrow> extends_path fs (map_of (cfg_data c)) (parent_path fs f))"

primrec chain_longer :: "nat \<Rightarrow> files \<Rightarrow> string \<Rightarrow> bool" where
  "chain_longer 0 fs f \<longleftrightarrow> True"
| "chain_longer (Suc n) fs f \<longleftrightarrow> (case extended_file fs f of None \<Rightarrow> False | Some g \<Rightarrow> chain_longer n fs g)"

lemma open_configuration_step: "open_configuration (Suc n) fs f = None \<longleftrightarrow>
    (case extended_file fs f of None \<Rightarrow> False | Some g \<Rightarrow> open_configuration n fs g = None)"
  by (auto simp: extended_file_def construct_def load_extends_eq split: sum.splits option.splits)

lemma open_configuration_None: "open_configuration n fs f = None \<longleftrightarrow> chain_longer n fs f"
proof (induction n arbitrary: f)
  case (Suc n)
  then show ?case unfolding open_configuration_step by (simp split: option.splits)
qed simp

lemma open_configuration_more:
  "open_configuration n fs f = Some r \<Longrightarrow> n \<le> m \<Longrightarrow> open_configuration m fs f = Some r"
proof (induction n arbitrary: f r m)
  case (Suc n)
  then obtain k where m: "m = Suc k" "n \<le> k" by (cases m) auto
  show ?case
  proof (cases "open_config fs f")
    case (Inr c)
    have "open_configuration k fs g = open_configuration n fs g" if "open_configuration n fs g \<noteq> None" for g
      using Suc.IH that m(2) by (metis option.exhaust)
    then show ?thesis using Suc.prems(1) Inr
      by (auto simp: m(1) construct_def load_extends_eq split: option.splits)
  qed (use Suc.prems m(1) in simp)
qed simp

text \<open>
  C39. Opening a configuration returns, with a configuration or an error, exactly when the chain of
  extended files ends; the result does not depend on the fuel once it suffices.  A chain that comes
  back to a file it has visited is followed forever.
\<close>

theorem opening_returns_iff_chain_ends:
  "(\<exists>r. \<exists>n. \<forall>m. n \<le> m \<longrightarrow> open_configuration m fs f = Some r) \<longleftrightarrow> (\<exists>n. \<not> chain_longer n fs f)"
proof
  assume "\<exists>r. \<exists>n. \<forall>m. n \<le> m \<longrightarrow> open_configuration m fs f = Some r"
  then obtain r n where "open_configuration n fs f = Some r" by blast
  then show "\<exists>n. \<not> chain_longer n fs f" using open_configuration_None [of n fs f] by auto
next
  assume "\<exists>n. \<not> chain_longer n fs f"
  then obtain n r where "open_configuration n fs f = Some r" using open_configuration_None [of _ fs f] by (metis option.exhaust)
  then show "\<exists>r. \<exists>n. \<forall>m. n \<le> m \<longrightarrow> open_configuration m fs f = Some r" using open_configuration_more by blast
qed

theorem opening_returns_iff_chain_ends_witness:
  "(\<exists>r. \<exists>n. \<forall>m. n \<le> m \<longrightarrow> open_configuration m ex_files ''d/a'' = Some r) \<and> \<not> chain_longer 2 ex_files ''d/a''"
proof -
  have "\<not> chain_longer 2 ex_files ''d/a''" by code_simp
  then show ?thesis using opening_returns_iff_chain_ends [of ex_files "''d/a''"] by blast
qed

lemma self_extension_never_opens: "open_configuration n ex_files ''d/self'' = None"
proof -
  have "extended_file ex_files ''d/self'' = Some ''d/self''" by code_simp
  then have "chain_longer n ex_files ''d/self''" by (induction n) simp_all
  then show ?thesis by (simp add: open_configuration_None)
qed

section \<open>Extending and printing\<close>

lemma new_configuration_flat:
  assumes "map_of m EXTENDS = None"
  shows "new_configuration n fs \<lparr>cfg_data = m, cfg_file = []\<rparr>
    = Some (Inr (Configuration \<lparr>cfg_data = desugar_home fs [] m, cfg_file = []\<rparr> None []))"
  using assms by (simp add: new_configuration_def construct_def load_extends_def)

text \<open>
  \<open>extend\<close> always returns a configuration, one that extends nothing and whose paths are relative
  to nothing.  A key has the value it has in the full config of this configuration, else the one in
  that of the base, else its directory in the home directory that results.
\<close>

theorem extend_merges:
  "\<exists>m. extend n fs this base = Some (Inr (Configuration \<lparr>cfg_data = m, cfg_file = []\<rparr> None [])) \<and> map_ok m \<and>
    map_of m =
      (let merged = full_value fs base ++ full_value fs this
       in (\<lambda>key. case merged key of Some v \<Rightarrow> Some v | None \<Rightarrow> home_value fs merged [] key))"
proof -
  obtain b t where b: "full_config fs base = Inr \<lparr>cfg_data = b, cfg_file = []\<rparr>" "map_ok b" "map_of b = full_value fs base"
    and t: "full_config fs this = Inr \<lparr>cfg_data = t, cfg_file = []\<rparr>" "map_ok t" "map_of t = full_value fs this"
    using full_config_eq by blast
  have m: "map_of (merge_configs t b) = full_value fs base ++ full_value fs this"
    unfolding map_add_def merge_configs_lookup map_of_rev_ok [OF t(2)] t(3) b(3) by (rule ext) (simp split: option.split)
  have "map_of (merge_configs t b) EXTENDS = None" unfolding m by (simp add: map_add_def full_value_def)
  then have "extend n fs this base
      = Some (Inr (Configuration \<lparr>cfg_data = desugar_home fs [] (merge_configs t b), cfg_file = []\<rparr> None []))"
    by (simp add: extend_def b(1) t(1) new_configuration_flat)
  moreover have "map_ok (desugar_home fs [] (merge_configs t b))" by (simp add: desugar_home_ok merge_configs_ok b(2))
  ultimately show ?thesis by (auto simp: desugar_home_lookup m Let_def fun_eq_iff split: option.split)
qed

lemma insert_all_sorted: "map_ok m \<Longrightarrow> fold (\<lambda>(k, v). map_insert k v) m [] = m"
proof (induction m rule: rev_induct)
  case (snoc kv m)
  obtain k v where kv: "kv = (k, v)" by (cases kv)
  have o: "map_ok m" "\<forall>a \<in> fst ` set m. a < k" using snoc.prems by (auto simp: map_ok_def kv sorted_wrt_append)
  have "map_insert k v m = m @ [(k, v)]" using o(2) by (induction m) auto
  then show ?case using snoc.IH [OF o(1)] by (simp add: kv)
qed simp

text \<open>
  A config that prints is read back as it was, key by key and in the order of the keys.
\<close>

theorem config_roundtrip:
  assumes "map_ok (cfg_data c)" "config_print c = Inr t"
  shows "merge_properties t [] = Inr (cfg_data c)"
  using read_written_properties [OF assms(2) [unfolded config_print_def], of 0] insert_all_sorted [OF assms(1)]
  by (simp add: merge_properties_def)

theorem config_roundtrip_witness:
  "map_ok (cfg_data \<lparr>cfg_data = [(''a'', '' b''), (''k='', ''v'')], cfg_file = []\<rparr>) \<and>
   merge_properties (''a='' @ [CHR 0x5C] @ '' b'' @ [CHR 0x0A] @ ''k'' @ [CHR 0x5C] @ ''==v'' @ [CHR 0x0A]) []
     = Inr [(''a'', '' b''), (''k='', ''v'')]"
proof -
  let ?c = "\<lparr>cfg_data = [(''a'', '' b''), (''k='', ''v'')], cfg_file = []\<rparr>"
  have o: "map_ok (cfg_data ?c)" by code_simp
  have p: "config_print ?c = Inr (''a='' @ [CHR 0x5C] @ '' b'' @ [CHR 0x0A] @ ''k'' @ [CHR 0x5C] @ ''==v'' @ [CHR 0x0A])"
    by code_simp
  from o config_roundtrip [OF o p] show ?thesis by simp
qed

end
