(* ===== verification/Utf8.thy ===== *)
theory Utf8
  imports Prelude
begin

text \<open>
  UTF-8: \<open>is_valid_utf8\<close> of \<open>src/netspeak/util/string.cpp\<close>, \<open>number_of_utf8_bytes\<close> of
  \<open>src/netspeak/regex/RegexQuery.cpp\<close>, and the conversions of the standard library that the
  regex code uses, \<open>std::wstring_convert<std::codecvt_utf8<char32_t>, char32_t>\<close>.

  A \<open>char32_t\<close> is a natural number (it is only compared), a byte sequence a list of numbers
  below 256; \<open>to_bytes\<close> and \<open>from_bytes\<close> work on strings.
\<close>

unbundle bit_operations_syntax

type_synonym u32string = "nat list"

section \<open>The standard library's conversions\<close>

definition encode_char :: "nat \<Rightarrow> nat list" where
  "encode_char c =
    (if c < 0x80 then [c]
     else if c < 0x800 then [0xC0 + c div 0x40, 0x80 + c mod 0x40]
     else if c < 0x10000 then [0xE0 + c div 0x1000, 0x80 + c div 0x40 mod 0x40, 0x80 + c mod 0x40]
     else [0xF0 + c div 0x40000, 0x80 + c div 0x1000 mod 0x40, 0x80 + c div 0x40 mod 0x40,
           0x80 + c mod 0x40])"

definition encode :: "u32string \<Rightarrow> nat list" where
  "encode cs = concat (map encode_char cs)"

definition cont :: "nat \<Rightarrow> bool" where
  "cont b \<longleftrightarrow> 0x80 \<le> b \<and> b < 0xC0"

text \<open>The Unicode scalar values: what a valid UTF-8 sequence can denote.\<close>

definition scalar :: "nat \<Rightarrow> bool" where
  "scalar c \<longleftrightarrow> c < 0x110000 \<and> \<not> (0xD800 \<le> c \<and> c < 0xE000)"

definition decode2 :: "nat \<Rightarrow> nat \<Rightarrow> nat option" where
  "decode2 a b = (let c = (a - 0xC0) * 0x40 + (b - 0x80)
    in if 0xC0 \<le> a \<and> a < 0xE0 \<and> cont b \<and> 0x80 \<le> c then Some c else None)"

definition decode3 :: "nat \<Rightarrow> nat \<Rightarrow> nat \<Rightarrow> nat option" where
  "decode3 a b1 b2 = (let c = ((a - 0xE0) * 0x40 + (b1 - 0x80)) * 0x40 + (b2 - 0x80)
    in if 0xE0 \<le> a \<and> a < 0xF0 \<and> cont b1 \<and> cont b2 \<and> 0x800 \<le> c \<and> scalar c
       then Some c else None)"

definition decode4 :: "nat \<Rightarrow> nat \<Rightarrow> nat \<Rightarrow> nat \<Rightarrow> nat option" where
  "decode4 a b1 b2 b3 =
    (let c = (((a - 0xF0) * 0x40 + (b1 - 0x80)) * 0x40 + (b2 - 0x80)) * 0x40 + (b3 - 0x80)
     in if 0xF0 \<le> a \<and> a < 0xF8 \<and> cont b1 \<and> cont b2 \<and> cont b3 \<and> 0x10000 \<le> c \<and> scalar c
        then Some c else None)"

fun decode :: "nat list \<Rightarrow> u32string option" where
  "decode [] = Some []"
| "decode (a # bs) =
    (if a < 0x80 then map_option (Cons a) (decode bs)
     else if a < 0xE0 then
       (case bs of b1 # r \<Rightarrow>
          (case decode2 a b1 of None \<Rightarrow> None | Some c \<Rightarrow> map_option (Cons c) (decode r))
        | _ \<Rightarrow> None)
     else if a < 0xF0 then
       (case bs of b1 # b2 # r \<Rightarrow>
          (case decode3 a b1 b2 of None \<Rightarrow> None | Some c \<Rightarrow> map_option (Cons c) (decode r))
        | _ \<Rightarrow> None)
     else
       (case bs of b1 # b2 # b3 # r \<Rightarrow>
          (case decode4 a b1 b2 b3 of None \<Rightarrow> None | Some c \<Rightarrow> map_option (Cons c) (decode r))
        | _ \<Rightarrow> None))"

definition to_bytes :: "u32string \<Rightarrow> string" where
  "to_bytes cs = map char_of (encode cs)"

text \<open>\<open>from_bytes\<close> throws \<open>std::range_error\<close> on an invalid sequence.\<close>

definition from_bytes :: "string \<Rightarrow> u32string result" where
  "from_bytes s = (case decode (map of_char s) of
      None \<Rightarrow> Inl (RuntimeError ''wstring_convert::from_bytes'')
    | Some cs \<Rightarrow> Inr cs)"

section \<open>The program's functions\<close>

definition number_of_utf8_bytes :: "nat \<Rightarrow> nat" where
  "number_of_utf8_bytes c =
    (if c \<le> 0x7F then 1 else if c \<le> 0x7FF then 2 else if c \<le> 0xFFFF then 3 else 4)"

text \<open>The inner loop of \<open>is_valid_utf8\<close>: \<open>n\<close> bytes of the form 10bbbbbb must follow.\<close>

fun skip_cont :: "nat \<Rightarrow> nat list \<Rightarrow> nat list option" where
  "skip_cont 0 bs = Some bs"
| "skip_cont (Suc n) [] = None"
| "skip_cont (Suc n) (b # bs) = (if (b AND 0xC0) \<noteq> 0x80 then None else skip_cont n bs)"

lemma skip_cont_numeral [simp]:
  "skip_cont (numeral k) [] = None"
  "skip_cont (numeral k) (b # bs) =
    (if (b AND 0xC0) \<noteq> 0x80 then None else skip_cont (pred_numeral k) bs)"
  by (simp_all add: numeral_eq_Suc)

lemma skip_cont_length: "skip_cont n bs = Some r \<Longrightarrow> length r \<le> length bs"
  by (induction n bs rule: skip_cont.induct) (auto split: if_splits)

definition utf8_tail :: "nat \<Rightarrow> nat list \<Rightarrow> nat list option" where
  "utf8_tail c rest =
    (if c \<le> 0x7f then skip_cont 0 rest
     else if (c AND 0xE0) = 0xC0 then skip_cont 1 rest
     else if c = 0xed \<and> rest \<noteq> [] \<and> (hd rest AND 0xa0) = 0xa0 then None
     else if (c AND 0xF0) = 0xE0 then skip_cont 2 rest
     else if (c AND 0xF8) = 0xF0 then skip_cont 3 rest
     else None)"

lemma utf8_tail_length: "utf8_tail c rest = Some r \<Longrightarrow> length r \<le> length rest"
  by (auto simp: utf8_tail_def dest: skip_cont_length split: if_splits)

function valid_utf8_bytes :: "nat list \<Rightarrow> bool" where
  "valid_utf8_bytes [] = True"
| "valid_utf8_bytes (c # rest) =
    (case utf8_tail c rest of None \<Rightarrow> False | Some rest' \<Rightarrow> valid_utf8_bytes rest')"
  by pat_completeness auto
termination
  by (relation "measure length") (auto simp: utf8_tail_length less_Suc_eq_le)

definition is_valid_utf8 :: "string \<Rightarrow> bool" where
  "is_valid_utf8 str = valid_utf8_bytes (map of_char str)"

definition check_valid_utf8 :: "string \<Rightarrow> string \<Rightarrow> unit result" where
  "check_valid_utf8 str message = (if is_valid_utf8 str then Inr () else Inl (RuntimeError message))"

section \<open>Round trip\<close>

lemma decode_encode_char:
  assumes "scalar c"
  shows "decode (encode_char c @ bs) = map_option (Cons c) (decode bs)"
proof -
  have s: "c < 0x110000" using assms by (simp add: scalar_def)
  define w z y x where "w = c mod 0x40" and "z = c div 0x40 mod 0x40"
    and "y = c div 0x1000 mod 0x40" and "x = c div 0x40000"
  have m: "w < 0x40" "z < 0x40" "y < 0x40" by (simp_all add: w_def z_def y_def)
  have e: "c div 0x1000 = c div 0x40 div 0x40" "c div 0x40000 = c div 0x40 div 0x40 div 0x40"
    by (simp_all add: div_mult2_eq [symmetric])
  have c: "c = ((x * 0x40 + y) * 0x40 + z) * 0x40 + w"
    unfolding w_def z_def y_def x_def e by (simp only: div_mult_mod_eq)
  have d: "c div 0x40 = (x * 0x40 + y) * 0x40 + z" "c div 0x1000 = x * 0x40 + y"
    unfolding z_def y_def x_def e by (simp_all only: div_mult_mod_eq)
  have enc: "encode_char c =
    (if c < 0x80 then [c] else if c < 0x800 then [0xC0 + ((x * 0x40 + y) * 0x40 + z), 0x80 + w]
     else if c < 0x10000 then [0xE0 + (x * 0x40 + y), 0x80 + z, 0x80 + w]
     else [0xF0 + x, 0x80 + y, 0x80 + z, 0x80 + w])"
    unfolding encode_char_def z_def [symmetric] y_def [symmetric] x_def [symmetric] w_def [symmetric]
    by (simp only: d)
  consider "c < 0x80" | (b) "0x80 \<le> c" "c < 0x800" | (c) "0x800 \<le> c" "c < 0x10000"
    | (d) "0x10000 \<le> c" by linarith
  then show ?thesis
  proof cases
    case b
    then have "x = 0" "y = 0" "z < 0x20" using c by simp_all
    moreover have "decode2 (0xC0 + z) (0x80 + w) = Some c"
      using b m c calculation by (simp add: decode2_def cont_def)
    ultimately show ?thesis using b by (simp add: enc)
  next
    case c': c
    then have "x = 0" "y < 0x10" using c by simp_all
    moreover have "decode3 (0xE0 + y) (0x80 + z) (0x80 + w) = Some c"
      using c' m c calculation assms by (simp add: decode3_def cont_def)
    ultimately show ?thesis using c' by (simp add: enc)
  next
    case d'': d
    then have "x < 8" using c s by simp
    moreover have "decode4 (0xF0 + x) (0x80 + y) (0x80 + z) (0x80 + w) = Some c"
      using d'' m c calculation assms by (simp add: decode4_def cont_def)
    ultimately show ?thesis using d'' by (simp add: enc)
  qed (simp add: encode_char_def)
qed

lemma decode_encode: "(\<forall>c \<in> set cs. scalar c) \<Longrightarrow> decode (encode cs) = Some cs"
  by (induction cs) (simp_all add: encode_def decode_encode_char)

lemma encode_char_byte: "c < 0x110000 \<Longrightarrow> b \<in> set (encode_char c) \<Longrightarrow> b < 256"
  by (auto simp: encode_char_def less_mult_imp_div_less split: if_splits)

lemma encode_byte: "(\<forall>c \<in> set cs. scalar c) \<Longrightarrow> b \<in> set (encode cs) \<Longrightarrow> b < 256"
  by (auto simp: encode_def scalar_def dest: encode_char_byte)

lemma from_to_bytes:
  assumes "\<forall>c \<in> set cs. scalar c"
  shows "from_bytes (to_bytes cs) = Inr cs"
proof -
  have "map of_char (map char_of (encode cs) :: char list) = encode cs"
    using encode_byte [OF assms] by (simp add: map_idI)
  then show ?thesis by (simp add: from_bytes_def to_bytes_def decode_encode [OF assms])
qed

lemma to_bytes_inj:
  "(\<forall>c \<in> set cs. scalar c) \<Longrightarrow> (\<forall>c \<in> set ds. scalar c) \<Longrightarrow> to_bytes cs = to_bytes ds \<Longrightarrow> cs = ds"
  by (metis from_to_bytes sum.inject(2))

lemma to_bytes_append [simp]: "to_bytes (cs @ ds) = to_bytes cs @ to_bytes ds"
  by (simp add: to_bytes_def encode_def)

lemma to_bytes_Nil [simp]: "to_bytes [] = []"
  by (simp add: to_bytes_def encode_def)

lemma cont_obtain: "cont b \<Longrightarrow> \<exists>y. b = 0x80 + y \<and> y < 0x40"
  by (rule exI [of _ "b - 0x80"]) (auto simp: cont_def)

lemma head_obtain: "n \<le> a \<Longrightarrow> a < n + k \<Longrightarrow> \<exists>x. a = n + x \<and> x < (k :: nat)"
  by (rule exI [of _ "a - n"]) auto

lemma div_mod_64: "c = q * 0x40 + r \<Longrightarrow> r < (0x40 :: nat) \<Longrightarrow> c div 0x40 = q \<and> c mod 0x40 = r"
  by simp

lemma decode2_encode: "decode2 a b = Some c \<Longrightarrow> encode_char c = [a, b] \<and> scalar c"
proof -
  assume d: "decode2 a b = Some c"
  then have "0xC0 \<le> a" "a < 0xC0 + 0x20" "cont b" by (auto simp: decode2_def Let_def split: if_splits)
  then obtain x y where x: "a = 0xC0 + x" "x < 0x20" "b = 0x80 + y" "y < 0x40"
    using head_obtain cont_obtain by blast
  then have c: "c = x * 0x40 + y" "0x80 \<le> c" using d by (auto simp: decode2_def Let_def split: if_splits)
  then have "c < 0x800" "c div 0x40 = x" "c mod 0x40 = y" using x by simp_all
  then show ?thesis using x c(2) by (simp add: encode_char_def scalar_def)
qed

lemma decode3_encode: "decode3 a b1 b2 = Some c \<Longrightarrow> encode_char c = [a, b1, b2] \<and> scalar c"
proof -
  assume d: "decode3 a b1 b2 = Some c"
  then have "0xE0 \<le> a" "a < 0xE0 + 0x10" "cont b1" "cont b2"
    by (auto simp: decode3_def Let_def split: if_splits)
  then obtain x y z where x: "a = 0xE0 + x" "x < 0x10" "b1 = 0x80 + y" "y < 0x40" "b2 = 0x80 + z" "z < 0x40"
    using head_obtain cont_obtain by metis
  then have c: "c = (x * 0x40 + y) * 0x40 + z" "0x800 \<le> c" "scalar c"
    using d by (auto simp: decode3_def Let_def split: if_splits)
  then have "c < 0x10000" using x by simp
  moreover have "c div 0x40 = x * 0x40 + y" "c mod 0x40 = z" using div_mod_64 [OF c(1)] x by auto
  moreover have "c div 0x1000 = c div 0x40 div 0x40" by (simp add: div_mult2_eq [symmetric])
  ultimately show ?thesis using x c(2,3) by (simp add: encode_char_def)
qed

lemma decode4_encode: "decode4 a b1 b2 b3 = Some c \<Longrightarrow> encode_char c = [a, b1, b2, b3] \<and> scalar c"
proof -
  assume d: "decode4 a b1 b2 b3 = Some c"
  then have "0xF0 \<le> a" "a < 0xF0 + 8" "cont b1" "cont b2" "cont b3"
    by (auto simp: decode4_def Let_def split: if_splits)
  then obtain x y z w where x: "a = 0xF0 + x" "x < 8" "b1 = 0x80 + y" "y < 0x40" "b2 = 0x80 + z" "z < 0x40"
      "b3 = 0x80 + w" "w < 0x40"
    using head_obtain cont_obtain by metis
  then have c: "c = ((x * 0x40 + y) * 0x40 + z) * 0x40 + w" "0x10000 \<le> c" "scalar c"
    using d by (auto simp: decode4_def Let_def split: if_splits)
  then have "c div 0x40 = (x * 0x40 + y) * 0x40 + z" "c mod 0x40 = w"
    using div_mod_64 [OF c(1)] x by auto
  moreover have "c div 0x1000 = c div 0x40 div 0x40" "c div 0x40000 = c div 0x40 div 0x40 div 0x40"
    by (simp_all add: div_mult2_eq [symmetric])
  moreover note div_mod_64 [OF refl x(6), of "x * 0x40 + y"] div_mod_64 [OF refl x(4), of x]
  ultimately show ?thesis using x c(2,3) unfolding encode_char_def by simp
qed

lemma encode_Cons: "encode (c # cs) = encode_char c @ encode cs"
  by (simp add: encode_def)

lemma encode_decode: "decode bs = Some cs \<Longrightarrow> encode cs = bs \<and> (\<forall>c \<in> set cs. scalar c)"
proof (induction bs arbitrary: cs rule: decode.induct)
  case (2 a bs)
  consider (one) "a < 0x80" | (two) "0x80 \<le> a" "a < 0xE0" | (three) "0xE0 \<le> a" "a < 0xF0" | (four) "0xF0 \<le> a"
    by linarith
  then show ?case
  proof cases
    case one
    then show ?thesis using "2.prems" "2.IH"(1) by (auto simp: encode_Cons encode_char_def scalar_def)
  next
    case two
    then obtain b1 r c cs' where s: "bs = b1 # r" "decode2 a b1 = Some c" "decode r = Some cs'" "cs = c # cs'"
      using "2.prems" by (auto split: list.splits option.splits)
    show ?thesis
      using "2.IH"(2) [OF _ _ s(1,2,3)] two decode2_encode [OF s(2)] s(1,4) by (simp add: encode_Cons)
  next
    case three
    then obtain b1 b2 r c cs' where s: "bs = b1 # b2 # r" "decode3 a b1 b2 = Some c" "decode r = Some cs'"
        "cs = c # cs'"
      using "2.prems" by (auto split: list.splits option.splits)
    show ?thesis
      using "2.IH"(3) [OF _ _ _ s(1) refl s(2,3)] three decode3_encode [OF s(2)] s(1,4)
      by (simp add: encode_Cons)
  next
    case four
    then obtain b1 b2 b3 r c cs' where s: "bs = b1 # b2 # b3 # r" "decode4 a b1 b2 b3 = Some c"
        "decode r = Some cs'" "cs = c # cs'"
      using "2.prems" by (auto split: list.splits option.splits)
    show ?thesis
      using "2.IH"(4) [OF _ _ _ s(1) refl refl s(2,3)] four decode4_encode [OF s(2)] s(1,4)
      by (simp add: encode_Cons)
  qed
qed (simp add: encode_def)

lemma length_encode_char: "length (encode_char c) = number_of_utf8_bytes c"
  by (auto simp: encode_char_def number_of_utf8_bytes_def)

lemma length_to_bytes: "length (to_bytes cs) = sum_list (map number_of_utf8_bytes cs)"
  by (induction cs) (simp_all add: to_bytes_def encode_def length_encode_char)

lemma number_of_utf8_bytes_bounds: "1 \<le> number_of_utf8_bytes c" "number_of_utf8_bytes c \<le> 4"
  by (simp_all add: number_of_utf8_bytes_def)

section \<open>What \<open>is_valid_utf8\<close> accepts\<close>

lemma times_div_eq_iff: "0 < n \<Longrightarrow> n * (c div n) = n * k \<longleftrightarrow> n * k \<le> c \<and> c < n * k + (n :: nat)"
proof -
  assume n: "0 < n"
  have "n * (c div n) = n * k \<longleftrightarrow> c div n = k" using n by simp
  also have "\<dots> \<longleftrightarrow> k \<le> c div n \<and> c div n < k + 1" by auto
  also have "\<dots> \<longleftrightarrow> k * n \<le> c \<and> c < (k + 1) * n"
    using n by (simp only: less_eq_div_iff_mult_less_eq div_less_iff_less_mult)
  finally show ?thesis by (simp add: algebra_simps)
qed

text \<open>The bit tests of the code as ranges of bytes.\<close>

lemma byte_tests:
  assumes "c < 256"
  shows "(c AND 0xC0) = 0x80 \<longleftrightarrow> cont c"
    and "(c AND 0xE0) = 0xC0 \<longleftrightarrow> 0xC0 \<le> c \<and> c < 0xE0"
    and "(c AND 0xF0) = 0xE0 \<longleftrightarrow> 0xE0 \<le> c \<and> c < 0xF0"
    and "(c AND 0xF8) = 0xF0 \<longleftrightarrow> 0xF0 \<le> c \<and> c < 0xF8"
    and "cont c \<Longrightarrow> (c AND 0xa0) = 0xa0 \<longleftrightarrow> 0xA0 \<le> c"
proof -
  have and_high: "c AND push_bit n (mask m) = push_bit n (take_bit m (drop_bit n c))" for n m
    by (rule bit_eqI) (auto simp: bit_simps)
  have masks: "push_bit 6 (mask 2) = (0xC0 :: nat)" "push_bit 5 (mask 3) = (0xE0 :: nat)"
      "push_bit 4 (mask 4) = (0xF0 :: nat)" "push_bit 3 (mask 5) = (0xF8 :: nat)"
    by (simp_all add: mask_eq_exp_minus_1 push_bit_eq_mult)
  note high = and_high [of 6 2] and_high [of 5 3] and_high [of 4 4] and_high [of 3 5]
  note high = high [unfolded masks, unfolded take_bit_eq_mod drop_bit_eq_div push_bit_eq_mult]
  have d: "c div 0x40 < 4" "c div 0x20 < 8" "c div 0x10 < 16" "c div 8 < 32"
    using assms by (simp_all add: less_mult_imp_div_less)
  have "c AND 0xC0 = 0x40 * (c div 0x40)" using high(1) d by simp
  then show "(c AND 0xC0) = 0x80 \<longleftrightarrow> cont c" using times_div_eq_iff [of 64 c 2] by (simp add: cont_def)
  have e0: "c AND 0xE0 = 0x20 * (c div 0x20)" using high(2) d by simp
  then show "(c AND 0xE0) = 0xC0 \<longleftrightarrow> 0xC0 \<le> c \<and> c < 0xE0"
    using times_div_eq_iff [of 32 c 6] by simp
  have "c AND 0xF0 = 0x10 * (c div 0x10)" using high(3) d by simp
  then show "(c AND 0xF0) = 0xE0 \<longleftrightarrow> 0xE0 \<le> c \<and> c < 0xF0"
    using times_div_eq_iff [of 16 c 14] by simp
  have "c AND 0xF8 = 8 * (c div 8)" using high(4) d by simp
  then show "(c AND 0xF8) = 0xF0 \<longleftrightarrow> 0xF0 \<le> c \<and> c < 0xF8"
    using times_div_eq_iff [of 8 c 30] by simp
  show "(c AND 0xa0) = 0xa0 \<longleftrightarrow> 0xA0 \<le> c" if "cont c"
  proof -
    have "(0xa0 :: nat) = 0xE0 AND 0xa0" by simp
    then have "c AND 0xa0 = 0x20 * (c div 0x20) AND 0xa0"
      using e0 by (metis and.assoc)
    moreover have "c div 0x20 = 4 \<or> c div 0x20 = 5"
      using that times_div_eq_iff [of 32 c 4] times_div_eq_iff [of 32 c 5] by (auto simp: cont_def)
    ultimately have "(c AND 0xa0) = 0xa0 \<longleftrightarrow> c div 0x20 = 5" by auto
    moreover have "c div 0x20 = 5 \<longleftrightarrow> 0xA0 \<le> c"
      using times_div_eq_iff [of 32 c 5] that by (auto simp: cont_def)
    ultimately show ?thesis by simp
  qed
qed

lemma skip_cont_conts: "(\<forall>b \<in> set bs. cont b) \<Longrightarrow> skip_cont (length bs) (bs @ r) = Some r"
proof (induction bs)
  case (Cons b bs)
  then have "b < 256" by (simp add: cont_def)
  then show ?case using Cons byte_tests(1) [of b] by simp
qed simp

text \<open>Every well-formed sequence is accepted.\<close>

lemma utf8_tail_encode_char:
  assumes "scalar c"
  obtains a bs where "encode_char c = a # bs" "utf8_tail a (bs @ r) = Some r"
proof -
  have d: "decode (encode_char c) = Some [c]" using decode_encode_char [OF assms, of "[]"] by simp
  have m: "cont (0x80 + x mod 0x40)" for x by (simp add: cont_def)
  consider (one) "c < 0x80" | (two) "0x80 \<le> c" "c < 0x800" | (three) "0x800 \<le> c" "c < 0x10000"
    | (four) "0x10000 \<le> c" by linarith
  then show ?thesis
  proof cases
    case one
    then show ?thesis using that [of c "[]"] by (simp add: encode_char_def utf8_tail_def)
  next
    case two
    then have "c div 0x40 < 0x20" using less_mult_imp_div_less [of c "0x20" "0x40"] by simp
    then have "0xC0 + c div 0x40 < 256" "(0xC0 + c div 0x40) AND 0xE0 = 0xC0"
      using byte_tests(2) [of "0xC0 + c div 0x40"] by simp_all
    then show ?thesis
      using that [of "0xC0 + c div 0x40" "[0x80 + c mod 0x40]"] two
        skip_cont_conts [of "[0x80 + c mod 0x40]" r] m
      by (simp add: encode_char_def utf8_tail_def)
  next
    case three
    define a where "a = 0xE0 + c div 0x1000"
    define b where "b = 0x80 + c div 0x40 mod 0x40"
    have a: "a < 256" "0xE0 \<le> a" "a < 0xF0"
      using less_mult_imp_div_less [of c "0x10" "0x1000"] three by (simp_all add: a_def)
    have ed: "\<not> (a = 0xed \<and> (b AND 0xa0) = 0xa0)"
    proof
      assume "a = 0xed \<and> (b AND 0xa0) = 0xa0"
      moreover have "cont b" "b < 256" by (simp_all add: b_def cont_def trans_less_add1)
      ultimately have "c div 0x1000 = 0xd" "0x20 \<le> c div 0x40 mod 0x40"
        using byte_tests(5) [of b] by (simp_all add: a_def b_def)
      moreover have "c div 0x1000 = c div 0x40 div 0x40" by (simp add: div_mult2_eq [symmetric])
      moreover have "c div 0x40 = c div 0x40 div 0x40 * 0x40 + c div 0x40 mod 0x40"
        by (simp only: div_mult_mod_eq)
      moreover have "c = c div 0x40 * 0x40 + c mod 0x40" by (simp only: div_mult_mod_eq)
      moreover have "c mod 0x40 < 0x40" "c div 0x40 mod 0x40 < 0x40" by simp_all
      ultimately have "0xD800 \<le> c \<and> c < 0xE000" by linarith
      then show False using assms by (simp add: scalar_def)
    qed
    have "skip_cont (length [b, 0x80 + c mod 0x40]) ([b, 0x80 + c mod 0x40] @ r) = Some r"
      by (rule skip_cont_conts) (simp add: b_def m)
    then show ?thesis
      using that [of a "[b, 0x80 + c mod 0x40]"] three a ed byte_tests(2,3) [of a]
      by (simp add: encode_char_def utf8_tail_def a_def [symmetric] b_def [symmetric] numeral_2_eq_2)
  next
    case four
    define a where "a = 0xF0 + c div 0x40000"
    define bs where "bs = [0x80 + c div 0x1000 mod 0x40, 0x80 + c div 0x40 mod 0x40, 0x80 + c mod 0x40]"
    have a: "a < 256" "0xF0 \<le> a" "a < 0xF8"
      using less_mult_imp_div_less [of c "8" "0x40000"] assms by (simp_all add: a_def scalar_def)
    have "skip_cont (length bs) (bs @ r) = Some r"
      by (rule skip_cont_conts) (simp add: bs_def m)
    moreover have "length bs = 3" by (simp add: bs_def)
    ultimately have "skip_cont 3 (bs @ r) = Some r" by metis
    then show ?thesis
      using that [of a bs] four a byte_tests(2,3,4) [of a]
      by (simp add: encode_char_def utf8_tail_def a_def [symmetric] bs_def [symmetric])
  qed
qed

lemma valid_utf8_encode: "(\<forall>c \<in> set cs. scalar c) \<Longrightarrow> valid_utf8_bytes (encode cs)"
proof (induction cs)
  case (Cons c cs)
  then obtain a bs where "encode_char c = a # bs" "utf8_tail a (bs @ encode cs) = Some (encode cs)"
    using utf8_tail_encode_char [of c] by (metis list.set_intros(1))
  then show ?case using Cons by (simp add: encode_Cons)
qed (simp add: encode_def)

section \<open>Properties\<close>

text \<open>
  Converting characters to UTF-8 and back: \<open>from_bytes\<close> recovers every sequence of Unicode
  scalar values from \<open>to_bytes\<close>, the number of bytes is the sum of \<open>number_of_utf8_bytes\<close>, and
  \<open>is_valid_utf8\<close> accepts the bytes.
\<close>

theorem utf8_roundtrip:
  assumes "\<forall>c \<in> set cs. scalar c"
  shows "from_bytes (to_bytes cs) = Inr cs
    \<and> length (to_bytes cs) = sum_list (map number_of_utf8_bytes cs)
    \<and> is_valid_utf8 (to_bytes cs)"
proof -
  have "map of_char (to_bytes cs) = encode cs"
    using encode_byte [OF assms] by (simp add: to_bytes_def map_idI)
  then have "is_valid_utf8 (to_bytes cs)"
    by (simp add: is_valid_utf8_def valid_utf8_encode [OF assms])
  then show ?thesis using from_to_bytes [OF assms] length_to_bytes by simp
qed

theorem utf8_roundtrip_witness: "from_bytes (to_bytes [0x61, 0xE4, 0x20AC, 0x1F600]) = Inr [0x61, 0xE4, 0x20AC, 0x1F600]"
  by (rule utf8_roundtrip [THEN conjunct1]) (simp add: scalar_def)

text \<open>
  \<open>is_valid_utf8\<close> accepts every sequence the standard decoder accepts and more: overlong
  forms such as C0 80, overlong four-byte forms and code points above U+10FFFF pass the check,
  and the decoder rejects them.
\<close>

theorem is_valid_utf8_too_weak:
  "(from_bytes s = Inr cs \<longrightarrow> is_valid_utf8 s)
    \<and> valid_utf8_bytes [0xC0, 0x80] \<and> decode [0xC0, 0x80] = None
    \<and> valid_utf8_bytes [0xF7, 0xBF, 0xBF, 0xBF] \<and> decode [0xF7, 0xBF, 0xBF, 0xBF] = None"
proof -
  have "is_valid_utf8 s" if "from_bytes s = Inr cs"
  proof -
    have "decode (map of_char s) = Some cs" using that by (auto simp: from_bytes_def split: option.splits)
    from encode_decode [OF this] show ?thesis
      by (metis is_valid_utf8_def valid_utf8_encode)
  qed
  moreover have "valid_utf8_bytes [0xC0, 0x80]" "decode [0xC0, 0x80] = None"
      "valid_utf8_bytes [0xF7, 0xBF, 0xBF, 0xBF]" "decode [0xF7, 0xBF, 0xBF, 0xBF] = None"
    by (simp_all add: utf8_tail_def decode2_def decode4_def cont_def scalar_def)
  ultimately show ?thesis by blast
qed

theorem is_valid_utf8_too_weak_witness: "is_valid_utf8 ''abc''"
  using is_valid_utf8_too_weak [of "''abc''" "[97, 98, 99]"] by (auto simp: from_bytes_def)

end
