(* ===== verification/Regex_Query.thy ===== *)
theory Regex_Query
  imports Languages Utf8
begin

text \<open>
  \<open>RegexUnit\<close>, \<open>RegexQuery\<close> and \<open>RegexQueryBuilder\<close> of \<open>src/netspeak/regex/RegexQuery.hpp\<close>
  and \<open>RegexQuery.cpp\<close>: the queries over the characters of one word.  The builder rewrites
  while units are added; \<open>rq_lang\<close> is the language it has to keep, and \<open>rq_normal\<close> the normal
  form its rules establish.
\<close>

datatype regex_unit =
    RQMark
  | RStar
  | RWord u32string
  | RCharSet u32string
  | ROptWord u32string

section \<open>Queries\<close>

definition create_reject_all :: "regex_unit list" where
  "create_reject_all = [RCharSet []]"

text \<open>The loop of \<open>combinations_upper_bound\<close> with its early returns; \<open>count\<close> has 64 bits.\<close>

fun combinations_loop :: "regex_unit list \<Rightarrow> u64 \<Rightarrow> u32" where
  "combinations_loop [] cnt = ucast cnt"
| "combinations_loop (u # us) cnt =
    (case u of
       RQMark \<Rightarrow> UINT32_MAX
     | RStar \<Rightarrow> UINT32_MAX
     | _ \<Rightarrow>
       (let cnt' = (case u of ROptWord _ \<Rightarrow> cnt * 2
                      | RCharSet v \<Rightarrow> cnt * of_nat (length v)
                      | _ \<Rightarrow> cnt)
        in if cnt' = 0 then 0
           else if cnt' \<ge> ucast UINT32_MAX then UINT32_MAX
           else combinations_loop us cnt'))"

definition combinations_upper_bound :: "regex_unit list \<Rightarrow> u32" where
  "combinations_upper_bound us = combinations_loop us 1"

definition reject_all :: "regex_unit list \<Rightarrow> bool" where
  "reject_all us \<longleftrightarrow> combinations_upper_bound us = 0"

definition accept_all :: "regex_unit list \<Rightarrow> bool" where
  "accept_all us \<longleftrightarrow> length us = 1 \<and> hd us = RStar"

definition accept_all_non_empty :: "regex_unit list \<Rightarrow> bool" where
  "accept_all_non_empty us \<longleftrightarrow>
    accept_all us \<or>
    (length us = 2 \<and>
      (case us ! 0 of
         RStar \<Rightarrow> us ! 1 = RQMark
       | RQMark \<Rightarrow> us ! 1 = RStar
       | _ \<Rightarrow> False))"

text \<open>The search for the smallest and the largest character, with their breaks.\<close>

fun char_set_min :: "u32string \<Rightarrow> u64 \<Rightarrow> u64" where
  "char_set_min [] mn = mn"
| "char_set_min (c # cs) mn =
    (let c_min = of_nat (number_of_utf8_bytes c)
     in if c_min < mn then (if c_min = 1 then c_min else char_set_min cs c_min)
        else char_set_min cs mn)"

fun char_set_max :: "u32string \<Rightarrow> u64 \<Rightarrow> u64" where
  "char_set_max [] mx = mx"
| "char_set_max (c # cs) mx =
    (let c_max = of_nat (number_of_utf8_bytes c)
     in if c_max > mx then (if c_max = 4 then c_max else char_set_max cs c_max)
        else char_set_max cs mx)"

definition bytes_of :: "u32string \<Rightarrow> u64" where
  "bytes_of cs = foldl (\<lambda>n c. n + of_nat (number_of_utf8_bytes c)) 0 cs"

fun min_utf8_loop :: "regex_unit list \<Rightarrow> u64 \<Rightarrow> u64" where
  "min_utf8_loop [] mn = mn"
| "min_utf8_loop (RWord v # us) mn = min_utf8_loop us (mn + bytes_of v)"
| "min_utf8_loop (RQMark # us) mn = min_utf8_loop us (mn + 1)"
| "min_utf8_loop (RCharSet v # us) mn =
    (if v = [] then UINT64_MAX else min_utf8_loop us (mn + char_set_min v UINT64_MAX))"
| "min_utf8_loop (_ # us) mn = min_utf8_loop us mn"

definition min_utf8_input_length :: "regex_unit list \<Rightarrow> u64" where
  "min_utf8_input_length us = min_utf8_loop us 0"

fun max_utf8_loop :: "regex_unit list \<Rightarrow> u64 \<Rightarrow> u64" where
  "max_utf8_loop [] mx = mx"
| "max_utf8_loop (RWord v # us) mx = max_utf8_loop us (mx + bytes_of v)"
| "max_utf8_loop (ROptWord v # us) mx = max_utf8_loop us (mx + bytes_of v)"
| "max_utf8_loop (RQMark # us) mx = max_utf8_loop us (mx + 4)"
| "max_utf8_loop (RCharSet v # us) mx = max_utf8_loop us (mx + char_set_max v 0)"
| "max_utf8_loop (RStar # us) mx = UINT64_MAX"

definition max_utf8_input_length :: "regex_unit list \<Rightarrow> u64" where
  "max_utf8_input_length us = max_utf8_loop us 0"

text \<open>\<open>operator<<\<close>.\<close>

fun show_regex_unit :: "regex_unit \<Rightarrow> string" where
  "show_regex_unit RQMark = ''?''"
| "show_regex_unit RStar = ''*''"
| "show_regex_unit (RCharSet v) = ''['' @ to_bytes v @ '']''"
| "show_regex_unit (ROptWord v) = ''('' @ to_bytes v @ '')''"
| "show_regex_unit (RWord v) = to_bytes v"

definition show_regex_query :: "regex_unit list \<Rightarrow> string" where
  "show_regex_query us =
    (if reject_all us then ''[]REJECT_ALL[]'' else concat (map show_regex_unit us))"

section \<open>The builder\<close>

record query_builder =
  rb_units :: "regex_unit list"
  rb_reject_all :: bool

definition new_builder :: query_builder where
  "new_builder = \<lparr>rb_units = [], rb_reject_all = False\<rparr>"

text \<open>
  The loop of \<open>remove_trailing_optional_words\<close> runs from the back, so it is given the reversed
  vector; it returns what is left and the number of question marks removed.
\<close>

fun strip_optional :: "regex_unit list \<Rightarrow> nat \<Rightarrow> regex_unit list \<times> nat" where
  "strip_optional (RQMark # us) qmarks = strip_optional us (qmarks + 1)"
| "strip_optional (ROptWord _ # us) qmarks = strip_optional us qmarks"
| "strip_optional us qmarks = (us, qmarks)"

definition remove_trailing_optional_words :: "regex_unit list \<Rightarrow> regex_unit list" where
  "remove_trailing_optional_words units =
    (let (rest, qmarks) = strip_optional (rev units) 0
     in rev rest @ replicate qmarks RQMark)"

fun dedup_loop :: "'a \<Rightarrow> 'a list \<Rightarrow> 'a list" where
  "dedup_loop prev [] = []"
| "dedup_loop prev (ch # chars) =
    (if ch \<noteq> prev then ch # dedup_loop ch chars else dedup_loop prev chars)"

definition without_duplicates :: "u32string \<Rightarrow> u32string" where
  "without_duplicates characters =
    (if length characters < 2 then characters
     else let chars = sort characters in hd chars # dedup_loop (hd chars) (tl chars))"

definition optimize_unit :: "regex_unit \<Rightarrow> regex_unit" where
  "optimize_unit u = (case u of
      RCharSet v \<Rightarrow>
        (let set' = without_duplicates v
         in if length set' = 1 then RWord set' else RCharSet set')
    | _ \<Rightarrow> u)"

text \<open>The end of \<open>add\<close>: the rules that look at the last unit.\<close>

definition append_unit :: "regex_unit list \<Rightarrow> regex_unit \<Rightarrow> regex_unit list" where
  "append_unit units u =
    (if units = [] then [u]
     else
       (let prev = last units in
        case u of
          RWord v \<Rightarrow>
            (case prev of RWord w \<Rightarrow> butlast units @ [RWord (w @ v)] | _ \<Rightarrow> units @ [u])
        | RQMark \<Rightarrow>
            (if prev = RStar then butlast units @ [RQMark, RStar] else units @ [u])
        | RStar \<Rightarrow>
            (case prev of
               RStar \<Rightarrow> units
             | ROptWord _ \<Rightarrow> remove_trailing_optional_words units @ [RStar]
             | RQMark \<Rightarrow> remove_trailing_optional_words units @ [RStar]
             | _ \<Rightarrow> units @ [u])
        | RCharSet _ \<Rightarrow> units @ [u]
        | ROptWord _ \<Rightarrow> (if prev = RStar then units else units @ [u])))"

definition builder_add :: "query_builder \<Rightarrow> regex_unit \<Rightarrow> query_builder" where
  "builder_add b unit =
    (if rb_reject_all b then b
     else
       (let u = optimize_unit unit in
        if u = RWord [] \<or> u = ROptWord [] then b
        else if u = RCharSet [] then b\<lparr>rb_reject_all := True\<rparr>
        else b\<lparr>rb_units := append_unit (rb_units b) u\<rparr>))"

definition to_query :: "query_builder \<Rightarrow> regex_unit list" where
  "to_query b = (if rb_reject_all b then create_reject_all else rb_units b)"

section \<open>The language of a query\<close>

fun ru_lang :: "regex_unit \<Rightarrow> u32string set" where
  "ru_lang RQMark = {w. length w = 1}"
| "ru_lang RStar = UNIV"
| "ru_lang (RWord v) = {v}"
| "ru_lang (RCharSet v) = {[c] | c. c \<in> set v}"
| "ru_lang (ROptWord v) = {[], v}"

definition rq_lang :: "regex_unit list \<Rightarrow> u32string set" where
  "rq_lang us = concs (map ru_lang us)"

definition rb_lang :: "query_builder \<Rightarrow> u32string set" where
  "rb_lang b = (if rb_reject_all b then {} else rq_lang (rb_units b))"

lemma rq_lang_simps [simp]:
  "rq_lang [] = {[]}"
  "rq_lang (u # us) = conc (ru_lang u) (rq_lang us)"
  "rq_lang (us @ vs) = conc (rq_lang us) (rq_lang vs)"
  by (simp_all add: rq_lang_def)

lemma rq_lang_to_query: "rq_lang (to_query b) = rb_lang b"
  by (simp add: to_query_def rb_lang_def create_reject_all_def)

lemma rb_lang_new [simp]: "rb_lang new_builder = {[]}"
  by (simp add: rb_lang_def new_builder_def)

subsection \<open>Removing duplicates\<close>

lemma dedup_loop_set: "insert l (set (dedup_loop l cs)) = insert l (set cs)"
  by (induction l cs rule: dedup_loop.induct) auto

lemma dedup_loop_sorted: "sorted (l # cs :: 'a::linorder list) \<Longrightarrow> sorted_wrt (<) (l # dedup_loop l cs)"
proof (induction l cs rule: dedup_loop.induct)
  case (2 l ch chars)
  show ?case
  proof (cases "ch = l")
    case False
    then have "l < ch" using "2.prems" by (simp add: less_le)
    moreover have "sorted_wrt (<) (ch # dedup_loop ch chars)" using 2 False by simp
    ultimately show ?thesis using False by auto
  qed (use 2 in simp)
qed simp

lemma without_duplicates_facts:
  shows "set (without_duplicates cs) = set cs"
    and "sorted_wrt (<) (without_duplicates cs)"
proof -
  have "cs = [] \<or> (\<exists>c. cs = [c])" if "length cs < 2"
    using that by (cases cs) (auto simp: less_Suc_eq_le)
  moreover have "set (without_duplicates cs) = set cs \<and> sorted_wrt (<) (without_duplicates cs)"
    if "\<not> length cs < 2"
  proof -
    have "length (sort cs) \<noteq> 0" using that by (simp only: length_sort)
    then obtain x xs where s: "sort cs = x # xs" by (cases "sort cs") auto
    have "insert x (set (dedup_loop x xs)) = set cs"
      using dedup_loop_set [of x xs] s by (metis list.simps(15) set_sort)
    moreover have "sorted_wrt (<) (x # dedup_loop x xs)"
      by (rule dedup_loop_sorted) (metis s sorted_sort)
    ultimately show ?thesis using that s by (simp add: without_duplicates_def)
  qed
  ultimately have "set (without_duplicates cs) = set cs \<and> sorted_wrt (<) (without_duplicates cs)"
    by (cases "length cs < 2") (auto simp: without_duplicates_def)
  then show "set (without_duplicates cs) = set cs" "sorted_wrt (<) (without_duplicates cs)" by auto
qed

lemma ru_lang_optimize [simp]: "ru_lang (optimize_unit u) = ru_lang u"
proof (cases u)
  case (RCharSet v)
  define s where "s = without_duplicates v"
  have s: "set s = set v" by (simp add: s_def without_duplicates_facts)
  show ?thesis
  proof (cases "length s = 1")
    case True
    then obtain c where "s = [c]" by (auto simp: length_Suc_conv)
    moreover have "set v = {c}" using s calculation by simp
    ultimately show ?thesis using RCharSet by (simp add: optimize_unit_def s_def [symmetric])
  next
    case False
    then show ?thesis using RCharSet s by (simp add: optimize_unit_def s_def [symmetric])
  qed
qed (simp_all add: optimize_unit_def)

subsection \<open>Absorption\<close>

lemma rq_lang_replicate_UNIV: "conc (rq_lang (replicate n RQMark)) UNIV = conc UNIV (rq_lang (replicate n RQMark))"
proof (induction n)
  case (Suc n)
  have "conc (conc {w. length w = 1} (rq_lang (replicate n RQMark))) (UNIV :: u32string set)
      = conc {w. length w = 1} (conc UNIV (rq_lang (replicate n RQMark)))"
    by (simp add: conc_assoc Suc)
  also have "\<dots> = conc UNIV (conc {w. length w = 1} (rq_lang (replicate n RQMark)))"
    by (simp only: conc_assoc [symmetric] conc_UNIV_single)
  finally show ?case by simp
qed simp

lemma strip_optional_lang:
  assumes "strip_optional us n = (rest, k)"
  shows "conc (rq_lang (rev rest)) (conc (rq_lang (replicate k RQMark)) UNIV)
    = conc (rq_lang (rev us)) (conc (rq_lang (replicate n RQMark)) UNIV)"
  using assms
proof (induction us n arbitrary: rest k rule: strip_optional.induct)
  case (1 us n)
  then show ?case by (simp add: conc_assoc rq_lang_replicate_UNIV conc_UNIV_single [symmetric])
next
  case (2 v us n)
  have "conc {[], v} (conc UNIV X) = conc UNIV X" for X :: "u32string set"
    by (auto simp: conc_def) (metis append.assoc)
  then show ?case using 2 by (simp add: conc_assoc rq_lang_replicate_UNIV)
qed auto

lemma remove_trailing_lang:
  "conc (rq_lang (remove_trailing_optional_words us)) UNIV = conc (rq_lang us) UNIV"
proof -
  obtain rest k where s: "strip_optional (rev us) 0 = (rest, k)" by fastforce
  then show ?thesis
    using strip_optional_lang [OF s] by (simp add: remove_trailing_optional_words_def conc_assoc)
qed

lemma conc_singletons: "conc {v} {w} = {v @ w}"
  by (auto simp: conc_def)

lemma append_unit_lang: "rq_lang (append_unit us u) = conc (rq_lang us) (ru_lang u)"
proof (cases us rule: rev_cases)
  case (snoc xs p)
  have o: "conc UNIV {[], v} = (UNIV :: u32string set)" for v by (rule conc_UNIV_Nil) simp
  have ss: "conc UNIV UNIV = (UNIV :: u32string set)" by (rule conc_UNIV_Nil) simp
  show ?thesis
  proof (cases u)
    case RStar
    then show ?thesis
      using snoc remove_trailing_lang [of us] ss
      by (cases p) (simp_all add: append_unit_def conc_assoc)
  next
    case RQMark
    then show ?thesis
      using snoc conc_UNIV_single [where 'a = nat] by (simp add: append_unit_def conc_assoc)
  next
    case (RWord v)
    then show ?thesis using snoc by (cases p) (simp_all add: append_unit_def conc_assoc conc_singletons)
  next
    case (ROptWord v)
    then show ?thesis using snoc o by (simp add: append_unit_def conc_assoc)
  qed (use snoc in \<open>simp add: append_unit_def conc_assoc\<close>)
qed (simp add: append_unit_def)

lemma builder_add_lang: "rb_lang (builder_add b u) = conc (rb_lang b) (ru_lang u)"
proof (cases "rb_reject_all b")
  case False
  define v where "v = optimize_unit u"
  have l: "ru_lang u = ru_lang v" by (simp add: v_def)
  have add: "builder_add b u =
      (if v = RWord [] \<or> v = ROptWord [] then b
       else if v = RCharSet [] then b\<lparr>rb_reject_all := True\<rparr>
       else b\<lparr>rb_units := append_unit (rb_units b) v\<rparr>)"
    using False by (simp add: builder_add_def v_def)
  consider (idle) "v = RWord [] \<or> v = ROptWord []" | (reject) "v = RCharSet []"
    | (append) "v \<noteq> RWord []" "v \<noteq> ROptWord []" "v \<noteq> RCharSet []" by blast
  then show ?thesis
  proof cases
    case idle
    then have "ru_lang v = {[]}" by (elim disjE) simp_all
    moreover have "builder_add b u = b" using add idle by simp
    ultimately show ?thesis using l by simp
  next
    case reject
    then show ?thesis unfolding l add by (simp add: rb_lang_def)
  next
    case append
    then show ?thesis unfolding l add using False by (simp add: rb_lang_def append_unit_lang)
  qed
qed (simp add: builder_add_def rb_lang_def)

lemma foldl_builder_add_lang: "rb_lang (foldl builder_add b us) = conc (rb_lang b) (rq_lang us)"
  by (induction us arbitrary: b) (simp_all add: builder_add_lang conc_assoc)

section \<open>The normal form\<close>

text \<open>
  Adjacent words are merged, no star follows a star, a question mark or an optional word
  directly precedes what it could absorb, and every unit is proper.
\<close>

fun proper_unit :: "regex_unit \<Rightarrow> bool" where
  "proper_unit (RWord v) \<longleftrightarrow> v \<noteq> []"
| "proper_unit (ROptWord v) \<longleftrightarrow> v \<noteq> []"
| "proper_unit (RCharSet v) \<longleftrightarrow> 2 \<le> length v \<and> sorted_wrt (<) v"
| "proper_unit _ \<longleftrightarrow> True"

fun may_follow :: "regex_unit \<Rightarrow> regex_unit \<Rightarrow> bool" where
  "may_follow (RWord _) (RWord _) = False"
| "may_follow RStar RStar = False"
| "may_follow RStar RQMark = False"
| "may_follow RStar (ROptWord _) = False"
| "may_follow (ROptWord _) RStar = False"
| "may_follow _ _ = True"

definition rq_normal :: "regex_unit list \<Rightarrow> bool" where
  "rq_normal us \<longleftrightarrow> (\<forall>u \<in> set us. proper_unit u) \<and> successively may_follow us"

lemma may_follow_QMark_right: "may_follow u RQMark \<longleftrightarrow> u \<noteq> RStar"
  by (cases u) auto

lemma may_follow_simps [simp]:
  "may_follow RQMark u" "may_follow (RCharSet v) u" "may_follow u (RCharSet v)"
  by (cases u; simp)+

lemma strip_optional_normal:
  assumes "strip_optional us n = (rest, k)" "rq_normal (rev us)"
  shows "rq_normal (rev rest) \<and> (rest = [] \<or> (hd rest \<noteq> RQMark \<and> (\<forall>v. hd rest \<noteq> ROptWord v)))"
  using assms
  by (induction us n arbitrary: rest k rule: strip_optional.induct)
    (auto simp: rq_normal_def successively_append_iff)

lemma normal_snoc:
  "rq_normal (us @ [u]) \<longleftrightarrow> rq_normal us \<and> proper_unit u \<and> (us = [] \<or> may_follow (last us) u)"
  by (auto simp: rq_normal_def successively_append_iff)

lemma normal_replicate_QMark:
  "rq_normal us \<Longrightarrow> us = [] \<or> last us \<noteq> RStar \<Longrightarrow> rq_normal (us @ replicate k RQMark)"
proof (induction k)
  case (Suc k)
  have r: "us @ replicate (Suc k) RQMark = (us @ replicate k RQMark) @ [RQMark]"
    by (simp add: replicate_append_same)
  have "us @ replicate k RQMark = [] \<or> last (us @ replicate k RQMark) \<noteq> RStar"
    using Suc.prems(2) by (cases k) (auto simp: last_append last_replicate)
  then show ?case
    unfolding r normal_snoc using Suc by (simp add: may_follow_QMark_right)
qed simp

text \<open>What is in front of the stripped units is not a star: a star absorbs them on insertion.\<close>

lemma strip_optional_star:
  assumes "strip_optional us n = (rest, k)" "rq_normal (rev us)" "us \<noteq> []" "hd us \<noteq> RStar" "rest \<noteq> []"
  shows "hd rest \<noteq> RStar"
  using assms
proof (induction us n arbitrary: rest k rule: strip_optional.induct)
  case (1 us n)
  then show ?case
    by (cases us) (auto simp: rq_normal_def successively_append_iff may_follow_QMark_right)
next
  case (2 v us n)
  have "us \<noteq> [] \<Longrightarrow> hd us \<noteq> RStar"
    using "2.prems"(2) by (cases us) (auto simp: rq_normal_def successively_append_iff)
  then show ?case using 2 by (cases us) (auto simp: rq_normal_def successively_append_iff)
qed auto

lemma append_unit_normal:
  assumes "rq_normal us" "proper_unit u"
  shows "rq_normal (append_unit us u)"
proof (cases us rule: rev_cases)
  case Nil
  then show ?thesis using assms by (simp add: append_unit_def rq_normal_def)
next
  case (snoc xs p)
  have xs: "rq_normal xs" "proper_unit p" "xs = [] \<or> may_follow (last xs) p"
    using assms(1) snoc normal_snoc by auto
  have app: "may_follow p u \<Longrightarrow> rq_normal (us @ [u])"
    using assms snoc unfolding normal_snoc by simp
  show ?thesis
  proof (cases u)
    case RQMark
    have "rq_normal ((xs @ [RQMark]) @ [RStar])" if "p = RStar"
      unfolding normal_snoc using xs that by (auto simp: may_follow_QMark_right)
    then show ?thesis using RQMark snoc app by (auto simp: append_unit_def may_follow_QMark_right)
  next
    case RStar
    have strip: "rq_normal (remove_trailing_optional_words us @ [RStar])" if p: "p = RQMark \<or> (\<exists>v. p = ROptWord v)"
    proof -
      obtain rest k where s: "strip_optional (rev us) 0 = (rest, k)" by fastforce
      have n: "rq_normal (rev rest)" "rest = [] \<or> (hd rest \<noteq> RQMark \<and> (\<forall>v. hd rest \<noteq> ROptWord v))"
        using strip_optional_normal [OF s] assms(1) by auto
      have h: "rest \<noteq> [] \<Longrightarrow> hd rest \<noteq> RStar"
        using strip_optional_star [OF s] assms(1) snoc p by auto
      have "rq_normal (rev rest @ replicate k RQMark)"
        by (rule normal_replicate_QMark [OF n(1)]) (use h in \<open>auto simp: last_rev\<close>)
      moreover have "rev rest @ replicate k RQMark = [] \<or> may_follow (last (rev rest @ replicate k RQMark)) RStar"
        using n(2) h by (cases k; cases "rest = []"; cases "hd rest") (auto simp: last_append last_rev last_replicate)
      ultimately have "rq_normal ((rev rest @ replicate k RQMark) @ [RStar])"
        unfolding normal_snoc by simp
      then show ?thesis using s by (simp add: remove_trailing_optional_words_def)
    qed
    show ?thesis using RStar snoc app assms(1) strip by (cases p) (auto simp: append_unit_def)
  next
    case (RWord v)
    show ?thesis
    proof (cases p)
      case p: (RWord w)
      have "xs = [] \<or> may_follow (last xs) (RWord (w @ v))"
        using xs(3) p by (cases "last xs") auto
      then show ?thesis using RWord p snoc xs assms(2) by (simp add: append_unit_def normal_snoc)
    qed (use RWord snoc app in \<open>simp_all add: append_unit_def\<close>)
  next
    case (ROptWord v)
    then show ?thesis using snoc app assms(1) by (cases p) (auto simp: append_unit_def)
  qed (use snoc app in \<open>simp add: append_unit_def\<close>)
qed

lemma optimize_unit_proper:
  assumes "optimize_unit u \<noteq> RWord []" "optimize_unit u \<noteq> ROptWord []" "optimize_unit u \<noteq> RCharSet []"
  shows "proper_unit (optimize_unit u)"
proof (cases u)
  case (RCharSet v)
  define s where "s = without_duplicates v"
  have "sorted_wrt (<) s" by (simp add: s_def without_duplicates_facts)
  then show ?thesis
    using RCharSet assms
    by (cases s; cases "tl s") (auto simp: optimize_unit_def s_def [symmetric])
qed (use assms in \<open>auto simp: optimize_unit_def\<close>)

lemma builder_add_normal:
  "rq_normal (rb_units b) \<Longrightarrow> rq_normal (rb_units (builder_add b u))"
  using append_unit_normal optimize_unit_proper [of u]
  by (simp add: builder_add_def Let_def)

lemma foldl_builder_add_normal:
  "rq_normal (rb_units b) \<Longrightarrow> rq_normal (rb_units (foldl builder_add b us))"
  by (induction us arbitrary: b) (simp_all add: builder_add_normal)

lemma new_builder_normal [simp]: "rq_normal (rb_units new_builder)"
  by (simp add: new_builder_def rq_normal_def)

section \<open>Bounds\<close>

subsection \<open>The number of combinations\<close>

fun unit_combinations :: "regex_unit \<Rightarrow> nat" where
  "unit_combinations (RCharSet v) = length v"
| "unit_combinations (ROptWord _) = 2"
| "unit_combinations _ = 1"

definition sets_fit :: "regex_unit list \<Rightarrow> bool" where
  "sets_fit us \<longleftrightarrow> (\<forall>v. RCharSet v \<in> set us \<longrightarrow> length v < 2 ^ 32)"

lemma ucast_UINT32_MAX: "(ucast UINT32_MAX :: u64) = 0xFFFFFFFF"
proof -
  have "unat (ucast UINT32_MAX :: u64) = take_bit 64 (2 ^ 32 - 1)"
    by (simp only: unsigned_ucast_eq unat_UINT32_MAX) simp
  then show ?thesis by (simp add: word_unat_eq_iff take_bit_nat_eq_self)
qed

lemma strip_optional_subset: "strip_optional us n = (rest, k) \<Longrightarrow> set rest \<subseteq> set us"
  by (induction us n arbitrary: rest k rule: strip_optional.induct) force+

lemma append_unit_sets: "RCharSet v \<in> set (append_unit us u) \<Longrightarrow> RCharSet v \<in> set us \<or> u = RCharSet v"
proof -
  assume a: "RCharSet v \<in> set (append_unit us u)"
  obtain rest k where "strip_optional (rev us) 0 = (rest, k)" by fastforce
  then have "RCharSet v \<in> set (remove_trailing_optional_words us) \<Longrightarrow> RCharSet v \<in> set us"
    using strip_optional_subset [of "rev us"] by (auto simp: remove_trailing_optional_words_def)
  then show ?thesis
    using a by (auto simp: append_unit_def Let_def split: if_splits regex_unit.splits dest: in_set_butlastD)
qed

lemma length_without_duplicates: "length (without_duplicates v) \<le> length v"
  using without_duplicates_facts [of v] card_length [of v]
  by (metis distinct_card strict_sorted_iff)

lemma builder_add_fit:
  assumes "sets_fit (rb_units b)" "sets_fit [u]"
  shows "sets_fit (rb_units (builder_add b u))"
proof -
  have "length v < 2 ^ 32" if v: "optimize_unit u = RCharSet v" for v
  proof -
    obtain x where "u = RCharSet x" "v = without_duplicates x"
      using v by (auto simp: optimize_unit_def Let_def split: regex_unit.splits if_splits)
    then show ?thesis using assms(2) length_without_duplicates [of x] by (simp add: sets_fit_def)
  qed
  then show ?thesis
    using assms(1) append_unit_sets [of _ "rb_units b" "optimize_unit u"]
    by (auto simp: builder_add_def Let_def sets_fit_def)
qed

lemma foldl_builder_add_fit:
  "sets_fit (rb_units b) \<Longrightarrow> sets_fit us \<Longrightarrow> sets_fit (rb_units (foldl builder_add b us))"
proof (induction us arbitrary: b)
  case (Cons u us)
  have "sets_fit [u]" "sets_fit us" using Cons.prems(2) by (auto simp: sets_fit_def)
  then show ?case using Cons.IH builder_add_fit [OF Cons.prems(1)] by simp
qed simp

lemma combinations_step:
  assumes "u \<noteq> RQMark" "u \<noteq> RStar" "unat cnt < 2 ^ 32 - 1" "sets_fit (u # us)"
  shows "\<exists>cnt'. unat cnt' = unat cnt * unit_combinations u
    \<and> combinations_loop (u # us) cnt = (if cnt' = 0 then 0
        else if cnt' \<ge> ucast UINT32_MAX then UINT32_MAX else combinations_loop us cnt')"
proof (cases u)
  case (RCharSet v)
  have l: "length v < 2 ^ 32" using assms(4) RCharSet by (simp add: sets_fit_def)
  have "unat cnt * length v \<le> (2 ^ 32 - 1) * (2 ^ 32 - 1)"
    by (rule mult_mono) (use assms(3) l in simp_all)
  then have f: "unat cnt * length v < 2 ^ 64" by (rule le_less_trans) simp
  have u: "unat (of_nat (length v) :: u64) = length v"
    by (rule unat_of_nat_u64) (use l in simp)
  have "unat (cnt * of_nat (length v)) = unat cnt * length v"
    using unat_mult_lem [of cnt "of_nat (length v)"] f unfolding u by simp
  then show ?thesis
    using RCharSet by (intro exI [of _ "cnt * of_nat (length v)"]) (simp only: unit_combinations.simps
        combinations_loop.simps regex_unit.case Let_def simp_thms)
next
  case (ROptWord v)
  have "unat (cnt * 2) = unat cnt * 2"
    using assms(3) unat_mult_lem [of cnt 2] by simp
  then show ?thesis
    using ROptWord by (intro exI [of _ "cnt * 2"]) (simp only: unit_combinations.simps
        combinations_loop.simps regex_unit.case Let_def simp_thms)
qed (use assms(1,2) in \<open>auto simp: Let_def\<close>)

lemma card_conc_le:
  assumes "finite A" "finite B"
  shows "finite (conc A B) \<and> card (conc A B) \<le> card A * card B"
proof -
  have "conc A B = (\<lambda>(p, q). p @ q) ` (A \<times> B)" by (auto simp: conc_def)
  then show ?thesis using assms card_image_le [of "A \<times> B"] by (simp add: card_cartesian_product)
qed

lemma unit_lang_card:
  "u \<noteq> RQMark \<Longrightarrow> u \<noteq> RStar \<Longrightarrow> finite (ru_lang u) \<and> card (ru_lang u) \<le> unit_combinations u"
proof (cases u)
  case (RCharSet v)
  have "{[c] | c. c \<in> set v} = (\<lambda>c. [c]) ` set v" by auto
  then show ?thesis using RCharSet card_image_le [of "set v" "\<lambda>c. [c]"] card_length [of v] by simp
qed (auto simp: card_insert_if)

lemma combinations_loop_bound:
  assumes "combinations_loop us cnt = r" "r \<noteq> UINT32_MAX" "0 < unat cnt" "unat cnt < 2 ^ 32 - 1" "sets_fit us"
  shows "finite (rq_lang us) \<and> unat cnt * card (rq_lang us) \<le> unat r"
  using assms
proof (induction us arbitrary: cnt)
  case Nil
  have "unat (ucast cnt :: u32) = unat cnt"
    using Nil.prems(4) by (simp add: unsigned_ucast_eq take_bit_nat_eq_self)
  then show ?case using Nil by simp
next
  case (Cons u us)
  have u: "u \<noteq> RQMark" "u \<noteq> RStar" using Cons.prems(1,2) by auto
  obtain cnt' where c: "unat cnt' = unat cnt * unit_combinations u"
    "combinations_loop (u # us) cnt = (if cnt' = 0 then 0
        else if cnt' \<ge> ucast UINT32_MAX then UINT32_MAX else combinations_loop us cnt')"
    using combinations_step [OF u Cons.prems(4,5)] by blast
  note l = unit_lang_card [OF u]
  show ?case
  proof (cases "cnt' = 0")
    case True
    then have "unit_combinations u = 0" using c(1) Cons.prems(3) by simp
    then have "card (ru_lang u) = 0" "finite (ru_lang u)" using l by auto
    then have "ru_lang u = {}" by (meson card_0_eq)
    then show ?thesis by simp
  next
    case False
    then have r: "\<not> cnt' \<ge> ucast UINT32_MAX" "combinations_loop us cnt' = r"
      using c(2) Cons.prems(1,2) by (auto split: if_splits)
    have "unat (ucast UINT32_MAX :: u64) = 2 ^ 32 - 1" unfolding ucast_UINT32_MAX by simp
    then have "unat cnt' < 2 ^ 32 - 1" using r(1) by (simp add: word_le_nat_alt)
    moreover have "0 < unat cnt'" using False by (simp add: unat_gt_0)
    moreover have "sets_fit us" using Cons.prems(5) by (simp add: sets_fit_def)
    ultimately have IH: "finite (rq_lang us)" "unat cnt' * card (rq_lang us) \<le> unat r"
      using Cons.IH [OF r(2) Cons.prems(2)] by auto
    have "card (rq_lang (u # us)) \<le> unit_combinations u * card (rq_lang us)"
      using card_conc_le [of "ru_lang u" "rq_lang us"] l IH(1)
      by (auto intro: order_trans [OF _ mult_le_mono1])
    then have "unat cnt * card (rq_lang (u # us)) \<le> unat cnt' * card (rq_lang us)"
      unfolding c(1) by (simp add: mult.assoc)
    then show ?thesis using card_conc_le l IH by auto
  qed
qed

lemma combinations_bound:
  assumes "combinations_upper_bound us \<noteq> UINT32_MAX" "sets_fit us"
  shows "finite (rq_lang us)" "card (rq_lang us) \<le> unat (combinations_upper_bound us)"
  using combinations_loop_bound [OF refl, of us 1] assms by (simp_all add: combinations_upper_bound_def)

lemma ru_lang_proper: "proper_unit u \<Longrightarrow> ru_lang u \<noteq> {}"
  by (cases u) (auto intro: exI [of _ "[0]"])

lemma rq_lang_proper: "(\<forall>u \<in> set us. proper_unit u) \<Longrightarrow> rq_lang us \<noteq> {}"
proof (induction us)
  case (Cons u us)
  then show ?case using ru_lang_proper [of u] by (auto simp: conc_def)
qed simp

text \<open>For queries made by the builder the test \<open>reject_all\<close> is exact.\<close>

lemma reject_all_exact:
  assumes "rq_normal (rb_units b)" "sets_fit (rb_units b)"
  shows "reject_all (to_query b) \<longleftrightarrow> rb_lang b = {}"
proof (cases "rb_reject_all b")
  case True
  then show ?thesis
    by (simp add: to_query_def rb_lang_def create_reject_all_def reject_all_def combinations_upper_bound_def)
next
  case False
  have ne: "rq_lang (rb_units b) \<noteq> {}" using rq_lang_proper assms(1) by (simp add: rq_normal_def)
  have "combinations_upper_bound (rb_units b) \<noteq> 0"
  proof
    assume z: "combinations_upper_bound (rb_units b) = 0"
    then have "combinations_upper_bound (rb_units b) \<noteq> UINT32_MAX" by simp
    from combinations_bound [OF this assms(2)] ne show False by (simp add: z)
  qed
  then show ?thesis using False ne by (simp add: to_query_def rb_lang_def reject_all_def)
qed

lemma accept_all_non_empty_lang: "accept_all_non_empty us \<Longrightarrow> w \<noteq> [] \<Longrightarrow> w \<in> rq_lang us"
proof -
  assume a: "accept_all_non_empty us" and w: "w \<noteq> []"
  have "us = [RStar] \<or> us = [RStar, RQMark] \<or> us = [RQMark, RStar]"
    using a by (auto simp: accept_all_non_empty_def accept_all_def length_Suc_conv numeral_2_eq_2
        split: regex_unit.splits)
  then show ?thesis
    using concI [of "[hd w]" "{w. length w = 1}" "tl w" UNIV] w
      conc_UNIV_single [where 'a = nat]
    by auto
qed

subsection \<open>Lengths in bytes\<close>

definition nbytes :: "u32string \<Rightarrow> nat" where
  "nbytes w = sum_list (map number_of_utf8_bytes w)"

lemma nbytes_simps [simp]:
  "nbytes [] = 0" "nbytes (c # w) = number_of_utf8_bytes c + nbytes w" "nbytes (v @ w) = nbytes v + nbytes w"
  by (simp_all add: nbytes_def)

text \<open>The largest number the length computations meet.\<close>

fun unit_bytes :: "regex_unit \<Rightarrow> nat" where
  "unit_bytes (RWord v) = nbytes v"
| "unit_bytes (ROptWord v) = nbytes v"
| "unit_bytes RStar = 0"
| "unit_bytes _ = 4"

lemma unat_nbytes_char [simp]: "unat (of_nat (number_of_utf8_bytes c) :: u64) = number_of_utf8_bytes c"
  using number_of_utf8_bytes_bounds(2) [of c] by (simp add: unat_of_nat_u64)

lemma bytes_of_eq: "bytes_of v = of_nat (nbytes v)"
proof -
  have "foldl (\<lambda>n c. n + of_nat (number_of_utf8_bytes c)) x v = x + (of_nat (nbytes v) :: u64)" for x
    by (induction v arbitrary: x) simp_all
  then show ?thesis by (simp add: bytes_of_def)
qed

lemma char_set_min_le:
  "unat (char_set_min cs mn) \<le> unat mn \<and> (\<forall>c \<in> set cs. unat (char_set_min cs mn) \<le> number_of_utf8_bytes c)"
proof (induction cs arbitrary: mn)
  case (Cons c cs)
  define n :: u64 where "n = of_nat (number_of_utf8_bytes c)"
  have n: "unat n = number_of_utf8_bytes c" by (simp add: n_def)
  have one: "unat n = 1 \<Longrightarrow> unat n \<le> number_of_utf8_bytes d" for d
    using number_of_utf8_bytes_bounds(1) [of d] by simp
  have eq: "char_set_min (c # cs) mn = (if n < mn then (if n = 1 then n else char_set_min cs n)
      else char_set_min cs mn)"
    by (simp add: n_def Let_def)
  show ?case
  proof (cases "n < mn")
    case True
    show ?thesis
    proof (cases "n = 1")
      case one': True
      then have "unat n = 1" by simp
      then show ?thesis using eq True one' n one by (auto simp: word_less_nat_alt)
    next
      case False
      then show ?thesis using eq True n Cons [of n] by (auto simp: word_less_nat_alt)
    qed
  next
    case False
    then show ?thesis using eq n Cons [of mn] by (auto simp: word_less_nat_alt intro: order_trans)
  qed
qed simp

lemma char_set_max_ge:
  "unat mx \<le> unat (char_set_max cs mx) \<and> (\<forall>c \<in> set cs. number_of_utf8_bytes c \<le> unat (char_set_max cs mx))
    \<and> (unat mx \<le> 4 \<longrightarrow> unat (char_set_max cs mx) \<le> 4)"
proof (induction cs arbitrary: mx)
  case (Cons c cs)
  define n :: u64 where "n = of_nat (number_of_utf8_bytes c)"
  have n: "unat n = number_of_utf8_bytes c" "unat n \<le> 4"
    using number_of_utf8_bytes_bounds(2) [of c] by (simp_all add: n_def)
  have eq: "char_set_max (c # cs) mx = (if n > mx then (if n = 4 then n else char_set_max cs n)
      else char_set_max cs mx)"
    by (simp add: n_def Let_def)
  show ?case
  proof (cases "n > mx")
    case True
    show ?thesis
    proof (cases "n = 4")
      case four: True
      then have "unat n = 4" by simp
      then show ?thesis
        using eq True four n number_of_utf8_bytes_bounds(2) by (auto simp: word_less_nat_alt)
    next
      case False
      then show ?thesis using eq True n Cons [of n] by (auto simp: word_less_nat_alt)
    qed
  next
    case False
    then show ?thesis using eq n Cons [of mx] by (auto simp: word_less_nat_alt not_less intro: order_trans)
  qed
qed simp

lemma min_utf8_loop_le:
  assumes "unat mn + sum_list (map unit_bytes us) < 2 ^ 64" "w \<in> rq_lang us"
  shows "unat (min_utf8_loop us mn) \<le> unat mn + nbytes w"
  using assms
proof (induction us mn arbitrary: w rule: min_utf8_loop.induct)
  case (2 v us mn)
  have "unat (mn + bytes_of v) = unat mn + nbytes v"
    using "2.prems"(1) by (simp add: bytes_of_eq unat_add_lem [THEN iffD1] unat_of_nat_u64)
  then show ?case using "2.IH" "2.prems" by (fastforce simp: conc_def)
next
  case (3 us mn)
  have m: "unat (mn + 1) = unat mn + 1"
    using "3.prems"(1) by (simp add: unat_add_lem [THEN iffD1])
  obtain c w' where w: "w = c # w'" "w' \<in> rq_lang us"
    using "3.prems"(2) by (auto simp: conc_def length_Suc_conv)
  have "unat (min_utf8_loop us (mn + 1)) \<le> unat (mn + 1) + nbytes w'"
    using "3.IH" [of w'] "3.prems"(1) m w by simp
  then show ?case using m w number_of_utf8_bytes_bounds(1) [of c] by simp
next
  case (4 v us mn)
  obtain c w' where w: "w = c # w'" "w' \<in> rq_lang us" "c \<in> set v"
    using "4.prems"(2) by (auto simp: conc_def)
  define k where "k = char_set_min v UINT64_MAX"
  have k: "unat k \<le> number_of_utf8_bytes c" using char_set_min_le [of v] w(3) by (auto simp: k_def)
  have v: "v \<noteq> []" using w(3) by auto
  have "unat (mn + k) = unat mn + unat k"
    using "4.prems"(1) k number_of_utf8_bytes_bounds(2) [of c] by (simp add: unat_add_lem [THEN iffD1])
  moreover have "unat k \<le> 4" using k number_of_utf8_bytes_bounds(2) [of c] by linarith
  ultimately show ?case
    using "4.IH" [OF v, of w'] "4.prems"(1) w k v by (simp add: k_def [symmetric])
qed (fastforce simp: conc_def)+

lemma max_utf8_loop_ge:
  assumes "unat mx + sum_list (map unit_bytes us) < 2 ^ 64" "w \<in> rq_lang us"
  shows "max_utf8_loop us mx = UINT64_MAX \<or> unat mx + nbytes w \<le> unat (max_utf8_loop us mx)"
  using assms
proof (induction us mx arbitrary: w rule: max_utf8_loop.induct)
  case (2 v us mx)
  have "unat (mx + bytes_of v) = unat mx + nbytes v"
    using "2.prems"(1) by (simp add: bytes_of_eq unat_add_lem [THEN iffD1] unat_of_nat_u64)
  then show ?case using "2.IH" "2.prems" by (fastforce simp: conc_def)
next
  case (3 v us mx)
  have "unat (mx + bytes_of v) = unat mx + nbytes v"
    using "3.prems"(1) by (simp add: bytes_of_eq unat_add_lem [THEN iffD1] unat_of_nat_u64)
  then show ?case using "3.IH" "3.prems" by (fastforce simp: conc_def)
next
  case (4 us mx)
  have m: "unat (mx + 4) = unat mx + 4"
    using "4.prems"(1) by (simp add: unat_add_lem [THEN iffD1])
  obtain c w' where w: "w = c # w'" "w' \<in> rq_lang us"
    using "4.prems"(2) by (auto simp: conc_def length_Suc_conv)
  then show ?case using "4.IH" [of w'] "4.prems"(1) m number_of_utf8_bytes_bounds(2) [of c] by auto
next
  case (5 v us mx)
  obtain c w' where w: "w = c # w'" "w' \<in> rq_lang us" "c \<in> set v"
    using "5.prems"(2) by (auto simp: conc_def)
  define k where "k = char_set_max v 0"
  have k: "number_of_utf8_bytes c \<le> unat k" "unat k \<le> 4"
    using char_set_max_ge [of 0 v] w(3) by (auto simp: k_def)
  have "unat (mx + k) = unat mx + unat k"
    using "5.prems"(1) k by (simp add: unat_add_lem [THEN iffD1])
  then show ?case
    using "5.IH" [of w'] "5.prems"(1) w k by (auto simp: k_def [symmetric])
qed auto

lemma max_utf8_loop_le:
  assumes "unat mx + sum_list (map unit_bytes us) < 2 ^ 64"
  shows "max_utf8_loop us mx = UINT64_MAX \<or> unat (max_utf8_loop us mx) \<le> unat mx + sum_list (map unit_bytes us)"
  using assms
proof (induction us mx rule: max_utf8_loop.induct)
  case (2 v us mx)
  have "unat (mx + bytes_of v) = unat mx + nbytes v"
    using "2.prems"(1) by (simp add: bytes_of_eq unat_add_lem [THEN iffD1] unat_of_nat_u64)
  then show ?case using "2.IH" "2.prems" by (auto simp: add.assoc)
next
  case (3 v us mx)
  have "unat (mx + bytes_of v) = unat mx + nbytes v"
    using "3.prems"(1) by (simp add: bytes_of_eq unat_add_lem [THEN iffD1] unat_of_nat_u64)
  then show ?case using "3.IH" "3.prems" by (auto simp: add.assoc)
next
  case (4 us mx)
  have "unat (mx + 4) = unat mx + 4"
    using "4.prems"(1) by (simp add: unat_add_lem [THEN iffD1])
  then show ?case using "4.IH" "4.prems" by (auto simp: add.assoc)
next
  case (5 v us mx)
  have k: "unat (char_set_max v 0) \<le> 4" using char_set_max_ge [of 0 v] by simp
  have "unat (mx + char_set_max v 0) = unat mx + unat (char_set_max v 0)"
    using "5.prems"(1) k by (simp add: unat_add_lem [THEN iffD1])
  then show ?case using "5.IH" "5.prems" k by auto
qed auto

section \<open>Properties\<close>

text \<open>
  \<open>RegexQueryBuilder::add\<close> behaves as if the unit had just been appended: after adding any
  units to a new builder the query accepts exactly the concatenation of what the units accept,
  and its units are in normal form (merged words, no unit a star would absorb, character sets
  of at least two sorted distinct characters).
\<close>

theorem builder_correct:
  "rq_lang (to_query (foldl builder_add new_builder us)) = rq_lang us
    \<and> rq_normal (rb_units (foldl builder_add new_builder us))"
  using foldl_builder_add_lang [of new_builder us] foldl_builder_add_normal [of new_builder us]
  by (simp add: rq_lang_to_query)

text \<open>
  \<open>combinations_upper_bound\<close> is an upper bound whenever it is not \<open>UINT32_MAX\<close>, and on the
  queries a builder makes \<open>reject_all\<close> holds exactly if no word is accepted, for character sets
  of fewer than \<open>2^32\<close> characters.
\<close>

theorem combinations_and_rejection:
  assumes "us = to_query (foldl builder_add new_builder vs)"
    and "sets_fit (rb_units (foldl builder_add new_builder vs))"
  shows "(reject_all us \<longleftrightarrow> rq_lang us = {})
    \<and> (combinations_upper_bound us \<noteq> UINT32_MAX \<longrightarrow>
        finite (rq_lang us) \<and> card (rq_lang us) \<le> unat (combinations_upper_bound us))"
proof -
  have "sets_fit us"
    using assms by (auto simp: to_query_def create_reject_all_def sets_fit_def)
  then show ?thesis
    using reject_all_exact [OF foldl_builder_add_normal [OF new_builder_normal] assms(2)]
      combinations_bound [of us] assms(1)
    by (simp add: rq_lang_to_query)
qed

theorem combinations_and_rejection_witness:
  "\<not> reject_all (to_query (foldl builder_add new_builder [RCharSet [97, 98, 97], ROptWord [99]]))
    \<and> card (rq_lang [RCharSet [97, 98], ROptWord [99]]) \<le> 4"
proof -
  let ?vs = "[RCharSet [97, 98, 97], ROptWord [99]]"
  have b: "foldl builder_add new_builder ?vs = \<lparr>rb_units = [RCharSet [97, 98], ROptWord [99]], rb_reject_all = False\<rparr>"
    by (simp add: builder_add_def new_builder_def optimize_unit_def without_duplicates_def append_unit_def)
  have "sets_fit (rb_units (foldl builder_add new_builder ?vs))" unfolding b by (simp add: sets_fit_def)
  note c = combinations_and_rejection [OF refl this, unfolded b]
  have l: "to_query \<lparr>rb_units = [RCharSet [97, 98], ROptWord [99]], rb_reject_all = False\<rparr>
      = [RCharSet [97, 98], ROptWord [99]]"
    by (simp add: to_query_def)
  have u: "combinations_upper_bound [RCharSet [97, 98], ROptWord [99]] = 4"
    by (simp add: combinations_upper_bound_def Let_def ucast_UINT32_MAX)
  have "[97] \<in> rq_lang [RCharSet [97, 98], ROptWord [99]]"
    using concI [of "[97]" "{[c] | c. c \<in> set [97, 98]}" "[]" "{[], [99]}"] by simp
  then show ?thesis using c unfolding l u b by auto
qed

text \<open>
  The byte lengths: every accepted word has, in UTF-8, at least \<open>min_utf8_input_length\<close> and
  at most \<open>max_utf8_input_length\<close> bytes (or the maximum is \<open>SIZE_MAX\<close>), while the total fits
  into 64 bits; so skipping vocabulary words by their length loses no match.
\<close>

theorem utf8_length_bounds:
  assumes "sum_list (map unit_bytes us) < 2 ^ 64" and "w \<in> rq_lang us"
  shows "unat (min_utf8_input_length us) \<le> length (to_bytes w)
    \<and> (max_utf8_input_length us = UINT64_MAX \<or> length (to_bytes w) \<le> unat (max_utf8_input_length us))"
  using min_utf8_loop_le [of 0 us w] max_utf8_loop_ge [of 0 us w] assms
  by (simp add: min_utf8_input_length_def max_utf8_input_length_def length_to_bytes nbytes_def)

theorem utf8_length_bounds_witness:
  "unat (min_utf8_input_length [RCharSet [0xE4, 98], RStar]) \<le> length (to_bytes [0xE4, 97])"
proof (rule utf8_length_bounds [THEN conjunct1])
  show "[0xE4, 97] \<in> rq_lang [RCharSet [0xE4, 98], RStar]"
    using concI [of "[0xE4]" "{[c] | c. c \<in> set [0xE4, 98]}" "[97]" UNIV] by simp
qed simp

end
