(* ===== verification/Regex_Parser.thy ===== *)
theory Regex_Parser
  imports Regex_Query
begin

text \<open>
  \<open>parse_netspeak_regex_query\<close> of \<open>src/netspeak/regex/parsers.cpp\<close>: from the text of a regex
  in a Netspeak query to a regex query.  \<open>netspeak_units\<close> is the reference reading of the
  syntax, one unit list without any rewriting; the parser drives the builder instead.

  At the end of the string the lookahead of the code reads the terminating zero of
  \<open>std::u32string\<close>, which is not a dot.
\<close>

section \<open>The parser\<close>

abbreviation ch_QMARK :: nat where "ch_QMARK \<equiv> 63"
abbreviation ch_STAR :: nat where "ch_STAR \<equiv> 42"
abbreviation ch_PLUS :: nat where "ch_PLUS \<equiv> 43"
abbreviation ch_DOT :: nat where "ch_DOT \<equiv> 46"
abbreviation ch_BRACKET_LEFT :: nat where "ch_BRACKET_LEFT \<equiv> 91"
abbreviation ch_BRACKET_RIGHT :: nat where "ch_BRACKET_RIGHT \<equiv> 93"
abbreviation ch_BRACE_LEFT :: nat where "ch_BRACE_LEFT \<equiv> 123"
abbreviation ch_BRACE_RIGHT :: nat where "ch_BRACE_RIGHT \<equiv> 125"

fun read_until_char :: "u32string \<Rightarrow> nat \<Rightarrow> u32string \<Rightarrow> u32string option" where
  "read_until_char [] end_char res = None"
| "read_until_char (c # cs) end_char res =
    (if c = end_char then Some res else read_until_char cs end_char (res @ [c]))"

function parse_loop :: "u32string \<Rightarrow> query_builder \<Rightarrow> query_builder" where
  "parse_loop [] b = b"
| "parse_loop (c # rest) b =
    (if c = ch_QMARK then parse_loop rest (builder_add b RQMark)
     else if c = ch_STAR then parse_loop rest (builder_add b RStar)
     else if c = ch_PLUS then parse_loop rest (builder_add (builder_add b RQMark) RStar)
     else if c = ch_DOT then
       (if rest \<noteq> [] \<and> hd rest = ch_DOT
        then parse_loop (dropWhile (\<lambda>d. d = ch_DOT) rest) (builder_add b RStar)
        else parse_loop rest (builder_add b (RWord [ch_DOT])))
     else if c = ch_BRACKET_LEFT then
       (case read_until_char rest ch_BRACKET_RIGHT [] of
          Some value \<Rightarrow>
            parse_loop (drop (length value + 1) rest)
              (builder_add b (if length value = 1 then ROptWord value else RCharSet value))
        | None \<Rightarrow> parse_loop rest (builder_add b (RWord [c])))
     else if c = ch_BRACE_LEFT then
       (case read_until_char rest ch_BRACE_RIGHT [] of
          Some value \<Rightarrow>
            parse_loop (drop (length value + 1) rest)
              (foldl builder_add b (replicate (length value) (RCharSet value)))
        | None \<Rightarrow> parse_loop rest (builder_add b (RWord [c])))
     else parse_loop rest (builder_add b (RWord [c])))"
  by pat_completeness auto
termination
  by (relation "measure (\<lambda>(cs, b). length cs)") (auto simp: le_imp_less_Suc length_dropWhile_le)

definition parse_netspeak_regex_query :: "string \<Rightarrow> regex_unit list result" where
  "parse_netspeak_regex_query netspeak_query =
    rbind (from_bytes netspeak_query) (\<lambda>query. Inr (to_query (parse_loop query new_builder)))"

section \<open>The reference reading\<close>

definition bracketed :: "nat \<Rightarrow> u32string \<Rightarrow> u32string" where
  "bracketed e cs = takeWhile (\<lambda>c. c \<noteq> e) cs"

definition after_bracket :: "nat \<Rightarrow> u32string \<Rightarrow> u32string" where
  "after_bracket e cs = tl (dropWhile (\<lambda>c. c \<noteq> e) cs)"

lemma after_bracket_length: "length (after_bracket e cs) \<le> length cs"
  by (simp add: after_bracket_def) (meson diff_le_self length_dropWhile_le order_trans)

function netspeak_units :: "u32string \<Rightarrow> regex_unit list" where
  "netspeak_units [] = []"
| "netspeak_units (c # rest) =
    (if c = ch_QMARK then RQMark # netspeak_units rest
     else if c = ch_STAR then RStar # netspeak_units rest
     else if c = ch_PLUS then RQMark # RStar # netspeak_units rest
     else if c = ch_DOT \<and> rest \<noteq> [] \<and> hd rest = ch_DOT then
       RStar # netspeak_units (dropWhile (\<lambda>d. d = ch_DOT) rest)
     else if c = ch_BRACKET_LEFT \<and> ch_BRACKET_RIGHT \<in> set rest then
       (let v = bracketed ch_BRACKET_RIGHT rest in
        (if length v = 1 then ROptWord v else RCharSet v) # netspeak_units (after_bracket ch_BRACKET_RIGHT rest))
     else if c = ch_BRACE_LEFT \<and> ch_BRACE_RIGHT \<in> set rest then
       (let v = bracketed ch_BRACE_RIGHT rest in
        replicate (length v) (RCharSet v) @ netspeak_units (after_bracket ch_BRACE_RIGHT rest))
     else RWord [c] # netspeak_units rest)"
  by pat_completeness auto
termination
  by (relation "measure length") (auto simp: le_imp_less_Suc length_dropWhile_le after_bracket_length)

lemma read_until_char_eq:
  "read_until_char cs e res = (if e \<in> set cs then Some (res @ bracketed e cs) else None)"
  by (induction cs e res rule: read_until_char.induct) (auto simp: bracketed_def)

lemma drop_bracketed: "drop (length (bracketed e cs) + 1) cs = after_bracket e cs"
proof -
  have "drop (length (bracketed e cs)) cs = dropWhile (\<lambda>c. c \<noteq> e) cs"
    by (simp add: bracketed_def dropWhile_eq_drop)
  moreover have "drop (length (bracketed e cs) + 1) cs = drop 1 (drop (length (bracketed e cs)) cs)"
    by (simp only: drop_drop add.commute)
  ultimately show ?thesis by (simp add: after_bracket_def drop_Suc)
qed

text \<open>The parser feeds the builder exactly the units of the reference reading.\<close>

lemma parse_loop_units: "parse_loop cs b = foldl builder_add b (netspeak_units cs)"
proof (induction cs arbitrary: b rule: length_induct)
  case (1 cs)
  show ?case
  proof (cases cs)
    case (Cons c rest)
    have IH: "parse_loop ys b = foldl builder_add b (netspeak_units ys)" if "length ys \<le> length rest" for ys b
      using 1 that Cons by simp
    note r = read_until_char_eq [of rest _ "[]", simplified] drop_bracketed [of _ rest, simplified]
    show ?thesis
      unfolding Cons
      by (simp add: r IH length_dropWhile_le after_bracket_length Let_def)
  qed simp
qed

text \<open>Text without special characters is a literal word.\<close>

definition special :: "nat \<Rightarrow> bool" where
  "special c \<longleftrightarrow> c \<in> {ch_QMARK, ch_STAR, ch_PLUS, ch_DOT, ch_BRACKET_LEFT, ch_BRACE_LEFT}"

lemma netspeak_units_plain: "(\<forall>c \<in> set cs. \<not> special c) \<Longrightarrow> netspeak_units cs = map (\<lambda>c. RWord [c]) cs"
  by (induction cs) (auto simp: special_def)

lemma plain_lang: "rq_lang (map (\<lambda>c. RWord [c]) cs) = {cs}"
  by (induction cs) (simp_all add: conc_singletons)

section \<open>Properties\<close>

text \<open>
  C27. The parser accepts every valid UTF-8 text and the resulting query accepts exactly the
  words of the reference reading of the syntax (\<open>?\<close> one character, \<open>*\<close> and \<open>..\<close> any, \<open>+\<close> at least
  one, \<open>[x]\<close> optional, \<open>[xyz]\<close> one of, \<open>{xyz}\<close> as many of these as there are characters, everything
  else literal); the query is in normal form or rejects everything.
\<close>

theorem regex_parser_correct:
  assumes "from_bytes s = Inr cs"
  shows "\<exists>us. parse_netspeak_regex_query s = Inr us \<and> rq_lang us = rq_lang (netspeak_units cs)
    \<and> (us = create_reject_all \<or> rq_normal us)"
proof -
  have "rq_normal (rb_units (parse_loop cs new_builder))"
    unfolding parse_loop_units by (rule foldl_builder_add_normal [OF new_builder_normal])
  moreover have "rb_lang (parse_loop cs new_builder) = rq_lang (netspeak_units cs)"
    unfolding parse_loop_units foldl_builder_add_lang by simp
  ultimately show ?thesis
    by (simp add: parse_netspeak_regex_query_def assms rq_lang_to_query) (simp add: to_query_def)
qed

theorem regex_parser_correct_witness:
  "\<exists>us. parse_netspeak_regex_query ''colo[u]r'' = Inr us
    \<and> rq_lang us = rq_lang (netspeak_units [99, 111, 108, 111, 91, 117, 93, 114])
    \<and> (us = create_reject_all \<or> rq_normal us)"
  by (rule regex_parser_correct) (simp add: from_bytes_def)

text \<open>
  A text without the special characters is parsed as the word itself, and the parser fails
  only where the conversion from UTF-8 fails.
\<close>

theorem regex_parser_literal:
  assumes "from_bytes s = Inr cs" and "\<forall>c \<in> set cs. \<not> special c"
  shows "\<exists>us. parse_netspeak_regex_query s = Inr us \<and> rq_lang us = {cs}"
proof -
  have "rb_lang (parse_loop cs new_builder) = {cs}"
    unfolding parse_loop_units foldl_builder_add_lang netspeak_units_plain [OF assms(2)] plain_lang
    by simp
  then show ?thesis by (simp add: parse_netspeak_regex_query_def assms(1) rq_lang_to_query)
qed

theorem regex_parser_literal_witness:
  "\<exists>us. parse_netspeak_regex_query ''a]b'' = Inr us \<and> rq_lang us = {[97, 93, 98]}"
  by (rule regex_parser_literal) (simp_all add: from_bytes_def special_def)

end
