(* ===== verification/Word_Table.thy ===== *)
theory Word_Table
  imports Utf8
begin

text \<open>
  The word list and the hash table of \<open>DefaultRegexIndex\<close>
  (\<open>src/netspeak/regex/DefaultRegexIndex.cpp\<close>): splitting the vocabulary into entries, the
  power-of-two table with linear probing, and \<open>find_word\<close>.

  Reading a slot outside the table is undefined behaviour in the code; \<open>find_word\<close> returns
  \<open>None\<close> there.
\<close>

section \<open>Entries\<close>

record word_entry =
  we_offset :: u32
  we_length :: u16

definition newline :: char where
  "newline = CHR 0x0A"

definition find_from :: "string \<Rightarrow> nat \<Rightarrow> nat option" where
  "find_from v prev = find (\<lambda>i. v ! i = newline) [prev..<length v]"

definition word_entry_at :: "nat \<Rightarrow> nat \<Rightarrow> word_entry" where
  "word_entry_at offset len = \<lparr>we_offset = of_nat offset, we_length = of_nat len\<rparr>"

lemma find_from_Some: "find_from v prev = Some pos \<Longrightarrow> prev \<le> pos \<and> pos < length v"
  by (auto simp: find_from_def find_Some_iff)

function words_loop :: "string \<Rightarrow> nat \<Rightarrow> word_entry list" where
  "words_loop v prev = (case find_from v prev of
      Some pos \<Rightarrow>
        (let len = pos - prev
         in (if len > 0 then [word_entry_at prev len] else []) @ words_loop v (pos + 1))
    | None \<Rightarrow> if length v > prev then [word_entry_at prev (length v - prev)] else [])"
  by pat_completeness auto
termination
  by (relation "measure (\<lambda>(v, prev). length v - prev)") (auto dest!: find_from_Some)

declare words_loop.simps [simp del]

definition initialize_words :: "string \<Rightarrow> word_entry list" where
  "initialize_words v = words_loop v 0"

definition word_from_entry :: "string \<Rightarrow> word_entry \<Rightarrow> string" where
  "word_from_entry v e = take (unat (we_length e)) (drop (unat (we_offset e)) v)"

section \<open>Hashing\<close>

definition next_pow_of_2 :: "u32 \<Rightarrow> u32" where
  "next_pow_of_2 n =
    (let n = n - 1;
         n = n OR drop_bit 1 n;
         n = n OR drop_bit 2 n;
         n = n OR drop_bit 4 n;
         n = n OR drop_bit 8 n;
         n = n OR drop_bit 16 n
     in n + 1)"

text \<open>A \<open>char\<close> is signed: bytes from 0x80 on are sign-extended before they are added.\<close>

definition char_value :: "char \<Rightarrow> u32" where
  "char_value c = scast (of_nat (of_char c) :: u8)"

definition hash_word :: "string \<Rightarrow> u32" where
  "hash_word w = foldl (\<lambda>h c. h * 31 + char_value c) 0x12345678 w"

section \<open>The table\<close>

definition table_size :: "nat \<Rightarrow> nat" where
  "table_size words =
    (let n = unat (next_pow_of_2 (of_nat words))
     in if n < words + words div 2 then n * 2 else n)"

text \<open>
  The inner loop of \<open>initialize_word_hash_table\<close> for one word; it could only run forever in a
  full table, so the number of slots bounds the probes.
\<close>

fun insert_probe :: "nat \<Rightarrow> u32 \<Rightarrow> u32 list \<Rightarrow> u32 \<Rightarrow> u32 \<Rightarrow> u32 list option" where
  "insert_probe 0 msk table hash index = None"
| "insert_probe (Suc fuel) msk table hash index =
    (if table ! unat hash = UINT32_MAX then Some (table[unat hash := index])
     else insert_probe fuel msk table ((hash + 1) AND msk) index)"

fun insert_words :: "string \<Rightarrow> u32 \<Rightarrow> word_entry list \<Rightarrow> nat \<Rightarrow> u32 list \<Rightarrow> u32 list option" where
  "insert_words v msk [] index table = Some table"
| "insert_words v msk (e # es) index table =
    (case insert_probe (length table) msk table (hash_word (word_from_entry v e) AND msk) (of_nat index) of
       None \<Rightarrow> None
     | Some table' \<Rightarrow> insert_words v msk es (index + 1) table')"

definition initialize_word_hash_table :: "string \<Rightarrow> word_entry list \<Rightarrow> u32 list option" where
  "initialize_word_hash_table v words =
    (let n = table_size (length words)
     in insert_words v (of_nat n - 1) words 0 (replicate n UINT32_MAX))"

text \<open>
  \<open>find_word\<close> does not msk the slot after the increment, so the probe walks straight on: it
  scans the rest of the table, and at its end it reads outside.
\<close>

definition is_word :: "string \<Rightarrow> word_entry list \<Rightarrow> string \<Rightarrow> u32 \<Rightarrow> bool" where
  "is_word v words w index =
    (let e = words ! unat index
     in unat (we_length e) = length w \<and> word_from_entry v e = w)"

fun find_probe :: "string \<Rightarrow> word_entry list \<Rightarrow> string \<Rightarrow> u32 list \<Rightarrow> u32 option" where
  "find_probe v words w [] = None"
| "find_probe v words w (index # slots) =
    (if index = UINT32_MAX then Some UINT32_MAX
     else if is_word v words w index then Some index
     else find_probe v words w slots)"

definition find_word :: "string \<Rightarrow> word_entry list \<Rightarrow> u32 list \<Rightarrow> string \<Rightarrow> u32 option" where
  "find_word v words table w =
    (let msk = of_nat (length table) - 1
     in find_probe v words w (drop (unat (hash_word w AND msk)) table))"

section \<open>The entries are the non-empty lines\<close>

fun lines_from :: "nat \<Rightarrow> string \<Rightarrow> string list" where
  "lines_from 0 s = []"
| "lines_from (Suc n) s =
    (let l = takeWhile (\<lambda>c. c \<noteq> newline) s; r = dropWhile (\<lambda>c. c \<noteq> newline) s
     in (if l = [] then [] else [l]) @ (if r = [] then [] else lines_from n (tl r)))"

definition vocabulary_words :: "string \<Rightarrow> string list" where
  "vocabulary_words v = lines_from (length v + 1) v"

lemma find_from_takeWhile:
  assumes "prev \<le> length v"
  shows "find_from v prev =
    (let k = prev + length (takeWhile (\<lambda>c. c \<noteq> newline) (drop prev v))
     in if k < length v then Some k else None)"
proof -
  define t where "t = takeWhile (\<lambda>c. c \<noteq> newline) (drop prev v)"
  have l: "length t \<le> length v - prev" by (simp add: t_def length_takeWhile_le [THEN order_trans])
  have before: "v ! i \<noteq> newline" if "prev \<le> i" "i < prev + length t" for i
  proof -
    have "t ! (i - prev) = drop prev v ! (i - prev)"
      unfolding t_def by (rule takeWhile_nth) (use that in \<open>simp add: t_def [symmetric]\<close>)
    moreover have "t ! (i - prev) \<in> set t" using that by simp
    ultimately show ?thesis
      using that assms l set_takeWhileD [of _ "\<lambda>c. c \<noteq> newline" "drop prev v"] by (simp add: t_def)
  qed
  show ?thesis
  proof (cases "prev + length t < length v")
    case True
    have "drop prev v ! length t = newline"
      using nth_length_takeWhile [of "\<lambda>c. c \<noteq> newline" "drop prev v"] True
      by (simp add: t_def [symmetric])
    then have "v ! (prev + length t) = newline" using assms by simp
    then have "find_from v prev = Some (prev + length t)"
      using before True by (auto simp: find_from_def find_Some_iff intro!: exI [of _ "length t"])
    then show ?thesis using True by (simp add: t_def)
  next
    case False
    then have "\<forall>i \<in> set [prev..<length v]. v ! i \<noteq> newline" using before l by auto
    then have "find_from v prev = None" by (simp add: find_from_def find_None_iff)
    then show ?thesis using False by (simp add: t_def)
  qed
qed

text \<open>The offsets and lengths that fit into the fields of an entry.\<close>

definition vocabulary_fits :: "string \<Rightarrow> bool" where
  "vocabulary_fits v \<longleftrightarrow> length v < 2 ^ 32 \<and> (\<forall>w \<in> set (vocabulary_words v). length w < 2 ^ 16)"

lemma word_from_entry_at:
  "offset < 2 ^ 32 \<Longrightarrow> len < 2 ^ 16 \<Longrightarrow> word_from_entry v (word_entry_at offset len) = take len (drop offset v)"
  by (simp add: word_from_entry_def word_entry_at_def unat_of_nat take_bit_nat_eq_self)

text \<open>One line: the entry for it, if it is not empty, and the rest after the newline.\<close>

lemma words_loop_step:
  assumes "prev \<le> length v"
    and "l = takeWhile (\<lambda>c. c \<noteq> newline) (drop prev v)" and "r = dropWhile (\<lambda>c. c \<noteq> newline) (drop prev v)"
  shows "words_loop v prev = (if l = [] then [] else [word_entry_at prev (length l)])
      @ (if r = [] then [] else words_loop v (prev + length l + 1))"
    and "drop prev v = l @ r"
    and "r \<noteq> [] \<Longrightarrow> r = newline # drop (prev + length l + 1) v \<and> prev + length l + 1 \<le> length v"
proof -
  show lr: "drop prev v = l @ r" by (simp add: assms)
  have ll: "length l + length r = length v - prev" using arg_cong [OF lr, of length] by simp
  have ff: "find_from v prev = (if prev + length l < length v then Some (prev + length l) else None)"
    using find_from_takeWhile [OF assms(1)] by (simp add: assms(2) Let_def)
  have d: "drop (prev + length l + 1) v = tl r"
  proof -
    have "drop (length l + 1) (drop prev v) = tl r" using lr by (simp add: drop_Suc)
    then show ?thesis by (simp add: add.commute)
  qed
  show "r = newline # drop (prev + length l + 1) v \<and> prev + length l + 1 \<le> length v" if "r \<noteq> []"
  proof -
    have "hd r = newline" using hd_dropWhile [of "\<lambda>c. c \<noteq> newline" "drop prev v"] that by (simp add: assms(3))
    moreover have "0 < length r" using that by simp
    ultimately show ?thesis using that ll d assms(1) by (cases r) auto
  qed
  show "words_loop v prev = (if l = [] then [] else [word_entry_at prev (length l)])
      @ (if r = [] then [] else words_loop v (prev + length l + 1))"
  proof (cases "r = []")
    case True
    then have "find_from v prev = None" using ff ll by simp
    moreover have "length v > prev \<longleftrightarrow> l \<noteq> []" "length v - prev = length l"
      using ll True assms(1) by (cases l; auto)+
    ultimately show ?thesis using True words_loop.simps [of v prev] by simp
  next
    case False
    then have "find_from v prev = Some (prev + length l)" using ff ll by (cases r) auto
    then show ?thesis using False words_loop.simps [of v prev] by (simp add: Let_def)
  qed
qed

lemma lines_from_step:
  "lines_from (Suc n) s = (let l = takeWhile (\<lambda>c. c \<noteq> newline) s; r = dropWhile (\<lambda>c. c \<noteq> newline) s
     in (if l = [] then [] else [l]) @ (if r = [] then [] else lines_from n (tl r)))"
  by simp

lemma words_loop_lines:
  assumes "prev \<le> length v" "length v - prev < n" "length v < 2 ^ 32"
    "\<forall>w \<in> set (lines_from n (drop prev v)). length w < 2 ^ 16"
  shows "map (word_from_entry v) (words_loop v prev) = lines_from n (drop prev v)
    \<and> (\<forall>e \<in> set (words_loop v prev). unat (we_length e) = length (word_from_entry v e))"
  using assms
proof (induction n arbitrary: prev)
  case (Suc m)
  define l where "l = takeWhile (\<lambda>c. c \<noteq> newline) (drop prev v)"
  define r where "r = dropWhile (\<lambda>c. c \<noteq> newline) (drop prev v)"
  note step = words_loop_step [OF Suc.prems(1) l_def r_def]
  have lines: "lines_from (Suc m) (drop prev v)
      = (if l = [] then [] else [l]) @ (if r = [] then [] else lines_from m (tl r))"
    unfolding lines_from_step Let_def l_def r_def ..
  have entry: "word_from_entry v (word_entry_at prev (length l)) = l"
      "unat (we_length (word_entry_at prev (length l))) = length l" if "l \<noteq> []"
  proof -
    have "prev < 2 ^ 32" "length l < 2 ^ 16" using Suc.prems that lines by auto
    then show "word_from_entry v (word_entry_at prev (length l)) = l"
      using word_from_entry_at [of prev "length l" v] step(2) by simp
    show "unat (we_length (word_entry_at prev (length l))) = length l"
      using \<open>length l < 2 ^ 16\<close> by (simp add: word_entry_at_def unat_of_nat take_bit_nat_eq_self)
  qed
  have IH: "map (word_from_entry v) (words_loop v (prev + length l + 1)) = lines_from m (tl r)
      \<and> (\<forall>e \<in> set (words_loop v (prev + length l + 1)). unat (we_length e) = length (word_from_entry v e))"
    if "r \<noteq> []"
  proof -
    have r: "tl r = drop (prev + length l + 1) v" "prev + length l + 1 \<le> length v"
      using step(3) [OF that] by (metis list.sel(3), blast)
    show ?thesis
      unfolding r(1) using r Suc.prems that lines by (intro Suc.IH) auto
  qed
  show ?case unfolding step(1) lines using IH entry by auto
qed simp

lemma initialize_words_lines:
  assumes "vocabulary_fits v"
  shows "map (word_from_entry v) (initialize_words v) = vocabulary_words v"
    and "e \<in> set (initialize_words v) \<Longrightarrow> unat (we_length e) = length (word_from_entry v e)"
  using words_loop_lines [of 0 v "length v + 1"] assms
  by (simp_all add: vocabulary_fits_def vocabulary_words_def initialize_words_def)

section \<open>The power of two\<close>

lemma interval_ex:
  "(\<exists>j. i \<le> j \<and> j < i + k \<and> P j) \<or> (\<exists>j. i + k \<le> j \<and> j < i + k + k \<and> P j)
    \<longleftrightarrow> (\<exists>j. i \<le> j \<and> j < i + (k + k) \<and> P j)" for i k :: nat
proof
  assume "\<exists>j. i \<le> j \<and> j < i + (k + k) \<and> P j"
  then obtain j where "i \<le> j" "j < i + (k + k)" "P j" by blast
  then show "(\<exists>j. i \<le> j \<and> j < i + k \<and> P j) \<or> (\<exists>j. i + k \<le> j \<and> j < i + k + k \<and> P j)"
    by (cases "j < i + k") auto
next
  assume "(\<exists>j. i \<le> j \<and> j < i + k \<and> P j) \<or> (\<exists>j. i + k \<le> j \<and> j < i + k + k \<and> P j)"
  then obtain j where "i \<le> j \<and> j < i + k \<and> P j \<or> i + k \<le> j \<and> j < i + k + k \<and> P j" by blast
  then have "i \<le> j" "j < i + (k + k)" "P j" by auto
  then show "\<exists>j. i \<le> j \<and> j < i + (k + k) \<and> P j" by blast
qed

lemma smear:
  fixes w u :: u32
  assumes "\<And>i. i < 32 \<Longrightarrow> bit w i \<longleftrightarrow> (\<exists>j. i \<le> j \<and> j < i + k \<and> bit u j)" and "i < 32"
  shows "bit (w OR drop_bit k w) i \<longleftrightarrow> (\<exists>j. i \<le> j \<and> j < i + (k + k) \<and> bit u j)"
proof -
  have "bit (drop_bit k w) i \<longleftrightarrow> (\<exists>j. i + k \<le> j \<and> j < i + k + k \<and> bit u j)"
  proof (cases "i + k < 32")
    case True
    then show ?thesis using assms(1) [of "i + k"] by (simp add: bit_simps add.commute)
  next
    case False
    have "\<not> bit u j" if "i + k \<le> j" for j
      using False that bit_imp_le_length [of u j] by auto
    moreover have "\<not> bit w (i + k)" using False bit_imp_le_length [of w "i + k"] by auto
    ultimately show ?thesis by (auto simp: bit_simps add.commute)
  qed
  then show ?thesis
    unfolding bit_or_iff assms(1) [OF assms(2)] interval_ex [symmetric] by simp
qed

lemma next_pow_of_2_correct:
  assumes "0 < n" "n \<le> 2 ^ 31"
  shows "\<exists>k \<le> 31. next_pow_of_2 (of_nat n) = 2 ^ k \<and> n \<le> 2 ^ k \<and> 2 ^ k < 2 * n"
proof -
  define u :: u32 where "u = of_nat n - 1"
  have "u = of_nat (n - 1)" using assms(1) by (simp add: u_def of_nat_diff)
  then have uu: "unat u = n - 1" using assms unat_of_nat_u32 [of "n - 1"] by simp
  have bit_u: "bit u j \<longleftrightarrow> odd ((n - 1) div 2 ^ j)" for j
  proof -
    have "bit u j \<longleftrightarrow> bit (unat u) j" by (simp add: bit_unsigned_iff)
    then show ?thesis unfolding uu by (simp add: bit_iff_odd)
  qed
  define w1 where "w1 = u OR drop_bit 1 u"
  define w2 where "w2 = w1 OR drop_bit 2 w1"
  define w4 where "w4 = w2 OR drop_bit 4 w2"
  define w8 where "w8 = w4 OR drop_bit 8 w4"
  define w16 where "w16 = w8 OR drop_bit 16 w8"
  have r: "next_pow_of_2 (of_nat n) = w16 + 1"
    by (simp add: next_pow_of_2_def u_def w1_def w2_def w4_def w8_def w16_def Let_def)
  have "\<And>i. i < 32 \<Longrightarrow> bit u i \<longleftrightarrow> (\<exists>j. i \<le> j \<and> j < i + 1 \<and> bit u j)"
    by (auto simp: less_Suc_eq_le dest: order_antisym)
  from smear [OF this] have "\<And>i. i < 32 \<Longrightarrow> bit w1 i \<longleftrightarrow> (\<exists>j. i \<le> j \<and> j < i + 2 \<and> bit u j)"
    by (simp add: w1_def)
  from smear [OF this] have "\<And>i. i < 32 \<Longrightarrow> bit w2 i \<longleftrightarrow> (\<exists>j. i \<le> j \<and> j < i + 4 \<and> bit u j)"
    by (simp add: w2_def)
  from smear [OF this] have "\<And>i. i < 32 \<Longrightarrow> bit w4 i \<longleftrightarrow> (\<exists>j. i \<le> j \<and> j < i + 8 \<and> bit u j)"
    by (simp add: w4_def)
  from smear [OF this] have "\<And>i. i < 32 \<Longrightarrow> bit w8 i \<longleftrightarrow> (\<exists>j. i \<le> j \<and> j < i + 16 \<and> bit u j)"
    by (simp add: w8_def)
  from smear [OF this] have b16: "\<And>i. i < 32 \<Longrightarrow> bit w16 i \<longleftrightarrow> (\<exists>j. i \<le> j \<and> j < i + 32 \<and> bit u j)"
    by (simp add: w16_def)
  have bits: "bit w16 i \<longleftrightarrow> (\<exists>j \<ge> i. bit u j)" if "i < 32" for i
  proof -
    have "j < i + 32" if "bit u j" for j using bit_imp_le_length [OF that] by simp
    then show ?thesis unfolding b16 [OF that] by blast
  qed
  show ?thesis
  proof (cases "n = 1")
    case True
    then have "u = 0" by (simp add: u_def)
    then have "w16 = 0" by (simp add: w16_def w8_def w4_def w2_def w1_def)
    then show ?thesis using r True by (intro exI [of _ 0]) simp
  next
    case False
    define k where "k = (LEAST k. n \<le> 2 ^ k)"
    have ex: "n \<le> 2 ^ 31" by (rule assms(2))
    have k: "n \<le> 2 ^ k" "k \<le> 31" unfolding k_def by (rule LeastI [of _ 31], rule ex) (rule Least_le, rule ex)
    have "k \<noteq> 0" using k(1) False assms(1) by (cases k) auto
    then obtain m where m: "k = Suc m" by (cases k) auto
    have lt: "2 ^ m < n"
      using not_less_Least [of m "\<lambda>k. n \<le> 2 ^ k"] m by (simp add: k_def [symmetric] not_le)
    have "(n - 1) div 2 ^ m = 1" using lt k(1) m by (intro div_nat_eqI) auto
    then have top: "bit u m" by (simp add: bit_u)
    have above: "\<not> bit u j" if "k \<le> j" for j
    proof -
      have "n - 1 < 2 ^ j" using k(1) assms(1) that
        by (meson diff_less less_le_trans less_numeral_extra(1) one_le_numeral power_increasing)
      then show ?thesis by (simp add: bit_u)
    qed
    have "w16 = mask k"
    proof (rule bit_word_eqI)
      fix i assume i: "i < LENGTH(32)"
      have "(\<exists>j \<ge> i. bit u j) \<longleftrightarrow> i < k"
      proof
        assume "\<exists>j \<ge> i. bit u j"
        then obtain j where "i \<le> j" "bit u j" by blast
        then show "i < k" using above [of j] by (meson le_less_trans not_le)
      qed (use top m in \<open>auto intro: exI [of _ m]\<close>)
      then show "bit w16 i \<longleftrightarrow> bit (mask k :: u32) i"
        using bits [of i] i by (simp add: bit_mask_iff)
    qed
    then have "w16 + 1 = 2 ^ k" by (simp add: mask_eq_exp_minus_1)
    then show ?thesis using r k lt m by (intro exI [of _ k]) simp
  qed
qed

section \<open>The table finds the words\<close>

lemma slot_mod:
  assumes "n = 2 ^ k" "k < 32"
  shows "unat (h AND (of_nat n - 1) :: u32) = unat h mod n"
proof -
  have "(of_nat n - 1 :: u32) = mask k" using assms(1) by (simp add: mask_eq_exp_minus_1)
  then have "h AND (of_nat n - 1) = take_bit k h" by (simp add: take_bit_eq_mask)
  then have "unat (h AND (of_nat n - 1)) = take_bit k (unat h)" by (simp add: unsigned_take_bit_eq)
  then show ?thesis using assms(1) by (simp add: take_bit_eq_mod)
qed

lemma slot_next:
  assumes "n = 2 ^ k" "k < 32"
  shows "unat ((h + 1) AND (of_nat n - 1) :: u32) = (unat h + 1) mod n"
proof -
  have "(2 :: nat) ^ k dvd 2 ^ 32" using assms(2) by (intro le_imp_power_dvd) simp
  moreover have "unat (h + 1) = (unat h + 1) mod 2 ^ 32" by (simp add: unat_word_ariths)
  ultimately show ?thesis
    unfolding slot_mod [OF assms] using assms(1) by (simp only: mod_mod_cancel)
qed

text \<open>The probe stores the index in the first free slot at or after its start, cyclically.\<close>

lemma insert_probe_spec:
  assumes "n = 2 ^ k" "k < 32" "length table = n" "unat h < n"
    "d < fuel" "table ! ((unat h + d) mod n) = UINT32_MAX"
    "\<And>d'. d' < d \<Longrightarrow> table ! ((unat h + d') mod n) \<noteq> UINT32_MAX"
  shows "insert_probe fuel (of_nat n - 1) table h index = Some (table[(unat h + d) mod n := index])"
  using assms(4-)
proof (induction fuel arbitrary: h d)
  case (Suc fuel)
  show ?case
  proof (cases d)
    case 0
    then show ?thesis using Suc.prems by simp
  next
    case (Suc e)
    define h' :: u32 where "h' = (h + 1) AND (of_nat n - 1)"
    have h': "unat h' = (unat h + 1) mod n" unfolding h'_def by (rule slot_next [OF assms(1,2)])
    have sh: "(unat h' + x) mod n = (unat h + Suc x) mod n" for x
      unfolding h' by (simp add: mod_simps)
    have "insert_probe fuel (of_nat n - 1) table h' index = Some (table[(unat h' + e) mod n := index])"
    proof (rule Suc.IH)
      show "unat h' < n" using h' assms(1) by simp
      show "e < fuel" using Suc.prems(2) Suc by simp
      show "table ! ((unat h' + e) mod n) = UINT32_MAX" unfolding sh using Suc.prems(3) Suc by simp
      show "table ! ((unat h' + d') mod n) \<noteq> UINT32_MAX" if "d' < e" for d'
        unfolding sh using Suc.prems(4) [of "Suc d'"] Suc that by simp
    qed
    moreover have "table ! unat h \<noteq> UINT32_MAX" using Suc.prems(4) [of 0] Suc.prems(1) Suc by simp
    ultimately show ?thesis using sh [of e] Suc by (simp add: h'_def)
  qed
qed simp

text \<open>
  The invariant of the insertion: the first \<open>N\<close> words are in the table, each reachable from its
  home slot without crossing an empty one, and at most \<open>N\<close> slots are taken.
\<close>

definition home :: "nat \<Rightarrow> string \<Rightarrow> nat" where
  "home n w = unat (hash_word w) mod n"

definition reachable :: "nat \<Rightarrow> u32 list \<Rightarrow> string \<Rightarrow> u32 \<Rightarrow> bool" where
  "reachable n table w index \<longleftrightarrow> (\<exists>d < n. table ! ((home n w + d) mod n) = index
    \<and> (\<forall>d' < d. table ! ((home n w + d') mod n) \<noteq> UINT32_MAX))"

definition table_inv :: "nat \<Rightarrow> string list \<Rightarrow> u32 list \<Rightarrow> bool" where
  "table_inv n ws table \<longleftrightarrow> length table = n
    \<and> (\<forall>slot < n. table ! slot = UINT32_MAX \<or> unat (table ! slot) < length ws)
    \<and> (\<forall>i < length ws. reachable n table (ws ! i) (of_nat i))
    \<and> card {slot. slot < n \<and> table ! slot \<noteq> UINT32_MAX} \<le> length ws"

lemma table_inv_empty: "table_inv n [] (replicate n UINT32_MAX)"
  by (simp add: table_inv_def)

lemma free_slot:
  assumes "table_inv n ws table" "length ws < n"
  shows "\<exists>d < n. table ! ((h + d) mod n) = UINT32_MAX"
proof -
  have "\<exists>slot < n. table ! slot = UINT32_MAX"
  proof (rule ccontr)
    assume "\<not> ?thesis"
    then have "{slot. slot < n \<and> table ! slot \<noteq> UINT32_MAX} = {..<n}" by auto
    then show False using assms by (simp add: table_inv_def)
  qed
  then obtain slot where s: "slot < n" "table ! slot = UINT32_MAX" by blast
  define d where "d = (slot + (n - h mod n)) mod n"
  have "(h + d) mod n = (h mod n + (slot + (n - h mod n))) mod n" by (simp add: d_def mod_simps)
  also have "h mod n + (slot + (n - h mod n)) = slot + n"
    using mod_less_divisor [of n h] s(1) by (simp del: mod_less_divisor)
  finally have "(h + d) mod n = slot" using s(1) by simp
  moreover have "d < n" using s(1) by (simp add: d_def)
  ultimately show ?thesis using s(2) by blast
qed

lemma reachable_update:
  assumes "reachable n table w index" "length table = n" "slot < n" "table ! slot = UINT32_MAX"
    "index \<noteq> UINT32_MAX" "new \<noteq> UINT32_MAX"
  shows "reachable n (table[slot := new]) w index"
proof -
  obtain d where d: "d < n" "table ! ((home n w + d) mod n) = index"
    "\<forall>d' < d. table ! ((home n w + d') mod n) \<noteq> UINT32_MAX"
    using assms(1) by (auto simp: reachable_def)
  have "(home n w + d) mod n \<noteq> slot" using d(2) assms(4,5) by auto
  moreover have "table[slot := new] ! x \<noteq> UINT32_MAX" if "table ! x \<noteq> UINT32_MAX" for x
    using that assms(3,6,2) by (cases "x = slot") auto
  ultimately show ?thesis using d unfolding reachable_def by (intro exI [of _ d]) auto
qed

lemma insert_step:
  assumes "table_inv n ws table" "length ws < n" "n = 2 ^ k" "k < 32" "length ws < 2 ^ 32 - 1"
  shows "\<exists>table'. insert_probe (length table) (of_nat n - 1) table (hash_word w AND (of_nat n - 1))
      (of_nat (length ws)) = Some table' \<and> table_inv n (ws @ [w]) table'"
proof -
  define N where "N = length ws"
  define idx :: u32 where "idx = of_nat N"
  have idx: "idx \<noteq> UINT32_MAX" "unat idx = N"
    using assms(5) of_nat_u32_eq_MAX [of N] unat_of_nat_u32 [of N] by (simp_all add: idx_def N_def)
  define h where "h = hash_word w AND (of_nat n - 1)"
  have h: "unat h = home n w" unfolding h_def home_def by (rule slot_mod [OF assms(3,4)])
  have hn: "unat h < n" using assms(2) by (simp add: h home_def)
  define d where "d = (LEAST d. table ! ((unat h + d) mod n) = UINT32_MAX)"
  obtain d0 where d0: "d0 < n" "table ! ((unat h + d0) mod n) = UINT32_MAX"
    using free_slot [OF assms(1,2)] by blast
  have d: "table ! ((unat h + d) mod n) = UINT32_MAX" unfolding d_def by (rule LeastI) (rule d0(2))
  have dn: "d < n" using Least_le [of "\<lambda>d. table ! ((unat h + d) mod n) = UINT32_MAX" d0] d0
    by (simp add: d_def)
  have before: "table ! ((unat h + d') mod n) \<noteq> UINT32_MAX" if "d' < d" for d'
    using not_less_Least that unfolding d_def by blast
  define slot where "slot = (unat h + d) mod n"
  have slot: "slot < n" "table ! slot = UINT32_MAX" using d assms(2) by (simp_all add: slot_def)
  define table' where "table' = table[slot := idx]"
  have len: "length table = n" using assms(1) by (simp add: table_inv_def)
  have run: "insert_probe (length table) (of_nat n - 1) table h idx = Some table'"
    unfolding table'_def slot_def len
    by (rule insert_probe_spec [OF assms(3,4) len hn dn d before])
  have "reachable n table' w idx"
    unfolding reachable_def h [symmetric]
  proof (intro exI [of _ d] conjI allI impI dn)
    show "table' ! ((unat h + d) mod n) = idx" using slot len by (simp add: table'_def slot_def [symmetric])
    fix d' assume "d' < d"
    moreover have "(unat h + d') mod n \<noteq> slot" using before [OF calculation] slot(2) by auto
    ultimately show "table' ! ((unat h + d') mod n) \<noteq> UINT32_MAX"
      using before by (simp add: table'_def)
  qed
  moreover have "reachable n table' (ws ! i) (of_nat i)" if "i < N" for i
  proof -
    have "(of_nat i :: u32) \<noteq> UINT32_MAX" using that assms(5) of_nat_u32_eq_MAX [of i] by (simp add: N_def)
    moreover have "reachable n table (ws ! i) (of_nat i)"
      using assms(1) that by (simp add: table_inv_def N_def)
    ultimately show ?thesis
      unfolding table'_def using reachable_update len slot idx(1) by blast
  qed
  moreover have "\<forall>s < n. table' ! s = UINT32_MAX \<or> unat (table' ! s) < Suc N"
  proof (intro allI impI)
    fix s assume "s < n"
    moreover have "table ! s = UINT32_MAX \<or> unat (table ! s) < N"
      using assms(1) calculation by (simp add: table_inv_def N_def)
    ultimately show "table' ! s = UINT32_MAX \<or> unat (table' ! s) < Suc N"
      using idx len by (cases "s = slot") (auto simp: table'_def)
  qed
  moreover have "card {s. s < n \<and> table' ! s \<noteq> UINT32_MAX} \<le> Suc N"
  proof -
    have "{s. s < n \<and> table' ! s \<noteq> UINT32_MAX} \<subseteq> insert slot {s. s < n \<and> table ! s \<noteq> UINT32_MAX}"
      by (auto simp: table'_def nth_list_update len)
    then have "card {s. s < n \<and> table' ! s \<noteq> UINT32_MAX} \<le> card (insert slot {s. s < n \<and> table ! s \<noteq> UINT32_MAX})"
      by (intro card_mono) auto
    also have "\<dots> \<le> Suc (card {s. s < n \<and> table ! s \<noteq> UINT32_MAX})" by (rule card_insert_le_m1) simp_all
    finally show ?thesis using assms(1) by (simp add: table_inv_def N_def)
  qed
  ultimately have "table_inv n (ws @ [w]) table'"
    using len by (auto simp: table_inv_def table'_def N_def idx_def nth_append less_Suc_eq)
  then show ?thesis using run by (auto simp: h_def idx_def N_def)
qed

lemma insert_words_inv:
  assumes "table_inv n ws table" "length ws + length es \<le> n" "n = 2 ^ k" "k < 32" "n < 2 ^ 32"
  shows "\<exists>table'. insert_words v (of_nat n - 1) es (length ws) table = Some table'
    \<and> table_inv n (ws @ map (word_from_entry v) es) table'"
  using assms(1,2)
proof (induction es arbitrary: ws table)
  case (Cons e es)
  have "length ws < n" "length ws < 2 ^ 32 - 1" using Cons.prems(2) assms(5) by simp_all
  then obtain table' where s: "insert_probe (length table) (of_nat n - 1) table
      (hash_word (word_from_entry v e) AND (of_nat n - 1)) (of_nat (length ws)) = Some table'"
    "table_inv n (ws @ [word_from_entry v e]) table'"
    using insert_step [OF Cons.prems(1) _ assms(3,4)] by blast
  then show ?case using Cons.IH [OF s(2)] Cons.prems(2) by simp
qed simp

lemma table_size_pow:
  assumes "0 < N" "N < 2 ^ 30"
  shows "\<exists>k < 32. table_size N = 2 ^ k \<and> N \<le> table_size N \<and> N + N div 2 \<le> table_size N \<and> table_size N < 3 * N"
proof -
  obtain k where k: "k \<le> 31" "next_pow_of_2 (of_nat N) = 2 ^ k" "N \<le> 2 ^ k" "2 ^ k < 2 * N"
    using next_pow_of_2_correct [of N] assms by auto
  have "k < 31"
  proof (rule ccontr)
    assume "\<not> k < 31"
    then have "(2 :: nat) ^ 31 \<le> 2 ^ k" by (intro power_increasing) auto
    then show False using k(4) assms(2) by simp
  qed
  then have u: "unat (next_pow_of_2 (of_nat N)) = 2 ^ k" 
    using unat_of_nat_u32 [of "2 ^ k"] power_strict_increasing [of k 32 "2 :: nat"] by (simp add: k(2))
  show ?thesis
  proof (cases "2 ^ k < N + N div 2")
    case True
    then show ?thesis using u k \<open>k < 31\<close> by (intro exI [of _ "Suc k"]) (auto simp: table_size_def Let_def)
  next
    case False
    then show ?thesis using u k \<open>k < 31\<close> by (intro exI [of _ k]) (auto simp: table_size_def Let_def)
  qed
qed

lemma find_probe_spec:
  "case find_probe v words w slots of
      None \<Rightarrow> \<forall>j < length slots. slots ! j \<noteq> UINT32_MAX \<and> \<not> is_word v words w (slots ! j)
    | Some i \<Rightarrow> \<exists>k < length slots. slots ! k = i \<and> (i \<noteq> UINT32_MAX \<longrightarrow> is_word v words w i)
        \<and> (\<forall>j < k. slots ! j \<noteq> UINT32_MAX \<and> \<not> is_word v words w (slots ! j))"
proof (induction slots)
  case (Cons s slots)
  consider "s = UINT32_MAX" | "s \<noteq> UINT32_MAX" "is_word v words w s"
    | (next_slot) "s \<noteq> UINT32_MAX" "\<not> is_word v words w s" by blast
  then show ?case
  proof cases
    case next_slot
    show ?thesis
    proof (cases "find_probe v words w slots")
      case None
      then show ?thesis using Cons next_slot by (simp add: All_less_Suc2)
    next
      case (Some i)
      then obtain k where k: "k < length slots" "slots ! k = i" "i \<noteq> UINT32_MAX \<longrightarrow> is_word v words w i"
          "\<forall>j < k. slots ! j \<noteq> UINT32_MAX \<and> \<not> is_word v words w (slots ! j)"
        using Cons by auto
      have "\<forall>j < Suc k. (s # slots) ! j \<noteq> UINT32_MAX \<and> \<not> is_word v words w ((s # slots) ! j)"
        using k(4) next_slot by (auto simp: less_Suc_eq_0_disj)
      moreover have "find_probe v words w (s # slots) = Some i" using Some next_slot by simp
      ultimately show ?thesis using k(1-3) by (auto intro: exI [of _ "Suc k"])
    qed
  qed (auto intro: exI [of _ 0])
qed simp

text \<open>The word list of an index, and the table built for it.\<close>

lemma is_word_iff:
  assumes "vocabulary_fits v" "words = initialize_words v" "unat index < length words"
  shows "is_word v words w index \<longleftrightarrow> vocabulary_words v ! unat index = w"
proof -
  have "words ! unat index \<in> set words" using assms(3) by simp
  then have "unat (we_length (words ! unat index)) = length (word_from_entry v (words ! unat index))"
    using initialize_words_lines(2) [OF assms(1)] assms(2) by simp
  moreover have "vocabulary_words v ! unat index = word_from_entry v (words ! unat index)"
    using initialize_words_lines(1) [OF assms(1)] assms(2,3) by (metis nth_map)
  ultimately show ?thesis by (auto simp: is_word_def Let_def)
qed

lemma find_word_sound:
  assumes "vocabulary_fits v" "words = initialize_words v" "table_inv n (vocabulary_words v) table"
    "n = 2 ^ k" "k < 32" "length words < 2 ^ 32 - 1" "find_word v words table w = Some i"
  shows "if i = UINT32_MAX then w \<notin> set (vocabulary_words v)
    else unat i < length words \<and> vocabulary_words v ! unat i = w"
proof -
  have vw: "map (word_from_entry v) words = vocabulary_words v"
    using initialize_words_lines(1) [OF assms(1)] assms(2) by simp
  have lw: "length (vocabulary_words v) = length words" using vw by (metis length_map)
  have len: "length table = n" using assms(3) by (simp add: table_inv_def)
  define h where "h = home n w"
  have h: "h < n" using assms(4) by (simp add: h_def home_def)
  have fw: "find_probe v words w (drop h table) = Some i"
    using assms(7) slot_mod [OF assms(4,5), of "hash_word w"]
    by (simp add: find_word_def Let_def len h_def home_def)
  obtain j where j: "j < length (drop h table)" "drop h table ! j = i" "i \<noteq> UINT32_MAX \<longrightarrow> is_word v words w i"
      "\<forall>m < j. drop h table ! m \<noteq> UINT32_MAX \<and> \<not> is_word v words w (drop h table ! m)"
    using find_probe_spec [where v = v and words = words and w = w and slots = "drop h table"] fw by auto
  have hj: "h + j < n" "table ! (h + j) = i" using j(1,2) len by simp_all
  show ?thesis
  proof (cases "i = UINT32_MAX")
    case False
    then have "unat i < length words"
      using assms(3) hj lw by (auto simp: table_inv_def)
    then show ?thesis using False j(3) is_word_iff [OF assms(1,2)] by simp
  next
    case True
    have "w \<notin> set (vocabulary_words v)"
    proof
      assume "w \<in> set (vocabulary_words v)"
      then obtain q where q: "q < length words" "vocabulary_words v ! q = w"
        using lw by (auto simp: in_set_conv_nth)
      then obtain d where d: "d < n" "table ! ((h + d) mod n) = of_nat q"
          "\<forall>d' < d. table ! ((h + d') mod n) \<noteq> UINT32_MAX"
        using assms(3) lw by (auto simp: table_inv_def reachable_def h_def)
      have qm: "(of_nat q :: u32) \<noteq> UINT32_MAX" "unat (of_nat q :: u32) = q"
        using q(1) assms(6) of_nat_u32_eq_MAX [of q] unat_of_nat_u32 [of q] by simp_all
      have "\<not> j < d" using d(3) hj True by auto
      moreover have "d \<noteq> j" using d(2) hj True qm(1) by auto
      ultimately have dj: "d < j" by simp
      then have "(h + d) mod n = h + d" using hj by simp
      then have "drop h table ! d = of_nat q" using d(2) dj hj len by simp
      moreover have "is_word v words w (of_nat q)"
        using is_word_iff [OF assms(1,2), of "of_nat q" w] q qm(2) by simp
      ultimately show False using j(4) dj by metis
    qed
    then show ?thesis using True by simp
  qed
qed

lemma find_word_total:
  assumes "length table = n" "n = 2 ^ k" "k < 32" "last table = UINT32_MAX"
  shows "find_word v words table w \<noteq> None"
proof
  assume none: "find_word v words table w = None"
  define h where "h = home n w"
  have h: "h < n" using assms(2) by (simp add: h_def home_def)
  have fw: "find_probe v words w (drop h table) = None"
    using none slot_mod [OF assms(2,3), of "hash_word w"] assms(1)
    by (simp add: find_word_def Let_def h_def home_def)
  have "\<forall>j < length (drop h table). drop h table ! j \<noteq> UINT32_MAX"
    using find_probe_spec [where v = v and words = words and w = w and slots = "drop h table"] fw by simp
  then have "drop h table ! (n - 1 - h) \<noteq> UINT32_MAX" using h assms(1) by (simp del: nth_drop)
  moreover have "drop h table ! (n - 1 - h) = last table"
  proof -
    have "table \<noteq> []" using h assms(1) by auto
    then show ?thesis using h assms(1) by (simp add: last_conv_nth)
  qed
  ultimately show False using assms(4) by simp
qed

lemma table_built:
  assumes "vocabulary_fits v" "words = initialize_words v" "0 < length words" "length words < 2 ^ 30"
  shows "\<exists>k < 32. \<exists>table. initialize_word_hash_table v words = Some table
    \<and> table_inv (2 ^ k) (vocabulary_words v) table \<and> table_size (length words) = 2 ^ k"
proof -
  obtain k where k: "k < 32" "table_size (length words) = 2 ^ k" "length words \<le> table_size (length words)"
      "table_size (length words) < 3 * length words"
    using table_size_pow [OF assms(3,4)] by blast
  have b: "(2 :: nat) ^ k < 2 ^ 32" using k(1) by (intro power_strict_increasing) auto
  obtain table where "insert_words v (of_nat (2 ^ k) - 1) words 0 (replicate (2 ^ k) UINT32_MAX) = Some table"
      "table_inv (2 ^ k) (map (word_from_entry v) words) table"
    using insert_words_inv [OF table_inv_empty _ refl k(1) b, of words v] k(2,3) by auto
  then show ?thesis
    using k(1,2) initialize_words_lines(1) [OF assms(1)] assms(2)
    by (auto simp: initialize_word_hash_table_def Let_def)
qed

section \<open>Properties\<close>

text \<open>
  The hash table: for a vocabulary whose words fit into the fields of an entry the entries
  are the non-empty lines, the construction terminates without filling the table, and what
  \<open>find_word\<close> returns is right - the index of the word, or \<open>UINT32_MAX\<close> only if the word is not
  in the vocabulary; it always returns if the last slot of the table is empty.
\<close>

theorem word_table_correct:
  assumes "vocabulary_fits v" and "words = initialize_words v"
    and "0 < length words" and "length words < 2 ^ 30"
  shows "map (word_from_entry v) words = vocabulary_words v
    \<and> (\<exists>table. initialize_word_hash_table v words = Some table
        \<and> length table = table_size (length words)
        \<and> (\<forall>w i. find_word v words table w = Some i \<longrightarrow>
            (if i = UINT32_MAX then w \<notin> set (vocabulary_words v)
             else unat i < length words \<and> vocabulary_words v ! unat i = w))
        \<and> (last table = UINT32_MAX \<longrightarrow> (\<forall>w. find_word v words table w \<noteq> None)))"
proof -
  obtain k table where k: "k < 32" "initialize_word_hash_table v words = Some table"
      "table_inv (2 ^ k) (vocabulary_words v) table" "table_size (length words) = 2 ^ k"
    using table_built [OF assms] by blast
  have "length table = 2 ^ k" using k(3) by (simp add: table_inv_def)
  then show ?thesis
    using k initialize_words_lines(1) [OF assms(1)] assms(2,4)
      find_word_sound [OF assms(1,2) k(3) refl k(1)] find_word_total [OF _ refl k(1), of table v words]
    by auto
qed

theorem word_table_correct_witness:
  "map (word_from_entry (''big'' @ [newline] @ ''cat'')) (initialize_words (''big'' @ [newline] @ ''cat''))
    = vocabulary_words (''big'' @ [newline] @ ''cat'')"
proof -
  have v: "vocabulary_words (''big'' @ [newline] @ ''cat'') = [''big'', ''cat'']" by code_simp
  have l: "length (initialize_words (''big'' @ [newline] @ ''cat'')) = 2" by code_simp
  show ?thesis
    by (rule word_table_correct [OF _ refl, THEN conjunct1])
      (use v l in \<open>simp_all add: vocabulary_fits_def\<close>)
qed

text \<open>
  The missing mask: \<open>find_word\<close> walks past the end of the table.  With an empty vocabulary
  the table has no slot and every lookup reads outside it; with a single word the table has one
  slot and every lookup of another word does.
\<close>

theorem find_word_out_of_bounds:
  "initialize_word_hash_table [] (initialize_words []) = Some []
    \<and> find_word [] (initialize_words []) [] w = None
    \<and> initialize_word_hash_table ''a'' (initialize_words ''a'') = Some [0]
    \<and> find_word ''a'' (initialize_words ''a'') [0] ''a'' = Some 0
    \<and> find_word ''a'' (initialize_words ''a'') [0] ''b'' = None"
proof (intro conjI)
  show "initialize_word_hash_table [] (initialize_words []) = Some []" by code_simp
  show "find_word [] (initialize_words []) [] w = None" by (simp add: find_word_def)
  show "initialize_word_hash_table ''a'' (initialize_words ''a'') = Some [0]" by code_simp
  show "find_word ''a'' (initialize_words ''a'') [0] ''a'' = Some 0" by code_simp
  show "find_word ''a'' (initialize_words ''a'') [0] ''b'' = None" by code_simp
qed

end
