(* ===== verification/Regex_Index.thy ===== *)
theory Regex_Index
  imports Regex_Query Word_Table
begin

text \<open>
  \<open>DefaultRegexIndex\<close> of \<open>src/netspeak/regex/DefaultRegexIndex.cpp\<close>: the set of all characters,
  the optimization of a query for the vocabulary, the translation into a regular expression,
  and the two ways to answer a query, by hash lookups and by matching every word.

  The matcher of Boost.Regex is a parameter \<open>rx pattern word\<close>, and so is the clock: \<open>late i\<close>
  tells whether the check of the time at the \<open>i\<close>-th word finds the timeout exceeded.
\<close>

record regex_index =
  ri_vocabulary :: string
  ri_words :: "word_entry list"
  ri_all_chars :: "nat set"
  ri_table :: "u32 list"

section \<open>Construction\<close>

definition vocabulary_sub :: "string \<Rightarrow> word_entry list \<Rightarrow> nat \<Rightarrow> string" where
  "vocabulary_sub v words i =
    (let from = unat (we_offset (words ! i));
         to = if i + 1024 < length words then unat (we_offset (words ! (i + 1024))) else length v
     in take (to - from) (drop from v))"

function all_chars_loop :: "string \<Rightarrow> word_entry list \<Rightarrow> nat \<Rightarrow> nat set \<Rightarrow> nat set result" where
  "all_chars_loop v words i chars =
    (if i < length words
     then rbind (from_bytes (vocabulary_sub v words i)) (\<lambda>u32.
            all_chars_loop v words (i + 1024) (chars \<union> set u32))
     else Inr chars)"
  by pat_completeness auto
termination
  by (relation "measure (\<lambda>(v, words, i, chars). length words - i)") auto

declare all_chars_loop.simps [simp del]

definition initialize_all_chars :: "string \<Rightarrow> word_entry list \<Rightarrow> nat set result" where
  "initialize_all_chars v words = rbind (all_chars_loop v words 0 {}) (\<lambda>chars. Inr (chars - {10, 13}))"

text \<open>\<open>None\<close>: the insertion into the table never ends.\<close>

definition new_regex_index :: "string \<Rightarrow> regex_index result option" where
  "new_regex_index v =
    (let words = initialize_words v
     in case initialize_word_hash_table v words of
          None \<Rightarrow> None
        | Some table \<Rightarrow> Some (rbind (initialize_all_chars v words) (\<lambda>chars.
            Inr \<lparr>ri_vocabulary = v, ri_words = words, ri_all_chars = chars, ri_table = table\<rparr>)))"

section \<open>Optimizing a query\<close>

definition contains_unknown_characters :: "u32string \<Rightarrow> nat set \<Rightarrow> bool" where
  "contains_unknown_characters str known_chars \<longleftrightarrow> (\<exists>c \<in> set str. c \<notin> known_chars)"

definition known_unit :: "nat set \<Rightarrow> query_builder \<Rightarrow> regex_unit \<Rightarrow> query_builder" where
  "known_unit chars builder u = (case u of
      RWord v \<Rightarrow>
        (if contains_unknown_characters v chars then builder_add builder (RCharSet [])
         else builder_add builder u)
    | ROptWord v \<Rightarrow>
        (if contains_unknown_characters v chars then builder else builder_add builder u)
    | RCharSet v \<Rightarrow>
        (if contains_unknown_characters v chars
         then builder_add builder (RCharSet (filter (\<lambda>c. c \<in> chars) v))
         else builder_add builder u)
    | _ \<Rightarrow> builder_add builder u)"

definition optimize_query :: "nat set \<Rightarrow> regex_unit list \<Rightarrow> regex_unit list" where
  "optimize_query chars us = to_query (foldl (known_unit chars) new_builder us)"

section \<open>The pattern\<close>

definition escaped :: "string \<Rightarrow> u32string" where
  "escaped s = map (\<lambda>c. if c = CHR ''%'' then 92 else of_char c) s"

text \<open>One UTF-8 character; the backslashes of the literal are written \<open>%\<close>.\<close>

definition utf8_char_pattern :: u32string where
  "utf8_char_pattern = escaped
    (''(?:[%x00-%x7F]|(?:[%xC2-%xDF]|%xE0[%xA0-%xBF]|%xED[%x80-%x9F]|'' @
     ''(?:[%xE1-%xEC]|[%xEE-%xEF]|%xF0[%x90-%xBF]|[%xF1-%xF3][%x80-%xBF]|'' @
     ''%xF4[%x80-%x8F])[%x80-%xBF])[%x80-%xBF])'')"

definition special_chars :: "nat list" where
  "special_chars = map of_char ''+*?|/()[]{}.-^$'' @ [92]"

definition append_char :: "u32string \<Rightarrow> nat \<Rightarrow> u32string" where
  "append_char pattern c = (if c \<in> set special_chars then pattern @ [92, c] else pattern @ [c])"

fun alternatives_pattern :: "bool \<Rightarrow> u32string \<Rightarrow> u32string \<Rightarrow> u32string" where
  "alternatives_pattern first [] pattern = pattern"
| "alternatives_pattern first (c # cs) pattern =
    alternatives_pattern False cs (append_char (if first then pattern else pattern @ escaped ''|'') c)"

definition unit_pattern :: "u32string \<Rightarrow> regex_unit \<Rightarrow> u32string" where
  "unit_pattern pattern u = (case u of
      RQMark \<Rightarrow> pattern @ utf8_char_pattern
    | RStar \<Rightarrow> pattern @ escaped ''.*''
    | RCharSet v \<Rightarrow> alternatives_pattern True v (pattern @ escaped ''(?:'') @ escaped '')''
    | ROptWord v \<Rightarrow> foldl append_char (pattern @ escaped ''(?:'') v @ escaped '')?''
    | RWord v \<Rightarrow> foldl append_char pattern v)"

definition create_regex_pattern :: "regex_unit list \<Rightarrow> string" where
  "create_regex_pattern us = to_bytes (foldl unit_pattern [] us)"

section \<open>Hash lookups\<close>

definition finite_query_to_utf8 :: "regex_unit list \<Rightarrow> string list list" where
  "finite_query_to_utf8 us = map (\<lambda>u. case u of
      RCharSet v \<Rightarrow> map (\<lambda>c. to_bytes [c]) v
    | ROptWord v \<Rightarrow> [to_bytes v, []]
    | RWord v \<Rightarrow> [to_bytes v]
    | RQMark \<Rightarrow> [''?'']
    | RStar \<Rightarrow> [''*'']) us"

text \<open>
  All combinations of the alternatives; \<open>None\<close> when one of the lookups reads outside the table.
\<close>

fun lookup_impl :: "(string \<Rightarrow> u32 option) \<Rightarrow> string list list \<Rightarrow> string \<Rightarrow> u32 list option"
  and lookup_alternatives ::
    "(string \<Rightarrow> u32 option) \<Rightarrow> string list \<Rightarrow> string list list \<Rightarrow> string \<Rightarrow> u32 list option" where
  "lookup_impl find_fn [] word =
    (case find_fn word of None \<Rightarrow> None | Some index \<Rightarrow> Some (if index = UINT32_MAX then [] else [index]))"
| "lookup_impl find_fn (alternatives # stack) word = lookup_alternatives find_fn alternatives stack word"
| "lookup_alternatives find_fn [] stack word = Some []"
| "lookup_alternatives find_fn (a # alternatives) stack word =
    (case lookup_impl find_fn stack (word @ a) of
       None \<Rightarrow> None
     | Some indexes \<Rightarrow> map_option (\<lambda>more. indexes @ more) (lookup_alternatives find_fn alternatives stack word))"

definition word_at_index :: "regex_index \<Rightarrow> u32 \<Rightarrow> string" where
  "word_at_index idx index = word_from_entry (ri_vocabulary idx) (ri_words idx ! unat index)"

fun add_words :: "regex_index \<Rightarrow> u32 list \<Rightarrow> u32 \<Rightarrow> nat \<Rightarrow> nat \<Rightarrow> string list" where
  "add_words idx [] last_index added max_matches = []"
| "add_words idx (index # indexes) last_index added max_matches =
    (if added < max_matches then
       (if index \<noteq> last_index
        then word_at_index idx index # add_words idx indexes index (added + 1) max_matches
        else add_words idx indexes last_index added max_matches)
     else [])"

definition match_query_hash_lookup :: "regex_index \<Rightarrow> regex_unit list \<Rightarrow> u32 \<Rightarrow> string list option" where
  "match_query_hash_lookup idx query max_matches =
    map_option (\<lambda>indexes. case sort indexes of
        [] \<Rightarrow> []
      | index # rest \<Rightarrow> word_at_index idx index # add_words idx rest index 1 (unat max_matches))
      (lookup_impl (find_word (ri_vocabulary idx) (ri_words idx) (ri_table idx))
        (finite_query_to_utf8 query) [])"

section \<open>Matching every word\<close>

fun regex_loop ::
    "regex_index \<Rightarrow> (string \<Rightarrow> bool) \<Rightarrow> (nat \<Rightarrow> bool) \<Rightarrow> u16 \<Rightarrow> u16 \<Rightarrow> nat \<Rightarrow> word_entry list \<Rightarrow> nat \<Rightarrow> nat
      \<Rightarrow> string list" where
  "regex_loop idx matches_rx late min_length max_length max_matches [] i added = []"
| "regex_loop idx matches_rx late min_length max_length max_matches (e # es) i added =
    (if we_length e < min_length \<or> we_length e > max_length
     then regex_loop idx matches_rx late min_length max_length max_matches es (i + 1) added
     else
       (let w = word_from_entry (ri_vocabulary idx) e in
        if matches_rx w then
          w # (if added + 1 \<ge> max_matches then []
               else if i mod 256 = 0 \<and> late i then []
               else regex_loop idx matches_rx late min_length max_length max_matches es (i + 1) (added + 1))
        else if i mod 256 = 0 \<and> late i then []
        else regex_loop idx matches_rx late min_length max_length max_matches es (i + 1) added))"

definition match_query_regex ::
    "(string \<Rightarrow> string \<Rightarrow> bool) \<Rightarrow> (nat \<Rightarrow> bool) \<Rightarrow> regex_index \<Rightarrow> regex_unit list \<Rightarrow> u32 \<Rightarrow> string list" where
  "match_query_regex rx late idx query max_matches =
    regex_loop idx (rx (create_regex_pattern query)) late
      (ucast (min_utf8_input_length query)) (ucast (max_utf8_input_length query))
      (unat max_matches) (ri_words idx) 0 0"

text \<open>
  \<open>match_query\<close>: only the number of combinations is taken from the optimized query \<open>q\<close>; the
  strategies work on the query itself.
\<close>

definition match_query ::
    "(string \<Rightarrow> string \<Rightarrow> bool) \<Rightarrow> (nat \<Rightarrow> bool) \<Rightarrow> regex_index \<Rightarrow> regex_unit list \<Rightarrow> u32
      \<Rightarrow> string list option" where
  "match_query rx late idx query max_matches =
    (if max_matches = 0 then Some []
     else
       (let q = optimize_query (ri_all_chars idx) query in
        if accept_all_non_empty query then
          Some (map (word_at_index idx)
            (map of_nat [0..<unat (min max_matches (of_nat (length (ri_words idx))))]))
        else if reject_all query then Some []
        else if combinations_upper_bound q < 1000 then match_query_hash_lookup idx query max_matches
        else Some (match_query_regex rx late idx query max_matches)))"

section \<open>The optimized query\<close>

text \<open>The units a unit is replaced with, without the builder.\<close>

definition known_units :: "nat set \<Rightarrow> regex_unit \<Rightarrow> regex_unit list" where
  "known_units chars u = (case u of
      RWord v \<Rightarrow> if contains_unknown_characters v chars then [RCharSet []] else [u]
    | ROptWord v \<Rightarrow> if contains_unknown_characters v chars then [] else [u]
    | RCharSet v \<Rightarrow>
        if contains_unknown_characters v chars then [RCharSet (filter (\<lambda>c. c \<in> chars) v)] else [u]
    | _ \<Rightarrow> [u])"

lemma known_unit_foldl: "known_unit chars b u = foldl builder_add b (known_units chars u)"
  by (auto simp: known_unit_def known_units_def split: regex_unit.splits)

lemma optimize_query_units:
  "optimize_query chars us = to_query (foldl builder_add new_builder (concat (map (known_units chars) us)))"
proof -
  have "foldl (known_unit chars) b us = foldl builder_add b (concat (map (known_units chars) us))" for b
    by (induction us arbitrary: b) (simp_all add: known_unit_foldl)
  then show ?thesis by (simp add: optimize_query_def)
qed

lemma known_units_lang:
  assumes "set w \<subseteq> chars"
  shows "w \<in> rq_lang (known_units chars u) \<longleftrightarrow> w \<in> ru_lang u"
  using assms by (cases u) (auto simp: known_units_def contains_unknown_characters_def)

lemma concat_known_lang:
  assumes "set w \<subseteq> chars"
  shows "w \<in> rq_lang (concat (map (known_units chars) us)) \<longleftrightarrow> w \<in> rq_lang us"
  using assms
proof (induction us arbitrary: w)
  case (Cons u us)
  have "p \<in> rq_lang (known_units chars u) \<longleftrightarrow> p \<in> ru_lang u"
      "q \<in> rq_lang (concat (map (known_units chars) us)) \<longleftrightarrow> q \<in> rq_lang us" if "w = p @ q" for p q
    using that Cons known_units_lang [of p chars u] by auto
  moreover have "w \<in> conc A B \<longleftrightarrow> (\<exists>p q. w = p @ q \<and> p \<in> A \<and> q \<in> B)" for A B
    by (simp add: conc_def)
  ultimately show ?case by (simp only: list.map concat.simps rq_lang_simps) metis
qed simp

text \<open>On the words over the known characters the optimization changes nothing.\<close>

lemma optimize_query_lang:
  "set w \<subseteq> chars \<Longrightarrow> w \<in> rq_lang (optimize_query chars us) \<longleftrightarrow> w \<in> rq_lang us"
  by (simp add: optimize_query_units rq_lang_to_query foldl_builder_add_lang concat_known_lang)

text \<open>A query with wildcards keeps them, so its optimized form accepts nothing or infinitely much.\<close>

definition wildcard :: "regex_unit \<Rightarrow> bool" where
  "wildcard u \<longleftrightarrow> u = RQMark \<or> u = RStar"

lemma infinite_conc_left: "infinite A \<Longrightarrow> B \<noteq> {} \<Longrightarrow> infinite (conc A B)"
proof -
  assume a: "infinite A" "B \<noteq> {}"
  then obtain q where "q \<in> B" by blast
  then have "(\<lambda>p. p @ q) ` A \<subseteq> conc A B" by auto
  moreover have "inj_on (\<lambda>p. p @ q) A" by (simp add: inj_on_def)
  ultimately show "infinite (conc A B)" using a(1) by (meson finite_imageD finite_subset)
qed

lemma infinite_conc_right: "infinite B \<Longrightarrow> A \<noteq> {} \<Longrightarrow> infinite (conc A B)"
proof -
  assume a: "infinite B" "A \<noteq> {}"
  then obtain p where "p \<in> A" by blast
  then have "(\<lambda>q. p @ q) ` B \<subseteq> conc A B" by auto
  moreover have "inj_on (\<lambda>q. p @ q) B" by (simp add: inj_on_def)
  ultimately show "infinite (conc A B)" using a(1) by (meson finite_imageD finite_subset)
qed

lemma infinite_wildcard: "wildcard u \<Longrightarrow> infinite (ru_lang u)"
proof -
  have "inj (\<lambda>c :: nat. [c])" by (simp add: inj_on_def)
  then have "infinite (range (\<lambda>c :: nat. [c]))" by (simp add: finite_image_iff)
  moreover have "range (\<lambda>c :: nat. [c]) \<subseteq> {w. length w = 1}" "range (\<lambda>c :: nat. [c]) \<subseteq> UNIV" by auto
  ultimately have "infinite {w :: nat list. length w = 1}" "infinite (UNIV :: nat list set)"
    by (meson finite_subset)+
  then show "wildcard u \<Longrightarrow> infinite (ru_lang u)" by (auto simp: wildcard_def)
qed

lemma wildcard_lang: "(\<exists>u \<in> set us. wildcard u) \<Longrightarrow> rq_lang us = {} \<or> infinite (rq_lang us)"
proof (induction us)
  case (Cons u us)
  show ?case
  proof (cases "ru_lang u = {} \<or> rq_lang us = {}")
    case False
    then have ne: "ru_lang u \<noteq> {}" "rq_lang us \<noteq> {}" by auto
    have "infinite (ru_lang u) \<or> infinite (rq_lang us)"
      using Cons ne infinite_wildcard [of u] by auto
    then show ?thesis
      using infinite_conc_left [OF _ ne(2)] infinite_conc_right [OF _ ne(1)] by auto
  qed auto
qed simp

lemma known_units_wildcard: "wildcard u \<Longrightarrow> known_units chars u = [u]"
  by (auto simp: wildcard_def known_units_def)

definition literal_unit :: "regex_unit \<Rightarrow> regex_unit" where
  "literal_unit u = (case u of RStar \<Rightarrow> RWord [42] | RQMark \<Rightarrow> RWord [63] | _ \<Rightarrow> u)"

lemma literal_units_lang: "rq_lang (map literal_unit us) \<subseteq> rq_lang us"
proof (induction us)
  case (Cons u us)
  have "ru_lang (literal_unit u) \<subseteq> ru_lang u" by (cases u) (simp_all add: literal_unit_def)
  then show ?case using conc_mono [OF _ Cons] by simp
qed simp

lemma known_units_sets:
  assumes "sets_fit [u]"
  shows "sets_fit (known_units chars u)"
  using assms le_less_trans [OF length_filter_le]
  by (cases u) (auto simp: sets_fit_def known_units_def)

lemma sets_fit_known:
  assumes "sets_fit us"
  shows "sets_fit (optimize_query chars us)"
proof -
  have "sets_fit (concat (map (known_units chars) us))"
    unfolding sets_fit_def
  proof (intro allI impI)
    fix v assume "RCharSet v \<in> set (concat (map (known_units chars) us))"
    then obtain x where x: "x \<in> set us" "RCharSet v \<in> set (known_units chars x)" by auto
    have "sets_fit [x]" using assms x(1) by (auto simp: sets_fit_def)
    from known_units_sets [OF this, of chars] x(2) show "length v < 2 ^ 32" by (auto simp: sets_fit_def)
  qed
  then have "sets_fit (rb_units (foldl builder_add new_builder (concat (map (known_units chars) us))))"
    by (intro foldl_builder_add_fit) (simp_all add: new_builder_def sets_fit_def)
  then show ?thesis
    by (auto simp: optimize_query_units to_query_def create_reject_all_def sets_fit_def)
qed

text \<open>
  When the optimized query has few combinations, looking up the query itself, wildcards taken
  literally, finds the same known words.
\<close>

lemma literal_lang_finite:
  assumes "combinations_upper_bound (optimize_query chars us) < 1000" "sets_fit us" "set w \<subseteq> chars"
  shows "w \<in> rq_lang (map literal_unit us) \<longleftrightarrow> w \<in> rq_lang us"
proof (cases "\<exists>u \<in> set us. wildcard u")
  case False
  then have "map literal_unit us = us"
    by (intro map_idI) (auto simp: literal_unit_def wildcard_def split: regex_unit.splits)
  then show ?thesis by simp
next
  case True
  define us' where "us' = concat (map (known_units chars) us)"
  have w': "\<exists>u \<in> set us'. wildcard u" 
  proof -
    obtain u where "u \<in> set us" "wildcard u" using True by blast
    then have "u \<in> set us'" using known_units_wildcard [of u chars] by (auto simp: us'_def intro!: bexI [of _ u])
    then show ?thesis using \<open>wildcard u\<close> by blast
  qed
  have l: "rq_lang (optimize_query chars us) = rq_lang us'"
    by (simp add: optimize_query_units rq_lang_to_query foldl_builder_add_lang us'_def)
  have "combinations_upper_bound (optimize_query chars us) \<noteq> UINT32_MAX"
    using assms(1) by (auto simp: not_less)
  from combinations_bound(1) [OF this sets_fit_known [OF assms(2)]] have "rq_lang us' = {}"
    using wildcard_lang [OF w'] l by simp
  then have "w \<notin> rq_lang us" using concat_known_lang [OF assms(3), of us] by (simp add: us'_def)
  then show ?thesis using literal_units_lang [of us] by auto
qed

section \<open>The hash lookups\<close>

definition unit_scalar :: "regex_unit \<Rightarrow> bool" where
  "unit_scalar u \<longleftrightarrow> (case u of
      RWord v \<Rightarrow> list_all scalar v | ROptWord v \<Rightarrow> list_all scalar v | RCharSet v \<Rightarrow> list_all scalar v
    | _ \<Rightarrow> True)"

lemma lookup_all:
  "lookup_impl f stack word = Some is \<Longrightarrow>
    (\<forall>p \<in> concs (map set stack). f (word @ p) \<noteq> None)
    \<and> set is = {i. i \<noteq> UINT32_MAX \<and> (\<exists>p \<in> concs (map set stack). f (word @ p) = Some i)}"
  "lookup_alternatives f as stack word = Some is \<Longrightarrow>
    (\<forall>p \<in> conc (set as) (concs (map set stack)). f (word @ p) \<noteq> None)
    \<and> set is = {i. i \<noteq> UINT32_MAX \<and> (\<exists>p \<in> conc (set as) (concs (map set stack)). f (word @ p) = Some i)}"
proof (induction f stack word and f as stack word arbitrary: "is" and "is"
    rule: lookup_impl_lookup_alternatives.induct)
  case (4 f a as stack word)
  obtain is1 is2 where i: "lookup_impl f stack (word @ a) = Some is1"
      "lookup_alternatives f as stack word = Some is2" "is = is1 @ is2"
    using "4.prems" by (auto split: option.splits)
  have c: "conc (set (a # as)) (concs (map set stack))
      = (\<lambda>p. a @ p) ` concs (map set stack) \<union> conc (set as) (concs (map set stack))"
    by (auto simp: conc_def)
  show ?case using "4.IH"(1) [OF i(1)] "4.IH"(2) [OF i(1,2)] unfolding c i(3) by auto
qed (auto split: option.splits if_splits)

lemma image_conc:
  "(\<And>p q. f (p @ q) = f p @ f q) \<Longrightarrow> conc (f ` A) (f ` B) = f ` conc A B"
proof (intro equalityI subsetI)
  assume f: "\<And>p q. f (p @ q) = f p @ f q"
  fix r assume "r \<in> conc (f ` A) (f ` B)"
  then obtain p q where "r = f p @ f q" "p \<in> A" "q \<in> B" by auto
  then show "r \<in> f ` conc A B" by (metis f image_eqI concI)
qed (auto simp: conc_def)

lemma literal_bytes: "to_bytes [42] = ''*''" "to_bytes [63] = ''?''"
  by code_simp+

lemma finite_query_lang:
  "concs (map set (finite_query_to_utf8 us)) = to_bytes ` rq_lang (map literal_unit us)"
proof (induction us)
  case (Cons u us)
  have "set (hd (finite_query_to_utf8 [u])) = to_bytes ` ru_lang (literal_unit u)"
    by (cases u) (auto simp: finite_query_to_utf8_def literal_unit_def literal_bytes)
  moreover have "finite_query_to_utf8 (u # us) = hd (finite_query_to_utf8 [u]) # finite_query_to_utf8 us"
    by (simp add: finite_query_to_utf8_def)
  ultimately show ?case using Cons image_conc [of to_bytes] by simp
qed (simp add: finite_query_to_utf8_def)

lemma literal_scalar:
  "list_all unit_scalar us \<Longrightarrow> p \<in> rq_lang (map literal_unit us) \<Longrightarrow> list_all scalar p"
proof (induction us arbitrary: p)
  case (Cons u us)
  then obtain q r where p: "p = q @ r" "q \<in> ru_lang (literal_unit u)" "r \<in> rq_lang (map literal_unit us)"
    by auto
  have "list_all scalar q"
    using p(2) Cons.prems(1)
    by (cases u) (auto simp: literal_unit_def unit_scalar_def list_all_iff scalar_def)
  then show ?case using Cons p by simp
qed simp

section \<open>An index for a list of words\<close>

definition index_for :: "regex_index \<Rightarrow> u32string list \<Rightarrow> bool" where
  "index_for idx ws \<longleftrightarrow> vocabulary_fits (ri_vocabulary idx)
    \<and> ri_words idx = initialize_words (ri_vocabulary idx)
    \<and> vocabulary_words (ri_vocabulary idx) = map to_bytes ws
    \<and> distinct ws \<and> (\<forall>w \<in> set ws. list_all scalar w \<and> set w \<subseteq> ri_all_chars idx)
    \<and> length ws < 2 ^ 30 \<and> (\<exists>k < 32. table_inv (2 ^ k) (map to_bytes ws) (ri_table idx))"

lemma lines_from_nonempty: "[] \<notin> set (lines_from n s)"
  by (induction n arbitrary: s) (auto simp: Let_def)

lemma index_entries:
  assumes "index_for idx ws"
  shows "map (word_from_entry (ri_vocabulary idx)) (ri_words idx) = map to_bytes ws"
    and "length (ri_words idx) = length ws"
    and "[] \<notin> set ws"
    and "e \<in> set (ri_words idx) \<Longrightarrow> unat (we_length e) = length (word_from_entry (ri_vocabulary idx) e)"
    and "j < length ws \<Longrightarrow> word_at_index idx (of_nat j) = to_bytes (ws ! j)"
proof -
  show m: "map (word_from_entry (ri_vocabulary idx)) (ri_words idx) = map to_bytes ws"
    using assms initialize_words_lines(1) [of "ri_vocabulary idx"] by (simp add: index_for_def)
  then show l: "length (ri_words idx) = length ws" by (metis length_map)
  have "[] \<notin> set (map to_bytes ws)"
    using assms lines_from_nonempty by (metis index_for_def vocabulary_words_def)
  then show "[] \<notin> set ws" by (force simp: image_iff)
  show "e \<in> set (ri_words idx) \<Longrightarrow> unat (we_length e) = length (word_from_entry (ri_vocabulary idx) e)"
    using assms initialize_words_lines(2) [of "ri_vocabulary idx"] by (simp add: index_for_def)
  assume j: "j < length ws"
  then have "unat (of_nat j :: u32) = j" using assms unat_of_nat_u32 [of j] by (simp add: index_for_def)
  then show "word_at_index idx (of_nat j) = to_bytes (ws ! j)"
    using j l arg_cong [OF m, of "\<lambda>xs. xs ! j"] by (simp add: word_at_index_def)
qed

lemma find_word_index:
  assumes "index_for idx ws" "list_all scalar p"
    "find_word (ri_vocabulary idx) (ri_words idx) (ri_table idx) (to_bytes p) = Some i"
  shows "if i = UINT32_MAX then p \<notin> set ws else \<exists>j < length ws. i = of_nat j \<and> ws ! j = p"
proof -
  obtain k where k: "k < 32" "table_inv (2 ^ k) (vocabulary_words (ri_vocabulary idx)) (ri_table idx)"
    using assms(1) by (auto simp: index_for_def)
  have l: "length (ri_words idx) < 2 ^ 32 - 1"
    using assms(1) index_entries(2) [OF assms(1)] by (simp add: index_for_def)
  have vw: "vocabulary_words (ri_vocabulary idx) = map to_bytes ws" using assms(1) by (simp add: index_for_def)
  note s = find_word_sound [OF _ _ k(2) refl k(1) l assms(3)]
  show ?thesis
  proof (cases "i = UINT32_MAX")
    case True
    then show ?thesis using s assms(1) vw by (auto simp: index_for_def)
  next
    case False
    then have j: "unat i < length ws" "to_bytes (ws ! unat i) = to_bytes p"
      using s assms(1) vw index_entries(2) [OF assms(1)] by (auto simp: index_for_def)
    moreover have "list_all scalar (ws ! unat i)" using assms(1) j(1) by (simp add: index_for_def)
    ultimately have "ws ! unat i = p" using to_bytes_inj assms(2) by (metis list_all_iff)
    then show ?thesis using False j(1) by (auto intro!: exI [of _ "unat i"])
  qed
qed

lemma add_words_take:
  "n \<le> m \<Longrightarrow> add_words idx is l n m = map (word_at_index idx) (take (m - n) (dedup_loop l is))"
proof (induction idx "is" l n m rule: add_words.induct)
  case (2 idx i "is" l n m)
  show ?case
  proof (cases "n < m")
    case True
    then have "m - n = Suc (m - (n + 1))" by simp
    then show ?thesis using 2 True by auto
  qed simp
qed simp

text \<open>Sorted and without duplicates, the indices are those of the words of the language in order.\<close>

lemma dedup_sorted:
  "sorted (l # is :: 'a::linorder list) \<Longrightarrow>
    sorted_wrt (<) (l # dedup_loop l is) \<and> set (l # dedup_loop l is) = set (l # is)"
  using dedup_loop_sorted [of l "is"] dedup_loop_set [of l "is"] by simp

lemma sorted_indices:
  assumes "sorted_wrt (<) (is :: u32 list)" "set is = of_nat ` {j. j < n \<and> P j}" "n < 2 ^ 32"
  shows "is = map of_nat (filter P [0..<n])"
proof (rule strict_sorted_equal [OF _ assms(1)])
  have "(of_nat i :: u32) < of_nat j" if "i < j" "j < n" for i j
    using that assms(3) unat_of_nat_u32 [of i] unat_of_nat_u32 [of j] by (simp add: word_less_nat_alt)
  then have "sorted_wrt (\<lambda>i j. (of_nat i :: u32) < of_nat j) [0..<n]"
    by (auto simp: sorted_wrt_iff_nth_less)
  then show "sorted_wrt (<) (map of_nat (filter P [0..<n]) :: u32 list)"
    by (simp add: sorted_wrt_map sorted_wrt_filter)
  show "set is = set (map of_nat (filter P [0..<n]))" using assms(2) by auto
qed

lemma filter_indices: "filter P ws = map ((!) ws) (filter (\<lambda>j. P (ws ! j)) [0..<length ws])"
proof -
  have "filter P ws = filter P (map ((!) ws) [0..<length ws])" by (simp add: map_nth)
  then show ?thesis by (simp add: filter_map comp_def)
qed

definition matching :: "u32string list \<Rightarrow> regex_unit list \<Rightarrow> string list" where
  "matching ws us = map to_bytes (filter (\<lambda>w. w \<in> rq_lang us) ws)"

lemma match_query_hash_lookup_correct:
  assumes "index_for idx ws" "list_all unit_scalar us" "0 < m"
    "match_query_hash_lookup idx us m = Some ms"
  shows "ms = take (unat m) (matching ws (map literal_unit us))"
proof -
  define L where "L = rq_lang (map literal_unit us)"
  obtain idxs where l: "lookup_impl (find_word (ri_vocabulary idx) (ri_words idx) (ri_table idx))
      (finite_query_to_utf8 us) [] = Some idxs"
    using assms(4) by (auto simp: match_query_hash_lookup_def)
  have ls: "length ws < 2 ^ 32" using assms(1) by (simp add: index_for_def)
  define f where "f p = find_word (ri_vocabulary idx) (ri_words idx) (ri_table idx) (to_bytes p)" for p
  have idxs: "set idxs = {i. i \<noteq> UINT32_MAX \<and> (\<exists>p \<in> L. f p = Some i)}" "\<forall>p \<in> L. f p \<noteq> None"
    using lookup_all(1) [OF l] unfolding finite_query_lang f_def L_def by auto
  have found: "if i = UINT32_MAX then p \<notin> set ws else \<exists>j < length ws. i = of_nat j \<and> ws ! j = p"
    if "p \<in> L" "f p = Some i" for p i
    using find_word_index [OF assms(1) literal_scalar [OF assms(2)]] that by (simp add: L_def f_def)
  have set_ids: "set idxs = (of_nat :: nat \<Rightarrow> u32) ` {j. j < length ws \<and> ws ! j \<in> L}"
  proof (intro equalityI subsetI)
    fix i :: u32 assume "i \<in> set idxs"
    then show "i \<in> of_nat ` {j. j < length ws \<and> ws ! j \<in> L}" using idxs(1) found by fastforce
  next
    fix i :: u32 assume "i \<in> of_nat ` {j. j < length ws \<and> ws ! j \<in> L}"
    then obtain j where j: "i = of_nat j" "j < length ws" "ws ! j \<in> L" by auto
    then obtain i' where i': "f (ws ! j) = Some i'" using idxs(2) by auto
    then have "i' \<noteq> UINT32_MAX" using found [OF j(3) i'] j(2) by (auto split: if_splits)
    moreover from this obtain j' where "j' < length ws" "i' = of_nat j'" "ws ! j' = ws ! j"
      using found [OF j(3) i'] by auto
    moreover from this have "j' = j" using assms(1) j(2) by (simp add: index_for_def nth_eq_iff_index_eq)
    ultimately show "i \<in> set idxs" using idxs(1) i' j by auto
  qed
  define D where "D = (case sort idxs of [] \<Rightarrow> [] | i # r \<Rightarrow> i # dedup_loop i r)"
  have "sorted_wrt (<) D \<and> set D = set idxs"
  proof (cases "sort idxs")
    case (Cons i r)
    then have "sorted (i # r)" "set (i # r) = set idxs" by (metis sorted_sort, metis set_sort)
    then show ?thesis using dedup_sorted [of i r] Cons by (simp add: D_def)
  next
    case Nil
    moreover have "set (sort idxs) = set idxs" by simp
    ultimately show ?thesis by (simp add: D_def)
  qed
  then have D: "D = map of_nat (filter (\<lambda>j. ws ! j \<in> L) [0..<length ws])"
    using sorted_indices [OF _ _ ls] set_ids by simp
  have m: "1 \<le> unat m" using assms(3) by (simp add: word_less_nat_alt)
  have "ms = map (word_at_index idx) (take (unat m) D)"
  proof (cases "sort idxs")
    case (Cons i r)
    have "take (unat m) (i # dedup_loop i r) = i # take (unat m - 1) (dedup_loop i r)"
      using m by (cases "unat m") auto
    then show ?thesis
      using assms(4) l Cons add_words_take [OF m] by (simp add: match_query_hash_lookup_def D_def)
  qed (use assms(4) l in \<open>simp add: match_query_hash_lookup_def D_def\<close>)
  also have "\<dots> = take (unat m) (map (word_at_index idx \<circ> of_nat) (filter (\<lambda>j. ws ! j \<in> L) [0..<length ws]))"
    by (simp add: D take_map)
  also have "map (word_at_index idx \<circ> of_nat) (filter (\<lambda>j. ws ! j \<in> L) [0..<length ws])
      = map (to_bytes \<circ> (!) ws) (filter (\<lambda>j. ws ! j \<in> L) [0..<length ws])"
    by (rule map_cong [OF refl]) (simp add: index_entries(5) [OF assms(1)])
  finally show ?thesis unfolding matching_def L_def [symmetric] by (subst filter_indices) simp
qed

section \<open>The loop over the words\<close>

lemma regex_loop_prefix:
  assumes "\<And>e. e \<in> set es \<Longrightarrow> Q (word_from_entry (ri_vocabulary idx) e) \<longleftrightarrow>
      \<not> (we_length e < mn \<or> we_length e > mx) \<and> matches_rx (word_from_entry (ri_vocabulary idx) e)"
    "added < m"
  shows "\<exists>rest. filter Q (map (word_from_entry (ri_vocabulary idx)) es)
      = regex_loop idx matches_rx late mn mx m es i added @ rest
    \<and> length (regex_loop idx matches_rx late mn mx m es i added) \<le> m - added
    \<and> ((\<forall>j. \<not> late j) \<longrightarrow> regex_loop idx matches_rx late mn mx m es i added
        = take (m - added) (filter Q (map (word_from_entry (ri_vocabulary idx)) es)))"
  using assms
proof (induction es arbitrary: i added)
  case (Cons e es)
  define w where "w = word_from_entry (ri_vocabulary idx) e"
  have q: "Q w \<longleftrightarrow> \<not> (we_length e < mn \<or> we_length e > mx) \<and> matches_rx w"
    using Cons.prems(1) [of e] by (simp add: w_def)
  have IH: "\<exists>rest. filter Q (map (word_from_entry (ri_vocabulary idx)) es)
      = regex_loop idx matches_rx late mn mx m es (i + 1) a @ rest
    \<and> length (regex_loop idx matches_rx late mn mx m es (i + 1) a) \<le> m - a
    \<and> ((\<forall>j. \<not> late j) \<longrightarrow> regex_loop idx matches_rx late mn mx m es (i + 1) a
        = take (m - a) (filter Q (map (word_from_entry (ri_vocabulary idx)) es)))" if "a < m" for a
    by (rule Cons.IH [OF _ that]) (use Cons.prems(1) in simp)
  show ?case
  proof (cases "Q w")
    case True
    have m: "m - added = Suc (m - (added + 1))" using Cons.prems(2) by simp
    have r: "regex_loop idx matches_rx late mn mx m (e # es) i added =
        w # (if added + 1 \<ge> m then [] else if i mod 256 = 0 \<and> late i then []
             else regex_loop idx matches_rx late mn mx m es (i + 1) (added + 1))"
      using True q by (simp add: w_def Let_def)
    show ?thesis
      using True m IH [of "added + 1"] unfolding r
      by (cases "added + 1 < m") (auto simp: w_def [symmetric])
  next
    case False
    then have r: "regex_loop idx matches_rx late mn mx m (e # es) i added =
        (if (we_length e < mn \<or> we_length e > mx) \<or> \<not> (i mod 256 = 0 \<and> late i)
         then regex_loop idx matches_rx late mn mx m es (i + 1) added else [])"
      using q by (auto simp: w_def Let_def)
    show ?thesis using False IH [OF Cons.prems(2)] unfolding r by (auto simp: w_def [symmetric])
  qed
qed simp

text \<open>The truncated bounds still admit every word of the language.\<close>

lemma length_filter_sound:
  assumes "sum_list (map unit_bytes us) < 2 ^ 16" "w \<in> rq_lang us"
    "unat len = length (to_bytes w)"
  shows "\<not> (len < (ucast (min_utf8_input_length us) :: u16) \<or> len > (ucast (max_utf8_input_length us) :: u16))"
proof -
  have b: "unat (min_utf8_input_length us) \<le> length (to_bytes w)"
      "max_utf8_input_length us = UINT64_MAX \<or> length (to_bytes w) \<le> unat (max_utf8_input_length us)"
    using utf8_length_bounds [of us w] assms(1,2) by auto
  have l: "unat len < 2 ^ 16" by (rule order_less_le_trans [OF unsigned_less]) simp
  have mn: "unat (ucast (min_utf8_input_length us) :: u16) \<le> unat len"
    using b(1) assms(3) by (simp add: unsigned_ucast_eq take_bit_eq_mod order_trans [OF mod_less_eq_dividend])
  have mx: "unat len \<le> unat (ucast (max_utf8_input_length us) :: u16)"
  proof (cases "max_utf8_input_length us = UINT64_MAX")
    case True
    have "unat (ucast UINT64_MAX :: u16) = 2 ^ 16 - 1"
      by (simp add: unsigned_ucast_eq take_bit_eq_mod)
    then show ?thesis using True l by simp
  next
    case False
    then have "unat (max_utf8_input_length us) < 2 ^ 16"
      using max_utf8_loop_le [of 0 us] assms(1) by (simp add: max_utf8_input_length_def)
    then have "unat (ucast (max_utf8_input_length us) :: u16) = unat (max_utf8_input_length us)"
      by (simp add: unsigned_ucast_eq take_bit_nat_eq_self)
    then show ?thesis using b(2) False assms(3) by simp
  qed
  show ?thesis using mn mx by (simp add: word_less_nat_alt not_less)
qed

lemma match_query_regex_correct:
  assumes "index_for idx ws" "sum_list (map unit_bytes us) < 2 ^ 16" "0 < m"
    "\<forall>w \<in> set ws. rx (create_regex_pattern us) (to_bytes w) \<longleftrightarrow> w \<in> rq_lang us"
    "ms = match_query_regex rx late idx us m"
  shows "(\<exists>rest. matching ws us = ms @ rest) \<and> length ms \<le> unat m
    \<and> ((\<forall>i. \<not> late i) \<longrightarrow> ms = take (unat m) (matching ws us))"
proof -
  define Q where "Q v \<longleftrightarrow> v \<in> to_bytes ` (set ws \<inter> rq_lang us)" for v
  have inj: "w = w'" if "w \<in> set ws" "w' \<in> set ws" "to_bytes w = to_bytes w'" for w w'
    using that assms(1) to_bytes_inj by (auto simp: index_for_def list_all_iff)
  have "Q (to_bytes w) \<longleftrightarrow> w \<in> rq_lang us" if "w \<in> set ws" for w
    using inj [OF that] that by (auto simp: Q_def)
  then have f: "filter Q (map to_bytes ws) = matching ws us"
    by (simp add: matching_def filter_map comp_def cong: filter_cong)
  have e: "Q (word_from_entry (ri_vocabulary idx) e) \<longleftrightarrow>
      \<not> (we_length e < ucast (min_utf8_input_length us) \<or> we_length e > ucast (max_utf8_input_length us))
      \<and> rx (create_regex_pattern us) (word_from_entry (ri_vocabulary idx) e)" if "e \<in> set (ri_words idx)" for e
  proof -
    have "word_from_entry (ri_vocabulary idx) e \<in> set (map (word_from_entry (ri_vocabulary idx)) (ri_words idx))"
      using that by simp
    then obtain w where w: "w \<in> set ws" "word_from_entry (ri_vocabulary idx) e = to_bytes w"
      unfolding index_entries(1) [OF assms(1)] by auto
    have "Q (to_bytes w) \<longleftrightarrow> w \<in> rq_lang us" using inj [OF w(1)] w(1) by (auto simp: Q_def)
    moreover have "unat (we_length e) = length (to_bytes w)"
      using index_entries(4) [OF assms(1) that] w(2) by simp
    ultimately show ?thesis
      using length_filter_sound [OF assms(2)] assms(4) w by auto
  qed
  have "0 < unat m" using assms(3) by (simp add: word_less_nat_alt)
  from regex_loop_prefix [of "ri_words idx" Q, OF e this] show ?thesis
    unfolding index_entries(1) [OF assms(1)] f assms(5) match_query_regex_def by simp
qed

section \<open>Building the index\<close>

text \<open>The entries from the \<open>i\<close>-th on are those of the text that starts at its offset.\<close>

lemma offset_of_entry: "prev < 2 ^ 32 \<Longrightarrow> unat (we_offset (word_entry_at prev n)) = prev"
  by (simp add: word_entry_at_def unat_of_nat_u32)

lemma words_loop_suffix:
  assumes "length v < 2 ^ 32" "prev \<le> length v" "length v - prev < n" "i < length (words_loop v prev)"
    "off = unat (we_offset (words_loop v prev ! i))"
  shows "prev \<le> off \<and> off \<le> length v \<and> words_loop v off = drop i (words_loop v prev)
    \<and> (\<exists>m. length v - off < m \<and> lines_from m (drop off v) = drop i (lines_from n (drop prev v)))"
  using assms(2-)
proof (induction n arbitrary: prev i)
  case (Suc m)
  define l where "l = takeWhile (\<lambda>c. c \<noteq> newline) (drop prev v)"
  define r where "r = dropWhile (\<lambda>c. c \<noteq> newline) (drop prev v)"
  note step = words_loop_step [OF Suc.prems(1) l_def r_def]
  have lines: "lines_from (Suc m) (drop prev v)
      = (if l = [] then [] else [l]) @ (if r = [] then [] else lines_from m (tl r))"
    unfolding lines_from_step Let_def l_def r_def ..
  have o: "unat (we_offset (word_entry_at prev (length l))) = prev"
    using offset_of_entry Suc.prems(1) assms(1) by simp
  show ?case
  proof (cases "l \<noteq> [] \<and> i = 0")
    case True
    then have "off = prev" using Suc.prems(4) step(1) o by simp
    then show ?thesis
      using True Suc.prems(1,2) by (auto intro!: exI [of _ "Suc m"] simp del: lines_from.simps)
  next
    case False
    define k where "k = (if l = [] then i else i - 1)"
    define nxt where "nxt = prev + length l + 1"
    have r: "r \<noteq> []" using Suc.prems(3) False step(1) by (auto split: if_splits)
    then have ws: "words_loop v prev = (if l = [] then [] else [word_entry_at prev (length l)]) @ words_loop v nxt"
      using step(1) by (simp add: nxt_def)
    have k: "k < length (words_loop v nxt)" "words_loop v prev ! i = words_loop v nxt ! k"
        "drop i (words_loop v prev) = drop k (words_loop v nxt)"
      using Suc.prems(3) False unfolding ws by (auto simp: k_def nth_Cons' drop_Cons')
    have n: "r = newline # drop nxt v" "nxt \<le> length v" "length v - nxt < m"
      using step(3) [OF r] Suc.prems(2) by (auto simp: nxt_def)
    have "drop i (lines_from (Suc m) (drop prev v)) = drop k (lines_from m (drop nxt v))"
      unfolding lines using r n(1) False by (auto simp: k_def drop_Cons')
    then have "nxt \<le> off \<and> off \<le> length v \<and> words_loop v off = drop k (words_loop v nxt)
        \<and> (\<exists>m'. length v - off < m' \<and> lines_from m' (drop off v) = drop i (lines_from (Suc m) (drop prev v)))"
      using Suc.IH [OF n(2,3) k(1)] k Suc.prems(4) by simp
    then show ?thesis using k(3) by (auto simp: nxt_def)
  qed
qed simp

text \<open>The text between two entries is the encoding of a text that contains the words between them.\<close>

definition words_end :: "string \<Rightarrow> word_entry list \<Rightarrow> nat \<Rightarrow> nat" where
  "words_end v es i = (if i < length es then unat (we_offset (es ! i)) else length v)"

lemma newline_bytes: "to_bytes [10] = [newline]"
  unfolding newline_def by code_simp

lemma words_segment:
  assumes "length v < 2 ^ 32" "prev \<le> length v" "length v - prev < n"
    "lines_from n (drop prev v) = map to_bytes ws" "list_all (list_all scalar) ws"
  shows "\<exists>cs. list_all scalar cs \<and> take (words_end v (words_loop v prev) i - prev) (drop prev v) = to_bytes cs
    \<and> (\<forall>w \<in> set (take i ws). set w \<subseteq> set cs)"
  using assms(2-)
proof (induction n arbitrary: prev i ws)
  case (Suc m)
  define l where "l = takeWhile (\<lambda>c. c \<noteq> newline) (drop prev v)"
  define r where "r = dropWhile (\<lambda>c. c \<noteq> newline) (drop prev v)"
  note step = words_loop_step [OF Suc.prems(1) l_def r_def]
  have lines: "map to_bytes ws = (if l = [] then [] else [l]) @ (if r = [] then [] else lines_from m (tl r))"
    unfolding Suc.prems(3) [symmetric] lines_from_step Let_def l_def r_def ..
  obtain w where w: "l = to_bytes w" "list_all scalar w" "l \<noteq> [] \<Longrightarrow> ws = w # tl ws"
  proof (cases "l = []")
    case True
    then show ?thesis using that [of "[]"] by simp
  next
    case False
    then obtain x xs where "ws = x # xs" "to_bytes x = l" using lines by (cases ws) auto
    then show ?thesis using that [of x] Suc.prems(4) by simp
  qed
  define rest where "rest = (if l = [] then ws else tl ws)"
  have ws: "ws = (if l = [] then [] else [w]) @ rest" using w(3) by (simp add: rest_def)
  have ro: "map to_bytes rest = (if r = [] then [] else lines_from m (tl r))" "list_all (list_all scalar) rest"
    using lines Suc.prems(4) ws by (auto split: if_splits)
  have o: "unat (we_offset (word_entry_at prev (length l))) = prev"
    using offset_of_entry Suc.prems(1) assms(1) by simp
  show ?case
  proof (cases "l \<noteq> [] \<and> i = 0")
    case True
    then have "words_end v (words_loop v prev) i = prev" using step(1) o by (simp add: words_end_def)
    then show ?thesis using True by (intro exI [of _ "[]"]) simp
  next
    case False
    define k where "k = (if l = [] then i else i - 1)"
    show ?thesis
    proof (cases "r = []")
      case True
      then have "words_end v (words_loop v prev) i = length v" using False step(1) by (auto simp: words_end_def)
      moreover have "drop prev v = to_bytes w" using True step(2) w(1) by simp
      moreover from this have "length (to_bytes w) = length v - prev" by (metis length_drop)
      moreover have "ws = (if l = [] then [] else [w])" using ws ro(1) True by simp
      ultimately show ?thesis using w(2) by (intro exI [of _ w]) (auto dest: in_set_takeD)
    next
      case r: False
      define nxt where "nxt = prev + length l + 1"
      have n: "r = newline # drop nxt v" "nxt \<le> length v" "length v - nxt < m"
        using step(3) [OF r] Suc.prems(2) by (auto simp: nxt_def)
      have e: "words_end v (words_loop v prev) i = words_end v (words_loop v nxt) k"
        using False r step(1) by (auto simp: words_end_def k_def nxt_def nth_Cons')
      define e where "e = words_end v (words_loop v nxt) k"
      have "nxt \<le> e"
        using words_loop_suffix [OF assms(1) n(2,3) _ refl] n(2) by (auto simp: e_def words_end_def)
      then have "e - prev = length l + Suc (e - nxt)" by (simp add: nxt_def)
      moreover have "drop prev v = l @ newline # drop nxt v" using step(2) n(1) by simp
      ultimately have t: "take (e - prev) (drop prev v) = l @ newline # take (e - nxt) (drop nxt v)"
        by simp
      have "lines_from m (drop nxt v) = map to_bytes rest" using ro(1) r n(1) by simp
      then obtain cs where cs: "list_all scalar cs" "take (e - nxt) (drop nxt v) = to_bytes cs"
          "\<forall>w \<in> set (take k rest). set w \<subseteq> set cs"
        using Suc.IH [OF n(2,3) _ ro(2), of k] unfolding e_def by auto
      have "take (e - prev) (drop prev v) = to_bytes (w @ [10] @ cs)"
        unfolding t cs(2) to_bytes_append newline_bytes w(1) by simp
      moreover have "list_all scalar (w @ [10] @ cs)" using w(2) cs(1) by (simp add: scalar_def)
      moreover have "\<forall>x \<in> set (take i ws). set x \<subseteq> set (w @ [10] @ cs)"
        using cs(3) False ws by (cases i) (auto simp: k_def split: if_splits)
      ultimately show ?thesis unfolding e e_def [symmetric] by blast
    qed
  qed
qed simp

lemma vocabulary_sub_bytes:
  assumes "vocabulary_fits v" "vocabulary_words v = map to_bytes ws" "list_all (list_all scalar) ws"
    "i < length ws"
  shows "\<exists>cs. from_bytes (vocabulary_sub v (initialize_words v) i) = Inr cs
    \<and> (\<forall>w \<in> set (take 1024 (drop i ws)). set w \<subseteq> set cs)"
proof -
  have l: "length v < 2 ^ 32" using assms(1) by (simp add: vocabulary_fits_def)
  define es where "es = initialize_words v"
  have m: "map (word_from_entry v) es = map to_bytes ws"
    using initialize_words_lines(1) [OF assms(1)] assms(2) by (simp add: es_def)
  have i: "i < length es" using assms(4) m by (metis length_map)
  define off where "off = unat (we_offset (es ! i))"
  obtain m where s: "off \<le> length v" "words_loop v off = drop i es" "length v - off < m"
      "lines_from m (drop off v) = drop i (map to_bytes ws)"
    using words_loop_suffix [OF l, of 0 "length v + 1" i off] i assms(2)
    by (auto simp: off_def es_def initialize_words_def vocabulary_words_def)
  obtain cs where cs: "list_all scalar cs" "\<forall>w \<in> set (take 1024 (drop i ws)). set w \<subseteq> set cs"
      "take (words_end v (drop i es) 1024 - off) (drop off v) = to_bytes cs"
    using words_segment [OF l s(1,3), of "drop i ws" 1024] s(2,4) assms(3)
    by (auto simp: drop_map list_all_iff dest: in_set_dropD)
  have "words_end v (drop i es) 1024 = (if i + 1024 < length es then unat (we_offset (es ! (i + 1024))) else length v)"
    by (auto simp: words_end_def)
  then have "vocabulary_sub v es i = to_bytes cs"
    using cs(3) by (simp add: vocabulary_sub_def off_def Let_def)
  then show ?thesis using from_to_bytes [of cs] cs(1,2) by (auto simp: es_def list_all_iff)
qed

lemma all_chars_loop_correct:
  assumes "vocabulary_fits v" "vocabulary_words v = map to_bytes ws" "list_all (list_all scalar) ws"
    "words = initialize_words v"
  shows "\<exists>chars'. all_chars_loop v words i chars = Inr chars' \<and> chars \<subseteq> chars'
    \<and> (\<forall>w \<in> set (drop i ws). set w \<subseteq> chars')"
  using assms
proof (induction v words i chars rule: all_chars_loop.induct)
  case (1 v words i chars)
  have "length words = length ws"
    using arg_cong [OF initialize_words_lines(1) [OF "1.prems"(1)], of length] "1.prems"(2,4) by simp
  show ?case
  proof (cases "i < length words")
    case True
    obtain cs where cs: "from_bytes (vocabulary_sub v words i) = Inr cs"
        "\<forall>w \<in> set (take 1024 (drop i ws)). set w \<subseteq> set cs"
      using vocabulary_sub_bytes [OF "1.prems"(1-3), of i] True \<open>length words = length ws\<close> "1.prems"(4) by auto
    then obtain chars' where c: "all_chars_loop v words (i + 1024) (chars \<union> set cs) = Inr chars'"
        "chars \<union> set cs \<subseteq> chars'" "\<forall>w \<in> set (drop (i + 1024) ws). set w \<subseteq> chars'"
      using "1.IH" [OF True cs(1)] "1.prems" by auto
    have "set (drop i ws) = set (take 1024 (drop i ws)) \<union> set (drop (i + 1024) ws)"
      by (metis append_take_drop_id drop_drop add.commute set_append)
    moreover have "all_chars_loop v words i chars = Inr chars'"
      using True cs(1) c(1) all_chars_loop.simps [of v words i chars] by simp
    ultimately show ?thesis using cs(2) c(2,3) by blast
  next
    case False
    then show ?thesis
      using all_chars_loop.simps [of v words i chars] \<open>length words = length ws\<close> by simp
  qed
qed

lemma initialize_all_chars_correct:
  assumes "vocabulary_fits v" "vocabulary_words v = map to_bytes ws" "list_all (list_all scalar) ws"
    "\<forall>w \<in> set ws. 10 \<notin> set w \<and> 13 \<notin> set w"
  shows "\<exists>chars. initialize_all_chars v (initialize_words v) = Inr chars \<and> (\<forall>w \<in> set ws. set w \<subseteq> chars)"
  using all_chars_loop_correct [OF assms(1-3) refl, of 0 "{}"] assms(4)
  by (auto simp: initialize_all_chars_def)

lemma new_regex_index_for:
  assumes "vocabulary_fits v" "vocabulary_words v = map to_bytes ws" "list_all (list_all scalar) ws"
    "\<forall>w \<in> set ws. 10 \<notin> set w \<and> 13 \<notin> set w" "distinct ws" "ws \<noteq> []" "length ws < 2 ^ 30"
  shows "\<exists>idx. new_regex_index v = Some (Inr idx) \<and> index_for idx ws"
proof -
  have l: "length (initialize_words v) = length ws"
    using arg_cong [OF initialize_words_lines(1) [OF assms(1)], of length] assms(2) by simp
  obtain k table where k: "k < 32" "initialize_word_hash_table v (initialize_words v) = Some table"
      "table_inv (2 ^ k) (vocabulary_words v) table"
    using table_built [OF assms(1) refl] assms(6,7) unfolding l by auto
  obtain chars where "initialize_all_chars v (initialize_words v) = Inr chars" "\<forall>w \<in> set ws. set w \<subseteq> chars"
    using initialize_all_chars_correct [OF assms(1-4)] by blast
  then show ?thesis
    using assms k by (auto simp: new_regex_index_def Let_def index_for_def list_all_iff)
qed

section \<open>Properties\<close>

lemma reject_all_lang: "reject_all us \<Longrightarrow> sets_fit us \<Longrightarrow> rq_lang us = {}"
  using combinations_bound [of us] by (auto simp: reject_all_def)

lemma combinations_few: "combinations_upper_bound q < 1000 \<Longrightarrow> combinations_upper_bound q \<noteq> UINT32_MAX"
  by (auto simp: word_less_nat_alt)

lemma literal_matching:
  assumes "index_for idx ws" "combinations_upper_bound (optimize_query (ri_all_chars idx) us) < 1000" "sets_fit us"
  shows "matching ws (map literal_unit us) = matching ws us"
  using literal_lang_finite [OF assms(2,3)] assms(1)
  by (auto simp: matching_def index_for_def intro!: arg_cong [of _ _ "map to_bytes"] filter_cong)


lemma ex_vocabulary:
  shows "vocabulary_words (''big'' @ [newline] @ ''cat'') = map to_bytes [[98, 105, 103], [99, 97, 116]]"
    and "vocabulary_fits (''big'' @ [newline] @ ''cat'')"
proof -
  have v: "vocabulary_words (''big'' @ [newline] @ ''cat'') = [''big'', ''cat'']" by code_simp
  moreover have "to_bytes [98, 105, 103] = ''big''" "to_bytes [99, 97, 116] = ''cat''" by code_simp+
  ultimately show "vocabulary_words (''big'' @ [newline] @ ''cat'') = map to_bytes [[98, 105, 103], [99, 97, 116]]"
    by simp
  show "vocabulary_fits (''big'' @ [newline] @ ''cat'')" using v by (simp add: vocabulary_fits_def)
qed




end
