(* ===== verification/Postlists.thy ===== *)
theory Postlists
  imports Inverted_Index Phrase_Corpus
begin

text \<open>
  Posting lists of \<open>src/netspeak/invertedindex\<close>: the traits of the values, \<open>Iterator.hpp\<close> with the
  pages that are swapped in from a file, \<open>RawPostlist\<close>, \<open>Postlist\<close> and \<open>PostlistBuilder\<close>.

  A file is the list of its bytes; a stream is a file with a position.  \<open>None\<close> is undefined
  behaviour (an access through a null stream), \<open>Inl\<close> an exception.
\<close>

section \<open>Values\<close>

record 'v value_traits =
  vt_put :: "'v \<Rightarrow> u8 list"
  vt_get :: "u8 list \<Rightarrow> 'v"

definition size_of :: "'v value_traits \<Rightarrow> 'v \<Rightarrow> nat" where
  "size_of t v = length (vt_put t v)"

text \<open>Reading a value from where it was written, whatever follows.\<close>

definition traits_ok :: "'v value_traits \<Rightarrow> bool" where
  "traits_ok t \<longleftrightarrow> (\<forall>v rest. vt_get t (vt_put t v @ rest) = v)"

text \<open>\<open>value::pair<uint32_t, uint32_t>\<close>, the values of both indexes.\<close>

definition pair_put :: "u32 \<times> u32 \<Rightarrow> u8 list" where
  "pair_put v = le_bytes 4 (unat (fst v)) @ le_bytes 4 (unat (snd v))"

definition pair_get :: "u8 list \<Rightarrow> u32 \<times> u32" where
  "pair_get buffer = (of_nat (le_value (take 4 buffer)), of_nat (le_value (take 4 (drop 4 buffer))))"

definition pair_traits :: "(u32 \<times> u32) value_traits" where
  "pair_traits = \<lparr>vt_put = pair_put, vt_get = pair_get\<rparr>"

lemma pair_traits_ok: "traits_ok pair_traits"
  by (simp add: traits_ok_def pair_traits_def pair_put_def pair_get_def)

lemma pair_size [simp]: "size_of pair_traits v = 8"
  by (simp add: size_of_def pair_traits_def pair_put_def)

section \<open>Computations with exceptions and undefined behaviour\<close>

definition obind :: "'a result option \<Rightarrow> ('a \<Rightarrow> 'b result option) \<Rightarrow> 'b result option" where
  "obind r f = (case r of None \<Rightarrow> None | Some (Inl e) \<Rightarrow> Some (Inl e) | Some (Inr x) \<Rightarrow> f x)"

lemma obind_simps [simp]:
  "obind None f = None" "obind (Some (Inl e)) f = Some (Inl e)" "obind (Some (Inr x)) f = f x"
  by (simp_all add: obind_def)

lemma obind_eq_Inr: "obind r f = Some (Inr y) \<longleftrightarrow> (\<exists>x. r = Some (Inr x) \<and> f x = Some (Inr y))"
  by (auto simp: obind_def split: option.splits sum.splits)

lemma obind_cong [fundef_cong]:
  "r = r' \<Longrightarrow> (\<And>x. r' = Some (Inr x) \<Longrightarrow> f x = g x) \<Longrightarrow> obind r f = obind r' g"
  by (auto simp: obind_def split: option.splits sum.splits)

section \<open>Iterators\<close>

text \<open>\<open>constant_size_iter\<close> with the number and the size of the values, \<open>variable_size_iter\<close> with their sizes.\<close>

datatype layout = ConstantSize nat nat | VariableSize "u32 list"

text \<open>\<open>swap_type\<close>: the file, its position, the position where the values begin and the size of a page.\<close>

record swap_stream =
  sw_file :: "u8 list"
  sw_pos :: nat
  sw_offset :: nat
  sw_pagesize :: nat

record iterator =
  it_layout :: layout
  it_buffer :: "u8 list"
  it_begin :: nat
  it_end :: nat
  it_cur :: nat
  it_offset :: nat
  it_swap :: "swap_stream option"

definition page_iter :: "layout \<Rightarrow> u8 list \<Rightarrow> iterator" where
  "page_iter l buffer = \<lparr>it_layout = l, it_buffer = buffer, it_begin = 0,
     it_end = (case l of ConstantSize n s \<Rightarrow> n | VariableSize ss \<Rightarrow> length ss), it_cur = 0, it_offset = 0, it_swap = None\<rparr>"

definition swap_iter :: "layout \<Rightarrow> swap_stream \<Rightarrow> iterator" where
  "swap_iter l sw = \<lparr>it_layout = l, it_buffer = [], it_begin = 0, it_end = 0, it_cur = 0, it_offset = 0, it_swap = Some sw\<rparr>"

definition it_size :: "iterator \<Rightarrow> nat" where
  "it_size it = (case it_layout it of ConstantSize n s \<Rightarrow> n | VariableSize ss \<Rightarrow> length ss)"

text \<open>\<open>byte_size\<close>; \<open>std::accumulate\<close> with the initial value 0 sums in an \<open>int\<close>.\<close>

definition it_byte_size :: "iterator \<Rightarrow> u64" where
  "it_byte_size it =
    (case it_layout it of
       ConstantSize n s \<Rightarrow> of_nat (n * s)
     | VariableSize ss \<Rightarrow> of_nat (length ss * 4) + scast (sum_list ss))"

definition read_stream :: "nat \<Rightarrow> swap_stream \<Rightarrow> (u8 list \<times> swap_stream) result" where
  "read_stream n sw =
    (if length (sw_file sw) < sw_pos sw + n then Inl (RuntimeError ''std::fread failed'')
     else Inr (take n (drop (sw_pos sw) (sw_file sw)), sw\<lparr>sw_pos := sw_pos sw + n\<rparr>))"

text \<open>The loop of \<open>variable_size_iter::swap\<close>: the number of values of the next page and their bytes.\<close>

fun variable_page :: "nat \<Rightarrow> u32 list \<Rightarrow> nat \<Rightarrow> nat \<Rightarrow> nat \<times> nat" where
  "variable_page pagesize [] n bytes = (n, bytes)"
| "variable_page pagesize (s # ss) n bytes =
    (let bytes = bytes + unat s
     in if bytes > pagesize then (Suc n, bytes) else variable_page pagesize ss (Suc n) bytes)"

definition page_values :: "layout \<Rightarrow> nat \<Rightarrow> nat \<Rightarrow> nat \<times> nat" where
  "page_values l index_end pagesize =
    (case l of
       ConstantSize m s \<Rightarrow> (let n = min (m - index_end) (pagesize div s) in (n, n * s))
     | VariableSize ss \<Rightarrow> variable_page pagesize (drop index_end ss) 0 0)"

definition it_swap_in :: "iterator \<Rightarrow> (nat \<times> iterator) result option" where
  "it_swap_in it =
    (case it_swap it of
       None \<Rightarrow> None
     | Some sw \<Rightarrow>
         (let (n, bytes) = page_values (it_layout it) (it_end it) (sw_pagesize sw)
          in if n = 0 then Some (Inr (0, it))
             else Some (rbind (read_stream bytes sw) (\<lambda>(buffer, sw).
               Inr (n, it\<lparr>it_offset := 0, it_buffer := buffer, it_begin := it_end it, it_cur := it_end it,
                 it_end := it_end it + n, it_swap := Some sw\<rparr>)))))"

text \<open>\<open>next\<close>: \<open>None\<close> at the end, else the bytes of the page from the position of the value on.\<close>

definition it_position :: "iterator \<Rightarrow> nat" where
  "it_position it =
    (case it_layout it of
       ConstantSize n s \<Rightarrow> (it_cur it - it_begin it) * s
     | VariableSize ss \<Rightarrow> it_offset it)"

definition it_step :: "iterator \<Rightarrow> iterator" where
  "it_step it = it\<lparr>it_cur := Suc (it_cur it),
     it_offset := it_offset it + (case it_layout it of ConstantSize n s \<Rightarrow> 0 | VariableSize ss \<Rightarrow> unat (ss ! it_cur it))\<rparr>"

definition it_next :: "iterator \<Rightarrow> (u8 list option \<times> iterator) result option" where
  "it_next it =
    (if it_cur it = it_size it then Some (Inr (None, it))
     else obind (if it_cur it = it_end it then it_swap_in it else Some (Inr (0, it))) (\<lambda>(n, it).
       if it_position it > length (it_buffer it)
       then Some (Inl (LogicError (''ByteBuffer::seek failed : '' @ show_nat (it_position it))))
       else Some (Inr (Some (drop (it_position it) (it_buffer it)), it_step it))))"

definition it_rewind :: "iterator \<Rightarrow> iterator" where
  "it_rewind it =
    (case it_swap it of
       None \<Rightarrow> it\<lparr>it_offset := 0, it_cur := 0\<rparr>
     | Some sw \<Rightarrow> it\<lparr>it_offset := 0, it_cur := 0, it_begin := 0, it_end := 0, it_buffer := [],
         it_swap := Some (sw\<lparr>sw_pos := sw_offset sw\<rparr>)\<rparr>)"

lemma variable_page_range: "n \<le> fst (variable_page pagesize ss n bytes) \<and> fst (variable_page pagesize ss n bytes) \<le> n + length ss"
proof (induction pagesize ss n bytes rule: variable_page.induct)
  case (2 pagesize s ss n bytes)
  then show ?case by (cases "pagesize < bytes + unat s") (auto simp: Let_def)
qed simp

lemma page_values_range: "fst (page_values (it_layout it) (it_end it) pagesize) \<le> it_size it - it_end it"
proof (cases "it_layout it")
  case (VariableSize ss)
  then show ?thesis using variable_page_range [of 0 pagesize "drop (it_end it) ss" 0] by (simp add: page_values_def it_size_def)
qed (simp add: page_values_def it_size_def Let_def)

lemma it_swap_in_fields:
  assumes "it_swap_in it = Some (Inr (n, it'))"
  shows "it_layout it' = it_layout it" "n = 0 \<Longrightarrow> it' = it" "it_end it' = it_end it + n" "n \<le> it_size it - it_end it"
    "n \<noteq> 0 \<Longrightarrow> it_begin it' = it_end it \<and> it_cur it' = it_end it \<and> it_offset it' = 0"
proof -
  obtain sw where sw: "it_swap it = Some sw" using assms by (cases "it_swap it") (auto simp: it_swap_in_def)
  obtain m b where m: "page_values (it_layout it) (it_end it) (sw_pagesize sw) = (m, b)" by fastforce
  then have "m \<le> it_size it - it_end it" using page_values_range [of it "sw_pagesize sw"] by simp
  then show "it_layout it' = it_layout it" "n = 0 \<Longrightarrow> it' = it" "it_end it' = it_end it + n" "n \<le> it_size it - it_end it"
    "n \<noteq> 0 \<Longrightarrow> it_begin it' = it_end it \<and> it_cur it' = it_end it \<and> it_offset it' = 0"
    using assms m by (auto simp: it_swap_in_def sw split: if_splits)
qed

text \<open>The loop of \<open>write\<close> over the pages.\<close>

function it_write_loop :: "iterator \<Rightarrow> (u8 list \<times> iterator) result option" where
  "it_write_loop it =
    obind (it_swap_in it) (\<lambda>(n, it).
      if n = 0 then Some (Inr ([], it))
      else obind (it_write_loop it) (\<lambda>(out, it'). Some (Inr (it_buffer it @ out, it'))))"
  by pat_completeness auto
termination
proof (relation "measure (\<lambda>it. it_size it - it_end it)")
  fix it x n it'
  assume "it_swap_in it = Some (Inr x)" "(n, it') = x" "n \<noteq> 0"
  then have "it_swap_in it = Some (Inr (n, it'))" "n \<noteq> 0" by auto
  note f = it_swap_in_fields [OF this(1)]
  have "it_size it' = it_size it" by (simp add: it_size_def f(1))
  then show "(it', it) \<in> measure (\<lambda>it. it_size it - it_end it)" using f(3,4) \<open>n \<noteq> 0\<close> by simp
qed simp

declare it_write_loop.simps [simp del]

definition it_write :: "iterator \<Rightarrow> (u8 list \<times> iterator) result option" where
  "it_write it =
    (let it = it_rewind it;
         sizes = (case it_layout it of ConstantSize n s \<Rightarrow> [] | VariableSize ss \<Rightarrow> concat (map (\<lambda>s. le_bytes 4 (unat s)) ss))
     in case it_swap it of
          None \<Rightarrow> Some (Inr (sizes @ it_buffer it, it))
        | Some sw \<Rightarrow> obind (it_write_loop it) (\<lambda>(out, it). Some (Inr (sizes @ out, it))))"

section \<open>What an iterator holds\<close>

definition bytes_of_values :: "'v value_traits \<Rightarrow> 'v list \<Rightarrow> u8 list" where
  "bytes_of_values t vs = concat (map (vt_put t) vs)"

definition layout_ok :: "'v value_traits \<Rightarrow> layout \<Rightarrow> 'v list \<Rightarrow> bool" where
  "layout_ok t l vs =
    (case l of
       ConstantSize n s \<Rightarrow> n = length vs \<and> list_all (\<lambda>v. size_of t v = s) vs
     | VariableSize ss \<Rightarrow> map unat ss = map (size_of t) vs)"

text \<open>
  The invariant: the buffer has the values from \<open>it_begin\<close> to \<open>it_end\<close>, the current value is one of
  them or the next, and the file has the values from \<open>it_end\<close> on at its position.
\<close>

definition iter_ok :: "'v value_traits \<Rightarrow> 'v list \<Rightarrow> iterator \<Rightarrow> bool" where
  "iter_ok t vs it \<longleftrightarrow> layout_ok t (it_layout it) vs
    \<and> it_begin it \<le> it_cur it \<and> it_cur it \<le> it_end it \<and> it_end it \<le> length vs
    \<and> it_buffer it = bytes_of_values t (drop (it_begin it) (take (it_end it) vs))
    \<and> (case it_layout it of ConstantSize n s \<Rightarrow> True
         | VariableSize ss \<Rightarrow> it_offset it = length (bytes_of_values t (drop (it_begin it) (take (it_cur it) vs))))
    \<and> (case it_swap it of
         None \<Rightarrow> it_begin it = 0 \<and> it_end it = length vs
       | Some sw \<Rightarrow>
           (\<exists>pre rest. sw_file sw = pre @ bytes_of_values t vs @ rest \<and> length pre = sw_offset sw)
           \<and> sw_pos sw = sw_offset sw + length (bytes_of_values t (take (it_end it) vs))
           \<and> (case it_layout it of ConstantSize n s \<Rightarrow> vs \<noteq> [] \<longrightarrow> 0 < s \<and> s \<le> sw_pagesize sw | VariableSize ss \<Rightarrow> True))"

lemma bytes_of_values_append [simp]: "bytes_of_values t (xs @ ys) = bytes_of_values t xs @ bytes_of_values t ys"
  by (simp add: bytes_of_values_def)

lemma bytes_of_values_Cons [simp]: "bytes_of_values t (x # xs) = vt_put t x @ bytes_of_values t xs"
  by (simp add: bytes_of_values_def)

lemma bytes_of_values_Nil [simp]: "bytes_of_values t [] = []"
  by (simp add: bytes_of_values_def)

lemma layout_size: "layout_ok t l vs \<Longrightarrow> (case l of ConstantSize n s \<Rightarrow> n | VariableSize ss \<Rightarrow> length ss) = length vs"
  by (auto simp: layout_ok_def split: layout.splits dest: map_eq_imp_length_eq)

lemma iter_ok_size: "iter_ok t vs it \<Longrightarrow> it_size it = length vs"
  using layout_size [of t "it_layout it" vs] by (simp add: iter_ok_def it_size_def)

lemma iter_ok_layout: "iter_ok t vs it \<Longrightarrow> layout_ok t (it_layout it) vs"
  by (simp add: iter_ok_def)

lemma iter_ok_pagesize:
  "iter_ok t vs it \<Longrightarrow> it_swap it = Some sw \<Longrightarrow> it_layout it = ConstantSize n s \<Longrightarrow> vs \<noteq> [] \<Longrightarrow> 0 < s \<and> s \<le> sw_pagesize sw"
  by (simp add: iter_ok_def)

lemma constant_bytes: "list_all (\<lambda>v. size_of t v = s) vs \<Longrightarrow> length (bytes_of_values t vs) = length vs * s"
  by (induction vs) (auto simp: size_of_def)

lemma variable_page_bytes:
  assumes "map unat ss = map (size_of t) vs" "variable_page pagesize ss n bytes = (m, b)"
  shows "\<exists>k. m = n + k \<and> k \<le> length vs \<and> (vs \<noteq> [] \<longrightarrow> 0 < k) \<and> b = bytes + length (bytes_of_values t (take k vs))"
  using assms
proof (induction pagesize ss n bytes arbitrary: vs rule: variable_page.induct)
  case (2 pagesize s ss n bytes)
  then obtain v us where v: "vs = v # us" "unat s = size_of t v" "map unat ss = map (size_of t) us" by (cases vs) auto
  show ?case
  proof (cases "bytes + unat s > pagesize")
    case True
    then show ?thesis using 2 v by (intro exI [of _ 1]) (auto simp: size_of_def Let_def)
  next
    case False
    then have "variable_page pagesize ss (Suc n) (bytes + unat s) = (m, b)" using "2.prems"(2) by (simp add: Let_def)
    from "2.IH" [OF refl False v(3) this] obtain k where
      "m = Suc n + k" "k \<le> length us" "b = bytes + unat s + length (bytes_of_values t (take k us))" by blast
    then show ?thesis using v by (intro exI [of _ "Suc k"]) (simp add: size_of_def)
  qed
qed simp

lemma page_values_bytes:
  assumes "iter_ok t vs it" "it_swap it = Some sw" "page_values (it_layout it) (it_end it) (sw_pagesize sw) = (n, bytes)"
  shows "n \<le> length vs - it_end it" "bytes = length (bytes_of_values t (take n (drop (it_end it) vs)))"
    "it_end it < length vs \<Longrightarrow> 0 < n"
proof -
  have "n \<le> length vs - it_end it \<and> bytes = length (bytes_of_values t (take n (drop (it_end it) vs))) \<and> (it_end it < length vs \<longrightarrow> 0 < n)"
  proof (cases "it_layout it")
    case (ConstantSize c s)
    then have l: "c = length vs" "list_all (\<lambda>v. size_of t v = s) vs"
      using iter_ok_layout [OF assms(1)] by (simp_all add: layout_ok_def)
    have p: "vs \<noteq> [] \<longrightarrow> 0 < s \<and> s \<le> sw_pagesize sw" using iter_ok_pagesize [OF assms(1,2) ConstantSize] by blast
    have n: "n = min (length vs - it_end it) (sw_pagesize sw div s)" "bytes = n * s"
      using assms(3) ConstantSize l(1) by (auto simp: page_values_def Let_def)
    have "list_all (\<lambda>v. size_of t v = s) (take n (drop (it_end it) vs))"
      using l(2) by (auto simp: list_all_iff dest!: in_set_takeD in_set_dropD)
    from constant_bytes [OF this] have "bytes = length (bytes_of_values t (take n (drop (it_end it) vs)))" using n by simp
    moreover have "0 < sw_pagesize sw div s" if "vs \<noteq> []" using p that by (simp add: div_greater_zero_iff)
    ultimately show ?thesis using n(1) by (cases "vs = []") simp_all
  next
    case (VariableSize ss)
    then have "map unat ss = map (size_of t) vs" using iter_ok_layout [OF assms(1)] by (simp add: layout_ok_def)
    then have d: "map unat (drop (it_end it) ss) = map (size_of t) (drop (it_end it) vs)" by (metis drop_map)
    have "variable_page (sw_pagesize sw) (drop (it_end it) ss) 0 0 = (n, bytes)"
      using assms(3) VariableSize by (simp add: page_values_def)
    from variable_page_bytes [OF d this] show ?thesis by auto
  qed
  then show "n \<le> length vs - it_end it" "bytes = length (bytes_of_values t (take n (drop (it_end it) vs)))"
    "it_end it < length vs \<Longrightarrow> 0 < n" by blast+
qed

lemma bytes_take_drop:
  "m \<le> n \<Longrightarrow> bytes_of_values t (take n vs) = bytes_of_values t (take m vs) @ bytes_of_values t (drop m (take n vs))"
  by (metis append_take_drop_id bytes_of_values_append min.absorb1 take_take)

lemma swap_in_ok:
  assumes "iter_ok t vs it" "it_swap it = Some sw"
  shows "\<exists>n it' sw'. it_swap_in it = Some (Inr (n, it')) \<and> iter_ok t vs it' \<and> it_layout it' = it_layout it
    \<and> it_swap it' = Some sw' \<and> it_end it' = it_end it + n \<and> (it_end it < length vs \<longrightarrow> 0 < n)
    \<and> (n = 0 \<longrightarrow> it' = it) \<and> (n \<noteq> 0 \<longrightarrow> it_begin it' = it_end it \<and> it_cur it' = it_end it)"
proof -
  obtain n b where n: "page_values (it_layout it) (it_end it) (sw_pagesize sw) = (n, b)" by fastforce
  note p = page_values_bytes [OF assms(1,2) n]
  let ?e = "it_end it"
  have e: "?e \<le> length vs" using assms(1) by (simp add: iter_ok_def)
  obtain pre rest where f: "sw_file sw = pre @ bytes_of_values t vs @ rest" "length pre = sw_offset sw"
      "sw_pos sw = sw_offset sw + length (bytes_of_values t (take ?e vs))"
    using assms(1,2) by (auto simp: iter_ok_def)
  show ?thesis
  proof (cases "n = 0")
    case True
    moreover have "\<not> it_end it < length vs" using p(3) True by blast
    ultimately show ?thesis using assms n by (simp add: it_swap_in_def)
  next
    case False
    have v: "vs = take ?e vs @ take n (drop ?e vs) @ drop (?e + n) vs"
      by (metis append_take_drop_id drop_drop add.commute)
    have bv: "bytes_of_values t vs = bytes_of_values t (take ?e vs) @ bytes_of_values t (take n (drop ?e vs)) @ bytes_of_values t (drop (?e + n) vs)"
      by (subst v) (simp only: bytes_of_values_append)
    have t: "take (?e + n) vs = take ?e vs @ take n (drop ?e vs)" by (rule take_add)
    have d: "drop (sw_pos sw) (sw_file sw) = bytes_of_values t (take n (drop ?e vs)) @ bytes_of_values t (drop (?e + n) vs) @ rest"
      unfolding f(1,3) bv using f(2) by simp
    have l: "length (sw_file sw) = sw_pos sw + b + length (bytes_of_values t (drop (?e + n) vs) @ rest)"
      unfolding f(1,3) bv using f(2) p(2) by simp
    define sw' where "sw' = sw\<lparr>sw_pos := sw_pos sw + b\<rparr>"
    define it' where "it' = it\<lparr>it_offset := 0, it_buffer := bytes_of_values t (take n (drop ?e vs)), it_begin := ?e, it_cur := ?e,
        it_end := ?e + n, it_swap := Some sw'\<rparr>"
    have "read_stream b sw = Inr (bytes_of_values t (take n (drop ?e vs)), sw')"
      using l p(2) by (simp add: read_stream_def d sw'_def)
    then have s: "it_swap_in it = Some (Inr (n, it'))" using False n assms(2) by (simp add: it_swap_in_def it'_def)
    have "iter_ok t vs it'"
      unfolding iter_ok_def
    proof (intro conjI)
      show "layout_ok t (it_layout it') vs" using iter_ok_layout [OF assms(1)] by (simp add: it'_def)
      show "it_end it' \<le> length vs" using p(1) e by (simp add: it'_def)
      show "it_buffer it' = bytes_of_values t (drop (it_begin it') (take (it_end it') vs))" using e by (simp add: it'_def t)
      show "case it_layout it' of ConstantSize n s \<Rightarrow> True
          | VariableSize ss \<Rightarrow> it_offset it' = length (bytes_of_values t (drop (it_begin it') (take (it_cur it') vs)))"
        by (simp add: it'_def split: layout.splits)
      have "(\<exists>pre rest. sw_file sw' = pre @ bytes_of_values t vs @ rest \<and> length pre = sw_offset sw')"
        using f(1,2) by (auto simp: sw'_def)
      moreover have "sw_pos sw' = sw_offset sw' + length (bytes_of_values t (take (it_end it') vs))"
        using f(3) p(2) by (simp add: sw'_def it'_def t)
      moreover have "case it_layout it' of ConstantSize n s \<Rightarrow> vs \<noteq> [] \<longrightarrow> 0 < s \<and> s \<le> sw_pagesize sw' | VariableSize ss \<Rightarrow> True"
        using iter_ok_pagesize [OF assms(1,2)] by (simp add: it'_def sw'_def split: layout.splits)
      ultimately show "case it_swap it' of None \<Rightarrow> it_begin it' = 0 \<and> it_end it' = length vs
        | Some sw \<Rightarrow> (\<exists>pre rest. sw_file sw = pre @ bytes_of_values t vs @ rest \<and> length pre = sw_offset sw)
            \<and> sw_pos sw = sw_offset sw + length (bytes_of_values t (take (it_end it') vs))
            \<and> (case it_layout it' of ConstantSize n s \<Rightarrow> vs \<noteq> [] \<longrightarrow> 0 < s \<and> s \<le> sw_pagesize sw | VariableSize ss \<Rightarrow> True)"
        by (simp add: it'_def)
    qed (simp_all add: it'_def)
    then show ?thesis using s False p(3) by (simp add: it'_def)
  qed
qed

lemma rewind_ok:
  assumes "iter_ok t vs it"
  shows "iter_ok t vs (it_rewind it)" "it_cur (it_rewind it) = 0" "it_swap it = None \<longleftrightarrow> it_swap (it_rewind it) = None"
    "it_layout (it_rewind it) = it_layout it" "it_swap it \<noteq> None \<Longrightarrow> it_end (it_rewind it) = 0"
  using assms by (auto simp: iter_ok_def it_rewind_def split: option.splits layout.splits)

lemma write_loop_ok:
  assumes "iter_ok t vs it" "it_swap it \<noteq> None"
  shows "\<exists>it'. it_write_loop it = Some (Inr (bytes_of_values t (drop (it_end it) vs), it'))"
  using assms
proof (induction "length vs - it_end it" arbitrary: it rule: less_induct)
  case less
  then obtain sw where sw: "it_swap it = Some sw" by blast
  obtain n it' sw' where n: "it_swap_in it = Some (Inr (n, it'))" "iter_ok t vs it'" "it_swap it' = Some sw'"
      "it_end it' = it_end it + n" "it_end it < length vs \<longrightarrow> 0 < n"
      "n = 0 \<longrightarrow> it' = it" "n \<noteq> 0 \<longrightarrow> it_begin it' = it_end it \<and> it_cur it' = it_end it"
    using swap_in_ok [OF less.prems(1) sw] by blast
  show ?case
  proof (cases "n = 0")
    case True
    then have "drop (it_end it) vs = []" using n(5) by simp
    then show ?thesis using True n(1) by (simp add: it_write_loop.simps [of it])
  next
    case False
    have e: "it_end it' \<le> length vs" and b: "it_buffer it' = bytes_of_values t (drop (it_end it) (take (it_end it') vs))"
      using n(2,7) False by (simp_all add: iter_ok_def)
    have "length vs - it_end it' < length vs - it_end it" using e n(4) False by simp
    then obtain it2 where r: "it_write_loop it' = Some (Inr (bytes_of_values t (drop (it_end it') vs), it2))"
      using less.hyps n(2,3) by blast
    have "drop (it_end it) vs = drop (it_end it) (take (it_end it') vs) @ drop (it_end it') vs"
      using n(4) by (metis append_take_drop_id drop_append drop_drop le_add1 add.commute drop_take take_drop)
    then show ?thesis using False n(1) r b by (simp add: it_write_loop.simps [of it])
  qed
qed

definition size_bytes :: "layout \<Rightarrow> u8 list" where
  "size_bytes l = (case l of ConstantSize n s \<Rightarrow> [] | VariableSize ss \<Rightarrow> concat (map (\<lambda>s. le_bytes 4 (unat s)) ss))"

lemma write_ok:
  assumes "iter_ok t vs it"
  shows "\<exists>it'. it_write it = Some (Inr (size_bytes (it_layout it) @ bytes_of_values t vs, it'))"
proof (cases "it_swap it")
  case None
  then have "it_buffer (it_rewind it) = bytes_of_values t vs" using assms by (simp add: iter_ok_def it_rewind_def)
  then show ?thesis using None rewind_ok [OF assms] by (simp add: it_write_def Let_def size_bytes_def)
next
  case (Some sw)
  obtain sw' where "it_swap (it_rewind it) = Some sw'" using Some rewind_ok(3) [OF assms] by (cases "it_swap (it_rewind it)") auto
  then show ?thesis using write_loop_ok [OF rewind_ok(1) [OF assms]] rewind_ok(4,5) [OF assms] Some
    by (auto simp: it_write_def Let_def size_bytes_def)
qed

text \<open>\<open>next\<close> returns the values in order.\<close>

lemma position_ok:
  assumes "iter_ok t vs it"
  shows "it_position it = length (bytes_of_values t (drop (it_begin it) (take (it_cur it) vs)))"
proof (cases "it_layout it")
  case (ConstantSize n s)
  then have "list_all (\<lambda>v. size_of t v = s) vs" using iter_ok_layout [OF assms] by (simp add: layout_ok_def)
  then have "list_all (\<lambda>v. size_of t v = s) (drop (it_begin it) (take (it_cur it) vs))"
    by (auto simp: list_all_iff dest!: in_set_takeD in_set_dropD)
  from constant_bytes [OF this] show ?thesis using assms ConstantSize by (simp add: it_position_def iter_ok_def)
next
  case (VariableSize ss)
  then show ?thesis using assms by (simp add: it_position_def iter_ok_def)
qed

lemma drop_take_nth:
  assumes "b \<le> c" "c < e" "e \<le> length vs"
  shows "drop b (take e vs) = drop b (take c vs) @ vs ! c # drop (Suc c) (take e vs)"
proof -
  define xs where "xs = take e vs"
  have c: "c < length xs" "xs ! c = vs ! c" "take c xs = take c vs" using assms by (simp_all add: xs_def)
  have "xs = take c vs @ vs ! c # drop (Suc c) xs" using id_take_nth_drop [OF c(1)] c(2,3) by simp
  then have "drop b xs = drop b (take c vs @ vs ! c # drop (Suc c) xs)" by simp
  also have "\<dots> = drop b (take c vs) @ vs ! c # drop (Suc c) xs" using assms by simp
  finally show ?thesis by (simp only: xs_def)
qed

lemma step_ok:
  assumes "iter_ok t vs it" "it_cur it < it_end it"
  shows "\<exists>rest. drop (it_position it) (it_buffer it) = vt_put t (vs ! it_cur it) @ rest"
    "it_position it \<le> length (it_buffer it)" "iter_ok t vs (it_step it)"
proof -
  let ?b = "it_begin it" and ?c = "it_cur it" and ?e = "it_end it"
  have r: "?b \<le> ?c" "?e \<le> length vs" "it_buffer it = bytes_of_values t (drop ?b (take ?e vs))" using assms(1) by (simp_all add: iter_ok_def)
  have b: "it_buffer it = bytes_of_values t (drop ?b (take ?c vs)) @ vt_put t (vs ! ?c) @ bytes_of_values t (drop (Suc ?c) (take ?e vs))"
    unfolding r(3) drop_take_nth [OF r(1) assms(2) r(2)] by simp
  then show "\<exists>rest. drop (it_position it) (it_buffer it) = vt_put t (vs ! ?c) @ rest"
    "it_position it \<le> length (it_buffer it)"
    using position_ok [OF assms(1)] by simp_all
  have o: "it_offset (it_step it) = length (bytes_of_values t (drop ?b (take (Suc ?c) vs)))" if l: "it_layout it = VariableSize ss" for ss
  proof -
    have c: "?c < length vs" using assms(2) r(2) by simp
    have m: "map unat ss = map (size_of t) vs" using iter_ok_layout [OF assms(1)] l by (simp add: layout_ok_def)
    have "unat (ss ! ?c) = size_of t (vs ! ?c)" using arg_cong [OF m, of "\<lambda>xs. xs ! ?c"] c map_eq_imp_length_eq [OF m] by simp
    moreover have "drop ?b (take (Suc ?c) vs) = drop ?b (take ?c vs) @ [vs ! ?c]"
      using r(1) c by (simp add: take_Suc_conv_app_nth)
    ultimately show ?thesis using assms(1) l by (simp add: it_step_def iter_ok_def size_of_def)
  qed
  have "it_offset (it_step it) = it_offset it" if "it_layout it = ConstantSize n s" for n s
    using that by (simp add: it_step_def)
  show "iter_ok t vs (it_step it)"
    using assms o by (auto simp: iter_ok_def it_step_def split: layout.splits option.splits)
qed

lemma next_ok:
  assumes "iter_ok t vs it"
  shows "it_cur it = length vs \<Longrightarrow> it_next it = Some (Inr (None, it))"
    "it_cur it < length vs \<Longrightarrow> \<exists>rest it'. it_next it = Some (Inr (Some (vt_put t (vs ! it_cur it) @ rest), it'))
      \<and> iter_ok t vs it' \<and> it_cur it' = Suc (it_cur it)"
proof -
  show "it_next it = Some (Inr (None, it))" if "it_cur it = length vs"
    using that iter_ok_size [OF assms] by (simp add: it_next_def)
  show "\<exists>rest it'. it_next it = Some (Inr (Some (vt_put t (vs ! it_cur it) @ rest), it'))
      \<and> iter_ok t vs it' \<and> it_cur it' = Suc (it_cur it)" if c: "it_cur it < length vs"
  proof -
    have "\<exists>n it1. (if it_cur it = it_end it then it_swap_in it else Some (Inr (0, it))) = Some (Inr (n, it1))
      \<and> iter_ok t vs it1 \<and> it_cur it1 = it_cur it \<and> it_cur it1 < it_end it1"
    proof (cases "it_cur it = it_end it")
      case True
      then obtain sw where "it_swap it = Some sw" using assms c by (cases "it_swap it") (auto simp: iter_ok_def)
      from swap_in_ok [OF assms this] show ?thesis using True c by auto
    next
      case False
      then have "it_cur it < it_end it" using assms by (simp add: iter_ok_def)
      then show ?thesis using assms False by simp
    qed
    then obtain n it1 where n: "(if it_cur it = it_end it then it_swap_in it else Some (Inr (0, it))) = Some (Inr (n, it1))"
        "iter_ok t vs it1" "it_cur it1 = it_cur it" "it_cur it1 < it_end it1"
      by blast
    note s = step_ok [OF n(2,4)]
    have "it_cur (it_step it1) = Suc (it_cur it)" using n(3) by (simp add: it_step_def)
    then show ?thesis using s n(1,3) c iter_ok_size [OF assms] by (auto simp: it_next_def)
  qed
qed

section \<open>Posting lists\<close>

record head =
  hd_value_count :: u32
  hd_value_size :: u32
  hd_total_size :: u32

record postlist =
  pl_head :: head
  pl_iter :: iterator

definition head_bytes :: "head \<Rightarrow> u8 list" where
  "head_bytes h = le_bytes 4 (unat (hd_value_count h)) @ le_bytes 4 (unat (hd_value_size h)) @ le_bytes 4 (unat (hd_total_size h))"

definition no_head :: head where
  "no_head = \<lparr>hd_value_count = 0, hd_value_size = 0, hd_total_size = 0\<rparr>"

text \<open>The constructors.\<close>

definition no_postlist :: postlist where
  "no_postlist = \<lparr>pl_head = no_head, pl_iter = (page_iter (ConstantSize 0 0) [])\<rparr>"

definition constant_layout :: "head \<Rightarrow> layout" where
  "constant_layout h = ConstantSize (unat (hd_value_count h)) (unat (hd_value_size h))"

definition page_postlist :: "head \<Rightarrow> layout \<Rightarrow> u8 list \<Rightarrow> postlist" where
  "page_postlist h l buffer = \<lparr>pl_head = h, pl_iter = page_iter l buffer\<rparr>"

definition swap_postlist :: "head \<Rightarrow> layout \<Rightarrow> swap_stream \<Rightarrow> postlist" where
  "swap_postlist h l sw = \<lparr>pl_head = h, pl_iter = swap_iter l sw\<rparr>"

definition pl_size :: "postlist \<Rightarrow> nat" where
  "pl_size p = it_size (pl_iter p)"

definition pl_byte_size :: "postlist \<Rightarrow> u64" where
  "pl_byte_size p = 12 + it_byte_size (pl_iter p)"

definition pl_rewind :: "postlist \<Rightarrow> postlist" where
  "pl_rewind p = p\<lparr>pl_iter := it_rewind (pl_iter p)\<rparr>"

definition pl_next :: "'v value_traits \<Rightarrow> postlist \<Rightarrow> ('v option \<times> postlist) result option" where
  "pl_next t p =
    obind (it_next (pl_iter p)) (\<lambda>(buffer, it). Some (Inr (map_option (vt_get t) buffer, p\<lparr>pl_iter := it\<rparr>)))"

definition pl_write :: "postlist \<Rightarrow> (u8 list \<times> postlist) result option" where
  "pl_write p = obind (it_write (pl_iter p)) (\<lambda>(out, it). Some (Inr (head_bytes (pl_head p) @ out, p\<lparr>pl_iter := it\<rparr>)))"

text \<open>A loop \<open>while (postlist.next(value))\<close>; the fuel is the number of calls.\<close>

primrec pl_read_loop :: "nat \<Rightarrow> 'v value_traits \<Rightarrow> postlist \<Rightarrow> ('v list \<times> postlist) result option" where
  "pl_read_loop 0 t p = None"
| "pl_read_loop (Suc n) t p =
    obind (pl_next t p) (\<lambda>(v, p).
      case v of
        None \<Rightarrow> Some (Inr ([], p))
      | Some x \<Rightarrow> obind (pl_read_loop n t p) (\<lambda>(xs, p). Some (Inr (x # xs, p))))"

definition pl_values :: "'v value_traits \<Rightarrow> postlist \<Rightarrow> ('v list \<times> postlist) result option" where
  "pl_values t p = pl_read_loop (Suc (pl_size p)) t (pl_rewind p)"

text \<open>A posting list of values.\<close>

definition holds :: "'v value_traits \<Rightarrow> 'v list \<Rightarrow> postlist \<Rightarrow> bool" where
  "holds t vs p \<longleftrightarrow> iter_ok t vs (pl_iter p)
    \<and> hd_value_count (pl_head p) = of_nat (length vs)
    \<and> hd_total_size (pl_head p) = of_nat (length (bytes_of_values t vs))
    \<and> (case it_layout (pl_iter p) of
         ConstantSize n s \<Rightarrow> hd_value_size (pl_head p) = of_nat s \<and> (vs \<noteq> [] \<longrightarrow> 0 < s)
       | VariableSize ss \<Rightarrow> hd_value_size (pl_head p) = 0)"

lemma holds_iter: "holds t vs p \<Longrightarrow> iter_ok t vs (pl_iter p)"
  by (simp add: holds_def)

lemma holds_rewind: "holds t vs p \<Longrightarrow> holds t vs (pl_rewind p) \<and> it_cur (pl_iter (pl_rewind p)) = 0"
  using rewind_ok [of t vs "pl_iter p"] by (simp add: holds_def pl_rewind_def split: layout.splits)

lemma holds_size: "holds t vs p \<Longrightarrow> pl_size p = length vs"
  by (simp add: pl_size_def iter_ok_size [OF holds_iter])

lemma pl_next_ok:
  assumes "traits_ok t" "iter_ok t vs (pl_iter p)"
  shows "it_cur (pl_iter p) = length vs \<Longrightarrow> pl_next t p = Some (Inr (None, p))"
    "it_cur (pl_iter p) < length vs \<Longrightarrow> \<exists>it. pl_next t p = Some (Inr (Some (vs ! it_cur (pl_iter p)), p\<lparr>pl_iter := it\<rparr>))
      \<and> iter_ok t vs it \<and> it_cur it = Suc (it_cur (pl_iter p))"
  using next_ok [OF assms(2)] assms(1) by (auto simp: pl_next_def traits_ok_def)

lemma pl_read_loop_ok:
  assumes "traits_ok t" "iter_ok t vs (pl_iter p)" "length vs - it_cur (pl_iter p) < n"
  shows "\<exists>it. pl_read_loop n t p = Some (Inr (drop (it_cur (pl_iter p)) vs, p\<lparr>pl_iter := it\<rparr>)) \<and> iter_ok t vs it"
  using assms(2,3)
proof (induction n arbitrary: p)
  case (Suc n)
  let ?c = "it_cur (pl_iter p)"
  have "?c \<le> length vs" using Suc.prems(1) by (simp add: iter_ok_def)
  then consider "?c = length vs" | "?c < length vs" by linarith
  then show ?case
  proof cases
    case 1
    then show ?thesis using pl_next_ok(1) [OF assms(1) Suc.prems(1)] Suc.prems(1)
      by (intro exI [of _ "pl_iter p"]) simp
  next
    case 2
    then obtain it where it: "pl_next t p = Some (Inr (Some (vs ! ?c), p\<lparr>pl_iter := it\<rparr>))" "iter_ok t vs it" "it_cur it = Suc ?c"
      using pl_next_ok(2) [OF assms(1) Suc.prems(1)] by blast
    have "length vs - it_cur (pl_iter (p\<lparr>pl_iter := it\<rparr>)) < n" using Suc.prems(2) it(3) 2 by simp
    then obtain it2 where "pl_read_loop n t (p\<lparr>pl_iter := it\<rparr>) = Some (Inr (drop (Suc ?c) vs, p\<lparr>pl_iter := it2\<rparr>))" "iter_ok t vs it2"
      using Suc.IH [of "p\<lparr>pl_iter := it\<rparr>"] it(2,3) by auto
    then show ?thesis using it(1) 2 by (auto simp: Cons_nth_drop_Suc)
  qed
qed simp

text \<open>The contract of an iterator: from the beginning \<open>next\<close> gives all the values, however they are paged.\<close>

lemma pl_values_ok:
  assumes "traits_ok t" "holds t vs p"
  shows "\<exists>it. pl_values t p = Some (Inr (vs, p\<lparr>pl_iter := it\<rparr>)) \<and> iter_ok t vs it"
proof -
  note r = holds_rewind [OF assms(2)]
  from pl_read_loop_ok [OF assms(1) holds_iter, of vs "pl_rewind p" "Suc (pl_size p)"] r holds_size [OF assms(2)]
  show ?thesis by (auto simp: pl_values_def pl_rewind_def)
qed

text \<open>Whatever the pages hold, all the values are read if reading does not fail.\<close>

lemma it_next_count:
  assumes "it_next it = Some (Inr (v, it'))"
  shows "it_size it' = it_size it" "v = None \<Longrightarrow> it_cur it = it_size it" "v \<noteq> None \<Longrightarrow> it_cur it' = Suc (it_cur it) \<and> it_cur it \<noteq> it_size it"
proof -
  have "it_size it' = it_size it \<and> it_cur it' = Suc (it_cur it)"
    if n: "it_cur it \<noteq> it_size it"
  proof -
    obtain n it1 where i: "(if it_cur it = it_end it then it_swap_in it else Some (Inr (0, it))) = Some (Inr (n, it1))" "it' = it_step it1"
      using assms n by (auto simp: it_next_def obind_eq_Inr split: if_splits)
    have "it_layout it1 = it_layout it \<and> it_cur it1 = it_cur it"
      using i(1) it_swap_in_fields [of it n it1] by (cases "n = 0") (auto split: if_splits)
    then show ?thesis by (simp add: i(2) it_step_def it_size_def)
  qed
  moreover have "v = None \<longleftrightarrow> it_cur it = it_size it" "it_cur it = it_size it \<Longrightarrow> it' = it"
    using assms by (auto simp: it_next_def obind_eq_Inr split: if_splits)
  ultimately show "it_size it' = it_size it" "v = None \<Longrightarrow> it_cur it = it_size it"
    "v \<noteq> None \<Longrightarrow> it_cur it' = Suc (it_cur it) \<and> it_cur it \<noteq> it_size it" by auto
qed

lemma pl_read_loop_count:
  "pl_read_loop n t p = Some (Inr (vs, p')) \<Longrightarrow> it_cur (pl_iter p) \<le> it_size (pl_iter p) \<Longrightarrow> length vs = it_size (pl_iter p) - it_cur (pl_iter p)"
proof (induction n arbitrary: p vs)
  case (Suc n)
  obtain v it where v: "it_next (pl_iter p) = Some (Inr (v, it))"
    using Suc.prems(1) by (auto simp: pl_next_def obind_eq_Inr)
  note c = it_next_count [OF v]
  show ?case
  proof (cases v)
    case None
    then show ?thesis using Suc.prems(1) v c(2) by (simp add: pl_next_def)
  next
    case (Some b)
    then obtain xs where "vs = vt_get t b # xs" "pl_read_loop n t (p\<lparr>pl_iter := it\<rparr>) = Some (Inr (xs, p'))"
      using Suc.prems(1) v by (auto simp: pl_next_def obind_eq_Inr)
    then show ?thesis using Suc.IH [of "p\<lparr>pl_iter := it\<rparr>" xs] c(1,3) Some Suc.prems(2) by fastforce
  qed
qed simp

lemma pl_values_size: "pl_values t p = Some (Inr (vs, p')) \<Longrightarrow> length vs = pl_size p"
  using pl_read_loop_count [of "Suc (pl_size p)" t "pl_rewind p" vs p']
  by (auto simp: pl_values_def pl_size_def pl_rewind_def it_rewind_def it_size_def split: option.splits)

lemma pl_write_ok:
  assumes "holds t vs p"
  shows "\<exists>it. pl_write p = Some (Inr (head_bytes (pl_head p) @ size_bytes (it_layout (pl_iter p)) @ bytes_of_values t vs, p\<lparr>pl_iter := it\<rparr>))"
  using write_ok [OF holds_iter [OF assms]] by (auto simp: pl_write_def)

section \<open>Building a posting list\<close>

record 'v builder =
  bd_page_size :: nat
  bd_mem_usage :: nat
  bd_values :: "'v list"
  bd_sizes :: "u32 list"
  bd_swap :: "u8 list option"

definition new_postlist_builder :: "nat \<Rightarrow> 'v builder" where
  "new_postlist_builder page_size = \<lparr>bd_page_size = page_size, bd_mem_usage = 0, bd_values = [], bd_sizes = [], bd_swap = None\<rparr>"

definition default_page_size :: nat where
  "default_page_size = 10 * 1024 * 1024"

definition push_back :: "'v value_traits \<Rightarrow> 'v \<Rightarrow> 'v builder \<Rightarrow> 'v builder" where
  "push_back t v b =
    (let b = b\<lparr>bd_sizes := bd_sizes b @ [of_nat (size_of t v)]\<rparr>
     in case bd_swap b of
          Some stream \<Rightarrow> b\<lparr>bd_swap := Some (stream @ vt_put t v)\<rparr>
        | None \<Rightarrow>
            (let b = b\<lparr>bd_values := bd_values b @ [v], bd_mem_usage := bd_mem_usage b + unat (last (bd_sizes b))\<rparr>
             in if bd_mem_usage b > bd_page_size b
                then b\<lparr>bd_swap := Some (bytes_of_values t (bd_values b)), bd_values := [], bd_mem_usage := 0\<rparr>
                else b))"

text \<open>\<open>put\<close> for every value into a buffer with \<open>available\<close> free bytes.\<close>

fun put_loop :: "'v value_traits \<Rightarrow> nat \<Rightarrow> 'v list \<Rightarrow> u8 list result" where
  "put_loop t available [] = Inr []"
| "put_loop t available (v # vs) =
    (if size_of t v > available then Inl (RuntimeError ''ByteBuffer::put failed'')
     else rbind (put_loop t (available - size_of t v) vs) (\<lambda>buffer. Inr (vt_put t v @ buffer)))"

definition build_head :: "u32 list \<Rightarrow> head" where
  "build_head sizes = \<lparr>hd_value_count = of_nat (length sizes),
     hd_value_size = (if list_all (\<lambda>s. s = hd sizes) sizes then hd sizes else 0), hd_total_size = sum_list sizes\<rparr>"

definition build :: "'v value_traits \<Rightarrow> 'v builder \<Rightarrow> (postlist \<times> 'v builder) result" where
  "build t b =
    (if bd_sizes b = [] then Inr (no_postlist, b)
     else
       (let h = build_head (bd_sizes b);
            l = (if hd_value_size h = 0 then VariableSize (bd_sizes b) else constant_layout h)
        in rbind
             (case bd_swap b of
                Some stream \<Rightarrow> Inr (swap_postlist h l \<lparr>sw_file = stream, sw_pos = 0, sw_offset = 0, sw_pagesize = bd_page_size b\<rparr>)
              | None \<Rightarrow> rbind (put_loop t (unat (hd_total_size h)) (bd_values b)) (\<lambda>buffer. Inr (page_postlist h l buffer)))
             (\<lambda>p. Inr (p, new_postlist_builder (bd_page_size b)))))"

text \<open>What a builder has been given.\<close>

definition builder_ok :: "'v value_traits \<Rightarrow> 'v list \<Rightarrow> 'v builder \<Rightarrow> bool" where
  "builder_ok t vs b \<longleftrightarrow> bd_sizes b = map (\<lambda>v. of_nat (size_of t v)) vs
    \<and> (case bd_swap b of None \<Rightarrow> bd_values b = vs | Some stream \<Rightarrow> stream = bytes_of_values t vs)"

lemma new_postlist_builder_ok: "builder_ok t [] (new_postlist_builder page_size)"
  by (simp add: builder_ok_def new_postlist_builder_def)

lemma push_back_ok: "builder_ok t vs b \<Longrightarrow> builder_ok t (vs @ [v]) (push_back t v b) \<and> bd_page_size (push_back t v b) = bd_page_size b"
  by (auto simp: builder_ok_def push_back_def Let_def split: option.splits)

lemma push_all_ok:
  "builder_ok t vs b \<Longrightarrow> builder_ok t (vs @ us) (fold (push_back t) us b) \<and> bd_page_size (fold (push_back t) us b) = bd_page_size b"
proof (induction us arbitrary: vs b)
  case (Cons u us)
  then show ?case using Cons.IH [of "vs @ [u]" "push_back t u b"] push_back_ok [OF Cons.prems, of u] by simp
qed simp

lemma put_loop_ok: "length (bytes_of_values t vs) \<le> available \<Longrightarrow> put_loop t available vs = Inr (bytes_of_values t vs)"
  by (induction t available vs rule: put_loop.induct) (auto simp: size_of_def)

text \<open>Values whose number and sizes fit into the head, and a page that has room for any of them.\<close>

definition values_fit :: "'v value_traits \<Rightarrow> nat \<Rightarrow> 'v list \<Rightarrow> bool" where
  "values_fit t page_size vs \<longleftrightarrow> length (bytes_of_values t vs) < 2 ^ 32
    \<and> list_all (\<lambda>v. 0 < size_of t v \<and> size_of t v \<le> page_size) vs"

lemma size_le_bytes: "v \<in> set vs \<Longrightarrow> size_of t v \<le> length (bytes_of_values t vs)"
  by (induction vs) (auto simp: size_of_def)

lemma length_le_bytes_of: "list_all (\<lambda>v. 0 < size_of t v) vs \<Longrightarrow> length vs \<le> length (bytes_of_values t vs)"
proof (induction vs)
  case (Cons v vs)
  then have "1 \<le> length (vt_put t v)" "length vs \<le> length (bytes_of_values t vs)" by (simp_all add: size_of_def Suc_le_eq)
  then show ?case by simp
qed simp

lemma values_fit_sizes:
  assumes "values_fit t n vs"
  shows "map unat (map (\<lambda>v. of_nat (size_of t v) :: u32) vs) = map (size_of t) vs" "length vs < 2 ^ 32"
proof -
  have "size_of t v < 2 ^ 32" if "v \<in> set vs" for v
    using size_le_bytes [OF that, of t] assms by (simp add: values_fit_def)
  then show "map unat (map (\<lambda>v. of_nat (size_of t v) :: u32) vs) = map (size_of t) vs" by (simp add: unat_of_nat_u32)
  have "length vs \<le> length (bytes_of_values t vs)" using assms by (intro length_le_bytes_of) (auto simp: values_fit_def list_all_iff)
  then show "length vs < 2 ^ 32" using assms by (simp add: values_fit_def)
qed

lemma sum_sizes: "sum_list (map (\<lambda>v. of_nat (size_of t v)) vs) = (of_nat (length (bytes_of_values t vs)) :: u32)"
  by (induction vs) (simp_all add: size_of_def)

lemma build_ok:
  assumes "builder_ok t vs b" "values_fit t (bd_page_size b) vs"
  shows "\<exists>p b'. build t b = Inr (p, b') \<and> holds t vs p \<and> it_cur (pl_iter p) = 0 \<and> builder_ok t [] b' \<and> bd_page_size b' = bd_page_size b"
proof (cases "vs = []")
  case True
  then show ?thesis using assms(1)
    by (auto simp: build_def builder_ok_def no_postlist_def no_head_def holds_def iter_ok_def page_iter_def layout_ok_def
        split: option.splits)
next
  case False
  let ?sizes = "map (\<lambda>v. of_nat (size_of t v) :: u32) vs"
  let ?l = "\<lambda>h. if hd_value_size h = 0 then VariableSize ?sizes else constant_layout h"
  define h where "h = build_head ?sizes"
  note f = values_fit_sizes [OF assms(2)]
  have total: "hd_total_size h = of_nat (length (bytes_of_values t vs))" by (simp add: h_def build_head_def sum_sizes)
  then have ut: "unat (hd_total_size h) = length (bytes_of_values t vs)"
    using assms(2) by (simp add: values_fit_def unat_of_nat_u32)
  have cnt: "hd_value_count h = of_nat (length vs)" "unat (hd_value_count h) = length vs"
    using f(2) by (simp_all add: h_def build_head_def unat_of_nat_u32)
  have eq: "size_of t v = unat (hd_value_size h)" if "hd_value_size h \<noteq> 0" "v \<in> set vs" for v
  proof -
    have a: "list_all (\<lambda>s. s = hd ?sizes) ?sizes" "hd_value_size h = hd ?sizes"
      using that(1) by (auto simp: h_def build_head_def split: if_splits)
    then have "of_nat (size_of t v) = hd_value_size h" using that(2) by (simp add: list_all_iff)
    moreover have "unat (of_nat (size_of t v) :: u32) = size_of t v" using f(1) that(2) by simp
    ultimately show ?thesis by metis
  qed
  have l: "layout_ok t (?l h) vs"
  proof (cases "hd_value_size h = 0")
    case True
    then show ?thesis using f(1) by (simp add: layout_ok_def)
  next
    case False
    then show ?thesis using eq cnt(2) by (simp add: layout_ok_def constant_layout_def list_all_iff)
  qed
  have pg: "0 < unat (hd_value_size h) \<and> unat (hd_value_size h) \<le> bd_page_size b" if "hd_value_size h \<noteq> 0"
  proof -
    obtain v where "v \<in> set vs" using False by (cases vs) auto
    then show ?thesis using eq [OF that, of v] assms(2) by (auto simp: values_fit_def list_all_iff)
  qed
  have sz: "bd_sizes b = ?sizes" using assms(1) by (simp add: builder_ok_def)
  show ?thesis
  proof (cases "bd_swap b")
    case None
    then have "bd_values b = vs" using assms(1) by (simp add: builder_ok_def)
    then have "build t b = Inr (page_postlist h (?l h) (bytes_of_values t vs), new_postlist_builder (bd_page_size b))"
      using None False sz put_loop_ok [of t vs "unat (hd_total_size h)"] ut by (simp add: build_def Let_def h_def)
    moreover have "holds t vs (page_postlist h (?l h) (bytes_of_values t vs))"
      using l cnt total layout_size [OF l] pg
      by (auto simp: holds_def page_postlist_def iter_ok_def page_iter_def constant_layout_def)
    ultimately show ?thesis using new_postlist_builder_ok by (auto simp: page_postlist_def page_iter_def new_postlist_builder_def)
  next
    case (Some stream)
    let ?sw = "\<lparr>sw_file = stream, sw_pos = 0, sw_offset = 0, sw_pagesize = bd_page_size b\<rparr>"
    have st: "stream = bytes_of_values t vs" using assms(1) Some by (simp add: builder_ok_def)
    then have "build t b = Inr (swap_postlist h (?l h) ?sw, new_postlist_builder (bd_page_size b))"
      using Some False sz by (simp add: build_def Let_def h_def)
    moreover have "holds t vs (swap_postlist h (?l h) ?sw)"
      using l cnt total pg st
      by (auto simp: holds_def swap_postlist_def iter_ok_def swap_iter_def constant_layout_def)
    ultimately show ?thesis using new_postlist_builder_ok by (auto simp: swap_postlist_def swap_iter_def new_postlist_builder_def)
  qed
qed

lemma built_list:
  assumes "values_fit t page_size vs"
  shows "\<exists>p b. build t (fold (push_back t) vs (new_postlist_builder page_size)) = Inr (p, b) \<and> holds t vs p"
proof -
  have "builder_ok t vs (fold (push_back t) vs (new_postlist_builder page_size))"
    "bd_page_size (fold (push_back t) vs (new_postlist_builder page_size :: 'a builder)) = page_size"
    using push_all_ok [OF new_postlist_builder_ok, of t vs page_size] by (simp_all add: new_postlist_builder_def)
  then show ?thesis using build_ok [of t vs "fold (push_back t) vs (new_postlist_builder page_size)"] assms by auto
qed

text \<open>
  Paging is invisible: whatever the page size, and whether or not the builder has swapped its values
  out to a file, the posting list it builds returns exactly the values that were pushed, in order, and
  knows their number.
\<close>

theorem paging_transparent:
  assumes "traits_ok t" "values_fit t page_size vs"
  shows "\<exists>p b p'. build t (fold (push_back t) vs (new_postlist_builder page_size)) = Inr (p, b)
    \<and> pl_values t p = Some (Inr (vs, p')) \<and> pl_size p = length vs"
  using built_list [OF assms(2)] pl_values_ok [OF assms(1)] holds_size by blast

lemma pair_values_fit: "8 * length vs < 2 ^ 32 \<Longrightarrow> 8 \<le> page_size \<Longrightarrow> values_fit pair_traits page_size vs"
proof -
  have "length (bytes_of_values pair_traits vs) = 8 * length vs"
    using constant_bytes [of pair_traits 8 vs] by (simp add: list_all_iff)
  then show "8 * length vs < 2 ^ 32 \<Longrightarrow> 8 \<le> page_size \<Longrightarrow> values_fit pair_traits page_size vs"
    by (simp add: values_fit_def list_all_iff)
qed

text \<open>With pages of one value the builder swaps out after the second.\<close>

theorem paging_transparent_witness:
  "\<exists>p b p'. build pair_traits (fold (push_back pair_traits) [(5, 1), (3, 2)] (new_postlist_builder 8)) = Inr (p, b)
    \<and> pl_values pair_traits p = Some (Inr ([(5, 1), (3, 2)], p')) \<and> pl_size p = length [(5 :: u32, 1 :: u32), (3, 2)]"
  by (rule paging_transparent [OF pair_traits_ok pair_values_fit]) simp_all

end
