(* ===== verification/Postlist_Files.thy ===== *)
theory Postlist_Files
  imports Postlists Texts
begin

text \<open>
  Posting lists in files: \<open>PostlistReader::read\<close>, which reads a part of a posting list,
  \<open>StorageWriter\<close>, which appends posting lists to data files and their addresses to a table, and
  \<open>StorageReader\<close>.  The table is opened as a perfect hash map, here a function from keys to addresses.
\<close>

section \<open>Reading a part of a posting list\<close>

definition fread :: "u8 list \<Rightarrow> nat \<Rightarrow> nat \<Rightarrow> u8 list result" where
  "fread file pos n =
    (if n \<noteq> 0 \<and> length file < pos + n then Inl (RuntimeError ''std::fread failed'') else Inr (take n (drop pos file)))"

definition u32_at :: "u8 list \<Rightarrow> nat \<Rightarrow> u32" where
  "u32_at bytes i = of_nat (le_value (take 4 (drop (4 * i) bytes)))"

definition read_head :: "u8 list \<Rightarrow> nat \<Rightarrow> head result" where
  "read_head file pos = rbind (fread file pos 12) (\<lambda>b.
     Inr \<lparr>hd_value_count = u32_at b 0, hd_value_size = u32_at b 1, hd_total_size = u32_at b 2\<rparr>)"

definition swap_pagesize :: nat where
  "swap_pagesize = 5 * 1024 * 1024"

text \<open>The part of \<open>read\<close> that makes the posting list, from the file at the offset or from a buffer.\<close>

definition load_postlist :: "u8 list \<Rightarrow> head \<Rightarrow> layout \<Rightarrow> nat \<Rightarrow> u64 \<Rightarrow> u32 \<Rightarrow> postlist result" where
  "load_postlist file h l offset total_payload_size page_size =
    (if total_payload_size > ucast page_size
     then Inr (swap_postlist h l \<lparr>sw_file = file, sw_pos = offset, sw_offset = offset, sw_pagesize = swap_pagesize\<rparr>)
     else rbind (fread file offset (unat total_payload_size)) (\<lambda>buffer. Inr (page_postlist h l buffer)))"

text \<open>
  \<open>PostlistReader::read\<close> from the position on: the posting list and the position behind it.  The sizes
  of variable values are summed in an \<open>int\<close>, offsets of constant values multiplied in 32 bits.
\<close>

definition postlist_read :: "u8 list \<Rightarrow> nat \<Rightarrow> u32 \<Rightarrow> u32 \<Rightarrow> u32 \<Rightarrow> (postlist \<times> nat) result" where
  "postlist_read file pos index_begin value_count page_size =
    rbind (read_head file pos) (\<lambda>h.
      (let index_begin = min index_begin (hd_value_count h);
           value_count = min value_count (hd_value_count h - index_begin);
           payload = pos + 12
       in if hd_value_size h = 0 then
            (let begin_of_payload = payload + unat (hd_value_count h) * 4
             in rbind (fread file payload (unat index_begin * 4)) (\<lambda>skipped.
                rbind (fread file (payload + unat index_begin * 4) (unat value_count * 4)) (\<lambda>used.
                  (let offset = begin_of_payload + sum_list (map (\<lambda>i. unat (u32_at skipped i)) [0..<unat index_begin]);
                       value_sizes = map (u32_at used) [0..<unat value_count];
                       total = scast (sum_list value_sizes) :: u64
                   in rbind (load_postlist file \<lparr>hd_value_count = value_count, hd_value_size = 0, hd_total_size = ucast total\<rparr>
                            (VariableSize value_sizes) offset total page_size) (\<lambda>p.
                        Inr (p, begin_of_payload + unat (hd_total_size h)))))))
          else
            (let offset = payload + unat (index_begin * hd_value_size h);
                 total = value_count * hd_value_size h;
                 new_head = \<lparr>hd_value_count = value_count, hd_value_size = hd_value_size h, hd_total_size = total\<rparr>
             in rbind (load_postlist file new_head (constant_layout new_head) offset (ucast total) page_size) (\<lambda>p.
                  Inr (p, payload + unat (hd_total_size h))))))"

text \<open>A posting list in a file.\<close>

definition stored :: "'v value_traits \<Rightarrow> 'v list \<Rightarrow> u8 list \<Rightarrow> bool" where
  "stored t vs bytes \<longleftrightarrow>
    (\<exists>h l. bytes = head_bytes h @ size_bytes l @ bytes_of_values t vs \<and> layout_ok t l vs
      \<and> hd_value_count h = of_nat (length vs) \<and> hd_total_size h = of_nat (length (bytes_of_values t vs))
      \<and> (case l of ConstantSize n s \<Rightarrow> hd_value_size h = of_nat s \<and> (vs \<noteq> [] \<longrightarrow> 0 < s) | VariableSize ss \<Rightarrow> hd_value_size h = 0))"

lemma stored_write:
  assumes "holds t vs p"
  shows "\<exists>out it. pl_write p = Some (Inr (out, p\<lparr>pl_iter := it\<rparr>)) \<and> stored t vs out"
  using pl_write_ok [OF assms] assms unfolding stored_def holds_def
  by (fastforce simp: iter_ok_def)

lemma fread_prefix: "length pre = pos \<Longrightarrow> length x = n \<Longrightarrow> fread (pre @ x @ rest) pos n = Inr x"
  by (simp add: fread_def)

lemma u32_at_bytes: "i < length ws \<Longrightarrow> u32_at (concat (map (\<lambda>w. le_bytes 4 (unat w)) ws) @ rest) i = ws ! i"
proof (induction ws arbitrary: i)
  case (Cons w ws)
  then show ?case by (cases i) (simp_all add: u32_at_def)
qed simp

lemma read_head_bytes: "length pre = pos \<Longrightarrow> read_head (pre @ head_bytes h @ rest) pos = Inr h"
proof -
  assume p: "length pre = pos"
  let ?ws = "[hd_value_count h, hd_value_size h, hd_total_size h]"
  have b: "head_bytes h = concat (map (\<lambda>w. le_bytes 4 (unat w)) ?ws) @ []" by (simp add: head_bytes_def)
  have "fread (pre @ head_bytes h @ rest) pos 12 = Inr (head_bytes h)" using p by (intro fread_prefix) (simp_all add: head_bytes_def)
  moreover have "u32_at (head_bytes h) i = ?ws ! i" if "i < 3" for i
    unfolding b using that by (intro u32_at_bytes) simp
  ultimately show ?thesis by (simp add: read_head_def)
qed

definition list_fits :: "'v value_traits \<Rightarrow> 'v list \<Rightarrow> bool" where
  "list_fits t vs \<longleftrightarrow> values_fit t swap_pagesize vs \<and> length (bytes_of_values t vs) < 2 ^ 31"

lemma load_postlist_ok:
  assumes "file = pre @ bytes_of_values t us @ rest" "length pre = offset" "list_fits t us" "layout_ok t l us"
    and "tot = of_nat (length (bytes_of_values t us))"
    and "hd_value_count h = of_nat (length us)" "hd_total_size h = of_nat (length (bytes_of_values t us))"
    and "case l of ConstantSize n s \<Rightarrow> hd_value_size h = of_nat s \<and> 0 < s \<and> (us \<noteq> [] \<longrightarrow> s \<le> swap_pagesize)
      | VariableSize ss \<Rightarrow> hd_value_size h = 0"
  shows "\<exists>p. load_postlist file h l offset tot page_size = Inr p \<and> holds t us p"
proof (cases "tot > ucast page_size")
  case True
  let ?sw = "\<lparr>sw_file = file, sw_pos = offset, sw_offset = offset, sw_pagesize = swap_pagesize\<rparr>"
  have "iter_ok t us (swap_iter l ?sw)"
    using assms(1,2,4,8) by (auto simp: iter_ok_def swap_iter_def split: layout.splits)
  then have "holds t us (swap_postlist h l ?sw)"
    using assms(6-8) by (auto simp: holds_def swap_postlist_def swap_iter_def split: layout.splits)
  then show ?thesis using True by (simp add: load_postlist_def)
next
  case False
  have "length (bytes_of_values t us) < 2 ^ 64" using assms(3) by (simp add: list_fits_def)
  then have "unat tot = length (bytes_of_values t us)" using assms(5) by (simp add: unat_of_nat_u64)
  then have "fread file offset (unat tot) = Inr (bytes_of_values t us)" using fread_prefix [OF assms(2)] assms(1) by simp
  moreover have "holds t us (page_postlist h l (bytes_of_values t us))"
    using assms(4,6-8) layout_size [OF assms(4)]
    by (auto simp: holds_def page_postlist_def iter_ok_def page_iter_def split: layout.splits)
  ultimately show ?thesis using False by (simp add: load_postlist_def)
qed

lemma list_fits_part:
  assumes "list_fits t vs"
  shows "list_fits t (take n (drop b vs))"
proof -
  have "vs = take b vs @ take n (drop b vs) @ drop n (drop b vs)" by (metis append_take_drop_id)
  then have "length (bytes_of_values t vs) = length (bytes_of_values t (take b vs)) + length (bytes_of_values t (take n (drop b vs)))
      + length (bytes_of_values t (drop n (drop b vs)))"
    by (metis bytes_of_values_append length_append add.assoc)
  then show ?thesis using assms
    by (auto simp: list_fits_def values_fit_def list_all_iff dest!: in_set_takeD in_set_dropD)
qed

text \<open>The clamped begin and count as numbers.\<close>

lemma clamped:
  fixes start len' :: u32
  assumes "length vs < 2 ^ 32"
  defines "cnt \<equiv> of_nat (length vs) :: u32"
  defines "b \<equiv> min start cnt" defines "n \<equiv> min len' (cnt - b)"
  shows "unat b \<le> length vs" "unat n \<le> length vs - unat b" "read_postlist vs start len' = take (unat n) (drop (unat b) vs)"
    "length (read_postlist vs start len') = unat n"
proof -
  have c: "unat cnt = length vs" unfolding cnt_def by (rule unat_of_nat_u32 [OF assms(1)])
  have "b \<le> cnt" unfolding b_def by simp
  then show 1: "unat b \<le> length vs" using c by (simp add: word_le_nat_alt)
  have "unat (cnt - b) = length vs - unat b" using \<open>b \<le> cnt\<close> c by (simp add: unat_sub word_le_nat_alt)
  moreover have "n \<le> cnt - b" unfolding n_def by simp
  ultimately show 2: "unat n \<le> length vs - unat b" by (simp add: word_le_nat_alt)
  show 3: "read_postlist vs start len' = take (unat n) (drop (unat b) vs)"
    by (simp add: read_postlist_def Let_def n_def b_def cnt_def)
  show "length (read_postlist vs start len') = unat n" unfolding 3 using 1 2 by simp
qed

lemma bytes_split:
  "bytes_of_values t vs = bytes_of_values t (take b vs) @ bytes_of_values t (take n (drop b vs)) @ bytes_of_values t (drop n (drop b vs))"
  by (metis append_take_drop_id bytes_of_values_append)

lemma postlist_read_constant:
  assumes "file = pre @ head_bytes h @ bytes_of_values t vs @ rest" "length pre = pos" "list_fits t vs"
    and "list_all (\<lambda>v. size_of t v = s) vs" "0 < s"
    and "hd_value_count h = of_nat (length vs)" "hd_total_size h = of_nat (length (bytes_of_values t vs))" "hd_value_size h = of_nat s"
    and "s < 2 ^ 32"
  shows "\<exists>p. postlist_read file pos begin len page_size = Inr (p, pos + 12 + length (bytes_of_values t vs)) \<and> holds t (read_postlist vs begin len) p"
proof -
  define b where "b = min begin (hd_value_count h)"
  define n where "n = min len (hd_value_count h - b)"
  have f: "values_fit t swap_pagesize vs" "length (bytes_of_values t vs) < 2 ^ 31" using assms(3) by (simp_all add: list_fits_def)
  have l: "length vs < 2 ^ 32" by (rule values_fit_sizes(2) [OF f(1)])
  let ?us = "take (unat n) (drop (unat b) vs)"
  note c = clamped(1) [OF l, where start = \<open>begin\<close>, folded assms(6), folded b_def]
    clamped(2-4) [OF l, where start = \<open>begin\<close> and len' = len, folded assms(6), folded b_def, folded n_def]
  have u: "length ?us = unat n" using c(3,4) by simp
  have us: "length (bytes_of_values t ws) = length ws * s" if "set ws \<subseteq> set vs" for ws
    using assms(4) that by (intro constant_bytes) (auto simp: list_all_iff)
  have s: "hd_value_size h \<noteq> 0" "unat (hd_value_size h) = s"
    using assms(5,8,9) by (simp_all add: unat_of_nat_u32 of_nat_u32_eq_0)
  have lv: "length vs * s < 2 ^ 31" using us [of vs] f(2) by simp
  have bs: "unat (b * hd_value_size h) = unat b * s" "unat (n * hd_value_size h) = unat n * s"
  proof -
    have "unat b \<le> length vs" "unat n \<le> length vs" using c(1,2) by linarith+
    then have "unat b * s \<le> length vs * s" "unat n * s \<le> length vs * s" by (simp_all only: mult_le_mono1)
    moreover have "(2 :: nat) ^ 31 < 2 ^ 32" by simp
    ultimately have "unat b * s < 2 ^ 32" "unat n * s < 2 ^ 32" using lv by (metis order.strict_trans order.strict_trans1)+
    then show "unat (b * hd_value_size h) = unat b * s" "unat (n * hd_value_size h) = unat n * s"
      using s(2) by (simp_all add: unat_mult_lem [THEN iffD1] del: unat_mult_lem)
  qed
  define h' where "h' = \<lparr>hd_value_count = n, hd_value_size = hd_value_size h, hd_total_size = n * hd_value_size h\<rparr>"
  have ub: "length (bytes_of_values t ?us) = unat n * s" using us [of ?us] u by (auto dest: in_set_takeD in_set_dropD)
  have tb: "length (bytes_of_values t (take (unat b) vs)) = unat b * s" using us [of "take (unat b) vs"] c(1) by (auto dest: in_set_takeD)
  have "\<exists>p. load_postlist file h' (constant_layout h') (pos + 12 + unat (b * hd_value_size h)) (ucast (n * hd_value_size h)) page_size = Inr p
      \<and> holds t ?us p"
  proof (rule load_postlist_ok)
    show "file = (pre @ head_bytes h @ bytes_of_values t (take (unat b) vs)) @ bytes_of_values t ?us @ (bytes_of_values t (drop (unat n) (drop (unat b) vs)) @ rest)"
      unfolding assms(1) by (subst bytes_split [of t vs "unat b" "unat n"]) (simp only: append_assoc)
    show "length (pre @ head_bytes h @ bytes_of_values t (take (unat b) vs)) = pos + 12 + unat (b * hd_value_size h)"
      using assms(2) tb bs(1) by (simp add: head_bytes_def)
    show "list_fits t ?us" by (rule list_fits_part [OF assms(3)])
    show "layout_ok t (constant_layout h') ?us"
      using assms(4) u s(2) by (auto simp: layout_ok_def constant_layout_def h'_def list_all_iff dest: in_set_takeD in_set_dropD)
    show "ucast (n * hd_value_size h) = (of_nat (length (bytes_of_values t ?us)) :: u64)"
      unfolding ub bs(2) [symmetric] by simp
    show "hd_value_count h' = of_nat (length ?us)" using u by (simp add: h'_def)
    show "hd_total_size h' = of_nat (length (bytes_of_values t ?us))" unfolding ub bs(2) [symmetric] by (simp add: h'_def)
    have "s \<le> swap_pagesize" if "?us \<noteq> []"
    proof -
      from that obtain v where "v \<in> set ?us" by (metis list.set_sel(1))
      then have "v \<in> set vs" by (metis in_set_takeD in_set_dropD)
      then show ?thesis using f(1) assms(4) by (auto simp: values_fit_def list_all_iff)
    qed
    then show "case constant_layout h' of ConstantSize n s \<Rightarrow> hd_value_size h' = of_nat s \<and> 0 < s \<and> (?us \<noteq> [] \<longrightarrow> s \<le> swap_pagesize)
        | VariableSize ss \<Rightarrow> hd_value_size h' = 0"
      using s(2) assms(5,8) by (simp add: constant_layout_def h'_def)
  qed
  then obtain p where p: "load_postlist file h' (constant_layout h') (pos + 12 + unat (b * hd_value_size h)) (ucast (n * hd_value_size h)) page_size = Inr p"
      "holds t ?us p"
    by blast
  have r: "read_head file pos = Inr h" unfolding assms(1) by (rule read_head_bytes [OF assms(2)])
  have e: "unat (hd_total_size h) = length (bytes_of_values t vs)" using assms(7) f(2) by (simp add: unat_of_nat_u32)
  have "postlist_read file pos begin len page_size = Inr (p, pos + 12 + length (bytes_of_values t vs))"
    using p(1) s(1) by (simp add: postlist_read_def r Let_def e b_def [symmetric] n_def [symmetric] h'_def)
  then show ?thesis using p(2) c(3) by simp
qed


text \<open>The same for values of variable size, whose sizes stand before the values.\<close>

abbreviation words_bytes :: "u32 list \<Rightarrow> u8 list" where
  "words_bytes ws \<equiv> concat (map (\<lambda>w. le_bytes 4 (unat w)) ws)"

lemma length_words_bytes: "length (words_bytes ws) = 4 * length ws"
  by (induction ws) simp_all

lemma map_u32_at: "map (u32_at (words_bytes ws)) [0..<length ws] = ws"
  using u32_at_bytes [of _ ws "[]"] by (auto intro!: nth_equalityI)

lemma words_split: "words_bytes ws = words_bytes (take b ws) @ words_bytes (take n (drop b ws)) @ words_bytes (drop n (drop b ws))"
  by (metis append_take_drop_id concat_append map_append)

lemma sum_sizes_bytes: "map unat ss = map (size_of t) vs \<Longrightarrow> sum_list (map unat ss) = length (bytes_of_values t vs)"
proof -
  assume m: "map unat ss = map (size_of t) vs"
  show ?thesis unfolding m by (induction vs) (simp_all add: size_of_def)
qed

lemma scast_u64: "unat (w :: u32) < 2 ^ 31 \<Longrightarrow> (scast w :: u64) = of_nat (unat w)"
proof -
  assume a: "unat w < 2 ^ 31"
  have u: "uint w = int (unat w)" by (rule uint_nat)
  have "int (unat w) < int (2 ^ 31)" using a by (simp only: of_nat_less_iff)
  then have "uint w < 2 ^ 31" unfolding u by simp
  moreover have "- (2 ^ 31) \<le> uint w" by (rule order_trans [OF _ uint_ge_0]) simp
  ultimately have "signed_take_bit 31 (uint w) = uint w" by (intro signed_take_bit_int_eq_self)
  then have "sint w = uint w" by (simp add: sint_uint)
  then show ?thesis unfolding scast_eq u by simp
qed

lemma scast_sum:
  assumes "map unat (ss :: u32 list) = map (size_of t) vs" "length (bytes_of_values t vs) < 2 ^ 31"
  shows "(scast (sum_list ss) :: u64) = of_nat (length (bytes_of_values t vs))" "sum_list ss = of_nat (length (bytes_of_values t vs))"
proof -
  have "sum_list ss = of_nat (sum_list (map unat ss))" by (induction ss) simp_all
  then show s: "sum_list ss = of_nat (length (bytes_of_values t vs))" by (simp only: sum_sizes_bytes [OF assms(1)])
  then have "unat (sum_list ss) = length (bytes_of_values t vs)" using assms(2) by (simp add: unat_of_nat_u32)
  then show "(scast (sum_list ss) :: u64) = of_nat (length (bytes_of_values t vs))" using scast_u64 [of "sum_list ss"] assms(2) by simp
qed

lemma postlist_read_variable:
  assumes "file = pre @ head_bytes h @ words_bytes ss @ bytes_of_values t vs @ rest" "length pre = pos" "list_fits t vs"
    and "map unat ss = map (size_of t) vs"
    and "hd_value_count h = of_nat (length vs)" "hd_total_size h = of_nat (length (bytes_of_values t vs))" "hd_value_size h = 0"
  shows "\<exists>p. postlist_read file pos begin len page_size = Inr (p, pos + 12 + 4 * length vs + length (bytes_of_values t vs))
    \<and> holds t (read_postlist vs begin len) p"
proof -
  define b where "b = min begin (hd_value_count h)"
  define n where "n = min len (hd_value_count h - b)"
  have f: "values_fit t swap_pagesize vs" "length (bytes_of_values t vs) < 2 ^ 31" using assms(3) by (simp_all add: list_fits_def)
  have l: "length vs < 2 ^ 32" by (rule values_fit_sizes(2) [OF f(1)])
  let ?us = "take (unat n) (drop (unat b) vs)" and ?ts = "take (unat n) (drop (unat b) ss)"
  note c = clamped(1) [OF l, where start = \<open>begin\<close>, folded assms(5), folded b_def]
    clamped(2-4) [OF l, where start = \<open>begin\<close> and len' = len, folded assms(5), folded b_def, folded n_def]
  have ls: "length ss = length vs" by (rule map_eq_imp_length_eq [OF assms(4)])
  have lens: "length ?us = unat n" "length ?ts = unat n" "length (take (unat b) ss) = unat b" using c ls by simp_all
  have m: "map unat ?ts = map (size_of t) ?us" "map unat (take (unat b) ss) = map (size_of t) (take (unat b) vs)"
    using assms(4) by (metis take_map drop_map)+
  define skipped where "skipped = words_bytes (take (unat b) ss)"
  define used where "used = words_bytes ?ts"
  have w: "file = (pre @ head_bytes h) @ skipped @ used @ words_bytes (drop (unat n) (drop (unat b) ss)) @ bytes_of_values t vs @ rest"
    unfolding assms(1) skipped_def used_def by (subst words_split [of ss "unat b" "unat n"]) (simp only: append_assoc)
  have len2: "length (pre @ head_bytes h) = pos + 12" "length skipped = unat b * 4" "length used = unat n * 4"
    using assms(2) lens by (simp_all add: head_bytes_def skipped_def used_def length_words_bytes)
  have r1: "fread file (pos + 12) (unat b * 4) = Inr skipped" unfolding w by (rule fread_prefix [OF len2(1,2)])
  have r2: "fread file (pos + 12 + unat b * 4) (unat n * 4) = Inr used"
    using fread_prefix [of "(pre @ head_bytes h) @ skipped" "pos + 12 + unat b * 4" used "unat n * 4"
        "words_bytes (drop (unat n) (drop (unat b) ss)) @ bytes_of_values t vs @ rest"] len2 w by simp
  have sk: "sum_list (map (\<lambda>i. unat (u32_at skipped i)) [0..<unat b]) = length (bytes_of_values t (take (unat b) vs))"
    using map_u32_at [of "take (unat b) ss"] sum_sizes_bytes [OF m(2)] lens(3)
    by (metis (no_types, lifting) map_map comp_def map_cong skipped_def)
  have us: "map (u32_at used) [0..<unat n] = ?ts" using map_u32_at [of ?ts] lens(2) by (simp add: used_def)
  have fu: "list_fits t ?us" by (rule list_fits_part [OF assms(3)])
  then have "length (bytes_of_values t ?us) < 2 ^ 31" by (simp add: list_fits_def)
  note sc = scast_sum [OF m(1) this]
  define h' where "h' = \<lparr>hd_value_count = n, hd_value_size = 0 :: u32, hd_total_size = ucast (of_nat (length (bytes_of_values t ?us)) :: u64)\<rparr>"
  define offset where "offset = pos + 12 + unat (hd_value_count h) * 4 + length (bytes_of_values t (take (unat b) vs))"
  have cnt: "unat (hd_value_count h) = length vs" using l assms(5) by (simp add: unat_of_nat_u32)
  have "\<exists>p. load_postlist file h' (VariableSize ?ts) offset (of_nat (length (bytes_of_values t ?us))) page_size = Inr p \<and> holds t ?us p"
  proof (rule load_postlist_ok)
    show "file = (pre @ head_bytes h @ words_bytes ss @ bytes_of_values t (take (unat b) vs)) @ bytes_of_values t ?us
        @ (bytes_of_values t (drop (unat n) (drop (unat b) vs)) @ rest)"
      unfolding assms(1) by (subst bytes_split [of t vs "unat b" "unat n"]) (simp only: append_assoc)
    show "length (pre @ head_bytes h @ words_bytes ss @ bytes_of_values t (take (unat b) vs)) = offset"
      using len2(1) ls cnt by (simp add: offset_def length_words_bytes)
  qed (use fu m lens \<open>length (bytes_of_values t ?us) < 2 ^ 31\<close> in
      \<open>simp_all add: layout_ok_def h'_def unsigned_of_nat take_bit_nat_eq_self\<close>)
  then obtain p where p: "load_postlist file h' (VariableSize ?ts) offset (of_nat (length (bytes_of_values t ?us))) page_size = Inr p" "holds t ?us p"
    by blast
  have r: "read_head file pos = Inr h" unfolding assms(1) by (rule read_head_bytes [OF assms(2)])
  have e: "unat (hd_total_size h) = length (bytes_of_values t vs)" using assms(6) f(2) by (simp add: unat_of_nat_u32)
  have "postlist_read file pos begin len page_size = Inr (p, pos + 12 + 4 * length vs + length (bytes_of_values t vs))"
    using p(1) assms(7) r1 r2 sk us sc(1) cnt
    by (simp add: postlist_read_def r Let_def e b_def [symmetric] n_def [symmetric] h'_def offset_def ac_simps)
  then show ?thesis using p(2) c(3) by simp
qed

text \<open>\<open>PostlistReader::read\<close> gives the part of the posting list that was asked for and leaves the position behind the list.\<close>

lemma stored_read:
  assumes "file = pre @ x @ rest" "length pre = pos" "stored t vs x" "list_fits t vs" "vs \<noteq> []"
  shows "\<exists>p. postlist_read file pos begin len page_size = Inr (p, pos + length x) \<and> holds t (read_postlist vs begin len) p"
proof -
  obtain h l where x: "x = head_bytes h @ size_bytes l @ bytes_of_values t vs"
      "layout_ok t l vs" "hd_value_count h = of_nat (length vs)" "hd_total_size h = of_nat (length (bytes_of_values t vs))"
      "case l of ConstantSize n s \<Rightarrow> hd_value_size h = of_nat s \<and> (vs \<noteq> [] \<longrightarrow> 0 < s) | VariableSize ss \<Rightarrow> hd_value_size h = 0"
    using assms(3) unfolding stored_def by blast
  have hl: "length (head_bytes h) = 12" by (simp add: head_bytes_def)
  show ?thesis
  proof (cases l)
    case (ConstantSize n s)
    have a: "list_all (\<lambda>v. size_of t v = s) vs" using x(2) ConstantSize by (simp add: layout_ok_def)
    obtain v where v: "v \<in> set vs" using assms(5) by (cases vs) auto
    have "size_of t v < 2 ^ 31" using size_le_bytes [OF v, of t] assms(4) by (simp add: list_fits_def)
    then have "s < 2 ^ 32" using a v by (simp add: list_all_iff)
    then show ?thesis using postlist_read_constant [OF refl assms(2,4) a _ x(3,4), of rest \<open>begin\<close> len page_size] x(5) ConstantSize assms(5)
      unfolding assms(1) x(1) by (simp add: size_bytes_def hl ac_simps)
  next
    case (VariableSize ss)
    then have m: "map unat ss = map (size_of t) vs" using x(2) by (simp add: layout_ok_def)
    show ?thesis using postlist_read_variable [OF refl assms(2,4) m x(3,4), of rest \<open>begin\<close> len page_size] x(5) VariableSize map_eq_imp_length_eq [OF m]
      unfolding assms(1) x(1) by (simp add: size_bytes_def hl length_words_bytes ac_simps)
  qed
qed

end
