(* ===== verification/Text_Files.thy ===== *)
theory Text_Files
  imports Texts Utf8 Phrase_Corpus
begin

text \<open>
  Text files: lines as \<open>std::getline\<close> reads them, words and unsigned numbers as \<open>operator>>\<close> reads
  them, \<open>PhraseFileParser\<close> and \<open>Dictionaries::parse_csv\<close>.  A stream is the text that is left;
  whether the stream is still good is a flag, false after a read has met the end of the file.
\<close>

section \<open>Streams\<close>

definition line_end :: char where
  "line_end = CHR 0x0A"

definition tab :: char where
  "tab = CHR 0x09"

text \<open>\<open>None\<close> is a \<open>getline\<close> that fails; else the line, the text behind it and whether the stream is good.\<close>

definition getline :: "string \<Rightarrow> (string \<times> string \<times> bool) option" where
  "getline s =
    (if s = [] then None
     else Some (takeWhile (\<lambda>c. c \<noteq> line_end) s, tl (dropWhile (\<lambda>c. c \<noteq> line_end) s), line_end \<in> set s))"

lemma getline_shorter: "getline s = Some (line, rest, good) \<Longrightarrow> length rest < length s"
  using length_dropWhile_le [of "\<lambda>c. c \<noteq> line_end" s] by (cases s) (auto simp: getline_def split: if_splits)

lemma getline_line: "line_end \<notin> set line \<Longrightarrow> getline (line @ line_end # rest) = Some (line, rest, True)"
  by (simp add: getline_def takeWhile_append dropWhile_append takeWhile_eq_all_conv)

text \<open>The lines that a loop \<open>while (std::getline(is, line))\<close> sees.\<close>

function all_lines :: "string \<Rightarrow> string list" where
  "all_lines s = (case getline s of None \<Rightarrow> [] | Some (line, rest, good) \<Rightarrow> line # all_lines rest)"
  by pat_completeness auto
termination
  by (relation "measure length") (auto simp: getline_shorter)

declare all_lines.simps [simp del]

lemma all_lines_lines:
  "list_all (\<lambda>l. line_end \<notin> set l) ls \<Longrightarrow> all_lines (concat (map (\<lambda>l. l @ [line_end]) ls)) = ls"
  by (induction ls) (simp_all add: all_lines.simps getline_line getline_def [of "[]"])

definition white_space :: "char \<Rightarrow> bool" where
  "white_space c \<longleftrightarrow> c = CHR '' '' \<or> (9 \<le> (of_char c :: nat) \<and> (of_char c :: nat) \<le> 13)"

text \<open>\<open>while (iss >> word)\<close>\<close>

function stream_words :: "string \<Rightarrow> string list" where
  "stream_words s =
    (let s = dropWhile white_space s
     in if s = [] then [] else takeWhile (\<lambda>c. \<not> white_space c) s # stream_words (dropWhile (\<lambda>c. \<not> white_space c) s))"
  by pat_completeness auto
termination
proof (relation "measure length")
  fix s s' :: string
  assume s: "s' = dropWhile white_space s" "s' \<noteq> []"
  then have "\<not> white_space (hd s')" using hd_dropWhile by metis
  then have "length (dropWhile (\<lambda>c. \<not> white_space c) s') < length s'"
    using s(2) length_dropWhile_le [of "\<lambda>c. \<not> white_space c" "tl s'"] by (cases s') auto
  also have "\<dots> \<le> length s" by (simp add: s(1) length_dropWhile_le)
  finally show "(dropWhile (\<lambda>c. \<not> white_space c) s', s) \<in> measure length" by simp
qed simp

declare stream_words.simps [simp del]

text \<open>
  \<open>iss >> number\<close> for an unsigned type: the number, the text behind it and whether the extraction
  succeeded.  An extraction at the end of the stream leaves the number as it was, one without digits
  sets it to 0, one that is too large to the greatest number; a minus sign negates.
\<close>

definition read_unsigned :: "'a::len word \<Rightarrow> string \<Rightarrow> 'a word \<times> string \<times> bool" where
  "read_unsigned old s =
    (let s = dropWhile white_space s in
     if s = [] then (old, [], False)
     else
       (let negative = (hd s = CHR ''-'');
            s = (if hd s \<in> {CHR ''-'', CHR ''+''} then tl s else s);
            digits = takeWhile digit s;
            n = read_nat digits
        in if digits = [] then (0, s, False)
           else if n \<ge> 2 ^ LENGTH('a) then (- 1, dropWhile digit s, False)
           else (if negative then - of_nat n else of_nat n, dropWhile digit s, True)))"

lemma digit_not_sign: "digit c \<Longrightarrow> c \<noteq> CHR ''-'' \<and> c \<noteq> CHR ''+'' \<and> \<not> white_space c"
  by (auto simp: digit_def white_space_def)

lemma white_space_tab: "white_space tab"
  by (simp add: white_space_def tab_def)

lemma read_unsigned_show:
  assumes "rest = [] \<or> \<not> digit (hd rest)"
  shows "read_unsigned old (tab # show_nat (unat (w :: 'a::len word)) @ rest) = (w, rest, True)"
proof -
  let ?s = "show_nat (unat w)"
  obtain d ds where s: "?s = d # ds" using show_nat_nonempty [of "unat w"] by (cases ?s) auto
  have d: "digit d" "list_all digit ?s" using show_nat_digits [of "unat w"] s by simp_all
  note n = digit_not_sign [OF d(1)]
  have "takeWhile digit (?s @ rest) = ?s" "dropWhile digit (?s @ rest) = rest"
    using d(2) assms by (auto simp: takeWhile_append dropWhile_append list_all_iff takeWhile_eq_Nil_iff dropWhile_eq_self_iff)
  moreover have "dropWhile white_space (tab # ?s @ rest) = ?s @ rest"
    using n by (simp add: s white_space_tab)
  moreover have "hd (?s @ rest) = d" by (simp add: s)
  moreover have "read_nat (d # ds) = unat w" using read_show_nat [of "unat w"] s by simp
  ultimately show ?thesis using n s
    by (simp add: read_unsigned_def Let_def not_le unsigned_less)
qed

section \<open>Valid UTF-8\<close>

lemma skip_cont_append: "skip_cont n a = Some r \<Longrightarrow> skip_cont n (a @ b) = Some (r @ b)"
  by (induction n a rule: skip_cont.induct) (auto split: if_splits)

lemma utf8_tail_append: "utf8_tail c a = Some r \<Longrightarrow> utf8_tail c (a @ b) = Some (r @ b)"
  by (cases a) (auto simp: utf8_tail_def numeral_eq_Suc split: if_splits intro: skip_cont_append
      dest: skip_cont_append [where b = b])

lemma valid_utf8_append: "valid_utf8_bytes a \<Longrightarrow> valid_utf8_bytes b \<Longrightarrow> valid_utf8_bytes (a @ b)"
proof (induction a rule: valid_utf8_bytes.induct)
  case (2 c rest)
  then obtain r where r: "utf8_tail c rest = Some r" "valid_utf8_bytes r" by (auto split: option.splits)
  then have "valid_utf8_bytes (r @ b)" using "2.IH" "2.prems"(2) by blast
  then show ?case using utf8_tail_append [OF r(1), of b] by simp
qed simp

lemma is_valid_utf8_append: "is_valid_utf8 a \<Longrightarrow> is_valid_utf8 b \<Longrightarrow> is_valid_utf8 (a @ b)"
  by (simp add: is_valid_utf8_def valid_utf8_append)

lemma is_valid_utf8_ascii: "list_all (\<lambda>c. of_char c < (128 :: nat)) s \<Longrightarrow> is_valid_utf8 s"
  by (induction s) (auto simp: is_valid_utf8_def utf8_tail_def)

section \<open>Phrase files\<close>

record phrase_parser =
  pp_rest :: string
  pp_id_offset :: u32

text \<open>The loop of \<open>PhraseFileParser::read\<close>; the flag says whether the stream is good afterwards.\<close>

function read_item_loop :: "bool \<Rightarrow> parser_item \<Rightarrow> string \<Rightarrow> (parser_item \<times> string \<times> bool) result" where
  "read_item_loop provides_id item s =
    (case getline s of
       None \<Rightarrow> Inr (item, [], False)
     | Some (line, rest, good) \<Rightarrow>
         if \<not> is_valid_utf8 line
         then Inl (RuntimeError (''Expected the string '' @ [CHR 0x22] @ line @ [CHR 0x22] @ '' to be valid UTF-8.''))
         else if tab \<in> set line then
           (let (freq, r, ok) = read_unsigned (pi_freq item) (dropWhile (\<lambda>c. c \<noteq> tab) line)
            in Inr (item\<lparr>pi_words := stream_words (takeWhile (\<lambda>c. c \<noteq> tab) line), pi_freq := freq,
                 pi_id := (if provides_id \<and> ok then fst (read_unsigned (pi_id item) r) else pi_id item)\<rparr>, rest, good))
         else read_item_loop provides_id item rest)"
  by pat_completeness auto
termination
  by (relation "measure (\<lambda>(p, i, s). length s)") (auto simp: getline_shorter)

declare read_item_loop.simps [simp del]

definition read_item :: "bool \<Rightarrow> parser_item \<Rightarrow> string \<Rightarrow> (parser_item \<times> string \<times> bool) result" where
  "read_item provides_id item s = read_item_loop provides_id (item\<lparr>pi_words := []\<rparr>) s"

definition read_next :: "bool \<Rightarrow> phrase_parser \<Rightarrow> parser_item \<Rightarrow> (bool \<times> phrase_parser \<times> parser_item) result" where
  "read_next provides_id p item =
    rbind (read_item provides_id item (pp_rest p)) (\<lambda>(item, rest, good).
      if provides_id then Inr (good, p\<lparr>pp_rest := rest\<rparr>, item)
      else (let i = pp_id_offset p + 1 in Inr (good, \<lparr>pp_rest = rest, pp_id_offset = i\<rparr>, item\<lparr>pi_id := i\<rparr>)))"

definition write_item :: "bool \<Rightarrow> parser_item \<Rightarrow> string" where
  "write_item provides_id item =
    join_with '' '' (pi_words item) @ [tab] @ show_nat (unat (pi_freq item))
      @ (if provides_id then [tab] @ show_nat (unat (pi_id item)) else []) @ [line_end]"

lemma read_item_loop_shorter:
  "read_item_loop provides_id item s = Inr (item', rest, good) \<Longrightarrow> good \<Longrightarrow> length rest < length s"
proof (induction provides_id item s rule: read_item_loop.induct)
  case (1 provides_id item s)
  show ?case
  proof (cases "getline s")
    case (Some y)
    obtain line r g where y: "y = (line, r, g)" by (cases y)
    have l: "length r < length s" using getline_shorter Some y by blast
    have "length rest < length r" if "is_valid_utf8 line" "tab \<notin> set line" "read_item_loop provides_id item r = Inr (item', rest, good)"
      using "1.IH" [OF Some, of line "(r, g)" r g] y that "1.prems"(2) by simp
    then show ?thesis using "1.prems" Some l
      by (auto simp: read_item_loop.simps [of provides_id item s] y Let_def split: if_splits prod.splits)
  qed (use 1 in \<open>simp add: read_item_loop.simps [of provides_id item s]\<close>)
qed

lemma read_next_shorter:
  "read_next provides_id p item = Inr (good, p', item') \<Longrightarrow> good \<Longrightarrow> length (pp_rest p') < length (pp_rest p)"
  by (auto simp: read_next_def read_item_def Let_def dest: read_item_loop_shorter split: if_splits)

text \<open>The items that a loop \<open>while (parser.read_next(item))\<close> sees.\<close>

function read_items :: "bool \<Rightarrow> phrase_parser \<Rightarrow> parser_item \<Rightarrow> parser_item list result" where
  "read_items provides_id p item =
    (case read_next provides_id p item of
       Inl e \<Rightarrow> Inl e
     | Inr (good, p, item) \<Rightarrow>
         if good then rbind (read_items provides_id p item) (\<lambda>items. Inr (item # items)) else Inr [])"
  by pat_completeness auto
termination
  by (relation "measure (\<lambda>(b, p, i). length (pp_rest p))") (auto dest: read_next_shorter)

declare read_items.simps [simp del]

section \<open>What is written is read back\<close>

definition plain_word :: "string \<Rightarrow> bool" where
  "plain_word w \<longleftrightarrow> w \<noteq> [] \<and> list_all (\<lambda>c. \<not> white_space c) w \<and> is_valid_utf8 w"

lemma white_space_chars: "white_space CHR '' ''" "white_space tab" "white_space line_end"
  by (simp_all add: white_space_def tab_def line_end_def)

lemma stream_words_word:
  assumes "list_all (\<lambda>c. \<not> white_space c) w" "w \<noteq> []" "rest = [] \<or> white_space (hd rest)"
  shows "stream_words (w @ rest) = w # stream_words rest"
proof -
  obtain c cs where w: "w = c # cs" "\<not> white_space c" using assms(1,2) by (cases w) auto
  have "takeWhile (\<lambda>c. \<not> white_space c) (w @ rest) = w" "dropWhile (\<lambda>c. \<not> white_space c) (w @ rest) = rest"
    using assms(1,3) by (auto simp: takeWhile_append dropWhile_append list_all_iff takeWhile_eq_Nil_iff dropWhile_eq_self_iff)
  moreover have "dropWhile white_space (w @ rest) = w @ rest" using w by simp
  ultimately show ?thesis using assms(2) stream_words.simps [of "w @ rest"] by (simp add: Let_def)
qed

lemma stream_words_Nil: "stream_words [] = []"
  by (simp add: stream_words.simps)

lemma stream_words_space: "white_space c \<Longrightarrow> stream_words (c # s) = stream_words s"
  using stream_words.simps [of "c # s"] stream_words.simps [of s] by (simp add: Let_def)

lemma stream_words_join: "list_all plain_word ws \<Longrightarrow> stream_words (join_with '' '' ws) = ws"
proof (induction "'' ''" ws rule: join_with.induct)
  case (3 w v ws)
  then show ?case
    using stream_words_word [of w "'' '' @ join_with '' '' (v # ws)"]
    by (simp add: plain_word_def white_space_chars stream_words_space)
next
  case (2 w)
  then show ?case using stream_words_word [of w "[]"] by (simp add: plain_word_def stream_words_Nil)
qed (simp add: stream_words_Nil)

lemma join_no_tab: "list_all plain_word ws \<Longrightarrow> tab \<notin> set (join_with '' '' ws) \<and> line_end \<notin> set (join_with '' '' ws)"
proof (induction "'' ''" ws rule: join_with.induct)
  case (3 w v ws)
  then show ?case using white_space_chars by (auto simp: plain_word_def list_all_iff tab_def line_end_def)
next
  case (2 w)
  then show ?case using white_space_chars by (auto simp: plain_word_def list_all_iff)
qed simp

lemma join_valid: "list_all plain_word ws \<Longrightarrow> is_valid_utf8 (join_with '' '' ws)"
proof (induction "'' ''" ws rule: join_with.induct)
  case (3 w v ws)
  have "is_valid_utf8 '' ''" by (rule is_valid_utf8_ascii) simp
  then show ?case using 3 is_valid_utf8_append [of w "'' '' @ join_with '' '' (v # ws)"]
      is_valid_utf8_append [of "'' ''" "join_with '' '' (v # ws)"] by (simp add: plain_word_def)
qed (simp_all add: plain_word_def is_valid_utf8_def)

lemma digits_valid: "list_all digit s \<Longrightarrow> list_all (\<lambda>c. of_char c < (128 :: nat)) s"
  by (auto simp: list_all_iff digit_def)

lemma digits_no_end: "list_all digit s \<Longrightarrow> line_end \<notin> set s \<and> tab \<notin> set s"
  by (auto simp: list_all_iff digit_def line_end_def tab_def)

text \<open>The line of an item, without its end.\<close>

definition item_line :: "bool \<Rightarrow> parser_item \<Rightarrow> string" where
  "item_line provides_id item =
    join_with '' '' (pi_words item) @ [tab] @ show_nat (unat (pi_freq item))
      @ (if provides_id then [tab] @ show_nat (unat (pi_id item)) else [])"

lemma write_item_line: "write_item provides_id item = item_line provides_id item @ [line_end]"
  by (simp add: write_item_def item_line_def)

lemma item_line_valid:
  assumes "list_all plain_word (pi_words item)"
  shows "line_end \<notin> set (item_line provides_id item)" "is_valid_utf8 (item_line provides_id item)"
proof -
  let ?n = "[tab] @ show_nat (unat (pi_freq item)) @ (if provides_id then [tab] @ show_nat (unat (pi_id item)) else [])"
  note d = show_nat_digits [of "unat (pi_freq item)"] show_nat_digits [of "unat (pi_id item)"]
  have "of_char tab < (128 :: nat)" "line_end \<noteq> tab" by (simp_all add: tab_def line_end_def)
  then have "list_all (\<lambda>c. of_char c < (128 :: nat)) ?n" "line_end \<notin> set ?n"
    using d [THEN digits_valid] d [THEN digits_no_end] by simp_all
  then show "line_end \<notin> set (item_line provides_id item)" "is_valid_utf8 (item_line provides_id item)"
    using join_no_tab [OF assms] is_valid_utf8_append [OF join_valid [OF assms] is_valid_utf8_ascii, of ?n]
    by (simp_all add: item_line_def)
qed

lemma read_written_item:
  assumes "list_all plain_word (pi_words item)"
  shows "read_item provides_id old (write_item provides_id item @ rest)
    = Inr (item\<lparr>pi_id := if provides_id then pi_id item else pi_id old\<rparr>, rest, True)"
proof -
  let ?j = "join_with '' '' (pi_words item)" and ?l = "item_line provides_id item"
  let ?tail = "if provides_id then [tab] @ show_nat (unat (pi_id item)) else []"
  note j = join_no_tab [OF assms]
  have g: "getline (write_item provides_id item @ rest) = Some (?l, rest, True)"
    using getline_line [OF item_line_valid(1) [OF assms]] by (simp add: write_item_line)
  have l: "?l = ?j @ tab # show_nat (unat (pi_freq item)) @ ?tail" by (simp add: item_line_def)
  have w: "takeWhile (\<lambda>c. c \<noteq> tab) ?l = ?j" "dropWhile (\<lambda>c. c \<noteq> tab) ?l = tab # show_nat (unat (pi_freq item)) @ ?tail"
    using j by (simp_all add: l takeWhile_append dropWhile_append takeWhile_eq_all_conv)
  have t: "?tail = [] \<or> \<not> digit (hd ?tail)" by (simp add: digit_def tab_def)
  have f: "read_unsigned (pi_freq old) (tab # show_nat (unat (pi_freq item)) @ ?tail) = (pi_freq item, ?tail, True)"
    by (rule read_unsigned_show [OF t])
  have i: "fst (read_unsigned (pi_id old) (tab # show_nat (unat (pi_id item)))) = pi_id item"
    using read_unsigned_show [of "[]" "pi_id old" "pi_id item"] by simp
  have "tab \<in> set ?l" by (simp add: l)
  then show ?thesis
    using g w f i item_line_valid(2) [OF assms] stream_words_join [OF assms]
    by (simp add: read_item_def read_item_loop.simps [of _ _ "write_item provides_id item @ rest"] Let_def)
qed

lemma read_written_items:
  assumes "list_all (\<lambda>item. list_all plain_word (pi_words item)) items"
  shows "read_items True \<lparr>pp_rest = concat (map (write_item True) items), pp_id_offset = off\<rparr> old = Inr items"
  using assms
proof (induction items arbitrary: old)
  case Nil
  then show ?case
    by (simp add: read_items.simps read_next_def read_item_def read_item_loop.simps getline_def Let_def)
next
  case (Cons item items)
  let ?t = "concat (map (write_item True) items)"
  have "read_next True \<lparr>pp_rest = write_item True item @ ?t, pp_id_offset = off\<rparr> old
      = Inr (True, \<lparr>pp_rest = ?t, pp_id_offset = off\<rparr>, item)"
    using read_written_item [of item True old ?t] Cons.prems by (simp add: read_next_def)
  then show ?case using Cons read_items.simps [of True "\<lparr>pp_rest = write_item True item @ ?t, pp_id_offset = off\<rparr>" old]
    by simp
qed

text \<open>
  Phrase files: reading the lines that \<open>PhraseFileParser<true>::write\<close> has written gives the same
  phrases with the same frequencies and ids, for words that are valid UTF-8 and hold no white space.
\<close>

theorem phrase_file_roundtrip:
  assumes "list_all (\<lambda>item. list_all plain_word (pi_words item)) items"
  shows "read_items True \<lparr>pp_rest = concat (map (write_item True) items), pp_id_offset = off\<rparr> old = Inr items"
  using assms by (rule read_written_items)

definition ex_old_item :: parser_item where
  "ex_old_item = \<lparr>pi_id = 0, pi_freq = 0, pi_words = []\<rparr>"

theorem phrase_file_roundtrip_witness:
  "read_items True \<lparr>pp_rest = ''a b'' @ [tab] @ ''12'' @ [tab] @ ''3'' @ [line_end], pp_id_offset = 0\<rparr> ex_old_item
    = Inr [\<lparr>pi_id = 3, pi_freq = 12, pi_words = [''a'', ''b'']\<rparr>]"
proof -
  have p: "list_all (\<lambda>item. list_all plain_word (pi_words item)) [\<lparr>pi_id = 3, pi_freq = 12, pi_words = [''a'', ''b'']\<rparr>]"
    by code_simp
  have w: "concat (map (write_item True) [\<lparr>pi_id = 3, pi_freq = 12, pi_words = [''a'', ''b'']\<rparr>])
      = ''a b'' @ [tab] @ ''12'' @ [tab] @ ''3'' @ [line_end]"
    by code_simp
  show ?thesis using phrase_file_roundtrip [OF p, of 0 ex_old_item] unfolding w .
qed

text \<open>
  The last line: \<open>read_next\<close> reports the state of the stream after the read, which is bad when
  the line it has read ends with the file.  A file without a line break at its end loses its last
  phrase.
\<close>

theorem last_line_lost:
  "read_items False \<lparr>pp_rest = ''a'' @ [tab] @ ''1'' @ [line_end] @ ''b'' @ [tab] @ ''2'', pp_id_offset = 0\<rparr> ex_old_item
      = Inr [\<lparr>pi_id = 1, pi_freq = 1, pi_words = [''a'']\<rparr>]
    \<and> read_items False \<lparr>pp_rest = ''a'' @ [tab] @ ''1'' @ [line_end] @ ''b'' @ [tab] @ ''2'' @ [line_end], pp_id_offset = 0\<rparr> ex_old_item
      = Inr [\<lparr>pi_id = 1, pi_freq = 1, pi_words = [''a'']\<rparr>, \<lparr>pi_id = 2, pi_freq = 2, pi_words = [''b'']\<rparr>]"
proof
  let ?a = "\<lparr>pi_id = 1, pi_freq = 1, pi_words = [''a'']\<rparr>" and ?b = "\<lparr>pi_id = 2, pi_freq = 2, pi_words = [''b'']\<rparr>"
  have w: "list_all plain_word [''a'']" "list_all plain_word [''b'']" by code_simp+
  have t: "''a'' @ [tab] @ ''1'' @ [line_end] = write_item False ?a" "''b'' @ [tab] @ ''2'' @ [line_end] = write_item False ?b"
    by code_simp+
  have ta: "''a'' @ [tab] @ ''1'' @ [line_end] @ r = write_item False ?a @ r" for r by (simp only: t(1) [symmetric] append_assoc)
  have tb: "''b'' @ [tab] @ ''2'' @ [line_end] = write_item False ?b @ []" using t(2) by (simp only: append_Nil2)
  have a: "read_next False \<lparr>pp_rest = ''a'' @ [tab] @ ''1'' @ [line_end] @ rest, pp_id_offset = 0\<rparr> ex_old_item
      = Inr (True, \<lparr>pp_rest = rest, pp_id_offset = 1\<rparr>, ?a)" for rest
    unfolding ta using read_written_item [of ?a False ex_old_item rest] w(1) by (simp add: read_next_def)
  have e: "read_items False \<lparr>pp_rest = [], pp_id_offset = n\<rparr> i = Inr []" for n i
    by (simp add: read_items.simps read_next_def read_item_def read_item_loop.simps getline_def Let_def)
  have two: "show_nat (unat (2 :: u64)) = ''2''" by code_simp
  have u: "is_valid_utf8 (''b'' @ [tab] @ ''2'')" by (rule is_valid_utf8_ascii) (simp add: tab_def)
  have "read_next False \<lparr>pp_rest = ''b'' @ [tab] @ ''2'', pp_id_offset = 1\<rparr> ?a = Inr (False, \<lparr>pp_rest = [], pp_id_offset = 2\<rparr>, ?b)"
    using u stream_words_word [of "''b''" "[]"] read_unsigned_show [of "[]" 1 "2 :: u64"] two
    by (simp add: read_next_def read_item_def read_item_loop.simps getline_def tab_def line_end_def
        stream_words_Nil white_space_def)
  then show "read_items False \<lparr>pp_rest = ''a'' @ [tab] @ ''1'' @ [line_end] @ ''b'' @ [tab] @ ''2'', pp_id_offset = 0\<rparr> ex_old_item
      = Inr [?a]"
    using a [of "''b'' @ [tab] @ ''2''"] by (simp add: read_items.simps)
  have "read_next False \<lparr>pp_rest = ''b'' @ [tab] @ ''2'' @ [line_end], pp_id_offset = 1\<rparr> ?a
      = Inr (True, \<lparr>pp_rest = [], pp_id_offset = 2\<rparr>, ?b)"
    unfolding tb using read_written_item [of ?b False ?a "[]"] w(2) by (simp add: read_next_def)
  then show "read_items False \<lparr>pp_rest = ''a'' @ [tab] @ ''1'' @ [line_end] @ ''b'' @ [tab] @ ''2'' @ [line_end], pp_id_offset = 0\<rparr> ex_old_item
      = Inr [?a, ?b]"
    using a [of "''b'' @ [tab] @ ''2'' @ [line_end]"] e by (simp add: read_items.simps)
qed

section \<open>Dictionaries\<close>

text \<open>\<open>boost::split\<close> at tabs, without compression: between two delimiters there is an empty token.\<close>

fun split_tabs :: "string \<Rightarrow> string list" where
  "split_tabs [] = [[]]"
| "split_tabs (c # cs) =
    (if c = tab then [] # split_tabs cs
     else case split_tabs cs of [] \<Rightarrow> [[c]] | t # ts \<Rightarrow> (c # t) # ts)"

text \<open>The multimap as the list of its pairs in the order of insertion.\<close>

fun parse_csv_loop :: "string list \<Rightarrow> (string \<times> string) list \<Rightarrow> (string \<times> string) list" where
  "parse_csv_loop [] dict = dict"
| "parse_csv_loop (line # lines) dict =
    (let tokens = split_tabs line
     in if length tokens < 2 then parse_csv_loop lines dict
        else parse_csv_loop lines (dict @ map (Pair (hd tokens)) (tl tokens)))"

definition parse_csv :: "string \<Rightarrow> (string \<times> string) list" where
  "parse_csv s = parse_csv_loop (all_lines s) []"

definition read_dictionary :: "(string \<Rightarrow> string option) \<Rightarrow> string \<Rightarrow> (string \<times> string) list result" where
  "read_dictionary read_file csv =
    (case read_file csv of None \<Rightarrow> Inl (RuntimeError (''cannot open : '' @ [CHR 0x22] @ csv @ [CHR 0x22])) | Some s \<Rightarrow> Inr (parse_csv s))"

lemma split_tabs_token: "tab \<notin> set t \<Longrightarrow> split_tabs t = [t]"
  by (induction t) auto

lemma split_tabs_join: "ts \<noteq> [] \<Longrightarrow> list_all (\<lambda>t. tab \<notin> set t) ts \<Longrightarrow> split_tabs (join_with [tab] ts) = ts"
proof (induction "[tab]" ts rule: join_with.induct)
  case (3 w v ws)
  have "split_tabs (w @ tab # s) = w # split_tabs s" if "tab \<notin> set w" for s
    using that by (induction w) (auto split: list.splits)
  then show ?case using 3 by simp
qed (simp_all add: split_tabs_token)

lemma parse_csv_loop_append: "parse_csv_loop lines dict = dict @ parse_csv_loop lines []"
proof (induction lines arbitrary: dict)
  case (Cons line lines)
  show ?case using Cons.IH [of "dict @ map (Pair (hd (split_tabs line))) (tl (split_tabs line))"]
      Cons.IH [of "map (Pair (hd (split_tabs line))) (tl (split_tabs line))"] Cons.IH [of dict]
    by (simp add: Let_def)
qed simp

lemma join_chars: "list_all (\<lambda>t. c \<notin> set t) ts \<Longrightarrow> c \<notin> set sep \<Longrightarrow> c \<notin> set (join_with sep ts)"
  by (induction sep ts rule: join_with.induct) auto

definition csv_line :: "string \<times> string list \<Rightarrow> string" where
  "csv_line e = join_with [tab] (fst e # snd e)"

lemma parse_csv_line:
  assumes "snd e \<noteq> []" "list_all (\<lambda>t. tab \<notin> set t) (fst e # snd e)"
  shows "parse_csv_loop (csv_line e # lines) [] = map (Pair (fst e)) (snd e) @ parse_csv_loop lines []"
proof -
  have "split_tabs (csv_line e) = fst e # snd e" using split_tabs_join [OF _ assms(2)] by (simp add: csv_line_def)
  moreover have "\<not> length (fst e # snd e) < 2" using assms(1) by (cases "snd e") auto
  ultimately have "parse_csv_loop (csv_line e # lines) [] = parse_csv_loop lines (map (Pair (fst e)) (snd e))"
    by (simp add: Let_def)
  then show ?thesis by (metis parse_csv_loop_append)
qed

text \<open>
  Dictionaries: the words that are written as lines of a key and its values, with tabs between
  them, are read back in order; keys and values may hold any character but tabs and line breaks.
\<close>

theorem dictionary_roundtrip:
  assumes "list_all (\<lambda>e. snd e \<noteq> [] \<and> list_all (\<lambda>t. tab \<notin> set t \<and> line_end \<notin> set t) (fst e # snd e)) entries"
  shows "parse_csv (concat (map (\<lambda>e. csv_line e @ [line_end]) entries)) = concat (map (\<lambda>e. map (Pair (fst e)) (snd e)) entries)"
proof -
  have "line_end \<notin> set (csv_line e)" if "e \<in> set entries" for e
    unfolding csv_line_def using assms that by (intro join_chars) (auto simp: list_all_iff tab_def line_end_def)
  then have "list_all (\<lambda>l. line_end \<notin> set l) (map csv_line entries)" by (simp add: list_all_iff)
  then have "all_lines (concat (map (\<lambda>e. csv_line e @ [line_end]) entries)) = map csv_line entries"
    using all_lines_lines [of "map csv_line entries"] by (simp add: comp_def)
  moreover have "parse_csv_loop (map csv_line entries) [] = concat (map (\<lambda>e. map (Pair (fst e)) (snd e)) entries)"
    using assms by (induction entries) (simp_all add: parse_csv_line list_all_iff del: parse_csv_loop.simps(2))
  ultimately show ?thesis by (simp add: parse_csv_def)
qed

theorem dictionary_roundtrip_witness:
  "parse_csv (''big'' @ [tab] @ ''very large'' @ [tab] @ ''huge'' @ [line_end])
    = [(''big'', ''very large''), (''big'', ''huge'')]"
proof -
  have e: "list_all (\<lambda>e. snd e \<noteq> [] \<and> list_all (\<lambda>t. tab \<notin> set t \<and> line_end \<notin> set t) (fst e # snd e))
      [(''big'', [''very large'', ''huge''])]"
    by code_simp
  show ?thesis using dictionary_roundtrip [OF e] by (simp add: csv_line_def)
qed

end
