(* ===== verification/Storage.thy ===== *)
theory Storage
  imports Postlist_Files Text_Files
begin

text \<open>
  The storage of an inverted index: \<open>StorageWriter\<close>, which appends posting lists to data files of about
  one gigabyte and writes the address of each to a text table, and \<open>StorageReader\<close> and \<open>Searcher\<close>, which
  look an address up in the perfect hash map built of that table and read the posting list there.
\<close>

section \<open>Writing\<close>

type_synonym address = "u16 \<times> u32"

record storage_writer =
  st_files :: "u8 list list"
  st_count :: u16
  st_opened :: bool
  st_table :: string

definition new_storage :: storage_writer where
  "new_storage = \<lparr>st_files = [], st_count = 0, st_opened = False, st_table = []\<rparr>"

definition data_file_size_max :: u64 where
  "data_file_size_max = 1024 * 1024 * 1024"

text \<open>\<open>fopen\<close> of \<open>data.n\<close> for writing: a new file, or the old one emptied.\<close>

definition next_file :: "storage_writer \<Rightarrow> storage_writer" where
  "next_file st =
    (let n = unat (st_count st)
     in st\<lparr>st_files := (if n < length (st_files st) then (st_files st)[n := []] else st_files st @ [Nil]),
          st_count := st_count st + 1, st_opened := True\<rparr>)"

definition current_file :: "storage_writer \<Rightarrow> u8 list" where
  "current_file st = st_files st ! unat (st_count st - 1)"

definition printed_record :: "string \<Rightarrow> address \<Rightarrow> string result" where
  "printed_record key a =
    (if tab \<in> set key then Inl (InvalidArgument (''std::string tuple element contains delimiter character : '' @ key))
     else Inr (key @ tab # show_nat (unat (fst a)) @ tab # show_nat (unat (snd a)) @ [line_end]))"

definition storage_write :: "storage_writer \<Rightarrow> string \<Rightarrow> postlist \<Rightarrow> (bool \<times> storage_writer) result option" where
  "storage_write st key p =
    (if pl_size p = 0 then Some (Inr (False, st))
     else if key = [] then Some (Inl (InvalidArgument ''Cannot write empty key''))
     else
       (let st = (if \<not> st_opened st then next_file st
                  else if of_nat (length (current_file st)) + pl_byte_size p > data_file_size_max then next_file st
                  else st);
            address = (st_count st - 1, of_nat (length (current_file st)))
        in obind (pl_write p) (\<lambda>(out, p).
             Some (rbind (printed_record key address) (\<lambda>line.
               Inr (True, st\<lparr>st_files := (st_files st)[unat (st_count st - 1) := current_file st @ out],
                             st_table := st_table st @ line\<rparr>))))))"

text \<open>\<open>close\<close>: the text table from which \<open>bighashmap::Builder\<close> makes the header table, if any file was opened.\<close>

definition storage_close :: "storage_writer \<Rightarrow> string option" where
  "storage_close st = (if st_opened st then Some (st_table st) else None)"

section \<open>Reading\<close>

text \<open>The header table answers with an address; \<open>None\<close> is a storage that is not open.\<close>

type_synonym header_table = "string \<Rightarrow> address option result"

record storage_reader =
  sr_table :: "header_table option"
  sr_files :: "u8 list list"

definition closed_storage :: storage_reader where
  "closed_storage = \<lparr>sr_table = None, sr_files = []\<rparr>"

definition storage_is_open :: "storage_reader \<Rightarrow> bool" where
  "storage_is_open sr \<longleftrightarrow> sr_files sr \<noteq> []"

definition storage_open :: "header_table result \<Rightarrow> u8 list list \<Rightarrow> storage_reader \<Rightarrow> storage_reader result" where
  "storage_open open_table data_files sr =
    (if storage_is_open sr then Inr sr
     else rbind open_table (\<lambda>t. Inr \<lparr>sr_table = Some t, sr_files = data_files\<rparr>))"

definition storage_address :: "storage_reader \<Rightarrow> string \<Rightarrow> address option result" where
  "storage_address sr key =
    (case sr_table sr of
       None \<Rightarrow> Inr None
     | Some get \<Rightarrow> rbind (get key) (\<lambda>a.
         case a of
           None \<Rightarrow> Inr None
         | Some (n, offset) \<Rightarrow> Inr (if unat n < length (sr_files sr) then Some (n, offset) else None)))"

definition storage_read_head :: "storage_reader \<Rightarrow> string \<Rightarrow> head option result" where
  "storage_read_head sr key = rbind (storage_address sr key) (\<lambda>a.
     case a of
       None \<Rightarrow> Inr None
     | Some (n, offset) \<Rightarrow> rbind (read_head (sr_files sr ! unat n) (unat offset)) (\<lambda>h. Inr (Some h)))"

definition storage_read_postlist :: "storage_reader \<Rightarrow> string \<Rightarrow> u32 \<Rightarrow> u32 \<Rightarrow> u32 \<Rightarrow> postlist option result" where
  "storage_read_postlist sr key begin len page_size = rbind (storage_address sr key) (\<lambda>a.
     case a of
       None \<Rightarrow> Inr None
     | Some (n, offset) \<Rightarrow>
         rbind (postlist_read (sr_files sr ! unat n) (unat offset) begin len page_size) (\<lambda>(p, pos). Inr (Some p)))"

section \<open>Searcher\<close>

datatype value_sorting = SortingDisabled | SortingAscending | SortingDescending

record index_properties =
  ip_value_sorting :: value_sorting
  ip_version_number :: u32
  ip_value_type :: string
  ip_value_count :: u64
  ip_total_size :: u64
  ip_key_count :: u64

definition k_version_number :: u32 where
  "k_version_number = 103"

definition assert_properties :: "string \<Rightarrow> index_properties \<Rightarrow> unit result" where
  "assert_properties type_name props =
    (if ip_version_number props \<noteq> k_version_number
     then Inl (LogicError (''Version conflict : The version number of the index you want load is ''
       @ show_nat (unat (ip_version_number props)) @ '', but your installed library is of different version ''
       @ show_nat (unat k_version_number) @ ''. Please install the correct library.''))
     else if type_name \<noteq> ip_value_type props
     then Inl (LogicError (''Wrong value type : The value type of the index you want load is ''
       @ ip_value_type props @ '', but your value type parameterization is '' @ type_name
       @ ''. Please reload with the correct value type.''))
     else Inr ())"

definition searcher_open :: "string \<Rightarrow> index_properties \<Rightarrow> header_table result \<Rightarrow> u8 list list \<Rightarrow> storage_reader \<Rightarrow> storage_reader result" where
  "searcher_open type_name props open_table data_files sr =
    (if storage_is_open sr then Inr sr
     else rbind (assert_properties type_name props) (\<lambda>_.
       if ip_key_count props = 0 then Inr sr else storage_open open_table data_files sr))"

text \<open>\<open>search_postlist\<close> with the default size of a page; every exception is logged and the result is null.\<close>

definition search_stored :: "storage_reader \<Rightarrow> string \<Rightarrow> u32 \<Rightarrow> u32 \<Rightarrow> postlist option" where
  "search_stored sr key begin len =
    (case storage_read_postlist sr key begin len (of_nat swap_pagesize) of Inl e \<Rightarrow> None | Inr p \<Rightarrow> p)"

section \<open>What has been written\<close>

definition stored_at :: "'v value_traits \<Rightarrow> 'v list \<Rightarrow> u8 list \<Rightarrow> nat \<Rightarrow> bool" where
  "stored_at t vs file pos \<longleftrightarrow> (\<exists>pre x rest. file = pre @ x @ rest \<and> length pre = pos \<and> stored t vs x)"

lemma stored_at_append: "stored_at t vs file pos \<Longrightarrow> stored_at t vs (file @ out) pos"
  unfolding stored_at_def by (metis append_assoc)

lemma stored_at_end: "stored t vs out \<Longrightarrow> stored_at t vs (file @ out) (length file)"
  unfolding stored_at_def by (metis append_Nil2)

type_synonym 'v stored_entry = "string \<times> 'v list \<times> address"

definition address_line :: "string \<Rightarrow> address \<Rightarrow> string" where
  "address_line key a = key @ tab # show_nat (unat (fst a)) @ tab # show_nat (unat (snd a))"

definition entry_line :: "'v stored_entry \<Rightarrow> string" where
  "entry_line e = (case e of (key, vs, a) \<Rightarrow> address_line key a @ [line_end])"

definition entry_room :: "'v value_traits \<Rightarrow> 'v list \<Rightarrow> nat" where
  "entry_room t vs = 12 + 4 * length vs + length (bytes_of_values t vs)"

definition bytes_written :: "'v value_traits \<Rightarrow> 'v stored_entry list \<Rightarrow> nat" where
  "bytes_written t es = sum_list (map (\<lambda>(key, vs, a). entry_room t vs) es)"

definition entry_at :: "'v value_traits \<Rightarrow> u8 list list \<Rightarrow> 'v stored_entry \<Rightarrow> bool" where
  "entry_at t files e = (case e of (key, vs, n, offset) \<Rightarrow>
     vs \<noteq> [] \<and> list_fits t vs \<and> unat n < length files \<and> stored_at t vs (files ! unat n) (unat offset))"

text \<open>
  The invariant of the writer.  The last line is the reason why the file numbers do not wrap: two
  files that follow each other hold more than a gigabyte.
\<close>

definition writer_ok :: "'v value_traits \<Rightarrow> 'v stored_entry list \<Rightarrow> storage_writer \<Rightarrow> bool" where
  "writer_ok t es st \<longleftrightarrow> (es = [] \<longrightarrow> st = new_storage) \<and> (es \<noteq> [] \<longrightarrow> st_opened st \<and> st_files st \<noteq> [])
    \<and> st_table st = concat (map entry_line es) \<and> unat (st_count st) = length (st_files st)
    \<and> list_all (entry_at t (st_files st)) es
    \<and> sum_list (map length (st_files st)) \<le> bytes_written t es
    \<and> (st_files st \<noteq> [] \<longrightarrow> length (last (st_files st)) < 2 ^ 35
      \<and> (length (st_files st) - 1) * 2 ^ 30 + length (last (st_files st)) \<le> 2 * sum_list (map length (st_files st)))"


lemma writer_ok_new: "writer_ok t [] new_storage"
  by (simp add: writer_ok_def new_storage_def bytes_written_def)

lemma write_size:
  assumes "holds t vs p" "list_fits t vs"
  shows "pl_byte_size p = of_nat (12 + length (size_bytes (it_layout (pl_iter p))) + length (bytes_of_values t vs))"
    "length (size_bytes (it_layout (pl_iter p))) \<le> 4 * length vs"
proof -
  have l: "layout_ok t (it_layout (pl_iter p)) vs" by (rule iter_ok_layout [OF holds_iter [OF assms(1)]])
  have f: "length (bytes_of_values t vs) < 2 ^ 31" using assms(2) by (simp add: list_fits_def)
  have "pl_byte_size p = of_nat (12 + length (size_bytes (it_layout (pl_iter p))) + length (bytes_of_values t vs))
      \<and> length (size_bytes (it_layout (pl_iter p))) \<le> 4 * length vs"
  proof (cases "it_layout (pl_iter p)")
    case (ConstantSize n s)
    then have "length (bytes_of_values t vs) = n * s" using l constant_bytes [of t s vs] by (simp add: layout_ok_def)
    then show ?thesis using ConstantSize by (simp add: pl_byte_size_def it_byte_size_def size_bytes_def)
  next
    case (VariableSize ss)
    then have m: "map unat ss = map (size_of t) vs" using l by (simp add: layout_ok_def)
    note scast_sum(1) [OF m f]
    moreover have "length ss = length vs" using m by (rule map_eq_imp_length_eq)
    moreover have "length (concat (map (\<lambda>s. le_bytes 4 (unat (s :: u32))) ss)) = 4 * length ss" by (induction ss) simp_all
    ultimately show ?thesis using VariableSize
      by (simp add: pl_byte_size_def it_byte_size_def size_bytes_def ac_simps)
  qed
  then show "pl_byte_size p = of_nat (12 + length (size_bytes (it_layout (pl_iter p))) + length (bytes_of_values t vs))"
    "length (size_bytes (it_layout (pl_iter p))) \<le> 4 * length vs" by blast+
qed

text \<open>The file that is open after the size has been checked.\<close>

definition ready :: "'v value_traits \<Rightarrow> 'v stored_entry list \<Rightarrow> nat \<Rightarrow> storage_writer \<Rightarrow> bool" where
  "ready t es room st \<longleftrightarrow> st_opened st \<and> st_files st \<noteq> [] \<and> st_table st = concat (map entry_line es)
    \<and> unat (st_count st) = length (st_files st) \<and> list_all (entry_at t (st_files st)) es
    \<and> sum_list (map length (st_files st)) \<le> bytes_written t es \<and> length (last (st_files st)) \<le> 2 ^ 30
    \<and> (length (st_files st) - 1) * 2 ^ 30 + length (last (st_files st)) + room \<le> 2 * (sum_list (map length (st_files st)) + room)"

lemma file_count:
  assumes "writer_ok t es st" "bytes_written t es \<le> 2 ^ 44"
  shows "length (st_files st) < 65535"
proof (cases "st_files st = []")
  case False
  then have "(length (st_files st) - 1) * 2 ^ 30 \<le> 2 * 2 ^ 44" using assms by (auto simp: writer_ok_def)
  then have "length (st_files st) - 1 \<le> 2 ^ 15" by simp
  then show ?thesis by simp
qed simp

lemma next_file_ok:
  assumes "unat (st_count st) = length (st_files st)" "length (st_files st) < 65535"
  shows "st_files (next_file st) = st_files st @ [Nil]" "unat (st_count (next_file st)) = Suc (length (st_files st))"
    "st_opened (next_file st)" "st_table (next_file st) = st_table st"
proof -
  have "unat (st_count st) + unat (1 :: u16) < 2 ^ LENGTH(16)" using assms by simp
  from unat_add_lem [THEN iffD1, OF this] show "unat (st_count (next_file st)) = Suc (length (st_files st))"
    using assms(1) by (simp add: next_file_def Let_def)
qed (use assms(1) in \<open>simp_all add: next_file_def Let_def\<close>)

lemma entry_at_more: "entry_at t files e \<Longrightarrow> entry_at t (files @ fs) e"
  by (auto simp: entry_at_def nth_append)


lemma last_file: "st_files st \<noteq> [] \<Longrightarrow> unat (st_count st) = length (st_files st) \<Longrightarrow> length (st_files st) < 65536
  \<Longrightarrow> unat (st_count st - 1) = length (st_files st) - 1 \<and> current_file st = last (st_files st)"
proof -
  assume a: "st_files st \<noteq> []" "unat (st_count st) = length (st_files st)"
  then have "(1 :: u16) \<le> st_count st" by (cases "st_files st") (simp_all add: word_le_nat_alt)
  then have "unat (st_count st - 1) = length (st_files st) - 1" using a(2) by (simp add: unat_sub)
  then show ?thesis using a(1) by (simp add: current_file_def last_conv_nth)
qed

lemma ready_ok:
  assumes "writer_ok t es st" "bytes_written t es \<le> 2 ^ 44" "room < 2 ^ 34"
  defines "st' \<equiv> if \<not> st_opened st then next_file st
    else if of_nat (length (current_file st)) + of_nat room > data_file_size_max then next_file st else st"
  shows "ready t es room st' \<and> length (st_files st') < 65536"
proof -
  note n = file_count [OF assms(1,2)]
  have c: "unat (st_count st) = length (st_files st)" and ops: "es = [] \<longrightarrow> st = new_storage" "es \<noteq> [] \<longrightarrow> st_opened st \<and> st_files st \<noteq> []"
    and tb: "st_table st = concat (map entry_line es)" and at: "list_all (entry_at t (st_files st)) es"
    and sm: "sum_list (map length (st_files st)) \<le> bytes_written t es"
    using assms(1) by (simp_all add: writer_ok_def)
  note nf = next_file_ok [OF c n]
  have at': "list_all (entry_at t (st_files st @ [Nil])) es" using at by (auto simp: list_all_iff entry_at_more)
  show ?thesis
  proof (cases "st_opened st")
    case False
    then have "es = []" "st_files st = []" using ops by (auto simp: new_storage_def)
    then show ?thesis using nf False tb by (simp add: ready_def st'_def bytes_written_def)
  next
    case True
    then have ne: "st_files st \<noteq> []" using ops by (cases "es = []") (auto simp: new_storage_def)
    have lf: "current_file st = last (st_files st)" using last_file [OF ne c] n by simp
    have b: "length (last (st_files st)) < 2 ^ 35"
      "(length (st_files st) - 1) * 2 ^ 30 + length (last (st_files st)) \<le> 2 * sum_list (map length (st_files st))"
      using assms(1) ne by (simp_all add: writer_ok_def)
    have u: "of_nat (length (current_file st)) + of_nat room > data_file_size_max \<longleftrightarrow> 2 ^ 30 < length (last (st_files st)) + room"
    proof -
      have "unat (of_nat (length (last (st_files st)) + room) :: u64) = length (last (st_files st)) + room"
        using b(1) assms(3) by (intro unat_of_nat_u64) simp
      then show ?thesis unfolding lf by (simp add: word_less_nat_alt data_file_size_max_def)
    qed
    show ?thesis
    proof (cases "2 ^ 30 < length (last (st_files st)) + room")
      case True
      then have s: "st' = next_file st" using u \<open>st_opened st\<close> by (simp add: st'_def)
      obtain k where "length (st_files st) = Suc k" using ne by (cases "st_files st") simp_all
      then have "length (st_files st) * 2 ^ 30 + room \<le> 2 * (sum_list (map length (st_files st)) + room)"
        using True b(2) by simp
      then show ?thesis unfolding s using nf at' tb sm n by (simp add: ready_def)
    next
      case False
      then have "st' = st" using u \<open>st_opened st\<close> by (simp add: st'_def)
      then show ?thesis using True False ne tb c at sm n b(2) by (simp add: ready_def)
    qed
  qed
qed


lemma entry_at_last: "entry_at t (fs @ [f]) e \<Longrightarrow> entry_at t (fs @ [f @ out]) e"
  by (auto simp: entry_at_def nth_append less_Suc_eq stored_at_append split: if_splits)

lemma storage_write_ok:
  assumes "writer_ok t es st" "holds t vs p" "list_fits t vs" "vs \<noteq> []" "key \<noteq> []" "tab \<notin> set key"
    and "bytes_written t es \<le> 2 ^ 44"
  shows "\<exists>st' a. storage_write st key p = Some (Inr (True, st')) \<and> writer_ok t (es @ [(key, vs, a)]) st'"
proof -
  obtain out it where out: "pl_write p = Some (Inr (out, p\<lparr>pl_iter := it\<rparr>))" "stored t vs out"
    using stored_write [OF assms(2)] by blast
  have lo: "length out = 12 + length (size_bytes (it_layout (pl_iter p))) + length (bytes_of_values t vs)"
    using pl_write_ok [OF assms(2)] out(1) by (auto simp: head_bytes_def)
  note w = write_size [OF assms(2,3), folded lo]
  have f: "length (bytes_of_values t vs) < 2 ^ 31" "length vs \<le> length (bytes_of_values t vs)"
    using assms(3) length_le_bytes_of [of t vs] by (auto simp: list_fits_def values_fit_def list_all_iff)
  have room: "length out < 2 ^ 35 - 2 ^ 30" "length out < 2 ^ 34" "length out \<le> entry_room t vs"
    using lo w(2) f by (simp_all add: entry_room_def)
  define st1 where "st1 = (if \<not> st_opened st then next_file st
    else if of_nat (length (current_file st)) + of_nat (length out) > data_file_size_max then next_file st else st)"
  have rd: "ready t es (length out) st1" "length (st_files st1) < 65536"
    using ready_ok [OF assms(1,7) room(2), folded st1_def] by blast+
  then have r: "st_files st1 \<noteq> []" "unat (st_count st1) = length (st_files st1)" "st_table st1 = concat (map entry_line es)"
      "list_all (entry_at t (st_files st1)) es" "sum_list (map length (st_files st1)) \<le> bytes_written t es"
      "length (last (st_files st1)) \<le> 2 ^ 30"
      "(length (st_files st1) - 1) * 2 ^ 30 + length (last (st_files st1)) + length out
        \<le> 2 * (sum_list (map length (st_files st1)) + length out)"
      "st_opened st1"
    by (simp_all add: ready_def)
  obtain fs f where fs: "st_files st1 = fs @ [f]" using r(1) by (metis append_butlast_last_id)
  have n: "unat (st_count st1 - 1) = length fs" "current_file st1 = f"
    using last_file [OF r(1,2) rd(2)] fs by simp_all
  define a where "a = (st_count st1 - 1, of_nat (length f) :: u32)"
  define st' where "st' = st1\<lparr>st_files := fs @ [f @ out], st_table := st_table st1 @ entry_line (key, vs, a)\<rparr>"
  have "pl_size p \<noteq> 0" using holds_size [OF assms(2)] assms(4) by simp
  then have "storage_write st key p = Some (Inr (True, st'))"
    unfolding storage_write_def w(1) Let_def st1_def [symmetric]
    using assms(5,6) out(1) n fs
    by (simp add: printed_record_def st'_def a_def entry_line_def address_line_def)
  moreover have "writer_ok t (es @ [(key, vs, a)]) st'"
  proof -
    have off: "unat (snd a) = length f" using r(6) fs by (simp add: a_def unat_of_nat_u32)
    have "entry_at t (fs @ [f @ out]) (key, vs, a)"
      using stored_at_end [OF out(2), of f] off n(1) assms(3,4) by (cases a) (simp add: entry_at_def a_def)
    moreover have "list_all (entry_at t (fs @ [f @ out])) es"
      using r(4) unfolding fs by (auto simp: list_all_iff intro: entry_at_last)
    moreover have "length f + length out < 2 ^ 35" using r(6) room(1) fs by simp
    ultimately show ?thesis
      using r(2,3,5,7,8) fs room(3) by (simp add: writer_ok_def st'_def bytes_written_def)
  qed
  ultimately show ?thesis by blast
qed


text \<open>\<open>write\<close> for a list of posting lists, each built by a \<open>PostlistBuilder\<close>.\<close>

fun write_all :: "'v value_traits \<Rightarrow> storage_writer \<Rightarrow> (string \<times> 'v list) list \<Rightarrow> storage_writer result option" where
  "write_all t st [] = Some (Inr st)"
| "write_all t st ((key, vs) # kvs) =
    obind (Some (build t (fold (push_back t) vs (new_postlist_builder default_page_size)))) (\<lambda>(p, b).
      obind (storage_write st key p) (\<lambda>(done, st). write_all t st kvs))"

lemma bytes_written_append [simp]:
  "bytes_written t (es @ fs) = bytes_written t es + bytes_written t fs"
  "bytes_written t ((key, vs, a) # fs) = entry_room t vs + bytes_written t fs"
  "bytes_written t [] = 0"
  by (simp_all add: bytes_written_def)

lemma list_fits_default: "list_fits t vs \<Longrightarrow> values_fit t default_page_size vs"
  by (auto simp: list_fits_def values_fit_def list_all_iff swap_pagesize_def default_page_size_def)

lemma write_all_ok:
  assumes "writer_ok t es st"
    and "list_all (\<lambda>(key, vs). key \<noteq> [] \<and> tab \<notin> set key \<and> list_fits t vs) kvs"
    and "bytes_written t es + sum_list (map (\<lambda>(key, vs). entry_room t vs) kvs) \<le> 2 ^ 44"
  shows "\<exists>st' es'. write_all t st kvs = Some (Inr st') \<and> writer_ok t (es @ es') st'
    \<and> map (\<lambda>(key, vs, a). (key, vs)) es' = filter (\<lambda>(key, vs). vs \<noteq> []) kvs"
  using assms
proof (induction kvs arbitrary: es st)
  case (Cons kv kvs)
  obtain key vs where kv: "kv = (key, vs)" by (cases kv)
  then have k: "key \<noteq> []" "tab \<notin> set key" "list_fits t vs" using Cons.prems(2) by simp_all
  obtain p b where p: "build t (fold (push_back t) vs (new_postlist_builder default_page_size)) = Inr (p, b)" "holds t vs p"
    using built_list [OF list_fits_default [OF k(3)]] by blast
  have r: "list_all (\<lambda>(key, vs). key \<noteq> [] \<and> tab \<notin> set key \<and> list_fits t vs) kvs" using Cons.prems(2) by simp
  show ?case
  proof (cases "vs = []")
    case True
    then have "storage_write st key p = Some (Inr (False, st))"
      using holds_size [OF p(2)] by (simp add: storage_write_def)
    moreover have "bytes_written t es + sum_list (map (\<lambda>(key, vs). entry_room t vs) kvs) \<le> 2 ^ 44"
      using Cons.prems(3) kv by simp
    ultimately show ?thesis using Cons.IH [OF Cons.prems(1) r] p(1) kv True by simp
  next
    case False
    have "bytes_written t es \<le> 2 ^ 44" using Cons.prems(3) by simp
    then obtain st1 a where st1: "storage_write st key p = Some (Inr (True, st1))" "writer_ok t (es @ [(key, vs, a)]) st1"
      using storage_write_ok [OF Cons.prems(1) p(2) k(3) False k(1,2)] by blast
    have "bytes_written t (es @ [(key, vs, a)]) + sum_list (map (\<lambda>(key, vs). entry_room t vs) kvs) \<le> 2 ^ 44"
      using Cons.prems(3) kv by simp
    from Cons.IH [OF st1(2) r this] obtain st' es' where
      "write_all t st1 kvs = Some (Inr st')" "writer_ok t ((es @ [(key, vs, a)]) @ es') st'"
      "map (\<lambda>(key, vs, a). (key, vs)) es' = filter (\<lambda>(key, vs). vs \<noteq> []) kvs"
      by blast
    then show ?thesis using st1(1) p(1) kv False by (intro exI [of _ st'] exI [of _ "(key, vs, a) # es'"]) simp
  qed
qed simp



section \<open>Reading back\<close>

text \<open>What the header table has to do for the keys of the text table it was built of.\<close>

definition header_table_ok :: "string \<Rightarrow> header_table \<Rightarrow> bool" where
  "header_table_ok table get \<longleftrightarrow>
    (\<forall>key a. tab \<notin> set key \<longrightarrow> address_line key a \<in> set (all_lines table) \<longrightarrow> get key = Inr (Some a))"

definition plain_key :: "string \<Rightarrow> bool" where
  "plain_key key \<longleftrightarrow> key \<noteq> [] \<and> tab \<notin> set key \<and> line_end \<notin> set key"

definition storable :: "'v value_traits \<Rightarrow> (string \<times> 'v list) list \<Rightarrow> bool" where
  "storable t kvs \<longleftrightarrow> list_all (\<lambda>(key, vs). plain_key key \<and> list_fits t vs) kvs
    \<and> sum_list (map (\<lambda>(key, vs). entry_room t vs) kvs) \<le> 2 ^ 44"

lemma address_line_end: "plain_key key \<Longrightarrow> line_end \<notin> set (address_line key a)"
  using show_nat_digits [of "unat (fst a)"] show_nat_digits [of "unat (snd a)"] digits_no_end
  by (auto simp: plain_key_def address_line_def tab_def line_end_def)

lemma table_lines:
  assumes "list_all (\<lambda>(key, vs, a). plain_key key) es"
  shows "all_lines (concat (map entry_line es)) = map (\<lambda>(key, vs, a). address_line key a) es"
proof -
  have "map entry_line es = map (\<lambda>l. l @ [line_end]) (map (\<lambda>(key, vs, a). address_line key a) es)"
    by (auto simp: entry_line_def)
  moreover have "list_all (\<lambda>l. line_end \<notin> set l) (map (\<lambda>(key, vs, a). address_line key a) es)"
    using assms address_line_end by (auto simp: list_all_iff)
  ultimately show ?thesis by (simp only: all_lines_lines)
qed

lemma written_keys:
  assumes "map (\<lambda>(key, vs, a). (key, vs)) es = filter P kvs" "list_all (\<lambda>(key, vs). plain_key key \<and> list_fits t vs) kvs"
  shows "list_all (\<lambda>(key, vs, a). plain_key key) es"
proof -
  have "(key, vs) \<in> set kvs" if "(key, vs, a) \<in> set es" for key vs a
  proof -
    have "(key, vs) \<in> set (map (\<lambda>(key, vs, a). (key, vs)) es)" using that by force
    then show ?thesis unfolding assms(1) by simp
  qed
  moreover have "plain_key key" if "(key, vs) \<in> set kvs" for key vs using assms(2) that by (auto simp: list_all_iff)
  ultimately show ?thesis by (fastforce simp: list_all_iff)
qed

text \<open>The reader finds an entry of the writer under its address.\<close>

lemma storage_read_entry:
  assumes "writer_ok t es st" "(key, vs, a) \<in> set es" "get key = Inr (Some a)"
  shows "\<exists>p. storage_read_postlist \<lparr>sr_table = Some get, sr_files = st_files st\<rparr> key start len page_size = Inr (Some p)
    \<and> holds t (read_postlist vs start len) p"
    "\<exists>h. storage_read_head \<lparr>sr_table = Some get, sr_files = st_files st\<rparr> key = Inr (Some h) \<and> hd_value_count h = of_nat (length vs)"
proof -
  have e: "entry_at t (st_files st) (key, vs, a)" using assms(1,2) by (simp add: writer_ok_def list_all_iff)
  obtain n offset where a: "a = (n, offset)" by (cases a)
  have n: "vs \<noteq> []" "list_fits t vs" "unat n < length (st_files st)" "stored_at t vs (st_files st ! unat n) (unat offset)"
    using e a by (simp_all add: entry_at_def)
  then obtain pre x rest where x: "st_files st ! unat n = pre @ x @ rest" "length pre = unat offset" "stored t vs x"
    unfolding stored_at_def by blast
  from stored_read [OF this n(2,1)]
  show "\<exists>p. storage_read_postlist \<lparr>sr_table = Some get, sr_files = st_files st\<rparr> key start len page_size = Inr (Some p)
    \<and> holds t (read_postlist vs start len) p"
    using assms(3) a n(3) by (fastforce simp: storage_read_postlist_def storage_address_def)
  obtain h y where h: "x = head_bytes h @ y" "hd_value_count h = of_nat (length vs)" using x(3) unfolding stored_def by blast
  have "read_head (st_files st ! unat n) (unat offset) = Inr h" unfolding x(1) h(1) append_assoc by (rule read_head_bytes [OF x(2)])
  then show "\<exists>h. storage_read_head \<lparr>sr_table = Some get, sr_files = st_files st\<rparr> key = Inr (Some h) \<and> hd_value_count h = of_nat (length vs)"
    using assms(3) a n(3) h(2) by (simp add: storage_read_head_def storage_address_def)
qed

lemma entry_of_list:
  assumes "map (\<lambda>(key, vs, a). (key, vs)) es = filter (\<lambda>(key, vs). vs \<noteq> []) kvs" "(key, vs) \<in> set kvs" "vs \<noteq> []"
  shows "\<exists>a. (key, vs, a) \<in> set es"
proof -
  have "(key, vs) \<in> set (map (\<lambda>(key, vs, a). (key, vs)) es)" unfolding assms(1) using assms(2,3) by simp
  then show ?thesis by auto
qed

lemma stored_lists_found:
  assumes "writer_ok t es st" "map (\<lambda>(key, vs, a). (key, vs)) es = filter (\<lambda>(key, vs). vs \<noteq> []) kvs"
    and "list_all (\<lambda>(key, vs). plain_key key \<and> list_fits t vs) kvs" "header_table_ok (st_table st) get"
    and "(key, vs) \<in> set kvs" "vs \<noteq> []"
  shows "\<exists>p. search_stored \<lparr>sr_table = Some get, sr_files = st_files st\<rparr> key begin len = Some p
    \<and> holds t (read_postlist vs begin len) p"
proof -
  obtain a where a: "(key, vs, a) \<in> set es" using entry_of_list [OF assms(2,5,6)] by blast
  have "st_table st = concat (map entry_line es)" using assms(1) by (simp add: writer_ok_def)
  then have "address_line key a \<in> set (all_lines (st_table st))"
    using table_lines [OF written_keys [OF assms(2,3)]] a by force
  moreover have "tab \<notin> set key" using assms(3,5) by (auto simp: list_all_iff plain_key_def)
  ultimately have "get key = Inr (Some a)" using assms(4) unfolding header_table_ok_def by blast
  from storage_read_entry(1) [where get = get and start = \<open>begin\<close> and len = len and page_size = "of_nat swap_pagesize", OF assms(1) a this]
  show ?thesis unfolding search_stored_def by force
qed

text \<open>
  What is written to the storage of an index can be searched: for every header table that answers
  the keys of the text table, the searcher returns for each key the posting list of its values, cut to
  the part that was asked for; the data files roll over at a gigabyte and the lists are paged, and
  neither can be noticed.
\<close>

theorem storage_roundtrip:
  assumes "traits_ok t" "storable t kvs" "(key, vs) \<in> set kvs" "vs \<noteq> []"
  shows "\<exists>st table. write_all t new_storage kvs = Some (Inr st) \<and> storage_close st = Some table
    \<and> (\<forall>get. header_table_ok table get \<longrightarrow>
        (\<exists>p p'. search_stored \<lparr>sr_table = Some get, sr_files = st_files st\<rparr> key begin len = Some p
          \<and> pl_values t p = Some (Inr (read_postlist vs begin len, p'))))"
proof -
  have k: "list_all (\<lambda>(key, vs). key \<noteq> [] \<and> tab \<notin> set key \<and> list_fits t vs) kvs"
    using assms(2) by (auto simp: storable_def plain_key_def list_all_iff)
  have f: "list_all (\<lambda>(key, vs). plain_key key \<and> list_fits t vs) kvs" using assms(2) by (simp add: storable_def)
  obtain st es where st: "write_all t new_storage kvs = Some (Inr st)" "writer_ok t es st"
      "map (\<lambda>(key, vs, a). (key, vs)) es = filter (\<lambda>(key, vs). vs \<noteq> []) kvs"
    using write_all_ok [OF writer_ok_new k] assms(2) by (auto simp: storable_def)
  have "es \<noteq> []" using entry_of_list [OF st(3) assms(3,4)] by auto
  then have "storage_close st = Some (st_table st)" using st(2) by (simp add: storage_close_def writer_ok_def)
  moreover have "\<exists>p p'. search_stored \<lparr>sr_table = Some get, sr_files = st_files st\<rparr> key begin len = Some p
      \<and> pl_values t p = Some (Inr (read_postlist vs begin len, p'))" if g: "header_table_ok (st_table st) get" for get
    using stored_lists_found [OF st(2,3) f g assms(3,4)] pl_values_ok [OF assms(1)] by blast
  ultimately show ?thesis using st(1) by blast
qed

text \<open>The lists of two words, and the second value of the first.\<close>

definition ex_lists :: "(string \<times> (u32 \<times> u32) list) list" where
  "ex_lists = [(''1:0_a'', [(5, 1), (3, 2)]), (''1:0_b'', [(4, 0)])]"

lemma ex_lists_storable: "storable pair_traits ex_lists"
  by (simp add: storable_def ex_lists_def plain_key_def tab_def line_end_def list_fits_def values_fit_def swap_pagesize_def
      bytes_of_values_def pair_traits_def pair_put_def size_of_def entry_room_def)

theorem storage_roundtrip_witness:
  "\<exists>st table. write_all pair_traits new_storage ex_lists = Some (Inr st) \<and> storage_close st = Some table
    \<and> (\<forall>get. header_table_ok table get \<longrightarrow>
        (\<exists>p p'. search_stored \<lparr>sr_table = Some get, sr_files = st_files st\<rparr> ''1:0_a'' 1 7 = Some p
          \<and> pl_values pair_traits p = Some (Inr (read_postlist [(5, 1), (3, 2)] 1 7, p'))))"
  by (rule storage_roundtrip [OF pair_traits_ok ex_lists_storable]) (simp_all add: ex_lists_def)

end
