(* ===== verification/Checksum.thy ===== *)
theory Checksum
  imports Prelude
begin

text \<open>
  \<open>src/netspeak/util/checksum.hpp\<close>: the string checksums and the prime numbers that the hash maps and
  the buckets of the indexer use.
\<close>

section \<open>Prime numbers\<close>

text \<open>
  The loop of \<open>is_prime\<close> over the odd numbers; the square root of a 32-bit number in double precision is
  exact enough for \<open>i <= std::sqrt(number)\<close> to be \<open>i * i <= number\<close>.
\<close>

function no_divisor :: "nat \<Rightarrow> nat \<Rightarrow> bool" where
  "no_divisor number i = (if i * i > number then True else if number mod i = 0 then False else no_divisor number (i + 2))"
  by pat_completeness auto
termination
proof (relation "measure (\<lambda>(number, i). Suc number - i)")
  fix number i :: nat
  assume "\<not> number < i * i"
  then have "i \<le> number" by (meson le_square le_trans not_le)
  then show "((number, i + 2), number, i) \<in> measure (\<lambda>(number, i). Suc number - i)" by simp
qed simp

declare no_divisor.simps [simp del]

definition is_prime :: "u32 \<Rightarrow> bool" where
  "is_prime number =
    (if number = 2 then True
     else if number < 2 \<or> number mod 2 = 0 then False
     else no_divisor (unat number) 3)"

function next_prime :: "u32 \<Rightarrow> u32" where
  "next_prime number = (if is_prime number then number else next_prime (number + 1))"
  by pat_completeness auto
termination
proof (relation "measure (\<lambda>number. unat (2 - number))")
  fix number :: u32
  assume "\<not> is_prime number"
  then have "number \<noteq> 2" by (auto simp: is_prime_def)
  define w where "w = 2 - number"
  have "w \<noteq> 0" using \<open>number \<noteq> 2\<close> by (simp add: w_def)
  then have "unat (w - 1) < unat w" by (simp add: unat_gt_0 unat_minus_one)
  moreover have "2 - (number + 1) = w - 1" by (simp add: w_def)
  ultimately show "(number + 1, number) \<in> measure (\<lambda>number. unat (2 - number))" unfolding in_measure w_def by simp
qed simp

declare next_prime.simps [simp del]

text \<open>Prime numbers as such.\<close>

definition prime_number :: "nat \<Rightarrow> bool" where
  "prime_number n \<longleftrightarrow> 2 \<le> n \<and> (\<forall>d. d dvd n \<longrightarrow> d = 1 \<or> d = n)"

lemma no_divisor_iff:
  assumes "odd i" "odd n" "3 \<le> i"
  shows "no_divisor n i \<longleftrightarrow> (\<forall>d. d dvd n \<longrightarrow> i \<le> d \<longrightarrow> d * d \<le> n \<longrightarrow> False)"
  using assms
proof (induction n i rule: no_divisor.induct)
  case (1 n i)
  show ?case
  proof (cases "n < i * i")
    case True
    then have "\<not> d * d \<le> n" if "i \<le> d" for d using mult_le_mono [OF that that] by simp
    then show ?thesis using True by (auto simp: no_divisor.simps [of n i])
  next
    case False
    show ?thesis
    proof (cases "n mod i = 0")
      case True
      then have "i dvd n" by (simp add: dvd_eq_mod_eq_0)
      then show ?thesis using False True by (auto simp: no_divisor.simps [of n i] not_less)
    next
      case ndvd: False
      then have eq: "no_divisor n i \<longleftrightarrow> no_divisor n (i + 2)" using False by (simp add: no_divisor.simps [of n i])
      have step: "i \<le> d \<longleftrightarrow> i + 2 \<le> d" if "d dvd n" for d
      proof -
        have "i \<noteq> d" using that ndvd by (auto simp: dvd_eq_mod_eq_0)
        moreover have "odd d" using that "1.prems"(2) by (metis dvd_trans)
        then have "i + 1 \<noteq> d" using "1.prems"(1) by auto
        ultimately show ?thesis by linarith
      qed
      have "no_divisor n (i + 2) \<longleftrightarrow> (\<forall>d. d dvd n \<longrightarrow> i + 2 \<le> d \<longrightarrow> d * d \<le> n \<longrightarrow> False)"
        using "1.IH" [OF False ndvd] "1.prems" by simp
      then show ?thesis unfolding eq using step by blast
    qed
  qed
qed


lemma prime_iff_small_divisors:
  assumes "odd n" "3 \<le> n"
  shows "prime_number n \<longleftrightarrow> (\<forall>d. d dvd n \<longrightarrow> 3 \<le> d \<longrightarrow> d * d \<le> n \<longrightarrow> False)"
proof
  assume p: "prime_number n"
  show "\<forall>d. d dvd n \<longrightarrow> 3 \<le> d \<longrightarrow> d * d \<le> n \<longrightarrow> False"
  proof (intro allI impI)
    fix d assume d: "d dvd n" "3 \<le> d" "d * d \<le> n"
    then have "d = n" using p by (auto simp: prime_number_def)
    moreover have "3 * d \<le> d * d" using d(2) by simp
    ultimately show False using d by linarith
  qed
next
  assume a: "\<forall>d. d dvd n \<longrightarrow> 3 \<le> d \<longrightarrow> d * d \<le> n \<longrightarrow> False"
  have "d = 1 \<or> d = n" if "d dvd n" for d
  proof (rule ccontr)
    assume nd: "\<not> (d = 1 \<or> d = n)"
    obtain e where e: "n = d * e" using \<open>d dvd n\<close> by (rule dvdE)
    have "odd d" "odd e" using assms(1) e by simp_all
    moreover have "d \<noteq> 1" "e \<noteq> 1" using nd e by auto
    moreover have "3 \<le> k" if "odd k" "k \<noteq> 1" for k :: nat using that by (cases k rule: nat.exhaust; cases "k = 2") auto
    ultimately have "3 \<le> d" "3 \<le> e" by blast+
    moreover have "d * d \<le> n \<or> e * e \<le> n"
    proof (cases "d \<le> e")
      case True
      then show ?thesis unfolding e by simp
    next
      case False
      then show ?thesis unfolding e by simp
    qed
    ultimately show False using a e by (metis dvd_triv_left dvd_triv_right)
  qed
  then show "prime_number n" using assms(2) by (simp add: prime_number_def)
qed

lemma is_prime_iff: "is_prime number \<longleftrightarrow> prime_number (unat number)"
proof -
  have two: "unat (2 :: u32) = 2" by simp
  consider "unat number = 2" | "unat number < 2" | "2 < unat number" "even (unat number)" | "3 \<le> unat number" "odd (unat number)"
    by linarith
  then show ?thesis
  proof cases
    case 1
    then have "number = 2" using two by (simp add: word_unat_eq_iff)
    moreover have "d = 1 \<or> d = 2" if "d dvd 2" for d :: nat using dvd_imp_le [OF that] that by (cases "d = 0") auto
    then have "prime_number 2" by (simp add: prime_number_def)
    ultimately show ?thesis by (simp add: is_prime_def)
  next
    case 2
    then have "number < 2" by (simp add: word_less_nat_alt)
    then show ?thesis using 2 by (auto simp: is_prime_def prime_number_def)
  next
    case 3
    then have "number mod 2 = 0" by (simp add: word_arith_nat_mod even_iff_mod_2_eq_zero)
    moreover have "\<not> prime_number (unat number)" using 3 by (auto simp: prime_number_def)
    ultimately show ?thesis using 3 by (auto simp: is_prime_def)
  next
    case 4
    have "unat (number mod 2) = unat number mod 2" by (simp add: unat_mod)
    then have "number mod 2 \<noteq> 0" using 4(2) by (metis even_iff_mod_2_eq_zero unat_0)
    moreover have "number \<noteq> 2" "\<not> number < 2" using 4 by (auto simp: word_less_nat_alt)
    ultimately have "is_prime number \<longleftrightarrow> no_divisor (unat number) 3" by (simp add: is_prime_def)
    then show ?thesis using no_divisor_iff [of 3 "unat number"] prime_iff_small_divisors [OF 4(2,1)] 4(2) by simp
  qed
qed

text \<open>
  \<open>is_prime\<close> decides whether a 32-bit number is prime.\<close>

theorem is_prime_correct: "is_prime number \<longleftrightarrow> prime_number (unat number)"
  by (rule is_prime_iff)

lemma next_prime_is_prime: "is_prime (next_prime number)"
proof (induction number rule: next_prime.induct)
  case (1 number)
  then show ?case by (subst next_prime.simps) simp
qed

lemma next_prime_least:
  "(number \<le> next_prime number \<and> (\<forall>m. number \<le> m \<and> m < next_prime number \<longrightarrow> \<not> is_prime m))
    \<or> (next_prime number = 2 \<and> (\<forall>m. number \<le> m \<longrightarrow> \<not> is_prime m))"
proof (induction number rule: next_prime.induct)
  case (1 number)
  show ?case
  proof (cases "is_prime number")
    case True
    then show ?thesis by (simp add: next_prime.simps [of number] not_le [symmetric])
  next
    case False
    then have e: "next_prime number = next_prime (number + 1)" by (simp add: next_prime.simps [of number])
    have step: "m = number \<or> number + 1 \<le> m" if "number \<le> m" "number \<noteq> - 1" for m
      using that by (metis add.commute inc_le le_less)
    show ?thesis
    proof (cases "number = - 1")
      case True
      have "next_prime 2 = 2" "next_prime 1 = next_prime 2" "next_prime 0 = next_prime 1"
        by (simp_all add: next_prime.simps [of 2] next_prime.simps [of 1] next_prime.simps [of 0] is_prime_def)
      then have "next_prime number = 2" using e True by simp
      moreover have "m = number" if "number \<le> m" for m using that True by simp
      ultimately show ?thesis using False by blast
    next
      case ne: False
      then have "number < number + 1" 
      proof -
        have "number < - 1" using ne by (simp add: less_le)
        then have "unat number + unat (1 :: u32) < 2 ^ LENGTH(32)" by (simp add: word_less_nat_alt)
        from unat_add_lem [THEN iffD1, OF this] show ?thesis by (simp add: word_less_nat_alt)
      qed
      then have lt: "number \<le> number + 1" by simp
      from "1.IH" [OF False] show ?thesis
      proof
        assume a: "number + 1 \<le> next_prime (number + 1) \<and> (\<forall>m. number + 1 \<le> m \<and> m < next_prime (number + 1) \<longrightarrow> \<not> is_prime m)"
        then have "number \<le> next_prime (number + 1)" using lt by (meson order_trans)
        moreover have "\<not> is_prime m" if "number \<le> m" "m < next_prime (number + 1)" for m
          using step [OF that(1) ne] a that(2) False by fastforce
        ultimately show ?thesis by (simp add: e)
      next
        assume "next_prime (number + 1) = 2 \<and> (\<forall>m. number + 1 \<le> m \<longrightarrow> \<not> is_prime m)"
        moreover have "\<not> is_prime m" if "number \<le> m" for m
          using step [OF that ne] \<open>next_prime (number + 1) = 2 \<and> _\<close> False by fastforce
        ultimately show ?thesis by (simp add: e)
      qed
    qed
  qed
qed

text \<open>
  \<open>next_prime\<close> terminates, with the least prime number that is not below its argument; above the
  greatest 32-bit prime the search wraps around and gives 2.
\<close>

theorem next_prime_correct:
  "prime_number (unat (next_prime number)) \<and>
    (if \<exists>m \<ge> number. prime_number (unat m)
     then number \<le> next_prime number \<and> (\<forall>m. number \<le> m \<and> prime_number (unat m) \<longrightarrow> next_prime number \<le> m)
     else next_prime number = 2)"
  using next_prime_is_prime [of number] next_prime_least [of number]
  by (auto simp: is_prime_iff [symmetric] not_less)


section \<open>String checksums\<close>

text \<open>A \<open>char\<close> is signed, so the cast to an unsigned type repeats its sign bit.\<close>

definition key_char :: "char \<Rightarrow> 'a::len word" where
  "key_char c = scast (of_char c :: u8)"

fun hash16_loop :: "u16 \<Rightarrow> string \<Rightarrow> u16" where
  "hash16_loop result [] = result"
| "hash16_loop result (c # key) = hash16_loop (result * 131 + key_char c) key"

definition hash16 :: "string \<Rightarrow> u16" where
  "hash16 key = hash16_loop 0 key"

fun hash32_loop :: "u32 \<Rightarrow> string \<Rightarrow> u32" where
  "hash32_loop result [] = result"
| "hash32_loop result (c # key) = hash32_loop (xor result (key_char c) * 16777619) key"

definition hash32 :: "string \<Rightarrow> u32" where
  "hash32 key = hash32_loop 2166136261 key"

fun hash64_loop :: "u64 \<Rightarrow> string \<Rightarrow> u64" where
  "hash64_loop result [] = result"
| "hash64_loop result (c # key) = hash64_loop (xor result (key_char c) * 1099511628211) key"

definition hash64 :: "string \<Rightarrow> u64" where
  "hash64 key = hash64_loop 14695981039346656037 key"

end
