(* ===== verification/Big_Hash_Map.thy ===== *)
theory Big_Hash_Map
  imports Storage Checksum
begin

text \<open>
  The hash maps on disk of \<open>src/netspeak/bighashmap\<close>: \<open>Builder\<close>, which divides the lines
  \<open>key <tab> value\<close> of text files by a hash of the key and makes for each part a table that is addressed
  by a minimal perfect hash function, and \<open>BigHashMap\<close>, \<open>ExternalMap\<close> and \<open>InternalMap\<close>, which look a
  key up.  The library that makes the hash functions is the parameter \<open>cmph\<close>; \<open>malloc\<close> gives the
  contents of fresh memory.
\<close>

section \<open>Values in text files\<close>

text \<open>\<open>value_traits::parse_from\<close> for unsigned numbers and pairs of them.\<close>

definition parse_unsigned :: "string \<Rightarrow> string \<Rightarrow> ('a::len word \<times> string) result" where
  "parse_unsigned type_name s =
    (let (w, rest, ok) = read_unsigned 0 s
     in if \<not> ok then Inl (RuntimeError (''Reading next '' @ type_name @ '' from input stream failed.''))
        else Inr (w, if rest \<noteq> [] \<and> hd rest = tab then tl rest else rest))"

definition parse_pair :: "string \<Rightarrow> string \<Rightarrow> string \<Rightarrow> ('a::len word \<times> 'b::len word) result" where
  "parse_pair name1 name2 s =
    rbind (parse_unsigned name1 s) (\<lambda>(a, s). rbind (parse_unsigned name2 s) (\<lambda>(b, s). Inr (a, b)))"

definition parse_address :: "string \<Rightarrow> address result" where
  "parse_address = parse_pair ''UShort'' ''UInt''"

text \<open>The values of the header tables of an index and of the phrase dictionary.\<close>

definition address_traits :: "address value_traits" where
  "address_traits = \<lparr>vt_put = (\<lambda>a. le_bytes 2 (unat (fst a)) @ le_bytes 4 (unat (snd a))),
     vt_get = (\<lambda>b. (of_nat (le_value (take 2 b)), of_nat (le_value (take 4 (drop 2 b)))))\<rparr>"

definition frequency_traits :: "(u64 \<times> u32) value_traits" where
  "frequency_traits = \<lparr>vt_put = (\<lambda>a. le_bytes 8 (unat (fst a)) @ le_bytes 4 (unat (snd a))),
     vt_get = (\<lambda>b. (of_nat (le_value (take 8 b)), of_nat (le_value (take 4 (drop 8 b)))))\<rparr>"

definition fixed_size :: "'v value_traits \<Rightarrow> nat \<Rightarrow> bool" where
  "fixed_size t n \<longleftrightarrow> (\<forall>v. size_of t v = n)"

lemma le_value_u16: "of_nat (le_value (le_bytes 2 (unat (w :: u16)))) = w"
proof -
  have "unat w < 256 ^ 2" using unsigned_less [of w] by simp
  then show ?thesis by (simp add: le_value_bytes)
qed

lemma address_traits_ok: "traits_ok address_traits" "fixed_size address_traits 6"
  by (simp_all add: traits_ok_def fixed_size_def size_of_def address_traits_def le_value_u16)

lemma frequency_traits_ok: "traits_ok frequency_traits" "fixed_size frequency_traits 12"
  by (simp_all add: traits_ok_def fixed_size_def size_of_def frequency_traits_def)

section \<open>Dividing the lines\<close>

definition key_of_line :: "string \<Rightarrow> (string \<times> string) option" where
  "key_of_line line =
    (if tab \<in> set line then Some (takeWhile (\<lambda>c. c \<noteq> tab) line, dropWhile (\<lambda>c. c \<noteq> tab) line) else None)"

text \<open>The regular files of the input directory that are not hidden, in the order of the directory.\<close>

definition input_lines :: "string list \<Rightarrow> string list" where
  "input_lines files = concat (map all_lines files)"

definition count_records :: "string list \<Rightarrow> u64" where
  "count_records files = of_nat (length (filter (\<lambda>line. line \<noteq> []) (input_lines files)))"

definition num_maps :: "string list \<Rightarrow> u32" where
  "num_maps files = ucast (1 + count_records files div 10000000)"

fun scatter_lines :: "u32 \<Rightarrow> string list \<Rightarrow> string list \<Rightarrow> string list" where
  "scatter_lines n [] rec_files = rec_files"
| "scatter_lines n (line # lines) rec_files =
    (case key_of_line line of
       None \<Rightarrow> scatter_lines n lines rec_files
     | Some (key, rest) \<Rightarrow>
         (let i = unat (hash32 key mod n)
          in scatter_lines n lines (rec_files[i := rec_files ! i @ line @ [line_end]])))"

definition partition_lines :: "string list \<Rightarrow> string list" where
  "partition_lines files = scatter_lines (num_maps files) (input_lines files) (replicate (unat (num_maps files)) [])"

section \<open>Building the map of a part\<close>

text \<open>A hash function with the number of its keys.\<close>

type_synonym mphf = "(string \<Rightarrow> u32) \<times> u32"

fun create_key_file_loop :: "string list \<Rightarrow> string" where
  "create_key_file_loop [] = []"
| "create_key_file_loop (line # lines) =
    (case key_of_line line of
       None \<Rightarrow> create_key_file_loop lines
     | Some (key, rest) \<Rightarrow> key @ [line_end] @ create_key_file_loop lines)"

definition create_key_file :: "string \<Rightarrow> string" where
  "create_key_file rec_file = create_key_file_loop (all_lines rec_file)"

text \<open>\<open>IsUnique\<close> asks \<open>sort | uniq -d\<close> whether a line occurs twice.\<close>

definition build_hash_function :: "(string list \<Rightarrow> mphf option) \<Rightarrow> string \<Rightarrow> string \<Rightarrow> mphf result" where
  "build_hash_function cmph name key_file =
    (if \<not> distinct (all_lines key_file) then Inl (RuntimeError ''Keys are not unique'')
     else case cmph (all_lines key_file) of
            None \<Rightarrow> Inl (RuntimeError (''Cannot generate MPHF from : '' @ [CHR 0x22] @ name @ ''.keys'' @ [CHR 0x22]))
          | Some m \<Rightarrow> Inr m)"

definition entry_bytes :: "'v value_traits \<Rightarrow> u32 \<Rightarrow> 'v \<Rightarrow> u8 list" where
  "entry_bytes t checksum v = le_bytes 4 (unat checksum) @ vt_put t v"

text \<open>\<open>copy_to\<close> at an address; writing behind the table is undefined behaviour.\<close>

definition write_at :: "nat \<Rightarrow> u8 list \<Rightarrow> u8 list \<Rightarrow> u8 list option" where
  "write_at offset e table =
    (if length table < offset + length e then None
     else Some (take offset table @ e @ drop (offset + length e) table))"

fun fill_table :: "'v value_traits \<Rightarrow> (string \<Rightarrow> 'v result) \<Rightarrow> (string \<Rightarrow> u32) \<Rightarrow> string list \<Rightarrow> u8 list \<Rightarrow> u8 list result option" where
  "fill_table t parse h [] table = Some (Inr table)"
| "fill_table t parse h (line # lines) table =
    (case key_of_line line of
       None \<Rightarrow> fill_table t parse h lines table
     | Some (key, rest) \<Rightarrow>
         obind (Some (parse rest)) (\<lambda>v.
           case write_at (unat (h key) * (4 + size_of t v)) (entry_bytes t (hash32 key) v) table of
             None \<Rightarrow> None
           | Some table \<Rightarrow> fill_table t parse h lines table))"

record cmph_map =
  cm_hash :: "string \<Rightarrow> u32"
  cm_size :: u32
  cm_data :: "u8 list"

text \<open>\<open>BuildMap\<close>; \<open>n\<close> is the size of a value.\<close>

definition build_map :: "(string list \<Rightarrow> mphf option) \<Rightarrow> (nat \<Rightarrow> u8 list) \<Rightarrow> 'v value_traits \<Rightarrow> nat \<Rightarrow> (string \<Rightarrow> 'v result)
    \<Rightarrow> string \<Rightarrow> string \<Rightarrow> cmph_map result option" where
  "build_map cmph malloc t n parse name rec_file =
    obind (Some (build_hash_function cmph name (create_key_file rec_file))) (\<lambda>(h, size).
      obind (fill_table t parse h (all_lines rec_file) (malloc (unat size * (4 + n)))) (\<lambda>table.
        Some (Inr \<lparr>cm_hash = h, cm_size = size, cm_data = table\<rparr>)))"

fun build_maps :: "(string \<Rightarrow> string \<Rightarrow> cmph_map result option) \<Rightarrow> string \<Rightarrow> nat \<Rightarrow> string list \<Rightarrow> cmph_map list result option" where
  "build_maps build_one dir_name i [] = Some (Inr [])"
| "build_maps build_one dir_name i (rec_file # rec_files) =
    obind (build_one (dir_name @ ''.'' @ show_nat i) rec_file) (\<lambda>m.
      obind (build_maps build_one dir_name (Suc i) rec_files) (\<lambda>ms. Some (Inr (m # ms))))"

definition build_big_map :: "(string list \<Rightarrow> mphf option) \<Rightarrow> (nat \<Rightarrow> u8 list) \<Rightarrow> 'v value_traits \<Rightarrow> nat \<Rightarrow> (string \<Rightarrow> 'v result)
    \<Rightarrow> string \<Rightarrow> string list \<Rightarrow> cmph_map list result option" where
  "build_big_map cmph malloc t n parse dir_name files =
    build_maps (build_map cmph malloc t n parse) dir_name 0 (partition_lines files)"

section \<open>Looking a key up\<close>

definition cmph_hash :: "cmph_map \<Rightarrow> string \<Rightarrow> u32" where
  "cmph_hash m key = cm_hash m key mod cm_size m"

definition checked_entry :: "'v value_traits \<Rightarrow> string \<Rightarrow> u8 list \<Rightarrow> 'v option" where
  "checked_entry t key e = (if of_nat (le_value (take 4 e)) \<noteq> hash32 key then None else Some (vt_get t (drop 4 e)))"

definition external_get :: "'v value_traits \<Rightarrow> nat \<Rightarrow> cmph_map \<Rightarrow> string \<Rightarrow> 'v option result" where
  "external_get t n m key =
    (let offset = unat (cmph_hash m key) * (4 + n)
     in if length (cm_data m) < offset + (4 + n) then Inl (RuntimeError ''EntryTraits::read_from failed'')
        else Inr (checked_entry t key (take (4 + n) (drop offset (cm_data m)))))"

definition internal_open :: "nat \<Rightarrow> cmph_map \<Rightarrow> cmph_map result" where
  "internal_open n m = rbind (fread (cm_data m) 0 (unat (cm_size m) * (4 + n))) (\<lambda>data. Inr (m\<lparr>cm_data := data\<rparr>))"

definition internal_get :: "'v value_traits \<Rightarrow> nat \<Rightarrow> cmph_map \<Rightarrow> string \<Rightarrow> 'v option result" where
  "internal_get t n m key = Inr (checked_entry t key (take (4 + n) (drop (unat (cmph_hash m key) * (4 + n)) (cm_data m))))"

text \<open>\<open>BigHashMap::Open\<close>: the tables stay on disk when they are larger than the memory that may be used.\<close>

datatype big_map = BigMap bool "cmph_map list"

definition big_open :: "nat \<Rightarrow> nat \<Rightarrow> nat \<Rightarrow> cmph_map list \<Rightarrow> big_map result" where
  "big_open num_bytes memory n ms =
    (if num_bytes > memory then Inr (BigMap True ms)
     else rbind (mapR (internal_open n) ms) (\<lambda>ms. Inr (BigMap False ms)))"

definition big_get :: "'v value_traits \<Rightarrow> nat \<Rightarrow> big_map \<Rightarrow> string \<Rightarrow> 'v option result" where
  "big_get t n b key =
    (case b of BigMap external ms \<Rightarrow>
       if ms = [] then Inr None
       else (if external then external_get else internal_get) t n (ms ! (unat (hash32 key) mod length ms)) key)"


section \<open>The parts\<close>

lemma all_lines_no_end: "line \<in> set (all_lines s) \<Longrightarrow> line_end \<notin> set line"
proof (induction s rule: all_lines.induct)
  case (1 s)
  show ?case
  proof (cases "s = []")
    case True
    then show ?thesis using "1.prems" by (simp add: all_lines.simps [of "[]"] getline_def)
  next
    case False
    let ?rest = "tl (dropWhile (\<lambda>c. c \<noteq> line_end) s)"
    have g: "getline s = Some (takeWhile (\<lambda>c. c \<noteq> line_end) s, ?rest, line_end \<in> set s)" using False by (simp add: getline_def)
    then have "line = takeWhile (\<lambda>c. c \<noteq> line_end) s \<or> line \<in> set (all_lines ?rest)"
      using "1.prems" by (simp add: all_lines.simps [of s])
    moreover have "line_end \<notin> set (takeWhile (\<lambda>c. c \<noteq> line_end) s)" using set_takeWhileD by fastforce
    ultimately show ?thesis using "1.IH" [OF g refl refl] by blast
  qed
qed

lemma key_of_line_eq: "tab \<notin> set key \<Longrightarrow> key_of_line (key @ tab # rest) = Some (key, tab # rest)"
  by (simp add: key_of_line_def takeWhile_append dropWhile_append takeWhile_eq_all_conv)

definition in_part :: "u32 \<Rightarrow> nat \<Rightarrow> string \<Rightarrow> bool" where
  "in_part n i line \<longleftrightarrow> (case key_of_line line of None \<Rightarrow> False | Some (key, rest) \<Rightarrow> unat (hash32 key mod n) = i)"

lemma scatter_length: "length (scatter_lines n lines rec_files) = length rec_files"
  by (induction n lines rec_files rule: scatter_lines.induct) (auto split: option.splits simp: Let_def)

lemma scatter_nth:
  "i < length rec_files \<Longrightarrow>
    scatter_lines n lines rec_files ! i = rec_files ! i @ concat (map (\<lambda>l. l @ [line_end]) (filter (in_part n i) lines))"
proof (induction n lines rec_files rule: scatter_lines.induct)
  case (2 n line lines rec_files)
  show ?case
  proof (cases "key_of_line line")
    case None
    then show ?thesis using 2 by (simp add: in_part_def)
  next
    case (Some kr)
    obtain key rest where kr: "kr = (key, rest)" by (cases kr)
    then show ?thesis using "2.IH"(2) [OF Some kr [symmetric] refl] "2.prems" Some
      by (auto simp: in_part_def Let_def nth_list_update)
  qed
qed simp

definition part :: "string list \<Rightarrow> nat \<Rightarrow> string list" where
  "part files i = filter (in_part (num_maps files) i) (input_lines files)"

lemma partition_length: "length (partition_lines files) = unat (num_maps files)"
  by (simp add: partition_lines_def scatter_length)

lemma partition_nth: "i < unat (num_maps files) \<Longrightarrow> all_lines (partition_lines files ! i) = part files i"
proof -
  assume "i < unat (num_maps files)"
  then have "partition_lines files ! i = concat (map (\<lambda>l. l @ [line_end]) (part files i))"
    by (simp add: partition_lines_def scatter_nth part_def)
  moreover have "list_all (\<lambda>l. line_end \<notin> set l) (part files i)"
    using all_lines_no_end by (auto simp: part_def input_lines_def list_all_iff)
  ultimately show ?thesis by (simp only: all_lines_lines)
qed

text \<open>The keys and values of lines.\<close>

definition keyed :: "string list \<Rightarrow> bool" where
  "keyed lines \<longleftrightarrow> list_all (\<lambda>l. key_of_line l \<noteq> None \<and> line_end \<notin> set l) lines"

definition keys_of :: "string list \<Rightarrow> string list" where
  "keys_of lines = map (\<lambda>l. fst (the (key_of_line l))) (filter (\<lambda>l. key_of_line l \<noteq> None) lines)"

lemma part_keyed: "keyed (part files i)"
  using all_lines_no_end by (auto simp: keyed_def list_all_iff part_def in_part_def input_lines_def split: option.splits)

lemma key_file_lines: "keyed lines \<Longrightarrow> all_lines (create_key_file_loop lines) = keys_of lines"
proof -
  assume k: "keyed lines"
  have "create_key_file_loop ls = concat (map (\<lambda>k. k @ [line_end]) (keys_of ls))" for ls
    by (induction ls) (auto simp: keys_of_def split: option.split)
  moreover have "list_all (\<lambda>k. line_end \<notin> set k) (keys_of lines)"
    using k by (auto simp: keyed_def keys_of_def list_all_iff key_of_line_def split: if_splits dest: set_takeWhileD)
  ultimately show ?thesis by (simp only: all_lines_lines)
qed

section \<open>The table of a part\<close>

definition slot :: "nat \<Rightarrow> nat \<Rightarrow> u8 list \<Rightarrow> u8 list" where
  "slot es i table = take es (drop (i * es) table)"

lemma slot_write:
  assumes "length table = m * es" "i < m" "length e = es"
  shows "\<exists>table'. write_at (i * es) e table = Some table' \<and> length table' = m * es
    \<and> slot es i table' = e \<and> (\<forall>j < m. j \<noteq> i \<longrightarrow> slot es j table' = slot es j table)"
proof -
  have b: "i * es + es \<le> m * es" using assms(2) by (metis add.commute mult_Suc mult_le_mono1 Suc_leI)
  define table' where "table' = take (i * es) table @ e @ drop (i * es + es) table"
  have w: "write_at (i * es) e table = Some table'" using b assms by (simp add: write_at_def table'_def)
  have l: "length (take (i * es) table) = i * es" using b assms(1) by simp
  have "slot es i table' = e" using l assms(3) by (simp add: slot_def table'_def)
  moreover have "slot es j table' = slot es j table" if "j < m" "j \<noteq> i" for j
  proof (cases "j < i")
    case True
    then have "j * es + es \<le> i * es" by (metis add.commute mult_Suc mult_le_mono1 Suc_leI)
    then show ?thesis using l by (simp add: slot_def table'_def take_drop [symmetric] drop_take)
  next
    case False
    then have "Suc i \<le> j" using that(2) by simp
    then have "i * es + es \<le> j * es" by (metis add.commute mult_Suc mult_le_mono1)
    moreover have "i * es \<le> j * es" using \<open>Suc i \<le> j\<close> by (intro mult_le_mono1) simp
    then have "i * es - j * es = 0" "drop (j * es) (take (i * es) table) = []" using l by (auto intro!: drop_all)
    ultimately show ?thesis using l assms(3) by (simp add: slot_def table'_def)
  qed
  moreover have "length table' = m * es" using b l assms by (simp add: table'_def)
  ultimately show ?thesis using w by blast
qed


definition values_parse :: "(string \<Rightarrow> 'v result) \<Rightarrow> string list \<Rightarrow> bool" where
  "values_parse parse lines \<longleftrightarrow>
    list_all (\<lambda>l. case key_of_line l of None \<Rightarrow> True | Some (key, rest) \<Rightarrow> \<exists>v. parse rest = Inr v) lines"

lemma keys_of_Cons: "key_of_line l = Some (key, rest) \<Longrightarrow> keys_of (l # ls) = key # keys_of ls"
  by (simp add: keys_of_def)

lemma entry_length: "fixed_size t n \<Longrightarrow> length (entry_bytes t c v) = 4 + n"
  by (simp add: entry_bytes_def fixed_size_def size_of_def)

lemma keys_of_mem: "l \<in> set ls \<Longrightarrow> key_of_line l = Some (key, rest) \<Longrightarrow> key \<in> set (keys_of ls)"
  by (force simp: keys_of_def)

text \<open>What a table has for the lines of a part.\<close>

definition table_holds :: "'v value_traits \<Rightarrow> nat \<Rightarrow> (string \<Rightarrow> 'v result) \<Rightarrow> (string \<Rightarrow> u32) \<Rightarrow> string list \<Rightarrow> u8 list \<Rightarrow> bool" where
  "table_holds t n parse h lines table \<longleftrightarrow>
    (\<forall>l key rest v. l \<in> set lines \<longrightarrow> key_of_line l = Some (key, rest) \<longrightarrow> parse rest = Inr v \<longrightarrow>
      slot (4 + n) (unat (h key)) table = entry_bytes t (hash32 key) v)"

lemma fill_table_ok:
  assumes "fixed_size t n" "inj_on h (set (keys_of lines))" "\<forall>k \<in> set (keys_of lines). unat (h k) < m"
    and "distinct (keys_of lines)" "keyed lines" "values_parse parse lines" "length table = m * (4 + n)"
  shows "\<exists>table'. fill_table t parse h lines table = Some (Inr table') \<and> length table' = m * (4 + n)
    \<and> table_holds t n parse h lines table'
    \<and> (\<forall>j < m. (\<forall>k \<in> set (keys_of lines). unat (h k) \<noteq> j) \<longrightarrow> slot (4 + n) j table' = slot (4 + n) j table)"
  using assms(2-)
proof (induction lines arbitrary: table)
  case Nil
  then show ?case by (simp add: table_holds_def)
next
  case (Cons l ls)
  obtain key rest where l: "key_of_line l = Some (key, rest)" using Cons.prems(4) by (auto simp: keyed_def)
  note ks = keys_of_Cons [OF l, of ls]
  obtain v where v: "parse rest = Inr v" using Cons.prems(5) l by (auto simp: values_parse_def)
  have p: "inj_on h (set (keys_of ls))" "\<forall>k \<in> set (keys_of ls). unat (h k) < m" "distinct (keys_of ls)" "keyed ls" "values_parse parse ls"
    using Cons.prems(1-5) by (auto simp: ks keyed_def values_parse_def)
  have i: "unat (h key) < m" "\<forall>k \<in> set (keys_of ls). unat (h k) \<noteq> unat (h key)"
    using Cons.prems(1-3) by (auto simp: ks inj_on_def word_unat_eq_iff [symmetric])
  have s: "size_of t v = n" using assms(1) by (simp add: fixed_size_def)
  obtain t1 where t1: "write_at (unat (h key) * (4 + n)) (entry_bytes t (hash32 key) v) table = Some t1" "length t1 = m * (4 + n)"
      "slot (4 + n) (unat (h key)) t1 = entry_bytes t (hash32 key) v"
      "\<forall>j < m. j \<noteq> unat (h key) \<longrightarrow> slot (4 + n) j t1 = slot (4 + n) j table"
    using slot_write [OF Cons.prems(6) i(1) entry_length [OF assms(1)]] by blast
  obtain t2 where t2: "fill_table t parse h ls t1 = Some (Inr t2)" "length t2 = m * (4 + n)" "table_holds t n parse h ls t2"
      "\<forall>j < m. (\<forall>k \<in> set (keys_of ls). unat (h k) \<noteq> j) \<longrightarrow> slot (4 + n) j t2 = slot (4 + n) j t1"
    using Cons.IH [OF p t1(2)] by blast
  have f: "fill_table t parse h (l # ls) table = Some (Inr t2)" using l v t1(1) t2(1) s by simp
  have "slot (4 + n) (unat (h key)) t2 = entry_bytes t (hash32 key) v" using t2(4) i t1(3) by simp
  then have th: "table_holds t n parse h (l # ls) t2" using t2(3) l v unfolding table_holds_def by auto
  have o: "\<forall>j < m. (\<forall>k \<in> set (keys_of (l # ls)). unat (h k) \<noteq> j) \<longrightarrow> slot (4 + n) j t2 = slot (4 + n) j table"
  proof (intro allI impI)
    fix j assume j: "j < m" "\<forall>k \<in> set (keys_of (l # ls)). unat (h k) \<noteq> j"
    then have "slot (4 + n) j t2 = slot (4 + n) j t1" using t2(4) by (simp add: ks)
    moreover have "slot (4 + n) j t1 = slot (4 + n) j table" using t1(4) j by (simp add: ks)
    ultimately show "slot (4 + n) j t2 = slot (4 + n) j table" by simp
  qed
  show ?case using f t2(2) th o by blast
qed

text \<open>What \<open>cmph\<close> promises: a minimal perfect hash function for every list of different keys.\<close>

definition minimal_perfect :: "(string list \<Rightarrow> mphf option) \<Rightarrow> bool" where
  "minimal_perfect cmph \<longleftrightarrow> (\<forall>keys. keys \<noteq> [] \<longrightarrow> distinct keys \<longrightarrow> length keys < 2 ^ 32 \<longrightarrow>
    (\<exists>h. cmph keys = Some (h, of_nat (length keys)) \<and> inj_on h (set keys) \<and> (\<forall>k \<in> set keys. unat (h k) < length keys)))"

definition map_ready :: "'v value_traits \<Rightarrow> nat \<Rightarrow> (string \<Rightarrow> 'v result) \<Rightarrow> string list \<Rightarrow> cmph_map \<Rightarrow> bool" where
  "map_ready t n parse lines m \<longleftrightarrow> unat (cm_size m) = length (keys_of lines) \<and> keys_of lines \<noteq> []
    \<and> inj_on (cm_hash m) (set (keys_of lines)) \<and> (\<forall>k \<in> set (keys_of lines). unat (cm_hash m k) < length (keys_of lines))
    \<and> distinct (keys_of lines) \<and> keyed lines \<and> values_parse parse lines
    \<and> length (cm_data m) = length (keys_of lines) * (4 + n) \<and> table_holds t n parse (cm_hash m) lines (cm_data m)"

lemma build_map_ok:
  assumes "minimal_perfect cmph" "\<And>k. length (malloc k) = k" "fixed_size t n" "all_lines rec_file = lines"
    and "keyed lines" "lines \<noteq> []" "distinct (keys_of lines)" "values_parse parse lines" "length lines < 2 ^ 32"
  shows "\<exists>m. build_map cmph malloc t n parse name rec_file = Some (Inr m) \<and> map_ready t n parse lines m"
proof -
  let ?ks = "keys_of lines"
  have "filter (\<lambda>l. key_of_line l \<noteq> None) lines = lines" using assms(5) by (auto simp: keyed_def list_all_iff filter_id_conv)
  then have lk: "length ?ks = length lines" by (simp add: keys_of_def)
  then have ne: "?ks \<noteq> []" "length ?ks < 2 ^ 32" using assms(6,9) by auto
  obtain h where h: "cmph ?ks = Some (h, of_nat (length ?ks))" "inj_on h (set ?ks)" "\<forall>k \<in> set ?ks. unat (h k) < length ?ks"
    using assms(1,7) ne unfolding minimal_perfect_def by blast
  have u: "unat (of_nat (length ?ks) :: u32) = length ?ks" by (rule unat_of_nat_u32 [OF ne(2)])
  have "build_hash_function cmph name (create_key_file rec_file) = Inr (h, of_nat (length ?ks))"
    using h(1) assms(7) by (simp add: build_hash_function_def create_key_file_def assms(4) key_file_lines [OF assms(5)])
  moreover obtain table where "fill_table t parse h lines (malloc (length ?ks * (4 + n))) = Some (Inr table)"
      "length table = length ?ks * (4 + n)" "table_holds t n parse h lines table"
    using fill_table_ok [OF assms(3) h(2,3) assms(7,5,8) assms(2)] by blast
  ultimately show ?thesis using u ne h assms(4,5,7,8)
    by (simp add: build_map_def map_ready_def)
qed


lemma build_maps_ok:
  assumes "\<And>i name. i < length rec_files \<Longrightarrow> \<exists>m. build_one name (rec_files ! i) = Some (Inr m) \<and> P i m"
  shows "\<exists>ms. build_maps build_one dir_name k rec_files = Some (Inr ms) \<and> length ms = length rec_files
    \<and> (\<forall>i < length rec_files. P i (ms ! i))"
  using assms
proof (induction rec_files arbitrary: k P)
  case (Cons r rs)
  obtain m where m: "build_one (dir_name @ ''.'' @ show_nat k) r = Some (Inr m)" "P 0 m" using Cons.prems [of 0] by fastforce
  have "\<exists>m. build_one name (rs ! i) = Some (Inr m) \<and> P (Suc i) m" if "i < length rs" for i name
    using Cons.prems [of "Suc i" name] that by simp
  from Cons.IH [of "\<lambda>i. P (Suc i)" "Suc k", OF this] obtain ms where
    ms: "build_maps build_one dir_name (Suc k) rs = Some (Inr ms)" "length ms = length rs" "\<forall>i < length rs. P (Suc i) (ms ! i)"
    by blast
  have "P i ((m # ms) ! i)" if "i < Suc (length rs)" for i using that m(2) ms(3) by (cases i) simp_all
  then show ?case using m(1) ms by simp
qed simp

section \<open>Looking up what was built\<close>

lemma checked_entry_bytes:
  assumes "traits_ok t"
  shows "checked_entry t key (entry_bytes t c v) = (if c = hash32 key then Some v else None)"
proof -
  have "vt_get t (vt_put t v) = v" using assms unfolding traits_ok_def by (metis append_Nil2)
  then show ?thesis by (simp add: checked_entry_def entry_bytes_def)
qed

definition get_in_part :: "'v value_traits \<Rightarrow> nat \<Rightarrow> bool \<Rightarrow> cmph_map \<Rightarrow> string \<Rightarrow> 'v option result" where
  "get_in_part t n external m key = (if external then external_get t n m key else internal_get t n m key)"

lemma map_ready_hash: "map_ready t n parse lines m \<Longrightarrow> unat (cmph_hash m key) < length (keys_of lines)"
  unfolding map_ready_def cmph_hash_def by (simp add: unat_mod)

lemma get_slot:
  assumes "map_ready t n parse lines m"
  shows "get_in_part t n external m key = Inr (checked_entry t key (slot (4 + n) (unat (cmph_hash m key)) (cm_data m)))"
proof -
  let ?i = "unat (cmph_hash m key)"
  have "?i * (4 + n) + (4 + n) \<le> length (keys_of lines) * (4 + n)"
    using map_ready_hash [OF assms, of key] by (metis add.commute mult_Suc mult_le_mono1 Suc_leI)
  then have "\<not> length (cm_data m) < ?i * (4 + n) + (4 + n)" using assms by (simp add: map_ready_def)
  then show ?thesis by (simp add: get_in_part_def external_get_def internal_get_def slot_def Let_def)
qed

lemma get_known:
  assumes "map_ready t n parse lines m" "traits_ok t" "l \<in> set lines" "key_of_line l = Some (key, rest)" "parse rest = Inr v"
  shows "get_in_part t n external m key = Inr (Some v)"
proof -
  have k: "key \<in> set (keys_of lines)" by (rule keys_of_mem [OF assms(3,4)])
  then have "cmph_hash m key = cm_hash m key"
    using assms(1) by (simp add: map_ready_def cmph_hash_def word_arith_nat_mod)
  moreover have "slot (4 + n) (unat (cm_hash m key)) (cm_data m) = entry_bytes t (hash32 key) v"
    using assms unfolding map_ready_def table_holds_def by blast
  ultimately show ?thesis by (simp add: get_slot [OF assms(1)] checked_entry_bytes [OF assms(2)])
qed

text \<open>Every slot of a table belongs to a key, so an answer is the value of a key with the same checksum.\<close>

lemma get_answer:
  assumes "map_ready t n parse lines m" "traits_ok t" "get_in_part t n external m key = Inr (Some v)"
  shows "\<exists>l key' rest. l \<in> set lines \<and> key_of_line l = Some (key', rest) \<and> parse rest = Inr v \<and> hash32 key' = hash32 key"
proof -
  let ?ks = "keys_of lines" and ?f = "\<lambda>k. unat (cm_hash m k)"
  have r: "inj_on (cm_hash m) (set ?ks)" "\<forall>k \<in> set ?ks. ?f k < length ?ks" "distinct ?ks" "keyed lines" "values_parse parse lines"
    "table_holds t n parse (cm_hash m) lines (cm_data m)"
    using assms(1) by (simp_all add: map_ready_def)
  have "inj_on ?f (set ?ks)" using r(1) by (auto simp: inj_on_def word_unat_eq_iff [symmetric])
  then have "card (?f ` set ?ks) = length ?ks" using r(3) by (simp add: card_image distinct_card)
  moreover have "?f ` set ?ks \<subseteq> {..<length ?ks}" using r(2) by auto
  ultimately have "?f ` set ?ks = {..<length ?ks}" by (intro card_subset_eq) simp_all
  then have "unat (cmph_hash m key) \<in> ?f ` set ?ks" using map_ready_hash [OF assms(1), of key] by simp
  then obtain key' where k: "key' \<in> set ?ks" "unat (cmph_hash m key) = ?f key'" by blast
  then obtain l rest where l: "l \<in> set lines" "key_of_line l = Some (key', rest)" by (auto simp: keys_of_def)
  have "case key_of_line l of None \<Rightarrow> True | Some (key, rest) \<Rightarrow> \<exists>v. parse rest = Inr v"
    using r(5) l(1) by (simp add: values_parse_def list_all_iff)
  then obtain v' where v': "parse rest = Inr v'" using l(2) by auto
  have "slot (4 + n) (?f key') (cm_data m) = entry_bytes t (hash32 key') v'" using r(6) l v' unfolding table_holds_def by blast
  then have "get_in_part t n external m key = Inr (if hash32 key' = hash32 key then Some v' else None)"
    by (simp add: get_slot [OF assms(1)] k(2) checked_entry_bytes [OF assms(2)])
  then show ?thesis using assms(3) l v' by (auto split: if_splits)
qed


text \<open>\<open>Open\<close> keeps the tables on disk or reads them all.\<close>

lemma internal_open_ready: "map_ready t n parse lines m \<Longrightarrow> internal_open n m = Inr m"
  by (simp add: internal_open_def fread_def map_ready_def)

lemma big_open_ready:
  assumes "length ms = k" "\<forall>i < k. map_ready t n parse (lines i) (ms ! i)"
  shows "\<exists>external. big_open num_bytes memory n ms = Inr (BigMap external ms)"
proof -
  have "internal_open n (ms ! i) = Inr (ms ! i)" if "i < k" for i using internal_open_ready assms(2) that by blast
  then have "mapR (internal_open n) ms = Inr ms"
    unfolding mapR_eq_Inr using assms(1) by (simp add: list_all2_conv_all_nth)
  then show ?thesis by (auto simp: big_open_def)
qed

definition parts_ready :: "'v value_traits \<Rightarrow> nat \<Rightarrow> (string \<Rightarrow> 'v result) \<Rightarrow> string list \<Rightarrow> cmph_map list \<Rightarrow> bool" where
  "parts_ready t n parse files ms \<longleftrightarrow> length ms = unat (num_maps files) \<and> ms \<noteq> []
    \<and> (\<forall>i < length ms. map_ready t n parse (part files i) (ms ! i))"

lemma big_get_part:
  assumes "parts_ready t n parse files ms"
  shows "big_get t n (BigMap external ms) key = get_in_part t n external (ms ! unat (hash32 key mod num_maps files)) key"
    "unat (hash32 key mod num_maps files) < length ms"
proof -
  have "ms \<noteq> []" and l: "length ms = unat (num_maps files)" using assms by (simp_all add: parts_ready_def)
  then have "0 < unat (num_maps files)" by (metis length_greater_0_conv)
  then show "unat (hash32 key mod num_maps files) < length ms" by (simp add: unat_mod l)
  show "big_get t n (BigMap external ms) key = get_in_part t n external (ms ! unat (hash32 key mod num_maps files)) key"
    using \<open>ms \<noteq> []\<close> by (simp add: big_get_def get_in_part_def unat_mod l)
qed

lemma in_own_part: "key_of_line l = Some (key, rest) \<Longrightarrow> l \<in> set (input_lines files)
  \<Longrightarrow> l \<in> set (part files (unat (hash32 key mod num_maps files)))"
  by (simp add: part_def in_part_def)

lemma big_get_known:
  assumes "parts_ready t n parse files ms" "traits_ok t" "l \<in> set (input_lines files)" "key_of_line l = Some (key, rest)" "parse rest = Inr v"
  shows "big_get t n (BigMap external ms) key = Inr (Some v)"
proof -
  let ?i = "unat (hash32 key mod num_maps files)"
  note b = big_get_part [OF assms(1), where key = key]
  have "map_ready t n parse (part files ?i) (ms ! ?i)" using assms(1) b(2) by (simp add: parts_ready_def)
  from get_known [OF this assms(2) in_own_part [OF assms(4,3)] assms(4,5)] show ?thesis by (simp add: b(1))
qed

lemma big_get_answer:
  assumes "parts_ready t n parse files ms" "traits_ok t" "big_get t n (BigMap external ms) key = Inr (Some v)"
  shows "\<exists>l key' rest. l \<in> set (input_lines files) \<and> key_of_line l = Some (key', rest) \<and> parse rest = Inr v \<and> hash32 key' = hash32 key"
proof -
  let ?i = "unat (hash32 key mod num_maps files)"
  note b = big_get_part [OF assms(1), where key = key]
  have m: "map_ready t n parse (part files ?i) (ms ! ?i)" using assms(1) b(2) by (simp add: parts_ready_def)
  have "get_in_part t n external (ms ! ?i) key = Inr (Some v)" using assms(3) by (simp add: b(1))
  from get_answer [OF m assms(2) this] show ?thesis by (auto simp: part_def)
qed

text \<open>Files a map can be built of: different keys, values that parse and no empty part.\<close>

definition map_input :: "(string \<Rightarrow> 'v result) \<Rightarrow> string list \<Rightarrow> bool" where
  "map_input parse files \<longleftrightarrow> distinct (keys_of (input_lines files)) \<and> values_parse parse (input_lines files)
    \<and> length (input_lines files) < 2 ^ 32 \<and> (\<forall>i < unat (num_maps files). part files i \<noteq> [])"

lemma num_maps_pos: "length (input_lines files) < 2 ^ 32 \<Longrightarrow> 0 < unat (num_maps files)"
proof -
  assume "length (input_lines files) < 2 ^ 32"
  moreover have "length (filter (\<lambda>line. line \<noteq> []) (input_lines files)) \<le> length (input_lines files)" by simp
  ultimately have k: "length (filter (\<lambda>line. line \<noteq> []) (input_lines files)) < 2 ^ 32" by (rule order.strict_trans1 [rotated])
  let ?c = "length (filter (\<lambda>line. line \<noteq> []) (input_lines files))"
  have "count_records files div 10000000 = of_nat (?c div 10000000)"
  proof -
    have "unat (count_records files) = ?c" using k by (simp add: count_records_def unat_of_nat_u64)
    then show ?thesis by (simp add: word_arith_nat_div)
  qed
  then have "num_maps files = of_nat (1 + ?c div 10000000)"
    using k by (simp add: num_maps_def unsigned_of_nat take_bit_nat_eq_self flip: of_nat_Suc)
  moreover have "1 + ?c div 10000000 < 2 ^ 32" using k by simp
  ultimately have "unat (num_maps files) = 1 + ?c div 10000000" by (simp only: unat_of_nat_u32)
  then show ?thesis by simp
qed

lemma keys_of_filter: "set (keys_of (filter P ls)) \<subseteq> set (keys_of ls)" "distinct (keys_of ls) \<Longrightarrow> distinct (keys_of (filter P ls))"
proof -
  show s: "set (keys_of (filter P ls)) \<subseteq> set (keys_of ls)" for ls by (auto simp: keys_of_def)
  show "distinct (keys_of ls) \<Longrightarrow> distinct (keys_of (filter P ls))"
  proof (induction ls)
    case (Cons l ls)
    show ?case
    proof (cases "key_of_line l")
      case None
      then show ?thesis using Cons by (simp add: keys_of_def)
    next
      case (Some kr)
      then show ?thesis using Cons s [of ls] by (cases kr) (auto simp: keys_of_Cons)
    qed
  qed (simp add: keys_of_def)
qed

lemma build_big_map_ready:
  assumes "minimal_perfect cmph" "\<And>k. length (malloc k) = k" "fixed_size t n" "map_input parse files"
  shows "\<exists>ms. build_big_map cmph malloc t n parse dir_name files = Some (Inr ms) \<and> parts_ready t n parse files ms"
proof -
  have m: "distinct (keys_of (input_lines files))" "values_parse parse (input_lines files)" "length (input_lines files) < 2 ^ 32"
    "\<forall>i < unat (num_maps files). part files i \<noteq> []"
    using assms(4) by (simp_all add: map_input_def)
  have "\<exists>m. build_map cmph malloc t n parse name (partition_lines files ! i) = Some (Inr m) \<and> map_ready t n parse (part files i) m"
    if i: "i < length (partition_lines files)" for i name
  proof (rule build_map_ok [OF assms(1,2,3)])
    show "all_lines (partition_lines files ! i) = part files i" using i by (intro partition_nth) (simp add: partition_length)
    show "keyed (part files i)" by (rule part_keyed)
    show "part files i \<noteq> []" using m(4) i by (simp add: partition_length)
    show "distinct (keys_of (part files i))" unfolding part_def by (rule keys_of_filter(2) [OF m(1)])
    show "values_parse parse (part files i)" using m(2) by (simp add: values_parse_def part_def list_all_iff)
    have "length (part files i) \<le> length (input_lines files)" by (simp add: part_def)
    then show "length (part files i) < 2 ^ 32" using m(3) by (rule order.strict_trans1)
  qed
  from build_maps_ok [of "partition_lines files" "build_map cmph malloc t n parse" "\<lambda>i. map_ready t n parse (part files i)" dir_name 0, OF this]
  obtain ms where "build_big_map cmph malloc t n parse dir_name files = Some (Inr ms)" "length ms = unat (num_maps files)"
      "\<forall>i < unat (num_maps files). map_ready t n parse (part files i) (ms ! i)"
    by (auto simp: build_big_map_def partition_length)
  then show ?thesis using num_maps_pos [OF m(3)] by (auto simp: parts_ready_def)
qed

text \<open>
  C15. Given minimal perfect hash functions, a map is built of every input with different keys, values
  that parse and no empty part; it is opened whether or not its tables fit into memory, and answers
  every key of the input with the value of its line.  A key that is not in the input is answered with
  nothing, or with the value of a key that has the same 32-bit checksum.
\<close>

theorem big_map_correct:
  assumes "minimal_perfect cmph" "\<And>k. length (malloc k) = k" "fixed_size t n" "traits_ok t" "map_input parse files"
  shows "\<exists>ms b. build_big_map cmph malloc t n parse dir_name files = Some (Inr ms) \<and> big_open num_bytes memory n ms = Inr b
    \<and> (\<forall>l key rest. l \<in> set (input_lines files) \<longrightarrow> key_of_line l = Some (key, rest) \<longrightarrow>
        (\<exists>v. parse rest = Inr v \<and> big_get t n b key = Inr (Some v)))
    \<and> (\<forall>key v. big_get t n b key = Inr (Some v) \<longrightarrow>
        (\<exists>l key' rest. l \<in> set (input_lines files) \<and> key_of_line l = Some (key', rest) \<and> parse rest = Inr v \<and> hash32 key' = hash32 key))"
proof -
  obtain ms where ms: "build_big_map cmph malloc t n parse dir_name files = Some (Inr ms)" "parts_ready t n parse files ms"
    using build_big_map_ready [OF assms(1,2,3,5)] by blast
  obtain external where o: "big_open num_bytes memory n ms = Inr (BigMap external ms)"
    using big_open_ready [of ms "length ms" t n parse "part files" num_bytes memory] ms(2) by (auto simp: parts_ready_def)
  have "\<exists>v. parse rest = Inr v" if "l \<in> set (input_lines files)" "key_of_line l = Some (key, rest)" for l key rest
    using assms(5) that by (fastforce simp: map_input_def values_parse_def list_all_iff)
  then show ?thesis using ms(1) o big_get_known [OF ms(2) assms(4)] big_get_answer [OF ms(2) assms(4)] by blast
qed


lemma num_maps_small:
  assumes "length (input_lines files) < 10000000"
  shows "num_maps files = 1"
proof -
  let ?c = "length (filter (\<lambda>line. line \<noteq> []) (input_lines files))"
  have c: "?c < 10000000" using assms by (rule order.strict_trans1 [rotated]) simp
  have "unat (count_records files) = ?c" using c by (simp add: count_records_def unat_of_nat_u64)
  then have "count_records files div 10000000 = 0" using c by (simp add: word_arith_nat_div)
  then show ?thesis by (simp add: num_maps_def)
qed

lemma map_input_small:
  assumes "keyed (input_lines files)" "input_lines files \<noteq> []" "distinct (keys_of (input_lines files))"
    and "values_parse parse (input_lines files)" "length (input_lines files) < 10000000"
  shows "map_input parse files"
proof -
  have n: "num_maps files = 1" by (rule num_maps_small [OF assms(5)])
  have "in_part 1 0 l" if "l \<in> set (input_lines files)" for l
    using assms(1) that by (auto simp: in_part_def keyed_def list_all_iff)
  then have "part files 0 = input_lines files" by (simp add: part_def n)
  then show ?thesis using assms n by (simp add: map_input_def)
qed

text \<open>A hash function that numbers the keys in their order.\<close>

definition numbering :: "string list \<Rightarrow> mphf option" where
  "numbering keys = (if keys = [] then None else Some (\<lambda>k. of_nat (length (takeWhile (\<lambda>x. x \<noteq> k) keys)), of_nat (length keys)))"

lemma numbering_perfect: "minimal_perfect numbering"
  unfolding minimal_perfect_def
proof (intro allI impI)
  fix keys :: "string list"
  assume k: "keys \<noteq> []" "distinct keys" "length keys < 2 ^ 32"
  let ?i = "\<lambda>k. length (takeWhile (\<lambda>x. x \<noteq> k) keys)"
  have i: "?i x < length keys" "keys ! ?i x = x" if "x \<in> set keys" for x
  proof -
    show l: "?i x < length keys" 
    proof (rule ccontr)
      assume "\<not> ?i x < length keys"
      then have "takeWhile (\<lambda>y. y \<noteq> x) keys = keys" by (metis takeWhile_eq_take take_all not_less)
      then show False using that by (auto simp: takeWhile_eq_all_conv)
    qed
    show "keys ! ?i x = x" using nth_length_takeWhile [OF l] by simp
  qed
  then have u: "unat (of_nat (?i x) :: u32) = ?i x" if "x \<in> set keys" for x
    using that k(3) by (intro unat_of_nat_u32) (meson order.strict_trans)
  have "inj_on (\<lambda>x. of_nat (?i x) :: u32) (set keys)" by (rule inj_onI) (metis u i(2))
  then show "\<exists>h. numbering keys = Some (h, of_nat (length keys)) \<and> inj_on h (set keys) \<and> (\<forall>k \<in> set keys. unat (h k) < length keys)"
    using k(1) i(1) u by (auto simp: numbering_def)
qed

lemma parse_address_line:
  "parse_pair n1 n2 (tab # show_nat (unat (a :: 'a::len word)) @ tab # show_nat (unat (b :: 'b::len word))) = Inr (a, b)"
proof -
  have "\<not> digit tab" by (simp add: digit_def tab_def)
  then have "read_unsigned 0 (tab # show_nat (unat a) @ (tab # show_nat (unat b))) = (a, tab # show_nat (unat b), True)"
    by (intro read_unsigned_show) simp
  then have 1: "parse_unsigned n1 (tab # show_nat (unat a) @ tab # show_nat (unat b)) = Inr (a, show_nat (unat b))"
    by (simp add: parse_unsigned_def)
  have "read_unsigned 0 (show_nat (unat b)) = (b, [], True)"
  proof -
    have "read_unsigned 0 (tab # show_nat (unat b) @ []) = (b, [], True)" by (intro read_unsigned_show) simp
    moreover have "dropWhile white_space (tab # show_nat (unat b)) = dropWhile white_space (show_nat (unat b))"
      by (simp add: white_space_tab)
    ultimately show ?thesis by (simp add: read_unsigned_def)
  qed
  then have "parse_unsigned n2 (show_nat (unat b)) = Inr (b, [])" by (simp add: parse_unsigned_def)
  then show ?thesis using 1 by (simp add: parse_pair_def)
qed

text \<open>A table of two addresses.\<close>

definition ex_entries :: "(u32 \<times> u32) stored_entry list" where
  "ex_entries = [(''1:0_a'', [], (0, 0)), (''1:0_b'', [], (0, 28))]"

lemma entry_lines_input:
  assumes "list_all (\<lambda>(key, vs, a). plain_key key) es" "distinct (map fst es)" "es \<noteq> []" "length es < 10000000"
  shows "input_lines [concat (map entry_line es)] = map (\<lambda>(key, vs, a). address_line key a) es"
    "map_input parse_address [concat (map entry_line es)]"
proof -
  let ?ls = "map (\<lambda>(key, vs, a). address_line key a) es"
  show i: "input_lines [concat (map entry_line es)] = ?ls" by (simp add: input_lines_def table_lines [OF assms(1)])
  have k: "key_of_line (address_line key a) = Some (key, tab # show_nat (unat (fst a)) @ tab # show_nat (unat (snd a)))"
    if "plain_key key" for key a
    using that by (simp add: address_line_def key_of_line_eq plain_key_def)
  have "keyed ?ls" using assms(1) k address_line_end by (fastforce simp: keyed_def list_all_iff)
  moreover have "keys_of ?ls = map fst es"
    using assms(1) by (induction es) (auto simp: keys_of_def k)
  moreover have "values_parse parse_address ?ls"
    using assms(1) by (fastforce simp: values_parse_def list_all_iff k parse_address_def parse_address_line)
  ultimately show "map_input parse_address [concat (map entry_line es)]"
    using assms(2-4) by (intro map_input_small) (simp_all add: i)
qed


lemma ex_entries_input: "map_input parse_address [concat (map entry_line ex_entries)]"
  by (rule entry_lines_input(2)) (simp_all add: ex_entries_def plain_key_def tab_def line_end_def)

theorem big_map_correct_witness:
  "\<exists>ms b. build_big_map numbering (\<lambda>k. replicate k 0) address_traits 6 parse_address ''index'' [concat (map entry_line ex_entries)] = Some (Inr ms)
    \<and> big_open 1000 10 6 ms = Inr b
    \<and> (\<forall>l key rest. l \<in> set (input_lines [concat (map entry_line ex_entries)]) \<longrightarrow> key_of_line l = Some (key, rest) \<longrightarrow>
        (\<exists>v. parse_address rest = Inr v \<and> big_get address_traits 6 b key = Inr (Some v)))
    \<and> (\<forall>key v. big_get address_traits 6 b key = Inr (Some v) \<longrightarrow>
        (\<exists>l key' rest. l \<in> set (input_lines [concat (map entry_line ex_entries)]) \<and> key_of_line l = Some (key', rest)
          \<and> parse_address rest = Inr v \<and> hash32 key' = hash32 key))"
  by (rule big_map_correct [OF numbering_perfect _ address_traits_ok(2,1) ex_entries_input]) simp

section \<open>The header table of an index\<close>

lemma header_table_built:
  assumes "parts_ready address_traits 6 parse_address [table] ms"
  shows "header_table_ok table (big_get address_traits 6 (BigMap external ms))"
  unfolding header_table_ok_def
proof (intro allI impI)
  fix key a
  assume k: "tab \<notin> set key" "address_line key a \<in> set (all_lines table)"
  then have "key_of_line (address_line key a) = Some (key, tab # show_nat (unat (fst a)) @ tab # show_nat (unat (snd a)))"
    by (simp add: address_line_def key_of_line_eq)
  moreover have "parse_address (tab # show_nat (unat (fst a)) @ tab # show_nat (unat (snd a))) = Inr a"
    by (simp add: parse_address_def parse_address_line)
  ultimately show "big_get address_traits 6 (BigMap external ms) key = Inr (Some a)"
    using big_get_known [OF assms address_traits_ok(1)] k(2) by (simp add: input_lines_def)
qed

lemma written_lines_input:
  assumes "writer_ok t es st" "map (\<lambda>(key, vs, a). (key, vs)) es = filter P kvs" "list_all (\<lambda>(key, vs). plain_key key \<and> list_fits t vs) kvs"
    and "distinct (map fst kvs)" "es \<noteq> []" "length kvs < 10000000"
  shows "map_input parse_address [st_table st]"
proof -
  have "st_table st = concat (map entry_line es)" using assms(1) by (simp add: writer_ok_def)
  moreover have "map fst es = map fst (filter P kvs)" unfolding assms(2) [symmetric] by (auto simp: comp_def)
  then have "distinct (map fst es)" using distinct_map_filter [OF assms(4)] by simp
  moreover have "length es = length (filter P kvs)" using assms(2) by (metis length_map)
  then have "length es < 10000000" using length_filter_le [of P kvs] assms(6) by linarith
  ultimately show ?thesis using entry_lines_input(2) [OF written_keys [OF assms(2,3)]] assms(5) by simp
qed

text \<open>A key whose checksum no key of the table has is not found.\<close>

lemma big_get_unknown:
  assumes "parts_ready t n parse files ms" "traits_ok t"
    and "\<And>l key' rest. l \<in> set (input_lines files) \<Longrightarrow> key_of_line l = Some (key', rest) \<Longrightarrow> hash32 key' \<noteq> hash32 key"
  shows "big_get t n (BigMap external ms) key = Inr None"
proof -
  let ?i = "unat (hash32 key mod num_maps files)"
  note b = big_get_part [OF assms(1), where key = key]
  have "map_ready t n parse (part files ?i) (ms ! ?i)" using assms(1) b(2) by (simp add: parts_ready_def)
  from get_slot [OF this] b(1) obtain r where r: "big_get t n (BigMap external ms) key = Inr r" by simp
  show ?thesis
  proof (cases r)
    case (Some v)
    from big_get_answer [OF assms(1,2), of external key v] r Some assms(3) show ?thesis by blast
  qed (simp add: r)
qed

lemma unknown_not_searched:
  assumes "writer_ok t es st" "list_all (\<lambda>(key, vs, a). plain_key key) es" "parts_ready address_traits 6 parse_address [st_table st] ms"
    and "hash32 key \<notin> hash32 ` fst ` set es"
  shows "search_stored \<lparr>sr_table = Some (big_get address_traits 6 (BigMap external ms)), sr_files = files\<rparr> key start len = None"
proof -
  have "hash32 key' \<noteq> hash32 key" if l: "l \<in> set (input_lines [st_table st])" "key_of_line l = Some (key', rest)" for l key' rest
  proof -
    have "st_table st = concat (map entry_line es)" using assms(1) by (simp add: writer_ok_def)
    then have "l \<in> set (map (\<lambda>(key, vs, a). address_line key a) es)"
      using l(1) table_lines [OF assms(2)] by (simp add: input_lines_def)
    then obtain e where e: "e \<in> set es" "l = address_line (fst e) (snd (snd e))" by auto
    then have "tab \<notin> set (fst e)" using assms(2) by (auto simp: list_all_iff plain_key_def)
    then have "key' = fst e" using l(2) e(2) by (simp add: address_line_def key_of_line_eq)
    then show ?thesis using assms(4) e(1) by (metis imageI)
  qed
  then have "big_get address_traits 6 (BigMap external ms) key = Inr None"
    by (rule big_get_unknown [OF assms(3) address_traits_ok(1)])
  then show ?thesis by (simp add: search_stored_def storage_read_postlist_def storage_address_def)
qed

text \<open>A closed index is searched through the map of its table.\<close>

lemma stored_lists_searched:
  assumes "minimal_perfect cmph" "\<And>k. length (malloc k) = k" "traits_ok t" "writer_ok t es st"
    and "map (\<lambda>(key, vs, a). (key, vs)) es = filter (\<lambda>(key, vs). vs \<noteq> []) kvs"
    and "list_all (\<lambda>(key, vs). plain_key key \<and> list_fits t vs) kvs" "distinct (map fst kvs)" "es \<noteq> []" "length kvs < 10000000"
  shows "\<exists>table ms b. storage_close st = Some table
    \<and> build_big_map cmph malloc address_traits 6 parse_address dir_name [table] = Some (Inr ms)
    \<and> big_open num_bytes memory 6 ms = Inr b
    \<and> (\<forall>key vs begin len. (key, vs) \<in> set kvs \<longrightarrow> vs \<noteq> [] \<longrightarrow>
        (\<exists>p p'. search_stored \<lparr>sr_table = Some (big_get address_traits 6 b), sr_files = st_files st\<rparr> key begin len = Some p
          \<and> pl_values t p = Some (Inr (read_postlist vs begin len, p'))))
    \<and> (\<forall>key begin len. hash32 key \<notin> hash32 ` fst ` set kvs \<longrightarrow>
        search_stored \<lparr>sr_table = Some (big_get address_traits 6 b), sr_files = st_files st\<rparr> key begin len = None)"
proof -
  have c: "storage_close st = Some (st_table st)" using assms(4,8) by (simp add: storage_close_def writer_ok_def)
  obtain ms where ms: "build_big_map cmph malloc address_traits 6 parse_address dir_name [st_table st] = Some (Inr ms)"
      "parts_ready address_traits 6 parse_address [st_table st] ms"
    using build_big_map_ready [OF assms(1,2) address_traits_ok(2) written_lines_input [OF assms(4-9)]] by blast
  obtain external where o: "big_open num_bytes memory 6 ms = Inr (BigMap external ms)"
    using big_open_ready [of ms "length ms" address_traits 6 parse_address "part [st_table st]" num_bytes memory] ms(2)
    by (auto simp: parts_ready_def)
  note found = stored_lists_found [OF assms(4-6) header_table_built [OF ms(2)]]
  have "\<exists>p p'. search_stored \<lparr>sr_table = Some (big_get address_traits 6 (BigMap external ms)), sr_files = st_files st\<rparr> key start len = Some p
          \<and> pl_values t p = Some (Inr (read_postlist vs start len, p'))" if "(key, vs) \<in> set kvs" "vs \<noteq> []" for key vs start len
    using found [OF that] pl_values_ok [OF assms(3)] by blast
  moreover have "fst ` set es \<subseteq> fst ` set kvs"
  proof
    fix key assume "key \<in> fst ` set es"
    then have "key \<in> fst ` set (map (\<lambda>(key, vs, a). (key, vs)) es)" by force
    then show "key \<in> fst ` set kvs" unfolding assms(5) by auto
  qed
  then have "search_stored \<lparr>sr_table = Some (big_get address_traits 6 (BigMap external ms)), sr_files = st_files st\<rparr> key start len = None"
    if "hash32 key \<notin> hash32 ` fst ` set kvs" for key start len
    using that by (intro unknown_not_searched [OF assms(4) written_keys [OF assms(5,6)] ms(2)]) blast
  ultimately show ?thesis using c ms(1) o by blast
qed

text \<open>
  The storage of an index from end to end: the posting lists are written to data files, the table of
  their addresses is made into a hash map, and then the searcher finds for every key the part of its
  values that is asked for.
\<close>

theorem index_storage_correct:
  assumes "minimal_perfect cmph" "\<And>k. length (malloc k) = k" "traits_ok t" "storable t kvs" "distinct (map fst kvs)"
    and "length kvs < 10000000" "list_ex (\<lambda>(key, vs). vs \<noteq> []) kvs"
  shows "\<exists>st table ms b. write_all t new_storage kvs = Some (Inr st) \<and> storage_close st = Some table
    \<and> build_big_map cmph malloc address_traits 6 parse_address dir_name [table] = Some (Inr ms)
    \<and> big_open num_bytes memory 6 ms = Inr b
    \<and> (\<forall>key vs begin len. (key, vs) \<in> set kvs \<longrightarrow> vs \<noteq> [] \<longrightarrow>
        (\<exists>p p'. search_stored \<lparr>sr_table = Some (big_get address_traits 6 b), sr_files = st_files st\<rparr> key begin len = Some p
          \<and> pl_values t p = Some (Inr (read_postlist vs begin len, p'))))"
proof -
  have k: "list_all (\<lambda>(key, vs). key \<noteq> [] \<and> tab \<notin> set key \<and> list_fits t vs) kvs"
    using assms(4) by (auto simp: storable_def plain_key_def list_all_iff)
  have f: "list_all (\<lambda>(key, vs). plain_key key \<and> list_fits t vs) kvs" using assms(4) by (simp add: storable_def)
  obtain st es where st: "write_all t new_storage kvs = Some (Inr st)" "writer_ok t es st"
      "map (\<lambda>(key, vs, a). (key, vs)) es = filter (\<lambda>(key, vs). vs \<noteq> []) kvs"
    using write_all_ok [OF writer_ok_new k] assms(4) by (auto simp: storable_def)
  have "es \<noteq> []" using assms(7) entry_of_list [OF st(3)] by (auto simp: list_ex_iff)
  from stored_lists_searched [OF assms(1-3) st(2,3) f assms(5) this assms(6)] st(1) show ?thesis by blast
qed

theorem index_storage_correct_witness:
  "\<exists>st table ms b. write_all pair_traits new_storage ex_lists = Some (Inr st) \<and> storage_close st = Some table
    \<and> build_big_map numbering (\<lambda>k. replicate k 0) address_traits 6 parse_address ''index'' [table] = Some (Inr ms)
    \<and> big_open 10 1000 6 ms = Inr b
    \<and> (\<forall>key vs begin len. (key, vs) \<in> set ex_lists \<longrightarrow> vs \<noteq> [] \<longrightarrow>
        (\<exists>p p'. search_stored \<lparr>sr_table = Some (big_get address_traits 6 b), sr_files = st_files st\<rparr> key begin len = Some p
          \<and> pl_values pair_traits p = Some (Inr (read_postlist vs begin len, p'))))"
  by (rule index_storage_correct [OF numbering_perfect _ pair_traits_ok ex_lists_storable]) (simp_all add: ex_lists_def)

end
