(* ===== verification/Postlist_Sorter.thy ===== *)
theory Postlist_Sorter
  imports Postlists "HOL-Library.Multiset"
begin

text \<open>
  \<open>PostlistSorter\<close>: a posting list is sorted in memory, or when it is large in parts that are written to
  temporary files and merged.  \<open>std::sort\<close> leaves the order of equivalent values open; it is a
  parameter that gives some sorted permutation.
\<close>

section \<open>Sorting\<close>

definition strict_weak :: "('v \<Rightarrow> 'v \<Rightarrow> bool) \<Rightarrow> bool" where
  "strict_weak lt \<longleftrightarrow> (\<forall>a b. lt a b \<longrightarrow> \<not> lt b a) \<and> (\<forall>a b c. \<not> lt a b \<longrightarrow> \<not> lt b c \<longrightarrow> \<not> lt a c)"

definition in_order :: "('v \<Rightarrow> 'v \<Rightarrow> bool) \<Rightarrow> 'v list \<Rightarrow> bool" where
  "in_order lt vs \<longleftrightarrow> sorted_wrt (\<lambda>a b. \<not> lt b a) vs"

definition std_sorts :: "(('v \<Rightarrow> 'v \<Rightarrow> bool) \<Rightarrow> 'v list \<Rightarrow> 'v list) \<Rightarrow> ('v \<Rightarrow> 'v \<Rightarrow> bool) \<Rightarrow> bool" where
  "std_sorts srt lt \<longleftrightarrow> (\<forall>vs. mset (srt lt vs) = mset vs \<and> in_order lt (srt lt vs))"

text \<open>\<open>std::less\<close> and \<open>std::greater\<close> of pairs compare the first elements only.\<close>

definition pair_less :: "u32 \<times> u32 \<Rightarrow> u32 \<times> u32 \<Rightarrow> bool" where
  "pair_less a b \<longleftrightarrow> fst a < fst b"

definition pair_greater :: "u32 \<times> u32 \<Rightarrow> u32 \<times> u32 \<Rightarrow> bool" where
  "pair_greater a b \<longleftrightarrow> fst a > fst b"

lemma pair_orders: "strict_weak pair_less" "strict_weak pair_greater"
  by (auto simp: strict_weak_def pair_less_def pair_greater_def)

definition build_all :: "'v value_traits \<Rightarrow> 'v list \<Rightarrow> postlist result" where
  "build_all t vs = rbind (build t (fold (push_back t) vs (new_postlist_builder default_page_size))) (\<lambda>(q, b). Inr q)"

definition internal_sort :: "'v value_traits \<Rightarrow> (('v \<Rightarrow> 'v \<Rightarrow> bool) \<Rightarrow> 'v list \<Rightarrow> 'v list) \<Rightarrow> ('v \<Rightarrow> 'v \<Rightarrow> bool) \<Rightarrow> postlist \<Rightarrow> postlist result option" where
  "internal_sort t srt lt p = obind (pl_values t p) (\<lambda>(vs, p). Some (build_all t (srt lt vs)))"

section \<open>Scattering and merging\<close>

text \<open>A temporary file is the list of its bytes from its position on; \<open>read_from\<close> fails at the end.\<close>

definition read_from :: "'v value_traits \<Rightarrow> u8 list \<Rightarrow> ('v \<times> u8 list) option" where
  "read_from t file = (if file = [] then None else let v = vt_get t file in Some (v, drop (size_of t v) file))"

fun scatter_loop :: "'v value_traits \<Rightarrow> ('v list \<Rightarrow> 'v list) \<Rightarrow> nat \<Rightarrow> 'v list \<Rightarrow> 'v list \<Rightarrow> u8 list list" where
  "scatter_loop t srt max_values values [] = (if values \<noteq> [] then [bytes_of_values t (srt values)] else [])"
| "scatter_loop t srt max_values values (v # vs) =
    (let values = values @ [v]
     in if length values = max_values then bytes_of_values t (srt values) # scatter_loop t srt max_values [] vs
        else scatter_loop t srt max_values values vs)"

definition scatter :: "'v value_traits \<Rightarrow> (('v \<Rightarrow> 'v \<Rightarrow> bool) \<Rightarrow> 'v list \<Rightarrow> 'v list) \<Rightarrow> ('v \<Rightarrow> 'v \<Rightarrow> bool) \<Rightarrow> postlist \<Rightarrow> nat \<Rightarrow> u8 list list result option" where
  "scatter t srt lt p bucket_count =
    obind (pl_values t p) (\<lambda>(vs, p').
      (let bucket_count = (if bucket_count = 0 then bucket_count + 1 else bucket_count)
       in Some (Inr (scatter_loop t (srt lt) (1 + pl_size p div bucket_count) [] vs))))"

fun first_values :: "'v value_traits \<Rightarrow> u8 list list \<Rightarrow> ('v \<times> u8 list) list result" where
  "first_values t [] = Inr []"
| "first_values t (file # files) =
    (case read_from t file of
       None \<Rightarrow> Inl (RuntimeError ''traits_type::read_from failed for'')
     | Some s \<Rightarrow> rbind (first_values t files) (\<lambda>ss. Inr (s # ss)))"

text \<open>\<open>std::min_element\<close>: the index of the first element such that none is smaller.\<close>

fun min_loop :: "('v \<Rightarrow> 'v \<Rightarrow> bool) \<Rightarrow> nat \<Rightarrow> 'v \<Rightarrow> nat \<Rightarrow> 'v list \<Rightarrow> nat" where
  "min_loop lt i m k [] = i"
| "min_loop lt i m k (v # vs) = (if lt v m then min_loop lt k v (Suc k) vs else min_loop lt i m (Suc k) vs)"

definition min_element :: "('v \<Rightarrow> 'v \<Rightarrow> bool) \<Rightarrow> 'v list \<Rightarrow> nat" where
  "min_element lt vs = (case vs of [] \<Rightarrow> 0 | v # vs \<Rightarrow> min_loop lt 0 v 1 vs)"

text \<open>The loop over the streams, each with its next value; every round pushes one value, which is the fuel.\<close>

primrec merge_loop :: "nat \<Rightarrow> 'v value_traits \<Rightarrow> ('v \<Rightarrow> 'v \<Rightarrow> bool) \<Rightarrow> ('v \<times> u8 list) list \<Rightarrow> 'v builder \<Rightarrow> 'v builder option" where
  "merge_loop 0 t lt streams b = None"
| "merge_loop (Suc n) t lt streams b =
    (if streams = [] then Some b
     else
       (let i = min_element lt (map fst streams);
            (v, file) = streams ! i
        in merge_loop n t lt
             (case read_from t file of None \<Rightarrow> erase_at i streams | Some s \<Rightarrow> streams[i := s])
             (push_back t v b)))"

definition merge_buckets :: "'v value_traits \<Rightarrow> ('v \<Rightarrow> 'v \<Rightarrow> bool) \<Rightarrow> u8 list list \<Rightarrow> postlist result option" where
  "merge_buckets t lt buckets =
    obind (Some (first_values t buckets)) (\<lambda>streams.
      case merge_loop (Suc (sum_list (map length buckets))) t lt streams (new_postlist_builder default_page_size) of
        None \<Rightarrow> None
      | Some b \<Rightarrow> Some (rbind (build t b) (\<lambda>(q, b). Inr q)))"

definition postlist_sort :: "'v value_traits \<Rightarrow> (('v \<Rightarrow> 'v \<Rightarrow> bool) \<Rightarrow> 'v list \<Rightarrow> 'v list) \<Rightarrow> ('v \<Rightarrow> 'v \<Rightarrow> bool) \<Rightarrow> nat \<Rightarrow> postlist \<Rightarrow> postlist result option" where
  "postlist_sort t srt lt max_memory_usage_mb p =
    (let max_bucket_size = 1 + max_memory_usage_mb * 1024 * 1024;
         bucket_count = unat (hd_total_size (pl_head p)) div max_bucket_size
     in if bucket_count = 0 then internal_sort t srt lt p
        else obind (scatter t srt lt p bucket_count) (merge_buckets t lt))"

section \<open>Merging sorts\<close>

lemma min_loop_ok:
  assumes "strict_weak lt" "i < k" "us ! i = m" "length us = k" "\<forall>j < k. \<not> lt (us ! j) m"
  shows "min_loop lt i m k vs < k + length vs
    \<and> (\<forall>j < k + length vs. \<not> lt ((us @ vs) ! j) ((us @ vs) ! min_loop lt i m k vs))"
  using assms(2-)
proof (induction vs arbitrary: i m k us)
  case Nil
  then show ?case by simp
next
  case (Cons v vs)
  have asym: "\<And>a b. lt a b \<Longrightarrow> \<not> lt b a" and neg: "\<And>a b c. \<not> lt a b \<Longrightarrow> \<not> lt b c \<Longrightarrow> \<not> lt a c"
    using assms(1) unfolding strict_weak_def by blast+
  show ?case
  proof (cases "lt v m")
    case True
    have "\<not> lt v v" using asym by blast
    moreover have "\<not> lt (us ! j) v" if "j < k" for j using neg [OF _ asym [OF True]] Cons.prems(4) that by blast
    ultimately have "\<forall>j < Suc k. \<not> lt ((us @ [v]) ! j) v" using Cons.prems(3) by (auto simp: less_Suc_eq nth_append)
    from Cons.IH [of k "Suc k" "us @ [v]" v, OF _ _ _ this] show ?thesis
      using True Cons.prems(3) nth_append_length [of us v "[]"] by simp
  next
    case False
    then have "\<forall>j < Suc k. \<not> lt ((us @ [v]) ! j) m" using Cons.prems(3,4) by (auto simp: less_Suc_eq nth_append)
    from Cons.IH [of i "Suc k" "us @ [v]" m, OF _ _ _ this] show ?thesis
      using False Cons.prems(1-3) by (simp add: nth_append)
  qed
qed

lemma min_element_ok:
  assumes "strict_weak lt" "vs \<noteq> []"
  shows "min_element lt vs < length vs" "\<forall>v \<in> set vs. \<not> lt v (vs ! min_element lt vs)"
proof -
  obtain u us where u: "vs = u # us" using assms(2) by (cases vs) auto
  have "\<not> lt u u" using assms(1) unfolding strict_weak_def by blast
  then show "min_element lt vs < length vs" "\<forall>v \<in> set vs. \<not> lt v (vs ! min_element lt vs)"
    using min_loop_ok [OF assms(1), of 0 1 "[u]" u us] u by (auto simp: min_element_def all_set_conv_all_nth)
qed

text \<open>The streams of lists that are sorted and not empty.\<close>

definition streams_of :: "'v value_traits \<Rightarrow> 'v list list \<Rightarrow> ('v \<times> u8 list) list" where
  "streams_of t vss = map (\<lambda>vs. (hd vs, bytes_of_values t (tl vs))) vss"

lemma read_from_bytes:
  assumes "traits_ok t" "list_all (\<lambda>v. 0 < size_of t v) vs"
  shows "read_from t (bytes_of_values t vs) = (case vs of [] \<Rightarrow> None | v # vs \<Rightarrow> Some (v, bytes_of_values t vs))"
proof (cases vs)
  case (Cons v us)
  then have "vt_put t v \<noteq> []" using assms(2) by (auto simp: size_of_def)
  then show ?thesis using assms(1) Cons by (simp add: read_from_def traits_ok_def size_of_def Let_def)
qed (simp add: read_from_def)

lemma merge_loop_ok:
  assumes "traits_ok t" "strict_weak lt"
    and "list_all (\<lambda>vs. vs \<noteq> [] \<and> in_order lt vs \<and> list_all (\<lambda>v. 0 < size_of t v) vs) vss"
    and "length (concat vss) < n"
  shows "\<exists>out. merge_loop n t lt (streams_of t vss) b = Some (fold (push_back t) out b)
    \<and> mset out = mset (concat vss) \<and> in_order lt out"
  using assms(3,4)
proof (induction n arbitrary: vss b)
  case (Suc n)
  show ?case
  proof (cases "vss = []")
    case True
    then show ?thesis by (intro exI [of _ "[]"]) (simp add: streams_of_def in_order_def)
  next
    case False
    let ?hs = "map fst (streams_of t vss)"
    define i where "i = min_element lt ?hs"
    have h: "?hs = map hd vss" by (simp add: streams_of_def)
    have i: "i < length vss" "\<forall>v \<in> set (map hd vss). \<not> lt v (map hd vss ! i)"
      using min_element_ok [OF assms(2), of ?hs] False h by (auto simp: i_def streams_of_def)
    define pre where "pre = take i vss"
    define post where "post = drop (Suc i) vss"
    have nth: "vss ! i \<noteq> []" using Suc.prems(1) i(1) by (simp add: list_all_length)
    then obtain v vs where v: "vss ! i = v # vs" by (cases "vss ! i") auto
    have sp: "vss = pre @ (v # vs) # post"
      using id_take_nth_drop [OF i(1)] unfolding v pre_def post_def .
    have lp: "length pre = i" using i(1) by (simp add: pre_def)
    have ok: "list_all (\<lambda>vs. vs \<noteq> [] \<and> in_order lt vs \<and> list_all (\<lambda>v. 0 < size_of t v) vs) (pre @ post)"
      "in_order lt vs" "list_all (\<lambda>v. 0 < size_of t v) vs" "\<forall>x \<in> set vs. \<not> lt x v"
      using Suc.prems(1) by (auto simp: sp in_order_def)
    have neg: "\<And>a b c. \<not> lt a b \<Longrightarrow> \<not> lt b c \<Longrightarrow> \<not> lt a c" and irr: "\<And>a. \<not> lt a a"
      using assms(2) unfolding strict_weak_def by blast+
    have least: "\<not> lt x v" if x: "x \<in> set (concat (pre @ vs # post))" for x
    proof -
      from x consider "x \<in> set vs" | us where "us \<in> set (pre @ post)" "x \<in> set us" by auto
      then show ?thesis
      proof cases
        case 2
        have "us \<noteq> []" "in_order lt us" using ok(1) 2(1) by (auto simp: list_all_iff)
        then have "\<not> lt x (hd us)" using 2(2) irr by (cases us) (auto simp: in_order_def)
        moreover have "us \<in> set vss" using 2(1) by (auto simp: sp)
        then have "\<not> lt (hd us) v" using i(2) v i(1) by simp
        ultimately show ?thesis by (rule neg)
      qed (use ok(4) in blast)
    qed
    define next' where "next' = (if vs = [] then pre @ post else pre @ vs # post)"
    have st: "(case read_from t (bytes_of_values t vs) of None \<Rightarrow> erase_at i (streams_of t vss) | Some s \<Rightarrow> (streams_of t vss)[i := s])
        = streams_of t next'"
      using lp unfolding read_from_bytes [OF assms(1) ok(3)]
      by (cases vs) (simp_all add: next'_def streams_of_def sp erase_at_def list_update_append)
    have "list_all (\<lambda>vs. vs \<noteq> [] \<and> in_order lt vs \<and> list_all (\<lambda>v. 0 < size_of t v) vs) next'"
      using ok by (simp add: next'_def)
    moreover have m: "mset (concat next') = mset (concat (pre @ vs # post))" by (simp add: next'_def)
    moreover have "length (concat next') < n"
    proof -
      have "length (concat next') = length (concat (pre @ vs # post))" using m by (metis size_mset)
      then show ?thesis using Suc.prems(2) by (simp add: sp)
    qed
    ultimately obtain out where out: "merge_loop n t lt (streams_of t next') (push_back t v b) = Some (fold (push_back t) out (push_back t v b))"
        "mset out = mset (concat (pre @ vs # post))" "in_order lt out"
      using Suc.IH [of next' "push_back t v b"] by auto
    have "streams_of t vss ! i = (v, bytes_of_values t vs)" using i(1) v by (simp add: streams_of_def)
    moreover have "streams_of t vss \<noteq> []" using False by (simp add: streams_of_def)
    ultimately have "merge_loop (Suc n) t lt (streams_of t vss) b = Some (fold (push_back t) (v # out) b)"
      using st out(1) by (simp add: i_def [symmetric])
    moreover have "set out = set (concat (pre @ vs # post))" using out(2) by (metis set_mset_mset)
    then have "in_order lt (v # out)" using out(3) least by (simp add: in_order_def)
    moreover have "mset (v # out) = mset (concat vss)" using out(2) by (simp add: sp)
    ultimately show ?thesis by blast
  qed
qed simp


lemma scatter_loop_ok:
  assumes "std_sorts srt lt" "0 < n" "length acc < n"
  shows "\<exists>vss. scatter_loop t (srt lt) n acc vs = map (bytes_of_values t) vss \<and> mset (concat vss) = mset (acc @ vs)
    \<and> list_all (\<lambda>us. us \<noteq> [] \<and> in_order lt us) vss"
  using assms(3)
proof (induction vs arbitrary: acc)
  case Nil
  have s: "mset (srt lt acc) = mset acc" "in_order lt (srt lt acc)" using assms(1) by (simp_all add: std_sorts_def)
  show ?case
  proof (cases "acc = []")
    case True
    then show ?thesis by (intro exI [of _ "[]"]) simp
  next
    case False
    then have "srt lt acc \<noteq> []" using s(1) by (metis mset_zero_iff)
    then show ?thesis using s False by (intro exI [of _ "[srt lt acc]"]) simp
  qed
next
  case (Cons v vs)
  let ?acc = "acc @ [v]"
  have s: "mset (srt lt ?acc) = mset ?acc" "in_order lt (srt lt ?acc)" using assms(1) by (simp_all add: std_sorts_def)
  show ?case
  proof (cases "length ?acc = n")
    case True
    obtain vss where "scatter_loop t (srt lt) n [] vs = map (bytes_of_values t) vss" "mset (concat vss) = mset vs"
        "list_all (\<lambda>us. us \<noteq> [] \<and> in_order lt us) vss"
      using Cons.IH [of "[]"] assms(2) by auto
    moreover have "srt lt ?acc \<noteq> []" using s(1) by (metis mset_zero_iff snoc_eq_iff_butlast)
    ultimately show ?thesis using s True by (intro exI [of _ "srt lt ?acc # vss"]) (simp add: Let_def)
  next
    case False
    then have "length ?acc < n" using Cons.prems by simp
    from Cons.IH [OF this] show ?thesis using False by (simp add: Let_def)
  qed
qed

lemma first_values_ok:
  assumes "traits_ok t" "list_all (\<lambda>us. us \<noteq> [] \<and> list_all (\<lambda>v. 0 < size_of t v) us) vss"
  shows "first_values t (map (bytes_of_values t) vss) = Inr (streams_of t vss)"
  using assms(2)
proof (induction vss)
  case (Cons us vss)
  then obtain v vs where u: "us = v # vs" by (cases us) auto
  have "read_from t (bytes_of_values t us) = Some (v, bytes_of_values t vs)"
    using read_from_bytes [OF assms(1), of us] Cons.prems u by simp
  then show ?case using Cons u by (simp add: streams_of_def)
qed (simp add: streams_of_def)

lemma bytes_mset: "mset us = mset vs \<Longrightarrow> length (bytes_of_values t us) = length (bytes_of_values t vs)"
proof -
  assume "mset us = mset vs"
  then have "sum_mset (image_mset (size_of t) (mset us)) = sum_mset (image_mset (size_of t) (mset vs))" by simp
  moreover have "length (bytes_of_values t ws) = sum_mset (image_mset (size_of t) (mset ws))" for ws
    by (induction ws) (simp_all add: size_of_def)
  ultimately show ?thesis by simp
qed

lemma values_fit_mset: "mset us = mset vs \<Longrightarrow> values_fit t n vs \<Longrightarrow> values_fit t n us"
  using bytes_mset [of us vs t] by (simp add: values_fit_def list_all_iff) (metis set_mset_mset)

lemma build_all_ok: "values_fit t default_page_size vs \<Longrightarrow> \<exists>q. build_all t vs = Inr q \<and> holds t vs q"
  using built_list [of t default_page_size vs] by (auto simp: build_all_def)

lemma postlist_sort_ok:
  assumes "traits_ok t" "strict_weak lt" "std_sorts srt lt" "values_fit t default_page_size vs" "holds t vs p"
  shows "\<exists>q us. postlist_sort t srt lt mb p = Some (Inr q) \<and> holds t us q \<and> mset us = mset vs \<and> in_order lt us"
proof -
  obtain it where r: "pl_values t p = Some (Inr (vs, p\<lparr>pl_iter := it\<rparr>))" using pl_values_ok [OF assms(1,5)] by blast
  define k where "k = unat (hd_total_size (pl_head p)) div (1 + mb * 1024 * 1024)"
  have pos: "list_all (\<lambda>v. 0 < size_of t v) vs" using assms(4) by (simp add: values_fit_def list_all_iff)
  show ?thesis
  proof (cases "k = 0")
    case True
    have s: "mset (srt lt vs) = mset vs" "in_order lt (srt lt vs)" using assms(3) by (simp_all add: std_sorts_def)
    obtain q where "build_all t (srt lt vs) = Inr q" "holds t (srt lt vs) q"
      using build_all_ok [OF values_fit_mset [OF s(1) assms(4)]] by blast
    then show ?thesis using r True s by (auto simp: postlist_sort_def internal_sort_def k_def Let_def)
  next
    case False
    define n where "n = 1 + length vs div k"
    obtain vss where vss: "scatter_loop t (srt lt) n [] vs = map (bytes_of_values t) vss" "mset (concat vss) = mset vs"
        "list_all (\<lambda>us. us \<noteq> [] \<and> in_order lt us) vss"
      using scatter_loop_ok [OF assms(3), of n "[]" t vs] by (auto simp: n_def)
    have sc: "scatter t srt lt p k = Some (Inr (map (bytes_of_values t) vss))"
      using r vss(1) False holds_size [OF assms(5)] by (simp add: scatter_def pl_size_def n_def)
    have "set (concat vss) = set vs" using vss(2) by (metis set_mset_mset)
    then have ok: "list_all (\<lambda>us. us \<noteq> [] \<and> in_order lt us \<and> list_all (\<lambda>v. 0 < size_of t v) us) vss"
      using vss(3) pos by (fastforce simp: list_all_iff)
    have fuel: "length (concat vss) < Suc (sum_list (map length (map (bytes_of_values t) vss)))"
    proof -
      have "length (concat vss) \<le> length (bytes_of_values t (concat vss))"
        using \<open>set (concat vss) = set vs\<close> pos by (intro length_le_bytes_of) (simp add: list_all_iff)
      moreover have "length (bytes_of_values t (concat vss)) = sum_list (map length (map (bytes_of_values t) vss))"
        by (induction vss) simp_all
      ultimately show ?thesis by simp
    qed
    obtain out where out: "merge_loop (Suc (sum_list (map length (map (bytes_of_values t) vss)))) t lt (streams_of t vss)
          (new_postlist_builder default_page_size) = Some (fold (push_back t) out (new_postlist_builder default_page_size))"
        "mset out = mset (concat vss)" "in_order lt out"
      using merge_loop_ok [OF assms(1,2) ok fuel] by blast
    have m: "mset out = mset vs" using out(2) vss(2) by simp
    obtain q b where "build t (fold (push_back t) out (new_postlist_builder default_page_size)) = Inr (q, b)" "holds t out q"
      using built_list [OF values_fit_mset [OF m assms(4)]] by blast
    moreover have "first_values t (map (bytes_of_values t) vss) = Inr (streams_of t vss)"
      using ok by (intro first_values_ok [OF assms(1)]) (simp add: list_all_iff)
    ultimately have "merge_buckets t lt (map (bytes_of_values t) vss) = Some (Inr q)"
      unfolding merge_buckets_def using out(1) by (simp del: merge_loop.simps map_map)
    then have "postlist_sort t srt lt mb p = Some (Inr q)"
      unfolding postlist_sort_def Let_def k_def [symmetric] using False sc by simp
    then show ?thesis using \<open>holds t out q\<close> m out(3) by blast
  qed
qed

text \<open>
  C16. Sorting a posting list, in memory or by merging sorted parts of at most the size that memory
  allows, gives a posting list with the same values in order.
\<close>

theorem postlist_sort_correct:
  assumes "traits_ok t" "strict_weak lt" "std_sorts srt lt" "values_fit t default_page_size vs"
    and "build_all t vs = Inr p"
  shows "\<exists>q us q'. postlist_sort t srt lt mb p = Some (Inr q) \<and> pl_values t q = Some (Inr (us, q'))
    \<and> mset us = mset vs \<and> in_order lt us"
proof -
  have "holds t vs p" using build_all_ok [OF assms(4)] assms(5) by auto
  from postlist_sort_ok [OF assms(1-4) this] pl_values_ok [OF assms(1)] show ?thesis by blast
qed

text \<open>The sorting function of the library with ties in their old order.\<close>

definition stable_sort :: "(u32 \<times> u32 \<Rightarrow> u32 \<times> u32 \<Rightarrow> bool) \<Rightarrow> (u32 \<times> u32) list \<Rightarrow> (u32 \<times> u32) list" where
  "stable_sort lt vs = (if lt = pair_less then sort_key fst vs else rev (sort_key fst (rev vs)))"

lemma pair_less_greater: "pair_less \<noteq> pair_greater"
proof
  assume "pair_less = pair_greater"
  then have "pair_less (0, 0) (1, 0) = pair_greater (0, 0) (1, 0)" by simp
  then show False by (simp add: pair_less_def pair_greater_def)
qed

lemma stable_sort_ok: "std_sorts stable_sort pair_less" "std_sorts stable_sort pair_greater"
proof -
  have s: "sorted_wrt (\<lambda>a b. fst a \<le> fst b) (sort_key fst vs)" for vs :: "(u32 \<times> u32) list"
    using sorted_sort_key [of fst vs] by (simp add: sorted_map)
  show "std_sorts stable_sort pair_less"
    using s by (auto simp: std_sorts_def stable_sort_def in_order_def pair_less_def not_less)
  show "std_sorts stable_sort pair_greater"
    using s pair_less_greater by (auto simp: std_sorts_def stable_sort_def in_order_def pair_greater_def not_less sorted_wrt_rev)
qed

lemma values_fit_pairs: "length vs < 1000 \<Longrightarrow> values_fit pair_traits default_page_size vs"
  by (rule pair_values_fit) (simp_all add: default_page_size_def)

theorem postlist_sort_correct_witness:
  "\<exists>p q us q'. build_all pair_traits [(5, 1), (7, 0), (6, 2)] = Inr p
    \<and> postlist_sort pair_traits stable_sort pair_greater 0 p = Some (Inr q) \<and> pl_values pair_traits q = Some (Inr (us, q'))
    \<and> mset us = mset [(5, 1), (7, 0), (6, 2)] \<and> in_order pair_greater us"
proof -
  have f: "values_fit pair_traits default_page_size [(5, 1), (7, 0), (6, 2)]" by (rule values_fit_pairs) simp
  obtain p where "build_all pair_traits [(5, 1), (7, 0), (6, 2)] = Inr p" using build_all_ok [OF f] by blast
  then show ?thesis using postlist_sort_correct [OF pair_traits_ok pair_orders(2) stable_sort_ok(2) f] by blast
qed

end
