(* ===== verification/Index_Strategies.thy ===== *)
theory Index_Strategies
  imports Big_Hash_Map Postlist_Sorter "HOL-Library.AList"
begin

text \<open>
  Building an inverted index: the strategies \<open>SortedInput\<close>, for records that come grouped by key, and
  \<open>UnsortedInput\<close>, which divides the records into bucket files by a hash of the key, and \<open>Indexer\<close>.
  Parameters are the order in which a directory and an \<open>unordered_map\<close> are traversed, \<open>std::sort\<close> and
  the estimate in floating point numbers of the size of all records.
\<close>

section \<open>Records in bucket files\<close>

definition bytes_of_string :: "string \<Rightarrow> u8 list" where
  "bytes_of_string s = map of_char s"

definition string_of_bytes :: "u8 list \<Rightarrow> string" where
  "string_of_bytes b = map (\<lambda>w. char_of (unat w)) b"

definition write_record :: "'v value_traits \<Rightarrow> string \<times> 'v \<Rightarrow> u8 list" where
  "write_record t r = le_bytes 2 (unat (of_nat (length (fst r)) :: u16)) @ bytes_of_string (fst r) @ vt_put t (snd r)"

definition read_record :: "'v value_traits \<Rightarrow> u8 list \<Rightarrow> ((string \<times> 'v) \<times> u8 list) option" where
  "read_record t file =
    (if length file < 2 then None
     else
       (let n = le_value (take 2 file); rest = drop 2 file
        in if length rest < n then None
           else case read_from t (drop n rest) of
                  None \<Rightarrow> None
                | Some (v, rest') \<Rightarrow> Some ((string_of_bytes (take n rest), v), rest')))"

lemma read_record_shorter: "read_record t file = Some (r, rest) \<Longrightarrow> length rest < length file"
  by (auto simp: read_record_def read_from_def Let_def split: if_splits)

text \<open>\<open>while (record.read(file))\<close>\<close>

function read_records :: "'v value_traits \<Rightarrow> u8 list \<Rightarrow> (string \<times> 'v) list" where
  "read_records t file = (case read_record t file of None \<Rightarrow> [] | Some (r, rest) \<Rightarrow> r # read_records t rest)"
  by pat_completeness auto
termination
  by (relation "measure (\<lambda>(t, file). length file)") (auto simp: read_record_shorter)

declare read_records.simps [simp del]

section \<open>Statistics and sorting\<close>

datatype memory_type = MinRequired | Mb512 | Mb1024 | Mb2048 | Mb4096 | Mb8192 | Mb16384 | Mb32768 | Mb65536

definition memory_bytes :: "memory_type \<Rightarrow> u64" where
  "memory_bytes memory =
    (let bytes = 1024 * 1024
     in case memory of
          Mb512 \<Rightarrow> bytes * 512 | Mb1024 \<Rightarrow> bytes * 1024 | Mb2048 \<Rightarrow> bytes * 2048 | Mb4096 \<Rightarrow> bytes * 4096
        | Mb8192 \<Rightarrow> bytes * 8192 | Mb16384 \<Rightarrow> bytes * 16384 | Mb32768 \<Rightarrow> bytes * 32768 | Mb65536 \<Rightarrow> bytes * 65536
        | MinRequired \<Rightarrow> 0)"

record index_stats =
  ix_key_count :: u64
  ix_value_count :: u64
  ix_total_size :: u64

definition new_index_stats :: index_stats where
  "new_index_stats = \<lparr>ix_key_count = 0, ix_value_count = 0, ix_total_size = 0\<rparr>"

definition count_record :: "'v value_traits \<Rightarrow> 'v \<Rightarrow> index_stats \<Rightarrow> index_stats" where
  "count_record t v s = s\<lparr>ix_value_count := ix_value_count s + 1, ix_total_size := ix_total_size s + of_nat (size_of t v)\<rparr>"

text \<open>What a value type and the standard library provide: the traits, both orders and \<open>std::sort\<close>.\<close>

record 'v value_kind =
  vk_traits :: "'v value_traits"
  vk_less :: "'v \<Rightarrow> 'v \<Rightarrow> bool"
  vk_greater :: "'v \<Rightarrow> 'v \<Rightarrow> bool"
  vk_sort :: "('v \<Rightarrow> 'v \<Rightarrow> bool) \<Rightarrow> 'v list \<Rightarrow> 'v list"

definition sort_postlist :: "'v value_kind \<Rightarrow> value_sorting \<Rightarrow> postlist \<Rightarrow> postlist result option" where
  "sort_postlist k sorting p =
    (case sorting of
       SortingDisabled \<Rightarrow> Some (Inr p)
     | SortingAscending \<Rightarrow> postlist_sort (vk_traits k) (vk_sort k) (vk_less k) 100 p
     | SortingDescending \<Rightarrow> postlist_sort (vk_traits k) (vk_sort k) (vk_greater k) 100 p)"

section \<open>Sorted input\<close>

record 'v sorted_input =
  si_sorting :: value_sorting
  si_stats :: index_stats
  si_builder :: "'v builder"
  si_storage :: storage_writer
  si_key :: string

definition new_sorted_input :: "value_sorting \<Rightarrow> 'v sorted_input" where
  "new_sorted_input sorting = \<lparr>si_sorting = sorting, si_stats = new_index_stats,
     si_builder = new_postlist_builder default_page_size, si_storage = new_storage, si_key = []\<rparr>"

definition write_current_postlist :: "'v value_kind \<Rightarrow> 'v sorted_input \<Rightarrow> 'v sorted_input result option" where
  "write_current_postlist k si =
    obind (Some (build (vk_traits k) (si_builder si))) (\<lambda>(p, b).
      obind (sort_postlist k (si_sorting si) p) (\<lambda>p.
        obind (storage_write (si_storage si) (si_key si) p) (\<lambda>(done, st).
          (let s = si_stats si;
               s = (if done then s\<lparr>ix_key_count := ix_key_count s + 1\<rparr> else s)
           in Some (Inr (si\<lparr>si_builder := b, si_storage := st, si_stats := s\<rparr>))))))"

definition sorted_insert :: "'v value_kind \<Rightarrow> 'v sorted_input \<Rightarrow> string \<times> 'v \<Rightarrow> 'v sorted_input result option" where
  "sorted_insert k si r =
    (let si = si\<lparr>si_stats := count_record (vk_traits k) (snd r) (si_stats si)\<rparr>
     in obind
          (if si_key si \<noteq> fst r
           then obind (if si_key si \<noteq> [] then write_current_postlist k si else Some (Inr si))
                  (\<lambda>si. Some (Inr (si\<lparr>si_key := fst r\<rparr>)))
           else Some (Inr si))
          (\<lambda>si. Some (Inr (si\<lparr>si_builder := push_back (vk_traits k) (snd r) (si_builder si)\<rparr>))))"

definition sorted_index :: "'v value_kind \<Rightarrow> 'v sorted_input \<Rightarrow> 'v sorted_input result option" where
  "sorted_index k si = write_current_postlist k si"

section \<open>Unsorted input\<close>

record unsorted_input =
  ui_sorting :: value_sorting
  ui_stats :: index_stats
  ui_buckets :: "u8 list list"
  ui_max_bucket_size :: u64
  ui_expected :: u64

definition bucket_of :: "string \<Rightarrow> 'a list \<Rightarrow> nat" where
  "bucket_of key buckets = unat (hash32 key) mod length buckets"

definition insert_bucket :: "'v value_traits \<Rightarrow> string \<times> 'v \<Rightarrow> u8 list list \<Rightarrow> u8 list list" where
  "insert_bucket t r buckets =
    (let i = bucket_of (fst r) buckets in buckets[i := buckets ! i @ write_record t r])"

text \<open>\<open>rehash\<close> with the files of the source directory in the order in which it is traversed.\<close>

definition rehash :: "'v value_traits \<Rightarrow> u8 list list \<Rightarrow> u32 \<Rightarrow> u8 list list" where
  "rehash t files num =
    fold (insert_bucket t) (concat (map (read_records t) files)) (replicate (unat (next_prime num)) [])"

definition new_unsorted_input :: "value_sorting \<Rightarrow> memory_type \<Rightarrow> u64 \<Rightarrow> unsorted_input" where
  "new_unsorted_input sorting max_memory expected = \<lparr>ui_sorting = sorting, ui_stats = new_index_stats,
     ui_buckets = replicate (unat (next_prime 2)) [],
     ui_max_bucket_size = (let m = memory_bytes max_memory div 12 in if m = 0 then 10 * 1024 * 1024 else m),
     ui_expected = expected\<rparr>"

definition set_expected_record_count :: "u64 \<Rightarrow> unsorted_input \<Rightarrow> unsorted_input" where
  "set_expected_record_count n ui = (if ui_expected ui < n then ui\<lparr>ui_expected := n\<rparr> else ui)"

definition unsorted_insert :: "'v value_traits \<Rightarrow> (u8 list list \<Rightarrow> u8 list list) \<Rightarrow> (u64 \<Rightarrow> u64 \<Rightarrow> u64 \<Rightarrow> u64)
    \<Rightarrow> string \<times> 'v \<Rightarrow> unsorted_input \<Rightarrow> unsorted_input" where
  "unsorted_insert t dir_order expected_size r ui =
    (let s = count_record t (snd r) (ui_stats ui);
         bs = insert_bucket t r (ui_buckets ui);
         ui = ui\<lparr>ui_stats := s, ui_buckets := bs\<rparr>;
         twice = 2 * of_nat (length bs)
     in if ix_total_size s div of_nat (length bs) > ui_max_bucket_size ui
        then ui\<lparr>ui_buckets := rehash t (dir_order bs)
               (ucast (if ui_expected ui = 0 then twice
                       else max (1 + expected_size (ix_total_size s) (ix_value_count s) (ui_expected ui) div ui_max_bucket_size ui) twice))\<rparr>
        else ui)"

text \<open>\<open>group\<close>: a builder for every key; the maps are traversed in the order \<open>key_order\<close> of their keys.\<close>

fun group_loop :: "'v value_traits \<Rightarrow> (string \<times> 'v builder) list \<Rightarrow> (string \<times> 'v) list \<Rightarrow> (string \<times> 'v builder) list" where
  "group_loop t bs [] = bs"
| "group_loop t bs ((key, v) # rs) =
    (case map_of bs key of
       None \<Rightarrow> group_loop t (bs @ [(key, push_back t v (new_postlist_builder default_page_size))]) rs
     | Some b \<Rightarrow> group_loop t (AList.update key (push_back t v b) bs) rs)"

definition in_key_order :: "(string list \<Rightarrow> string list) \<Rightarrow> (string \<times> 'a) list \<Rightarrow> (string \<times> 'a) list" where
  "in_key_order key_order m = map (\<lambda>k. (k, the (map_of m k))) (key_order (map fst m))"

definition group_bucket :: "'v value_traits \<Rightarrow> (string list \<Rightarrow> string list) \<Rightarrow> u8 list \<Rightarrow> (string \<times> postlist) list result" where
  "group_bucket t key_order file =
    mapR (\<lambda>(key, b). rbind (build t b) (\<lambda>(p, b). Inr (key, p))) (in_key_order key_order (group_loop t [] (read_records t file)))"

fun sort_all :: "'v value_kind \<Rightarrow> value_sorting \<Rightarrow> (string \<times> postlist) list \<Rightarrow> (string \<times> postlist) list result option" where
  "sort_all k sorting [] = Some (Inr [])"
| "sort_all k sorting ((key, p) # kps) =
    obind (sort_postlist k sorting p) (\<lambda>q. obind (sort_all k sorting kps) (\<lambda>kqs. Some (Inr ((key, q) # kqs))))"

fun store_all :: "storage_writer \<Rightarrow> (string \<times> postlist) list \<Rightarrow> storage_writer result option" where
  "store_all st [] = Some (Inr st)"
| "store_all st ((key, p) # kps) = obind (storage_write st key p) (\<lambda>(done, st). store_all st kps)"

fun index_buckets :: "'v value_kind \<Rightarrow> value_sorting \<Rightarrow> (string list \<Rightarrow> string list) \<Rightarrow> u64 \<Rightarrow> storage_writer \<Rightarrow> u8 list list
    \<Rightarrow> (u64 \<times> storage_writer) result option" where
  "index_buckets k sorting key_order n st [] = Some (Inr (n, st))"
| "index_buckets k sorting key_order n st (file # files) =
    obind (Some (group_bucket (vk_traits k) key_order file)) (\<lambda>kps.
      obind (sort_all k sorting kps) (\<lambda>kps.
        obind (store_all st (in_key_order key_order kps)) (\<lambda>st.
          index_buckets k sorting key_order (n + of_nat (length kps)) st files)))"

definition unsorted_index :: "'v value_kind \<Rightarrow> (string list \<Rightarrow> string list) \<Rightarrow> (u8 list list \<Rightarrow> u8 list list) \<Rightarrow> unsorted_input
    \<Rightarrow> (unsorted_input \<times> storage_writer) result option" where
  "unsorted_index k key_order dir_order ui =
    obind (index_buckets k (ui_sorting ui) key_order (ix_key_count (ui_stats ui)) new_storage (dir_order (ui_buckets ui)))
      (\<lambda>(n, st). Some (Inr (ui\<lparr>ui_stats := (ui_stats ui)\<lparr>ix_key_count := n\<rparr>\<rparr>, st)))"


section \<open>Records are read as they were written\<close>

lemma char_bytes: "string_of_bytes (bytes_of_string s) = s"
proof -
  have "char_of (unat (of_char c :: u8)) = c" for c :: char
  proof -
    have "(of_char c :: u8) = of_nat (of_char c)" by (simp only: of_nat_of_char)
    moreover have "(of_char c :: nat) < 256" by simp
    ultimately have "unat (of_char c :: u8) = of_char c" by (simp only: unat_of_nat) simp
    then show ?thesis by simp
  qed
  then show ?thesis by (simp add: string_of_bytes_def bytes_of_string_def comp_def map_idI)
qed

definition record_ok :: "'v value_traits \<Rightarrow> string \<times> 'v \<Rightarrow> bool" where
  "record_ok t r \<longleftrightarrow> length (fst r) < 2 ^ 16 \<and> 0 < size_of t (snd r)"

lemma read_written_record:
  assumes "traits_ok t" "record_ok t r"
  shows "read_record t (write_record t r @ rest) = Some (r, rest)"
proof -
  obtain key v where r: "r = (key, v)" by (cases r)
  have l: "length key < 2 ^ LENGTH(16)" using assms(2) r by (simp add: record_ok_def)
  have "length key < 256 ^ 2" using l by simp
  then have n: "le_value (le_bytes 2 (unat (of_nat (length key) :: u16))) = length key"
    using l by (simp add: unat_of_nat le_value_bytes)
  have "vt_put t v \<noteq> []" using assms(2) r by (auto simp: record_ok_def size_of_def)
  then have "read_from t (vt_put t v @ rest) = Some (v, rest)"
    using assms(1) by (simp add: read_from_def traits_ok_def size_of_def Let_def)
  moreover have "length (bytes_of_string key) = length key" by (simp add: bytes_of_string_def)
  ultimately show ?thesis using char_bytes [of key]
    by (simp add: read_record_def write_record_def r n Let_def)
qed

lemma read_written_records:
  assumes "traits_ok t" "list_all (record_ok t) rs"
  shows "read_records t (concat (map (write_record t) rs)) = rs"
  using assms(2)
proof (induction rs)
  case Nil
  then show ?case by (simp add: read_records.simps read_record_def)
next
  case (Cons r rs)
  then show ?case using read_written_record [OF assms(1), of r "concat (map (write_record t) rs)"]
    by (simp add: read_records.simps [of t "write_record t r @ concat (map (write_record t) rs)"])
qed

section \<open>Buckets\<close>

definition values_of :: "string \<Rightarrow> (string \<times> 'v) list \<Rightarrow> 'v list" where
  "values_of key rs = map snd (filter (\<lambda>r. fst r = key) rs)"

lemma values_of_simps [simp]:
  "values_of key [] = []" "values_of key (rs @ rs') = values_of key rs @ values_of key rs'"
  "values_of key ((key', v) # rs) = (if key' = key then v # values_of key rs else values_of key rs)"
  by (auto simp: values_of_def)

lemma values_of_Nil: "values_of key rs = [] \<longleftrightarrow> key \<notin> fst ` set rs"
  by (auto simp: values_of_def filter_empty_conv)

text \<open>The records in their buckets: every key in its own, in the order of insertion.\<close>

definition buckets_hold :: "(string \<times> 'v) list \<Rightarrow> (string \<times> 'v) list list \<Rightarrow> bool" where
  "buckets_hold rs bss \<longleftrightarrow> bss \<noteq> []
    \<and> (\<forall>i < length bss. \<forall>r \<in> set (bss ! i). bucket_of (fst r) bss = i)
    \<and> (\<forall>key. values_of key (bss ! bucket_of key bss) = values_of key rs)"

lemma bucket_less: "bss \<noteq> [] \<Longrightarrow> bucket_of key bss < length bss"
  by (simp add: bucket_of_def)

definition add_record :: "string \<times> 'v \<Rightarrow> (string \<times> 'v) list list \<Rightarrow> (string \<times> 'v) list list" where
  "add_record r bss = (let i = bucket_of (fst r) bss in bss[i := bss ! i @ [r]])"

lemma add_record_ok: "buckets_hold rs bss \<Longrightarrow> buckets_hold (rs @ [r]) (add_record r bss)"
  unfolding buckets_hold_def
proof (intro conjI; elim conjE)
  assume ne: "bss \<noteq> []" and own: "\<forall>i < length bss. \<forall>r \<in> set (bss ! i). bucket_of (fst r) bss = i"
    and vals: "\<forall>key. values_of key (bss ! bucket_of key bss) = values_of key rs"
  have l: "length (add_record r bss) = length bss" by (simp add: add_record_def Let_def)
  then have b: "bucket_of key (add_record r bss) = bucket_of key bss" for key by (simp add: bucket_of_def)
  have nth: "add_record r bss ! i = (if i = bucket_of (fst r) bss then bss ! i @ [r] else bss ! i)" if "i < length bss" for i
    using that by (simp add: add_record_def Let_def nth_list_update)
  show "add_record r bss \<noteq> []" using ne l by (metis length_0_conv)
  show "\<forall>i < length (add_record r bss). \<forall>r' \<in> set (add_record r bss ! i). bucket_of (fst r') (add_record r bss) = i"
    using own by (auto simp: l b nth)
  show "\<forall>key. values_of key (add_record r bss ! bucket_of key (add_record r bss)) = values_of key (rs @ [r])"
  proof
    fix key
    show "values_of key (add_record r bss ! bucket_of key (add_record r bss)) = values_of key (rs @ [r])"
      unfolding b using vals [rule_format, of key] nth [OF bucket_less [OF ne], of key] by (cases r) auto
  qed
qed

lemma empty_buckets: "0 < n \<Longrightarrow> buckets_hold [] (replicate n [])"
  by (simp add: buckets_hold_def bucket_of_def)

lemma add_records_ok: "buckets_hold rs bss \<Longrightarrow> buckets_hold (rs @ rs') (fold add_record rs' bss)"
proof (induction rs' arbitrary: rs bss)
  case (Cons r rs')
  show ?case using Cons.IH [OF add_record_ok [OF Cons.prems, of r]] by simp
qed simp

definition bucket_files :: "'v value_traits \<Rightarrow> (string \<times> 'v) list list \<Rightarrow> u8 list list" where
  "bucket_files t bss = map (\<lambda>b. concat (map (write_record t) b)) bss"

lemma insert_bucket_files: "bss \<noteq> [] \<Longrightarrow> insert_bucket t r (bucket_files t bss) = bucket_files t (add_record r bss)"
  using bucket_less [of bss "fst r"]
  by (auto simp: insert_bucket_def add_record_def bucket_files_def bucket_of_def Let_def map_update nth_list_update intro!: nth_equalityI)

lemma insert_buckets_files: "bss \<noteq> [] \<Longrightarrow> fold (insert_bucket t) rs (bucket_files t bss) = bucket_files t (fold add_record rs bss)"
proof (induction rs arbitrary: bss)
  case (Cons r rs)
  have "add_record r bss \<noteq> []" using Cons.prems by (simp add: add_record_def Let_def)
  from Cons.IH [OF this] show ?case by (simp add: insert_bucket_files [OF Cons.prems])
qed simp

text \<open>Reading the buckets in any order keeps the values of every key.\<close>

lemma values_of_concat: "values_of key (concat bss) = concat (filter (\<lambda>vs. vs \<noteq> []) (map (values_of key) bss))"
  by (induction bss) simp_all

lemma shuffled_values:
  assumes "buckets_hold rs bss" "mset xss = mset bss"
  shows "values_of key (concat xss) = values_of key rs"
proof -
  let ?g = "values_of key" and ?i = "bucket_of key bss"
  have i: "?i < length bss" using assms(1) bucket_less by (auto simp: buckets_hold_def)
  have own: "\<forall>i < length bss. \<forall>r \<in> set (bss ! i). bucket_of (fst r) bss = i" using assms(1) by (simp add: buckets_hold_def)
  have vals: "?g (bss ! ?i) = ?g rs" using assms(1) by (simp add: buckets_hold_def)
  have other: "?g (bss ! j) = []" if "j < length bss" "j \<noteq> ?i" for j
    using own that by (auto simp: values_of_Nil)
  have sp: "bss = take ?i bss @ bss ! ?i # drop (Suc ?i) bss" by (rule id_take_nth_drop [OF i])
  have "\<forall>b \<in> set (take ?i bss). ?g b = []" "\<forall>b \<in> set (drop (Suc ?i) bss). ?g b = []"
    using other i by (auto simp: in_set_conv_nth)
  then have "filter (\<lambda>vs. vs \<noteq> []) (map ?g (take ?i bss)) = []" "filter (\<lambda>vs. vs \<noteq> []) (map ?g (drop (Suc ?i) bss)) = []"
    by (simp_all add: filter_empty_conv)
  then have f: "filter (\<lambda>vs. vs \<noteq> []) (map ?g bss) = (if ?g rs = [] then [] else [?g rs])"
    using vals by (subst sp) simp
  define ys where "ys = filter (\<lambda>vs. vs \<noteq> []) (map ?g xss)"
  have "mset ys = mset (filter (\<lambda>vs. vs \<noteq> []) (map ?g bss))"
    using assms(2) by (simp add: ys_def mset_filter)
  then have "ys = (if ?g rs = [] then [] else [?g rs])" unfolding f by (cases "?g rs = []") simp_all
  then show ?thesis unfolding values_of_concat ys_def [symmetric] by (cases "?g rs = []") simp_all
qed


text \<open>Every key is in at most one bucket, whatever the order of the buckets.\<close>

definition own_buckets :: "(string \<times> 'v) list list \<Rightarrow> bool" where
  "own_buckets xss \<longleftrightarrow> (\<forall>key. length (filter (\<lambda>b. key \<in> fst ` set b) xss) \<le> 1)"

lemma own_buckets_Cons:
  "own_buckets (xs # xss) \<Longrightarrow> own_buckets xss \<and> fst ` set xs \<inter> fst ` set (concat xss) = {}"
proof -
  assume o: "own_buckets (xs # xss)"
  have "\<not> (key \<in> fst ` set xs \<and> key \<in> fst ` set (concat xss))" for key
  proof
    assume k: "key \<in> fst ` set xs \<and> key \<in> fst ` set (concat xss)"
    then obtain b where "b \<in> set xss" "key \<in> fst ` set b" by auto
    then have "filter (\<lambda>b. key \<in> fst ` set b) xss \<noteq> []" by (auto simp: filter_empty_conv)
    then have "1 \<le> length (filter (\<lambda>b. key \<in> fst ` set b) xss)" by (simp add: Suc_le_eq)
    then show False using o [unfolded own_buckets_def, rule_format, of key] k by simp
  qed
  moreover have "own_buckets xss"
    unfolding own_buckets_def
  proof
    fix key
    show "length (filter (\<lambda>b. key \<in> fst ` set b) xss) \<le> 1"
      using o [unfolded own_buckets_def, rule_format, of key] by (auto split: if_splits)
  qed
  ultimately show ?thesis by blast
qed

lemma own_buckets_hold: "buckets_hold rs bss \<Longrightarrow> mset xss = mset bss \<Longrightarrow> own_buckets xss"
proof -
  assume h: "buckets_hold rs bss" and m: "mset xss = mset bss"
  have own: "\<forall>i < length bss. \<forall>r \<in> set (bss ! i). bucket_of (fst r) bss = i" using h by (simp add: buckets_hold_def)
  show "own_buckets xss" unfolding own_buckets_def
  proof
    fix key
    let ?i = "bucket_of key bss"
    define P where "P = (\<lambda>b. key \<in> fst ` set (b :: (string \<times> 'a) list))"
    have i: "?i < length bss" using h bucket_less by (auto simp: buckets_hold_def)
    have other: "\<not> P (bss ! j)" if "j < length bss" "j \<noteq> ?i" for j using own that by (auto simp: P_def)
    have sp: "bss = take ?i bss @ bss ! ?i # drop (Suc ?i) bss" by (rule id_take_nth_drop [OF i])
    have "\<forall>b \<in> set (take ?i bss). \<not> P b" "\<forall>b \<in> set (drop (Suc ?i) bss). \<not> P b"
      using other i by (auto simp: in_set_conv_nth)
    then have "filter P (take ?i bss) = []" "filter P (drop (Suc ?i) bss) = []" by (simp_all add: filter_empty_conv)
    then have "length (filter P bss) \<le> 1" by (subst sp) simp
    moreover have "length (filter P xss) = length (filter P bss)"
      using m by (metis mset_filter size_mset)
    ultimately show "length (filter (\<lambda>b. key \<in> fst ` set b) xss) \<le> 1" by (simp add: P_def)
  qed
qed

section \<open>Grouping\<close>

definition grouped :: "'v value_traits \<Rightarrow> (string \<times> 'v) list \<Rightarrow> (string \<times> 'v builder) list \<Rightarrow> bool" where
  "grouped t rs bs \<longleftrightarrow> distinct (map fst bs) \<and> set (map fst bs) = fst ` set rs
    \<and> (\<forall>key b. map_of bs key = Some b \<longrightarrow> builder_ok t (values_of key rs) b \<and> bd_page_size b = default_page_size)"

lemma new_builder_page: "bd_page_size (new_postlist_builder n) = n"
  by (simp add: new_postlist_builder_def)

lemma group_step:
  assumes "grouped t rs bs"
  shows "map_of bs key = None \<Longrightarrow> grouped t (rs @ [(key, v)]) (bs @ [(key, push_back t v (new_postlist_builder default_page_size))])"
    "map_of bs key = Some b \<Longrightarrow> grouped t (rs @ [(key, v)]) (AList.update key (push_back t v b) bs)"
proof -
  have g: "distinct (map fst bs)" "set (map fst bs) = fst ` set rs"
    "\<And>key b. map_of bs key = Some b \<Longrightarrow> builder_ok t (values_of key rs) b \<and> bd_page_size b = default_page_size"
    using assms by (auto simp: grouped_def)
  show "grouped t (rs @ [(key, v)]) (bs @ [(key, push_back t v (new_postlist_builder default_page_size))])" if n: "map_of bs key = None"
  proof -
    have k: "key \<notin> set (map fst bs)" using n by (simp add: map_of_eq_None_iff)
    then have "values_of key rs = []" using g(2) by (simp add: values_of_Nil)
    moreover have "map_of (bs @ [(key, nb)]) k = (if k = key then Some nb else map_of bs k)" for nb k
      using n by (simp add: map_of_append map_add_def split: option.split)
    ultimately show ?thesis
      using g k push_back_ok [OF new_postlist_builder_ok, of t v default_page_size]
      by (auto simp: grouped_def new_builder_page simp del: map_of_eq_Some_iff Some_eq_map_of_iff map_of_append split: if_splits)
  qed
  show "grouped t (rs @ [(key, v)]) (AList.update key (push_back t v b) bs)" if s: "map_of bs key = Some b"
  proof -
    have k: "key \<in> set (map fst bs)" using s by (metis map_of_eq_None_iff option.distinct(1) list.set_map)
    then have "set (map fst (AList.update key (push_back t v b) bs)) = fst ` set (rs @ [(key, v)])"
      using g(2) by (simp add: update_keys image_iff) blast
    moreover have "distinct (map fst (AList.update key (push_back t v b) bs))" using g(1) by (rule distinct_update)
    ultimately show ?thesis
      using g(3) push_back_ok [of t "values_of key rs" b v] g(3) [OF s]
      by (auto simp: grouped_def update_conv' split: if_splits)
  qed
qed

lemma group_loop_ok: "grouped t rs bs \<Longrightarrow> grouped t (rs @ rs') (group_loop t bs rs')"
proof (induction rs' arbitrary: rs bs)
  case (Cons r rs')
  obtain key v where r: "r = (key, v)" by (cases r)
  show ?case
  proof (cases "map_of bs key")
    case None
    from Cons.IH [OF group_step(1) [OF Cons.prems None, of v]] show ?thesis using None r by simp
  next
    case (Some b)
    from Cons.IH [OF group_step(2) [OF Cons.prems Some, of v]] show ?thesis using Some r by simp
  qed
qed simp

definition permuting :: "('a list \<Rightarrow> 'a list) \<Rightarrow> bool" where
  "permuting f \<longleftrightarrow> (\<forall>xs. mset (f xs) = mset xs)"

lemma permuting_set: "permuting f \<Longrightarrow> set (f xs) = set xs" "permuting f \<Longrightarrow> distinct (f xs) \<longleftrightarrow> distinct xs"
  unfolding permuting_def by (metis set_mset_mset, metis mset_eq_imp_distinct_iff)

text \<open>Posting lists by key.\<close>

definition lists_hold :: "'v value_traits \<Rightarrow> (string \<Rightarrow> 'v list) \<Rightarrow> (string \<times> postlist) list \<Rightarrow> bool" where
  "lists_hold t f kps \<longleftrightarrow> distinct (map fst kps) \<and> list_all (\<lambda>(key, p). holds t (f key) p) kps"

lemma group_bucket_ok:
  assumes "traits_ok t" "list_all (record_ok t) rs" "permuting key_order" "\<And>key. values_fit t default_page_size (values_of key rs)"
  shows "\<exists>kps. group_bucket t key_order (concat (map (write_record t) rs)) = Inr kps
    \<and> set (map fst kps) = fst ` set rs \<and> lists_hold t (\<lambda>key. values_of key rs) kps"
proof -
  define bs where "bs = group_loop t [] rs"
  have g: "grouped t rs bs" using group_loop_ok [of t "[]" "[]" rs] by (simp add: grouped_def bs_def)
  define keys where "keys = key_order (map fst bs)"
  have k: "set keys = fst ` set rs" "distinct keys"
    using g permuting_set [OF assms(3), of "map fst bs"] by (simp_all add: grouped_def keys_def)
  define f where "f = (\<lambda>(key :: string, b). rbind (build t b) (\<lambda>(p, b). Inr (key, p :: postlist)))"
  have "\<exists>p. f (key, the (map_of bs key)) = Inr (key, p) \<and> holds t (values_of key rs) p" if "key \<in> set keys" for key
  proof -
    have "key \<in> set (map fst bs)" using that k(1) g by (simp add: grouped_def)
    then obtain b where b: "map_of bs key = Some b" by (metis map_of_eq_None_iff not_None_eq list.set_map)
    then have "builder_ok t (values_of key rs) b" "bd_page_size b = default_page_size" using g by (auto simp: grouped_def)
    from build_ok [OF this(1)] assms(4) [of key] this(2) obtain p b' where "build t b = Inr (p, b')" "holds t (values_of key rs) p" by auto
    then show ?thesis using b by (simp add: f_def)
  qed
  then obtain q where q: "\<And>key. key \<in> set keys \<Longrightarrow> f (key, the (map_of bs key)) = Inr (key, q key) \<and> holds t (values_of key rs) (q key)"
    by metis
  have "mapR f (map (\<lambda>k. (k, the (map_of bs k))) keys) = Inr (map (\<lambda>k. (k, q k)) keys)"
    unfolding mapR_eq_Inr using q by (simp add: list_all2_conv_all_nth)
  then have "group_bucket t key_order (concat (map (write_record t) rs)) = Inr (map (\<lambda>k. (k, q k)) keys)"
    by (simp add: group_bucket_def in_key_order_def read_written_records [OF assms(1,2)] bs_def keys_def f_def)
  moreover have "lists_hold t (\<lambda>key. values_of key rs) (map (\<lambda>k. (k, q k)) keys)"
    using q k(2) by (simp add: lists_hold_def list_all_iff comp_def)
  moreover have "set (map fst (map (\<lambda>k. (k, q k)) keys)) = fst ` set rs" using k(1) by (simp add: comp_def)
  ultimately show ?thesis by blast
qed


section \<open>Sorting and storing\<close>

definition value_kind_ok :: "'v value_kind \<Rightarrow> bool" where
  "value_kind_ok k \<longleftrightarrow> traits_ok (vk_traits k) \<and> strict_weak (vk_less k) \<and> strict_weak (vk_greater k)
    \<and> std_sorts (vk_sort k) (vk_less k) \<and> std_sorts (vk_sort k) (vk_greater k)"

definition sorted_as :: "'v value_kind \<Rightarrow> value_sorting \<Rightarrow> 'v list \<Rightarrow> 'v list \<Rightarrow> bool" where
  "sorted_as k sorting us vs \<longleftrightarrow>
    (case sorting of
       SortingDisabled \<Rightarrow> vs = us
     | SortingAscending \<Rightarrow> mset vs = mset us \<and> in_order (vk_less k) vs
     | SortingDescending \<Rightarrow> mset vs = mset us \<and> in_order (vk_greater k) vs)"

lemma sorted_as_mset: "sorted_as k sorting us vs \<Longrightarrow> mset vs = mset us"
  by (cases sorting) (simp_all add: sorted_as_def)

lemma sort_postlist_ok:
  assumes "value_kind_ok k" "values_fit (vk_traits k) default_page_size us" "holds (vk_traits k) us p"
  shows "\<exists>q vs. sort_postlist k sorting p = Some (Inr q) \<and> holds (vk_traits k) vs q \<and> sorted_as k sorting us vs"
proof (cases sorting)
  case SortingDisabled
  then show ?thesis using assms(3) by (simp add: sort_postlist_def sorted_as_def)
next
  case SortingAscending
  have "traits_ok (vk_traits k)" "strict_weak (vk_less k)" "std_sorts (vk_sort k) (vk_less k)" using assms(1) by (simp_all add: value_kind_ok_def)
  from postlist_sort_ok [OF this assms(2,3), of 100] show ?thesis using SortingAscending by (auto simp: sort_postlist_def sorted_as_def)
next
  case SortingDescending
  have "traits_ok (vk_traits k)" "strict_weak (vk_greater k)" "std_sorts (vk_sort k) (vk_greater k)" using assms(1) by (simp_all add: value_kind_ok_def)
  from postlist_sort_ok [OF this assms(2,3), of 100] show ?thesis using SortingDescending by (auto simp: sort_postlist_def sorted_as_def)
qed

lemma sort_all_ok:
  assumes "value_kind_ok k" "\<And>key. values_fit (vk_traits k) default_page_size (f key)" "lists_hold (vk_traits k) f kps"
  shows "\<exists>kqs g. sort_all k sorting kps = Some (Inr kqs) \<and> map fst kqs = map fst kps \<and> lists_hold (vk_traits k) g kqs
    \<and> (\<forall>key \<in> set (map fst kps). sorted_as k sorting (f key) (g key))"
  using assms(3)
proof (induction kps)
  case Nil
  then show ?case by (simp add: lists_hold_def)
next
  case (Cons kp kps)
  obtain key p where kp: "kp = (key, p)" by (cases kp)
  have h: "holds (vk_traits k) (f key) p" "lists_hold (vk_traits k) f kps" "key \<notin> set (map fst kps)"
    using Cons.prems kp by (simp_all add: lists_hold_def)
  obtain q vs where q: "sort_postlist k sorting p = Some (Inr q)" "holds (vk_traits k) vs q" "sorted_as k sorting (f key) vs"
    using sort_postlist_ok [OF assms(1,2) h(1)] by blast
  obtain kqs g where r: "sort_all k sorting kps = Some (Inr kqs)" "map fst kqs = map fst kps" "lists_hold (vk_traits k) g kqs"
      "\<forall>key \<in> set (map fst kps). sorted_as k sorting (f key) (g key)"
    using Cons.IH [OF h(2)] by blast
  have nin: "key \<notin> set (map fst kqs)" using h(3) by (simp only: r(2) not_False_eq_True)
  define g' where "g' = g(key := vs)"
  have "list_all (\<lambda>(k', p). holds (vk_traits k) (g' k') p) kqs"
  proof (unfold list_all_iff, intro ballI)
    fix x assume x: "x \<in> set kqs"
    then have "fst x \<noteq> key" using nin by auto
    moreover have "case x of (k', p) \<Rightarrow> holds (vk_traits k) (g k') p" using r(3) x by (simp add: lists_hold_def list_all_iff)
    ultimately show "case x of (k', p) \<Rightarrow> holds (vk_traits k) (g' k') p" by (cases x) (simp add: g'_def)
  qed
  then have "lists_hold (vk_traits k) g' ((key, q) # kqs)"
    using r(3) q(2) nin by (simp add: lists_hold_def g'_def)
  moreover have "\<forall>k' \<in> set (map fst (kp # kps)). sorted_as k sorting (f k') (g' k')"
    using r(4) q(3) h(3) kp by (auto simp: g'_def)
  ultimately show ?case using q(1) r(1,2) kp by (intro exI [of _ "(key, q) # kqs"] exI [of _ "g'"]) simp
qed

lemma store_all_ok:
  assumes "writer_ok t es st" "list_all (\<lambda>(key, p). holds t (g key) p \<and> g key \<noteq> [] \<and> list_fits t (g key) \<and> plain_key key) kps"
    and "bytes_written t es + sum_list (map (\<lambda>(key, p). entry_room t (g key)) kps) \<le> 2 ^ 44"
  shows "\<exists>st' es'. store_all st kps = Some (Inr st') \<and> writer_ok t (es @ es') st'
    \<and> map (\<lambda>(key, vs, a). (key, vs)) es' = map (\<lambda>(key, p). (key, g key)) kps"
  using assms
proof (induction kps arbitrary: es st)
  case (Cons kp kps)
  obtain key p where kp: "kp = (key, p)" by (cases kp)
  have h: "holds t (g key) p" "g key \<noteq> []" "list_fits t (g key)" "key \<noteq> []" "tab \<notin> set key"
    using Cons.prems(2) kp by (simp_all add: plain_key_def)
  have "bytes_written t es \<le> 2 ^ 44" using Cons.prems(3) by simp
  then obtain st1 a where st1: "storage_write st key p = Some (Inr (True, st1))" "writer_ok t (es @ [(key, g key, a)]) st1"
    using storage_write_ok [OF Cons.prems(1) h(1,3,2,4,5)] by blast
  have "bytes_written t (es @ [(key, g key, a)]) + sum_list (map (\<lambda>(key, p). entry_room t (g key)) kps) \<le> 2 ^ 44"
    using Cons.prems(3) kp by simp
  moreover have "list_all (\<lambda>(key, p). holds t (g key) p \<and> g key \<noteq> [] \<and> list_fits t (g key) \<and> plain_key key) kps"
    using Cons.prems(2) by simp
  ultimately obtain st' es' where "store_all st1 kps = Some (Inr st')" "writer_ok t ((es @ [(key, g key, a)]) @ es') st'"
      "map (\<lambda>(key, vs, a). (key, vs)) es' = map (\<lambda>(key, p). (key, g key)) kps"
    using Cons.IH [OF st1(2)] by blast
  then show ?case using st1(1) kp by (intro exI [of _ st'] exI [of _ "(key, g key, a) # es'"]) simp
qed simp

lemma in_key_order_hold:
  assumes "lists_hold t f kps" "permuting key_order"
  shows "lists_hold t f (in_key_order key_order kps)" "set (map fst (in_key_order key_order kps)) = set (map fst kps)"
    "map fst (in_key_order key_order kps) = key_order (map fst kps)"
proof -
  show m: "map fst (in_key_order key_order kps) = key_order (map fst kps)" by (simp add: in_key_order_def comp_def)
  then show "set (map fst (in_key_order key_order kps)) = set (map fst kps)" using permuting_set(1) [OF assms(2)] by simp
  have d: "distinct (map fst kps)" "list_all (\<lambda>(key, p). holds t (f key) p) kps" using assms(1) by (simp_all add: lists_hold_def)
  have "holds t (f key) (the (map_of kps key))" if k: "key \<in> set (map fst kps)" for key
  proof -
    obtain p where "(key, p) \<in> set kps" using k by auto
    then show ?thesis using d by (auto simp: list_all_iff)
  qed
  then have "list_all (\<lambda>(key, p). holds t (f key) p) (in_key_order key_order kps)"
    using permuting_set(1) [OF assms(2)] by (auto simp: in_key_order_def list_all_iff)
  then show "lists_hold t f (in_key_order key_order kps)"
    unfolding lists_hold_def m using d(1) permuting_set(2) [OF assms(2)] by simp
qed

text \<open>The room of the posting lists is bounded by the records.\<close>

definition record_room :: "'v value_traits \<Rightarrow> string \<times> 'v \<Rightarrow> nat" where
  "record_room t r = 16 + size_of t (snd r)"

lemma entry_room_mset: "mset us = mset vs \<Longrightarrow> entry_room t us = entry_room t vs"
  using bytes_mset [of us vs t] mset_eq_length [of us vs] by (simp add: entry_room_def)

lemma entry_room_le: "vs \<noteq> [] \<Longrightarrow> entry_room t vs \<le> sum_list (map (\<lambda>v. 16 + size_of t v) vs)"
proof -
  assume "vs \<noteq> []"
  then have "1 \<le> length vs" by (simp add: Suc_le_eq)
  moreover have "sum_list (map (\<lambda>v. 16 + size_of t v) vs) = 16 * length vs + length (bytes_of_values t vs)" for vs
    by (induction vs) (simp_all add: size_of_def)
  ultimately show ?thesis by (simp add: entry_room_def)
qed

lemma sum_by_key: "distinct keys \<Longrightarrow>
  sum_list (map (\<lambda>key. sum_list (map w (values_of key rs))) keys) \<le> sum_list (map (\<lambda>r. w (snd r)) rs)" for w :: "'v \<Rightarrow> nat"
proof (induction rs)
  case Nil
  have "sum_list (map (\<lambda>key. 0) keys) = (0 :: nat)" by simp
  then show ?case by simp
next
  case (Cons r rs)
  obtain a v where r: "r = (a, v)" by (cases r)
  have e: "sum_list (map (\<lambda>key. sum_list (map w (values_of key (r # rs)))) keys)
      = sum_list (map (\<lambda>key. if a = key then w v else 0) keys) + sum_list (map (\<lambda>key. sum_list (map w (values_of key rs))) keys)"
    by (induction keys) (simp_all add: r)
  have "sum_list (map (\<lambda>key. if a = key then w v else 0) keys) \<le> w v" if "distinct keys"
    using that
  proof (induction keys)
    case (Cons k ks)
    have "sum_list (map (\<lambda>key. if a = key then w v else 0) ks) = 0" if "a = k" using Cons.prems that by auto
    then show ?case using Cons by auto
  qed simp
  then show ?case using e Cons r by simp
qed


lemma rooms_le:
  assumes "distinct keys" "\<forall>key \<in> set keys. mset (g key) = mset (values_of key rs) \<and> g key \<noteq> []"
  shows "sum_list (map (\<lambda>key. entry_room t (g key)) keys) \<le> sum_list (map (record_room t) rs)"
proof -
  have "entry_room t (g key) \<le> sum_list (map (\<lambda>v. 16 + size_of t v) (values_of key rs))" if "key \<in> set keys" for key
  proof -
    have m: "mset (g key) = mset (values_of key rs)" "g key \<noteq> []" using assms(2) that by blast+
    then have "values_of key rs \<noteq> []" by (metis mset_zero_iff)
    from entry_room_le [OF this, of t] show ?thesis by (simp only: entry_room_mset [OF m(1)])
  qed
  then have "sum_list (map (\<lambda>key. entry_room t (g key)) keys)
      \<le> sum_list (map (\<lambda>key. sum_list (map (\<lambda>v. 16 + size_of t v) (values_of key rs))) keys)"
    by (intro sum_list_mono) simp
  also have "\<dots> \<le> sum_list (map (record_room t) rs)"
    using sum_by_key [OF assms(1), of "\<lambda>v. 16 + size_of t v" rs] unfolding record_room_def [abs_def] .
  finally show ?thesis .
qed

lemma list_fits_mset: "mset us = mset vs \<Longrightarrow> list_fits t vs \<Longrightarrow> list_fits t us"
  using values_fit_mset [of us vs t swap_pagesize] bytes_mset [of us vs t] by (simp add: list_fits_def)

lemma list_fits_Nil: "list_fits t []"
  by (simp add: list_fits_def values_fit_def)

definition index_records :: "'v value_traits \<Rightarrow> (string \<times> 'v) list \<Rightarrow> bool" where
  "index_records t rs \<longleftrightarrow> list_all (\<lambda>r. record_ok t r \<and> plain_key (fst r)) rs"

text \<open>The entries of an index of records.\<close>

definition indexes_records :: "'v value_kind \<Rightarrow> value_sorting \<Rightarrow> (string \<times> 'v) list \<Rightarrow> (string \<times> 'v list) list \<Rightarrow> bool" where
  "indexes_records k sorting rs kvs \<longleftrightarrow> distinct (map fst kvs) \<and> set (map fst kvs) = fst ` set rs
    \<and> list_all (\<lambda>(key, vs). sorted_as k sorting (values_of key rs) vs) kvs"

lemma indexes_append:
  assumes "indexes_records k sorting xs A" "indexes_records k sorting ys B" "fst ` set xs \<inter> fst ` set ys = {}"
  shows "indexes_records k sorting (xs @ ys) (A @ B)"
proof -
  have a: "distinct (map fst A)" "set (map fst A) = fst ` set xs" "\<forall>(key, vs) \<in> set A. sorted_as k sorting (values_of key xs) vs"
    using assms(1) unfolding indexes_records_def list_all_iff by blast+
  have b: "distinct (map fst B)" "set (map fst B) = fst ` set ys" "\<forall>(key, vs) \<in> set B. sorted_as k sorting (values_of key ys) vs"
    using assms(2) unfolding indexes_records_def list_all_iff by blast+
  have "sorted_as k sorting (values_of key (xs @ ys)) vs" if x: "(key, vs) \<in> set (A @ B)" for key vs
  proof -
    from x have "(key, vs) \<in> set A \<or> (key, vs) \<in> set B" by simp
    then show ?thesis
    proof
      assume 1: "(key, vs) \<in> set A"
      then have "key \<in> set (map fst A)" by force
      then have "key \<notin> fst ` set ys" using assms(3) a(2) by blast
      then have "values_of key ys = []" by (simp only: values_of_Nil simp_thms)
      then show ?thesis using 1 a(3) by auto
    next
      assume 2: "(key, vs) \<in> set B"
      then have "key \<in> set (map fst B)" by force
      then have "key \<notin> fst ` set xs" using assms(3) b(2) by blast
      then have "values_of key xs = []" by (simp only: values_of_Nil simp_thms)
      then show ?thesis using 2 b(3) by auto
    qed
  qed
  moreover have "distinct (map fst (A @ B))" using a(1,2) b(1,2) assms(3) by simp
  moreover have "set (map fst (A @ B)) = fst ` set (xs @ ys)" using a(2) b(2) by (simp add: image_Un)
  ultimately show ?thesis unfolding indexes_records_def list_all_iff by blast
qed

lemma store_bucket_ok:
  fixes k :: "'v value_kind"
  defines "t \<equiv> vk_traits k"
  assumes "value_kind_ok k" "permuting key_order" "writer_ok t es st" "index_records t rs" "\<And>key. list_fits t (values_of key rs)"
    and "bytes_written t es + sum_list (map (record_room t) rs) \<le> 2 ^ 44"
  shows "\<exists>kps kqs st' es'. group_bucket t key_order (concat (map (write_record t) rs)) = Inr kps
    \<and> sort_all k sorting kps = Some (Inr kqs) \<and> store_all st (in_key_order key_order kqs) = Some (Inr st')
    \<and> writer_ok t (es @ es') st' \<and> length kqs = length es'
    \<and> bytes_written t es' \<le> sum_list (map (record_room t) rs)
    \<and> indexes_records k sorting rs (map (\<lambda>(key, vs, a). (key, vs)) es')"
proof -
  have t: "traits_ok t" using assms(2) by (simp add: t_def value_kind_ok_def)
  have rs: "list_all (record_ok t) rs" "\<forall>key \<in> fst ` set rs. plain_key key" using assms(5) by (auto simp: index_records_def list_all_iff)
  have vf: "values_fit t default_page_size (values_of key rs)" for key by (rule list_fits_default [OF assms(6)])
  obtain kps where kps: "group_bucket t key_order (concat (map (write_record t) rs)) = Inr kps" "set (map fst kps) = fst ` set rs"
      "lists_hold t (\<lambda>key. values_of key rs) kps"
    using group_bucket_ok [OF t rs(1) assms(3) vf] by blast
  obtain kqs g where kqs: "sort_all k sorting kps = Some (Inr kqs)" "map fst kqs = map fst kps" "lists_hold t g kqs"
      "\<forall>key \<in> set (map fst kps). sorted_as k sorting (values_of key rs) (g key)"
    using sort_all_ok [OF assms(2), of "\<lambda>key. values_of key rs" kps sorting] vf kps(3) unfolding t_def by blast
  define kos where "kos = in_key_order key_order kqs"
  note o = in_key_order_hold [OF kqs(3) assms(3), folded kos_def]
  have ks: "set (map fst kos) = fst ` set rs" using o(2) kqs(2) kps(2) by simp
  have g: "mset (g key) = mset (values_of key rs) \<and> g key \<noteq> [] \<and> list_fits t (g key) \<and> plain_key key" if "key \<in> set (map fst kos)" for key
  proof -
    have k: "key \<in> fst ` set rs" using that ks by simp
    then have s: "sorted_as k sorting (values_of key rs) (g key)" using kqs(4) unfolding kps(2) by blast
    note m = sorted_as_mset [OF this]
    moreover have "values_of key rs \<noteq> []" using k by (simp add: values_of_Nil)
    then have "g key \<noteq> []" using m by (metis mset_zero_iff)
    ultimately show ?thesis using list_fits_mset [OF m assms(6)] rs(2) k by blast
  qed
  have d: "distinct (map fst kos)" using o(1) by (simp add: lists_hold_def)
  have room: "sum_list (map (\<lambda>key. entry_room t (g key)) (map fst kos)) \<le> sum_list (map (record_room t) rs)"
    using g by (intro rooms_le [OF d]) blast
  have e: "map (\<lambda>(key, p). entry_room t (g key)) kos = map (\<lambda>key. entry_room t (g key)) (map fst kos)" by auto
  have la: "list_all (\<lambda>(key, p). holds t (g key) p \<and> g key \<noteq> [] \<and> list_fits t (g key) \<and> plain_key key) kos"
    unfolding list_all_iff
  proof
    fix x assume x: "x \<in> set kos"
    then have "fst x \<in> set (map fst kos)" by simp
    from g [OF this] show "case x of (key, p) \<Rightarrow> holds t (g key) p \<and> g key \<noteq> [] \<and> list_fits t (g key) \<and> plain_key key"
      using o(1) x by (cases x) (auto simp: lists_hold_def list_all_iff)
  qed
  have bw: "bytes_written t es + sum_list (map (\<lambda>(key, p). entry_room t (g key)) kos) \<le> 2 ^ 44"
    unfolding e using room assms(7) by linarith
  obtain st' es' where st': "store_all st kos = Some (Inr st')" "writer_ok t (es @ es') st'"
      "map (\<lambda>(key, vs, a). (key, vs)) es' = map (\<lambda>(key, p). (key, g key)) kos"
    using store_all_ok [OF assms(4) la bw] by (elim exE conjE)
  have "length es' = length kos" using arg_cong [OF st'(3), of length] by simp
  moreover have "length kos = length kqs"
    using arg_cong [OF o(3), of length] assms(3) [unfolded permuting_def, rule_format, THEN mset_eq_length, of "map fst kqs"] by simp
  ultimately have l: "length kqs = length es'" by simp
  have "map (\<lambda>(key, vs, a). entry_room t vs) es' = map (\<lambda>(key, vs). entry_room t vs) (map (\<lambda>(key, vs, a). (key, vs)) es')"
    by auto
  also have "\<dots> = map (\<lambda>key. entry_room t (g key)) (map fst kos)" unfolding st'(3) by auto
  finally have b: "bytes_written t es' \<le> sum_list (map (record_room t) rs)" unfolding bytes_written_def using room by simp
  have "indexes_records k sorting rs (map (\<lambda>(key, p). (key, g key)) kos)"
    unfolding indexes_records_def
  proof (intro conjI)
    have mf: "map fst (map (\<lambda>(key, p). (key, g key)) kos) = map fst kos" by auto
    show "distinct (map fst (map (\<lambda>(key, p). (key, g key)) kos))" unfolding mf by (rule d)
    show "set (map fst (map (\<lambda>(key, p). (key, g key)) kos)) = fst ` set rs" unfolding mf by (rule ks)
    show "list_all (\<lambda>(key, vs). sorted_as k sorting (values_of key rs) vs) (map (\<lambda>(key, p). (key, g key)) kos)"
      unfolding list_all_iff
    proof
      fix x assume "x \<in> set (map (\<lambda>(key, p). (key, g key)) kos)"
      then have "x \<in> (\<lambda>key. (key, g key)) ` set (map fst kos)" by force
      then obtain key where x: "x = (key, g key)" "key \<in> set (map fst kos)" by blast
      then have "key \<in> set (map fst kps)" using ks kps(2) by blast
      then show "case x of (key, vs) \<Rightarrow> sorted_as k sorting (values_of key rs) vs" using kqs(4) x(1) by blast
    qed
  qed
  then have "indexes_records k sorting rs (map (\<lambda>(key, vs, a). (key, vs)) es')" by (simp only: st'(3))
  with kps(1) kqs(1) st'(1,2) l b show ?thesis unfolding kos_def by (intro exI conjI)
qed

lemma index_buckets_ok:
  fixes k :: "'v value_kind"
  defines "t \<equiv> vk_traits k"
  assumes "value_kind_ok k" "permuting key_order" "writer_ok t es st" "own_buckets xss" "index_records t (concat xss)"
    and "\<And>key. list_fits t (values_of key (concat xss))"
    and "bytes_written t es + sum_list (map (record_room t) (concat xss)) \<le> 2 ^ 44"
  shows "\<exists>st' es'. index_buckets k sorting key_order n st (bucket_files t xss) = Some (Inr (n + of_nat (length es'), st'))
    \<and> writer_ok t (es @ es') st' \<and> indexes_records k sorting (concat xss) (map (\<lambda>(key, vs, a). (key, vs)) es')"
  using assms(4-)
proof (induction xss arbitrary: es st n)
  case Nil
  then show ?case by (intro exI [of _ st] exI [of _ "[]"]) (simp add: bucket_files_def indexes_records_def)
next
  case (Cons xs xss)
  note ob = own_buckets_Cons [OF Cons.prems(2)]
  have one: "values_of key (concat (xs # xss)) = (if key \<in> fst ` set xs then values_of key xs else values_of key (concat xss))" for key
    using ob values_of_Nil [of key xs] values_of_Nil [of key "concat xss"] by auto
  have "list_fits t (values_of key xs)" for key
    using Cons.prems(4) [of key] one [of key] list_fits_Nil values_of_Nil [of key xs] by (cases "key \<in> fst ` set xs") auto
  moreover have "index_records t xs" using Cons.prems(3) by (simp add: index_records_def)
  moreover have "bytes_written t es + sum_list (map (record_room t) xs) \<le> 2 ^ 44" using Cons.prems(5) by simp
  ultimately obtain kps kqs st1 es1 where 1: "group_bucket t key_order (concat (map (write_record t) xs)) = Inr kps"
      "sort_all k sorting kps = Some (Inr kqs)" "store_all st (in_key_order key_order kqs) = Some (Inr st1)"
      "writer_ok t (es @ es1) st1" "length kqs = length es1" "bytes_written t es1 \<le> sum_list (map (record_room t) xs)"
      "indexes_records k sorting xs (map (\<lambda>(key, vs, a). (key, vs)) es1)"
    using store_bucket_ok [OF assms(2,3) Cons.prems(1) [unfolded t_def], of xs sorting] unfolding t_def by blast
  have "list_fits t (values_of key (concat xss))" for key
    using Cons.prems(4) [of key] one [of key] list_fits_Nil ob values_of_Nil [of key "concat xss"]
    by (cases "key \<in> fst ` set xs") auto
  moreover have "index_records t (concat xss)" using Cons.prems(3) by (simp add: index_records_def)
  moreover have "bytes_written t (es @ es1) + sum_list (map (record_room t) (concat xss)) \<le> 2 ^ 44"
    using Cons.prems(5) 1(6) by simp
  ultimately obtain st' es' where 2:
      "index_buckets k sorting key_order (n + of_nat (length kqs)) st1 (bucket_files t xss)
        = Some (Inr (n + of_nat (length kqs) + of_nat (length es'), st'))"
      "writer_ok t ((es @ es1) @ es') st'" "indexes_records k sorting (concat xss) (map (\<lambda>(key, vs, a). (key, vs)) es')"
    using Cons.IH [OF 1(4) conjunct1 [OF ob]] by blast
  have i: "index_buckets k sorting key_order n st (bucket_files t (xs # xss)) = Some (Inr (n + of_nat (length (es1 @ es')), st'))"
    using 1(1-3,5) 2(1) by (simp add: bucket_files_def t_def ac_simps)
  have "indexes_records k sorting (concat (xs # xss)) (map (\<lambda>(key, vs, a). (key, vs)) (es1 @ es'))"
    using indexes_append [OF 1(7) 2(3) conjunct2 [OF ob]] by simp
  then show ?case using i 2(2) by (metis append_assoc)
qed


section \<open>Inserting and rehashing\<close>

lemma values_of_mem: "(key, v) \<in> set rs \<longleftrightarrow> v \<in> set (values_of key rs)"
  by (force simp: values_of_def)

lemma same_values_mset:
  assumes "\<And>key. values_of key xs = values_of key ys"
  shows "mset xs = mset ys"
proof (rule multiset_eqI)
  fix r :: "string \<times> 'a"
  obtain key v where r: "r = (key, v)" by (cases r)
  have "filter (\<lambda>r. fst r = key) zs = map (Pair key) (values_of key zs)" for zs :: "(string \<times> 'a) list"
    by (induction zs) auto
  then have "filter (\<lambda>r. fst r = key) xs = filter (\<lambda>r. fst r = key) ys" using assms by simp
  moreover have "Multiset.count (mset zs) r = Multiset.count (mset (filter (\<lambda>r. fst r = key) zs)) r" for zs
    using r by (simp add: mset_filter)
  ultimately show "Multiset.count (mset xs) r = Multiset.count (mset ys) r" by metis
qed

lemma buckets_records: "buckets_hold rs bss \<Longrightarrow> b \<in> set bss \<Longrightarrow> r \<in> set b \<Longrightarrow> r \<in> set rs"
proof -
  assume h: "buckets_hold rs bss" and b: "b \<in> set bss" "r \<in> set b"
  obtain key v where r: "r = (key, v)" by (cases r)
  obtain i where i: "i < length bss" "b = bss ! i" using b(1) by (auto simp: in_set_conv_nth)
  have "\<forall>i < length bss. \<forall>r \<in> set (bss ! i). bucket_of (fst r) bss = i" using h by (auto simp: buckets_hold_def)
  then have "bucket_of (fst r) bss = i" using i b(2) by blast
  then have "bucket_of key bss = i" using r by simp
  moreover have "values_of key (bss ! bucket_of key bss) = values_of key rs" using h by (simp add: buckets_hold_def)
  ultimately show ?thesis using b(2) i(2) r by (simp add: values_of_mem)
qed

lemma read_buckets:
  assumes "traits_ok t" "list_all (record_ok t) rs" "buckets_hold rs bss" "mset files = mset (bucket_files t bss)"
  shows "mset (map (read_records t) files) = mset bss" "bucket_files t (map (read_records t) files) = files"
proof -
  have rw: "read_records t (concat (map (write_record t) b)) = b" if "b \<in> set bss" for b
    using buckets_records [OF assms(3) that] assms(2) by (intro read_written_records [OF assms(1)]) (auto simp: list_all_iff)
  have "mset (map (read_records t) files) = image_mset (read_records t) (mset files)" by simp
  also have "\<dots> = mset (map (\<lambda>b. read_records t (concat (map (write_record t) b))) bss)"
    unfolding assms(4) by (simp add: bucket_files_def multiset.map_comp comp_def)
  also have "map (\<lambda>b. read_records t (concat (map (write_record t) b))) bss = bss" using rw by (simp add: map_idI)
  finally show "mset (map (read_records t) files) = mset bss" .
  have "concat (map (write_record t) (read_records t f)) = f" if "f \<in> set files" for f
  proof -
    have "f \<in> set (bucket_files t bss)" using that assms(4) by (metis set_mset_mset)
    then obtain b where "b \<in> set bss" "f = concat (map (write_record t) b)" by (auto simp: bucket_files_def)
    then show ?thesis using rw by simp
  qed
  then show "bucket_files t (map (read_records t) files) = files" by (simp add: bucket_files_def map_idI comp_def)
qed

lemma rehash_ok:
  assumes "traits_ok t" "list_all (record_ok t) rs" "buckets_hold rs bss" "mset files = mset (bucket_files t bss)"
  shows "\<exists>bss'. rehash t files num = bucket_files t bss' \<and> buckets_hold rs bss'"
proof -
  let ?n = "unat (next_prime num)"
  have n: "0 < ?n" using next_prime_is_prime [of num] by (simp add: is_prime_iff prime_number_def)
  let ?xs = "concat (map (read_records t) files)"
  have v: "values_of key ?xs = values_of key rs" for key
    by (rule shuffled_values [OF assms(3) read_buckets(1) [OF assms]])
  have "buckets_hold ?xs (fold add_record ?xs (replicate ?n []))"
    using add_records_ok [OF empty_buckets [OF n], of ?xs] by simp
  then have "buckets_hold rs (fold add_record ?xs (replicate ?n []))" using v by (simp add: buckets_hold_def)
  moreover have "bucket_files t (replicate ?n []) = replicate ?n []" by (simp add: bucket_files_def)
  then have "rehash t files num = bucket_files t (fold add_record ?xs (replicate ?n []))"
    using insert_buckets_files [of "replicate ?n []" t ?xs] n by (simp add: rehash_def)
  ultimately show ?thesis by blast
qed

text \<open>The invariant of \<open>UnsortedInput\<close>.\<close>

definition unsorted_ok :: "'v value_traits \<Rightarrow> value_sorting \<Rightarrow> (string \<times> 'v) list \<Rightarrow> unsorted_input \<Rightarrow> bool" where
  "unsorted_ok t sorting rs ui \<longleftrightarrow> (\<exists>bss. ui_buckets ui = bucket_files t bss \<and> buckets_hold rs bss)
    \<and> ui_sorting ui = sorting \<and> ix_key_count (ui_stats ui) = 0 \<and> ix_value_count (ui_stats ui) = of_nat (length rs)
    \<and> ix_total_size (ui_stats ui) = of_nat (length (bytes_of_values t (map snd rs)))"

lemma new_unsorted_ok: "unsorted_ok t sorting [] (new_unsorted_input sorting mem expected)"
proof -
  have "0 < unat (next_prime 2)" using next_prime_is_prime [of 2] by (simp add: is_prime_iff prime_number_def)
  then have "buckets_hold [] (replicate (unat (next_prime 2)) [])" by (rule empty_buckets)
  moreover have "bucket_files t (replicate (unat (next_prime 2)) []) = replicate (unat (next_prime 2)) []" by (simp add: bucket_files_def)
  ultimately show ?thesis by (force simp: unsorted_ok_def new_unsorted_input_def new_index_stats_def)
qed

lemma unsorted_insert_ok:
  assumes "traits_ok t" "list_all (record_ok t) (rs @ [r])" "permuting dir_order" "unsorted_ok t sorting rs ui"
  shows "unsorted_ok t sorting (rs @ [r]) (unsorted_insert t dir_order expected_size r ui)"
proof -
  obtain bss where bss: "ui_buckets ui = bucket_files t bss" "buckets_hold rs bss" using assms(4) by (auto simp: unsorted_ok_def)
  have ne: "bss \<noteq> []" using bss(2) by (simp add: buckets_hold_def)
  define bs where "bs = insert_bucket t r (ui_buckets ui)"
  have b: "bs = bucket_files t (add_record r bss)" "buckets_hold (rs @ [r]) (add_record r bss)"
    using insert_bucket_files [OF ne, of t r] add_record_ok [OF bss(2)] by (simp_all add: bs_def bss(1))
  define ui' where "ui' = unsorted_insert t dir_order expected_size r ui"
  have "ui_buckets ui' = bs \<or> (\<exists>num. ui_buckets ui' = rehash t (dir_order bs) num)"
    by (auto simp: ui'_def unsorted_insert_def Let_def bs_def)
  moreover have "\<exists>bss'. rehash t (dir_order bs) num = bucket_files t bss' \<and> buckets_hold (rs @ [r]) bss'" for num
    using assms(3) unfolding b(1) permuting_def by (intro rehash_ok [OF assms(1,2) b(2)]) blast
  ultimately have "\<exists>bss'. ui_buckets ui' = bucket_files t bss' \<and> buckets_hold (rs @ [r]) bss'" using b by metis
  moreover have "ui_sorting ui' = ui_sorting ui" "ui_stats ui' = count_record t (snd r) (ui_stats ui)"
    by (simp_all add: ui'_def unsorted_insert_def Let_def)
  ultimately show ?thesis using assms(4) unfolding ui'_def [symmetric]
    by (simp add: unsorted_ok_def count_record_def size_of_def)
qed

lemma unsorted_inserts_ok:
  assumes "traits_ok t" "list_all (record_ok t) rs" "permuting dir_order"
  shows "unsorted_ok t sorting rs (fold (unsorted_insert t dir_order expected_size) rs (new_unsorted_input sorting mem expected))"
  using assms(2)
proof (induction rs rule: rev_induct)
  case Nil
  show ?case using new_unsorted_ok by simp
next
  case (snoc r rs)
  then have "unsorted_ok t sorting rs (fold (unsorted_insert t dir_order expected_size) rs (new_unsorted_input sorting mem expected))"
    by simp
  from unsorted_insert_ok [OF assms(1) snoc.prems assms(3) this] show ?case by simp
qed

lemma indexes_cong:
  assumes "\<And>key. values_of key xs = values_of key ys" "indexes_records k sorting xs kvs"
  shows "indexes_records k sorting ys kvs"
proof -
  have "fst ` set xs = fst ` set ys" using same_values_mset [OF assms(1)] by (metis set_mset_mset)
  then show ?thesis using assms by (simp add: indexes_records_def)
qed

lemma unsorted_index_ok:
  fixes k :: "'v value_kind"
  defines "t \<equiv> vk_traits k"
  assumes "value_kind_ok k" "permuting key_order" "permuting dir_order" "index_records t rs" "\<And>key. list_fits t (values_of key rs)"
    and "sum_list (map (record_room t) rs) \<le> 2 ^ 44"
  shows "\<exists>ui st es. unsorted_index k key_order dir_order
        (fold (unsorted_insert t dir_order expected_size) rs (new_unsorted_input sorting mem expected)) = Some (Inr (ui, st))
    \<and> writer_ok t es st \<and> indexes_records k sorting rs (map (\<lambda>(key, vs, a). (key, vs)) es)
    \<and> ix_key_count (ui_stats ui) = of_nat (length es) \<and> ix_value_count (ui_stats ui) = of_nat (length rs)"
proof -
  define ui where "ui = fold (unsorted_insert t dir_order expected_size) rs (new_unsorted_input sorting mem expected)"
  have t: "traits_ok t" using assms(2) by (simp add: t_def value_kind_ok_def)
  have rs: "list_all (record_ok t) rs" using assms(5) by (simp add: index_records_def list_all_iff)
  have u: "unsorted_ok t sorting rs ui" unfolding ui_def by (rule unsorted_inserts_ok [OF t rs assms(4)])
  then obtain bss where bss: "ui_buckets ui = bucket_files t bss" "buckets_hold rs bss" by (auto simp: unsorted_ok_def)
  have m: "mset (dir_order (bucket_files t bss)) = mset (bucket_files t bss)" using assms(4) by (simp add: permuting_def)
  define xss where "xss = map (read_records t) (dir_order (bucket_files t bss))"
  note x = read_buckets [OF t rs bss(2) m, folded xss_def]
  have v: "values_of key (concat xss) = values_of key rs" for key by (rule shuffled_values [OF bss(2) x(1)])
  have mm: "mset (concat xss) = mset rs" by (rule same_values_mset [OF v])
  have A: "index_records t (concat xss)" using assms(5) mset_eq_setD [OF mm] unfolding index_records_def list_all_iff by simp
  have "sum_list (map (record_room t) (concat xss)) = sum_list (map (record_room t) rs)"
    using mm by (metis mset_map sum_mset_sum_list)
  then have B: "bytes_written t [] + sum_list (map (record_room t) (concat xss)) \<le> 2 ^ 44"
    using assms(7) by (simp add: bytes_written_def)
  have C: "list_fits t (values_of key (concat xss))" for key using assms(6) unfolding v .
  have ob: "own_buckets xss" by (rule own_buckets_hold [OF bss(2) x(1)])
  obtain st es where st: "index_buckets k sorting key_order 0 new_storage (bucket_files t xss) = Some (Inr (0 + of_nat (length es), st))"
      "writer_ok t ([] @ es) st" "indexes_records k sorting (concat xss) (map (\<lambda>(key, vs, a). (key, vs)) es)"
    using index_buckets_ok [OF assms(2,3) writer_ok_new ob, where sorting = sorting and n = 0, folded t_def, OF A C B]
    by (elim exE conjE)
  have "unsorted_index k key_order dir_order ui = Some (Inr (ui\<lparr>ui_stats := (ui_stats ui)\<lparr>ix_key_count := of_nat (length es)\<rparr>\<rparr>, st))"
    using st(1) u bss(1) x(2) by (simp add: unsorted_index_def unsorted_ok_def)
  moreover have "writer_ok t es st" using st(2) by simp
  moreover have "ix_value_count (ui_stats ui) = of_nat (length rs)" using u by (simp add: unsorted_ok_def)
  ultimately show ?thesis using indexes_cong [OF v st(3)] unfolding ui_def [symmetric] by force
qed

section \<open>An index of unsorted records\<close>

lemma indexed_lists:
  assumes "indexes_records k sorting rs kvs" "index_records t rs" "\<And>key. list_fits t (values_of key rs)"
  shows "filter (\<lambda>(key, vs). vs \<noteq> []) kvs = kvs" "list_all (\<lambda>(key, vs). plain_key key \<and> list_fits t vs) kvs"
proof -
  have "vs \<noteq> [] \<and> plain_key key \<and> list_fits t vs" if x: "(key, vs) \<in> set kvs" for key vs
  proof -
    have "key \<in> set (map fst kvs)" using x by force
    then have k: "key \<in> fst ` set rs" using assms(1) unfolding indexes_records_def by blast
    have s: "sorted_as k sorting (values_of key rs) vs" using assms(1) x by (auto simp: indexes_records_def list_all_iff)
    note m = sorted_as_mset [OF s]
    have "values_of key rs \<noteq> []" using k by (simp add: values_of_Nil)
    then have "vs \<noteq> []" using m by (metis mset_zero_iff)
    moreover have "plain_key key" using k assms(2) by (auto simp: index_records_def list_all_iff)
    ultimately show ?thesis using list_fits_mset [OF m assms(3)] by blast
  qed
  then show "filter (\<lambda>(key, vs). vs \<noteq> []) kvs = kvs" "list_all (\<lambda>(key, vs). plain_key key \<and> list_fits t vs) kvs"
    by (auto simp: filter_id_conv list_all_iff)
qed

lemma indexed_length: "indexes_records k sorting rs kvs \<Longrightarrow> length kvs \<le> length rs"
proof -
  assume i: "indexes_records k sorting rs kvs"
  then have "length kvs = card (fst ` set rs)" unfolding indexes_records_def by (metis distinct_card length_map)
  also have "\<dots> \<le> card (set rs)" by (rule card_image_le) simp
  also have "\<dots> \<le> length rs" by (rule card_length)
  finally show ?thesis .
qed

lemma indexed_entry: "indexes_records k sorting rs kvs \<Longrightarrow> key \<in> fst ` set rs \<Longrightarrow>
  \<exists>vs. (key, vs) \<in> set kvs \<and> sorted_as k sorting (values_of key rs) vs"
proof -
  assume i: "indexes_records k sorting rs kvs" "key \<in> fst ` set rs"
  then have "key \<in> set (map fst kvs)" unfolding indexes_records_def by blast
  then obtain vs where "(key, vs) \<in> set kvs" by auto
  then show ?thesis using i(1) by (auto simp: indexes_records_def list_all_iff)
qed

text \<open>The text table of an index: one line for every key.\<close>

definition lists_keys :: "string \<Rightarrow> string list \<Rightarrow> bool" where
  "lists_keys table keys \<longleftrightarrow> (\<exists>kas. map fst kas = keys \<and> table = concat (map (\<lambda>(key, a). address_line key a @ [line_end]) kas))"

lemma writer_lists_keys: "writer_ok t es st \<Longrightarrow> lists_keys (st_table st) (map fst es)"
proof -
  assume "writer_ok t es st"
  then have "st_table st = concat (map entry_line es)" by (simp add: writer_ok_def)
  moreover have "map entry_line es = map (\<lambda>(key, a). address_line key a @ [line_end]) (map (\<lambda>(key, vs, a). (key, a)) es)"
    by (simp add: entry_line_def case_prod_beta)
  ultimately show ?thesis unfolding lists_keys_def
    by (intro exI [of _ "map (\<lambda>(key, vs, a). (key, a)) es"]) (simp add: case_prod_beta comp_def)
qed

lemma unsorted_index_searched:
  assumes "minimal_perfect cmph" "\<And>n. length (malloc n) = n" "value_kind_ok k" "permuting key_order" "permuting dir_order"
    and "index_records (vk_traits k) rs" "\<And>key. list_fits (vk_traits k) (values_of key rs)"
    and "sum_list (map (record_room (vk_traits k)) rs) \<le> 2 ^ 44" "rs \<noteq> []" "length rs < 10000000"
  shows "\<exists>ui st table kvs. unsorted_index k key_order dir_order
        (fold (unsorted_insert (vk_traits k) dir_order expected_size) rs (new_unsorted_input sorting mem expected)) = Some (Inr (ui, st))
    \<and> storage_close st = Some table \<and> lists_keys table (map fst kvs)
    \<and> ix_key_count (ui_stats ui) = of_nat (length kvs) \<and> ix_value_count (ui_stats ui) = of_nat (length rs)
    \<and> indexes_records k sorting rs kvs
    \<and> (\<forall>dir_name num_bytes memory. \<exists>ms b.
        build_big_map cmph malloc address_traits 6 parse_address dir_name [table] = Some (Inr ms)
      \<and> big_open num_bytes memory 6 ms = Inr b
      \<and> (\<forall>key vs begin len. (key, vs) \<in> set kvs \<longrightarrow>
          (\<exists>p p'. search_stored \<lparr>sr_table = Some (big_get address_traits 6 b), sr_files = st_files st\<rparr> key begin len = Some p
            \<and> pl_values (vk_traits k) p = Some (Inr (read_postlist vs begin len, p'))))
      \<and> (\<forall>key begin len. hash32 key \<notin> hash32 ` fst ` set kvs \<longrightarrow>
          search_stored \<lparr>sr_table = Some (big_get address_traits 6 b), sr_files = st_files st\<rparr> key begin len = None))"
proof -
  define t where "t = vk_traits k"
  have t: "traits_ok t" using assms(3) by (simp add: t_def value_kind_ok_def)
  obtain ui st es where u: "unsorted_index k key_order dir_order
        (fold (unsorted_insert (vk_traits k) dir_order expected_size) rs (new_unsorted_input sorting mem expected)) = Some (Inr (ui, st))"
      "writer_ok t es st" "indexes_records k sorting rs (map (\<lambda>(key, vs, a). (key, vs)) es)"
      "ix_key_count (ui_stats ui) = of_nat (length es)" "ix_value_count (ui_stats ui) = of_nat (length rs)"
    using unsorted_index_ok [OF assms(3-8)] unfolding t_def by blast
  define kvs where "kvs = map (\<lambda>(key, vs, a). (key, vs)) es"
  note i = u(3) [folded kvs_def]
  note l = indexed_lists [OF i assms(6,7), folded t_def]
  have d: "distinct (map fst kvs)" using i by (simp add: indexes_records_def)
  have n: "length kvs < 10000000" using indexed_length [OF i] assms(10) by linarith
  have ne: "es \<noteq> []" using i assms(9) by (auto simp: indexes_records_def kvs_def)
  have f: "map (\<lambda>(key, vs, a). (key, vs)) es = filter (\<lambda>(key, vs). vs \<noteq> []) kvs" unfolding l(1) by (simp only: kvs_def)
  have nn: "vs \<noteq> []" if "(key, vs) \<in> set kvs" for key vs using l(1) that by (metis (mono_tags, lifting) case_prod_conv filter_id_conv)
  have c: "storage_close st = Some (st_table st)" using u(2) ne by (simp add: storage_close_def writer_ok_def)
  have "\<exists>ms b. build_big_map cmph malloc address_traits 6 parse_address dir_name [st_table st] = Some (Inr ms)
      \<and> big_open num_bytes memory 6 ms = Inr b
      \<and> (\<forall>key vs begin len. (key, vs) \<in> set kvs \<longrightarrow>
          (\<exists>p p'. search_stored \<lparr>sr_table = Some (big_get address_traits 6 b), sr_files = st_files st\<rparr> key begin len = Some p
            \<and> pl_values t p = Some (Inr (read_postlist vs begin len, p'))))
      \<and> (\<forall>key begin len. hash32 key \<notin> hash32 ` fst ` set kvs \<longrightarrow>
          search_stored \<lparr>sr_table = Some (big_get address_traits 6 b), sr_files = st_files st\<rparr> key begin len = None)"
    for dir_name num_bytes memory
    using stored_lists_searched [OF assms(1,2) t u(2) f l(2) d ne n, of dir_name num_bytes memory] nn unfolding c option.inject by blast
  moreover have "lists_keys (st_table st) (map fst kvs)" using writer_lists_keys [OF u(2)] by (simp add: kvs_def comp_def case_prod_beta)
  moreover have "ix_key_count (ui_stats ui) = of_nat (length kvs)" using u(4) by (simp add: kvs_def)
  ultimately show ?thesis unfolding t_def [symmetric] using u(1) [folded t_def] u(5) c i by blast
qed

text \<open>
  C12. An inverted index is built from records in any order: they are scattered to bucket files,
  redistributed whenever the buckets become too large, grouped by key, sorted and stored. For every key
  of the records the searcher then finds exactly its values, in the configured order. This holds for
  every order in which directories and hash tables are traversed and every estimate of the total size.
\<close>

theorem unsorted_index_correct:
  assumes "minimal_perfect cmph" "\<And>n. length (malloc n) = n" "value_kind_ok k" "permuting key_order" "permuting dir_order"
    and "index_records (vk_traits k) rs" "\<And>key. list_fits (vk_traits k) (values_of key rs)"
    and "sum_list (map (record_room (vk_traits k)) rs) \<le> 2 ^ 44" "rs \<noteq> []" "length rs < 10000000"
  shows "\<exists>ui st table ms b. unsorted_index k key_order dir_order
        (fold (unsorted_insert (vk_traits k) dir_order expected_size) rs (new_unsorted_input sorting mem expected)) = Some (Inr (ui, st))
    \<and> storage_close st = Some table
    \<and> build_big_map cmph malloc address_traits 6 parse_address dir_name [table] = Some (Inr ms)
    \<and> big_open num_bytes memory 6 ms = Inr b
    \<and> (\<forall>key \<in> fst ` set rs. \<exists>vs. sorted_as k sorting (values_of key rs) vs
        \<and> (\<forall>begin len. \<exists>p p'. search_stored \<lparr>sr_table = Some (big_get address_traits 6 b), sr_files = st_files st\<rparr> key begin len = Some p
            \<and> pl_values (vk_traits k) p = Some (Inr (read_postlist vs begin len, p'))))"
proof -
  obtain ui st table kvs where u: "unsorted_index k key_order dir_order
        (fold (unsorted_insert (vk_traits k) dir_order expected_size) rs (new_unsorted_input sorting mem expected)) = Some (Inr (ui, st))"
      "storage_close st = Some table" "indexes_records k sorting rs kvs"
      "\<forall>dir_name num_bytes memory. \<exists>ms b.
        build_big_map cmph malloc address_traits 6 parse_address dir_name [table] = Some (Inr ms)
      \<and> big_open num_bytes memory 6 ms = Inr b
      \<and> (\<forall>key vs begin len. (key, vs) \<in> set kvs \<longrightarrow>
          (\<exists>p p'. search_stored \<lparr>sr_table = Some (big_get address_traits 6 b), sr_files = st_files st\<rparr> key begin len = Some p
            \<and> pl_values (vk_traits k) p = Some (Inr (read_postlist vs begin len, p'))))
      \<and> (\<forall>key begin len. hash32 key \<notin> hash32 ` fst ` set kvs \<longrightarrow>
          search_stored \<lparr>sr_table = Some (big_get address_traits 6 b), sr_files = st_files st\<rparr> key begin len = None)"
    using unsorted_index_searched [OF assms, where sorting = sorting and mem = mem and expected = expected and expected_size = expected_size]
    by (elim exE conjE) (rule that)
  obtain ms b where b: "build_big_map cmph malloc address_traits 6 parse_address dir_name [table] = Some (Inr ms)"
      "big_open num_bytes memory 6 ms = Inr b"
      "\<forall>key vs begin len. (key, vs) \<in> set kvs \<longrightarrow>
          (\<exists>p p'. search_stored \<lparr>sr_table = Some (big_get address_traits 6 b), sr_files = st_files st\<rparr> key begin len = Some p
            \<and> pl_values (vk_traits k) p = Some (Inr (read_postlist vs begin len, p')))"
    using u(4) by blast
  have "\<exists>vs. sorted_as k sorting (values_of key rs) vs
        \<and> (\<forall>begin len. \<exists>p p'. search_stored \<lparr>sr_table = Some (big_get address_traits 6 b), sr_files = st_files st\<rparr> key begin len = Some p
            \<and> pl_values (vk_traits k) p = Some (Inr (read_postlist vs begin len, p')))" if k: "key \<in> fst ` set rs" for key
  proof -
    obtain vs where "(key, vs) \<in> set kvs" "sorted_as k sorting (values_of key rs) vs" using indexed_entry [OF u(3) k] by blast
    then show ?thesis using b(3) by blast
  qed
  then show ?thesis using u(1,2) b(1,2) by blast
qed

text \<open>Four records of two keys, sorted by decreasing frequency.\<close>

definition pair_kind :: "(u32 \<times> u32) value_kind" where
  "pair_kind = \<lparr>vk_traits = pair_traits, vk_less = pair_less, vk_greater = pair_greater, vk_sort = stable_sort\<rparr>"

lemma pair_kind_ok: "value_kind_ok pair_kind"
  by (simp add: value_kind_ok_def pair_kind_def pair_traits_ok pair_orders stable_sort_ok)

definition ex_records :: "(string \<times> u32 \<times> u32) list" where
  "ex_records = [(''2:0_a'', (4, 0)), (''2:1_b'', (4, 0)), (''2:0_a'', (9, 1)), (''2:1_c'', (9, 1))]"

lemma ex_records_ok:
  "index_records pair_traits ex_records" "list_fits pair_traits (values_of key ex_records)"
  "sum_list (map (record_room pair_traits) ex_records) \<le> 2 ^ 44"
  by (simp_all add: ex_records_def index_records_def record_ok_def plain_key_def tab_def line_end_def list_fits_def values_fit_def
      swap_pagesize_def bytes_of_values_def pair_traits_def pair_put_def size_of_def record_room_def)

lemma permuting_rev: "permuting rev" "permuting (\<lambda>xs. xs)"
  by (simp_all add: permuting_def)

theorem unsorted_index_correct_witness:
  "\<exists>ui st table ms b. unsorted_index pair_kind rev rev
        (fold (unsorted_insert (vk_traits pair_kind) rev (\<lambda>a b c. a)) ex_records (new_unsorted_input SortingDescending Mb512 4)) = Some (Inr (ui, st))
    \<and> storage_close st = Some table
    \<and> build_big_map numbering (\<lambda>k. replicate k 0) address_traits 6 parse_address ''index'' [table] = Some (Inr ms)
    \<and> big_open 10 1000 6 ms = Inr b
    \<and> (\<forall>key \<in> fst ` set ex_records. \<exists>vs. sorted_as pair_kind SortingDescending (values_of key ex_records) vs
        \<and> (\<forall>begin len. \<exists>p p'. search_stored \<lparr>sr_table = Some (big_get address_traits 6 b), sr_files = st_files st\<rparr> key begin len = Some p
            \<and> pl_values (vk_traits pair_kind) p = Some (Inr (read_postlist vs begin len, p'))))"
proof (rule unsorted_index_correct [OF numbering_perfect _ pair_kind_ok permuting_rev(1) permuting_rev(1)])
  have t: "vk_traits pair_kind = pair_traits" by (simp add: pair_kind_def)
  show "index_records (vk_traits pair_kind) ex_records" "list_fits (vk_traits pair_kind) (values_of key ex_records)" for key
    unfolding t by (rule ex_records_ok)+
  show "sum_list (map (record_room (vk_traits pair_kind)) ex_records) \<le> 2 ^ 44" unfolding t by (rule ex_records_ok)
  show "length (replicate n 0) = n" for n by simp
  show "ex_records \<noteq> []" "length ex_records < 10000000" by (simp_all add: ex_records_def)
qed

section \<open>An index of sorted records\<close>

text \<open>The records are inserted one after the other until one fails.\<close>

fun sorted_inserts :: "'v value_kind \<Rightarrow> 'v sorted_input \<Rightarrow> (string \<times> 'v) list \<Rightarrow> 'v sorted_input result option" where
  "sorted_inserts k si [] = Some (Inr si)"
| "sorted_inserts k si (r # rs) = obind (sorted_insert k si r) (\<lambda>si. sorted_inserts k si rs)"

text \<open>The posting lists that come of it: a run of records for each, but a run of empty keys joins the next.\<close>

fun key_runs :: "string \<Rightarrow> 'v list \<Rightarrow> (string \<times> 'v) list \<Rightarrow> (string \<times> 'v list) list" where
  "key_runs key vs [] = [(key, vs)]"
| "key_runs key vs ((key', v) # rs) =
    (if key' \<noteq> key \<and> key \<noteq> [] then (key, vs) # key_runs key' [v] rs else key_runs key' (vs @ [v]) rs)"

definition collecting :: "'v value_traits \<Rightarrow> value_sorting \<Rightarrow> string \<Rightarrow> 'v list \<Rightarrow> 'v stored_entry list \<Rightarrow> 'v sorted_input \<Rightarrow> bool" where
  "collecting t sorting key vs es si \<longleftrightarrow> si_sorting si = sorting \<and> si_key si = key \<and> builder_ok t vs (si_builder si)
    \<and> bd_page_size (si_builder si) = default_page_size \<and> writer_ok t es (si_storage si)
    \<and> ix_key_count (si_stats si) = of_nat (length es)"

lemma write_current_postlist_ok:
  fixes k :: "'v value_kind"
  defines "t \<equiv> vk_traits k"
  assumes "value_kind_ok k" "collecting t sorting key vs es si" "vs \<noteq> []" "plain_key key" "list_fits t vs" "bytes_written t es \<le> 2 ^ 44"
  shows "\<exists>si' vs' a. write_current_postlist k si = Some (Inr si') \<and> sorted_as k sorting vs vs'
    \<and> collecting t sorting key [] (es @ [(key, vs', a)]) si' \<and> ix_value_count (si_stats si') = ix_value_count (si_stats si)"
proof -
  have c: "si_sorting si = sorting" "si_key si = key" "builder_ok t vs (si_builder si)" "bd_page_size (si_builder si) = default_page_size"
      "writer_ok t es (si_storage si)" "ix_key_count (si_stats si) = of_nat (length es)"
    using assms(3) by (simp_all add: collecting_def)
  have vf: "values_fit t default_page_size vs" by (rule list_fits_default [OF assms(6)])
  obtain p b where b: "build t (si_builder si) = Inr (p, b)" "holds t vs p" "builder_ok t [] b" "bd_page_size b = default_page_size"
    using build_ok [OF c(3)] vf unfolding c(4) by blast
  obtain q vs' where q: "sort_postlist k sorting p = Some (Inr q)" "holds t vs' q" "sorted_as k sorting vs vs'"
    using sort_postlist_ok [OF assms(2), of vs p sorting] vf b(2) unfolding t_def by blast
  note m = sorted_as_mset [OF q(3)]
  have "vs' \<noteq> []" using m assms(4) by (metis mset_zero_iff)
  moreover have "key \<noteq> []" "tab \<notin> set key" using assms(5) by (simp_all add: plain_key_def)
  ultimately obtain st a where "storage_write (si_storage si) key q = Some (Inr (True, st))" "writer_ok t (es @ [(key, vs', a)]) st"
    using storage_write_ok [OF c(5) q(2) list_fits_mset [OF m assms(6)]] assms(7) by blast
  then show ?thesis using b q c
    by (intro exI [of _ "si\<lparr>si_builder := b, si_storage := st, si_stats := (si_stats si)\<lparr>ix_key_count := ix_key_count (si_stats si) + 1\<rparr>\<rparr>"]
        exI [of _ vs'] exI [of _ a])
      (simp add: write_current_postlist_def collecting_def t_def [symmetric])
qed

lemma push_collecting:
  "collecting t sorting key vs es si \<Longrightarrow>
    collecting t sorting key (vs @ [v]) es (si\<lparr>si_builder := push_back t v (si_builder si)\<rparr>)"
  using push_back_ok [of t vs "si_builder si" v] by (simp add: collecting_def)

lemma key_collecting: "collecting t sorting key vs es si \<Longrightarrow> collecting t sorting key' vs es (si\<lparr>si_key := key'\<rparr>)"
  by (simp add: collecting_def)

lemma run_not_Nil: "(key, vs) \<in> set (key_runs key' us rs) \<Longrightarrow> us \<noteq> [] \<Longrightarrow> vs \<noteq> []"
  by (induction key' us rs rule: key_runs.induct) (auto split: if_splits)

definition run_stored :: "'v value_kind \<Rightarrow> value_sorting \<Rightarrow> string \<times> 'v list \<Rightarrow> 'v stored_entry \<Rightarrow> bool" where
  "run_stored k sorting run e \<longleftrightarrow> fst e = fst run \<and> sorted_as k sorting (snd run) (fst (snd e))"

lemma run_stored_room: "run_stored k sorting (key, us) (key', vs, a) \<Longrightarrow> entry_room t vs = entry_room t us"
  using entry_room_mset [OF sorted_as_mset] by (auto simp: run_stored_def)

lemma sorted_inserts_ok:
  fixes k :: "'v value_kind"
  defines "t \<equiv> vk_traits k"
  assumes "value_kind_ok k" "collecting t sorting key us es si" "us \<noteq> [] \<or> key = []"
    and "list_all (\<lambda>(key, vs). plain_key key \<and> list_fits t vs) (key_runs key us rs)"
    and "bytes_written t es + sum_list (map (\<lambda>(key, vs). entry_room t vs) (key_runs key us rs)) \<le> 2 ^ 44"
  shows "\<exists>si' es'. obind (sorted_inserts k si rs) (sorted_index k) = Some (Inr si') \<and> writer_ok t (es @ es') (si_storage si')
    \<and> list_all2 (run_stored k sorting) (key_runs key us rs) es'
    \<and> ix_key_count (si_stats si') = of_nat (length (es @ es'))
    \<and> ix_value_count (si_stats si') = ix_value_count (si_stats si) + of_nat (length rs)"
  using assms(3-)
proof (induction rs arbitrary: key us es si)
  case Nil
  then have p: "plain_key key" "list_fits t us" "bytes_written t es \<le> 2 ^ 44" by simp_all
  then have "us \<noteq> []" using Nil.prems(2) by (auto simp: plain_key_def)
  from write_current_postlist_ok [OF assms(2) Nil.prems(1) [unfolded t_def] this p [unfolded t_def]]
  obtain si' vs' a where "write_current_postlist k si = Some (Inr si')" "sorted_as k sorting us vs'"
      "collecting t sorting key [] (es @ [(key, vs', a)]) si'" "ix_value_count (si_stats si') = ix_value_count (si_stats si)"
    unfolding t_def by blast
  then show ?case by (intro exI [of _ si'] exI [of _ "[(key, vs', a)]"]) (simp add: sorted_index_def run_stored_def collecting_def)
next
  case (Cons r rs)
  obtain key' v where r: "r = (key', v)" by (cases r)
  define s1 where "s1 = si\<lparr>si_stats := count_record t v (si_stats si)\<rparr>"
  have s1: "collecting t sorting key us es s1" "ix_value_count (si_stats s1) = ix_value_count (si_stats si) + 1"
    using Cons.prems(1) by (simp_all add: s1_def count_record_def collecting_def)
  show ?case
  proof (cases "key' \<noteq> key \<and> key \<noteq> []")
    case True
    have p: "plain_key key" "list_fits t us" "bytes_written t es \<le> 2 ^ 44" using Cons.prems(3,4) True r by simp_all
    have ne: "us \<noteq> []" using Cons.prems(2) True by blast
    obtain s2 vs' a where s2: "write_current_postlist k s1 = Some (Inr s2)" "sorted_as k sorting us vs'"
        "collecting t sorting key [] (es @ [(key, vs', a)]) s2" "ix_value_count (si_stats s2) = ix_value_count (si_stats s1)"
      using write_current_postlist_ok [OF assms(2) s1(1) [unfolded t_def] ne p [unfolded t_def]] unfolding t_def by blast
    define s3 where "s3 = s2\<lparr>si_key := key', si_builder := push_back t v (si_builder s2)\<rparr>"
    have "collecting t sorting key' ([] @ [v]) (es @ [(key, vs', a)]) s3"
      using push_collecting [OF key_collecting [OF s2(3)]] by (simp add: s3_def)
    then have c: "collecting t sorting key' [v] (es @ [(key, vs', a)]) s3" by simp
    have rs: "run_stored k sorting (key, us) (key, vs', a)" using s2(2) by (simp add: run_stored_def)
    have la: "list_all (\<lambda>(key, vs). plain_key key \<and> list_fits t vs) (key_runs key' [v] rs)" using Cons.prems(3) True r by simp
    have bw: "bytes_written t (es @ [(key, vs', a)]) + sum_list (map (\<lambda>(key, vs). entry_room t vs) (key_runs key' [v] rs)) \<le> 2 ^ 44"
      using Cons.prems(4) True r run_stored_room [OF rs, of t] by simp
    obtain si' es' where IH: "obind (sorted_inserts k s3 rs) (sorted_index k) = Some (Inr si')"
        "writer_ok t ((es @ [(key, vs', a)]) @ es') (si_storage si')" "list_all2 (run_stored k sorting) (key_runs key' [v] rs) es'"
        "ix_key_count (si_stats si') = of_nat (length ((es @ [(key, vs', a)]) @ es'))"
        "ix_value_count (si_stats si') = ix_value_count (si_stats s3) + of_nat (length rs)"
      using Cons.IH [OF c _ la bw] by blast
    have "si_key si = key" using Cons.prems(1) by (simp add: collecting_def)
    moreover have "write_current_postlist k (si\<lparr>si_stats := count_record (vk_traits k) v (si_stats si)\<rparr>) = Some (Inr s2)"
      using s2(1) by (simp add: s1_def t_def)
    ultimately have "sorted_insert k si r = Some (Inr s3)" using True r by (auto simp: sorted_insert_def s3_def t_def Let_def)
    moreover have "ix_value_count (si_stats s3) = ix_value_count (si_stats si) + 1" using s2(4) s1(2) by (simp add: s3_def)
    ultimately show ?thesis using IH True r rs by (intro exI [of _ si'] exI [of _ "(key, vs', a) # es'"]) simp
  next
    case False
    define s3 where "s3 = s1\<lparr>si_key := key', si_builder := push_back t v (si_builder s1)\<rparr>"
    have c: "collecting t sorting key' (us @ [v]) es s3"
      using push_collecting [OF key_collecting [OF s1(1)]] by (simp add: s3_def)
    have ru: "key_runs key us (r # rs) = key_runs key' (us @ [v]) rs" using False r by auto
    obtain si' es' where IH: "obind (sorted_inserts k s3 rs) (sorted_index k) = Some (Inr si')"
        "writer_ok t (es @ es') (si_storage si')" "list_all2 (run_stored k sorting) (key_runs key' (us @ [v]) rs) es'"
        "ix_key_count (si_stats si') = of_nat (length (es @ es'))"
        "ix_value_count (si_stats si') = ix_value_count (si_stats s3) + of_nat (length rs)"
      using Cons.IH [OF c _ Cons.prems(3,4) [unfolded ru]] by blast
    have k: "si_key si = key" using Cons.prems(1) by (simp add: collecting_def)
    have "sorted_insert k si r = Some (Inr s3)" using False r k
      by (cases "key' = key") (auto simp: sorted_insert_def s1_def s3_def t_def)
    moreover have "ix_value_count (si_stats s3) = ix_value_count (si_stats si) + 1" using s1(2) by (simp add: s3_def)
    ultimately show ?thesis using IH unfolding ru by (intro exI [of _ si'] exI [of _ es']) simp
  qed
qed

lemma new_collecting: "collecting t sorting [] [] [] (new_sorted_input sorting)"
  using writer_ok_new [of t] new_postlist_builder_ok [of t default_page_size]
  by (simp add: collecting_def new_sorted_input_def new_index_stats_def new_builder_page)

lemma key_runs_same: "key_runs key us (map (Pair key) vs @ rs) = key_runs key (us @ vs) rs"
  by (induction vs arbitrary: us) auto

lemma key_runs_groups:
  assumes "key \<noteq> []" "distinct (key # map fst kvs)" "list_all (\<lambda>(key, vs). key \<noteq> [] \<and> vs \<noteq> []) kvs"
  shows "key_runs key us (concat (map (\<lambda>(key, vs). map (Pair key) vs) kvs)) = (key, us) # kvs"
  using assms
proof (induction kvs arbitrary: key us)
  case (Cons kv kvs)
  obtain k v vs where kv: "kv = (k, v # vs)" using Cons.prems(3) by (cases kv) (auto simp: neq_Nil_conv)
  have "key_runs k ([v] @ vs) (concat (map (\<lambda>(key, vs). map (Pair key) vs) kvs)) = (k, [v] @ vs) # kvs"
    using Cons.prems kv by (intro Cons.IH) auto
  then show ?case using Cons.prems(1,2) kv by (auto simp: key_runs_same)
qed simp

lemma key_runs_start:
  assumes "distinct (map fst kvs)" "list_all (\<lambda>(key, vs). key \<noteq> [] \<and> vs \<noteq> []) kvs" "kvs \<noteq> []"
  shows "key_runs [] [] (concat (map (\<lambda>(key, vs). map (Pair key) vs) kvs)) = kvs"
proof -
  obtain k v vs kvs' where kvs: "kvs = (k, v # vs) # kvs'" using assms(2,3)
    by (cases kvs; cases "hd kvs") (auto simp: neq_Nil_conv)
  have "key_runs k ([v] @ vs) (concat (map (\<lambda>(key, vs). map (Pair key) vs) kvs')) = (k, [v] @ vs) # kvs'"
    using assms(1,2) kvs by (intro key_runs_groups) auto
  then show ?thesis using kvs by (simp add: key_runs_same)
qed

lemma sorted_index_searched:
  assumes "minimal_perfect cmph" "\<And>n. length (malloc n) = n" "value_kind_ok k" "storable (vk_traits k) kvs" "distinct (map fst kvs)"
    and "list_all (\<lambda>(key, vs). vs \<noteq> []) kvs" "kvs \<noteq> []" "length kvs < 10000000"
  shows "\<exists>si table ms b kus. obind (sorted_inserts k (new_sorted_input sorting) (concat (map (\<lambda>(key, vs). map (Pair key) vs) kvs))) (sorted_index k)
        = Some (Inr si)
    \<and> ix_key_count (si_stats si) = of_nat (length kvs) \<and> storage_close (si_storage si) = Some table
    \<and> build_big_map cmph malloc address_traits 6 parse_address dir_name [table] = Some (Inr ms)
    \<and> big_open num_bytes memory 6 ms = Inr b
    \<and> list_all2 (\<lambda>(key, us) (key', vs). key = key' \<and> sorted_as k sorting us vs) kvs kus
    \<and> (\<forall>key vs begin len. (key, vs) \<in> set kus \<longrightarrow>
        (\<exists>p p'. search_stored \<lparr>sr_table = Some (big_get address_traits 6 b), sr_files = st_files (si_storage si)\<rparr> key begin len = Some p
          \<and> pl_values (vk_traits k) p = Some (Inr (read_postlist vs begin len, p'))))
    \<and> (\<forall>key begin len. hash32 key \<notin> hash32 ` fst ` set kvs \<longrightarrow>
        search_stored \<lparr>sr_table = Some (big_get address_traits 6 b), sr_files = st_files (si_storage si)\<rparr> key begin len = None)"
proof -
  define t where "t = vk_traits k"
  have t: "traits_ok t" using assms(3) by (simp add: t_def value_kind_ok_def)
  let ?rs = "concat (map (\<lambda>(key, vs). map (Pair key) vs) kvs)"
  have pf: "list_all (\<lambda>(key, vs). plain_key key \<and> list_fits t vs) kvs" "sum_list (map (\<lambda>(key, vs). entry_room t vs) kvs) \<le> 2 ^ 44"
    using assms(4) by (simp_all add: storable_def t_def)
  have "list_all (\<lambda>(key, vs). key \<noteq> [] \<and> vs \<noteq> []) kvs" using pf(1) assms(6) by (fastforce simp: list_all_iff plain_key_def)
  then have ru: "key_runs [] [] ?rs = kvs" using key_runs_start [OF assms(5) _ assms(7)] by blast
  have pr: "list_all (\<lambda>(key, vs). plain_key key \<and> list_fits t vs) (key_runs [] [] ?rs)" unfolding ru by (rule pf(1))
  have bw: "bytes_written t [] + sum_list (map (\<lambda>(key, vs). entry_room t vs) (key_runs [] [] ?rs)) \<le> 2 ^ 44"
    using pf(2) unfolding ru by (simp add: bytes_written_def)
  obtain si es where si: "obind (sorted_inserts k (new_sorted_input sorting) ?rs) (sorted_index k) = Some (Inr si)"
      "writer_ok t ([] @ es) (si_storage si)" "list_all2 (run_stored k sorting) (key_runs [] [] ?rs) es"
      "ix_key_count (si_stats si) = of_nat (length ([] @ es))"
    using sorted_inserts_ok [OF assms(3) new_collecting, where rs = ?rs and sorting = sorting, folded t_def, OF disjI2 [OF refl] pr bw]
    by (elim exE conjE) (rule that)
  have l2: "list_all2 (run_stored k sorting) kvs es" using si(3) unfolding ru .
  note le = list_all2_lengthD [OF l2]
  define kus where "kus = map (\<lambda>(key, vs, a). (key, vs)) es"
  have st: "fst (es ! i) = fst (kvs ! i)" "sorted_as k sorting (snd (kvs ! i)) (fst (snd (es ! i)))" if "i < length kvs" for i
    using list_all2_nthD [OF l2 that] by (simp_all add: run_stored_def)
  have nth: "kus ! i = (fst (es ! i), fst (snd (es ! i)))" if "i < length kvs" for i
    using that le by (simp add: kus_def split: prod.split)
  have ok: "plain_key key \<and> list_fits t vs \<and> vs \<noteq> []" if x: "(key, vs) \<in> set kus" for key vs
  proof -
    obtain i where i: "i < length kvs" "kus ! i = (key, vs)" using x le by (auto simp: in_set_conv_nth kus_def)
    obtain key' us where ku: "kvs ! i = (key', us)" by (cases "kvs ! i")
    then have s: "key = key'" "sorted_as k sorting us vs" using st [OF i(1)] nth [OF i(1)] i(2) by simp_all
    have "(key', us) \<in> set kvs" using ku i(1) by (metis nth_mem)
    then have "plain_key key'" "list_fits t us" "us \<noteq> []" using pf(1) assms(6) by (auto simp: list_all_iff)
    then show ?thesis using s list_fits_mset [OF sorted_as_mset [OF s(2)]] sorted_as_mset [OF s(2)] by auto
  qed
  have "filter (\<lambda>(key, vs). vs \<noteq> []) kus = kus" using ok by (auto simp: filter_id_conv)
  then have f: "map (\<lambda>(key, vs, a). (key, vs)) es = filter (\<lambda>(key, vs). vs \<noteq> []) kus" by (simp only: kus_def)
  have la: "list_all (\<lambda>(key, vs). plain_key key \<and> list_fits t vs) kus" using ok by (auto simp: list_all_iff)
  have fk: "map fst kus = map fst kvs" using le st(1) nth by (intro nth_equalityI) (auto simp: kus_def)
  then have d: "distinct (map fst kus)" using assms(5) by simp
  have n: "es \<noteq> []" "length kus < 10000000" using le assms(7,8) by (auto simp: kus_def)
  obtain table ms b where b: "storage_close (si_storage si) = Some table"
      "build_big_map cmph malloc address_traits 6 parse_address dir_name [table] = Some (Inr ms)"
      "big_open num_bytes memory 6 ms = Inr b"
      "\<forall>key vs begin len. (key, vs) \<in> set kus \<longrightarrow> vs \<noteq> [] \<longrightarrow>
        (\<exists>p p'. search_stored \<lparr>sr_table = Some (big_get address_traits 6 b), sr_files = st_files (si_storage si)\<rparr> key begin len = Some p
          \<and> pl_values t p = Some (Inr (read_postlist vs begin len, p')))"
      "\<forall>key begin len. hash32 key \<notin> hash32 ` fst ` set kus \<longrightarrow>
        search_stored \<lparr>sr_table = Some (big_get address_traits 6 b), sr_files = st_files (si_storage si)\<rparr> key begin len = None"
    using stored_lists_searched [OF assms(1,2) t si(2) [unfolded append_Nil] f la d n] by blast
  have "list_all2 (\<lambda>(key, us) (key', vs). key = key' \<and> sorted_as k sorting us vs) kvs kus"
    using st nth le by (simp add: list_all2_conv_all_nth kus_def case_prod_beta)
  moreover have "ix_key_count (si_stats si) = of_nat (length kvs)" using si(4) le by simp
  moreover have "\<forall>key vs begin len. (key, vs) \<in> set kus \<longrightarrow>
      (\<exists>p p'. search_stored \<lparr>sr_table = Some (big_get address_traits 6 b), sr_files = st_files (si_storage si)\<rparr> key begin len = Some p
        \<and> pl_values t p = Some (Inr (read_postlist vs begin len, p')))" using b(4) ok by blast
  moreover have "\<forall>key begin len. hash32 key \<notin> hash32 ` fst ` set kvs \<longrightarrow>
      search_stored \<lparr>sr_table = Some (big_get address_traits 6 b), sr_files = st_files (si_storage si)\<rparr> key begin len = None"
    using b(5) arg_cong [OF fk, of set] by simp
  ultimately show ?thesis using si(1) b(1-3) unfolding t_def [symmetric] by blast
qed

text \<open>
  C13. Records that come grouped by key make the same index: every group becomes a posting list of its
  values in the configured order, the statistics count the keys and values, and the searcher finds the lists.
\<close>

theorem sorted_index_correct:
  assumes "minimal_perfect cmph" "\<And>n. length (malloc n) = n" "value_kind_ok k" "storable (vk_traits k) kvs" "distinct (map fst kvs)"
    and "list_all (\<lambda>(key, vs). vs \<noteq> []) kvs" "kvs \<noteq> []" "length kvs < 10000000"
  shows "\<exists>si table ms b. obind (sorted_inserts k (new_sorted_input sorting) (concat (map (\<lambda>(key, vs). map (Pair key) vs) kvs))) (sorted_index k)
        = Some (Inr si)
    \<and> ix_key_count (si_stats si) = of_nat (length kvs) \<and> storage_close (si_storage si) = Some table
    \<and> build_big_map cmph malloc address_traits 6 parse_address dir_name [table] = Some (Inr ms)
    \<and> big_open num_bytes memory 6 ms = Inr b
    \<and> (\<forall>(key, us) \<in> set kvs. \<exists>vs. sorted_as k sorting us vs
        \<and> (\<forall>begin len. \<exists>p p'. search_stored \<lparr>sr_table = Some (big_get address_traits 6 b), sr_files = st_files (si_storage si)\<rparr> key begin len = Some p
            \<and> pl_values (vk_traits k) p = Some (Inr (read_postlist vs begin len, p'))))"
proof -
  obtain si table ms b kus where x: "obind (sorted_inserts k (new_sorted_input sorting) (concat (map (\<lambda>(key, vs). map (Pair key) vs) kvs))) (sorted_index k)
        = Some (Inr si)"
      "ix_key_count (si_stats si) = of_nat (length kvs)" "storage_close (si_storage si) = Some table"
      "build_big_map cmph malloc address_traits 6 parse_address dir_name [table] = Some (Inr ms)"
      "big_open num_bytes memory 6 ms = Inr b"
      "list_all2 (\<lambda>(key, us) (key', vs). key = key' \<and> sorted_as k sorting us vs) kvs kus"
      "\<forall>key vs begin len. (key, vs) \<in> set kus \<longrightarrow>
        (\<exists>p p'. search_stored \<lparr>sr_table = Some (big_get address_traits 6 b), sr_files = st_files (si_storage si)\<rparr> key begin len = Some p
          \<and> pl_values (vk_traits k) p = Some (Inr (read_postlist vs begin len, p')))"
    using sorted_index_searched [OF assms, where sorting = sorting and dir_name = dir_name and num_bytes = num_bytes and memory = memory]
    by (elim exE conjE) (rule that)
  have "\<exists>vs. (key, vs) \<in> set kus \<and> sorted_as k sorting us vs" if "(key, us) \<in> set kvs" for key us
    using x(6) that
    by (induction kvs kus rule: list_all2_induct) (auto split: prod.splits)
  then have "\<exists>vs. sorted_as k sorting us vs
        \<and> (\<forall>begin len. \<exists>p p'. search_stored \<lparr>sr_table = Some (big_get address_traits 6 b), sr_files = st_files (si_storage si)\<rparr> key begin len = Some p
            \<and> pl_values (vk_traits k) p = Some (Inr (read_postlist vs begin len, p')))" if "(key, us) \<in> set kvs" for key us
    using x(7) that by blast
  then show ?thesis using x(1-5) by blast
qed

theorem sorted_index_correct_witness:
  "\<exists>si table ms b. obind (sorted_inserts pair_kind (new_sorted_input SortingAscending)
          (concat (map (\<lambda>(key, vs). map (Pair key) vs) ex_lists))) (sorted_index pair_kind) = Some (Inr si)
    \<and> ix_key_count (si_stats si) = of_nat (length ex_lists) \<and> storage_close (si_storage si) = Some table
    \<and> build_big_map numbering (\<lambda>k. replicate k 0) address_traits 6 parse_address ''index'' [table] = Some (Inr ms)
    \<and> big_open 10 1000 6 ms = Inr b
    \<and> (\<forall>(key, us) \<in> set ex_lists. \<exists>vs. sorted_as pair_kind SortingAscending us vs
        \<and> (\<forall>begin len. \<exists>p p'. search_stored \<lparr>sr_table = Some (big_get address_traits 6 b), sr_files = st_files (si_storage si)\<rparr> key begin len = Some p
            \<and> pl_values (vk_traits pair_kind) p = Some (Inr (read_postlist vs begin len, p'))))"
proof (rule sorted_index_correct [OF numbering_perfect _ pair_kind_ok])
  show "storable (vk_traits pair_kind) ex_lists" using ex_lists_storable by (simp add: pair_kind_def)
qed (simp_all add: ex_lists_def)

text \<open>The values of a first empty key go to the list of the next key.\<close>

lemma empty_key_values_moved:
  assumes "value_kind_ok k" "plain_key key" "list_fits (vk_traits k) (us @ vs)" "vs \<noteq> []" "entry_room (vk_traits k) (us @ vs) \<le> 2 ^ 44"
  shows "\<exists>si a. obind (sorted_inserts k (new_sorted_input SortingDisabled) (map (Pair []) us @ map (Pair key) vs)) (sorted_index k)
      = Some (Inr si) \<and> writer_ok (vk_traits k) [(key, us @ vs, a)] (si_storage si)"
proof -
  obtain v ws where vs: "vs = v # ws" using assms(4) by (cases vs) auto
  have "key_runs [] [] (map (Pair []) us @ map (Pair key) vs) = key_runs [] us (map (Pair key) vs)" by (simp add: key_runs_same)
  also have "\<dots> = key_runs key (us @ [v]) (map (Pair key) ws @ [])" by (simp add: vs)
  finally have ru: "key_runs [] [] (map (Pair []) us @ map (Pair key) vs) = [(key, us @ vs)]" unfolding key_runs_same by (simp add: vs)
  have "list_all (\<lambda>(key, vs). plain_key key \<and> list_fits (vk_traits k) vs) [(key, us @ vs)]" using assms(2,3) by simp
  moreover have "bytes_written (vk_traits k) [] + sum_list (map (\<lambda>(key, vs). entry_room (vk_traits k) vs) [(key, us @ vs)]) \<le> 2 ^ 44"
    using assms(5) by (simp add: bytes_written_def)
  ultimately obtain si es where "obind (sorted_inserts k (new_sorted_input SortingDisabled) (map (Pair []) us @ map (Pair key) vs)) (sorted_index k)
      = Some (Inr si)" "writer_ok (vk_traits k) ([] @ es) (si_storage si)" "list_all2 (run_stored k SortingDisabled) [(key, us @ vs)] es"
    using sorted_inserts_ok [OF assms(1) new_collecting, where rs = "map (Pair []) us @ map (Pair key) vs" and sorting = SortingDisabled, unfolded ru] by blast
  then show ?thesis by (fastforce simp: list_all2_Cons1 run_stored_def sorted_as_def)
qed

end
