(* ===== verification/Phrase_Index.thy ===== *)
theory Phrase_Index
  imports Index_Strategies
begin

text \<open>
  The phrase index: \<open>PhraseFileReader\<close> makes a record of every word of every phrase, \<open>Indexer\<close>
  and \<open>ManagedIndexer\<close> insert the records of the files of a directory, and \<open>BuildPhraseIndex\<close> of
  \<open>indexing.cpp\<close> configures them.  The estimate of the number of records, which is computed with floating
  point numbers, and the printing of values are parameters.
\<close>

section \<open>Reading records\<close>

record phrase_reader =
  pr_wordpos :: nat
  pr_item :: parser_item
  pr_parser :: phrase_parser

definition new_phrase_reader :: "parser_item \<Rightarrow> string \<Rightarrow> phrase_reader" where
  "new_phrase_reader item file = \<lparr>pr_wordpos = 0, pr_item = item\<lparr>pi_words := []\<rparr>, pr_parser = \<lparr>pp_rest = file, pp_id_offset = 0\<rparr>\<rparr>"

definition phrase_key :: "nat \<Rightarrow> nat \<Rightarrow> string \<Rightarrow> string" where
  "phrase_key n i w = show_nat n @ '':'' @ show_nat i @ ''_'' @ w"

definition word_record :: "parser_item \<Rightarrow> nat \<Rightarrow> string \<times> u32 \<times> u32" where
  "word_record item i = (phrase_key (length (pi_words item)) i (pi_words item ! i), (ucast (pi_freq item), pi_id item))"

definition reader_read :: "bool \<Rightarrow> phrase_reader \<Rightarrow> ((string \<times> u32 \<times> u32) option \<times> phrase_reader) result option" where
  "reader_read provides_id pr =
    obind
      (Some (if pi_words (pr_item pr) = [] \<or> length (pi_words (pr_item pr)) = pr_wordpos pr
             then rbind (read_next provides_id (pr_parser pr) (pr_item pr)) (\<lambda>(good, p, item).
                    Inr (good, \<lparr>pr_wordpos = (if good then 0 else pr_wordpos pr), pr_item = item, pr_parser = p\<rparr>))
             else Inr (True, pr)))
      (\<lambda>(good, pr).
        if \<not> good then Some (Inr (None, pr))
        else if length (pi_words (pr_item pr)) \<le> pr_wordpos pr then None
        else Some (Inr (Some (word_record (pr_item pr) (pr_wordpos pr)), pr\<lparr>pr_wordpos := pr_wordpos pr + 1\<rparr>)))"

section \<open>The indexer\<close>

datatype directory_state = Missing | NotDirectory | NotEmpty | EmptyDirectory

definition assert_config :: "string \<Rightarrow> directory_state \<Rightarrow> unit result" where
  "assert_config dir state =
    (case state of
       Missing \<Rightarrow> Inl (InvalidArgument (''Does not exist : '' @ dir))
     | NotDirectory \<Rightarrow> Inl (InvalidArgument (''Not a directory : '' @ dir))
     | NotEmpty \<Rightarrow> Inl (InvalidArgument (''Is not empty : '' @ dir))
     | EmptyDirectory \<Rightarrow> Inr ())"

definition record_text :: "('v \<Rightarrow> string) \<Rightarrow> string \<times> 'v \<Rightarrow> string result" where
  "record_text print_value r =
    (if tab \<in> set (fst r) then Inl (InvalidArgument (''std::string tuple element contains delimiter character : '' @ fst r))
     else Inr (fst r @ tab # print_value (snd r)))"

definition assert_record :: "'v value_traits \<Rightarrow> ('v \<Rightarrow> string) \<Rightarrow> string \<times> 'v \<Rightarrow> unit result" where
  "assert_record t print_value r =
    (if length (fst r) > 65535 then rbind (record_text print_value r) (\<lambda>s. Inl (InvalidArgument (''Too long key : '' @ s)))
     else if size_of t (snd r) > 65535 then rbind (record_text print_value r) (\<lambda>s. Inl (InvalidArgument (''Too long value : '' @ s)))
     else Inr ())"

text \<open>\<open>Indexer::index\<close>: the properties of an index; \<open>strncpy\<close> cuts the name of the type.\<close>

definition indexed_properties :: "string \<Rightarrow> value_sorting \<Rightarrow> index_stats \<Rightarrow> index_properties" where
  "indexed_properties type_name sorting s = \<lparr>ip_value_sorting = sorting, ip_version_number = k_version_number,
     ip_value_type = take 64 type_name, ip_value_count = ix_value_count s, ip_total_size = ix_total_size s,
     ip_key_count = ix_key_count s\<rparr>"

datatype 'v index_strategy = SortedRecords "'v sorted_input" | UnsortedRecords unsorted_input

definition new_indexer :: "string \<Rightarrow> directory_state \<Rightarrow> bool \<Rightarrow> value_sorting \<Rightarrow> memory_type \<Rightarrow> u64 \<Rightarrow> 'v index_strategy result" where
  "new_indexer dir state keys_sorted sorting mem expected =
    rbind (assert_config dir state) (\<lambda>_.
      Inr (if keys_sorted then SortedRecords (new_sorted_input sorting) else UnsortedRecords (new_unsorted_input sorting mem expected)))"

definition indexer_insert :: "'v value_kind \<Rightarrow> ('v \<Rightarrow> string) \<Rightarrow> (u8 list list \<Rightarrow> u8 list list) \<Rightarrow> (u64 \<Rightarrow> u64 \<Rightarrow> u64 \<Rightarrow> u64)
    \<Rightarrow> 'v index_strategy \<Rightarrow> string \<times> 'v \<Rightarrow> 'v index_strategy result option" where
  "indexer_insert k print_value dir_order expected_size ix r =
    obind (Some (assert_record (vk_traits k) print_value r)) (\<lambda>_.
      case ix of
        SortedRecords si \<Rightarrow> obind (sorted_insert k si r) (\<lambda>si. Some (Inr (SortedRecords si)))
      | UnsortedRecords ui \<Rightarrow> Some (Inr (UnsortedRecords (unsorted_insert (vk_traits k) dir_order expected_size r ui))))"

definition indexer_index :: "'v value_kind \<Rightarrow> string \<Rightarrow> (string list \<Rightarrow> string list) \<Rightarrow> (u8 list list \<Rightarrow> u8 list list)
    \<Rightarrow> 'v index_strategy \<Rightarrow> (index_properties \<times> storage_writer) result option" where
  "indexer_index k type_name key_order dir_order ix =
    (case ix of
       SortedRecords si \<Rightarrow> obind (sorted_index k si) (\<lambda>si.
         Some (Inr (indexed_properties type_name (si_sorting si) (si_stats si), si_storage si)))
     | UnsortedRecords ui \<Rightarrow> obind (unsorted_index k key_order dir_order ui) (\<lambda>(ui, st).
         Some (Inr (indexed_properties type_name (ui_sorting ui) (ui_stats ui), st))))"

section \<open>The managed indexer\<close>

text \<open>
  \<open>ManagedIndexer::index\<close> with the unsorted strategy.  An exception of \<open>insert\<close> is logged; the record is not
  counted.  After every ten millionth record the expected number is set anew, from the sizes of
  the input so far and of all input.
\<close>

record index_progress =
  ig_current_size :: u64
  ig_count :: u64
  ig_input :: unsorted_input

definition managed_insert :: "'v value_kind \<Rightarrow> ('v \<Rightarrow> string) \<Rightarrow> (u8 list list \<Rightarrow> u8 list list) \<Rightarrow> (u64 \<Rightarrow> u64 \<Rightarrow> u64 \<Rightarrow> u64)
    \<Rightarrow> (u64 \<Rightarrow> u64 \<Rightarrow> u64) \<Rightarrow> u64 \<Rightarrow> string \<times> 'v \<Rightarrow> index_progress \<Rightarrow> index_progress" where
  "managed_insert k print_value dir_order expected_size estimate tell r g =
    (case assert_record (vk_traits k) print_value r of
       Inl e \<Rightarrow> g
     | Inr _ \<Rightarrow>
         (let ui = unsorted_insert (vk_traits k) dir_order expected_size r (ig_input g);
              n = ig_count g + 1
          in g\<lparr>ig_count := n,
               ig_input := (if n mod 10000000 = 0 then set_expected_record_count (estimate (ig_current_size g + tell) n) ui else ui)\<rparr>))"

lemma reader_read_smaller:
  assumes "reader_read provides_id pr = Some (Inr (Some r, pr'))"
  shows "length (pp_rest (pr_parser pr')) < length (pp_rest (pr_parser pr))
    \<or> pr_parser pr' = pr_parser pr \<and> pr_item pr' = pr_item pr
      \<and> length (pi_words (pr_item pr')) - pr_wordpos pr' < length (pi_words (pr_item pr)) - pr_wordpos pr"
proof (cases "pi_words (pr_item pr) = [] \<or> length (pi_words (pr_item pr)) = pr_wordpos pr")
  case True
  show ?thesis
  proof (cases "read_next provides_id (pr_parser pr) (pr_item pr)")
    case (Inr y)
    obtain good p item where y: "y = (good, p, item)" by (cases y)
    then show ?thesis using assms True Inr read_next_shorter [of provides_id "pr_parser pr" "pr_item pr" good p item]
      by (auto simp: reader_read_def split: if_splits)
  qed (use assms True in \<open>simp add: reader_read_def\<close>)
next
  case False
  then show ?thesis using assms by (auto simp: reader_read_def split: if_splits)
qed

text \<open>
  The loop over a file; \<open>len\<close> is its length.  At its end the stream has failed and \<open>tellg\<close> is -1.
\<close>

function read_file :: "(u64 \<Rightarrow> string \<times> u32 \<times> u32 \<Rightarrow> index_progress \<Rightarrow> index_progress)
    \<Rightarrow> nat \<Rightarrow> phrase_reader \<Rightarrow> index_progress \<Rightarrow> index_progress result option" where
  "read_file ins len pr g =
    (case reader_read True pr of
       None \<Rightarrow> None
     | Some (Inl e) \<Rightarrow> Some (Inl e)
     | Some (Inr (None, pr)) \<Rightarrow> Some (Inr (g\<lparr>ig_current_size := ig_current_size g - 1\<rparr>))
     | Some (Inr (Some r, pr)) \<Rightarrow> read_file ins len pr (ins (of_nat (len - length (pp_rest (pr_parser pr)))) r g))"
  by pat_completeness auto
termination
  by (relation "measures [\<lambda>(i, l, pr, g). length (pp_rest (pr_parser pr)), \<lambda>(i, l, pr, g). length (pi_words (pr_item pr)) - pr_wordpos pr]")
    (auto dest: reader_read_smaller)

declare read_file.simps [simp del]

fun read_files :: "(u64 \<Rightarrow> string \<times> u32 \<times> u32 \<Rightarrow> index_progress \<Rightarrow> index_progress)
    \<Rightarrow> parser_item \<Rightarrow> string list \<Rightarrow> index_progress \<Rightarrow> index_progress result option" where
  "read_files ins item [] g = Some (Inr g)"
| "read_files ins item (file # files) g =
    obind (read_file ins (length file) (new_phrase_reader item file) g) (\<lambda>g. read_files ins item files g)"

definition managed_index :: "(u32 \<times> u32) value_kind \<Rightarrow> string \<Rightarrow> (u32 \<times> u32 \<Rightarrow> string) \<Rightarrow> (string list \<Rightarrow> string list)
    \<Rightarrow> (u8 list list \<Rightarrow> u8 list list) \<Rightarrow> (u64 \<Rightarrow> u64 \<Rightarrow> u64 \<Rightarrow> u64) \<Rightarrow> (u64 \<Rightarrow> u64 \<Rightarrow> u64 \<Rightarrow> u64) \<Rightarrow> parser_item
    \<Rightarrow> value_sorting \<Rightarrow> memory_type \<Rightarrow> u64 \<Rightarrow> string list \<Rightarrow> (index_properties \<times> storage_writer) result option" where
  "managed_index k type_name print_value key_order dir_order expected_size estimate item sorting mem expected files =
    (let total_size = of_nat (sum_list (map length files));
         ins = managed_insert k print_value dir_order expected_size (estimate total_size)
     in obind (read_files ins item files
                \<lparr>ig_current_size = 0, ig_count = 0, ig_input = new_unsorted_input sorting mem expected\<rparr>) (\<lambda>g.
          indexer_index k type_name key_order dir_order (UnsortedRecords (ig_input g))))"

text \<open>\<open>BuildPhraseIndex\<close>; \<open>srt\<close> is \<open>std::sort\<close> for the values, pairs of a frequency and an id.\<close>

definition phrase_kind :: "((u32 \<times> u32 \<Rightarrow> u32 \<times> u32 \<Rightarrow> bool) \<Rightarrow> (u32 \<times> u32) list \<Rightarrow> (u32 \<times> u32) list) \<Rightarrow> (u32 \<times> u32) value_kind" where
  "phrase_kind srt = \<lparr>vk_traits = pair_traits, vk_less = pair_less, vk_greater = pair_greater, vk_sort = srt\<rparr>"

definition print_pair :: "u32 \<times> u32 \<Rightarrow> string" where
  "print_pair v = show_nat (unat (fst v)) @ tab # show_nat (unat (snd v))"

definition build_phrase_index where
  "build_phrase_index srt key_order dir_order expected_size estimate item expected files =
    managed_index (phrase_kind srt) ''UIntUInt'' print_pair key_order dir_order expected_size estimate item
      SortingDescending Mb4096 expected files"

section \<open>The records of a file\<close>

definition item_records :: "parser_item \<Rightarrow> (string \<times> u32 \<times> u32) list" where
  "item_records item = map (word_record item) [0..<length (pi_words item)]"

definition plain_item :: "parser_item \<Rightarrow> bool" where
  "plain_item item \<longleftrightarrow> pi_words item \<noteq> [] \<and> list_all plain_word (pi_words item)"

text \<open>The insertion of good records, as long as there are fewer than ten million.\<close>

definition counts :: "(u64 \<Rightarrow> 'r \<Rightarrow> index_progress \<Rightarrow> index_progress) \<Rightarrow> ('r \<Rightarrow> bool) \<Rightarrow> ('r \<Rightarrow> unsorted_input \<Rightarrow> unsorted_input) \<Rightarrow> bool" where
  "counts ins ok f \<longleftrightarrow> (\<forall>tell r g. ok r \<longrightarrow> unat (ig_count g) < 9999999 \<longrightarrow>
    ins tell r g = g\<lparr>ig_count := ig_count g + 1, ig_input := f r (ig_input g)\<rparr>)"

lemma managed_insert_counts:
  "counts (managed_insert k print_value dir_order expected_size estimate)
    (\<lambda>r. assert_record (vk_traits k) print_value r = Inr ()) (unsorted_insert (vk_traits k) dir_order expected_size)"
proof -
  have "(n + 1) mod 10000000 \<noteq> 0" if "unat n < 9999999" for n :: u64
  proof -
    have "unat (n + 1) = unat n + 1" using that by (simp add: unat_plus_if_size word_size)
    then have "unat ((n + 1) mod 10000000) = unat n + 1" using that by (simp add: unat_mod)
    then show ?thesis by (metis Zero_not_Suc Suc_eq_plus1 unat_0)
  qed
  then show ?thesis by (simp add: counts_def managed_insert_def Let_def)
qed

lemma read_file_step:
  assumes "pi_words item \<noteq> []" "i < length (pi_words item)"
  shows "read_file ins len \<lparr>pr_wordpos = i, pr_item = item, pr_parser = p\<rparr> g
    = read_file ins len \<lparr>pr_wordpos = Suc i, pr_item = item, pr_parser = p\<rparr> (ins (of_nat (len - length (pp_rest p))) (word_record item i) g)"
  using assms by (subst read_file.simps) (simp add: reader_read_def)

lemma read_file_words:
  assumes "counts ins ok f" "pi_words item \<noteq> []" "i \<le> length (pi_words item)"
    and "list_all ok (map (word_record item) [i..<length (pi_words item)])"
    and "unat (ig_count g) + (length (pi_words item) - i) < 10000000"
  shows "read_file ins len \<lparr>pr_wordpos = i, pr_item = item, pr_parser = p\<rparr> g
    = read_file ins len \<lparr>pr_wordpos = length (pi_words item), pr_item = item, pr_parser = p\<rparr>
        (g\<lparr>ig_count := ig_count g + of_nat (length (pi_words item) - i),
           ig_input := fold f (map (word_record item) [i..<length (pi_words item)]) (ig_input g)\<rparr>)"
  using assms(3-)
proof (induction "length (pi_words item) - i" arbitrary: i g)
  case 0
  then show ?case by simp
next
  case (Suc n)
  have i: "i < length (pi_words item)" using Suc.hyps(2) by simp
  then have u: "[i..<length (pi_words item)] = i # [Suc i..<length (pi_words item)]" by (rule upt_conv_Cons)
  define g' where "g' = g\<lparr>ig_count := ig_count g + 1, ig_input := f (word_record item i) (ig_input g)\<rparr>"
  have ok: "ok (word_record item i)" using Suc.prems(2) u by simp
  have lt: "unat (ig_count g) < 9999999" using Suc.prems(3) i by linarith
  have "ins (of_nat (len - length (pp_rest p))) (word_record item i) g = g'"
    unfolding g'_def using assms(1) [unfolded counts_def, rule_format, OF ok lt] .
  then have s: "read_file ins len \<lparr>pr_wordpos = i, pr_item = item, pr_parser = p\<rparr> g
      = read_file ins len \<lparr>pr_wordpos = Suc i, pr_item = item, pr_parser = p\<rparr> g'"
    using read_file_step [OF assms(2) i] by simp
  have "unat (ig_count g') = unat (ig_count g) + 1" using Suc.prems(3) by (simp add: g'_def unat_plus_if_size word_size)
  then have "unat (ig_count g') + (length (pi_words item) - Suc i) < 10000000" using Suc.prems(3) i by linarith
  moreover have "list_all ok (map (word_record item) [Suc i..<length (pi_words item)])" using Suc.prems(2) u by simp
  moreover have "n = length (pi_words item) - Suc i" using Suc.hyps(2) by simp
  ultimately have "read_file ins len \<lparr>pr_wordpos = Suc i, pr_item = item, pr_parser = p\<rparr> g'
      = read_file ins len \<lparr>pr_wordpos = length (pi_words item), pr_item = item, pr_parser = p\<rparr>
        (g'\<lparr>ig_count := ig_count g' + of_nat (length (pi_words item) - Suc i),
           ig_input := fold f (map (word_record item) [Suc i..<length (pi_words item)]) (ig_input g')\<rparr>)"
    using Suc.hyps(1) i by simp
  moreover have "of_nat (length (pi_words item) - i) = (1 :: u64) + of_nat (length (pi_words item) - Suc i)"
    using Suc.hyps(2) i by (metis Suc_diff_Suc of_nat_Suc)
  ultimately show ?case unfolding s by (simp add: g'_def u ac_simps)
qed

lemma read_next_item:
  assumes "list_all plain_word (pi_words item)"
  shows "read_next True \<lparr>pp_rest = write_item True item @ rest, pp_id_offset = off\<rparr> old
    = Inr (True, \<lparr>pp_rest = rest, pp_id_offset = off\<rparr>, item)"
  using read_written_item [OF assms, of True old rest] by (simp add: read_next_def)

lemma read_next_end: "\<exists>item'. read_next True \<lparr>pp_rest = [], pp_id_offset = off\<rparr> old = Inr (False, \<lparr>pp_rest = [], pp_id_offset = off\<rparr>, item')"
  by (simp add: read_next_def read_item_def read_item_loop.simps getline_def Let_def)

lemma read_file_items:
  assumes "counts ins ok f" "list_all plain_item items" "list_all ok (concat (map item_records items))"
    and "pi_words item = [] \<or> length (pi_words item) = i"
    and "unat (ig_count g) + length (concat (map item_records items)) < 10000000"
  shows "\<exists>g'. read_file ins len \<lparr>pr_wordpos = i, pr_item = item,
        pr_parser = \<lparr>pp_rest = concat (map (write_item True) items), pp_id_offset = off\<rparr>\<rparr> g = Some (Inr g')
    \<and> ig_count g' = ig_count g + of_nat (length (concat (map item_records items)))
    \<and> ig_input g' = fold f (concat (map item_records items)) (ig_input g)"
  using assms(2-)
proof (induction items arbitrary: i item g)
  case Nil
  obtain item' where "read_next True \<lparr>pp_rest = [], pp_id_offset = off\<rparr> item = Inr (False, \<lparr>pp_rest = [], pp_id_offset = off\<rparr>, item')"
    using read_next_end by blast
  then have "reader_read True \<lparr>pr_wordpos = i, pr_item = item, pr_parser = \<lparr>pp_rest = [], pp_id_offset = off\<rparr>\<rparr>
      = Some (Inr (None, \<lparr>pr_wordpos = i, pr_item = item', pr_parser = \<lparr>pp_rest = [], pp_id_offset = off\<rparr>\<rparr>))"
    using Nil.prems(3) by (simp add: reader_read_def)
  then show ?case by (simp add: read_file.simps)
next
  case (Cons it items)
  let ?n = "length (pi_words it)"
  let ?p = "\<lparr>pp_rest = concat (map (write_item True) items), pp_id_offset = off\<rparr>"
  have w: "pi_words it \<noteq> []" "list_all plain_word (pi_words it)" using Cons.prems(1) by (simp_all add: plain_item_def)
  have n: "length (item_records it) = ?n" by (simp add: item_records_def)
  have "reader_read True \<lparr>pr_wordpos = i, pr_item = item, pr_parser = \<lparr>pp_rest = write_item True it @ pp_rest ?p, pp_id_offset = off\<rparr>\<rparr>
      = reader_read True \<lparr>pr_wordpos = 0, pr_item = it, pr_parser = ?p\<rparr>"
    using Cons.prems(3) read_next_item [OF w(2)] w(1) by (simp add: reader_read_def)
  then have 1: "read_file ins len \<lparr>pr_wordpos = i, pr_item = item, pr_parser = \<lparr>pp_rest = write_item True it @ pp_rest ?p, pp_id_offset = off\<rparr>\<rparr> g
      = read_file ins len \<lparr>pr_wordpos = 0, pr_item = it, pr_parser = ?p\<rparr> g"
    by (subst (1 2) read_file.simps) (simp only:)
  define g1 where "g1 = g\<lparr>ig_count := ig_count g + of_nat ?n, ig_input := fold f (item_records it) (ig_input g)\<rparr>"
  have 2: "read_file ins len \<lparr>pr_wordpos = 0, pr_item = it, pr_parser = ?p\<rparr> g
      = read_file ins len \<lparr>pr_wordpos = ?n, pr_item = it, pr_parser = ?p\<rparr> g1"
    using read_file_words [OF assms(1) w(1), of 0 g] Cons.prems(2,4) n by (simp add: g1_def item_records_def)
  have "unat (ig_count g1) = unat (ig_count g) + ?n"
  proof -
    have "unat (of_nat ?n :: u64) = ?n" using Cons.prems(4) n by (intro unat_of_nat_u64) simp
    then show ?thesis using Cons.prems(4) n by (simp add: g1_def unat_plus_if_size word_size)
  qed
  then have "unat (ig_count g1) + length (concat (map item_records items)) < 10000000" using Cons.prems(4) n by simp
  moreover have "list_all plain_item items" "list_all ok (concat (map item_records items))" using Cons.prems(1,2) by simp_all
  ultimately obtain g' where "read_file ins len \<lparr>pr_wordpos = ?n, pr_item = it, pr_parser = ?p\<rparr> g1 = Some (Inr g')"
      "ig_count g' = ig_count g1 + of_nat (length (concat (map item_records items)))"
      "ig_input g' = fold f (concat (map item_records items)) (ig_input g1)"
    using Cons.IH [of it ?n g1] by blast
  then show ?case using 1 2 n by (intro exI [of _ g']) (simp add: g1_def)
qed

lemma read_files_items:
  assumes "counts ins ok f" "list_all plain_item (concat itemss)" "list_all ok (concat (map item_records (concat itemss)))"
    and "unat (ig_count g) + length (concat (map item_records (concat itemss))) < 10000000"
  shows "\<exists>g'. read_files ins item (map (\<lambda>items. concat (map (write_item True) items)) itemss) g = Some (Inr g')
    \<and> ig_input g' = fold f (concat (map item_records (concat itemss))) (ig_input g)"
  using assms(2-)
proof (induction itemss arbitrary: g)
  case (Cons items itemss)
  let ?file = "concat (map (write_item True) items)" and ?n = "length (concat (map item_records items))"
  have a: "list_all plain_item items" "list_all ok (concat (map item_records items))" using Cons.prems(1,2) by simp_all
  have l: "unat (ig_count g) + ?n < 10000000" using Cons.prems(3) by simp
  obtain g1 where g1: "read_file ins (length ?file) (new_phrase_reader item ?file) g = Some (Inr g1)"
      "ig_count g1 = ig_count g + of_nat ?n" "ig_input g1 = fold f (concat (map item_records items)) (ig_input g)"
    using read_file_items [OF assms(1) a, of "item\<lparr>pi_words := []\<rparr>" 0 g] l unfolding new_phrase_reader_def by auto
  have "unat (of_nat ?n :: u64) = ?n" using l by (intro unat_of_nat_u64) simp
  then have "unat (ig_count g1) = unat (ig_count g) + ?n" using l by (simp add: g1(2) unat_plus_if_size word_size)
  then have "unat (ig_count g1) + length (concat (map item_records (concat itemss))) < 10000000" using Cons.prems(3) by simp
  moreover have "list_all plain_item (concat itemss)" "list_all ok (concat (map item_records (concat itemss)))"
    using Cons.prems(1,2) by simp_all
  ultimately obtain g' where "read_files ins item (map (\<lambda>items. concat (map (write_item True) items)) itemss) g1 = Some (Inr g')"
      "ig_input g' = fold f (concat (map item_records (concat itemss))) (ig_input g1)"
    using Cons.IH by blast
  then show ?case using g1 by simp
qed simp

section \<open>The values of a key\<close>

text \<open>The phrases of \<open>n\<close> words with the word \<open>w\<close> at position \<open>i\<close>.\<close>

definition phrase_values :: "nat \<Rightarrow> nat \<Rightarrow> string \<Rightarrow> parser_item list \<Rightarrow> (u32 \<times> u32) list" where
  "phrase_values n i w items = map (\<lambda>item. (ucast (pi_freq item), pi_id item))
     (filter (\<lambda>item. length (pi_words item) = n \<and> i < n \<and> pi_words item ! i = w) items)"

lemma phrase_key_inj: "phrase_key n i w = phrase_key n' i' w' \<longleftrightarrow> n = n' \<and> i = i' \<and> w = w'"
proof
  assume e: "phrase_key n i w = phrase_key n' i' w'"
  have d: "\<not> digit CHR '':''" "\<not> digit CHR ''_''" by (simp_all add: digit_def)
  have "show_nat n @ CHR '':'' # (show_nat i @ CHR ''_'' # w) = show_nat n' @ CHR '':'' # (show_nat i' @ CHR ''_'' # w')"
    using e by (simp add: phrase_key_def)
  from digits_prefix [OF show_nat_digits show_nat_digits d(1) d(1) this]
  have 1: "show_nat n = show_nat n'" "show_nat i @ CHR ''_'' # w = show_nat i' @ CHR ''_'' # w'" by simp_all
  from digits_prefix [OF show_nat_digits show_nat_digits d(2) d(2) 1(2)] show "n = n' \<and> i = i' \<and> w = w'"
    using 1(1) show_nat_inj by blast
qed simp

lemma filter_one: "filter (\<lambda>j. j = i \<and> P) [0..<n] = (if i < n \<and> P then [i] else [])"
  by (induction n) auto

lemma item_values: "values_of (phrase_key n i w) (item_records item) = phrase_values n i w [item]"
proof -
  have "filter (\<lambda>j. phrase_key (length (pi_words item)) j (pi_words item ! j) = phrase_key n i w) [0..<length (pi_words item)]
      = filter (\<lambda>j. j = i \<and> length (pi_words item) = n \<and> pi_words item ! i = w) [0..<length (pi_words item)]"
    by (rule filter_cong) (auto simp: phrase_key_inj)
  then show ?thesis
    by (simp add: values_of_def item_records_def filter_map comp_def word_record_def filter_one phrase_values_def)
qed

lemma records_values: "values_of (phrase_key n i w) (concat (map item_records items)) = phrase_values n i w items"
proof (induction items)
  case Nil
  then show ?case by (simp add: phrase_values_def)
next
  case (Cons item items)
  have "phrase_values n i w (item # items) = phrase_values n i w [item] @ phrase_values n i w items" by (simp add: phrase_values_def)
  then show ?case using Cons item_values by simp
qed

lemma record_keys: "r \<in> set (concat (map item_records items)) \<Longrightarrow>
  \<exists>item i. item \<in> set items \<and> i < length (pi_words item) \<and> r = word_record item i"
  by (auto simp: item_records_def) blast

lemma list_fits_pairs: "length vs < 10000000 \<Longrightarrow> list_fits pair_traits vs"
proof -
  assume l: "length vs < 10000000"
  have "length (bytes_of_values pair_traits vs) = 8 * length vs"
    by (induction vs) (simp_all add: bytes_of_values_def pair_traits_def pair_put_def)
  then show ?thesis using l
    by (auto simp: list_fits_def values_fit_def swap_pagesize_def pair_traits_def pair_put_def size_of_def list_all_iff)
qed

lemma plain_phrase_key: "plain_word w \<Longrightarrow> plain_key (phrase_key n i w)"
proof -
  assume "plain_word w"
  then have "tab \<notin> set w" "line_end \<notin> set w" using white_space_chars by (auto simp: plain_word_def list_all_iff)
  moreover have "tab \<noteq> CHR '':''" "line_end \<noteq> CHR '':''" "tab \<noteq> CHR ''_''" "line_end \<noteq> CHR ''_''"
    by (simp_all add: tab_def line_end_def)
  ultimately show ?thesis using digits_no_end [OF show_nat_digits, of n] digits_no_end [OF show_nat_digits, of i] show_nat_nonempty [of n]
    by (auto simp: plain_key_def phrase_key_def)
qed

text \<open>The files of a phrase corpus: plain items, keys that fit, and fewer than ten million records.\<close>

definition corpus_records :: "parser_item list list \<Rightarrow> (string \<times> u32 \<times> u32) list" where
  "corpus_records itemss = concat (map item_records (concat itemss))"

definition indexable :: "parser_item list list \<Rightarrow> bool" where
  "indexable itemss \<longleftrightarrow> list_all plain_item (concat itemss) \<and> concat itemss \<noteq> []
    \<and> list_all (\<lambda>r. length (fst r) < 2 ^ 16) (corpus_records itemss) \<and> length (corpus_records itemss) < 10000000"

lemma pair_value_size [simp]: "size_of pair_traits v = 8"
  by (simp add: pair_traits_def pair_put_def size_of_def)

lemma indexable_records:
  assumes "indexable itemss"
  shows "index_records pair_traits (corpus_records itemss)" "list_fits pair_traits (values_of key (corpus_records itemss))"
    "sum_list (map (record_room pair_traits) (corpus_records itemss)) \<le> 2 ^ 44" "corpus_records itemss \<noteq> []"
    "list_all (\<lambda>r. assert_record pair_traits print_value r = Inr ()) (corpus_records itemss)"
proof -
  have a: "list_all plain_item (concat itemss)" "concat itemss \<noteq> []" "list_all (\<lambda>r. length (fst r) < 2 ^ 16) (corpus_records itemss)"
      "length (corpus_records itemss) < 10000000" using assms by (simp_all add: indexable_def)
  have "record_ok pair_traits r \<and> plain_key (fst r)" if r: "r \<in> set (corpus_records itemss)" for r
  proof -
    obtain item i where i: "item \<in> set (concat itemss)" "i < length (pi_words item)" "r = word_record item i"
      using record_keys [OF r [unfolded corpus_records_def]] by blast
    then have "plain_item item" using a(1) unfolding list_all_iff by blast
    then have "plain_word (pi_words item ! i)" using i(2) by (simp add: plain_item_def list_all_length)
    moreover have "length (fst r) < 2 ^ 16" using a(3) r unfolding list_all_iff by blast
    ultimately show ?thesis using plain_phrase_key by (simp add: record_ok_def i(3) word_record_def)
  qed
  then show "index_records pair_traits (corpus_records itemss)" by (simp add: index_records_def list_all_iff)
  have "length (values_of key (corpus_records itemss)) \<le> length (corpus_records itemss)" by (simp add: values_of_def)
  then show "list_fits pair_traits (values_of key (corpus_records itemss))" using a(4) by (intro list_fits_pairs) linarith
  have "sum_list (map (record_room pair_traits) rs) = 24 * length rs" for rs by (induction rs) (simp_all add: record_room_def)
  then show "sum_list (map (record_room pair_traits) (corpus_records itemss)) \<le> 2 ^ 44" using a(4) by simp
  obtain item where "item \<in> set (concat itemss)" using a(2) by (meson list.set_sel(1))
  moreover from this have "item_records item \<noteq> []" using a(1) by (auto simp: list_all_iff plain_item_def item_records_def)
  ultimately show "corpus_records itemss \<noteq> []" by (auto simp: corpus_records_def)
  show "list_all (\<lambda>r. assert_record pair_traits print_value r = Inr ()) (corpus_records itemss)"
    using a(3) by (auto simp: list_all_iff assert_record_def)
qed

lemma phrase_kind_ok:
  assumes "std_sorts srt pair_less" "std_sorts srt pair_greater"
  shows "value_kind_ok (phrase_kind srt)" "vk_traits (phrase_kind srt) = pair_traits" "vk_greater (phrase_kind srt) = pair_greater"
  using assms by (simp_all add: value_kind_ok_def phrase_kind_def pair_traits_ok pair_orders)

lemma searcher_opened:
  assumes "ip_version_number props = k_version_number" "ip_value_type props = type_name" "ip_key_count props \<noteq> 0"
  shows "searcher_open type_name props (Inr get) files closed_storage = Inr \<lparr>sr_table = Some get, sr_files = files\<rparr>"
  using assms by (simp add: searcher_open_def assert_properties_def storage_open_def storage_is_open_def closed_storage_def)

text \<open>An opened searcher that answers for the lists of an index.\<close>

definition answers :: "'v value_traits \<Rightarrow> (string \<times> 'v list) list \<Rightarrow> storage_reader \<Rightarrow> bool" where
  "answers t kvs sr \<longleftrightarrow>
    (\<forall>key vs begin len. (key, vs) \<in> set kvs \<longrightarrow>
      (\<exists>p p'. search_stored sr key begin len = Some p \<and> pl_values t p = Some (Inr (read_postlist vs begin len, p'))))
    \<and> (\<forall>key begin len. hash32 key \<notin> hash32 ` fst ` set kvs \<longrightarrow> search_stored sr key begin len = None)"

text \<open>The phrase index is opened: its header map is built of the table of the storage.\<close>

definition open_phrase_index :: "(string list \<Rightarrow> mphf option) \<Rightarrow> (nat \<Rightarrow> u8 list) \<Rightarrow> string \<Rightarrow> nat \<Rightarrow> nat
    \<Rightarrow> index_properties \<times> storage_writer \<Rightarrow> storage_reader result option" where
  "open_phrase_index cmph malloc table_dir num_bytes memory idx =
    (case storage_close (snd idx) of
       None \<Rightarrow> Some (searcher_open ''UIntUInt'' (fst idx) (Inl (RuntimeError (''Cannot open : '' @ [CHR 0x22] @ table_dir @ ''/map.idx'' @ [CHR 0x22]))) (st_files (snd idx)) closed_storage)
     | Some table \<Rightarrow>
         obind (build_big_map cmph malloc address_traits 6 parse_address (table_dir @ ''/phrase-index'') [table]) (\<lambda>ms.
           Some (searcher_open ''UIntUInt'' (fst idx)
             (rbind (big_open num_bytes memory 6 ms) (\<lambda>b. Inr (big_get address_traits 6 b))) (st_files (snd idx)) closed_storage)))"

lemma open_built_index:
  assumes "storage_close (snd idx) = Some table" "ip_version_number (fst idx) = k_version_number"
    and "ip_value_type (fst idx) = ''UIntUInt''" "ip_key_count (fst idx) \<noteq> 0"
    and "build_big_map cmph malloc address_traits 6 parse_address (table_dir @ ''/phrase-index'') [table] = Some (Inr ms)"
    and "big_open num_bytes memory 6 ms = Inr b"
  shows "open_phrase_index cmph malloc table_dir num_bytes memory idx
    = Some (Inr \<lparr>sr_table = Some (big_get address_traits 6 b), sr_files = st_files (snd idx)\<rparr>)"
  using assms searcher_opened [of "fst idx" "''UIntUInt''"] by (simp add: open_phrase_index_def)

lemma phrase_index_answers:
  assumes "minimal_perfect cmph" "\<And>n. length (malloc n) = n" "std_sorts srt pair_less" "std_sorts srt pair_greater"
    and "permuting key_order" "permuting dir_order" "indexable itemss"
  shows "\<exists>idx kvs table. build_phrase_index srt key_order dir_order expected_size estimate item expected
        (map (\<lambda>items. concat (map (write_item True) items)) itemss) = Some (Inr idx)
    \<and> ip_value_count (fst idx) = of_nat (length (corpus_records itemss))
    \<and> indexes_records (phrase_kind srt) SortingDescending (corpus_records itemss) kvs
    \<and> storage_close (snd idx) = Some table \<and> lists_keys table (map fst kvs)
    \<and> (\<forall>table_dir num_bytes memory. \<exists>sr.
        open_phrase_index cmph malloc table_dir num_bytes memory idx = Some (Inr sr) \<and> answers pair_traits kvs sr)"
proof -
  let ?k = "phrase_kind srt" and ?rs = "corpus_records itemss"
  let ?files = "map (\<lambda>items. concat (map (write_item True) items)) itemss"
  note pk = phrase_kind_ok [OF assms(3,4)]
  note r = indexable_records [OF assms(7)]
  have a: "list_all plain_item (concat itemss)" "length ?rs < 10000000" using assms(7) by (simp_all add: indexable_def)
  define total where "total = (of_nat (sum_list (map length ?files)) :: u64)"
  define ins where "ins = managed_insert ?k print_pair dir_order expected_size (estimate total)"
  let ?g = "\<lparr>ig_current_size = 0, ig_count = 0, ig_input = new_unsorted_input SortingDescending Mb4096 expected\<rparr>"
  have c: "counts ins (\<lambda>r. assert_record pair_traits print_pair r = Inr ()) (unsorted_insert pair_traits dir_order expected_size)"
    using managed_insert_counts [of ?k print_pair dir_order expected_size "estimate total"] by (simp add: ins_def pk(2))
  obtain g where g: "read_files ins item ?files ?g = Some (Inr g)"
      "ig_input g = fold (unsorted_insert pair_traits dir_order expected_size) ?rs (new_unsorted_input SortingDescending Mb4096 expected)"
    using read_files_items [OF c a(1), of ?g item] r(5) a(2) unfolding corpus_records_def by auto
  obtain ui st table kvs where u: "unsorted_index ?k key_order dir_order (ig_input g) = Some (Inr (ui, st))"
      "storage_close st = Some table" "lists_keys table (map fst kvs)"
      "ix_key_count (ui_stats ui) = of_nat (length kvs)" "ix_value_count (ui_stats ui) = of_nat (length ?rs)"
      "indexes_records ?k SortingDescending ?rs kvs"
      "\<forall>dir_name num_bytes memory. \<exists>ms b.
        build_big_map cmph malloc address_traits 6 parse_address dir_name [table] = Some (Inr ms)
      \<and> big_open num_bytes memory 6 ms = Inr b
      \<and> (\<forall>key vs begin len. (key, vs) \<in> set kvs \<longrightarrow>
          (\<exists>p p'. search_stored \<lparr>sr_table = Some (big_get address_traits 6 b), sr_files = st_files st\<rparr> key begin len = Some p
            \<and> pl_values pair_traits p = Some (Inr (read_postlist vs begin len, p'))))
      \<and> (\<forall>key begin len. hash32 key \<notin> hash32 ` fst ` set kvs \<longrightarrow>
          search_stored \<lparr>sr_table = Some (big_get address_traits 6 b), sr_files = st_files st\<rparr> key begin len = None)"
    using unsorted_index_searched [OF assms(1,2) pk(1) assms(5,6), where sorting = SortingDescending and mem = Mb4096 and expected = expected
        and expected_size = expected_size and rs = ?rs, unfolded pk(2), OF r(1-4) a(2), folded g(2)]
    by (elim exE conjE) (rule that)
  define idx where "idx = (indexed_properties ''UIntUInt'' (ui_sorting ui) (ui_stats ui), st)"
  have n: "length kvs \<le> length ?rs" by (rule indexed_length [OF u(6)])
  have "set (map fst kvs) = fst ` set ?rs" using u(6) by (simp only: indexes_records_def)
  then have "kvs \<noteq> []" using r(4) by auto
  moreover have "unat (of_nat (length kvs) :: u64) = length kvs" using n a(2) by (intro unat_of_nat_u64) simp
  ultimately have kc: "ip_key_count (fst idx) \<noteq> 0" using u(4) by (auto simp: idx_def indexed_properties_def)
  have "\<exists>sr. open_phrase_index cmph malloc table_dir num_bytes memory idx = Some (Inr sr) \<and> answers pair_traits kvs sr"
    for table_dir num_bytes memory
  proof -
    let ?dir = "table_dir @ ''/phrase-index''"
    obtain ms b where b: "build_big_map cmph malloc address_traits 6 parse_address ?dir [table] = Some (Inr ms)"
        "big_open num_bytes memory 6 ms = Inr b"
        "\<forall>key vs begin len. (key, vs) \<in> set kvs \<longrightarrow>
          (\<exists>p p'. search_stored \<lparr>sr_table = Some (big_get address_traits 6 b), sr_files = st_files st\<rparr> key begin len = Some p
            \<and> pl_values pair_traits p = Some (Inr (read_postlist vs begin len, p')))"
        "\<forall>key begin len. hash32 key \<notin> hash32 ` fst ` set kvs \<longrightarrow>
          search_stored \<lparr>sr_table = Some (big_get address_traits 6 b), sr_files = st_files st\<rparr> key begin len = None"
      using u(7) [rule_format, of ?dir num_bytes memory] by (elim exE conjE) (rule that)
    have "open_phrase_index cmph malloc table_dir num_bytes memory idx
        = Some (Inr \<lparr>sr_table = Some (big_get address_traits 6 b), sr_files = st_files (snd idx)\<rparr>)"
      using open_built_index [of idx table, OF _ _ _ kc b(1,2)] u(2) by (simp add: idx_def indexed_properties_def)
    moreover have "answers pair_traits kvs \<lparr>sr_table = Some (big_get address_traits 6 b), sr_files = st_files (snd idx)\<rparr>"
      unfolding answers_def idx_def snd_conv using b(3,4) by blast
    ultimately show ?thesis by blast
  qed
  moreover have "build_phrase_index srt key_order dir_order expected_size estimate item expected ?files = Some (Inr idx)"
    unfolding build_phrase_index_def managed_index_def Let_def total_def [symmetric] ins_def [symmetric] g(1)
    using u(1) by (simp add: indexer_index_def idx_def)
  moreover have "ip_value_count (fst idx) = of_nat (length ?rs)" using u(5) by (simp add: idx_def indexed_properties_def)
  moreover have "storage_close (snd idx) = Some table" using u(2) by (simp add: idx_def)
  ultimately show ?thesis using u(3,6) by blast
qed

lemma indexed_phrase:
  assumes "indexes_records (phrase_kind srt) SortingDescending (corpus_records itemss) kvs"
    and "phrase_values n i w (concat itemss) \<noteq> []"
  shows "\<exists>vs. (phrase_key n i w, vs) \<in> set kvs \<and> mset vs = mset (phrase_values n i w (concat itemss)) \<and> in_order pair_greater vs"
proof -
  have v: "values_of (phrase_key n i w) (corpus_records itemss) = phrase_values n i w (concat itemss)"
    unfolding corpus_records_def by (rule records_values)
  then have "phrase_key n i w \<in> fst ` set (corpus_records itemss)" using assms(2) values_of_Nil by metis
  from indexed_entry [OF assms(1) this] show ?thesis unfolding v by (auto simp: sorted_as_def phrase_kind_def)
qed

text \<open>
  C11. The phrase index from end to end: the phrase files that \<open>BuildPhraseCorpus\<close> has written are read
  back word by word and indexed; when the index is opened, the searcher finds under every key
  \<open>n:i_w\<close> the frequencies and ids of exactly the phrases of \<open>n\<close> words with the word \<open>w\<close> at position \<open>i\<close>,
  by decreasing frequency.  Frequencies are cut to 32 bits.
\<close>

theorem phrase_index_correct:
  assumes "minimal_perfect cmph" "\<And>n. length (malloc n) = n" "std_sorts srt pair_less" "std_sorts srt pair_greater"
    and "permuting key_order" "permuting dir_order" "indexable itemss"
  shows "\<exists>idx sr. build_phrase_index srt key_order dir_order expected_size estimate item expected
        (map (\<lambda>items. concat (map (write_item True) items)) itemss) = Some (Inr idx)
    \<and> open_phrase_index cmph malloc table_dir num_bytes memory idx = Some (Inr sr)
    \<and> ip_value_count (fst idx) = of_nat (length (corpus_records itemss))
    \<and> (\<forall>n i w. phrase_values n i w (concat itemss) \<noteq> [] \<longrightarrow>
        (\<exists>vs. mset vs = mset (phrase_values n i w (concat itemss)) \<and> in_order pair_greater vs
          \<and> (\<forall>begin len. \<exists>p p'. search_stored sr (phrase_key n i w) begin len = Some p
              \<and> pl_values pair_traits p = Some (Inr (read_postlist vs begin len, p')))))"
proof -
  obtain idx sr kvs where x: "build_phrase_index srt key_order dir_order expected_size estimate item expected
        (map (\<lambda>items. concat (map (write_item True) items)) itemss) = Some (Inr idx)"
      "open_phrase_index cmph malloc table_dir num_bytes memory idx = Some (Inr sr)"
      "ip_value_count (fst idx) = of_nat (length (corpus_records itemss))"
      "indexes_records (phrase_kind srt) SortingDescending (corpus_records itemss) kvs" "answers pair_traits kvs sr"
    using phrase_index_answers [OF assms, of expected_size estimate item expected] by blast
  have "\<exists>vs. mset vs = mset (phrase_values n i w (concat itemss)) \<and> in_order pair_greater vs
          \<and> (\<forall>begin len. \<exists>p p'. search_stored sr (phrase_key n i w) begin len = Some p
              \<and> pl_values pair_traits p = Some (Inr (read_postlist vs begin len, p')))"
    if ne: "phrase_values n i w (concat itemss) \<noteq> []" for n i w
  proof -
    obtain vs where vs: "(phrase_key n i w, vs) \<in> set kvs" "mset vs = mset (phrase_values n i w (concat itemss))"
        "in_order pair_greater vs" using indexed_phrase [OF x(4) ne] by blast
    then show ?thesis using x(5) unfolding answers_def by blast
  qed
  then show ?thesis using x(1-3) by blast
qed

text \<open>The files of two bigrams and of two trigrams.\<close>

definition ex_phrase_files :: "parser_item list list" where
  "ex_phrase_files =
    [[\<lparr>pi_id = 0, pi_freq = 7, pi_words = [''big'', ''cat'']\<rparr>, \<lparr>pi_id = 1, pi_freq = 9, pi_words = [''big'', ''dog'']\<rparr>],
     [\<lparr>pi_id = 0, pi_freq = 5, pi_words = [''the'', ''big'', ''cat'']\<rparr>, \<lparr>pi_id = 1, pi_freq = 6, pi_words = [''the'', ''old'', ''cat'']\<rparr>]]"

lemma ex_phrase_files_ok: "indexable ex_phrase_files"
proof -
  have 1: "list_all plain_item (concat ex_phrase_files)" by code_simp
  have d: "show_nat 0 = ''0''" "show_nat (Suc 0) = ''1''" "show_nat 2 = ''2''" "show_nat (Suc (Suc 0)) = ''2''" "show_nat (Suc (Suc (Suc 0))) = ''3''"
    by code_simp+
  have "map fst (corpus_records ex_phrase_files) = [''2:0_big'', ''2:1_cat'', ''2:0_big'', ''2:1_dog'',
      ''3:0_the'', ''3:1_big'', ''3:2_cat'', ''3:0_the'', ''3:1_old'', ''3:2_cat'']"
    by (simp add: corpus_records_def ex_phrase_files_def item_records_def word_record_def phrase_key_def d)
  note k = this
  have "length (corpus_records ex_phrase_files) = 10" using arg_cong [OF k, of length] by simp
  moreover have "length (fst r) = 7" if "r \<in> set (corpus_records ex_phrase_files)" for r
  proof -
    have "fst r \<in> set (map fst (corpus_records ex_phrase_files))" using that by simp
    then show ?thesis unfolding k by auto
  qed
  ultimately show ?thesis using 1 by (auto simp: indexable_def list_all_iff) (simp_all add: ex_phrase_files_def)
qed

theorem phrase_index_correct_witness:
  "\<exists>idx sr vs. build_phrase_index stable_sort rev rev (\<lambda>a b c. a) (\<lambda>a b c. b) ex_old_item 10
        (map (\<lambda>items. concat (map (write_item True) items)) ex_phrase_files) = Some (Inr idx)
    \<and> open_phrase_index numbering (\<lambda>k. replicate k 0) ''phrase-index/table'' 10 1000 idx = Some (Inr sr)
    \<and> ip_value_count (fst idx) = of_nat (length (corpus_records ex_phrase_files))
    \<and> mset vs = {#(7, 0), (9, 1)#} \<and> in_order pair_greater vs
    \<and> (\<forall>begin len. \<exists>p p'. search_stored sr (phrase_key 2 0 ''big'') begin len = Some p
              \<and> pl_values pair_traits p = Some (Inr (read_postlist vs begin len, p')))"
proof -
  have v: "phrase_values 2 0 ''big'' (concat ex_phrase_files) = [(7, 0), (9, 1)]" by code_simp
  obtain idx sr where x: "build_phrase_index stable_sort rev rev (\<lambda>a b c. a) (\<lambda>a b c. b) ex_old_item 10
        (map (\<lambda>items. concat (map (write_item True) items)) ex_phrase_files) = Some (Inr idx)"
      "open_phrase_index numbering (\<lambda>k. replicate k 0) ''phrase-index/table'' 10 1000 idx = Some (Inr sr)"
      "ip_value_count (fst idx) = of_nat (length (corpus_records ex_phrase_files))"
      "\<forall>n i w. phrase_values n i w (concat ex_phrase_files) \<noteq> [] \<longrightarrow>
        (\<exists>vs. mset vs = mset (phrase_values n i w (concat ex_phrase_files)) \<and> in_order pair_greater vs
          \<and> (\<forall>begin len. \<exists>p p'. search_stored sr (phrase_key n i w) begin len = Some p
              \<and> pl_values pair_traits p = Some (Inr (read_postlist vs begin len, p'))))"
    using phrase_index_correct [OF numbering_perfect _ stable_sort_ok permuting_rev(1) permuting_rev(1) ex_phrase_files_ok,
        of "\<lambda>k. replicate k 0" "\<lambda>a b c. a" "\<lambda>a b c. b" ex_old_item 10 "''phrase-index/table''" 10 1000] by auto
  obtain vs where "mset vs = {#(7, 0), (9, 1)#}" "in_order pair_greater vs"
      "\<forall>begin len. \<exists>p p'. search_stored sr (phrase_key 2 0 ''big'') begin len = Some p
              \<and> pl_values pair_traits p = Some (Inr (read_postlist vs begin len, p'))"
    using x(4) [rule_format, of 2 0 "''big''"] unfolding v by auto
  then show ?thesis using x(1-3) by blast
qed

section \<open>What the index holds\<close>

text \<open>The posting lists that the searcher finds, as the retrieval strategy reads them.\<close>

definition stored_index :: "'v value_traits \<Rightarrow> storage_reader \<Rightarrow> 'v inverted_index" where
  "stored_index t sr key =
    (case search_stored sr key 0 UINT32_MAX of
       None \<Rightarrow> None
     | Some p \<Rightarrow> (case pl_values t p of Some (Inr (vs, p)) \<Rightarrow> Some vs | _ \<Rightarrow> None))"

lemma stored_index_answers:
  assumes "answers t kvs sr"
  shows "(key, vs) \<in> set kvs \<Longrightarrow> length vs < 2 ^ 32 \<Longrightarrow> stored_index t sr key = Some vs"
    "hash32 key \<notin> hash32 ` fst ` set kvs \<Longrightarrow> stored_index t sr key = None"
proof -
  show "stored_index t sr key = Some vs" if k: "(key, vs) \<in> set kvs" "length vs < 2 ^ 32"
  proof -
    obtain p p' where "search_stored sr key 0 UINT32_MAX = Some p" "pl_values t p = Some (Inr (read_postlist vs 0 UINT32_MAX, p'))"
      using assms k(1) unfolding answers_def by blast
    moreover have "unat UINT32_MAX = 2 ^ 32 - 1" by simp
    then have "read_postlist vs 0 UINT32_MAX = vs" using k(2) by (simp add: read_postlist_eq)
    ultimately show ?thesis by (simp add: stored_index_def)
  qed
  show "stored_index t sr key = None" if "hash32 key \<notin> hash32 ` fst ` set kvs"
    using assms that unfolding answers_def by (simp add: stored_index_def)
qed

end
