(* ===== verification/Built_Search.thy ===== *)
theory Built_Search
  imports Corpus_Search Phrase_Index
begin

text \<open>
  The search over the index that was built: the posting lists that the opened phrase index answers
  with represent the phrases of the files, which is what the search over an index relies on.
\<close>

section \<open>The corpus of the files\<close>

definition item_phrase :: "parser_item \<Rightarrow> corpus_phrase" where
  "item_phrase item = \<lparr>cp_words = pi_words item, cp_freq = ucast (pi_freq item), cp_id = pi_id item\<rparr>"

text \<open>Ids are unique among the phrases of one length, as \<open>BuildPhraseCorpus\<close> gives them.\<close>

definition unique_ids :: "parser_item list \<Rightarrow> bool" where
  "unique_ids items \<longleftrightarrow> distinct (map (\<lambda>item. (length (pi_words item), pi_id item)) items)"

lemma corpus_ok_items: "unique_ids items \<Longrightarrow> corpus_ok (item_phrase ` set items)"
  by (fastforce simp: corpus_ok_def item_phrase_def unique_ids_def distinct_map inj_on_def)

lemma phrase_values_set:
  "set (phrase_values n i w items) = entry_of ` {p \<in> item_phrase ` set items. length (cp_words p) = n \<and> i < n \<and> cp_words p ! i = w}"
  by (force simp: phrase_values_def entry_of_def item_phrase_def)

lemma phrase_values_ids: "unique_ids items \<Longrightarrow> distinct (map snd (phrase_values n i w items))"
proof -
  assume "unique_ids items"
  then have "distinct (map (\<lambda>item. (length (pi_words item), pi_id item)) (filter (\<lambda>item. length (pi_words item) = n \<and> i < n \<and> pi_words item ! i = w) items))"
    unfolding unique_ids_def by (rule distinct_map_filter)
  then show ?thesis by (auto simp: phrase_values_def distinct_map inj_on_def comp_def)
qed

lemma values_posting_list:
  assumes "unique_ids items" "mset vs = mset (phrase_values n i w items)" "in_order pair_greater vs"
  shows "posting_list vs"
proof -
  have "mset (map snd vs) = mset (map snd (phrase_values n i w items))" using assms(2) by simp
  then have "distinct (map snd vs)" using phrase_values_ids [OF assms(1)] mset_eq_imp_distinct_iff by blast
  moreover have "sorted_wrt (\<lambda>a b. fst b \<le> fst a) vs"
    using assms(3) by (simp add: in_order_def pair_greater_def not_less)
  ultimately show ?thesis by (simp add: posting_list_def)
qed

section \<open>The index represents the corpus\<close>

text \<open>
  The keys of the query: each is in the index or differs from all its keys in the checksum, so that
  the perfect hash does not answer it with the address of another.
\<close>

definition query_keys_told_apart :: "parser_item list list \<Rightarrow> norm_query \<Rightarrow> bool" where
  "query_keys_told_apart itemss q \<longleftrightarrow> (\<forall>i < length q. \<not> n_is_qmark (q ! i) \<longrightarrow>
    phrase_values (length q) i (n_text (q ! i)) (concat itemss) \<noteq> []
    \<or> hash32 (phrase_key (length q) i (n_text (q ! i))) \<notin> hash32 ` fst ` set (corpus_records itemss))"

text \<open>What a search needs beside the phrase index: a dictionary and a jump index that fit to it.\<close>

definition fits_index :: "strategy3 \<Rightarrow> parser_item list list \<Rightarrow> search_options \<Rightarrow> norm_query \<Rightarrow> bool" where
  "fits_index s itemss options q \<longleftrightarrow> ngram_monotone s (item_phrase ` set (concat itemss))
    \<and> (\<forall>m \<in> set (initialize_query s options q). \<forall>I L. rs_postlist_index s (make_key q m) = Some I \<longrightarrow>
        rs_phrase_index s (make_key q m) = Some L \<longrightarrow> indexes I L \<and> length I < 2 ^ 32)
    \<and> (\<forall>m \<in> set (initialize_query s options q).
        length (phrase_values (length q) (um_position m) (n_text (q ! um_position m)) (concat itemss)) \<le> unat (um_pruning m))"

lemma make_key_phrase: "make_key q m = phrase_key (length q) (um_position m) (n_text (q ! um_position m))"
  by (simp add: make_key_def phrase_key_def)

lemma stored_posting:
  assumes "indexable itemss" "unique_ids (concat itemss)" "query_keys_told_apart itemss q"
    and "indexes_records (phrase_kind srt) SortingDescending (corpus_records itemss) kvs" "answers pair_traits kvs sr"
    and "i < length q" "\<not> n_is_qmark (q ! i)"
  shows "case stored_index pair_traits sr (phrase_key (length q) i (n_text (q ! i))) of
      None \<Rightarrow> phrase_values (length q) i (n_text (q ! i)) (concat itemss) = []
    | Some vs \<Rightarrow> posting_list vs \<and> mset vs = mset (phrase_values (length q) i (n_text (q ! i)) (concat itemss))"
proof -
  let ?key = "phrase_key (length q) i (n_text (q ! i))" and ?vs = "phrase_values (length q) i (n_text (q ! i)) (concat itemss)"
  have k: "set (map fst kvs) = fst ` set (corpus_records itemss)" using assms(4) by (simp only: indexes_records_def)
  show ?thesis
  proof (cases "?vs = []")
    case True
    then have "hash32 ?key \<notin> hash32 ` fst ` set kvs" using assms(3,6,7) k unfolding query_keys_told_apart_def by (metis set_map)
    then show ?thesis using stored_index_answers(2) [OF assms(5)] True by simp
  next
    case False
    then obtain vs where vs: "(?key, vs) \<in> set kvs" "mset vs = mset ?vs" "in_order pair_greater vs"
      using indexed_phrase [OF assms(4)] by blast
    have "length ?vs \<le> length (corpus_records itemss)"
      unfolding corpus_records_def records_values [symmetric] by (simp add: values_of_def)
    then have "length vs < 2 ^ 32" using mset_eq_length [OF vs(2)] assms(1) by (simp add: indexable_def)
    then show ?thesis using stored_index_answers(1) [OF assms(5) vs(1)] values_posting_list [OF assms(2) vs(2,3)] vs(2) by simp
  qed
qed

lemma built_index_ready:
  assumes "indexable itemss" "unique_ids (concat itemss)" "query_keys_told_apart itemss q"
    and "indexes_records (phrase_kind srt) SortingDescending (corpus_records itemss) kvs" "answers pair_traits kvs sr"
    and "rs_phrase_index s = stored_index pair_traits sr" "fits_index s itemss options q" "query_words_ok q" "n_has_words q"
  shows "search_ready s (item_phrase ` set (concat itemss)) options q"
proof -
  note sp = stored_posting [OF assms(1-5)]
  have p: "posting_of s q m = stored_index pair_traits sr (phrase_key (length q) (um_position m) (n_text (q ! um_position m)))" for m
    by (simp add: posting_of_def make_key_phrase assms(6))
  have "represents s (item_phrase ` set (concat itemss)) q"
    unfolding represents_def
  proof (intro allI impI)
    fix m :: unit_metadata assume m: "um_position m < length q" "\<not> n_is_qmark (q ! um_position m)"
    let ?vs = "phrase_values (length q) (um_position m) (n_text (q ! um_position m)) (concat itemss)"
    have "set (case posting_of s q m of None \<Rightarrow> [] | Some L \<Rightarrow> L) = set ?vs"
      using sp [OF m] mset_eq_setD unfolding p by (auto split: option.splits)
    also have "\<dots> = entry_of ` with_word (item_phrase ` set (concat itemss)) q (um_position m)"
      unfolding phrase_values_set with_word_def using m(1) by simp
    finally show "set (case posting_of s q m of None \<Rightarrow> [] | Some L \<Rightarrow> L)
        = entry_of ` with_word (item_phrase ` set (concat itemss)) q (um_position m)" .
  qed
  moreover have "ready_for s q m" if m: "m \<in> set (initialize_query s options q)" for m
    unfolding ready_for_def
  proof (intro allI impI)
    fix L assume L: "rs_phrase_index s (make_key q m) = Some L"
    let ?vs = "phrase_values (length q) (um_position m) (n_text (q ! um_position m)) (concat itemss)"
    have "um_position m \<in> {i. i < length q \<and> \<not> n_is_qmark (q ! i)}"
      unfolding initialize_query_positions [of s options, symmetric] using m by simp
    then have "posting_list L" "mset L = mset ?vs" using sp [of "um_position m"] L by (simp_all add: assms(6) make_key_phrase)
    moreover from this have "length L \<le> unat (um_pruning m)" using assms(7) m mset_eq_length [of L ?vs] by (simp add: fits_index_def)
    moreover have "\<forall>I. rs_postlist_index s (make_key q m) = Some I \<longrightarrow> indexes I L \<and> length I < 2 ^ 32"
      using assms(7) L m unfolding fits_index_def by blast
    ultimately show "posting_list L \<and> length L \<le> unat (um_pruning m)
        \<and> (\<forall>I. rs_postlist_index s (make_key q m) = Some I \<longrightarrow> indexes I L \<and> length I < 2 ^ 32)" by blast
  qed
  ultimately show ?thesis
    using corpus_ok_items [OF assms(2)] assms(7-9) by (simp add: search_ready_def fits_index_def)
qed

text \<open>
  From the phrase files to the answers: the index that \<open>BuildPhraseIndex\<close> builds of the files is
  opened, and the query processor that reads its posting lists finds the most frequent phrases of the
  files that a norm query accepts, each once and by descending frequency, as many as there are up to
  \<open>max_phrase_count\<close>.
\<close>

theorem built_index_search:
  assumes "minimal_perfect cmph" "\<And>n. length (malloc n) = n" "std_sorts srt pair_less" "std_sorts srt pair_greater"
    and "permuting key_order" "permuting dir_order" "indexable itemss" "unique_ids (concat itemss)"
    and "query_keys_told_apart itemss q" "query_words_ok q" "n_has_words q"
  shows "\<exists>idx sr. build_phrase_index srt key_order dir_order expected_size estimate item expected
        (map (\<lambda>items. concat (map (write_item True) items)) itemss) = Some (Inr idx)
    \<and> open_phrase_index cmph malloc table_dir num_bytes memory idx = Some (Inr sr)
    \<and> (\<forall>s. rs_phrase_index s = stored_index pair_traits sr \<longrightarrow> fits_index s itemss options q \<longrightarrow>
        (let C = item_phrase ` set (concat itemss); refs = rr_refs (process s options q)
         in sorted_wrt (\<lambda>a b. ref_freq b \<le> ref_freq a) refs \<and> distinct refs
           \<and> set refs \<subseteq> ref_of ` accepted C options q
           \<and> length refs = min (unat (so_max_phrase_count options)) (card (accepted C options q))
           \<and> (\<forall>p \<in> accepted C options q. \<forall>r \<in> set refs. ref_of p \<notin> set refs \<longrightarrow> cp_freq p \<le> ref_freq r)))"
proof -
  obtain idx sr kvs where x: "build_phrase_index srt key_order dir_order expected_size estimate item expected
        (map (\<lambda>items. concat (map (write_item True) items)) itemss) = Some (Inr idx)"
      "open_phrase_index cmph malloc table_dir num_bytes memory idx = Some (Inr sr)"
      "indexes_records (phrase_kind srt) SortingDescending (corpus_records itemss) kvs" "answers pair_traits kvs sr"
    using phrase_index_answers [OF assms(1-7), of expected_size estimate item expected] by blast
  note ready = built_index_ready [OF assms(7-9) x(3,4) _ _ assms(10,11)]
  show ?thesis using x(1,2) process_finds [OF ready] unfolding Let_def by blast
qed

text \<open>The query \<open>the ? cat\<close> over the files of bigrams and trigrams.\<close>

lemma ex_unique_ids: "unique_ids (concat ex_phrase_files)"
  by (simp add: unique_ids_def ex_phrase_files_def)

lemma ex_norm_query_words:
  "phrase_values 3 0 ''the'' (concat ex_phrase_files) = [(5, 0), (6, 1)]"
  "phrase_values 3 2 ''cat'' (concat ex_phrase_files) = [(5, 0), (6, 1)]"
  by (simp_all add: phrase_values_def ex_phrase_files_def)

lemma ex_norm_query_positions:
  "i < length ex_norm_query \<Longrightarrow> \<not> n_is_qmark (ex_norm_query ! i) \<Longrightarrow>
    phrase_values (length ex_norm_query) i (n_text (ex_norm_query ! i)) (concat ex_phrase_files) = [(5, 0), (6, 1)]"
  using ex_norm_query_words by (auto simp: ex_norm_query_def less_Suc_eq numeral_2_eq_2 numeral_3_eq_3)

lemma ex_keys_told_apart: "query_keys_told_apart ex_phrase_files ex_norm_query"
  using ex_norm_query_positions by (simp add: query_keys_told_apart_def)

lemma ex_fits: "fits_index \<lparr>rs_dictionary = Map.empty, rs_postlist_index = Map.empty, rs_phrase_index = ix\<rparr>
    ex_phrase_files ex_search_options ex_norm_query" (is "fits_index ?s _ _ _")
proof -
  have "length (phrase_values (length ex_norm_query) (um_position m) (n_text (ex_norm_query ! um_position m)) (concat ex_phrase_files))
      \<le> unat (um_pruning m)" if m: "m \<in> set (initialize_query ?s ex_search_options ex_norm_query)" for m
  proof -
    have "um_position m \<in> {i. i < length ex_norm_query \<and> \<not> n_is_qmark (ex_norm_query ! i)}"
      unfolding initialize_query_positions [of ?s ex_search_options, symmetric] using m by simp
    then have p: "phrase_values (length ex_norm_query) (um_position m) (n_text (ex_norm_query ! um_position m)) (concat ex_phrase_files) = [(5, 0), (6, 1)]"
      using ex_norm_query_positions by simp
    have "um_pruning m = 130000"
      using m by (auto simp: initialize_query_def ex_norm_query_def ex_search_options_def)
    then show ?thesis unfolding p by simp
  qed
  then show ?thesis by (simp add: fits_index_def ngram_monotone_def)
qed

theorem built_index_search_witness:
  "\<exists>idx sr. build_phrase_index stable_sort rev rev (\<lambda>a b c. a) (\<lambda>a b c. b) ex_old_item 10
        (map (\<lambda>items. concat (map (write_item True) items)) ex_phrase_files) = Some (Inr idx)
    \<and> open_phrase_index numbering (\<lambda>k. replicate k 0) ''phrase-index/table'' 10 1000 idx = Some (Inr sr)
    \<and> (let C = item_phrase ` set (concat ex_phrase_files);
            refs = rr_refs (process \<lparr>rs_dictionary = Map.empty, rs_postlist_index = Map.empty,
              rs_phrase_index = stored_index pair_traits sr\<rparr> ex_search_options ex_norm_query)
        in set refs \<subseteq> ref_of ` accepted C ex_search_options ex_norm_query
          \<and> length refs = min 5 (card (accepted C ex_search_options ex_norm_query)))"
proof -
  have q: "query_words_ok ex_norm_query" "n_has_words ex_norm_query" by (simp_all add: query_words_ok_def ex_norm_query_def)
  have n: "unat (so_max_phrase_count ex_search_options) = 5" by (simp add: ex_search_options_def)
  obtain idx sr where x: "build_phrase_index stable_sort rev rev (\<lambda>a b c. a) (\<lambda>a b c. b) ex_old_item 10
        (map (\<lambda>items. concat (map (write_item True) items)) ex_phrase_files) = Some (Inr idx)"
      "open_phrase_index numbering (\<lambda>k. replicate k 0) ''phrase-index/table'' 10 1000 idx = Some (Inr sr)"
      "\<forall>s. rs_phrase_index s = stored_index pair_traits sr \<longrightarrow> fits_index s ex_phrase_files ex_search_options ex_norm_query \<longrightarrow>
        (let C = item_phrase ` set (concat ex_phrase_files); refs = rr_refs (process s ex_search_options ex_norm_query)
         in sorted_wrt (\<lambda>a b. ref_freq b \<le> ref_freq a) refs \<and> distinct refs
           \<and> set refs \<subseteq> ref_of ` accepted C ex_search_options ex_norm_query
           \<and> length refs = min (unat (so_max_phrase_count ex_search_options)) (card (accepted C ex_search_options ex_norm_query))
           \<and> (\<forall>p \<in> accepted C ex_search_options ex_norm_query. \<forall>r \<in> set refs. ref_of p \<notin> set refs \<longrightarrow> cp_freq p \<le> ref_freq r))"
    using built_index_search [OF numbering_perfect _ stable_sort_ok permuting_rev(1) permuting_rev(1) ex_phrase_files_ok
        ex_unique_ids ex_keys_told_apart q, of "\<lambda>k. replicate k 0" "\<lambda>a b c. a" "\<lambda>a b c. b" ex_old_item 10
        "''phrase-index/table''" 10 1000 ex_search_options] by auto
  from x(3) [rule_format, OF _ ex_fits] have "let C = item_phrase ` set (concat ex_phrase_files);
      refs = rr_refs (process \<lparr>rs_dictionary = Map.empty, rs_postlist_index = Map.empty,
        rs_phrase_index = stored_index pair_traits sr\<rparr> ex_search_options ex_norm_query)
    in set refs \<subseteq> ref_of ` accepted C ex_search_options ex_norm_query
      \<and> length refs = min 5 (card (accepted C ex_search_options ex_norm_query))"
    unfolding Let_def n by simp
  then show ?thesis using x(1,2) by blast
qed

end
