(* ===== verification/Corpus_Tools.thy ===== *)
theory Corpus_Tools
  imports Phrase_Index
begin

text \<open>
  More of \<open>indexing.cpp\<close>: \<open>MergeDuplicates\<close>, which adds up the frequencies of equal n-grams,
  \<open>BuildRegexVocabulary\<close>, which sorts the words by frequency, and \<open>IndexPostlist\<close>, which makes the jump
  index of a posting list.  The arithmetic on \<open>double\<close> of the last, the order of directories and hash tables
  and the search for missing words are parameters.
\<close>

section \<open>Merging duplicates\<close>

text \<open>\<open>std::stoull\<close>; \<open>std::out_of_range\<close> is a logic error.\<close>

definition stoull :: "string \<Rightarrow> u64 result" where
  "stoull s =
    (let s = dropWhile white_space s;
         negative = (s \<noteq> [] \<and> hd s = CHR ''-'');
         s = (if s \<noteq> [] \<and> hd s \<in> {CHR ''-'', CHR ''+''} then tl s else s);
         digits = takeWhile digit s;
         n = read_nat digits
     in if digits = [] then Inl (InvalidArgument ''stoull'')
        else if n \<ge> 2 ^ 64 then Inl (LogicError ''stoull'')
        else Inr (if negative then - of_nat n else of_nat n))"

fun merge_lines :: "string list \<Rightarrow> (string \<times> u64) list \<Rightarrow> (string \<times> u64) list result" where
  "merge_lines [] ngram_to_freq = Inr ngram_to_freq"
| "merge_lines (line # lines) ngram_to_freq =
    (case key_of_line line of
       None \<Rightarrow> merge_lines lines ngram_to_freq
     | Some (ngram, rest) \<Rightarrow>
         rbind (stoull rest) (\<lambda>phrase_freq.
           case map_of ngram_to_freq ngram of
             None \<Rightarrow> merge_lines lines (ngram_to_freq @ [(ngram, phrase_freq)])
           | Some freq \<Rightarrow> merge_lines lines (AList.update ngram (freq + phrase_freq) ngram_to_freq)))"

definition ngram_line :: "string \<times> u64 \<Rightarrow> string" where
  "ngram_line entry = fst entry @ [tab] @ show_nat (unat (snd entry)) @ [line_end]"

definition merge_file :: "(string list \<Rightarrow> string list) \<Rightarrow> string \<Rightarrow> string result" where
  "merge_file key_order file =
    rbind (merge_lines (all_lines file) []) (\<lambda>m. Inr (concat (map ngram_line (in_key_order key_order m))))"

definition merge_duplicates :: "(string list \<Rightarrow> string list) \<Rightarrow> (string list \<Rightarrow> string list) \<Rightarrow> string list \<Rightarrow> string list result" where
  "merge_duplicates key_order dir_order files =
    (let n = next_prime (of_nat (length files));
         tmp_files = scatter_lines n (input_lines files) (replicate (unat n) [])
     in mapR (merge_file key_order) (dir_order tmp_files))"

section \<open>The regex vocabulary\<close>

text \<open>\<open>is >> word\<close>\<close>

definition read_word :: "string \<Rightarrow> (string \<times> string) option" where
  "read_word s =
    (let s = dropWhile white_space s
     in if s = [] then None else Some (takeWhile (\<lambda>c. \<not> white_space c) s, dropWhile (\<lambda>c. \<not> white_space c) s))"

lemma read_word_shorter: "read_word s = Some (w, rest) \<Longrightarrow> length rest < length s"
proof -
  assume r: "read_word s = Some (w, rest)"
  let ?s = "dropWhile white_space s"
  have s: "?s \<noteq> []" "rest = dropWhile (\<lambda>c. \<not> white_space c) ?s" using r by (auto simp: read_word_def Let_def split: if_splits)
  obtain c cs where c: "?s = c # cs" using s(1) by (cases ?s) auto
  then have "\<not> white_space c" by (metis hd_dropWhile list.sel(1) list.simps(3))
  then have "length rest \<le> length cs" using s(2) c length_dropWhile_le [of "\<lambda>c. \<not> white_space c" cs] by simp
  then show ?thesis using c length_dropWhile_le [of white_space s] by simp
qed

lemma read_unsigned_shorter: "length (fst (snd (read_unsigned old s))) \<le> length s"
proof -
  have "length (dropWhile digit (tl t)) \<le> length t" "length (dropWhile digit t) \<le> length t" for t
    using length_dropWhile_le [of digit "tl t"] length_dropWhile_le [of digit t] by simp_all
  moreover have "length (dropWhile white_space s) \<le> length s" by (rule length_dropWhile_le)
  ultimately show ?thesis
    by (auto simp: read_unsigned_def Let_def intro: order_trans)
qed

text \<open>\<open>while (ifs >> word >> frequency >> id)\<close>\<close>

function read_1grams_loop :: "string \<Rightarrow> (string \<times> u64) list" where
  "read_1grams_loop s =
    (case read_word s of
       None \<Rightarrow> []
     | Some (word, s) \<Rightarrow>
         (let frequency = read_unsigned (0 :: u64) s;
              i = read_unsigned (0 :: u32) (fst (snd frequency))
          in if \<not> snd (snd frequency) \<or> \<not> snd (snd i) then []
             else (word, fst frequency) # read_1grams_loop (fst (snd i))))"
  by pat_completeness auto
termination
proof (relation "measure length")
  fix s y word s1 f i
  assume "read_word s = Some y" "(word, s1) = y" "f = read_unsigned (0 :: u64) s1" "i = read_unsigned (0 :: u32) (fst (snd f))"
  then have "length s1 < length s" "length (fst (snd f)) \<le> length s1" "length (fst (snd i)) \<le> length (fst (snd f))"
    using read_word_shorter read_unsigned_shorter by blast+
  then show "(fst (snd i), s) \<in> measure length" by simp
qed simp

text \<open>\<open>while (ifs >> word >> word_id)\<close>\<close>

function read_vocab_loop :: "string \<Rightarrow> string list" where
  "read_vocab_loop s =
    (case read_word s of
       None \<Rightarrow> []
     | Some (word, s) \<Rightarrow>
         (let word_id = read_unsigned (0 :: u32) s
          in if \<not> snd (snd word_id) then [] else word # read_vocab_loop (fst (snd word_id))))"
  by pat_completeness auto
termination
proof (relation "measure length")
  fix s y word s1 i
  assume "read_word s = Some y" "(word, s1) = y" "i = read_unsigned (0 :: u32) s1"
  then have "length s1 < length s" "length (fst (snd i)) \<le> length s1"
    using read_word_shorter read_unsigned_shorter by blast+
  then show "(fst (snd i), s) \<in> measure length" by simp
qed simp

declare read_1grams_loop.simps [simp del] read_vocab_loop.simps [simp del]

definition find_missing_words :: "string \<Rightarrow> (string \<times> u64) list \<Rightarrow> string list" where
  "find_missing_words vocab_file pairs = filter (\<lambda>w. w \<notin> set (map fst pairs)) (read_vocab_loop vocab_file)"

text \<open>\<open>best_frequency\<close> searches for phrases with a missing word.\<close>

definition add_missing :: "(string \<Rightarrow> u64) \<Rightarrow> string \<Rightarrow> (string \<times> u64) list \<Rightarrow> (string \<times> u64) list" where
  "add_missing best_frequency vocab_file pairs =
    pairs @ map (\<lambda>w. (w, best_frequency w)) (find_missing_words vocab_file pairs)"

definition more_frequent :: "string \<times> u64 \<Rightarrow> string \<times> u64 \<Rightarrow> bool" where
  "more_frequent a b \<longleftrightarrow> snd a > snd b"

definition build_regex_vocabulary where
  "build_regex_vocabulary srt best_frequency one_grams vocab_file =
    concat (map (\<lambda>entry. fst entry @ [line_end])
      (srt more_frequent (add_missing best_frequency vocab_file (read_1grams_loop one_grams))))"

section \<open>The jump index\<close>

text \<open>Arithmetic on \<open>double\<close>.\<close>

record 'f double_ops =
  d_zero :: 'f
  d_of_nat :: "nat \<Rightarrow> 'f"
  d_add :: "'f \<Rightarrow> 'f \<Rightarrow> 'f"
  d_mult :: "'f \<Rightarrow> 'f \<Rightarrow> 'f"
  d_div :: "'f \<Rightarrow> 'f \<Rightarrow> 'f"
  d_ge :: "'f \<Rightarrow> 'f \<Rightarrow> bool"

definition normalized_freq :: "'f double_ops \<Rightarrow> u32 \<Rightarrow> 'f" where
  "normalized_freq d f = d_div d (d_of_nat d (unat f)) (d_of_nat d (unat UINT32_MAX))"

definition total_norm_freq :: "'f double_ops \<Rightarrow> (u32 \<times> u32) list \<Rightarrow> 'f" where
  "total_norm_freq d values = foldl (\<lambda>total v. d_add d total (normalized_freq d (fst v))) (d_zero d) values"

definition quantile_freqs :: "'f double_ops \<Rightarrow> nat \<Rightarrow> 'f \<Rightarrow> 'f list" where
  "quantile_freqs d resolution tot =
    (let step_width = d_div d (d_of_nat d 1) (d_of_nat d resolution)
     in map (\<lambda>i. d_mult d (d_mult d (d_of_nat d (i + 1)) step_width) tot) [0..<resolution])"

text \<open>
  The inner loop over the quantiles that the frequency so far has reached, up to the break; \<open>at\<close> throws
  out of range, here \<open>None\<close>.
\<close>

function quantile_loop :: "'f double_ops \<Rightarrow> 'f list \<Rightarrow> 'f \<Rightarrow> u32 \<times> u32 \<Rightarrow> nat \<Rightarrow> (u32 \<times> u32) list \<Rightarrow> (nat \<times> (u32 \<times> u32) list) option" where
  "quantile_loop d qs cur entry k out =
    (if length qs \<le> k then None
     else if d_ge d cur (qs ! k) then
       (if length out \<le> k then None
        else if Suc k = length out then Some (Suc k, out[k := entry])
        else quantile_loop d qs cur entry (Suc k) (out[k := entry]))
     else Some (k, out))"
  by pat_completeness auto
termination
  by (relation "measure (\<lambda>(d, qs, cur, entry, k, out). length qs - k)") auto

declare quantile_loop.simps [simp del]

fun index_postlist_loop :: "'f double_ops \<Rightarrow> 'f list \<Rightarrow> u32 \<Rightarrow> 'f \<Rightarrow> nat \<Rightarrow> (u32 \<times> u32) list \<Rightarrow> (u32 \<times> u32) list \<Rightarrow> (u32 \<times> u32) list option" where
  "index_postlist_loop d qs i cur k [] out = Some out"
| "index_postlist_loop d qs i cur k (v # vs) out =
    (let cur = d_add d cur (normalized_freq d (fst v))
     in case quantile_loop d qs cur (i, fst v) k out of
          None \<Rightarrow> None
        | Some (k, out) \<Rightarrow> if k = length out then Some out else index_postlist_loop d qs (i + 1) cur k vs out)"

definition index_postlist :: "'f double_ops \<Rightarrow> (u32 \<times> u32) list \<Rightarrow> nat \<Rightarrow> (u32 \<times> u32) list option" where
  "index_postlist d values resolution =
    (let out = replicate resolution (0, 0)
     in if out = [] then Some out
        else index_postlist_loop d (quantile_freqs d resolution (total_norm_freq d values)) 0 (d_zero d) 0 values out)"

section \<open>Equal n-grams are merged\<close>

lemma stoull_number: "stoull (tab # show_nat (unat (w :: u64))) = Inr w"
proof -
  let ?s = "show_nat (unat w)"
  obtain c ds where s: "?s = c # ds" using show_nat_nonempty [of "unat w"] by (cases ?s) auto
  have d: "digit c" "list_all digit ?s" using show_nat_digits [of "unat w"] s by simp_all
  note n = digit_not_sign [OF d(1)]
  have "takeWhile digit ?s = ?s" using d(2) by (simp add: list_all_iff takeWhile_eq_all_conv)
  moreover have "dropWhile white_space (tab # ?s) = ?s" using n by (simp add: s white_space_tab)
  moreover have "read_nat ?s = unat w" by (rule read_show_nat)
  ultimately show ?thesis using n s unsigned_less [of w] by (simp add: stoull_def Let_def not_le)
qed

fun ngram_entries :: "string list \<Rightarrow> (string \<times> u64) list" where
  "ngram_entries [] = []"
| "ngram_entries (line # lines) =
    (case key_of_line line of
       None \<Rightarrow> ngram_entries lines
     | Some (ngram, rest) \<Rightarrow> (case stoull rest of Inl e \<Rightarrow> ngram_entries lines | Inr f \<Rightarrow> (ngram, f) # ngram_entries lines))"

lemma ngram_entries_append: "ngram_entries (xs @ ys) = ngram_entries xs @ ngram_entries ys"
  by (induction xs) (auto split: option.splits sum.splits)

definition merged :: "(string \<times> u64) list \<Rightarrow> (string \<times> u64) list \<Rightarrow> bool" where
  "merged es m \<longleftrightarrow> distinct (map fst m) \<and> set (map fst m) = fst ` set es
    \<and> (\<forall>key f. map_of m key = Some f \<longrightarrow> f = sum_list (values_of key es))"

lemma merged_step:
  assumes "merged es m"
  shows "map_of m key = None \<Longrightarrow> merged (es @ [(key, f)]) (m @ [(key, f)])"
    "map_of m key = Some g \<Longrightarrow> merged (es @ [(key, f)]) (AList.update key (g + f) m)"
proof -
  have g: "distinct (map fst m)" "set (map fst m) = fst ` set es" "\<And>key f. map_of m key = Some f \<Longrightarrow> f = sum_list (values_of key es)"
    using assms by (auto simp: merged_def)
  show "merged (es @ [(key, f)]) (m @ [(key, f)])" if n: "map_of m key = None"
  proof -
    have k: "key \<notin> set (map fst m)" using n by (simp add: map_of_eq_None_iff)
    then have "values_of key es = []" using g(2) by (simp add: values_of_Nil)
    moreover have "map_of (m @ [(key, f)]) k = (if k = key then Some f else map_of m k)" for k
      using n by (simp add: map_of_append map_add_def split: option.split)
    ultimately show ?thesis
      using g k by (auto simp: merged_def simp del: map_of_eq_Some_iff Some_eq_map_of_iff map_of_append split: if_splits)
  qed
  show "merged (es @ [(key, f)]) (AList.update key (g + f) m)" if s: "map_of m key = Some g"
  proof -
    have k: "key \<in> set (map fst m)" using s by (metis map_of_eq_None_iff option.distinct(1) list.set_map)
    then have "set (map fst (AList.update key (g + f) m)) = fst ` set (es @ [(key, f)])"
      using g(2) by (simp add: update_keys image_iff) blast
    moreover have "distinct (map fst (AList.update key (g + f) m))" using g(1) by (rule distinct_update)
    ultimately show ?thesis using g(3) g(3) [OF s] by (auto simp: merged_def update_conv' split: if_splits)
  qed
qed

lemma merge_lines_ok:
  assumes "values_parse stoull lines" "merged es m"
  shows "\<exists>m'. merge_lines lines m = Inr m' \<and> merged (es @ ngram_entries lines) m'"
  using assms
proof (induction lines arbitrary: es m)
  case (Cons line lines)
  have v: "values_parse stoull lines" using Cons.prems(1) by (simp add: values_parse_def)
  show ?case
  proof (cases "key_of_line line")
    case None
    then show ?thesis using Cons.IH [OF v Cons.prems(2)] by simp
  next
    case (Some kr)
    obtain key rest where kr: "kr = (key, rest)" by (cases kr)
    obtain f where f: "stoull rest = Inr f" using Cons.prems(1) Some kr by (auto simp: values_parse_def)
    show ?thesis
    proof (cases "map_of m key")
      case None
      from Cons.IH [OF v merged_step(1) [OF Cons.prems(2) None, of f]] show ?thesis
        using None Some kr f by simp
    next
      case (Some g)
      from Cons.IH [OF v merged_step(2) [OF Cons.prems(2) Some, of f]] show ?thesis
        using Some \<open>key_of_line line = Some kr\<close> kr f by simp
    qed
  qed
qed simp

text \<open>The one line of an n-gram in the result.\<close>

definition merged_values :: "u64 list \<Rightarrow> u64 list" where
  "merged_values fs = (if fs = [] then [] else [sum_list fs])"

lemma values_of_keys: "distinct keys \<Longrightarrow> values_of key (map (\<lambda>k. (k, f k)) keys) = (if key \<in> set keys then [f key] else [])"
  by (induction keys) auto

lemma merged_in_order:
  assumes "merged es m" "permuting key_order"
  shows "values_of key (in_key_order key_order m) = merged_values (values_of key es)"
proof -
  have m: "distinct (map fst m)" "set (map fst m) = fst ` set es" "\<forall>key f. map_of m key = Some f \<longrightarrow> f = sum_list (values_of key es)"
    using assms(1) by (auto simp: merged_def)
  have k: "set (key_order (map fst m)) = set (map fst m)" "distinct (key_order (map fst m))"
    using permuting_set [OF assms(2)] m(1) by simp_all
  show ?thesis
  proof (cases "key \<in> set (map fst m)")
    case True
    then obtain f where f: "map_of m key = Some f" by (metis map_of_eq_None_iff not_None_eq list.set_map)
    moreover have "values_of key es \<noteq> []" using True m(2) by (simp add: values_of_Nil)
    ultimately show ?thesis
      unfolding in_key_order_def values_of_keys [OF k(2)] k(1) merged_values_def using True m(3) by simp
  next
    case False
    then have "values_of key es = []" using m(2) by (simp add: values_of_Nil)
    then show ?thesis unfolding in_key_order_def values_of_keys [OF k(2)] k(1) merged_values_def using False by simp
  qed
qed

definition plain_ngram :: "string \<Rightarrow> bool" where
  "plain_ngram key \<longleftrightarrow> tab \<notin> set key \<and> line_end \<notin> set key"

lemma written_ngrams:
  assumes "\<forall>key \<in> fst ` set es. plain_ngram key"
  shows "ngram_entries (all_lines (concat (map ngram_line es))) = es"
    "values_parse stoull (all_lines (concat (map ngram_line es)))"
proof -
  let ?line = "\<lambda>e. fst e @ tab # show_nat (unat (snd e))"
  have "map ngram_line es = map (\<lambda>l. l @ [line_end]) (map ?line es)" by (simp add: ngram_line_def)
  moreover have "list_all (\<lambda>l. line_end \<notin> set l) (map ?line es)"
    using assms digits_no_end [OF show_nat_digits] by (auto simp: list_all_iff plain_ngram_def tab_def line_end_def)
  ultimately have l: "all_lines (concat (map ngram_line es)) = map ?line es" by (simp only: all_lines_lines)
  show "ngram_entries (all_lines (concat (map ngram_line es))) = es"
    unfolding l using assms by (induction es) (auto simp: key_of_line_eq stoull_number plain_ngram_def)
  show "values_parse stoull (all_lines (concat (map ngram_line es)))"
    unfolding l using assms by (auto simp: values_parse_def list_all_iff key_of_line_eq stoull_number plain_ngram_def)
qed

lemma ngram_entries_plain: "\<forall>l \<in> set lines. line_end \<notin> set l \<Longrightarrow> key \<in> fst ` set (ngram_entries lines) \<Longrightarrow> plain_ngram key"
proof (induction lines)
  case (Cons l lines)
  have k: "plain_ngram k" if "key_of_line l = Some (k, rest)" for k rest
    using that Cons.prems(1) by (auto simp: key_of_line_def plain_ngram_def split: if_splits dest: set_takeWhileD)
  have IH: "key \<in> fst ` set (ngram_entries lines) \<Longrightarrow> plain_ngram key" using Cons.IH Cons.prems(1) by simp
  show ?case
  proof (cases "key_of_line l")
    case None
    then show ?thesis using IH Cons.prems(2) by simp
  next
    case (Some kr)
    obtain k rest where kr: "kr = (k, rest)" by (cases kr)
    show ?thesis using IH Cons.prems(2) Some kr k [of k rest] by (cases "stoull rest") auto
  qed
qed simp

lemma merge_file_ok:
  assumes "values_parse stoull (all_lines file)" "permuting key_order"
  shows "\<exists>out. merge_file key_order file = Inr out
    \<and> (\<forall>key. values_of key (ngram_entries (all_lines out)) = merged_values (values_of key (ngram_entries (all_lines file))))"
proof -
  have "merged [] []" by (simp add: merged_def)
  from merge_lines_ok [OF assms(1) this] obtain m where
    m: "merge_lines (all_lines file) [] = Inr m" "merged (ngram_entries (all_lines file)) m" by auto
  have e: "\<forall>l \<in> set (all_lines file). line_end \<notin> set l" using all_lines_no_end by blast
  have k: "set (map fst m) = fst ` set (ngram_entries (all_lines file))" using m(2) by (simp only: merged_def)
  have "\<forall>key \<in> set (map fst m). plain_ngram key" unfolding k by (intro ballI ngram_entries_plain [OF e])
  moreover have "fst ` set (in_key_order key_order m) = set (map fst m)"
    unfolding permuting_set(1) [OF assms(2), of "map fst m", symmetric] by (simp add: in_key_order_def image_image)
  ultimately have "ngram_entries (all_lines (concat (map ngram_line (in_key_order key_order m)))) = in_key_order key_order m"
    by (intro written_ngrams(1)) simp
  then show ?thesis using m(1) merged_in_order [OF m(2) assms(2)] unfolding merge_file_def by simp
qed

lemma merged_buckets:
  "own_buckets xss \<Longrightarrow> concat (map (\<lambda>xs. merged_values (values_of key xs)) xss) = merged_values (values_of key (concat xss))"
proof (induction xss)
  case (Cons xs xss)
  note o = own_buckets_Cons [OF Cons.prems]
  have "values_of key xs = [] \<or> values_of key (concat xss) = []" using o by (auto simp: values_of_Nil)
  then show ?case using Cons.IH o by (auto simp: merged_values_def)
qed (simp add: merged_values_def)

lemma entries_in_part:
  "ngram_entries (filter (in_part n i) lines) = filter (\<lambda>e. unat (hash32 (fst e) mod n) = i) (ngram_entries lines)"
proof (induction lines)
  case (Cons l lines)
  show ?case
  proof (cases "key_of_line l")
    case None
    then have "\<not> in_part n i l" by (simp add: in_part_def)
    then show ?thesis using Cons None by simp
  next
    case (Some kr)
    obtain k rest where kr: "kr = (k, rest)" by (cases kr)
    then have "in_part n i l \<longleftrightarrow> unat (hash32 k mod n) = i" using Some by (simp add: in_part_def)
    then show ?thesis using Cons Some kr by (cases "stoull rest") simp_all
  qed
qed simp

lemma scattered_buckets:
  fixes lines :: "string list"
  assumes "n \<noteq> 0" "\<forall>l \<in> set lines. line_end \<notin> set l"
  defines "tmp \<equiv> scatter_lines n lines (replicate (unat n) [])"
  shows "\<forall>i < unat n. all_lines (tmp ! i) = filter (in_part n i) lines"
    "buckets_hold (ngram_entries lines) (map (\<lambda>file. ngram_entries (all_lines file)) tmp)"
proof -
  have l: "length tmp = unat n" by (simp add: tmp_def scatter_length)
  show a: "\<forall>i < unat n. all_lines (tmp ! i) = filter (in_part n i) lines"
  proof (intro allI impI)
    fix i assume "i < unat n"
    then have "tmp ! i = concat (map (\<lambda>l. l @ [line_end]) (filter (in_part n i) lines))" by (simp add: tmp_def scatter_nth)
    moreover have "list_all (\<lambda>l. line_end \<notin> set l) (filter (in_part n i) lines)" using assms(2) by (simp add: list_all_iff)
    ultimately show "all_lines (tmp ! i) = filter (in_part n i) lines" by (simp only: all_lines_lines)
  qed
  let ?bss = "map (\<lambda>file. ngram_entries (all_lines file)) tmp"
  have u: "0 < unat n" using assms(1) by (simp add: unat_gt_0)
  have b: "bucket_of key ?bss = unat (hash32 key mod n)" for key by (simp add: bucket_of_def l unat_mod)
  have e: "?bss ! i = filter (\<lambda>e. unat (hash32 (fst e) mod n) = i) (ngram_entries lines)" if "i < unat n" for i
    using that a l by (simp add: entries_in_part)
  have lt: "unat (hash32 key mod n) < unat n" for key using u by (simp add: unat_mod)
  have f: "values_of key (filter (\<lambda>e. unat (hash32 (fst e) mod n) = unat (hash32 key mod n)) es) = values_of key es" for key and es :: "(string \<times> u64) list"
    unfolding values_of_def filter_filter by (rule arg_cong [of _ _ "map snd"], rule filter_cong) auto
  show "buckets_hold (ngram_entries lines) ?bss"
    unfolding buckets_hold_def
  proof (intro conjI)
    show "?bss \<noteq> []" using u l by auto
    show "\<forall>i < length ?bss. \<forall>r \<in> set (?bss ! i). bucket_of (fst r) ?bss = i" unfolding b using e l by simp
    show "\<forall>key. values_of key (?bss ! bucket_of key ?bss) = values_of key (ngram_entries lines)" unfolding b e [OF lt] f by simp
  qed
qed

lemma values_of_files: "values_of key (concat (map g (map f xs))) = concat (map (\<lambda>x. values_of key (g (f x))) xs)"
  by (induction xs) simp_all

lemma entries_of_files: "ngram_entries (input_lines files) = concat (map (\<lambda>file. ngram_entries (all_lines file)) files)"
  by (induction files) (simp_all add: input_lines_def ngram_entries_append)

text \<open>
  C14. \<open>MergeDuplicates\<close>: when the frequencies of all n-grams are numbers, merging returns, and the
  files it writes have for every n-gram of the input exactly one line, with the sum of its
  frequencies (in 64 bits), and no other lines.
\<close>

theorem merge_duplicates_correct:
  assumes "values_parse stoull (input_lines files)" "permuting key_order" "permuting dir_order"
  shows "\<exists>out. merge_duplicates key_order dir_order files = Inr out
    \<and> (\<forall>ngram. values_of ngram (ngram_entries (input_lines out))
        = (let fs = values_of ngram (ngram_entries (input_lines files)) in if fs = [] then [] else [sum_list fs]))"
proof -
  define n where "n = next_prime (of_nat (length files))"
  define tmp where "tmp = scatter_lines n (input_lines files) (replicate (unat n) [])"
  have "0 < unat n" using next_prime_is_prime [of "of_nat (length files)"] by (simp add: n_def is_prime_iff prime_number_def)
  then have n: "n \<noteq> 0" by (metis unat_0 less_numeral_extra(3))
  have e: "\<forall>l \<in> set (input_lines files). line_end \<notin> set l" using all_lines_no_end by (auto simp: input_lines_def)
  note b = scattered_buckets [OF n e, folded tmp_def]
  have l: "length tmp = unat n" by (simp add: tmp_def scatter_length)
  have p: "set (dir_order tmp) = set tmp" by (rule permuting_set(1) [OF assms(3)])
  have "values_parse stoull (all_lines x)" if x: "x \<in> set (dir_order tmp)" for x
  proof -
    obtain i where "i < unat n" "x = tmp ! i" using x p l by (auto simp: in_set_conv_nth)
    then show ?thesis using b(1) assms(1) by (auto simp: values_parse_def list_all_iff)
  qed
  then have "\<forall>file \<in> set (dir_order tmp). \<exists>out. merge_file key_order file = Inr out
      \<and> (\<forall>key. values_of key (ngram_entries (all_lines out)) = merged_values (values_of key (ngram_entries (all_lines file))))"
    using merge_file_ok [OF _ assms(2)] by blast
  then obtain f where f: "\<forall>file \<in> set (dir_order tmp). merge_file key_order file = Inr (f file)
      \<and> (\<forall>key. values_of key (ngram_entries (all_lines (f file))) = merged_values (values_of key (ngram_entries (all_lines file))))"
    by metis
  define out where "out = map f (dir_order tmp)"
  have r: "merge_duplicates key_order dir_order files = Inr out"
    unfolding merge_duplicates_def Let_def n_def [symmetric] tmp_def [symmetric] mapR_eq_Inr out_def
    using f by (simp add: list_all2_conv_all_nth)
  define xss where "xss = map (\<lambda>file. ngram_entries (all_lines file)) (dir_order tmp)"
  have m: "mset xss = mset (map (\<lambda>file. ngram_entries (all_lines file)) tmp)"
    using assms(3) unfolding xss_def permuting_def by simp
  have "values_of key (ngram_entries (input_lines out)) = merged_values (values_of key (ngram_entries (input_lines files)))" for key
  proof -
    have "values_of key (ngram_entries (input_lines out)) = concat (map (\<lambda>file. values_of key (ngram_entries (all_lines (f file)))) (dir_order tmp))"
      unfolding entries_of_files out_def values_of_files by simp
    also have "\<dots> = concat (map (\<lambda>xs. merged_values (values_of key xs)) xss)"
      using f unfolding xss_def by (auto intro!: arg_cong [of _ _ concat])
    also have "\<dots> = merged_values (values_of key (concat xss))" by (rule merged_buckets [OF own_buckets_hold [OF b(2) m]])
    also have "values_of key (concat xss) = values_of key (ngram_entries (input_lines files))" by (rule shuffled_values [OF b(2) m])
    finally show ?thesis .
  qed
  then show ?thesis using r by (auto simp: merged_values_def Let_def)
qed

text \<open>Two files that share an n-gram.\<close>

definition ex_ngram_files :: "string list" where
  "ex_ngram_files = [concat (map ngram_line [(''a b'', 2), (''c'', 7)]), concat (map ngram_line [(''a b'', 3)])]"

lemma ex_ngram_files_ok:
  "values_parse stoull (input_lines ex_ngram_files)" "ngram_entries (input_lines ex_ngram_files) = [(''a b'', 2), (''c'', 7), (''a b'', 3)]"
proof -
  have p: "\<forall>key \<in> fst ` set [(''a b'', 2 :: u64), (''c'', 7)]. plain_ngram key" "\<forall>key \<in> fst ` set [(''a b'', 3 :: u64)]. plain_ngram key"
    by (simp_all add: plain_ngram_def tab_def line_end_def)
  show "values_parse stoull (input_lines ex_ngram_files)"
    using written_ngrams(2) [OF p(1)] written_ngrams(2) [OF p(2)] unfolding ex_ngram_files_def input_lines_def values_parse_def by simp
  show "ngram_entries (input_lines ex_ngram_files) = [(''a b'', 2), (''c'', 7), (''a b'', 3)]"
    using written_ngrams(1) [OF p(1)] written_ngrams(1) [OF p(2)] unfolding ex_ngram_files_def entries_of_files by simp
qed

theorem merge_duplicates_correct_witness:
  "\<exists>out. merge_duplicates rev rev ex_ngram_files = Inr out \<and> values_of ''a b'' (ngram_entries (input_lines out)) = [5]
    \<and> values_of ''c'' (ngram_entries (input_lines out)) = [7] \<and> values_of ''d'' (ngram_entries (input_lines out)) = []"
  using merge_duplicates_correct [OF ex_ngram_files_ok(1) permuting_rev(1) permuting_rev(1)] by (auto simp: ex_ngram_files_ok(2))

section \<open>The entries of the jump index\<close>

lemma quantile_loop_ok:
  assumes "0 < r" "length qs = length pre + r"
  shows "\<exists>m \<le> r. quantile_loop d qs cur entry (length pre) (pre @ replicate r z)
    = Some (length pre + m, pre @ replicate m entry @ replicate (r - m) z)"
  using assms
proof (induction r arbitrary: pre)
  case (Suc r)
  have u: "(pre @ replicate (Suc r) z)[length pre := entry] = (pre @ [entry]) @ replicate r z" by simp
  show ?case
  proof (cases "d_ge d cur (qs ! length pre)")
    case False
    then have "quantile_loop d qs cur entry (length pre) (pre @ replicate (Suc r) z) = Some (length pre + 0, pre @ replicate 0 entry @ replicate (Suc r - 0) z)"
      using Suc.prems(2) by (subst quantile_loop.simps) simp
    then show ?thesis by blast
  next
    case True
    show ?thesis
    proof (cases "r = 0")
      case True
      then have "quantile_loop d qs cur entry (length pre) (pre @ replicate (Suc r) z) = Some (length pre + 1, pre @ replicate 1 entry @ replicate (Suc r - 1) z)"
        using \<open>d_ge d cur (qs ! length pre)\<close> Suc.prems(2) u by (subst quantile_loop.simps) simp
      then show ?thesis using True by (intro exI [of _ 1]) simp
    next
      case False
      have "length qs = length (pre @ [entry]) + r" using Suc.prems(2) by simp
      then obtain m where m: "m \<le> r" "quantile_loop d qs cur entry (length (pre @ [entry])) ((pre @ [entry]) @ replicate r z)
          = Some (length (pre @ [entry]) + m, (pre @ [entry]) @ replicate m entry @ replicate (r - m) z)"
        using Suc.IH [of "pre @ [entry]"] False by blast
      have "quantile_loop d qs cur entry (length pre) (pre @ replicate (Suc r) z)
          = quantile_loop d qs cur entry (Suc (length pre)) ((pre @ [entry]) @ replicate r z)"
        using True False Suc.prems(2) u by (subst quantile_loop.simps) simp
      then show ?thesis using m by (intro exI [of _ "Suc m"]) simp
    qed
  qed
qed simp

definition jump_entry :: "(u32 \<times> u32) list \<Rightarrow> nat \<Rightarrow> u32 \<times> u32" where
  "jump_entry values i = (of_nat i, fst (values ! i))"

lemma index_postlist_loop_ok:
  assumes "0 < r" "length qs = length js + r" "i \<le> length values" "sorted js" "\<forall>j \<in> set js. j < i" "vs = drop i values"
  shows "\<exists>js'. index_postlist_loop d qs (of_nat i) cur (length js) vs (map (jump_entry values) js @ replicate r (0, 0))
      = Some (map (jump_entry values) (js @ js') @ replicate (r - length js') (0, 0))
    \<and> length js' \<le> r \<and> sorted (js @ js') \<and> (\<forall>j \<in> set (js @ js'). j < length values)"
  using assms
proof (induction vs arbitrary: i js r cur)
  case Nil
  then show ?case by (intro exI [of _ "[]"]) auto
next
  case (Cons v vs)
  have i: "i < length values" "v = values ! i" "vs = drop (Suc i) values"
    using Cons.prems(3,6) by (metis drop_eq_Nil list.distinct(1) not_le, metis nth_via_drop Cons.prems(6), metis drop_Suc list.sel(3) tl_drop Cons.prems(6))
  let ?cur = "d_add d cur (normalized_freq d (fst v))" and ?e = "jump_entry values"
  have e: "(of_nat i, fst v) = ?e i" by (simp add: jump_entry_def i(2))
  have "length qs = length (map ?e js) + r" using Cons.prems(2) by simp
  from quantile_loop_ok [OF Cons.prems(1) this, of d ?cur "?e i" "(0, 0)"] obtain m where
    m: "m \<le> r" "quantile_loop d qs ?cur (?e i) (length js) (map ?e js @ replicate r (0, 0))
      = Some (length js + m, map ?e (js @ replicate m i) @ replicate (r - m) (0, 0))" by auto
  have s: "sorted (js @ replicate m i)" "\<forall>j \<in> set (js @ replicate m i). j < Suc i"
    using Cons.prems(4,5) by (auto simp: sorted_append less_Suc_eq)
  show ?case
  proof (cases "m = r")
    case True
    have "\<forall>j \<in> set (js @ replicate m i). j < length values" using s(2) i(1) by (meson Suc_leI less_le_trans)
    then show ?thesis using m(2) s(1) True e
      by (intro exI [of _ "replicate m i"]) (simp add: Let_def)
  next
    case False
    then have r: "0 < r - m" "length qs = length (js @ replicate m i) + (r - m)" using m(1) Cons.prems(2) by simp_all
    obtain js' where js': "index_postlist_loop d qs (of_nat (Suc i)) ?cur (length (js @ replicate m i)) vs
          (map ?e (js @ replicate m i) @ replicate (r - m) (0, 0))
        = Some (map ?e ((js @ replicate m i) @ js') @ replicate (r - m - length js') (0, 0))"
        "length js' \<le> r - m" "sorted ((js @ replicate m i) @ js')" "\<forall>j \<in> set ((js @ replicate m i) @ js'). j < length values"
      using Cons.IH [OF r _ s i(3), of ?cur] i(1) by (metis Suc_leI)
    have "index_postlist_loop d qs (of_nat i) cur (length js) (v # vs) (map ?e js @ replicate r (0, 0))
        = Some (map ?e ((js @ replicate m i) @ js') @ replicate (r - m - length js') (0, 0))"
      using m(2) js'(1) e False m(1) by (simp add: Let_def add.commute)
    then show ?thesis using js'(2-4) m(1) by (intro exI [of _ "replicate m i @ js'"]) simp
  qed
qed

text \<open>
  \<open>IndexPostlist\<close> is safe whatever floating point arithmetic gives: it returns, no index is out of
  range, and the jump index has the demanded number of entries: positions of the posting list in
  ascending order, each with the frequency of the value there, and behind them, when the last quantiles
  are not reached, entries that are zero.
\<close>

theorem index_postlist_correct:
  assumes "length values < 2 ^ 32"
  shows "\<exists>js. index_postlist d values resolution = Some (map (jump_entry values) js @ replicate (resolution - length js) (0, 0))
    \<and> length js \<le> resolution \<and> sorted js \<and> (\<forall>j \<in> set js. j < length values \<and> unat (fst (jump_entry values j)) = j)"
proof (cases "resolution = 0")
  case True
  then show ?thesis by (intro exI [of _ "[]"]) (simp add: index_postlist_def)
next
  case False
  let ?qs = "quantile_freqs d resolution (total_norm_freq d values)"
  have "length ?qs = length ([] :: nat list) + resolution" by (simp add: quantile_freqs_def Let_def)
  from index_postlist_loop_ok [of resolution ?qs "[]" 0 "values" "values" d "d_zero d", OF _ this] False obtain js where
    "index_postlist_loop d ?qs 0 (d_zero d) 0 values (replicate resolution (0, 0))
      = Some (map (jump_entry values) js @ replicate (resolution - length js) (0, 0))"
    "length js \<le> resolution" "sorted js" "\<forall>j \<in> set js. j < length values" by auto
  moreover have "unat (fst (jump_entry values j)) = j" if "j < length values" for j
    using that assms by (simp add: jump_entry_def unat_of_nat_u32)
  ultimately show ?thesis using False by (intro exI [of _ js]) (simp add: index_postlist_def)
qed

text \<open>With whole numbers.\<close>

definition ex_ops :: "nat double_ops" where
  "ex_ops = \<lparr>d_zero = 0, d_of_nat = (\<lambda>n. n), d_add = (+), d_mult = (*), d_div = (div), d_ge = (\<ge>)\<rparr>"

theorem index_postlist_correct_witness:
  "\<exists>js. index_postlist ex_ops [(9, 4), (7, 1), (7, 2)] 2 = Some (map (jump_entry [(9, 4), (7, 1), (7, 2)]) js @ replicate (2 - length js) (0, 0))
    \<and> length js \<le> 2 \<and> sorted js \<and> (\<forall>j \<in> set js. j < 3 \<and> unat (fst (jump_entry [(9, 4), (7, 1), (7, 2)] j)) = j)"
  using index_postlist_correct [of "[(9, 4), (7, 1), (7, 2)]" ex_ops 2] by (simp add: numeral_3_eq_3)

section \<open>The words of the vocabulary\<close>

lemma read_word_space: "white_space c \<Longrightarrow> read_word (c # s) = read_word s"
  by (simp add: read_word_def)

lemma read_word_plain:
  assumes "plain_word w" "white_space c"
  shows "read_word (w @ c # rest) = Some (w, c # rest)"
proof -
  obtain x xs where w: "w = x # xs" "\<not> white_space x" using assms(1) by (cases w) (auto simp: plain_word_def)
  have "takeWhile (\<lambda>c. \<not> white_space c) (w @ c # rest) = w" "dropWhile (\<lambda>c. \<not> white_space c) (w @ c # rest) = c # rest"
    using assms by (auto simp: plain_word_def list_all_iff takeWhile_append dropWhile_append takeWhile_eq_all_conv)
  moreover have "dropWhile white_space (w @ c # rest) = w @ c # rest" using w by simp
  ultimately show ?thesis using w(1) by (simp add: read_word_def Let_def)
qed

lemma read_word_end: "read_word [] = None" "read_word [line_end] = None"
  by (simp_all add: read_word_def white_space_chars)

definition one_gram :: "parser_item \<Rightarrow> bool" where
  "one_gram item \<longleftrightarrow> (\<exists>w. pi_words item = [w] \<and> plain_word w)"

definition word_freq :: "parser_item \<Rightarrow> string \<times> u64" where
  "word_freq item = (hd (pi_words item), pi_freq item)"

lemma read_1grams_space: "read_1grams_loop (line_end # s) = read_1grams_loop s"
  by (simp add: read_1grams_loop.simps [of "line_end # s"] read_1grams_loop.simps [of s] read_word_space white_space_chars)

lemma read_1grams_written:
  "list_all one_gram items \<Longrightarrow> read_1grams_loop (concat (map (write_item True) items)) = map word_freq items"
proof (induction items)
  case Nil
  then show ?case by (simp add: read_1grams_loop.simps read_word_end)
next
  case (Cons item items)
  obtain w where w: "pi_words item = [w]" "plain_word w" using Cons.prems by (auto simp: one_gram_def)
  let ?t = "concat (map (write_item True) items)"
  have d: "\<not> digit tab" "\<not> digit line_end" by (simp_all add: digit_def tab_def line_end_def)
  have "write_item True item @ ?t = w @ tab # show_nat (unat (pi_freq item)) @ (tab # show_nat (unat (pi_id item)) @ (line_end # ?t))"
    by (simp add: write_item_def w(1))
  moreover have "read_unsigned (0 :: u64) (tab # show_nat (unat (pi_freq item)) @ (tab # show_nat (unat (pi_id item)) @ (line_end # ?t)))
      = (pi_freq item, tab # show_nat (unat (pi_id item)) @ (line_end # ?t), True)"
    using d by (intro read_unsigned_show) simp
  moreover have "read_unsigned (0 :: u32) (tab # show_nat (unat (pi_id item)) @ (line_end # ?t)) = (pi_id item, line_end # ?t, True)"
    using d by (intro read_unsigned_show) simp
  ultimately show ?case
    using Cons read_word_plain [OF w(2) white_space_tab] w(1)
    by (simp add: read_1grams_loop.simps [of "w @ tab # z" for z] read_1grams_space word_freq_def)
qed

text \<open>The vocabulary file of a phrase corpus.\<close>

definition vocab_line :: "string \<times> u32 \<Rightarrow> string" where
  "vocab_line entry = fst entry @ [tab] @ show_nat (unat (snd entry)) @ [line_end]"

lemma read_vocab_space: "read_vocab_loop (line_end # s) = read_vocab_loop s"
  by (simp add: read_vocab_loop.simps [of "line_end # s"] read_vocab_loop.simps [of s] read_word_space white_space_chars)

lemma read_vocab_written:
  "list_all (\<lambda>e. plain_word (fst e)) voc \<Longrightarrow> read_vocab_loop (concat (map vocab_line voc)) = map fst voc"
proof (induction voc)
  case Nil
  then show ?case by (simp add: read_vocab_loop.simps read_word_end)
next
  case (Cons e voc)
  let ?t = "concat (map vocab_line voc)"
  have "\<not> digit line_end" by (simp add: digit_def line_end_def)
  then have "read_unsigned (0 :: u32) (tab # show_nat (unat (snd e)) @ (line_end # ?t)) = (snd e, line_end # ?t, True)"
    by (intro read_unsigned_show) simp
  moreover have "vocab_line e @ ?t = fst e @ tab # show_nat (unat (snd e)) @ (line_end # ?t)" by (simp add: vocab_line_def)
  ultimately show ?case
    using Cons read_word_plain [of "fst e" tab] white_space_tab
    by (simp add: read_vocab_loop.simps [of "fst e @ tab # z" for z] read_vocab_space)
qed

text \<open>
  C28. The regex vocabulary: when the unigrams and the words of the corpus have been written, the file
  that \<open>BuildRegexVocabulary\<close> makes has exactly one line for every unigram and one for every other word
  of the corpus, and the lines are in the order of decreasing frequency.
\<close>

theorem regex_vocabulary_correct:
  assumes "std_sorts srt more_frequent" "list_all one_gram items" "list_all (\<lambda>e. plain_word (fst e)) voc"
  shows "\<exists>ps. all_lines (build_regex_vocabulary srt best_frequency (concat (map (write_item True) items)) (concat (map vocab_line voc)))
        = map fst ps
    \<and> mset ps = mset (map word_freq items)
        + mset (map (\<lambda>w. (w, best_frequency w)) (filter (\<lambda>w. \<forall>item \<in> set items. pi_words item \<noteq> [w]) (map fst voc)))
    \<and> sorted_wrt (\<lambda>a b. snd b \<le> snd a) ps"
proof -
  define missing where "missing = filter (\<lambda>w. \<forall>item \<in> set items. pi_words item \<noteq> [w]) (map fst voc)"
  have words: "w \<in> set (map fst (map word_freq items)) \<longleftrightarrow> (\<exists>item \<in> set items. pi_words item = [w])" for w
  proof -
    have "pi_words item = [fst (word_freq item)]" if "item \<in> set items" for item
      using assms(2) that by (auto simp: word_freq_def one_gram_def list_all_iff)
    then have "pi_words item = [w] \<longleftrightarrow> fst (word_freq item) = w" if "item \<in> set items" for item using that by auto
    then show ?thesis by force
  qed
  have "find_missing_words (concat (map vocab_line voc)) (map word_freq items) = missing"
    unfolding find_missing_words_def read_vocab_written [OF assms(3)] missing_def by (rule filter_cong) (use words in auto)
  then have b: "build_regex_vocabulary srt best_frequency (concat (map (write_item True) items)) (concat (map vocab_line voc))
      = concat (map (\<lambda>e. fst e @ [line_end]) (srt more_frequent (map word_freq items @ map (\<lambda>w. (w, best_frequency w)) missing)))"
    by (simp add: build_regex_vocabulary_def add_missing_def read_1grams_written [OF assms(2)])
  define ps where "ps = srt more_frequent (map word_freq items @ map (\<lambda>w. (w, best_frequency w)) missing)"
  have m: "mset ps = mset (map word_freq items @ map (\<lambda>w. (w, best_frequency w)) missing)" "in_order more_frequent ps"
    using assms(1) by (simp_all add: std_sorts_def ps_def)
  have "plain_word (fst p)" if p: "p \<in> set ps" for p
  proof -
    have "p \<in> set (map word_freq items @ map (\<lambda>w. (w, best_frequency w)) missing)" using p m(1) by (metis set_mset_mset)
    then show ?thesis using assms(2,3) by (fastforce simp: word_freq_def one_gram_def list_all_iff missing_def)
  qed
  then have "list_all (\<lambda>l. line_end \<notin> set l) (map fst ps)"
    using white_space_chars by (auto simp: plain_word_def list_all_iff)
  then have "all_lines (concat (map (\<lambda>l. l @ [line_end]) (map fst ps))) = map fst ps" by (rule all_lines_lines)
  then have "all_lines (concat (map (\<lambda>e. fst e @ [line_end]) ps)) = map fst ps" by (simp add: comp_def)
  moreover have "sorted_wrt (\<lambda>a b. snd b \<le> snd a) ps" using m(2) by (simp add: in_order_def more_frequent_def not_less)
  ultimately show ?thesis unfolding b ps_def [symmetric] missing_def [symmetric] using m(1) by auto
qed

definition ex_word_sort :: "(string \<times> u64 \<Rightarrow> string \<times> u64 \<Rightarrow> bool) \<Rightarrow> (string \<times> u64) list \<Rightarrow> (string \<times> u64) list" where
  "ex_word_sort lt ps = rev (sort_key snd ps)"

lemma ex_word_sort_ok: "std_sorts ex_word_sort more_frequent"
  using sorted_sort_key [where f = "snd :: string \<times> u64 \<Rightarrow> u64"] by (auto simp: std_sorts_def ex_word_sort_def in_order_def more_frequent_def sorted_map sorted_wrt_rev not_less)

theorem regex_vocabulary_correct_witness:
  "\<exists>ps. all_lines (build_regex_vocabulary ex_word_sort (\<lambda>w. 2)
          (concat (map (write_item True) [\<lparr>pi_id = 0, pi_freq = 3, pi_words = [''a'']\<rparr>, \<lparr>pi_id = 1, pi_freq = 9, pi_words = [''b'']\<rparr>]))
          (concat (map vocab_line [(''a'', 0), (''b'', 1), (''c'', 2)]))) = map fst ps
    \<and> mset ps = {#(''a'', 3 :: u64), (''b'', 9), (''c'', 2)#} \<and> sorted_wrt (\<lambda>a b. snd b \<le> snd a) ps"
proof -
  have w: "plain_word ''a''" "plain_word ''b''" "plain_word ''c''" by code_simp+
  have 1: "list_all one_gram [\<lparr>pi_id = 0, pi_freq = 3, pi_words = [''a'']\<rparr>, \<lparr>pi_id = 1, pi_freq = 9, pi_words = [''b'']\<rparr>]"
    using w by (simp add: one_gram_def)
  have 2: "list_all (\<lambda>e. plain_word (fst e)) [(''a'', 0 :: u32), (''b'', 1), (''c'', 2)]" using w by simp
  show ?thesis using regex_vocabulary_correct [OF ex_word_sort_ok 1 2, of "\<lambda>w. 2"] by (simp add: word_freq_def add_mset_commute)
qed

end
