(* ===== verification/Built_Netspeak.thy ===== *)
theory Built_Netspeak
  imports Built_Search Corpus_Tools "HOL-Library.Sublist"
begin

text \<open>
  The tables of a search, built one from the other as \<open>BuildNetspeak\<close> of \<open>indexing.cpp\<close> does: the phrase
  dictionary is a hash map of the phrase files (\<open>BuildPhraseDictionary\<close>), and the postlist index is made by
  looking up every key of the phrase index (\<open>BuildPostlistIndex\<close>).  The search on these tables answers norm
  queries from the phrase files alone.
\<close>

section \<open>The phrase dictionary\<close>

definition build_phrase_dictionary where
  "build_phrase_dictionary cmph malloc dictionary_dir files =
    build_big_map cmph malloc frequency_traits 12 (parse_pair ''ULong'' ''UInt'') dictionary_dir files"

text \<open>\<open>Get\<close>, as the search uses it.\<close>

definition dictionary_value :: "big_map \<Rightarrow> string \<Rightarrow> (u64 \<times> u32) option" where
  "dictionary_value b key = (case big_get frequency_traits 12 b key of Inl e \<Rightarrow> None | Inr v \<Rightarrow> v)"

definition phrase_text :: "parser_item \<Rightarrow> string" where
  "phrase_text item = join_with '' '' (pi_words item)"

definition phrase_files :: "parser_item list list \<Rightarrow> string list" where
  "phrase_files itemss = map (\<lambda>items. concat (map (write_item True) items)) itemss"

definition distinct_phrases :: "parser_item list \<Rightarrow> bool" where
  "distinct_phrases items \<longleftrightarrow> distinct (map pi_words items)"

lemma phrase_text_inj:
  assumes "list_all plain_item items" "distinct_phrases items"
  shows "distinct (map phrase_text items)"
proof -
  have "map pi_words items = map stream_words (map phrase_text items)"
    using assms(1) by (auto simp: list_all_iff plain_item_def phrase_text_def stream_words_join)
  then show ?thesis using assms(2) by (metis distinct_map distinct_phrases_def)
qed

lemma phrase_line:
  assumes "plain_item item"
  shows "key_of_line (item_line True item) = Some (phrase_text item, tab # show_nat (unat (pi_freq item)) @ tab # show_nat (unat (pi_id item)))"
    "line_end \<notin> set (item_line True item)"
proof -
  have w: "list_all plain_word (pi_words item)" using assms by (simp add: plain_item_def)
  then show "key_of_line (item_line True item) = Some (phrase_text item, tab # show_nat (unat (pi_freq item)) @ tab # show_nat (unat (pi_id item)))"
    using join_no_tab [OF w] by (simp add: item_line_def phrase_text_def key_of_line_eq)
  show "line_end \<notin> set (item_line True item)" by (rule item_line_valid(1) [OF w])
qed

lemma phrase_lines: "list_all plain_item (concat itemss) \<Longrightarrow> input_lines (phrase_files itemss) = map (item_line True) (concat itemss)"
proof (induction itemss)
  case (Cons items itemss)
  have "concat (map (write_item True) items) = concat (map (\<lambda>l. l @ [line_end]) (map (item_line True) items))"
    by (auto intro: arg_cong [where f = concat] simp: write_item_line)
  moreover have "list_all (\<lambda>l. line_end \<notin> set l) (map (item_line True) items)"
    using Cons.prems phrase_line(2) by (auto simp: list_all_iff)
  ultimately have "all_lines (concat (map (write_item True) items)) = map (item_line True) items" by (simp only: all_lines_lines)
  then show ?case using Cons by (simp add: input_lines_def phrase_files_def)
qed (simp add: input_lines_def phrase_files_def)

lemma indexable_items:
  assumes "indexable itemss"
  shows "list_all plain_item (concat itemss)" "concat itemss \<noteq> []" "length (concat itemss) < 10000000"
proof -
  show p: "list_all plain_item (concat itemss)" "concat itemss \<noteq> []" using assms by (simp_all add: indexable_def)
  have "list_all plain_item items \<Longrightarrow> length items \<le> length (concat (map item_records items))" for items
  proof (induction items)
    case (Cons item items)
    then have "0 < length (item_records item)" by (simp add: plain_item_def item_records_def)
    moreover have "length items \<le> length (concat (map item_records items))" using Cons by simp
    ultimately show ?case by (simp del: length_greater_0_conv)
  qed simp
  from this [OF p(1)] show "length (concat itemss) < 10000000" using assms by (simp add: indexable_def corpus_records_def)
qed

lemma dictionary_input:
  assumes "indexable itemss" "distinct_phrases (concat itemss)"
  shows "map_input (parse_pair n1 n2 :: _ \<Rightarrow> (u64 \<times> u32) result) (phrase_files itemss)"
proof -
  note i = indexable_items [OF assms(1)]
  let ?ls = "map (item_line True) (concat itemss)"
  have "keyed ?ls" using i(1) phrase_line by (auto simp: keyed_def list_all_iff)
  moreover have "keys_of (map (item_line True) items) = map phrase_text items" if "list_all plain_item items" for items
    using that by (induction items) (auto simp: keys_of_def phrase_line(1))
  from this [OF i(1)] have "distinct (keys_of ?ls)" using phrase_text_inj [OF i(1) assms(2)] by simp
  moreover have "values_parse (parse_pair n1 n2 :: _ \<Rightarrow> (u64 \<times> u32) result) ?ls"
    using i(1) by (auto simp: values_parse_def list_all_iff phrase_line(1) parse_address_line)
  ultimately show ?thesis using i(2,3) by (intro map_input_small) (simp_all add: phrase_lines [OF i(1)])
qed

text \<open>
  The phrase dictionary: built of the phrase files, whether or not its tables fit into memory, it
  knows every phrase with its full frequency and its id, and whatever it answers for another text is the
  entry of a phrase with the same 32-bit checksum.
\<close>

theorem phrase_dictionary_correct:
  assumes "minimal_perfect cmph" "\<And>n. length (malloc n) = n" "indexable itemss" "distinct_phrases (concat itemss)"
  shows "\<exists>ms b. build_phrase_dictionary cmph malloc dictionary_dir (phrase_files itemss) = Some (Inr ms)
    \<and> big_open num_bytes memory 12 ms = Inr b
    \<and> (\<forall>item \<in> set (concat itemss). dictionary_value b (phrase_text item) = Some (pi_freq item, pi_id item))
    \<and> (\<forall>key v. dictionary_value b key = Some v \<longrightarrow>
        (\<exists>item \<in> set (concat itemss). v = (pi_freq item, pi_id item) \<and> hash32 (phrase_text item) = hash32 key))"
proof -
  let ?parse = "parse_pair ''ULong'' ''UInt'' :: _ \<Rightarrow> (u64 \<times> u32) result"
  note i = indexable_items [OF assms(3)]
  note lines = phrase_lines [OF i(1)]
  obtain ms where ms: "build_big_map cmph malloc frequency_traits 12 ?parse dictionary_dir (phrase_files itemss) = Some (Inr ms)"
      "parts_ready frequency_traits 12 ?parse (phrase_files itemss) ms"
    using build_big_map_ready [OF assms(1,2) frequency_traits_ok(2) dictionary_input [OF assms(3,4)]] by blast
  obtain external where o: "big_open num_bytes memory 12 ms = Inr (BigMap external ms)"
    using big_open_ready [of ms "length ms" frequency_traits 12 ?parse "part (phrase_files itemss)" num_bytes memory] ms(2)
    by (auto simp: parts_ready_def)
  have "dictionary_value (BigMap external ms) (phrase_text item) = Some (pi_freq item, pi_id item)" if x: "item \<in> set (concat itemss)" for item
  proof -
    have p: "plain_item item" using i(1) x unfolding list_all_iff by blast
    have "item_line True item \<in> set (input_lines (phrase_files itemss))" using x by (auto simp: lines)
    from big_get_known [OF ms(2) frequency_traits_ok(1) this phrase_line(1) [OF p] parse_address_line] show ?thesis
      by (simp add: dictionary_value_def)
  qed
  moreover have "\<exists>item \<in> set (concat itemss). v = (pi_freq item, pi_id item) \<and> hash32 (phrase_text item) = hash32 key"
    if v: "dictionary_value (BigMap external ms) key = Some v" for key v
  proof -
    have "big_get frequency_traits 12 (BigMap external ms) key = Inr (Some v)"
      using v by (auto simp: dictionary_value_def split: sum.splits)
    from big_get_answer [OF ms(2) frequency_traits_ok(1) this] obtain l key' rest where
      l: "l \<in> set (input_lines (phrase_files itemss))" "key_of_line l = Some (key', rest)" "?parse rest = Inr v" "hash32 key' = hash32 key"
      by blast
    obtain item where it: "item \<in> set (concat itemss)" "l = item_line True item" using l(1) lines by auto
    then have "plain_item item" using i(1) unfolding list_all_iff by blast
    from phrase_line(1) [OF this] have "key' = phrase_text item"
        "rest = tab # show_nat (unat (pi_freq item)) @ tab # show_nat (unat (pi_id item))" using l(2) it(2) by simp_all
    then show ?thesis using l(3,4) it(1) by (auto simp: parse_address_line)
  qed
  ultimately show ?thesis using ms(1) o unfolding build_phrase_dictionary_def by blast
qed

lemma ex_distinct_phrases: "distinct_phrases (concat ex_phrase_files)"
  by (simp add: distinct_phrases_def ex_phrase_files_def)

theorem phrase_dictionary_correct_witness:
  "\<exists>ms b. build_phrase_dictionary numbering (\<lambda>k. replicate k 0) ''phrase-dictionary'' (phrase_files ex_phrase_files) = Some (Inr ms)
    \<and> big_open 10 1000 12 ms = Inr b \<and> dictionary_value b ''the old cat'' = Some (6, 1)"
proof -
  obtain ms b where x: "build_phrase_dictionary numbering (\<lambda>k. replicate k 0) ''phrase-dictionary'' (phrase_files ex_phrase_files) = Some (Inr ms)"
      "big_open 10 1000 12 ms = Inr b"
      "\<forall>item \<in> set (concat ex_phrase_files). dictionary_value b (phrase_text item) = Some (pi_freq item, pi_id item)"
    using phrase_dictionary_correct [OF numbering_perfect _ ex_phrase_files_ok ex_distinct_phrases, of "\<lambda>k. replicate k 0"
        "''phrase-dictionary''" 10 1000] by auto
  let ?item = "\<lparr>pi_id = 1, pi_freq = 6, pi_words = [''the'', ''old'', ''cat'']\<rparr>"
  have "?item \<in> set (concat ex_phrase_files)" by (simp add: ex_phrase_files_def)
  with x(3) have "dictionary_value b (phrase_text ?item) = Some (pi_freq ?item, pi_id ?item)" by blast
  then show ?thesis using x(1,2) by (simp add: phrase_text_def)
qed

section \<open>The postlist index\<close>

text \<open>
  A posting list is looked up and indexed; \<open>IndexPostlist\<close> goes through it twice, which is one list of values
  here.  A list that is too short is not read.
\<close>

definition index_stored_postlist :: "'f double_ops \<Rightarrow> postlist \<Rightarrow> (u32 \<times> u32) list result option" where
  "index_stored_postlist d p =
    (let resolution = pl_size p div 1000
     in if resolution = 0 then Some (Inr [])
        else obind (pl_values pair_traits p) (\<lambda>(values, p). map_option Inr (index_postlist d values resolution)))"

fun insert_records :: "('i \<Rightarrow> string \<times> 'v \<Rightarrow> 'i result option) \<Rightarrow> (string \<times> 'v) list \<Rightarrow> 'i \<Rightarrow> 'i result option" where
  "insert_records ins [] indexer = Some (Inr indexer)"
| "insert_records ins (r # rs) indexer = obind (ins indexer r) (\<lambda>indexer. insert_records ins rs indexer)"

text \<open>\<open>while (ifs >> key >> fileid >> offset)\<close>\<close>

function index_table :: "'f double_ops \<Rightarrow> storage_reader \<Rightarrow> ('i \<Rightarrow> string \<times> u32 \<times> u32 \<Rightarrow> 'i result option) \<Rightarrow> string \<Rightarrow> 'i \<Rightarrow> 'i result option" where
  "index_table d searcher ins table indexer =
    (case read_word table of
       None \<Rightarrow> Some (Inr indexer)
     | Some (key, s) \<Rightarrow>
         (case read_word s of
            None \<Rightarrow> Some (Inr indexer)
          | Some (fileid, s) \<Rightarrow>
              (case read_word s of
                 None \<Rightarrow> Some (Inr indexer)
               | Some (offset, s) \<Rightarrow>
                   (case search_stored searcher key 0 UINT32_MAX of
                      None \<Rightarrow> Some (Inl (RuntimeError (''unknown key : '' @ key)))
                    | Some p \<Rightarrow>
                        obind (index_stored_postlist d p) (\<lambda>entries.
                          obind (insert_records ins (map (Pair key) entries) indexer) (\<lambda>indexer.
                            index_table d searcher ins s indexer))))))"
  by pat_completeness auto
termination
  by (relation "measure (\<lambda>(d, searcher, ins, table, indexer). length table)") (auto dest!: read_word_shorter)

declare index_table.simps [simp del]

text \<open>
  \<open>BuildPostlistIndex\<close>; the estimate of the expected size and the orders of directories and hash tables are
  of no use to sorted input.
\<close>

definition build_postlist_index where
  "build_postlist_index cmph malloc srt d key_order dir_order expected_size num_bytes phrase_index_dir phrase_index postlist_index_dir state =
    obind (open_phrase_index cmph malloc (phrase_index_dir @ ''/table'') num_bytes 0 phrase_index) (\<lambda>searcher.
      obind (Some (new_indexer postlist_index_dir state True SortingDisabled MinRequired 0)) (\<lambda>indexer.
        case storage_close (snd phrase_index) of
          None \<Rightarrow> Some (Inl (RuntimeError (''Cannot open : '' @ [CHR 0x22] @ phrase_index_dir @ ''/table.txt'' @ [CHR 0x22])))
        | Some table \<Rightarrow>
            obind (index_table d searcher (indexer_insert (phrase_kind srt) print_pair dir_order expected_size) table indexer) (\<lambda>indexer.
              indexer_index (phrase_kind srt) ''UIntUInt'' key_order dir_order indexer)))"

text \<open>The jump index of a list, and the lists that have one.\<close>

definition jump_index :: "'f double_ops \<Rightarrow> (u32 \<times> u32) list \<Rightarrow> (u32 \<times> u32) list" where
  "jump_index d vs = the (index_postlist d vs (length vs div 1000))"

definition jump_lists :: "'f double_ops \<Rightarrow> (string \<times> (u32 \<times> u32) list) list \<Rightarrow> (string \<times> (u32 \<times> u32) list) list" where
  "jump_lists d kvs = filter (\<lambda>(key, js). js \<noteq> []) (map (\<lambda>(key, vs). (key, jump_index d vs)) kvs)"

lemma jump_index_ok:
  assumes "length vs < 2 ^ 32"
  shows "index_postlist d vs (length vs div 1000) = Some (jump_index d vs)" "length (jump_index d vs) = length vs div 1000"
proof -
  obtain js where j: "index_postlist d vs (length vs div 1000) = Some (map (jump_entry vs) js @ replicate (length vs div 1000 - length js) (0, 0))"
      "length js \<le> length vs div 1000"
    using index_postlist_correct [OF assms] by blast
  then show "index_postlist d vs (length vs div 1000) = Some (jump_index d vs)" "length (jump_index d vs) = length vs div 1000"
    by (simp_all add: jump_index_def)
qed

lemma index_stored_ok:
  assumes "pl_values pair_traits p = Some (Inr (vs, p'))" "length vs < 2 ^ 32"
  shows "index_stored_postlist d p = Some (Inr (jump_index d vs))"
proof -
  note j = jump_index_ok [OF assms(2), of d]
  have "length vs div 1000 = 0 \<Longrightarrow> jump_index d vs = []" using j(2) by simp
  then show ?thesis using assms(1) pl_values_size [OF assms(1)] j(1) by (simp add: index_stored_postlist_def Let_def)
qed

lemma insert_records_append:
  "insert_records ins (rs @ rs') indexer = obind (insert_records ins rs indexer) (\<lambda>indexer. insert_records ins rs' indexer)"
  by (induction rs arbitrary: indexer) (auto simp: obind_def split: option.split sum.split)

lemma plain_number: "plain_word (show_nat n)"
proof -
  have "list_all digit (show_nat n)" by (rule show_nat_digits)
  then have "list_all (\<lambda>c. \<not> white_space c) (show_nat n)"
    by (auto simp: list_all_iff digit_def white_space_def)
  then show ?thesis using is_valid_utf8_ascii [OF digits_valid [OF show_nat_digits]] show_nat_nonempty by (simp add: plain_word_def)
qed

lemma read_address_line:
  assumes "plain_word key"
  shows "\<exists>s1 s2. read_word (address_line key a @ line_end # rest) = Some (key, s1)
    \<and> read_word s1 = Some (show_nat (unat (fst a)), s2) \<and> read_word s2 = Some (show_nat (unat (snd a)), line_end # rest)"
proof -
  note n = read_word_plain [OF plain_number]
  have "read_word (key @ tab # z) = Some (key, tab # z)" for z by (rule read_word_plain [OF assms white_space_tab])
  then show ?thesis
    using n [of tab] n [of line_end] white_space_tab white_space_chars(3)
    by (simp add: address_line_def read_word_space)
qed

lemma index_table_space: "index_table d searcher ins (line_end # s) = index_table d searcher ins s"
  by (intro ext) (simp add: index_table.simps [of _ _ _ "line_end # s"] index_table.simps [of _ _ _ s] read_word_space white_space_chars)

lemma index_table_written:
  assumes "\<And>key. key \<in> fst ` set kas \<Longrightarrow> plain_word key \<and> length (lst key) < 2 ^ 32
      \<and> (\<exists>p p'. search_stored searcher key 0 UINT32_MAX = Some p \<and> pl_values pair_traits p = Some (Inr (lst key, p')))"
  shows "index_table d searcher ins (concat (map (\<lambda>(key, a). address_line key a @ [line_end]) kas)) indexer
    = insert_records ins (concat (map (\<lambda>(key, a). map (Pair key) (jump_index d (lst key))) kas)) indexer"
  using assms
proof (induction kas arbitrary: indexer)
  case Nil
  then show ?case by (simp add: index_table.simps read_word_end)
next
  case (Cons ka kas)
  obtain key a where ka: "ka = (key, a)" by (cases ka)
  let ?t = "concat (map (\<lambda>(key, a). address_line key a @ [line_end]) kas)"
  obtain p p' where p: "plain_word key" "length (lst key) < 2 ^ 32" "search_stored searcher key 0 UINT32_MAX = Some p"
      "pl_values pair_traits p = Some (Inr (lst key, p'))"
    using Cons.prems [of key] ka by auto
  obtain s1 s2 where r: "read_word (address_line key a @ line_end # ?t) = Some (key, s1)"
      "read_word s1 = Some (show_nat (unat (fst a)), s2)" "read_word s2 = Some (show_nat (unat (snd a)), line_end # ?t)"
    using read_address_line [OF p(1)] by blast
  have "index_table d searcher ins (address_line key a @ line_end # ?t) indexer
      = obind (insert_records ins (map (Pair key) (jump_index d (lst key))) indexer) (\<lambda>indexer. index_table d searcher ins ?t indexer)"
    by (subst index_table.simps) (simp add: r p(3) index_stored_ok [OF p(4,2)] index_table_space)
  then show ?case using Cons by (simp add: ka insert_records_append)
qed

lemma sorted_records_inserted:
  assumes "list_all (\<lambda>r. assert_record (vk_traits k) print_value r = Inr ()) rs"
  shows "insert_records (indexer_insert k print_value dir_order expected_size) rs (SortedRecords si)
    = obind (sorted_inserts k si rs) (\<lambda>si. Some (Inr (SortedRecords si)))"
  using assms
proof (induction rs arbitrary: si)
  case (Cons r rs)
  then show ?case by (cases "sorted_insert k si r") (auto simp: indexer_insert_def obind_def split: sum.split)
qed simp

lemma empty_index: "sorted_index k (new_sorted_input SortingDisabled) = Some (Inr (new_sorted_input SortingDisabled))"
  by (simp add: sorted_index_def write_current_postlist_def new_sorted_input_def new_postlist_builder_def build_def sort_postlist_def
      storage_write_def pl_size_def it_size_def no_postlist_def page_iter_def)

lemma jump_lists_storable:
  assumes "\<And>key vs. (key, vs) \<in> set kvs \<Longrightarrow> plain_key key \<and> length vs < 10000000" "length kvs < 10000000"
  shows "storable pair_traits (jump_lists d kvs)" "list_all (\<lambda>(key, js). js \<noteq> []) (jump_lists d kvs)"
    "length (jump_lists d kvs) < 10000000"
proof -
  have l: "length (jump_lists d kvs) \<le> length kvs" unfolding jump_lists_def by (metis length_filter_le length_map)
  then show "length (jump_lists d kvs) < 10000000" using assms(2) by linarith
  show "list_all (\<lambda>(key, js). js \<noteq> []) (jump_lists d kvs)" by (auto simp: jump_lists_def list_all_iff)
  have e: "plain_key key \<and> length js \<le> 10000" if js: "(key, js) \<in> set (jump_lists d kvs)" for key js
  proof -
    obtain vs where vs: "(key, vs) \<in> set kvs" "js = jump_index d vs" using js by (auto simp: jump_lists_def)
    then have "length vs < 10000000" "plain_key key" using assms(1) by blast+
    then show ?thesis using jump_index_ok(2) [of vs d] vs(2) by simp
  qed
  have "list_all (\<lambda>(key, js). plain_key key \<and> list_fits pair_traits js) (jump_lists d kvs)"
    using e by (force simp: list_all_iff intro: list_fits_pairs)
  moreover have "entry_room pair_traits js \<le> 120012" if "(key, js) \<in> set (jump_lists d kvs)" for key js
  proof -
    have "length (bytes_of_values pair_traits js) = 8 * length js"
      using constant_bytes [of pair_traits 8 js] by (simp add: list_all_iff)
    then show ?thesis using e [OF that] by (simp add: entry_room_def)
  qed
  then have "sum_list (map (\<lambda>(key, js). entry_room pair_traits js) (jump_lists d kvs)) \<le> sum_list (map (\<lambda>_. 120012) (jump_lists d kvs))"
    by (intro sum_list_mono) auto
  then have "sum_list (map (\<lambda>(key, js). entry_room pair_traits js) (jump_lists d kvs)) \<le> 2 ^ 44"
    using l assms(2) by (simp add: sum_list_triv)
  ultimately show "storable pair_traits (jump_lists d kvs)" by (simp add: storable_def)
qed

lemma jump_records:
  assumes "distinct (map fst kvs)" "map fst kas = map fst kvs"
  shows "concat (map (\<lambda>(key, a). map (Pair key) (jump_index d (the (map_of kvs key)))) kas)
    = concat (map (\<lambda>(key, js). map (Pair key) js) (jump_lists d kvs))"
proof -
  have "concat (map (\<lambda>(key, a). map (Pair key) (jump_index d (the (map_of kvs key)))) kas)
      = concat (map (\<lambda>key. map (Pair key) (jump_index d (the (map_of kvs key)))) (map fst kas))"
    unfolding map_map by (rule arg_cong [where f = concat], rule map_cong) auto
  also have "\<dots> = concat (map (\<lambda>(key, vs). map (Pair key) (jump_index d vs)) kvs)"
    unfolding assms(2) using assms(1) by (auto intro!: arg_cong [where f = concat] simp: map_of_is_SomeI)
  also have "\<dots> = concat (map (\<lambda>(key, js). map (Pair key) js) (jump_lists d kvs))"
    unfolding jump_lists_def by (induction kvs) auto
  finally show ?thesis .
qed

lemma jump_lists_indexed:
  fixes k :: "(u32 \<times> u32) value_kind"
  assumes "minimal_perfect cmph" "\<And>n. length (malloc n) = n" "value_kind_ok k" "vk_traits k = pair_traits"
    and "storable pair_traits kjs" "distinct (map fst kjs)" "list_all (\<lambda>(key, js). js \<noteq> []) kjs" "length kjs < 10000000"
  shows "\<exists>idx jr. obind (sorted_inserts k (new_sorted_input SortingDisabled) (concat (map (\<lambda>(key, js). map (Pair key) js) kjs)))
        (\<lambda>si. indexer_index k ''UIntUInt'' key_order dir_order (SortedRecords si)) = Some (Inr idx)
    \<and> open_phrase_index cmph malloc table_dir num_bytes memory idx = Some (Inr jr) \<and> answers pair_traits kjs jr"
proof (cases "kjs = []")
  case True
  let ?idx = "(indexed_properties ''UIntUInt'' SortingDisabled new_index_stats, new_storage)"
  have "open_phrase_index cmph malloc table_dir num_bytes memory ?idx = Some (Inr closed_storage)"
    by (simp add: open_phrase_index_def storage_close_def new_storage_def searcher_open_def closed_storage_def storage_is_open_def
        assert_properties_def indexed_properties_def new_index_stats_def)
  moreover have "answers pair_traits kjs closed_storage"
    by (simp add: answers_def True search_stored_def storage_read_postlist_def storage_address_def closed_storage_def)
  moreover have "indexer_index k ''UIntUInt'' key_order dir_order (SortedRecords (new_sorted_input SortingDisabled)) = Some (Inr ?idx)"
    by (simp add: indexer_index_def empty_index) (simp add: new_sorted_input_def)
  ultimately show ?thesis using True by auto
next
  case False
  obtain si table ms b kus where x: "obind (sorted_inserts k (new_sorted_input SortingDisabled) (concat (map (\<lambda>(key, vs). map (Pair key) vs) kjs))) (sorted_index k)
        = Some (Inr si)"
      "ix_key_count (si_stats si) = of_nat (length kjs)" "storage_close (si_storage si) = Some table"
      "build_big_map cmph malloc address_traits 6 parse_address (table_dir @ ''/phrase-index'') [table] = Some (Inr ms)"
      "big_open num_bytes memory 6 ms = Inr b"
      "list_all2 (\<lambda>(key, us) (key', vs). key = key' \<and> sorted_as k SortingDisabled us vs) kjs kus"
      "\<forall>key vs begin len. (key, vs) \<in> set kus \<longrightarrow>
        (\<exists>p p'. search_stored \<lparr>sr_table = Some (big_get address_traits 6 b), sr_files = st_files (si_storage si)\<rparr> key begin len = Some p
          \<and> pl_values (vk_traits k) p = Some (Inr (read_postlist vs begin len, p')))"
      "\<forall>key begin len. hash32 key \<notin> hash32 ` fst ` set kjs \<longrightarrow>
        search_stored \<lparr>sr_table = Some (big_get address_traits 6 b), sr_files = st_files (si_storage si)\<rparr> key begin len = None"
    using sorted_index_searched [OF assms(1-3) assms(5) [folded assms(4)] assms(6,7) False assms(8), where sorting = SortingDisabled
        and dir_name = "table_dir @ ''/phrase-index''" and num_bytes = num_bytes and memory = memory]
    by (elim exE conjE) (rule that)
  let ?jr = "\<lparr>sr_table = Some (big_get address_traits 6 b), sr_files = st_files (si_storage si)\<rparr>"
  define idx where "idx = (indexed_properties ''UIntUInt'' (si_sorting si) (si_stats si), si_storage si)"
  have "kus = kjs" using x(6) by (induction kjs kus rule: list_all2_induct) (auto simp: sorted_as_def)
  then have "answers pair_traits kjs ?jr" unfolding answers_def using x(7,8) assms(4) by auto
  moreover have "unat (of_nat (length kjs) :: u64) = length kjs" using assms(8) by (intro unat_of_nat_u64) simp
  then have "ip_key_count (fst idx) \<noteq> 0" using x(2) False by (auto simp: idx_def indexed_properties_def)
  then have "open_phrase_index cmph malloc table_dir num_bytes memory idx = Some (Inr ?jr)"
    using open_built_index [of idx table, OF _ _ _ _ x(4,5)] x(3) by (simp add: idx_def indexed_properties_def)
  moreover have "obind (sorted_inserts k (new_sorted_input SortingDisabled) (concat (map (\<lambda>(key, js). map (Pair key) js) kjs)))
      (\<lambda>si. indexer_index k ''UIntUInt'' key_order dir_order (SortedRecords si)) = Some (Inr idx)"
    using x(1) by (auto simp: obind_eq_Inr indexer_index_def idx_def)
  ultimately show ?thesis by blast
qed

lemma obind_records: "obind (obind r (\<lambda>si. Some (Inr (SortedRecords si)))) f = obind r (\<lambda>si. f (SortedRecords si))"
  by (auto simp: obind_def split: option.split sum.split)

lemma postlist_index_answers:
  assumes "minimal_perfect cmph" "\<And>n. length (malloc n) = n" "std_sorts srt pair_less" "std_sorts srt pair_greater"
    and "\<And>key vs. (key, vs) \<in> set kvs \<Longrightarrow> plain_word key \<and> plain_key key \<and> length key < 2 ^ 16 \<and> length vs < 10000000"
    and "distinct (map fst kvs)" "length kvs < 10000000" "answers pair_traits kvs sr" "lists_keys table (map fst kvs)"
    and "open_phrase_index cmph malloc (phrase_index_dir @ ''/table'') num_bytes 0 idx = Some (Inr sr)" "storage_close (snd idx) = Some table"
  shows "\<exists>jdx jr. build_postlist_index cmph malloc srt d key_order dir_order expected_size num_bytes phrase_index_dir idx postlist_index_dir EmptyDirectory
        = Some (Inr jdx)
    \<and> open_phrase_index cmph malloc table_dir num_bytes' memory jdx = Some (Inr jr) \<and> answers pair_traits (jump_lists d kvs) jr"
proof -
  let ?k = "phrase_kind srt" and ?lst = "\<lambda>key. the (map_of kvs key)"
  note pk = phrase_kind_ok [OF assms(3,4)]
  obtain kas where kas: "map fst kas = map fst kvs" "table = concat (map (\<lambda>(key, a). address_line key a @ [line_end]) kas)"
    using assms(9) by (auto simp: lists_keys_def)
  have known: "plain_word key \<and> length (?lst key) < 2 ^ 32
      \<and> (\<exists>p p'. search_stored sr key 0 UINT32_MAX = Some p \<and> pl_values pair_traits p = Some (Inr (?lst key, p')))"
    if key: "key \<in> fst ` set kas" for key
  proof -
    have "key \<in> set (map fst kvs)" using key arg_cong [OF kas(1), of set] by simp
    then obtain vs where vs: "(key, vs) \<in> set kvs" by auto
    then have l: "?lst key = vs" using assms(6) by simp
    have b: "plain_word key" "length vs < 2 ^ 32" using assms(5) [OF vs] by simp_all
    obtain p p' where "search_stored sr key 0 UINT32_MAX = Some p" "pl_values pair_traits p = Some (Inr (read_postlist vs 0 UINT32_MAX, p'))"
      using assms(8) vs unfolding answers_def by blast
    then show ?thesis using b read_all [OF b(2)] l by auto
  qed
  let ?ins = "indexer_insert ?k print_pair dir_order expected_size"
  let ?rs = "concat (map (\<lambda>(key, js). map (Pair key) js) (jump_lists d kvs))"
  have "list_all (\<lambda>r. assert_record (vk_traits ?k) print_pair r = Inr ()) ?rs"
    using assms(5) by (fastforce simp: list_all_iff jump_lists_def assert_record_def pk(2))
  then have ins: "index_table d sr ?ins table (SortedRecords si) = obind (sorted_inserts ?k si ?rs) (\<lambda>si. Some (Inr (SortedRecords si)))" for si
    using index_table_written [of kas ?lst sr d ?ins "SortedRecords si", OF known] sorted_records_inserted [of ?k print_pair ?rs dir_order expected_size si]
      jump_records [OF assms(6) kas(1), of d] kas(2) by simp
  note st = jump_lists_storable [of kvs d, OF _ assms(7)]
  have pl: "plain_key key \<and> length vs < 10000000" if "(key, vs) \<in> set kvs" for key vs using assms(5) [OF that] by blast
  have "map fst (jump_lists d kvs) = map fst (filter (\<lambda>(key, vs). jump_index d vs \<noteq> []) kvs)"
    unfolding jump_lists_def by (induction kvs) auto
  then have "distinct (map fst (jump_lists d kvs))" using assms(6) by (simp add: distinct_map_filter)
  from jump_lists_indexed [OF assms(1,2) pk(1,2) st(1) this st(2,3), of key_order dir_order table_dir num_bytes' memory] pl
  obtain jdx jr where j: "obind (sorted_inserts ?k (new_sorted_input SortingDisabled) ?rs)
        (\<lambda>si. indexer_index ?k ''UIntUInt'' key_order dir_order (SortedRecords si)) = Some (Inr jdx)"
      "open_phrase_index cmph malloc table_dir num_bytes' memory jdx = Some (Inr jr)" "answers pair_traits (jump_lists d kvs) jr"
    by blast
  have "build_postlist_index cmph malloc srt d key_order dir_order expected_size num_bytes phrase_index_dir idx postlist_index_dir EmptyDirectory
      = Some (Inr jdx)"
    using j(1) assms(10,11) by (simp add: build_postlist_index_def new_indexer_def assert_config_def ins obind_records)
  then show ?thesis using j(2,3) by blast
qed

section \<open>The tables of a corpus\<close>

text \<open>The keys with a posting list that is long enough for a jump index.\<close>

definition long_keys :: "parser_item list \<Rightarrow> string set" where
  "long_keys items = {phrase_key n i w | n i w. 1000 \<le> length (phrase_values n i w items)}"

lemma plain_word_phrase_key: "plain_word w \<Longrightarrow> plain_word (phrase_key n i w)"
proof -
  assume w: "plain_word w"
  have "is_valid_utf8 '':''" "is_valid_utf8 ''_''" by (rule is_valid_utf8_ascii, simp)+
  then have "is_valid_utf8 (phrase_key n i w)"
    using w plain_number unfolding phrase_key_def by (intro is_valid_utf8_append) (simp_all add: plain_word_def)
  moreover have "\<not> white_space CHR '':''" "\<not> white_space CHR ''_''" by (simp_all add: white_space_def)
  ultimately show ?thesis using w plain_number [of n] plain_number [of i] by (simp add: phrase_key_def plain_word_def)
qed

lemma index_keys:
  assumes "indexable itemss" "indexes_records (phrase_kind srt) SortingDescending (corpus_records itemss) kvs" "(key, vs) \<in> set kvs"
  shows "plain_word key \<and> plain_key key \<and> length key < 2 ^ 16 \<and> length vs < 10000000"
    "\<exists>n i w. key = phrase_key n i w \<and> mset vs = mset (phrase_values n i w (concat itemss))"
proof -
  have "key \<in> set (map fst kvs)" using assms(3) by force
  then obtain r where r: "r \<in> set (corpus_records itemss)" "key = fst r" using assms(2) unfolding indexes_records_def by blast
  obtain item i where i: "item \<in> set (concat itemss)" "i < length (pi_words item)" "r = word_record item i"
    using record_keys [OF r(1) [unfolded corpus_records_def]] by blast
  then have key: "key = phrase_key (length (pi_words item)) i (pi_words item ! i)" using r(2) by (simp add: word_record_def)
  have "plain_item item" using i(1) indexable_items(1) [OF assms(1)] unfolding list_all_iff by blast
  then have p: "plain_word (pi_words item ! i)" using i(2) by (simp add: plain_item_def list_all_length)
  have "length key < 2 ^ 16" using assms(1) r unfolding indexable_def list_all_iff by blast
  moreover have "sorted_as (phrase_kind srt) SortingDescending (values_of key (corpus_records itemss)) vs"
    using assms(2,3) by (auto simp: indexes_records_def list_all_iff)
  then have m: "mset vs = mset (values_of key (corpus_records itemss))" by (rule sorted_as_mset)
  have "length (values_of key (corpus_records itemss)) \<le> length (corpus_records itemss)" by (simp add: values_of_def)
  then have "length vs < 10000000" using mset_eq_length [OF m] assms(1) by (simp add: indexable_def)
  ultimately show "plain_word key \<and> plain_key key \<and> length key < 2 ^ 16 \<and> length vs < 10000000"
    using plain_word_phrase_key [OF p] plain_phrase_key [OF p] key by blast
  show "\<exists>n i w. key = phrase_key n i w \<and> mset vs = mset (phrase_values n i w (concat itemss))"
    using m records_values [of "length (pi_words item)" i "pi_words item ! i" "concat itemss"] key by (auto simp: corpus_records_def)
qed

lemma jump_keys:
  assumes "indexable itemss" "indexes_records (phrase_kind srt) SortingDescending (corpus_records itemss) kvs"
  shows "fst ` set (jump_lists d kvs) \<subseteq> long_keys (concat itemss)"
proof
  fix key assume "key \<in> fst ` set (jump_lists d kvs)"
  then obtain vs where vs: "(key, vs) \<in> set kvs" "jump_index d vs \<noteq> []" by (auto simp: jump_lists_def)
  note i = index_keys [OF assms vs(1)]
  have "length (jump_index d vs) = length vs div 1000" using i(1) by (intro jump_index_ok(2)) simp
  then have "length vs div 1000 \<noteq> 0" using vs(2) by (metis length_0_conv)
  moreover obtain n j w where "key = phrase_key n j w" "mset vs = mset (phrase_values n j w (concat itemss))" using i(2) by blast
  ultimately show "key \<in> long_keys (concat itemss)" using mset_eq_length by (fastforce simp: long_keys_def)
qed

lemma tables_built:
  assumes "minimal_perfect cmph" "\<And>n. length (malloc n) = n" "std_sorts srt pair_less" "std_sorts srt pair_greater"
    and "permuting key_order" "permuting dir_order" "indexable itemss"
  shows "\<exists>idx jdx kvs. build_phrase_index srt key_order dir_order expected_size estimate item expected (phrase_files itemss) = Some (Inr idx)
    \<and> build_postlist_index cmph malloc srt d key_order dir_order expected_size num_bytes phrase_index_dir idx postlist_index_dir EmptyDirectory
        = Some (Inr jdx)
    \<and> indexes_records (phrase_kind srt) SortingDescending (corpus_records itemss) kvs
    \<and> (\<forall>table_dir num_bytes memory. \<exists>sr. open_phrase_index cmph malloc table_dir num_bytes memory idx = Some (Inr sr)
        \<and> answers pair_traits kvs sr)
    \<and> (\<forall>table_dir num_bytes memory. \<exists>jr. open_phrase_index cmph malloc table_dir num_bytes memory jdx = Some (Inr jr)
        \<and> answers pair_traits (jump_lists d kvs) jr)"
proof -
  obtain idx kvs table where x: "build_phrase_index srt key_order dir_order expected_size estimate item expected (phrase_files itemss) = Some (Inr idx)"
      "indexes_records (phrase_kind srt) SortingDescending (corpus_records itemss) kvs"
      "storage_close (snd idx) = Some table" "lists_keys table (map fst kvs)"
      "\<forall>table_dir num_bytes memory. \<exists>sr. open_phrase_index cmph malloc table_dir num_bytes memory idx = Some (Inr sr)
        \<and> answers pair_traits kvs sr"
    using phrase_index_answers [OF assms, of expected_size estimate item expected] unfolding phrase_files_def by blast
  obtain sr where sr: "open_phrase_index cmph malloc (phrase_index_dir @ ''/table'') num_bytes 0 idx = Some (Inr sr)" "answers pair_traits kvs sr"
    using x(5) by blast
  have d: "distinct (map fst kvs)" using x(2) by (simp add: indexes_records_def)
  have n: "length kvs < 10000000" using indexed_length [OF x(2)] assms(7) by (simp add: indexable_def)
  note j = postlist_index_answers [OF assms(1-4) index_keys(1) [OF assms(7) x(2)] d n sr(2) x(4) sr(1) x(3), of d key_order dir_order expected_size
      postlist_index_dir]
  obtain jdx where jdx: "build_postlist_index cmph malloc srt d key_order dir_order expected_size num_bytes phrase_index_dir idx postlist_index_dir EmptyDirectory
      = Some (Inr jdx)" using j by blast
  have "\<exists>jr. open_phrase_index cmph malloc table_dir num_bytes' memory jdx = Some (Inr jr) \<and> answers pair_traits (jump_lists d kvs) jr"
    for table_dir num_bytes' memory using j [of table_dir num_bytes' memory] jdx by auto
  then show ?thesis using x(1,2,5) jdx by blast
qed

text \<open>
  C24. \<open>BuildPostlistIndex\<close> on the phrase index of a corpus: it finds every key of the index, and when its
  result is opened, every posting list of a thousand values or more has a jump index of one entry for
  every thousand values: positions of the list in ascending order, each with the frequency of the value
  there, and zeros where the last quantiles are not reached.  Shorter lists have none.
\<close>

theorem postlist_index_correct:
  assumes "minimal_perfect cmph" "\<And>n. length (malloc n) = n" "std_sorts srt pair_less" "std_sorts srt pair_greater"
    and "permuting key_order" "permuting dir_order" "indexable itemss"
  shows "\<exists>idx jdx sr jr. build_phrase_index srt key_order dir_order expected_size estimate item expected (phrase_files itemss) = Some (Inr idx)
    \<and> build_postlist_index cmph malloc srt d key_order dir_order expected_size num_bytes phrase_index_dir idx postlist_index_dir EmptyDirectory
        = Some (Inr jdx)
    \<and> open_phrase_index cmph malloc table_dir num_bytes memory idx = Some (Inr sr)
    \<and> open_phrase_index cmph malloc jump_table_dir jump_bytes memory jdx = Some (Inr jr)
    \<and> (\<forall>n i w. 1000 \<le> length (phrase_values n i w (concat itemss)) \<longrightarrow>
        (\<exists>vs js. stored_index pair_traits sr (phrase_key n i w) = Some vs \<and> mset vs = mset (phrase_values n i w (concat itemss))
          \<and> in_order pair_greater vs
          \<and> stored_index pair_traits jr (phrase_key n i w)
              = Some (map (jump_entry vs) js @ replicate (length vs div 1000 - length js) (0, 0))
          \<and> length js \<le> length vs div 1000 \<and> sorted js \<and> (\<forall>j \<in> set js. j < length vs \<and> unat (fst (jump_entry vs j)) = j)))
    \<and> (\<forall>key. hash32 key \<notin> hash32 ` long_keys (concat itemss) \<longrightarrow> stored_index pair_traits jr key = None)"
proof -
  obtain idx jdx kvs sr jr where x: "build_phrase_index srt key_order dir_order expected_size estimate item expected (phrase_files itemss) = Some (Inr idx)"
      "build_postlist_index cmph malloc srt d key_order dir_order expected_size num_bytes phrase_index_dir idx postlist_index_dir EmptyDirectory
        = Some (Inr jdx)"
      "indexes_records (phrase_kind srt) SortingDescending (corpus_records itemss) kvs"
      "open_phrase_index cmph malloc table_dir num_bytes memory idx = Some (Inr sr)" "answers pair_traits kvs sr"
      "open_phrase_index cmph malloc jump_table_dir jump_bytes memory jdx = Some (Inr jr)" "answers pair_traits (jump_lists d kvs) jr"
    using tables_built [OF assms, of expected_size estimate item expected d num_bytes phrase_index_dir postlist_index_dir] by blast
  have "\<exists>vs js. stored_index pair_traits sr (phrase_key n i w) = Some vs \<and> mset vs = mset (phrase_values n i w (concat itemss))
      \<and> in_order pair_greater vs
      \<and> stored_index pair_traits jr (phrase_key n i w) = Some (map (jump_entry vs) js @ replicate (length vs div 1000 - length js) (0, 0))
      \<and> length js \<le> length vs div 1000 \<and> sorted js \<and> (\<forall>j \<in> set js. j < length vs \<and> unat (fst (jump_entry vs j)) = j)"
    if long: "1000 \<le> length (phrase_values n i w (concat itemss))" for n i w
  proof -
    have "phrase_values n i w (concat itemss) \<noteq> []" using long by auto
    then obtain vs where vs: "(phrase_key n i w, vs) \<in> set kvs" "mset vs = mset (phrase_values n i w (concat itemss))" "in_order pair_greater vs"
      using indexed_phrase [OF x(3)] by blast
    have l: "length vs < 2 ^ 32" using index_keys(1) [OF assms(7) x(3) vs(1)] by simp
    note j = jump_index_ok [OF l, of d]
    have n: "length (jump_index d vs) < 2 ^ 32" using j(2) l by simp
    have "jump_index d vs \<noteq> []" using j(2) long mset_eq_length [OF vs(2)] by (metis div_less_iff_less_mult less_one linorder_not_less list.size(3) mult_1 zero_less_numeral)
    then have "(phrase_key n i w, jump_index d vs) \<in> set (jump_lists d kvs)" using vs(1) by (force simp: jump_lists_def)
    from stored_index_answers(1) [OF x(7) this n] stored_index_answers(1) [OF x(5) vs(1) l]
    show ?thesis using index_postlist_correct [OF l, of d "length vs div 1000"] j(1) vs(2,3) by auto
  qed
  moreover have "stored_index pair_traits jr key = None" if "hash32 key \<notin> hash32 ` long_keys (concat itemss)" for key
    using jump_keys [OF assms(7) x(3), of d] that by (intro stored_index_answers(2) [OF x(7)]) blast
  ultimately show ?thesis using x(1,2,4,6) by blast
qed

text \<open>The file of a thousand copies of a word, which have one posting list.\<close>

definition ex_long_file :: "nat \<Rightarrow> parser_item list" where
  "ex_long_file n = map (\<lambda>i. \<lparr>pi_id = of_nat i, pi_freq = 5, pi_words = [''a'']\<rparr>) [0..<n]"

lemma ex_long_file_values: "phrase_values 1 0 ''a'' (ex_long_file n) = map (\<lambda>i. (5, of_nat i)) [0..<n]"
  by (simp add: phrase_values_def ex_long_file_def filter_map comp_def)

lemma ex_long_file_ok:
  assumes "0 < n" "n < 10000000"
  shows "indexable [ex_long_file n]"
proof -
  have "plain_word ''a''" by code_simp
  then have p: "list_all plain_item (ex_long_file n)" by (simp add: list_all_iff ex_long_file_def plain_item_def)
  have d: "show_nat 0 = ''0''" "show_nat 1 = ''1''" by code_simp+
  have k: "length (phrase_key 1 0 ''a'') < 2 ^ 16" unfolding phrase_key_def d by simp
  have "corpus_records [ex_long_file n] = map (\<lambda>i. (phrase_key 1 0 ''a'', 5, of_nat i)) [0..<n]"
    by (induction n) (simp_all add: corpus_records_def ex_long_file_def item_records_def word_record_def)
  then show ?thesis using assms p k by (auto simp: indexable_def list_all_iff ex_long_file_def)
qed

theorem postlist_index_correct_witness:
  "\<exists>idx jdx sr jr js. build_phrase_index stable_sort rev rev (\<lambda>a b c. a) (\<lambda>a b c. b) ex_old_item 1000 (phrase_files [ex_long_file 1000]) = Some (Inr idx)
    \<and> build_postlist_index numbering (\<lambda>k. replicate k 0) stable_sort ex_ops rev rev (\<lambda>a b c. a) 10 ''phrase-index'' idx ''postlist-index'' EmptyDirectory
        = Some (Inr jdx)
    \<and> open_phrase_index numbering (\<lambda>k. replicate k 0) ''phrase-index/table'' 10 1000 idx = Some (Inr sr)
    \<and> open_phrase_index numbering (\<lambda>k. replicate k 0) ''postlist-index/table'' 10 1000 jdx = Some (Inr jr)
    \<and> stored_index pair_traits jr (phrase_key 1 0 ''a'') = Some js \<and> length js = 1"
proof -
  let ?m = "\<lambda>k. replicate k (0 :: u8)"
  have e: "indexable [ex_long_file 1000]" by (rule ex_long_file_ok) simp_all
  have m: "length (?m k) = k" for k by simp
  obtain idx jdx sr jr where x: "build_phrase_index stable_sort rev rev (\<lambda>a b c. a) (\<lambda>a b c. b) ex_old_item 1000 (phrase_files [ex_long_file 1000]) = Some (Inr idx)"
      "build_postlist_index numbering ?m stable_sort ex_ops rev rev (\<lambda>a b c. a) 10 ''phrase-index'' idx ''postlist-index'' EmptyDirectory = Some (Inr jdx)"
      "open_phrase_index numbering ?m ''phrase-index/table'' 10 1000 idx = Some (Inr sr)"
      "open_phrase_index numbering ?m ''postlist-index/table'' 10 1000 jdx = Some (Inr jr)"
      "\<forall>n i w. 1000 \<le> length (phrase_values n i w (concat [ex_long_file 1000])) \<longrightarrow>
        (\<exists>vs js. stored_index pair_traits sr (phrase_key n i w) = Some vs \<and> mset vs = mset (phrase_values n i w (concat [ex_long_file 1000]))
          \<and> in_order pair_greater vs
          \<and> stored_index pair_traits jr (phrase_key n i w)
              = Some (map (jump_entry vs) js @ replicate (length vs div 1000 - length js) (0, 0))
          \<and> length js \<le> length vs div 1000 \<and> sorted js \<and> (\<forall>j \<in> set js. j < length vs \<and> unat (fst (jump_entry vs j)) = j))"
    using postlist_index_correct [OF numbering_perfect m stable_sort_ok permuting_rev(1) permuting_rev(1) e,
        where expected_size = "\<lambda>a b c. a" and estimate = "\<lambda>a b c. b" and item = ex_old_item and expected = 1000 and d = ex_ops
          and num_bytes = 10 and phrase_index_dir = "''phrase-index''" and postlist_index_dir = "''postlist-index''"
          and table_dir = "''phrase-index/table''" and memory = 1000 and jump_table_dir = "''postlist-index/table''" and jump_bytes = 10]
    by (elim exE conjE) (rule that)
  have l: "length (phrase_values 1 0 ''a'' (concat [ex_long_file 1000])) = 1000"
    unfolding concat.simps append_Nil2 ex_long_file_values by (simp del: upt_rec_numeral)
  obtain vs js where v: "mset vs = mset (phrase_values 1 0 ''a'' (concat [ex_long_file 1000]))" "length js \<le> length vs div 1000"
      "stored_index pair_traits jr (phrase_key 1 0 ''a'') = Some (map (jump_entry vs) js @ replicate (length vs div 1000 - length js) (0, 0))"
    using x(5) l by (metis order_refl)
  have "length vs = 1000" using mset_eq_length [OF v(1)] l by simp
  then have "length (map (jump_entry vs) js @ replicate (length vs div 1000 - length js) (0, 0)) = 1" using v(2) by simp
  then show ?thesis using x(1-4) v(3) by blast
qed

section \<open>The search on the built tables\<close>

text \<open>
  The frequencies are those of a corpus: a part of a phrase is a phrase that is at least as frequent, or a
  text whose checksum no phrase has.
\<close>

definition parts_counted :: "parser_item list \<Rightarrow> bool" where
  "parts_counted items \<longleftrightarrow> (\<forall>item \<in> set items. \<forall>ws \<in> set (sublists (pi_words item)).
    (\<exists>part \<in> set items. pi_words part = ws \<and> ucast (ucast (pi_freq item) :: u32) \<le> pi_freq part)
    \<or> hash32 (join_with '' '' ws) \<notin> hash32 ` phrase_text ` set items)"

text \<open>
  The jump indexes lead to the first value of a frequency: the frequencies of a long list are different,
  and a short list is not taken for a long one.
\<close>

definition jumps_exact :: "parser_item list \<Rightarrow> norm_query \<Rightarrow> bool" where
  "jumps_exact items q \<longleftrightarrow> (\<forall>i < length q. \<not> n_is_qmark (q ! i) \<longrightarrow>
    (let key = phrase_key (length q) i (n_text (q ! i)); vs = phrase_values (length q) i (n_text (q ! i)) items
     in if 1000 \<le> length vs then distinct (map fst vs) else hash32 key \<notin> hash32 ` long_keys items))"

definition not_pruned :: "search_options \<Rightarrow> parser_item list \<Rightarrow> norm_query \<Rightarrow> bool" where
  "not_pruned options items q \<longleftrightarrow> (\<forall>i < length q. \<not> n_is_qmark (q ! i) \<longrightarrow>
    length (phrase_values (length q) i (n_text (q ! i)) items) \<le> unat (min (so_pruning_high options) (so_pruning_low options)))"

lemma jump_index_indexes:
  assumes "length vs < 2 ^ 32" "distinct (map fst vs)"
  shows "indexes (jump_index d vs) vs"
proof -
  obtain js where js: "jump_index d vs = map (jump_entry vs) js @ replicate (length vs div 1000 - length js) (0, 0)"
      "\<forall>j \<in> set js. j < length vs \<and> unat (fst (jump_entry vs j)) = j"
    using index_postlist_correct [OF assms(1), of d "length vs div 1000"] jump_index_ok(1) [OF assms(1), of d] by auto
  have "fst (vs ! i) \<noteq> fst (vs ! j)" if "i < j" "j < length vs" for i j
    using nth_eq_iff_index_eq [OF assms(2), of i j] that by simp
  then have d: "\<forall>i < j. fst (vs ! i) \<noteq> fst (vs ! j)" if "j < length vs" for j using that by blast
  have "unat (fst e) < length vs \<and> fst (vs ! unat (fst e)) = snd e \<and> (\<forall>i < unat (fst e). fst (vs ! i) \<noteq> snd e)"
    if e: "e \<in> jump_entry vs ` set js" for e
  proof -
    obtain j where j: "j \<in> set js" "e = jump_entry vs j" using e by blast
    then have "unat (fst e) = j" "j < length vs" using js(2) by blast+
    moreover have "snd e = fst (vs ! j)" by (simp add: j(2) jump_entry_def)
    ultimately show ?thesis using d by simp
  qed
  then show ?thesis unfolding indexes_def js(1) by (fastforce simp: case_prod_beta)
qed

lemma built_dictionary_monotone:
  assumes "parts_counted items"
    and "\<forall>item \<in> set items. rs_dictionary s (phrase_text item) = Some (pi_freq item, pi_id item)"
    and "\<forall>key v. rs_dictionary s key = Some v \<longrightarrow> (\<exists>item \<in> set items. v = (pi_freq item, pi_id item) \<and> hash32 (phrase_text item) = hash32 key)"
  shows "ngram_monotone s (item_phrase ` set items)"
  unfolding ngram_monotone_def
proof (intro allI impI ballI)
  fix ws f i p
  assume x: "rs_dictionary s (join_with '' '' ws) = Some (f, i)" "p \<in> item_phrase ` set items" "\<exists>xs ys. cp_words p = xs @ ws @ ys"
  obtain item where item: "item \<in> set items" "p = item_phrase item" using x(2) by blast
  then have "ws \<in> set (sublists (pi_words item))" using x(3) by (auto simp: item_phrase_def sublist_def)
  moreover have "hash32 (join_with '' '' ws) \<in> hash32 ` phrase_text ` set items" using assms(3) x(1) by (metis imageI)
  ultimately obtain part where part: "part \<in> set items" "pi_words part = ws" "ucast (ucast (pi_freq item) :: u32) \<le> pi_freq part"
    using assms(1) item(1) unfolding parts_counted_def by blast
  then have "f = pi_freq part" using assms(2) x(1) by (fastforce simp: phrase_text_def)
  then show "ucast (cp_freq p) \<le> f" using part(3) by (simp add: item(2) item_phrase_def)
qed

lemma built_tables_fit:
  assumes "indexable itemss" "indexes_records (phrase_kind srt) SortingDescending (corpus_records itemss) kvs"
    and "answers pair_traits kvs sr" "answers pair_traits (jump_lists d kvs) jr"
    and "rs_phrase_index s = stored_index pair_traits sr" "rs_postlist_index s = stored_index pair_traits jr"
    and "ngram_monotone s (item_phrase ` set (concat itemss))"
    and "jumps_exact (concat itemss) q" "not_pruned options (concat itemss) q"
  shows "fits_index s itemss options q"
proof -
  let ?vs = "\<lambda>m. phrase_values (length q) (um_position m) (n_text (q ! um_position m)) (concat itemss)"
  have pos: "um_position m < length q \<and> \<not> n_is_qmark (q ! um_position m)" if "m \<in> set (initialize_query s options q)" for m
    using initialize_query_positions [of s options q] that by blast
  have "indexes I L \<and> length I < 2 ^ 32"
    if m: "m \<in> set (initialize_query s options q)" and I: "rs_postlist_index s (make_key q m) = Some I" and L: "rs_phrase_index s (make_key q m) = Some L"
    for m I L
  proof (cases "1000 \<le> length (?vs m)")
    case True
    then have "?vs m \<noteq> []" by auto
    then obtain vs where vs: "(make_key q m, vs) \<in> set kvs" "mset vs = mset (?vs m)"
      using indexed_phrase [OF assms(2)] unfolding make_key_phrase by blast
    have l: "length vs < 2 ^ 32" using index_keys(1) [OF assms(1,2) vs(1)] by simp
    note j = jump_index_ok(2) [OF l, of d]
    have n: "length (jump_index d vs) < 2 ^ 32" using j l by simp
    have "0 < length vs div 1000" using True mset_eq_length [OF vs(2)] by (simp add: div_greater_zero_iff)
    then have "jump_index d vs \<noteq> []" using j by auto
    then have "(make_key q m, jump_index d vs) \<in> set (jump_lists d kvs)" using vs(1) by (force simp: jump_lists_def)
    then have "I = jump_index d vs" "L = vs"
      using stored_index_answers(1) [OF assms(4) _ n] stored_index_answers(1) [OF assms(3) vs(1) l] I L assms(5,6) by simp_all
    moreover have "distinct (map fst (?vs m))" using assms(8) pos [OF m] True unfolding jumps_exact_def Let_def by presburger
    then have "distinct (map fst vs)" using vs(2) mset_eq_imp_distinct_iff [of "map fst vs" "map fst (?vs m)"] by simp
    ultimately show ?thesis using jump_index_indexes [OF l] n by simp
  next
    case False
    then have "hash32 (make_key q m) \<notin> hash32 ` long_keys (concat itemss)"
      using assms(8) pos [OF m] unfolding jumps_exact_def Let_def make_key_phrase by presburger
    then have "hash32 (make_key q m) \<notin> hash32 ` fst ` set (jump_lists d kvs)" using jump_keys [OF assms(1,2), of d] by blast
    then show ?thesis using stored_index_answers(2) [OF assms(4)] I assms(6) by simp
  qed
  moreover have "length (?vs m) \<le> unat (um_pruning m)" if m: "m \<in> set (initialize_query s options q)" for m
  proof -
    have "um_pruning m \<in> {so_pruning_high options, so_pruning_low options}"
      if "m \<in> set (initialize_query_loop s options us n)" for us n
      using that by (induction s options us n rule: initialize_query_loop.induct) (auto simp: Let_def)
    from this [of q 0] have "um_pruning m \<in> {so_pruning_high options, so_pruning_low options}" using m by (simp add: initialize_query_def)
    then have "min (so_pruning_high options) (so_pruning_low options) \<le> um_pruning m" by auto
    then have "unat (min (so_pruning_high options) (so_pruning_low options)) \<le> unat (um_pruning m)" by (simp only: word_le_nat_alt)
    then show ?thesis using assms(9) pos [OF m] unfolding not_pruned_def by (meson order_trans)
  qed
  ultimately show ?thesis using assms(7) unfolding fits_index_def by blast
qed

text \<open>
  C5. From the phrase files to the answers: the phrase dictionary, the phrase index and from it the
  postlist index are built of the files and opened, and the query processor on these tables finds the most
  frequent phrases of the files that a norm query accepts, each once and by descending frequency, as many
  as there are up to \<open>max_phrase_count\<close>.
\<close>

theorem built_tables_search:
  assumes "minimal_perfect cmph" "\<And>n. length (malloc n) = n" "std_sorts srt pair_less" "std_sorts srt pair_greater"
    and "permuting key_order" "permuting dir_order" "indexable itemss" "unique_ids (concat itemss)" "distinct_phrases (concat itemss)"
    and "parts_counted (concat itemss)" "jumps_exact (concat itemss) q" "not_pruned options (concat itemss) q"
    and "query_keys_told_apart itemss q" "query_words_ok q" "n_has_words q"
  shows "\<exists>ms b idx jdx sr jr. build_phrase_dictionary cmph malloc dictionary_dir (phrase_files itemss) = Some (Inr ms)
    \<and> big_open dictionary_bytes 0 12 ms = Inr b
    \<and> build_phrase_index srt key_order dir_order expected_size estimate item expected (phrase_files itemss) = Some (Inr idx)
    \<and> build_postlist_index cmph malloc srt d key_order dir_order expected_size index_bytes phrase_index_dir idx postlist_index_dir EmptyDirectory
        = Some (Inr jdx)
    \<and> open_phrase_index cmph malloc (phrase_index_dir @ ''/table'') index_bytes memory idx = Some (Inr sr)
    \<and> open_phrase_index cmph malloc (postlist_index_dir @ ''/table'') jump_bytes memory jdx = Some (Inr jr)
    \<and> (let s = \<lparr>rs_dictionary = dictionary_value b, rs_postlist_index = stored_index pair_traits jr,
                  rs_phrase_index = stored_index pair_traits sr\<rparr>;
            C = item_phrase ` set (concat itemss); refs = rr_refs (process s options q)
        in sorted_wrt (\<lambda>a b. ref_freq b \<le> ref_freq a) refs \<and> distinct refs
          \<and> set refs \<subseteq> ref_of ` accepted C options q
          \<and> length refs = min (unat (so_max_phrase_count options)) (card (accepted C options q))
          \<and> (\<forall>p \<in> accepted C options q. \<forall>r \<in> set refs. ref_of p \<notin> set refs \<longrightarrow> cp_freq p \<le> ref_freq r))"
proof -
  obtain ms b where b: "build_phrase_dictionary cmph malloc dictionary_dir (phrase_files itemss) = Some (Inr ms)"
      "big_open dictionary_bytes 0 12 ms = Inr b"
      "\<forall>item \<in> set (concat itemss). dictionary_value b (phrase_text item) = Some (pi_freq item, pi_id item)"
      "\<forall>key v. dictionary_value b key = Some v \<longrightarrow>
        (\<exists>item \<in> set (concat itemss). v = (pi_freq item, pi_id item) \<and> hash32 (phrase_text item) = hash32 key)"
    using phrase_dictionary_correct [OF assms(1,2,7,9), of dictionary_dir dictionary_bytes 0] by blast
  obtain idx jdx kvs sr jr where x: "build_phrase_index srt key_order dir_order expected_size estimate item expected (phrase_files itemss) = Some (Inr idx)"
      "build_postlist_index cmph malloc srt d key_order dir_order expected_size index_bytes phrase_index_dir idx postlist_index_dir EmptyDirectory
        = Some (Inr jdx)"
      "indexes_records (phrase_kind srt) SortingDescending (corpus_records itemss) kvs"
      "open_phrase_index cmph malloc (phrase_index_dir @ ''/table'') index_bytes memory idx = Some (Inr sr)" "answers pair_traits kvs sr"
      "open_phrase_index cmph malloc (postlist_index_dir @ ''/table'') jump_bytes memory jdx = Some (Inr jr)"
      "answers pair_traits (jump_lists d kvs) jr"
    using tables_built [OF assms(1-7), of expected_size estimate item expected d index_bytes phrase_index_dir postlist_index_dir] by blast
  define s where "s = \<lparr>rs_dictionary = dictionary_value b, rs_postlist_index = stored_index pair_traits jr, rs_phrase_index = stored_index pair_traits sr\<rparr>"
  have r: "rs_phrase_index s = stored_index pair_traits sr" "rs_postlist_index s = stored_index pair_traits jr" "rs_dictionary s = dictionary_value b"
    by (simp_all add: s_def)
  have "ngram_monotone s (item_phrase ` set (concat itemss))"
    using b(3,4) unfolding r(3) [symmetric] by (rule built_dictionary_monotone [OF assms(10)])
  note fits = built_tables_fit [OF assms(7) x(3,5,7) r(1,2) this assms(11,12)]
  note ready = built_index_ready [OF assms(7,8,13) x(3,5) r(1) fits assms(14,15)]
  show ?thesis using b(1,2) x(1,2,4,6) process_finds [OF ready] unfolding Let_def s_def by blast
qed

text \<open>The query \<open>the ? cat\<close> over the files of bigrams and trigrams.\<close>

lemma ex_parts_counted: "parts_counted (concat ex_phrase_files)"
  by code_simp

lemma ex_values_short: "length (phrase_values n i w (concat ex_phrase_files)) \<le> 4"
proof -
  have "length (phrase_values n i w items) \<le> length items" for items by (simp add: phrase_values_def)
  moreover have "length (concat ex_phrase_files) = 4" by (simp add: ex_phrase_files_def)
  ultimately show ?thesis by metis
qed

lemma ex_jumps: "jumps_exact (concat ex_phrase_files) ex_norm_query" "not_pruned ex_search_options (concat ex_phrase_files) ex_norm_query"
proof -
  have "\<not> 1000 \<le> length (phrase_values n i w (concat ex_phrase_files))" for n i w using ex_values_short [of n i w] by linarith
  then show "jumps_exact (concat ex_phrase_files) ex_norm_query" by (simp add: jumps_exact_def long_keys_def)
  have "4 \<le> unat (min (so_pruning_high ex_search_options) (so_pruning_low ex_search_options))" by (simp add: ex_search_options_def)
  then show "not_pruned ex_search_options (concat ex_phrase_files) ex_norm_query"
    using ex_values_short unfolding not_pruned_def by (meson order_trans)
qed

theorem built_tables_search_witness:
  "\<exists>ms b idx jdx sr jr. build_phrase_dictionary numbering (\<lambda>k. replicate k 0) ''phrase-dictionary'' (phrase_files ex_phrase_files) = Some (Inr ms)
    \<and> big_open 10 0 12 ms = Inr b
    \<and> build_phrase_index stable_sort rev rev (\<lambda>a b c. a) (\<lambda>a b c. b) ex_old_item 10 (phrase_files ex_phrase_files) = Some (Inr idx)
    \<and> build_postlist_index numbering (\<lambda>k. replicate k 0) stable_sort ex_ops rev rev (\<lambda>a b c. a) 10 ''phrase-index'' idx ''postlist-index'' EmptyDirectory
        = Some (Inr jdx)
    \<and> open_phrase_index numbering (\<lambda>k. replicate k 0) (''phrase-index'' @ ''/table'') 10 1000 idx = Some (Inr sr)
    \<and> open_phrase_index numbering (\<lambda>k. replicate k 0) (''postlist-index'' @ ''/table'') 10 1000 jdx = Some (Inr jr)
    \<and> (let s = \<lparr>rs_dictionary = dictionary_value b, rs_postlist_index = stored_index pair_traits jr,
                  rs_phrase_index = stored_index pair_traits sr\<rparr>;
            C = item_phrase ` set (concat ex_phrase_files); refs = rr_refs (process s ex_search_options ex_norm_query)
        in sorted_wrt (\<lambda>a b. ref_freq b \<le> ref_freq a) refs \<and> distinct refs
          \<and> set refs \<subseteq> ref_of ` accepted C ex_search_options ex_norm_query
          \<and> length refs = min (unat (so_max_phrase_count ex_search_options)) (card (accepted C ex_search_options ex_norm_query))
          \<and> (\<forall>p \<in> accepted C ex_search_options ex_norm_query. \<forall>r \<in> set refs. ref_of p \<notin> set refs \<longrightarrow> cp_freq p \<le> ref_freq r))"
proof -
  have q: "query_words_ok ex_norm_query" "n_has_words ex_norm_query" by (simp_all add: query_words_ok_def ex_norm_query_def)
  have m: "length (replicate k (0 :: u8)) = k" for k by simp
  show ?thesis
    by (rule built_tables_search [OF numbering_perfect m stable_sort_ok permuting_rev(1) permuting_rev(1) ex_phrase_files_ok
        ex_unique_ids ex_distinct_phrases ex_parts_counted ex_jumps ex_keys_told_apart q])
qed

end
