(* ===== verification/Spec2Isabelle.thy ===== *)
theory Spec2Isabelle
  imports Search_Completeness Query_Constructor Request_Logger Configuration Regex_Parser Regex_Index Built_Netspeak
begin

text \<open>
  A verification library for the search core of netspeak4-application-ngrams, the C++ sources
  under \<open>src/src/netspeak\<close>.  This header describes the program, the theories that model it, what
  their lemmas show, and what is left out.

  The program.  \<open>Netspeak::search\<close> answers wildcard queries over a corpus of n-grams.  A query is
  parsed into a tree (\<open>model/Query\<close>); \<open>QueryNormalizer\<close> turns the tree into norm queries, lists of
  words and question marks (\<open>model/NormQuery\<close>): it simplifies the tree (\<open>model/SimpleQuery\<close>),
  optimizes it, replaces regexes by the words that \<open>RegexIndex\<close> finds, multiplies alternatives
  out into star queries and expands the stars with \<open>ChainCutter\<close>.  A norm query without question
  marks is looked up in the phrase dictionary.  One with question marks is answered from the result
  cache (\<open>util/LfuCache\<close>) or by \<open>QueryProcessor\<close>, which intersects the posting lists that
  \<open>RetrievalStrategy3\<close> reads from the inverted index.  The results are merged, the phrases are read
  from \<open>PhraseCorpus\<close>, which finds words in a \<open>util/StringIdMap\<close>, and put into the response.

  Conventions.  A class is a \<open>record\<close>, an enum or a tagged unit a \<open>datatype\<close>; integers keep their
  width (\<open>u8\<close> to \<open>u64\<close>), sizes and indexes of containers are \<open>nat\<close>.  A thrown exception is \<open>Inl\<close> of
  the sum type \<open>result\<close>; undefined behaviour (an access out of bounds, \<open>end()\<close> dereferenced or
  erased) is \<open>None\<close>.  Shared pointers to units that are never changed are values, and the source
  of a unit is the path of the unit in the parse tree.  A loop is a recursive function over the
  same variables, named after the function with \<open>_loop\<close>.  Loops that probe a hash table carry fuel:
  as many steps as the table has slots, after which a probe has seen every slot.  Everything else
  is total.

  The theories, from the bottom up.

    \<^item> \<open>Prelude\<close>: errors, sequencing of results, bounds on words, lists updated by index.
      \<open>Texts\<close>: decimal numbers and \<open>boost::join\<close>.  \<open>Std_Algorithms\<close>: \<open>std::next_permutation\<close>;
      \<open>Std_Heaps\<close>: the heap algorithms, with the locale \<open>heap_algorithms\<close> for what the standard
      promises and its interpretation \<open>std\<close> on the sift-up and sift-down implementations.
    \<^item> \<open>Length_Range\<close>, \<open>Query_Model\<close>, \<open>Query_Language\<close>: \<open>model/LengthRange\<close>, the three query
      representations, and the phrase languages they stand for, which are the specification of
      the normalizer.
    \<^item> \<open>Simplifier\<close>, \<open>Optimizer\<close>, \<open>Star_Queries\<close>, \<open>Chain_Cutter\<close>, \<open>Norm_Queries\<close>,
      \<open>Norm_Estimate\<close>, \<open>Norm_Count\<close>, \<open>Normalizer\<close>: \<open>QueryNormalizer.cpp\<close> stage by stage with
      \<open>util/ChainCutter.hpp\<close> and \<open>util/Math.hpp\<close>; each stage keeps the language up to \<open>max_length\<close>.
    \<^item> \<open>Utf8\<close>, \<open>Regex_Query\<close>, \<open>Regex_Parser\<close>, \<open>Word_Table\<close>, \<open>Regex_Index\<close>: \<open>util/string.cpp\<close>,
      \<open>regex/RegexQuery\<close>, \<open>regex/parsers.cpp\<close> and \<open>regex/DefaultRegexIndex.cpp\<close>.  The builder and
      the parser are compared with the word languages of \<open>Languages\<close>, the index with the first
      words of a language in vocabulary order.
    \<^item> \<open>Retrieval\<close>: the contract between the query processor and a retrieval strategy, the locale
      \<open>retrieval_strategy\<close>.  \<open>Query_Processor\<close> (\<open>QueryProcessor.hpp\<close>) proves its loop in the locale;
      \<open>Inverted_Index\<close> and \<open>Retrieval_Strategy3\<close> (\<open>RetrievalStrategy3.hpp\<close>) interpret it as
      \<open>strategy3\<close>; \<open>Corpus_Search\<close> states what the search finds in a corpus of phrases.
    \<^item> \<open>Cache\<close>: the contract of a result cache, the locale \<open>result_cache\<close>; \<open>Lfu_Cache\<close>
      (\<open>util/LfuCache.hpp\<close>) interprets it as \<open>lfu\<close> and proves the invariant of the reachable states
      by rule induction.  \<open>Wildcard_Cache\<close> (\<open>Netspeak.cpp\<close>) uses it in the locale \<open>item_cache\<close>, which
      extends it, interpreted as \<open>items\<close>.
    \<^item> \<open>Phrases\<close>: \<open>model/Phrase\<close>, \<open>Words\<close>, \<open>RawRefResult\<close>, \<open>RawResult\<close> and \<open>util/Vec.hpp\<close>, with the
      locale \<open>weak_order\<close> of the orders that \<open>std::set\<close> is used with.  \<open>String_Id_Map\<close> and
      \<open>Phrase_Corpus\<close>: \<open>util/StringIdMap.hpp\<close>, \<open>PhraseCorpus.cpp\<close> and \<open>BuildPhraseCorpus\<close> of
      \<open>indexing.cpp\<close>.
    \<^item> \<open>Search\<close>: \<open>Netspeak::search\<close> and what it calls; the cache is the state it changes.
      \<open>Search_Completeness\<close>: a response that is not full has every phrase that is asked for.
    \<^item> \<open>Query_Constructor\<close>: \<open>antlr4/parse.cpp\<close>, the listener that builds the query tree from the calls of
      the tree walker, on a store of units.
    \<^item> \<open>Text_Files\<close>: streams of characters, \<open>PhraseFileParser.hpp\<close> and \<open>Dictionaries.cpp\<close>.
      \<open>Properties_Format\<close>, \<open>Configuration\<close>: the \<open>.properties\<close> format, \<open>util/Config.cpp\<close> and
      \<open>Configuration.cpp\<close> with files that extend each other.
    \<^item> \<open>Postlists\<close>: \<open>invertedindex\<close>'s byte buffers, value iterators, posting lists that are paged or
      swapped out, and their builder; \<open>Postlist_Files\<close>: \<open>PostlistReader.hpp\<close> and writing;
      \<open>Storage\<close>: \<open>StorageWriter.hpp\<close>, \<open>StorageReader.hpp\<close> and \<open>Searcher.hpp\<close>.
      \<open>Checksum\<close>: primes and string hashes.  \<open>Big_Hash_Map\<close>: \<open>bighashmap/\<close>, the maps on disk with
      perfect hashing, which are the header table of an index and the phrase dictionary.
      \<open>Postlist_Sorter\<close>: sorting in memory or by merging; \<open>Index_Strategies\<close>: \<open>SortedInput.hpp\<close>
      and \<open>UnsortedInput.hpp\<close>.
    \<^item> \<open>Phrase_Index\<close>: \<open>PhraseFileReader.hpp\<close>, \<open>Indexer.hpp\<close>, \<open>ManagedIndexer.hpp\<close> and \<open>BuildPhraseIndex\<close>;
      \<open>Built_Search\<close> shows that the search over the index that was built meets what \<open>Corpus_Search\<close>
      supposes of an index.  \<open>Corpus_Tools\<close>: \<open>MergeDuplicates\<close>, \<open>BuildRegexVocabulary\<close> and
      \<open>IndexPostlist\<close> of \<open>indexing.cpp\<close>.  \<open>Built_Netspeak\<close>: \<open>BuildPhraseDictionary\<close> and
      \<open>BuildPostlistIndex\<close>, and the search on the three tables that are built of the files.
    \<^item> \<open>Json_Writer\<close>: \<open>util/JsonWriter.hpp\<close>, whose types are the states of the writer.  \<open>Services\<close> and
      \<open>Request_Logger\<close>: \<open>service/UniqueMap\<close>, \<open>LoadBalanceProxy\<close>, \<open>RequestLogger\<close> and \<open>tracking\<close>.

  What is shown.  The norm queries accept exactly the accepted phrases of the parse tree within
  the length constraints (soundness, completeness, exactness of every stage), the budgets are
  respected, the errors are the intended ones, and every word keeps a valid source.  The
  optimizer, the builder of regex queries and the regex parser are equivalent to reference
  definitions.  The hash table finds every word, regex matches are the right ones in order.  A
  search over an index that represents a corpus returns the most frequent accepted phrases; the
  cache does not change that for requests that differ in the number of phrases, and it never
  breaks the soundness of a response.  The corpus files, the id map, phrase files and properties
  are read back as they were written.  An index that is built from records by either strategy,
  through bucket files, sorting, paging, data files and the perfect hash of the header table, answers
  every key with exactly its values in the configured order; the dictionary, the phrase index and
  the postlist index of phrase files are the ones the search supposes, so the most frequent accepted
  phrases of the files are found, provided that texts that are not in a table differ from its keys in
  the checksum and that the frequencies in a list with a jump index are different.  Merging duplicates adds up
  the frequencies of every n-gram, and the regex vocabulary is complete and sorted.  Opening a configuration returns
  exactly when no file extends itself, with the value nearest to the file.  A proxy answers every
  request from a server of the wanted corpus, the logger logs every request once, and the JSON
  writer can only write JSON.  Several theorems state what the code gets wrong at a concrete input.

  Parameters, with what is assumed of them: ICU lower-casing and \<open>boost::split\<close> (a split is not
  empty), Boost.Regex (matches the pattern's language), the clock, \<open>boost::lexical_cast\<close> (reads
  decimal numbers), the generated query parser (its calls are those of a tree of the grammar), the
  file system and \<open>boost::filesystem\<close> paths, the conversion of protobuf messages, the cmph library (a
  minimal perfect hash function for distinct keys), the contents of fresh memory, \<open>std::sort\<close> (sorts),
  the order of directories and hash tables (some permutation), estimates in floating point numbers
  (any), arithmetic on \<open>double\<close> (any), and for the search the inverted index and phrase dictionary, which
  are maps there (the index represents the corpus, a phrase is not more frequent than its parts,
  posting lists are not pruned).
  Bounds: widths and lengths below \<open>2 ^ 32 - 1\<close> where the code uses that value as infinity; counts
  below \<open>2 ^ 32\<close> where it stores them in 32 bits; a posting list below \<open>2 ^ 31\<close> bytes, an index below
  \<open>2 ^ 44\<close> bytes, so that its 65536 data files are enough, and below ten million keys, so that
  one hash map is made.  The loop that merges sorted parts and the one that reads a posting list carry
  fuel, the number of bytes and of values; each round takes one value, so it never runs out.

  Not modelled: the ANTLR parser and the other generated code, gRPC transport, the command line
  and the Python bindings (glue and input/output); \<open>Netspeak::initialize\<close>, which opens the components;
  memory mapping and logging; of \<open>indexing.cpp\<close> the creation of directories and \<open>SetReadOnly\<close>;
  \<open>InvertedFileReader\<close>, which the program does not use.
\<close>

section \<open>A concrete normalizer\<close>

text \<open>The instances at which the hypotheses of the properties are discharged.\<close>

definition ex_nz :: normalizer where
  "ex_nz = \<lparr>nz_regex_index = Some (\<lambda>t m time. take (unat m) [''cat'', ''car'']),
    nz_dictionary = Some [(''big'', ''large'')], nz_lower_case = False,
    nz_to_lower = (\<lambda>s. s), nz_split = (\<lambda>s. [s])\<rparr>"

definition ex_opts :: norm_options where
  "ex_opts = \<lparr>no_max_norm_queries = 100, no_min_length = 1, no_max_length = 3,
    no_max_regex_matches = 5, no_max_regex_time = 10\<rparr>"

text \<open>The query \<open>the * /ca?/\<close>.\<close>

definition ex_query :: qunit where
  "ex_query = QAlternation [QConcat [QWord ''the'', QStar ''*'', QRegex ''ca?'']]"

definition ex_norm_queries :: "norm_query list" where
  "ex_norm_queries =
    [[NWord ''the'' [0, 0], NQMark [0, 1], NWord ''cat'' [0, 2]],
     [NWord ''the'' [0, 0], NWord ''cat'' [0, 2]],
     [NWord ''the'' [0, 0], NQMark [0, 1], NWord ''car'' [0, 2]],
     [NWord ''the'' [0, 0], NWord ''car'' [0, 2]]]"

lemma ex_normalize: "normalize ex_nz ex_query ex_opts [] = Inr ex_norm_queries"
  by code_simp

lemma ex_width: "q_width (nz_env ex_nz ex_opts) ex_query < 2 ^ 32 - 1"
  by (simp add: ex_query_def)

section \<open>The normalizer\<close>

text \<open>
  C1. Soundness of \<open>QueryNormalizer::normalize\<close>: every phrase that one of the produced norm
  queries matches is a phrase the parsed query accepts, with the regexes standing for the
  words the index returned, and its length lies between \<open>min_length\<close> and \<open>max_length\<close>.
\<close>

theorem normalize_soundness:
  assumes "normalize nz query opts [] = Inr nqs" and "q_width (nz_env nz opts) query < 2 ^ 32 - 1"
    and "nq \<in> set nqs" and "n_matches nq p"
  shows "p \<in> q_lang (nz_env nz opts) (query_regex_words nz opts query) query
    \<and> unat (no_min_length opts) \<le> length p \<and> length p \<le> unat (no_max_length opts)"
  using normalize_sound [OF assms] by blast

theorem normalize_soundness_witness:
  "[''the'', ''fat'', ''cat''] \<in> q_lang (nz_env ex_nz ex_opts) (query_regex_words ex_nz ex_opts ex_query) ex_query"
  using normalize_soundness [OF ex_normalize ex_width, of "ex_norm_queries ! 0" "[''the'', ''fat'', ''cat'']"]
  by (simp add: ex_norm_queries_def n_matches_def)


lemma ex_query_lang_gen:
  assumes "regex_words e R ''ca?'' = {''cat'', ''car''}" and "get_text e ''the'' = ''the''"
  shows "q_lang e R ex_query = {''the'' # p @ [w] | p w. w = ''cat'' \<or> w = ''car''}"
  by (auto simp: ex_query_def assms conc_def)

lemma ex_query_lang:
  "q_lang (nz_env ex_nz ex_opts) (query_regex_words ex_nz ex_opts ex_query) ex_query
    = {''the'' # p @ [w] | p w. w = ''cat'' \<or> w = ''car''}"
proof (rule ex_query_lang_gen)
  show "regex_words (nz_env ex_nz ex_opts) (query_regex_words ex_nz ex_opts ex_query) ''ca?''
      = {''cat'', ''car''}"
    by code_simp
qed (simp add: get_text_def nz_env_def ex_nz_def)



lemma ex_too_many:
  "normalize ex_nz (QAlternation [QConcat [QStar ''*'', QWord ''a'']])
      (ex_opts\<lparr>no_max_norm_queries := 1\<rparr>) [] = Inl (InvalidQuery ''Too many norm queries'')"
  by code_simp


text \<open>
  C19. Source tracking: every unit of every produced norm query carries the path of a unit of the
  parsed query that can produce it - a word comes from a word, a regex or a dictionary set of
  the query, a question mark from \<open>?\<close>, \<open>*\<close> or \<open>+\<close>.
\<close>

theorem normalize_source_tracking:
  assumes "normalize nz query opts [] = Inr nqs" and "q_width (nz_env nz opts) query < 2 ^ 32 - 1"
    and "nq \<in> set nqs" and "u \<in> set nq"
  shows "n_origin_ok query u"
  by (rule normalize_sources [OF assms])

theorem normalize_source_tracking_witness: "n_origin_ok ex_query (NWord ''cat'' [0, 2])"
  by (rule normalize_source_tracking [OF ex_normalize ex_width, of "ex_norm_queries ! 0"])
    (simp_all add: ex_norm_queries_def)

text \<open>
  C18. The regex budget: when \<open>normalize_regexes\<close> has replaced the regexes of a query, the final
  stage stays within \<open>max_norm_queries\<close> and does not throw, for an index that returns at most
  as many words as it is asked for and an estimate whose exact value fits into 64 bits.
\<close>

theorem regexes_respect_budget:
  assumes "normalize_regexes nz opts simple = Inr s'" and "has_regex simple"
    and "s_width simple < 2 ^ 32 - 1"
    and "\<And>f t m time. nz_regex_index nz = Some f \<Longrightarrow> length (f t m time) \<le> unat m"
    and "est_nat (no_max_length opts) (unat (best_max_matches opts simple)) simple
      \<lparr>mg_before = 0, mg_after = 0\<rparr> < 2 ^ 64"
  shows "\<exists>nqs. to_norm_queries opts [] s' = Inr nqs \<and> length nqs \<le> unat (no_max_norm_queries opts)"
  by (rule regex_budget [where nz = nz and simple = simple]) (use assms in simp_all)

definition ex_regex_simple :: simple_unit where
  "ex_regex_simple = SConcat [] [SStar [0], SRegex ''ca?'' [1]]"

theorem regexes_respect_budget_witness:
  "\<exists>nqs. to_norm_queries ex_opts [] (SConcat [] [SStar [0], SAlt [1] [SWord ''cat'' [1], SWord ''car'' [1]]])
    = Inr nqs \<and> length nqs \<le> unat (no_max_norm_queries ex_opts)"
proof (rule regexes_respect_budget [where nz = ex_nz and simple = ex_regex_simple])
  have b: "best_max_matches ex_opts ex_regex_simple = 5" by code_simp
  show "normalize_regexes ex_nz ex_opts ex_regex_simple
      = Inr (SConcat [] [SStar [0], SAlt [1] [SWord ''cat'' [1], SWord ''car'' [1]]])"
    by code_simp
  show "has_regex ex_regex_simple" by code_simp
  show "s_width ex_regex_simple < 2 ^ 32 - 1" by (simp add: ex_regex_simple_def)
  show "\<And>f t m time. nz_regex_index ex_nz = Some f \<Longrightarrow> length (f t m time) \<le> unat m"
    by (auto simp: ex_nz_def)
  show "est_nat (no_max_length ex_opts) (unat (best_max_matches ex_opts ex_regex_simple)) ex_regex_simple
      \<lparr>mg_before = 0, mg_after = 0\<rparr> < 2 ^ 64"
    unfolding b by (simp add: ex_regex_simple_def ex_opts_def mg_total_def mg_add_def)
qed

text \<open>
  C23. The lost phrases: \<open>to_norm_queries\<close> drops a star query whose fixed part is shorter than
  \<open>min_length\<close> although its stars could fill the gap.  With a minimum length of 3 the query
  \<open>foo * bar\<close> accepts \<open>foo x bar\<close>, whose length is within the options, and yet normalization
  succeeds with no norm query at all.
\<close>

theorem short_star_queries_lost:
  "normalize ex_nz (QAlternation [QConcat [QWord ''foo'', QStar ''*'', QWord ''bar'']])
      (ex_opts\<lparr>no_min_length := 3\<rparr>) [] = Inr []
    \<and> [''foo'', ''x'', ''bar''] \<in> q_lang (nz_env ex_nz (ex_opts\<lparr>no_min_length := 3\<rparr>)) R
        (QAlternation [QConcat [QWord ''foo'', QStar ''*'', QWord ''bar'']])"
proof
  show "normalize ex_nz (QAlternation [QConcat [QWord ''foo'', QStar ''*'', QWord ''bar'']])
      (ex_opts\<lparr>no_min_length := 3\<rparr>) [] = Inr []"
    by code_simp
  show "[''foo'', ''x'', ''bar''] \<in> q_lang (nz_env ex_nz (ex_opts\<lparr>no_min_length := 3\<rparr>)) R
      (QAlternation [QConcat [QWord ''foo'', QStar ''*'', QWord ''bar'']])"
    by (simp add: conc_def get_text_def nz_env_def ex_nz_def)
qed

end
